(* ===== verification/LuaPrelude.thy ===== *)
theory LuaPrelude
  imports Main "HOL-Library.Word"
begin

text \<open>
  Shared vocabulary of the development: machine types of the C code, the result type of an
  operation that may raise a Lua error, and the generic facts that the component theories
  share.

  The C types are those of the LP64 platforms the makefile builds for: \<open>int\<close> and
  \<open>unsigned int\<close> have 32 bits, \<open>size_t\<close>, \<open>ptrdiff_t\<close> and pointers 64, and
  \<open>lua_Number\<close> is an IEEE double.
\<close>

section \<open>Machine types\<close>

type_synonym byte = "8 word"
type_synonym u32 = "32 word"
type_synonym u64 = "64 word"

text \<open>An address of a collectable object or a C pointer held in a Lua value.\<close>

type_synonym ptr = "64 word"

abbreviation INT_MIN :: int where
  "INT_MIN \<equiv> - 2147483648"

abbreviation INT_MAX :: int where
  "INT_MAX \<equiv> 2147483647"

text \<open>\<open>MAX_INT\<close> of \<^verbatim>\<open>llimits.h\<close>.\<close>

abbreviation MAX_INT :: int where
  "MAX_INT \<equiv> 2147483645"

definition in_int :: "int \<Rightarrow> bool" where
  "in_int k \<longleftrightarrow> INT_MIN \<le> k \<and> k \<le> INT_MAX"

section \<open>Results\<close>

text \<open>
  \<open>Ok\<close> is a normal return; \<open>Err\<close> a \<open>longjmp\<close> to the nearest protected call with
  the status and the message the code raises (\<open>ArgError\<close>: the number and the message
  given to \<open>luaL_argerror\<close>, which adds the name of the function); \<open>Diverge\<close> a call that does not return;
  \<open>Undef\<close> a step the C standard leaves undefined (a read outside an object).
\<close>

datatype lua_error =
    RunError string
  | SyntaxError string
  | ArgError nat string

text \<open>\<open>LUA_QL\<close>: how error messages quote program elements\<close>

definition LUA_QL :: "string \<Rightarrow> string" where
  "LUA_QL x = CHR 0x27 # x @ [CHR 0x27]"

datatype 'a result =
    Ok 'a
  | Err lua_error
  | Diverge
  | Undef

fun rbind :: "'a result \<Rightarrow> ('a \<Rightarrow> 'b result) \<Rightarrow> 'b result" where
  "rbind (Ok x) f = f x"
| "rbind (Err e) f = Err e"
| "rbind Diverge f = Diverge"
| "rbind Undef f = Undef"

fun is_Ok :: "'a result \<Rightarrow> bool" where
  "is_Ok (Ok _) = True"
| "is_Ok _ = False"

lemma rbind_Ok_iff: "rbind r f = Ok y \<longleftrightarrow> (\<exists>x. r = Ok x \<and> f x = Ok y)"
  by (cases r) auto

lemma rbind_OkE:
  assumes "rbind r f = Ok y"
  obtains x where "r = Ok x" and "f x = Ok y"
  using assms by (cases r) auto

lemma rbind_assoc: "rbind (rbind r f) g = rbind r (\<lambda>x. rbind (f x) g)"
  by (cases r) simp_all

lemma is_Ok_iff: "is_Ok r \<longleftrightarrow> (\<exists>x. r = Ok x)"
  by (cases r) simp_all

text \<open>A step that returns, with a value satisfying \<open>Q\<close>.\<close>

definition yields :: "('a \<Rightarrow> bool) \<Rightarrow> 'a result \<Rightarrow> bool" where
  "yields Q r \<longleftrightarrow> (\<exists>x. r = Ok x \<and> Q x)"

lemma yields_simps [simp]:
  "yields Q (Ok x) = Q x" "\<not> yields Q (Err e)" "\<not> yields Q Diverge" "\<not> yields Q Undef"
  by (simp_all add: yields_def)

lemma yields_bind: "yields P r \<Longrightarrow> (\<And>x. r = Ok x \<Longrightarrow> P x \<Longrightarrow> yields Q (f x)) \<Longrightarrow> yields Q (rbind r f)"
  by (auto simp: yields_def)

lemma yields_mono: "yields P r \<Longrightarrow> (\<And>x. P x \<Longrightarrow> Q x) \<Longrightarrow> yields Q r"
  by (auto simp: yields_def)

lemma rbind_cong [fundef_cong]:
  "r = r' \<Longrightarrow> (\<And>x. r' = Ok x \<Longrightarrow> f x = g x) \<Longrightarrow> rbind r f = rbind r' g"
  by (cases r') auto

section \<open>Steps on a state\<close>

text \<open>
  A function of the code that reads and changes a state and may raise an error. The state is
  lost on an error, as the code abandons it.
\<close>

type_synonym ('s, 'a) step = "'s \<Rightarrow> ('a \<times> 's) result"

definition sret :: "'a \<Rightarrow> ('s, 'a) step" where
  "sret x s = Ok (x, s)"

definition sbind :: "('s, 'a) step \<Rightarrow> ('a \<Rightarrow> ('s, 'b) step) \<Rightarrow> ('s, 'b) step" where
  "sbind m f s = rbind (m s) (\<lambda>(x, s'). f x s')"

lemma sret_Ok [simp]: "sret x s = Ok y \<longleftrightarrow> y = (x, s)"
  by (auto simp: sret_def)

lemma sbind_sret [simp]: "sbind (sret x) f = f x"
  by (simp add: sbind_def sret_def fun_eq_iff)

lemma sbind_Ok: "m s = Ok (x, s') \<Longrightarrow> sbind m f s = f x s'"
  by (simp add: sbind_def)

lemma sbind_OkE:
  assumes "sbind m f s = Ok r"
  obtains x s' where "m s = Ok (x, s')" and "f x s' = Ok r"
  using assms by (auto simp: sbind_def elim!: rbind_OkE)

lemma sbind_cong [fundef_cong]:
  "m s = m' s' \<Longrightarrow> (\<And>x t. m' s' = Ok (x, t) \<Longrightarrow> f x t = g x t) \<Longrightarrow> s = s' \<Longrightarrow> sbind m f s = sbind m' g s'"
  by (cases "m' s'") (auto simp: sbind_def)

section \<open>Generic facts\<close>

lemma uint_drop_bit: "uint (drop_bit k x) = uint x div 2 ^ k"
  unfolding unsigned_drop_bit_eq by (simp add: drop_bit_eq_div take_bit_int_eq_self)

lemma unat_drop_bit: "unat (drop_bit k x) = unat x div 2 ^ k"
  unfolding unsigned_drop_bit_eq by (simp add: drop_bit_eq_div take_bit_nat_eq_self)

lemma word_le_uint: "numeral n \<le> (x :: 32 word) \<longleftrightarrow> uint (numeral n :: 32 word) \<le> uint x"
  by (simp add: word_le_def)

lemma uint_Suc: "x + 1 \<noteq> 0 \<Longrightarrow> uint (x + 1) = uint x + 1"
  by (metis of_nat_Suc uint_nat unatSuc add.commute)

lemma uint_pred: "x \<noteq> 0 \<Longrightarrow> uint (x - 1) = uint x - 1"
  using uint_Suc [of "x - 1"] by simp

text \<open>The number of binary digits of a positive integer.\<close>

function nbits :: "int \<Rightarrow> nat" where
  "nbits n = (if n \<le> 0 then 0 else Suc (nbits (n div 2)))"
  by pat_completeness auto
termination
  by (relation "measure nat") auto

declare nbits.simps [simp del]

lemma nbits_0 [simp]: "nbits 0 = 0"
  by (simp add: nbits.simps)

lemma nbits_pos: "0 < n \<Longrightarrow> 0 < nbits n"
  by (subst nbits.simps) simp

lemma nbits_upper: "n < 2 ^ nbits n"
proof (induction n rule: nbits.induct)
  case (1 n)
  show ?case
  proof (cases "n \<le> 0")
    case False
    then have "n div 2 < 2 ^ nbits (n div 2)" by (rule "1.IH")
    then have "n < 2 * 2 ^ nbits (n div 2)" by linarith
    with False show ?thesis by (simp add: nbits.simps [of n])
  next
    case True
    then show ?thesis by (simp add: nbits.simps [of n])
  qed
qed

lemma nbits_lower: "0 < n \<Longrightarrow> 2 ^ (nbits n - 1) \<le> n"
proof (induction n rule: nbits.induct)
  case (1 n)
  show ?case
  proof (cases "n = 1")
    case True
    then show ?thesis by (simp add: nbits.simps)
  next
    case False
    with "1.prems" have pos: "0 < n div 2" by simp
    with "1" have IH: "2 ^ (nbits (n div 2) - 1) \<le> n div 2" by simp
    from pos have "2 ^ nbits (n div 2) = 2 * (2::int) ^ (nbits (n div 2) - 1)"
      using nbits_pos [OF pos] by (simp add: power_eq_if)
    also have "\<dots> \<le> 2 * (n div 2)" using IH by simp
    also have "\<dots> \<le> n" by simp
    finally show ?thesis using "1.prems" by (simp add: nbits.simps [of n])
  qed
qed

lemma nbits_le: "n < 2 ^ k \<Longrightarrow> nbits n \<le> k"
proof (cases "0 < n")
  case True
  assume "n < 2 ^ k"
  with True have "2 ^ (nbits n - 1) < (2::int) ^ k"
    using nbits_lower [of n] by linarith
  then have "nbits n - 1 < k" by (rule power_less_imp_less_exp [rotated]) simp
  then show ?thesis by linarith
next
  case False
  then show ?thesis by (simp add: nbits.simps)
qed

lemma nbits_eqI:
  assumes "2 ^ k \<le> n" and "n < 2 ^ Suc k"
  shows "nbits n = Suc k"
proof -
  have "(2::int) ^ k < 2 ^ nbits n"
    using nbits_upper assms(1) by (rule le_less_trans [rotated])
  then have "k < nbits n" by (rule power_less_imp_less_exp [rotated]) simp
  moreover have "nbits n \<le> Suc k" using assms(2) by (rule nbits_le)
  ultimately show ?thesis by simp
qed

end
