(* ===== verification/LuaNumber.thy ===== *)
theory LuaNumber
  imports LuaPrelude
begin

text \<open>
  \<open>lua_Number\<close> and the primitive operations of \<^verbatim>\<open>luaconf.h\<close> over it. A number is the
  64-bit pattern of an IEEE-754 double, so that the code which looks at the bytes of a
  number (hashing, dumping) can be modelled; comparison, conversion and addition are defined
  on the pattern as the standard prescribes, with rounding to nearest even.
\<close>

type_synonym lua_Number = u64

section \<open>Fields of the pattern\<close>

definition dbl_neg :: "lua_Number \<Rightarrow> bool" where
  "dbl_neg x \<longleftrightarrow> 2 ^ 63 \<le> uint x"

definition dbl_mag :: "lua_Number \<Rightarrow> int" where
  "dbl_mag x = uint x mod 2 ^ 63"

definition dbl_exp :: "lua_Number \<Rightarrow> int" where
  "dbl_exp x = dbl_mag x div 2 ^ 52"

definition dbl_frac :: "lua_Number \<Rightarrow> int" where
  "dbl_frac x = dbl_mag x mod 2 ^ 52"

text \<open>\<open>luai_numisnan\<close>\<close>

definition num_isnan :: "lua_Number \<Rightarrow> bool" where
  "num_isnan x \<longleftrightarrow> dbl_exp x = 2047 \<and> dbl_frac x \<noteq> 0"

definition num_isinf :: "lua_Number \<Rightarrow> bool" where
  "num_isinf x \<longleftrightarrow> dbl_exp x = 2047 \<and> dbl_frac x = 0"

text \<open>A finite number is \<open>\<plusminus> dbl_man * 2 powr dbl_pow\<close>.\<close>

definition dbl_man :: "lua_Number \<Rightarrow> int" where
  "dbl_man x = (if dbl_exp x = 0 then dbl_frac x else dbl_frac x + 2 ^ 52)"

definition dbl_pow :: "lua_Number \<Rightarrow> int" where
  "dbl_pow x = max (dbl_exp x) 1 - 1075"

section \<open>Comparison\<close>

text \<open>
  For numbers that are not NaN the order of the values is the order of the sign-magnitude
  integers; both zeros have key 0.
\<close>

definition dbl_key :: "lua_Number \<Rightarrow> int" where
  "dbl_key x = (if dbl_neg x then - dbl_mag x else dbl_mag x)"

definition num_eq :: "lua_Number \<Rightarrow> lua_Number \<Rightarrow> bool" where
  "num_eq a b \<longleftrightarrow> \<not> num_isnan a \<and> \<not> num_isnan b \<and> dbl_key a = dbl_key b"

definition num_lt :: "lua_Number \<Rightarrow> lua_Number \<Rightarrow> bool" where
  "num_lt a b \<longleftrightarrow> \<not> num_isnan a \<and> \<not> num_isnan b \<and> dbl_key a < dbl_key b"

definition num_le :: "lua_Number \<Rightarrow> lua_Number \<Rightarrow> bool" where
  "num_le a b \<longleftrightarrow> \<not> num_isnan a \<and> \<not> num_isnan b \<and> dbl_key a \<le> dbl_key b"

section \<open>Rounding\<close>

text \<open>
  The pattern with sign \<open>s\<close>, significand \<open>m\<close> and exponent \<open>e\<close>. A significand of
  \<open>2 ^ 53\<close> carries into the exponent field, and a magnitude past the largest finite one is
  an infinity.
\<close>

definition dbl_encode :: "bool \<Rightarrow> int \<Rightarrow> int \<Rightarrow> lua_Number" where
  "dbl_encode s m e =
     (let mag = min (m + (e + 1074) * 2 ^ 52) (2047 * 2 ^ 52)
      in word_of_int (mag + (if s then 2 ^ 63 else 0)))"

text \<open>The quotient \<open>num / den\<close>, rounded to nearest, ties to even.\<close>

definition dbl_round :: "bool \<Rightarrow> int \<Rightarrow> int \<Rightarrow> lua_Number" where
  "dbl_round s num den =
     (if num = 0 then dbl_encode s 0 (- 1074)
      else let e0 = int (nbits num) - int (nbits den) - 53;
               e1 = (if 2 ^ 53 * (den * 2 ^ nat e0) \<le> num * 2 ^ nat (- e0) then e0 + 1 else e0);
               e = max e1 (- 1074);
               N = num * 2 ^ nat (- e);
               D = den * 2 ^ nat e;
               q = N div D;
               r = N mod D
           in dbl_encode s (if D < 2 * r \<or> (2 * r = D \<and> odd q) then q + 1 else q) e)"

section \<open>Conversions\<close>

text \<open>\<open>cast_num\<close> of an integer\<close>

definition cast_num :: "int \<Rightarrow> lua_Number" where
  "cast_num k = dbl_round (k < 0) \<bar>k\<bar> 1"

definition dbl_trunc :: "lua_Number \<Rightarrow> int" where
  "dbl_trunc x =
     (let m = (if 0 \<le> dbl_pow x then dbl_man x * 2 ^ nat (dbl_pow x)
               else dbl_man x div 2 ^ nat (- dbl_pow x))
      in if dbl_neg x then - m else m)"

text \<open>
  \<open>lua_number2int\<close>, the cast \<open>(int)(d)\<close>. Out of the range of \<open>int\<close> the C standard
  leaves the value open; the SSE2 instruction the platform uses gives \<open>INT_MIN\<close>.
\<close>

definition lua_number2int :: "lua_Number \<Rightarrow> int" where
  "lua_number2int x =
     (if dbl_exp x = 2047 \<or> \<not> in_int (dbl_trunc x) then INT_MIN else dbl_trunc x)"

section \<open>Addition\<close>

definition num_quiet :: "lua_Number \<Rightarrow> lua_Number" where
  "num_quiet x = or x (2 ^ 51)"

definition dbl_scaled :: "lua_Number \<Rightarrow> int \<Rightarrow> int" where
  "dbl_scaled x q =
     (let m = dbl_man x * 2 ^ nat (dbl_pow x - q) in if dbl_neg x then - m else m)"

text \<open>\<open>luai_numadd\<close>\<close>

definition num_add :: "lua_Number \<Rightarrow> lua_Number \<Rightarrow> lua_Number" where
  "num_add a b =
     (if num_isnan a then num_quiet a
      else if num_isnan b then num_quiet b
      else if num_isinf a then (if num_isinf b \<and> dbl_neg a \<noteq> dbl_neg b then 0xFFF8000000000000 else a)
      else if num_isinf b then b
      else let q = min (dbl_pow a) (dbl_pow b);
               s = dbl_scaled a q + dbl_scaled b q
           in if s = 0 then dbl_encode (dbl_neg a \<and> dbl_neg b) 0 (- 1074)
              else dbl_round (s < 0) (\<bar>s\<bar> * 2 ^ nat q) (2 ^ nat (- q)))"

section \<open>Lemmas\<close>

lemma uint_less_64: "uint (x :: lua_Number) < 2 ^ 64"
  using uint_lt2p [of x] by simp

lemma dbl_mag_less: "0 \<le> dbl_mag x" "dbl_mag x < 2 ^ 63"
  by (simp_all add: dbl_mag_def)

lemma uint_split: "uint x = dbl_mag x + (if dbl_neg x then 2 ^ 63 else 0)"
proof (cases "2 ^ 63 \<le> uint x")
  case True
  then have "uint x mod 2 ^ 63 = uint x - 2 ^ 63"
    using uint_less_64 [of x] by (intro int_mod_pos_eq [of _ _ 1]) simp_all
  with True show ?thesis by (simp add: dbl_neg_def dbl_mag_def)
next
  case False
  then show ?thesis using uint_less_64 [of x] by (simp add: dbl_neg_def dbl_mag_def)
qed

lemma dbl_fields_pos: "0 \<le> dbl_exp x" "0 \<le> dbl_frac x" "dbl_frac x < 2 ^ 52"
  using dbl_mag_less [of x] by (simp_all add: dbl_exp_def dbl_frac_def)

lemma dbl_mag_split: "dbl_mag x = dbl_exp x * 2 ^ 52 + dbl_frac x"
  unfolding dbl_exp_def dbl_frac_def by (metis div_mult_mod_eq)

lemma num_eq_sym: "num_eq a b \<longleftrightarrow> num_eq b a"
  by (auto simp: num_eq_def)

lemma num_eq_trans: "num_eq a b \<Longrightarrow> num_eq b c \<Longrightarrow> num_eq a c"
  by (auto simp: num_eq_def)

lemma num_eq_refl: "num_eq a a \<longleftrightarrow> \<not> num_isnan a"
  by (auto simp: num_eq_def)

text \<open>Equal numbers have the same pattern, but for the two zeros.\<close>

lemma num_eq_cases:
  assumes "num_eq a b"
  obtains "a = b" | "dbl_mag a = 0" and "dbl_mag b = 0"
proof -
  note pos = dbl_mag_less(1) [of a] dbl_mag_less(1) [of b]
  show thesis
proof (cases "dbl_mag a = 0")
  case True
  with assms pos that(2) show thesis
    by (auto simp: num_eq_def dbl_key_def split: if_splits)
next
  case False
  with assms pos have "dbl_neg a = dbl_neg b" and "dbl_mag a = dbl_mag b"
    by (auto simp: num_eq_def dbl_key_def split: if_splits)
  then have "uint a = uint b" by (simp add: uint_split)
  then show thesis using that(1) by (simp add: word_uint_eq_iff)
qed
qed

lemma dbl_zero_fields:
  assumes "dbl_mag x = 0"
  shows "dbl_exp x = 0" and "dbl_frac x = 0" and "dbl_man x = 0" and "dbl_pow x = - 1074"
    and "\<not> num_isnan x" and "\<not> num_isinf x"
  using assms by (simp_all add: dbl_exp_def dbl_frac_def dbl_man_def dbl_pow_def
    num_isnan_def num_isinf_def)

lemma dbl_trunc_zero: "dbl_mag x = 0 \<Longrightarrow> dbl_trunc x = 0"
  by (simp add: dbl_trunc_def dbl_zero_fields)

lemma number2int_eq: "num_eq a b \<Longrightarrow> lua_number2int a = lua_number2int b"
  by (erule num_eq_cases) (simp_all add: lua_number2int_def dbl_trunc_zero dbl_zero_fields)

text \<open>
  \<open>n += 1\<close> in \<open>hashnum\<close> maps the two zeros to one pattern, so equal numbers have the same
  pattern after it.
\<close>

lemma num_add_eq:
  assumes "num_eq a b" and one: "\<not> num_isnan c" "\<not> num_isinf c" "dbl_mag c \<noteq> 0"
  shows "num_add a c = num_add b c"
  using assms(1)
proof (cases rule: num_eq_cases)
  case 2
  have "dbl_scaled a q = 0" and "dbl_scaled b q = 0" for q
    by (simp_all add: dbl_scaled_def dbl_zero_fields 2)
  moreover have "dbl_man c \<noteq> 0"
    using one dbl_mag_split [of c] dbl_fields_pos [of c] by (auto simp: dbl_man_def)
  then have "dbl_scaled c q \<noteq> 0" for q by (simp add: dbl_scaled_def Let_def)
  ultimately show ?thesis using one
    by (simp add: num_add_def dbl_zero_fields 2 Let_def)
qed simp

lemma uint_word_of_int_64: "0 \<le> v \<Longrightarrow> v < 2 ^ 64 \<Longrightarrow> uint (word_of_int v :: lua_Number) = v"
  by (simp add: uint_word_of_int)

lemma mod_add_mult_self: "0 \<le> a \<Longrightarrow> a < b \<Longrightarrow> (a + k * b) mod b = (a :: int)"
  by simp

lemma div_add_mult_self: "0 \<le> a \<Longrightarrow> a < b \<Longrightarrow> (a + k * b) div b = (k :: int)"
  by simp

lemma uint_dbl_encode:
  assumes "0 \<le> m" "- 1074 \<le> e" and "m + (e + 1074) * 2 ^ 52 < 2047 * 2 ^ 52"
  shows "uint (dbl_encode s m e) = m + (e + 1074) * 2 ^ 52 + (if s then 2 ^ 63 else 0)"
proof -
  let ?v = "m + (e + 1074) * 2 ^ 52 + (if s then 2 ^ 63 else 0)"
  have "0 \<le> (e + 1074) * 2 ^ 52" using assms(2) by simp
  then have "0 \<le> ?v" and "?v < 2 ^ 64" using assms(1,3) by auto
  then have "uint (word_of_int ?v :: lua_Number) = ?v"
    by (rule uint_word_of_int_64)
  moreover have "dbl_encode s m e = word_of_int ?v"
    using assms unfolding dbl_encode_def Let_def by (subst min_absorb1) simp_all
  ultimately show ?thesis by metis
qed

lemma dbl_encode_fields:
  assumes "0 \<le> m" "- 1074 \<le> e" and "m + (e + 1074) * 2 ^ 52 < 2047 * 2 ^ 52"
  shows "dbl_neg (dbl_encode s m e) \<longleftrightarrow> s"
    and "dbl_mag (dbl_encode s m e) = m + (e + 1074) * 2 ^ 52"
proof -
  let ?v = "m + (e + 1074) * 2 ^ 52"
  have "0 \<le> (e + 1074) * 2 ^ 52" using assms(2) by simp
  then have v: "0 \<le> ?v" "?v < 2 ^ 63" using assms(1,3) by auto
  note U = uint_dbl_encode [OF assms, of s]
  show "dbl_neg (dbl_encode s m e) \<longleftrightarrow> s"
    using v unfolding dbl_neg_def U by simp
  show "dbl_mag (dbl_encode s m e) = ?v"
    using mod_add_mult_self [OF v, of "if s then 1 else 0"] unfolding dbl_mag_def U
    by (cases s) simp_all
qed

text \<open>A normal significand is read back as written.\<close>

lemma dbl_encode_normal:
  assumes m: "2 ^ 52 \<le> m" "m < 2 ^ 53" and e: "- 1074 \<le> e" "e \<le> 971"
  shows "dbl_man (dbl_encode s m e) = m" and "dbl_pow (dbl_encode s m e) = e"
    and "dbl_exp (dbl_encode s m e) = e + 1075" and "dbl_neg (dbl_encode s m e) = s"
proof -
  have b: "m + (e + 1074) * 2 ^ 52 < 2047 * 2 ^ 52" using m e by simp
  have m0: "0 \<le> m" using m by simp
  note F = dbl_encode_fields [OF m0 e(1) b, of s]
  have mag: "dbl_mag (dbl_encode s m e) = (m - 2 ^ 52) + (e + 1075) * 2 ^ 52"
    unfolding F(2) by simp
  have ex: "dbl_exp (dbl_encode s m e) = e + 1075"
    unfolding dbl_exp_def mag by (rule div_add_mult_self) (use m in simp_all)
  have fr: "dbl_frac (dbl_encode s m e) = m - 2 ^ 52"
    unfolding dbl_frac_def mag by (rule mod_add_mult_self) (use m in simp_all)
  show "dbl_man (dbl_encode s m e) = m" using e unfolding dbl_man_def ex fr by simp
  show "dbl_pow (dbl_encode s m e) = e" using e unfolding dbl_pow_def ex by simp
  show "dbl_exp (dbl_encode s m e) = e + 1075" by (rule ex)
  show "dbl_neg (dbl_encode s m e) = s" by (rule F(1))
qed

lemma nbits_scale:
  assumes "0 < n" and "n < 2 ^ 53"
  shows "0 < nbits n" and "nbits n \<le> 53"
    and "2 ^ 52 \<le> n * 2 ^ (53 - nbits n)" and "n * 2 ^ (53 - nbits n) < 2 ^ 53"
proof -
  let ?b = "nbits n"
  show b: "0 < ?b" "?b \<le> 53" using nbits_pos [OF assms(1)] nbits_le [OF assms(2)] by simp_all
  have "(2::int) ^ 52 = 2 ^ (?b - 1) * 2 ^ (53 - ?b)"
    using b by (simp flip: power_add)
  also have "\<dots> \<le> n * 2 ^ (53 - ?b)" using nbits_lower [OF assms(1)] by simp
  finally show "2 ^ 52 \<le> n * 2 ^ (53 - ?b)" .
  have "n * 2 ^ (53 - ?b) < 2 ^ ?b * 2 ^ (53 - ?b)" using nbits_upper by simp
  also have "\<dots> = 2 ^ 53" using b by (simp flip: power_add)
  finally show "n * 2 ^ (53 - ?b) < 2 ^ 53" .
qed

lemma dbl_round_int:
  assumes "0 < n" and "n < 2 ^ 53"
  shows "dbl_round s n 1 = dbl_encode s (n * 2 ^ (53 - nbits n)) (int (nbits n) - 53)"
proof -
  define b where "b = nbits n"
  note B = nbits_scale [OF assms, folded b_def]
  have one: "nbits 1 = 1" by (simp add: nbits.simps)
  have "(54 - b) = Suc (53 - b)" using B(2) by simp
  then have "(2::int) ^ 53 \<le> n * 2 ^ (54 - b)" using B(3) by simp
  moreover have "nat (int b - 54) = 0" "nat (54 - int b) = 54 - b" using B(2) by auto
  ultimately have c: "(2::int) ^ 53 * (1 * 2 ^ nat (int b - 54)) \<le> n * 2 ^ nat (- (int b - 54))"
    by simp
  have n1: "nat (int b - 53) = 0" "nat (53 - int b) = 53 - b" using B by auto
  have mx: "max (int b - 53) (- 1074) = int b - 53" using B by simp
  have e0: "int b - int 1 - 53 = int b - 54" "int b - 54 + 1 = int b - 53" by simp_all
  show ?thesis
    using assms c unfolding dbl_round_def one Let_def
    by (simp only: e0 if_True mx n1 flip: b_def) (simp add: n1)
qed

lemma cast_num_fields:
  assumes "k \<noteq> 0" and "\<bar>k\<bar> < 2 ^ 53"
  shows "dbl_man (cast_num k) = \<bar>k\<bar> * 2 ^ (53 - nbits \<bar>k\<bar>)"
    and "dbl_pow (cast_num k) = int (nbits \<bar>k\<bar>) - 53"
    and "dbl_exp (cast_num k) = int (nbits \<bar>k\<bar>) + 1022"
    and "dbl_neg (cast_num k) \<longleftrightarrow> k < 0"
proof -
  let ?n = "\<bar>k\<bar>"
  let ?b = "nbits ?n"
  have n: "0 < ?n" "?n < 2 ^ 53" using assms by auto
  note B = nbits_scale [OF n]
  have eq: "cast_num k = dbl_encode (k < 0) (?n * 2 ^ (53 - ?b)) (int ?b - 53)"
    unfolding cast_num_def by (rule dbl_round_int [OF n])
  have e: "- 1074 \<le> int ?b - 53" "int ?b - 53 \<le> 971" using B by simp_all
  note N = dbl_encode_normal [OF B(3,4) e, of "k < 0", folded eq]
  show "dbl_man (cast_num k) = ?n * 2 ^ (53 - ?b)" by (rule N(1))
  show "dbl_pow (cast_num k) = int ?b - 53" by (rule N(2))
  show "dbl_exp (cast_num k) = int ?b + 1022" using N(3) by simp
  show "dbl_neg (cast_num k) \<longleftrightarrow> k < 0" by (rule N(4))
qed

lemma cast_num_0: "cast_num 0 = 0"
  by (simp add: cast_num_def dbl_round_def dbl_encode_def)

lemma dbl_mag_0 [simp]: "dbl_mag 0 = 0"
  by (simp add: dbl_mag_def)

lemma dbl_trunc_cast_num:
  assumes "\<bar>k\<bar> < 2 ^ 53"
  shows "dbl_trunc (cast_num k) = k"
proof (cases "k = 0")
  case False
  let ?b = "nbits \<bar>k\<bar>"
  have b: "?b \<le> 53" using assms by (rule nbits_le)
  have "(if 0 \<le> int ?b - 53 then \<bar>k\<bar> * 2 ^ (53 - ?b) * 2 ^ nat (int ?b - 53)
      else \<bar>k\<bar> * 2 ^ (53 - ?b) div 2 ^ nat (- (int ?b - 53))) = \<bar>k\<bar>"
    using b by (auto simp: nat_diff_distrib)
  then show ?thesis
    unfolding dbl_trunc_def Let_def cast_num_fields [OF False assms] by (simp only:) simp
qed (simp add: cast_num_0 dbl_trunc_zero)

lemma cast_num_finite: "\<bar>k\<bar> < 2 ^ 53 \<Longrightarrow> dbl_exp (cast_num k) < 2047"
proof (cases "k = 0")
  case False
  assume a: "\<bar>k\<bar> < 2 ^ 53"
  then have "nbits \<bar>k\<bar> \<le> 53" by (rule nbits_le)
  then show ?thesis by (simp add: cast_num_fields(3) [OF False a])
qed (simp add: cast_num_0 dbl_zero_fields)

lemma cast_num_not_nan: "\<bar>k\<bar> < 2 ^ 53 \<Longrightarrow> \<not> num_isnan (cast_num k)"
  using cast_num_finite [of k] by (auto simp: num_isnan_def)

text \<open>Every \<open>int\<close> survives the trip through \<open>lua_Number\<close>.\<close>

lemma number2int_cast_num:
  assumes "in_int k"
  shows "lua_number2int (cast_num k) = k"
proof -
  have "\<bar>k\<bar> < 2 ^ 53" using assms by (auto simp: in_int_def)
  then have "dbl_exp (cast_num k) < 2047" and "dbl_trunc (cast_num k) = k"
    by (rule cast_num_finite, rule dbl_trunc_cast_num)
  with assms show ?thesis by (simp add: lua_number2int_def)
qed

lemma in_int_number2int: "in_int (lua_number2int x)"
  by (auto simp: lua_number2int_def in_int_def)

lemma cast_num_eq_iff:
  assumes "in_int j" and "in_int k"
  shows "num_eq (cast_num j) (cast_num k) \<longleftrightarrow> j = k"
proof
  assume "num_eq (cast_num j) (cast_num k)"
  then have "lua_number2int (cast_num j) = lua_number2int (cast_num k)"
    by (rule number2int_eq)
  with assms show "j = k" by (simp add: number2int_cast_num)
next
  assume "j = k"
  moreover have "\<bar>k\<bar> < 2 ^ 53" using assms by (auto simp: in_int_def)
  ultimately show "num_eq (cast_num j) (cast_num k)"
    by (simp add: num_eq_refl cast_num_not_nan)
qed

end
