(* ===== verification/LuaObject.thy ===== *)
theory LuaObject
  imports LuaNumber
begin

text \<open>
  Tagged values and the generic functions over them: \<^verbatim>\<open>lobject.h\<close>, \<^verbatim>\<open>lobject.c\<close>.
  A collectable value carries the address of its object; what the object holds is in the
  theory of the component that owns it.
\<close>

section \<open>Tagged values\<close>

text \<open>
  The constructors follow the type tags of \<^verbatim>\<open>lua.h\<close>. \<open>VDeadKey\<close> is the tag the
  collector gives to a node key whose object is gone (\<open>LUA_TDEADKEY\<close>).
\<close>

datatype TValue =
    VNil
  | VBoolean u32
  | VLightuserdata ptr
  | VNumber lua_Number
  | VString ptr
  | VTable ptr
  | VFunction ptr
  | VUserdata ptr
  | VThread ptr
  | VDeadKey ptr

fun ttype :: "TValue \<Rightarrow> nat" where
  "ttype VNil = 0"
| "ttype (VBoolean _) = 1"
| "ttype (VLightuserdata _) = 2"
| "ttype (VNumber _) = 3"
| "ttype (VString _) = 4"
| "ttype (VTable _) = 5"
| "ttype (VFunction _) = 6"
| "ttype (VUserdata _) = 7"
| "ttype (VThread _) = 8"
| "ttype (VDeadKey _) = 11"

definition ttisnil :: "TValue \<Rightarrow> bool" where
  "ttisnil o' \<longleftrightarrow> ttype o' = 0"

definition iscollectable :: "TValue \<Rightarrow> bool" where
  "iscollectable o' \<longleftrightarrow> 4 \<le> ttype o'"

text \<open>\<open>value.gc\<close>: the object a collectable value points to.\<close>

fun gcvalue :: "TValue \<Rightarrow> ptr" where
  "gcvalue (VString p) = p"
| "gcvalue (VTable p) = p"
| "gcvalue (VFunction p) = p"
| "gcvalue (VUserdata p) = p"
| "gcvalue (VThread p) = p"
| "gcvalue (VDeadKey p) = p"
| "gcvalue _ = 0"

definition l_isfalse :: "TValue \<Rightarrow> bool" where
  "l_isfalse o' \<longleftrightarrow> (case o' of VNil \<Rightarrow> True | VBoolean b \<Rightarrow> b = 0 | _ \<Rightarrow> False)"

lemma ttisnil_iff [simp]: "ttisnil v \<longleftrightarrow> v = VNil"
  by (cases v) (simp_all add: ttisnil_def)

section \<open>Raw equality\<close>

definition luaO_rawequalObj :: "TValue \<Rightarrow> TValue \<Rightarrow> bool" where
  "luaO_rawequalObj t1 t2 =
     (if ttype t1 \<noteq> ttype t2 then False
      else case (t1, t2) of
        (VNil, _) \<Rightarrow> True
      | (VNumber a, VNumber b) \<Rightarrow> num_eq a b
      | (VBoolean a, VBoolean b) \<Rightarrow> a = b
      | (VLightuserdata a, VLightuserdata b) \<Rightarrow> a = b
      | _ \<Rightarrow> gcvalue t1 = gcvalue t2)"

lemma rawequal_simps [simp]:
  "luaO_rawequalObj VNil v \<longleftrightarrow> v = VNil"
  "luaO_rawequalObj v VNil \<longleftrightarrow> v = VNil"
  "luaO_rawequalObj (VNumber a) v \<longleftrightarrow> (\<exists>b. v = VNumber b \<and> num_eq a b)"
  "luaO_rawequalObj (VBoolean p) v \<longleftrightarrow> v = VBoolean p"
  "luaO_rawequalObj (VLightuserdata q) v \<longleftrightarrow> v = VLightuserdata q"
  "luaO_rawequalObj (VString q) v \<longleftrightarrow> v = VString q"
  "luaO_rawequalObj (VTable q) v \<longleftrightarrow> v = VTable q"
  "luaO_rawequalObj (VFunction q) v \<longleftrightarrow> v = VFunction q"
  "luaO_rawequalObj (VUserdata q) v \<longleftrightarrow> v = VUserdata q"
  "luaO_rawequalObj (VThread q) v \<longleftrightarrow> v = VThread q"
  "luaO_rawequalObj (VDeadKey q) v \<longleftrightarrow> v = VDeadKey q"
  by (cases v; auto simp: luaO_rawequalObj_def)+

lemma rawequal_sym: "luaO_rawequalObj a b \<longleftrightarrow> luaO_rawequalObj b a"
  by (cases a; cases b) (auto simp: num_eq_sym)

lemma rawequal_trans:
  "luaO_rawequalObj a b \<Longrightarrow> luaO_rawequalObj b c \<Longrightarrow> luaO_rawequalObj a c"
  by (cases a; auto) (blast intro: num_eq_trans)

text \<open>Raw equality fails on itself for NaN only.\<close>

definition is_NaN :: "TValue \<Rightarrow> bool" where
  "is_NaN v \<longleftrightarrow> (case v of VNumber n \<Rightarrow> num_isnan n | _ \<Rightarrow> False)"

lemma rawequal_refl: "luaO_rawequalObj a a \<longleftrightarrow> \<not> is_NaN a"
  by (cases a) (auto simp: num_eq_refl is_NaN_def)

section \<open>Floating point bytes\<close>

function int2fb_loop :: "u32 \<Rightarrow> int \<Rightarrow> u32 \<times> int" where
  "int2fb_loop x e =
     (if 16 \<le> x then int2fb_loop (drop_bit 1 (x + 1)) (e + 1) else (x, e))"
  by pat_completeness auto
termination
proof (relation "measure (\<lambda>(x, e). unat x)", goal_cases)
  case (2 x e)
  have "unat (drop_bit 1 (x + 1)) < unat x"
  proof (cases "x + 1 = 0")
    case True
    with 2 show ?thesis by (simp add: word_le_nat_alt)
  next
    case False
    then have "unat (x + 1) = unat x + 1"
      using unatSuc [of x] by (simp add: add.commute)
    then have "unat (drop_bit 1 (x + 1)) = (unat x + 1) div 2"
      by (simp only: unat_drop_bit power_one_right)
    with 2 show ?thesis by (simp add: word_le_nat_alt)
  qed
  then show ?case by simp
qed simp

declare int2fb_loop.simps [simp del]

definition luaO_int2fb :: "u32 \<Rightarrow> int" where
  "luaO_int2fb x0 =
     (let (x, e) = int2fb_loop x0 0
      in if x < 8 then uint x else (e + 1) * 8 + (uint x - 8))"

text \<open>The shift is undefined when the value does not fit an \<open>int\<close>.\<close>

definition luaO_fb2int :: "int \<Rightarrow> int result" where
  "luaO_fb2int x =
     (let e = (x div 8) mod 32;
          v = (x mod 8 + 8) * 2 ^ nat (e - 1)
      in if e = 0 then Ok x else if v \<le> INT_MAX then Ok v else Undef)"

text \<open>The significand and the exponent the loop ends with, for the value it started from.\<close>

lemma int2fb_loop_spec:
  assumes "int2fb_loop x e = (x', e')" and "0 \<le> e"
    and "8 \<le> uint x \<or> e = 0" and "uint x < 2 ^ 32 - 1"
  shows "e \<le> e' \<and> uint x' < 16 \<and> (8 \<le> uint x' \<or> e' = 0)
    \<and> uint x \<le> uint x' * 2 ^ nat (e' - e)
    \<and> uint x' * 2 ^ nat (e' - e) < uint x + 2 ^ nat (e' - e)"
  using assms
proof (induction x e arbitrary: x' e' rule: int2fb_loop.induct)
  case (1 x e)
  have c: "16 \<le> x \<longleftrightarrow> 16 \<le> uint x" by (simp add: word_le_def)
  show ?case
  proof (cases "16 \<le> x")
    case True
    let ?y = "drop_bit 1 (x + 1)"
    have x16: "16 \<le> uint x" using True c by simp
    have "x + 1 \<noteq> 0"
    proof
      assume "x + 1 = 0"
      then have "x = - 1" by (simp add: add_eq_0_iff2)
      with "1.prems"(4) show False by (simp add: unsigned_minus_1_eq_mask mask_eq_exp_minus_1)
    qed
    then have "uint (x + 1) = uint x + 1" by (rule uint_Suc)
    then have y: "uint ?y = (uint x + 1) div 2"
      by (simp only: uint_drop_bit power_one_right)
    have "8 \<le> uint ?y" "uint ?y < 2 ^ 32 - 1" using "1.prems"(4) x16 unfolding y by auto
    moreover have "int2fb_loop ?y (e + 1) = (x', e')"
      using "1.prems"(1) True by (simp only: int2fb_loop.simps [of x e] if_True)
    ultimately have H: "e + 1 \<le> e' \<and> uint x' < 16 \<and> (8 \<le> uint x' \<or> e' = 0)
      \<and> uint ?y \<le> uint x' * 2 ^ nat (e' - (e + 1))
      \<and> uint x' * 2 ^ nat (e' - (e + 1)) < uint ?y + 2 ^ nat (e' - (e + 1))"
      using "1.IH" [OF True, of x' e'] "1.prems"(2) by linarith
    define P where "P = (2::int) ^ nat (e' - (e + 1))"
    have "e + 1 \<le> e'" using H by blast
    then have "nat (e' - e) = Suc (nat (e' - (e + 1)))" by arith
    then have p: "2 ^ nat (e' - e) = 2 * P" by (simp add: P_def)
    from H have "(uint x + 1) div 2 \<le> uint x' * P"
      and "uint x' * P < (uint x + 1) div 2 + P" by (simp_all only: P_def y)
    then have "uint x \<le> 2 * (uint x' * P)" and "2 * (uint x' * P) < uint x + 2 * P"
      by linarith+
    with H \<open>e + 1 \<le> e'\<close> show ?thesis unfolding p by (simp add: mult.left_commute)
  next
    case False
    then have "int2fb_loop x e = (x, e)" by (simp only: int2fb_loop.simps [of x e] if_False)
    with "1.prems"(1) have "x' = x" "e' = e" by simp_all
    with False c "1.prems"(3) show ?thesis by simp
  qed
qed

section \<open>Integer logarithm\<close>

definition log_2 :: "int list" where
  "log_2 = [
    0,1,2,2,3,3,3,3,4,4,4,4,4,4,4,4,5,5,5,5,5,5,5,5,5,5,5,5,5,5,5,5,
    6,6,6,6,6,6,6,6,6,6,6,6,6,6,6,6,6,6,6,6,6,6,6,6,6,6,6,6,6,6,6,6,
    7,7,7,7,7,7,7,7,7,7,7,7,7,7,7,7,7,7,7,7,7,7,7,7,7,7,7,7,7,7,7,7,
    7,7,7,7,7,7,7,7,7,7,7,7,7,7,7,7,7,7,7,7,7,7,7,7,7,7,7,7,7,7,7,7,
    8,8,8,8,8,8,8,8,8,8,8,8,8,8,8,8,8,8,8,8,8,8,8,8,8,8,8,8,8,8,8,8,
    8,8,8,8,8,8,8,8,8,8,8,8,8,8,8,8,8,8,8,8,8,8,8,8,8,8,8,8,8,8,8,8,
    8,8,8,8,8,8,8,8,8,8,8,8,8,8,8,8,8,8,8,8,8,8,8,8,8,8,8,8,8,8,8,8,
    8,8,8,8,8,8,8,8,8,8,8,8,8,8,8,8,8,8,8,8,8,8,8,8,8,8,8,8,8,8,8,8]"

function log2_loop :: "u32 \<Rightarrow> int \<Rightarrow> int" where
  "log2_loop x l =
     (if 256 \<le> x then log2_loop (drop_bit 8 x) (l + 8) else l + log_2 ! unat x)"
  by pat_completeness auto
termination
proof (relation "measure (\<lambda>(x, l). unat x)", goal_cases)
  case (2 x l)
  have "unat (drop_bit 8 x) = unat x div 256" by (simp only: unat_drop_bit) simp
  with 2 show ?case by (simp add: word_le_nat_alt)
qed simp

declare log2_loop.simps [simp del]

definition luaO_log2 :: "u32 \<Rightarrow> int" where
  "luaO_log2 x = log2_loop x (- 1)"

definition ceillog2 :: "u32 \<Rightarrow> int" where
  "ceillog2 x = luaO_log2 (x - 1) + 1"

lemma log_2_nbits: "i < 256 \<Longrightarrow> log_2 ! i = int (nbits (int i))"
proof -
  have eq: "log_2 = map (\<lambda>i. int (nbits (int i))) [0..<256]"
    by code_simp
  assume "i < 256"
  then have i: "i < length [0..<256]" and u: "[0..<256] ! i = i"
    by (simp_all only: length_upt nth_upt add_0 diff_zero)
  show "log_2 ! i = int (nbits (int i))"
    unfolding eq nth_map [OF i] u ..
qed

lemma nbits_div_256: "256 \<le> n \<Longrightarrow> nbits n = nbits (n div 256) + 8"
proof -
  assume n: "256 \<le> n"
  define b where "b = nbits (n div 256)"
  have pos: "0 < n div 256" using n by simp
  have "2 ^ (b - 1) \<le> n div 256" using nbits_lower [OF pos] by (simp add: b_def)
  moreover have "n div 256 < 2 ^ b" using nbits_upper by (simp add: b_def)
  moreover have "0 < b" using nbits_pos [OF pos] by (simp add: b_def)
  then obtain c where "b = Suc c" by (cases b) auto
  ultimately have "2 ^ (c + 8) \<le> n" and "n < 2 ^ Suc (c + 8)"
    by (simp_all add: power_add)
  then have "nbits n = Suc (c + 8)" by (rule nbits_eqI)
  with \<open>b = Suc c\<close> show ?thesis by (simp add: b_def)
qed

lemma log2_loop_nbits: "log2_loop x l = l + int (nbits (uint x))"
proof (induction x l rule: log2_loop.induct)
  case (1 x l)
  show ?case
  proof (cases "256 \<le> x")
    case True
    have "uint (drop_bit 8 x) = uint x div 256"
      by (simp only: uint_drop_bit) simp
    moreover have "256 \<le> uint x" using True by (simp add: word_le_def)
    ultimately show ?thesis
      using "1.IH" [OF True] True by (simp add: log2_loop.simps [of x l] nbits_div_256)
  next
    case False
    then have "unat x < 256" by (simp add: word_le_nat_alt)
    with False show ?thesis by (simp add: log2_loop.simps [of x l] log_2_nbits)
  qed
qed

lemma luaO_log2_nbits: "luaO_log2 x = int (nbits (uint x)) - 1"
  by (simp add: luaO_log2_def log2_loop_nbits)

lemma ceillog2_bounds:
  assumes "0 < x"
  shows "0 \<le> ceillog2 x" and "uint x \<le> 2 ^ nat (ceillog2 x)"
    and "0 < ceillog2 x \<Longrightarrow> 2 ^ nat (ceillog2 x - 1) < uint x"
proof -
  have u: "uint (x - 1) = uint x - 1"
    using assms by (intro uint_pred) simp
  have c: "ceillog2 x = int (nbits (uint x - 1))"
    by (simp add: ceillog2_def luaO_log2_nbits u)
  show "0 \<le> ceillog2 x" by (simp add: c)
  show "uint x \<le> 2 ^ nat (ceillog2 x)"
    using nbits_upper [of "uint x - 1"] by (simp add: c)
  assume pos: "0 < ceillog2 x"
  then have "0 < uint x - 1" by (cases "uint x - 1 \<le> 0") (simp_all add: c nbits.simps)
  then have "2 ^ (nbits (uint x - 1) - 1) \<le> uint x - 1" by (rule nbits_lower)
  moreover have "nat (ceillog2 x - 1) = nbits (uint x - 1) - 1" by (simp add: c)
  ultimately show "2 ^ nat (ceillog2 x - 1) < uint x" by simp
qed

section \<open>Chunk names\<close>

text \<open>
  \<open>sizeof(" '...' ")\<close> and \<open>sizeof(" [string \"...\"] ")\<close> are 8 and 17. A C string is the
  list of its characters without the terminator; \<open>size_t\<close> subtraction wraps.
\<close>

definition size_sub :: "nat \<Rightarrow> nat \<Rightarrow> nat" where
  "size_sub a b = (if b \<le> a then a - b else 2 ^ 64 + a - b)"

definition luaO_chunkid :: "string \<Rightarrow> nat \<Rightarrow> string" where
  "luaO_chunkid source bufflen =
     (if source \<noteq> [] \<and> hd source = CHR ''='' then take (bufflen - 1) (tl source)
      else if source \<noteq> [] \<and> hd source = CHR ''@'' then
        let rest = tl source; bl = size_sub bufflen 8; l = length rest
        in if bl < l then ''...'' @ drop (l - bl) rest else rest
      else
        let len0 = length (takeWhile (\<lambda>c. c \<noteq> CHR 0x0A \<and> c \<noteq> CHR 0x0D) source);
            bl = size_sub bufflen 17;
            len = (if bl < len0 then bl else len0)
        in ''[string '' @ [CHR 0x22]
           @ (if len < length source then take len source @ ''...'' else source)
           @ [CHR 0x22] @ '']'')"

end
