(* ===== verification/LuaCtype.thy ===== *)
theory LuaCtype
  imports LuaPrelude
begin

text \<open>
  Characters as the C code sees them: the classes of \<^verbatim>\<open>ctype.h\<close> in the \<open>C\<close> locale, on
  the value of an \<open>unsigned char\<close>, and reading a C string by index.
\<close>

definition code :: "char \<Rightarrow> int" where
  "code c = of_char c"

lemma code_bounds: "0 \<le> code c" "code c < 256"
proof -
  have "code c mod 256 = code c" by (simp add: code_def)
  then show "0 \<le> code c" "code c < 256"
    using pos_mod_sign [of 256 "code c"] pos_mod_bound [of 256 "code c"] by simp_all
qed

lemma code_eq_iff [simp]: "code a = code b \<longleftrightarrow> a = b"
  by (simp add: code_def)

definition islower :: "int \<Rightarrow> bool" where
  "islower c \<longleftrightarrow> 97 \<le> c \<and> c \<le> 122"

definition isupper :: "int \<Rightarrow> bool" where
  "isupper c \<longleftrightarrow> 65 \<le> c \<and> c \<le> 90"

definition isalpha :: "int \<Rightarrow> bool" where
  "isalpha c \<longleftrightarrow> islower c \<or> isupper c"

definition isdigit :: "int \<Rightarrow> bool" where
  "isdigit c \<longleftrightarrow> 48 \<le> c \<and> c \<le> 57"

definition isalnum :: "int \<Rightarrow> bool" where
  "isalnum c \<longleftrightarrow> isalpha c \<or> isdigit c"

definition isxdigit :: "int \<Rightarrow> bool" where
  "isxdigit c \<longleftrightarrow> isdigit c \<or> (97 \<le> c \<and> c \<le> 102) \<or> (65 \<le> c \<and> c \<le> 70)"

definition isspace :: "int \<Rightarrow> bool" where
  "isspace c \<longleftrightarrow> c = 32 \<or> (9 \<le> c \<and> c \<le> 13)"

definition iscntrl :: "int \<Rightarrow> bool" where
  "iscntrl c \<longleftrightarrow> (0 \<le> c \<and> c < 32) \<or> c = 127"

definition ispunct :: "int \<Rightarrow> bool" where
  "ispunct c \<longleftrightarrow> 33 \<le> c \<and> c \<le> 126 \<and> \<not> isalnum c"

definition tolower :: "int \<Rightarrow> int" where
  "tolower c = (if isupper c then c + 32 else c)"

definition toupper :: "int \<Rightarrow> int" where
  "toupper c = (if islower c then c - 32 else c)"

definition chr :: "int \<Rightarrow> char" where
  "chr n = char_of n"

lemma code_chr: "0 \<le> n \<Longrightarrow> n < 256 \<Longrightarrow> code (chr n) = n"
  by (simp add: code_def chr_def of_char_of)

lemma chr_code [simp]: "chr (code c) = c"
  by (simp add: code_def chr_def)

abbreviation NUL :: char where
  "NUL \<equiv> CHR 0x00"

text \<open>
  A Lua string is its bytes followed by a terminator. Reading past the terminator is undefined.
\<close>

definition getc :: "string \<Rightarrow> nat \<Rightarrow> char result" where
  "getc s i = (if i < length s then Ok (s ! i) else if i = length s then Ok NUL else Undef)"

lemma getc_Ok: "getc s i = Ok c \<Longrightarrow> i \<le> length s"
  by (simp add: getc_def split: if_splits)

lemma getc_le: "i \<le> length s \<Longrightarrow> \<exists>c. getc s i = Ok c"
  by (simp add: getc_def)

lemma getc_nonzero: "getc s i = Ok c \<Longrightarrow> c \<noteq> NUL \<Longrightarrow> i < length s"
  by (simp add: getc_def split: if_splits)

end
