(* ===== verification/LuaFormat.thy ===== *)
theory LuaFormat
  imports LuaObject LuaCtype
begin

text \<open>
  Messages and numerals: \<open>luaO_pushvfstring\<close> and \<open>luaO_str2d\<close> of \<^verbatim>\<open>lobject.c\<close>, with the
  functions of the C library they use.
\<close>

section \<open>Formatted messages\<close>

text \<open>The decimal digits of an integer, as \<open>LUA_NUMBER_FMT\<close> prints an \<open>int\<close>.\<close>

function digits :: "int \<Rightarrow> string" where
  "digits n = (if n < 10 then [chr (48 + n)] else digits (n div 10) @ [chr (48 + n mod 10)])"
  by pat_completeness auto
termination by (relation "measure nat") auto

declare digits.simps [simp del]

definition decimal :: "int \<Rightarrow> string" where
  "decimal n = (if n < 0 then CHR ''-'' # digits (- n) else digits n)"

text \<open>The arguments after the format. A null \<open>char*\<close> is \<open>None\<close>.\<close>

datatype fmt_arg =
    ArgStr "string option"
  | ArgInt int
  | ArgNum lua_Number
  | ArgPtr ptr

text \<open>A C string ends at its first null character.\<close>

definition cstr :: "string \<Rightarrow> string" where
  "cstr s = takeWhile (\<lambda>c. c \<noteq> NUL) s"

text \<open>
  \<open>num\<close> and \<open>pointer\<close> stand for \<open>sprintf\<close> with \<open>LUA_NUMBER_FMT\<close> and \<open>%p\<close>. An
  argument of another type than its format asks for is undefined, and so is a format that ends
  in \<open>%\<close>.
\<close>

fun luaO_pushvfstring ::
    "(lua_Number \<Rightarrow> string) \<Rightarrow> (ptr \<Rightarrow> string) \<Rightarrow> string \<Rightarrow> fmt_arg list \<Rightarrow> string result" where
  "luaO_pushvfstring num pointer [] argp = Ok []"
| "luaO_pushvfstring num pointer (c # fmt) argp =
     (if c \<noteq> CHR ''%'' then rbind (luaO_pushvfstring num pointer fmt argp) (\<lambda>s. Ok (c # s))
      else case fmt of
        [] \<Rightarrow> Undef
      | k # fmt' \<Rightarrow>
          let rest = (\<lambda>piece args. rbind (luaO_pushvfstring num pointer fmt' args) (\<lambda>s. Ok (piece @ s)))
          in if k = CHR ''s'' then
               (case argp of
                  ArgStr None # args \<Rightarrow> rest ''(null)'' args
                | ArgStr (Some s) # args \<Rightarrow> rest (cstr s) args
                | _ \<Rightarrow> Undef)
             else if k = CHR ''c'' then
               (case argp of ArgInt n # args \<Rightarrow> rest (cstr [chr (n mod 256)]) args | _ \<Rightarrow> Undef)
             else if k = CHR ''d'' then
               (case argp of ArgInt n # args \<Rightarrow> rest (decimal n) args | _ \<Rightarrow> Undef)
             else if k = CHR ''f'' then
               (case argp of ArgNum x # args \<Rightarrow> rest (num x) args | _ \<Rightarrow> Undef)
             else if k = CHR ''p'' then
               (case argp of ArgPtr p # args \<Rightarrow> rest (pointer p) args | _ \<Rightarrow> Undef)
             else if k = CHR ''%'' then rest ''%'' argp
             else rest [CHR ''%'', k] argp)"

section \<open>Numerals\<close>

text \<open>\<open>strtod\<close> in the \<open>C\<close> locale: the value and the number of characters read, 0 when there is none.\<close>

definition is_space :: "char \<Rightarrow> bool" where
  "is_space c \<longleftrightarrow> isspace (code c)"

definition is_digit :: "char \<Rightarrow> bool" where
  "is_digit c \<longleftrightarrow> isdigit (code c)"

definition is_xdigit :: "char \<Rightarrow> bool" where
  "is_xdigit c \<longleftrightarrow> isxdigit (code c)"

definition digit_value :: "char \<Rightarrow> int" where
  "digit_value c = (let n = tolower (code c) in if n < 97 then n - 48 else n - 87)"

definition numeral_value :: "int \<Rightarrow> string \<Rightarrow> int" where
  "numeral_value base ds = foldl (\<lambda>v d. v * base + digit_value d) 0 ds"

text \<open>An optional sign: whether it is a minus, and its length.\<close>

definition sign_of :: "string \<Rightarrow> bool \<times> nat" where
  "sign_of s = (case s of c # _ \<Rightarrow> if c = CHR ''-'' then (True, 1) else if c = CHR ''+'' then (False, 1) else (False, 0)
                | [] \<Rightarrow> (False, 0))"

text \<open>An exponent after one of the letters \<open>marks\<close>: its value and its length, or nothing.\<close>

definition exponent :: "string \<Rightarrow> string \<Rightarrow> int \<times> nat" where
  "exponent marks s =
     (if s \<noteq> [] \<and> hd s \<in> set marks then
        let (neg, k) = sign_of (tl s); ds = takeWhile is_digit (drop k (tl s))
        in if ds = [] then (0, 0)
           else ((if neg then - numeral_value 10 ds else numeral_value 10 ds), 1 + k + length ds)
      else (0, 0))"

text \<open>Digits with an optional point, and an exponent: a base, the value of one exponent step, its marks.\<close>

definition scan_digits :: "bool \<Rightarrow> (char \<Rightarrow> bool) \<Rightarrow> int \<Rightarrow> int \<Rightarrow> int \<Rightarrow> string \<Rightarrow> string \<Rightarrow> lua_Number \<times> nat" where
  "scan_digits neg isd base step per_digit marks s =
     (let ip = takeWhile isd s;
          s1 = drop (length ip) s;
          fp = (if s1 \<noteq> [] \<and> hd s1 = CHR ''.'' then takeWhile isd (tl s1) else []);
          point = (if s1 \<noteq> [] \<and> hd s1 = CHR ''.'' then 1 else 0)
      in if ip @ fp = [] then (0, 0)
         else let len = length ip + point + length fp;
                  (e, k) = exponent marks (drop len s);
                  v = numeral_value base (ip @ fp);
                  x = e - per_digit * int (length fp)
              in (dbl_round neg (v * step ^ nat x) (step ^ nat (- x)), len + k))"

definition lower :: "string \<Rightarrow> string" where
  "lower s = map (\<lambda>c. chr (tolower (code c))) s"

definition scan_word :: "bool \<Rightarrow> string \<Rightarrow> lua_Number \<times> nat" where
  "scan_word neg s =
     (let inf = (if neg then 0xFFF0000000000000 else 0x7FF0000000000000)
      in if take 8 (lower s) = ''infinity'' then (inf, 8)
         else if take 3 (lower s) = ''inf'' then (inf, 3)
         else if take 3 (lower s) = ''nan'' then
           let t = drop 3 s;
               n = length (takeWhile (\<lambda>c. isalnum (code c) \<or> c = CHR ''_'') (tl t));
               k = (if t \<noteq> [] \<and> hd t = CHR ''('' \<and> drop (Suc n) t \<noteq> [] \<and> t ! Suc n = CHR '')'' then n + 2 else 0)
           in ((if neg then 0xFFF8000000000000 else 0x7FF8000000000000), 3 + k)
         else (0, 0))"

definition strtod :: "string \<Rightarrow> lua_Number \<times> nat" where
  "strtod s0 =
     (let s = cstr s0;
          sp = length (takeWhile is_space s);
          (neg, k) = sign_of (drop sp s);
          t = drop (sp + k) s;
          (v, n) =
            (if 2 < length t \<and> t ! 0 = CHR ''0'' \<and> (t ! 1 = CHR ''x'' \<or> t ! 1 = CHR ''X'')
                \<and> snd (scan_digits neg is_xdigit 16 2 4 ''pP'' (drop 2 t)) \<noteq> 0
             then let (v, n) = scan_digits neg is_xdigit 16 2 4 ''pP'' (drop 2 t) in (v, n + 2)
             else let (v, n) = scan_digits neg is_digit 10 10 1 ''eE'' t
                  in if n \<noteq> 0 then (v, n) else scan_word neg t)
      in if n = 0 then (0, 0) else (v, sp + k + n))"

text \<open>\<open>strtoul\<close> in base 16\<close>

definition strtoul16 :: "string \<Rightarrow> u64 \<times> nat" where
  "strtoul16 s0 =
     (let s = cstr s0;
          sp = length (takeWhile is_space s);
          (neg, k) = sign_of (drop sp s);
          t = drop (sp + k) s;
          p = (if 2 < length t \<and> t ! 0 = CHR ''0'' \<and> (t ! 1 = CHR ''x'' \<or> t ! 1 = CHR ''X'') \<and> is_xdigit (t ! 2)
               then 2 else 0);
          ds = takeWhile is_xdigit (drop p t);
          v = numeral_value 16 ds
      in if ds = [] then (0, 0)
         else ((if 2 ^ 64 \<le> v then - 1 else if neg then - word_of_int v else word_of_int v), sp + k + p + length ds))"

text \<open>\<open>None\<close> when the text is not a numeral.\<close>

definition luaO_str2d :: "string \<Rightarrow> lua_Number option" where
  "luaO_str2d s0 =
     (let s = cstr s0;
          (x, n) = strtod s
      in if n = 0 then None
         else let at = (\<lambda>i. if i < length s then s ! i else NUL);
                  (x, n) = (if at n = CHR ''x'' \<or> at n = CHR ''X''
                            then let (u, m) = strtoul16 s in (cast_num (uint u), m) else (x, n))
              in if at n = NUL then Some x
                 else if dropWhile is_space (drop n s) \<noteq> [] then None
                 else Some x)"

end
