(* ===== verification/LuaZio.thy ===== *)
theory LuaZio
  imports LuaCtype
begin

text \<open>
  Buffered input (\<^verbatim>\<open>lzio.c\<close>, \<^verbatim>\<open>lzio.h\<close>). The reader is a parameter of the program: here
  it is the list of the blocks its calls return, an empty block standing for a null pointer or a
  size of zero. A stream that is read to its end keeps asking the reader.
\<close>

section \<open>Streams\<close>

text \<open>\<open>zn\<close> is the number of unread bytes, \<open>zp\<close> the bytes from \<open>p\<close> to the end of the block.\<close>

record ZIO =
  zn :: u64
  zp :: string
  zblocks :: "string list"

abbreviation EOZ :: int where "EOZ \<equiv> - 1"

definition luaZ_init :: "string list \<Rightarrow> ZIO" where
  "luaZ_init bs = \<lparr>zn = 0, zp = [], zblocks = bs\<rparr>"

definition luaZ_fill :: "(ZIO, int) step" where
  "luaZ_fill z =
     (case zblocks z of
        [] \<Rightarrow> Ok (EOZ, z)
      | b # bs \<Rightarrow>
          let size = of_nat (length b) :: u64
          in if b = [] \<or> size = 0 then Ok (EOZ, z\<lparr>zblocks := bs\<rparr>)
             else Ok (code (hd b), z\<lparr>zn := size - 1, zp := tl b, zblocks := bs\<rparr>))"

text \<open>The counter is decremented before it is known whether a byte is left.\<close>

definition zgetc :: "(ZIO, int) step" where
  "zgetc z =
     (if 0 < zn z then
        (case zp z of
           [] \<Rightarrow> Undef
         | c # cs \<Rightarrow> Ok (code c, z\<lparr>zn := zn z - 1, zp := cs\<rparr>))
      else luaZ_fill (z\<lparr>zn := zn z - 1\<rparr>))"

text \<open>The byte that \<open>luaZ_fill\<close> took is put back.\<close>

definition luaZ_lookahead :: "(ZIO, int) step" where
  "luaZ_lookahead z =
     (if zn z = 0 then
        rbind (luaZ_fill z) (\<lambda>(c, z').
          if c = EOZ then Ok (EOZ, z')
          else Ok (c, z'\<lparr>zn := zn z' + 1, zp := chr c # zp z'\<rparr>))
      else (case zp z of [] \<Rightarrow> Undef | c # cs \<Rightarrow> Ok (code c, z)))"

lemma lookahead_progress: "luaZ_lookahead z = Ok (c, z') \<Longrightarrow> c \<noteq> EOZ \<Longrightarrow> 0 < unat (zn z')"
  by (auto simp: luaZ_lookahead_def luaZ_fill_def Let_def word_gt_0 unat_gt_0
      split: if_splits list.splits elim!: rbind_OkE)

text \<open>The number of bytes that are missing, and the bytes read.\<close>

function luaZ_read :: "nat \<Rightarrow> (ZIO, nat \<times> string) step" where
  "luaZ_read n z =
     (if n = 0 then Ok ((0, []), z)
      else rbind (luaZ_lookahead z) (\<lambda>(c, z1).
        if c = EOZ then Ok ((n, []), z1)
        else let m = (if n \<le> unat (zn z1) then n else unat (zn z1))
             in if length (zp z1) < m then Undef
                else rbind (luaZ_read (n - m) (z1\<lparr>zn := zn z1 - of_nat m, zp := drop m (zp z1)\<rparr>)) (\<lambda>((r, bs), z2).
                  Ok ((r, take m (zp z1) @ bs), z2))))"
  by pat_completeness auto
termination
  by (relation "measure fst") (auto dest: lookahead_progress split: if_splits)

declare luaZ_read.simps [simp del]

section \<open>What a stream holds\<close>

text \<open>The bytes up to the first empty block.\<close>

definition contents :: "ZIO \<Rightarrow> string" where
  "contents z = zp z @ concat (takeWhile (\<lambda>b. b \<noteq> []) (zblocks z))"

text \<open>A block has a size.\<close>

definition fits :: "string \<Rightarrow> bool" where
  "fits b \<longleftrightarrow> int (length b) < 2 ^ 64"

definition zio_ok :: "ZIO \<Rightarrow> bool" where
  "zio_ok z \<longleftrightarrow> unat (zn z) = length (zp z) \<and> (\<forall>b \<in> set (zblocks z). fits b)"

lemma init_ok: "\<forall>b \<in> set bs. fits b \<Longrightarrow> zio_ok (luaZ_init bs)"
  by (simp add: zio_ok_def luaZ_init_def)

lemma contents_init: "[] \<notin> set bs \<Longrightarrow> contents (luaZ_init bs) = concat bs"
proof -
  assume "[] \<notin> set bs"
  then have "concat (takeWhile (\<lambda>b. b \<noteq> []) bs) = concat bs" by (induction bs) auto
  then show ?thesis by (simp add: contents_def luaZ_init_def)
qed

lemma unat_word_of_nat: "int n < 2 ^ 64 \<Longrightarrow> unat (of_nat n :: u64) = n"
proof (rule of_nat_inverse [OF refl])
  assume "int n < 2 ^ 64"
  then have "int n < int (2 ^ 64)" by simp
  then show "n < 2 ^ LENGTH(64)" by (simp only: of_nat_less_iff) simp
qed

lemma size_word: "fits b \<Longrightarrow> unat (of_nat (length b) :: u64) = length b"
  by (simp add: fits_def unat_word_of_nat)

lemma size_word_0: "fits b \<Longrightarrow> (of_nat (length b) :: u64) = 0 \<longleftrightarrow> b = []"
  using size_word [of b] by (cases b) (auto simp: unat_eq_zero)

lemma chr_of_code [simp]: "chr (code c) = c"
  by (simp add: chr_def code_def)

lemma fill_spec:
  assumes "zio_ok z" and "zp z = []"
  shows "\<exists>c z'. luaZ_fill z = Ok (c, z') \<and>
    (if contents z = [] then c = EOZ \<and> zp z' = [] \<and> zn z' = zn z \<and> (\<forall>b \<in> set (zblocks z'). fits b)
     else c = code (hd (contents z)) \<and> zio_ok z' \<and> contents z' = tl (contents z) \<and> unat (zn z' + 1) = Suc (unat (zn z')))"
proof (cases "zblocks z")
  case (Cons b bs)
  have b: "fits b" using assms(1) Cons by (simp add: zio_ok_def)
  show ?thesis
  proof (cases "b = []")
    case False
    let ?w = "of_nat (length b) :: u64"
    have w: "?w \<noteq> 0" "unat ?w = length b" using size_word_0 [OF b] size_word [OF b] False by simp_all
    then have "unat (?w - 1) = length b - 1" by (simp add: unat_minus_one)
    with w False assms(1) Cons show ?thesis
      by (auto simp: luaZ_fill_def Let_def contents_def assms(2) zio_ok_def hd_append)
  qed (use assms Cons in \<open>auto simp: luaZ_fill_def contents_def zio_ok_def\<close>)
qed (use assms in \<open>auto simp: luaZ_fill_def contents_def zio_ok_def\<close>)

lemma lookahead_spec:
  assumes "zio_ok z"
  shows "\<exists>c z'. luaZ_lookahead z = Ok (c, z') \<and> zio_ok z' \<and>
    (if contents z = [] then c = EOZ
     else c = code (hd (contents z)) \<and> contents z' = contents z \<and> zp z' \<noteq> [])"
proof (cases "zp z")
  case Nil
  with assms have n: "zn z = 0" by (simp add: zio_ok_def unat_eq_zero)
  obtain c z' where f: "luaZ_fill z = Ok (c, z')"
    and S: "if contents z = [] then c = EOZ \<and> zp z' = [] \<and> zn z' = zn z \<and> (\<forall>b \<in> set (zblocks z'). fits b)
     else c = code (hd (contents z)) \<and> zio_ok z' \<and> contents z' = tl (contents z) \<and> unat (zn z' + 1) = Suc (unat (zn z'))"
    using fill_spec [OF assms Nil] by blast
  show ?thesis
  proof (cases "contents z = []")
    case True
    with S n f show ?thesis by (simp add: luaZ_lookahead_def zio_ok_def)
  next
    case False
    with S have c: "c = code (hd (contents z))" and ok: "zio_ok z'" and tl: "contents z' = tl (contents z)"
      and up: "unat (zn z' + 1) = Suc (unat (zn z'))" by simp_all
    then have "c \<noteq> EOZ" using code_bounds(1) [of "hd (contents z)"] by simp
    with n f c have "luaZ_lookahead z = Ok (c, z'\<lparr>zn := zn z' + 1, zp := hd (contents z) # zp z'\<rparr>)"
      by (simp add: luaZ_lookahead_def)
    moreover have "contents (z'\<lparr>zn := zn z' + 1, zp := hd (contents z) # zp z'\<rparr>) = contents z"
      using False tl by (simp add: contents_def [of "z'\<lparr>zn := _, zp := _\<rparr>"])
        (metis contents_def hd_Cons_tl)
    ultimately show ?thesis using False c ok up by (simp add: zio_ok_def)
  qed
next
  case (Cons c cs)
  with assms have "zn z \<noteq> 0" by (auto simp: zio_ok_def)
  with Cons assms show ?thesis by (auto simp: luaZ_lookahead_def contents_def)
qed

text \<open>\<open>luaZ_read\<close> takes bytes across blocks, and tells how many are missing.\<close>

lemma read_spec:
  "zio_ok z \<Longrightarrow> \<exists>z'. luaZ_read n z = Ok ((n - length (contents z), take n (contents z)), z') \<and> zio_ok z'
     \<and> (n \<le> length (contents z) \<longrightarrow> contents z' = drop n (contents z))"
proof (induction n z rule: luaZ_read.induct)
  case (1 n z)
  show ?case
  proof (cases "n = 0")
    case False
    obtain c z1 where l: "luaZ_lookahead z = Ok (c, z1)" and ok: "zio_ok z1"
      and S: "if contents z = [] then c = EOZ
        else c = code (hd (contents z)) \<and> contents z1 = contents z \<and> zp z1 \<noteq> []"
      using lookahead_spec [OF "1.prems"] by blast
    show ?thesis
    proof (cases "contents z = []")
      case True
      with S l ok False show ?thesis by (simp add: luaZ_read.simps [of n])
    next
      case nonempty: False
      with S have c: "c \<noteq> EOZ" and same: "contents z1 = contents z" and p: "zp z1 \<noteq> []"
        using code_bounds(1) [of "hd (contents z)"] by auto
      let ?m = "if n \<le> unat (zn z1) then n else unat (zn z1)"
      let ?z = "z1\<lparr>zn := zn z1 - of_nat ?m, zp := drop ?m (zp z1)\<rparr>"
      have len: "unat (zn z1) = length (zp z1)" using ok by (simp add: zio_ok_def)
      have m: "?m \<le> length (zp z1)" "?m \<le> n" using len by auto
      have "?m \<le> unat (zn z1)" by simp
      then have "int ?m \<le> uint (zn z1)" by (metis of_nat_mono of_nat_unat)
      then have "int ?m < 2 ^ 64" using uint_bounded [of "zn z1"] by simp
      then have "unat (of_nat ?m :: u64) = ?m" by (rule unat_word_of_nat)
      then have "of_nat ?m \<le> zn z1" using m len by (simp add: word_le_nat_alt)
      then have "unat (zn z1 - of_nat ?m) = length (zp z1) - ?m"
        using \<open>unat (of_nat ?m :: u64) = ?m\<close> len by (simp add: unat_sub)
      with ok have ok': "zio_ok ?z" by (simp add: zio_ok_def)
      have zpz: "zp ?z = drop ?m (zp z1)" "zblocks ?z = zblocks z1" by (cases z1, simp)+
      have cz: "contents z = take ?m (zp z1) @ contents ?z"
        unfolding same [symmetric] contents_def [of z1] contents_def [of ?z] zpz
        by (simp only: append_assoc [symmetric] append_take_drop_id)
      obtain z' where IH: "luaZ_read (n - ?m) ?z =
          Ok ((n - ?m - length (contents ?z), take (n - ?m) (contents ?z)), z')"
        "zio_ok z'" "n - ?m \<le> length (contents ?z) \<longrightarrow> contents z' = drop (n - ?m) (contents ?z)"
        using "1.IH" [OF False l refl c refl _ ok'] m(1) by (auto simp: not_less)
      have "luaZ_read n z = Ok ((n - ?m - length (contents ?z), take ?m (zp z1) @ take (n - ?m) (contents ?z)), z')"
        using IH(1) l c False m(1) unfolding luaZ_read.simps [of n z] by (simp only: rbind.simps prod.case Let_def if_False not_less [symmetric] simp_thms)
      moreover have "length (take ?m (zp z1)) = ?m" using m(1) by simp
      ultimately show ?thesis using IH(2,3) m unfolding cz by (auto simp: min_def)
    qed
  qed (use "1.prems" in \<open>simp add: luaZ_read.simps [of 0]\<close>)
qed

text \<open>Reading one byte, inside the stream.\<close>

lemma zgetc_spec:
  assumes "zio_ok z" and "contents z \<noteq> []"
  shows "\<exists>z'. zgetc z = Ok (code (hd (contents z)), z') \<and> zio_ok z' \<and> contents z' = tl (contents z)"
proof (cases "zp z")
  case Nil
  with assms have n: "zn z = 0" by (simp add: zio_ok_def unat_eq_zero)
  from assms(2) Nil obtain b bs where b: "zblocks z = b # bs" "b \<noteq> []"
    by (cases "zblocks z") (auto simp: contents_def split: if_splits)
  with assms(1) have "(of_nat (length b) :: u64) \<noteq> 0" by (simp add: zio_ok_def size_word_0)
  with b have "luaZ_fill (z\<lparr>zn := zn z - 1\<rparr>) = luaZ_fill z" by (simp add: luaZ_fill_def Let_def)
  with fill_spec [OF assms(1) Nil] assms(2) n show ?thesis by (auto simp: zgetc_def)
next
  case (Cons c cs)
  with assms have n: "zn z \<noteq> 0" by (auto simp: zio_ok_def)
  then have "unat (zn z - 1) = unat (zn z) - 1" by (rule unat_minus_one)
  with Cons assms n show ?thesis by (auto simp: zgetc_def contents_def zio_ok_def word_gt_0)
qed

text \<open>
  C39: Reading \<open>n\<close> bytes gives the next \<open>n\<close> bytes of the stream wherever its blocks end, leaves
  the rest to be read, and tells how many bytes are missing when the stream is shorter.
\<close>

theorem luaZ_read_correct:
  assumes "zio_ok z"
  shows "\<exists>z'. luaZ_read n z = Ok ((n - length (contents z), take n (contents z)), z') \<and> zio_ok z'
     \<and> (n \<le> length (contents z) \<longrightarrow> contents z' = drop n (contents z))"
  by (rule read_spec [OF assms])

theorem luaZ_read_correct_witness:
  "\<exists>z'. luaZ_read 4 (luaZ_init [''ab'', ''cde'']) = Ok ((0, ''abcd''), z') \<and> contents z' = ''e''"
proof -
  have "zio_ok (luaZ_init [''ab'', ''cde''])" by (simp add: init_ok fits_def)
  moreover have "contents (luaZ_init [''ab'', ''cde'']) = ''abcde''" by (simp add: contents_init)
  ultimately show ?thesis using luaZ_read_correct [of "luaZ_init [''ab'', ''cde'']" 4] by auto
qed

end
