(* ===== verification/LuaLex.thy ===== *)
theory LuaLex
  imports LuaFormat LuaZio
begin

text \<open>
  The lexical analyser (\<^verbatim>\<open>llex.c\<close>), built with \<^verbatim>\<open>LUA_UGMEE\<close> and \<^verbatim>\<open>LUA_COMPAT_LSTR\<close> 1.
\<close>

section \<open>Tokens\<close>

abbreviation FIRST_RESERVED :: int where "FIRST_RESERVED \<equiv> 257"

text \<open>\<open>enum RESERVED\<close>: the tokens after the 21 reserved words.\<close>

abbreviation TK_CONCAT :: int where "TK_CONCAT \<equiv> 278"
abbreviation TK_DOTS :: int where "TK_DOTS \<equiv> 279"
abbreviation TK_EQ :: int where "TK_EQ \<equiv> 280"
abbreviation TK_GE :: int where "TK_GE \<equiv> 281"
abbreviation TK_LSHFT :: int where "TK_LSHFT \<equiv> 282"
abbreviation TK_LE :: int where "TK_LE \<equiv> 283"
abbreviation TK_RSHFT :: int where "TK_RSHFT \<equiv> 284"
abbreviation TK_XOR :: int where "TK_XOR \<equiv> 285"
abbreviation TK_NE :: int where "TK_NE \<equiv> 286"
abbreviation TK_NUMBER :: int where "TK_NUMBER \<equiv> 287"
abbreviation TK_NAME :: int where "TK_NAME \<equiv> 288"
abbreviation TK_STRING :: int where "TK_STRING \<equiv> 289"
abbreviation TK_EOS :: int where "TK_EOS \<equiv> 290"

definition luaX_tokens :: "string list" where
  "luaX_tokens =
    [''and'', ''break'', ''do'', ''else'', ''elseif'',
     ''end'', ''false'', ''for'', ''function'', ''if'',
     ''in'', ''local'', ''nil'', ''not'', ''or'', ''repeat'',
     ''return'', ''then'', ''true'', ''until'', ''while'',
     ''..'', ''...'', ''=='', ''>='', ''>>'', ''<='', ''<<'', ''^^'', ''~='', ''!='',
     ''<number>'', ''<name>'', ''<string>'', ''<eof>'']"

abbreviation NUM_RESERVED :: nat where "NUM_RESERVED \<equiv> 21"

text \<open>\<open>luaX_init\<close> numbers the reserved words from 1; other strings have 0.\<close>

definition luaX_init :: "string \<Rightarrow> int" where
  "luaX_init s = (case map_of (zip (take NUM_RESERVED luaX_tokens) [1..21]) s of None \<Rightarrow> 0 | Some i \<Rightarrow> i)"

datatype SemInfo = SemNone | SemNum lua_Number | SemStr string

record Token =
  token :: int
  seminfo :: SemInfo

text \<open>
  \<open>buff\<close> holds the characters of the token buffer and \<open>buffsize\<close> its size; \<open>fs_h\<close> the strings
  that the table of the function anchors.
\<close>

record LexState =
  current :: int
  linenumber :: int
  lastline :: int
  tk :: Token
  ahead :: Token
  zin :: ZIO
  buff :: string
  buffsize :: nat
  fs_h :: "string list"
  lex_source :: string
  decpoint :: char

type_synonym 'a lexer = "(LexState, 'a) step"

section \<open>Characters and errors\<close>

definition lnext :: "unit lexer" where
  "lnext ls = rbind (zgetc (zin ls)) (\<lambda>(c, z). Ok ((), ls\<lparr>current := c, zin := z\<rparr>))"

definition newline :: "LexState \<Rightarrow> bool" where
  "newline ls \<longleftrightarrow> current ls = 10 \<or> current ls = 13"

text \<open>\<open>luaX_lexerror\<close> without a token\<close>

abbreviation MAXSRC :: nat where "MAXSRC \<equiv> 80"

definition lex_message :: "LexState \<Rightarrow> string \<Rightarrow> string" where
  "lex_message ls msg = luaO_chunkid (cstr (lex_source ls)) MAXSRC @ '':'' @ decimal (linenumber ls) @ '': '' @ msg"

abbreviation MAX_SIZET :: nat where "MAX_SIZET \<equiv> 18446744073709551613"

definition save :: "int \<Rightarrow> unit lexer" where
  "save c ls =
     (if buffsize ls < length (buff ls) + 1 then
        if MAX_SIZET div 2 \<le> buffsize ls then Err (SyntaxError (lex_message ls ''lexical element too long''))
        else Ok ((), ls\<lparr>buffsize := buffsize ls * 2, buff := buff ls @ [chr (c mod 256)]\<rparr>)
      else Ok ((), ls\<lparr>buff := buff ls @ [chr (c mod 256)]\<rparr>))"

definition save_and_next :: "unit lexer" where
  "save_and_next ls = sbind (save (current ls)) (\<lambda>_. lnext) ls"

definition luaX_token2str :: "int \<Rightarrow> string" where
  "luaX_token2str t =
     (if t < FIRST_RESERVED then
        if iscntrl t then ''char('' @ decimal t @ '')'' else [chr t]
      else luaX_tokens ! nat (t - FIRST_RESERVED))"

definition txtToken :: "int \<Rightarrow> string lexer" where
  "txtToken t ls =
     (if t \<in> {TK_NAME, TK_STRING, TK_NUMBER} then
        sbind (save 0) (\<lambda>_ ls. Ok (cstr (buff ls), ls)) ls
      else Ok (luaX_token2str t, ls))"

definition luaX_lexerror :: "string \<Rightarrow> int \<Rightarrow> 'a lexer" where
  "luaX_lexerror msg t ls =
     (if t = 0 then Err (SyntaxError (lex_message ls msg))
      else sbind (txtToken t) (\<lambda>txt _. Err (SyntaxError (lex_message ls msg @ '' near '' @ LUA_QL txt))) ls)"

definition luaX_syntaxerror :: "string \<Rightarrow> 'a lexer" where
  "luaX_syntaxerror msg ls = luaX_lexerror msg (token (tk ls)) ls"

definition luaX_newstring :: "string \<Rightarrow> string lexer" where
  "luaX_newstring s ls = Ok (s, ls\<lparr>fs_h := if s \<in> set (fs_h ls) then fs_h ls else s # fs_h ls\<rparr>)"

definition resetbuffer :: "unit lexer" where
  "resetbuffer ls = Ok ((), ls\<lparr>buff := []\<rparr>)"

definition inclinenumber :: "unit lexer" where
  "inclinenumber ls =
     sbind lnext (\<lambda>_ ls'.
       sbind (if newline ls' \<and> current ls' \<noteq> current ls then lnext else sret ()) (\<lambda>_ ls''.
         let ls3 = ls''\<lparr>linenumber := linenumber ls'' + 1\<rparr>
         in if MAX_INT \<le> linenumber ls3 then luaX_syntaxerror ''chunk has too many lines'' ls3
            else Ok ((), ls3)) ls') ls"

text \<open>\<open>strchr\<close> finds the terminator too.\<close>

definition check_next :: "string \<Rightarrow> bool lexer" where
  "check_next set_chars ls =
     (if current ls mod 256 \<noteq> 0 \<and> chr (current ls mod 256) \<notin> set set_chars then Ok (False, ls)
      else sbind save_and_next (\<lambda>_. sret True) ls)"

section \<open>Progress\<close>

text \<open>What the lexer can still read, with the current character.\<close>

definition bytes_left :: "ZIO \<Rightarrow> nat" where
  "bytes_left z = length (zp z) + length (concat (zblocks z))"

definition mu :: "LexState \<Rightarrow> nat" where
  "mu ls = (if current ls = EOZ then 0 else Suc (bytes_left (zin ls)))"

lemma mu_update [simp]:
  "mu (ls\<lparr>linenumber := n\<rparr>) = mu ls" "mu (ls\<lparr>buff := b\<rparr>) = mu ls" "mu (ls\<lparr>decpoint := d\<rparr>) = mu ls"
  "mu (ls\<lparr>fs_h := h\<rparr>) = mu ls"
  by (simp_all add: mu_def)

lemma zgetc_less: "zgetc z = Ok (c, z') \<Longrightarrow> c \<noteq> EOZ \<Longrightarrow> bytes_left z' < bytes_left z"
  by (auto simp: zgetc_def luaZ_fill_def Let_def bytes_left_def neq_Nil_conv split: if_splits list.splits)

lemma lnext_less: "lnext ls = Ok (u, ls') \<Longrightarrow> current ls \<noteq> EOZ \<Longrightarrow> mu ls' < mu ls"
  by (auto simp: lnext_def mu_def dest: zgetc_less elim!: rbind_OkE)

lemma save_same: "save c ls = Ok (u, ls') \<Longrightarrow> mu ls' = mu ls \<and> current ls' = current ls"
  by (auto simp: save_def mu_def split: if_splits)

lemma save_and_next_less: "save_and_next ls = Ok (u, ls') \<Longrightarrow> current ls \<noteq> EOZ \<Longrightarrow> mu ls' < mu ls"
  by (auto simp: save_and_next_def elim!: sbind_OkE dest!: save_same lnext_less)

lemma lexerror_not_Ok [simp]: "luaX_lexerror msg t ls \<noteq> Ok r"
  by (auto simp: luaX_lexerror_def elim!: sbind_OkE)

lemma newline_current: "newline ls \<Longrightarrow> current ls \<noteq> EOZ"
  by (auto simp: newline_def)

lemma inclinenumber_less:
  assumes "inclinenumber ls = Ok (u, ls')" and "newline ls"
  shows "mu ls' < mu ls"
proof -
  from assms(1) obtain ls1 ls2 where 1: "lnext ls = Ok ((), ls1)"
    and 2: "(if newline ls1 \<and> current ls1 \<noteq> current ls then lnext else sret ()) ls1 = Ok ((), ls2)"
    and 3: "ls' = ls2\<lparr>linenumber := linenumber ls2 + 1\<rparr>"
    by (auto simp: inclinenumber_def luaX_syntaxerror_def Let_def elim!: sbind_OkE split: if_split_asm)
  from lnext_less [OF 1] assms(2) newline_current have "mu ls1 < mu ls" by blast
  moreover have "mu ls2 \<le> mu ls1" using 2 lnext_less [of ls1 "()" ls2] newline_current
    by (auto split: if_splits)
  ultimately show ?thesis using 3 by simp
qed

lemma isdigit_current: "isdigit (current ls) \<Longrightarrow> current ls \<noteq> EOZ"
  by (auto simp: isdigit_def)

lemma isalnum_current: "isalnum (current ls) \<Longrightarrow> current ls \<noteq> EOZ"
  by (auto simp: isalnum_def isalpha_def islower_def isupper_def isdigit_def)

lemma isspace_current: "isspace (current ls) \<Longrightarrow> current ls \<noteq> EOZ"
  by (auto simp: isspace_def)

section \<open>Numerals\<close>

function digit_loop :: "unit lexer" where
  "digit_loop ls =
     (if isdigit (current ls) \<or> current ls = code (CHR ''.'') then sbind save_and_next (\<lambda>_. digit_loop) ls
      else Ok ((), ls))"
  by pat_completeness auto
termination
  by (relation "measure mu") (auto dest!: save_and_next_less isdigit_current simp: code_def)

function alnum_loop :: "unit lexer" where
  "alnum_loop ls =
     (if isalnum (current ls) \<or> current ls = code (CHR ''_'') then sbind save_and_next (\<lambda>_. alnum_loop) ls
      else Ok ((), ls))"
  by pat_completeness auto
termination
  by (relation "measure mu") (auto dest!: save_and_next_less isalnum_current simp: code_def)

declare digit_loop.simps [simp del] alnum_loop.simps [simp del]

definition buffreplace :: "char \<Rightarrow> char \<Rightarrow> unit lexer" where
  "buffreplace from to ls = Ok ((), ls\<lparr>buff := map (\<lambda>c. if c = from then to else c) (buff ls)\<rparr>)"

text \<open>\<open>localeconv\<close> in the \<open>C\<close> locale gives a point.\<close>

definition trydecpoint :: "SemInfo lexer" where
  "trydecpoint ls =
     (let old = decpoint ls; ls1 = ls\<lparr>decpoint := CHR ''.''\<rparr>
      in sbind (buffreplace old (decpoint ls1)) (\<lambda>_ ls2.
           case luaO_str2d (buff ls2) of
             None \<Rightarrow> sbind (buffreplace (decpoint ls2) (CHR ''.'')) (\<lambda>_. luaX_lexerror ''malformed number'' TK_NUMBER) ls2
           | Some x \<Rightarrow> Ok (SemNum x, ls2)) ls1)"

definition read_numeral :: "SemInfo lexer" where
  "read_numeral =
     sbind save_and_next (\<lambda>_. sbind digit_loop (\<lambda>_.
     sbind (check_next ''Ee'') (\<lambda>e. sbind (if e then check_next ''+-'' else sret False) (\<lambda>_.
     sbind alnum_loop (\<lambda>_. sbind (save 0) (\<lambda>_ ls.
     sbind (buffreplace (CHR ''.'') (decpoint ls)) (\<lambda>_ ls.
       case luaO_str2d (buff ls) of
         None \<Rightarrow> trydecpoint ls
       | Some x \<Rightarrow> Ok (SemNum x, ls)) ls))))))"

section \<open>Long strings\<close>

function sep_loop :: "int \<Rightarrow> int lexer" where
  "sep_loop count ls =
     (if current ls = code (CHR ''='') then sbind save_and_next (\<lambda>_. sep_loop (count + 1)) ls
      else Ok (count, ls))"
  by pat_completeness auto
termination
  by (relation "measure (\<lambda>(c, ls). mu ls)") (auto dest!: save_and_next_less simp: code_def)

declare sep_loop.simps [simp del]

definition skip_sep :: "int lexer" where
  "skip_sep ls = sbind save_and_next (\<lambda>_. sbind (sep_loop 0) (\<lambda>count ls'.
     Ok (if current ls' = current ls then count else - count - 1, ls'))) ls"

lemma sep_loop_le: "sep_loop c ls = Ok (k, ls') \<Longrightarrow> mu ls' \<le> mu ls"
proof (induction c ls rule: sep_loop.induct)
  case (1 c ls)
  show ?case
  proof (cases "current ls = code (CHR ''='')")
    case True
    with "1.prems" obtain ls1 where s: "save_and_next ls = Ok ((), ls1)" "sep_loop (c + 1) ls1 = Ok (k, ls')"
      by (subst (asm) sep_loop.simps) (auto elim!: sbind_OkE)
    from "1.IH" [OF True s] save_and_next_less [OF s(1)] True show ?thesis by (simp add: code_def)
  next
    case False
    with "1.prems" show ?thesis by (simp add: sep_loop.simps [of c])
  qed
qed

lemma sep_loop_ge: "sep_loop c ls = Ok (k, ls') \<Longrightarrow> c \<le> k"
proof (induction c ls rule: sep_loop.induct)
  case (1 c ls)
  show ?case
  proof (cases "current ls = code (CHR ''='')")
    case True
    with "1.prems" obtain ls1 where s: "save_and_next ls = Ok ((), ls1)" "sep_loop (c + 1) ls1 = Ok (k, ls')"
      by (subst (asm) sep_loop.simps) (auto elim!: sbind_OkE)
    from "1.IH" [OF True s] show ?thesis by simp
  next
    case False
    with "1.prems" show ?thesis by (simp add: sep_loop.simps [of c])
  qed
qed

lemma skip_sep_less:
  assumes "skip_sep ls = Ok (k, ls')" and "current ls \<noteq> EOZ"
  shows "mu ls' < mu ls" and "0 \<le> k \<Longrightarrow> current ls' \<noteq> EOZ"
proof -
  from assms(1) obtain ls1 c where s: "save_and_next ls = Ok ((), ls1)" "sep_loop 0 ls1 = Ok (c, ls')"
    and k: "k = (if current ls' = current ls then c else - c - 1)"
    by (auto simp: skip_sep_def elim!: sbind_OkE)
  from save_and_next_less [OF s(1) assms(2)] sep_loop_le [OF s(2)] show "mu ls' < mu ls" by simp
  from sep_loop_ge [OF s(2)] k assms(2) show "0 \<le> k \<Longrightarrow> current ls' \<noteq> EOZ" by (auto split: if_splits)
qed

text \<open>\<open>sem\<close>: the string is kept; otherwise it is a comment.\<close>

function long_loop :: "bool \<Rightarrow> nat \<Rightarrow> unit lexer" where
  "long_loop sem sep ls =
     (if current ls = EOZ then
        luaX_lexerror (if sem then ''unfinished long string'' else ''unfinished long comment'') TK_EOS ls
      else if current ls = code (CHR ''['') then
        sbind skip_sep (\<lambda>k ls1.
          if k = int sep then sbind save_and_next (\<lambda>_ ls2.
            if sep = 0 then luaX_lexerror ''nesting of [[...]] is deprecated'' (code (CHR ''['')) ls2
            else long_loop sem sep ls2) ls1
          else long_loop sem sep ls1) ls
      else if current ls = code (CHR '']'') then
        sbind skip_sep (\<lambda>k ls1. if k = int sep then save_and_next ls1 else long_loop sem sep ls1) ls
      else if newline ls then
        sbind (save 10) (\<lambda>_. sbind inclinenumber (\<lambda>_.
          sbind (if sem then sret () else resetbuffer) (\<lambda>_. long_loop sem sep))) ls
      else sbind (if sem then save_and_next else lnext) (\<lambda>_. long_loop sem sep) ls)"
  by pat_completeness auto
termination
proof (relation "measure (\<lambda>(sem, sep, ls). mu ls)", goal_cases)
  case 1
  show ?case by simp
next
  case (2 sem sep ls k ls1 u ls2)
  with skip_sep_less [of ls k ls1] save_and_next_less [of ls1 u ls2] show ?case by auto
next
  case (3 sem sep ls k ls1)
  with skip_sep_less [of ls k ls1] show ?case by auto
next
  case (4 sem sep ls k ls1)
  with skip_sep_less [of ls k ls1] show ?case by auto
next
  case (5 sem sep ls u ls1 v ls2 w ls3)
  with save_same [of 10 ls u ls1] have "newline ls1" "mu ls1 = mu ls" by (auto simp: newline_def)
  with 5 inclinenumber_less [of ls1 v ls2] show ?case by (auto simp: resetbuffer_def split: if_splits)
next
  case (6 sem sep ls u ls1)
  with save_and_next_less [of ls u ls1] lnext_less [of ls u ls1] show ?case by (auto split: if_splits)
qed

declare long_loop.simps [simp del]

definition read_long_string :: "bool \<Rightarrow> nat \<Rightarrow> SemInfo lexer" where
  "read_long_string sem sep =
     sbind save_and_next (\<lambda>_. sbind (\<lambda>ls. if newline ls then inclinenumber ls else Ok ((), ls)) (\<lambda>_.
     sbind (long_loop sem sep) (\<lambda>_ ls.
       if sem then
         sbind (luaX_newstring (take (length (buff ls) - 2 * (2 + sep)) (drop (2 + sep) (buff ls))))
           (\<lambda>s. sret (SemStr s)) ls
       else Ok (SemNone, ls))))"

lemma long_loop_le: "long_loop sem sep ls = Ok (u, ls') \<Longrightarrow> mu ls' \<le> mu ls"
proof (induction sem sep ls rule: long_loop.induct)
  case (1 sem sep ls)
  show ?case
  proof (cases "current ls = EOZ")
    case ne: False
    consider (opn) "current ls = code (CHR ''['')" | (cls) "current ls = code (CHR '']'')"
      | (line) "current ls \<noteq> code (CHR ''['')" "current ls \<noteq> code (CHR '']'')" "newline ls"
      | (other) "current ls \<noteq> code (CHR ''['')" "current ls \<noteq> code (CHR '']'')" "\<not> newline ls" by blast
    then show ?thesis
    proof cases
      case opn
      with "1.prems" ne obtain k ls1 where k: "skip_sep ls = Ok (k, ls1)"
        and r: "(if k = int sep then sbind save_and_next (\<lambda>_ ls2.
            if sep = 0 then luaX_lexerror ''nesting of [[...]] is deprecated'' (code (CHR ''['')) ls2
            else long_loop sem sep ls2) ls1
          else long_loop sem sep ls1) = Ok (u, ls')"
        by (subst (asm) long_loop.simps) (auto elim!: sbind_OkE)
      note less = skip_sep_less [OF k ne]
      show ?thesis
      proof (cases "k = int sep")
        case True
        with r obtain v ls2 where 2: "save_and_next ls1 = Ok (v, ls2)" "sep \<noteq> 0" "long_loop sem sep ls2 = Ok (u, ls')"
          by (auto elim!: sbind_OkE split: if_splits)
        from "1.IH"(1) [OF ne opn k True 2(1,2,3)] save_and_next_less [OF 2(1)] less True show ?thesis by simp
      next
        case False
        with r have "long_loop sem sep ls1 = Ok (u, ls')" by simp
        from "1.IH"(2) [OF ne opn k False this] less show ?thesis by simp
      qed
    next
      case cls
      with "1.prems" ne obtain k ls1 where k: "skip_sep ls = Ok (k, ls1)"
        and r: "(if k = int sep then save_and_next ls1 else long_loop sem sep ls1) = Ok (u, ls')"
        by (subst (asm) long_loop.simps) (auto elim!: sbind_OkE simp: code_def)
      have no: "current ls \<noteq> code (CHR ''['')" using cls by (simp add: code_def)
      show ?thesis
      proof (cases "k = int sep")
        case True
        with r save_and_next_less [of ls1 u ls'] skip_sep_less [OF k ne] show ?thesis by auto
      next
        case False
        with r "1.IH"(3) [OF ne no cls k False] skip_sep_less [OF k ne] show ?thesis by simp
      qed
    next
      case line
      with "1.prems" ne obtain ls1 ls2 ls3 where
        1: "save 10 ls = Ok ((), ls1)" and 2: "inclinenumber ls1 = Ok ((), ls2)"
        and 3: "(if sem then sret () else resetbuffer) ls2 = Ok ((), ls3)" "long_loop sem sep ls3 = Ok (u, ls')"
        by (subst (asm) long_loop.simps) (auto elim!: sbind_OkE)
      have "newline ls1" "mu ls1 = mu ls" using save_same [OF 1] line by (auto simp: newline_def)
      with inclinenumber_less [OF 2] have "mu ls2 < mu ls" by simp
      moreover have "mu ls3 = mu ls2" using 3(1) by (auto simp: resetbuffer_def split: if_splits)
      ultimately show ?thesis using "1.IH"(4) [OF ne line 1 2 3(1,2)] by simp
    next
      case other
      with "1.prems" ne obtain ls1 where 1: "(if sem then save_and_next else lnext) ls = Ok ((), ls1)"
        and 2: "long_loop sem sep ls1 = Ok (u, ls')"
        by (subst (asm) long_loop.simps) (auto elim!: sbind_OkE)
      have "mu ls1 < mu ls" using 1 save_and_next_less [of ls "()" ls1] lnext_less [of ls "()" ls1] ne by (auto split: if_splits)
      with "1.IH"(5) [OF ne other 1 2] show ?thesis by simp
    qed
  qed (use "1.prems" in \<open>simp add: long_loop.simps [of sem]\<close>)
qed

lemma read_long_string_le:
  assumes "read_long_string sem sep ls = Ok (x, ls')" and "current ls \<noteq> EOZ"
  shows "mu ls' \<le> mu ls"
proof -
  from assms(1) obtain ls1 ls2 ls3 where 1: "save_and_next ls = Ok ((), ls1)"
    and 2: "(if newline ls1 then inclinenumber ls1 else Ok ((), ls1)) = Ok ((), ls2)"
    and 3: "long_loop sem sep ls2 = Ok ((), ls3)" and 4: "mu ls' = mu ls3"
    by (auto simp: read_long_string_def luaX_newstring_def elim!: sbind_OkE split: if_split_asm)
  have "mu ls2 \<le> mu ls1" using 2 inclinenumber_less [of ls1 "()" ls2] by (auto split: if_splits)
  with save_and_next_less [OF 1 assms(2)] long_loop_le [OF 3] 4 show ?thesis by simp
qed

section \<open>Strings\<close>

text \<open>Up to three decimal digits of an escape.\<close>

fun esc_digits :: "nat \<Rightarrow> int \<Rightarrow> int lexer" where
  "esc_digits 0 c ls = Ok (c, ls)"
| "esc_digits (Suc k) c ls =
     (let c' = 10 * c + (current ls - 48)
      in sbind lnext (\<lambda>_ ls1. if 0 < k \<and> isdigit (current ls1) then esc_digits k c' ls1 else Ok (c', ls1)) ls)"

abbreviation UCHAR_MAX :: int where "UCHAR_MAX \<equiv> 255"

text \<open>After the backslash. At the end of the stream the next turn of the loop raises the error.\<close>

definition read_escape :: "unit lexer" where
  "read_escape ls =
     (let c = current ls;
          simple = map_of (zip (map code ''abfnrtv'') [7, 8, 12, 10, 13, 9, 11])
      in case simple c of
           Some k \<Rightarrow> sbind (save k) (\<lambda>_. lnext) ls
         | None \<Rightarrow>
             if newline ls then sbind (save 10) (\<lambda>_. inclinenumber) ls
             else if c = EOZ then Ok ((), ls)
             else if \<not> isdigit c then save_and_next ls
             else sbind (esc_digits 3 0) (\<lambda>n ls1.
               if UCHAR_MAX < n then luaX_lexerror ''escape sequence too large'' TK_STRING ls1
               else save n ls1) ls)"

lemma esc_digits_le: "esc_digits k c ls = Ok (n, ls') \<Longrightarrow> isdigit (current ls) \<Longrightarrow> mu ls' \<le> mu ls"
proof (induction k c ls rule: esc_digits.induct)
  case (2 k c ls)
  let ?c = "10 * c + (current ls - 48)"
  from "2.prems"(1) obtain u ls1 where 1: "lnext ls = Ok (u, ls1)"
    and r: "(if 0 < k \<and> isdigit (current ls1) then esc_digits k ?c ls1 else Ok (?c, ls1)) = Ok (n, ls')"
    by (auto simp: Let_def elim!: sbind_OkE)
  have less: "mu ls1 < mu ls" by (rule lnext_less [OF 1 isdigit_current [OF "2.prems"(2)]])
  show ?case
  proof (cases "0 < k \<and> isdigit (current ls1)")
    case True
    with r have "esc_digits k ?c ls1 = Ok (n, ls')" by simp
    from "2.IH" [OF refl 1 True this] less True show ?thesis by simp
  qed (use r less in auto)
qed simp

lemma read_escape_le:
  assumes "read_escape ls = Ok (u, ls')"
  shows "mu ls' \<le> mu ls"
proof (cases "current ls = EOZ")
  case True
  then have "map_of (zip (map code ''abfnrtv'') [7, 8, 12, 10, 13, 9, 11]) (current ls) = (None :: int option)" "\<not> newline ls"
    by (simp_all add: newline_def code_def)
  with assms True show ?thesis by (simp add: read_escape_def)
next
  case ne: False
  show ?thesis
  proof (cases "map_of (zip (map code ''abfnrtv'') [7, 8, 12, 10, 13, 9, 11]) (current ls) :: int option")
    case (Some k)
    with assms obtain ls1 where "save k ls = Ok ((), ls1)" "lnext ls1 = Ok (u, ls')"
      by (auto simp: read_escape_def Let_def elim!: sbind_OkE)
    with save_same [of k ls "()" ls1] lnext_less [of ls1 u ls'] ne show ?thesis by simp
  next
    case None
    consider (nl) "newline ls" | (plain) "\<not> newline ls" "\<not> isdigit (current ls)"
      | (dig) "\<not> newline ls" "isdigit (current ls)" by blast
    then show ?thesis
    proof cases
      case nl
      with assms None obtain ls1 where "save 10 ls = Ok ((), ls1)" "inclinenumber ls1 = Ok (u, ls')"
        by (auto simp: read_escape_def Let_def elim!: sbind_OkE)
      with save_same [of 10 ls "()" ls1] inclinenumber_less [of ls1 u ls'] nl show ?thesis by (simp add: newline_def)
    next
      case plain
      with assms None ne save_and_next_less [of ls u ls'] show ?thesis by (simp add: read_escape_def Let_def)
    next
      case dig
      with assms None ne obtain n ls1 where "esc_digits 3 0 ls = Ok (n, ls1)" "save n ls1 = Ok (u, ls')"
        by (auto simp: read_escape_def Let_def elim!: sbind_OkE split: if_splits)
      with esc_digits_le [of 3 0 ls n ls1] dig(2) save_same [of n ls1 u ls'] show ?thesis by simp
    qed
  qed
qed

function string_loop :: "int \<Rightarrow> unit lexer" where
  "string_loop del ls =
     (if current ls = del then Ok ((), ls)
      else if current ls = EOZ then luaX_lexerror ''unfinished string'' TK_EOS ls
      else if newline ls then luaX_lexerror ''unfinished string'' TK_STRING ls
      else if current ls = code (CHR 0x5C) then
        sbind lnext (\<lambda>_. sbind read_escape (\<lambda>_. string_loop del)) ls
      else sbind save_and_next (\<lambda>_. string_loop del) ls)"
  by pat_completeness auto
termination
  by (relation "measure (\<lambda>(del, ls). mu ls)")
     (auto dest!: lnext_less read_escape_le save_and_next_less)

declare string_loop.simps [simp del]

definition read_string :: "int \<Rightarrow> SemInfo lexer" where
  "read_string del =
     sbind save_and_next (\<lambda>_. sbind (string_loop del) (\<lambda>_. sbind save_and_next (\<lambda>_ ls.
       sbind (luaX_newstring (take (length (buff ls) - 2) (drop 1 (buff ls)))) (\<lambda>s. sret (SemStr s)) ls)))"

section \<open>Comments\<close>

function skip_line :: "unit lexer" where
  "skip_line ls =
     (if \<not> newline ls \<and> current ls \<noteq> EOZ then sbind lnext (\<lambda>_. skip_line) ls else Ok ((), ls))"
  by pat_completeness auto
termination
  by (relation "measure mu") (auto dest!: lnext_less)

declare skip_line.simps [simp del]

lemma skip_line_le: "skip_line ls = Ok (u, ls') \<Longrightarrow> mu ls' \<le> mu ls"
proof (induction ls rule: skip_line.induct)
  case (1 ls)
  show ?case
  proof (cases "\<not> newline ls \<and> current ls \<noteq> EOZ")
    case True
    with "1.prems" obtain ls1 where s: "lnext ls = Ok ((), ls1)" "skip_line ls1 = Ok (u, ls')"
      by (subst (asm) skip_line.simps) (auto elim!: sbind_OkE)
    from "1.IH" [OF True s] lnext_less [OF s(1)] True show ?thesis by simp
  next
    case False
    with "1.prems" show ?thesis by (subst (asm) skip_line.simps) (auto split: if_splits)
  qed
qed

function c_comment_loop :: "unit lexer" where
  "c_comment_loop ls =
     (if current ls = EOZ then luaX_lexerror ''unfinished long comment'' TK_EOS ls
      else if current ls = code (CHR ''*'') then
        sbind lnext (\<lambda>_ ls1. if current ls1 = code (CHR ''/'') then lnext ls1 else c_comment_loop ls1) ls
      else if newline ls then
        sbind (save 10) (\<lambda>_. sbind inclinenumber (\<lambda>_. sbind resetbuffer (\<lambda>_. c_comment_loop))) ls
      else sbind lnext (\<lambda>_. c_comment_loop) ls)"
  by pat_completeness auto
termination
proof (relation "measure mu", goal_cases)
  case (3 ls u ls1 v ls2 w ls3)
  with save_same [of 10 ls u ls1] have "newline ls1" "mu ls1 = mu ls" by (auto simp: newline_def)
  with 3 inclinenumber_less [of ls1 v ls2] show ?case by (auto simp: resetbuffer_def)
qed (auto dest!: lnext_less)

declare c_comment_loop.simps [simp del]

text \<open>It is entered on the asterisk that opens the comment.\<close>

definition skip_c_comment :: "unit lexer" where
  "skip_c_comment = sbind (\<lambda>ls. if newline ls then inclinenumber ls else Ok ((), ls)) (\<lambda>_. c_comment_loop)"

lemma c_comment_loop_le: "c_comment_loop ls = Ok (u, ls') \<Longrightarrow> mu ls' \<le> mu ls"
proof (induction ls rule: c_comment_loop.induct)
  case (1 ls)
  show ?case
  proof (cases "current ls = EOZ")
    case ne: False
    consider (star) "current ls = code (CHR ''*'')" | (line) "current ls \<noteq> code (CHR ''*'')" "newline ls"
      | (other) "current ls \<noteq> code (CHR ''*'')" "\<not> newline ls" by blast
    then show ?thesis
    proof cases
      case star
      with "1.prems" ne obtain ls1 where s: "lnext ls = Ok ((), ls1)"
        and r: "(if current ls1 = code (CHR ''/'') then lnext ls1 else c_comment_loop ls1) = Ok (u, ls')"
        by (subst (asm) c_comment_loop.simps) (auto elim!: sbind_OkE)
      note less = lnext_less [OF s ne]
      show ?thesis
      proof (cases "current ls1 = code (CHR ''/'')")
        case True
        with r lnext_less [of ls1 u ls'] less show ?thesis by (simp add: code_def)
      next
        case False
        with r "1.IH"(1) [OF ne star s False] less show ?thesis by simp
      qed
    next
      case line
      with "1.prems" ne obtain ls1 ls2 ls3 where
        1: "save 10 ls = Ok ((), ls1)" and 2: "inclinenumber ls1 = Ok ((), ls2)"
        and 3: "resetbuffer ls2 = Ok ((), ls3)" "c_comment_loop ls3 = Ok (u, ls')"
        by (subst (asm) c_comment_loop.simps) (auto elim!: sbind_OkE)
      have "newline ls1" "mu ls1 = mu ls" using save_same [OF 1] line by (auto simp: newline_def)
      with inclinenumber_less [OF 2] 3(1) "1.IH"(2) [OF ne line 1 2 3] show ?thesis
        by (auto simp: resetbuffer_def)
    next
      case other
      with "1.prems" ne obtain ls1 where s: "lnext ls = Ok ((), ls1)" "c_comment_loop ls1 = Ok (u, ls')"
        by (subst (asm) c_comment_loop.simps) (auto elim!: sbind_OkE)
      from "1.IH"(3) [OF ne other s] lnext_less [OF s(1) ne] show ?thesis by simp
    qed
  qed (use "1.prems" in \<open>simp add: c_comment_loop.simps [of ls]\<close>)
qed

lemma skip_c_comment_le: "skip_c_comment ls = Ok (u, ls') \<Longrightarrow> mu ls' \<le> mu ls"
  by (fastforce simp: skip_c_comment_def elim!: sbind_OkE dest: inclinenumber_less c_comment_loop_le split: if_splits)

section \<open>The analyser\<close>

text \<open>A name or a reserved word.\<close>

definition read_name :: "SemInfo \<Rightarrow> (int \<times> SemInfo) lexer" where
  "read_name si =
     sbind alnum_loop (\<lambda>_ ls. sbind (luaX_newstring (buff ls)) (\<lambda>s.
       sret (if 0 < luaX_init s then (luaX_init s - 1 + FIRST_RESERVED, si) else (TK_NAME, SemStr s))) ls)"

text \<open>A token of two characters: after the first, \<open>c2\<close> makes it \<open>t2\<close>.\<close>

definition two_chars :: "char \<Rightarrow> int \<Rightarrow> int \<Rightarrow> SemInfo \<Rightarrow> (int \<times> SemInfo) lexer" where
  "two_chars c2 t2 t1 si ls =
     (if current ls \<noteq> code c2 then Ok ((t1, si), ls) else sbind lnext (\<lambda>_. sret (t2, si)) ls)"

text \<open>\<open>.\<close>, \<open>..\<close>, \<open>...\<close> or a numeral\<close>

definition read_dots :: "SemInfo \<Rightarrow> (int \<times> SemInfo) lexer" where
  "read_dots si =
     sbind save_and_next (\<lambda>_. sbind (check_next ''.'') (\<lambda>two.
       if two then sbind (check_next ''.'') (\<lambda>three. sret (if three then TK_DOTS else TK_CONCAT, si))
       else (\<lambda>ls. if \<not> isdigit (current ls) then Ok ((code (CHR ''.''), si), ls)
                  else sbind read_numeral (\<lambda>x. sret (TK_NUMBER, x)) ls)))"

text \<open>After \<open>>\<close>: a character that makes no longer token is skipped.\<close>

definition read_gt :: "SemInfo \<Rightarrow> (int \<times> SemInfo) lexer" where
  "read_gt si ls =
     (if current ls = code (CHR ''='') then sbind lnext (\<lambda>_. sret (TK_GE, si)) ls
      else if current ls = code (CHR ''>'') then sbind lnext (\<lambda>_. sret (TK_RSHFT, si)) ls
      else sbind lnext (\<lambda>_. sret (code (CHR ''>''), si)) ls)"

definition read_lt :: "SemInfo \<Rightarrow> (int \<times> SemInfo) lexer" where
  "read_lt si ls =
     (if current ls = code (CHR ''='') then sbind lnext (\<lambda>_. sret (TK_LE, si)) ls
      else if current ls = code (CHR ''<'') then sbind lnext (\<lambda>_. sret (TK_LSHFT, si)) ls
      else Ok ((code (CHR ''<''), si), ls))"

text \<open>Two dashes have been read: whether a long comment follows; if so it is skipped.\<close>

definition read_comment :: "unit lexer" where
  "read_comment ls =
     (if current ls = code (CHR ''['') then
        sbind skip_sep (\<lambda>sep. sbind resetbuffer (\<lambda>_.
          if 0 \<le> sep then sbind (read_long_string False (nat sep)) (\<lambda>_. resetbuffer)
          else skip_line)) ls
      else skip_line ls)"

lemma read_comment_le: "read_comment ls = Ok (u, ls') \<Longrightarrow> mu ls' \<le> mu ls"
proof (cases "current ls = code (CHR ''['')")
  case True
  assume "read_comment ls = Ok (u, ls')"
  with True obtain sep ls1 ls2 where 1: "skip_sep ls = Ok (sep, ls1)" and 2: "resetbuffer ls1 = Ok ((), ls2)"
    and r: "(if 0 \<le> sep then sbind (read_long_string False (nat sep)) (\<lambda>_. resetbuffer) else skip_line) ls2 = Ok (u, ls')"
    by (auto simp: read_comment_def elim!: sbind_OkE)
  have ne: "current ls \<noteq> EOZ" using True by (simp add: code_def)
  note less = skip_sep_less [OF 1 ne]
  have 2: "ls2 = ls1\<lparr>buff := []\<rparr>" using 2 by (simp add: resetbuffer_def)
  show ?thesis
  proof (cases "0 \<le> sep")
    case True
    with r obtain x ls3 where "read_long_string False (nat sep) ls2 = Ok (x, ls3)" "ls' = ls3\<lparr>buff := []\<rparr>"
      by (auto simp: resetbuffer_def elim!: sbind_OkE)
    with read_long_string_le [of False "nat sep" ls2 x ls3] less True 2 show ?thesis by simp
  next
    case False
    with r skip_line_le [of ls2 u ls'] less 2 show ?thesis by simp
  qed
qed (auto simp: read_comment_def dest: skip_line_le)

text \<open>One turn of the loop: nothing when it goes on, or the token.\<close>

definition lex_turn :: "SemInfo \<Rightarrow> (int \<times> SemInfo) option lexer" where
  "lex_turn si ls =
     (let c = current ls;
          go = (\<lambda>m :: unit lexer. sbind m (\<lambda>_. sret None));
          tok = (\<lambda>m. sbind m (\<lambda>t. sret (Some t)))
      in if newline ls then go inclinenumber ls
         else if c = code (CHR ''-'') then
           sbind lnext (\<lambda>_ ls1.
             if current ls1 \<noteq> code (CHR ''-'') then Ok (Some (code (CHR ''-''), si), ls1)
             else sbind lnext (\<lambda>_. go read_comment) ls1) ls
         else if c = code (CHR ''/'') then
           sbind lnext (\<lambda>_ ls1.
             if current ls1 = code (CHR ''/'') then go skip_line ls1
             else if current ls1 = code (CHR ''*'') then go skip_c_comment ls1
             else Ok (Some (code (CHR ''/''), si), ls1)) ls
         else if c = code (CHR ''['') then
           sbind skip_sep (\<lambda>sep.
             if 0 \<le> sep then sbind (read_long_string True (nat sep)) (\<lambda>x. sret (Some (TK_STRING, x)))
             else if sep = - 1 then sret (Some (code (CHR ''[''), si))
             else luaX_lexerror ''invalid long string delimiter'' TK_STRING) ls
         else if c = code (CHR ''='') then sbind lnext (\<lambda>_. tok (two_chars (CHR ''='') TK_EQ c si)) ls
         else if c = code (CHR ''<'') then sbind lnext (\<lambda>_. tok (read_lt si)) ls
         else if c = code (CHR ''>'') then sbind lnext (\<lambda>_. tok (read_gt si)) ls
         else if c = code (CHR ''^'') then sbind lnext (\<lambda>_. tok (two_chars (CHR ''^'') TK_XOR c si)) ls
         else if c = code (CHR ''!'') then sbind lnext (\<lambda>_. tok (two_chars (CHR ''='') TK_NE c si)) ls
         else if c = code (CHR ''~'') then sbind lnext (\<lambda>_. tok (two_chars (CHR ''='') TK_NE c si)) ls
         else if c = code (CHR 0x22) \<or> c = code (CHR 0x27) then
           sbind (read_string c) (\<lambda>x. sret (Some (TK_STRING, x))) ls
         else if c = code (CHR ''.'') then tok (read_dots si) ls
         else if c = EOZ then Ok (Some (TK_EOS, si), ls)
         else if isspace c then go lnext ls
         else if isdigit c then sbind read_numeral (\<lambda>x. sret (Some (TK_NUMBER, x))) ls
         else if isalpha c \<or> c = code (CHR ''_'') then tok (read_name si) ls
         else sbind lnext (\<lambda>_. sret (Some (c, si))) ls)"

lemma go_None: "sbind m (\<lambda>_. sret None) ls = Ok (None, ls') \<longleftrightarrow> (\<exists>u. m ls = Ok (u, ls'))"
  by (auto simp: sbind_def sret_def elim!: rbind_OkE)

lemma tok_Some: "sbind m (\<lambda>t. sret (Some (f t))) ls \<noteq> Ok (None, ls')"
  by (auto elim!: sbind_OkE)

lemma lex_turn_less:
  assumes "lex_turn si ls = Ok (None, ls')"
  shows "mu ls' < mu ls"
proof -
  let ?c = "current ls"
  have no: "\<not> newline ls \<Longrightarrow> ?c = code (CHR ''-'') \<or> ?c = code (CHR ''/'') \<or> isspace ?c"
    using assms by (auto simp: lex_turn_def Let_def tok_Some go_None split: if_splits elim!: sbind_OkE)
  consider (nl) "newline ls" | (dash) "\<not> newline ls" "?c = code (CHR ''-'')" | (slash) "\<not> newline ls" "?c = code (CHR ''/'')"
    | (space) "\<not> newline ls" "isspace ?c" using no by blast
  then show ?thesis
  proof cases
    case nl
    with assms inclinenumber_less show ?thesis by (auto simp: lex_turn_def Let_def go_None)
  next
    case dash
    with assms obtain ls1 ls2 where 1: "lnext ls = Ok ((), ls1)" and 2: "current ls1 = code (CHR ''-'')" "lnext ls1 = Ok ((), ls2)"
      and 3: "read_comment ls2 = Ok ((), ls')"
      by (auto simp: lex_turn_def Let_def go_None elim!: sbind_OkE split: if_splits)
    have "mu ls1 < mu ls" using lnext_less [OF 1] dash by (simp add: code_def)
    moreover have "mu ls2 < mu ls1" using lnext_less [OF 2(2)] 2(1) by (simp add: code_def)
    ultimately show ?thesis using read_comment_le [OF 3] by simp
  next
    case slash
    then have no: "?c \<noteq> code (CHR ''-'')" by simp
    with slash assms obtain ls1 where 1: "lnext ls = Ok ((), ls1)"
      and 2: "skip_line ls1 = Ok ((), ls') \<or> skip_c_comment ls1 = Ok ((), ls')"
      by (auto simp: lex_turn_def Let_def go_None elim!: sbind_OkE split: if_splits)
    have "mu ls1 < mu ls" using lnext_less [OF 1] slash by (simp add: code_def)
    with 2 skip_line_le skip_c_comment_le show ?thesis by fastforce
  next
    case space
    then have "lnext ls = Ok ((), ls')"
      using assms by (auto simp: lex_turn_def Let_def go_None isspace_def code_def newline_def split: if_splits)
    with lnext_less isspace_current space(2) show ?thesis by blast
  qed
qed

function llex_loop :: "SemInfo \<Rightarrow> (int \<times> SemInfo) lexer" where
  "llex_loop si ls = sbind (lex_turn si) (\<lambda>r ls1.
     case r of None \<Rightarrow> llex_loop si ls1 | Some t \<Rightarrow> Ok (t, ls1)) ls"
  by pat_completeness auto
termination
  by (relation "measure (\<lambda>(si, ls). mu ls)") (auto dest: lex_turn_less)

declare llex_loop.simps [simp del]

definition llex :: "SemInfo \<Rightarrow> (int \<times> SemInfo) lexer" where
  "llex si = sbind resetbuffer (\<lambda>_. llex_loop si)"

definition luaX_next :: "unit lexer" where
  "luaX_next ls0 =
     (let ls = ls0\<lparr>lastline := linenumber ls0\<rparr>
      in if token (ahead ls) \<noteq> TK_EOS then
           Ok ((), ls\<lparr>tk := ahead ls, ahead := (ahead ls)\<lparr>token := TK_EOS\<rparr>\<rparr>)
         else sbind (llex (seminfo (tk ls))) (\<lambda>(t, si) ls1. Ok ((), ls1\<lparr>tk := \<lparr>token = t, seminfo = si\<rparr>\<rparr>)) ls)"

definition luaX_lookahead :: "unit lexer" where
  "luaX_lookahead ls =
     sbind (llex (seminfo (ahead ls))) (\<lambda>(t, si) ls1. Ok ((), ls1\<lparr>ahead := \<lparr>token = t, seminfo = si\<rparr>\<rparr>)) ls"

definition LUA_MINBUFFER :: nat where "LUA_MINBUFFER = 32"

text \<open>The current token, which the code leaves unset until the first call of \<open>luaX_next\<close>, is 0 here.\<close>

definition luaX_setinput :: "ZIO \<Rightarrow> string \<Rightarrow> (unit \<times> LexState) result" where
  "luaX_setinput z src_name =
     lnext \<lparr>current = EOZ, linenumber = 1, lastline = 1, tk = \<lparr>token = 0, seminfo = SemNone\<rparr>,
       ahead = \<lparr>token = TK_EOS, seminfo = SemNone\<rparr>, zin = z, buff = [], buffsize = LUA_MINBUFFER,
       fs_h = [], lex_source = src_name, decpoint = CHR ''.''\<rparr>"

end
