(* ===== verification/LuaOpcodes.thy ===== *)
theory LuaOpcodes
  imports LuaObject
begin

unbundle bit_operations_syntax

text \<open>
  Virtual-machine instructions: \<^verbatim>\<open>lopcodes.h\<close> and \<^verbatim>\<open>lopcodes.c\<close>. An instruction is a
  32-bit word with the opcode in its first six bits; the macros that read, write and build
  the argument fields are bit operations on it, as in the code.
\<close>

type_synonym Instruction = u32

section \<open>Opcodes\<close>

datatype OpCode =
    OP_MOVE | OP_LOADK | OP_LOADBOOL | OP_LOADNIL | OP_GETUPVAL | OP_GETGLOBAL | OP_GETTABLE
  | OP_SETGLOBAL | OP_SETUPVAL | OP_SETTABLE | OP_NEWTABLE | OP_SELF
  | OP_ADD | OP_SUB | OP_MUL | OP_DIV | OP_MOD | OP_POW
  | OP_BOR | OP_BAND | OP_BXOR | OP_BLSHFT | OP_BRSHFT | OP_BNOT
  | OP_UNM | OP_NOT | OP_LEN | OP_CONCAT | OP_JMP | OP_EQ | OP_LT | OP_LE
  | OP_TEST | OP_TESTSET | OP_CALL | OP_TAILCALL | OP_RETURN
  | OP_FORLOOP | OP_FORPREP | OP_TFORLOOP | OP_SETLIST | OP_CLOSE | OP_CLOSURE | OP_VARARG

text \<open>The enumeration order gives the numbers.\<close>

definition opcodes :: "OpCode list" where
  "opcodes =
    [OP_MOVE, OP_LOADK, OP_LOADBOOL, OP_LOADNIL, OP_GETUPVAL, OP_GETGLOBAL, OP_GETTABLE,
     OP_SETGLOBAL, OP_SETUPVAL, OP_SETTABLE, OP_NEWTABLE, OP_SELF,
     OP_ADD, OP_SUB, OP_MUL, OP_DIV, OP_MOD, OP_POW,
     OP_BOR, OP_BAND, OP_BXOR, OP_BLSHFT, OP_BRSHFT, OP_BNOT,
     OP_UNM, OP_NOT, OP_LEN, OP_CONCAT, OP_JMP, OP_EQ, OP_LT, OP_LE,
     OP_TEST, OP_TESTSET, OP_CALL, OP_TAILCALL, OP_RETURN,
     OP_FORLOOP, OP_FORPREP, OP_TFORLOOP, OP_SETLIST, OP_CLOSE, OP_CLOSURE, OP_VARARG]"

abbreviation NUM_OPCODES :: int where
  "NUM_OPCODES \<equiv> 44"

text \<open>\<open>luaP_opnames\<close>, in the same order.\<close>

definition luaP_opnames :: "string list" where
  "luaP_opnames =
    [''MOVE'', ''LOADK'', ''LOADBOOL'', ''LOADNIL'', ''GETUPVAL'', ''GETGLOBAL'', ''GETTABLE'',
     ''SETGLOBAL'', ''SETUPVAL'', ''SETTABLE'', ''NEWTABLE'', ''SELF'',
     ''ADD'', ''SUB'', ''MUL'', ''DIV'', ''MOD'', ''POW'',
     ''BOR'', ''BAND'', ''BXOR'', ''BLSHFT'', ''BRSHFT'', ''BNOT'',
     ''UNM'', ''NOT'', ''LEN'', ''CONCAT'', ''JMP'', ''EQ'', ''LT'', ''LE'',
     ''TEST'', ''TESTSET'', ''CALL'', ''TAILCALL'', ''RETURN'',
     ''FORLOOP'', ''FORPREP'', ''TFORLOOP'', ''SETLIST'', ''CLOSE'', ''CLOSURE'', ''VARARG'']"

definition op_of :: "int \<Rightarrow> OpCode option" where
  "op_of n = (if 0 \<le> n \<and> n < NUM_OPCODES then Some (opcodes ! nat n) else None)"

fun op_num :: "OpCode \<Rightarrow> int" where
  "op_num OP_MOVE = 0" | "op_num OP_LOADK = 1" | "op_num OP_LOADBOOL = 2"
| "op_num OP_LOADNIL = 3" | "op_num OP_GETUPVAL = 4" | "op_num OP_GETGLOBAL = 5"
| "op_num OP_GETTABLE = 6" | "op_num OP_SETGLOBAL = 7" | "op_num OP_SETUPVAL = 8"
| "op_num OP_SETTABLE = 9" | "op_num OP_NEWTABLE = 10" | "op_num OP_SELF = 11"
| "op_num OP_ADD = 12" | "op_num OP_SUB = 13" | "op_num OP_MUL = 14" | "op_num OP_DIV = 15"
| "op_num OP_MOD = 16" | "op_num OP_POW = 17" | "op_num OP_BOR = 18" | "op_num OP_BAND = 19"
| "op_num OP_BXOR = 20" | "op_num OP_BLSHFT = 21" | "op_num OP_BRSHFT = 22"
| "op_num OP_BNOT = 23" | "op_num OP_UNM = 24" | "op_num OP_NOT = 25" | "op_num OP_LEN = 26"
| "op_num OP_CONCAT = 27" | "op_num OP_JMP = 28" | "op_num OP_EQ = 29" | "op_num OP_LT = 30"
| "op_num OP_LE = 31" | "op_num OP_TEST = 32" | "op_num OP_TESTSET = 33"
| "op_num OP_CALL = 34" | "op_num OP_TAILCALL = 35" | "op_num OP_RETURN = 36"
| "op_num OP_FORLOOP = 37" | "op_num OP_FORPREP = 38" | "op_num OP_TFORLOOP = 39"
| "op_num OP_SETLIST = 40" | "op_num OP_CLOSE = 41" | "op_num OP_CLOSURE = 42"
| "op_num OP_VARARG = 43"

section \<open>Properties of opcodes\<close>

datatype OpMode = iABC | iABx | iAsBx

datatype OpArgMask = OpArgN | OpArgU | OpArgR | OpArgK

fun mode_num :: "OpMode \<Rightarrow> byte" where
  "mode_num iABC = 0" | "mode_num iABx = 1" | "mode_num iAsBx = 2"

fun arg_num :: "OpArgMask \<Rightarrow> byte" where
  "arg_num OpArgN = 0" | "arg_num OpArgU = 1" | "arg_num OpArgR = 2" | "arg_num OpArgK = 3"

definition opmode :: "byte \<Rightarrow> byte \<Rightarrow> OpArgMask \<Rightarrow> OpArgMask \<Rightarrow> OpMode \<Rightarrow> byte" where
  "opmode t a b c m =
     push_bit 7 t OR push_bit 6 a OR push_bit 4 (arg_num b) OR push_bit 2 (arg_num c)
       OR mode_num m"

definition luaP_opmodes :: "byte list" where
  "luaP_opmodes =
    [opmode 0 1 OpArgR OpArgN iABC,   opmode 0 1 OpArgK OpArgN iABx,
     opmode 0 1 OpArgU OpArgU iABC,   opmode 0 1 OpArgR OpArgN iABC,
     opmode 0 1 OpArgU OpArgN iABC,   opmode 0 1 OpArgK OpArgN iABx,
     opmode 0 1 OpArgR OpArgK iABC,   opmode 0 0 OpArgK OpArgN iABx,
     opmode 0 0 OpArgU OpArgN iABC,   opmode 0 0 OpArgK OpArgK iABC,
     opmode 0 1 OpArgU OpArgU iABC,   opmode 0 1 OpArgR OpArgK iABC,
     opmode 0 1 OpArgK OpArgK iABC,   opmode 0 1 OpArgK OpArgK iABC,
     opmode 0 1 OpArgK OpArgK iABC,   opmode 0 1 OpArgK OpArgK iABC,
     opmode 0 1 OpArgK OpArgK iABC,   opmode 0 1 OpArgK OpArgK iABC,
     opmode 0 1 OpArgK OpArgK iABC,   opmode 0 1 OpArgK OpArgK iABC,
     opmode 0 1 OpArgK OpArgK iABC,   opmode 0 1 OpArgK OpArgK iABC,
     opmode 0 1 OpArgK OpArgK iABC,   opmode 0 1 OpArgR OpArgN iABC,
     opmode 0 1 OpArgR OpArgN iABC,   opmode 0 1 OpArgR OpArgN iABC,
     opmode 0 1 OpArgR OpArgN iABC,   opmode 0 1 OpArgR OpArgR iABC,
     opmode 0 0 OpArgR OpArgN iAsBx,  opmode 1 0 OpArgK OpArgK iABC,
     opmode 1 0 OpArgK OpArgK iABC,   opmode 1 0 OpArgK OpArgK iABC,
     opmode 1 1 OpArgR OpArgU iABC,   opmode 1 1 OpArgR OpArgU iABC,
     opmode 0 1 OpArgU OpArgU iABC,   opmode 0 1 OpArgU OpArgU iABC,
     opmode 0 0 OpArgU OpArgN iABC,   opmode 0 1 OpArgR OpArgN iAsBx,
     opmode 0 1 OpArgR OpArgN iAsBx,  opmode 1 0 OpArgN OpArgU iABC,
     opmode 0 0 OpArgU OpArgU iABC,   opmode 0 0 OpArgN OpArgN iABC,
     opmode 0 1 OpArgU OpArgN iABx,   opmode 0 1 OpArgU OpArgN iABC]"

definition op_modes :: "OpCode \<Rightarrow> byte" where
  "op_modes m = luaP_opmodes ! nat (op_num m)"

definition arg_of :: "byte \<Rightarrow> OpArgMask" where
  "arg_of n = (if n = 0 then OpArgN else if n = 1 then OpArgU else if n = 2 then OpArgR
    else OpArgK)"

definition getOpMode :: "OpCode \<Rightarrow> OpMode" where
  "getOpMode m = (let v = op_modes m AND 3
     in if v = 0 then iABC else if v = 1 then iABx else iAsBx)"

definition getBMode :: "OpCode \<Rightarrow> OpArgMask" where
  "getBMode m = arg_of (drop_bit 4 (op_modes m) AND 3)"

definition getCMode :: "OpCode \<Rightarrow> OpArgMask" where
  "getCMode m = arg_of (drop_bit 2 (op_modes m) AND 3)"

definition testAMode :: "OpCode \<Rightarrow> bool" where
  "testAMode m \<longleftrightarrow> op_modes m AND push_bit 6 1 \<noteq> 0"

definition testTMode :: "OpCode \<Rightarrow> bool" where
  "testTMode m \<longleftrightarrow> op_modes m AND push_bit 7 1 \<noteq> 0"

section \<open>Instruction fields\<close>

abbreviation SIZE_C :: nat where "SIZE_C \<equiv> 9"
abbreviation SIZE_B :: nat where "SIZE_B \<equiv> 9"
abbreviation SIZE_Bx :: nat where "SIZE_Bx \<equiv> 18"
abbreviation SIZE_A :: nat where "SIZE_A \<equiv> 8"
abbreviation SIZE_OP :: nat where "SIZE_OP \<equiv> 6"
abbreviation POS_OP :: nat where "POS_OP \<equiv> 0"
abbreviation POS_A :: nat where "POS_A \<equiv> 6"
abbreviation POS_C :: nat where "POS_C \<equiv> 14"
abbreviation POS_B :: nat where "POS_B \<equiv> 23"
abbreviation POS_Bx :: nat where "POS_Bx \<equiv> 14"
abbreviation MAXARG_Bx :: int where "MAXARG_Bx \<equiv> 262143"
abbreviation MAXARG_sBx :: int where "MAXARG_sBx \<equiv> 131071"
abbreviation MAXARG_A :: int where "MAXARG_A \<equiv> 255"
abbreviation MAXARG_B :: int where "MAXARG_B \<equiv> 511"
abbreviation MAXARG_C :: int where "MAXARG_C \<equiv> 511"
abbreviation NO_REG :: int where "NO_REG \<equiv> 255"

definition MASK1 :: "nat \<Rightarrow> nat \<Rightarrow> Instruction" where
  "MASK1 n p = push_bit p (NOT (push_bit n (NOT 0)))"

definition MASK0 :: "nat \<Rightarrow> nat \<Rightarrow> Instruction" where
  "MASK0 n p = NOT (MASK1 n p)"

text \<open>The common body of the \<open>GET\<close> and of the \<open>SET\<close> macros.\<close>

definition get_field :: "nat \<Rightarrow> nat \<Rightarrow> Instruction \<Rightarrow> int" where
  "get_field n p i = uint (drop_bit p i AND MASK1 n 0)"

definition set_field :: "nat \<Rightarrow> nat \<Rightarrow> Instruction \<Rightarrow> int \<Rightarrow> Instruction" where
  "set_field n p i u =
     (i AND MASK0 n p) OR (push_bit p (word_of_int u) AND MASK1 n p)"

definition GET_OPCODE :: "Instruction \<Rightarrow> int" where
  "GET_OPCODE i = get_field SIZE_OP POS_OP i"

definition SET_OPCODE :: "Instruction \<Rightarrow> OpCode \<Rightarrow> Instruction" where
  "SET_OPCODE i op = set_field SIZE_OP POS_OP i (op_num op)"

definition GETARG_A :: "Instruction \<Rightarrow> int" where
  "GETARG_A i = get_field SIZE_A POS_A i"

definition SETARG_A :: "Instruction \<Rightarrow> int \<Rightarrow> Instruction" where
  "SETARG_A i u = set_field SIZE_A POS_A i u"

definition GETARG_B :: "Instruction \<Rightarrow> int" where
  "GETARG_B i = get_field SIZE_B POS_B i"

definition SETARG_B :: "Instruction \<Rightarrow> int \<Rightarrow> Instruction" where
  "SETARG_B i b = set_field SIZE_B POS_B i b"

definition GETARG_C :: "Instruction \<Rightarrow> int" where
  "GETARG_C i = get_field SIZE_C POS_C i"

definition SETARG_C :: "Instruction \<Rightarrow> int \<Rightarrow> Instruction" where
  "SETARG_C i b = set_field SIZE_C POS_C i b"

definition GETARG_Bx :: "Instruction \<Rightarrow> int" where
  "GETARG_Bx i = get_field SIZE_Bx POS_Bx i"

definition SETARG_Bx :: "Instruction \<Rightarrow> int \<Rightarrow> Instruction" where
  "SETARG_Bx i b = set_field SIZE_Bx POS_Bx i b"

definition GETARG_sBx :: "Instruction \<Rightarrow> int" where
  "GETARG_sBx i = GETARG_Bx i - MAXARG_sBx"

definition SETARG_sBx :: "Instruction \<Rightarrow> int \<Rightarrow> Instruction" where
  "SETARG_sBx i b = SETARG_Bx i (b + MAXARG_sBx)"

definition CREATE_ABC :: "OpCode \<Rightarrow> int \<Rightarrow> int \<Rightarrow> int \<Rightarrow> Instruction" where
  "CREATE_ABC op a b c =
     push_bit POS_OP (word_of_int (op_num op)) OR push_bit POS_A (word_of_int a)
       OR push_bit POS_B (word_of_int b) OR push_bit POS_C (word_of_int c)"

definition CREATE_ABx :: "OpCode \<Rightarrow> int \<Rightarrow> int \<Rightarrow> Instruction" where
  "CREATE_ABx op a bc =
     push_bit POS_OP (word_of_int (op_num op)) OR push_bit POS_A (word_of_int a)
       OR push_bit POS_Bx (word_of_int bc)"

text \<open>RK operands: bit 8 tells a constant from a register.\<close>

abbreviation BITRK :: int where "BITRK \<equiv> 256"
abbreviation MAXINDEXRK :: int where "MAXINDEXRK \<equiv> 255"

definition ISK :: "int \<Rightarrow> bool" where
  "ISK x \<longleftrightarrow> x AND BITRK \<noteq> 0"

definition INDEXK :: "int \<Rightarrow> int" where
  "INDEXK r = r AND NOT BITRK"

definition RKASK :: "int \<Rightarrow> int" where
  "RKASK x = x OR BITRK"

section \<open>Lemmas\<close>

lemma op_of_num [simp]: "op_of (op_num op) = Some op"
  by (cases op) (simp_all add: op_of_def opcodes_def)

lemma op_num_bounds: "0 \<le> op_num op" "op_num op < NUM_OPCODES"
  by (cases op; simp)+

lemma op_of_Some: "op_of n = Some op \<longleftrightarrow> n = op_num op"
proof
  assume "op_of n = Some op"
  then have n: "0 \<le> n" "n < 44" and op: "op = opcodes ! nat n"
    by (auto simp: op_of_def split: if_splits)
  have "\<forall>k \<in> set [0..<44]. op_num (opcodes ! k) = int k"
    by code_simp
  moreover have "nat n \<in> set [0..<44]" using n by (simp only: set_upt atLeastLessThan_iff) simp
  ultimately show "n = op_num op" using n op by fastforce
qed simp

lemma bit_MASK1:
  "n \<le> 32 \<Longrightarrow> bit (MASK1 n p) k \<longleftrightarrow> p \<le> k \<and> k < p + n \<and> k < 32"
  by (auto simp: MASK1_def bit_simps)

lemma bit_word_of_int_field:
  assumes "0 \<le> u" and "u < 2 ^ n" and "n \<le> k"
  shows "\<not> bit (word_of_int u :: Instruction) k"
proof -
  have "u < 2 ^ k"
    by (rule order.strict_trans2 [OF assms(2) power_increasing [OF assms(3)]]) simp
  then have "take_bit k u = u" using assms(1) by (simp add: take_bit_int_eq_self)
  then have "\<not> bit u k" by (metis bit_take_bit_iff less_irrefl)
  then show ?thesis by (simp add: bit_simps)
qed

lemma get_field_bounds: "n \<le> 32 \<Longrightarrow> 0 \<le> get_field n p i \<and> get_field n p i < 2 ^ n"
proof -
  assume n: "n \<le> 32"
  have "drop_bit p i AND MASK1 n 0 = take_bit n (drop_bit p i)"
    using n by (intro bit_word_eqI) (auto simp: bit_simps bit_MASK1)
  then show ?thesis unfolding get_field_def
    by (simp add: unsigned_take_bit_eq take_bit_int_less_exp)
qed

lemma get_field_eqI:
  assumes "n \<le> 32" "0 \<le> u" "u < 2 ^ n"
    and "\<And>k. k < n \<Longrightarrow> bit i (k + p) \<longleftrightarrow> bit u k"
  shows "get_field n p i = u"
proof -
  have "drop_bit p i AND MASK1 n 0 = word_of_int u"
  proof (rule bit_word_eqI)
    fix k
    assume k: "k < LENGTH(32)"
    show "bit (drop_bit p i AND MASK1 n 0) k \<longleftrightarrow> bit (word_of_int u :: Instruction) k"
    proof (cases "k < n")
      case True
      then show ?thesis
        using assms(1,4) k by (simp add: bit_simps bit_MASK1 add.commute)
    next
      case False
      then show ?thesis
        using assms(1) bit_word_of_int_field [OF assms(2,3), of k]
        by (simp add: bit_simps bit_MASK1)
    qed
  qed
  moreover have "u < 2 ^ 32"
    using assms(3) power_increasing [OF assms(1), of "2::int"] by linarith
  ultimately show ?thesis
    using assms(2) by (simp add: get_field_def uint_word_of_int)
qed

lemma get_set_field_same:
  assumes "n + p \<le> 32" "0 \<le> u" "u < 2 ^ n"
  shows "get_field n p (set_field n p i u) = u"
  by (rule get_field_eqI)
    (use assms in \<open>auto simp: set_field_def MASK0_def bit_simps bit_MASK1\<close>)

lemma get_set_field_other:
  assumes "n + p \<le> 32" "m + q \<le> 32" and "n + p \<le> q \<or> m + q \<le> p"
  shows "get_field m q (set_field n p i u) = get_field m q i"
proof -
  have "drop_bit q (set_field n p i u) AND MASK1 m 0 = drop_bit q i AND MASK1 m 0"
    by (rule bit_word_eqI)
      (use assms in \<open>auto simp: set_field_def MASK0_def bit_simps bit_MASK1\<close>)
  then show ?thesis by (simp add: get_field_def)
qed

lemma op_num_bit: "6 \<le> k \<Longrightarrow> \<not> bit (word_of_int (op_num op) :: Instruction) k"
  by (rule bit_word_of_int_field [of _ 6]) (use op_num_bounds [of op] in simp_all)

lemma CREATE_ABC_fields:
  assumes "0 \<le> a" "a \<le> MAXARG_A" "0 \<le> b" "b \<le> MAXARG_B" "0 \<le> c" "c \<le> MAXARG_C"
  shows "GET_OPCODE (CREATE_ABC op a b c) = op_num op"
    and "GETARG_A (CREATE_ABC op a b c) = a"
    and "GETARG_B (CREATE_ABC op a b c) = b"
    and "GETARG_C (CREATE_ABC op a b c) = c"
proof -
  have o: "\<And>k. 6 \<le> k \<Longrightarrow> \<not> bit (word_of_int (op_num op) :: Instruction) k"
    by (rule op_num_bit)
  have a: "\<And>k. 8 \<le> k \<Longrightarrow> \<not> bit (word_of_int a :: Instruction) k"
    by (rule bit_word_of_int_field [of _ 8]) (use assms in simp_all)
  have c: "\<And>k. 9 \<le> k \<Longrightarrow> \<not> bit (word_of_int c :: Instruction) k"
    by (rule bit_word_of_int_field [of _ 9]) (use assms in simp_all)
  note [simp] = CREATE_ABC_def bit_simps
  show "GET_OPCODE (CREATE_ABC op a b c) = op_num op" unfolding GET_OPCODE_def
    by (rule get_field_eqI) (use op_num_bounds [of op] in auto)
  show "GETARG_A (CREATE_ABC op a b c) = a" unfolding GETARG_A_def
    by (rule get_field_eqI) (use assms in \<open>auto simp: o [simplified]\<close>)
  show "GETARG_C (CREATE_ABC op a b c) = c" unfolding GETARG_C_def
    by (rule get_field_eqI) (use assms in \<open>auto simp: o [simplified] a [simplified]\<close>)
  show "GETARG_B (CREATE_ABC op a b c) = b" unfolding GETARG_B_def
    by (rule get_field_eqI)
      (use assms in \<open>auto simp: o [simplified] a [simplified] c [simplified]\<close>)
qed

lemma CREATE_ABx_fields:
  assumes "0 \<le> a" "a \<le> MAXARG_A" "0 \<le> bc" "bc \<le> MAXARG_Bx"
  shows "GET_OPCODE (CREATE_ABx op a bc) = op_num op"
    and "GETARG_A (CREATE_ABx op a bc) = a"
    and "GETARG_Bx (CREATE_ABx op a bc) = bc"
proof -
  have o: "\<And>k. 6 \<le> k \<Longrightarrow> \<not> bit (word_of_int (op_num op) :: Instruction) k"
    by (rule op_num_bit)
  have a: "\<And>k. 8 \<le> k \<Longrightarrow> \<not> bit (word_of_int a :: Instruction) k"
    by (rule bit_word_of_int_field [of _ 8]) (use assms in simp_all)
  note [simp] = CREATE_ABx_def bit_simps
  show "GET_OPCODE (CREATE_ABx op a bc) = op_num op" unfolding GET_OPCODE_def
    by (rule get_field_eqI) (use op_num_bounds [of op] in auto)
  show "GETARG_A (CREATE_ABx op a bc) = a" unfolding GETARG_A_def
    by (rule get_field_eqI) (use assms in \<open>auto simp: o [simplified]\<close>)
  show "GETARG_Bx (CREATE_ABx op a bc) = bc" unfolding GETARG_Bx_def
    by (rule get_field_eqI) (use assms in \<open>auto simp: o [simplified] a [simplified]\<close>)
qed

lemma field_bounds:
  "0 \<le> GET_OPCODE i" "GET_OPCODE i < 64"
  "0 \<le> GETARG_A i" "GETARG_A i < 256"
  "0 \<le> GETARG_B i" "GETARG_B i < 512"
  "0 \<le> GETARG_C i" "GETARG_C i < 512"
  "0 \<le> GETARG_Bx i" "GETARG_Bx i < 262144"
  using get_field_bounds [of 6 0 i] get_field_bounds [of 8 6 i] get_field_bounds [of 9 23 i]
    get_field_bounds [of 9 14 i] get_field_bounds [of 18 14 i]
  by (simp_all add: GET_OPCODE_def GETARG_A_def GETARG_B_def GETARG_C_def GETARG_Bx_def)

text \<open>The packed bytes, for evaluation.\<close>

lemma op_modes_code [code]:
  "op_modes op = (case op of
     OP_MOVE \<Rightarrow> 96 | OP_LOADK \<Rightarrow> 113 | OP_LOADBOOL \<Rightarrow> 84 | OP_LOADNIL \<Rightarrow> 96
   | OP_GETUPVAL \<Rightarrow> 80 | OP_GETGLOBAL \<Rightarrow> 113 | OP_GETTABLE \<Rightarrow> 108 | OP_SETGLOBAL \<Rightarrow> 49
   | OP_SETUPVAL \<Rightarrow> 16 | OP_SETTABLE \<Rightarrow> 60 | OP_NEWTABLE \<Rightarrow> 84 | OP_SELF \<Rightarrow> 108
   | OP_ADD \<Rightarrow> 124 | OP_SUB \<Rightarrow> 124 | OP_MUL \<Rightarrow> 124 | OP_DIV \<Rightarrow> 124
   | OP_MOD \<Rightarrow> 124 | OP_POW \<Rightarrow> 124 | OP_BOR \<Rightarrow> 124 | OP_BAND \<Rightarrow> 124
   | OP_BXOR \<Rightarrow> 124 | OP_BLSHFT \<Rightarrow> 124 | OP_BRSHFT \<Rightarrow> 124 | OP_BNOT \<Rightarrow> 96
   | OP_UNM \<Rightarrow> 96 | OP_NOT \<Rightarrow> 96 | OP_LEN \<Rightarrow> 96 | OP_CONCAT \<Rightarrow> 104
   | OP_JMP \<Rightarrow> 34 | OP_EQ \<Rightarrow> 188 | OP_LT \<Rightarrow> 188 | OP_LE \<Rightarrow> 188
   | OP_TEST \<Rightarrow> 228 | OP_TESTSET \<Rightarrow> 228 | OP_CALL \<Rightarrow> 84 | OP_TAILCALL \<Rightarrow> 84
   | OP_RETURN \<Rightarrow> 16 | OP_FORLOOP \<Rightarrow> 98 | OP_FORPREP \<Rightarrow> 98 | OP_TFORLOOP \<Rightarrow> 132
   | OP_SETLIST \<Rightarrow> 20 | OP_CLOSE \<Rightarrow> 0 | OP_CLOSURE \<Rightarrow> 81 | OP_VARARG \<Rightarrow> 80)"
  by (cases op) (simp_all add: op_modes_def luaP_opmodes_def opmode_def)

text \<open>The modes of the opcodes, read back from the packed bytes.\<close>

lemma getOpMode_simps:
  "getOpMode op =
     (if op \<in> {OP_LOADK, OP_GETGLOBAL, OP_SETGLOBAL, OP_CLOSURE} then iABx
      else if op \<in> {OP_JMP, OP_FORLOOP, OP_FORPREP} then iAsBx else iABC)"
  by (cases op) (simp_all add: getOpMode_def op_modes_def luaP_opmodes_def opmode_def)

lemma testTMode_iff:
  "testTMode op \<longleftrightarrow> op \<in> {OP_EQ, OP_LT, OP_LE, OP_TEST, OP_TESTSET, OP_TFORLOOP}"
  by (cases op) (simp_all add: testTMode_def op_modes_def luaP_opmodes_def opmode_def)

lemma testAMode_iff:
  "testAMode op \<longleftrightarrow> op \<notin> {OP_SETGLOBAL, OP_SETUPVAL, OP_SETTABLE, OP_JMP, OP_EQ, OP_LT, OP_LE,
     OP_RETURN, OP_TFORLOOP, OP_SETLIST, OP_CLOSE}"
  by (cases op) (simp_all add: testAMode_def op_modes_def luaP_opmodes_def opmode_def)

lemma getBMode_iff:
  "getBMode op =
     (if op \<in> {OP_TFORLOOP, OP_CLOSE} then OpArgN
      else if op \<in> {OP_LOADBOOL, OP_GETUPVAL, OP_SETUPVAL, OP_NEWTABLE, OP_CALL, OP_TAILCALL,
        OP_RETURN, OP_SETLIST, OP_CLOSURE, OP_VARARG} then OpArgU
      else if op \<in> {OP_MOVE, OP_LOADNIL, OP_GETTABLE, OP_SELF, OP_BNOT, OP_UNM, OP_NOT, OP_LEN,
        OP_CONCAT, OP_JMP, OP_TEST, OP_TESTSET, OP_FORLOOP, OP_FORPREP} then OpArgR
      else OpArgK)"
  by (cases op) (simp_all add: getBMode_def arg_of_def op_modes_def luaP_opmodes_def opmode_def)

lemma getCMode_iff:
  "getCMode op =
     (if op \<in> {OP_LOADBOOL, OP_NEWTABLE, OP_TEST, OP_TESTSET, OP_CALL, OP_TAILCALL,
        OP_TFORLOOP, OP_SETLIST} then OpArgU
      else if op = OP_CONCAT then OpArgR
      else if op \<in> {OP_GETTABLE, OP_SETTABLE, OP_SELF, OP_ADD, OP_SUB, OP_MUL, OP_DIV, OP_MOD,
        OP_POW, OP_BOR, OP_BAND, OP_BXOR, OP_BLSHFT, OP_BRSHFT, OP_EQ, OP_LT, OP_LE} then OpArgK
      else OpArgN)"
  by (cases op) (simp_all add: getCMode_def arg_of_def op_modes_def luaP_opmodes_def opmode_def)

lemma ISK_iff: "0 \<le> x \<Longrightarrow> x < 512 \<Longrightarrow> ISK x \<longleftrightarrow> 256 \<le> x"
proof -
  assume x: "0 \<le> x" "x < 512"
  have "x AND 256 = (if bit x 8 then 256 else 0)"
    by (rule bit_eqI) (auto simp: bit_simps bit_exp_iff [of 8, simplified] numeral_eq_Suc)
  moreover have "bit x 8 \<longleftrightarrow> odd (x div 256)" by (simp add: bit_iff_odd)
  moreover have "x div 256 = (if 256 \<le> x then 1 else 0)" using x by auto
  ultimately show ?thesis by (auto simp: ISK_def)
qed

end
