(* ===== verification/LuaPattern.thy ===== *)
theory LuaPattern
  imports LuaCtype
begin

text \<open>
  The pattern matcher of \<^verbatim>\<open>lstrlib.c\<close>. Pointers into the subject and the pattern are
  indices; the null pointer that says that there is no match is \<open>None\<close>. Error messages are
  without the position that \<open>luaL_error\<close> puts in front. The C stack that the recursion of \<open>match\<close> takes is
  not bounded here.
\<close>

section \<open>State\<close>

abbreviation LUA_MAXCAPTURES :: nat where
  "LUA_MAXCAPTURES \<equiv> 32"

abbreviation CAP_UNFINISHED :: int where
  "CAP_UNFINISHED \<equiv> - 1"

abbreviation CAP_POSITION :: int where
  "CAP_POSITION \<equiv> - 2"

record capture =
  cap_init :: nat
  cap_len :: int

text \<open>\<open>src_init\<close> is index 0 of the subject and \<open>src_end\<close> its length.\<close>

record MatchState =
  src :: string
  level :: nat
  captures :: "capture list"

abbreviation src_end :: "MatchState \<Rightarrow> nat" where
  "src_end ms \<equiv> length (src ms)"

abbreviation L_ESC :: char where
  "L_ESC \<equiv> CHR 0x25"

definition lerror :: "string \<Rightarrow> 'a result" where
  "lerror msg = Err (RunError msg)"

lemma lerror_simps [simp]: "rbind (lerror m) f = lerror m" "lerror m \<noteq> Ok x"
  by (simp_all add: lerror_def)

section \<open>Captures\<close>

definition check_capture :: "MatchState \<Rightarrow> char \<Rightarrow> nat result" where
  "check_capture ms c =
     (let l = code c - code (CHR ''1'')
      in if l < 0 \<or> int (level ms) \<le> l \<or> cap_len (captures ms ! nat l) = CAP_UNFINISHED
         then lerror ''invalid capture index'' else Ok (nat l))"

text \<open>\<open>for (level--; level>=0; level--)\<close>\<close>

fun capture_to_close_loop :: "MatchState \<Rightarrow> nat \<Rightarrow> nat result" where
  "capture_to_close_loop ms 0 = lerror ''invalid pattern capture''"
| "capture_to_close_loop ms (Suc l) =
     (if cap_len (captures ms ! l) = CAP_UNFINISHED then Ok l else capture_to_close_loop ms l)"

definition capture_to_close :: "MatchState \<Rightarrow> nat result" where
  "capture_to_close ms = capture_to_close_loop ms (level ms)"

section \<open>Character classes\<close>

text \<open>The \<open>do ... while (*p != ']')\<close> loop, at its start with \<open>p\<close>.\<close>

function classend_set :: "string \<Rightarrow> nat \<Rightarrow> nat result" where
  "classend_set pat p =
     rbind (getc pat p) (\<lambda>c.
       if c = NUL then lerror (''malformed pattern (missing '' @ LUA_QL '']'' @ '')'')
       else rbind (getc pat (Suc p)) (\<lambda>d.
         let p' = (if c = L_ESC \<and> d \<noteq> NUL then Suc (Suc p) else Suc p)
         in rbind (getc pat p') (\<lambda>e. if e = CHR '']'' then Ok (Suc p') else classend_set pat p')))"
  by pat_completeness auto
termination
  by (relation "measure (\<lambda>(pat, p). Suc (length pat) - p)")
     (auto simp: getc_def split: if_splits)

declare classend_set.simps [simp del]

definition classend :: "string \<Rightarrow> nat \<Rightarrow> nat result" where
  "classend pat p =
     rbind (getc pat p) (\<lambda>c.
       if c = L_ESC then
         rbind (getc pat (Suc p)) (\<lambda>d.
           if d = NUL then lerror (''malformed pattern (ends with '' @ LUA_QL ''%'' @ '')'')
           else Ok (p + 2))
       else if c = CHR ''['' then
         rbind (getc pat (Suc p)) (\<lambda>d. classend_set pat (if d = CHR 0x5E then p + 2 else Suc p))
       else Ok (Suc p))"

definition match_class :: "int \<Rightarrow> int \<Rightarrow> bool" where
  "match_class c cl =
     (let t = chr (tolower cl);
          pick = (\<lambda>res. if islower cl then res else \<not> res)
      in if t = CHR ''a'' then pick (isalpha c)
         else if t = CHR ''c'' then pick (iscntrl c)
         else if t = CHR ''d'' then pick (isdigit c)
         else if t = CHR ''l'' then pick (islower c)
         else if t = CHR ''p'' then pick (ispunct c)
         else if t = CHR ''s'' then pick (isspace c)
         else if t = CHR ''u'' then pick (isupper c)
         else if t = CHR ''w'' then pick (isalnum c)
         else if t = CHR ''x'' then pick (isxdigit c)
         else if t = CHR ''z'' then pick (c = 0)
         else cl = c)"

text \<open>\<open>while (++p < ec)\<close>; \<open>ec\<close> points to the closing bracket.\<close>

function bracket_loop :: "int \<Rightarrow> string \<Rightarrow> nat \<Rightarrow> nat \<Rightarrow> bool \<Rightarrow> bool result" where
  "bracket_loop c pat p ec sig =
     (if Suc p < ec then
        rbind (getc pat (Suc p)) (\<lambda>a.
          if a = L_ESC then
            rbind (getc pat (p + 2)) (\<lambda>b.
              if match_class c (code b) then Ok sig else bracket_loop c pat (p + 2) ec sig)
          else rbind (getc pat (p + 2)) (\<lambda>b.
            if b = CHR ''-'' \<and> p + 3 < ec then
              rbind (getc pat (p + 3)) (\<lambda>d.
                if code a \<le> c \<and> c \<le> code d then Ok sig else bracket_loop c pat (p + 3) ec sig)
            else if code a = c then Ok sig
            else bracket_loop c pat (Suc p) ec sig))
      else Ok (\<not> sig))"
  by pat_completeness auto
termination
  by (relation "measure (\<lambda>(c, pat, p, ec, sig). ec - p)") auto

declare bracket_loop.simps [simp del]

definition matchbracketclass :: "int \<Rightarrow> string \<Rightarrow> nat \<Rightarrow> nat \<Rightarrow> bool result" where
  "matchbracketclass c pat p ec =
     rbind (getc pat (Suc p)) (\<lambda>a.
       if a = CHR 0x5E then bracket_loop c pat (Suc p) ec False else bracket_loop c pat p ec True)"

definition singlematch :: "int \<Rightarrow> string \<Rightarrow> nat \<Rightarrow> nat \<Rightarrow> bool result" where
  "singlematch c pat p ep =
     rbind (getc pat p) (\<lambda>a.
       if a = CHR ''.'' then Ok True
       else if a = L_ESC then rbind (getc pat (Suc p)) (\<lambda>b. Ok (match_class c (code b)))
       else if a = CHR ''['' then matchbracketclass c pat p (ep - 1)
       else Ok (code a = c))"

text \<open>\<open>s < ms->src_end && singlematch(uchar( *s), p, ep)\<close>\<close>

definition match_here :: "MatchState \<Rightarrow> string \<Rightarrow> nat \<Rightarrow> nat \<Rightarrow> nat \<Rightarrow> bool result" where
  "match_here ms pat s p ep =
     (if s < src_end ms then rbind (getc (src ms) s) (\<lambda>c. singlematch (code c) pat p ep) else Ok False)"

section \<open>Balanced strings\<close>

text \<open>The loop of \<open>matchbalance\<close> over the rest of the subject after \<open>s\<close>.\<close>

fun balance_loop :: "char \<Rightarrow> char \<Rightarrow> string \<Rightarrow> nat \<Rightarrow> int \<Rightarrow> nat option" where
  "balance_loop b e [] s cont = None"
| "balance_loop b e (c # cs) s cont =
     (if c = e then
        if cont - 1 = 0 then Some (Suc s) else balance_loop b e cs (Suc s) (cont - 1)
      else balance_loop b e cs (Suc s) (if c = b then cont + 1 else cont))"

definition matchbalance :: "MatchState \<Rightarrow> string \<Rightarrow> nat \<Rightarrow> nat \<Rightarrow> nat option result" where
  "matchbalance ms pat s p =
     rbind (getc pat p) (\<lambda>b.
       if b = NUL then lerror ''unbalanced pattern''
       else rbind (getc pat (Suc p)) (\<lambda>e.
         if e = NUL then lerror ''unbalanced pattern''
         else rbind (getc (src ms) s) (\<lambda>c.
           if c \<noteq> b then Ok None
           else Ok (balance_loop b e (drop (Suc s) (src ms)) (Suc s) 1))))"

section \<open>Matching\<close>

text \<open>
  A matcher takes the state, the subject position and the pattern position; it returns the end of
  the match and the state. The functions below take the recursive call as an argument.
\<close>

type_synonym matcher = "MatchState \<Rightarrow> nat \<Rightarrow> nat \<Rightarrow> (nat option \<times> MatchState) result"

text \<open>Counting the longest run: \<open>while ((s+i)<ms->src_end && singlematch(...)) i++\<close>.\<close>

function count_run :: "MatchState \<Rightarrow> string \<Rightarrow> nat \<Rightarrow> nat \<Rightarrow> nat \<Rightarrow> nat \<Rightarrow> nat result" where
  "count_run ms pat s p ep i =
     rbind (match_here ms pat (s + i) p ep) (\<lambda>m.
       if m then count_run ms pat s p ep (Suc i) else Ok i)"
  by pat_completeness auto
termination
  by (relation "measure (\<lambda>(ms, pat, s, p, ep, i). src_end ms - (s + i))")
     (auto simp: match_here_def split: if_splits)

declare count_run.simps [simp del]

text \<open>\<open>while (i>=0)\<close>: the longest repetition first.\<close>

fun try_down :: "matcher \<Rightarrow> MatchState \<Rightarrow> nat \<Rightarrow> nat \<Rightarrow> nat \<Rightarrow> (nat option \<times> MatchState) result" where
  "try_down rec ms s pe 0 = rec ms s pe"
| "try_down rec ms s pe (Suc i) =
     rbind (rec ms (s + Suc i) pe) (\<lambda>(res, ms').
       case res of Some e \<Rightarrow> Ok (Some e, ms') | None \<Rightarrow> try_down rec ms' s pe i)"

definition max_expand :: "matcher \<Rightarrow> string \<Rightarrow> MatchState \<Rightarrow> nat \<Rightarrow> nat \<Rightarrow> nat \<Rightarrow>
    (nat option \<times> MatchState) result" where
  "max_expand rec pat ms s p ep =
     rbind (count_run ms pat s p ep 0) (\<lambda>i. try_down rec ms s (Suc ep) i)"

text \<open>The loop of \<open>min_expand\<close>; \<open>k\<close> is \<open>src_end - s\<close>.\<close>

fun min_loop :: "matcher \<Rightarrow> string \<Rightarrow> nat \<Rightarrow> nat \<Rightarrow> nat \<Rightarrow> MatchState \<Rightarrow> nat \<Rightarrow>
    (nat option \<times> MatchState) result" where
  "min_loop rec pat p ep 0 ms s = rec ms s (Suc ep)"
| "min_loop rec pat p ep (Suc k) ms s =
     rbind (rec ms s (Suc ep)) (\<lambda>(res, ms').
       case res of
         Some e \<Rightarrow> Ok (Some e, ms')
       | None \<Rightarrow> rbind (match_here ms' pat s p ep) (\<lambda>m.
           if m then min_loop rec pat p ep k ms' (Suc s) else Ok (None, ms')))"

definition min_expand :: "matcher \<Rightarrow> string \<Rightarrow> MatchState \<Rightarrow> nat \<Rightarrow> nat \<Rightarrow> nat \<Rightarrow>
    (nat option \<times> MatchState) result" where
  "min_expand rec pat ms s p ep = min_loop rec pat p ep (src_end ms - s) ms s"

definition start_capture :: "matcher \<Rightarrow> MatchState \<Rightarrow> nat \<Rightarrow> nat \<Rightarrow> int \<Rightarrow>
    (nat option \<times> MatchState) result" where
  "start_capture rec ms s p what =
     (if LUA_MAXCAPTURES \<le> level ms then lerror ''too many captures''
      else let ms1 = ms\<lparr>captures := (captures ms)[level ms := \<lparr>cap_init = s, cap_len = what\<rparr>],
                        level := Suc (level ms)\<rparr>
        in rbind (rec ms1 s p) (\<lambda>(res, ms2).
             case res of
               None \<Rightarrow> Ok (None, ms2\<lparr>level := level ms2 - 1\<rparr>)
             | Some e \<Rightarrow> Ok (Some e, ms2)))"

definition set_cap_len :: "MatchState \<Rightarrow> nat \<Rightarrow> int \<Rightarrow> MatchState" where
  "set_cap_len ms l n = ms\<lparr>captures := (captures ms)[l := (captures ms ! l)\<lparr>cap_len := n\<rparr>]\<rparr>"

definition end_capture :: "matcher \<Rightarrow> MatchState \<Rightarrow> nat \<Rightarrow> nat \<Rightarrow> (nat option \<times> MatchState) result" where
  "end_capture rec ms s p =
     rbind (capture_to_close ms) (\<lambda>l.
       rbind (rec (set_cap_len ms l (int s - int (cap_init (captures ms ! l)))) s p) (\<lambda>(res, ms2).
         case res of
           None \<Rightarrow> Ok (None, set_cap_len ms2 l CAP_UNFINISHED)
         | Some e \<Rightarrow> Ok (Some e, ms2)))"

text \<open>The length of a capture is converted to \<open>size_t\<close>, so a position capture is too long.\<close>

definition match_capture :: "MatchState \<Rightarrow> nat \<Rightarrow> char \<Rightarrow> nat option result" where
  "match_capture ms s c =
     rbind (check_capture ms c) (\<lambda>l.
       let cap = captures ms ! l; len = nat (cap_len cap mod 2 ^ 64)
       in if len \<le> src_end ms - s \<and>
             take len (drop (cap_init cap) (src ms)) = take len (drop s (src ms))
          then Ok (Some (s + len)) else Ok None)"

definition match_default :: "matcher \<Rightarrow> string \<Rightarrow> matcher" where
  "match_default rec pat ms s p =
     rbind (classend pat p) (\<lambda>ep.
       rbind (match_here ms pat s p ep) (\<lambda>m.
         rbind (getc pat ep) (\<lambda>c.
           if c = CHR ''?'' then
             if m then
               rbind (rec ms (Suc s) (Suc ep)) (\<lambda>(res, ms').
                 case res of Some e \<Rightarrow> Ok (Some e, ms') | None \<Rightarrow> rec ms' s (Suc ep))
             else rec ms s (Suc ep)
           else if c = CHR ''*'' then max_expand rec pat ms s p ep
           else if c = CHR ''+'' then
             if m then max_expand rec pat ms (Suc s) p ep else Ok (None, ms)
           else if c = CHR ''-'' then min_expand rec pat ms s p ep
           else if m then rec ms (Suc s) ep else Ok (None, ms))))"

definition match_frontier :: "matcher \<Rightarrow> string \<Rightarrow> matcher" where
  "match_frontier rec pat ms s p =
     rbind (getc pat p) (\<lambda>c.
       if c \<noteq> CHR ''['' then
         lerror (''missing '' @ LUA_QL ''['' @ '' after '' @ LUA_QL ''%f'' @ '' in pattern'')
       else rbind (classend pat p) (\<lambda>ep.
         rbind (if s = 0 then Ok NUL else getc (src ms) (s - 1)) (\<lambda>previous.
           rbind (matchbracketclass (code previous) pat p (ep - 1)) (\<lambda>m1.
             if m1 then Ok (None, ms)
             else rbind (getc (src ms) s) (\<lambda>cur.
               rbind (matchbracketclass (code cur) pat p (ep - 1)) (\<lambda>m2.
                 if \<not> m2 then Ok (None, ms) else rec ms s ep))))))"

definition match_body :: "matcher \<Rightarrow> string \<Rightarrow> matcher" where
  "match_body rec pat ms s p =
     rbind (getc pat p) (\<lambda>c.
       if c = CHR ''('' then
         rbind (getc pat (Suc p)) (\<lambda>d.
           if d = CHR '')'' then start_capture rec ms s (p + 2) CAP_POSITION
           else start_capture rec ms s (Suc p) CAP_UNFINISHED)
       else if c = CHR '')'' then end_capture rec ms s (Suc p)
       else if c = L_ESC then
         rbind (getc pat (Suc p)) (\<lambda>d.
           if d = CHR ''b'' then
             rbind (matchbalance ms pat s (p + 2)) (\<lambda>r.
               case r of None \<Rightarrow> Ok (None, ms) | Some s' \<Rightarrow> rec ms s' (p + 4))
           else if d = CHR ''f'' then match_frontier rec pat ms s (p + 2)
           else if isdigit (code d) then
             rbind (match_capture ms s d) (\<lambda>r.
               case r of None \<Rightarrow> Ok (None, ms) | Some s' \<Rightarrow> rec ms s' (p + 2))
           else match_default rec pat ms s p)
       else if c = NUL then Ok (Some s, ms)
       else if c = CHR ''$'' then
         rbind (getc pat (Suc p)) (\<lambda>d.
           if d = NUL then Ok (if s = src_end ms then Some s else None, ms)
           else match_default rec pat ms s p)
       else match_default rec pat ms s p)"

text \<open>
  Every call moves forward in the pattern, so its length plus one bounds the depth of the calls
  (proved in \<^verbatim>\<open>LuaPatternProps\<close>).
\<close>

fun match_depth :: "nat \<Rightarrow> string \<Rightarrow> matcher" where
  "match_depth 0 pat ms s p = Diverge"
| "match_depth (Suc f) pat ms s p = match_body (match_depth f pat) pat ms s p"

definition match :: "string \<Rightarrow> matcher" where
  "match pat = match_depth (Suc (length pat)) pat"

end
