(* ===== verification/LuaProto.thy ===== *)
theory LuaProto
  imports LuaOpcodes LuaPattern
begin

text \<open>
  Function prototypes (\<^verbatim>\<open>Proto\<close> of \<^verbatim>\<open>lobject.h\<close>). The arrays are lists, their lengths
  the \<open>size...\<close> fields; a string is its bytes, and a null \<open>TString*\<close> is \<open>None\<close>.
\<close>

text \<open>
  The kinds of values a constant may have. \<open>KNullString\<close> is a value with the tag of a string and
  a null pointer, which only the loader of precompiled code makes.
\<close>

datatype konstant =
    KNil
  | KBoolean u32
  | KNumber u64
  | KString string
  | KNullString

definition is_string :: "konstant \<Rightarrow> bool" where
  "is_string k \<longleftrightarrow> (case k of KString _ \<Rightarrow> True | KNullString \<Rightarrow> True | _ \<Rightarrow> False)"

record LocVar =
  varname :: "string option"
  startpc :: int
  endpc :: int

datatype Proto = Proto
  (proto_k: "konstant list")
  (proto_code: "Instruction list")
  (proto_p: "Proto list")
  (lineinfo: "int list")
  (locvars: "LocVar list")
  (upvalues: "string option list")
  (source: "string option")
  (linedefined: int)
  (lastlinedefined: int)
  (nups: byte)
  (numparams: byte)
  (is_vararg: byte)
  (maxstacksize: byte)

abbreviation sizecode :: "Proto \<Rightarrow> int" where
  "sizecode f \<equiv> int (length (proto_code f))"

abbreviation sizek :: "Proto \<Rightarrow> int" where
  "sizek f \<equiv> int (length (proto_k f))"

abbreviation VARARG_HASARG :: byte where "VARARG_HASARG \<equiv> 1"
abbreviation VARARG_ISVARARG :: byte where "VARARG_ISVARARG \<equiv> 2"
abbreviation VARARG_NEEDSARG :: byte where "VARARG_NEEDSARG \<equiv> 4"

abbreviation MAXSTACK :: int where "MAXSTACK \<equiv> 250"

text \<open>Reading an array of a prototype.\<close>

definition fetch :: "'a list \<Rightarrow> int \<Rightarrow> 'a result" where
  "fetch xs i = (if 0 \<le> i \<and> i < int (length xs) then Ok (xs ! nat i) else Undef)"

lemma fetch_Ok: "0 \<le> i \<Longrightarrow> i < int (length xs) \<Longrightarrow> fetch xs i = Ok (xs ! nat i)"
  by (simp add: fetch_def)

end
