(* ===== verification/LuaTable.thy ===== *)
theory LuaTable
  imports LuaOpcodes
begin

text \<open>
  Lua tables, \<^verbatim>\<open>ltable.c\<close>: an array part and a node vector that is a chained scatter
  table with Brent's variation. A pointer into a table is a \<open>slot\<close> (a place of the array
  or of the node vector), the null pointer and \<open>luaO_nilobject\<close> are \<open>None\<close>, and a pointer
  to a node is its index. The hash field of a string object is read through the function
  \<open>H\<close> from string addresses to hashes. Allocation succeeds; \<open>int\<close> sizes and counts, which
  are never negative here, are natural numbers.
\<close>

section \<open>State\<close>

record Node =
  i_val :: TValue
  i_key :: TValue
  i_next :: "nat option"

text \<open>
  \<open>isdummy\<close> says that \<open>node\<close> points to the shared \<open>dummynode\<close>; \<open>lastfree\<close> is the
  index of the pointer, which the loop of \<open>getfreepos\<close> may move below the vector. The size
  of the array part is the length of \<open>array\<close>.
\<close>

record Table =
  flags :: byte
  lsizenode :: nat
  metatable :: "ptr option"
  array :: "TValue list"
  node :: "Node list"
  isdummy :: bool
  lastfree :: int

datatype slot = ArraySlot nat | NodeSlot nat

type_synonym strhash = "ptr \<Rightarrow> u32"

abbreviation MAXBITS :: nat where
  "MAXBITS \<equiv> 26"

abbreviation MAXASIZE :: int where
  "MAXASIZE \<equiv> 67108864"

definition empty_node :: Node where
  "empty_node = \<lparr>i_val = VNil, i_key = VNil, i_next = None\<rparr>"

definition sizenode :: "Table \<Rightarrow> nat" where
  "sizenode t = 2 ^ lsizenode t"

definition slot_val :: "Table \<Rightarrow> slot \<Rightarrow> TValue" where
  "slot_val t s = (case s of ArraySlot i \<Rightarrow> array t ! i | NodeSlot i \<Rightarrow> i_val (node t ! i))"

definition set_slot :: "Table \<Rightarrow> slot \<Rightarrow> TValue \<Rightarrow> Table" where
  "set_slot t s v =
     (case s of
        ArraySlot i \<Rightarrow> t\<lparr>array := (array t)[i := v]\<rparr>
      | NodeSlot i \<Rightarrow> t\<lparr>node := (node t)[i := (node t ! i)\<lparr>i_val := v\<rparr>]\<rparr>)"

text \<open>The value a pointer returned by a search function points to.\<close>

definition deref :: "Table \<Rightarrow> slot option \<Rightarrow> TValue" where
  "deref t p = (case p of None \<Rightarrow> VNil | Some s \<Rightarrow> slot_val t s)"

section \<open>Hashing\<close>

definition lmod :: "u32 \<Rightarrow> nat \<Rightarrow> nat" where
  "lmod s sz = unat (s AND (word_of_nat sz - 1))"

definition hashmod :: "nat \<Rightarrow> u32 \<Rightarrow> nat" where
  "hashmod l n = nat (uint n mod ((2 ^ l - 1) OR 1))"

definition hashpointer :: "nat \<Rightarrow> ptr \<Rightarrow> nat" where
  "hashpointer l p = hashmod l (ucast p)"

text \<open>The two \<open>int\<close>s inside the number after \<open>n += 1\<close> are added up.\<close>

definition hashnum :: "nat \<Rightarrow> lua_Number \<Rightarrow> nat" where
  "hashnum l n =
     (let m = num_add n (cast_num 1)
      in hashmod l (ucast m + ucast (drop_bit 32 m)))"

definition mainposition :: "strhash \<Rightarrow> nat \<Rightarrow> TValue \<Rightarrow> nat" where
  "mainposition H l key =
     (case key of
        VNumber n \<Rightarrow> hashnum l n
      | VString p \<Rightarrow> lmod (H p) (2 ^ l)
      | VBoolean b \<Rightarrow> lmod b (2 ^ l)
      | VLightuserdata p \<Rightarrow> hashpointer l p
      | _ \<Rightarrow> hashpointer l (gcvalue key))"

definition arrayindex :: "TValue \<Rightarrow> int" where
  "arrayindex key =
     (case key of
        VNumber n \<Rightarrow> (let k = lua_number2int n in if num_eq (cast_num k) n then k else - 1)
      | _ \<Rightarrow> - 1)"

section \<open>Search\<close>

text \<open>
  The \<open>do ... while (n)\<close> loops over a chain. A walk that has seen as many nodes as the
  vector holds and goes on has met a node twice, so the loop of the code does not end.
\<close>

fun chain_walk :: "(Node \<Rightarrow> bool) \<Rightarrow> Node list \<Rightarrow> nat \<Rightarrow> nat \<Rightarrow> nat option result" where
  "chain_walk P ns 0 i = Diverge"
| "chain_walk P ns (Suc f) i =
     (if P (ns ! i) then Ok (Some i)
      else case i_next (ns ! i) of None \<Rightarrow> Ok None | Some j \<Rightarrow> chain_walk P ns f j)"

definition search_chain :: "(Node \<Rightarrow> bool) \<Rightarrow> Table \<Rightarrow> nat \<Rightarrow> slot option result" where
  "search_chain P t i =
     rbind (chain_walk P (node t) (length (node t)) i) (\<lambda>r. Ok (map_option NodeSlot r))"

text \<open>\<open>key-1\<close> overflows for \<open>INT_MIN\<close> in the code; here it wraps, as the machine code does.\<close>

definition luaH_getnum :: "Table \<Rightarrow> int \<Rightarrow> slot option result" where
  "luaH_getnum t key =
     (if (word_of_int (key - 1) :: u32) < word_of_nat (length (array t))
      then Ok (Some (ArraySlot (nat (key - 1))))
      else let nk = cast_num key
           in search_chain (\<lambda>n. case i_key n of VNumber m \<Rightarrow> num_eq m nk | _ \<Rightarrow> False)
                t (hashnum (lsizenode t) nk))"

definition luaH_getstr :: "strhash \<Rightarrow> Table \<Rightarrow> ptr \<Rightarrow> slot option result" where
  "luaH_getstr H t key =
     search_chain (\<lambda>n. case i_key n of VString p \<Rightarrow> p = key | _ \<Rightarrow> False)
       t (lmod (H key) (2 ^ lsizenode t))"

definition luaH_get :: "strhash \<Rightarrow> Table \<Rightarrow> TValue \<Rightarrow> slot option result" where
  "luaH_get H t key =
     (let dflt = search_chain (\<lambda>n. luaO_rawequalObj (i_key n) key)
                   t (mainposition H (lsizenode t) key)
      in case key of
        VNil \<Rightarrow> Ok None
      | VString p \<Rightarrow> luaH_getstr H t p
      | VNumber n \<Rightarrow>
          (let k = lua_number2int n
           in if num_eq (cast_num k) n then luaH_getnum t k else dflt)
      | _ \<Rightarrow> dflt)"

section \<open>Traversal\<close>

definition findindex :: "strhash \<Rightarrow> Table \<Rightarrow> TValue \<Rightarrow> int result" where
  "findindex H t key =
     (if ttisnil key then Ok (- 1)
      else let i = arrayindex key
        in if 0 < i \<and> i \<le> int (length (array t)) then Ok (i - 1)
           else rbind
             (chain_walk
               (\<lambda>n. luaO_rawequalObj (i_key n) key \<or>
                 (ttype (i_key n) = 11 \<and> iscollectable key \<and> gcvalue (i_key n) = gcvalue key))
               (node t) (length (node t)) (mainposition H (lsizenode t) key))
             (\<lambda>r. case r of
                Some j \<Rightarrow> Ok (int j + int (length (array t)))
              | None \<Rightarrow> Err (RunError (''invalid key to '' @ LUA_QL ''next''))))"

text \<open>The first index from \<open>i\<close> on whose value is not nil, below the length.\<close>

function first_used :: "(nat \<Rightarrow> TValue) \<Rightarrow> nat \<Rightarrow> nat \<Rightarrow> nat option" where
  "first_used val i n =
     (if i < n then if ttisnil (val i) then first_used val (Suc i) n else Some i else None)"
  by pat_completeness auto
termination
  by (relation "measure (\<lambda>(val, i, n). n - i)") auto

declare first_used.simps [simp del]

definition luaH_next :: "strhash \<Rightarrow> Table \<Rightarrow> TValue \<Rightarrow> (TValue \<times> TValue) option result" where
  "luaH_next H t key =
     rbind (findindex H t key) (\<lambda>i0.
       let i = nat (i0 + 1); n = length (array t)
       in case first_used (\<lambda>j. array t ! j) i n of
            Some j \<Rightarrow> Ok (Some (VNumber (cast_num (int j + 1)), array t ! j))
          | None \<Rightarrow>
              (case first_used (\<lambda>j. i_val (node t ! j)) (max i n - n) (sizenode t) of
                 Some j \<Rightarrow> Ok (Some (i_key (node t ! j), i_val (node t ! j)))
               | None \<Rightarrow> Ok None))"

section \<open>Sizes\<close>

text \<open>
  The loop of \<open>computesizes\<close> with \<open>twotoi\<close> written as \<open>2 ^ i\<close>; the result is the new
  array size and the number of keys that go to it.
\<close>

function computesizes_loop ::
    "nat list \<Rightarrow> nat \<Rightarrow> nat \<Rightarrow> nat \<Rightarrow> nat \<Rightarrow> nat \<Rightarrow> nat \<times> nat" where
  "computesizes_loop nums narray i a na n =
     (if 2 ^ i div 2 < narray then
        let a' = (if 0 < nums ! i then a + nums ! i else a);
            hit = (0 < nums ! i \<and> 2 ^ i div 2 < a');
            n' = (if hit then 2 ^ i else n);
            na' = (if hit then a' else na)
        in if a' = narray then (n', na')
           else computesizes_loop nums narray (Suc i) a' na' n'
      else (n, na))"
  by pat_completeness auto
termination
proof (relation "measure (\<lambda>(nums, narray, i, a, na, n). 2 * narray - 2 ^ i)", goal_cases)
  case (2 nums narray i)
  then have "2 ^ i < 2 * narray" by linarith
  moreover have "(2::nat) ^ i < 2 ^ Suc i" by simp
  ultimately have "2 * narray - 2 ^ Suc i < 2 * narray - 2 ^ i" by (intro diff_less_mono2)
  then show ?case by (simp del: power_Suc)
qed simp

declare computesizes_loop.simps [simp del]

definition computesizes :: "nat list \<Rightarrow> nat \<Rightarrow> nat \<times> nat" where
  "computesizes nums narray = computesizes_loop nums narray 0 0 0 0"

definition countint :: "TValue \<Rightarrow> nat list \<Rightarrow> nat \<times> nat list" where
  "countint key nums =
     (let k = arrayindex key
      in if 0 < k \<and> k \<le> MAXASIZE
         then let b = nat (ceillog2 (word_of_int k)) in (1, nums[b := nums ! b + 1])
         else (0, nums))"

function numusearray_loop ::
    "TValue list \<Rightarrow> nat \<Rightarrow> nat \<Rightarrow> nat list \<Rightarrow> nat \<Rightarrow> nat \<times> nat list" where
  "numusearray_loop arr lg i nums ause =
     (if MAXBITS < lg then (ause, nums)
      else let lim = (if length arr < 2 ^ lg then length arr else 2 ^ lg)
        in if length arr < 2 ^ lg \<and> lim < i then (ause, nums)
           else let lc = length (filter (\<lambda>j. \<not> ttisnil (arr ! (j - 1))) [i..<Suc lim])
             in numusearray_loop arr (Suc lg) (max i (Suc lim))
                  (nums[lg := nums ! lg + lc]) (ause + lc))"
  by pat_completeness auto
termination
  by (relation "measure (\<lambda>(arr, lg, i, nums, ause). Suc MAXBITS - lg)") auto

declare numusearray_loop.simps [simp del]

definition numusearray :: "Table \<Rightarrow> nat list \<Rightarrow> nat \<times> nat list" where
  "numusearray t nums = numusearray_loop (array t) 0 1 nums 0"

text \<open>The loop runs from the last node down; the state is \<open>(totaluse, ause, nums)\<close>.\<close>

fun numusehash_loop :: "Node list \<Rightarrow> nat \<times> nat \<times> nat list \<Rightarrow> nat \<times> nat \<times> nat list" where
  "numusehash_loop [] s = s"
| "numusehash_loop (n # ns) (totaluse, ause, nums) =
     (if ttisnil (i_val n) then numusehash_loop ns (totaluse, ause, nums)
      else let (c, nums') = countint (i_key n) nums
           in numusehash_loop ns (totaluse + 1, ause + c, nums'))"

definition numusehash :: "Table \<Rightarrow> nat list \<Rightarrow> nat \<times> nat \<times> nat list" where
  "numusehash t nums = numusehash_loop (rev (node t)) (0, 0, nums)"

section \<open>Growing\<close>

definition setarrayvector :: "Table \<Rightarrow> nat \<Rightarrow> Table" where
  "setarrayvector t sz =
     t\<lparr>array := take sz (array t) @ replicate (sz - length (array t)) VNil\<rparr>"

definition setnodevector :: "Table \<Rightarrow> nat \<Rightarrow> Table result" where
  "setnodevector t sz =
     (if sz = 0
      then Ok (t\<lparr>node := [empty_node], isdummy := True, lsizenode := 0, lastfree := 0\<rparr>)
      else let lsize = ceillog2 (word_of_nat sz)
        in if int MAXBITS < lsize then Err (RunError ''table overflow'')
           else Ok (t\<lparr>node := replicate (2 ^ nat lsize) empty_node, isdummy := False,
                  lsizenode := nat lsize, lastfree := 2 ^ nat lsize\<rparr>))"

text \<open>
  The insertion functions over a given \<open>newkey\<close>, so that the recursion
  \<open>newkey \<rightarrow> rehash \<rightarrow> resize \<rightarrow> luaH_set \<rightarrow> newkey\<close> can be bounded below. They return
  the slot of the key and the table. On an error the table is left out: the code has set its flags to
  0 by then, which only empties the cache of absent metamethods.
\<close>

type_synonym inserter = "Table \<Rightarrow> TValue \<Rightarrow> (slot \<times> Table) result"

definition luaH_set_by :: "inserter \<Rightarrow> strhash \<Rightarrow> inserter" where
  "luaH_set_by nk H t key =
     rbind (luaH_get H t key) (\<lambda>p.
       let t' = t\<lparr>flags := 0\<rparr>
       in case p of
            Some s \<Rightarrow> Ok (s, t')
          | None \<Rightarrow>
              if ttisnil key then Err (RunError ''table index is nil'')
              else if is_NaN key then Err (RunError ''table index is NaN'')
              else nk t' key)"

definition luaH_setnum_by :: "inserter \<Rightarrow> Table \<Rightarrow> int \<Rightarrow> (slot \<times> Table) result" where
  "luaH_setnum_by nk t key =
     rbind (luaH_getnum t key) (\<lambda>p.
       case p of Some s \<Rightarrow> Ok (s, t) | None \<Rightarrow> nk t (VNumber (cast_num key)))"

definition luaH_setstr_by :: "inserter \<Rightarrow> strhash \<Rightarrow> Table \<Rightarrow> ptr \<Rightarrow> (slot \<times> Table) result" where
  "luaH_setstr_by nk H t key =
     rbind (luaH_getstr H t key) (\<lambda>p.
       case p of Some s \<Rightarrow> Ok (s, t) | None \<Rightarrow> nk t (VString key))"

text \<open>The two re-insertion loops of \<open>resize\<close>.\<close>

fun reinsert_array :: "inserter \<Rightarrow> Table \<Rightarrow> nat \<Rightarrow> TValue list \<Rightarrow> Table result" where
  "reinsert_array nk t i [] = Ok t"
| "reinsert_array nk t i (v # vs) =
     (if ttisnil v then reinsert_array nk t (Suc i) vs
      else rbind (luaH_setnum_by nk t (int i + 1)) (\<lambda>(s, t').
             reinsert_array nk (set_slot t' s v) (Suc i) vs))"

fun reinsert_nodes :: "inserter \<Rightarrow> strhash \<Rightarrow> Table \<Rightarrow> Node list \<Rightarrow> Table result" where
  "reinsert_nodes nk H t [] = Ok t"
| "reinsert_nodes nk H t (old # olds) =
     (if ttisnil (i_val old) then reinsert_nodes nk H t olds
      else rbind (luaH_set_by nk H t (i_key old)) (\<lambda>(s, t').
             reinsert_nodes nk H (set_slot t' s (i_val old)) olds))"

definition resize :: "inserter \<Rightarrow> strhash \<Rightarrow> Table \<Rightarrow> nat \<Rightarrow> nat \<Rightarrow> Table result" where
  "resize nk H t nasize nhsize =
     (let oldasize = length (array t);
          nold = node t;
          t1 = (if oldasize < nasize then setarrayvector t nasize else t)
      in rbind (setnodevector t1 nhsize) (\<lambda>t2.
         rbind (if nasize < oldasize
                then reinsert_array nk (t2\<lparr>array := take nasize (array t2)\<rparr>) nasize
                       (drop nasize (array t2))
                else Ok t2) (\<lambda>t3.
         reinsert_nodes nk H t3 (rev nold))))"

definition rehash :: "inserter \<Rightarrow> strhash \<Rightarrow> Table \<Rightarrow> TValue \<Rightarrow> Table result" where
  "rehash nk H t ek =
     (let nums0 = replicate (Suc MAXBITS) 0;
          (nasize0, nums1) = numusearray t nums0;
          (total1, ause, nums2) = numusehash t nums1;
          (c, nums3) = countint ek nums2;
          nasize1 = nasize0 + ause + c;
          totaluse = nasize0 + total1 + 1;
          (nasize, na) = computesizes nums3 nasize1
      in resize nk H t nasize (totaluse - na))"

section \<open>Insertion\<close>

function getfreepos_loop :: "Node list \<Rightarrow> int \<Rightarrow> int \<times> nat option" where
  "getfreepos_loop ns lf =
     (if 0 < lf
      then if ttisnil (i_key (ns ! nat (lf - 1))) then (lf - 1, Some (nat (lf - 1)))
           else getfreepos_loop ns (lf - 1)
      else (lf - 1, None))"
  by pat_completeness auto
termination
  by (relation "measure (\<lambda>(ns, lf). nat lf)") auto

declare getfreepos_loop.simps [simp del]

definition getfreepos :: "Table \<Rightarrow> Table \<times> nat option" where
  "getfreepos t = (let (lf, n) = getfreepos_loop (node t) (lastfree t) in (t\<lparr>lastfree := lf\<rparr>, n))"

text \<open>\<open>while (gnext(othern) != mp) othern = gnext(othern)\<close>\<close>

fun find_previous :: "Node list \<Rightarrow> nat \<Rightarrow> nat \<Rightarrow> nat \<Rightarrow> nat result" where
  "find_previous ns 0 othern mp = Diverge"
| "find_previous ns (Suc f) othern mp =
     (case i_next (ns ! othern) of
        None \<Rightarrow> Undef
      | Some j \<Rightarrow> if j = mp then Ok othern else find_previous ns f j mp)"

definition set_next :: "Node list \<Rightarrow> nat \<Rightarrow> nat option \<Rightarrow> Node list" where
  "set_next ns i p = ns[i := (ns ! i)\<lparr>i_next := p\<rparr>]"

definition set_key :: "Node list \<Rightarrow> nat \<Rightarrow> TValue \<Rightarrow> Node list" where
  "set_key ns i k = ns[i := (ns ! i)\<lparr>i_key := k\<rparr>]"

text \<open>
  The colliding node \<open>mp\<close> moves to the free node \<open>n\<close>; \<open>prev\<close> is its predecessor.
\<close>

definition move_node :: "Node list \<Rightarrow> nat \<Rightarrow> nat \<Rightarrow> nat \<Rightarrow> Node list" where
  "move_node ns prev mp n =
     (let ns1 = set_next ns prev (Some n);
          ns2 = ns1[n := ns1 ! mp];
          ns3 = set_next ns2 mp None
      in ns3[mp := (ns3 ! mp)\<lparr>i_val := VNil\<rparr>])"

text \<open>
  The write barrier \<open>luaC_barriert(L, t, key)\<close> with which \<open>newkey\<close> ends changes marks of the
  collector, not the table: it is made on the heap (\<open>finish_set\<close> in \<^verbatim>\<open>LuaDo\<close>).
\<close>

definition newkey_step :: "inserter \<Rightarrow> strhash \<Rightarrow> inserter" where
  "newkey_step nk H t key =
     (let l = lsizenode t; mp = mainposition H l key
      in if \<not> ttisnil (i_val (node t ! mp)) \<or> isdummy t then
           (case getfreepos t of
              (t1, None) \<Rightarrow> rbind (rehash nk H t1 key) (\<lambda>t2. luaH_set_by nk H t2 key)
            | (t1, Some n) \<Rightarrow>
                let ns = node t1; othern = mainposition H l (i_key (ns ! mp))
                in if othern \<noteq> mp then
                     rbind (find_previous ns (length ns) othern mp) (\<lambda>prev.
                       Ok (NodeSlot mp, t1\<lparr>node := set_key (move_node ns prev mp n) mp key\<rparr>))
                   else
                     let ns1 = set_next ns n (i_next (ns ! mp));
                         ns2 = set_next ns1 mp (Some n)
                     in Ok (NodeSlot n, t1\<lparr>node := set_key ns2 n key\<rparr>))
         else Ok (NodeSlot mp, t\<lparr>node := set_key (node t) mp key\<rparr>))"

fun newkey :: "strhash \<Rightarrow> nat \<Rightarrow> inserter" where
  "newkey H 0 t key = Diverge"
| "newkey H (Suc f) t key = newkey_step (newkey H f) H t key"

text \<open>
  Two levels are enough: an insertion may rehash, and the insertions of the rehash do not
  (proved in \<^verbatim>\<open>LuaTableRehash\<close>), hence the depth 2 below.
\<close>

definition luaH_set :: "strhash \<Rightarrow> inserter" where
  "luaH_set H = luaH_set_by (newkey H 2) H"

definition luaH_setnum :: "strhash \<Rightarrow> Table \<Rightarrow> int \<Rightarrow> (slot \<times> Table) result" where
  "luaH_setnum H = luaH_setnum_by (newkey H 2)"

definition luaH_setstr :: "strhash \<Rightarrow> Table \<Rightarrow> ptr \<Rightarrow> (slot \<times> Table) result" where
  "luaH_setstr H = luaH_setstr_by (newkey H 2) H"

definition luaH_resizearray :: "strhash \<Rightarrow> Table \<Rightarrow> nat \<Rightarrow> Table result" where
  "luaH_resizearray H t nasize =
     resize (newkey H 2) H t nasize (if isdummy t then 0 else sizenode t)"

definition luaH_new :: "nat \<Rightarrow> nat \<Rightarrow> Table result" where
  "luaH_new narray nhash =
     setnodevector
       (setarrayvector
         \<lparr>flags = NOT 0, lsizenode = 0, metatable = None, array = [], node = [empty_node],
          isdummy = True, lastfree = 0\<rparr> narray)
       nhash"

text \<open>What the collector does to a node whose value is nil (\<open>removeentry\<close> of \<^verbatim>\<open>lgc.c\<close>).\<close>

definition removeentry :: "Node \<Rightarrow> Node" where
  "removeentry n =
     (if iscollectable (i_key n) then n\<lparr>i_key := VDeadKey (gcvalue (i_key n))\<rparr> else n)"

section \<open>Length\<close>

definition getnum_nil :: "Table \<Rightarrow> int \<Rightarrow> bool result" where
  "getnum_nil t j = rbind (luaH_getnum t j) (\<lambda>p. Ok (ttisnil (deref t p)))"

text \<open>The linear search; \<open>f\<close> bounds the number of its steps.\<close>

fun linear_search :: "Table \<Rightarrow> nat \<Rightarrow> int \<Rightarrow> int result" where
  "linear_search t 0 i = Diverge"
| "linear_search t (Suc f) i =
     rbind (getnum_nil t i) (\<lambda>z. if z then Ok (i - 1) else linear_search t f (i + 1))"

function binary_search :: "(int \<Rightarrow> bool result) \<Rightarrow> int \<Rightarrow> int \<Rightarrow> int result" where
  "binary_search isnil i j =
     (if 1 < j - i
      then let m = (i + j) div 2
           in rbind (isnil m) (\<lambda>z. if z then binary_search isnil i m else binary_search isnil m j)
      else Ok i)"
  by pat_completeness auto
termination
  by (relation "measure (\<lambda>(isnil, i, j). nat (j - i))") auto

declare binary_search.simps [simp del]

text \<open>The doubling loop: \<open>i\<close> is zero or a present index and \<open>j\<close> is tried next.\<close>

function unbound_loop :: "Table \<Rightarrow> int \<Rightarrow> int \<Rightarrow> int result" where
  "unbound_loop t i j =
     rbind (getnum_nil t j) (\<lambda>z.
       if z then binary_search (getnum_nil t) i j
       else if MAX_INT < j * 2 \<or> j \<le> 0 then linear_search t (nat MAX_INT) 1
       else unbound_loop t j (j * 2))"
  by pat_completeness auto
termination
  by (relation "measure (\<lambda>(t, i, j). nat (MAX_INT - j))") auto

declare unbound_loop.simps [simp del]

definition unbound_search :: "Table \<Rightarrow> int \<Rightarrow> int result" where
  "unbound_search t j = unbound_loop t j (j + 1)"

definition luaH_getn :: "Table \<Rightarrow> int result" where
  "luaH_getn t =
     (let j = length (array t)
      in if 0 < j \<and> ttisnil (array t ! (j - 1))
         then binary_search (\<lambda>m. Ok (ttisnil (array t ! nat (m - 1)))) 0 (int j)
         else if isdummy t then Ok (int j)
         else unbound_search t (int j))"

end
