(* ===== verification/LuaArith.thy ===== *)
theory LuaArith
  imports LuaObject
begin

text \<open>
  The arithmetic of \<^verbatim>\<open>luaconf.h\<close>: the four operations and \<open>floor\<close> on the bit patterns of
  doubles, rounded to nearest even as the standard prescribes, and the bit operations, which go
  through \<open>int\<close>.
\<close>

unbundle bit_operations_syntax

section \<open>Arithmetic\<close>

abbreviation (input) default_nan :: lua_Number where
  "default_nan \<equiv> 0xFFF8000000000000"

definition num_zero :: "bool \<Rightarrow> lua_Number" where
  "num_zero s = dbl_encode s 0 (- 1074)"

definition num_inf :: "bool \<Rightarrow> lua_Number" where
  "num_inf s = word_of_int (2047 * 2 ^ 52 + (if s then 2 ^ 63 else 0))"

definition num_iszero :: "lua_Number \<Rightarrow> bool" where
  "num_iszero x \<longleftrightarrow> dbl_mag x = 0"

text \<open>\<open>luai_numunm\<close>: the sign changes, that of a NaN too.\<close>

definition num_unm :: "lua_Number \<Rightarrow> lua_Number" where
  "num_unm x = x XOR 0x8000000000000000"

definition num_sub :: "lua_Number \<Rightarrow> lua_Number \<Rightarrow> lua_Number" where
  "num_sub a b = (if num_isnan b \<and> \<not> num_isnan a then num_quiet b else num_add a (num_unm b))"

definition num_mul :: "lua_Number \<Rightarrow> lua_Number \<Rightarrow> lua_Number" where
  "num_mul a b =
     (let s = (dbl_neg a \<noteq> dbl_neg b)
      in if num_isnan a then num_quiet a
         else if num_isnan b then num_quiet b
         else if num_isinf a then (if num_iszero b then default_nan else num_inf s)
         else if num_isinf b then (if num_iszero a then default_nan else num_inf s)
         else let m = dbl_man a * dbl_man b; q = dbl_pow a + dbl_pow b
           in if m = 0 then num_zero s else dbl_round s (m * 2 ^ nat q) (2 ^ nat (- q)))"

definition num_div :: "lua_Number \<Rightarrow> lua_Number \<Rightarrow> lua_Number" where
  "num_div a b =
     (let s = (dbl_neg a \<noteq> dbl_neg b)
      in if num_isnan a then num_quiet a
         else if num_isnan b then num_quiet b
         else if num_isinf a then (if num_isinf b then default_nan else num_inf s)
         else if num_isinf b then num_zero s
         else if num_iszero b then (if num_iszero a then default_nan else num_inf s)
         else if num_iszero a then num_zero s
         else let q = dbl_pow a - dbl_pow b
           in dbl_round s (dbl_man a * 2 ^ nat q) (dbl_man b * 2 ^ nat (- q)))"

text \<open>\<open>floor\<close> of the C library\<close>

definition dbl_floor :: "lua_Number \<Rightarrow> int" where
  "dbl_floor x =
     (let m = dbl_man x * 2 ^ nat (dbl_pow x); d = 2 ^ nat (- dbl_pow x)
      in (if dbl_neg x then - m else m) div d)"

definition num_floor :: "lua_Number \<Rightarrow> lua_Number" where
  "num_floor x =
     (if num_isnan x then num_quiet x
      else if num_isinf x then x
      else if dbl_floor x = 0 then num_zero (dbl_neg x)
      else dbl_round (dbl_floor x < 0) \<bar>dbl_floor x\<bar> 1)"

text \<open>\<open>luai_nummod\<close>\<close>

definition num_mod :: "lua_Number \<Rightarrow> lua_Number \<Rightarrow> lua_Number" where
  "num_mod a b = num_sub a (num_mul (num_floor (num_div a b)) b)"

section \<open>Bit operations\<close>

text \<open>
  The operands are converted to \<open>int\<close> and widened to the 64 bits of \<open>lua_Integer\<close>. A shift by a
  count outside \<open>0..63\<close>, and a left shift of a negative number or past the largest one, are
  undefined.
\<close>

definition bin_or :: "lua_Number \<Rightarrow> lua_Number \<Rightarrow> int result" where
  "bin_or a b = Ok (lua_number2int a OR lua_number2int b)"

definition bin_and :: "lua_Number \<Rightarrow> lua_Number \<Rightarrow> int result" where
  "bin_and a b = Ok (lua_number2int a AND lua_number2int b)"

definition bin_xor :: "lua_Number \<Rightarrow> lua_Number \<Rightarrow> int result" where
  "bin_xor a b = Ok (lua_number2int a XOR lua_number2int b)"

definition bin_rshft :: "lua_Number \<Rightarrow> lua_Number \<Rightarrow> int result" where
  "bin_rshft a b =
     (let k = lua_number2int b
      in if 0 \<le> k \<and> k < 64 then Ok (lua_number2int a div 2 ^ nat k) else Undef)"

definition bin_lshft :: "lua_Number \<Rightarrow> lua_Number \<Rightarrow> int result" where
  "bin_lshft a b =
     (let k = lua_number2int b; r = lua_number2int a * 2 ^ nat k
      in if 0 \<le> k \<and> k < 64 \<and> 0 \<le> lua_number2int a \<and> r < 2 ^ 63 then Ok r else Undef)"

end
