(* ===== verification/LuaCode.thy ===== *)
theory LuaCode
  imports LuaLex LuaProto LuaTable LuaArith
begin

text \<open>
  The code generator (\<^verbatim>\<open>lcode.c\<close>) on the states of the functions being compiled. The arrays
  of a prototype under construction are the lists of their elements in use, so \<open>pc\<close>, \<open>nk\<close>,
  \<open>np\<close> and \<open>nlocvars\<close> are lengths. Functions that change an \<open>expdesc\<close> through a pointer
  return it. Strings are interned, so that the address of a string is a function of its bytes.
\<close>

section \<open>State\<close>

datatype expkind =
    VVOID | VNIL | VTRUE | VFALSE | VK | VKNUM | VLOCAL | VUPVAL | VGLOBAL | VINDEXED | VJMP
  | VRELOCABLE | VNONRELOC | VCALL | VVARARG

text \<open>The members of the union are fields; the code reads only those it wrote.\<close>

record expdesc =
  ek :: expkind
  info :: int
  aux :: int
  nval :: lua_Number
  et :: int
  ef :: int

abbreviation NO_JUMP :: int where "NO_JUMP \<equiv> - 1"

text \<open>A block of \<^verbatim>\<open>lparser.c\<close>; the chain of blocks is a list, the current one first.\<close>

record BlockCnt =
  breaklist :: int
  bl_nactvar :: int
  bl_upval :: bool
  isbreakable :: bool

text \<open>
  \<open>FuncState\<close> with the header of its prototype. \<open>h\<close> is the table of constants at the address
  \<open>h_at\<close>; the strings that the lexer anchors in it with the value true, which \<open>addk\<close> does not
  tell from absent ones, are the list \<open>fs_h\<close> of the lexer, kept in \<open>h_strings\<close> while an inner
  function is compiled. \<open>fupvals\<close> is the array \<open>upvalues\<close> of \<open>FuncState\<close>.
\<close>

record FuncState =
  f_k :: "konstant list"
  f_code :: "Instruction list"
  f_p :: "Proto list"
  f_lineinfo :: "int list"
  f_locvars :: "LocVar list"
  f_upvalues :: "string list"
  f_linedefined :: int
  f_lastlinedefined :: int
  f_numparams :: byte
  f_is_vararg :: byte
  f_maxstacksize :: byte
  h :: Table
  h_at :: ptr
  h_strings :: "string list"
  bl :: "BlockCnt list"
  lasttarget :: int
  jpc :: int
  freereg :: int
  nactvar :: byte
  fupvals :: "(expkind \<times> byte) list"
  actvar :: "int list"

text \<open>
  The state of the parser: \<open>ls->fs\<close> is \<open>fs\<close> and the functions around it are \<open>outer\<close>, the
  nearest first.
\<close>

record PState =
  lex :: LexState
  fs :: FuncState
  outer :: "FuncState list"
  nCcalls :: nat

type_synonym 'a gen = "(PState, 'a) step"

text \<open>
  What is not the compiler's own: where a string and the table of constants of a function at some
  depth are, the hash of the string at an address, and \<open>pow\<close>.
\<close>

record cenv =
  str_at :: "string \<Rightarrow> ptr"
  table_at :: "nat \<Rightarrow> ptr"
  str_hash :: strhash
  c_pow :: "lua_Number \<Rightarrow> lua_Number \<Rightarrow> lua_Number"

section \<open>Steps\<close>

abbreviation seq :: "unit gen \<Rightarrow> 'a gen \<Rightarrow> 'a gen" where
  "seq m n \<equiv> sbind m (\<lambda>_. n)"

definition lexer :: "'a lexer \<Rightarrow> 'a gen" where
  "lexer m s = rbind (m (lex s)) (\<lambda>(x, l). Ok (x, s\<lparr>lex := l\<rparr>))"

definition lifted :: "'a result \<Rightarrow> 'a gen" where
  "lifted r s = rbind r (\<lambda>x. Ok (x, s))"

definition with_fs :: "(FuncState \<Rightarrow> 'a gen) \<Rightarrow> 'a gen" where
  "with_fs c s = c (fs s) s"

definition upd :: "(FuncState \<Rightarrow> FuncState) \<Rightarrow> unit gen" where
  "upd g s = Ok ((), s\<lparr>fs := g (fs s)\<rparr>)"

definition syntaxerror :: "string \<Rightarrow> 'a gen" where
  "syntaxerror msg = lexer (luaX_syntaxerror msg)"

abbreviation pc :: "FuncState \<Rightarrow> int" where
  "pc f \<equiv> int (length (f_code f))"

abbreviation nk :: "FuncState \<Rightarrow> int" where
  "nk f \<equiv> int (length (f_k f))"

definition cast_byte :: "int \<Rightarrow> byte" where
  "cast_byte n = word_of_int n"

text \<open>\<open>luaM_growvector\<close>: the array grows until its size is the limit.\<close>

definition growvector :: "int \<Rightarrow> int \<Rightarrow> string \<Rightarrow> unit gen" where
  "growvector n limit msg = (if limit \<le> n then lifted (Err (RunError msg)) else sret ())"

definition get_code :: "int \<Rightarrow> Instruction gen" where
  "get_code i = with_fs (\<lambda>f. lifted (fetch (f_code f) i))"

definition put_code :: "int \<Rightarrow> Instruction \<Rightarrow> unit gen" where
  "put_code i x = with_fs (\<lambda>f.
     if 0 \<le> i \<and> i < pc f then upd (\<lambda>f. f\<lparr>f_code := (f_code f)[nat i := x]\<rparr>) else lifted Undef)"

definition change_code :: "int \<Rightarrow> (Instruction \<Rightarrow> Instruction) \<Rightarrow> unit gen" where
  "change_code i g = sbind (get_code i) (\<lambda>x. put_code i (g x))"

section \<open>Lists of jumps\<close>

definition fixjump :: "int \<Rightarrow> int \<Rightarrow> unit gen" where
  "fixjump p dest =
     (let offset = dest - (p + 1)
      in if MAXARG_sBx < \<bar>offset\<bar> then syntaxerror ''control structure too long''
         else change_code p (\<lambda>i. SETARG_sBx i offset))"

definition luaK_getlabel :: "int gen" where
  "luaK_getlabel = seq (upd (\<lambda>f. f\<lparr>lasttarget := pc f\<rparr>)) (with_fs (\<lambda>f. sret (pc f)))"

definition jump_next :: "Instruction list \<Rightarrow> int \<Rightarrow> int result" where
  "jump_next cs p = rbind (fetch cs p) (\<lambda>i.
     let offset = GETARG_sBx i in Ok (if offset = NO_JUMP then NO_JUMP else p + 1 + offset))"

definition getjump :: "int \<Rightarrow> int gen" where
  "getjump p = with_fs (\<lambda>f. lifted (jump_next (f_code f) p))"

text \<open>\<open>luaP_opmodes\<close> is read out of its range for a word that is no instruction.\<close>

definition opcode_at :: "Instruction list \<Rightarrow> int \<Rightarrow> OpCode result" where
  "opcode_at cs p = rbind (fetch cs p) (\<lambda>i.
     case op_of (GET_OPCODE i) of Some op \<Rightarrow> Ok op | None \<Rightarrow> Undef)"

definition jump_control :: "Instruction list \<Rightarrow> int \<Rightarrow> int result" where
  "jump_control cs p =
     (if 1 \<le> p then rbind (opcode_at cs (p - 1)) (\<lambda>op. Ok (if testTMode op then p - 1 else p)) else Ok p)"

definition getjumpcontrol :: "int \<Rightarrow> int gen" where
  "getjumpcontrol p = with_fs (\<lambda>f. lifted (jump_control (f_code f) p))"

text \<open>
  The loops along a list have as fuel one more than the number of instructions: a longer walk
  visits one twice and does not end.
\<close>

abbreviation list_fuel :: "FuncState \<Rightarrow> nat" where
  "list_fuel f \<equiv> Suc (length (f_code f))"

fun need_value_loop :: "nat \<Rightarrow> Instruction list \<Rightarrow> int \<Rightarrow> bool result" where
  "need_value_loop 0 cs list = Diverge"
| "need_value_loop (Suc n) cs list =
     (if list = NO_JUMP then Ok False
      else rbind (jump_control cs list) (\<lambda>c. rbind (fetch cs c) (\<lambda>i.
        if GET_OPCODE i \<noteq> op_num OP_TESTSET then Ok True
        else rbind (jump_next cs list) (need_value_loop n cs))))"

definition need_value :: "int \<Rightarrow> bool gen" where
  "need_value list = with_fs (\<lambda>f. lifted (need_value_loop (list_fuel f) (f_code f) list))"

definition patchtestreg :: "int \<Rightarrow> int \<Rightarrow> bool gen" where
  "patchtestreg nd reg =
     sbind (getjumpcontrol nd) (\<lambda>c.
     sbind (get_code c) (\<lambda>i.
       if GET_OPCODE i \<noteq> op_num OP_TESTSET then sret False
       else seq (put_code c (if reg \<noteq> NO_REG \<and> reg \<noteq> GETARG_B i then SETARG_A i reg
                             else CREATE_ABC OP_TEST (GETARG_B i) 0 (GETARG_C i))) (sret True)))"

fun removevalues_loop :: "nat \<Rightarrow> int \<Rightarrow> unit gen" where
  "removevalues_loop 0 list = lifted Diverge"
| "removevalues_loop (Suc n) list =
     (if list = NO_JUMP then sret ()
      else sbind (patchtestreg list NO_REG) (\<lambda>_. sbind (getjump list) (removevalues_loop n)))"

definition removevalues :: "int \<Rightarrow> unit gen" where
  "removevalues list = with_fs (\<lambda>f. removevalues_loop (list_fuel f) list)"

fun patchlist_loop :: "nat \<Rightarrow> int \<Rightarrow> int \<Rightarrow> int \<Rightarrow> int \<Rightarrow> unit gen" where
  "patchlist_loop 0 list vtarget reg dtarget = lifted Diverge"
| "patchlist_loop (Suc n) list vtarget reg dtarget =
     (if list = NO_JUMP then sret ()
      else sbind (getjump list) (\<lambda>nxt.
        sbind (patchtestreg list reg) (\<lambda>b.
        seq (fixjump list (if b then vtarget else dtarget))
          (patchlist_loop n nxt vtarget reg dtarget))))"

definition patchlistaux :: "int \<Rightarrow> int \<Rightarrow> int \<Rightarrow> int \<Rightarrow> unit gen" where
  "patchlistaux list vtarget reg dtarget = with_fs (\<lambda>f. patchlist_loop (list_fuel f) list vtarget reg dtarget)"

definition dischargejpc :: "unit gen" where
  "dischargejpc = seq (with_fs (\<lambda>f. patchlistaux (jpc f) (pc f) NO_REG (pc f))) (upd (\<lambda>f. f\<lparr>jpc := NO_JUMP\<rparr>))"

fun last_jump :: "nat \<Rightarrow> Instruction list \<Rightarrow> int \<Rightarrow> int result" where
  "last_jump 0 cs list = Diverge"
| "last_jump (Suc n) cs list =
     rbind (jump_next cs list) (\<lambda>nxt. if nxt = NO_JUMP then Ok list else last_jump n cs nxt)"

text \<open>\<open>luaK_concat\<close> returns the list that the code writes through its first pointer.\<close>

definition luaK_concat :: "int \<Rightarrow> int \<Rightarrow> int gen" where
  "luaK_concat l1 l2 =
     (if l2 = NO_JUMP then sret l1
      else if l1 = NO_JUMP then sret l2
      else sbind (with_fs (\<lambda>f. lifted (last_jump (list_fuel f) (f_code f) l1))) (\<lambda>last.
        seq (fixjump last l2) (sret l1)))"

definition luaK_patchtohere :: "int \<Rightarrow> unit gen" where
  "luaK_patchtohere list =
     sbind luaK_getlabel (\<lambda>_.
     sbind (with_fs (\<lambda>f. luaK_concat (jpc f) list)) (\<lambda>j. upd (\<lambda>f. f\<lparr>jpc := j\<rparr>)))"

definition luaK_patchlist :: "int \<Rightarrow> int \<Rightarrow> unit gen" where
  "luaK_patchlist list target = with_fs (\<lambda>f.
     if target = pc f then luaK_patchtohere list else patchlistaux list target NO_REG target)"

section \<open>Instructions\<close>

definition luaK_fixline :: "int \<Rightarrow> unit gen" where
  "luaK_fixline line = with_fs (\<lambda>f.
     if f_lineinfo f = [] then lifted Undef
     else upd (\<lambda>f. f\<lparr>f_lineinfo := (f_lineinfo f)[length (f_lineinfo f) - 1 := line]\<rparr>))"

definition luaK_code :: "Instruction \<Rightarrow> int \<Rightarrow> int gen" where
  "luaK_code i line =
     seq dischargejpc
     (seq (with_fs (\<lambda>f. growvector (pc f) MAX_INT ''code size overflow''))
     (seq (upd (\<lambda>f. f\<lparr>f_code := f_code f @ [i], f_lineinfo := f_lineinfo f @ [line]\<rparr>))
       (with_fs (\<lambda>f. sret (pc f - 1)))))"

definition last_line :: "int gen" where
  "last_line s = Ok (lastline (lex s), s)"

definition luaK_codeABC :: "OpCode \<Rightarrow> int \<Rightarrow> int \<Rightarrow> int \<Rightarrow> int gen" where
  "luaK_codeABC op a b c = sbind last_line (luaK_code (CREATE_ABC op a b c))"

definition luaK_codeABx :: "OpCode \<Rightarrow> int \<Rightarrow> int \<Rightarrow> int gen" where
  "luaK_codeABx op a bc = sbind last_line (luaK_code (CREATE_ABx op a bc))"

definition luaK_codeAsBx :: "OpCode \<Rightarrow> int \<Rightarrow> int \<Rightarrow> int gen" where
  "luaK_codeAsBx op a sbx = luaK_codeABx op a (sbx + MAXARG_sBx)"

abbreviation emit :: "OpCode \<Rightarrow> int \<Rightarrow> int \<Rightarrow> int \<Rightarrow> unit gen" where
  "emit op a b c \<equiv> sbind (luaK_codeABC op a b c) (\<lambda>_. sret ())"

definition luaK_nil :: "int \<Rightarrow> int \<Rightarrow> unit gen" where
  "luaK_nil from n = with_fs (\<lambda>f.
     if lasttarget f < pc f then
       if pc f = 0 then
         if uint (nactvar f) \<le> from then sret () else emit OP_LOADNIL from (from + n - 1) 0
       else sbind (get_code (pc f - 1)) (\<lambda>prev.
         if GET_OPCODE prev = op_num OP_LOADNIL \<and> GETARG_A prev \<le> from \<and> from \<le> GETARG_B prev + 1 then
           if GETARG_B prev < from + n - 1 then put_code (pc f - 1) (SETARG_B prev (from + n - 1)) else sret ()
         else emit OP_LOADNIL from (from + n - 1) 0)
     else emit OP_LOADNIL from (from + n - 1) 0)"

definition luaK_jump :: "int gen" where
  "luaK_jump = with_fs (\<lambda>f.
     seq (upd (\<lambda>f. f\<lparr>jpc := NO_JUMP\<rparr>))
     (sbind (luaK_codeAsBx OP_JMP 0 NO_JUMP) (\<lambda>j. luaK_concat j (jpc f))))"

definition luaK_ret :: "int \<Rightarrow> int \<Rightarrow> unit gen" where
  "luaK_ret first nret = emit OP_RETURN first (nret + 1) 0"

definition condjump :: "OpCode \<Rightarrow> int \<Rightarrow> int \<Rightarrow> int \<Rightarrow> int gen" where
  "condjump op a b c = sbind (luaK_codeABC op a b c) (\<lambda>_. luaK_jump)"

section \<open>Registers\<close>

definition luaK_checkstack :: "int \<Rightarrow> unit gen" where
  "luaK_checkstack n = with_fs (\<lambda>f.
     let newstack = freereg f + n
     in if uint (f_maxstacksize f) < newstack then
          if MAXSTACK \<le> newstack then syntaxerror ''function or expression too complex''
          else upd (\<lambda>f. f\<lparr>f_maxstacksize := cast_byte newstack\<rparr>)
        else sret ())"

definition luaK_reserveregs :: "int \<Rightarrow> unit gen" where
  "luaK_reserveregs n = seq (luaK_checkstack n) (upd (\<lambda>f. f\<lparr>freereg := freereg f + n\<rparr>))"

definition free_reg :: "int \<Rightarrow> unit gen" where
  "free_reg reg = with_fs (\<lambda>f.
     if \<not> ISK reg \<and> uint (nactvar f) \<le> reg then upd (\<lambda>f. f\<lparr>freereg := freereg f - 1\<rparr>) else sret ())"

definition freeexp :: "expdesc \<Rightarrow> unit gen" where
  "freeexp e = (if ek e = VNONRELOC then free_reg (info e) else sret ())"

section \<open>Constants\<close>

definition table_put :: "slot \<Rightarrow> TValue \<Rightarrow> unit gen" where
  "table_put sl v = upd (\<lambda>f. f\<lparr>h := set_slot (h f) sl v\<rparr>)"

definition addk :: "cenv \<Rightarrow> TValue \<Rightarrow> konstant \<Rightarrow> int gen" where
  "addk E key v = with_fs (\<lambda>f.
     sbind (lifted (luaH_set (str_hash E) (h f) key)) (\<lambda>(sl, t).
     seq (upd (\<lambda>f. f\<lparr>h := t\<rparr>))
       (case slot_val t sl of
          VNumber x \<Rightarrow> sret (lua_number2int x)
        | _ \<Rightarrow>
          seq (table_put sl (VNumber (cast_num (nk f))))
          (seq (growvector (nk f) MAXARG_Bx ''constant table overflow'')
          (seq (upd (\<lambda>f. f\<lparr>f_k := f_k f @ [v]\<rparr>)) (sret (nk f)))))))"

definition luaK_stringK :: "cenv \<Rightarrow> string \<Rightarrow> int gen" where
  "luaK_stringK E s = addk E (VString (str_at E s)) (KString s)"

definition luaK_numberK :: "cenv \<Rightarrow> lua_Number \<Rightarrow> int gen" where
  "luaK_numberK E r = addk E (VNumber r) (KNumber r)"

definition boolK :: "cenv \<Rightarrow> bool \<Rightarrow> int gen" where
  "boolK E b = addk E (VBoolean (of_bool b)) (KBoolean (of_bool b))"

text \<open>The table itself is the key of nil.\<close>

definition nilK :: "cenv \<Rightarrow> int gen" where
  "nilK E = with_fs (\<lambda>f. addk E (VTable (h_at f)) KNil)"

section \<open>Expressions\<close>

definition hasjumps :: "expdesc \<Rightarrow> bool" where
  "hasjumps e \<longleftrightarrow> et e \<noteq> ef e"

definition isnumeral :: "expdesc \<Rightarrow> bool" where
  "isnumeral e \<longleftrightarrow> ek e = VKNUM \<and> et e = NO_JUMP \<and> ef e = NO_JUMP"

definition luaK_setreturns :: "expdesc \<Rightarrow> int \<Rightarrow> unit gen" where
  "luaK_setreturns e nresults =
     (if ek e = VCALL then change_code (info e) (\<lambda>i. SETARG_C i (nresults + 1))
      else if ek e = VVARARG then
        seq (change_code (info e) (\<lambda>i. SETARG_B i (nresults + 1)))
        (seq (with_fs (\<lambda>f. change_code (info e) (\<lambda>i. SETARG_A i (freereg f))))
          (luaK_reserveregs 1))
      else sret ())"

abbreviation LUA_MULTRET :: int where "LUA_MULTRET \<equiv> - 1"

definition luaK_setoneret :: "expdesc \<Rightarrow> expdesc gen" where
  "luaK_setoneret e =
     (if ek e = VCALL then sbind (get_code (info e)) (\<lambda>i. sret (e\<lparr>ek := VNONRELOC, info := GETARG_A i\<rparr>))
      else if ek e = VVARARG then seq (change_code (info e) (\<lambda>i. SETARG_B i 2)) (sret (e\<lparr>ek := VRELOCABLE\<rparr>))
      else sret e)"

definition luaK_dischargevars :: "expdesc \<Rightarrow> expdesc gen" where
  "luaK_dischargevars e =
     (case ek e of
        VLOCAL \<Rightarrow> sret (e\<lparr>ek := VNONRELOC\<rparr>)
      | VUPVAL \<Rightarrow> sbind (luaK_codeABC OP_GETUPVAL 0 (info e) 0) (\<lambda>p. sret (e\<lparr>info := p, ek := VRELOCABLE\<rparr>))
      | VGLOBAL \<Rightarrow> sbind (luaK_codeABx OP_GETGLOBAL 0 (info e)) (\<lambda>p. sret (e\<lparr>info := p, ek := VRELOCABLE\<rparr>))
      | VINDEXED \<Rightarrow>
          seq (free_reg (aux e)) (seq (free_reg (info e))
          (sbind (luaK_codeABC OP_GETTABLE 0 (info e) (aux e)) (\<lambda>p. sret (e\<lparr>info := p, ek := VRELOCABLE\<rparr>))))
      | VVARARG \<Rightarrow> luaK_setoneret e
      | VCALL \<Rightarrow> luaK_setoneret e
      | _ \<Rightarrow> sret e)"

definition code_label :: "int \<Rightarrow> int \<Rightarrow> int \<Rightarrow> int gen" where
  "code_label a b jmp = sbind luaK_getlabel (\<lambda>_. luaK_codeABC OP_LOADBOOL a b jmp)"

definition load_reg :: "cenv \<Rightarrow> expdesc \<Rightarrow> int \<Rightarrow> unit gen" where
  "load_reg E e reg =
     (case ek e of
        VNIL \<Rightarrow> luaK_nil reg 1
      | VFALSE \<Rightarrow> emit OP_LOADBOOL reg 0 0
      | VTRUE \<Rightarrow> emit OP_LOADBOOL reg 1 0
      | VK \<Rightarrow> sbind (luaK_codeABx OP_LOADK reg (info e)) (\<lambda>_. sret ())
      | VKNUM \<Rightarrow> sbind (luaK_numberK E (nval e)) (\<lambda>c. sbind (luaK_codeABx OP_LOADK reg c) (\<lambda>_. sret ()))
      | VRELOCABLE \<Rightarrow> change_code (info e) (\<lambda>i. SETARG_A i reg)
      | VNONRELOC \<Rightarrow> if reg \<noteq> info e then emit OP_MOVE reg (info e) 0 else sret ()
      | _ \<Rightarrow> sret ())"

definition discharge2reg :: "cenv \<Rightarrow> expdesc \<Rightarrow> int \<Rightarrow> expdesc gen" where
  "discharge2reg E e0 reg =
     sbind (luaK_dischargevars e0) (\<lambda>e.
       if ek e \<in> {VNIL, VFALSE, VTRUE, VK, VKNUM, VRELOCABLE, VNONRELOC} then
         seq (load_reg E e reg) (sret (e\<lparr>info := reg, ek := VNONRELOC\<rparr>))
       else sret e)"

definition discharge2anyreg :: "cenv \<Rightarrow> expdesc \<Rightarrow> expdesc gen" where
  "discharge2anyreg E e =
     (if ek e \<noteq> VNONRELOC then
        seq (luaK_reserveregs 1) (with_fs (\<lambda>f. discharge2reg E e (freereg f - 1)))
      else sret e)"

text \<open>\<open>load_values\<close> is the code of \<open>exp2reg\<close> for the jumps that do not produce a value.\<close>

definition load_values :: "expdesc \<Rightarrow> int \<Rightarrow> (int \<times> int) gen" where
  "load_values e reg =
     sbind (need_value (et e)) (\<lambda>b1.
     sbind (if b1 then sret True else need_value (ef e)) (\<lambda>b.
       if b then
         sbind (if ek e = VJMP then sret NO_JUMP else luaK_jump) (\<lambda>fj.
         sbind (code_label reg 0 1) (\<lambda>p_f.
         sbind (code_label reg 1 0) (\<lambda>p_t.
         seq (luaK_patchtohere fj) (sret (p_f, p_t)))))
       else sret (NO_JUMP, NO_JUMP)))"

definition exp2reg :: "cenv \<Rightarrow> expdesc \<Rightarrow> int \<Rightarrow> expdesc gen" where
  "exp2reg E e0 reg =
     sbind (discharge2reg E e0 reg) (\<lambda>e1.
     sbind (if ek e1 = VJMP then sbind (luaK_concat (et e1) (info e1)) (\<lambda>l. sret (e1\<lparr>et := l\<rparr>)) else sret e1) (\<lambda>e.
     seq (if hasjumps e then
            sbind (load_values e reg) (\<lambda>(p_f, p_t).
            sbind luaK_getlabel (\<lambda>final.
            seq (patchlistaux (ef e) final reg p_f) (patchlistaux (et e) final reg p_t)))
          else sret ())
       (sret (e\<lparr>ef := NO_JUMP, et := NO_JUMP, info := reg, ek := VNONRELOC\<rparr>))))"

definition luaK_exp2nextreg :: "cenv \<Rightarrow> expdesc \<Rightarrow> expdesc gen" where
  "luaK_exp2nextreg E e0 =
     sbind (luaK_dischargevars e0) (\<lambda>e.
     seq (freeexp e)
     (seq (luaK_reserveregs 1)
       (with_fs (\<lambda>f. exp2reg E e (freereg f - 1)))))"

text \<open>The functions below that return a register leave it in \<open>info\<close> as well.\<close>

definition luaK_exp2anyreg :: "cenv \<Rightarrow> expdesc \<Rightarrow> expdesc gen" where
  "luaK_exp2anyreg E e0 =
     sbind (luaK_dischargevars e0) (\<lambda>e. with_fs (\<lambda>f.
       if ek e = VNONRELOC \<and> \<not> hasjumps e then sret e
       else if ek e = VNONRELOC \<and> uint (nactvar f) \<le> info e then exp2reg E e (info e)
       else luaK_exp2nextreg E e))"

definition luaK_exp2val :: "cenv \<Rightarrow> expdesc \<Rightarrow> expdesc gen" where
  "luaK_exp2val E e = (if hasjumps e then luaK_exp2anyreg E e else luaK_dischargevars e)"

definition in_anyreg :: "cenv \<Rightarrow> expdesc \<Rightarrow> (int \<times> expdesc) gen" where
  "in_anyreg E e = sbind (luaK_exp2anyreg E e) (\<lambda>e'. sret (info e', e'))"

definition luaK_exp2RK :: "cenv \<Rightarrow> expdesc \<Rightarrow> (int \<times> expdesc) gen" where
  "luaK_exp2RK E e0 =
     sbind (luaK_exp2val E e0) (\<lambda>e. with_fs (\<lambda>f.
       if ek e \<in> {VKNUM, VTRUE, VFALSE, VNIL} then
         if nk f \<le> MAXINDEXRK then
           sbind (if ek e = VNIL then nilK E
                  else if ek e = VKNUM then luaK_numberK E (nval e) else boolK E (ek e = VTRUE)) (\<lambda>i.
             sret (RKASK i, e\<lparr>info := i, ek := VK\<rparr>))
         else in_anyreg E e
       else if ek e = VK \<and> info e \<le> MAXINDEXRK then sret (RKASK (info e), e)
       else in_anyreg E e))"

definition luaK_storevar :: "cenv \<Rightarrow> expdesc \<Rightarrow> expdesc \<Rightarrow> unit gen" where
  "luaK_storevar E var ex =
     (case ek var of
        VLOCAL \<Rightarrow> seq (freeexp ex) (sbind (exp2reg E ex (info var)) (\<lambda>_. sret ()))
      | VUPVAL \<Rightarrow> sbind (luaK_exp2anyreg E ex) (\<lambda>e.
          seq (emit OP_SETUPVAL (info e) (info var) 0) (freeexp e))
      | VGLOBAL \<Rightarrow> sbind (luaK_exp2anyreg E ex) (\<lambda>e.
          sbind (luaK_codeABx OP_SETGLOBAL (info e) (info var)) (\<lambda>_. freeexp e))
      | VINDEXED \<Rightarrow> sbind (luaK_exp2RK E ex) (\<lambda>(r, e).
          seq (emit OP_SETTABLE (info var) (aux var) r) (freeexp e))
      | _ \<Rightarrow> freeexp ex)"

definition luaK_self :: "cenv \<Rightarrow> expdesc \<Rightarrow> expdesc \<Rightarrow> expdesc gen" where
  "luaK_self E e0 key =
     sbind (luaK_exp2anyreg E e0) (\<lambda>e.
     seq (freeexp e)
     (with_fs (\<lambda>f.
       seq (luaK_reserveregs 2)
       (sbind (luaK_exp2RK E key) (\<lambda>(r, k).
       seq (emit OP_SELF (freereg f) (info e) r)
       (seq (freeexp k) (sret (e\<lparr>info := freereg f, ek := VNONRELOC\<rparr>))))))))"

section \<open>Conditions\<close>

definition invertjump :: "expdesc \<Rightarrow> unit gen" where
  "invertjump e = sbind (getjumpcontrol (info e)) (\<lambda>c.
     change_code c (\<lambda>i. SETARG_A i (of_bool (GETARG_A i = 0))))"

definition drop_code :: "unit gen" where
  "drop_code = upd (\<lambda>f. f\<lparr>f_code := butlast (f_code f), f_lineinfo := butlast (f_lineinfo f)\<rparr>)"

definition jumponcond :: "cenv \<Rightarrow> expdesc \<Rightarrow> bool \<Rightarrow> int gen" where
  "jumponcond E e cond =
     (let test = sbind (discharge2anyreg E e) (\<lambda>e'.
        seq (freeexp e') (condjump OP_TESTSET NO_REG (info e') (of_bool cond)))
      in if ek e = VRELOCABLE then
           sbind (get_code (info e)) (\<lambda>ie.
             if GET_OPCODE ie = op_num OP_NOT then
               seq drop_code (condjump OP_TEST (GETARG_B ie) 0 (of_bool (\<not> cond)))
             else test)
         else test)"

definition luaK_goiftrue :: "cenv \<Rightarrow> expdesc \<Rightarrow> expdesc gen" where
  "luaK_goiftrue E e0 =
     sbind (luaK_dischargevars e0) (\<lambda>e.
     sbind (case ek e of
         VK \<Rightarrow> sret NO_JUMP | VKNUM \<Rightarrow> sret NO_JUMP | VTRUE \<Rightarrow> sret NO_JUMP
       | VFALSE \<Rightarrow> luaK_jump
       | VJMP \<Rightarrow> seq (invertjump e) (sret (info e))
       | _ \<Rightarrow> jumponcond E e False) (\<lambda>p.
     sbind (luaK_concat (ef e) p) (\<lambda>l.
     seq (luaK_patchtohere (et e)) (sret (e\<lparr>ef := l, et := NO_JUMP\<rparr>)))))"

definition luaK_goiffalse :: "cenv \<Rightarrow> expdesc \<Rightarrow> expdesc gen" where
  "luaK_goiffalse E e0 =
     sbind (luaK_dischargevars e0) (\<lambda>e.
     sbind (case ek e of
         VNIL \<Rightarrow> sret NO_JUMP | VFALSE \<Rightarrow> sret NO_JUMP
       | VTRUE \<Rightarrow> luaK_jump
       | VJMP \<Rightarrow> sret (info e)
       | _ \<Rightarrow> jumponcond E e True) (\<lambda>p.
     sbind (luaK_concat (et e) p) (\<lambda>l.
     seq (luaK_patchtohere (ef e)) (sret (e\<lparr>et := l, ef := NO_JUMP\<rparr>)))))"

definition not_reg :: "cenv \<Rightarrow> expdesc \<Rightarrow> expdesc gen" where
  "not_reg E e =
     sbind (discharge2anyreg E e) (\<lambda>e1.
     seq (freeexp e1)
     (sbind (luaK_codeABC OP_NOT 0 (info e1) 0) (\<lambda>p. sret (e1\<lparr>info := p, ek := VRELOCABLE\<rparr>))))"

definition codenot :: "cenv \<Rightarrow> expdesc \<Rightarrow> expdesc gen" where
  "codenot E e0 =
     sbind (luaK_dischargevars e0) (\<lambda>e.
     sbind (case ek e of
         VNIL \<Rightarrow> sret (e\<lparr>ek := VTRUE\<rparr>) | VFALSE \<Rightarrow> sret (e\<lparr>ek := VTRUE\<rparr>)
       | VK \<Rightarrow> sret (e\<lparr>ek := VFALSE\<rparr>) | VKNUM \<Rightarrow> sret (e\<lparr>ek := VFALSE\<rparr>) | VTRUE \<Rightarrow> sret (e\<lparr>ek := VFALSE\<rparr>)
       | VJMP \<Rightarrow> seq (invertjump e) (sret e)
       | VRELOCABLE \<Rightarrow> not_reg E e
       | VNONRELOC \<Rightarrow> not_reg E e
       | _ \<Rightarrow> sret e) (\<lambda>e1.
     let e2 = e1\<lparr>ef := et e1, et := ef e1\<rparr>
     in seq (removevalues (ef e2)) (seq (removevalues (et e2)) (sret e2))))"

definition luaK_indexed :: "cenv \<Rightarrow> expdesc \<Rightarrow> expdesc \<Rightarrow> expdesc gen" where
  "luaK_indexed E t k = sbind (luaK_exp2RK E k) (\<lambda>(r, _). sret (t\<lparr>aux := r, ek := VINDEXED\<rparr>))"

section \<open>Operators\<close>

datatype BinOpr =
    OPR_ADD | OPR_SUB | OPR_MUL | OPR_DIV | OPR_MOD | OPR_POW
  | OPR_BOR | OPR_BAND | OPR_BXOR | OPR_BLSHFT | OPR_BRSHFT
  | OPR_CONCAT | OPR_NE | OPR_EQ | OPR_LT | OPR_LE | OPR_GT | OPR_GE | OPR_AND | OPR_OR

text \<open>\<open>OPR_NOBINOPR\<close> and \<open>OPR_NOUNOPR\<close> are \<open>None\<close> where they can occur.\<close>

datatype UnOpr = OPR_BNOT | OPR_MINUS | OPR_NOT | OPR_LEN

text \<open>
  The value \<open>constfolding\<close> computes: \<open>Ok None\<close> when it does not try. The result of the bit
  operations is stored into a \<open>lua_Number\<close>. The case of \<open>OP_BNOT\<close> is commented out, so
  that it has the value of the default case, 0.
\<close>

definition fold_value :: "cenv \<Rightarrow> OpCode \<Rightarrow> lua_Number \<Rightarrow> lua_Number \<Rightarrow> lua_Number option result" where
  "fold_value E op v1 v2 =
     (case op of
        OP_ADD \<Rightarrow> Ok (Some (num_add v1 v2))
      | OP_SUB \<Rightarrow> Ok (Some (num_sub v1 v2))
      | OP_MUL \<Rightarrow> Ok (Some (num_mul v1 v2))
      | OP_DIV \<Rightarrow> Ok (if num_eq v2 (cast_num 0) then None else Some (num_div v1 v2))
      | OP_MOD \<Rightarrow> Ok (if num_eq v2 (cast_num 0) then None else Some (num_mod v1 v2))
      | OP_POW \<Rightarrow> Ok (Some (c_pow E v1 v2))
      | OP_UNM \<Rightarrow> Ok (Some (num_unm v1))
      | OP_LEN \<Rightarrow> Ok None
      | OP_BOR \<Rightarrow> rbind (bin_or v1 v2) (\<lambda>r. Ok (Some (cast_num r)))
      | OP_BAND \<Rightarrow> rbind (bin_and v1 v2) (\<lambda>r. Ok (Some (cast_num r)))
      | OP_BXOR \<Rightarrow> rbind (bin_xor v1 v2) (\<lambda>r. Ok (Some (cast_num r)))
      | OP_BRSHFT \<Rightarrow> rbind (bin_rshft v1 v2) (\<lambda>r. Ok (Some (cast_num r)))
      | OP_BLSHFT \<Rightarrow> rbind (bin_lshft v1 v2) (\<lambda>r. Ok (Some (cast_num r)))
      | _ \<Rightarrow> Ok (Some (cast_num 0)))"

definition constfolding :: "cenv \<Rightarrow> OpCode \<Rightarrow> expdesc \<Rightarrow> expdesc \<Rightarrow> expdesc option result" where
  "constfolding E op e1 e2 =
     (if \<not> isnumeral e1 \<or> \<not> isnumeral e2 then Ok None
      else rbind (fold_value E op (nval e1) (nval e2)) (\<lambda>r. Ok
        (case r of None \<Rightarrow> None | Some x \<Rightarrow> if num_isnan x then None else Some (e1\<lparr>nval := x\<rparr>))))"

definition codearith :: "cenv \<Rightarrow> OpCode \<Rightarrow> expdesc \<Rightarrow> expdesc \<Rightarrow> expdesc gen" where
  "codearith E op e1 e2 =
     sbind (lifted (constfolding E op e1 e2)) (\<lambda>folded. case folded of
       Some e \<Rightarrow> sret e
     | None \<Rightarrow>
       sbind (if op \<noteq> OP_UNM \<and> op \<noteq> OP_LEN \<and> op \<noteq> OP_BNOT then luaK_exp2RK E e2 else sret (0, e2)) (\<lambda>(o2, e2').
       sbind (luaK_exp2RK E e1) (\<lambda>(o1, e1').
       seq (if o2 < o1 then seq (freeexp e1') (freeexp e2') else seq (freeexp e2') (freeexp e1'))
       (sbind (luaK_codeABC op 0 o1 o2) (\<lambda>p. sret (e1'\<lparr>info := p, ek := VRELOCABLE\<rparr>))))))"

definition codecomp :: "cenv \<Rightarrow> OpCode \<Rightarrow> bool \<Rightarrow> expdesc \<Rightarrow> expdesc \<Rightarrow> expdesc gen" where
  "codecomp E op cond e1 e2 =
     sbind (luaK_exp2RK E e1) (\<lambda>(o1, e1').
     sbind (luaK_exp2RK E e2) (\<lambda>(o2, e2').
     seq (freeexp e2')
     (seq (freeexp e1')
     (sbind (if \<not> cond \<and> op \<noteq> OP_EQ then condjump op 1 o2 o1 else condjump op (of_bool cond) o1 o2) (\<lambda>j.
       sret (e1'\<lparr>info := j, ek := VJMP\<rparr>))))))"

definition zero_exp :: expdesc where
  "zero_exp = \<lparr>ek = VKNUM, info = 0, aux = 0, nval = cast_num 0, et = NO_JUMP, ef = NO_JUMP\<rparr>"

definition luaK_prefix :: "cenv \<Rightarrow> UnOpr \<Rightarrow> expdesc \<Rightarrow> expdesc gen" where
  "luaK_prefix E op e =
     (case op of
        OPR_BNOT \<Rightarrow> sbind (if ek e = VK then luaK_exp2anyreg E e else sret e) (\<lambda>e'. codearith E OP_BNOT e' zero_exp)
      | OPR_MINUS \<Rightarrow> sbind (if ek e = VK then luaK_exp2anyreg E e else sret e) (\<lambda>e'. codearith E OP_UNM e' zero_exp)
      | OPR_NOT \<Rightarrow> codenot E e
      | OPR_LEN \<Rightarrow> sbind (luaK_exp2anyreg E e) (\<lambda>e'. codearith E OP_LEN e' zero_exp))"

definition RK_exp :: "cenv \<Rightarrow> expdesc \<Rightarrow> expdesc gen" where
  "RK_exp E v = sbind (luaK_exp2RK E v) (\<lambda>(_, v'). sret v')"

definition luaK_infix :: "cenv \<Rightarrow> BinOpr \<Rightarrow> expdesc \<Rightarrow> expdesc gen" where
  "luaK_infix E op v =
     (if op = OPR_AND then luaK_goiftrue E v
      else if op = OPR_OR then luaK_goiffalse E v
      else if op = OPR_CONCAT then luaK_exp2nextreg E v
      else if op \<in> {OPR_ADD, OPR_SUB, OPR_MUL, OPR_DIV, OPR_MOD, OPR_POW} then
        if \<not> isnumeral v then RK_exp E v else sret v
      else RK_exp E v)"

definition codeconcat :: "cenv \<Rightarrow> expdesc \<Rightarrow> expdesc \<Rightarrow> expdesc gen" where
  "codeconcat E e1 e20 =
     sbind (luaK_exp2val E e20) (\<lambda>e2.
     sbind (if ek e2 = VRELOCABLE then sbind (get_code (info e2)) (\<lambda>i. sret (GET_OPCODE i = op_num OP_CONCAT))
            else sret False) (\<lambda>more.
       if more then
         seq (freeexp e1)
         (seq (change_code (info e2) (\<lambda>i. SETARG_B i (info e1)))
           (sret (e1\<lparr>ek := VRELOCABLE, info := info e2\<rparr>)))
       else sbind (luaK_exp2nextreg E e2) (codearith E OP_CONCAT e1)))"

definition luaK_posfix :: "cenv \<Rightarrow> BinOpr \<Rightarrow> expdesc \<Rightarrow> expdesc \<Rightarrow> expdesc gen" where
  "luaK_posfix E op e1 e2 =
     (case op of
        OPR_AND \<Rightarrow> sbind (luaK_dischargevars e2) (\<lambda>e. sbind (luaK_concat (ef e) (ef e1)) (\<lambda>l. sret (e\<lparr>ef := l\<rparr>)))
      | OPR_OR \<Rightarrow> sbind (luaK_dischargevars e2) (\<lambda>e. sbind (luaK_concat (et e) (et e1)) (\<lambda>l. sret (e\<lparr>et := l\<rparr>)))
      | OPR_CONCAT \<Rightarrow> codeconcat E e1 e2
      | OPR_ADD \<Rightarrow> codearith E OP_ADD e1 e2
      | OPR_SUB \<Rightarrow> codearith E OP_SUB e1 e2
      | OPR_MUL \<Rightarrow> codearith E OP_MUL e1 e2
      | OPR_DIV \<Rightarrow> codearith E OP_DIV e1 e2
      | OPR_MOD \<Rightarrow> codearith E OP_MOD e1 e2
      | OPR_POW \<Rightarrow> codearith E OP_POW e1 e2
      | OPR_BOR \<Rightarrow> codearith E OP_BOR e1 e2
      | OPR_BAND \<Rightarrow> codearith E OP_BAND e1 e2
      | OPR_BXOR \<Rightarrow> codearith E OP_BXOR e1 e2
      | OPR_BLSHFT \<Rightarrow> codearith E OP_BLSHFT e1 e2
      | OPR_BRSHFT \<Rightarrow> codearith E OP_BRSHFT e1 e2
      | OPR_EQ \<Rightarrow> codecomp E OP_EQ True e1 e2
      | OPR_NE \<Rightarrow> codecomp E OP_EQ False e1 e2
      | OPR_LT \<Rightarrow> codecomp E OP_LT True e1 e2
      | OPR_LE \<Rightarrow> codecomp E OP_LE True e1 e2
      | OPR_GT \<Rightarrow> codecomp E OP_LT False e1 e2
      | OPR_GE \<Rightarrow> codecomp E OP_LE False e1 e2)"

abbreviation fields_per_flush :: int where "fields_per_flush \<equiv> 50"

text \<open>\<open>nelems\<close> is at least 1, so that the division of C is \<open>div\<close>.\<close>

definition luaK_setlist :: "int \<Rightarrow> int \<Rightarrow> int \<Rightarrow> unit gen" where
  "luaK_setlist base nelems tostore =
     (let c = (nelems - 1) div fields_per_flush + 1; b = if tostore = LUA_MULTRET then 0 else tostore
      in seq (if c \<le> MAXARG_C then emit OP_SETLIST base b c
              else seq (emit OP_SETLIST base b 0)
                (sbind last_line (\<lambda>line. sbind (luaK_code (word_of_int c) line) (\<lambda>_. sret ()))))
           (upd (\<lambda>f. f\<lparr>freereg := base + 1\<rparr>)))"

end
