(* ===== verification/LuaParser.thy ===== *)
theory LuaParser
  imports LuaCode
begin

text \<open>
  The parser (\<^verbatim>\<open>lparser.c\<close>), with \<^verbatim>\<open>LUA_UGMEE\<close> and \<^verbatim>\<open>LUA_COMPAT_VARARG\<close>. The grammar is
  mutually recursive through \<open>subexpr\<close> and \<open>chunk\<close>, both of which count a level; the other
  functions have these two as arguments \<open>sub\<close> and \<open>chk\<close>, and \<open>subexpr\<close> and
  \<open>chunk\<close> at the end tie the knot, with the bound on levels as depth. Loops over tokens have as
  fuel the tokens the input can still give, as each turn takes one.
\<close>

section \<open>Tokens\<close>

abbreviation TK_AND :: int where "TK_AND \<equiv> 257"
abbreviation TK_BREAK :: int where "TK_BREAK \<equiv> 258"
abbreviation TK_DO :: int where "TK_DO \<equiv> 259"
abbreviation TK_ELSE :: int where "TK_ELSE \<equiv> 260"
abbreviation TK_ELSEIF :: int where "TK_ELSEIF \<equiv> 261"
abbreviation TK_END :: int where "TK_END \<equiv> 262"
abbreviation TK_FALSE :: int where "TK_FALSE \<equiv> 263"
abbreviation TK_FOR :: int where "TK_FOR \<equiv> 264"
abbreviation TK_FUNCTION :: int where "TK_FUNCTION \<equiv> 265"
abbreviation TK_IF :: int where "TK_IF \<equiv> 266"
abbreviation TK_IN :: int where "TK_IN \<equiv> 267"
abbreviation TK_LOCAL :: int where "TK_LOCAL \<equiv> 268"
abbreviation TK_NIL :: int where "TK_NIL \<equiv> 269"
abbreviation TK_NOT :: int where "TK_NOT \<equiv> 270"
abbreviation TK_OR :: int where "TK_OR \<equiv> 271"
abbreviation TK_REPEAT :: int where "TK_REPEAT \<equiv> 272"
abbreviation TK_RETURN :: int where "TK_RETURN \<equiv> 273"
abbreviation TK_THEN :: int where "TK_THEN \<equiv> 274"
abbreviation TK_TRUE :: int where "TK_TRUE \<equiv> 275"
abbreviation TK_UNTIL :: int where "TK_UNTIL \<equiv> 276"
abbreviation TK_WHILE :: int where "TK_WHILE \<equiv> 277"

abbreviation LUAI_MAXVARS :: int where "LUAI_MAXVARS \<equiv> 200"
abbreviation LUAI_MAXUPVALUES :: int where "LUAI_MAXUPVALUES \<equiv> 60"
abbreviation LUAI_MAXCCALLS :: nat where "LUAI_MAXCCALLS \<equiv> 200"
abbreviation SHRT_MAX :: int where "SHRT_MAX \<equiv> 32767"

definition hasmultret :: "expkind \<Rightarrow> bool" where
  "hasmultret k \<longleftrightarrow> k = VCALL \<or> k = VVARARG"

text \<open>The token, as the code reads it.\<close>

definition with_token :: "(int \<Rightarrow> 'a gen) \<Rightarrow> 'a gen" where
  "with_token c s = c (token (tk (lex s))) s"

definition with_line :: "(int \<Rightarrow> 'a gen) \<Rightarrow> 'a gen" where
  "with_line c s = c (linenumber (lex s)) s"

definition token_string :: "LexState \<Rightarrow> string" where
  "token_string l = (case seminfo (tk l) of SemStr s \<Rightarrow> s | _ \<Rightarrow> [])"

definition token_number :: "LexState \<Rightarrow> lua_Number" where
  "token_number l = (case seminfo (tk l) of SemNum r \<Rightarrow> r | _ \<Rightarrow> 0)"

definition next_token :: "unit gen" where
  "next_token = lexer luaX_next"

text \<open>A bound on the tokens still to come, the current one and the one looked ahead included.\<close>

definition tokens_left :: "LexState \<Rightarrow> nat" where
  "tokens_left l = mu l + of_bool (token (tk l) \<noteq> TK_EOS) + of_bool (token (ahead l) \<noteq> TK_EOS)"

definition with_fuel :: "(nat \<Rightarrow> 'a gen) \<Rightarrow> 'a gen" where
  "with_fuel c s = c (Suc (tokens_left (lex s))) s"

definition anchor_token :: "unit gen" where
  "anchor_token s =
     (if token (tk (lex s)) = TK_NAME \<or> token (tk (lex s)) = TK_STRING
      then sbind (lexer (luaX_newstring (token_string (lex s)))) (\<lambda>_. sret ()) s else Ok ((), s))"

definition error_expected :: "int \<Rightarrow> 'a gen" where
  "error_expected t = syntaxerror (LUA_QL (luaX_token2str t) @ '' expected'')"

definition limit_message :: "FuncState \<Rightarrow> int \<Rightarrow> string \<Rightarrow> string" where
  "limit_message f limit what =
     (if f_linedefined f = 0 then ''main function has more than '' @ decimal limit @ '' '' @ what
      else ''function at line '' @ decimal (f_linedefined f) @ '' has more than '' @ decimal limit @ '' '' @ what)"

definition errorlimit :: "FuncState \<Rightarrow> int \<Rightarrow> string \<Rightarrow> 'a lexer" where
  "errorlimit f limit what = luaX_lexerror (limit_message f limit what) 0"

definition checklimit :: "int \<Rightarrow> int \<Rightarrow> string \<Rightarrow> unit gen" where
  "checklimit v limit what = with_fs (\<lambda>f. if limit < v then lexer (errorlimit f limit what) else sret ())"

definition testnext :: "int \<Rightarrow> bool gen" where
  "testnext c = with_token (\<lambda>t. if t = c then seq next_token (sret True) else sret False)"

definition check :: "int \<Rightarrow> unit gen" where
  "check c = with_token (\<lambda>t. if t \<noteq> c then error_expected c else sret ())"

definition checknext :: "int \<Rightarrow> unit gen" where
  "checknext c = seq (check c) next_token"

definition check_condition :: "bool \<Rightarrow> string \<Rightarrow> unit gen" where
  "check_condition c msg = (if c then sret () else syntaxerror msg)"

definition check_match :: "int \<Rightarrow> int \<Rightarrow> int \<Rightarrow> unit gen" where
  "check_match what who where_line =
     sbind (testnext what) (\<lambda>b.
       if b then sret ()
       else with_line (\<lambda>line.
         if where_line = line then error_expected what
         else syntaxerror (LUA_QL (luaX_token2str what) @ '' expected (to close '' @ LUA_QL (luaX_token2str who)
           @ '' at line '' @ decimal where_line @ '')'')))"

definition str_checkname :: "string gen" where
  "str_checkname = seq (check TK_NAME) (\<lambda>s. (seq next_token (sret (token_string (lex s)))) s)"

definition init_exp :: "expkind \<Rightarrow> int \<Rightarrow> expdesc" where
  "init_exp k i = \<lparr>ek = k, info = i, aux = 0, nval = 0, et = NO_JUMP, ef = NO_JUMP\<rparr>"

definition codestring :: "cenv \<Rightarrow> string \<Rightarrow> expdesc gen" where
  "codestring E s = sbind (luaK_stringK E s) (\<lambda>i. sret (init_exp VK i))"

definition checkname :: "cenv \<Rightarrow> expdesc gen" where
  "checkname E = sbind str_checkname (codestring E)"

section \<open>Variables\<close>

definition registerlocalvar :: "string \<Rightarrow> int gen" where
  "registerlocalvar name = with_fs (\<lambda>f.
     seq (growvector (int (length (f_locvars f))) SHRT_MAX ''too many local variables'')
     (seq (upd (\<lambda>f. f\<lparr>f_locvars := f_locvars f @ [\<lparr>varname = Some name, startpc = 0, endpc = 0\<rparr>]\<rparr>))
       (sret (int (length (f_locvars f))))))"

definition set_actvar :: "int \<Rightarrow> int \<Rightarrow> unit gen" where
  "set_actvar i r = with_fs (\<lambda>f.
     if i < int (length (actvar f)) then upd (\<lambda>f. f\<lparr>actvar := (actvar f)[nat i := r mod 65536]\<rparr>) else lifted Undef)"

definition new_localvar :: "string \<Rightarrow> int \<Rightarrow> unit gen" where
  "new_localvar name n = with_fs (\<lambda>f.
     seq (checklimit (uint (nactvar f) + n + 1) LUAI_MAXVARS ''local variables'')
     (sbind (registerlocalvar name) (set_actvar (uint (nactvar f) + n))))"

definition new_localvarliteral :: "string \<Rightarrow> int \<Rightarrow> unit gen" where
  "new_localvarliteral v n = sbind (lexer (luaX_newstring v)) (\<lambda>name. new_localvar name n)"

text \<open>\<open>getlocvar\<close>: the index of a variable in \<open>locvars\<close>.\<close>

definition locvar_index :: "FuncState \<Rightarrow> int \<Rightarrow> nat result" where
  "locvar_index f i = rbind (fetch (actvar f) i) (\<lambda>r.
     if r < int (length (f_locvars f)) then Ok (nat r) else Undef)"

definition change_locvar :: "int \<Rightarrow> (LocVar \<Rightarrow> LocVar) \<Rightarrow> unit gen" where
  "change_locvar i g = with_fs (\<lambda>f. sbind (lifted (locvar_index f i)) (\<lambda>r.
     upd (\<lambda>f. f\<lparr>f_locvars := (f_locvars f)[r := g (f_locvars f ! r)]\<rparr>)))"

primrec start_loop :: "nat \<Rightarrow> unit gen" where
  "start_loop 0 = sret ()"
| "start_loop (Suc n) =
     seq (with_fs (\<lambda>f. change_locvar (uint (nactvar f) - int (Suc n)) (\<lambda>v. v\<lparr>startpc := pc f\<rparr>))) (start_loop n)"

definition adjustlocalvars :: "nat \<Rightarrow> unit gen" where
  "adjustlocalvars nvars =
     seq (upd (\<lambda>f. f\<lparr>nactvar := cast_byte (uint (nactvar f) + int nvars)\<rparr>)) (start_loop nvars)"

primrec end_loop :: "nat \<Rightarrow> unit gen" where
  "end_loop 0 = sret ()"
| "end_loop (Suc n) =
     seq (upd (\<lambda>f. f\<lparr>nactvar := nactvar f - 1\<rparr>))
     (seq (with_fs (\<lambda>f. change_locvar (uint (nactvar f)) (\<lambda>v. v\<lparr>endpc := pc f\<rparr>))) (end_loop n))"

definition removevars :: "int \<Rightarrow> unit gen" where
  "removevars tolevel = with_fs (\<lambda>f. end_loop (nat (uint (nactvar f) - tolevel)))"

fun upvalue_index :: "(expkind \<times> byte) list \<Rightarrow> expkind \<Rightarrow> int \<Rightarrow> nat option" where
  "upvalue_index [] k i = None"
| "upvalue_index ((k', i') # us) k i =
     (if k' = k \<and> uint i' = i then Some 0 else map_option Suc (upvalue_index us k i))"

definition indexupvalue :: "LexState \<Rightarrow> FuncState \<Rightarrow> string \<Rightarrow> expkind \<Rightarrow> int \<Rightarrow> (int \<times> FuncState) result" where
  "indexupvalue l f name k i =
     (case upvalue_index (fupvals f) k i of
        Some n \<Rightarrow> Ok (int n, f)
      | None \<Rightarrow>
        if LUAI_MAXUPVALUES < int (length (fupvals f)) + 1 then
          rbind (errorlimit f LUAI_MAXUPVALUES ''upvalues'' l) (\<lambda>(u, _). Ok u)
        else Ok (int (length (fupvals f)),
          f\<lparr>f_upvalues := f_upvalues f @ [name], fupvals := fupvals f @ [(k, cast_byte i)]\<rparr>))"

fun search_loop :: "FuncState \<Rightarrow> string \<Rightarrow> nat \<Rightarrow> int result" where
  "search_loop f n 0 = Ok (- 1)"
| "search_loop f n (Suc i) =
     rbind (locvar_index f (int i)) (\<lambda>r.
       if varname (f_locvars f ! r) = Some n then Ok (int i) else search_loop f n i)"

definition searchvar :: "FuncState \<Rightarrow> string \<Rightarrow> int result" where
  "searchvar f n = search_loop f n (unat (nactvar f))"

fun mark_blocks :: "BlockCnt list \<Rightarrow> int \<Rightarrow> BlockCnt list" where
  "mark_blocks [] lv = []"
| "mark_blocks (b # bs) lv =
     (if lv < bl_nactvar b then b # mark_blocks bs lv else b\<lparr>bl_upval := True\<rparr> # bs)"

definition markupval :: "FuncState \<Rightarrow> int \<Rightarrow> FuncState" where
  "markupval f lv = f\<lparr>bl := mark_blocks (bl f) lv\<rparr>"

text \<open>The functions from the current one outwards, the kind and index of the variable.\<close>

fun singlevaraux :: "LexState \<Rightarrow> FuncState list \<Rightarrow> string \<Rightarrow> bool \<Rightarrow> ((expkind \<times> int) \<times> FuncState list) result" where
  "singlevaraux l [] n base = Ok ((VGLOBAL, NO_REG), [])"
| "singlevaraux l (f # gs) n base =
     rbind (searchvar f n) (\<lambda>v.
       if 0 \<le> v then Ok ((VLOCAL, v), (if base then f else markupval f v) # gs)
       else rbind (singlevaraux l gs n False) (\<lambda>((k, i), gs').
         if k = VGLOBAL then Ok ((VGLOBAL, i), f # gs')
         else rbind (indexupvalue l f n k i) (\<lambda>(j, f'). Ok ((VUPVAL, j), f' # gs'))))"

definition find_var :: "string \<Rightarrow> (expkind \<times> int) gen" where
  "find_var n s = rbind (singlevaraux (lex s) (fs s # outer s) n True) (\<lambda>(v, gs). Ok (v, s\<lparr>fs := hd gs, outer := tl gs\<rparr>))"

definition singlevar :: "cenv \<Rightarrow> expdesc gen" where
  "singlevar E =
     sbind str_checkname (\<lambda>name.
     sbind (find_var name) (\<lambda>(k, i).
       if k = VGLOBAL then sbind (luaK_stringK E name) (\<lambda>c. sret (init_exp VGLOBAL c))
       else sret (init_exp k i)))"

definition adjust_assign :: "cenv \<Rightarrow> int \<Rightarrow> int \<Rightarrow> expdesc \<Rightarrow> unit gen" where
  "adjust_assign E nvars nexps e =
     (if hasmultret (ek e) then
        let extra = max 0 (nvars - nexps + 1)
        in seq (luaK_setreturns e extra) (if 1 < extra then luaK_reserveregs (extra - 1) else sret ())
      else let extra = nvars - nexps
        in seq (if ek e \<noteq> VVOID then sbind (luaK_exp2nextreg E e) (\<lambda>_. sret ()) else sret ())
          (if 0 < extra then with_fs (\<lambda>f. seq (luaK_reserveregs extra) (luaK_nil (freereg f) extra)) else sret ()))"

section \<open>Levels, blocks and functions\<close>

definition enterlevel :: "unit gen" where
  "enterlevel s =
     (let s' = s\<lparr>nCcalls := Suc (nCcalls s)\<rparr>
      in if LUAI_MAXCCALLS < nCcalls s' then lexer (luaX_lexerror ''chunk has too many syntax levels'' 0) s'
         else Ok ((), s'))"

definition leavelevel :: "unit gen" where
  "leavelevel s = Ok ((), s\<lparr>nCcalls := nCcalls s - 1\<rparr>)"

definition enterblock :: "bool \<Rightarrow> unit gen" where
  "enterblock breakable = upd (\<lambda>f. f\<lparr>bl :=
     \<lparr>breaklist = NO_JUMP, bl_nactvar = uint (nactvar f), bl_upval = False, isbreakable = breakable\<rparr> # bl f\<rparr>)"

definition leaveblock :: "unit gen" where
  "leaveblock = with_fs (\<lambda>f. case bl f of
       [] \<Rightarrow> lifted Undef
     | b # bs \<Rightarrow>
         seq (upd (\<lambda>f. f\<lparr>bl := bs\<rparr>))
         (seq (removevars (bl_nactvar b))
         (seq (if bl_upval b then emit OP_CLOSE (bl_nactvar b) 0 0 else sret ())
         (seq (upd (\<lambda>f. f\<lparr>freereg := uint (nactvar f)\<rparr>))
           (luaK_patchtohere (breaklist b))))))"

definition make_proto :: "FuncState \<Rightarrow> string \<Rightarrow> Proto" where
  "make_proto f nm =
     Proto (f_k f) (f_code f) (f_p f) (f_lineinfo f) (f_locvars f) (map Some (f_upvalues f)) (Some nm)
       (f_linedefined f) (f_lastlinedefined f) (of_nat (length (fupvals f))) (f_numparams f) (f_is_vararg f)
       (f_maxstacksize f)"

primrec capture_loop :: "(expkind \<times> byte) list \<Rightarrow> unit gen" where
  "capture_loop [] = sret ()"
| "capture_loop (u # us) =
     seq (emit (if fst u = VLOCAL then OP_MOVE else OP_GETUPVAL) 0 (uint (snd u)) 0) (capture_loop us)"

definition pushclosure :: "FuncState \<Rightarrow> expdesc gen" where
  "pushclosure func s = (with_fs (\<lambda>f.
     seq (growvector (int (length (f_p f))) MAXARG_Bx ''constant table overflow'')
     (seq (upd (\<lambda>f. f\<lparr>f_p := f_p f @ [make_proto func (lex_source (lex s))]\<rparr>))
     (sbind (luaK_codeABx OP_CLOSURE 0 (int (length (f_p f)))) (\<lambda>p.
     seq (capture_loop (fupvals func)) (sret (init_exp VRELOCABLE p)))))) s)"

definition new_func :: "Table \<Rightarrow> ptr \<Rightarrow> FuncState" where
  "new_func t at =
     \<lparr>f_k = [], f_code = [], f_p = [], f_lineinfo = [], f_locvars = [], f_upvalues = [],
      f_linedefined = 0, f_lastlinedefined = 0, f_numparams = 0, f_is_vararg = 0, f_maxstacksize = 2,
      h = t, h_at = at, h_strings = [], bl = [], lasttarget = - 1, jpc = NO_JUMP, freereg = 0,
      nactvar = 0, fupvals = [], actvar = replicate (nat LUAI_MAXVARS) 0\<rparr>"

definition open_func :: "cenv \<Rightarrow> unit gen" where
  "open_func E s = rbind (luaH_new 0 0) (\<lambda>t.
     Ok ((), s\<lparr>outer := (fs s)\<lparr>h_strings := fs_h (lex s)\<rparr> # outer s,
       fs := new_func t (table_at E (Suc (length (outer s)))), lex := (lex s)\<lparr>fs_h := []\<rparr>\<rparr>))"

text \<open>\<open>close_func\<close> returns the function it closes; around the main one there is none.\<close>

definition close_func :: "FuncState gen" where
  "close_func =
     seq (removevars 0)
     (seq (luaK_ret 0 0)
     (with_fs (\<lambda>f s. case outer s of
         [] \<Rightarrow> Ok (f, s)
       | g # gs \<Rightarrow> seq anchor_token (sret f) (s\<lparr>fs := g, outer := gs, lex := (lex s)\<lparr>fs_h := h_strings g\<rparr>\<rparr>))))"

section \<open>Expressions\<close>

abbreviation chr_tok :: "char \<Rightarrow> int" where "chr_tok c \<equiv> code c"

text \<open>The grammar has \<open>sub\<close> for \<open>subexpr\<close>, with its limit, and \<open>chk\<close> for \<open>chunk\<close>.\<close>

type_synonym sub_rule = "nat \<Rightarrow> (BinOpr option \<times> expdesc) gen"

definition expr :: "sub_rule \<Rightarrow> expdesc gen" where
  "expr sub = sbind (sub 0) (\<lambda>(_, e). sret e)"

definition field :: "cenv \<Rightarrow> expdesc \<Rightarrow> expdesc gen" where
  "field E v0 =
     sbind (luaK_exp2anyreg E v0) (\<lambda>v.
     seq next_token
     (sbind (checkname E) (luaK_indexed E v)))"

definition yindex :: "cenv \<Rightarrow> sub_rule \<Rightarrow> expdesc gen" where
  "yindex E sub =
     seq next_token
     (sbind (expr sub) (\<lambda>v.
     sbind (luaK_exp2val E v) (\<lambda>v'.
     seq (checknext (chr_tok (CHR '']''))) (sret v'))))"

text \<open>\<open>cc_t\<close> is the register of the table, the only part of its descriptor that is read.\<close>

record ConsControl =
  cc_v :: expdesc
  cc_t :: int
  nh :: int
  na :: int
  tostore :: int

definition recfield :: "cenv \<Rightarrow> sub_rule \<Rightarrow> ConsControl \<Rightarrow> ConsControl gen" where
  "recfield E sub cc = with_fs (\<lambda>f0.
     sbind (with_token (\<lambda>t.
         if t = TK_NAME then seq (checklimit (nh cc) MAX_INT ''items in a constructor'') (checkname E)
         else yindex E sub)) (\<lambda>key.
     seq (checknext (chr_tok (CHR ''='')))
     (sbind (luaK_exp2RK E key) (\<lambda>(rkkey, _).
     sbind (expr sub) (\<lambda>val.
     sbind (luaK_exp2RK E val) (\<lambda>(rk, _).
     seq (emit OP_SETTABLE (cc_t cc) rkkey rk)
     (seq (upd (\<lambda>f. f\<lparr>freereg := freereg f0\<rparr>))
       (sret (cc\<lparr>nh := nh cc + 1\<rparr>)))))))))"

definition closelistfield :: "cenv \<Rightarrow> ConsControl \<Rightarrow> ConsControl gen" where
  "closelistfield E cc =
     (if ek (cc_v cc) = VVOID then sret cc
      else sbind (luaK_exp2nextreg E (cc_v cc)) (\<lambda>v.
        let cc' = cc\<lparr>cc_v := v\<lparr>ek := VVOID\<rparr>\<rparr>
        in if tostore cc' = fields_per_flush then
             seq (luaK_setlist (cc_t cc') (na cc') (tostore cc')) (sret (cc'\<lparr>tostore := 0\<rparr>))
           else sret cc'))"

definition lastlistfield :: "cenv \<Rightarrow> ConsControl \<Rightarrow> ConsControl gen" where
  "lastlistfield E cc =
     (if tostore cc = 0 then sret cc
      else if hasmultret (ek (cc_v cc)) then
        seq (luaK_setreturns (cc_v cc) LUA_MULTRET)
        (seq (luaK_setlist (cc_t cc) (na cc) LUA_MULTRET) (sret (cc\<lparr>na := na cc - 1\<rparr>)))
      else
        sbind (if ek (cc_v cc) \<noteq> VVOID then luaK_exp2nextreg E (cc_v cc) else sret (cc_v cc)) (\<lambda>v.
        seq (luaK_setlist (cc_t cc) (na cc) (tostore cc)) (sret (cc\<lparr>cc_v := v\<rparr>))))"

definition listfield :: "sub_rule \<Rightarrow> ConsControl \<Rightarrow> ConsControl gen" where
  "listfield sub cc =
     sbind (expr sub) (\<lambda>v.
     seq (checklimit (na cc) MAX_INT ''items in a constructor'')
       (sret (cc\<lparr>cc_v := v, na := na cc + 1, tostore := tostore cc + 1\<rparr>)))"

definition cons_item :: "cenv \<Rightarrow> sub_rule \<Rightarrow> ConsControl \<Rightarrow> ConsControl gen" where
  "cons_item E sub cc = with_token (\<lambda>t.
     if t = TK_NAME then
       seq (lexer luaX_lookahead) (\<lambda>s.
         (if token (ahead (lex s)) \<noteq> chr_tok (CHR ''='') then listfield sub cc else recfield E sub cc) s)
     else if t = chr_tok (CHR ''['') then recfield E sub cc
     else listfield sub cc)"

fun cons_loop :: "cenv \<Rightarrow> sub_rule \<Rightarrow> nat \<Rightarrow> ConsControl \<Rightarrow> ConsControl gen" where
  "cons_loop E sub 0 cc = lifted Diverge"
| "cons_loop E sub (Suc n) cc = with_token (\<lambda>t.
     if t = chr_tok (CHR ''}'') then sret cc
     else
       sbind (closelistfield E cc) (\<lambda>cc1.
       sbind (cons_item E sub cc1) (\<lambda>cc2.
       sbind (testnext (chr_tok (CHR '',''))) (\<lambda>b1.
       sbind (if b1 then sret True else testnext (chr_tok (CHR '';''))) (\<lambda>b.
         if b then cons_loop E sub n cc2 else sret cc2)))))"

definition constructor :: "cenv \<Rightarrow> sub_rule \<Rightarrow> expdesc gen" where
  "constructor E sub = with_line (\<lambda>line.
     sbind (luaK_codeABC OP_NEWTABLE 0 0 0) (\<lambda>p.
     sbind (luaK_exp2nextreg E (init_exp VRELOCABLE p)) (\<lambda>t.
     seq (checknext (chr_tok (CHR ''{'')))
     (sbind (with_fuel (\<lambda>n. cons_loop E sub n \<lparr>cc_v = init_exp VVOID 0, cc_t = info t, nh = 0, na = 0, tostore = 0\<rparr>)) (\<lambda>cc.
     seq (check_match (chr_tok (CHR ''}'')) (chr_tok (CHR ''{'')) line)
     (sbind (lastlistfield E cc) (\<lambda>cc'.
     seq (change_code p (\<lambda>i. SETARG_B i (luaO_int2fb (word_of_int (na cc')))))
     (seq (change_code p (\<lambda>i. SETARG_C i (luaO_int2fb (word_of_int (nh cc')))))
       (sret t)))))))))"

text \<open>The parameters: their number and whether \<open>...\<close> ended the list.\<close>

fun parlist_loop :: "nat \<Rightarrow> nat \<Rightarrow> nat gen" where
  "parlist_loop 0 nparams = lifted Diverge"
| "parlist_loop (Suc n) nparams = with_token (\<lambda>t.
     if t = TK_NAME then
       sbind str_checkname (\<lambda>name.
       seq (new_localvar name (int nparams))
       (sbind (testnext (chr_tok (CHR '',''))) (\<lambda>b. if b then parlist_loop n (Suc nparams) else sret (Suc nparams))))
     else if t = TK_DOTS then
       seq next_token
       (seq (new_localvarliteral ''arg'' (int nparams))
       (seq (upd (\<lambda>f. f\<lparr>f_is_vararg := VARARG_HASARG OR VARARG_NEEDSARG OR VARARG_ISVARARG\<rparr>))
         (sret (Suc nparams))))
     else syntaxerror (''<name> or '' @ LUA_QL ''...'' @ '' expected''))"

definition parlist :: "unit gen" where
  "parlist =
     seq (upd (\<lambda>f. f\<lparr>f_is_vararg := 0\<rparr>))
     (sbind (with_token (\<lambda>t. if t \<noteq> chr_tok (CHR '')'') then with_fuel (\<lambda>n. parlist_loop n 0) else sret 0)) (\<lambda>nparams.
     seq (adjustlocalvars nparams)
     (seq (upd (\<lambda>f. f\<lparr>f_numparams := nactvar f - (f_is_vararg f AND VARARG_HASARG)\<rparr>))
       (with_fs (\<lambda>f. luaK_reserveregs (uint (nactvar f)))))))"

definition func_body :: "cenv \<Rightarrow> unit gen \<Rightarrow> bool \<Rightarrow> int \<Rightarrow> expdesc gen" where
  "func_body E chk needself line =
     seq (open_func E)
     (seq (upd (\<lambda>f. f\<lparr>f_linedefined := line\<rparr>))
     (seq (checknext (chr_tok (CHR ''('')))
     (seq (if needself then seq (new_localvarliteral ''self'' 0) (adjustlocalvars 1) else sret ())
     (seq parlist
     (seq (checknext (chr_tok (CHR '')'')))
     (seq chk
     (seq (with_line (\<lambda>l. upd (\<lambda>f. f\<lparr>f_lastlinedefined := l\<rparr>)))
     (seq (check_match TK_END TK_FUNCTION line)
       (sbind close_func pushclosure)))))))))"

fun explist_loop :: "cenv \<Rightarrow> sub_rule \<Rightarrow> nat \<Rightarrow> nat \<Rightarrow> expdesc \<Rightarrow> (nat \<times> expdesc) gen" where
  "explist_loop E sub 0 k v = lifted Diverge"
| "explist_loop E sub (Suc n) k v =
     sbind (testnext (chr_tok (CHR '',''))) (\<lambda>b.
       if b then sbind (luaK_exp2nextreg E v) (\<lambda>_. sbind (expr sub) (explist_loop E sub n (Suc k)))
       else sret (k, v))"

definition explist1 :: "cenv \<Rightarrow> sub_rule \<Rightarrow> (nat \<times> expdesc) gen" where
  "explist1 E sub = sbind (expr sub) (\<lambda>v. with_fuel (\<lambda>n. explist_loop E sub n 1 v))"

text \<open>The arguments; \<open>VVOID\<close> when there are none.\<close>

definition call_args :: "cenv \<Rightarrow> sub_rule \<Rightarrow> int \<Rightarrow> expdesc gen" where
  "call_args E sub line = with_token (\<lambda>t.
     if t = chr_tok (CHR ''('') then
       seq (\<lambda>s. (if line \<noteq> lastline (lex s) then syntaxerror ''ambiguous syntax (function call x new statement)''
                 else sret ()) s)
       (seq next_token
       (sbind (with_token (\<lambda>t'.
           if t' = chr_tok (CHR '')'') then sret (init_exp VVOID 0)
           else sbind (explist1 E sub) (\<lambda>(_, args). seq (luaK_setreturns args LUA_MULTRET) (sret args)))) (\<lambda>args.
       seq (check_match (chr_tok (CHR '')'')) (chr_tok (CHR ''('')) line) (sret args))))
     else if t = chr_tok (CHR ''{'') then constructor E sub
     else if t = TK_STRING then
       sbind (\<lambda>s. codestring E (token_string (lex s)) s) (\<lambda>args. seq next_token (sret args))
     else syntaxerror ''function arguments expected'')"

definition funcargs :: "cenv \<Rightarrow> sub_rule \<Rightarrow> expdesc \<Rightarrow> expdesc gen" where
  "funcargs E sub f0 = with_line (\<lambda>line.
     sbind (call_args E sub line) (\<lambda>args.
     let base = info f0
     in sbind (if hasmultret (ek args) then sret LUA_MULTRET
               else seq (if ek args \<noteq> VVOID then sbind (luaK_exp2nextreg E args) (\<lambda>_. sret ()) else sret ())
                 (with_fs (\<lambda>f. sret (freereg f - (base + 1))))) (\<lambda>nparams.
        sbind (luaK_codeABC OP_CALL base (nparams + 1) 2) (\<lambda>p.
        seq (luaK_fixline line)
        (seq (upd (\<lambda>f. f\<lparr>freereg := base + 1\<rparr>)) (sret (init_exp VCALL p)))))))"

definition prefixexp :: "cenv \<Rightarrow> sub_rule \<Rightarrow> expdesc gen" where
  "prefixexp E sub = with_token (\<lambda>t.
     if t = chr_tok (CHR ''('') then
       with_line (\<lambda>line.
       seq next_token
       (sbind (expr sub) (\<lambda>v.
       seq (check_match (chr_tok (CHR '')'')) (chr_tok (CHR ''('')) line) (luaK_dischargevars v))))
     else if t = TK_NAME then singlevar E
     else syntaxerror ''unexpected symbol'')"

fun primary_loop :: "cenv \<Rightarrow> sub_rule \<Rightarrow> nat \<Rightarrow> expdesc \<Rightarrow> expdesc gen" where
  "primary_loop E sub 0 v = lifted Diverge"
| "primary_loop E sub (Suc n) v = with_token (\<lambda>t.
     if t = chr_tok (CHR ''.'') then sbind (field E v) (primary_loop E sub n)
     else if t = chr_tok (CHR ''['') then
       sbind (luaK_exp2anyreg E v) (\<lambda>v'.
       sbind (yindex E sub) (\<lambda>key.
       sbind (luaK_indexed E v' key) (primary_loop E sub n)))
     else if t = chr_tok (CHR '':'') then
       seq next_token
       (sbind (checkname E) (\<lambda>key.
       sbind (luaK_self E v key) (\<lambda>v'.
       sbind (funcargs E sub v') (primary_loop E sub n))))
     else if t = chr_tok (CHR ''('') \<or> t = TK_STRING \<or> t = chr_tok (CHR ''{'') then
       sbind (luaK_exp2nextreg E v) (\<lambda>v'.
       sbind (funcargs E sub v') (primary_loop E sub n))
     else sret v)"

definition primaryexp :: "cenv \<Rightarrow> sub_rule \<Rightarrow> expdesc gen" where
  "primaryexp E sub = sbind (prefixexp E sub) (\<lambda>v. with_fuel (\<lambda>n. primary_loop E sub n v))"

definition vararg_exp :: "expdesc gen" where
  "vararg_exp = with_fs (\<lambda>f.
     seq (check_condition (f_is_vararg f \<noteq> 0) (''cannot use '' @ LUA_QL ''...'' @ '' outside a vararg function''))
     (seq (upd (\<lambda>f. f\<lparr>f_is_vararg := f_is_vararg f AND NOT VARARG_NEEDSARG\<rparr>))
     (sbind (luaK_codeABC OP_VARARG 0 1 0) (\<lambda>p. sret (init_exp VVARARG p)))))"

definition simpleexp :: "cenv \<Rightarrow> sub_rule \<Rightarrow> unit gen \<Rightarrow> expdesc gen" where
  "simpleexp E sub chk = with_token (\<lambda>t.
     let one = (\<lambda>m. sbind m (\<lambda>v. seq next_token (sret v)))
     in if t = TK_NUMBER then one (\<lambda>s. sret ((init_exp VKNUM 0)\<lparr>nval := token_number (lex s)\<rparr>) s)
        else if t = TK_STRING then one (\<lambda>s. codestring E (token_string (lex s)) s)
        else if t = TK_NIL then one (sret (init_exp VNIL 0))
        else if t = TK_TRUE then one (sret (init_exp VTRUE 0))
        else if t = TK_FALSE then one (sret (init_exp VFALSE 0))
        else if t = TK_DOTS then one vararg_exp
        else if t = chr_tok (CHR ''{'') then constructor E sub
        else if t = TK_FUNCTION then seq next_token (with_line (func_body E chk False))
        else primaryexp E sub)"

definition getunopr :: "int \<Rightarrow> UnOpr option" where
  "getunopr t =
     (if t = TK_NOT then Some OPR_NOT
      else if t = chr_tok (CHR ''-'') then Some OPR_MINUS
      else if t = chr_tok (CHR ''#'') then Some OPR_LEN
      else if t = chr_tok (CHR ''!'') then Some OPR_BNOT
      else None)"

definition getbinopr :: "int \<Rightarrow> BinOpr option" where
  "getbinopr t = map_of
     [(chr_tok (CHR ''+''), OPR_ADD), (chr_tok (CHR ''-''), OPR_SUB), (chr_tok (CHR ''*''), OPR_MUL),
      (chr_tok (CHR ''/''), OPR_DIV), (chr_tok (CHR ''%''), OPR_MOD), (chr_tok (CHR ''^''), OPR_POW),
      (chr_tok (CHR ''|''), OPR_BOR), (chr_tok (CHR ''&''), OPR_BAND), (TK_XOR, OPR_BXOR),
      (TK_LSHFT, OPR_BLSHFT), (TK_RSHFT, OPR_BRSHFT), (TK_CONCAT, OPR_CONCAT), (TK_NE, OPR_NE),
      (TK_EQ, OPR_EQ), (chr_tok (CHR ''<''), OPR_LT), (TK_LE, OPR_LE), (chr_tok (CHR ''>''), OPR_GT),
      (TK_GE, OPR_GE), (TK_AND, OPR_AND), (TK_OR, OPR_OR)] t"

text \<open>The table of the left and right priorities, in the order the source writes it.\<close>

definition priority :: "(nat \<times> nat) list" where
  "priority =
    [(6, 6), (6, 6), (7, 7), (7, 7), (7, 7),
     (6, 6), (6, 6), (6, 6), (7, 7), (7, 7),
     (10, 9), (5, 4),
     (3, 3), (3, 3),
     (3, 3), (3, 3), (3, 3), (3, 3),
     (2, 2), (1, 1)]"

fun binopr_num :: "BinOpr \<Rightarrow> nat" where
  "binopr_num OPR_ADD = 0" | "binopr_num OPR_SUB = 1" | "binopr_num OPR_MUL = 2" | "binopr_num OPR_DIV = 3"
| "binopr_num OPR_MOD = 4" | "binopr_num OPR_POW = 5" | "binopr_num OPR_BOR = 6" | "binopr_num OPR_BAND = 7"
| "binopr_num OPR_BXOR = 8" | "binopr_num OPR_BLSHFT = 9" | "binopr_num OPR_BRSHFT = 10"
| "binopr_num OPR_CONCAT = 11" | "binopr_num OPR_NE = 12" | "binopr_num OPR_EQ = 13" | "binopr_num OPR_LT = 14"
| "binopr_num OPR_LE = 15" | "binopr_num OPR_GT = 16" | "binopr_num OPR_GE = 17" | "binopr_num OPR_AND = 18"
| "binopr_num OPR_OR = 19"

abbreviation left_priority :: "BinOpr \<Rightarrow> nat" where
  "left_priority op \<equiv> fst (priority ! binopr_num op)"

abbreviation right_priority :: "BinOpr \<Rightarrow> nat" where
  "right_priority op \<equiv> snd (priority ! binopr_num op)"

abbreviation UNARY_PRIORITY :: nat where "UNARY_PRIORITY \<equiv> 8"

fun binary_loop :: "cenv \<Rightarrow> sub_rule \<Rightarrow> nat \<Rightarrow> nat \<Rightarrow> BinOpr option \<Rightarrow> expdesc \<Rightarrow> (BinOpr option \<times> expdesc) gen" where
  "binary_loop E sub limit 0 op v = lifted Diverge"
| "binary_loop E sub limit (Suc n) op v =
     (case op of
        Some b \<Rightarrow>
          if limit < left_priority b then
            seq next_token
            (sbind (luaK_infix E b v) (\<lambda>v1.
            sbind (sub (right_priority b)) (\<lambda>(nextop, v2).
            sbind (luaK_posfix E b v1 v2) (binary_loop E sub limit n nextop))))
          else sret (op, v)
      | None \<Rightarrow> sret (op, v))"

definition subexpr_with :: "cenv \<Rightarrow> sub_rule \<Rightarrow> unit gen \<Rightarrow> sub_rule" where
  "subexpr_with E sub chk limit =
     seq enterlevel
     (sbind (with_token (\<lambda>t. case getunopr t of
         Some uop \<Rightarrow> seq next_token (sbind (sub UNARY_PRIORITY) (\<lambda>(_, v). luaK_prefix E uop v))
       | None \<Rightarrow> simpleexp E sub chk)) (\<lambda>v.
     sbind (with_token (\<lambda>t. with_fuel (\<lambda>n. binary_loop E sub limit n (getbinopr t) v))) (\<lambda>r.
     seq leavelevel (sret r))))"

section \<open>Statements\<close>

definition block_follow :: "int \<Rightarrow> bool" where
  "block_follow t \<longleftrightarrow> t \<in> {TK_ELSE, TK_ELSEIF, TK_END, TK_UNTIL, TK_EOS}"

definition block :: "unit gen \<Rightarrow> unit gen" where
  "block chk = seq (enterblock False) (seq chk leaveblock)"

text \<open>The left-hand sides of an assignment are a list, the last one read first.\<close>

fun save_local :: "int \<Rightarrow> int \<Rightarrow> expdesc list \<Rightarrow> bool \<times> expdesc list" where
  "save_local extra v [] = (False, [])"
| "save_local extra v (e # es) =
     (let (c, es') = save_local extra v es
      in if ek e = VINDEXED then
           (c \<or> info e = v \<or> aux e = v,
            e\<lparr>info := (if info e = v then extra else info e), aux := (if aux e = v then extra else aux e)\<rparr> # es')
         else (c, e # es'))"

definition check_conflict :: "expdesc list \<Rightarrow> expdesc \<Rightarrow> expdesc list gen" where
  "check_conflict lh v = with_fs (\<lambda>f.
     let (conflict, lh') = save_local (freereg f) (info v) lh
     in seq (if conflict then seq (emit OP_MOVE (freereg f) (info v) 0) (luaK_reserveregs 1) else sret ())
          (sret lh'))"

text \<open>
  The values of the assignment: \<open>True\<close> when the last one was stored directly. \<open>lh\<close> is the last
  left-hand side.
\<close>

definition assign_values :: "cenv \<Rightarrow> sub_rule \<Rightarrow> expdesc \<Rightarrow> int \<Rightarrow> bool gen" where
  "assign_values E sub lh nvars =
     seq (checknext (chr_tok (CHR ''='')))
     (sbind (explist1 E sub) (\<lambda>(nexps, e).
       if int nexps \<noteq> nvars then
         seq (adjust_assign E nvars (int nexps) e)
         (seq (if nvars < int nexps then upd (\<lambda>f. f\<lparr>freereg := freereg f - (int nexps - nvars)\<rparr>) else sret ())
           (sret False))
       else sbind (luaK_setoneret e) (\<lambda>e'. seq (luaK_storevar E lh e') (sret True))))"

definition store_top :: "cenv \<Rightarrow> expdesc \<Rightarrow> unit gen" where
  "store_top E lh = with_fs (\<lambda>f. luaK_storevar E lh (init_exp VNONRELOC (freereg f - 1)))"

text \<open>\<open>assignment\<close> returns the left-hand sides, which inner calls may have changed.\<close>

fun assignment :: "cenv \<Rightarrow> sub_rule \<Rightarrow> nat \<Rightarrow> expdesc list \<Rightarrow> int \<Rightarrow> expdesc list gen" where
  "assignment E sub 0 lhs nvars = lifted Diverge"
| "assignment E sub (Suc n) [] nvars = lifted Undef"
| "assignment E sub (Suc n) (lh # prevs) nvars =
     seq (check_condition (ek lh \<in> {VLOCAL, VUPVAL, VGLOBAL, VINDEXED}) ''syntax error'')
     (sbind (testnext (chr_tok (CHR '',''))) (\<lambda>b.
       if b then
         sbind (primaryexp E sub) (\<lambda>nv.
         sbind (if ek nv = VLOCAL then check_conflict (lh # prevs) nv else sret (lh # prevs)) (\<lambda>lhs.
         sbind (assignment E sub n (nv # lhs) (nvars + 1)) (\<lambda>lhs'.
         seq (store_top E (hd (tl lhs'))) (sret (tl lhs')))))
       else
         sbind (assign_values E sub lh nvars) (\<lambda>stored.
           seq (if stored then sret () else store_top E lh) (sret (lh # prevs)))))"

definition cond :: "cenv \<Rightarrow> sub_rule \<Rightarrow> int gen" where
  "cond E sub =
     sbind (expr sub) (\<lambda>v.
     sbind (luaK_goiftrue E (if ek v = VNIL then v\<lparr>ek := VFALSE\<rparr> else v)) (\<lambda>v'. sret (ef v')))"

definition breakstat :: "unit gen" where
  "breakstat = with_fs (\<lambda>f.
     let inner = takeWhile (\<lambda>b. \<not> isbreakable b) (bl f)
     in case drop (length inner) (bl f) of
          [] \<Rightarrow> syntaxerror ''no loop to break''
        | b # _ \<Rightarrow>
          seq (if \<exists>x \<in> set inner. bl_upval x then emit OP_CLOSE (bl_nactvar b) 0 0 else sret ())
          (sbind luaK_jump (\<lambda>j.
          sbind (luaK_concat (breaklist b) j) (\<lambda>l.
            upd (\<lambda>f. f\<lparr>bl := (bl f)[length inner := b\<lparr>breaklist := l\<rparr>]\<rparr>)))))"

definition whilestat :: "cenv \<Rightarrow> sub_rule \<Rightarrow> unit gen \<Rightarrow> int \<Rightarrow> unit gen" where
  "whilestat E sub chk line =
     seq next_token
     (sbind luaK_getlabel (\<lambda>whileinit.
     sbind (cond E sub) (\<lambda>condexit.
     seq (enterblock True)
     (seq (checknext TK_DO)
     (seq (block chk)
     (sbind luaK_jump (\<lambda>j.
     seq (luaK_patchlist j whileinit)
     (seq (check_match TK_END TK_WHILE line)
     (seq leaveblock (luaK_patchtohere condexit))))))))))"

definition repeatstat :: "cenv \<Rightarrow> sub_rule \<Rightarrow> unit gen \<Rightarrow> int \<Rightarrow> unit gen" where
  "repeatstat E sub chk line =
     sbind luaK_getlabel (\<lambda>repeat_init.
     seq (enterblock True)
     (seq (enterblock False)
     (seq next_token
     (seq chk
     (seq (check_match TK_UNTIL TK_REPEAT line)
     (sbind (cond E sub) (\<lambda>condexit.
     with_fs (\<lambda>f. case bl f of
         [] \<Rightarrow> lifted Undef
       | bl2 # _ \<Rightarrow>
         seq (if \<not> bl_upval bl2 then seq leaveblock (luaK_patchlist condexit repeat_init)
              else
                seq breakstat
                (seq (luaK_patchtohere condexit)
                (seq leaveblock
                (sbind luaK_jump (\<lambda>j. luaK_patchlist j repeat_init)))))
           leaveblock))))))))"

definition exp1 :: "cenv \<Rightarrow> sub_rule \<Rightarrow> unit gen" where
  "exp1 E sub = sbind (expr sub) (\<lambda>e. sbind (luaK_exp2nextreg E e) (\<lambda>_. sret ()))"

definition forbody :: "unit gen \<Rightarrow> int \<Rightarrow> int \<Rightarrow> nat \<Rightarrow> bool \<Rightarrow> unit gen" where
  "forbody chk base line nvars isnum =
     seq (adjustlocalvars 3)
     (seq (checknext TK_DO)
     (sbind (if isnum then luaK_codeAsBx OP_FORPREP base NO_JUMP else luaK_jump) (\<lambda>prep.
     seq (enterblock False)
     (seq (adjustlocalvars nvars)
     (seq (luaK_reserveregs (int nvars))
     (seq (block chk)
     (seq leaveblock
     (seq (luaK_patchtohere prep)
     (sbind (if isnum then luaK_codeAsBx OP_FORLOOP base NO_JUMP
             else luaK_codeABC OP_TFORLOOP base 0 (int nvars)) (\<lambda>endfor.
     seq (luaK_fixline line)
     (sbind (if isnum then sret endfor else luaK_jump) (\<lambda>l. luaK_patchlist l (prep + 1)))))))))))))"

definition fornum :: "cenv \<Rightarrow> sub_rule \<Rightarrow> unit gen \<Rightarrow> string \<Rightarrow> int \<Rightarrow> unit gen" where
  "fornum E sub chk name line = with_fs (\<lambda>f0.
     seq (new_localvarliteral ''(for index)'' 0)
     (seq (new_localvarliteral ''(for limit)'' 1)
     (seq (new_localvarliteral ''(for step)'' 2)
     (seq (new_localvar name 3)
     (seq (checknext (chr_tok (CHR ''='')))
     (seq (exp1 E sub)
     (seq (checknext (chr_tok (CHR '','')))
     (seq (exp1 E sub)
     (sbind (testnext (chr_tok (CHR '',''))) (\<lambda>b.
     seq (if b then exp1 E sub
          else sbind (luaK_numberK E (cast_num 1)) (\<lambda>k.
            seq (with_fs (\<lambda>f. sbind (luaK_codeABx OP_LOADK (freereg f) k) (\<lambda>_. sret ())))
              (luaK_reserveregs 1)))
       (forbody chk (freereg f0) line 1 True)))))))))))"

fun namelist_loop :: "nat \<Rightarrow> nat \<Rightarrow> nat gen" where
  "namelist_loop 0 nvars = lifted Diverge"
| "namelist_loop (Suc n) nvars =
     sbind (testnext (chr_tok (CHR '',''))) (\<lambda>b.
       if b then sbind str_checkname (\<lambda>name. seq (new_localvar name (int nvars)) (namelist_loop n (Suc nvars)))
       else sret nvars)"

definition forlist :: "cenv \<Rightarrow> sub_rule \<Rightarrow> unit gen \<Rightarrow> string \<Rightarrow> unit gen" where
  "forlist E sub chk name = with_fs (\<lambda>f0.
     seq (new_localvarliteral ''(for generator)'' 0)
     (seq (new_localvarliteral ''(for state)'' 1)
     (seq (new_localvarliteral ''(for control)'' 2)
     (seq (new_localvar name 3)
     (sbind (with_fuel (\<lambda>n. namelist_loop n 4)) (\<lambda>nvars.
     seq (checknext TK_IN)
     (with_line (\<lambda>line.
     sbind (explist1 E sub) (\<lambda>(nexps, e).
     seq (adjust_assign E 3 (int nexps) e)
     (seq (luaK_checkstack 3)
       (forbody chk (freereg f0) line (nvars - 3) False)))))))))))"

definition forstat :: "cenv \<Rightarrow> sub_rule \<Rightarrow> unit gen \<Rightarrow> int \<Rightarrow> unit gen" where
  "forstat E sub chk line =
     seq (enterblock True)
     (seq next_token
     (sbind str_checkname (\<lambda>name.
     seq (with_token (\<lambda>t.
         if t = chr_tok (CHR ''='') then fornum E sub chk name line
         else if t = chr_tok (CHR '','') \<or> t = TK_IN then forlist E sub chk name
         else syntaxerror (LUA_QL ''='' @ '' or '' @ LUA_QL ''in'' @ '' expected'')))
     (seq (check_match TK_END TK_FOR line) leaveblock))))"

definition test_then_block :: "cenv \<Rightarrow> sub_rule \<Rightarrow> unit gen \<Rightarrow> int gen" where
  "test_then_block E sub chk =
     seq next_token
     (sbind (cond E sub) (\<lambda>condexit.
     seq (checknext TK_THEN)
     (seq (block chk) (sret condexit))))"

text \<open>The \<open>elseif\<close> parts: the list of escapes and the last false list.\<close>

fun elseif_loop :: "cenv \<Rightarrow> sub_rule \<Rightarrow> unit gen \<Rightarrow> nat \<Rightarrow> int \<Rightarrow> int \<Rightarrow> (int \<times> int) gen" where
  "elseif_loop E sub chk 0 escapelist flist = lifted Diverge"
| "elseif_loop E sub chk (Suc n) escapelist flist = with_token (\<lambda>t.
     if t = TK_ELSEIF then
       sbind luaK_jump (\<lambda>j.
       sbind (luaK_concat escapelist j) (\<lambda>escapelist'.
       seq (luaK_patchtohere flist)
       (sbind (test_then_block E sub chk) (elseif_loop E sub chk n escapelist'))))
     else sret (escapelist, flist))"

definition ifstat :: "cenv \<Rightarrow> sub_rule \<Rightarrow> unit gen \<Rightarrow> int \<Rightarrow> unit gen" where
  "ifstat E sub chk line =
     sbind (test_then_block E sub chk) (\<lambda>flist0.
     sbind (with_fuel (\<lambda>n. elseif_loop E sub chk n NO_JUMP flist0)) (\<lambda>(escapelist, flist).
     sbind (with_token (\<lambda>t.
         if t = TK_ELSE then
           sbind luaK_jump (\<lambda>j.
           sbind (luaK_concat escapelist j) (\<lambda>l.
           seq (luaK_patchtohere flist)
           (seq next_token
           (seq (block chk) (sret l)))))
         else luaK_concat escapelist flist)) (\<lambda>l.
     seq (luaK_patchtohere l) (check_match TK_END TK_IF line))))"

definition localfunc :: "cenv \<Rightarrow> unit gen \<Rightarrow> unit gen" where
  "localfunc E chk =
     sbind str_checkname (\<lambda>name.
     seq (new_localvar name 0)
     (with_fs (\<lambda>f0.
     seq (luaK_reserveregs 1)
     (seq (adjustlocalvars 1)
     (sbind (with_line (func_body E chk False)) (\<lambda>b.
     seq (luaK_storevar E (init_exp VLOCAL (freereg f0)) b)
       (with_fs (\<lambda>f. change_locvar (uint (nactvar f) - 1) (\<lambda>v. v\<lparr>startpc := pc f\<rparr>)))))))))"

definition localstat :: "cenv \<Rightarrow> sub_rule \<Rightarrow> unit gen" where
  "localstat E sub =
     sbind str_checkname (\<lambda>name.
     seq (new_localvar name 0)
     (sbind (with_fuel (\<lambda>n. namelist_loop n 1)) (\<lambda>nvars.
     sbind (testnext (chr_tok (CHR ''=''))) (\<lambda>b.
     sbind (if b then explist1 E sub else sret (0, init_exp VVOID 0)) (\<lambda>(nexps, e).
     seq (adjust_assign E (int nvars) (int nexps) e) (adjustlocalvars nvars))))))"

fun funcname_loop :: "cenv \<Rightarrow> nat \<Rightarrow> expdesc \<Rightarrow> expdesc gen" where
  "funcname_loop E 0 v = lifted Diverge"
| "funcname_loop E (Suc n) v = with_token (\<lambda>t.
     if t = chr_tok (CHR ''.'') then sbind (field E v) (funcname_loop E n) else sret v)"

definition funcname :: "cenv \<Rightarrow> (bool \<times> expdesc) gen" where
  "funcname E =
     sbind (singlevar E) (\<lambda>v0.
     sbind (with_fuel (\<lambda>n. funcname_loop E n v0)) (\<lambda>v.
     with_token (\<lambda>t.
       if t = chr_tok (CHR '':'') then sbind (field E v) (\<lambda>v'. sret (True, v')) else sret (False, v))))"

definition funcstat :: "cenv \<Rightarrow> unit gen \<Rightarrow> int \<Rightarrow> unit gen" where
  "funcstat E chk line =
     seq next_token
     (sbind (funcname E) (\<lambda>(needself, v).
     sbind (func_body E chk needself line) (\<lambda>b.
     seq (luaK_storevar E v b) (luaK_fixline line))))"

definition exprstat :: "cenv \<Rightarrow> sub_rule \<Rightarrow> unit gen" where
  "exprstat E sub =
     sbind (primaryexp E sub) (\<lambda>v.
       if ek v = VCALL then change_code (info v) (\<lambda>i. SETARG_C i 1)
       else sbind (with_fuel (\<lambda>n. assignment E sub n [v] 1)) (\<lambda>_. sret ()))"

definition return_values :: "cenv \<Rightarrow> nat \<Rightarrow> expdesc \<Rightarrow> (int \<times> int) gen" where
  "return_values E nret e =
     (if hasmultret (ek e) then
        seq (luaK_setreturns e LUA_MULTRET)
        (seq (if ek e = VCALL \<and> nret = 1 then change_code (info e) (\<lambda>i. SET_OPCODE i OP_TAILCALL) else sret ())
          (with_fs (\<lambda>f. sret (uint (nactvar f), LUA_MULTRET))))
      else if nret = 1 then sbind (luaK_exp2anyreg E e) (\<lambda>e'. sret (info e', 1))
      else sbind (luaK_exp2nextreg E e) (\<lambda>_. with_fs (\<lambda>f. sret (uint (nactvar f), int nret))))"

definition retstat :: "cenv \<Rightarrow> sub_rule \<Rightarrow> unit gen" where
  "retstat E sub =
     seq next_token
     (sbind (with_token (\<lambda>t.
         if block_follow t \<or> t = chr_tok (CHR '';'') then sret (0, 0)
         else sbind (explist1 E sub) (\<lambda>(nret, e). return_values E nret e))) (\<lambda>(first, nret).
     luaK_ret first nret))"

definition statement :: "cenv \<Rightarrow> sub_rule \<Rightarrow> unit gen \<Rightarrow> bool gen" where
  "statement E sub chk = with_line (\<lambda>line. with_token (\<lambda>t.
     let more = (\<lambda>m. seq m (sret False)); final = (\<lambda>m. seq m (sret True))
     in if t = TK_IF then more (ifstat E sub chk line)
        else if t = TK_WHILE then more (whilestat E sub chk line)
        else if t = TK_DO then more (seq next_token (seq (block chk) (check_match TK_END TK_DO line)))
        else if t = TK_FOR then more (forstat E sub chk line)
        else if t = TK_REPEAT then more (repeatstat E sub chk line)
        else if t = TK_FUNCTION then more (funcstat E chk line)
        else if t = TK_LOCAL then
          more (seq next_token (sbind (testnext TK_FUNCTION) (\<lambda>b. if b then localfunc E chk else localstat E sub)))
        else if t = TK_RETURN then final (retstat E sub)
        else if t = TK_BREAK then final (seq next_token breakstat)
        else more (exprstat E sub)))"

fun chunk_loop :: "cenv \<Rightarrow> sub_rule \<Rightarrow> unit gen \<Rightarrow> nat \<Rightarrow> unit gen" where
  "chunk_loop E sub chk 0 = lifted Diverge"
| "chunk_loop E sub chk (Suc n) = with_token (\<lambda>t.
     if block_follow t then sret ()
     else
       sbind (statement E sub chk) (\<lambda>islast.
       sbind (testnext (chr_tok (CHR '';''))) (\<lambda>_.
       seq (upd (\<lambda>f. f\<lparr>freereg := uint (nactvar f)\<rparr>))
         (if islast then sret () else chunk_loop E sub chk n))))"

definition chunk_with :: "cenv \<Rightarrow> sub_rule \<Rightarrow> unit gen \<Rightarrow> unit gen" where
  "chunk_with E sub chk = seq enterlevel (seq (with_fuel (chunk_loop E sub chk)) leavelevel)"

section \<open>The recursion\<close>

text \<open>\<open>chunk_at\<close> has the expressions of each depth as an argument, of which it uses those below its own.\<close>

fun chunk_at :: "cenv \<Rightarrow> (nat \<Rightarrow> sub_rule) \<Rightarrow> nat \<Rightarrow> unit gen" where
  "chunk_at E subs 0 = lifted Diverge"
| "chunk_at E subs (Suc n) = chunk_with E (subs n) (chunk_at E subs n)"

lemma chunk_at_cong [fundef_cong]:
  "E = E' \<Longrightarrow> n = n' \<Longrightarrow> (\<And>k. k < n' \<Longrightarrow> f k = g k) \<Longrightarrow> chunk_at E f n = chunk_at E' g n'"
  by (induction n arbitrary: n') auto

fun subexpr :: "cenv \<Rightarrow> nat \<Rightarrow> sub_rule" where
  "subexpr E 0 limit = lifted Diverge"
| "subexpr E (Suc n) limit = subexpr_with E (subexpr E n) (chunk_at E (subexpr E) n) limit"

definition chunk :: "cenv \<Rightarrow> nat \<Rightarrow> unit gen" where
  "chunk E n = chunk_at E (subexpr E) n"

lemma subexpr_Suc: "subexpr E (Suc n) = subexpr_with E (subexpr E n) (chunk E n)"
  by (simp add: chunk_def fun_eq_iff)

lemma chunk_Suc: "chunk E (Suc n) = chunk_with E (subexpr E n) (chunk E n)"
  by (simp add: chunk_def)

text \<open>\<open>luaY_parser\<close> is called with \<open>c\<close> C calls pending.\<close>

definition parse_main :: "cenv \<Rightarrow> FuncState gen" where
  "parse_main E =
     seq (upd (\<lambda>f. f\<lparr>f_is_vararg := VARARG_ISVARARG\<rparr>))
     (seq next_token
     (seq (chunk E (Suc LUAI_MAXCCALLS))
     (seq (check TK_EOS) close_func)))"

definition luaY_parser :: "cenv \<Rightarrow> nat \<Rightarrow> ZIO \<Rightarrow> string \<Rightarrow> Proto result" where
  "luaY_parser E c z name =
     rbind (luaX_setinput z name) (\<lambda>(_, l).
     rbind (luaH_new 0 0) (\<lambda>t.
     rbind (parse_main E \<lparr>lex = l, fs = new_func t (table_at E 0), outer = [], nCcalls = c\<rparr>) (\<lambda>(f, _).
       Ok (make_proto f name))))"

end
