(* ===== verification/LuaJumps.thy ===== *)
theory LuaJumps
  imports LuaCode
begin

text \<open>
  The lists of jumps that wait for their target are threaded through the offsets of the jumps
  themselves (\<^verbatim>\<open>lcode.c\<close>): what they are, how two of them are joined, and where the jumps go when a
  list is patched.
\<close>

section \<open>Chains\<close>

definition node_op :: "Instruction \<Rightarrow> bool" where
  "node_op i \<longleftrightarrow> GET_OPCODE i \<in> op_num ` {OP_JMP, OP_FORPREP, OP_FORLOOP}"

definition is_node :: "Instruction list \<Rightarrow> int \<Rightarrow> bool" where
  "is_node cs p \<longleftrightarrow> 0 \<le> p \<and> p < int (length cs) \<and> node_op (cs ! nat p)"

fun chain :: "Instruction list \<Rightarrow> int \<Rightarrow> int list \<Rightarrow> bool" where
  "chain cs l [] \<longleftrightarrow> l = NO_JUMP"
| "chain cs l (p # ps) \<longleftrightarrow> l = p \<and> is_node cs p \<and> (\<exists>q. jump_next cs p = Ok q \<and> chain cs q ps)"

lemma not_node [simp]: "\<not> is_node cs NO_JUMP"
  by (simp add: is_node_def)

lemma jump_next_node: "is_node cs p \<Longrightarrow> jump_next cs p = Ok
    (if GETARG_sBx (cs ! nat p) = NO_JUMP then NO_JUMP else p + 1 + GETARG_sBx (cs ! nat p))"
  by (simp add: jump_next_def is_node_def fetch_def Let_def)

lemma chain_NO_JUMP [simp]: "chain cs NO_JUMP ps \<longleftrightarrow> ps = []"
  by (cases ps) auto

lemma chain_Cons: "l \<noteq> NO_JUMP \<Longrightarrow> chain cs l ps \<longleftrightarrow>
    (\<exists>q qs. ps = l # qs \<and> is_node cs l \<and> jump_next cs l = Ok q \<and> chain cs q qs)"
  by (cases ps) auto

lemma chain_unique: "chain cs l ps \<Longrightarrow> chain cs l qs \<Longrightarrow> ps = qs"
proof (induction ps arbitrary: l qs)
  case (Cons p ps)
  then have "l = p" "p \<noteq> NO_JUMP" by auto
  with Cons.prems(2) obtain q' qs' where "qs = p # qs'" "jump_next cs p = Ok q'" "chain cs q' qs'"
    by (auto simp: chain_Cons)
  with Cons show ?case by auto
qed simp

lemma chain_nodes: "chain cs l ps \<Longrightarrow> p \<in> set ps \<Longrightarrow> is_node cs p"
  by (induction ps arbitrary: l) auto

text \<open>Two codes with the same jumps have the same chains.\<close>

definition same_nodes :: "Instruction list \<Rightarrow> Instruction list \<Rightarrow> bool" where
  "same_nodes cs cs' \<longleftrightarrow> (\<forall>p. is_node cs p \<longrightarrow> is_node cs' p \<and> GETARG_sBx (cs' ! nat p) = GETARG_sBx (cs ! nat p))"

lemma same_nodes_refl [simp]: "same_nodes cs cs"
  by (simp add: same_nodes_def)

lemma same_nodes_trans: "same_nodes a b \<Longrightarrow> same_nodes b c \<Longrightarrow> same_nodes a c"
  by (simp add: same_nodes_def)

lemma chain_same: "chain cs l ps \<Longrightarrow> same_nodes cs cs' \<Longrightarrow> chain cs' l ps"
  by (induction ps arbitrary: l) (auto simp: same_nodes_def jump_next_node)

lemma chain_update: "chain cs l ps \<Longrightarrow> p \<notin> set ps \<Longrightarrow> 0 \<le> p \<Longrightarrow> chain (cs[nat p := x]) l ps"
proof (induction ps arbitrary: l)
  case (Cons q qs)
  then have n: "is_node cs q" "nat q \<noteq> nat p" by (auto simp: is_node_def)
  then have "is_node (cs[nat p := x]) q" by (simp add: is_node_def)
  with Cons n show ?case by (auto simp: jump_next_node)
qed simp

section \<open>Steps of the generator\<close>

text \<open>A step that returns with \<open>Q\<close>, or raises an error when \<open>far\<close> holds.\<close>

definition runs :: "bool \<Rightarrow> 'a gen \<Rightarrow> ('a \<Rightarrow> PState \<Rightarrow> bool) \<Rightarrow> PState \<Rightarrow> bool" where
  "runs far m Q s \<longleftrightarrow> (case m s of Ok (x, s') \<Rightarrow> Q x s' | Err _ \<Rightarrow> far | _ \<Rightarrow> False)"

lemma runs_bind [simp]: "runs far (sbind m f) Q s \<longleftrightarrow> runs far m (\<lambda>x. runs far (f x) Q) s"
  by (auto simp: runs_def sbind_def split: result.splits)

lemma runs_simps [simp]:
  "runs far (sret x) Q s \<longleftrightarrow> Q x s" "runs far (with_fs c) Q s \<longleftrightarrow> runs far (c (fs s)) Q s"
  "runs far (upd g) P s \<longleftrightarrow> P () (s\<lparr>fs := g (fs s)\<rparr>)" "runs far (lifted (Ok x)) Q s \<longleftrightarrow> Q x s"
  "runs far last_line R s \<longleftrightarrow> R (lastline (lex s)) s"
  by (simp_all add: runs_def sret_def with_fs_def upd_def lifted_def last_line_def)

lemma runs_error [simp]: "runs far (syntaxerror msg :: 'a gen) Q s \<longleftrightarrow> far"
  by (simp add: runs_def syntaxerror_def lexer_def luaX_syntaxerror_def luaX_lexerror_def txtToken_def sbind_def save_def)

lemma runs_grow [simp]: "runs far (growvector n limit msg) Q s \<longleftrightarrow> (if limit \<le> n then far else Q () s)"
  by (simp add: runs_def growvector_def lifted_def sret_def)

lemma runs_mono: "runs far m P s \<Longrightarrow> (\<And>x s'. P x s' \<Longrightarrow> Q x s') \<Longrightarrow> (far \<Longrightarrow> far') \<Longrightarrow> runs far' m Q s"
  by (auto simp: runs_def split: result.splits)

text \<open>The same state with other code\<close>

abbreviation coded :: "PState \<Rightarrow> Instruction list \<Rightarrow> PState" where
  "coded s cs \<equiv> s\<lparr>fs := (fs s)\<lparr>f_code := cs\<rparr>\<rparr>"

lemma runs_code:
  assumes "0 \<le> i" and "i < pc (fs s)"
  shows "runs far (get_code i) Q s \<longleftrightarrow> Q (f_code (fs s) ! nat i) s"
    and "runs far (put_code i x) P s \<longleftrightarrow> P () (coded s ((f_code (fs s))[nat i := x]))"
    and "runs far (change_code i g) P s \<longleftrightarrow> P () (coded s ((f_code (fs s))[nat i := g (f_code (fs s) ! nat i)]))"
  using assms by (simp_all add: get_code_def put_code_def change_code_def fetch_Ok)

section \<open>Fields\<close>

lemma set_sBx:
  assumes "\<bar>d\<bar> \<le> MAXARG_sBx"
  shows "GETARG_sBx (SETARG_sBx i d) = d" and "GET_OPCODE (SETARG_sBx i d) = GET_OPCODE i"
proof -
  have "0 \<le> d + MAXARG_sBx" "d + MAXARG_sBx < 2 ^ SIZE_Bx" using assms by auto
  then show "GETARG_sBx (SETARG_sBx i d) = d"
    using get_set_field_same [of SIZE_Bx POS_Bx "d + MAXARG_sBx" i]
    by (simp add: GETARG_sBx_def SETARG_sBx_def GETARG_Bx_def SETARG_Bx_def)
  show "GET_OPCODE (SETARG_sBx i d) = GET_OPCODE i"
    by (simp add: SETARG_sBx_def GET_OPCODE_def SETARG_Bx_def get_set_field_other)
qed

lemma low_field: "(\<And>k. k < 6 \<Longrightarrow> bit i k = bit (word_of_int (op_num op) :: Instruction) k) \<Longrightarrow> GET_OPCODE i = op_num op"
  unfolding GET_OPCODE_def by (rule get_field_eqI) (use op_num_bounds [of op] in \<open>auto simp: bit_simps\<close>)

lemma opcode_CREATE [simp]: "GET_OPCODE (CREATE_ABC op a b c) = op_num op" "GET_OPCODE (CREATE_ABx op a bc) = op_num op"
  by (rule low_field, simp add: CREATE_ABC_def CREATE_ABx_def bit_simps)+

lemma opcode_SETARG [simp]:
  "GET_OPCODE (SETARG_A i x) = GET_OPCODE i" "GET_OPCODE (SETARG_B i x) = GET_OPCODE i"
  "GET_OPCODE (SETARG_C i x) = GET_OPCODE i" "GET_OPCODE (SETARG_sBx i x) = GET_OPCODE i"
  by (simp_all add: GET_OPCODE_def SETARG_A_def SETARG_B_def SETARG_C_def SETARG_sBx_def SETARG_Bx_def get_set_field_other)

section \<open>Joining lists\<close>

lemma last_jump_chain: "chain cs l ps \<Longrightarrow> ps \<noteq> [] \<Longrightarrow> length ps \<le> n \<Longrightarrow> last_jump n cs l = Ok (last ps)"
proof (induction ps arbitrary: l n)
  case (Cons p ps)
  then obtain q m where q: "l = p" "jump_next cs p = Ok q" "chain cs q ps" "n = Suc m" by (cases n) auto
  show ?case
  proof (cases ps)
    case Nil
    with q show ?thesis by simp
  next
    case (Cons r rs)
    with q have "q \<noteq> NO_JUMP" by (auto simp: is_node_def)
    with q Cons.prems Cons.IH [of q m] Cons show ?thesis by simp
  qed
qed simp

lemma chain_append:
  assumes "chain cs l (ps @ [p])" and "distinct (ps @ [p])" and "chain cs m qs" and "p \<notin> set qs" and "m \<noteq> NO_JUMP" and "m \<noteq> p"
    and "\<bar>m - (p + 1)\<bar> \<le> MAXARG_sBx"
  shows "chain (cs[nat p := SETARG_sBx (cs ! nat p) (m - (p + 1))]) l (ps @ p # qs)"
  using assms(1,2)
proof (induction ps arbitrary: l)
  case Nil
  let ?cs = "cs[nat p := SETARG_sBx (cs ! nat p) (m - (p + 1))]"
  have n: "is_node cs p" "l = p" "0 \<le> p" using Nil by (auto simp: is_node_def)
  then have n': "is_node ?cs p" using set_sBx(2) [OF assms(7)] by (auto simp: is_node_def node_op_def)
  have "nat p < length cs" using n(1,3) by (auto simp: is_node_def nat_less_iff)
  then have "GETARG_sBx (?cs ! nat p) = m - (p + 1)" using set_sBx(1) [OF assms(7)] by (simp del: diff_diff_eq)
  then have "jump_next ?cs p = Ok m" using assms(6) by (auto simp: jump_next_node [OF n'])
  moreover have "chain ?cs m qs" using chain_update [OF assms(3,4)] n(3) by blast
  ultimately show ?case using n' n(2) by simp
next
  case (Cons r rs)
  let ?cs = "cs[nat p := SETARG_sBx (cs ! nat p) (m - (p + 1))]"
  have r: "is_node cs r" "l = r" "r \<noteq> p" using Cons.prems by auto
  have "is_node cs p" using chain_nodes [OF Cons.prems(1)] by simp
  then have "nat r \<noteq> nat p" using r by (auto simp: is_node_def)
  then have "is_node ?cs r" "?cs ! nat r = cs ! nat r" using r(1) by (auto simp: is_node_def)
  with Cons r show ?case by (auto simp: jump_next_node)
qed

lemma runs_fixjump:
  assumes "is_node (f_code (fs s)) p"
  shows "runs (MAXARG_sBx < \<bar>dest - (p + 1)\<bar>) (fixjump p dest) (\<lambda>_ s'. \<bar>dest - (p + 1)\<bar> \<le> MAXARG_sBx
    \<and> s' = coded s ((f_code (fs s))[nat p := SETARG_sBx (f_code (fs s) ! nat p) (dest - (p + 1))])) s"
  using assms by (simp add: fixjump_def Let_def runs_code is_node_def)

text \<open>\<open>luaK_concat\<close> of two lists that share no jump\<close>

definition joined :: "Instruction list \<Rightarrow> int list \<Rightarrow> int list \<Rightarrow> Instruction list \<Rightarrow> int \<Rightarrow> bool" where
  "joined cs ps qs cs' l \<longleftrightarrow> length cs' = length cs \<and> chain cs' l (ps @ qs)
     \<and> (\<forall>i < length cs. (ps = [] \<or> int i \<noteq> last ps) \<longrightarrow> cs' ! i = cs ! i)"

lemma runs_concat:
  assumes l: "chain (f_code (fs s)) l ps" and m: "chain (f_code (fs s)) m qs" and d: "distinct (ps @ qs)"
  shows "runs (ps \<noteq> [] \<and> qs \<noteq> [] \<and> MAXARG_sBx < \<bar>m - (last ps + 1)\<bar>) (luaK_concat l m)
    (\<lambda>r s'. \<exists>cs. s' = coded s cs \<and> joined (f_code (fs s)) ps qs cs r) s"
proof -
  let ?cs = "f_code (fs s)"
  have same: "\<exists>cs. s = coded s cs \<and> joined ?cs ps qs cs r" if "chain ?cs r (ps @ qs)" for r
    by (rule exI [of _ ?cs]) (use that in \<open>simp add: joined_def\<close>)
  show ?thesis
  proof (cases "l = NO_JUMP \<or> m = NO_JUMP")
    case True
    with l m have "ps = [] \<or> qs = []" by auto
    with True l m same show ?thesis by (cases "m = NO_JUMP") (auto simp: luaK_concat_def)
  next
    case False
    then obtain rs p where p: "ps = rs @ [p]" using l by (metis chain.simps(1) rev_exhaust)
    have q: "qs \<noteq> []" using False m by auto
    have node: "is_node ?cs p" using chain_nodes [OF l] p by simp
    have "set ps \<subseteq> {0..<int (length ?cs)}" using chain_nodes [OF l] by (auto simp: is_node_def)
    then have "card (set ps) \<le> card {0..<int (length ?cs)}" by (intro card_mono) auto
    then have len: "length ps \<le> Suc (length ?cs)" using d by (simp add: distinct_card)
    have last: "last_jump (list_fuel (fs s)) ?cs l = Ok p" using last_jump_chain [OF l _ len] p by simp
    have mp: "m \<noteq> p" "p \<notin> set qs" using m False d p by (auto simp: chain_Cons)
    have "runs (MAXARG_sBx < \<bar>m - (p + 1)\<bar>) (seq (fixjump p m) (sret l))
        (\<lambda>r s'. \<exists>cs. s' = coded s cs \<and> joined ?cs ps qs cs r) s"
      unfolding runs_bind
    proof (rule runs_mono [OF runs_fixjump [OF node]], clarify)
      let ?n = "?cs[nat p := SETARG_sBx (?cs ! nat p) (m - (p + 1))]"
      assume far: "\<bar>m - (p + 1)\<bar> \<le> MAXARG_sBx"
      have "chain ?n l (rs @ p # qs)" by (rule chain_append [OF l [unfolded p] _ m mp(2) _ mp(1) far]) (use d p False in auto)
      then have "joined ?cs ps qs ?n l" using p node by (auto simp: joined_def is_node_def)
      then show "runs (MAXARG_sBx < \<bar>m - (p + 1)\<bar>) (sret l) (\<lambda>r s'. \<exists>cs. s' = coded s cs \<and> joined ?cs ps qs cs r) (coded s ?n)"
        by auto
    qed simp
    with False last p q show ?thesis by (simp add: luaK_concat_def)
  qed
qed

section \<open>Patching\<close>

text \<open>
  The word at \<open>i\<close> after the jumps \<open>P\<close> are sent to \<open>t\<close>: a jump gets its offset, and a \<open>TESTSET\<close> before one
  of them becomes a \<open>TEST\<close> of the same register and condition.
\<close>

definition patch_word :: "Instruction list \<Rightarrow> int set \<Rightarrow> int \<Rightarrow> nat \<Rightarrow> Instruction" where
  "patch_word cs P t i =
     (if int i \<in> P then SETARG_sBx (cs ! i) (t - (int i + 1))
      else if int i + 1 \<in> P \<and> GET_OPCODE (cs ! i) = op_num OP_TESTSET
      then CREATE_ABC OP_TEST (GETARG_B (cs ! i)) 0 (GETARG_C (cs ! i)) else cs ! i)"

definition patch_list :: "Instruction list \<Rightarrow> int set \<Rightarrow> int \<Rightarrow> Instruction list" where
  "patch_list cs P t = map (patch_word cs P t) [0..<length cs]"

lemma patch_list_nth: "i < length cs \<Longrightarrow> patch_list cs P t ! i = patch_word cs P t i"
  by (simp add: patch_list_def)

lemma patch_list_length [simp]: "length (patch_list cs P t) = length cs"
  by (simp add: patch_list_def)

lemma patch_none [simp]: "patch_list cs {} t = cs"
  by (rule nth_equalityI) (simp_all add: patch_list_nth patch_word_def)

lemma patch_lands:
  assumes "is_node cs p" and "p \<in> P" and "\<bar>t - (p + 1)\<bar> \<le> MAXARG_sBx"
  shows "p + 1 + GETARG_sBx (patch_list cs P t ! nat p) = t"
proof -
  have p: "0 \<le> p" "nat p < length cs" using assms(1) by (auto simp: is_node_def nat_less_iff)
  then have "patch_list cs P t ! nat p = SETARG_sBx (cs ! nat p) (t - (p + 1))"
    using assms(2) by (simp add: patch_list_nth patch_word_def)
  then show ?thesis using set_sBx(1) [OF assms(3)] by simp
qed

text \<open>The words before the jumps, which may control them, are instructions.\<close>

definition controlled :: "Instruction list \<Rightarrow> int list \<Rightarrow> bool" where
  "controlled cs ps \<longleftrightarrow> (\<forall>p \<in> set ps. 1 \<le> p \<longrightarrow> op_of (GET_OPCODE (cs ! nat (p - 1))) \<noteq> None)"

lemma op_num_eq [simp]: "op_num a = op_num b \<longleftrightarrow> a = b"
  by (metis op_of_num option.inject)

text \<open>What \<open>patchtestreg\<close> does to the code\<close>

definition test_word :: "Instruction list \<Rightarrow> int \<Rightarrow> Instruction list" where
  "test_word cs p =
     (if 1 \<le> p \<and> GET_OPCODE (cs ! nat (p - 1)) = op_num OP_TESTSET
      then cs[nat (p - 1) := CREATE_ABC OP_TEST (GETARG_B (cs ! nat (p - 1))) 0 (GETARG_C (cs ! nat (p - 1)))] else cs)"

lemma runs_patchtestreg:
  assumes p: "is_node (f_code (fs s)) p" and c: "controlled (f_code (fs s)) [p]"
  shows "runs False (patchtestreg p NO_REG) (\<lambda>_ s'. s' = coded s (test_word (f_code (fs s)) p)) s"
proof -
  let ?cs = "f_code (fs s)"
  have b: "0 \<le> p" "p < pc (fs s)" "node_op (?cs ! nat p)" using p by (simp_all add: is_node_def)
  have no: "GET_OPCODE (?cs ! nat p) \<noteq> op_num OP_TESTSET" using b(3) by (auto simp: node_op_def)
  show ?thesis
  proof (cases "1 \<le> p")
    case True
    then have q: "0 \<le> p - 1" "p - 1 < pc (fs s)" using b by auto
    from c True obtain op where op: "op_of (GET_OPCODE (?cs ! nat (p - 1))) = Some op" by (auto simp: controlled_def)
    have g: "GET_OPCODE (?cs ! nat (p - 1)) = op_num op" using op by (simp add: op_of_Some)
    have ctl: "jump_control ?cs p = Ok (if testTMode op then p - 1 else p)"
      using True q op by (simp add: jump_control_def opcode_at_def fetch_Ok)
    show ?thesis
    proof (cases "testTMode op")
      case t: True
      then show ?thesis using ctl q True g
        by (simp add: patchtestreg_def getjumpcontrol_def runs_code test_word_def)
    next
      case False
      then have "op_num op \<noteq> op_num OP_TESTSET" unfolding op_num_eq by (auto simp: testTMode_iff)
      with False show ?thesis using ctl b no g
        by (simp add: patchtestreg_def getjumpcontrol_def runs_code test_word_def)
    qed
  next
    case False
    then show ?thesis using b no
      by (simp add: patchtestreg_def getjumpcontrol_def jump_control_def runs_code test_word_def)
  qed
qed

lemma patch_step:
  assumes p: "is_node cs p" and ps: "\<forall>q \<in> set ps. is_node cs q" and d: "p \<notin> set ps"
    and cs2: "cs2 = (test_word cs p)[nat p := SETARG_sBx (test_word cs p ! nat p) (t - (p + 1))]"
  shows "patch_list cs2 (set ps) t = patch_list cs (set (p # ps)) t"
proof (rule nth_equalityI)
  have len: "length cs2 = length cs" by (simp add: cs2 test_word_def)
  show "length (patch_list cs2 (set ps) t) = length (patch_list cs (set (p # ps)) t)" by (simp add: len)
  fix i
  assume "i < length (patch_list cs2 (set ps) t)"
  then have i: "i < length cs" by (simp add: len)
  have b: "0 \<le> p" "nat p < length cs" "node_op (cs ! nat p)" using p by (auto simp: is_node_def nat_less_iff)
  have tset: "GET_OPCODE (cs ! nat q) \<noteq> op_num OP_TESTSET" if "is_node cs q" for q
    using that by (auto simp: is_node_def node_op_def)
  have word: "cs2 ! i = (if int i = p then SETARG_sBx (cs ! i) (t - (p + 1))
      else if int i + 1 = p \<and> GET_OPCODE (cs ! i) = op_num OP_TESTSET
      then CREATE_ABC OP_TEST (GETARG_B (cs ! i)) 0 (GETARG_C (cs ! i)) else cs ! i)"
  proof -
    have "nat p = i \<longleftrightarrow> int i = p" "1 \<le> p \<Longrightarrow> nat (p - 1) = i \<longleftrightarrow> int i + 1 = p" using b(1) by auto
    then show ?thesis using i b tset [OF p] by (auto simp: cs2 test_word_def nth_list_update)
  qed
  have "int i \<notin> set ps" if "GET_OPCODE (cs ! i) = op_num OP_TESTSET" using that ps tset [of "int i"] by auto
  moreover have "op_num OP_TEST \<noteq> op_num OP_TESTSET" by simp
  moreover have "GET_OPCODE (SETARG_sBx (cs ! i) (t - (p + 1))) \<noteq> op_num OP_TESTSET" if "int i = p"
    using tset [OF p] that by auto
  ultimately have "patch_word cs2 (set ps) t i = patch_word cs (set (p # ps)) t i"
    using d by (auto simp: patch_word_def word)
  then show "patch_list cs2 (set ps) t ! i = patch_list cs (set (p # ps)) t ! i"
    using i len by (simp add: patch_list_nth)
qed

lemma nth_update: "xs[j := x] ! i = (if i = j \<and> j < length xs then x else xs ! i)"
  by (cases "j < length xs") (auto simp: list_update_beyond)

lemma test_word_same:
  assumes "is_node cs q"
  shows "is_node (test_word cs p) q \<and> test_word cs p ! nat q = cs ! nat q"
proof (cases "nat (p - 1) = nat q \<and> GET_OPCODE (cs ! nat (p - 1)) = op_num OP_TESTSET")
  case True
  with assms show ?thesis by (auto simp: is_node_def node_op_def)
next
  case False
  then have "test_word cs p ! nat q = cs ! nat q" by (auto simp: test_word_def nth_update)
  with assms show ?thesis by (simp add: is_node_def test_word_def)
qed

lemma controlled_step:
  assumes "controlled cs ps"
  shows "controlled ((test_word cs p)[nat q := SETARG_sBx (test_word cs p ! nat q) d]) ps"
proof -
  have "op_of (op_num OP_TEST) \<noteq> None" unfolding op_of_num by simp
  then have "op_of (GET_OPCODE (test_word cs p ! i)) \<noteq> None" if "op_of (GET_OPCODE (cs ! i)) \<noteq> None" for i
    using that by (auto simp: test_word_def nth_update)
  then have "op_of (GET_OPCODE ((test_word cs p)[nat q := SETARG_sBx (test_word cs p ! nat q) d] ! i)) \<noteq> None"
    if "op_of (GET_OPCODE (cs ! i)) \<noteq> None" for i
    using that by (auto simp: nth_update)
  with assms show ?thesis by (simp add: controlled_def)
qed

lemma runs_patchlist_loop:
  assumes "chain (f_code (fs s)) l ps" and "distinct ps" and "controlled (f_code (fs s)) ps" and "length ps < n"
  shows "runs (\<exists>p \<in> set ps. MAXARG_sBx < \<bar>t - (p + 1)\<bar>) (patchlist_loop n l t NO_REG t)
    (\<lambda>_ s'. s' = coded s (patch_list (f_code (fs s)) (set ps) t) \<and> (\<forall>p \<in> set ps. \<bar>t - (p + 1)\<bar> \<le> MAXARG_sBx)) s"
  using assms
proof (induction ps arbitrary: l n s)
  case Nil
  then show ?case by (cases n) auto
next
  case (Cons p ps)
  let ?cs = "f_code (fs s)" and ?far = "\<exists>p \<in> set (p # ps). MAXARG_sBx < \<bar>t - (p + 1)\<bar>"
  obtain q m where p: "l = p" "is_node ?cs p" "jump_next ?cs p = Ok q" "chain ?cs q ps" and n: "n = Suc m" "length ps < m"
    using Cons.prems(1,4) by (cases n) auto
  have ne: "p \<noteq> NO_JUMP" using p(2) by (auto simp: is_node_def)
  let ?R = "\<lambda>_ s'. s' = coded s (patch_list ?cs (set (p # ps)) t) \<and> (\<forall>p \<in> set (p # ps). \<bar>t - (p + 1)\<bar> \<le> MAXARG_sBx)"
  have c: "controlled ?cs [p]" using Cons.prems(3) by (simp add: controlled_def)
  have "runs ?far (sbind (patchtestreg p NO_REG) (\<lambda>b. seq (fixjump p (if b then t else t)) (patchlist_loop m q t NO_REG t))) ?R s"
    unfolding runs_bind if_cancel
  proof (rule runs_mono [OF runs_patchtestreg [OF p(2) c]], clarify)
    let ?s1 = "coded s (test_word ?cs p)"
    let ?cs2 = "(test_word ?cs p)[nat p := SETARG_sBx (test_word ?cs p ! nat p) (t - (p + 1))]"
    have n1: "is_node (f_code (fs ?s1)) p" using test_word_same [OF p(2)] by simp
    show "runs ?far (fixjump p t) (\<lambda>x. runs ?far (patchlist_loop m q t NO_REG t) ?R) ?s1"
    proof (rule runs_mono [OF runs_fixjump [OF n1]], clarify)
      assume far: "\<bar>t - (p + 1)\<bar> \<le> MAXARG_sBx"
      let ?s2 = "coded ?s1 ((f_code (fs ?s1))[nat p := SETARG_sBx (f_code (fs ?s1) ! nat p) (t - (p + 1))])"
      have nodes: "\<forall>r \<in> set ps. is_node ?cs r" using chain_nodes [OF p(4)] by blast
      have "chain (test_word ?cs p) q ps"
        using chain_same [OF p(4)] test_word_same by (simp add: same_nodes_def)
      then have "chain (f_code (fs ?s2)) q ps" using Cons.prems(2) p(2) by (simp add: chain_update is_node_def)
      moreover have "distinct ps" using Cons.prems(2) by simp
      moreover have "controlled (f_code (fs ?s2)) ps"
        using controlled_step [of ?cs ps p p] Cons.prems(3) by (simp add: controlled_def)
      ultimately have "runs (\<exists>p \<in> set ps. MAXARG_sBx < \<bar>t - (p + 1)\<bar>) (patchlist_loop m q t NO_REG t)
        (\<lambda>_ s'. s' = coded ?s2 (patch_list (f_code (fs ?s2)) (set ps) t) \<and> (\<forall>p \<in> set ps. \<bar>t - (p + 1)\<bar> \<le> MAXARG_sBx)) ?s2"
        by (rule Cons.IH [OF _ _ _ n(2)])
      moreover have "patch_list (f_code (fs ?s2)) (set ps) t = patch_list ?cs (set (p # ps)) t"
        by (rule patch_step [OF p(2) nodes]) (use Cons.prems(2) in simp_all)
      ultimately show "runs ?far (patchlist_loop m q t NO_REG t) ?R ?s2"
        using far by (elim runs_mono) auto
    qed simp
  qed simp
  then show ?case using p ne n by (simp add: getjump_def)
qed

lemma chain_length:
  assumes "chain cs l ps" and "distinct ps"
  shows "length ps \<le> length cs"
proof -
  have "set ps \<subseteq> {0..<int (length cs)}" using chain_nodes [OF assms(1)] by (auto simp: is_node_def)
  then have "card (set ps) \<le> card {0..<int (length cs)}" by (intro card_mono) auto
  with assms(2) show ?thesis by (simp add: distinct_card)
qed

lemma runs_patchlistaux:
  assumes "chain (f_code (fs s)) l ps" and "distinct ps" and "controlled (f_code (fs s)) ps"
  shows "runs (\<exists>p \<in> set ps. MAXARG_sBx < \<bar>t - (p + 1)\<bar>) (patchlistaux l t NO_REG t)
    (\<lambda>_ s'. s' = coded s (patch_list (f_code (fs s)) (set ps) t) \<and> (\<forall>p \<in> set ps. \<bar>t - (p + 1)\<bar> \<le> MAXARG_sBx)) s"
  using runs_patchlist_loop [OF assms, of "list_fuel (fs s)" t] chain_length [OF assms(1,2)] by (simp add: patchlistaux_def)

lemma runs_luaK_code:
  assumes "chain (f_code (fs s)) (jpc (fs s)) ps" and "distinct ps" and "controlled (f_code (fs s)) ps"
  shows "runs (MAX_INT \<le> pc (fs s) \<or> (\<exists>p \<in> set ps. MAXARG_sBx < \<bar>pc (fs s) - (p + 1)\<bar>)) (luaK_code i line)
    (\<lambda>r s'. r = pc (fs s) \<and> (\<forall>p \<in> set ps. \<bar>pc (fs s) - (p + 1)\<bar> \<le> MAXARG_sBx)
       \<and> s' = s\<lparr>fs := (fs s)\<lparr>f_code := patch_list (f_code (fs s)) (set ps) (pc (fs s)) @ [i], jpc := NO_JUMP,
            f_lineinfo := f_lineinfo (fs s) @ [line]\<rparr>\<rparr>) s"
  unfolding luaK_code_def dischargejpc_def runs_bind runs_simps
  by (rule runs_mono [OF runs_patchlistaux [OF assms, of "pc (fs s)"]]) auto

end
