(* ===== verification/LuaState.thy ===== *)
theory LuaState
  imports LuaTable
begin

text \<open>
  The collectable objects and the global state (\<^verbatim>\<open>lobject.h\<close>, \<^verbatim>\<open>lstate.h\<close>), the
  bits of the mark of an object (\<^verbatim>\<open>lgc.h\<close>) and the search for tag methods
  (\<^verbatim>\<open>ltm.c\<close>). The heap maps the address of an object to it; reading an address that has no
  object is undefined. A list that the code chains through the objects (\<open>next\<close>, \<open>gclist\<close>,
  the double chain of open upvalues) is the list of their addresses.
\<close>

section \<open>Objects\<close>

record TString =
  reserved :: byte
  hash :: u32
  bytes :: string

record Udata =
  u_metatable :: "ptr option"
  u_env :: ptr
  u_len :: u64

text \<open>An upvalue holds its value, or points to a place of the stack of a thread.\<close>

datatype UpVal = Closed TValue | Open ptr nat

datatype Closure =
    CClosure (c_env: ptr) (c_f: ptr) (upvalue: "TValue list")
  | LClosure (c_env: ptr) (l_p: ptr) (upvals: "ptr option list")

text \<open>A prototype in the heap refers to its strings and functions by address.\<close>

record HProto =
  h_k :: "TValue list"
  h_code :: "Instruction list"
  h_p :: "ptr option list"
  h_lineinfo :: "int list"
  h_locvars :: "(ptr option \<times> int \<times> int) list"
  h_upvalues :: "ptr option list"
  h_source :: "ptr option"
  h_linedefined :: int
  h_lastlinedefined :: int
  h_nups :: byte
  h_numparams :: byte
  h_is_vararg :: byte
  h_maxstacksize :: byte

text \<open>Pointers into the stack are indices of it.\<close>

record CallInfo =
  ci_base :: nat
  ci_func :: nat
  ci_top :: nat
  ci_savedpc :: nat
  ci_nresults :: int
  ci_tailcalls :: int

record lua_State =
  L_status :: byte
  L_top :: nat
  L_base :: nat
  L_ci :: nat
  L_savedpc :: nat
  L_stack_last :: nat
  L_stack :: "TValue list"
  L_base_ci :: "CallInfo list"
  L_nCcalls :: nat
  L_hookmask :: byte
  L_allowhook :: byte
  L_basehookcount :: int
  L_hookcount :: int
  L_hook :: ptr
  L_gt :: TValue
  L_env :: TValue
  L_openupval :: "ptr list"
  L_errfunc :: nat

datatype body =
    OString TString
  | OUdata Udata
  | OUpVal UpVal
  | OClosure Closure
  | OTable Table
  | OThread lua_State
  | OProto HProto

record GCObject =
  marked :: byte
  body :: body

section \<open>Marks\<close>

abbreviation (input) WHITE0BIT :: nat where "WHITE0BIT \<equiv> 0"
abbreviation (input) WHITE1BIT :: nat where "WHITE1BIT \<equiv> 1"
abbreviation (input) BLACKBIT :: nat where "BLACKBIT \<equiv> 2"
abbreviation (input) FINALIZEDBIT :: nat where "FINALIZEDBIT \<equiv> 3"
abbreviation (input) KEYWEAKBIT :: nat where "KEYWEAKBIT \<equiv> 3"
abbreviation (input) VALUEWEAKBIT :: nat where "VALUEWEAKBIT \<equiv> 4"
abbreviation (input) FIXEDBIT :: nat where "FIXEDBIT \<equiv> 5"
abbreviation (input) SFIXEDBIT :: nat where "SFIXEDBIT \<equiv> 6"

abbreviation (input) WHITEBITS :: byte where "WHITEBITS \<equiv> 3"

definition iswhite :: "byte \<Rightarrow> bool" where
  "iswhite m \<longleftrightarrow> bit m WHITE0BIT \<or> bit m WHITE1BIT"

definition isblack :: "byte \<Rightarrow> bool" where
  "isblack m \<longleftrightarrow> bit m BLACKBIT"

definition isgray :: "byte \<Rightarrow> bool" where
  "isgray m \<longleftrightarrow> \<not> isblack m \<and> \<not> iswhite m"

definition white2gray :: "byte \<Rightarrow> byte" where
  "white2gray m = unset_bit WHITE1BIT (unset_bit WHITE0BIT m)"

definition gray2black :: "byte \<Rightarrow> byte" where
  "gray2black m = set_bit BLACKBIT m"

definition black2gray :: "byte \<Rightarrow> byte" where
  "black2gray m = unset_bit BLACKBIT m"

text \<open>Arguments are \<open>currentwhite\<close> and the mark.\<close>

definition otherwhite :: "byte \<Rightarrow> byte" where
  "otherwhite cw = cw XOR WHITEBITS"

definition luaC_white :: "byte \<Rightarrow> byte" where
  "luaC_white cw = cw AND WHITEBITS"

definition isdead :: "byte \<Rightarrow> byte \<Rightarrow> bool" where
  "isdead cw m \<longleftrightarrow> m AND otherwhite cw AND WHITEBITS \<noteq> 0"

definition makewhite :: "byte \<Rightarrow> byte \<Rightarrow> byte" where
  "makewhite cw m = (unset_bit BLACKBIT (unset_bit WHITE1BIT (unset_bit WHITE0BIT m))) OR luaC_white cw"

definition changewhite :: "byte \<Rightarrow> byte" where
  "changewhite m = m XOR WHITEBITS"

section \<open>The global state\<close>

abbreviation (input) GCSpause :: nat where "GCSpause \<equiv> 0"
abbreviation (input) GCSpropagate :: nat where "GCSpropagate \<equiv> 1"
abbreviation (input) GCSsweepstring :: nat where "GCSsweepstring \<equiv> 2"
abbreviation (input) GCSsweep :: nat where "GCSsweep \<equiv> 3"
abbreviation (input) GCSfinalize :: nat where "GCSfinalize \<equiv> 4"

text \<open>
  A pointer to the link of a list: the head of the list, or the \<open>next\<close> field of an object.
  The circular list \<open>tmudata\<close> is given from its first element on.
\<close>

datatype link = Head | Next ptr

record global_State =
  heap :: "ptr \<Rightarrow> GCObject option"
  strt :: "ptr list list"
  strt_nuse :: u32
  currentwhite :: byte
  gcstate :: nat
  sweepstrgc :: nat
  rootgc :: "ptr list"
  sweepgc :: link
  gray :: "ptr list"
  grayagain :: "ptr list"
  weak :: "ptr list"
  tmudata :: "ptr list"
  g_buffsize :: u64
  GCthreshold :: u64
  totalbytes :: u64
  estimate :: u64
  gcdept :: u64
  gcpause :: int
  gcstepmul :: int
  l_registry :: TValue
  mainthread :: ptr
  uvhead :: "ptr list"
  g_mt :: "ptr option list"
  tmname :: "ptr list"

type_synonym 'a gc = "(global_State, 'a) step"

section \<open>Access to objects\<close>

definition get_obj :: "ptr \<Rightarrow> GCObject gc" where
  "get_obj p g = (case heap g p of None \<Rightarrow> Undef | Some x \<Rightarrow> Ok (x, g))"

definition set_obj :: "ptr \<Rightarrow> GCObject \<Rightarrow> unit gc" where
  "set_obj p x g = Ok ((), g\<lparr>heap := (heap g)(p \<mapsto> x)\<rparr>)"

text \<open>The assignment \<open>o->marked = f(o->marked)\<close>\<close>

definition upd_mark :: "(byte \<Rightarrow> byte) \<Rightarrow> ptr \<Rightarrow> unit gc" where
  "upd_mark f p = sbind (get_obj p) (\<lambda>x. set_obj p (x\<lparr>marked := f (marked x)\<rparr>))"

definition set_body :: "ptr \<Rightarrow> body \<Rightarrow> unit gc" where
  "set_body p b = sbind (get_obj p) (\<lambda>x. set_obj p (x\<lparr>body := b\<rparr>))"

text \<open>Access through a pointer of a given type; another kind of object there is undefined.\<close>

definition gco2h :: "ptr \<Rightarrow> Table gc" where
  "gco2h p = sbind (get_obj p) (\<lambda>x g. case body x of OTable h \<Rightarrow> Ok (h, g) | _ \<Rightarrow> Undef)"

definition gco2u :: "ptr \<Rightarrow> Udata gc" where
  "gco2u p = sbind (get_obj p) (\<lambda>x g. case body x of OUdata u \<Rightarrow> Ok (u, g) | _ \<Rightarrow> Undef)"

definition gco2ts :: "ptr \<Rightarrow> TString gc" where
  "gco2ts p = sbind (get_obj p) (\<lambda>x g. case body x of OString s \<Rightarrow> Ok (s, g) | _ \<Rightarrow> Undef)"

definition gco2uv :: "ptr \<Rightarrow> UpVal gc" where
  "gco2uv p = sbind (get_obj p) (\<lambda>x g. case body x of OUpVal u \<Rightarrow> Ok (u, g) | _ \<Rightarrow> Undef)"

definition gco2th :: "ptr \<Rightarrow> lua_State gc" where
  "gco2th p = sbind (get_obj p) (\<lambda>x g. case body x of OThread t \<Rightarrow> Ok (t, g) | _ \<Rightarrow> Undef)"

definition set_table :: "ptr \<Rightarrow> Table \<Rightarrow> unit gc" where
  "set_table p h = set_body p (OTable h)"

definition modify :: "(global_State \<Rightarrow> global_State) \<Rightarrow> unit gc" where
  "modify f g = Ok ((), f g)"

definition undef :: "'a gc" where
  "undef g = Undef"

definition of_state :: "(global_State \<Rightarrow> 'a) \<Rightarrow> 'a gc" where
  "of_state f g = Ok (f g, g)"

text \<open>\<open>*uv->v\<close>\<close>

definition uv_value :: "UpVal \<Rightarrow> TValue gc" where
  "uv_value u =
     (case u of
        Closed v \<Rightarrow> sret v
      | Open th i \<Rightarrow> sbind (gco2th th) (\<lambda>t g. if i < length (L_stack t) then Ok (L_stack t ! i, g) else Undef))"

text \<open>A loop over the elements of a list.\<close>

primrec for_each :: "('a \<Rightarrow> unit gc) \<Rightarrow> 'a list \<Rightarrow> unit gc" where
  "for_each f [] = sret ()"
| "for_each f (x # xs) = sbind (f x) (\<lambda>_. for_each f xs)"

text \<open>What a step does to the state it leaves, as a relation \<open>R\<close> that sequences of steps keep.\<close>

definition steps :: "(global_State \<Rightarrow> global_State \<Rightarrow> bool) \<Rightarrow> 'a gc \<Rightarrow> bool" where
  "steps R m \<longleftrightarrow> (\<forall>g x g'. m g = Ok (x, g') \<longrightarrow> R g g')"

lemma stepsD: "steps R m \<Longrightarrow> m g = Ok (x, g') \<Longrightarrow> R g g'"
  by (auto simp: steps_def)

lemma steps_get: "(\<And>g. R g g) \<Longrightarrow> steps R (get_obj p)"
  by (auto simp: steps_def get_obj_def split: option.splits)

locale state_frame =
  fixes R :: "global_State \<Rightarrow> global_State \<Rightarrow> bool"
  assumes same: "R g g"
    and sequence: "R g0 g1 \<Longrightarrow> R g1 g2 \<Longrightarrow> R g0 g2"
begin

lemma steps_bind: "steps R m \<Longrightarrow> (\<And>x. steps R (f x)) \<Longrightarrow> steps R (sbind m f)"
  unfolding steps_def by (fastforce elim!: sbind_OkE intro: sequence)

lemma steps_ret: "steps R (sret x)"
  by (simp add: steps_def same)

lemma steps_undef: "steps R undef"
  by (simp add: steps_def undef_def)

lemma steps_for_each: "(\<And>x. steps R (f x)) \<Longrightarrow> steps R (for_each f xs)"
  by (induction xs) (auto intro: steps_bind steps_ret)

lemma steps_access:
  "steps R (gco2h p)" "steps R (gco2u p)" "steps R (gco2ts p)" "steps R (gco2uv p)" "steps R (gco2th p)"
  unfolding gco2h_def gco2u_def gco2ts_def gco2uv_def gco2th_def
  by (rule steps_bind [OF steps_get [OF same]]; simp add: steps_def same split: body.splits)+

lemma steps_uv_value: "steps R (uv_value u)"
  unfolding uv_value_def
  by (cases u) (auto intro!: steps_bind steps_ret steps_access, auto simp: steps_def same)

end

section \<open>Tag methods\<close>

abbreviation (input) TM_INDEX :: nat where "TM_INDEX \<equiv> 0"
abbreviation (input) TM_NEWINDEX :: nat where "TM_NEWINDEX \<equiv> 1"
abbreviation (input) TM_GC :: nat where "TM_GC \<equiv> 2"
abbreviation (input) TM_MODE :: nat where "TM_MODE \<equiv> 3"
abbreviation (input) TM_EQ :: nat where "TM_EQ \<equiv> 4"

text \<open>The hash of a string, as the search in tables reads it.\<close>

definition str_hash :: "global_State \<Rightarrow> ptr \<Rightarrow> u32" where
  "str_hash g p = (case heap g p of Some x \<Rightarrow> (case body x of OString s \<Rightarrow> hash s | _ \<Rightarrow> 0) | None \<Rightarrow> 0)"

definition luaT_gettm :: "ptr \<Rightarrow> nat \<Rightarrow> ptr \<Rightarrow> TValue option gc" where
  "luaT_gettm events event ename =
     sbind (gco2h events) (\<lambda>h. sbind (gco2ts ename) (\<lambda>_ g.
       rbind (luaH_getstr (str_hash g) h ename) (\<lambda>r.
         if ttisnil (deref h r)
         then sbind (set_table events (h\<lparr>flags := set_bit event (flags h)\<rparr>)) (\<lambda>_. sret None) g
         else Ok (Some (deref h r), g))))"

definition gfasttm :: "ptr option \<Rightarrow> nat \<Rightarrow> TValue option gc" where
  "gfasttm et e =
     (case et of
        None \<Rightarrow> sret None
      | Some t \<Rightarrow> sbind (gco2h t) (\<lambda>h g.
          if bit (flags h) e then Ok (None, g)
          else if e < length (tmname g) then luaT_gettm t e (tmname g ! e) g
          else Undef))"

section \<open>Sizes\<close>

text \<open>The sizes the compiler gives the C types.\<close>

abbreviation (input) sizeof_TValue :: nat where "sizeof_TValue \<equiv> 16"
abbreviation (input) sizeof_Node :: nat where "sizeof_Node \<equiv> 40"
abbreviation (input) sizeof_Table :: nat where "sizeof_Table \<equiv> 64"
abbreviation (input) sizeof_Proto :: nat where "sizeof_Proto \<equiv> 120"
abbreviation (input) sizeof_LocVar :: nat where "sizeof_LocVar \<equiv> 16"
abbreviation (input) sizeof_CallInfo :: nat where "sizeof_CallInfo \<equiv> 40"
abbreviation (input) sizeof_lua_State :: nat where "sizeof_lua_State \<equiv> 184"
abbreviation (input) sizeof_TString :: nat where "sizeof_TString \<equiv> 24"
abbreviation (input) sizeof_Udata :: nat where "sizeof_Udata \<equiv> 40"
abbreviation (input) sizeof_UpVal :: nat where "sizeof_UpVal \<equiv> 40"

definition sizeCclosure :: "nat \<Rightarrow> int" where
  "sizeCclosure n = 56 + 16 * (int n - 1)"

definition sizeLclosure :: "nat \<Rightarrow> int" where
  "sizeLclosure n = 48 + 8 * (int n - 1)"

definition sizestring :: "TString \<Rightarrow> u64" where
  "sizestring s = of_nat sizeof_TString + (of_nat (length (bytes s)) + 1)"

definition sizeudata :: "Udata \<Rightarrow> u64" where
  "sizeudata u = of_nat sizeof_Udata + u_len u"

definition size_closure :: "Closure \<Rightarrow> int" where
  "size_closure c =
     (case c of
        CClosure _ _ uvs \<Rightarrow> sizeCclosure (length uvs)
      | LClosure _ _ uvs \<Rightarrow> sizeLclosure (length uvs))"

definition size_table :: "Table \<Rightarrow> int" where
  "size_table h = int sizeof_Table + int sizeof_TValue * int (length (array h)) + int sizeof_Node * int (sizenode h)"

definition size_thread :: "lua_State \<Rightarrow> int" where
  "size_thread t = int sizeof_lua_State + int sizeof_TValue * int (length (L_stack t))
     + int sizeof_CallInfo * int (length (L_base_ci t))"

definition size_proto :: "HProto \<Rightarrow> int" where
  "size_proto f = int sizeof_Proto + 4 * int (length (h_code f)) + 8 * int (length (h_p f))
     + int sizeof_TValue * int (length (h_k f)) + 4 * int (length (h_lineinfo f))
     + int sizeof_LocVar * int (length (h_locvars f)) + 8 * int (length (h_upvalues f))"

section \<open>Memory\<close>

text \<open>\<open>luaM_malloc\<close> and \<open>luaM_freemem\<close> keep the count of the bytes in use.\<close>

definition luaM_malloc :: "u64 \<Rightarrow> unit gc" where
  "luaM_malloc n = modify (\<lambda>g. g\<lparr>totalbytes := totalbytes g + n\<rparr>)"

definition luaM_freemem :: "u64 \<Rightarrow> unit gc" where
  "luaM_freemem n = modify (\<lambda>g. g\<lparr>totalbytes := totalbytes g - n\<rparr>)"

text \<open>The object at \<open>p\<close> is given back: reading it is undefined from then on.\<close>

definition release :: "ptr \<Rightarrow> u64 \<Rightarrow> unit gc" where
  "release p n = sbind (modify (\<lambda>g. g\<lparr>heap := (heap g)(p := None)\<rparr>)) (\<lambda>_. luaM_freemem n)"

end
