(* ===== verification/LuaTableInv.thy ===== *)
theory LuaTableInv
  imports LuaTable
begin

text \<open>
  The invariant of the node vector of a table and the three ways a key enters it: a free main
  position is taken, the new key goes to a free node behind the key that owns the main
  position, or a colliding node that is out of its own main position is moved away. The
  lemmas hold for every main-position function that respects raw equality; the locale
  \<open>node_hash\<close> states that contract and is interpreted on \<open>mainposition\<close>.
\<close>

section \<open>The invariant\<close>

text \<open>A node that holds a key which has not been declared dead.\<close>

definition present :: "Node \<Rightarrow> bool" where
  "present n \<longleftrightarrow> i_key n \<noteq> VNil \<and> ttype (i_key n) \<noteq> 11"

definition nedges :: "Node list \<Rightarrow> (nat \<times> nat) set" where
  "nedges ns = {(i, j). i < length ns \<and> i_next (ns ! i) = Some j}"

text \<open>
  Links stay inside the vector, join nodes that are in use, never share a target and go down
  in some rank, so chains are finite.
\<close>

definition links_ok :: "Node list \<Rightarrow> bool" where
  "links_ok ns \<longleftrightarrow>
     (\<forall>i j. (i, j) \<in> nedges ns \<longrightarrow> j < length ns \<and> i_key (ns ! i) \<noteq> VNil \<and> i_key (ns ! j) \<noteq> VNil)
   \<and> (\<forall>i j k. (i, k) \<in> nedges ns \<longrightarrow> (j, k) \<in> nedges ns \<longrightarrow> i = j)
   \<and> (\<exists>r :: nat \<Rightarrow> nat. \<forall>i j. (i, j) \<in> nedges ns \<longrightarrow> r j < r i)"

definition keys_ok :: "Node list \<Rightarrow> bool" where
  "keys_ok ns \<longleftrightarrow>
     (\<forall>i < length ns. (\<not> present (ns ! i) \<longrightarrow> i_val (ns ! i) = VNil) \<and> \<not> is_NaN (i_key (ns ! i)))
   \<and> (\<forall>i < length ns. \<forall>j < length ns. present (ns ! i) \<longrightarrow> present (ns ! j)
        \<longrightarrow> luaO_rawequalObj (i_key (ns ! i)) (i_key (ns ! j)) \<longrightarrow> i = j)"

text \<open>
  Every key is on the chain of its main position, and that position is taken by a key at home
  there (or by a dead one).
\<close>

definition homes_ok :: "(TValue \<Rightarrow> nat) \<Rightarrow> Node list \<Rightarrow> bool" where
  "homes_ok mp ns \<longleftrightarrow>
     (\<forall>i < length ns. present (ns ! i) \<longrightarrow>
        (mp (i_key (ns ! i)), i) \<in> (nedges ns)\<^sup>*
      \<and> (let q = mp (i_key (ns ! i))
         in i_key (ns ! q) \<noteq> VNil \<and> (ttype (i_key (ns ! q)) = 11 \<or> mp (i_key (ns ! q)) = q)))"

definition node_inv :: "(TValue \<Rightarrow> nat) \<Rightarrow> Node list \<Rightarrow> bool" where
  "node_inv mp ns \<longleftrightarrow> links_ok ns \<and> keys_ok ns \<and> homes_ok mp ns"

text \<open>No free node lies at or above \<open>lastfree\<close>.\<close>

definition free_below :: "Node list \<Rightarrow> int \<Rightarrow> bool" where
  "free_below ns lf \<longleftrightarrow>
     lf \<le> int (length ns) \<and> (\<forall>i < length ns. lf \<le> int i \<longrightarrow> i_key (ns ! i) \<noteq> VNil)"

definition used :: "Node list \<Rightarrow> nat set" where
  "used ns = {i. i < length ns \<and> i_key (ns ! i) \<noteq> VNil}"

text \<open>The entries of the node vector: the pairs whose value is not nil.\<close>

definition live :: "Node list \<Rightarrow> (TValue \<times> TValue) set" where
  "live ns = {(i_key (ns ! i), i_val (ns ! i)) |i. i < length ns \<and> i_val (ns ! i) \<noteq> VNil}"

text \<open>A key a table can hold.\<close>

definition valid_key :: "TValue \<Rightarrow> bool" where
  "valid_key k \<longleftrightarrow> k \<noteq> VNil \<and> ttype k \<noteq> 11 \<and> \<not> is_NaN k"

definition absent :: "Node list \<Rightarrow> TValue \<Rightarrow> bool" where
  "absent ns k \<longleftrightarrow> (\<forall>i < length ns. \<not> luaO_rawequalObj (i_key (ns ! i)) k)"

lemma length_set_next [simp]: "length (set_next ns j p) = length ns"
  by (simp add: set_next_def)

lemma length_set_key [simp]: "length (set_key ns j k) = length ns"
  by (simp add: set_key_def)

lemma nth_set_next:
  "i < length ns \<Longrightarrow> set_next ns j p ! i = (if i = j then (ns ! j)\<lparr>i_next := p\<rparr> else ns ! i)"
  by (simp add: set_next_def nth_list_update)

lemma nth_set_key:
  "i < length ns \<Longrightarrow> set_key ns j k ! i = (if i = j then (ns ! j)\<lparr>i_key := k\<rparr> else ns ! i)"
  by (simp add: set_key_def nth_list_update)

lemma finite_used [simp]: "finite (used ns)"
  by (simp add: used_def)

lemma card_used: "card (used ns) \<le> length ns"
proof -
  have "card (used ns) \<le> card {..<length ns}"
    by (rule card_mono) (auto simp: used_def)
  then show ?thesis by simp
qed

section \<open>Walking a chain\<close>

definition chain_of :: "Node list \<Rightarrow> nat \<Rightarrow> nat set" where
  "chain_of ns i = {j. (i, j) \<in> (nedges ns)\<^sup>*}"

lemma chain_of_next:
  assumes "i < length ns" and "i_next (ns ! i) = Some j"
  shows "chain_of ns i = insert i (chain_of ns j)"
proof -
  have e: "(i, j) \<in> nedges ns" using assms by (simp add: nedges_def)
  have "j = k" if "(i, k) \<in> nedges ns" for k using that assms by (simp add: nedges_def)
  then show ?thesis unfolding chain_of_def
    by (auto intro: converse_rtrancl_into_rtrancl [OF e] elim: converse_rtranclE)
qed

lemma chain_of_end: "i < length ns \<Longrightarrow> i_next (ns ! i) = None \<Longrightarrow> chain_of ns i = {i}"
  unfolding chain_of_def by (auto simp: nedges_def elim: converse_rtranclE)

lemma chain_of_bounded:
  assumes "links_ok ns" and "i < length ns"
  shows "chain_of ns i \<subseteq> {..<length ns}"
proof
  fix j
  assume "j \<in> chain_of ns i"
  then have "(i, j) \<in> (nedges ns)\<^sup>*" by (simp add: chain_of_def)
  then show "j \<in> {..<length ns}"
    by (induction rule: rtrancl_induct) (use assms in \<open>auto simp: links_ok_def\<close>)
qed

lemma finite_chain_of: "links_ok ns \<Longrightarrow> i < length ns \<Longrightarrow> finite (chain_of ns i)"
  using chain_of_bounded finite_subset by blast

lemma card_chain_of: "links_ok ns \<Longrightarrow> i < length ns \<Longrightarrow> card (chain_of ns i) \<le> length ns"
  using card_mono [OF _ chain_of_bounded] by fastforce

lemma next_not_on_chain:
  assumes "links_ok ns" and "(i, j) \<in> nedges ns"
  shows "i \<notin> chain_of ns j"
proof -
  obtain r :: "nat \<Rightarrow> nat" where r: "\<And>i j. (i, j) \<in> nedges ns \<Longrightarrow> r j < r i"
    using assms(1) by (auto simp: links_ok_def)
  have "r k \<le> r j" if "(j, k) \<in> (nedges ns)\<^sup>*" for k
    using that by (induction rule: rtrancl_induct) (auto dest: r)
  with r [OF assms(2)] show ?thesis by (fastforce simp: chain_of_def)
qed

lemma card_chain_of_next:
  assumes "links_ok ns" and "i < length ns" and "i_next (ns ! i) = Some j"
  shows "card (chain_of ns j) < card (chain_of ns i)"
proof -
  have e: "(i, j) \<in> nedges ns" using assms by (simp add: nedges_def)
  then have "j < length ns" using assms(1) by (auto simp: links_ok_def)
  then show ?thesis
    using next_not_on_chain [OF assms(1) e] finite_chain_of [OF assms(1)]
    by (simp add: chain_of_next [OF assms(2,3)])
qed

text \<open>
  The walk returns, with the first node of the chain that satisfies the test if there is one.
\<close>

lemma chain_walk_returns:
  assumes "links_ok ns" and "i < length ns" and "card (chain_of ns i) \<le> f"
  shows "\<exists>r. chain_walk P ns f i = Ok r
    \<and> (case r of None \<Rightarrow> \<forall>j \<in> chain_of ns i. \<not> P (ns ! j)
       | Some j \<Rightarrow> j \<in> chain_of ns i \<and> P (ns ! j))"
  using assms(2,3)
proof (induction f arbitrary: i)
  case 0
  have "i \<in> chain_of ns i" by (simp add: chain_of_def)
  with 0 finite_chain_of [OF assms(1)] show ?case by auto
next
  case (Suc f)
  have self: "i \<in> chain_of ns i" by (simp add: chain_of_def)
  show ?case
  proof (cases "P (ns ! i)")
    case True
    with self show ?thesis by simp
  next
    case False
    note F = False
    show ?thesis
    proof (cases "i_next (ns ! i)")
      case None
      with F Suc.prems show ?thesis by (simp add: chain_of_end)
    next
      case (Some j)
      with Suc.prems have "(i, j) \<in> nedges ns" by (simp add: nedges_def)
      then have j: "j < length ns" using assms(1) by (auto simp: links_ok_def)
      have "card (chain_of ns j) \<le> f"
        using card_chain_of_next [OF assms(1) Suc.prems(1) Some] Suc.prems(2) by simp
      from Suc.IH [OF j this] F Some show ?thesis
        by (auto simp: chain_of_next [OF Suc.prems(1) Some] split: option.splits)
    qed
  qed
qed

lemma find_previous_returns:
  assumes "links_ok ns" and "i < length ns" and "card (chain_of ns i) \<le> f"
    and "m \<in> chain_of ns i" and "m \<noteq> i"
  shows "\<exists>p. find_previous ns f i m = Ok p \<and> (p, m) \<in> nedges ns"
  using assms(2-)
proof (induction f arbitrary: i)
  case 0
  with finite_chain_of [OF assms(1)] show ?case by auto
next
  case (Suc f)
  obtain j where j: "i_next (ns ! i) = Some j"
    using Suc.prems chain_of_end by (cases "i_next (ns ! i)") auto
  then have e: "(i, j) \<in> nedges ns" using Suc.prems by (simp add: nedges_def)
  show ?case
  proof (cases "j = m")
    case True
    with e j show ?thesis by simp
  next
    case False
    have "j < length ns" using e assms(1) by (auto simp: links_ok_def)
    moreover have "card (chain_of ns j) \<le> f"
      using card_chain_of_next [OF assms(1) Suc.prems(1) j] Suc.prems(2) by simp
    moreover have "m \<in> chain_of ns j"
      using Suc.prems by (simp add: chain_of_next [OF Suc.prems(1) j])
    ultimately show ?thesis using Suc.IH [of j] False j by simp
  qed
qed

section \<open>The contract of the hash function\<close>

locale node_hash =
  fixes mp :: "TValue \<Rightarrow> nat" and sz :: nat
  assumes mp_less: "mp k < sz"
    and mp_eq: "luaO_rawequalObj a b \<Longrightarrow> mp a = mp b"
begin

text \<open>Searching the chain of a key's main position finds the key wherever it is.\<close>

lemma walk_finds:
  assumes inv: "node_inv mp ns" and len: "length ns = sz"
    and k: "k \<noteq> VNil" "ttype k \<noteq> 11"
    and P: "\<And>i. i < length ns \<Longrightarrow> P (ns ! i) \<longleftrightarrow> luaO_rawequalObj (i_key (ns ! i)) k"
    and start: "s = mp k"
  shows "\<exists>r. chain_walk P ns (length ns) s = Ok r
    \<and> (\<forall>i. r = Some i \<longleftrightarrow> i < length ns \<and> luaO_rawequalObj (i_key (ns ! i)) k)"
proof -
  have links: "links_ok ns" and keys: "keys_ok ns" and homes: "homes_ok mp ns"
    using inv by (simp_all add: node_inv_def)
  have s: "s < length ns" using mp_less len start by simp
  obtain r where r: "chain_walk P ns (length ns) s = Ok r"
    and R: "case r of None \<Rightarrow> \<forall>j \<in> chain_of ns s. \<not> P (ns ! j)
       | Some j \<Rightarrow> j \<in> chain_of ns s \<and> P (ns ! j)"
    using chain_walk_returns [OF links s card_chain_of [OF links s]] by blast
  have eq_present: "present (ns ! i)" if "luaO_rawequalObj (i_key (ns ! i)) k" for i
    using that k by (cases k; cases "i_key (ns ! i)") (auto simp: present_def)
  have on_chain: "i \<in> chain_of ns s"
    if "i < length ns" "luaO_rawequalObj (i_key (ns ! i)) k" for i
    using homes that eq_present [OF that(2)] mp_eq [OF that(2)]
    by (auto simp: homes_ok_def chain_of_def start)
  have unique: "i = j" if "i < length ns" "luaO_rawequalObj (i_key (ns ! i)) k"
    "j < length ns" "luaO_rawequalObj (i_key (ns ! j)) k" for i j
  proof -
    have "luaO_rawequalObj (i_key (ns ! i)) (i_key (ns ! j))"
      using that rawequal_sym rawequal_trans by blast
    then show ?thesis using keys that eq_present by (auto simp: keys_ok_def)
  qed
  show ?thesis
  proof (intro exI [of _ r] conjI allI)
    fix i
    show "r = Some i \<longleftrightarrow> i < length ns \<and> luaO_rawequalObj (i_key (ns ! i)) k"
    proof (cases r)
      case None
      with R on_chain P show ?thesis by auto
    next
      case (Some j)
      with R have "j \<in> chain_of ns s" and "P (ns ! j)" by simp_all
      moreover have "j < length ns"
        using chain_of_bounded [OF links s] calculation by auto
      ultimately show ?thesis using Some P unique by auto
    qed
  qed (rule r)
qed

text \<open>First way: the main position is free.\<close>

lemma insert_at_home:
  assumes inv: "node_inv mp ns" and len: "length ns = sz"
    and k: "valid_key k" "absent ns k" and m: "m = mp k" and v: "i_val (ns ! m) = VNil"
  shows "node_inv mp (set_key ns m k)"
proof -
  have ml: "m < length ns" using mp_less len m by simp
  let ?ns = "set_key ns m k"
  note nth = nth_set_key [of _ ns m k]
  have E: "nedges ?ns = nedges ns" using nth by (auto simp: nedges_def split: if_splits)
  have kn: "k \<noteq> VNil" "ttype k \<noteq> 11" "\<not> is_NaN k" using k by (simp_all add: valid_key_def)
  have links: "links_ok ns" and keys: "keys_ok ns" and homes: "homes_ok mp ns"
    using inv by (simp_all add: node_inv_def)
  have "links_ok ?ns" unfolding links_ok_def E
  proof (intro conjI)
    show "\<forall>i j. (i, j) \<in> nedges ns \<longrightarrow>
        j < length ?ns \<and> i_key (?ns ! i) \<noteq> VNil \<and> i_key (?ns ! j) \<noteq> VNil"
      using links kn nth by (auto simp: links_ok_def nedges_def)
  qed (use links in \<open>auto simp: links_ok_def\<close>)
  moreover have "keys_ok ?ns"
    using keys k v kn nth by (auto simp: keys_ok_def absent_def present_def rawequal_sym)
  moreover have "homes_ok mp ?ns"
    unfolding homes_ok_def E
  proof (intro allI impI)
    fix i
    assume i: "i < length ?ns" and p: "present (?ns ! i)"
    show "(mp (i_key (?ns ! i)), i) \<in> (nedges ns)\<^sup>* \<and> (let q = mp (i_key (?ns ! i))
         in i_key (?ns ! q) \<noteq> VNil \<and> (ttype (i_key (?ns ! q)) = 11 \<or> mp (i_key (?ns ! q)) = q))"
    proof (cases "i = m")
      case True
      have "i_key (?ns ! m) = k" using ml by (simp add: nth)
      with True kn m [symmetric] show ?thesis by (simp add: Let_def)
    next
      case False
      then have "present (ns ! i)" using i p by (simp add: nth)
      then have H: "(mp (i_key (ns ! i)), i) \<in> (nedges ns)\<^sup>*"
        "let q = mp (i_key (ns ! i))
         in i_key (ns ! q) \<noteq> VNil \<and> (ttype (i_key (ns ! q)) = 11 \<or> mp (i_key (ns ! q)) = q)"
        using homes i by (simp_all add: homes_ok_def)
      let ?q = "mp (i_key (ns ! i))"
      have q: "?q < length ns" using mp_less len by simp
      have key: "i_key (?ns ! j) = (if j = m then k else i_key (ns ! j))" if "j < length ns" for j
        using that by (simp add: nth)
      have i': "i_key (?ns ! i) = i_key (ns ! i)" using False i by (simp add: key)
      show ?thesis
      proof (cases "?q = m")
        case True
        with H kn ml m [symmetric] show ?thesis by (simp add: i' key Let_def)
      next
        case False
        with H q show ?thesis by (simp add: i' key Let_def)
      qed
    qed
  qed
  ultimately show ?thesis by (simp add: node_inv_def)
qed

text \<open>Second way: behind the owner of the main position.\<close>

lemma insert_behind:
  assumes inv: "node_inv mp ns" and len: "length ns = sz"
    and k: "valid_key k" "absent ns k" and m: "m = mp k"
    and own: "i_key (ns ! m) \<noteq> VNil" "mp (i_key (ns ! m)) = m"
    and n: "n < length ns" "i_key (ns ! n) = VNil"
    and ns': "ns' = set_key (set_next (set_next ns n (i_next (ns ! m))) m (Some n)) n k"
  shows "node_inv mp ns'"
proof -
  have ml: "m < length ns" using mp_less len m by simp
  have nm: "n \<noteq> m" using n own by auto
  have nth: "ns' ! i = (if i = n then (ns ! n)\<lparr>i_next := i_next (ns ! m), i_key := k\<rparr>
      else if i = m then (ns ! m)\<lparr>i_next := Some n\<rparr> else ns ! i)" if "i < length ns" for i
  proof -
    have "n \<noteq> m" "m \<noteq> n" using nm by auto
    with that n ml show ?thesis unfolding ns' by (simp add: nth_set_next nth_set_key)
  qed
  have L [simp]: "length ns' = length ns" by (simp add: ns')
  have kn: "k \<noteq> VNil" "ttype k \<noteq> 11" "\<not> is_NaN k" using k by (simp_all add: valid_key_def)
  have links: "links_ok ns" and keys: "keys_ok ns" and homes: "homes_ok mp ns"
    using inv by (simp_all add: node_inv_def)
  have valn: "i_val (ns ! n) = VNil"
    using keys n by (auto simp: keys_ok_def present_def)
  have noin: "(i, n) \<notin> nedges ns" and noout: "(n, i) \<notin> nedges ns" for i
    using links n by (auto simp: links_ok_def)
  have E: "(i, j) \<in> nedges ns' \<longleftrightarrow>
      (i = m \<and> j = n) \<or> (i = n \<and> (m, j) \<in> nedges ns) \<or> (i \<noteq> m \<and> (i, j) \<in> nedges ns)" for i j
  proof -
    consider "i = n" | "i = m" | "i \<noteq> n" "i \<noteq> m" by blast
    then show ?thesis
    proof cases
      case 1
      then show ?thesis using noout [of j] n(1) ml nm nth [OF n(1)] by (simp add: nedges_def)
    next
      case 2
      have "i_next (ns' ! m) = Some n" using nth [OF ml] nm by simp
      with 2 show ?thesis using ml nm by (auto simp: nedges_def)
    next
      case 3
      then show ?thesis using nth [of i] by (auto simp: nedges_def)
    qed
  qed
  have "links_ok ns'" unfolding links_ok_def
  proof (intro conjI)
    show "\<forall>i j. (i, j) \<in> nedges ns' \<longrightarrow>
        j < length ns' \<and> i_key (ns' ! i) \<noteq> VNil \<and> i_key (ns' ! j) \<noteq> VNil"
    proof (intro allI impI)
      fix i j
      assume ij: "(i, j) \<in> nedges ns'"
      have b: "i < length ns" using ij n ml by (auto simp: E nedges_def)
      have "j < length ns \<and> (j = n \<or> i_key (ns ! j) \<noteq> VNil)"
        using ij n links by (auto simp: E links_ok_def)
      moreover have "i = n \<or> i_key (ns ! i) \<noteq> VNil"
        using ij own links by (auto simp: E links_ok_def)
      ultimately show "j < length ns' \<and> i_key (ns' ! i) \<noteq> VNil \<and> i_key (ns' ! j) \<noteq> VNil"
        using b kn own by (auto simp: nth)
    qed
    show "\<forall>i j k. (i, k) \<in> nedges ns' \<longrightarrow> (j, k) \<in> nedges ns' \<longrightarrow> i = j"
      using links noin by (auto simp: E links_ok_def)
    obtain r :: "nat \<Rightarrow> nat" where r: "\<And>i j. (i, j) \<in> nedges ns \<Longrightarrow> r j < r i"
      using links by (auto simp: links_ok_def)
    show "\<exists>r :: nat \<Rightarrow> nat. \<forall>i j. (i, j) \<in> nedges ns' \<longrightarrow> r j < r i"
    proof (intro exI allI impI)
      fix i j
      assume "(i, j) \<in> nedges ns'"
      moreover have "j \<noteq> n" if "(i', j) \<in> nedges ns" for i' using noin that by auto
      moreover have "i \<noteq> n" if "(i, j) \<in> nedges ns" using noout that by auto
      ultimately show "(\<lambda>i. if i = n then 2 * r m else 2 * r i + 1) j
          < (\<lambda>i. if i = n then 2 * r m else 2 * r i + 1) i"
        using nm by (auto simp: E dest: r)
    qed
  qed
  moreover have "keys_ok ns'"
    unfolding keys_ok_def
  proof (intro conjI allI impI)
    fix i
    assume i: "i < length ns'"
    show "i_val (ns' ! i) = VNil" if "\<not> present (ns' ! i)"
      using that i keys valn kn by (auto simp: nth keys_ok_def present_def split: if_splits)
    show "\<not> is_NaN (i_key (ns' ! i))"
      using i keys kn by (auto simp: nth keys_ok_def)
    fix j
    assume j: "j < length ns'" and p: "present (ns' ! i)" "present (ns' ! j)"
      and e: "luaO_rawequalObj (i_key (ns' ! i)) (i_key (ns' ! j))"
    have key: "i_key (ns' ! i') = (if i' = n then k else i_key (ns ! i'))" if "i' < length ns" for i'
      using that by (simp add: nth)
    have pres: "present (ns ! i')" if "i' < length ns" "i' \<noteq> n" "present (ns' ! i')" for i'
      using that by (simp add: present_def key)
    have ab: "\<not> luaO_rawequalObj (i_key (ns ! i')) k" "\<not> luaO_rawequalObj k (i_key (ns ! i'))"
      if "i' < length ns" for i'
      using k(2) that rawequal_sym by (auto simp: absent_def)
    show "i = j"
    proof (cases "i = n \<or> j = n")
      case True
      with e i j ab key show ?thesis by (metis L)
    next
      case False
      with e i j key have "luaO_rawequalObj (i_key (ns ! i)) (i_key (ns ! j))" by simp
      with False i j p pres keys show ?thesis by (simp add: keys_ok_def)
    qed
  qed
  moreover have "homes_ok mp ns'"
    unfolding homes_ok_def
  proof (intro allI impI)
    fix i
    assume i: "i < length ns'" and p: "present (ns' ! i)"
    have sub: "(nedges ns)\<^sup>* \<subseteq> (nedges ns')\<^sup>*"
    proof (rule rtrancl_subset_rtrancl, rule subrelI)
      fix a b
      assume ab: "(a, b) \<in> nedges ns"
      show "(a, b) \<in> (nedges ns')\<^sup>*"
      proof (cases "a = m")
        case True
        then have "(m, n) \<in> nedges ns'" "(n, b) \<in> nedges ns'" using ab by (simp_all add: E)
        with True show ?thesis by (meson r_into_rtrancl rtrancl_trans)
      qed (use ab in \<open>auto simp: E\<close>)
    qed
    show "(mp (i_key (ns' ! i)), i) \<in> (nedges ns')\<^sup>* \<and> (let q = mp (i_key (ns' ! i))
         in i_key (ns' ! q) \<noteq> VNil \<and> (ttype (i_key (ns' ! q)) = 11 \<or> mp (i_key (ns' ! q)) = q))"
    proof (cases "i = n")
      case True
      have "(m, n) \<in> nedges ns'" by (simp add: E)
      with True n ml nm m [symmetric] own show ?thesis by (simp add: nth Let_def r_into_rtrancl)
    next
      case False
      have key: "i_key (ns' ! i) = i_key (ns ! i)" using i False by (simp add: nth)
      then have "present (ns ! i)" using p by (simp add: present_def)
      then have H: "(mp (i_key (ns ! i)), i) \<in> (nedges ns)\<^sup>*"
        "let q = mp (i_key (ns ! i))
         in i_key (ns ! q) \<noteq> VNil \<and> (ttype (i_key (ns ! q)) = 11 \<or> mp (i_key (ns ! q)) = q)"
        using homes i by (simp_all add: homes_ok_def)
      moreover have "mp (i_key (ns ! i)) < length ns" using mp_less len by simp
      moreover have "mp (i_key (ns ! i)) \<noteq> n" using H n by (auto simp: Let_def)
      ultimately show ?thesis using sub by (auto simp: key nth Let_def)
    qed
  qed
  ultimately show ?thesis by (simp add: node_inv_def)
qed

text \<open>
  Third way: the key at \<open>m\<close> is not at home; it moves to the free node \<open>n\<close>. The links are
  those of before with \<open>m\<close> renamed to \<open>n\<close>.
\<close>

lemma insert_move:
  assumes inv: "node_inv mp ns" and len: "length ns = sz"
    and k: "valid_key k" "absent ns k" and m: "m = mp k"
    and pm: "present (ns ! m)" and away: "mp (i_key (ns ! m)) \<noteq> m"
    and n: "n < length ns" "i_key (ns ! n) = VNil"
    and prev: "(p, m) \<in> nedges ns"
    and ns': "ns' = set_key (move_node ns p m n) m k"
  shows "node_inv mp ns'"
proof -
  have ml: "m < length ns" using mp_less len m by simp
  have pl: "p < length ns" using prev by (simp add: nedges_def)
  have links: "links_ok ns" and keys: "keys_ok ns" and homes: "homes_ok mp ns"
    using inv by (simp_all add: node_inv_def)
  have kn: "k \<noteq> VNil" "ttype k \<noteq> 11" "\<not> is_NaN k" using k by (simp_all add: valid_key_def)
  have noin: "(i, n) \<notin> nedges ns" and noout: "(n, i) \<notin> nedges ns" for i
    using links n by (auto simp: links_ok_def)
  have inj: "(i, b) \<in> nedges ns \<Longrightarrow> (j, b) \<in> nedges ns \<Longrightarrow> i = j" for i j b
    using links unfolding links_ok_def by blast
  have nm: "n \<noteq> m" using n pm by (auto simp: present_def)
  have np: "n \<noteq> p" using noout [of m] prev by blast
  have pne: "p \<noteq> m"
    using next_not_on_chain [OF links prev] by (auto simp: chain_of_def)
  have L [simp]: "length ns' = length ns"
    by (simp add: ns' move_node_def Let_def)
  have at_m: "ns' ! m = \<lparr>i_val = VNil, i_key = k, i_next = None\<rparr>"
    using ml n nm by (simp add: ns' move_node_def Let_def set_key_def set_next_def)
  have at_n: "ns' ! n = ns ! m"
    using ml n pl nm np pne
    by (simp add: ns' move_node_def Let_def set_key_def set_next_def nth_list_update)
  have at_p: "ns' ! p = (ns ! p)\<lparr>i_next := Some n\<rparr>"
    using ml n pl nm np pne
    by (simp add: ns' move_node_def Let_def set_key_def set_next_def nth_list_update)
  have at_other: "ns' ! i = ns ! i" if "i \<noteq> m" "i \<noteq> n" "i \<noteq> p" for i
    using that by (simp add: ns' move_node_def Let_def set_key_def set_next_def)
  let ?ren = "\<lambda>x. if x = m then n else x"
  have E: "(i, j) \<in> nedges ns' \<longleftrightarrow> (\<exists>a b. (a, b) \<in> nedges ns \<and> i = ?ren a \<and> j = ?ren b)" for i j
  proof -
    consider "i = n" | "i = m" | "i = p" | "i \<noteq> n" "i \<noteq> m" "i \<noteq> p" by blast
    then show ?thesis
    proof cases
      case 1
      have "b \<noteq> m" if "(m, b) \<in> nedges ns" for b
        using inj [OF prev] that pne by blast
      then have "(\<exists>a b. (a, b) \<in> nedges ns \<and> n = ?ren a \<and> j = ?ren b) \<longleftrightarrow> (m, j) \<in> nedges ns"
        using noout by (metis (full_types))
      moreover have "(n, j) \<in> nedges ns' \<longleftrightarrow> (m, j) \<in> nedges ns"
        using at_n n(1) ml by (simp add: nedges_def)
      ultimately show ?thesis using 1 by simp
    next
      case 2
      then show ?thesis using at_m nm by (auto simp: nedges_def)
    next
      case 3
      then show ?thesis using at_p pne np pl prev by (auto simp: nedges_def)
    next
      case 4
      have "b \<noteq> m" if "(i, b) \<in> nedges ns" for b
        using inj [OF prev] that 4 by blast
      then show ?thesis using 4 at_other [of i] by (auto simp: nedges_def)
    qed
  qed
  have key: "i_key (ns' ! i) = (if i = m then k else if i = n then i_key (ns ! m) else i_key (ns ! i))"
    for i using at_m at_n at_p at_other np pne by (cases "i = p") auto
  have val: "i_val (ns' ! i) = (if i = m then VNil else if i = n then i_val (ns ! m) else i_val (ns ! i))"
    for i using at_m at_n at_p at_other np pne by (cases "i = p") auto
  have keym: "i_key (ns ! m) \<noteq> VNil" using pm by (simp add: present_def)
  have "links_ok ns'" unfolding links_ok_def
  proof (intro conjI allI impI)
    fix i j
    assume "(i, j) \<in> nedges ns'"
    then obtain a b where ab: "(a, b) \<in> nedges ns" "i = ?ren a" "j = ?ren b" by (auto simp: E)
    then have bl: "b < length ns" "i_key (ns ! a) \<noteq> VNil" "i_key (ns ! b) \<noteq> VNil"
      using links by (auto simp: links_ok_def)
    then show "j < length ns'" "i_key (ns' ! i) \<noteq> VNil" "i_key (ns' ! j) \<noteq> VNil"
      using ab n nm keym by (auto simp: key)
  next
    fix i j c
    assume "(i, c) \<in> nedges ns'" "(j, c) \<in> nedges ns'"
    then obtain a b a' b' where ab: "(a, b) \<in> nedges ns" "i = ?ren a" "c = ?ren b"
      "(a', b') \<in> nedges ns" "j = ?ren a'" "c = ?ren b'" by (auto simp: E)
    moreover have "b = b'" using ab noin by (metis (full_types))
    ultimately show "i = j" using inj by blast
  next
    obtain r :: "nat \<Rightarrow> nat" where r: "\<And>i j. (i, j) \<in> nedges ns \<Longrightarrow> r j < r i"
      using links by (auto simp: links_ok_def)
    have "r (if j = n then m else j) < r (if i = n then m else i)" if ij: "(i, j) \<in> nedges ns'" for i j
    proof -
      obtain a b where ab: "(a, b) \<in> nedges ns" "i = ?ren a" "j = ?ren b"
        using ij by (auto simp: E)
      moreover have "a \<noteq> n" "b \<noteq> n" using ab noin noout by auto
      ultimately show ?thesis using r [OF ab(1)] by auto
    qed
    then show "\<exists>r :: nat \<Rightarrow> nat. \<forall>i j. (i, j) \<in> nedges ns' \<longrightarrow> r j < r i"
      by (intro exI [of _ "\<lambda>i. r (if i = n then m else i)"]) simp
  qed
  moreover have "keys_ok ns'"
    unfolding keys_ok_def
  proof (intro conjI allI impI)
    fix i
    assume i: "i < length ns'"
    show "i_val (ns' ! i) = VNil" if "\<not> present (ns' ! i)"
      using that i keys ml pm by (auto simp: key val keys_ok_def present_def split: if_splits)
    show "\<not> is_NaN (i_key (ns' ! i))"
      using i keys kn ml by (auto simp: key keys_ok_def)
    fix j
    assume j: "j < length ns'" and pr: "present (ns' ! i)" "present (ns' ! j)"
      and e: "luaO_rawequalObj (i_key (ns' ! i)) (i_key (ns' ! j))"
    have ab: "\<not> luaO_rawequalObj (i_key (ns ! i')) k" "\<not> luaO_rawequalObj k (i_key (ns ! i'))"
      if "i' < length ns" for i'
      using k(2) that rawequal_sym by (auto simp: absent_def)
    let ?old = "\<lambda>x. if x = n then m else x"
    have old: "?old x < length ns" if "x < length ns" for x using that ml by simp
    show "i = j"
    proof (cases "i = m \<or> j = m")
      case True
      then show ?thesis
        using e ab [OF old [of i]] ab [OF old [of j]] i j by (simp add: key split: if_splits)
    next
      case False
      with e pr have "luaO_rawequalObj (i_key (ns ! ?old i)) (i_key (ns ! ?old j))"
        "present (ns ! ?old i)" "present (ns ! ?old j)" by (simp_all add: key present_def split: if_splits)
      then have "?old i = ?old j"
        using old [of i] old [of j] i j keys unfolding keys_ok_def L by blast
      with False show ?thesis by (simp split: if_splits)
    qed
  qed
  moreover have "homes_ok mp ns'"
    unfolding homes_ok_def
  proof (intro allI impI)
    fix i
    assume i: "i < length ns'" and pr: "present (ns' ! i)"
    have path: "(?ren a, ?ren b) \<in> (nedges ns')\<^sup>*" if "(a, b) \<in> (nedges ns)\<^sup>*" for a b
      using that
    proof (induction rule: rtrancl_induct)
      case (step b c)
      then have "(?ren b, ?ren c) \<in> nedges ns'" unfolding E by blast
      with step.IH show ?case by (rule rtrancl_into_rtrancl)
    qed simp
    show "(mp (i_key (ns' ! i)), i) \<in> (nedges ns')\<^sup>* \<and> (let q = mp (i_key (ns' ! i))
         in i_key (ns' ! q) \<noteq> VNil \<and> (ttype (i_key (ns' ! q)) = 11 \<or> mp (i_key (ns' ! q)) = q))"
    proof (cases "i = m")
      case True
      with kn m [symmetric] show ?thesis by (simp add: key Let_def)
    next
      case False
      let ?i = "if i = n then m else i"
      let ?q = "mp (i_key (ns ! ?i))"
      have ki: "i_key (ns' ! i) = i_key (ns ! ?i)" using False by (simp add: key)
      have "present (ns ! ?i)" using pr by (simp add: present_def ki)
      moreover have "?i < length ns" using i ml by simp
      ultimately have H: "(?q, ?i) \<in> (nedges ns)\<^sup>*"
        "i_key (ns ! ?q) \<noteq> VNil" "ttype (i_key (ns ! ?q)) = 11 \<or> mp (i_key (ns ! ?q)) = ?q"
        using homes [unfolded homes_ok_def Let_def, rule_format, of ?i] by blast+
      have qn: "?q \<noteq> n"
      proof
        assume q: "?q = n"
        from H(2) n show False unfolding q by simp
      qed
      have qm: "?q \<noteq> m"
      proof
        assume q: "?q = m"
        from H(3) pm away show False unfolding q by (simp add: present_def)
      qed
      have "(?q, i) \<in> (nedges ns')\<^sup>*" using path [OF H(1)] qm False by (simp split: if_splits)
      moreover have "i_key (ns' ! ?q) = i_key (ns ! ?q)" using qm qn by (simp add: key)
      ultimately show ?thesis using H(2,3) unfolding ki Let_def by simp
    qed
  qed
  ultimately show ?thesis by (simp add: node_inv_def)
qed

end

end
