(* ===== verification/LuaTableOps.thy ===== *)
theory LuaTableOps
  imports LuaTableInv
begin

text \<open>
  The invariant of a whole table, the reference lookup that ignores the hash structure, and
  the proof that the search functions of \<^verbatim>\<open>ltable.c\<close> compute it.
\<close>

section \<open>The contract of the hash functions of the code\<close>

lemma lmod_less: "lmod s (2 ^ l) < 2 ^ l"
proof (cases "l < 32")
  case True
  then have "(word_of_nat (2 ^ l) :: u32) - 1 = mask l"
    by (simp add: mask_eq_exp_minus_1)
  then have "lmod s (2 ^ l) = unat (take_bit l s)"
    by (simp add: lmod_def take_bit_eq_mask)
  also have "\<dots> < 2 ^ l" by (simp add: unsigned_take_bit_eq)
  finally show ?thesis .
next
  case False
  have "lmod s (2 ^ l) < 2 ^ 32" unfolding lmod_def using unsigned_less [of "s AND (word_of_nat (2 ^ l) - 1)"] by simp
  also have "(2::nat) ^ 32 \<le> 2 ^ l" using False by (intro power_increasing) simp_all
  finally show ?thesis .
qed

lemma hashmod_less: "hashmod l n < 2 ^ l"
proof (cases l)
  case (Suc k)
  have two: "(2::int) ^ 1 \<le> 2 ^ l" using Suc by (intro power_increasing) simp_all
  have "odd ((2::int) ^ l - 1)" using Suc by simp
  then have or: "(2 ^ l - 1) OR (1::int) = 2 ^ l - 1" using or_one_eq [of "2 ^ l - 1 :: int"] by simp
  have "uint n mod (2 ^ l - 1) < 2 ^ l - 1"
    using two by (intro pos_mod_bound) simp
  then have "uint n mod (2 ^ l - 1) < int (2 ^ l)" by simp
  then have "nat (uint n mod (2 ^ l - 1)) < 2 ^ l" using nat_less_iff by (metis nat_int nat_mono_iff of_nat_0_less_iff zero_less_power zero_less_numeral)
  then show ?thesis by (simp add: hashmod_def or)
qed (simp add: hashmod_def)

lemma mainposition_less: "mainposition H l k < 2 ^ l"
  by (cases k)
     (simp_all add: mainposition_def hashnum_def hashpointer_def Let_def lmod_less hashmod_less)

lemma cast_num_1: "\<not> num_isnan (cast_num 1)" "\<not> num_isinf (cast_num 1)" "dbl_mag (cast_num 1) \<noteq> 0"
  by code_simp+

lemma mainposition_eq: "luaO_rawequalObj a b \<Longrightarrow> mainposition H l a = mainposition H l b"
  using num_add_eq [OF _ cast_num_1]
  by (cases a) (auto simp: mainposition_def hashnum_def)

interpretation nh: node_hash "mainposition H l" "2 ^ l" for H l
  by unfold_locales (rule mainposition_less, erule mainposition_eq)

section \<open>Array indices\<close>

lemma arrayindex_eq: "luaO_rawequalObj a b \<Longrightarrow> arrayindex a = arrayindex b"
proof (cases a)
  case (VNumber n)
  assume "luaO_rawequalObj a b"
  with VNumber obtain m where b: "b = VNumber m" and e: "num_eq n m" by auto
  have "num_eq c n \<longleftrightarrow> num_eq c m" for c using e num_eq_sym num_eq_trans by blast
  with number2int_eq [OF e] show ?thesis by (simp add: VNumber b arrayindex_def Let_def)
qed (auto simp: arrayindex_def)

lemma arrayindex_cast_num: "in_int k \<Longrightarrow> arrayindex (VNumber (cast_num k)) = k"
proof -
  assume k: "in_int k"
  then have "\<bar>k\<bar> < 2 ^ 53" by (auto simp: in_int_def)
  with k show ?thesis
    by (simp add: arrayindex_def number2int_cast_num num_eq_refl cast_num_not_nan)
qed

lemma in_int_arrayindex: "in_int (arrayindex k)"
  by (cases k) (auto simp: arrayindex_def Let_def in_int_number2int in_int_def [of "- 1"])

lemma arrayindex_number: "arrayindex k = i \<Longrightarrow> i \<noteq> - 1 \<Longrightarrow>
    \<exists>n. k = VNumber n \<and> lua_number2int n = i \<and> num_eq (cast_num i) n"
  by (cases k) (auto simp: arrayindex_def Let_def split: if_splits)

lemma arrayindex_same: "arrayindex a = arrayindex b \<Longrightarrow> arrayindex a \<noteq> - 1 \<Longrightarrow> luaO_rawequalObj a b"
  using arrayindex_number [of a] arrayindex_number [of b] num_eq_sym num_eq_trans
  by (metis rawequal_simps(3))

section \<open>The invariant of a table\<close>

abbreviation in_array :: "Table \<Rightarrow> TValue \<Rightarrow> bool" where
  "in_array t k \<equiv> 0 < arrayindex k \<and> arrayindex k \<le> int (length (array t))"

definition table_inv :: "strhash \<Rightarrow> Table \<Rightarrow> bool" where
  "table_inv H t \<longleftrightarrow>
     node_inv (mainposition H (lsizenode t)) (node t)
   \<and> length (node t) = 2 ^ lsizenode t \<and> lsizenode t \<le> MAXBITS
   \<and> int (length (array t)) \<le> MAXASIZE
   \<and> (if isdummy t then node t = [empty_node] \<and> lastfree t \<le> 0
      else free_below (node t) (lastfree t))
   \<and> (\<forall>n \<in> set (node t). present n \<longrightarrow> \<not> in_array t (i_key n))"

lemma table_invD:
  assumes "table_inv H t"
  shows "node_inv (mainposition H (lsizenode t)) (node t)" and "length (node t) = 2 ^ lsizenode t"
    and "lsizenode t \<le> MAXBITS" and "int (length (array t)) \<le> MAXASIZE"
    and "isdummy t \<Longrightarrow> node t = [empty_node]" and "isdummy t \<Longrightarrow> lastfree t \<le> 0"
    and "\<not> isdummy t \<Longrightarrow> free_below (node t) (lastfree t)"
    and "n \<in> set (node t) \<Longrightarrow> present n \<Longrightarrow> \<not> in_array t (i_key n)"
  using assms by (auto simp: table_inv_def split: if_splits)

lemma table_inv_flags [simp]: "table_inv H (t\<lparr>flags := x\<rparr>) = table_inv H t"
  by (simp add: table_inv_def)

section \<open>Lookup\<close>

text \<open>The value of a key, found without the hash function.\<close>

definition lookup :: "Table \<Rightarrow> TValue \<Rightarrow> TValue" where
  "lookup t k =
     (if in_array t k then array t ! nat (arrayindex k - 1)
      else case find (\<lambda>n. luaO_rawequalObj (i_key n) k) (node t) of
        None \<Rightarrow> VNil | Some n \<Rightarrow> i_val n)"

text \<open>The slot a key has, if it has one.\<close>

definition slot_of :: "Table \<Rightarrow> TValue \<Rightarrow> slot \<Rightarrow> bool" where
  "slot_of t k s \<longleftrightarrow>
     (case s of
        ArraySlot i \<Rightarrow> in_array t k \<and> i = nat (arrayindex k - 1)
      | NodeSlot i \<Rightarrow> \<not> in_array t k \<and> i < length (node t) \<and> luaO_rawequalObj (i_key (node t ! i)) k)"

lemma slot_of_node: "node_inv mp (node t) \<Longrightarrow> valid_key k \<Longrightarrow> slot_of t k (NodeSlot i) \<Longrightarrow>
    slot_of t k (NodeSlot j) \<Longrightarrow> i = j"
proof -
  assume inv: "node_inv mp (node t)" and k: "valid_key k"
    and s: "slot_of t k (NodeSlot i)" "slot_of t k (NodeSlot j)"
  then have ij: "i < length (node t)" "luaO_rawequalObj (i_key (node t ! i)) k"
    "j < length (node t)" "luaO_rawequalObj (i_key (node t ! j)) k"
    by (simp_all add: slot_of_def)
  then have e: "luaO_rawequalObj (i_key (node t ! i)) (i_key (node t ! j))"
    using rawequal_sym rawequal_trans by blast
  have "present (node t ! x)" if "luaO_rawequalObj (i_key (node t ! x)) k" for x
    using that k by (cases k; cases "i_key (node t ! x)") (auto simp: present_def valid_key_def)
  with ij have "present (node t ! i)" "present (node t ! j)" by blast+
  with e ij inv show ?thesis unfolding node_inv_def keys_ok_def by blast
qed

lemma find_nth:
  assumes "i < length xs" and "P (xs ! i)" and "\<And>j. j < length xs \<Longrightarrow> P (xs ! j) \<Longrightarrow> j = i"
  shows "find P xs = Some (xs ! i)"
  unfolding find_Some_iff using assms(1,2) assms(3) less_trans less_irrefl by blast

lemma slot_of_lookup:
  assumes inv: "table_inv H t" and k: "valid_key k" and s: "slot_of t k s"
  shows "lookup t k = slot_val t s"
proof (cases s)
  case (ArraySlot i)
  with s show ?thesis by (simp add: slot_of_def lookup_def slot_val_def)
next
  case (NodeSlot i)
  with s have *: "\<not> in_array t k" "i < length (node t)" "luaO_rawequalObj (i_key (node t ! i)) k"
    by (simp_all add: slot_of_def)
  have J: "j = i" if "j < length (node t)" "luaO_rawequalObj (i_key (node t ! j)) k" for j
    by (rule slot_of_node [OF table_invD(1) [OF inv] k])
       (use that * in \<open>simp_all only: slot_of_def slot.case simp_thms\<close>)
  have "find (\<lambda>n. luaO_rawequalObj (i_key n) k) (node t) = Some (node t ! i)"
    by (rule find_nth) (rule *(2), rule *(3), rule J)
  with *(1) show ?thesis
    unfolding NodeSlot lookup_def slot_val_def by (simp only: if_False option.case slot.case)
qed

lemma no_slot_lookup: "\<forall>s. \<not> slot_of t k s \<Longrightarrow> lookup t k = VNil"
proof -
  assume no: "\<forall>s. \<not> slot_of t k s"
  have "\<not> in_array t k" using no [rule_format, of "ArraySlot (nat (arrayindex k - 1))"]
    by (simp add: slot_of_def)
  moreover have "\<not> luaO_rawequalObj (i_key n) k" if "n \<in> set (node t)" for n
    using no that \<open>\<not> in_array t k\<close> by (force simp: slot_of_def in_set_conv_nth split: slot.splits)
  then have "find (\<lambda>n. luaO_rawequalObj (i_key n) k) (node t) = None"
    by (simp add: find_None_iff)
  ultimately show ?thesis unfolding lookup_def by (simp only: if_False option.case)
qed

section \<open>The search functions\<close>

definition found :: "Table \<Rightarrow> TValue \<Rightarrow> slot option result \<Rightarrow> bool" where
  "found t k r \<longleftrightarrow> (\<exists>p. r = Ok p \<and> (\<forall>s. p = Some s \<longleftrightarrow> slot_of t k s))"

lemma foundD: "found t k r \<Longrightarrow> table_inv H t \<Longrightarrow> valid_key k \<Longrightarrow>
    \<exists>p. r = Ok p \<and> deref t p = lookup t k \<and> (\<forall>s. p = Some s \<longleftrightarrow> slot_of t k s)"
  unfolding found_def
  using slot_of_lookup no_slot_lookup by (fastforce simp: deref_def split: option.splits)

lemma search_chain_found:
  assumes inv: "table_inv H t" and k: "k \<noteq> VNil" "ttype k \<noteq> 11" and out: "\<not> in_array t k"
    and P: "\<And>n. n \<in> set (node t) \<Longrightarrow> P n \<longleftrightarrow> luaO_rawequalObj (i_key n) k"
    and start: "s = mainposition H (lsizenode t) k"
  shows "found t k (search_chain P t s)"
proof -
  obtain r where r: "chain_walk P (node t) (length (node t)) s = Ok r"
    and R: "\<And>i. r = Some i \<longleftrightarrow> i < length (node t) \<and> luaO_rawequalObj (i_key (node t ! i)) k"
    using nh.walk_finds [OF table_invD(1,2) [OF inv] k, of P s] P start by fastforce
  have "(map_option NodeSlot r = Some s) \<longleftrightarrow> slot_of t k s" for s
    using R out by (cases s) (auto simp: slot_of_def)
  then show ?thesis by (simp add: found_def search_chain_def r)
qed

lemma getnum_array_test:
  assumes "int n \<le> MAXASIZE" and "in_int k"
  shows "(word_of_int (k - 1) :: u32) < word_of_nat n \<longleftrightarrow> 0 < k \<and> k \<le> int n"
proof -
  have n: "uint (word_of_nat n :: u32) = int n"
    using assms(1) by (simp add: unsigned_of_nat take_bit_nat_eq_self nat_less_iff flip: uint_nat)
  have k: "uint (word_of_int (k - 1) :: u32) = (k - 1) mod 2 ^ 32"
    by (simp add: unsigned_of_int take_bit_eq_mod del: of_int_diff)
  have "(k - 1) mod 2 ^ 32 = (if 0 < k then k - 1 else k - 1 + 2 ^ 32)"
  proof (cases "0 < k")
    case False
    then have "(k - 1 + 2 ^ 32) mod 2 ^ 32 = k - 1 + 2 ^ 32"
      using assms(2) by (intro mod_pos_pos_trivial) (auto simp: in_int_def)
    moreover have "(k - 1 + 2 ^ 32) mod 2 ^ 32 = (k - 1) mod 2 ^ 32" by (rule mod_add_self2)
    ultimately show ?thesis using False by (simp only: if_False)
  qed (use assms(2) in \<open>auto simp: in_int_def\<close>)
  with assms show ?thesis unfolding word_less_def n k by (auto simp: in_int_def)
qed

lemma getnum_found:
  assumes inv: "table_inv H t" and k: "in_int k"
  shows "found t (VNumber (cast_num k)) (luaH_getnum t k)"
proof -
  have idx: "arrayindex (VNumber (cast_num k)) = k" by (rule arrayindex_cast_num [OF k])
  note test = getnum_array_test [OF table_invD(4) [OF inv] k]
  show ?thesis
  proof (cases "0 < k \<and> k \<le> int (length (array t))")
    case True
    then show ?thesis using test
      by (auto simp: luaH_getnum_def found_def slot_of_def idx split: slot.splits)
  next
    case False
    have "found t (VNumber (cast_num k)) (search_chain
        (\<lambda>n. case i_key n of VNumber m \<Rightarrow> num_eq m (cast_num k) | _ \<Rightarrow> False) t
        (hashnum (lsizenode t) (cast_num k)))"
    proof (rule search_chain_found [OF inv])
      show "\<not> in_array t (VNumber (cast_num k))" using False idx by simp
    qed (auto simp: mainposition_def split: TValue.splits)
    moreover have "\<not> (word_of_int (k - 1) :: u32) < word_of_nat (length (array t))"
      using test False by simp
    ultimately show ?thesis by (simp add: luaH_getnum_def Let_def)
  qed
qed

lemma getstr_found:
  assumes inv: "table_inv H t"
  shows "found t (VString p) (luaH_getstr H t p)"
  unfolding luaH_getstr_def
  by (rule search_chain_found [OF inv])
     (auto simp: mainposition_def arrayindex_def split: TValue.splits)

lemma slot_of_cong: "luaO_rawequalObj a b \<Longrightarrow> slot_of t a s \<longleftrightarrow> slot_of t b s"
proof -
  assume ab: "luaO_rawequalObj a b"
  then have "luaO_rawequalObj c a \<longleftrightarrow> luaO_rawequalObj c b" for c
    using rawequal_sym rawequal_trans by blast
  with arrayindex_eq [OF ab] show ?thesis by (simp only: slot_of_def)
qed

lemma get_found:
  assumes inv: "table_inv H t" and k: "k \<noteq> VNil" "ttype k \<noteq> 11"
  shows "found t k (luaH_get H t k)"
proof -
  let ?dflt = "search_chain (\<lambda>n. luaO_rawequalObj (i_key n) k) t (mainposition H (lsizenode t) k)"
  have D: "found t k ?dflt" if "\<not> in_array t k"
    by (rule search_chain_found [OF inv k that]) simp_all
  show ?thesis
  proof (cases k)
    case (VNumber n)
    let ?k = "lua_number2int n"
    show ?thesis
    proof (cases "num_eq (cast_num ?k) n")
      case True
      then have "slot_of t (VNumber (cast_num ?k)) s \<longleftrightarrow> slot_of t k s" for s
        by (intro slot_of_cong) (simp add: VNumber)
      with True getnum_found [OF inv in_int_number2int, of n] show ?thesis
        by (simp add: VNumber luaH_get_def found_def)
    next
      case False
      with D show ?thesis by (simp add: VNumber luaH_get_def arrayindex_def)
    qed
  next
    case (VString p)
    with getstr_found [OF inv, of p] show ?thesis by (simp add: luaH_get_def)
  qed (use D k in \<open>simp_all add: luaH_get_def arrayindex_def\<close>)
qed

end
