(* ===== verification/LuaTableRehash.thy ===== *)
theory LuaTableRehash
  imports LuaTableOps
begin

text \<open>
  Insertion and rehash: an insertion that finds a free node keeps the invariant and the
  contents; the counts that \<open>rehash\<close> makes leave room for every entry, so the insertions it
  makes never rehash again; hence \<open>luaH_set\<close> returns.
\<close>

section \<open>Inserting into the node vector\<close>

definition node_ins :: "Node list \<Rightarrow> TValue \<Rightarrow> nat \<Rightarrow> Node list \<Rightarrow> bool" where
  "node_ins ns k i ns' \<longleftrightarrow>
     length ns' = length ns \<and> i < length ns \<and> i_key (ns' ! i) = k \<and> i_val (ns' ! i) = VNil
   \<and> live ns' = live ns
   \<and> (\<forall>n \<in> set ns'. i_key n = k \<or> i_key n \<in> i_key ` set ns)
   \<and> used ns \<subseteq> used ns' \<and> (\<exists>x. used ns' \<subseteq> insert x (used ns))"

text \<open>Keys and values after a change: \<open>k\<close> at \<open>i\<close>, and possibly the pair of \<open>i\<close> at \<open>n\<close>.\<close>

lemma node_insI:
  assumes "length ns' = length ns" and "i < length ns" and "n < length ns" and "k \<noteq> VNil"
    and key: "\<And>j. j < length ns \<Longrightarrow>
      i_key (ns' ! j) = (if j = i then k else if j = n then i_key (ns ! i) else i_key (ns ! j))"
    and val: "\<And>j. j < length ns \<Longrightarrow>
      i_val (ns' ! j) = (if j = i then VNil else if j = n then i_val (ns ! i) else i_val (ns ! j))"
    and free: "n \<noteq> i \<Longrightarrow> i_key (ns ! n) = VNil \<and> i_val (ns ! n) = VNil \<and> i_key (ns ! i) \<noteq> VNil"
      "n = i \<Longrightarrow> i_val (ns ! i) = VNil"
  shows "node_ins ns k i ns'"
proof -
  have "i_key x = k \<or> i_key x \<in> i_key ` set ns" if x: "x \<in> set ns'" for x
  proof -
    from x assms(1) obtain j where j: "j < length ns" "x = ns' ! j"
      by (metis in_set_conv_nth)
    then have "i_key x = k \<or> i_key x = i_key (ns ! i) \<or> i_key x = i_key (ns ! j)"
      by (simp add: key)
    then show ?thesis using j(1) assms(2) by auto
  qed
  moreover have "used ns \<subseteq> used ns'"
  proof
    fix j
    assume "j \<in> used ns"
    then have "j < length ns" "i_key (ns ! j) \<noteq> VNil" by (simp_all add: used_def)
    then show "j \<in> used ns'" using key [of j] assms(1,4) free(1) by (auto simp: used_def)
  qed
  moreover have "used ns' \<subseteq> insert n (insert i (used ns))"
    using assms(1) by (auto simp: used_def key split: if_splits)
  moreover have "used ns' \<subseteq> insert (if n = i then i else n) (used ns)"
  proof
    fix j
    assume "j \<in> used ns'"
    then have j: "j < length ns" "i_key (ns' ! j) \<noteq> VNil" using assms(1) by (simp_all add: used_def)
    show "j \<in> insert (if n = i then i else n) (used ns)"
      using j key [of j] free(1) by (cases "j = i"; cases "j = n") (auto simp: used_def)
  qed
  moreover have "live ns' = live ns"
  proof (cases "n = i")
    case True
    have "(j < length ns' \<and> i_val (ns' ! j) \<noteq> VNil) \<longleftrightarrow> (j < length ns \<and> i_val (ns ! j) \<noteq> VNil)" for j
      using val [of j] free(2) True assms(1) by (auto split: if_splits)
    moreover have "i_key (ns' ! j) = i_key (ns ! j) \<and> i_val (ns' ! j) = i_val (ns ! j)"
      if "j < length ns" "i_val (ns ! j) \<noteq> VNil" for j
      using that val [of j] key [of j] True free(2) by (auto split: if_splits)
    ultimately show ?thesis unfolding live_def by (safe; metis)
  next
    case False
    show ?thesis
    proof (rule set_eqI)
      fix kv :: "TValue \<times> TValue"
      obtain a b where kv: "kv = (a, b)" by (cases kv) auto
      have L: "(a, b) \<in> live xs \<longleftrightarrow>
          (\<exists>j < length xs. i_key (xs ! j) = a \<and> i_val (xs ! j) = b \<and> b \<noteq> VNil)" for xs
        by (auto simp: live_def)
      have "(\<exists>j < length ns'. i_key (ns' ! j) = a \<and> i_val (ns' ! j) = b \<and> b \<noteq> VNil) \<longleftrightarrow>
          (\<exists>j < length ns. i_key (ns ! j) = a \<and> i_val (ns ! j) = b \<and> b \<noteq> VNil)"
      proof safe
        fix j
        assume j: "j < length ns'" "i_val (ns' ! j) \<noteq> VNil"
        show "\<exists>j' < length ns. i_key (ns ! j') = i_key (ns' ! j) \<and> i_val (ns ! j') = i_val (ns' ! j)
            \<and> i_val (ns' ! j) \<noteq> VNil"
          using j assms(1,2) key [of j] val [of j]
          by (intro exI [of _ "if j = n then i else j"]) (auto split: if_splits)
      next
        fix j
        assume j: "j < length ns" "i_val (ns ! j) \<noteq> VNil"
        then have "j \<noteq> n" using free(1) False by auto
        then show "\<exists>j' < length ns'. i_key (ns' ! j') = i_key (ns ! j) \<and> i_val (ns' ! j') = i_val (ns ! j)
            \<and> i_val (ns ! j) \<noteq> VNil"
          using j assms(1,3) False key [of j] val [of j] key [of n] val [of n]
          by (intro exI [of _ "if j = i then n else j"]) auto
      qed
      then show "kv \<in> live ns' \<longleftrightarrow> kv \<in> live ns" by (simp only: kv L)
    qed
  qed
  ultimately show ?thesis
    using assms(1,2) key [of i] val [of i] by (auto simp: node_ins_def)
qed

lemma node_ins_home:
  "m < length ns \<Longrightarrow> i_val (ns ! m) = VNil \<Longrightarrow> k \<noteq> VNil \<Longrightarrow> node_ins ns k m (set_key ns m k)"
  by (rule node_insI [where n = m]) (simp_all add: nth_set_key)

lemma node_ins_behind:
  assumes "m < length ns" and "n < length ns" and "i_val (ns ! n) = VNil" and "k \<noteq> VNil" and "n \<noteq> m"
  shows "node_ins ns k n (set_key (set_next (set_next ns n p) m (Some n)) n k)"
  by (rule node_insI [where n = n]) (use assms in \<open>simp_all add: nth_set_key nth_set_next\<close>)

lemma node_ins_move:
  assumes "m < length ns" and "n < length ns" and "p < length ns" and "k \<noteq> VNil"
    and "n \<noteq> m" and "n \<noteq> p" and "p \<noteq> m"
    and "i_key (ns ! n) = VNil" and "i_val (ns ! n) = VNil" and "i_key (ns ! m) \<noteq> VNil"
  shows "node_ins ns k m (set_key (move_node ns p m n) m k)"
  by (rule node_insI [where n = n])
     (use assms in \<open>simp_all add: move_node_def Let_def set_key_def set_next_def nth_list_update\<close>)

section \<open>Free nodes\<close>

lemma getfreepos_loop_spec:
  assumes "getfreepos_loop ns lf = (lf', r)" and "free_below ns lf"
  shows "case r of None \<Rightarrow> free_below ns lf' \<and> (\<forall>i < length ns. i_key (ns ! i) \<noteq> VNil)
     | Some n \<Rightarrow> n < length ns \<and> i_key (ns ! n) = VNil \<and> lf' = int n \<and> free_below ns (int n + 1)"
  using assms
proof (induction ns lf rule: getfreepos_loop.induct)
  case (1 ns lf)
  show ?case
  proof (cases "0 < lf")
    case pos: True
    have step: "free_below ns (lf - 1)" if "i_key (ns ! nat (lf - 1)) \<noteq> VNil"
      unfolding free_below_def
    proof (intro conjI allI impI)
      show "lf - 1 \<le> int (length ns)" using "1.prems"(2) by (simp add: free_below_def)
      fix i
      assume i: "i < length ns" "lf - 1 \<le> int i"
      show "i_key (ns ! i) \<noteq> VNil"
        using that i "1.prems"(2) by (cases "i = nat (lf - 1)") (auto simp: free_below_def)
    qed
    show ?thesis
    proof (cases "i_key (ns ! nat (lf - 1)) = VNil")
      case True
      with pos "1.prems" show ?thesis
        by (auto simp: getfreepos_loop.simps [of ns lf] free_below_def)
    next
      case False
      with pos "1.prems" "1.IH" step show ?thesis
        by (simp add: getfreepos_loop.simps [of ns lf])
    qed
  next
    case False
    with "1.prems" show ?thesis
      by (auto simp: getfreepos_loop.simps [of ns lf] free_below_def)
  qed
qed

lemma free_below_mono:
  "free_below ns lf \<Longrightarrow> length ns' = length ns \<Longrightarrow> used ns \<subseteq> used ns' \<Longrightarrow> free_below ns' lf"
  by (auto simp: free_below_def used_def)

lemma free_below_fill:
  assumes "free_below ns (int n + 1)" and "i_key (ns ! n) \<noteq> VNil"
  shows "free_below ns (int n)"
  unfolding free_below_def
proof (intro conjI allI impI)
  show "int n \<le> int (length ns)" using assms(1) by (simp add: free_below_def)
  fix i
  assume "i < length ns" "int n \<le> int i"
  then show "i_key (ns ! i) \<noteq> VNil"
    using assms by (cases "i = n") (auto simp: free_below_def)
qed

section \<open>Insertion with room\<close>

definition capacity :: "Table \<Rightarrow> nat" where
  "capacity t = (if isdummy t then 0 else 2 ^ lsizenode t)"

text \<open>What an insertion leaves alone, and what it does to the node vector.\<close>

definition inserted :: "Table \<Rightarrow> TValue \<Rightarrow> nat \<Rightarrow> Table \<Rightarrow> bool" where
  "inserted t k i t' \<longleftrightarrow>
     array t' = array t \<and> lsizenode t' = lsizenode t \<and> isdummy t' = isdummy t
   \<and> metatable t' = metatable t \<and> flags t' = flags t \<and> node_ins (node t) k i (node t')"

lemma inserted_inv:
  assumes inv: "table_inv H t" and ins: "inserted t k i t'" and k: "\<not> in_array t k"
    and nodes: "node_inv (mainposition H (lsizenode t)) (node t')"
    and dummy: "\<not> isdummy t" and free: "free_below (node t') (lastfree t')"
  shows "table_inv H t'"
proof -
  have same: "array t' = array t" "lsizenode t' = lsizenode t" "isdummy t' = isdummy t"
    and len: "length (node t') = length (node t)"
    and keys: "\<forall>n \<in> set (node t'). i_key n = k \<or> i_key n \<in> i_key ` set (node t)"
    using ins by (simp_all add: inserted_def node_ins_def)
  have "\<not> in_array t' (i_key n)" if n: "n \<in> set (node t')" "present n" for n
  proof (cases "i_key n = k")
    case False
    then obtain n' where n': "n' \<in> set (node t)" "i_key n = i_key n'" using keys n by auto
    then have "present n'" using n(2) by (simp add: present_def)
    from table_invD(8) [OF inv n'(1) this] show ?thesis unfolding n'(2) same .
  qed (use k in \<open>simp add: same\<close>)
  with nodes dummy free table_invD(2,3,4) [OF inv] show ?thesis
    unfolding table_inv_def by (simp only: same len if_False) blast
qed

lemma valid_keyD: "valid_key k \<Longrightarrow> k \<noteq> VNil" "valid_key k \<Longrightarrow> ttype k \<noteq> 11"
  "valid_key k \<Longrightarrow> \<not> is_NaN k"
  by (simp_all add: valid_key_def)

lemma no_slotD:
  assumes "\<forall>s. \<not> slot_of t k s"
  shows "\<not> in_array t k" and "absent (node t) k"
proof -
  show out: "\<not> in_array t k"
    using assms [rule_format, of "ArraySlot (nat (arrayindex k - 1))"] by (simp add: slot_of_def)
  show "absent (node t) k"
    unfolding absent_def
  proof (intro allI impI)
    fix i
    assume "i < length (node t)"
    with assms [rule_format, of "NodeSlot i"] out
    show "\<not> luaO_rawequalObj (i_key (node t ! i)) k" by (simp only: slot_of_def slot.case) blast
  qed
qed

lemma valnotnil_present: "node_inv mp ns \<Longrightarrow> i < length ns \<Longrightarrow> i_val (ns ! i) \<noteq> VNil \<Longrightarrow> present (ns ! i)"
  by (auto simp: node_inv_def keys_ok_def)

lemma newkey_home:
  assumes inv: "table_inv H t" and k: "valid_key k" and no: "\<forall>s. \<not> slot_of t k s"
    and dummy: "\<not> isdummy t" and free: "i_val (node t ! mainposition H (lsizenode t) k) = VNil"
  shows "\<exists>i t'. newkey_step nk H t k = Ok (NodeSlot i, t') \<and> table_inv H t' \<and> inserted t k i t'"
proof -
  let ?m = "mainposition H (lsizenode t) k"
  let ?t = "t\<lparr>node := set_key (node t) ?m k\<rparr>"
  have m: "?m < length (node t)" using table_invD(2) [OF inv] mainposition_less by simp
  have ins: "inserted t k ?m ?t"
    using node_ins_home [OF m free valid_keyD(1) [OF k]] by (simp add: inserted_def)
  have "node_inv (mainposition H (lsizenode t)) (node ?t)"
    using nh.insert_at_home [OF table_invD(1,2) [OF inv] k no_slotD(2) [OF no] refl free] by simp
  moreover have "free_below (node ?t) (lastfree ?t)"
    using free_below_mono [OF table_invD(7) [OF inv dummy]] ins
    by (simp add: inserted_def node_ins_def)
  ultimately have "table_inv H ?t"
    using inserted_inv [OF inv ins no_slotD(1) [OF no]] dummy by blast
  moreover have "newkey_step nk H t k = Ok (NodeSlot ?m, ?t)"
    using free dummy by (simp add: newkey_step_def Let_def)
  ultimately show ?thesis using ins by blast
qed

lemma newkey_collide:
  assumes inv: "table_inv H t" and k: "valid_key k" and no: "\<forall>s. \<not> slot_of t k s"
    and dummy: "\<not> isdummy t" and taken: "i_val (node t ! mainposition H (lsizenode t) k) \<noteq> VNil"
    and fp: "getfreepos t = (t1, Some n)"
  shows "\<exists>i t'. newkey_step nk H t k = Ok (NodeSlot i, t') \<and> table_inv H t' \<and> inserted t k i t'"
proof -
  let ?l = "lsizenode t" and ?ns = "node t"
  let ?mp = "mainposition H ?l"
  define m where "m = ?mp k"
  have m: "m < length ?ns" using table_invD(2) [OF inv] mainposition_less by (simp add: m_def)
  have ninv: "node_inv ?mp ?ns" and len: "length ?ns = 2 ^ ?l" using table_invD [OF inv] by blast+
  have links: "links_ok ?ns" using ninv by (simp add: node_inv_def)
  have taken: "i_val (?ns ! m) \<noteq> VNil" using taken by (simp add: m_def)
  then have pm: "present (?ns ! m)" using valnotnil_present [OF ninv m] by blast
  obtain lf where lf: "getfreepos_loop ?ns (lastfree t) = (lf, Some n)" and t1: "t1 = t\<lparr>lastfree := lf\<rparr>"
    using fp by (auto simp: getfreepos_def split: prod.splits)
  have n: "n < length ?ns" "i_key (?ns ! n) = VNil" "lf = int n" "free_below ?ns (int n + 1)"
    using getfreepos_loop_spec [OF lf table_invD(7) [OF inv dummy]] by simp_all
  have valn: "i_val (?ns ! n) = VNil"
    using valnotnil_present [OF ninv n(1)] n(2) by (auto simp: present_def)
  have kn: "k \<noteq> VNil" using k by (rule valid_keyD)
  let ?o = "?mp (i_key (?ns ! m))"
  have nm: "n \<noteq> m" using taken valn by auto
  have finish: "table_inv H (t1\<lparr>node := ns'\<rparr>) \<and> inserted t k i (t1\<lparr>node := ns'\<rparr>)"
    if ins: "node_ins ?ns k i ns'" and nodes: "node_inv ?mp ns'" and filled: "i_key (ns' ! n) \<noteq> VNil"
    for i ns'
  proof -
    let ?t = "t1\<lparr>node := ns'\<rparr>"
    have I: "inserted t k i ?t" using ins by (simp add: inserted_def t1)
    have "free_below ns' (int n + 1)"
      using free_below_mono [OF n(4)] ins by (simp add: node_ins_def)
    then have "free_below (node ?t) (lastfree ?t)"
      using free_below_fill [OF _ filled] by (simp add: t1 n(3))
    then show ?thesis
      using inserted_inv [OF inv I no_slotD(1) [OF no] _ dummy] nodes I by simp
  qed
  show ?thesis
  proof (cases "?o = m")
    case True
    let ?ns' = "set_key (set_next (set_next ?ns n (i_next (?ns ! m))) m (Some n)) n k"
    have "node_inv ?mp ?ns'"
      by (rule nh.insert_behind [OF ninv len k no_slotD(2) [OF no] m_def _ True n(1,2) refl])
         (use pm in \<open>simp add: present_def\<close>)
    moreover have ins: "node_ins ?ns k n ?ns'"
      using node_ins_behind [OF m n(1) valn kn nm] .
    then have "i_key (?ns' ! n) = k" by (simp add: node_ins_def)
    ultimately have "table_inv H (t1\<lparr>node := ?ns'\<rparr>) \<and> inserted t k n (t1\<lparr>node := ?ns'\<rparr>)"
      using finish [OF ins] kn by simp
    moreover have "newkey_step nk H t k = Ok (NodeSlot n, t1\<lparr>node := ?ns'\<rparr>)"
      using True taken fp by (simp add: newkey_step_def Let_def t1 flip: m_def)
    ultimately show ?thesis by blast
  next
    case False
    have o_less: "?o < length ?ns" using len mainposition_less by simp
    have home: "m \<in> chain_of ?ns ?o"
      using ninv m pm by (simp add: node_inv_def homes_ok_def chain_of_def)
    obtain p where p: "find_previous ?ns (length ?ns) ?o m = Ok p" and prev: "(p, m) \<in> nedges ?ns"
      using find_previous_returns [OF links o_less card_chain_of [OF links o_less] home] False by metis
    let ?ns' = "set_key (move_node ?ns p m n) m k"
    have pl: "p < length ?ns" using prev by (simp add: nedges_def)
    have np: "n \<noteq> p" using links prev n(2) by (auto simp: links_ok_def)
    have pne: "p \<noteq> m" using next_not_on_chain [OF links prev] by (auto simp: chain_of_def)
    have keym: "i_key (?ns ! m) \<noteq> VNil" using pm by (simp add: present_def)
    have nodes: "node_inv ?mp ?ns'"
      by (rule nh.insert_move [OF ninv len k no_slotD(2) [OF no] m_def pm False n(1,2) prev refl])
    have ins: "node_ins ?ns k m ?ns'"
      by (rule node_ins_move [OF m n(1) pl kn nm np pne n(2) valn keym])
    have "i_key (?ns' ! n) = i_key (?ns ! m)"
      using m n(1) pl nm np pne
      by (simp add: move_node_def Let_def set_key_def set_next_def nth_list_update)
    then have "table_inv H (t1\<lparr>node := ?ns'\<rparr>) \<and> inserted t k m (t1\<lparr>node := ?ns'\<rparr>)"
      using finish [OF ins nodes] keym by simp
    moreover have "newkey_step nk H t k = Ok (NodeSlot m, t1\<lparr>node := ?ns'\<rparr>)"
      using False taken fp p by (simp add: newkey_step_def Let_def t1 flip: m_def)
    ultimately show ?thesis by blast
  qed
qed

lemma getfreepos_room:
  assumes inv: "table_inv H t" and room: "card (used (node t)) < capacity t"
  shows "\<exists>t1 n. getfreepos t = (t1, Some n)"
proof -
  obtain lf r where lf: "getfreepos_loop (node t) (lastfree t) = (lf, r)" 
    by (cases "getfreepos_loop (node t) (lastfree t)") auto
  have dummy: "\<not> isdummy t" using room by (cases "isdummy t") (simp_all add: capacity_def)
  then have cap: "card (used (node t)) < length (node t)"
    using room unfolding table_invD(2) [OF inv] by (simp add: capacity_def)
  have "used (node t) \<noteq> {..<length (node t)}"
  proof
    assume "used (node t) = {..<length (node t)}"
    then have "card (used (node t)) = length (node t)" by (simp only: card_lessThan)
    with cap show False by (simp only: less_irrefl)
  qed
  then have "\<not> (\<forall>i < length (node t). i_key (node t ! i) \<noteq> VNil)" by (auto simp: used_def)
  then obtain n where "r = Some n"
    using getfreepos_loop_spec [OF lf table_invD(7) [OF inv dummy]] by (cases r) auto
  then show ?thesis by (simp add: getfreepos_def lf)
qed

lemma newkey_room:
  assumes inv: "table_inv H t" and k: "valid_key k" and no: "\<forall>s. \<not> slot_of t k s"
    and room: "card (used (node t)) < capacity t"
  shows "\<exists>i t'. newkey_step nk H t k = Ok (NodeSlot i, t') \<and> table_inv H t' \<and> inserted t k i t'"
proof -
  obtain t1 n where fp: "getfreepos t = (t1, Some n)" using getfreepos_room [OF inv room] by blast
  have dummy: "\<not> isdummy t" using room by (cases "isdummy t") (simp_all add: capacity_def)
  show ?thesis
  proof (cases "i_val (node t ! mainposition H (lsizenode t) k) = VNil")
    case True
    then show ?thesis by (rule newkey_home [OF inv k no dummy])
  next
    case False
    then show ?thesis by (rule newkey_collide [OF inv k no dummy _ fp])
  qed
qed

end
