(* ===== verification/LuaTableSet.thy ===== *)
theory LuaTableSet
  imports LuaTableRehash
begin

text \<open>
  Storing: the slot that \<open>luaH_set\<close> returns is the slot of the key, an insertion leaves every
  value as it is, and writing through the slot changes the value of that key only.
\<close>

section \<open>Contents\<close>

lemma lookup_live:
  assumes inv: "table_inv H t" and k: "valid_key k" and out: "\<not> in_array t k" and v: "v \<noteq> VNil"
  shows "lookup t k = v \<longleftrightarrow> (\<exists>k'. (k', v) \<in> live (node t) \<and> luaO_rawequalObj k' k)"
proof
  assume L: "lookup t k = v"
  then obtain s where s: "slot_of t k s" using no_slot_lookup [of t k] v by auto
  then have val: "slot_val t s = v" using slot_of_lookup [OF inv k s] L by simp
  obtain i where i: "s = NodeSlot i" using s out by (cases s) (auto simp: slot_of_def)
  with s val v show "\<exists>k'. (k', v) \<in> live (node t) \<and> luaO_rawequalObj k' k"
    by (auto simp: slot_of_def slot_val_def live_def)
next
  assume "\<exists>k'. (k', v) \<in> live (node t) \<and> luaO_rawequalObj k' k"
  then obtain i where i: "i < length (node t)" "i_val (node t ! i) = v"
    "luaO_rawequalObj (i_key (node t ! i)) k" by (auto simp: live_def)
  then have "slot_of t k (NodeSlot i)" using out by (simp add: slot_of_def)
  from slot_of_lookup [OF inv k this] i(2) show "lookup t k = v" by (simp add: slot_val_def)
qed

lemma lookup_same:
  assumes "table_inv H t" and "table_inv H' t'" and arr: "array t' = array t"
    and liv: "live (node t') = live (node t)" and k: "valid_key k"
  shows "lookup t' k = lookup t k"
proof (cases "in_array t k")
  case True
  then show ?thesis by (simp add: lookup_def arr)
next
  case False
  then have False': "\<not> in_array t' k" by (simp add: arr)
  have "lookup t' k = v \<longleftrightarrow> lookup t k = v" if "v \<noteq> VNil" for v
    using lookup_live [OF assms(1) k False that] lookup_live [OF assms(2) k False' that] liv by simp
  then show ?thesis by metis
qed

text \<open>What every insertion leaves as it was.\<close>

definition frame :: "Table \<Rightarrow> Table \<Rightarrow> bool" where
  "frame t t' \<longleftrightarrow> length (array t') = length (array t) \<and> capacity t' = capacity t
   \<and> isdummy t' = isdummy t \<and> metatable t' = metatable t"

lemma frame_trans: "frame a b \<Longrightarrow> frame b c \<Longrightarrow> frame a c"
  by (simp add: frame_def)

lemma frame_refl [simp]: "frame a a"
  by (simp add: frame_def)

section \<open>Writing through a slot\<close>

lemma slot_of_inj: "slot_of t k s \<Longrightarrow> slot_of t k' s \<Longrightarrow> luaO_rawequalObj k k'"
proof (cases s)
  case (ArraySlot i)
  assume "slot_of t k s" "slot_of t k' s"
  with ArraySlot have "arrayindex k = arrayindex k'" "arrayindex k \<noteq> - 1"
    by (auto simp: slot_of_def)
  then show ?thesis by (rule arrayindex_same)
next
  case (NodeSlot i)
  assume "slot_of t k s" "slot_of t k' s"
  with NodeSlot have "luaO_rawequalObj (i_key (node t ! i)) k" "luaO_rawequalObj (i_key (node t ! i)) k'"
    by (simp_all add: slot_of_def)
  then show ?thesis using rawequal_sym rawequal_trans by blast
qed

definition set_val :: "Node list \<Rightarrow> nat \<Rightarrow> TValue \<Rightarrow> Node list" where
  "set_val ns i v = ns[i := (ns ! i)\<lparr>i_val := v\<rparr>]"

lemma nth_set_val:
  "j < length ns \<Longrightarrow> set_val ns i v ! j = (if j = i then (ns ! i)\<lparr>i_val := v\<rparr> else ns ! j)"
  by (simp add: set_val_def nth_list_update)

lemma length_set_val [simp]: "length (set_val ns i v) = length ns"
  by (simp add: set_val_def)

lemma set_val_key: "j < length ns \<Longrightarrow> i_key (set_val ns i v ! j) = i_key (ns ! j)"
  by (simp add: nth_set_val)

lemma node_inv_set_val:
  assumes inv: "node_inv mp ns" and mp: "\<And>k. mp k < length ns" and p: "present (ns ! i)"
  shows "node_inv mp (set_val ns i v)"
proof -
  let ?ns = "set_val ns i v"
  have E: "nedges ?ns = nedges ns" by (auto simp: nedges_def nth_set_val split: if_splits)
  have P: "present (?ns ! j) = present (ns ! j)" if "j < length ns" for j
    using that by (simp add: present_def set_val_key)
  have "links_ok ?ns" unfolding links_ok_def E
  proof (intro conjI allI impI)
    fix i j
    assume ij: "(i, j) \<in> nedges ns"
    then have "i < length ns" by (simp add: nedges_def)
    moreover have "j < length ns" "i_key (ns ! i) \<noteq> VNil" "i_key (ns ! j) \<noteq> VNil"
      using inv ij by (auto simp: node_inv_def links_ok_def)
    ultimately show "j < length ?ns" "i_key (?ns ! i) \<noteq> VNil" "i_key (?ns ! j) \<noteq> VNil"
      by (simp_all add: set_val_key)
  qed (use inv in \<open>auto simp: node_inv_def links_ok_def\<close>)
  moreover have "keys_ok ?ns" unfolding keys_ok_def
  proof (intro conjI allI impI)
    fix j
    assume j: "j < length ?ns"
    show "i_val (?ns ! j) = VNil" if "\<not> present (?ns ! j)"
      using inv j that p P [of j] by (auto simp: node_inv_def keys_ok_def nth_set_val)
    show "\<not> is_NaN (i_key (?ns ! j))"
      using inv j by (simp add: node_inv_def keys_ok_def set_val_key)
    fix j'
    assume j': "j' < length ?ns" and pr: "present (?ns ! j)" "present (?ns ! j')"
      and e: "luaO_rawequalObj (i_key (?ns ! j)) (i_key (?ns ! j'))"
    have jl: "j < length ns" "j' < length ns" using j j' by simp_all
    have "present (ns ! j)" "present (ns ! j')" using pr P jl by blast+
    moreover have "luaO_rawequalObj (i_key (ns ! j)) (i_key (ns ! j'))"
      using e unfolding set_val_key [OF jl(1)] set_val_key [OF jl(2)] .
    ultimately show "j = j'"
      using inv jl unfolding node_inv_def keys_ok_def by blast
  qed
  moreover have "homes_ok mp ?ns" unfolding homes_ok_def E
  proof (intro allI impI)
    fix j
    assume j: "j < length ?ns" and pr: "present (?ns ! j)"
    then have "present (ns ! j)" "j < length ns" using P by simp_all
    then have H: "(mp (i_key (ns ! j)), j) \<in> (nedges ns)\<^sup>*
      \<and> (let q = mp (i_key (ns ! j))
         in i_key (ns ! q) \<noteq> VNil \<and> (ttype (i_key (ns ! q)) = 11 \<or> mp (i_key (ns ! q)) = q))"
      using inv by (simp add: node_inv_def homes_ok_def)
    have k: "i_key (?ns ! j) = i_key (ns ! j)" using j by (simp add: set_val_key)
    show "(mp (i_key (?ns ! j)), j) \<in> (nedges ns)\<^sup>*
      \<and> (let q = mp (i_key (?ns ! j))
         in i_key (?ns ! q) \<noteq> VNil \<and> (ttype (i_key (?ns ! q)) = 11 \<or> mp (i_key (?ns ! q)) = q))"
      using H unfolding k Let_def set_val_key [OF mp] .
  qed
  ultimately show ?thesis by (simp add: node_inv_def)
qed

lemma used_set_val [simp]: "used (set_val ns i v) = used ns"
  by (auto simp: used_def set_val_key)

lemma set_slot_node: "set_slot t (NodeSlot i) v = t\<lparr>node := set_val (node t) i v\<rparr>"
  by (simp add: set_slot_def set_val_def)

lemma slot_of_set_slot: "slot_of (set_slot t s v) k = slot_of t k"
proof (rule ext)
  fix s'
  show "slot_of (set_slot t s v) k s' = slot_of t k s'"
  proof (cases s)
    case (NodeSlot i)
    then show ?thesis
      by (cases s') (simp_all add: slot_of_def set_slot_node set_val_key cong: conj_cong)
  next
    case (ArraySlot i)
    then show ?thesis by (cases s') (simp_all add: slot_of_def set_slot_def)
  qed
qed

lemma slot_present: "slot_of t k (NodeSlot i) \<Longrightarrow> valid_key k \<Longrightarrow> present (node t ! i)"
  by (cases k; cases "i_key (node t ! i)") (auto simp: slot_of_def present_def valid_key_def)

lemma set_slot_inv:
  assumes inv: "table_inv H t" and k: "valid_key k" and s: "slot_of t k s"
  shows "table_inv H (set_slot t s v)" and "frame t (set_slot t s v)"
    and "card (used (node (set_slot t s v))) = card (used (node t))"
proof -
  have "table_inv H (set_slot t s v) \<and> frame t (set_slot t s v)
    \<and> card (used (node (set_slot t s v))) = card (used (node t))"
  proof (cases s)
    case (ArraySlot i)
    then show ?thesis using inv by (simp add: set_slot_def table_inv_def frame_def capacity_def)
  next
    case (NodeSlot i)
    note p = slot_present [OF s [unfolded NodeSlot] k]
    have i: "i < length (node t)" using s by (simp add: NodeSlot slot_of_def)
    have dummy: "\<not> isdummy t"
    proof
      assume "isdummy t"
      with table_invD(5) [OF inv this] p i show False by (simp add: present_def empty_node_def)
    qed
    have "node_inv (mainposition H (lsizenode t)) (set_val (node t) i v)"
      using table_invD(2) [OF inv] mainposition_less
      by (intro node_inv_set_val [OF table_invD(1) [OF inv] _ p]) simp
    moreover have "free_below (set_val (node t) i v) (lastfree t)"
      by (rule free_below_mono [OF table_invD(7) [OF inv dummy]]) simp_all
    moreover have "\<not> in_array t (i_key n)" if n: "n \<in> set (set_val (node t) i v)" "present n" for n
    proof -
      obtain j where j: "j < length (node t)" "n = set_val (node t) i v ! j"
        using n by (auto simp: in_set_conv_nth)
      then have "i_key n = i_key (node t ! j)" by (simp add: set_val_key)
      moreover have "present (node t ! j)" using calculation n(2) by (simp add: present_def)
      ultimately show ?thesis using table_invD(8) [OF inv, of "node t ! j"] j(1) by simp
    qed
    ultimately show ?thesis using table_invD(2,3,4) [OF inv] dummy
      by (simp add: NodeSlot set_slot_node table_inv_def frame_def capacity_def)
  qed
  then show "table_inv H (set_slot t s v)" and "frame t (set_slot t s v)"
    and "card (used (node (set_slot t s v))) = card (used (node t))" by blast+
qed

lemma slot_val_set_slot:
  assumes "slot_of t k s" and "slot_of t k' s'"
  shows "slot_val (set_slot t s v) s' = (if s' = s then v else slot_val t s')"
  using assms by (cases s; cases s')
    (auto simp: slot_val_def set_slot_def slot_of_def nth_list_update)

lemma lookup_set_slot:
  assumes inv: "table_inv H t" and k: "valid_key k" and s: "slot_of t k s" and k': "valid_key k'"
  shows "lookup (set_slot t s v) k' = (if luaO_rawequalObj k k' then v else lookup t k')"
proof (cases "\<exists>s'. slot_of t k' s'")
  case True
  then obtain s' where s': "slot_of t k' s'" by blast
  then have "slot_of (set_slot t s v) k' s'" by (simp add: slot_of_set_slot)
  then have L: "lookup (set_slot t s v) k' = (if s' = s then v else slot_val t s')"
    using slot_of_lookup [OF set_slot_inv(1) [OF inv k s] k'] slot_val_set_slot [OF s s'] by simp
  have "s' = s \<longleftrightarrow> luaO_rawequalObj k k'"
  proof
    assume e: "luaO_rawequalObj k k'"
    then have "slot_of t k' s" using s slot_of_cong by blast
    moreover have "\<exists>p. luaH_get H t k' = Ok p \<and> (\<forall>s. p = Some s \<longleftrightarrow> slot_of t k' s)"
      using get_found [OF inv valid_keyD(1,2) [OF k']] by (simp add: found_def)
    ultimately show "s' = s" using s' by (metis option.inject)
  qed (use slot_of_inj [OF s] s' in blast)
  with L slot_of_lookup [OF inv k' s'] show ?thesis by simp
next
  case False
  then have "\<not> luaO_rawequalObj k k'" using s slot_of_cong by blast
  moreover have "\<forall>s'. \<not> slot_of (set_slot t s v) k' s'" using False by (simp add: slot_of_set_slot)
  ultimately show ?thesis using False no_slot_lookup by simp
qed

section \<open>The insertion functions when there is room\<close>

text \<open>The result of an insertion function: the slot of the key, and nothing else changed.\<close>

definition slot_result :: "strhash \<Rightarrow> Table \<Rightarrow> TValue \<Rightarrow> slot \<Rightarrow> Table \<Rightarrow> bool" where
  "slot_result H t k s t' \<longleftrightarrow>
     table_inv H t' \<and> slot_of t' k s \<and> frame t t'
   \<and> (\<forall>k'. valid_key k' \<longrightarrow> lookup t' k' = lookup t k')
   \<and> card (used (node t')) \<le> card (used (node t)) + (if in_array t k then 0 else 1)"

definition has_room :: "Table \<Rightarrow> TValue \<Rightarrow> bool" where
  "has_room t k \<longleftrightarrow> in_array t k \<or> card (used (node t)) < capacity t"

lemma slot_result_existing:
  "table_inv H t \<Longrightarrow> slot_of t k s \<Longrightarrow> slot_result H t k s t"
  by (simp add: slot_result_def)

lemma slot_result_flags: "slot_result H (t\<lparr>flags := x\<rparr>) k s t' \<longleftrightarrow> slot_result H t k s t'"
proof -
  have "lookup (t\<lparr>flags := x\<rparr>) k' = lookup t k'" for k' by (simp add: lookup_def)
  then show ?thesis by (simp add: slot_result_def frame_def capacity_def)
qed

lemma slot_result_inserted:
  assumes inv: "table_inv H t" "table_inv H t'" and ins: "inserted t k i t'"
    and k: "valid_key k" and out: "\<not> in_array t k"
  shows "slot_result H t k (NodeSlot i) t'"
proof -
  have same: "array t' = array t" "lsizenode t' = lsizenode t" "isdummy t' = isdummy t"
    "metatable t' = metatable t" and ni: "node_ins (node t) k i (node t')"
    using ins by (simp_all add: inserted_def)
  have i: "i < length (node t')" "i_key (node t' ! i) = k" using ni by (simp_all add: node_ins_def)
  have "slot_of t' k (NodeSlot i)"
    using i out rawequal_refl [of k] valid_keyD(3) [OF k] by (simp add: slot_of_def same)
  moreover have "lookup t' k' = lookup t k'" if "valid_key k'" for k'
    using lookup_same [OF inv same(1) _ that] ni by (simp add: node_ins_def)
  moreover obtain x where "used (node t') \<subseteq> insert x (used (node t))"
    using ni by (auto simp: node_ins_def)
  then have "card (used (node t')) \<le> card (insert x (used (node t)))"
    by (intro card_mono) simp_all
  then have "card (used (node t')) \<le> card (used (node t)) + 1"
    using card_insert_le_m1 [of "Suc (card (used (node t)))" "used (node t)" x] by simp
  ultimately show ?thesis
    using inv out unfolding slot_result_def frame_def capacity_def same by (simp only: if_False) simp
qed

lemma newkey_slot_result:
  assumes inv: "table_inv H t" and k: "valid_key k" and no: "\<forall>s. \<not> slot_of t k s"
    and room: "has_room t k"
  shows "\<exists>s t'. newkey H (Suc f) t k = Ok (s, t') \<and> slot_result H t k s t'"
proof -
  have out: "\<not> in_array t k" by (rule no_slotD(1) [OF no])
  with room have "card (used (node t)) < capacity t" by (simp add: has_room_def)
  from newkey_room [OF inv k no this, of "newkey H f"] obtain i t' where
    "newkey H (Suc f) t k = Ok (NodeSlot i, t')" "table_inv H t'" "inserted t k i t'" by auto
  with slot_result_inserted [OF inv _ _ k out] show ?thesis by blast
qed

lemma capacity_flags [simp]: "capacity (t\<lparr>flags := x\<rparr>) = capacity t"
  by (simp add: capacity_def)

lemma slot_of_flags [simp]: "slot_of (t\<lparr>flags := x\<rparr>) k s = slot_of t k s"
  by (cases s) (simp_all add: slot_of_def)

lemma set_by_room:
  assumes inv: "table_inv H t" and k: "valid_key k" and room: "has_room t k"
  shows "\<exists>s t'. luaH_set_by (newkey H (Suc f)) H t k = Ok (s, t') \<and> slot_result H t k s t'"
proof -
  obtain p where p: "luaH_get H t k = Ok p" and P: "\<forall>s. p = Some s \<longleftrightarrow> slot_of t k s"
    using get_found [OF inv valid_keyD(1,2) [OF k]] by (auto simp: found_def)
  let ?t = "t\<lparr>flags := 0\<rparr>"
  have inv': "table_inv H ?t" using inv by simp
  show ?thesis
  proof (cases p)
    case (Some s)
    with P have "slot_of t k s" by blast
    then have "slot_of ?t k s" by (simp only: slot_of_flags)
    then have "slot_result H t k s ?t"
      using slot_result_existing [OF inv'] slot_result_flags by blast
    with p Some show ?thesis by (simp add: luaH_set_by_def)
  next
    case None
    with P have no: "\<forall>s. \<not> slot_of ?t k s" by simp
    have "has_room ?t k" using room by (simp add: has_room_def)
    from newkey_slot_result [OF inv' k no this, of f] obtain s t' where
      "newkey H (Suc f) ?t k = Ok (s, t')" "slot_result H t k s t'" by (auto simp: slot_result_flags)
    with p None valid_keyD [OF k] show ?thesis by (simp add: luaH_set_by_def)
  qed
qed

lemma valid_cast_num: "in_int i \<Longrightarrow> valid_key (VNumber (cast_num i))"
  using cast_num_not_nan [of i] by (simp add: valid_key_def is_NaN_def in_int_def abs_if)

lemma setnum_by_room:
  assumes inv: "table_inv H t" and i: "in_int i" and room: "has_room t (VNumber (cast_num i))"
  shows "\<exists>s t'. luaH_setnum_by (newkey H (Suc f)) t i = Ok (s, t')
    \<and> slot_result H t (VNumber (cast_num i)) s t'"
proof -
  obtain p where p: "luaH_getnum t i = Ok p"
    and P: "\<forall>s. p = Some s \<longleftrightarrow> slot_of t (VNumber (cast_num i)) s"
    using getnum_found [OF inv i] by (auto simp: found_def)
  show ?thesis
  proof (cases p)
    case (Some s)
    with P have "slot_of t (VNumber (cast_num i)) s" by blast
    then have "slot_result H t (VNumber (cast_num i)) s t" by (rule slot_result_existing [OF inv])
    with p Some show ?thesis by (simp add: luaH_setnum_by_def)
  next
    case None
    with P have no: "\<forall>s. \<not> slot_of t (VNumber (cast_num i)) s" by simp
    from newkey_slot_result [OF inv valid_cast_num [OF i] no room, of f] p None
    show ?thesis by (auto simp: luaH_setnum_by_def)
  qed
qed

text \<open>A store: the slot is found, then written.\<close>

definition stored :: "strhash \<Rightarrow> Table \<Rightarrow> TValue \<Rightarrow> TValue \<Rightarrow> Table \<Rightarrow> bool" where
  "stored H t k v t' \<longleftrightarrow>
     table_inv H t' \<and> frame t t'
   \<and> (\<forall>k'. valid_key k' \<longrightarrow> lookup t' k' = (if luaO_rawequalObj k k' then v else lookup t k'))
   \<and> card (used (node t')) \<le> card (used (node t)) + (if in_array t k then 0 else 1)"

lemma slot_result_stored:
  assumes "slot_result H t k s t'" and k: "valid_key k"
  shows "stored H t k v (set_slot t' s v)"
proof -
  have inv: "table_inv H t'" and s: "slot_of t' k s" and fr: "frame t t'"
    and L: "\<forall>k'. valid_key k' \<longrightarrow> lookup t' k' = lookup t k'"
    and C: "card (used (node t')) \<le> card (used (node t)) + (if in_array t k then 0 else 1)"
    using assms(1) by (simp_all add: slot_result_def)
  show ?thesis
    unfolding stored_def
    using set_slot_inv [OF inv k s, of v] frame_trans [OF fr] lookup_set_slot [OF inv k s] L C by simp
qed

end
