(* ===== verification/LuaTableResize.thy ===== *)
theory LuaTableResize
  imports LuaTableSet
begin

text \<open>
  \<open>resize\<close> moves every entry to the new parts when they are large enough, \<open>rehash\<close> computes
  sizes that are, and so \<open>luaH_set\<close> returns: it stores the key or raises
  \<open>table overflow\<close>.
\<close>

declare newkey.simps(2) [simp del]

section \<open>Re-inserting the nodes\<close>

abbreviation live_node :: "Node \<Rightarrow> bool" where
  "live_node n \<equiv> i_val n \<noteq> VNil"

definition node_lookup :: "Node list \<Rightarrow> TValue \<Rightarrow> Node option" where
  "node_lookup ns k = find (\<lambda>n. live_node n \<and> luaO_rawequalObj (i_key n) k) ns"

definition keys_apart :: "Node list \<Rightarrow> bool" where
  "keys_apart ns \<longleftrightarrow>
     sorted_wrt (\<lambda>a b. live_node a \<longrightarrow> live_node b \<longrightarrow> \<not> luaO_rawequalObj (i_key a) (i_key b)) ns"

lemma keys_apart_Cons:
  assumes "keys_apart (n # ns)" and "live_node n" and "luaO_rawequalObj (i_key n) k"
  shows "node_lookup ns k = None"
proof -
  have "\<not> luaO_rawequalObj (i_key b) k" if "b \<in> set ns" "live_node b" for b
    using assms that rawequal_sym rawequal_trans unfolding keys_apart_def sorted_wrt.simps by metis
  then show ?thesis by (auto simp: node_lookup_def find_None_iff)
qed

lemma keys_apart_tl: "keys_apart (n # ns) \<Longrightarrow> keys_apart ns"
  by (simp add: keys_apart_def)

abbreviation out_nodes :: "Table \<Rightarrow> Node list \<Rightarrow> Node list" where
  "out_nodes t ns \<equiv> filter (\<lambda>n. live_node n \<and> \<not> in_array t (i_key n)) ns"

lemma frame_in_array: "frame t t' \<Longrightarrow> in_array t' k \<longleftrightarrow> in_array t k"
  by (simp add: frame_def)

lemma reinsert_nodes_room:
  assumes "table_inv H t" and "keys_apart olds" and "\<forall>n \<in> set olds. live_node n \<longrightarrow> valid_key (i_key n)"
    and "card (used (node t)) + length (out_nodes t olds) \<le> capacity t"
  shows "\<exists>t'. reinsert_nodes (newkey H (Suc f)) H t olds = Ok t' \<and> table_inv H t' \<and> frame t t'
    \<and> card (used (node t')) \<le> card (used (node t)) + length (out_nodes t olds)
    \<and> (\<forall>k. valid_key k \<longrightarrow> lookup t' k =
          (case node_lookup olds k of None \<Rightarrow> lookup t k | Some n \<Rightarrow> i_val n))"
  using assms
proof (induction olds arbitrary: t)
  case Nil
  then show ?case by (simp add: node_lookup_def)
next
  case (Cons n olds)
  show ?case
  proof (cases "live_node n")
    case False
    with Cons.prems keys_apart_tl show ?thesis
      using Cons.IH [of t] by (auto simp: node_lookup_def)
  next
    case True
    have k: "valid_key (i_key n)" using Cons.prems(3) True by simp
    have "has_room t (i_key n)"
      using Cons.prems(4) True unfolding has_room_def by (cases "in_array t (i_key n)") simp_all
    from set_by_room [OF Cons.prems(1) k this, of f] obtain s t1 where
      s: "luaH_set_by (newkey H (Suc f)) H t (i_key n) = Ok (s, t1)"
      and r: "slot_result H t (i_key n) s t1" by blast
    let ?t = "set_slot t1 s (i_val n)"
    have st: "stored H t (i_key n) (i_val n) ?t" by (rule slot_result_stored [OF r k])
    then have fr: "frame t ?t" and inv: "table_inv H ?t" by (simp_all add: stored_def)
    have same: "length (out_nodes ?t olds) = length (out_nodes t olds)"
      using frame_in_array [OF fr] by simp
    have count: "card (used (node ?t)) + length (out_nodes ?t olds)
        \<le> card (used (node t)) + length (out_nodes t (n # olds))"
      using st True unfolding stored_def same by (cases "in_array t (i_key n)") simp_all
    moreover have "capacity ?t = capacity t" using fr by (simp add: frame_def)
    ultimately have room: "card (used (node ?t)) + length (out_nodes ?t olds) \<le> capacity ?t"
      using Cons.prems(4) by linarith
    have valid_olds: "\<forall>n \<in> set olds. live_node n \<longrightarrow> valid_key (i_key n)"
      using Cons.prems(3) by simp
    obtain t' where t': "reinsert_nodes (newkey H (Suc f)) H ?t olds = Ok t'" "table_inv H t'" "frame ?t t'"
      and C: "card (used (node t')) \<le> card (used (node ?t)) + length (out_nodes ?t olds)"
      and L: "\<forall>k. valid_key k \<longrightarrow> lookup t' k =
          (case node_lookup olds k of None \<Rightarrow> lookup ?t k | Some n \<Rightarrow> i_val n)"
      using Cons.IH [OF inv keys_apart_tl [OF Cons.prems(2)] valid_olds room] by blast
    have "lookup t' k = (case node_lookup (n # olds) k of None \<Rightarrow> lookup t k | Some n \<Rightarrow> i_val n)"
      if v: "valid_key k" for k
    proof (cases "luaO_rawequalObj (i_key n) k")
      case eq: True
      with keys_apart_Cons [OF Cons.prems(2) True] L v st True show ?thesis
        by (simp add: node_lookup_def [of "n # olds"] stored_def)
    next
      case False
      then have "node_lookup (n # olds) k = node_lookup olds k" by (simp add: node_lookup_def)
      with L v st False show ?thesis by (simp add: stored_def split: option.split)
    qed
    moreover have "reinsert_nodes (newkey H (Suc f)) H t (n # olds) = Ok t'"
      using True s t'(1) by simp
    ultimately show ?thesis
      using t'(2) order_trans [OF C count] frame_trans [OF fr t'(3)] by blast
  qed
qed

section \<open>Re-inserting the end of the array\<close>

lemma rawequal_index:
  assumes "in_int i" and "0 < i"
  shows "luaO_rawequalObj (VNumber (cast_num i)) k \<longleftrightarrow> arrayindex k = i"
proof
  assume "luaO_rawequalObj (VNumber (cast_num i)) k"
  from arrayindex_eq [OF this] show "arrayindex k = i" by (simp add: arrayindex_cast_num [OF assms(1)])
next
  assume "arrayindex k = i"
  then show "luaO_rawequalObj (VNumber (cast_num i)) k"
    using assms by (intro arrayindex_same) (simp_all add: arrayindex_cast_num)
qed

definition list_lookup :: "nat \<Rightarrow> TValue list \<Rightarrow> TValue \<Rightarrow> TValue option" where
  "list_lookup i vs k =
     (if int i < arrayindex k \<and> arrayindex k \<le> int (i + length vs)
        \<and> vs ! nat (arrayindex k - 1 - int i) \<noteq> VNil
      then Some (vs ! nat (arrayindex k - 1 - int i)) else None)"

lemma list_lookup_Cons:
  "list_lookup i (v # vs) k =
     (if arrayindex k = int i + 1 then if v = VNil then None else Some v
      else list_lookup (Suc i) vs k)"
proof (cases "int i + 1 < arrayindex k")
  case True
  then have "nat (arrayindex k - 1 - int i) = Suc (nat (arrayindex k - 1 - int (Suc i)))" by simp
  with True show ?thesis by (simp add: list_lookup_def)
qed (auto simp: list_lookup_def)

abbreviation non_nil :: "TValue list \<Rightarrow> TValue list" where
  "non_nil vs \<equiv> filter (\<lambda>v. v \<noteq> VNil) vs"

lemma reinsert_array_room:
  assumes "table_inv H t" and "int (i + length vs) \<le> MAXASIZE"
    and "card (used (node t)) + length (non_nil vs) \<le> capacity t"
  shows "\<exists>t'. reinsert_array (newkey H (Suc f)) t i vs = Ok t' \<and> table_inv H t' \<and> frame t t'
    \<and> card (used (node t')) \<le> card (used (node t)) + length (non_nil vs)
    \<and> (\<forall>k. valid_key k \<longrightarrow> lookup t' k =
          (case list_lookup i vs k of None \<Rightarrow> lookup t k | Some v \<Rightarrow> v))"
  using assms
proof (induction vs arbitrary: t i)
  case Nil
  have "list_lookup i [] k = None" for k by (auto simp: list_lookup_def)
  with Nil show ?case by simp
next
  case (Cons v vs)
  have bound: "int (Suc i + length vs) \<le> MAXASIZE" using Cons.prems(2) by simp
  let ?k = "VNumber (cast_num (int i + 1))"
  have i: "in_int (int i + 1)" using bound by (simp add: in_int_def)
  show ?case
  proof (cases "v = VNil")
    case True
    have "list_lookup i (v # vs) k = list_lookup (Suc i) vs k" for k
      using True by (simp add: list_lookup_Cons) (simp add: list_lookup_def)
    with True Cons.IH [OF Cons.prems(1) bound] Cons.prems(3) show ?thesis by simp
  next
    case False
    have "has_room t ?k" using Cons.prems(3) False by (simp add: has_room_def)
    from setnum_by_room [OF Cons.prems(1) i this, of f] obtain s t1 where
      s: "luaH_setnum_by (newkey H (Suc f)) t (int i + 1) = Ok (s, t1)"
      and r: "slot_result H t ?k s t1" by blast
    let ?t = "set_slot t1 s v"
    have st: "stored H t ?k v ?t" by (rule slot_result_stored [OF r valid_cast_num [OF i]])
    then have fr: "frame t ?t" and inv: "table_inv H ?t" by (simp_all add: stored_def)
    have count: "card (used (node ?t)) + length (non_nil vs)
        \<le> card (used (node t)) + length (non_nil (v # vs))"
      using st False unfolding stored_def by (cases "in_array t ?k") simp_all
    moreover have "capacity ?t = capacity t" using fr by (simp add: frame_def)
    ultimately have room: "card (used (node ?t)) + length (non_nil vs) \<le> capacity ?t"
      using Cons.prems(3) by linarith
    obtain t' where t': "reinsert_array (newkey H (Suc f)) ?t (Suc i) vs = Ok t'" "table_inv H t'" "frame ?t t'"
      and C: "card (used (node t')) \<le> card (used (node ?t)) + length (non_nil vs)"
      and L: "\<forall>k. valid_key k \<longrightarrow> lookup t' k =
          (case list_lookup (Suc i) vs k of None \<Rightarrow> lookup ?t k | Some v \<Rightarrow> v)"
      using Cons.IH [OF inv bound room] by blast
    have "lookup t' k = (case list_lookup i (v # vs) k of None \<Rightarrow> lookup t k | Some v \<Rightarrow> v)"
      if vk: "valid_key k" for k
    proof (cases "arrayindex k = int i + 1")
      case True
      then have "list_lookup (Suc i) vs k = None" by (simp add: list_lookup_def)
      moreover have "lookup ?t k = v"
        using st vk True rawequal_index [OF i] by (simp add: stored_def)
      ultimately show ?thesis using L vk True False by (simp add: list_lookup_Cons)
    next
      case ne: False
      then have "lookup ?t k = lookup t k"
        using st vk rawequal_index [OF i] by (simp add: stored_def)
      with ne L vk show ?thesis by (simp add: list_lookup_Cons split: option.split)
    qed
    moreover have "reinsert_array (newkey H (Suc f)) t i (v # vs) = Ok t'"
      using False s t'(1) by simp
    ultimately show ?thesis
      using t'(2) order_trans [OF C count] frame_trans [OF fr t'(3)] by blast
  qed
qed

section \<open>A fresh node vector\<close>

lemma node_inv_fresh: "node_inv mp (replicate n empty_node)"
proof -
  have E: "nedges (replicate n empty_node) = {}" by (auto simp: nedges_def empty_node_def)
  show ?thesis
    unfolding node_inv_def links_ok_def keys_ok_def homes_ok_def E
    by (auto simp: empty_node_def present_def is_NaN_def)
qed

lemma used_fresh: "used (replicate n empty_node) = {}"
  by (auto simp: used_def empty_node_def)

text \<open>What \<open>setnodevector\<close> gives: an empty hash part with the capacity asked for.\<close>

definition fresh :: "strhash \<Rightarrow> Table \<Rightarrow> nat \<Rightarrow> Table \<Rightarrow> bool" where
  "fresh H t sz t' \<longleftrightarrow>
     table_inv H t' \<and> array t' = array t \<and> metatable t' = metatable t \<and> sz \<le> capacity t'
   \<and> (\<exists>n. node t' = replicate n empty_node)"

lemma setnodevector_fresh:
  assumes sz: "sz < 2 ^ 32" and arr: "int (length (array t)) \<le> MAXASIZE"
  shows "setnodevector t sz = Err (RunError ''table overflow'') \<and> 2 ^ MAXBITS < sz
    \<or> (\<exists>t'. setnodevector t sz = Ok t' \<and> fresh H t sz t')"
proof (cases "sz = 0")
  case True
  let ?t = "t\<lparr>node := [empty_node], isdummy := True, lsizenode := 0, lastfree := 0\<rparr>"
  have "node_inv (mainposition H 0) [empty_node]" using node_inv_fresh [of _ 1] by simp
  then have "table_inv H ?t" using arr by (simp add: table_inv_def present_def empty_node_def)
  then have "fresh H t sz ?t"
    using True by (auto simp: fresh_def intro: exI [of _ 1])
  with True show ?thesis by (simp add: setnodevector_def)
next
  case False
  let ?w = "word_of_nat sz :: u32"
  have w: "uint ?w = int sz"
    using sz by (simp add: unsigned_of_nat take_bit_nat_eq_self flip: uint_nat)
  have "0 < ?w" using False by (simp add: word_less_def w)
  note c = ceillog2_bounds [OF this, unfolded w]
  show ?thesis
  proof (cases "int MAXBITS < ceillog2 ?w")
    case True
    then have "MAXBITS \<le> nat (ceillog2 ?w - 1)" by simp
    then have "(2::int) ^ MAXBITS \<le> 2 ^ nat (ceillog2 ?w - 1)" by (rule power_increasing) simp
    also have "\<dots> < int sz" using c(3) True by simp
    finally have "2 ^ MAXBITS < sz" by simp
    with True False show ?thesis by (simp add: setnodevector_def)
  next
    case small: False
    let ?l = "nat (ceillog2 ?w)"
    let ?t = "t\<lparr>node := replicate (2 ^ ?l) empty_node, isdummy := False, lsizenode := ?l,
                lastfree := 2 ^ ?l\<rparr>"
    have "free_below (replicate (2 ^ ?l) empty_node) (2 ^ ?l)" by (simp add: free_below_def)
    then have "table_inv H ?t"
      using arr small node_inv_fresh by (simp add: table_inv_def present_def empty_node_def)
    moreover have "int sz \<le> int (2 ^ ?l)" using c(2) by simp
    then have "sz \<le> 2 ^ ?l" by (simp only: of_nat_le_iff)
    then have "sz \<le> capacity ?t" by (simp add: capacity_def)
    ultimately have "fresh H t sz ?t" by (auto simp: fresh_def)
    moreover have "setnodevector t sz = Ok ?t"
      using False small by (simp add: setnodevector_def Let_def)
    ultimately show ?thesis by blast
  qed
qed

lemma fresh_lookup:
  assumes "fresh H t sz t'" and "valid_key k"
  shows "lookup t' k = (if in_array t k then array t ! nat (arrayindex k - 1) else VNil)"
proof -
  obtain n where n: "node t' = replicate n empty_node" using assms(1) by (auto simp: fresh_def)
  have "find (\<lambda>n. luaO_rawequalObj (i_key n) k) (node t') = None"
    using valid_keyD(1) [OF assms(2)] by (auto simp: find_None_iff n empty_node_def)
  with assms(1) show ?thesis by (simp add: lookup_def fresh_def)
qed

section \<open>Resizing\<close>

text \<open>The entries that a hash part must take when the array part has \<open>nasize\<close> slots.\<close>

definition hash_need :: "Table \<Rightarrow> nat \<Rightarrow> nat" where
  "hash_need t nasize =
     length (non_nil (drop nasize (array t)))
   + length (filter (\<lambda>n. live_node n \<and> \<not> (0 < arrayindex (i_key n) \<and> arrayindex (i_key n) \<le> int nasize))
       (node t))"

definition resized :: "strhash \<Rightarrow> Table \<Rightarrow> nat \<Rightarrow> nat \<Rightarrow> Table \<Rightarrow> bool" where
  "resized H t nasize nhsize t' \<longleftrightarrow>
     table_inv H t' \<and> length (array t') = nasize \<and> nhsize \<le> capacity t' \<and> metatable t' = metatable t
   \<and> card (used (node t')) \<le> hash_need t nasize
   \<and> (\<forall>k. valid_key k \<longrightarrow> lookup t' k = lookup t k)"

lemma keys_apart_rev:
  assumes inv: "table_inv H t"
  shows "keys_apart (rev (node t))" and "\<forall>n \<in> set (rev (node t)). live_node n \<longrightarrow> valid_key (i_key n)"
proof -
  have keys: "keys_ok (node t)" using table_invD(1) [OF inv] by (simp add: node_inv_def)
  have p: "present (node t ! i)" if "i < length (node t)" "live_node (node t ! i)" for i
    using keys that by (auto simp: keys_ok_def)
  show "keys_apart (rev (node t))"
    unfolding keys_apart_def sorted_wrt_rev
    unfolding sorted_wrt_iff_nth_less
  proof (intro allI impI)
    fix i j
    assume ij: "i < j" "j < length (node t)" "live_node (node t ! j)" "live_node (node t ! i)"
    with p have "present (node t ! i)" "present (node t ! j)" by simp_all
    with keys ij have "luaO_rawequalObj (i_key (node t ! j)) (i_key (node t ! i)) \<longrightarrow> j = i"
      by (simp add: keys_ok_def)
    with ij(1) show "\<not> luaO_rawequalObj (i_key (node t ! j)) (i_key (node t ! i))" by blast
  qed
  show "\<forall>n \<in> set (rev (node t)). live_node n \<longrightarrow> valid_key (i_key n)"
  proof (intro ballI impI)
    fix n
    assume n: "n \<in> set (rev (node t))" "live_node n"
    then obtain i where i: "i < length (node t)" "n = node t ! i" by (auto simp: in_set_conv_nth)
    with n p have "present n" by simp
    moreover have "\<not> is_NaN (i_key n)" using keys i by (simp add: keys_ok_def)
    ultimately show "valid_key (i_key n)" by (simp add: valid_key_def present_def)
  qed
qed

lemma node_lookup_lookup:
  assumes inv: "table_inv H t" and k: "valid_key k"
  shows "node_lookup (rev (node t)) k = Some n \<Longrightarrow> \<not> in_array t k"
    and "node_lookup (rev (node t)) k = Some n \<Longrightarrow> i_val n = lookup t k"
    and "\<not> in_array t k \<Longrightarrow> node_lookup (rev (node t)) k = None \<Longrightarrow> lookup t k = VNil"
proof -
  have some: "\<not> in_array t k \<and> i_val n = lookup t k \<and> lookup t k \<noteq> VNil"
    if n: "node_lookup (rev (node t)) k = Some n" for n
  proof -
    have *: "n \<in> set (node t)" "live_node n" "luaO_rawequalObj (i_key n) k"
      using n by (auto simp: node_lookup_def find_Some_iff simp flip: in_set_conv_nth)
        (metis length_rev nth_mem set_rev)
    then obtain i where i: "i < length (node t)" "n = node t ! i" by (auto simp: in_set_conv_nth)
    have "present n"
      using table_invD(1) [OF inv] i *(2) by (auto simp: node_inv_def keys_ok_def)
    then have "\<not> in_array t (i_key n)" by (rule table_invD(8) [OF inv *(1)])
    then have out: "\<not> in_array t k" using arrayindex_eq [OF *(3)] by simp
    with i * have "slot_of t k (NodeSlot i)" by (simp add: slot_of_def)
    from slot_of_lookup [OF inv k this] out * i show ?thesis by (simp add: slot_val_def)
  qed
  show "node_lookup (rev (node t)) k = Some n \<Longrightarrow> \<not> in_array t k" using some by blast
  show "node_lookup (rev (node t)) k = Some n \<Longrightarrow> i_val n = lookup t k" using some by blast
  assume out: "\<not> in_array t k" and none: "node_lookup (rev (node t)) k = None"
  show "lookup t k = VNil"
  proof (rule ccontr)
    assume "lookup t k \<noteq> VNil"
    from lookup_live [OF inv k out this] obtain i where "i < length (node t)"
      and i: "luaO_rawequalObj (i_key (node t ! i)) k" "live_node (node t ! i)" by (auto simp: live_def)
    then have "node t ! i \<in> set (node t)" by simp
    with i none show False by (auto simp: node_lookup_def find_None_iff)
  qed
qed

lemma fresh_array:
  assumes "fresh H t sz t'" and "int (length a) \<le> MAXASIZE"
  shows "fresh H (t\<lparr>array := a\<rparr>) sz (t'\<lparr>array := a\<rparr>)"
proof -
  obtain n where n: "node t' = replicate n empty_node" using assms(1) by (auto simp: fresh_def)
  have "\<not> present x" if "x \<in> set (node t')" for x using that by (simp add: n present_def empty_node_def)
  then have "table_inv H (t'\<lparr>array := a\<rparr>)"
    using assms by (simp add: fresh_def table_inv_def)
  with assms(1) n show ?thesis by (auto simp: fresh_def capacity_def)
qed

text \<open>The table between the two halves of \<open>resize\<close>: the array part is in place.\<close>

definition halfway :: "strhash \<Rightarrow> Table \<Rightarrow> nat \<Rightarrow> nat \<Rightarrow> Table \<Rightarrow> bool" where
  "halfway H t nasize nhsize t' \<longleftrightarrow>
     table_inv H t' \<and> length (array t') = nasize \<and> nhsize \<le> capacity t' \<and> metatable t' = metatable t
   \<and> card (used (node t')) \<le> length (non_nil (drop nasize (array t)))
   \<and> (\<forall>k. valid_key k \<longrightarrow> lookup t' k =
        (if in_array t k then array t ! nat (arrayindex k - 1) else VNil))"

lemma fresh_used: "fresh H t sz t' \<Longrightarrow> card (used (node t')) = 0"
  using used_fresh by (auto simp: fresh_def)

lemma halfway_grow:
  assumes big: "length (array t) \<le> nasize" and f: "fresh H (setarrayvector t nasize) nhsize t'"
  shows "halfway H t nasize nhsize t'"
proof -
  have arr: "array t' = array t @ replicate (nasize - length (array t)) VNil"
    using f big by (simp add: fresh_def setarrayvector_def)
  have "lookup t' k = (if in_array t k then array t ! nat (arrayindex k - 1) else VNil)"
    if v: "valid_key k" for k
    using fresh_lookup [OF f v] big by (auto simp: setarrayvector_def nth_append)
  then show ?thesis
    using f arr big fresh_used [OF f] by (simp add: halfway_def fresh_def setarrayvector_def)
qed

lemma halfway_shrink:
  assumes small: "nasize < length (array t)" and arr: "int (length (array t)) \<le> MAXASIZE"
    and f: "fresh H t nhsize t2" and room: "length (non_nil (drop nasize (array t))) \<le> nhsize"
  shows "\<exists>t'. reinsert_array (newkey H (Suc d)) (t2\<lparr>array := take nasize (array t2)\<rparr>) nasize
      (drop nasize (array t2)) = Ok t' \<and> halfway H t nasize nhsize t'"
proof -
  let ?t = "t2\<lparr>array := take nasize (array t2)\<rparr>"
  have a2: "array t2 = array t" using f by (simp add: fresh_def)
  have f': "fresh H (t\<lparr>array := take nasize (array t)\<rparr>) nhsize ?t"
    unfolding a2 by (rule fresh_array [OF f]) (use arr small in simp)
  have inv: "table_inv H ?t" using f' by (simp add: fresh_def a2)
  have b: "int (nasize + length (drop nasize (array t))) \<le> MAXASIZE" using arr small by simp
  have u0: "card (used (node ?t)) = 0" by (rule fresh_used [OF f'])
  have cap: "nhsize \<le> capacity ?t" using f' by (simp add: fresh_def a2)
  have r: "card (used (node ?t)) + length (non_nil (drop nasize (array t))) \<le> capacity ?t"
    using u0 cap room by linarith
  obtain t' where t': "reinsert_array (newkey H (Suc d)) ?t nasize (drop nasize (array t)) = Ok t'"
    and inv': "table_inv H t'" and fr: "frame ?t t'"
    and C: "card (used (node t')) \<le> card (used (node ?t)) + length (non_nil (drop nasize (array t)))"
    and L: "\<forall>k. valid_key k \<longrightarrow> lookup t' k =
          (case list_lookup nasize (drop nasize (array t)) k of None \<Rightarrow> lookup ?t k | Some v \<Rightarrow> v)"
    using reinsert_array_room [OF inv b r] by blast
  have "lookup t' k = (if in_array t k then array t ! nat (arrayindex k - 1) else VNil)"
    if v: "valid_key k" for k
  proof -
    have low: "lookup ?t k = (if 0 < arrayindex k \<and> arrayindex k \<le> int nasize
        then array t ! nat (arrayindex k - 1) else VNil)"
      using fresh_lookup [OF f' v] small by auto
    have high: "drop nasize (array t) ! nat (arrayindex k - 1 - int nasize) = array t ! nat (arrayindex k - 1)"
      if "int nasize < arrayindex k" "arrayindex k \<le> int (length (array t))"
    proof -
      have "nasize + nat (arrayindex k - 1 - int nasize) = nat (arrayindex k - 1)" using that by simp
      then show ?thesis using small by simp
    qed
    show ?thesis
    proof (cases "int nasize < arrayindex k \<and> arrayindex k \<le> int (length (array t))")
      case True
      then have "list_lookup nasize (drop nasize (array t)) k =
          (if array t ! nat (arrayindex k - 1) = VNil then None else Some (array t ! nat (arrayindex k - 1)))"
        using high small by (simp add: list_lookup_def)
      with True L v low show ?thesis by simp
    next
      case False
      then have "list_lookup nasize (drop nasize (array t)) k = None"
        using small by (auto simp: list_lookup_def)
      with L v low False small show ?thesis by auto
    qed
  qed
  moreover have "length (array t') = nasize" "metatable t' = metatable t" "nhsize \<le> capacity t'"
    using fr small a2 f cap by (simp_all add: frame_def fresh_def)
  ultimately have "halfway H t nasize nhsize t'"
    using inv' C u0 by (simp add: halfway_def)
  then show ?thesis using t' by (auto simp: a2)
qed

lemma halfway_finish:
  assumes inv: "table_inv H t" and h: "halfway H t nasize nhsize t3" and need: "hash_need t nasize \<le> nhsize"
  shows "\<exists>t'. reinsert_nodes (newkey H (Suc d)) H t3 (rev (node t)) = Ok t'
    \<and> resized H t nasize nhsize t'"
proof -
  have inv3: "table_inv H t3" and len: "length (array t3) = nasize" and cap: "nhsize \<le> capacity t3"
    and C3: "card (used (node t3)) \<le> length (non_nil (drop nasize (array t)))"
    and L3: "\<forall>k. valid_key k \<longrightarrow> lookup t3 k =
        (if in_array t k then array t ! nat (arrayindex k - 1) else VNil)"
    using h by (simp_all add: halfway_def)
  have out: "length (out_nodes t3 (rev (node t))) + length (non_nil (drop nasize (array t)))
      = hash_need t nasize"
    by (simp only: hash_need_def len rev_filter [symmetric] length_rev add.commute)
  then have room: "card (used (node t3)) + length (out_nodes t3 (rev (node t))) \<le> capacity t3"
    using C3 cap need by linarith
  obtain t' where t': "reinsert_nodes (newkey H (Suc d)) H t3 (rev (node t)) = Ok t'"
    and inv': "table_inv H t'" and fr: "frame t3 t'"
    and C: "card (used (node t')) \<le> card (used (node t3)) + length (out_nodes t3 (rev (node t)))"
    and L: "\<forall>k. valid_key k \<longrightarrow> lookup t' k =
          (case node_lookup (rev (node t)) k of None \<Rightarrow> lookup t3 k | Some n \<Rightarrow> i_val n)"
    using reinsert_nodes_room [OF inv3 keys_apart_rev [OF inv] room] by blast
  have "lookup t' k = lookup t k" if v: "valid_key k" for k
  proof (cases "node_lookup (rev (node t)) k")
    case None
    have "lookup t k = array t ! nat (arrayindex k - 1)" if "in_array t k"
      using that by (simp add: lookup_def)
    with None node_lookup_lookup(3) [OF inv v _ None] L L3 v show ?thesis by simp
  next
    case (Some n)
    with node_lookup_lookup(2) [OF inv v Some] L v show ?thesis by simp
  qed
  moreover have "card (used (node t')) \<le> hash_need t nasize" using C C3 out by linarith
  ultimately have "resized H t nasize nhsize t'"
    using inv' fr len cap h by (simp add: resized_def frame_def halfway_def)
  with t' show ?thesis by blast
qed

text \<open>A resize that leaves room for the entries keeps them all.\<close>

lemma resize_ok:
  assumes inv: "table_inv H t" and na: "int nasize \<le> MAXASIZE" and nh: "nhsize < 2 ^ 32"
    and need: "hash_need t nasize \<le> nhsize"
  shows "resize (newkey H (Suc d)) H t nasize nhsize = Err (RunError ''table overflow'')
      \<and> 2 ^ MAXBITS < nhsize
    \<or> (\<exists>t'. resize (newkey H (Suc d)) H t nasize nhsize = Ok t' \<and> resized H t nasize nhsize t')"
proof (cases "length (array t) < nasize")
  case True
  let ?t1 = "setarrayvector t nasize"
  have "int (length (array ?t1)) \<le> MAXASIZE" using na True by (simp add: setarrayvector_def)
  from setnodevector_fresh [OF nh this, of H]
  consider "setnodevector ?t1 nhsize = Err (RunError ''table overflow'')" "2 ^ MAXBITS < nhsize"
    | t2 where "setnodevector ?t1 nhsize = Ok t2" "fresh H ?t1 nhsize t2" by blast
  then show ?thesis
  proof cases
    case 1
    with True show ?thesis by (simp add: resize_def)
  next
    case 2
    then have "halfway H t nasize nhsize t2" using halfway_grow True by simp
    from halfway_finish [OF inv this need, of d] 2(1) True show ?thesis
      by (simp add: resize_def)
  qed
next
  case False
  have len: "int (length (array t)) \<le> MAXASIZE" by (rule table_invD(4) [OF inv])
  from setnodevector_fresh [OF nh this, of H]
  consider "setnodevector t nhsize = Err (RunError ''table overflow'')" "2 ^ MAXBITS < nhsize"
    | t2 where "setnodevector t nhsize = Ok t2" "fresh H t nhsize t2" by blast
  then show ?thesis
  proof cases
    case 1
    with False show ?thesis by (simp add: resize_def)
  next
    case f: 2
    show ?thesis
    proof (cases "nasize < length (array t)")
      case True
      have "length (non_nil (drop nasize (array t))) \<le> nhsize" using need by (simp add: hash_need_def)
      from halfway_shrink [OF True len f(2) this, of d] obtain t3 where
        "reinsert_array (newkey H (Suc d)) (t2\<lparr>array := take nasize (array t2)\<rparr>) nasize
          (drop nasize (array t2)) = Ok t3" "halfway H t nasize nhsize t3" by blast
      with halfway_finish [OF inv _ need, of t3 d] f(1) True False show ?thesis
        by (simp add: resize_def)
    next
      case same: False
      have "setarrayvector t nasize = t" using same False by (simp add: setarrayvector_def)
      then have "halfway H t nasize nhsize t2" using halfway_grow f(2) same by simp
      from halfway_finish [OF inv this need, of d] f(1) same False show ?thesis
        by (simp add: resize_def)
    qed
  qed
qed

end
