(* ===== verification/LuaTableCount.thy ===== *)
theory LuaTableCount
  imports LuaTableResize
begin

text \<open>
  The counts of \<open>rehash\<close>: \<open>nums\<close> holds how many integer keys fall in each slice between
  powers of two, \<open>computesizes\<close> chooses the array size from it, and the hash size that is left
  has room for everything else. The theorem at the end says that \<open>luaH_set\<close> returns.
\<close>

section \<open>Slices\<close>

definition slice :: "int \<Rightarrow> nat" where
  "slice k = nat (ceillog2 (word_of_int k))"

lemma slice_le:
  assumes "0 < k" and "k \<le> MAXASIZE"
  shows "slice k \<le> j \<longleftrightarrow> k \<le> 2 ^ j"
proof -
  let ?w = "word_of_int k :: u32"
  have w: "uint ?w = k"
    using assms by (simp add: unsigned_of_int take_bit_int_eq_self)
  have "0 < ?w" using assms by (simp add: word_less_def w)
  note c = ceillog2_bounds [OF this, unfolded w]
  show ?thesis
  proof
    assume "slice k \<le> j"
    then have "(2::int) ^ nat (ceillog2 ?w) \<le> 2 ^ j" by (intro power_increasing) (simp_all add: slice_def)
    with c(2) show "k \<le> 2 ^ j" by linarith
  next
    assume kj: "k \<le> 2 ^ j"
    show "slice k \<le> j"
    proof (rule ccontr)
      assume "\<not> slice k \<le> j"
      then have "j \<le> nat (ceillog2 ?w - 1)" and pos: "0 < ceillog2 ?w" by (auto simp: slice_def)
      then have "(2::int) ^ j \<le> 2 ^ nat (ceillog2 ?w - 1)" by (intro power_increasing) simp_all
      with c(3) [OF pos] kj show False by linarith
    qed
  qed
qed

lemma slice_bound: "0 < k \<Longrightarrow> k \<le> MAXASIZE \<Longrightarrow> slice k \<le> MAXBITS"
  by (simp add: slice_le)

definition nums_count :: "nat list \<Rightarrow> int list \<Rightarrow> bool" where
  "nums_count nums ks \<longleftrightarrow>
     length nums = Suc MAXBITS
   \<and> (\<forall>b \<le> MAXBITS. nums ! b = length (filter (\<lambda>k. slice k = b) ks))"

lemma nums_count_countint:
  assumes "nums_count nums ks"
  shows "countint key nums =
      (if 0 < arrayindex key \<and> arrayindex key \<le> MAXASIZE then 1 else 0,
       snd (countint key nums))"
    and "nums_count (snd (countint key nums))
      (if 0 < arrayindex key \<and> arrayindex key \<le> MAXASIZE then ks @ [arrayindex key] else ks)"
proof -
  let ?k = "arrayindex key"
  show "countint key nums =
      (if 0 < ?k \<and> ?k \<le> MAXASIZE then 1 else 0, snd (countint key nums))"
    by (simp add: countint_def Let_def)
  show "nums_count (snd (countint key nums))
      (if 0 < ?k \<and> ?k \<le> MAXASIZE then ks @ [?k] else ks)"
  proof (cases "0 < ?k \<and> ?k \<le> MAXASIZE")
    case True
    then have b: "slice ?k \<le> MAXBITS" by (simp add: slice_bound)
    have "snd (countint key nums) = nums[slice ?k := nums ! slice ?k + 1]"
      using True by (simp add: countint_def Let_def slice_def)
    with True b assms show ?thesis by (auto simp: nums_count_def nth_list_update)
  next
    case False
    then have "snd (countint key nums) = nums" by (auto simp: countint_def Let_def)
    with False assms show ?thesis by auto
  qed
qed

text \<open>The integer keys among the live nodes, and among the slots of the array.\<close>

definition node_ints :: "Node list \<Rightarrow> int list" where
  "node_ints ns = filter (\<lambda>k. 0 < k \<and> k \<le> MAXASIZE) (map (\<lambda>n. arrayindex (i_key n)) (filter live_node ns))"

definition array_ints :: "TValue list \<Rightarrow> nat \<Rightarrow> nat \<Rightarrow> nat list" where
  "array_ints arr i m = filter (\<lambda>j. arr ! (j - 1) \<noteq> VNil) [i..<Suc m]"

lemma numusehash_loop_count:
  assumes "nums_count nums ks"
  shows "\<exists>nums'. numusehash_loop ns (tot, au, nums) =
      (tot + length (filter live_node ns), au + length (node_ints ns), nums')
    \<and> nums_count nums' (ks @ node_ints ns)"
  using assms
proof (induction ns arbitrary: tot au nums ks)
  case Nil
  then show ?case by (simp add: node_ints_def)
next
  case (Cons n ns)
  show ?case
  proof (cases "live_node n")
    case False
    with Cons.IH [OF Cons.prems] show ?thesis by (simp add: node_ints_def)
  next
    case True
    let ?k = "arrayindex (i_key n)"
    note c = nums_count_countint [OF Cons.prems, of "i_key n"]
    show ?thesis
    proof (cases "0 < ?k \<and> ?k \<le> MAXASIZE")
      case in_range: True
      then have e: "countint (i_key n) nums = (1, snd (countint (i_key n) nums))" using c(1) by simp
      have "nums_count (snd (countint (i_key n) nums)) (ks @ [?k])" using c(2) in_range by simp
      from Cons.IH [OF this, of "tot + 1" "au + 1"] in_range True show ?thesis
        by (subst numusehash_loop.simps, subst e) (simp add: node_ints_def)
    next
      case out: False
      then have e: "countint (i_key n) nums = (0, snd (countint (i_key n) nums))" using c(1) by auto
      have "nums_count (snd (countint (i_key n) nums)) ks" using c(2) out by auto
      moreover have "node_ints (n # ns) = node_ints ns" using out by (auto simp: node_ints_def)
      ultimately show ?thesis using Cons.IH [of "snd (countint (i_key n) nums)" ks "tot + 1" au] True
        by (subst numusehash_loop.simps, subst e) simp
    qed
  qed
qed

lemma array_ints_split:
  "i \<le> Suc m \<Longrightarrow> m \<le> n \<Longrightarrow> array_ints arr i n = array_ints arr i m @ array_ints arr (Suc m) n"
proof -
  assume "i \<le> Suc m" "m \<le> n"
  then have "[i..<Suc n] = [i..<Suc m] @ [Suc m..<Suc n]"
    using upt_add_eq_append [of i "Suc m" "n - m"] by simp
  then show ?thesis by (simp only: array_ints_def filter_append)
qed

lemma array_ints_empty: "m < i \<Longrightarrow> array_ints arr i m = []"
  by (simp add: array_ints_def)

lemma in_array_ints: "k \<in> set (array_ints arr i m) \<Longrightarrow> i \<le> k \<and> k \<le> m"
  by (auto simp: array_ints_def)

lemma numusearray_loop_count:
  assumes "nums_count nums ks" and "int (length arr) \<le> MAXASIZE" and "0 < i"
    and "\<And>j. i \<le> j \<Longrightarrow> j \<le> length arr \<Longrightarrow> lg \<le> slice (int j)"
  shows "\<exists>nums'. numusearray_loop arr lg i nums ause = (ause + length (array_ints arr i (length arr)), nums')
    \<and> nums_count nums' (ks @ map int (array_ints arr i (length arr)))"
  using assms
proof (induction arr lg i nums ause arbitrary: ks rule: numusearray_loop.induct)
  case (1 arr lg i nums ause)
  note simps = numusearray_loop.simps [of arr lg i nums ause]
  show ?case
  proof (cases "MAXBITS < lg")
    case True
    have "array_ints arr i (length arr) = []"
    proof (rule ccontr)
      assume "array_ints arr i (length arr) \<noteq> []"
      then obtain j where "j \<in> set (array_ints arr i (length arr))" by (cases "array_ints arr i (length arr)") auto
      then have j: "i \<le> j" "j \<le> length arr" using in_array_ints by blast+
      have "slice (int j) \<le> MAXBITS" using j "1.prems"(2,3) by (intro slice_bound) simp_all
      with "1.prems"(4) [OF j] True show False by simp
    qed
    with True "1.prems"(1) show ?thesis by (simp add: simps)
  next
    case in_range: False
    define lim where "lim = (if length arr < 2 ^ lg then length arr else 2 ^ lg)"
    show ?thesis
    proof (cases "length arr < 2 ^ lg \<and> lim < i")
      case True
      then have l: "length arr < i" by (simp add: lim_def split: if_splits)
      then have "array_ints arr i (length arr) = []" by (rule array_ints_empty)
      with True l in_range "1.prems"(1) show ?thesis by (simp add: simps lim_def Let_def)
    next
      case False
      let ?here = "array_ints arr i lim"
      have lim_le: "lim \<le> length arr" "lim \<le> 2 ^ lg" by (simp_all add: lim_def)
      have here: "slice (int j) = lg" if "j \<in> set ?here" for j
      proof -
        have j: "i \<le> j" "j \<le> lim" using in_array_ints that by blast+
        then have "int j \<le> 2 ^ lg" using lim_le(2) by (simp flip: of_nat_power) 
        then have "slice (int j) \<le> lg"
          using j "1.prems"(2,3) lim_le by (subst slice_le) simp_all
        with "1.prems"(4) j lim_le show ?thesis by (simp add: le_antisym)
      qed
      define nums1 where "nums1 = nums[lg := nums ! lg + length ?here]"
      have n1: "nums_count nums1 (ks @ map int ?here)"
      proof -
        have "filter (\<lambda>k. slice k = b) (map int ?here) = (if b = lg then map int ?here else [])" for b
          using here by (auto simp: filter_map comp_def intro!: filter_True filter_False)
        with "1.prems"(1) in_range show ?thesis
          by (auto simp: nums_count_def nums1_def nth_list_update)
      qed
      have rest: "Suc lg \<le> slice (int j)" if j: "max i (Suc lim) \<le> j" "j \<le> length arr" for j
      proof (rule ccontr)
        assume "\<not> Suc lg \<le> slice (int j)"
        then have "int j \<le> 2 ^ lg" using j "1.prems"(2,3) slice_le [of "int j" lg] by simp
        then have "j \<le> 2 ^ lg" by (simp flip: of_nat_power)
        with j show False by (auto simp: lim_def split: if_splits)
      qed
      have split: "array_ints arr i (length arr) = ?here @ array_ints arr (max i (Suc lim)) (length arr)"
      proof (cases "i \<le> Suc lim")
        case True
        then show ?thesis using array_ints_split [OF True lim_le(1)] by simp
      next
        case False
        then show ?thesis by (simp add: array_ints_empty max_def)
      qed
      have lc: "length (filter (\<lambda>j. \<not> ttisnil (arr ! (j - 1))) [i..<Suc lim]) = length ?here"
        by (simp add: array_ints_def)
      have "\<exists>nums'. numusearray_loop arr (Suc lg) (max i (Suc lim)) nums1 (ause + length ?here)
        = (ause + length ?here + length (array_ints arr (max i (Suc lim)) (length arr)), nums')
          \<and> nums_count nums' ((ks @ map int ?here) @ map int (array_ints arr (max i (Suc lim)) (length arr)))"
        using "1.IH" [OF in_range lim_def _ refl, of "ks @ map int ?here"] False n1 "1.prems"(2) rest
        unfolding lc nums1_def by (simp only: lim_def [symmetric]) auto
      moreover have "numusearray_loop arr lg i nums ause =
          numusearray_loop arr (Suc lg) (max i (Suc lim)) nums1 (ause + length ?here)"
        using in_range False lc unfolding nums1_def lim_def by (subst simps) (simp only: if_False Let_def)
      ultimately show ?thesis unfolding split by (simp add: add.assoc)
    qed
  qed
qed

lemma numusearray_count:
  assumes "int (length (array t)) \<le> MAXASIZE"
  shows "\<exists>nums'. numusearray t (replicate (Suc MAXBITS) 0) =
      (length (array_ints (array t) 1 (length (array t))), nums')
    \<and> nums_count nums' (map int (array_ints (array t) 1 (length (array t))))"
proof -
  have "nums_count (replicate (Suc MAXBITS) 0) []" by (simp add: nums_count_def del: replicate_Suc)
  from numusearray_loop_count [OF this assms, of 1 0 0] show ?thesis by (simp add: numusearray_def)
qed

section \<open>Choosing the array size\<close>

abbreviation keys_upto :: "nat list \<Rightarrow> nat \<Rightarrow> nat" where
  "keys_upto nums j \<equiv> (\<Sum>b < Suc j. nums ! b)"

text \<open>What \<open>computesizes\<close> promises of its result.\<close>

definition good_size :: "nat list \<Rightarrow> nat \<Rightarrow> nat \<Rightarrow> bool" where
  "good_size nums n na \<longleftrightarrow>
     (n = 0 \<and> na = 0) \<or> (\<exists>j \<le> MAXBITS. n = 2 ^ j \<and> na = keys_upto nums j \<and> n < 2 * na)"

lemma half_less: "2 ^ i div 2 < (a :: nat) \<Longrightarrow> 2 ^ i < 2 * a"
  by linarith

lemma computesizes_loop_good:
  assumes "narray = (\<Sum>b < Suc MAXBITS. nums ! b)" and "i \<le> Suc MAXBITS"
    and "a = (\<Sum>b < i. nums ! b)" and "a \<noteq> narray \<or> i = 0" and "good_size nums n na"
  shows "case computesizes_loop nums narray i a na n of (n', na') \<Rightarrow> good_size nums n' na'"
  using assms
proof (induction nums narray i a na n rule: computesizes_loop.induct)
  case (1 nums narray i a na n)
  note simps = computesizes_loop.simps [of nums narray i a na n]
  show ?case
  proof (cases "2 ^ i div 2 < narray")
    case False
    then have "computesizes_loop nums narray i a na n = (n, na)" by (subst simps) simp
    with "1.prems"(5) show ?thesis by simp
  next
    case True
    have i: "i \<le> MAXBITS"
    proof (rule ccontr)
      assume "\<not> i \<le> MAXBITS"
      then have "i = Suc MAXBITS" using "1.prems"(2) by simp
      with "1.prems"(1,3,4) show False by simp
    qed
    define a' where "a' = (if 0 < nums ! i then a + nums ! i else a)"
    define hit where "hit \<longleftrightarrow> 0 < nums ! i \<and> 2 ^ i div 2 < a'"
    define n' where "n' = (if hit then 2 ^ i else n)"
    define na' where "na' = (if hit then a' else na)"
    have a': "a' = (\<Sum>b < Suc i. nums ! b)" using "1.prems"(3) by (simp add: a'_def)
    have "good_size nums n' na'"
    proof (cases hit)
      case True
      then have "2 ^ i < 2 * a'" by (intro half_less) (simp add: hit_def)
      with True i a' show ?thesis by (auto simp: good_size_def n'_def na'_def)
    qed (use "1.prems"(5) in \<open>simp add: n'_def na'_def\<close>)
    moreover have "computesizes_loop nums narray i a na n =
        (if a' = narray then (n', na') else computesizes_loop nums narray (Suc i) a' na' n')"
      using True unfolding a'_def hit_def n'_def na'_def by (subst simps) (simp only: if_True Let_def)
    moreover have "case computesizes_loop nums narray (Suc i) a' na' n' of (n', na') \<Rightarrow> good_size nums n' na'"
      if "a' \<noteq> narray"
      by (rule "1.IH" [OF True a'_def hit_def n'_def na'_def that "1.prems"(1) _ a'])
         (use i that calculation(1) in simp_all)
    ultimately show ?thesis by simp
  qed
qed

lemma computesizes_good:
  assumes "narray = (\<Sum>b < Suc MAXBITS. nums ! b)"
  shows "case computesizes nums narray of (n, na) \<Rightarrow> good_size nums n na"
  unfolding computesizes_def
  by (rule computesizes_loop_good [OF assms]) (simp_all add: good_size_def)

lemma sum_slices:
  assumes c: "nums_count nums ks" and ks: "\<forall>k \<in> set ks. 0 < k \<and> k \<le> MAXASIZE" and j: "j \<le> MAXBITS"
  shows "keys_upto nums j = length (filter (\<lambda>k. k \<le> 2 ^ j) ks)"
proof -
  have "m \<le> Suc MAXBITS \<Longrightarrow> (\<Sum>b < m. nums ! b) = length (filter (\<lambda>k. slice k < m) ks)" for m
  proof (induction m)
    case (Suc m)
    have "length (filter (\<lambda>k. slice k < Suc m) ks) =
        length (filter (\<lambda>k. slice k < m) ks) + length (filter (\<lambda>k. slice k = m) ks)"
      by (induction ks) auto
    with Suc c show ?case by (simp add: nums_count_def)
  qed simp
  from this [of "Suc j"] j have "keys_upto nums j = length (filter (\<lambda>k. slice k < Suc j) ks)" by simp
  also have "filter (\<lambda>k. slice k < Suc j) ks = filter (\<lambda>k. k \<le> 2 ^ j) ks"
    using ks slice_le by (intro filter_cong) (auto simp: less_Suc_eq_le)
  finally show ?thesis .
qed

lemma sum_all_slices:
  assumes c: "nums_count nums ks" and ks: "\<forall>k \<in> set ks. 0 < k \<and> k \<le> MAXASIZE"
  shows "(\<Sum>b < Suc MAXBITS. nums ! b) = length ks"
proof -
  have "filter (\<lambda>k. k \<le> 2 ^ MAXBITS) ks = ks" using ks by (intro filter_True) auto
  with sum_slices [OF c ks, of MAXBITS] show ?thesis by (simp del: sum.lessThan_Suc)
qed

section \<open>Rehash\<close>

lemma length_array_ints: "length (array_ints arr 1 m) = length (non_nil (take m arr))" if "m \<le> length arr"
  using that
proof (induction m)
  case 0
  then show ?case by (simp add: array_ints_def)
next
  case (Suc m)
  have "array_ints arr 1 (Suc m) = array_ints arr 1 m @ (if arr ! m = VNil then [] else [Suc m])"
    by (simp add: array_ints_def)
  moreover have "take (Suc m) arr = take m arr @ [arr ! m]"
    using Suc.prems by (simp add: take_Suc_conv_app_nth)
  ultimately show ?case using Suc by simp
qed

lemma array_ints_upto:
  assumes "n \<le> m"
  shows "filter (\<lambda>k. k \<le> n) (array_ints arr 1 m) = array_ints arr 1 n"
proof -
  have "filter (\<lambda>k. k \<le> n) (array_ints arr 1 n) = array_ints arr 1 n"
    using in_array_ints by (intro filter_True) blast
  moreover have "filter (\<lambda>k. k \<le> n) (array_ints arr (Suc n) m) = []"
    using in_array_ints by (intro filter_False) fastforce
  ultimately show ?thesis using array_ints_split [of 1 n m] assms by simp
qed

lemma array_count:
  "length (filter (\<lambda>k. k \<le> int n) (map int (array_ints arr 1 (length arr)))) + length (non_nil (drop n arr))
    = length (array_ints arr 1 (length arr))"
proof -
  let ?m = "min n (length arr)"
  have "filter (\<lambda>k. k \<le> n) (array_ints arr 1 (length arr)) =
      filter (\<lambda>k. k \<le> ?m) (array_ints arr 1 (length arr))"
    using in_array_ints by (intro filter_cong) force+
  also have "\<dots> = array_ints arr 1 ?m" by (rule array_ints_upto) simp
  finally have "length (filter (\<lambda>k. k \<le> int n) (map int (array_ints arr 1 (length arr)))) =
      length (non_nil (take ?m arr))"
    by (simp add: filter_map comp_def length_array_ints del: One_nat_def)
  moreover have "length (non_nil (take ?m arr)) + length (non_nil (drop n arr)) = length (non_nil arr)"
    by (metis append_take_drop_id filter_append length_append take_all_iff min_def nle_le)
  ultimately show ?thesis by (simp add: length_array_ints del: One_nat_def)
qed

lemma node_count:
  assumes "int n \<le> MAXASIZE"
  shows "length (filter (\<lambda>k. k \<le> int n) (node_ints ns))
      + length (filter (\<lambda>x. live_node x \<and> \<not> (0 < arrayindex (i_key x) \<and> arrayindex (i_key x) \<le> int n)) ns)
    = length (filter live_node ns)"
  using assms by (induction ns) (auto simp: node_ints_def)

lemma node_ints_rev: "node_ints (rev ns) = rev (node_ints ns)"
  by (simp add: node_ints_def rev_filter rev_map)

text \<open>The sizes that \<open>rehash\<close> passes to \<open>resize\<close> leave room for the entries and the new key.\<close>

lemma rehash_sizes:
  assumes inv: "table_inv H t"
  shows "\<exists>nasize nhsize. rehash nk H t ek = resize nk H t nasize nhsize
    \<and> int nasize \<le> MAXASIZE \<and> nhsize < 2 ^ 32
    \<and> nhsize \<le> length (non_nil (array t)) + length (filter live_node (node t)) + 1
    \<and> hash_need t nasize + (if 0 < arrayindex ek \<and> arrayindex ek \<le> int nasize then 0 else 1) = nhsize"
proof -
  let ?A = "array_ints (array t) 1 (length (array t))"
  let ?I = "map int ?A" and ?N = "node_ints (rev (node t))"
  let ?live = "length (filter live_node (node t))"
  have arr: "int (length (array t)) \<le> MAXASIZE" by (rule table_invD(4) [OF inv])
  obtain nums1 where n1: "numusearray t (replicate (Suc MAXBITS) 0) = (length ?A, nums1)"
    and c1: "nums_count nums1 ?I" using numusearray_count [OF arr] by blast
  obtain nums2 where n2: "numusehash t nums1 = (?live, length ?N, nums2)"
    and c2: "nums_count nums2 (?I @ ?N)"
    using numusehash_loop_count [OF c1, of "rev (node t)" 0 0]
    by (auto simp: numusehash_def simp flip: rev_filter)
  define c where "c = (if 0 < arrayindex ek \<and> arrayindex ek \<le> MAXASIZE then [arrayindex ek] else [])"
  define nums3 where "nums3 = snd (countint ek nums2)"
  have n3: "countint ek nums2 = (length c, nums3)"
    using nums_count_countint(1) [OF c2, of ek] by (auto simp: c_def nums3_def)
  have c3: "nums_count nums3 (?I @ ?N @ c)"
    using nums_count_countint(2) [OF c2, of ek] unfolding nums3_def c_def by (auto split: if_splits)
  let ?ks = "?I @ ?N @ c"
  have "0 < k \<and> k \<le> MAXASIZE" if k: "k \<in> set ?ks" for k
  proof -
    have "k \<in> set ?I \<or> k \<in> set ?N \<or> k \<in> set c" using k unfolding set_append by blast
    then show ?thesis
    proof (elim disjE)
      assume "k \<in> set ?I"
      then obtain j where "k = int j" and "j \<in> set ?A" unfolding set_map by (rule imageE)
      with arr in_array_ints [of j "array t" 1] show ?thesis by fastforce
    qed (auto simp: node_ints_def c_def split: if_splits)
  qed
  then have ks: "\<forall>k \<in> set ?ks. 0 < k \<and> k \<le> MAXASIZE" by blast
  obtain nasize na where sz: "computesizes nums3 (length ?A + length ?N + length c) = (nasize, na)"
    by (cases "computesizes nums3 (length ?A + length ?N + length c)") auto
  have "length ?A + length ?N + length c = (\<Sum>b < Suc MAXBITS. nums3 ! b)"
    unfolding sum_all_slices [OF c3 ks] by simp
  from computesizes_good [OF this] have good: "good_size nums3 nasize na" by (simp only: sz prod.case)
  have na: "na = length (filter (\<lambda>k. k \<le> int nasize) ?ks)" and small: "int nasize \<le> MAXASIZE"
  proof -
    have "na = length (filter (\<lambda>k. k \<le> int nasize) ?ks) \<and> int nasize \<le> MAXASIZE"
    proof (cases "nasize = 0 \<and> na = 0")
      case True
      have "\<not> k \<le> int nasize" if "k \<in> set ?ks" for k using bspec [OF ks that] True by linarith
      then have "filter (\<lambda>k. k \<le> int nasize) ?ks = []" by (intro filter_False) blast
      then show ?thesis using True by (simp only:) simp
    next
      case False
      then obtain j where j: "j \<le> MAXBITS" "nasize = 2 ^ j" "na = keys_upto nums3 j"
        using good by (auto simp: good_size_def)
      have "(2::int) ^ j \<le> 2 ^ MAXBITS" using j(1) by (intro power_increasing) simp_all
      then show ?thesis using sum_slices [OF c3 ks j(1)] j by simp
    qed
    then show "na = length (filter (\<lambda>k. k \<le> int nasize) ?ks)" "int nasize \<le> MAXASIZE" by blast+
  qed
  let ?e = "if 0 < arrayindex ek \<and> arrayindex ek \<le> int nasize then 0 else 1 :: nat"
  have ce: "length (filter (\<lambda>k. k \<le> int nasize) c) + ?e = 1" using small by (auto simp: c_def)
  have nc: "length (filter (\<lambda>k. k \<le> int nasize) ?N)
      + length (filter (\<lambda>x. live_node x \<and> \<not> (0 < arrayindex (i_key x) \<and> arrayindex (i_key x) \<le> int nasize)) (node t))
    = ?live"
    using node_count [OF small, of "node t"]
    by (simp only: node_ints_rev rev_filter [symmetric] length_rev)
  have total: "na + (hash_need t nasize + ?e) = length ?A + ?live + 1"
    using array_count [of nasize "array t"] nc ce unfolding na hash_need_def by simp
  then have eq: "hash_need t nasize + ?e = length ?A + ?live + 1 - na" by linarith
  have A: "length ?A = length (non_nil (array t))" by (simp add: length_array_ints del: One_nat_def)
  have "length ?A \<le> length (array t)" unfolding A by (rule length_filter_le)
  moreover have "?live \<le> length (node t)" by (rule length_filter_le)
  moreover have "(2::nat) ^ lsizenode t \<le> 2 ^ MAXBITS"
    using table_invD(3) [OF inv] by (intro power_increasing) simp_all
  ultimately have "length ?A + ?live + 1 - na < 2 ^ 32"
    using arr table_invD(2) [OF inv] by simp
  moreover have "rehash nk H t ek = resize nk H t nasize (length ?A + ?live + 1 - na)"
    unfolding rehash_def n1 Let_def prod.case n2 n3 sz ..
  ultimately show ?thesis using eq small A by (metis diff_le_self)
qed

section \<open>Insertion returns\<close>

text \<open>The number of entries of a table.\<close>

definition entries :: "Table \<Rightarrow> nat" where
  "entries t = length (non_nil (array t)) + length (filter live_node (node t))"

text \<open>The outcome of a successful insertion: the key has the slot \<open>s\<close>, every value is kept.\<close>

definition kept :: "strhash \<Rightarrow> Table \<Rightarrow> TValue \<Rightarrow> slot \<Rightarrow> Table \<Rightarrow> bool" where
  "kept H t k s t' \<longleftrightarrow>
     table_inv H t' \<and> slot_of t' k s \<and> metatable t' = metatable t
   \<and> (\<forall>k'. valid_key k' \<longrightarrow> lookup t' k' = lookup t k')"

abbreviation overflow :: "'a result" where
  "overflow \<equiv> Err (RunError ''table overflow'')"

lemma rehash_ok:
  assumes inv: "table_inv H t"
  shows "rehash (newkey H (Suc d)) H t k = overflow \<and> 2 ^ MAXBITS \<le> entries t
    \<or> (\<exists>t'. rehash (newkey H (Suc d)) H t k = Ok t' \<and> table_inv H t' \<and> has_room t' k
        \<and> metatable t' = metatable t \<and> (\<forall>k'. valid_key k' \<longrightarrow> lookup t' k' = lookup t k'))"
proof -
  obtain nasize nhsize where r: "rehash (newkey H (Suc d)) H t k = resize (newkey H (Suc d)) H t nasize nhsize"
    and b: "int nasize \<le> MAXASIZE" "nhsize < 2 ^ 32" "nhsize \<le> entries t + 1"
    and need: "hash_need t nasize + (if 0 < arrayindex k \<and> arrayindex k \<le> int nasize then 0 else 1) = nhsize"
    using rehash_sizes [OF inv] unfolding entries_def by blast
  have "hash_need t nasize \<le> nhsize" using need by linarith
  from resize_ok [OF inv b(1,2) this, of d] show ?thesis
  proof (elim disjE exE conjE)
    fix t'
    assume t': "resize (newkey H (Suc d)) H t nasize nhsize = Ok t'" "resized H t nasize nhsize t'"
    have "has_room t' k"
      using t'(2) need unfolding has_room_def resized_def by (auto split: if_splits)
    with t' r show ?thesis by (simp add: resized_def)
  qed (use r b(3) in simp)
qed

lemma table_inv_no_free:
  assumes inv: "table_inv H t" and fp: "getfreepos t = (t1, None)"
  shows "table_inv H t1" and "entries t1 = entries t" and "metatable t1 = metatable t"
    and "lookup t1 = lookup t"
proof -
  obtain lf where lf: "getfreepos_loop (node t) (lastfree t) = (lf, None)" and t1: "t1 = t\<lparr>lastfree := lf\<rparr>"
    using fp by (auto simp: getfreepos_def split: prod.splits)
  have "if isdummy t then lf \<le> 0 else free_below (node t) lf"
  proof (cases "isdummy t")
    case True
    then have "lastfree t \<le> 0" by (rule table_invD(6) [OF inv])
    with lf True show ?thesis by (simp add: getfreepos_loop.simps [of "node t" "lastfree t"])
  next
    case False
    with getfreepos_loop_spec [OF lf table_invD(7) [OF inv False]] show ?thesis by simp
  qed
  then show "table_inv H t1" using inv by (simp add: t1 table_inv_def split: if_splits)
  show "entries t1 = entries t" "metatable t1 = metatable t" by (simp_all add: t1 entries_def)
  show "lookup t1 = lookup t" by (rule ext) (simp add: t1 lookup_def)
qed

lemma getfreepos_dummy: "table_inv H t \<Longrightarrow> isdummy t \<Longrightarrow> snd (getfreepos t) = None"
  using table_invD(6) [of H t]
  by (simp add: getfreepos_def getfreepos_loop.simps [of "node t" "lastfree t"])

lemma newkey_total:
  assumes inv: "table_inv H t" and k: "valid_key k" and no: "\<forall>s. \<not> slot_of t k s"
  shows "newkey H (Suc (Suc d)) t k = overflow \<and> 2 ^ MAXBITS \<le> entries t
    \<or> (\<exists>s t'. newkey H (Suc (Suc d)) t k = Ok (s, t') \<and> kept H t k s t')"
proof -
  let ?nk = "newkey H (Suc d)"
  have ins: "kept H t k (NodeSlot i) t'" if "table_inv H t'" "inserted t k i t'" for i t'
    using slot_result_inserted [OF inv that k no_slotD(1) [OF no]]
    by (simp add: slot_result_def kept_def frame_def)
  have step: "newkey H (Suc (Suc d)) t k = newkey_step ?nk H t k" by (simp add: newkey.simps(2))
  obtain t1 r where fp: "getfreepos t = (t1, r)" by (cases "getfreepos t") auto
  let ?free = "i_val (node t ! mainposition H (lsizenode t) k) = VNil"
  show ?thesis
  proof (cases "?free \<and> \<not> isdummy t")
    case True
    with newkey_home [OF inv k no, of ?nk] ins show ?thesis unfolding step by blast
  next
    case taken: False
    show ?thesis
    proof (cases r)
      case (Some n)
      then have "\<not> isdummy t" using getfreepos_dummy [OF inv] fp by auto
      with newkey_collide [OF inv k no _ _ fp [unfolded Some], of ?nk] taken ins
      show ?thesis unfolding step by blast
    next
      case None
      note nf = table_inv_no_free [OF inv fp [unfolded None]]
      have s: "newkey_step ?nk H t k = rbind (rehash ?nk H t1 k) (\<lambda>t2. luaH_set_by ?nk H t2 k)"
        using taken fp None by (auto simp: newkey_step_def Let_def)
      from rehash_ok [OF nf(1), of d k] show ?thesis
      proof (elim disjE exE conjE)
        fix t2
        assume t2: "rehash ?nk H t1 k = Ok t2" "table_inv H t2" "has_room t2 k"
          "metatable t2 = metatable t1" "\<forall>k'. valid_key k' \<longrightarrow> lookup t2 k' = lookup t1 k'"
        from set_by_room [OF t2(2) k t2(3), of d] obtain s' t' where
          "luaH_set_by ?nk H t2 k = Ok (s', t')" "slot_result H t2 k s' t'" by blast
        then have "newkey_step ?nk H t k = Ok (s', t') \<and> kept H t k s' t'"
          using s t2 nf(3,4) by (simp add: slot_result_def kept_def frame_def)
        then show ?thesis unfolding step by blast
      qed (use s nf(2) step in simp)
    qed
  qed
qed

text \<open>\<open>luaH_set\<close> returns the slot of the key; the only failure is a table that is too large.\<close>

lemma luaH_set_total:
  assumes inv: "table_inv H t" and k: "valid_key k"
  shows "luaH_set H t k = overflow \<and> 2 ^ MAXBITS \<le> entries t
    \<or> (\<exists>s t'. luaH_set H t k = Ok (s, t') \<and> kept H t k s t')"
proof -
  obtain p where p: "luaH_get H t k = Ok p" and P: "\<forall>s. p = Some s \<longleftrightarrow> slot_of t k s"
    using get_found [OF inv valid_keyD(1,2) [OF k]] by (auto simp: found_def)
  let ?t = "t\<lparr>flags := 0\<rparr>"
  have inv': "table_inv H ?t" using inv by simp
  have K: "kept H ?t k s t' = kept H t k s t'" for s t'
    by (simp add: kept_def lookup_def)
  show ?thesis
  proof (cases p)
    case (Some s)
    with P have "slot_of t k s" by blast
    then have "kept H ?t k s ?t" using inv' by (simp add: kept_def)
    with p Some show ?thesis unfolding K by (simp add: luaH_set_def luaH_set_by_def)
  next
    case None
    with P have "\<forall>s. \<not> slot_of ?t k s" by simp
    moreover have "luaH_set H t k = newkey H 2 ?t k"
      using p None valid_keyD [OF k] by (simp add: luaH_set_def luaH_set_by_def)
    ultimately show ?thesis
      using newkey_total [OF inv' k, of 0] unfolding K by (simp add: numeral_2_eq_2 entries_def)
  qed
qed

end
