(* ===== verification/LuaTableGetn.thy ===== *)
theory LuaTableGetn
  imports LuaTableCount
begin

text \<open>
  The remaining operations of a table: creation, the length operator, the traversal by
  \<open>luaH_next\<close> and its stability when the collector clears entries.
\<close>

section \<open>Creation\<close>

lemma luaH_new_inv:
  assumes "int narray \<le> MAXASIZE" and "nhash < 2 ^ 32"
  shows "luaH_new narray nhash = overflow \<and> 2 ^ MAXBITS < nhash
    \<or> (\<exists>t. luaH_new narray nhash = Ok t \<and> table_inv H t \<and> length (array t) = narray
        \<and> nhash \<le> capacity t \<and> (\<forall>k. valid_key k \<longrightarrow> lookup t k = VNil))"
proof -
  define t0 where "t0 = setarrayvector \<lparr>flags = NOT 0, lsizenode = 0, metatable = None, array = [],
      node = [empty_node], isdummy = True, lastfree = 0\<rparr> narray"
  have arr: "array t0 = replicate narray VNil" by (simp add: t0_def setarrayvector_def)
  have "lookup t k = VNil" if f: "fresh H t0 nhash t" and v: "valid_key k" for t k
    using fresh_lookup [OF f v] by (auto simp: arr)
  moreover have "int (length (array t0)) \<le> MAXASIZE" using assms by (simp add: arr)
  moreover have "luaH_new narray nhash = setnodevector t0 nhash" by (simp add: luaH_new_def t0_def)
  ultimately show ?thesis
    using setnodevector_fresh [OF assms(2), of t0 H] by (auto simp: fresh_def arr)
qed

section \<open>Length\<close>

text \<open>The value of an integer index.\<close>

definition at :: "Table \<Rightarrow> int \<Rightarrow> TValue" where
  "at t i = lookup t (VNumber (cast_num i))"

lemma getnum_nil_at:
  assumes "table_inv H t" and "in_int i"
  shows "getnum_nil t i = Ok (at t i = VNil)"
  using foundD [OF getnum_found [OF assms] assms(1) valid_cast_num [OF assms(2)]]
  by (auto simp: getnum_nil_def at_def)

text \<open>
  A border: an index that is zero or holds a value, and whose successor holds none.
\<close>

definition border :: "(int \<Rightarrow> bool) \<Rightarrow> int \<Rightarrow> bool" where
  "border isnil i \<longleftrightarrow> 0 \<le> i \<and> (i = 0 \<or> \<not> isnil i) \<and> isnil (i + 1)"

lemma binary_search_border:
  assumes "\<And>m. i < m \<Longrightarrow> m < j \<Longrightarrow> f m = Ok (isnil m)"
    and "0 \<le> i" and "i < j" and "i = 0 \<or> \<not> isnil i" and "isnil j"
  shows "\<exists>k. binary_search f i j = Ok k \<and> i \<le> k \<and> k < j \<and> border isnil k"
  using assms
proof (induction f i j rule: binary_search.induct)
  case (1 f i j)
  show ?case
  proof (cases "1 < j - i")
    case False
    then have j: "j = i + 1" using "1.prems"(3) by simp
    with "1.prems" False show ?thesis
      unfolding binary_search.simps [of f i j] by (simp add: border_def)
  next
    case True
    define m where "m = (i + j) div 2"
    have m: "i < m" "m < j" using True by (simp_all add: m_def)
    have fm: "f m = Ok (isnil m)" using "1.prems"(1) m by blast
    show ?thesis
    proof (cases "isnil m")
      case nil: True
      have "\<exists>k. binary_search f i m = Ok k \<and> i \<le> k \<and> k < m \<and> border isnil k"
        by (rule "1.IH"(1) [OF True m_def, of True])
           (use "1.prems" m nil fm in \<open>auto simp: m_def\<close>)
      with m fm nil True show ?thesis
        unfolding binary_search.simps [of f i j] by (auto simp flip: m_def)
    next
      case some: False
      have "\<exists>k. binary_search f m j = Ok k \<and> m \<le> k \<and> k < j \<and> border isnil k"
        by (rule "1.IH"(2) [OF True m_def, of False])
           (use "1.prems" m some fm in \<open>auto simp: m_def\<close>)
      with m fm some True show ?thesis
        unfolding binary_search.simps [of f i j] by (auto simp flip: m_def)
    qed
  qed
qed

text \<open>A table holds fewer than \<open>2 ^ 28\<close> integer keys, so the linear search meets a nil.\<close>

lemma int_keys_bounded:
  assumes inv: "table_inv H t" and n: "int n \<le> INT_MAX"
    and all: "\<forall>i. 0 < i \<longrightarrow> i \<le> int n \<longrightarrow> at t i \<noteq> VNil"
  shows "n \<le> 2 ^ 27"
proof -
  define slot where "slot i = (SOME s. slot_of t (VNumber (cast_num (int i))) s)" for i
  have slot: "slot_of t (VNumber (cast_num (int i))) (slot i)" if "i \<in> {1..n}" for i
  proof -
    have "at t (int i) \<noteq> VNil" using all that by simp
    then have "\<exists>s. slot_of t (VNumber (cast_num (int i))) s" using no_slot_lookup by (auto simp: at_def)
    then show ?thesis unfolding slot_def by (rule someI_ex)
  qed
  have "inj_on slot {1..n}"
  proof (rule inj_onI)
    fix i j
    assume ij: "i \<in> {1..n}" "j \<in> {1..n}" "slot i = slot j"
    then have "luaO_rawequalObj (VNumber (cast_num (int i))) (VNumber (cast_num (int j)))"
      using slot_of_inj [OF slot slot [of j, folded ij(3)]] by blast
    moreover have "in_int (int i)" "in_int (int j)" using ij n by (simp_all add: in_int_def)
    ultimately show "i = j" using cast_num_eq_iff by simp
  qed
  moreover have "slot ` {1..n} \<subseteq> ArraySlot ` {..<length (array t)} \<union> NodeSlot ` {..<length (node t)}"
  proof
    fix s
    assume "s \<in> slot ` {1..n}"
    then obtain i where "slot_of t (VNumber (cast_num (int i))) s" using slot by blast
    then show "s \<in> ArraySlot ` {..<length (array t)} \<union> NodeSlot ` {..<length (node t)}"
      by (cases s) (auto simp: slot_of_def)
  qed
  ultimately have "card {1..n} \<le> card (ArraySlot ` {..<length (array t)} \<union> NodeSlot ` {..<length (node t)})"
    by (intro card_inj_on_le) simp_all
  also have "\<dots> \<le> length (array t) + length (node t)"
    by (rule order_trans [OF card_Un_le])
       (simp add: card_image_le [THEN order_trans] add_mono card_image_le [of "{..<_}", simplified])
  also have "\<dots> \<le> 2 ^ 26 + 2 ^ MAXBITS"
  proof (rule add_mono)
    show "length (array t) \<le> 2 ^ 26" using table_invD(4) [OF inv] by simp
    have "length (node t) = 2 ^ lsizenode t" by (rule table_invD(2) [OF inv])
    also have "\<dots> \<le> 2 ^ MAXBITS" using table_invD(3) [OF inv] by (intro power_increasing) simp_all
    finally show "length (node t) \<le> 2 ^ MAXBITS" .
  qed
  finally show ?thesis by simp
qed

lemma linear_search_border:
  assumes inv: "table_inv H t" and "0 < i" and "i + int f \<le> INT_MAX" and "2 ^ 27 < i + int f - 1"
    and "\<forall>j. 0 < j \<longrightarrow> j < i \<longrightarrow> at t j \<noteq> VNil"
  shows "\<exists>k. linear_search t f i = Ok k \<and> border (\<lambda>m. at t m = VNil) k"
  using assms(2-)
proof (induction f arbitrary: i)
  case 0
  have "nat (i - 1) \<le> 2 ^ 27"
    by (rule int_keys_bounded [OF inv]) (use 0 in auto)
  with 0 show ?case by simp
next
  case (Suc f)
  have z: "getnum_nil t i = Ok (at t i = VNil)"
    by (rule getnum_nil_at [OF inv]) (use Suc.prems in \<open>simp add: in_int_def\<close>)
  show ?case
  proof (cases "at t i = VNil")
    case True
    have "i - 1 = 0 \<or> at t (i - 1) \<noteq> VNil" using Suc.prems(1,4) by auto
    with z True Suc.prems(1) show ?thesis by (simp add: border_def)
  next
    case False
    have "\<exists>k. linear_search t f (i + 1) = Ok k \<and> border (\<lambda>m. at t m = VNil) k"
    proof (rule Suc.IH)
      show "\<forall>j. 0 < j \<longrightarrow> j < i + 1 \<longrightarrow> at t j \<noteq> VNil"
        using Suc.prems(4) False by (metis zless_add1_eq)
    qed (use Suc.prems in simp_all)
    with z False show ?thesis by simp
  qed
qed

lemma unbound_loop_border:
  assumes inv: "table_inv H t"
    and "0 \<le> i" and "i < j" and "j \<le> MAX_INT" and "i = 0 \<or> at t i \<noteq> VNil"
  shows "\<exists>k. unbound_loop t i j = Ok k \<and> border (\<lambda>m. at t m = VNil) k"
  using assms
proof (induction t i j rule: unbound_loop.induct)
  case (1 t i j)
  note inv = "1.prems"(1)
  have nil: "getnum_nil t m = Ok (at t m = VNil)" if "0 \<le> m" "m \<le> j" for m
    by (rule getnum_nil_at [OF inv]) (use "1.prems" that in \<open>simp add: in_int_def\<close>)
  have j: "getnum_nil t j = Ok (at t j = VNil)" using nil "1.prems" by simp
  show ?case
  proof (cases "at t j = VNil")
    case True
    have "\<exists>k. binary_search (getnum_nil t) i j = Ok k \<and> i \<le> k \<and> k < j
        \<and> border (\<lambda>m. at t m = VNil) k"
      using nil "1.prems" True by (intro binary_search_border) auto
    with j True show ?thesis by (auto simp: unbound_loop.simps [of t i j])
  next
    case False
    show ?thesis
    proof (cases "MAX_INT < j * 2 \<or> j \<le> 0")
      case stop: True
      have "\<exists>k. linear_search t (nat MAX_INT) 1 = Ok k \<and> border (\<lambda>m. at t m = VNil) k"
        by (rule linear_search_border [OF inv]) auto
      moreover have "unbound_loop t i j = linear_search t (nat MAX_INT) 1"
        by (subst unbound_loop.simps) (use stop j False in \<open>simp only: rbind.simps if_True if_False\<close>)
      ultimately show ?thesis by simp
    next
      case go: False
      have "\<exists>k. unbound_loop t j (j * 2) = Ok k \<and> border (\<lambda>m. at t m = VNil) k"
        by (rule "1.IH" [OF _ _ go inv, of False]) (use j False go "1.prems" in auto)
      moreover have "unbound_loop t i j = unbound_loop t j (j * 2)"
        by (subst unbound_loop.simps) (use go j False in \<open>simp only: rbind.simps if_False\<close>)
      ultimately show ?thesis by simp
    qed
  qed
qed

text \<open>The length operator returns a border.\<close>

lemma at_array:
  assumes "0 < i" and "i \<le> int (length (array t))" and "int (length (array t)) \<le> MAXASIZE"
  shows "at t i = array t ! nat (i - 1)"
proof -
  have "arrayindex (VNumber (cast_num i)) = i"
    by (rule arrayindex_cast_num) (use assms in \<open>simp add: in_int_def\<close>)
  with assms show ?thesis by (simp add: at_def lookup_def)
qed

lemma luaH_getn_border_lemma:
  assumes inv: "table_inv H t"
  shows "\<exists>k. luaH_getn t = Ok k \<and> border (\<lambda>m. at t m = VNil) k"
proof -
  let ?n = "length (array t)"
  note arr = table_invD(4) [OF inv]
  have at: "at t i = array t ! nat (i - 1)" if "0 < i" "i \<le> int ?n" for i
    using at_array [OF that arr] .
  show ?thesis
  proof (cases "0 < ?n \<and> array t ! (?n - 1) = VNil")
    case True
    then have "nat (int ?n - 1) = ?n - 1" by simp
    then have "at t (int ?n) = VNil" using at [of "int ?n"] True by simp
    then have "\<exists>k. binary_search (\<lambda>m. Ok (ttisnil (array t ! nat (m - 1)))) 0 (int ?n) = Ok k
        \<and> 0 \<le> k \<and> k < int ?n \<and> border (\<lambda>m. at t m = VNil) k"
      using True at by (intro binary_search_border) auto
    with True show ?thesis by (auto simp: luaH_getn_def)
  next
    case False
    have last: "int ?n = 0 \<or> at t (int ?n) \<noteq> VNil"
    proof (cases "?n = 0")
      case ne: False
      then have "nat (int ?n - 1) = ?n - 1" by simp
      with ne False at [of "int ?n"] show ?thesis by simp
    qed simp
    have n1: "in_int (int ?n + 1)" using arr by (simp add: in_int_def)
    show ?thesis
    proof (cases "isdummy t")
      case True
      have idx: "arrayindex (VNumber (cast_num (int ?n + 1))) = int ?n + 1"
        by (rule arrayindex_cast_num [OF n1])
      have "find (\<lambda>n. luaO_rawequalObj (i_key n) (VNumber (cast_num (int ?n + 1)))) (node t) = None"
        using table_invD(5) [OF inv True] by (simp add: empty_node_def)
      then have "at t (int ?n + 1) = VNil" by (simp add: at_def lookup_def idx)
      then have "border (\<lambda>m. at t m = VNil) (int ?n)" using last by (simp add: border_def)
      moreover have "luaH_getn t = Ok (int ?n)" using False True by (auto simp: luaH_getn_def Let_def)
      ultimately show ?thesis by blast
    next
      case nd: False
      have "luaH_getn t = unbound_loop t (int ?n) (int ?n + 1)"
        using False nd by (auto simp: luaH_getn_def Let_def unbound_search_def)
      moreover have "\<exists>k. unbound_loop t (int ?n) (int ?n + 1) = Ok k \<and> border (\<lambda>m. at t m = VNil) k"
        by (rule unbound_loop_border [OF inv]) (use last arr in auto)
      ultimately show ?thesis by simp
    qed
  qed
qed

end
