(* ===== verification/LuaTableNext.thy ===== *)
theory LuaTableNext
  imports LuaTableGetn
begin

text \<open>
  Traversal with \<open>luaH_next\<close> and what the collector may do to a table meanwhile.
\<close>

section \<open>Clearing an entry\<close>

text \<open>
  \<open>cleartable\<close> of \<^verbatim>\<open>lgc.c\<close> on one node: the value becomes nil and a collectable key
  becomes dead, so that its place in the chain and in a traversal is kept.
\<close>

definition clear_entry :: "Table \<Rightarrow> nat \<Rightarrow> Table" where
  "clear_entry t i = t\<lparr>node := (node t)[i := removeentry ((node t ! i)\<lparr>i_val := VNil\<rparr>)]\<rparr>"

text \<open>Collectable keys, dead ones included, have different addresses.\<close>

definition addr_ok :: "Node list \<Rightarrow> bool" where
  "addr_ok ns \<longleftrightarrow>
     (\<forall>i < length ns. \<forall>j < length ns. iscollectable (i_key (ns ! i)) \<longrightarrow> iscollectable (i_key (ns ! j))
        \<longrightarrow> gcvalue (i_key (ns ! i)) = gcvalue (i_key (ns ! j)) \<longrightarrow> i = j)"

lemma iscollectable_dead [simp]: "iscollectable (VDeadKey p)"
  by (simp add: iscollectable_def)

lemma nth_clear:
  assumes "j < length (node t)"
  shows "i_key (node (clear_entry t i) ! j) =
      (if j = i \<and> iscollectable (i_key (node t ! i)) then VDeadKey (gcvalue (i_key (node t ! i)))
       else i_key (node t ! j))"
    and "i_val (node (clear_entry t i) ! j) = (if j = i then VNil else i_val (node t ! j))"
    and "i_next (node (clear_entry t i) ! j) = i_next (node t ! j)"
  using assms by (cases "j = i"; simp add: clear_entry_def removeentry_def)+

lemma clear_fields [simp]:
  "array (clear_entry t i) = array t" "lsizenode (clear_entry t i) = lsizenode t"
  "isdummy (clear_entry t i) = isdummy t" "lastfree (clear_entry t i) = lastfree t"
  "metatable (clear_entry t i) = metatable t" "length (node (clear_entry t i)) = length (node t)"
  by (simp_all add: clear_entry_def)

lemma clear_addr_ok: "addr_ok (node t) \<Longrightarrow> addr_ok (node (clear_entry t i))"
  unfolding addr_ok_def by (auto simp: nth_clear)

lemma clear_edges [simp]: "nedges (node (clear_entry t i)) = nedges (node t)"
  by (auto simp: nedges_def nth_clear)

lemma iscollectable_key: "iscollectable k \<Longrightarrow> k \<noteq> VNil"
  by (auto simp: iscollectable_def)

lemma clear_used [simp]: "used (node (clear_entry t i)) = used (node t)"
  using iscollectable_key by (auto simp: used_def nth_clear split: if_splits)

lemma clear_present:
  "j < length (node t) \<Longrightarrow> present (node (clear_entry t i) ! j) \<Longrightarrow>
    present (node t ! j) \<and> i_key (node (clear_entry t i) ! j) = i_key (node t ! j)"
  by (auto simp: present_def nth_clear split: if_splits)

lemma clear_nonnil: "j < length (node t) \<Longrightarrow> i_key (node t ! j) \<noteq> VNil \<Longrightarrow> i_key (node (clear_entry t i) ! j) \<noteq> VNil"
  by (simp add: nth_clear)

lemma clear_links:
  assumes "links_ok (node t)"
  shows "links_ok (node (clear_entry t i))"
proof -
  let ?t = "clear_entry t i"
  show ?thesis
    unfolding links_ok_def clear_edges
  proof (intro conjI allI impI)
    fix a b
    assume e: "(a, b) \<in> nedges (node t)"
    then have "a < length (node t)" by (simp add: nedges_def)
    moreover have "b < length (node t)" "i_key (node t ! a) \<noteq> VNil" "i_key (node t ! b) \<noteq> VNil"
      using assms e by (auto simp: links_ok_def)
    ultimately show "b < length (node ?t)" "i_key (node ?t ! a) \<noteq> VNil" "i_key (node ?t ! b) \<noteq> VNil"
      using clear_nonnil by simp_all
  qed (use assms in \<open>auto simp: links_ok_def\<close>)
qed

lemma clear_inv:
  assumes inv: "table_inv H t" and nd: "\<not> isdummy t"
  shows "table_inv H (clear_entry t i)"
proof -
  let ?t = "clear_entry t i" and ?mp = "mainposition H (lsizenode t)"
  have ninv: "node_inv ?mp (node t)" by (rule table_invD(1) [OF inv])
  have "links_ok (node ?t)" using ninv by (simp add: node_inv_def clear_links)
  moreover have "keys_ok (node ?t)"
    unfolding keys_ok_def
  proof (intro conjI allI impI)
    fix j
    assume "j < length (node ?t)"
    then have j: "j < length (node t)" by simp
    show "i_val (node ?t ! j) = VNil" if "\<not> present (node ?t ! j)"
      using that ninv j by (cases "j = i") (auto simp: nth_clear present_def node_inv_def keys_ok_def)
    show "\<not> is_NaN (i_key (node ?t ! j))"
      using ninv j by (auto simp: nth_clear node_inv_def keys_ok_def is_NaN_def)
    fix j'
    assume j': "j' < length (node ?t)" and p: "present (node ?t ! j)" "present (node ?t ! j')"
      and e: "luaO_rawequalObj (i_key (node ?t ! j)) (i_key (node ?t ! j'))"
    have "j' < length (node t)" using j' by simp
    from clear_present [OF j p(1)] clear_present [OF this p(2)] e j this ninv
    show "j = j'" unfolding node_inv_def keys_ok_def by metis
  qed
  moreover have "homes_ok ?mp (node ?t)"
    unfolding homes_ok_def clear_edges
  proof (intro allI impI)
    fix j
    assume "j < length (node ?t)" and p: "present (node ?t ! j)"
    then have j: "j < length (node t)" by simp
    note c = clear_present [OF j p]
    let ?q = "?mp (i_key (node t ! j))"
    have H: "(?q, j) \<in> (nedges (node t))\<^sup>*" "i_key (node t ! ?q) \<noteq> VNil"
      "ttype (i_key (node t ! ?q)) = 11 \<or> ?mp (i_key (node t ! ?q)) = ?q"
      using ninv j c unfolding node_inv_def homes_ok_def Let_def by blast+
    have q: "?q < length (node t)" using table_invD(2) [OF inv] mainposition_less by simp
    have "ttype (i_key (node ?t ! ?q)) = 11 \<or> ?mp (i_key (node ?t ! ?q)) = ?q"
      using H(3) by (simp add: nth_clear(1) [OF q])
    with H clear_nonnil [OF q] show "(?mp (i_key (node ?t ! j)), j) \<in> (nedges (node t))\<^sup>*
      \<and> (let q = ?mp (i_key (node ?t ! j))
         in i_key (node ?t ! q) \<noteq> VNil \<and> (ttype (i_key (node ?t ! q)) = 11 \<or> ?mp (i_key (node ?t ! q)) = q))"
      using c by (simp add: Let_def)
  qed
  ultimately have nodes: "node_inv ?mp (node ?t)" by (simp add: node_inv_def)
  have "free_below (node ?t) (lastfree t)"
    by (rule free_below_mono [OF table_invD(7) [OF inv nd]]) simp_all
  moreover have "\<not> in_array t (i_key n)" if n: "n \<in> set (node ?t)" "present n" for n
  proof -
    obtain j where j: "j < length (node t)" "n = node ?t ! j" using n(1) by (auto simp: in_set_conv_nth)
    from clear_present [OF j(1)] n(2) j(2) have "present (node t ! j)" "i_key n = i_key (node t ! j)" by auto
    with table_invD(8) [OF inv, of "node t ! j"] j(1) show ?thesis by simp
  qed
  ultimately show ?thesis
    using nodes nd table_invD(2-4) [OF inv] by (simp add: table_inv_def)
qed

lemma clear_slot:
  assumes k: "valid_key k" and i: "i < length (node t)" and ne: "\<not> luaO_rawequalObj (i_key (node t ! i)) k"
  shows "slot_of (clear_entry t i) k s \<longleftrightarrow> slot_of t k s"
proof (cases s)
  case (NodeSlot j)
  have "\<not> luaO_rawequalObj (VDeadKey p) k" for p using k by (auto simp: valid_key_def)
  then show ?thesis using ne i by (auto simp: NodeSlot slot_of_def nth_clear split: if_splits)
qed (simp add: slot_of_def)

lemma clear_lookup:
  assumes inv: "table_inv H t" and nd: "\<not> isdummy t" and i: "i < length (node t)"
    and k: "valid_key k" and p: "present (node t ! i)"
  shows "lookup (clear_entry t i) k = (if luaO_rawequalObj (i_key (node t ! i)) k then VNil else lookup t k)"
proof -
  let ?t = "clear_entry t i"
  have inv': "table_inv H ?t" by (rule clear_inv [OF inv nd])
  show ?thesis
  proof (cases "luaO_rawequalObj (i_key (node t ! i)) k")
    case True
    have "slot_val ?t s = VNil" if s: "slot_of ?t k s" for s
    proof (cases s)
      case (ArraySlot a)
      then have "in_array t k" using s by (simp add: slot_of_def)
      moreover have "\<not> in_array t (i_key (node t ! i))" using table_invD(8) [OF inv _ p] i by simp
      ultimately show ?thesis using arrayindex_eq [OF True] by simp
    next
      case (NodeSlot j)
      then have j: "j < length (node t)" and e: "luaO_rawequalObj (i_key (node ?t ! j)) k"
        using s by (simp_all add: slot_of_def)
      have "j = i"
      proof (rule ccontr)
        assume "j \<noteq> i"
        then have "luaO_rawequalObj (i_key (node t ! j)) k" using e j by (simp add: nth_clear)
        then have "slot_of t k (NodeSlot j)" "slot_of t k (NodeSlot i)"
          using s True i j NodeSlot by (simp_all add: slot_of_def)
        with slot_of_node [OF table_invD(1) [OF inv] k] \<open>j \<noteq> i\<close> show False by blast
      qed
      with NodeSlot i show ?thesis by (simp add: slot_val_def nth_clear)
    qed
    then show ?thesis using True slot_of_lookup [OF inv' k] no_slot_lookup [of ?t k] by metis
  next
    case False
    note same = clear_slot [OF k i False]
    show ?thesis
    proof (cases "\<exists>s. slot_of t k s")
      case True
      then obtain s where s: "slot_of t k s" by blast
      have "slot_val ?t s = slot_val t s"
        using s False by (cases s) (auto simp: slot_val_def slot_of_def nth_clear)
      with s same False show ?thesis
        using slot_of_lookup [OF inv' k, of s] slot_of_lookup [OF inv k s] by simp
    next
      case none: False
      with same False show ?thesis using no_slot_lookup [of t k] no_slot_lookup [of ?t k] by simp
    qed
  qed
qed

section \<open>Finding the place of a key\<close>

text \<open>The place of a pair in a traversal: array slots first, then nodes.\<close>

definition item :: "Table \<Rightarrow> nat \<Rightarrow> TValue \<times> TValue" where
  "item t j =
     (if j < length (array t) then (VNumber (cast_num (int j + 1)), array t ! j)
      else (i_key (node t ! (j - length (array t))), i_val (node t ! (j - length (array t)))))"

definition places :: "Table \<Rightarrow> nat" where
  "places t = length (array t) + sizenode t"

lemma findindex_walk:
  assumes links: "links_ok (node t)" and i: "i < length (node t)"
    and path: "(mainposition H (lsizenode t) k, i) \<in> (nedges (node t))\<^sup>*"
    and len: "length (node t) = 2 ^ lsizenode t" and k: "k \<noteq> VNil" "\<not> in_array t k"
    and P: "\<And>j. j < length (node t) \<Longrightarrow>
      (luaO_rawequalObj (i_key (node t ! j)) k \<or>
       (ttype (i_key (node t ! j)) = 11 \<and> iscollectable k \<and> gcvalue (i_key (node t ! j)) = gcvalue k))
      \<longleftrightarrow> j = i"
  shows "findindex H t k = Ok (int i + int (length (array t)))"
proof -
  let ?P = "\<lambda>n. luaO_rawequalObj (i_key n) k \<or>
       (ttype (i_key n) = 11 \<and> iscollectable k \<and> gcvalue (i_key n) = gcvalue k)"
  let ?m = "mainposition H (lsizenode t) k"
  have m: "?m < length (node t)" using len mainposition_less by simp
  obtain r where r: "chain_walk ?P (node t) (length (node t)) ?m = Ok r"
    and R: "case r of None \<Rightarrow> \<forall>j \<in> chain_of (node t) ?m. \<not> ?P (node t ! j)
      | Some j \<Rightarrow> j \<in> chain_of (node t) ?m \<and> ?P (node t ! j)"
    using chain_walk_returns [OF links m card_chain_of [OF links m]] by blast
  have "i \<in> chain_of (node t) ?m" using path by (simp add: chain_of_def)
  moreover have "?P (node t ! i)" using P [OF i] by simp
  ultimately obtain j where j: "r = Some j" using R by (cases r) auto
  with R have "j \<in> chain_of (node t) ?m" "?P (node t ! j)" by simp_all
  moreover have "j < length (node t)" using calculation(1) chain_of_bounded [OF links m] by auto
  ultimately have "j = i" using P [of j] by blast
  with r j k show ?thesis by (auto simp: findindex_def Let_def)
qed

lemma present_collectable_key: "present n \<Longrightarrow> i_key n \<noteq> VNil \<and> ttype (i_key n) \<noteq> 11"
  by (simp add: present_def)

text \<open>A key of the node vector is found where it is, and still is when its entry was cleared.\<close>

lemma findindex_node:
  assumes inv: "table_inv H t" and addr: "addr_ok (node t)"
    and i: "i < length (node t)" and p: "present (node t ! i)"
  shows "findindex H t (i_key (node t ! i)) = Ok (int i + int (length (array t)))"
    and "iscollectable (i_key (node t ! i)) \<Longrightarrow>
      findindex H (clear_entry t i) (i_key (node t ! i)) = Ok (int i + int (length (array t)))"
proof -
  let ?k = "i_key (node t ! i)"
  have ninv: "node_inv (mainposition H (lsizenode t)) (node t)" by (rule table_invD(1) [OF inv])
  have links: "links_ok (node t)" and keys: "keys_ok (node t)" using ninv by (simp_all add: node_inv_def)
  have path: "(mainposition H (lsizenode t) ?k, i) \<in> (nedges (node t))\<^sup>*"
    using ninv i p by (simp add: node_inv_def homes_ok_def)
  have k: "?k \<noteq> VNil" "\<not> in_array t ?k"
    using p table_invD(8) [OF inv nth_mem [OF i] p] by (simp_all add: present_def)
  have refl: "luaO_rawequalObj ?k ?k" using keys i by (simp add: keys_ok_def rawequal_refl)
  have raw: "j = i" if "j < length (node t)" "luaO_rawequalObj (i_key (node t ! j)) ?k" for j
  proof -
    have "present (node t ! j)"
      using that p by (cases ?k; cases "i_key (node t ! j)") (auto simp: present_def)
    with keys i p that show ?thesis unfolding keys_ok_def by blast
  qed
  have dead: "j = i" if "j < length (node t)" "ttype (i_key (node t ! j)) = 11" "iscollectable ?k"
    "gcvalue (i_key (node t ! j)) = gcvalue ?k" for j
    using addr i that unfolding addr_ok_def by (auto simp: iscollectable_def [of "i_key (node t ! j)"])
  show "findindex H t ?k = Ok (int i + int (length (array t)))"
    by (rule findindex_walk [OF links i path table_invD(2) [OF inv] k]) (use raw dead refl in blast)
  assume c: "iscollectable ?k"
  let ?t = "clear_entry t i"
  have nd: "\<not> isdummy t"
  proof
    assume "isdummy t"
    from table_invD(5) [OF inv this] p i show False by (simp add: present_def empty_node_def)
  qed
  have inv': "node_inv (mainposition H (lsizenode t)) (node ?t)"
    using table_invD(1) [OF clear_inv [OF inv nd, of i]] by simp
  have key: "i_key (node ?t ! i) = VDeadKey (gcvalue ?k)" using i c by (simp add: nth_clear)
  have "findindex H ?t ?k = Ok (int i + int (length (array ?t)))"
  proof (rule findindex_walk)
    show "links_ok (node ?t)" using inv' by (simp add: node_inv_def)
    show "(mainposition H (lsizenode ?t) ?k, i) \<in> (nedges (node ?t))\<^sup>*" using path by simp
    fix j
    assume "j < length (node ?t)"
    then have j: "j < length (node t)" by simp
    show "(luaO_rawequalObj (i_key (node ?t ! j)) ?k \<or>
       (ttype (i_key (node ?t ! j)) = 11 \<and> iscollectable ?k \<and> gcvalue (i_key (node ?t ! j)) = gcvalue ?k))
      \<longleftrightarrow> j = i"
    proof (cases "j = i")
      case True
      with key c show ?thesis by simp
    next
      case False
      with j have "i_key (node ?t ! j) = i_key (node t ! j)" by (simp add: nth_clear)
      with raw [OF j] dead [OF j] False show ?thesis by auto
    qed
  qed (use i k table_invD(2) [OF inv] in simp_all)
  then show "findindex H ?t ?k = Ok (int i + int (length (array t)))" by simp
qed

lemma findindex_item:
  assumes inv: "table_inv H t" and addr: "addr_ok (node t)"
    and j: "j < places t" and live: "snd (item t j) \<noteq> VNil"
  shows "findindex H t (fst (item t j)) = Ok (int j)"
proof (cases "j < length (array t)")
  case True
  have "arrayindex (VNumber (cast_num (int j + 1))) = int j + 1"
    by (rule arrayindex_cast_num) (use True table_invD(4) [OF inv] in \<open>simp add: in_int_def\<close>)
  with True show ?thesis by (simp add: item_def findindex_def)
next
  case False
  let ?i = "j - length (array t)"
  have i: "?i < length (node t)" using j False table_invD(2) [OF inv] by (simp add: places_def sizenode_def)
  have "present (node t ! ?i)"
    by (rule valnotnil_present [OF table_invD(1) [OF inv] i]) (use live False in \<open>simp add: item_def Let_def\<close>)
  from findindex_node(1) [OF inv addr i this] False show ?thesis by (simp add: item_def of_nat_diff)
qed

section \<open>Traversal\<close>

lemma first_used_filter:
  "first_used val i n = (case filter (\<lambda>j. val j \<noteq> VNil) [i..<n] of [] \<Rightarrow> None | j # _ \<Rightarrow> Some j)"
proof (induction val i n rule: first_used.induct)
  case (1 val i n)
  show ?case
  proof (cases "i < n")
    case True
    with 1 show ?thesis by (simp add: first_used.simps [of val i n] upt_conv_Cons)
  qed (simp add: first_used.simps [of val i n])
qed

lemma first_used_Some: "first_used val i n = Some j \<Longrightarrow> i \<le> j \<and> j < n \<and> val j \<noteq> VNil
    \<and> (\<forall>m. i \<le> m \<longrightarrow> m < j \<longrightarrow> val m = VNil)"
proof (induction val i n rule: first_used.induct)
  case (1 val i n)
  then have "i < n" by (auto simp: first_used.simps [of val i n] split: if_splits)
  show ?case
  proof (cases "val i = VNil")
    case True
    with 1 \<open>i < n\<close> have H: "Suc i \<le> j \<and> j < n \<and> val j \<noteq> VNil \<and> (\<forall>m. Suc i \<le> m \<longrightarrow> m < j \<longrightarrow> val m = VNil)"
      by (simp add: first_used.simps [of val i n])
    with True show ?thesis by (metis Suc_leD Suc_leI le_neq_implies_less)
  next
    case False
    with 1 \<open>i < n\<close> show ?thesis by (simp add: first_used.simps [of val i n])
  qed
qed

lemma first_used_None: "first_used val i n = None \<Longrightarrow> i \<le> m \<Longrightarrow> m < n \<Longrightarrow> val m = VNil"
proof -
  assume "first_used val i n = None" "i \<le> m" "m < n"
  then have "filter (\<lambda>j. val j \<noteq> VNil) [i..<n] = []" by (auto simp: first_used_filter split: list.splits)
  then have "\<forall>j \<in> set [i..<n]. val j = VNil" by (simp add: filter_empty_conv)
  with \<open>i \<le> m\<close> \<open>m < n\<close> show ?thesis by simp
qed

definition live_places :: "Table \<Rightarrow> nat \<Rightarrow> nat list" where
  "live_places t i = filter (\<lambda>j. snd (item t j) \<noteq> VNil) [i..<places t]"

lemma live_places_first:
  assumes "i \<le> j" and "j < places t" and "snd (item t j) \<noteq> VNil"
    and "\<forall>m. i \<le> m \<longrightarrow> m < j \<longrightarrow> snd (item t m) = VNil"
  shows "live_places t i = j # live_places t (Suc j)"
proof -
  have "[i..<places t] = [i..<j] @ j # [Suc j..<places t]"
    using assms(1,2) upt_add_eq_append [of i j "places t - j"] by (simp add: upt_conv_Cons)
  moreover have "filter (\<lambda>j. snd (item t j) \<noteq> VNil) [i..<j] = []"
    using assms(4) by (intro filter_False) auto
  ultimately show ?thesis using assms(3) by (simp add: live_places_def)
qed

text \<open>\<open>luaH_next\<close> goes from the place of the key to the next live place.\<close>

lemma luaH_next_step:
  assumes fi: "findindex H t k = Ok i0" and i0: "- 1 \<le> i0"
  shows "luaH_next H t k =
    Ok (case live_places t (nat (i0 + 1)) of [] \<Rightarrow> None | j # _ \<Rightarrow> Some (item t j))"
proof -
  let ?n = "length (array t)" and ?i = "nat (i0 + 1)"
  let ?a = "first_used (\<lambda>j. array t ! j) ?i ?n"
  let ?b = "first_used (\<lambda>j. i_val (node t ! j)) (max ?i ?n - ?n) (sizenode t)"
  have N: "luaH_next H t k =
    (case ?a of Some j \<Rightarrow> Ok (Some (VNumber (cast_num (int j + 1)), array t ! j))
     | None \<Rightarrow> (case ?b of Some j \<Rightarrow> Ok (Some (i_key (node t ! j), i_val (node t ! j))) | None \<Rightarrow> Ok None))"
    by (simp add: luaH_next_def fi Let_def)
  have low: "snd (item t m) = VNil" if "?a = None" "?i \<le> m" "m < ?n" for m
    using first_used_None [OF that] that(3) by (simp add: item_def)
  show ?thesis
  proof (cases ?a)
    case (Some j)
    from first_used_Some [OF this] have "live_places t ?i = j # live_places t (Suc j)"
      by (intro live_places_first) (auto simp: item_def places_def)
    with N Some first_used_Some [OF Some] show ?thesis by (simp add: item_def)
  next
    case None
    show ?thesis
    proof (cases ?b)
      case (Some j)
      note b = first_used_Some [OF Some]
      have "snd (item t m) = VNil" if "?i \<le> m" "m < j + ?n" for m
      proof (cases "m < ?n")
        case False
        then have "max ?i ?n - ?n \<le> m - ?n" "m - ?n < j" using that by auto
        with b have "i_val (node t ! (m - ?n)) = VNil" by blast
        with False show ?thesis by (simp add: item_def)
      qed (use low None that in blast)
      moreover have "?i \<le> j + ?n" using b by auto
      ultimately have "live_places t ?i = (j + ?n) # live_places t (Suc (j + ?n))"
        using b by (intro live_places_first) (auto simp: item_def places_def)
      with N None Some show ?thesis by (simp add: item_def)
    next
      case b: None
      have "snd (item t m) = VNil" if "?i \<le> m" "m < places t" for m
      proof (cases "m < ?n")
        case False
        then have "max ?i ?n - ?n \<le> m - ?n" "m - ?n < sizenode t" using that by (auto simp: places_def)
        from first_used_None [OF b this] False show ?thesis by (simp add: item_def)
      qed (use low None that in blast)
      then have "live_places t ?i = []" by (auto simp: live_places_def filter_empty_conv)
      with N None b show ?thesis by simp
    qed
  qed
qed

text \<open>The loop of a client: \<open>luaH_next\<close> from nil until it returns zero.\<close>

fun traverse :: "strhash \<Rightarrow> Table \<Rightarrow> nat \<Rightarrow> TValue \<Rightarrow> (TValue \<times> TValue) list result" where
  "traverse H t 0 k = Diverge"
| "traverse H t (Suc f) k =
     rbind (luaH_next H t k) (\<lambda>r.
       case r of None \<Rightarrow> Ok [] | Some (k', v) \<Rightarrow> rbind (traverse H t f k') (\<lambda>l. Ok ((k', v) # l)))"

lemma traverse_from:
  assumes inv: "table_inv H t" and addr: "addr_ok (node t)"
    and "findindex H t k = Ok i0" and "- 1 \<le> i0" and "length (live_places t (nat (i0 + 1))) < f"
  shows "traverse H t f k = Ok (map (item t) (live_places t (nat (i0 + 1))))"
  using assms(3-)
proof (induction f arbitrary: k i0)
  case 0
  then show ?case by simp
next
  case (Suc f)
  note step = luaH_next_step [OF Suc.prems(1,2)]
  show ?case
  proof (cases "live_places t (nat (i0 + 1))")
    case Nil
    with step show ?thesis by simp
  next
    case (Cons j js)
    then have "j \<in> set (live_places t (nat (i0 + 1)))" by simp
    then have j: "nat (i0 + 1) \<le> j" "j < places t" "snd (item t j) \<noteq> VNil" by (auto simp: live_places_def)
    have "snd (item t m) = VNil" if m: "nat (i0 + 1) \<le> m" "m < j" for m
    proof (rule ccontr)
      assume "snd (item t m) \<noteq> VNil"
      then have "m \<in> set (live_places t (nat (i0 + 1)))" using m j(2) by (simp add: live_places_def)
      moreover have "sorted (live_places t (nat (i0 + 1)))" by (simp add: live_places_def sorted_wrt_filter)
      ultimately show False using m(2) by (auto simp: Cons)
    qed
    then have js: "js = live_places t (Suc j)"
      using live_places_first [OF j] Cons by simp
    obtain k' v where kv: "item t j = (k', v)" by (cases "item t j") auto
    have "findindex H t k' = Ok (int j)" using findindex_item [OF inv addr j(2,3)] by (simp add: kv)
    moreover have n: "nat (int j + 1) = Suc j" by simp
    ultimately have "traverse H t f k' = Ok (map (item t) js)"
      using Suc.IH [of k' "int j"] Suc.prems(3) Cons by (simp add: n js)
    with step Cons kv show ?thesis by simp
  qed
qed

end
