(* ===== verification/LuaMark.thy ===== *)
theory LuaMark
  imports LuaState LuaTableNext
begin

text \<open>
  The mark phase of the collector, the write barriers and the linking of new objects
  (\<^verbatim>\<open>lgc.c\<close>), with the reallocation of stacks (\<^verbatim>\<open>ldo.c\<close>) that the traversal of a thread
  does.
\<close>

section \<open>Marking\<close>

definition stringmark :: "ptr \<Rightarrow> unit gc" where
  "stringmark = upd_mark white2gray"

definition isfinalized :: "byte \<Rightarrow> bool" where
  "isfinalized m \<longleftrightarrow> bit m FINALIZEDBIT"

definition markfinalized :: "byte \<Rightarrow> byte" where
  "markfinalized m = set_bit FINALIZEDBIT m"

text \<open>\<open>rec\<close> is the call of \<open>reallymarkobject\<close>.\<close>

definition markobject_by :: "(ptr \<Rightarrow> unit gc) \<Rightarrow> ptr \<Rightarrow> unit gc" where
  "markobject_by rec p = sbind (get_obj p) (\<lambda>x. if iswhite (marked x) then rec p else sret ())"

definition markvalue_by :: "(ptr \<Rightarrow> unit gc) \<Rightarrow> TValue \<Rightarrow> unit gc" where
  "markvalue_by rec v = (if iscollectable v then markobject_by rec (gcvalue v) else sret ())"

definition push_gray :: "ptr \<Rightarrow> unit gc" where
  "push_gray p = modify (\<lambda>g. g\<lparr>gray := p # gray g\<rparr>)"

text \<open>The \<open>switch\<close> on the kind of the object, and the function with its first assignment\<close>

definition scan_object :: "(ptr \<Rightarrow> unit gc) \<Rightarrow> ptr \<Rightarrow> unit gc" where
  "scan_object rec p = sbind (get_obj p) (\<lambda>x.
     case body x of
       OString s \<Rightarrow> sret ()
     | OUdata u \<Rightarrow>
         sbind (upd_mark gray2black p) (\<lambda>_.
         sbind (case u_metatable u of None \<Rightarrow> sret () | Some m \<Rightarrow> markobject_by rec m) (\<lambda>_.
         markobject_by rec (u_env u)))
     | OUpVal uv \<Rightarrow>
         sbind (uv_value uv) (\<lambda>v. sbind (markvalue_by rec v) (\<lambda>_.
           case uv of Closed _ \<Rightarrow> upd_mark gray2black p | Open _ _ \<Rightarrow> sret ()))
     | OClosure c \<Rightarrow> push_gray p
     | OTable h \<Rightarrow> push_gray p
     | OThread t \<Rightarrow> push_gray p
     | OProto f \<Rightarrow> push_gray p)"

definition mark_body :: "(ptr \<Rightarrow> unit gc) \<Rightarrow> ptr \<Rightarrow> unit gc" where
  "mark_body rec p = sbind (upd_mark white2gray p) (\<lambda>_. scan_object rec p)"

text \<open>
  The calls nest at most three deep, an upvalue, a userdata that it holds and the table that is its
  environment, since the other kinds of objects are only put in the list.
\<close>

primrec reallymark :: "nat \<Rightarrow> ptr \<Rightarrow> unit gc" where
  "reallymark 0 = (\<lambda>p g. Diverge)"
| "reallymark (Suc n) = mark_body (reallymark n)"

definition reallymarkobject :: "ptr \<Rightarrow> unit gc" where
  "reallymarkobject = reallymark (Suc (Suc (Suc 0)))"

definition markobject :: "ptr \<Rightarrow> unit gc" where
  "markobject = markobject_by reallymarkobject"

definition markvalue :: "TValue \<Rightarrow> unit gc" where
  "markvalue = markvalue_by reallymarkobject"

definition mark_some :: "ptr option \<Rightarrow> unit gc" where
  "mark_some q = (case q of None \<Rightarrow> sret () | Some p \<Rightarrow> markobject p)"

definition stringmark_some :: "ptr option \<Rightarrow> unit gc" where
  "stringmark_some q = (case q of None \<Rightarrow> sret () | Some p \<Rightarrow> stringmark p)"

section \<open>Traversal\<close>

definition set_weak_bits :: "bool \<Rightarrow> bool \<Rightarrow> byte \<Rightarrow> byte" where
  "set_weak_bits wk wv m =
     (let m0 = unset_bit VALUEWEAKBIT (unset_bit KEYWEAKBIT m);
          m1 = (if wk then set_bit KEYWEAKBIT m0 else m0)
      in if wv then set_bit VALUEWEAKBIT m1 else m1)"

text \<open>The nodes from \<open>i - 1\<close> down\<close>

primrec traverse_nodes :: "bool \<Rightarrow> bool \<Rightarrow> ptr \<Rightarrow> nat \<Rightarrow> unit gc" where
  "traverse_nodes wk wv p 0 = sret ()"
| "traverse_nodes wk wv p (Suc i) =
     sbind (gco2h p) (\<lambda>h.
     sbind (let n = node h ! i
            in if ttisnil (i_val n) then set_table p (h\<lparr>node := (node h)[i := removeentry n]\<rparr>)
               else sbind (if \<not> wk then markvalue (i_key n) else sret ()) (\<lambda>_.
                 if \<not> wv then markvalue (i_val n) else sret ())) (\<lambda>_.
     traverse_nodes wk wv p i))"

text \<open>Which of the parts of a table its metatable makes weak.\<close>

definition weak_mode :: "TValue option \<Rightarrow> (bool \<times> bool) gc" where
  "weak_mode mode =
     (case mode of
        Some (VString s) \<Rightarrow> sbind (gco2ts s) (\<lambda>ts.
          let cs = takeWhile (\<lambda>c. c \<noteq> CHR 0x00) (bytes ts)
          in sret (CHR ''k'' \<in> set cs, CHR ''v'' \<in> set cs))
      | _ \<Rightarrow> sret (False, False))"

definition traversetable :: "ptr \<Rightarrow> bool gc" where
  "traversetable p =
     sbind (gco2h p) (\<lambda>h0.
     sbind (mark_some (metatable h0)) (\<lambda>_.
     sbind (gfasttm (metatable h0) TM_MODE) (\<lambda>mode.
     sbind (weak_mode mode) (\<lambda>(wk, wv).
     sbind (if wk \<or> wv
            then sbind (upd_mark (set_weak_bits wk wv) p) (\<lambda>_. modify (\<lambda>g. g\<lparr>weak := p # weak g\<rparr>))
            else sret ()) (\<lambda>_.
     if wk \<and> wv then sret True
     else sbind (gco2h p) (\<lambda>h.
          sbind (if \<not> wv then for_each markvalue (rev (array h)) else sret ()) (\<lambda>_.
          sbind (traverse_nodes wk wv p (sizenode h)) (\<lambda>_.
          sret (wk \<or> wv)))))))))"

definition traverseproto :: "HProto \<Rightarrow> unit gc" where
  "traverseproto f =
     sbind (stringmark_some (h_source f)) (\<lambda>_.
     sbind (for_each markvalue (h_k f)) (\<lambda>_.
     sbind (for_each stringmark_some (h_upvalues f)) (\<lambda>_.
     sbind (for_each mark_some (h_p f)) (\<lambda>_.
     for_each (\<lambda>(name, s, e). stringmark_some name) (h_locvars f)))))"

definition traverseclosure :: "Closure \<Rightarrow> unit gc" where
  "traverseclosure c =
     sbind (markobject (c_env c)) (\<lambda>_.
     case c of
       CClosure _ _ uvs \<Rightarrow> for_each markvalue uvs
     | LClosure _ p uvs \<Rightarrow> sbind (markobject p) (\<lambda>_.
         for_each (\<lambda>q. case q of None \<Rightarrow> undef | Some u \<Rightarrow> markobject u) uvs))"

section \<open>Stacks\<close>

abbreviation (input) EXTRA_STACK :: nat where "EXTRA_STACK \<equiv> 5"
abbreviation (input) BASIC_CI_SIZE :: nat where "BASIC_CI_SIZE \<equiv> 8"
abbreviation (input) BASIC_STACK_SIZE :: nat where "BASIC_STACK_SIZE \<equiv> 40"
abbreviation (input) LUAI_MAXCALLS :: nat where "LUAI_MAXCALLS \<equiv> 20000"

definition blank_ci :: CallInfo where
  "blank_ci = \<lparr>ci_base = 0, ci_func = 0, ci_top = 0, ci_savedpc = 0, ci_nresults = 0, ci_tailcalls = 0\<rparr>"

definition resize_list :: "'a \<Rightarrow> nat \<Rightarrow> 'a list \<Rightarrow> 'a list" where
  "resize_list d n xs = take n xs @ replicate (n - length xs) d"

text \<open>Pointers into the stack are indices, so that \<open>correctstack\<close> has nothing to do.\<close>

definition luaD_reallocstack :: "ptr \<Rightarrow> nat \<Rightarrow> unit gc" where
  "luaD_reallocstack p newsize =
     sbind (gco2th p) (\<lambda>t.
       let realsize = newsize + 1 + EXTRA_STACK
       in sbind (luaM_malloc (of_nat (sizeof_TValue * realsize) - of_nat (sizeof_TValue * length (L_stack t)))) (\<lambda>_.
          set_body p (OThread (t\<lparr>L_stack := resize_list VNil realsize (L_stack t), L_stack_last := newsize\<rparr>))))"

definition luaD_reallocCI :: "ptr \<Rightarrow> nat \<Rightarrow> unit gc" where
  "luaD_reallocCI p newsize =
     sbind (gco2th p) (\<lambda>t.
       sbind (luaM_malloc (of_nat (sizeof_CallInfo * newsize) - of_nat (sizeof_CallInfo * length (L_base_ci t)))) (\<lambda>_.
       set_body p (OThread (t\<lparr>L_base_ci := resize_list blank_ci newsize (L_base_ci t)\<rparr>))))"

definition checkstacksizes :: "ptr \<Rightarrow> nat \<Rightarrow> unit gc" where
  "checkstacksizes p s_used =
     sbind (gco2th p) (\<lambda>t.
       let ci_used = L_ci t; size_ci = length (L_base_ci t)
       in if LUAI_MAXCALLS < size_ci then sret ()
          else sbind (if 4 * ci_used < size_ci \<and> 2 * BASIC_CI_SIZE < size_ci
                      then luaD_reallocCI p (size_ci div 2) else sret ()) (\<lambda>_.
               sbind (gco2th p) (\<lambda>t.
                 let stacksize = length (L_stack t)
                 in if 4 * s_used < stacksize \<and> 2 * (BASIC_STACK_SIZE + EXTRA_STACK) < stacksize
                    then luaD_reallocstack p (stacksize div 2) else sret ())))"

text \<open>The highest place that a call in progress may use.\<close>

definition stack_limit :: "lua_State \<Rightarrow> nat" where
  "stack_limit t = fold max (map ci_top (take (Suc (L_ci t)) (L_base_ci t))) (L_top t)"

definition clear_above :: "nat \<Rightarrow> nat \<Rightarrow> TValue list \<Rightarrow> TValue list" where
  "clear_above t lim xs = take t xs @ replicate (Suc lim - t) VNil @ drop (Suc lim) xs"

definition traversestack :: "ptr \<Rightarrow> unit gc" where
  "traversestack p =
     sbind (gco2th p) (\<lambda>t.
     sbind (markvalue (L_gt t)) (\<lambda>_.
       let lim = stack_limit t
       in if length (L_stack t) \<le> lim \<or> length (L_base_ci t) \<le> L_ci t then undef
          else sbind (for_each markvalue (take (L_top t) (L_stack t))) (\<lambda>_.
               sbind (set_body p (OThread (t\<lparr>L_stack := clear_above (L_top t) lim (L_stack t)\<rparr>))) (\<lambda>_.
               checkstacksizes p lim))))"

section \<open>Propagation\<close>

definition propagatemark :: "int gc" where
  "propagatemark g =
     (case gray g of
        [] \<Rightarrow> Undef
      | p # rest \<Rightarrow>
          sbind (upd_mark gray2black p) (\<lambda>_. sbind (get_obj p) (\<lambda>x.
          sbind (modify (\<lambda>g. g\<lparr>gray := rest\<rparr>)) (\<lambda>_.
            case body x of
              OTable h \<Rightarrow>
                sbind (traversetable p) (\<lambda>w.
                sbind (if w then upd_mark black2gray p else sret ()) (\<lambda>_.
                sbind (gco2h p) (\<lambda>h. sret (size_table h))))
            | OClosure c \<Rightarrow> sbind (traverseclosure c) (\<lambda>_. sret (size_closure c))
            | OThread t \<Rightarrow>
                sbind (modify (\<lambda>g. g\<lparr>grayagain := p # grayagain g\<rparr>)) (\<lambda>_.
                sbind (upd_mark black2gray p) (\<lambda>_.
                sbind (traversestack p) (\<lambda>_.
                sbind (gco2th p) (\<lambda>t. sret (size_thread t)))))
            | OProto f \<Rightarrow> sbind (traverseproto f) (\<lambda>_. sret (size_proto f))
            | _ \<Rightarrow> undef))) g)"

section \<open>Propagation ends\<close>

text \<open>
  An object is put in the list of gray objects only when it stops being white, so that this measure
  goes down with every object that is taken from the list.
\<close>

definition pot :: "global_State \<Rightarrow> nat" where
  "pot g = 2 * card {p. \<exists>x. heap g p = Some x \<and> iswhite (marked x)} + length (gray g)"

definition lep :: "'a gc \<Rightarrow> bool" where
  "lep m \<longleftrightarrow> steps (\<lambda>g g'. pot g' \<le> pot g) m"

interpretation pot: state_frame "\<lambda>g g'. pot g' \<le> pot g"
  by unfold_locales auto

named_theorems lep_rules

lemma lepD: "lep m \<Longrightarrow> m g = Ok (x, g') \<Longrightarrow> pot g' \<le> pot g"
  unfolding lep_def by (rule stepsD [where R = "\<lambda>g g'. pot g' \<le> pot g"])

lemma lepI: "(\<And>g x g'. m g = Ok (x, g') \<Longrightarrow> pot g' \<le> pot g) \<Longrightarrow> lep m"
  by (simp add: lep_def steps_def)

lemmas lep_frame [lep_rules] =
  pot.steps_bind [folded lep_def] pot.steps_ret [folded lep_def] pot.steps_undef [folded lep_def]
  pot.steps_for_each [folded lep_def] pot.steps_access [folded lep_def] pot.steps_uv_value [folded lep_def]
  steps_get [where R = "\<lambda>g g'. pot g' \<le> pot g", OF order.refl, folded lep_def]

lemma lep_if [lep_rules]: "lep a \<Longrightarrow> lep b \<Longrightarrow> lep (if c then a else b)"
  by simp

lemma lep_option [lep_rules]: "lep a \<Longrightarrow> (\<And>x. lep (b x)) \<Longrightarrow> lep (case q of None \<Rightarrow> a | Some x \<Rightarrow> b x)"
  by (cases q) simp_all

lemma card_white_le:
  assumes "\<And>p x'. heap g' p = Some x' \<Longrightarrow> iswhite (marked x') \<Longrightarrow> \<exists>x. heap g p = Some x \<and> iswhite (marked x)"
    and "gray g' = gray g"
  shows "pot g' \<le> pot g"
  unfolding pot_def assms(2) by (intro add_mono mult_left_mono card_mono order.refl) (use assms(1) in auto)

lemma lep_upd_mark:
  assumes "\<And>m. iswhite (f m) \<Longrightarrow> iswhite m"
  shows "lep (upd_mark f p)"
proof (rule lepI)
  fix g x g'
  assume "upd_mark f p g = Ok (x, g')"
  then obtain y where "heap g p = Some y" "g' = g\<lparr>heap := (heap g)(p \<mapsto> y\<lparr>marked := f (marked y)\<rparr>)\<rparr>"
    by (auto simp: upd_mark_def get_obj_def set_obj_def elim!: sbind_OkE split: option.splits)
  then show "pot g' \<le> pot g" using assms by (intro card_white_le) (auto split: if_splits)
qed

lemma white_simps [simp]:
  "\<not> iswhite (white2gray m)" "iswhite (gray2black m) = iswhite m" "iswhite (black2gray m) = iswhite m"
  "iswhite (set_weak_bits wk wv m) = iswhite m" "iswhite (markfinalized m) = iswhite m"
  by (auto simp: iswhite_def white2gray_def gray2black_def black2gray_def set_weak_bits_def Let_def markfinalized_def
      bit_unset_bit_iff bit_set_bit_iff)

lemma lep_marks [lep_rules]:
  "lep (stringmark p)" "lep (upd_mark gray2black p)" "lep (upd_mark black2gray p)" "lep (upd_mark (set_weak_bits wk wv) p)"
  unfolding stringmark_def by (rule lep_upd_mark; simp)+

lemma lep_set_body [lep_rules]: "lep (set_body p b)"
proof (rule lepI)
  fix g x g'
  assume "set_body p b g = Ok (x, g')"
  then obtain y where "heap g p = Some y" "g' = g\<lparr>heap := (heap g)(p \<mapsto> y\<lparr>body := b\<rparr>)\<rparr>"
    by (auto simp: set_body_def get_obj_def set_obj_def elim!: sbind_OkE split: option.splits)
  then show "pot g' \<le> pot g" by (intro card_white_le) (auto split: if_splits)
qed

lemma lep_set_table [lep_rules]: "lep (set_table p h)"
  unfolding set_table_def by (rule lep_set_body)

lemma lep_modify: "(\<And>g. heap (f g) = heap g) \<Longrightarrow> (\<And>g. gray (f g) = gray g) \<Longrightarrow> lep (modify f)"
  by (auto intro!: lepI simp: modify_def pot_def)

lemma lep_modifies [lep_rules]:
  "lep (modify (\<lambda>g. g\<lparr>weak := p # weak g\<rparr>))" "lep (modify (\<lambda>g. g\<lparr>grayagain := p # grayagain g\<rparr>))" "lep (luaM_malloc n)"
  unfolding luaM_malloc_def by (rule lep_modify; simp)+

text \<open>Marking, of an object that is white\<close>

definition lepw :: "(ptr \<Rightarrow> unit gc) \<Rightarrow> bool" where
  "lepw rec \<longleftrightarrow> (\<forall>p g x g' u. heap g p = Some x \<longrightarrow> iswhite (marked x) \<longrightarrow> rec p g = Ok (u, g') \<longrightarrow> pot g' \<le> pot g)"

lemma lep_markobject_by: "lepw rec \<Longrightarrow> lep (markobject_by rec p)"
  by (auto intro!: lepI simp: lepw_def markobject_by_def get_obj_def split: option.splits if_splits elim!: sbind_OkE)

lemma lep_markvalue_by: "lepw rec \<Longrightarrow> lep (markvalue_by rec v)"
  by (simp add: markvalue_by_def lep_markobject_by lep_rules)

lemma mark_body_le:
  assumes "lepw rec" and x: "heap g p = Some x" "iswhite (marked x)" and m: "mark_body rec p g = Ok (u, g')"
  shows "pot g' \<le> pot g"
proof -
  let ?x = "x\<lparr>marked := white2gray (marked x)\<rparr>"
  let ?g = "g\<lparr>heap := (heap g)(p \<mapsto> ?x)\<rparr>"
  have up: "upd_mark white2gray p g = Ok ((), ?g)"
    using x by (simp add: upd_mark_def get_obj_def set_obj_def sbind_def)
  have get: "get_obj p ?g = Ok (?x, ?g)" by (simp add: get_obj_def)
  have eq: "{q. \<exists>y. heap ?g q = Some y \<and> iswhite (marked y)} = {q. \<exists>y. heap g q = Some y \<and> iswhite (marked y)} - {p}"
    by auto
  have "0 < card {q. \<exists>y. heap g q = Some y \<and> iswhite (marked y)}" using x by (auto simp: card_gt_0_iff)
  then have pot: "pot ?g + 2 = pot g"
    unfolding pot_def eq using x by (subst card_Diff_singleton) auto
  note rec = lep_markobject_by [OF assms(1)] lep_markvalue_by [OF assms(1)]
  have push: "pot g' \<le> pot g" if "push_gray p ?g = Ok (u, g')"
    using that pot by (auto simp: push_gray_def modify_def pot_def)
  have step: "pot g' \<le> pot g" if "r ?g = Ok (u', g')" "lep r" for r :: "unit gc" and u'
    using lepD [OF that(2,1)] pot by simp
  from m have b: "(case body x of
       OString s \<Rightarrow> sret ()
     | OUdata ud \<Rightarrow>
         sbind (upd_mark gray2black p) (\<lambda>_.
         sbind (case u_metatable ud of None \<Rightarrow> sret () | Some m \<Rightarrow> markobject_by rec m) (\<lambda>_.
         markobject_by rec (u_env ud)))
     | OUpVal uv \<Rightarrow>
         sbind (uv_value uv) (\<lambda>v. sbind (markvalue_by rec v) (\<lambda>_.
           case uv of Closed _ \<Rightarrow> upd_mark gray2black p | Open _ _ \<Rightarrow> sret ()))
     | OClosure c \<Rightarrow> push_gray p | OTable h \<Rightarrow> push_gray p | OThread t \<Rightarrow> push_gray p | OProto f \<Rightarrow> push_gray p) ?g
      = Ok (u, g')"
    by (simp add: mark_body_def scan_object_def sbind_Ok [where m = "upd_mark white2gray p", OF up]
        sbind_Ok [where m = "get_obj p", OF get])
  then show ?thesis
  proof (cases "body x")
    case (OString s)
    with b show ?thesis using step [of "sret ()"] by (simp add: lep_rules)
  next
    case (OUdata ud)
    with b show ?thesis by simp (erule step, intro lep_rules rec)
  next
    case (OUpVal uv)
    with b show ?thesis by simp (erule step, auto intro!: lep_rules rec split: UpVal.splits)
  qed (use push b in simp_all)
qed

lemma lepw_reallymark: "lepw (reallymark n)"
proof (induction n)
  case 0
  then show ?case by (simp add: lepw_def)
next
  case (Suc n)
  show ?case unfolding lepw_def by (simp, intro allI impI, rule mark_body_le [OF Suc])
qed

lemma lep_mark [lep_rules]: "lep (markobject p)" "lep (markvalue v)" "lep (mark_some q)" "lep (stringmark_some q)"
  unfolding markobject_def markvalue_def mark_some_def stringmark_some_def reallymarkobject_def
  by (auto intro!: lep_rules lep_markobject_by lep_markvalue_by lepw_reallymark simp: markobject_def reallymarkobject_def
      split: option.splits simp del: reallymark.simps)

lemma lep_traverse_nodes [lep_rules]: "lep (traverse_nodes wk wv p i)"
  by (induction i) (auto intro!: lep_rules simp: Let_def)

lemma lep_gettm [lep_rules]: "lep (luaT_gettm t e n)"
  unfolding luaT_gettm_def
proof (intro lep_rules)
  fix h s
  show "lep (\<lambda>g. rbind (luaH_getstr (str_hash g) h n) (\<lambda>r.
         if ttisnil (deref h r)
         then sbind (set_table t (h\<lparr>flags := set_bit e (flags h)\<rparr>)) (\<lambda>_. sret None) g
         else Ok (Some (deref h r), g)))"
    by (rule lepI, auto elim!: rbind_OkE sbind_OkE split: if_splits) (rule lepD [OF lep_set_table])
qed

lemma lep_gfasttm [lep_rules]: "lep (gfasttm et e)"
proof (cases et)
  case (Some t)
  have "lep (\<lambda>g. if bit (flags h) e then Ok (None, g)
          else if e < length (tmname g) then luaT_gettm t e (tmname g ! e) g
          else Undef)" for h
    by (rule lepI) (auto dest: lepD [OF lep_gettm] split: if_splits)
  then show ?thesis using Some by (auto simp: gfasttm_def intro!: lep_rules)
qed (simp add: gfasttm_def lep_rules)

lemma lep_weak_mode [lep_rules]: "lep (weak_mode m)"
  unfolding weak_mode_def
  by (auto split: option.splits TValue.splits simp: Let_def intro!: lep_rules)

lemma lep_traversetable [lep_rules]: "lep (traversetable p)"
  unfolding traversetable_def by (auto intro!: lep_rules split: prod.splits)

lemma lep_traverseproto [lep_rules]: "lep (traverseproto f)"
  unfolding traverseproto_def by (auto intro!: lep_rules split: prod.splits)

lemma lep_traverseclosure [lep_rules]: "lep (traverseclosure c)"
  unfolding traverseclosure_def by (cases c) (auto intro!: lep_rules)

lemma lep_checkstacksizes [lep_rules]: "lep (checkstacksizes p n)"
  unfolding checkstacksizes_def luaD_reallocCI_def luaD_reallocstack_def Let_def by (auto intro!: lep_rules)

lemma lep_traversestack [lep_rules]: "lep (traversestack p)"
  unfolding traversestack_def Let_def by (auto intro!: lep_rules)

lemma propagatemark_less: "propagatemark g = Ok (c, g') \<Longrightarrow> pot g' < pot g"
proof -
  assume m: "propagatemark g = Ok (c, g')"
  then obtain p rest where g: "gray g = p # rest" by (auto simp: propagatemark_def split: list.splits)
  let ?pop = "modify (\<lambda>g. g\<lparr>gray := rest\<rparr>) :: unit gc"
  from m g obtain g1 x g2 g3 where 1: "upd_mark gray2black p g = Ok ((), g1)" and 2: "get_obj p g1 = Ok (x, g2)"
    and 3: "?pop g2 = Ok ((), g3)" and 4: "(case body x of
              OTable h \<Rightarrow>
                sbind (traversetable p) (\<lambda>w.
                sbind (if w then upd_mark black2gray p else sret ()) (\<lambda>_.
                sbind (gco2h p) (\<lambda>h. sret (size_table h))))
            | OClosure c \<Rightarrow> sbind (traverseclosure c) (\<lambda>_. sret (size_closure c))
            | OThread t \<Rightarrow>
                sbind (modify (\<lambda>g. g\<lparr>grayagain := p # grayagain g\<rparr>)) (\<lambda>_.
                sbind (upd_mark black2gray p) (\<lambda>_.
                sbind (traversestack p) (\<lambda>_.
                sbind (gco2th p) (\<lambda>t. sret (size_thread t)))))
            | OProto f \<Rightarrow> sbind (traverseproto f) (\<lambda>_. sret (size_proto f))
            | _ \<Rightarrow> undef) g3 = Ok (c, g')"
    by (auto simp: propagatemark_def elim!: sbind_OkE)
  have "gray g1 = gray g"
    using 1 by (auto simp: upd_mark_def set_obj_def get_obj_def elim!: sbind_OkE split: option.splits)
  moreover have "g2 = g1" using 2 by (auto simp: get_obj_def split: option.splits)
  moreover have "g3 = g2\<lparr>gray := rest\<rparr>" using 3 by (simp add: modify_def)
  ultimately have "pot g3 < pot g1" using g by (simp add: pot_def)
  moreover have "pot g1 \<le> pot g" by (rule lepD [OF lep_marks(2) 1])
  moreover have "pot g' \<le> pot g3" using 4
    by (rule lepD [rotated]) (auto split: body.splits intro!: lep_rules)
  ultimately show ?thesis by simp
qed

function propagateall :: "int gc" where
  "propagateall g =
     (if gray g = [] then Ok (0, g)
      else sbind propagatemark (\<lambda>c g1. rbind (propagateall g1) (\<lambda>(m, g2). Ok (c + m, g2))) g)"
  by pat_completeness auto
termination by (relation "measure pot") (auto dest: propagatemark_less)

declare propagateall.simps [simp del]

text \<open>What marking does not change: a property \<open>F\<close> of objects that does not depend on their colour.\<close>

locale mark_frame =
  fixes F :: "GCObject \<Rightarrow> 'c"
  assumes F_gray: "F (x\<lparr>marked := white2gray (marked x)\<rparr>) = F x"
    and F_black: "F (x\<lparr>marked := gray2black (marked x)\<rparr>) = F x"
begin

abbreviation same_F :: "global_State \<Rightarrow> global_State \<Rightarrow> bool" where
  "same_F g g' \<equiv> (\<lambda>p. map_option F (heap g' p)) = (\<lambda>p. map_option F (heap g p))"

lemma F_frame: "state_frame same_F"
  by unfold_locales auto

lemmas F_rules = state_frame.steps_bind [OF F_frame] state_frame.steps_ret [OF F_frame] state_frame.steps_uv_value [OF F_frame]
  state_frame.steps_access [OF F_frame] steps_get [where R = same_F, OF refl]

lemma F_upd_mark: "steps same_F (upd_mark white2gray p)" "steps same_F (upd_mark gray2black p)"
  by (auto simp: steps_def upd_mark_def get_obj_def set_obj_def fun_eq_iff F_gray F_black elim!: sbind_OkE split: option.splits)

lemma F_markobject_by: "steps same_F (rec p) \<Longrightarrow> steps same_F (markobject_by rec p)"
  unfolding markobject_by_def
  by (intro F_rules) (auto intro: F_rules)

lemma F_mark_body:
  assumes "\<And>p. steps same_F (rec p)"
  shows "steps same_F (mark_body rec p)"
proof -
  have push: "steps same_F (push_gray p)" by (simp add: steps_def push_gray_def modify_def)
  have mo: "steps same_F (markobject_by rec q)" for q by (rule F_markobject_by [OF assms])
  then have mv: "steps same_F (markvalue_by rec v)" for v by (simp add: markvalue_by_def F_rules)
  show ?thesis
    unfolding mark_body_def scan_object_def
    by (intro F_rules F_upd_mark)
       (auto split: body.splits option.splits UpVal.splits intro!: F_rules push mo mv F_upd_mark)
qed

lemma F_reallymark: "steps same_F (reallymark n p)"
proof (induction n arbitrary: p)
  case 0
  then show ?case by (simp add: steps_def)
next
  case (Suc n)
  then show ?case by (simp add: F_mark_body)
qed

lemma F_mark: "steps same_F (markobject p)" "steps same_F (markvalue v)" "steps same_F (mark_some q)"
  unfolding markobject_def markvalue_def markvalue_by_def reallymarkobject_def mark_some_def
  by (auto intro!: F_markobject_by F_reallymark F_rules simp: markobject_def reallymarkobject_def
      split: option.splits simp del: reallymark.simps)

lemma F_marked: "markvalue v g = Ok (u, g') \<Longrightarrow> map_option F (heap g' p) = map_option F (heap g p)"
  using stepsD [OF F_mark(2), of v g u g'] by (simp add: fun_eq_iff)

end

interpretation keep_body: mark_frame body
  by unfold_locales simp_all

interpretation keep_weak: mark_frame "\<lambda>x. bit (marked x) VALUEWEAKBIT"
  by unfold_locales (simp_all add: white2gray_def gray2black_def bit_unset_bit_iff bit_set_bit_iff)

section \<open>Barriers and links\<close>

definition luaC_barrierf :: "ptr \<Rightarrow> ptr \<Rightarrow> unit gc" where
  "luaC_barrierf p v g =
     (if gcstate g = GCSpropagate then reallymarkobject v g
      else upd_mark (makewhite (currentwhite g)) p g)"

definition luaC_barrierback :: "ptr \<Rightarrow> unit gc" where
  "luaC_barrierback t =
     sbind (upd_mark black2gray t) (\<lambda>_. modify (\<lambda>g. g\<lparr>grayagain := t # grayagain g\<rparr>))"

definition marked_of :: "ptr \<Rightarrow> byte gc" where
  "marked_of p = sbind (get_obj p) (\<lambda>x. sret (marked x))"

definition luaC_barrier :: "ptr \<Rightarrow> TValue \<Rightarrow> unit gc" where
  "luaC_barrier p v =
     (if iscollectable v then
        sbind (marked_of (gcvalue v)) (\<lambda>mv. sbind (marked_of p) (\<lambda>mp.
          if iswhite mv \<and> isblack mp then luaC_barrierf p (gcvalue v) else sret ()))
      else sret ())"

definition luaC_barriert :: "ptr \<Rightarrow> TValue \<Rightarrow> unit gc" where
  "luaC_barriert t v =
     (if iscollectable v then
        sbind (marked_of (gcvalue v)) (\<lambda>mv. sbind (marked_of t) (\<lambda>mt.
          if iswhite mv \<and> isblack mt then luaC_barrierback t else sret ()))
      else sret ())"

definition luaC_objbarrier :: "ptr \<Rightarrow> ptr \<Rightarrow> unit gc" where
  "luaC_objbarrier p q =
     sbind (marked_of q) (\<lambda>mq. sbind (marked_of p) (\<lambda>mp.
       if iswhite mq \<and> isblack mp then luaC_barrierf p q else sret ()))"

definition luaC_objbarriert :: "ptr \<Rightarrow> ptr \<Rightarrow> unit gc" where
  "luaC_objbarriert t q =
     sbind (marked_of q) (\<lambda>mq. sbind (marked_of t) (\<lambda>mt.
       if iswhite mq \<and> isblack mt then luaC_barrierback t else sret ()))"

text \<open>The new object \<open>b\<close> at \<open>p\<close>.\<close>

definition luaC_link :: "ptr \<Rightarrow> body \<Rightarrow> unit gc" where
  "luaC_link p b g = set_obj p \<lparr>marked = luaC_white (currentwhite g), body = b\<rparr> (g\<lparr>rootgc := p # rootgc g\<rparr>)"

definition luaC_linkupval :: "ptr \<Rightarrow> unit gc" where
  "luaC_linkupval p =
     sbind (modify (\<lambda>g. g\<lparr>rootgc := p # rootgc g\<rparr>)) (\<lambda>_.
     sbind (marked_of p) (\<lambda>m g.
       if isgray m then
         if gcstate g = GCSpropagate then
           sbind (upd_mark gray2black p) (\<lambda>_. sbind (gco2uv p) (\<lambda>uv. sbind (uv_value uv) (\<lambda>v.
             luaC_barrier p v))) g
         else upd_mark (makewhite (currentwhite g)) p g
       else Ok ((), g)))"

end
