(* ===== verification/LuaString.thy ===== *)
theory LuaString
  imports LuaMark
begin

text \<open>
  The string table and userdata (\<^verbatim>\<open>lstring.c\<close>), closures and upvalues (\<^verbatim>\<open>lfunc.c\<close>) and
  threads (\<^verbatim>\<open>lstate.c\<close>). An operation that allocates has the address the allocator returns
  as its argument \<open>p\<close>.
\<close>

section \<open>Strings\<close>

text \<open>Every bucket is a chain; a string is put at the head of its new chain.\<close>

primrec rehash_chain :: "nat \<Rightarrow> ptr list \<Rightarrow> ptr list list \<Rightarrow> ptr list list gc" where
  "rehash_chain newsize [] new = sret new"
| "rehash_chain newsize (p # ps) new =
     sbind (gco2ts p) (\<lambda>ts.
       let h1 = lmod (hash ts) newsize
       in rehash_chain newsize ps (new[h1 := p # new ! h1]))"

definition luaS_resize :: "nat \<Rightarrow> unit gc" where
  "luaS_resize newsize g =
     (if gcstate g = GCSsweepstring then Ok ((), g)
      else sbind (luaM_malloc (of_nat (8 * newsize))) (\<lambda>_.
           sbind (rehash_chain newsize (concat (strt g)) (replicate newsize [])) (\<lambda>new.
           sbind (luaM_freemem (of_nat (8 * length (strt g)))) (\<lambda>_.
           modify (\<lambda>g. g\<lparr>strt := new\<rparr>)))) g)"

text \<open>The hash of a string: at most 32 of its characters, from the end.\<close>

function hash_loop :: "string \<Rightarrow> nat \<Rightarrow> nat \<Rightarrow> u32 \<Rightarrow> u32" where
  "hash_loop s step l1 h =
     (if 0 < step \<and> step \<le> l1
      then hash_loop s step (l1 - step) (h XOR (push_bit 5 h + drop_bit 2 h + of_char (s ! (l1 - 1))))
      else h)"
  by pat_completeness auto
termination by (relation "measure (\<lambda>(s, step, l1, h). l1)") auto

declare hash_loop.simps [simp del]

definition string_hash :: "string \<Rightarrow> u32" where
  "string_hash s = hash_loop s (length s div 32 + 1) (length s) (of_nat (length s))"

abbreviation MAX_SIZE_T :: int where "MAX_SIZE_T \<equiv> 18446744073709551613"

definition newlstr :: "string \<Rightarrow> u32 \<Rightarrow> ptr \<Rightarrow> ptr gc" where
  "newlstr str h p g0 =
     (if MAX_SIZE_T - int sizeof_TString < int (length str) + 1
      then Err (RunError ''memory allocation error: block too big'')
      else
        let ts = \<lparr>reserved = 0, hash = h, bytes = str\<rparr>
        in sbind (luaM_malloc (sizestring ts)) (\<lambda>_.
           sbind (set_obj p \<lparr>marked = luaC_white (currentwhite g0), body = OString ts\<rparr>) (\<lambda>_ g.
           let h1 = lmod h (length (strt g));
               g1 = g\<lparr>strt := (strt g)[h1 := p # strt g ! h1], strt_nuse := strt_nuse g + 1\<rparr>
           in sbind (if of_nat (length (strt g1)) < strt_nuse g1 \<and> int (length (strt g1)) \<le> MAX_INT div 2
                     then luaS_resize (length (strt g1) * 2) else sret ()) (\<lambda>_. sret p) g1)) g0)"

text \<open>The string of a chain that has the same characters\<close>

primrec find_string :: "string \<Rightarrow> ptr list \<Rightarrow> ptr option gc" where
  "find_string str [] = sret None"
| "find_string str (o' # os) =
     sbind (gco2ts o') (\<lambda>ts. if bytes ts = str then sret (Some o') else find_string str os)"

text \<open>A dead string that is asked for again comes to life.\<close>

definition luaS_newlstr :: "string \<Rightarrow> ptr \<Rightarrow> ptr gc" where
  "luaS_newlstr str p g =
     (let h = string_hash str
      in sbind (find_string str (strt g ! lmod h (length (strt g)))) (\<lambda>r.
           case r of
             Some ts \<Rightarrow> sbind (marked_of ts) (\<lambda>m.
               sbind (if isdead (currentwhite g) m then upd_mark changewhite ts else sret ()) (\<lambda>_. sret ts))
           | None \<Rightarrow> newlstr str h p) g)"

text \<open>A userdata goes behind the main thread in the list of all objects.\<close>

definition insert_after :: "ptr \<Rightarrow> ptr \<Rightarrow> ptr list \<Rightarrow> ptr list" where
  "insert_after q p xs = takeWhile (\<lambda>x. x \<noteq> q) xs @ q # p # tl (dropWhile (\<lambda>x. x \<noteq> q) xs)"

definition luaS_newudata :: "u64 \<Rightarrow> ptr \<Rightarrow> ptr \<Rightarrow> ptr gc" where
  "luaS_newudata s e p g =
     (if MAX_SIZE_T - int sizeof_Udata < uint s
      then Err (RunError ''memory allocation error: block too big'')
      else
        let u = \<lparr>u_metatable = None, u_env = e, u_len = s\<rparr>
        in sbind (luaM_malloc (sizeudata u)) (\<lambda>_.
           sbind (set_obj p \<lparr>marked = luaC_white (currentwhite g), body = OUdata u\<rparr>) (\<lambda>_.
           sbind (modify (\<lambda>g. g\<lparr>rootgc := insert_after (mainthread g) p (rootgc g)\<rparr>)) (\<lambda>_. sret p))) g)"

section \<open>Closures\<close>

definition luaF_newCclosure :: "ptr \<Rightarrow> TValue list \<Rightarrow> ptr \<Rightarrow> ptr \<Rightarrow> ptr gc" where
  "luaF_newCclosure f uvs e p =
     sbind (luaM_malloc (word_of_int (sizeCclosure (length uvs)))) (\<lambda>_.
     sbind (luaC_link p (OClosure (CClosure e f uvs))) (\<lambda>_. sret p))"

definition luaF_newLclosure :: "ptr \<Rightarrow> nat \<Rightarrow> ptr \<Rightarrow> ptr \<Rightarrow> ptr gc" where
  "luaF_newLclosure f nelems e p =
     sbind (luaM_malloc (word_of_int (sizeLclosure nelems))) (\<lambda>_.
     sbind (luaC_link p (OClosure (LClosure e f (replicate nelems None)))) (\<lambda>_. sret p))"

definition luaF_newupval :: "ptr \<Rightarrow> ptr gc" where
  "luaF_newupval p =
     sbind (luaM_malloc (of_nat sizeof_UpVal)) (\<lambda>_. sbind (luaC_link p (OUpVal (Closed VNil))) (\<lambda>_. sret p))"

definition empty_proto :: HProto where
  "empty_proto = \<lparr>h_k = [], h_code = [], h_p = [], h_lineinfo = [], h_locvars = [], h_upvalues = [], h_source = None,
     h_linedefined = 0, h_lastlinedefined = 0, h_nups = 0, h_numparams = 0, h_is_vararg = 0, h_maxstacksize = 0\<rparr>"

definition luaF_newproto :: "ptr \<Rightarrow> ptr gc" where
  "luaF_newproto p =
     sbind (luaM_malloc (of_nat sizeof_Proto)) (\<lambda>_. sbind (luaC_link p (OProto empty_proto)) (\<lambda>_. sret p))"

section \<open>Upvalues\<close>

text \<open>
  The open upvalues of a thread are in the order of the places they point to, the highest first:
  the one for \<open>level\<close>, or else how many come before it.
\<close>

primrec search_level :: "nat \<Rightarrow> ptr list \<Rightarrow> nat \<Rightarrow> (ptr + nat) gc" where
  "search_level level [] n = sret (Inr n)"
| "search_level level (u # us) n =
     sbind (gco2uv u) (\<lambda>uv.
       case uv of
         Closed _ \<Rightarrow> undef
       | Open _ i \<Rightarrow>
           if i < level then sret (Inr n)
           else if i = level then sret (Inl u)
           else search_level level us (n + 1))"

definition luaF_findupval :: "ptr \<Rightarrow> nat \<Rightarrow> ptr \<Rightarrow> ptr gc" where
  "luaF_findupval L level p =
     sbind (gco2th L) (\<lambda>t. sbind (search_level level (L_openupval t) 0) (\<lambda>r g.
       case r of
         Inl u \<Rightarrow> sbind (marked_of u) (\<lambda>m.
           sbind (if isdead (currentwhite g) m then upd_mark changewhite u else sret ()) (\<lambda>_. sret u)) g
       | Inr n \<Rightarrow>
           sbind (luaM_malloc (of_nat sizeof_UpVal)) (\<lambda>_.
           sbind (set_obj p \<lparr>marked = luaC_white (currentwhite g), body = OUpVal (Open L level)\<rparr>) (\<lambda>_.
           sbind (set_body L (OThread (t\<lparr>L_openupval := take n (L_openupval t) @ p # drop n (L_openupval t)\<rparr>))) (\<lambda>_.
           sbind (modify (\<lambda>g. g\<lparr>uvhead := p # uvhead g\<rparr>)) (\<lambda>_. sret p)))) g))"

definition unlinkupval :: "ptr \<Rightarrow> unit gc" where
  "unlinkupval p = modify (\<lambda>g. g\<lparr>uvhead := remove1 p (uvhead g)\<rparr>)"

definition luaF_freeupval :: "ptr \<Rightarrow> unit gc" where
  "luaF_freeupval p =
     sbind (gco2uv p) (\<lambda>uv.
     sbind (case uv of Open _ _ \<Rightarrow> unlinkupval p | Closed _ \<Rightarrow> sret ()) (\<lambda>_.
     release p (of_nat sizeof_UpVal)))"

primrec close_loop :: "ptr \<Rightarrow> nat \<Rightarrow> ptr list \<Rightarrow> unit gc" where
  "close_loop L level [] = sret ()"
| "close_loop L level (u # us) =
     sbind (gco2uv u) (\<lambda>uv.
       case uv of
         Closed _ \<Rightarrow> undef
       | Open th i \<Rightarrow>
           if i < level then sret ()
           else sbind (gco2th L) (\<lambda>t. sbind (set_body L (OThread (t\<lparr>L_openupval := us\<rparr>))) (\<lambda>_.
                sbind (marked_of u) (\<lambda>m.
                sbind (\<lambda>g. if isdead (currentwhite g) m then luaF_freeupval u g
                           else sbind (unlinkupval u) (\<lambda>_. sbind (uv_value uv) (\<lambda>v.
                                sbind (set_body u (OUpVal (Closed v))) (\<lambda>_. luaC_linkupval u))) g) (\<lambda>_.
                close_loop L level us)))))"

definition luaF_close :: "ptr \<Rightarrow> nat \<Rightarrow> unit gc" where
  "luaF_close L level = sbind (gco2th L) (\<lambda>t. close_loop L level (L_openupval t))"

section \<open>Threads\<close>

abbreviation LUA_MINSTACK :: nat where "LUA_MINSTACK \<equiv> 20"

text \<open>A new thread: \<open>preinit_state\<close> and \<open>stack_init\<close>.\<close>

definition new_thread :: "lua_State \<Rightarrow> lua_State" where
  "new_thread t =
     \<lparr>L_status = 0, L_top = 1, L_base = 1, L_ci = 0, L_savedpc = 0,
      L_stack_last = BASIC_STACK_SIZE - 1, L_stack = replicate (BASIC_STACK_SIZE + EXTRA_STACK) VNil,
      L_base_ci = blank_ci\<lparr>ci_base := 1, ci_func := 0, ci_top := 1 + LUA_MINSTACK\<rparr> # replicate (BASIC_CI_SIZE - 1) blank_ci,
      L_nCcalls = 0, L_hookmask = L_hookmask t, L_allowhook = 1, L_basehookcount = L_basehookcount t,
      L_hookcount = L_basehookcount t, L_hook = L_hook t, L_gt = L_gt t, L_env = VNil, L_openupval = [], L_errfunc = 0\<rparr>"

definition luaE_newthread :: "ptr \<Rightarrow> ptr \<Rightarrow> ptr gc" where
  "luaE_newthread L p =
     sbind (gco2th L) (\<lambda>t.
     sbind (luaM_malloc (word_of_int (size_thread (new_thread t)))) (\<lambda>_.
     sbind (luaC_link p (OThread (new_thread t))) (\<lambda>_. sret p)))"

definition luaE_freethread :: "ptr \<Rightarrow> unit gc" where
  "luaE_freethread L1 =
     sbind (luaF_close L1 0) (\<lambda>_. sbind (gco2th L1) (\<lambda>t. release L1 (word_of_int (size_thread t))))"

end
