(* ===== verification/LuaSweep.thy ===== *)
theory LuaSweep
  imports LuaString
begin

text \<open>
  The atomic end of the mark phase, the sweep, the calls of finalizers and the steps of the
  collector (\<^verbatim>\<open>lgc.c\<close>). The call of a Lua function, \<open>luaD_call\<close>, is the argument
  \<open>call\<close>: it has the thread, the place of the function in its stack and the number of results.
\<close>

section \<open>Finalizers\<close>

text \<open>Which of the userdata of a list stay in it; the others are added to \<open>tmudata\<close>.\<close>

primrec separate_loop :: "bool \<Rightarrow> ptr list \<Rightarrow> (ptr list \<times> u64) gc" where
  "separate_loop every [] = sret ([], 0)"
| "separate_loop every (u # us) =
     (let keep = sbind (separate_loop every us) (\<lambda>(ks, m). sret (u # ks, m))
      in sbind (marked_of u) (\<lambda>m.
         if \<not> (iswhite m \<or> every) \<or> isfinalized m then keep
         else sbind (gco2u u) (\<lambda>ud. sbind (gfasttm (u_metatable ud) TM_GC) (\<lambda>tm.
           case tm of
             None \<Rightarrow> sbind (upd_mark markfinalized u) (\<lambda>_. keep)
           | Some _ \<Rightarrow>
               sbind (upd_mark markfinalized u) (\<lambda>_.
               sbind (modify (\<lambda>g. g\<lparr>tmudata := tmudata g @ [u]\<rparr>)) (\<lambda>_.
               sbind (separate_loop every us) (\<lambda>(ks, m). sret (ks, sizeudata ud + m))))))))"

definition before_after :: "ptr \<Rightarrow> ptr list \<Rightarrow> ptr list \<times> ptr list" where
  "before_after q xs = (takeWhile (\<lambda>x. x \<noteq> q) xs @ [q], tl (dropWhile (\<lambda>x. x \<noteq> q) xs))"

definition luaC_separateudata :: "bool \<Rightarrow> u64 gc" where
  "luaC_separateudata every g =
     (let (pre, us) = before_after (mainthread g) (rootgc g)
      in sbind (separate_loop every us) (\<lambda>(ks, m). sbind (modify (\<lambda>g. g\<lparr>rootgc := pre @ ks\<rparr>)) (\<lambda>_. sret m)) g)"

definition marktmu :: "unit gc" where
  "marktmu g =
     for_each (\<lambda>u. sbind (upd_mark (makewhite (currentwhite g)) u) (\<lambda>_. reallymarkobject u)) (tmudata g) g"

section \<open>Weak tables\<close>

definition iscleared :: "TValue \<Rightarrow> bool \<Rightarrow> bool gc" where
  "iscleared v iskey =
     (if \<not> iscollectable v then sret False
      else case v of
        VString s \<Rightarrow> sbind (stringmark s) (\<lambda>_. sret False)
      | _ \<Rightarrow> sbind (marked_of (gcvalue v)) (\<lambda>m.
          sret (iswhite m \<or> (case v of VUserdata _ \<Rightarrow> \<not> iskey \<and> isfinalized m | _ \<Rightarrow> False))))"

text \<open>The places of the array part, and the nodes, from \<open>i - 1\<close> down\<close>

primrec clear_array :: "ptr \<Rightarrow> nat \<Rightarrow> unit gc" where
  "clear_array p 0 = sret ()"
| "clear_array p (Suc i) =
     sbind (gco2h p) (\<lambda>h.
     sbind (iscleared (array h ! i) False) (\<lambda>c.
     sbind (if c then set_table p (h\<lparr>array := (array h)[i := VNil]\<rparr>) else sret ()) (\<lambda>_.
     clear_array p i)))"

primrec clear_nodes :: "ptr \<Rightarrow> nat \<Rightarrow> unit gc" where
  "clear_nodes p 0 = sret ()"
| "clear_nodes p (Suc i) =
     sbind (gco2h p) (\<lambda>h. let n = node h ! i in
     sbind (if ttisnil (i_val n) then sret False
            else sbind (iscleared (i_key n) True) (\<lambda>ck. if ck then sret True else iscleared (i_val n) False)) (\<lambda>c.
     sbind (if c then set_table p (clear_entry h i) else sret ()) (\<lambda>_.
     clear_nodes p i)))"

definition cleartable :: "ptr list \<Rightarrow> unit gc" where
  "cleartable =
     for_each (\<lambda>p. sbind (gco2h p) (\<lambda>h. sbind (marked_of p) (\<lambda>m.
       sbind (if bit m VALUEWEAKBIT then clear_array p (length (array h)) else sret ()) (\<lambda>_.
       clear_nodes p (sizenode h)))))"

section \<open>The mark phase\<close>

definition markmt :: "unit gc" where
  "markmt g = for_each mark_some (g_mt g) g"

definition markroot :: "unit gc" where
  "markroot =
     sbind (modify (\<lambda>g. g\<lparr>gray := [], grayagain := [], weak := []\<rparr>)) (\<lambda>_ g.
     sbind (markobject (mainthread g)) (\<lambda>_.
     sbind (gco2th (mainthread g)) (\<lambda>t.
     sbind (markvalue (L_gt t)) (\<lambda>_.
     sbind (markvalue (l_registry g)) (\<lambda>_.
     sbind markmt (\<lambda>_.
     modify (\<lambda>g. g\<lparr>gcstate := GCSpropagate\<rparr>)))))) g)"

definition remarkupvals :: "unit gc" where
  "remarkupvals g =
     for_each (\<lambda>u. sbind (marked_of u) (\<lambda>m.
       if isgray m then sbind (gco2uv u) (\<lambda>uv. sbind (uv_value uv) markvalue) else sret ())) (uvhead g) g"

section \<open>Sweeping\<close>

definition luaH_free :: "ptr \<Rightarrow> Table \<Rightarrow> unit gc" where
  "luaH_free p h =
     sbind (if isdummy h then sret () else luaM_freemem (of_nat (sizeof_Node * sizenode h))) (\<lambda>_.
     sbind (luaM_freemem (of_nat (sizeof_TValue * length (array h)))) (\<lambda>_.
     release p (of_nat sizeof_Table)))"

definition luaF_freeproto :: "ptr \<Rightarrow> HProto \<Rightarrow> unit gc" where
  "luaF_freeproto p f = release p (word_of_int (size_proto f))"

definition luaF_freeclosure :: "ptr \<Rightarrow> Closure \<Rightarrow> unit gc" where
  "luaF_freeclosure p c = release p (word_of_int (size_closure c))"

definition freeobj :: "ptr \<Rightarrow> unit gc" where
  "freeobj p =
     sbind (get_obj p) (\<lambda>x.
       case body x of
         OProto f \<Rightarrow> luaF_freeproto p f
       | OClosure c \<Rightarrow> luaF_freeclosure p c
       | OUpVal uv \<Rightarrow> luaF_freeupval p
       | OTable h \<Rightarrow> luaH_free p h
       | OThread t \<Rightarrow> luaE_freethread p
       | OString s \<Rightarrow> sbind (modify (\<lambda>g. g\<lparr>strt_nuse := strt_nuse g - 1\<rparr>)) (\<lambda>_. release p (sizestring s))
       | OUdata u \<Rightarrow> release p (sizeudata u))"

definition survives :: "byte \<Rightarrow> byte \<Rightarrow> bool" where
  "survives deadmask m \<longleftrightarrow> (m XOR WHITEBITS) AND deadmask \<noteq> 0"

text \<open>
  \<open>sweepwholelist\<close> on a bucket of the string table or the open upvalues of a thread: what is left
  of the list. No element of such a list is a thread.
\<close>

primrec sweep_chain :: "ptr list \<Rightarrow> ptr list gc" where
  "sweep_chain [] = sret []"
| "sweep_chain (p # ps) =
     sbind (marked_of p) (\<lambda>m g.
       if survives (otherwhite (currentwhite g)) m
       then sbind (upd_mark (makewhite (currentwhite g)) p) (\<lambda>_. sbind (sweep_chain ps) (\<lambda>qs. sret (p # qs))) g
       else sbind (freeobj p) (\<lambda>_. sweep_chain ps) g)"

definition sweep_openupval :: "ptr \<Rightarrow> unit gc" where
  "sweep_openupval p =
     sbind (get_obj p) (\<lambda>x.
       case body x of
         OThread t \<Rightarrow> sbind (sweep_chain (L_openupval t)) (\<lambda>us.
           sbind (gco2th p) (\<lambda>t. set_body p (OThread (t\<lparr>L_openupval := us\<rparr>))))
       | _ \<Rightarrow> sret ())"

definition list_at :: "link \<Rightarrow> ptr list \<Rightarrow> ptr list" where
  "list_at p xs = (case p of Head \<Rightarrow> xs | Next q \<Rightarrow> tl (dropWhile (\<lambda>x. x \<noteq> q) xs))"

text \<open>
  \<open>sweeplist\<close> on the list of all objects. Freeing a thread may link the upvalues it had open into
  the list.
\<close>

primrec sweeplist :: "nat \<Rightarrow> link \<Rightarrow> link gc" where
  "sweeplist 0 p = sret p"
| "sweeplist (Suc count) p = (\<lambda>g.
     case list_at p (rootgc g) of
       [] \<Rightarrow> Ok (p, g)
     | cur # _ \<Rightarrow>
         sbind (sweep_openupval cur) (\<lambda>_.
         sbind (marked_of cur) (\<lambda>m g.
           if survives (otherwhite (currentwhite g)) m
           then sbind (upd_mark (makewhite (currentwhite g)) cur) (\<lambda>_. sweeplist count (Next cur)) g
           else sbind (modify (\<lambda>g. g\<lparr>rootgc := remove1 cur (rootgc g)\<rparr>)) (\<lambda>_.
                sbind (freeobj cur) (\<lambda>_. sweeplist count p)) g)) g)"

abbreviation (input) MINSTRTABSIZE :: nat where "MINSTRTABSIZE \<equiv> 32"

definition checkSizes :: "unit gc" where
  "checkSizes g =
     sbind (if strt_nuse g < of_nat (length (strt g) div 4) \<and> MINSTRTABSIZE * 2 < length (strt g)
            then luaS_resize (length (strt g) div 2) else sret ()) (\<lambda>_.
     modify (\<lambda>g. if 64 < g_buffsize g
                 then g\<lparr>g_buffsize := g_buffsize g div 2, totalbytes := totalbytes g - (g_buffsize g - g_buffsize g div 2)\<rparr>
                 else g)) g"

definition luaC_freeall :: "unit gc" where
  "luaC_freeall =
     sbind (modify (\<lambda>g. g\<lparr>currentwhite := WHITEBITS OR set_bit SFIXEDBIT 0\<rparr>)) (\<lambda>_ g.
     sbind (sweeplist (length (rootgc g)) Head) (\<lambda>_ g.
     for_each (\<lambda>i g. sbind (sweep_chain (strt g ! i)) (\<lambda>qs. modify (\<lambda>g. g\<lparr>strt := (strt g)[i := qs]\<rparr>)) g)
       [0..<length (strt g)] g) g)"

section \<open>Finalization\<close>

text \<open>A finalizer is called with the hooks off and a threshold that no step reaches.\<close>

definition call_finalizer :: "(ptr \<Rightarrow> nat \<Rightarrow> int \<Rightarrow> unit gc) \<Rightarrow> ptr \<Rightarrow> TValue \<Rightarrow> ptr \<Rightarrow> unit gc" where
  "call_finalizer call L tm u =
     sbind (gco2th L) (\<lambda>t.
     sbind (of_state GCthreshold) (\<lambda>oldt.
     sbind (modify (\<lambda>g. g\<lparr>GCthreshold := 2 * totalbytes g\<rparr>)) (\<lambda>_.
       let tp = L_top t
       in if length (L_stack t) < tp + 2 then undef
          else sbind (set_body L (OThread (t\<lparr>L_allowhook := 0, L_stack := (L_stack t)[tp := tm, tp + 1 := VUserdata u],
                                            L_top := tp + 2\<rparr>))) (\<lambda>_.
               sbind (call L tp 0) (\<lambda>_.
               sbind (gco2th L) (\<lambda>t'.
               sbind (set_body L (OThread (t'\<lparr>L_allowhook := L_allowhook t\<rparr>))) (\<lambda>_.
               modify (\<lambda>g. g\<lparr>GCthreshold := oldt\<rparr>))))))))"

definition GCTM :: "(ptr \<Rightarrow> nat \<Rightarrow> int \<Rightarrow> unit gc) \<Rightarrow> ptr \<Rightarrow> unit gc" where
  "GCTM call L g =
     (case tmudata g of
        [] \<Rightarrow> Undef
      | u # us \<Rightarrow>
          sbind (modify (\<lambda>g. g\<lparr>tmudata := us, rootgc := insert_after (mainthread g) u (rootgc g)\<rparr>)) (\<lambda>_.
          sbind (upd_mark (makewhite (currentwhite g)) u) (\<lambda>_.
          sbind (gco2u u) (\<lambda>ud. sbind (gfasttm (u_metatable ud) TM_GC) (\<lambda>tm.
            case tm of None \<Rightarrow> sret () | Some f \<Rightarrow> call_finalizer call L f u)))) g)"

text \<open>\<open>n\<close> bounds the number of finalizers called, which may make more work for themselves.\<close>

primrec luaC_callGCTM :: "nat \<Rightarrow> (ptr \<Rightarrow> nat \<Rightarrow> int \<Rightarrow> unit gc) \<Rightarrow> ptr \<Rightarrow> unit gc" where
  "luaC_callGCTM 0 call L = (\<lambda>g. Diverge)"
| "luaC_callGCTM (Suc n) call L = (\<lambda>g.
     if tmudata g = [] then Ok ((), g) else sbind (GCTM call L) (\<lambda>_. luaC_callGCTM n call L) g)"

section \<open>Steps\<close>

definition atomic :: "ptr \<Rightarrow> unit gc" where
  "atomic L =
     sbind remarkupvals (\<lambda>_.
     sbind propagateall (\<lambda>_.
     sbind (modify (\<lambda>g. g\<lparr>gray := weak g, weak := []\<rparr>)) (\<lambda>_.
     sbind (markobject L) (\<lambda>_.
     sbind markmt (\<lambda>_.
     sbind propagateall (\<lambda>_.
     sbind (modify (\<lambda>g. g\<lparr>gray := grayagain g, grayagain := []\<rparr>)) (\<lambda>_.
     sbind propagateall (\<lambda>_.
     sbind (luaC_separateudata False) (\<lambda>udsize.
     sbind marktmu (\<lambda>_.
     sbind propagateall (\<lambda>m.
     sbind (\<lambda>g. cleartable (weak g) g) (\<lambda>_.
     modify (\<lambda>g. g\<lparr>currentwhite := otherwhite (currentwhite g), sweepstrgc := 0, sweepgc := Head,
       gcstate := GCSsweepstring, estimate := totalbytes g - (udsize + word_of_int m)\<rparr>)))))))))))))"

abbreviation (input) GCSWEEPMAX :: nat where "GCSWEEPMAX \<equiv> 40"
abbreviation (input) GCSWEEPCOST :: int where "GCSWEEPCOST \<equiv> 10"
abbreviation (input) GCFINALIZECOST :: int where "GCFINALIZECOST \<equiv> 100"
abbreviation (input) GCSTEPSIZE :: u64 where "GCSTEPSIZE \<equiv> 1024"

type_synonym caller = "ptr \<Rightarrow> nat \<Rightarrow> int \<Rightarrow> unit gc"

definition singlestep :: "caller \<Rightarrow> ptr \<Rightarrow> int gc" where
  "singlestep call L g =
     (if gcstate g = GCSpause then sbind markroot (\<lambda>_. sret 0) g
      else if gcstate g = GCSpropagate then
        (if gray g \<noteq> [] then propagatemark g else sbind (atomic L) (\<lambda>_. sret 0) g)
      else if gcstate g = GCSsweepstring then
        (let old = totalbytes g; i = sweepstrgc g
         in if length (strt g) \<le> i then Undef
            else sbind (sweep_chain (strt g ! i)) (\<lambda>qs.
                 sbind (modify (\<lambda>g. g\<lparr>strt := (strt g)[i := qs], sweepstrgc := i + 1,
                     gcstate := if length (strt g) \<le> i + 1 then GCSsweep else gcstate g,
                     estimate := estimate g - (old - totalbytes g)\<rparr>)) (\<lambda>_. sret GCSWEEPCOST)) g)
      else if gcstate g = GCSsweep then
        (let old = totalbytes g
         in sbind (sweeplist GCSWEEPMAX (sweepgc g)) (\<lambda>p.
            sbind (modify (\<lambda>g. g\<lparr>sweepgc := p\<rparr>)) (\<lambda>_.
            sbind (\<lambda>g. if list_at p (rootgc g) = []
                       then sbind checkSizes (\<lambda>_. modify (\<lambda>g. g\<lparr>gcstate := GCSfinalize\<rparr>)) g
                       else Ok ((), g)) (\<lambda>_.
            sbind (modify (\<lambda>g. g\<lparr>estimate := estimate g - (old - totalbytes g)\<rparr>)) (\<lambda>_.
            sret (int GCSWEEPMAX * GCSWEEPCOST))))) g)
      else if gcstate g = GCSfinalize then
        (if tmudata g \<noteq> [] then
           sbind (GCTM call L) (\<lambda>_.
           sbind (modify (\<lambda>g. if word_of_int GCFINALIZECOST < estimate g
                              then g\<lparr>estimate := estimate g - word_of_int GCFINALIZECOST\<rparr> else g)) (\<lambda>_.
           sret GCFINALIZECOST)) g
         else Ok (0, g\<lparr>gcstate := GCSpause, gcdept := 0\<rparr>))
      else Undef)"

definition setthreshold :: "unit gc" where
  "setthreshold = modify (\<lambda>g. g\<lparr>GCthreshold := (estimate g div 100) * word_of_int (gcpause g)\<rparr>)"

text \<open>
  The loop of \<open>luaC_step\<close>; \<open>n\<close> bounds the steps, as a finalizer may make work for others.
\<close>

primrec step_loop :: "nat \<Rightarrow> caller \<Rightarrow> ptr \<Rightarrow> int \<Rightarrow> unit gc" where
  "step_loop 0 call L lim = (\<lambda>g. Diverge)"
| "step_loop (Suc n) call L lim =
     sbind (singlestep call L) (\<lambda>c g.
       if gcstate g = GCSpause then Ok ((), g)
       else if 0 < lim - c then step_loop n call L (lim - c) g
       else Ok ((), g))"

definition luaC_step :: "nat \<Rightarrow> caller \<Rightarrow> ptr \<Rightarrow> unit gc" where
  "luaC_step n call L g =
     (let lim0 = uint ((ucast (GCSTEPSIZE div 100) :: u32) * word_of_int (gcstepmul g));
          lim = (if lim0 = 0 then 2 ^ 63 - 2 else lim0)
      in sbind (step_loop n call L lim) (\<lambda>_ g.
           if gcstate g \<noteq> GCSpause then
             if gcdept g < GCSTEPSIZE then Ok ((), g\<lparr>GCthreshold := totalbytes g + GCSTEPSIZE\<rparr>)
             else Ok ((), g\<lparr>gcdept := gcdept g - GCSTEPSIZE, GCthreshold := totalbytes g\<rparr>)
           else setthreshold g) (g\<lparr>gcdept := gcdept g + (totalbytes g - GCthreshold g)\<rparr>))"

primrec steps_until :: "nat \<Rightarrow> caller \<Rightarrow> ptr \<Rightarrow> nat \<Rightarrow> unit gc" where
  "steps_until 0 call L st = (\<lambda>g. Diverge)"
| "steps_until (Suc n) call L st = (\<lambda>g.
     if gcstate g = st then Ok ((), g) else sbind (singlestep call L) (\<lambda>_. steps_until n call L st) g)"

definition luaC_fullgc :: "nat \<Rightarrow> caller \<Rightarrow> ptr \<Rightarrow> unit gc" where
  "luaC_fullgc n call L =
     sbind (modify (\<lambda>g. if gcstate g \<le> GCSpropagate
        then g\<lparr>sweepstrgc := 0, sweepgc := Head, gray := [], grayagain := [], weak := [], gcstate := GCSsweepstring\<rparr>
        else g)) (\<lambda>_.
     sbind (steps_until n call L GCSfinalize) (\<lambda>_.
     sbind markroot (\<lambda>_.
     sbind (steps_until n call L GCSpause) (\<lambda>_.
     setthreshold))))"

end
