(* ===== verification/LuaCheck.thy ===== *)
theory LuaCheck
  imports LuaProto
begin

text \<open>
  The symbolic execution and the code checker of \<^verbatim>\<open>ldebug.c\<close>. A failed \<open>check\<close> makes
  \<open>symbexec\<close> return 0: it is \<open>None\<close> here. Reading outside an array is \<open>Undef\<close>.
\<close>

definition checkreg :: "Proto \<Rightarrow> int \<Rightarrow> bool" where
  "checkreg pt reg \<longleftrightarrow> reg < uint (maxstacksize pt)"

definition precheck :: "Proto \<Rightarrow> bool result" where
  "precheck pt =
     (if \<not> uint (maxstacksize pt) \<le> MAXSTACK then Ok False
      else if \<not> int (length (upvalues pt)) \<le> uint (nups pt) then Ok False
      else if \<not> (length (lineinfo pt) = length (proto_code pt) \<or> lineinfo pt = []) then Ok False
      else rbind (fetch (proto_code pt) (sizecode pt - 1)) (\<lambda>i.
        Ok (GET_OPCODE i = op_num OP_RETURN)))"

definition luaG_checkopenop :: "Instruction \<Rightarrow> bool" where
  "luaG_checkopenop i \<longleftrightarrow>
     GET_OPCODE i \<in> {op_num OP_CALL, op_num OP_TAILCALL, op_num OP_RETURN, op_num OP_SETLIST}
     \<and> GETARG_B i = 0"

definition checkArgMode :: "Proto \<Rightarrow> int \<Rightarrow> OpArgMask \<Rightarrow> bool" where
  "checkArgMode pt r mode =
     (case mode of
        OpArgN \<Rightarrow> r = 0
      | OpArgU \<Rightarrow> True
      | OpArgR \<Rightarrow> checkreg pt r
      | OpArgK \<Rightarrow> if ISK r then INDEXK r < sizek pt else r < uint (maxstacksize pt))"

text \<open>The operands \<open>b\<close> and \<open>c\<close> of the instruction at \<open>pc\<close>.\<close>

definition symb_operands :: "Proto \<Rightarrow> int \<Rightarrow> Instruction \<Rightarrow> OpCode \<Rightarrow> (int \<times> int) option result" where
  "symb_operands pt pc i op =
     (case getOpMode op of
        iABC \<Rightarrow>
          let b = GETARG_B i; c = GETARG_C i
          in Ok (if checkArgMode pt b (getBMode op) \<and> checkArgMode pt c (getCMode op)
                 then Some (b, c) else None)
      | iABx \<Rightarrow>
          let b = GETARG_Bx i
          in Ok (if getBMode op = OpArgK \<and> \<not> b < sizek pt then None else Some (b, 0))
      | iAsBx \<Rightarrow>
          let b = GETARG_sBx i; dest = pc + 1 + b
          in if getBMode op \<noteq> OpArgR then Ok (Some (b, 0))
             else if \<not> (0 \<le> dest \<and> dest < sizecode pt) then Ok None
             else if 0 < dest then
               rbind (fetch (proto_code pt) (dest - 1)) (\<lambda>d.
                 Ok (if GET_OPCODE d = op_num OP_SETLIST \<and> GETARG_C d = 0 then None else Some (b, 0)))
             else Ok (Some (b, 0)))"

text \<open>A test instruction is followed by a jump.\<close>

definition symb_test :: "Proto \<Rightarrow> int \<Rightarrow> OpCode \<Rightarrow> bool result" where
  "symb_test pt pc op =
     (if testTMode op then
        if pc + 2 < sizecode pt then
          rbind (fetch (proto_code pt) (pc + 1)) (\<lambda>d. Ok (GET_OPCODE d = op_num OP_JMP))
        else Ok False
      else Ok True)"

definition check_kstring :: "Proto \<Rightarrow> int \<Rightarrow> bool result" where
  "check_kstring pt b =
     rbind (fetch (proto_k pt) b) (\<lambda>k. Ok (is_string k))"

text \<open>\<open>checkopenop(pt, pc)\<close>: the instruction after an open call.\<close>

definition checkopenop :: "Proto \<Rightarrow> int \<Rightarrow> bool result" where
  "checkopenop pt pc = rbind (fetch (proto_code pt) (pc + 1)) (\<lambda>i. Ok (luaG_checkopenop i))"

text \<open>\<open>for (j = 1; j <= nup; j++)\<close>: the words after a closure.\<close>

fun check_closure_loop :: "Proto \<Rightarrow> int \<Rightarrow> nat \<Rightarrow> bool result" where
  "check_closure_loop pt pc 0 = Ok True"
| "check_closure_loop pt pc (Suc n) =
     rbind (fetch (proto_code pt) (pc + 1)) (\<lambda>d.
       if GET_OPCODE d = op_num OP_GETUPVAL \<or> GET_OPCODE d = op_num OP_MOVE
       then check_closure_loop pt (pc + 1) n else Ok False)"

text \<open>A check that must hold, then the new \<open>pc\<close> (before its increment) and \<open>last\<close>.\<close>

definition guard :: "bool result \<Rightarrow> 'a option result \<Rightarrow> 'a option result" where
  "guard c r = rbind c (\<lambda>ok. if ok then r else Ok None)"

text \<open>The \<open>switch\<close> on the opcode.\<close>

definition symb_switch :: "Proto \<Rightarrow> int \<Rightarrow> int \<Rightarrow> int \<Rightarrow> OpCode \<Rightarrow> int \<Rightarrow> int \<Rightarrow> int \<Rightarrow> int \<Rightarrow>
    (int \<times> int) option result" where
  "symb_switch pt lastpc reg pc op a b c lastc =
     (let ok = (\<lambda>l. Ok (Some (pc, l)));
          jump = (let dest = pc + 1 + b
            in Ok (Some (if reg \<noteq> NO_REG \<and> pc < dest \<and> dest \<le> lastpc then pc + b else pc, lastc)))
      in case op of
        OP_LOADBOOL \<Rightarrow> guard (Ok (c = 0 \<or> pc + 2 < sizecode pt)) (ok lastc)
      | OP_LOADNIL \<Rightarrow> ok (if a \<le> reg \<and> reg \<le> b then pc else lastc)
      | OP_GETUPVAL \<Rightarrow> guard (Ok (b < uint (nups pt))) (ok lastc)
      | OP_SETUPVAL \<Rightarrow> guard (Ok (b < uint (nups pt))) (ok lastc)
      | OP_GETGLOBAL \<Rightarrow> guard (check_kstring pt b) (ok lastc)
      | OP_SETGLOBAL \<Rightarrow> guard (check_kstring pt b) (ok lastc)
      | OP_SELF \<Rightarrow> guard (Ok (checkreg pt (a + 1))) (ok (if reg = a + 1 then pc else lastc))
      | OP_CONCAT \<Rightarrow> guard (Ok (b < c)) (ok lastc)
      | OP_TFORLOOP \<Rightarrow>
          guard (Ok (1 \<le> c \<and> checkreg pt (a + 2 + c))) (ok (if a + 2 \<le> reg then pc else lastc))
      | OP_FORLOOP \<Rightarrow> guard (Ok (checkreg pt (a + 3))) jump
      | OP_FORPREP \<Rightarrow> guard (Ok (checkreg pt (a + 3))) jump
      | OP_JMP \<Rightarrow> jump
      | OP_CLOSURE \<Rightarrow>
          guard (Ok (b < int (length (proto_p pt))))
            (rbind (fetch (proto_p pt) b) (\<lambda>q.
              let nup = unat (nups q)
              in guard (Ok (pc + int nup < sizecode pt))
                (guard (check_closure_loop pt pc nup)
                  (Ok (Some (if reg \<noteq> NO_REG then pc + int nup else pc, lastc))))))
      | OP_RETURN \<Rightarrow>
          guard (Ok (b - 1 > 0 \<longrightarrow> checkreg pt (a + (b - 1) - 1))) (ok lastc)
      | OP_SETLIST \<Rightarrow>
          guard (Ok (b > 0 \<longrightarrow> checkreg pt (a + b))) (Ok (Some (if c = 0 then pc + 1 else pc, lastc)))
      | OP_VARARG \<Rightarrow>
          guard (Ok (is_vararg pt AND VARARG_ISVARARG \<noteq> 0 \<and> is_vararg pt AND VARARG_NEEDSARG = 0))
            (guard (if b - 1 = - 1 then checkopenop pt pc else Ok True)
              (guard (Ok (checkreg pt (a + (b - 1) - 1))) (ok lastc)))
      | _ \<Rightarrow>
          if op = OP_CALL \<or> op = OP_TAILCALL then
            guard (Ok (b \<noteq> 0 \<longrightarrow> checkreg pt (a + b - 1)))
              (guard (if c - 1 = - 1 then checkopenop pt pc
                      else Ok (c - 1 \<noteq> 0 \<longrightarrow> checkreg pt (a + (c - 1) - 1)))
                (ok (if a \<le> reg then pc else lastc)))
          else ok lastc)"

text \<open>One iteration of the loop.\<close>

definition symb_step :: "Proto \<Rightarrow> int \<Rightarrow> int \<Rightarrow> int \<Rightarrow> int \<Rightarrow> (int \<times> int) option result" where
  "symb_step pt lastpc reg pc lastc =
     rbind (fetch (proto_code pt) pc) (\<lambda>i.
       let a = GETARG_A i
       in case op_of (GET_OPCODE i) of
            None \<Rightarrow> Ok None
          | Some op \<Rightarrow>
              if \<not> checkreg pt a then Ok None
              else rbind (symb_operands pt pc i op) (\<lambda>bc.
                case bc of
                  None \<Rightarrow> Ok None
                | Some (b, c) \<Rightarrow>
                    let lastc = (if testAMode op \<and> a = reg then pc else lastc)
                    in guard (symb_test pt pc op) (symb_switch pt lastpc reg pc op a b c lastc)))"

text \<open>Every iteration goes forward, so the loop ends.\<close>

lemma guard_Ok_Some: "guard c r = Ok (Some x) \<longleftrightarrow> c = Ok True \<and> r = Ok (Some x)"
  by (cases c) (auto simp: guard_def)

lemma symb_switch_mono: "symb_switch pt lastpc reg pc op a b c lastc = Ok (Some (pc', lastc')) \<Longrightarrow> pc \<le> pc'"
  by (cases op) (auto simp: symb_switch_def guard_Ok_Some Let_def elim!: rbind_OkE split: if_splits)

lemma symb_step_switch:
  "symb_step pt lastpc reg pc lastc = Ok (Some r) \<longleftrightarrow>
    (\<exists>i op b c. fetch (proto_code pt) pc = Ok i \<and> op_of (GET_OPCODE i) = Some op \<and> checkreg pt (GETARG_A i)
      \<and> symb_operands pt pc i op = Ok (Some (b, c)) \<and> symb_test pt pc op = Ok True
      \<and> symb_switch pt lastpc reg pc op (GETARG_A i) b c (if testAMode op \<and> GETARG_A i = reg then pc else lastc)
          = Ok (Some r))"
  by (auto simp: symb_step_def guard_Ok_Some Let_def elim!: rbind_OkE split: option.splits if_splits)
     (auto simp: guard_Ok_Some)

lemma symb_step_mono: "symb_step pt lastpc reg pc lastc = Ok (Some (pc', lastc')) \<Longrightarrow> pc \<le> pc'"
  unfolding symb_step_switch using symb_switch_mono by blast

function symb_loop :: "Proto \<Rightarrow> int \<Rightarrow> int \<Rightarrow> int \<Rightarrow> int \<Rightarrow> int option result" where
  "symb_loop pt lastpc reg pc lastc =
     (if pc < lastpc then
        rbind (symb_step pt lastpc reg pc lastc) (\<lambda>r.
          case r of
            None \<Rightarrow> Ok None
          | Some (pc', lastc') \<Rightarrow> symb_loop pt lastpc reg (pc' + 1) lastc')
      else Ok (Some lastc))"
  by pat_completeness auto
termination
  by (relation "measure (\<lambda>(pt, lastpc, reg, pc, lastc). nat (lastpc - pc))")
     (auto dest!: symb_step_mono)

declare symb_loop.simps [simp del]

definition symbexec :: "Proto \<Rightarrow> int \<Rightarrow> int \<Rightarrow> Instruction result" where
  "symbexec pt lastpc reg =
     rbind (precheck pt) (\<lambda>ok.
       if \<not> ok then Ok 0
       else rbind (symb_loop pt lastpc reg 0 (sizecode pt - 1)) (\<lambda>r.
         case r of None \<Rightarrow> Ok 0 | Some lastc \<Rightarrow> fetch (proto_code pt) lastc))"

definition luaG_checkcode :: "Proto \<Rightarrow> bool result" where
  "luaG_checkcode pt = rbind (symbexec pt (sizecode pt) NO_REG) (\<lambda>i. Ok (i \<noteq> 0))"

end
