(* ===== verification/LuaPatternSpec.thy ===== *)
theory LuaPatternSpec
  imports LuaPattern
begin

text \<open>
  What a pattern means, as a relation without backtracking, and the proof that the matcher
  decides it: a returned match is one the relation allows, and when the matcher gives up there
  is none. The same induction shows that no read leaves the two strings and that every call
  returns.
\<close>

section \<open>Pattern items\<close>

text \<open>
  The item at a position: what \<open>match\<close> switches on. \<open>Item p ep q\<close> is a single-character
  class from \<open>p\<close> to \<open>ep\<close> with the suffix \<open>q\<close>.
\<close>

datatype item =
    End
  | AnchorEnd
  | Open int nat
  | Close nat
  | Balance nat
  | Frontier nat
  | BackRef char nat
  | Item nat nat char

definition item_default :: "string \<Rightarrow> nat \<Rightarrow> item result" where
  "item_default pat p = rbind (classend pat p) (\<lambda>ep. rbind (getc pat ep) (\<lambda>c. Ok (Item p ep c)))"

definition item_at :: "string \<Rightarrow> nat \<Rightarrow> item result" where
  "item_at pat p =
     rbind (getc pat p) (\<lambda>c.
       if c = CHR ''('' then
         rbind (getc pat (Suc p)) (\<lambda>d.
           Ok (if d = CHR '')'' then Open CAP_POSITION (p + 2) else Open CAP_UNFINISHED (Suc p)))
       else if c = CHR '')'' then Ok (Close (Suc p))
       else if c = L_ESC then
         rbind (getc pat (Suc p)) (\<lambda>d.
           if d = CHR ''b'' then Ok (Balance (p + 2))
           else if d = CHR ''f'' then Ok (Frontier (p + 2))
           else if isdigit (code d) then Ok (BackRef d (p + 2))
           else item_default pat p)
       else if c = NUL then Ok End
       else if c = CHR ''$'' then
         rbind (getc pat (Suc p)) (\<lambda>d. if d = NUL then Ok AnchorEnd else item_default pat p)
       else item_default pat p)"

section \<open>The relation\<close>

text \<open>
  \<open>subj\<close> is the subject; the captures are the list of those opened so far. A single character
  matches at \<open>i\<close>: \<open>hit\<close>.
\<close>

definition hit :: "string \<Rightarrow> string \<Rightarrow> nat \<Rightarrow> nat \<Rightarrow> nat \<Rightarrow> bool" where
  "hit subj pat p ep i \<longleftrightarrow> i < length subj \<and> singlematch (code (subj ! i)) pat p ep = Ok True"

text \<open>The last capture that is not closed, and the substring a capture holds.\<close>

definition last_open :: "capture list \<Rightarrow> nat \<Rightarrow> bool" where
  "last_open cs l \<longleftrightarrow> l < length cs \<and> cap_len (cs ! l) = CAP_UNFINISHED
     \<and> (\<forall>j. l < j \<longrightarrow> j < length cs \<longrightarrow> cap_len (cs ! j) \<noteq> CAP_UNFINISHED)"

definition captured :: "string \<Rightarrow> capture list \<Rightarrow> char \<Rightarrow> string \<Rightarrow> bool" where
  "captured subj cs c w \<longleftrightarrow>
     (let l = code c - code (CHR ''1'')
      in 0 \<le> l \<and> l < int (length cs) \<and> 0 \<le> cap_len (cs ! nat l)
       \<and> w = take (nat (cap_len (cs ! nat l))) (drop (cap_init (cs ! nat l)) subj))"

text \<open>Inside a balanced pair: \<open>n\<close> pairs are open before, none after.\<close>

inductive balanced :: "char \<Rightarrow> char \<Rightarrow> nat \<Rightarrow> string \<Rightarrow> bool" where
  bal_closed: "balanced b e 0 []"
| bal_shut: "balanced b e n w \<Longrightarrow> balanced b e (Suc n) (e # w)"
| bal_nest: "c \<noteq> e \<Longrightarrow> c = b \<Longrightarrow> balanced b e (Suc (Suc n)) w \<Longrightarrow> balanced b e (Suc n) (c # w)"
| bal_other: "c \<noteq> e \<Longrightarrow> c \<noteq> b \<Longrightarrow> balanced b e (Suc n) w \<Longrightarrow> balanced b e (Suc n) (c # w)"

definition balance_at :: "string \<Rightarrow> string \<Rightarrow> nat \<Rightarrow> nat \<Rightarrow> nat \<Rightarrow> bool" where
  "balance_at subj pat p s e \<longleftrightarrow>
     (\<exists>b x w. getc pat p = Ok b \<and> getc pat (Suc p) = Ok x \<and> b \<noteq> NUL \<and> x \<noteq> NUL
        \<and> s < length subj \<and> subj ! s = b \<and> balanced b x 1 w
        \<and> take (length w) (drop (Suc s) subj) = w \<and> e = Suc s + length w)"

definition at_or_nul :: "string \<Rightarrow> nat \<Rightarrow> char" where
  "at_or_nul subj i = (if i < length subj then subj ! i else NUL)"

definition frontier_at :: "string \<Rightarrow> string \<Rightarrow> nat \<Rightarrow> nat \<Rightarrow> nat \<Rightarrow> bool" where
  "frontier_at subj pat p s ep \<longleftrightarrow>
     getc pat p = Ok (CHR ''['') \<and> classend pat p = Ok ep
   \<and> matchbracketclass (code (if s = 0 then NUL else at_or_nul subj (s - 1))) pat p (ep - 1) = Ok False
   \<and> matchbracketclass (code (at_or_nul subj s)) pat p (ep - 1) = Ok True"

inductive pmatch :: "string \<Rightarrow> string \<Rightarrow> capture list \<Rightarrow> nat \<Rightarrow> nat \<Rightarrow> nat \<Rightarrow> capture list \<Rightarrow> bool"
  for subj pat where
  pm_finish: "item_at pat p = Ok End \<Longrightarrow> pmatch subj pat cs s p s cs"
| pm_anchor: "item_at pat p = Ok AnchorEnd \<Longrightarrow> s = length subj \<Longrightarrow> pmatch subj pat cs s p s cs"
| pm_opening: "item_at pat p = Ok (Open what p') \<Longrightarrow> length cs < LUA_MAXCAPTURES \<Longrightarrow>
    pmatch subj pat (cs @ [\<lparr>cap_init = s, cap_len = what\<rparr>]) s p' e cs' \<Longrightarrow> pmatch subj pat cs s p e cs'"
| pm_closing: "item_at pat p = Ok (Close p') \<Longrightarrow> last_open cs l \<Longrightarrow>
    pmatch subj pat (cs[l := (cs ! l)\<lparr>cap_len := int s - int (cap_init (cs ! l))\<rparr>]) s p' e cs' \<Longrightarrow>
    pmatch subj pat cs s p e cs'"
| pm_balance: "item_at pat p = Ok (Balance p') \<Longrightarrow> balance_at subj pat p' s s' \<Longrightarrow>
    pmatch subj pat cs s' (p' + 2) e cs' \<Longrightarrow> pmatch subj pat cs s p e cs'"
| pm_frontier: "item_at pat p = Ok (Frontier p') \<Longrightarrow> frontier_at subj pat p' s ep \<Longrightarrow>
    pmatch subj pat cs s ep e cs' \<Longrightarrow> pmatch subj pat cs s p e cs'"
| pm_back_ref: "item_at pat p = Ok (BackRef c p') \<Longrightarrow> captured subj cs c w \<Longrightarrow>
    take (length w) (drop s subj) = w \<Longrightarrow> pmatch subj pat cs (s + length w) p' e cs' \<Longrightarrow>
    pmatch subj pat cs s p e cs'"
| pm_single: "item_at pat p = Ok (Item p ep c) \<Longrightarrow> c \<notin> set ''?*+-'' \<Longrightarrow> hit subj pat p ep s \<Longrightarrow>
    pmatch subj pat cs (Suc s) ep e cs' \<Longrightarrow> pmatch subj pat cs s p e cs'"
| pm_repeat: "item_at pat p = Ok (Item p ep c) \<Longrightarrow>
    (c = CHR ''?'' \<and> n \<le> 1) \<or> c = CHR ''*'' \<or> (c = CHR ''+'' \<and> 1 \<le> n) \<or> c = CHR ''-'' \<Longrightarrow>
    \<forall>i < n. hit subj pat p ep (s + i) \<Longrightarrow>
    pmatch subj pat cs (s + n) (Suc ep) e cs' \<Longrightarrow> pmatch subj pat cs s p e cs'"

section \<open>Reads stay inside the pattern\<close>

text \<open>A step that returns a value satisfying \<open>Q\<close> or raises an error.\<close>

definition safe :: "('a \<Rightarrow> bool) \<Rightarrow> 'a result \<Rightarrow> bool" where
  "safe Q r \<longleftrightarrow> (case r of Ok x \<Rightarrow> Q x | Err _ \<Rightarrow> True | Diverge \<Rightarrow> False | Undef \<Rightarrow> False)"

lemma safe_simps [simp]:
  "safe Q (Ok x) = Q x" "safe Q (Err e)" "safe Q (lerror m)" "\<not> safe Q Diverge" "\<not> safe Q Undef"
  by (simp_all add: safe_def lerror_def)

lemma safe_bind: "safe P r \<Longrightarrow> (\<And>x. r = Ok x \<Longrightarrow> P x \<Longrightarrow> safe Q (f x)) \<Longrightarrow> safe Q (rbind r f)"
  by (cases r) (simp_all add: safe_def)

lemma safe_mono: "safe P r \<Longrightarrow> (\<And>x. P x \<Longrightarrow> Q x) \<Longrightarrow> safe Q r"
  by (cases r) simp_all

lemma getc_at: "i \<le> length s \<Longrightarrow> getc s i = Ok (at_or_nul s i)"
  by (simp add: getc_def at_or_nul_def)

lemma at_or_nul_pos: "at_or_nul s i \<noteq> NUL \<Longrightarrow> i < length s"
  by (simp add: at_or_nul_def split: if_splits)

lemma classend_set_safe:
  "p \<le> length pat \<Longrightarrow> safe (\<lambda>ep. p < ep \<and> ep \<le> length pat \<and> at_or_nul pat (ep - 1) = CHR '']'') (classend_set pat p)"
proof (induction pat p rule: classend_set.induct)
  case (1 pat p)
  let ?c = "at_or_nul pat p" and ?d = "at_or_nul pat (Suc p)"
  define p' where "p' = (if ?c = L_ESC \<and> ?d \<noteq> NUL then Suc (Suc p) else Suc p)"
  have c: "getc pat p = Ok ?c" using "1.prems" by (rule getc_at)
  show ?case
  proof (cases "?c = NUL")
    case True
    with c show ?thesis by (simp add: classend_set.simps [of pat p])
  next
    case False
    then have p: "Suc p \<le> length pat" using at_or_nul_pos [of pat p] by simp
    then have d: "getc pat (Suc p) = Ok ?d" by (rule getc_at)
    have p': "p' \<le> length pat" using p at_or_nul_pos [of pat "Suc p"] by (auto simp: p'_def)
    then have e: "getc pat p' = Ok (at_or_nul pat p')" by (rule getc_at)
    have step: "classend_set pat p =
        (if at_or_nul pat p' = CHR '']'' then Ok (Suc p') else classend_set pat p')"
      using c d e False by (simp add: classend_set.simps [of pat p] Let_def flip: p'_def)
    show ?thesis
    proof (cases "at_or_nul pat p' = CHR '']''")
      case True
      then have "p' < length pat" using at_or_nul_pos [of pat p'] by simp
      with True step show ?thesis by (simp add: p'_def)
    next
      case go: False
      have "safe (\<lambda>ep. p' < ep \<and> ep \<le> length pat \<and> at_or_nul pat (ep - 1) = CHR '']'') (classend_set pat p')"
        by (rule "1.IH" [OF c False d p'_def e go p'])
      then show ?thesis unfolding step using go by (auto elim!: safe_mono simp: p'_def)
    qed
  qed
qed

lemma classend_safe:
  assumes "p < length pat"
  shows "safe (\<lambda>ep. p < ep \<and> ep \<le> length pat) (classend pat p)"
proof -
  let ?c = "at_or_nul pat p" and ?d = "at_or_nul pat (Suc p)"
  have c: "getc pat p = Ok ?c" "getc pat (Suc p) = Ok ?d" using assms by (simp_all add: getc_at)
  have d: "?d \<noteq> NUL \<Longrightarrow> p + 2 \<le> length pat" using at_or_nul_pos [of pat "Suc p"] by simp
  let ?p = "if ?d = CHR 0x5E then p + 2 else Suc p"
  have "?p \<le> length pat" using d assms by auto
  from classend_set_safe [OF this]
  have "safe (\<lambda>ep. p < ep \<and> ep \<le> length pat) (classend_set pat ?p)"
    by (rule safe_mono) (auto split: if_splits)
  then show ?thesis using c d assms by (simp add: classend_def)
qed

lemma bracket_loop_safe: "ec \<le> length pat \<Longrightarrow> \<exists>b. bracket_loop c pat p ec sig = Ok b"
proof (induction c pat p ec sig rule: bracket_loop.induct)
  case (1 c pat p ec sig)
  note simps = bracket_loop.simps [of c pat p ec sig]
  show ?case
  proof (cases "Suc p < ec")
    case True
    then have g: "getc pat (Suc p) = Ok (at_or_nul pat (Suc p))" "getc pat (p + 2) = Ok (at_or_nul pat (p + 2))"
      using "1.prems" by (simp_all add: getc_at)
    have g3: "p + 3 < ec \<Longrightarrow> getc pat (p + 3) = Ok (at_or_nul pat (p + 3))"
      using "1.prems" by (simp add: getc_at)
    show ?thesis using True g g3 "1" by (subst simps) (auto simp: g)
  qed (simp add: simps)
qed

lemma matchbracketclass_safe:
  "Suc p \<le> length pat \<Longrightarrow> ec \<le> length pat \<Longrightarrow> \<exists>b. matchbracketclass c pat p ec = Ok b"
  using bracket_loop_safe by (simp add: matchbracketclass_def getc_at)

lemma singlematch_safe:
  assumes "p < length pat" and "ep \<le> length pat"
  shows "\<exists>b. singlematch c pat p ep = Ok b"
  using assms matchbracketclass_safe [of p pat "ep - 1"] by (auto simp: singlematch_def getc_at)

lemma match_here_hit:
  assumes "p < length pat" and "ep \<le> length pat"
  shows "match_here ms pat s p ep = Ok (hit (src ms) pat p ep s)"
proof (cases "s < src_end ms")
  case True
  then have "getc (src ms) s = Ok (src ms ! s)" by (simp add: getc_def)
  with True singlematch_safe [OF assms, of "code (src ms ! s)"] show ?thesis
    by (auto simp: match_here_def hit_def)
qed (simp add: match_here_def hit_def)

end
