(* ===== verification/LuaDebugNames.thy ===== *)
theory LuaDebugNames
  imports LuaCheck LuaPatternSpec
begin

text \<open>
  Names for error messages (\<^verbatim>\<open>ldebug.c\<close>): the symbolic execution finds the instruction that
  loaded a register, which tells where the value comes from.
\<close>

section \<open>The instruction that loads a register\<close>

text \<open>The registers an instruction changes, as \<open>symbexec\<close> sees them.\<close>

definition changes :: "Instruction \<Rightarrow> int \<Rightarrow> bool" where
  "changes i reg \<longleftrightarrow> (\<exists>op. op_of (GET_OPCODE i) = Some op \<and>
     (let a = GETARG_A i
      in (testAMode op \<and> a = reg)
       \<or> (op = OP_LOADNIL \<and> a \<le> reg \<and> reg \<le> GETARG_B i)
       \<or> (op = OP_SELF \<and> reg = a + 1)
       \<or> (op = OP_TFORLOOP \<and> a + 2 \<le> reg)
       \<or> (op \<in> {OP_CALL, OP_TAILCALL} \<and> a \<le> reg)))"

lemma switch_changes:
  assumes "symb_switch pt lastpc reg pc op a b c l = Ok (Some (pc', l'))" and "l' \<noteq> l"
  shows "l' = pc \<and> ((op = OP_LOADNIL \<and> a \<le> reg \<and> reg \<le> b) \<or> (op = OP_SELF \<and> reg = a + 1)
    \<or> (op = OP_TFORLOOP \<and> a + 2 \<le> reg) \<or> (op \<in> {OP_CALL, OP_TAILCALL} \<and> a \<le> reg))"
  using assms
  by (cases op) (auto simp: symb_switch_def guard_Ok_Some Let_def elim!: rbind_OkE split: if_splits)

lemma step_changes:
  assumes "symb_step pt lastpc reg pc l = Ok (Some (pc', l'))" and "l' \<noteq> l"
  shows "l' = pc \<and> (\<exists>i. fetch (proto_code pt) pc = Ok i \<and> changes i reg)"
proof -
  from assms(1) obtain i op b c where
    f: "fetch (proto_code pt) pc = Ok i" and op: "op_of (GET_OPCODE i) = Some op"
    and bc: "symb_operands pt pc i op = Ok (Some (b, c))"
    and sw: "symb_switch pt lastpc reg pc op (GETARG_A i) b c
        (if testAMode op \<and> GETARG_A i = reg then pc else l) = Ok (Some (pc', l'))"
    unfolding symb_step_switch by blast
  show ?thesis
  proof (cases "l' = (if testAMode op \<and> GETARG_A i = reg then pc else l)")
    case True
    with assms(2) f op show ?thesis by (auto simp: changes_def Let_def split: if_splits)
  next
    case False
    have b: "op = OP_LOADNIL \<Longrightarrow> b = GETARG_B i"
      using bc by (auto simp: symb_operands_def getOpMode_simps Let_def split: if_splits)
    from switch_changes [OF sw False] f op b show ?thesis unfolding changes_def Let_def by blast
  qed
qed

lemma loop_changes:
  "symb_loop pt lastpc reg pc l = Ok (Some l') \<Longrightarrow>
    l' = l \<or> (pc \<le> l' \<and> l' < lastpc \<and> (\<exists>i. fetch (proto_code pt) l' = Ok i \<and> changes i reg)
      \<and> (\<exists>m r. symb_step pt lastpc reg l' m = Ok (Some r)))"
proof (induction pt lastpc reg pc l rule: symb_loop.induct)
  case (1 pt lastpc reg pc l)
  show ?case
  proof (cases "pc < lastpc")
    case True
    with "1.prems" obtain pc' m where st: "symb_step pt lastpc reg pc l = Ok (Some (pc', m))"
      and go: "symb_loop pt lastpc reg (pc' + 1) m = Ok (Some l')"
      by (subst (asm) symb_loop.simps) (auto elim!: rbind_OkE split: option.splits prod.splits)
    note ih = "1.IH" [OF True st refl refl go]
    show ?thesis
    proof (cases "l' = m")
      case same: True
      show ?thesis
      proof (cases "m = l")
        case False
        from step_changes [OF st this] same True st show ?thesis by blast
      qed (use same in simp)
    next
      case False
      with ih symb_step_mono [OF st] have "pc \<le> l'" by linarith
      with ih False show ?thesis by blast
    qed
  next
    case False
    with "1.prems" show ?thesis by (subst (asm) symb_loop.simps) simp
  qed
qed

text \<open>The instruction returned: the final return, 0, or one that changes the register.\<close>

lemma symbexec_changes:
  assumes "symbexec pt lastpc reg = Ok i"
  shows "i = 0 \<or> GET_OPCODE i = op_num OP_RETURN \<or> (changes i reg \<and>
    (\<exists>l m r. 0 \<le> l \<and> fetch (proto_code pt) l = Ok i \<and> symb_step pt lastpc reg l m = Ok (Some r)))"
proof -
  from assms obtain ok where ok: "precheck pt = Ok ok"
    and r: "(if \<not> ok then Ok 0
       else rbind (symb_loop pt lastpc reg 0 (sizecode pt - 1)) (\<lambda>r.
         case r of None \<Rightarrow> Ok 0 | Some l \<Rightarrow> fetch (proto_code pt) l)) = Ok i"
    unfolding symbexec_def by (rule rbind_OkE)
  show ?thesis
  proof (cases ok)
    case True
    from r True obtain x where x: "symb_loop pt lastpc reg 0 (sizecode pt - 1) = Ok x"
      and i: "(case x of None \<Rightarrow> Ok 0 | Some l \<Rightarrow> fetch (proto_code pt) l) = Ok i"
      by (auto elim: rbind_OkE)
    show ?thesis
    proof (cases x)
      case (Some l)
      with i have f: "fetch (proto_code pt) l = Ok i" by simp
      from ok True have ret: "fetch (proto_code pt) (sizecode pt - 1) = Ok j \<Longrightarrow> GET_OPCODE j = op_num OP_RETURN" for j
        by (auto simp: precheck_def split: if_splits elim!: rbind_OkE)
      from loop_changes [of pt lastpc reg 0 "sizecode pt - 1" l] x Some f ret show ?thesis by auto
    qed (use i in simp)
  qed (use r in simp)
qed

section \<open>Local variables\<close>

text \<open>The loop over the variables; their order is that of their scopes' starts.\<close>

fun getlocal_loop :: "LocVar list \<Rightarrow> int \<Rightarrow> int \<Rightarrow> string option result" where
  "getlocal_loop [] n pc = Ok None"
| "getlocal_loop (v # vs) n pc =
     (if startpc v \<le> pc then
        if pc < endpc v then
          if n - 1 = 0 then (case varname v of None \<Rightarrow> Undef | Some s \<Rightarrow> Ok (Some s))
          else getlocal_loop vs (n - 1) pc
        else getlocal_loop vs n pc
      else Ok None)"

definition luaF_getlocalname :: "Proto \<Rightarrow> int \<Rightarrow> int \<Rightarrow> string option result" where
  "luaF_getlocalname f local_number pc = getlocal_loop (locvars f) local_number pc"

section \<open>Names of values\<close>

definition kname :: "Proto \<Rightarrow> int \<Rightarrow> string result" where
  "kname p c =
     (if ISK c then
        rbind (fetch (proto_k p) (INDEXK c)) (\<lambda>k. case k of KString s \<Rightarrow> Ok s | KNullString \<Rightarrow> Undef | _ \<Rightarrow> Ok ''?'')
      else Ok ''?'')"

text \<open>\<open>p->upvalues\<close> is null when there are no names.\<close>

definition upname :: "Proto \<Rightarrow> int \<Rightarrow> string result" where
  "upname p u =
     (if upvalues p = [] then Ok ''?''
      else rbind (fetch (upvalues p) u) (\<lambda>s. case s of None \<Rightarrow> Undef | Some s \<Rightarrow> Ok s))"

text \<open>A move that is followed leads to a lower register.\<close>

lemma move_source:
  assumes "symbexec p pc reg = Ok i" and "op_of (GET_OPCODE i) = Some OP_MOVE" and "GETARG_B i < GETARG_A i"
  shows "0 \<le> GETARG_B i \<and> GETARG_B i < reg"
proof -
  have "i \<noteq> 0"
  proof
    assume "i = 0"
    moreover have "GETARG_A 0 = 0" by code_simp
    ultimately show False using assms(3) field_bounds(5) [of 0] by simp
  qed
  moreover have "GET_OPCODE i = op_num OP_MOVE" using assms(2) by (simp add: op_of_Some)
  ultimately have "changes i reg" using symbexec_changes [OF assms(1)] by auto
  with assms(2) have "GETARG_A i = reg" by (auto simp: changes_def Let_def)
  with assms(3) field_bounds(5) [of i] show ?thesis by simp
qed

text \<open>
  The kind and the name of the value in register \<open>stackpos\<close> of a Lua function that is about to
  run \<open>pc\<close>.
\<close>

function getobjname :: "Proto \<Rightarrow> int \<Rightarrow> int \<Rightarrow> (string \<times> string) option result" where
  "getobjname p pc stackpos =
     rbind (luaF_getlocalname p (stackpos + 1) pc) (\<lambda>name.
       case name of
         Some s \<Rightarrow> Ok (Some (''local'', s))
       | None \<Rightarrow> rbind (symbexec p pc stackpos) (\<lambda>i.
           case op_of (GET_OPCODE i) of
             Some OP_GETGLOBAL \<Rightarrow>
               rbind (fetch (proto_k p) (GETARG_Bx i)) (\<lambda>k.
                 case k of KString s \<Rightarrow> Ok (Some (''global'', s)) | _ \<Rightarrow> Undef)
           | Some OP_MOVE \<Rightarrow>
               if GETARG_B i < GETARG_A i then getobjname p pc (GETARG_B i) else Ok None
           | Some OP_GETTABLE \<Rightarrow> rbind (kname p (GETARG_C i)) (\<lambda>s. Ok (Some (''field'', s)))
           | Some OP_GETUPVAL \<Rightarrow> rbind (upname p (GETARG_B i)) (\<lambda>s. Ok (Some (''upvalue'', s)))
           | Some OP_SELF \<Rightarrow> rbind (kname p (GETARG_C i)) (\<lambda>s. Ok (Some (''method'', s)))
           | _ \<Rightarrow> Ok None))"
  by pat_completeness auto
termination
  by (relation "measure (\<lambda>(p, pc, stackpos). nat stackpos)") (auto dest: move_source)

declare getobjname.simps [simp del]

end
