(* ===== verification/LuaDo.thy ===== *)
theory LuaDo
  imports LuaSweep LuaDebugNames LuaFormat LuaArith
begin

text \<open>
  Calls, errors and the stack: \<^verbatim>\<open>ldo.c\<close>, with the functions of \<^verbatim>\<open>ldebug.c\<close> that raise
  errors. A step of the machine runs on the heap of the collector. An error leaves the state as the
  code has it when it throws, with the message on the stack, so that a protected call goes on from
  there. Pointers into the stack and the array of calls are indices, so they stay valid when these
  move; the fields \<open>stacksize\<close> and \<open>size_ci\<close> are the lengths of the lists.
\<close>

section \<open>Steps of the machine\<close>

text \<open>
  \<open>Throw\<close> is \<open>luaD_throw\<close> with a status; \<open>Loop\<close> a run longer than the fuel; \<open>Wild\<close> a step that
  is undefined.
\<close>

datatype 'a outcome =
    Return 'a global_State
  | Throw int global_State
  | Loop
  | Wild

type_synonym 'a vm = "global_State \<Rightarrow> 'a outcome"

definition ret :: "'a \<Rightarrow> 'a vm" where
  "ret x g = Return x g"

definition bnd :: "'a vm \<Rightarrow> ('a \<Rightarrow> 'b vm) \<Rightarrow> 'b vm" where
  "bnd m f g =
     (case m g of Return x g' \<Rightarrow> f x g' | Throw s g' \<Rightarrow> Throw s g' | Loop \<Rightarrow> Loop | Wild \<Rightarrow> Wild)"

definition luaD_throw :: "int \<Rightarrow> 'a vm" where
  "luaD_throw status g = Throw status g"

definition wild :: "'a vm" where
  "wild g = Wild"

definition with_state :: "(global_State \<Rightarrow> 'a) \<Rightarrow> 'a vm" where
  "with_state f g = Return (f g) g"

lemma bnd_ret [simp]: "bnd (ret x) f = f x"
  by (simp add: bnd_def ret_def fun_eq_iff)

lemma bnd_Return: "m g = Return x g' \<Longrightarrow> bnd m f g = f x g'"
  by (simp add: bnd_def)

lemma bnd_ReturnE:
  assumes "bnd m f g = Return y g2"
  obtains x g1 where "m g = Return x g1" and "f x g1 = Return y g2"
  using assms by (auto simp: bnd_def split: outcome.splits)

lemma ret_Return [simp]: "ret x g = Return y g' \<longleftrightarrow> y = x \<and> g' = g"
  by (auto simp: ret_def)

abbreviation (input) LUA_ERRRUN :: int where "LUA_ERRRUN \<equiv> 2"
abbreviation (input) LUA_ERRSYNTAX :: int where "LUA_ERRSYNTAX \<equiv> 3"
abbreviation (input) LUA_ERRMEM :: int where "LUA_ERRMEM \<equiv> 4"
abbreviation (input) LUA_ERRERR :: int where "LUA_ERRERR \<equiv> 5"
abbreviation (input) LUA_MULTRET :: int where "LUA_MULTRET \<equiv> - 1"

text \<open>
  What the machine is given: the address the allocator returns in a state, the C functions and
  hooks, by their address, and the functions of the C library it calls. \<open>call\<close> is
  \<open>luaD_call\<close>, which the theory of the machine ties to these definitions. A cycle of the
  collector takes at most \<open>gc_bound\<close> steps per call.
\<close>

record env =
  alloc :: "global_State \<Rightarrow> ptr"
  cfun :: "(ptr \<Rightarrow> nat \<Rightarrow> int \<Rightarrow> unit vm) \<Rightarrow> ptr \<Rightarrow> ptr \<Rightarrow> int vm"
  hook_fun :: "ptr \<Rightarrow> ptr \<Rightarrow> int \<Rightarrow> int \<Rightarrow> nat \<Rightarrow> unit vm"
  call :: "ptr \<Rightarrow> nat \<Rightarrow> int \<Rightarrow> unit vm"
  number2str :: "lua_Number \<Rightarrow> string"
  coll :: "string \<Rightarrow> string \<Rightarrow> int"
  num_pow :: "lua_Number \<Rightarrow> lua_Number \<Rightarrow> lua_Number"
  gc_bound :: nat

text \<open>An operation of the collector or a table that does not raise errors.\<close>

definition lift0 :: "'a gc \<Rightarrow> 'a vm" where
  "lift0 m g =
     (case m g of Ok (x, g') \<Rightarrow> Return x g' | Err _ \<Rightarrow> Throw LUA_ERRMEM g | Diverge \<Rightarrow> Loop | Undef \<Rightarrow> Wild)"

section \<open>The thread\<close>

definition thread :: "ptr \<Rightarrow> lua_State vm" where
  "thread L = lift0 (gco2th L)"

definition upd_thread :: "ptr \<Rightarrow> (lua_State \<Rightarrow> lua_State) \<Rightarrow> unit vm" where
  "upd_thread L f = bnd (thread L) (\<lambda>t. lift0 (set_body L (OThread (f t))))"

definition upd_ci :: "ptr \<Rightarrow> nat \<Rightarrow> (CallInfo \<Rightarrow> CallInfo) \<Rightarrow> unit vm" where
  "upd_ci L i f =
     bnd (thread L) (\<lambda>t.
       if i < length (L_base_ci t)
       then upd_thread L (\<lambda>t. t\<lparr>L_base_ci := (L_base_ci t)[i := f (L_base_ci t ! i)]\<rparr>) else wild)"

definition get_ci :: "ptr \<Rightarrow> nat \<Rightarrow> CallInfo vm" where
  "get_ci L i = bnd (thread L) (\<lambda>t. if i < length (L_base_ci t) then ret (L_base_ci t ! i) else wild)"

definition cur_ci :: "ptr \<Rightarrow> CallInfo vm" where
  "cur_ci L = bnd (thread L) (\<lambda>t. get_ci L (L_ci t))"

definition sget :: "ptr \<Rightarrow> nat \<Rightarrow> TValue vm" where
  "sget L i = bnd (thread L) (\<lambda>t. if i < length (L_stack t) then ret (L_stack t ! i) else wild)"

definition sset :: "ptr \<Rightarrow> nat \<Rightarrow> TValue \<Rightarrow> unit vm" where
  "sset L i v =
     bnd (thread L) (\<lambda>t.
       if i < length (L_stack t) then upd_thread L (\<lambda>t. t\<lparr>L_stack := (L_stack t)[i := v]\<rparr>) else wild)"

definition set_top :: "ptr \<Rightarrow> nat \<Rightarrow> unit vm" where
  "set_top L n = upd_thread L (\<lambda>t. t\<lparr>L_top := n\<rparr>)"

definition get_top :: "ptr \<Rightarrow> nat vm" where
  "get_top L = bnd (thread L) (\<lambda>t. ret (L_top t))"

text \<open>\<open>for (st = from; st < to; st++) setnilvalue(st)\<close>\<close>

primrec fill_nil :: "ptr \<Rightarrow> nat \<Rightarrow> nat \<Rightarrow> unit vm" where
  "fill_nil L start 0 = ret ()"
| "fill_nil L start (Suc n) = bnd (sset L start VNil) (\<lambda>_. fill_nil L (Suc start) n)"

definition gco2cl :: "ptr \<Rightarrow> Closure gc" where
  "gco2cl p = sbind (get_obj p) (\<lambda>x g. case body x of OClosure c \<Rightarrow> Ok (c, g) | _ \<Rightarrow> Undef)"

definition gco2p :: "ptr \<Rightarrow> HProto gc" where
  "gco2p p = sbind (get_obj p) (\<lambda>x g. case body x of OProto f \<Rightarrow> Ok (f, g) | _ \<Rightarrow> Undef)"

definition luaD_growstack :: "ptr \<Rightarrow> nat \<Rightarrow> unit vm" where
  "luaD_growstack L n =
     bnd (thread L) (\<lambda>t.
       lift0 (luaD_reallocstack L
         (if n \<le> length (L_stack t) then 2 * length (L_stack t) else length (L_stack t) + n)))"

definition luaD_checkstack :: "ptr \<Rightarrow> nat \<Rightarrow> unit vm" where
  "luaD_checkstack L n =
     bnd (thread L) (\<lambda>t. if int (L_stack_last t) - int (L_top t) \<le> int n then luaD_growstack L n else ret ())"

definition incr_top :: "ptr \<Rightarrow> unit vm" where
  "incr_top L = bnd (luaD_checkstack L 1) (\<lambda>_. upd_thread L (\<lambda>t. t\<lparr>L_top := L_top t + 1\<rparr>))"

text \<open>\<open>luaS_new\<close> and a push\<close>

definition new_string :: "env \<Rightarrow> string \<Rightarrow> ptr vm" where
  "new_string E s = lift0 (\<lambda>g. luaS_newlstr s (alloc E g) g)"

definition push_string :: "env \<Rightarrow> ptr \<Rightarrow> string \<Rightarrow> unit vm" where
  "push_string E L s =
     bnd (new_string E s) (\<lambda>p. bnd (get_top L) (\<lambda>n. bnd (sset L n (VString p)) (\<lambda>_. incr_top L)))"

section \<open>Errors\<close>

text \<open>\<open>getluaproto\<close>: the prototype of the Lua function of a call.\<close>

definition getluaproto :: "ptr \<Rightarrow> nat \<Rightarrow> HProto option vm" where
  "getluaproto L i =
     bnd (get_ci L i) (\<lambda>ci. bnd (sget L (ci_func ci)) (\<lambda>v.
       case v of
         VFunction p \<Rightarrow> bnd (lift0 (gco2cl p)) (\<lambda>c.
           case c of CClosure _ _ _ \<Rightarrow> ret None | LClosure _ f _ \<Rightarrow> bnd (lift0 (gco2p f)) (\<lambda>f. ret (Some f)))
       | _ \<Rightarrow> ret None))"

definition currentpc :: "ptr \<Rightarrow> nat \<Rightarrow> int vm" where
  "currentpc L i =
     bnd (getluaproto L i) (\<lambda>f.
       case f of
         None \<Rightarrow> ret (- 1)
       | Some _ \<Rightarrow> bnd (thread L) (\<lambda>t.
           bnd (if i = L_ci t then upd_ci L i (\<lambda>ci. ci\<lparr>ci_savedpc := L_savedpc t\<rparr>) else ret ()) (\<lambda>_.
           bnd (get_ci L i) (\<lambda>ci. ret (int (ci_savedpc ci) - 1)))))"

definition getline :: "HProto \<Rightarrow> int \<Rightarrow> int vm" where
  "getline f pc =
     (if h_lineinfo f = [] then ret 0
      else if 0 \<le> pc \<and> pc < int (length (h_lineinfo f)) then ret (h_lineinfo f ! nat pc) else wild)"

definition currentline :: "ptr \<Rightarrow> nat \<Rightarrow> int vm" where
  "currentline L i =
     bnd (currentpc L i) (\<lambda>pc.
       if pc < 0 then ret (- 1)
       else bnd (getluaproto L i) (\<lambda>f. case f of Some f \<Rightarrow> getline f pc | None \<Rightarrow> wild))"

text \<open>The characters of a string object\<close>

definition string_of :: "ptr \<Rightarrow> string vm" where
  "string_of p = bnd (lift0 (gco2ts p)) (\<lambda>s. ret (bytes s))"

definition addinfo :: "env \<Rightarrow> ptr \<Rightarrow> string \<Rightarrow> unit vm" where
  "addinfo E L msg =
     bnd (thread L) (\<lambda>t. bnd (getluaproto L (L_ci t)) (\<lambda>f.
       case f of
         None \<Rightarrow> ret ()
       | Some f \<Rightarrow> bnd (currentline L (L_ci t)) (\<lambda>line.
           case h_source f of
             None \<Rightarrow> wild
           | Some s \<Rightarrow> bnd (string_of s) (\<lambda>src.
               push_string E L (luaO_chunkid (cstr src) 60 @ '':'' @ decimal line @ '': '' @ cstr msg)))))"

definition luaG_errormsg :: "env \<Rightarrow> ptr \<Rightarrow> 'a vm" where
  "luaG_errormsg E L =
     bnd (thread L) (\<lambda>t.
     bnd (if L_errfunc t = 0 then ret ()
          else bnd (sget L (L_errfunc t)) (\<lambda>h.
            if ttype h \<noteq> 6 then luaD_throw LUA_ERRERR
            else if L_top t = 0 then wild
            else bnd (sget L (L_top t - 1)) (\<lambda>m. bnd (sset L (L_top t) m) (\<lambda>_.
                 bnd (sset L (L_top t - 1) h) (\<lambda>_. bnd (incr_top L) (\<lambda>_.
                 call E L (L_top t - 1) 1)))))) (\<lambda>_.
     luaD_throw LUA_ERRRUN))"

definition luaG_runerror :: "env \<Rightarrow> ptr \<Rightarrow> string \<Rightarrow> 'a vm" where
  "luaG_runerror E L msg =
     bnd (push_string E L msg) (\<lambda>_. bnd (addinfo E L msg) (\<lambda>_. luaG_errormsg E L))"

text \<open>An operation whose errors are raised with \<open>luaG_runerror\<close>\<close>

definition lift :: "env \<Rightarrow> ptr \<Rightarrow> 'a gc \<Rightarrow> 'a vm" where
  "lift E L m g =
     (case m g of
        Ok (x, g') \<Rightarrow> Return x g'
      | Err (RunError s) \<Rightarrow> luaG_runerror E L s g
      | Err _ \<Rightarrow> Throw LUA_ERRSYNTAX g
      | Diverge \<Rightarrow> Loop
      | Undef \<Rightarrow> Wild)"

definition luaT_typenames :: "string list" where
  "luaT_typenames =
    [''nil'', ''boolean'', ''userdata'', ''number'', ''string'', ''table'', ''function'', ''userdata'',
     ''thread'', ''proto'', ''upval'']"

definition typename :: "TValue \<Rightarrow> string" where
  "typename v = (if ttype v < 11 then luaT_typenames ! ttype v else [])"

text \<open>
  The prototype with the characters of its strings in place of their addresses, for the search of
  names; of the functions inside it the search reads the number of upvalues.
\<close>

definition name_at :: "global_State \<Rightarrow> ptr \<Rightarrow> string" where
  "name_at g p = (case heap g p of Some x \<Rightarrow> (case body x of OString s \<Rightarrow> cstr (bytes s) | _ \<Rightarrow> []) | None \<Rightarrow> [])"

definition constant_of :: "global_State \<Rightarrow> TValue \<Rightarrow> konstant" where
  "constant_of g v =
     (case v of VNumber n \<Rightarrow> KNumber n | VBoolean b \<Rightarrow> KBoolean b | VString p \<Rightarrow> KString (name_at g p) | _ \<Rightarrow> KNil)"

definition inner_proto :: "global_State \<Rightarrow> ptr option \<Rightarrow> Proto" where
  "inner_proto g p =
     Proto [] [] [] [] [] [] None 0 0
       (case p of None \<Rightarrow> 0 | Some p \<Rightarrow>
         (case heap g p of Some x \<Rightarrow> (case body x of OProto f \<Rightarrow> h_nups f | _ \<Rightarrow> 0) | None \<Rightarrow> 0)) 0 0 0"

definition named_proto :: "global_State \<Rightarrow> HProto \<Rightarrow> Proto" where
  "named_proto g f =
     Proto (map (constant_of g) (h_k f)) (h_code f) (map (inner_proto g) (h_p f)) (h_lineinfo f)
       (map (\<lambda>(n, s, e). \<lparr>varname = map_option (name_at g) n, startpc = s, endpc = e\<rparr>) (h_locvars f))
       (map (map_option (name_at g)) (h_upvalues f)) (map_option (name_at g) (h_source f))
       (h_linedefined f) (h_lastlinedefined f) (h_nups f) (h_numparams f) (h_is_vararg f) (h_maxstacksize f)"

text \<open>An operand: its value, and its place when it is in the stack.\<close>

type_synonym operand = "TValue \<times> nat option"

definition luaG_typeerror :: "env \<Rightarrow> ptr \<Rightarrow> operand \<Rightarrow> string \<Rightarrow> 'a vm" where
  "luaG_typeerror E L o' op =
     bnd (thread L) (\<lambda>t. bnd (cur_ci L) (\<lambda>ci.
     bnd (case snd o' of
            None \<Rightarrow> ret None
          | Some i \<Rightarrow>
              if ci_base ci \<le> i \<and> i < ci_top ci then
                bnd (getluaproto L (L_ci t)) (\<lambda>f.
                  case f of
                    None \<Rightarrow> ret None
                  | Some f \<Rightarrow> bnd (currentpc L (L_ci t)) (\<lambda>pc.
                      lift0 (\<lambda>g. rbind (getobjname (named_proto g f) pc (int i - int (L_base t))) (\<lambda>r. Ok (r, g)))))
              else ret None) (\<lambda>n.
       case n of
         Some (kind, name) \<Rightarrow>
           luaG_runerror E L (''attempt to '' @ op @ '' '' @ kind @ '' '' @ LUA_QL name
             @ '' (a '' @ typename (fst o') @ '' value)'')
       | None \<Rightarrow> luaG_runerror E L (''attempt to '' @ op @ '' a '' @ typename (fst o') @ '' value''))))"

definition luaG_ordererror :: "env \<Rightarrow> ptr \<Rightarrow> TValue \<Rightarrow> TValue \<Rightarrow> 'a vm" where
  "luaG_ordererror E L p1 p2 =
     (let t1 = typename p1; t2 = typename p2
      in if t1 ! 2 = t2 ! 2 then luaG_runerror E L (''attempt to compare two '' @ t1 @ '' values'')
         else luaG_runerror E L (''attempt to compare '' @ t1 @ '' with '' @ t2))"

section \<open>The collector and tables\<close>

text \<open>\<open>luaC_checkGC\<close>. An error of a finalizer is raised again under a message of its own.\<close>

definition as_gc :: "'a vm \<Rightarrow> 'a gc" where
  "as_gc m g =
     (case m g of
        Return x g' \<Rightarrow> Ok (x, g')
      | Throw _ _ \<Rightarrow> Err (RunError ''error in finalizer'')
      | Loop \<Rightarrow> Diverge
      | Wild \<Rightarrow> Undef)"

definition luaC_checkGC :: "env \<Rightarrow> ptr \<Rightarrow> unit vm" where
  "luaC_checkGC E L g =
     (if GCthreshold g \<le> totalbytes g
      then lift E L (luaC_step (gc_bound E) (\<lambda>L f n. as_gc (call E L f n)) L) g else Return () g)"

definition heap_getstr :: "ptr \<Rightarrow> ptr \<Rightarrow> TValue gc" where
  "heap_getstr p key =
     sbind (gco2h p) (\<lambda>h g. rbind (luaH_getstr (str_hash g) h key) (\<lambda>r. Ok (deref h r, g)))"

definition heap_get :: "ptr \<Rightarrow> TValue \<Rightarrow> TValue gc" where
  "heap_get p key =
     sbind (gco2h p) (\<lambda>h g. rbind (luaH_get (str_hash g) h key) (\<lambda>r. Ok (deref h r, g)))"

text \<open>A table that has grown or shrunk; the count of bytes follows.\<close>

definition put_table :: "ptr \<Rightarrow> Table \<Rightarrow> Table \<Rightarrow> unit gc" where
  "put_table p old new =
     sbind (set_table p new) (\<lambda>_. luaM_malloc (word_of_int (size_table new - size_table old)))"

text \<open>
  The barrier with which \<open>newkey\<close> ends. A table that has no room is rehashed first, and \<open>resize\<close> puts
  the keys of its entries in again with \<open>newkey\<close>; the barrier for a number that goes to the
  array, or comes from it, has no effect.
\<close>

definition reinserted :: "Node list \<Rightarrow> TValue list" where
  "reinserted ns = map i_key (filter (\<lambda>n. \<not> ttisnil (i_val n)) (rev ns))"

definition newkey_keys :: "strhash \<Rightarrow> Table \<Rightarrow> TValue \<Rightarrow> TValue list" where
  "newkey_keys H t key =
     (let mp = node t ! mainposition H (lsizenode t) key
      in if (\<not> ttisnil (i_val mp) \<or> isdummy t) \<and> snd (getfreepos t) = None
         then reinserted (node t) @ [key] else [key])"

text \<open>What is done after a set function of \<^verbatim>\<open>ltable.c\<close> that found the slot \<open>pos\<close>, or none, for \<open>key\<close>\<close>

definition finish_set :: "ptr \<Rightarrow> Table \<Rightarrow> slot option \<Rightarrow> TValue \<Rightarrow> slot \<times> Table \<Rightarrow> slot gc" where
  "finish_set p h pos key r =
     (case r of (s, h') \<Rightarrow>
        sbind (put_table p h h') (\<lambda>_ g.
        sbind (case pos of
                 Some _ \<Rightarrow> sret ()
               | None \<Rightarrow> for_each (luaC_barriert p) (newkey_keys (str_hash g) h key)) (\<lambda>_.
        sret s) g))"

definition heap_set :: "ptr \<Rightarrow> TValue \<Rightarrow> slot gc" where
  "heap_set p key =
     sbind (gco2h p) (\<lambda>h g. rbind (luaH_get (str_hash g) h key) (\<lambda>pos.
       rbind (luaH_set (str_hash g) h key) (\<lambda>r. finish_set p h pos key r g)))"

definition heap_setnum :: "ptr \<Rightarrow> int \<Rightarrow> slot gc" where
  "heap_setnum p n =
     sbind (gco2h p) (\<lambda>h g. rbind (luaH_getnum h n) (\<lambda>pos.
       rbind (luaH_setnum (str_hash g) h n) (\<lambda>r. finish_set p h pos (VNumber (cast_num n)) r g)))"

definition heap_setstr :: "ptr \<Rightarrow> ptr \<Rightarrow> slot gc" where
  "heap_setstr p key =
     sbind (gco2h p) (\<lambda>h g. rbind (luaH_getstr (str_hash g) h key) (\<lambda>pos.
       rbind (luaH_setstr (str_hash g) h key) (\<lambda>r. finish_set p h pos (VString key) r g)))"

text \<open>A store through the pointer that a set function returned\<close>

definition store_slot :: "ptr \<Rightarrow> slot \<Rightarrow> TValue \<Rightarrow> unit gc" where
  "store_slot p s v = sbind (gco2h p) (\<lambda>h. set_table p (set_slot h s v))"

definition new_table :: "env \<Rightarrow> ptr \<Rightarrow> nat \<Rightarrow> nat \<Rightarrow> ptr vm" where
  "new_table E L narray nhash =
     lift E L (\<lambda>g. rbind (luaH_new narray nhash) (\<lambda>h.
       let p = alloc E g
       in sbind (luaM_malloc (word_of_int (size_table h))) (\<lambda>_. sbind (luaC_link p (OTable h)) (\<lambda>_. sret p)) g))"

text \<open>\<open>luaT_gettmbyobj\<close>\<close>

definition metatable_of :: "TValue \<Rightarrow> ptr option gc" where
  "metatable_of v =
     (case v of
        VTable p \<Rightarrow> sbind (gco2h p) (\<lambda>h. sret (Table.metatable h))
      | VUserdata p \<Rightarrow> sbind (gco2u p) (\<lambda>u. sret (u_metatable u))
      | _ \<Rightarrow> (\<lambda>g. if ttype v < length (g_mt g) then Ok (g_mt g ! ttype v, g) else Undef))"

definition luaT_gettmbyobj :: "TValue \<Rightarrow> nat \<Rightarrow> TValue vm" where
  "luaT_gettmbyobj v event =
     lift0 (sbind (metatable_of v) (\<lambda>mt.
       case mt of
         None \<Rightarrow> sret VNil
       | Some p \<Rightarrow> (\<lambda>g. if event < length (tmname g) then heap_getstr p (tmname g ! event) g else Undef)))"

end
