(* ===== verification/LuaCall.thy ===== *)
theory LuaCall
  imports LuaDo
begin

text \<open>
  Entering and leaving functions (\<^verbatim>\<open>ldo.c\<close>), protected calls and coroutines.
\<close>

section \<open>Hooks\<close>

abbreviation (input) LUA_HOOKCALL :: int where "LUA_HOOKCALL \<equiv> 0"
abbreviation (input) LUA_HOOKRET :: int where "LUA_HOOKRET \<equiv> 1"
abbreviation (input) LUA_HOOKLINE :: int where "LUA_HOOKLINE \<equiv> 2"
abbreviation (input) LUA_HOOKCOUNT :: int where "LUA_HOOKCOUNT \<equiv> 3"
abbreviation (input) LUA_HOOKTAILRET :: int where "LUA_HOOKTAILRET \<equiv> 4"

text \<open>The hook gets the event, the line and \<open>i_ci\<close>.\<close>

definition luaD_callhook :: "env \<Rightarrow> ptr \<Rightarrow> int \<Rightarrow> int \<Rightarrow> unit vm" where
  "luaD_callhook E L event line =
     bnd (thread L) (\<lambda>t. bnd (cur_ci L) (\<lambda>ci.
       if L_hook t \<noteq> 0 \<and> L_allowhook t \<noteq> 0 then
         bnd (luaD_checkstack L LUA_MINSTACK) (\<lambda>_.
         bnd (upd_ci L (L_ci t) (\<lambda>ci. ci\<lparr>ci_top := L_top t + LUA_MINSTACK\<rparr>)) (\<lambda>_.
         bnd (upd_thread L (\<lambda>t. t\<lparr>L_allowhook := 0\<rparr>)) (\<lambda>_.
         bnd (hook_fun E (L_hook t) L event line (if event = LUA_HOOKTAILRET then 0 else L_ci t)) (\<lambda>_.
         bnd (upd_thread L (\<lambda>t. t\<lparr>L_allowhook := 1\<rparr>)) (\<lambda>_.
         bnd (thread L) (\<lambda>t'.
         bnd (upd_ci L (L_ci t') (\<lambda>ci'. ci'\<lparr>ci_top := ci_top ci\<rparr>)) (\<lambda>_.
         set_top L (L_top t))))))))
       else ret ()))"

section \<open>Entering a function\<close>

text \<open>The array of calls grows by doubling, up to \<open>LUAI_MAXCALLS\<close>.\<close>

definition growCI :: "env \<Rightarrow> ptr \<Rightarrow> nat vm" where
  "growCI E L =
     bnd (thread L) (\<lambda>t.
     bnd (if LUAI_MAXCALLS < length (L_base_ci t) then luaD_throw LUA_ERRERR
          else bnd (lift0 (luaD_reallocCI L (2 * length (L_base_ci t)))) (\<lambda>_.
               if LUAI_MAXCALLS < 2 * length (L_base_ci t) then luaG_runerror E L ''stack overflow'' else ret ())) (\<lambda>_.
     bnd (upd_thread L (\<lambda>t. t\<lparr>L_ci := L_ci t + 1\<rparr>)) (\<lambda>_.
     bnd (thread L) (\<lambda>t. ret (L_ci t)))))"

definition inc_ci :: "env \<Rightarrow> ptr \<Rightarrow> nat vm" where
  "inc_ci E L =
     bnd (thread L) (\<lambda>t.
       if L_ci t + 1 = length (L_base_ci t) then growCI E L
       else bnd (upd_thread L (\<lambda>t. t\<lparr>L_ci := L_ci t + 1\<rparr>)) (\<lambda>_. ret (L_ci t + 1)))"

text \<open>\<open>for (; actual < nfixargs; ++actual) setnilvalue(L->top++)\<close>\<close>

primrec push_nils :: "ptr \<Rightarrow> nat \<Rightarrow> unit vm" where
  "push_nils L 0 = ret ()"
| "push_nils L (Suc n) =
     bnd (get_top L) (\<lambda>p. bnd (sset L p VNil) (\<lambda>_. bnd (set_top L (p + 1)) (\<lambda>_. push_nils L n)))"

text \<open>The loop that puts the extra arguments into the table \<open>arg\<close>.\<close>

primrec store_args :: "env \<Rightarrow> ptr \<Rightarrow> ptr \<Rightarrow> nat \<Rightarrow> nat \<Rightarrow> nat \<Rightarrow> unit vm" where
  "store_args E L htab first i 0 = ret ()"
| "store_args E L htab first i (Suc n) =
     bnd (lift E L (heap_setnum htab (int i + 1))) (\<lambda>s.
     bnd (sget L (first + i)) (\<lambda>v.
     bnd (lift0 (store_slot htab s v)) (\<lambda>_. store_args E L htab first (Suc i) n)))"

primrec move_fixed :: "ptr \<Rightarrow> nat \<Rightarrow> nat \<Rightarrow> nat \<Rightarrow> unit vm" where
  "move_fixed L fixed i 0 = ret ()"
| "move_fixed L fixed i (Suc n) =
     bnd (get_top L) (\<lambda>p. bnd (sget L (fixed + i)) (\<lambda>v.
     bnd (sset L p v) (\<lambda>_. bnd (set_top L (p + 1)) (\<lambda>_.
     bnd (sset L (fixed + i) VNil) (\<lambda>_. move_fixed L fixed (Suc i) n)))))"

text \<open>\<open>create_arg\<close> is the block under \<open>LUA_COMPAT_VARARG\<close>.\<close>

definition create_arg :: "env \<Rightarrow> ptr \<Rightarrow> nat \<Rightarrow> ptr vm" where
  "create_arg E L nvar =
     bnd (luaC_checkGC E L) (\<lambda>_.
     bnd (new_table E L nvar 1) (\<lambda>htab.
     bnd (get_top L) (\<lambda>top'.
     if top' < nvar then wild
     else bnd (store_args E L htab (top' - nvar) 0 nvar) (\<lambda>_.
          bnd (new_string E ''n'') (\<lambda>n.
          bnd (lift E L (heap_setstr htab n)) (\<lambda>s.
          bnd (lift0 (store_slot htab s (VNumber (cast_num (int nvar))))) (\<lambda>_. ret htab)))))))"

definition adjust_varargs :: "env \<Rightarrow> ptr \<Rightarrow> HProto \<Rightarrow> nat \<Rightarrow> nat vm" where
  "adjust_varargs E L p actual0 =
     (let nfixargs = unat (h_numparams p); actual = max actual0 nfixargs
      in bnd (push_nils L (nfixargs - actual0)) (\<lambda>_.
         bnd (if h_is_vararg p AND VARARG_NEEDSARG \<noteq> 0
              then bnd (create_arg E L (actual - nfixargs)) (\<lambda>h. ret (Some h)) else ret None) (\<lambda>htab.
         bnd (get_top L) (\<lambda>base.
         if base < actual then wild
         else bnd (move_fixed L (base - actual) 0 nfixargs) (\<lambda>_.
              bnd (case htab of
                     None \<Rightarrow> ret ()
                   | Some h \<Rightarrow> bnd (get_top L) (\<lambda>n. bnd (sset L n (VTable h)) (\<lambda>_. set_top L (n + 1)))) (\<lambda>_.
              ret base))))))"

text \<open>The values from \<open>func\<close> on move up by one, the last first.\<close>

primrec open_hole :: "ptr \<Rightarrow> nat \<Rightarrow> nat \<Rightarrow> unit vm" where
  "open_hole L func 0 = ret ()"
| "open_hole L func (Suc n) =
     bnd (sget L (func + n)) (\<lambda>v. bnd (sset L (func + n + 1) v) (\<lambda>_. open_hole L func n))"

abbreviation (input) TM_CALL :: nat where "TM_CALL \<equiv> 16"

definition tryfuncTM :: "env \<Rightarrow> ptr \<Rightarrow> nat \<Rightarrow> nat vm" where
  "tryfuncTM E L func =
     bnd (sget L func) (\<lambda>f.
     bnd (luaT_gettmbyobj f TM_CALL) (\<lambda>tm.
       if ttype tm \<noteq> 6 then luaG_typeerror E L (f, Some func) ''call''
       else bnd (get_top L) (\<lambda>n.
         if n < func then wild
         else bnd (open_hole L func (n - func)) (\<lambda>_.
              bnd (incr_top L) (\<lambda>_.
              bnd (sset L func tm) (\<lambda>_. ret func))))))"

datatype pcr = PCRLUA | PCRC | PCRYIELD

text \<open>\<open>callrethooks\<close>: the hook for the return, and one for each tail call.\<close>

primrec tail_hooks :: "env \<Rightarrow> ptr \<Rightarrow> nat \<Rightarrow> unit vm" where
  "tail_hooks E L 0 = ret ()"
| "tail_hooks E L (Suc n) = bnd (luaD_callhook E L LUA_HOOKTAILRET (- 1)) (\<lambda>_. tail_hooks E L n)"

definition callrethooks :: "env \<Rightarrow> ptr \<Rightarrow> unit vm" where
  "callrethooks E L =
     bnd (luaD_callhook E L LUA_HOOKRET (- 1)) (\<lambda>_.
     bnd (thread L) (\<lambda>t. bnd (getluaproto L (L_ci t)) (\<lambda>f.
       case f of
         None \<Rightarrow> ret ()
       | Some _ \<Rightarrow> bnd (get_ci L (L_ci t)) (\<lambda>ci.
           if ci_tailcalls ci < 0 then wild else
           bnd (tail_hooks E L (nat (ci_tailcalls ci))) (\<lambda>_.
           upd_ci L (L_ci t) (\<lambda>ci. ci\<lparr>ci_tailcalls := - 1\<rparr>))))))"

text \<open>
  The results move down; \<open>wanted\<close> is \<open>LUA_MULTRET\<close> for all of them. The two loops of
  \<open>luaD_poscall\<close> are one: \<open>n\<close> results are left to copy.
\<close>

primrec move_results :: "ptr \<Rightarrow> nat \<Rightarrow> nat \<Rightarrow> nat \<Rightarrow> unit vm" where
  "move_results L res first 0 = ret ()"
| "move_results L res first (Suc n) =
     bnd (sget L first) (\<lambda>v. bnd (sset L res v) (\<lambda>_. move_results L (Suc res) (Suc first) n))"

definition luaD_poscall :: "env \<Rightarrow> ptr \<Rightarrow> nat \<Rightarrow> int vm" where
  "luaD_poscall E L firstResult =
     bnd (thread L) (\<lambda>t0.
     bnd (if bit (L_hookmask t0) 1 then callrethooks E L else ret ()) (\<lambda>_.
     bnd (thread L) (\<lambda>t.
     if L_ci t = 0 then wild
     else bnd (get_ci L (L_ci t)) (\<lambda>ci. bnd (get_ci L (L_ci t - 1)) (\<lambda>prev.
       let res = ci_func ci; wanted = ci_nresults ci; avail = L_top t - firstResult;
           n = (if wanted < 0 then avail else min (nat wanted) avail)
       in bnd (upd_thread L (\<lambda>t. t\<lparr>L_ci := L_ci t - 1, L_base := ci_base prev, L_savedpc := ci_savedpc prev\<rparr>)) (\<lambda>_.
          bnd (move_results L res firstResult n) (\<lambda>_.
          bnd (fill_nil L (res + n) (nat wanted - n)) (\<lambda>_.
          bnd (set_top L (res + n + (nat wanted - n))) (\<lambda>_.
          ret (wanted - LUA_MULTRET))))))))))"

definition precall_lua :: "env \<Rightarrow> ptr \<Rightarrow> nat \<Rightarrow> int \<Rightarrow> HProto \<Rightarrow> pcr vm" where
  "precall_lua E L func nresults p =
     bnd (luaD_checkstack L (unat (h_maxstacksize p))) (\<lambda>_.
     bnd (get_top L) (\<lambda>n.
     bnd (if h_is_vararg p = 0 then
            let base = func + 1
            in bnd (if base + unat (h_numparams p) < n then set_top L (base + unat (h_numparams p)) else ret ())
                 (\<lambda>_. ret base)
          else if n < func + 1 then wild
          else adjust_varargs E L p (n - func - 1)) (\<lambda>base.
     bnd (inc_ci E L) (\<lambda>ci.
     bnd (upd_ci L ci (\<lambda>c. c\<lparr>ci_func := func, ci_base := base, ci_top := base + unat (h_maxstacksize p),
            ci_tailcalls := 0, ci_nresults := nresults\<rparr>)) (\<lambda>_.
     bnd (upd_thread L (\<lambda>t. t\<lparr>L_base := base, L_savedpc := 0\<rparr>)) (\<lambda>_.
     bnd (get_top L) (\<lambda>n.
     bnd (fill_nil L n (base + unat (h_maxstacksize p) - n)) (\<lambda>_.
     bnd (set_top L (base + unat (h_maxstacksize p))) (\<lambda>_.
     bnd (thread L) (\<lambda>t.
     bnd (if bit (L_hookmask t) 0 then
            bnd (upd_thread L (\<lambda>t. t\<lparr>L_savedpc := L_savedpc t + 1\<rparr>)) (\<lambda>_.
            bnd (luaD_callhook E L LUA_HOOKCALL (- 1)) (\<lambda>_.
            upd_thread L (\<lambda>t. t\<lparr>L_savedpc := L_savedpc t - 1\<rparr>)))
          else ret ()) (\<lambda>_.
     ret PCRLUA)))))))))))"

definition precall_c :: "env \<Rightarrow> ptr \<Rightarrow> nat \<Rightarrow> int \<Rightarrow> ptr \<Rightarrow> pcr vm" where
  "precall_c E L func nresults f =
     bnd (luaD_checkstack L LUA_MINSTACK) (\<lambda>_.
     bnd (inc_ci E L) (\<lambda>ci.
     bnd (get_top L) (\<lambda>n.
     bnd (upd_ci L ci (\<lambda>c. c\<lparr>ci_func := func, ci_base := func + 1, ci_top := n + LUA_MINSTACK,
            ci_nresults := nresults\<rparr>)) (\<lambda>_.
     bnd (upd_thread L (\<lambda>t. t\<lparr>L_base := func + 1\<rparr>)) (\<lambda>_.
     bnd (thread L) (\<lambda>t.
     bnd (if bit (L_hookmask t) 0 then luaD_callhook E L LUA_HOOKCALL (- 1) else ret ()) (\<lambda>_.
     bnd (cfun E (call E) f L) (\<lambda>r.
     if r < 0 then ret PCRYIELD
     else bnd (get_top L) (\<lambda>n.
       if int n < r then wild
       else bnd (luaD_poscall E L (n - nat r)) (\<lambda>_. ret PCRC))))))))))"

definition luaD_precall :: "env \<Rightarrow> ptr \<Rightarrow> nat \<Rightarrow> int \<Rightarrow> pcr vm" where
  "luaD_precall E L func nresults =
     bnd (sget L func) (\<lambda>v.
     bnd (if ttype v \<noteq> 6 then tryfuncTM E L func else ret func) (\<lambda>func.
     bnd (sget L func) (\<lambda>v.
     case v of
       VFunction cl \<Rightarrow>
         bnd (lift0 (gco2cl cl)) (\<lambda>c.
         bnd (thread L) (\<lambda>t.
         bnd (upd_ci L (L_ci t) (\<lambda>ci. ci\<lparr>ci_savedpc := L_savedpc t\<rparr>)) (\<lambda>_.
         case c of
           LClosure _ f _ \<Rightarrow> bnd (lift0 (gco2p f)) (\<lambda>p. precall_lua E L func nresults p)
         | CClosure _ f _ \<Rightarrow> precall_c E L func nresults f)))
     | _ \<Rightarrow> wild)))"

section \<open>Error recovery\<close>

definition luaD_seterrorobj :: "env \<Rightarrow> ptr \<Rightarrow> int \<Rightarrow> nat \<Rightarrow> unit vm" where
  "luaD_seterrorobj E L errcode oldtop =
     bnd (if errcode = LUA_ERRMEM then
            bnd (new_string E ''not enough memory'') (\<lambda>p. sset L oldtop (VString p))
          else if errcode = LUA_ERRERR then
            bnd (new_string E ''error in error handling'') (\<lambda>p. sset L oldtop (VString p))
          else if errcode = LUA_ERRSYNTAX \<or> errcode = LUA_ERRRUN then
            bnd (get_top L) (\<lambda>n. if n = 0 then wild else bnd (sget L (n - 1)) (\<lambda>v. sset L oldtop v))
          else ret ()) (\<lambda>_.
     set_top L (oldtop + 1))"

definition restore_stack_limit :: "ptr \<Rightarrow> unit vm" where
  "restore_stack_limit L =
     bnd (thread L) (\<lambda>t.
       if LUAI_MAXCALLS < length (L_base_ci t) \<and> L_ci t + 1 < LUAI_MAXCALLS
       then lift0 (luaD_reallocCI L LUAI_MAXCALLS) else ret ())"

definition resetstack :: "env \<Rightarrow> ptr \<Rightarrow> int \<Rightarrow> unit vm" where
  "resetstack E L status =
     bnd (get_ci L 0) (\<lambda>ci.
     bnd (upd_thread L (\<lambda>t. t\<lparr>L_ci := 0, L_base := ci_base ci\<rparr>)) (\<lambda>_.
     bnd (lift0 (luaF_close L (ci_base ci))) (\<lambda>_.
     bnd (luaD_seterrorobj E L status (ci_base ci)) (\<lambda>_.
     bnd (upd_thread L (\<lambda>t. t\<lparr>L_nCcalls := 0, L_allowhook := 1\<rparr>)) (\<lambda>_.
     bnd (restore_stack_limit L) (\<lambda>_.
     upd_thread L (\<lambda>t. t\<lparr>L_errfunc := 0\<rparr>)))))))"

text \<open>
  \<open>luaD_rawrunprotected\<close>: the jump ends here. The buffers for the jump are the nesting of these
  calls.
\<close>

definition luaD_rawrunprotected :: "unit vm \<Rightarrow> int vm" where
  "luaD_rawrunprotected f g =
     (case f g of Return _ g' \<Rightarrow> Return 0 g' | Throw s g' \<Rightarrow> Return s g' | Loop \<Rightarrow> Loop | Wild \<Rightarrow> Wild)"

definition luaD_pcall :: "env \<Rightarrow> ptr \<Rightarrow> unit vm \<Rightarrow> nat \<Rightarrow> nat \<Rightarrow> int vm" where
  "luaD_pcall E L func old_top ef =
     bnd (thread L) (\<lambda>t.
     bnd (upd_thread L (\<lambda>t. t\<lparr>L_errfunc := ef\<rparr>)) (\<lambda>_.
     bnd (luaD_rawrunprotected func) (\<lambda>status.
     bnd (if status \<noteq> 0 then
            bnd (lift0 (luaF_close L old_top)) (\<lambda>_.
            bnd (luaD_seterrorobj E L status old_top) (\<lambda>_.
            bnd (upd_thread L (\<lambda>t'. t'\<lparr>L_nCcalls := L_nCcalls t, L_ci := L_ci t\<rparr>)) (\<lambda>_.
            bnd (get_ci L (L_ci t)) (\<lambda>ci.
            bnd (upd_thread L (\<lambda>t'. t'\<lparr>L_base := ci_base ci, L_savedpc := ci_savedpc ci,
                   L_allowhook := L_allowhook t\<rparr>)) (\<lambda>_.
            restore_stack_limit L)))))
          else ret ()) (\<lambda>_.
     bnd (upd_thread L (\<lambda>t'. t'\<lparr>L_errfunc := L_errfunc t\<rparr>)) (\<lambda>_. ret status)))))"

section \<open>Coroutines\<close>

abbreviation (input) LUA_YIELD :: int where "LUA_YIELD \<equiv> 1"

text \<open>\<open>execute\<close> is \<open>luaV_execute\<close>.\<close>

definition resume :: "env \<Rightarrow> (ptr \<Rightarrow> nat \<Rightarrow> unit vm) \<Rightarrow> ptr \<Rightarrow> nat \<Rightarrow> unit vm" where
  "resume E execute L firstArg =
     bnd (thread L) (\<lambda>t.
     bnd (if L_status t = 0 then
            if firstArg = 0 then wild
            else bnd (luaD_precall E L (firstArg - 1) LUA_MULTRET) (\<lambda>r. ret (r = PCRLUA))
          else
            bnd (upd_thread L (\<lambda>t. t\<lparr>L_status := 0\<rparr>)) (\<lambda>_.
            bnd (getluaproto L (L_ci t)) (\<lambda>f.
            bnd (case f of
                   None \<Rightarrow>
                     bnd (luaD_poscall E L firstArg) (\<lambda>b.
                       if b \<noteq> 0 then bnd (cur_ci L) (\<lambda>ci. set_top L (ci_top ci)) else ret ())
                 | Some _ \<Rightarrow> bnd (cur_ci L) (\<lambda>ci. upd_thread L (\<lambda>t. t\<lparr>L_base := ci_base ci\<rparr>))) (\<lambda>_.
            ret True)))) (\<lambda>go.
     if go then bnd (thread L) (\<lambda>t. execute L (L_ci t)) else ret ()))"

definition resume_error :: "env \<Rightarrow> ptr \<Rightarrow> string \<Rightarrow> int vm" where
  "resume_error E L msg =
     bnd (cur_ci L) (\<lambda>ci.
     bnd (set_top L (ci_base ci)) (\<lambda>_.
     bnd (push_string E L msg) (\<lambda>_. ret LUA_ERRRUN)))"

definition lua_resume :: "env \<Rightarrow> (ptr \<Rightarrow> nat \<Rightarrow> unit vm) \<Rightarrow> ptr \<Rightarrow> nat \<Rightarrow> int vm" where
  "lua_resume E execute L nargs =
     bnd (thread L) (\<lambda>t.
       if uint (L_status t) \<noteq> LUA_YIELD \<and> L_status t \<noteq> 0 then resume_error E L ''cannot resume dead coroutine''
       else if uint (L_status t) \<noteq> LUA_YIELD \<and> L_ci t \<noteq> 0 then
         resume_error E L ''cannot resume non-suspended coroutine''
       else if L_top t < nargs then wild
       else bnd (luaD_rawrunprotected (resume E execute L (L_top t - nargs))) (\<lambda>status.
         if status \<noteq> 0 then
           bnd (upd_thread L (\<lambda>t. t\<lparr>L_status := word_of_int status\<rparr>)) (\<lambda>_.
           bnd (get_top L) (\<lambda>n.
           bnd (luaD_seterrorobj E L status n) (\<lambda>_.
           bnd (thread L) (\<lambda>t.
           bnd (upd_ci L (L_ci t) (\<lambda>ci. ci\<lparr>ci_top := L_top t\<rparr>)) (\<lambda>_. ret status)))))
         else bnd (thread L) (\<lambda>t. ret (uint (L_status t)))))"

definition lua_yield :: "env \<Rightarrow> ptr \<Rightarrow> nat \<Rightarrow> int vm" where
  "lua_yield E L nresults =
     bnd (thread L) (\<lambda>t.
       if 0 < L_nCcalls t then luaG_runerror E L ''attempt to yield across metamethod/C-call boundary''
       else if L_top t < nresults then wild
       else bnd (upd_thread L (\<lambda>t. t\<lparr>L_base := L_top t - nresults, L_status := 1\<rparr>)) (\<lambda>_. ret (- 1)))"

end
