(* ===== verification/LuaVM.thy ===== *)
theory LuaVM
  imports LuaCall
begin

text \<open>
  The virtual machine (\<^verbatim>\<open>lvm.c\<close>). The loop of \<open>luaV_execute\<close> is cut at its instructions:
  \<open>vm_step\<close> is one turn. Its local variables are the position \<open>pc\<close> and \<open>nexeccalls\<close>, which a
  step returns; \<open>base\<close>, \<open>cl\<close> and \<open>k\<close> are what the code keeps them equal to, read from the
  thread at each turn.
\<close>

section \<open>Conversions\<close>

definition luaV_tonumber :: "TValue \<Rightarrow> lua_Number option vm" where
  "luaV_tonumber v =
     (case v of
        VNumber n \<Rightarrow> ret (Some n)
      | VString p \<Rightarrow> bnd (string_of p) (\<lambda>s. ret (luaO_str2d s))
      | _ \<Rightarrow> ret None)"

text \<open>\<open>tostring(L, o)\<close> on the value at a place of the stack\<close>

definition luaV_tostring :: "env \<Rightarrow> ptr \<Rightarrow> nat \<Rightarrow> bool vm" where
  "luaV_tostring E L i =
     bnd (sget L i) (\<lambda>v.
       case v of
         VNumber n \<Rightarrow> bnd (new_string E (cstr (number2str E n))) (\<lambda>p. bnd (sset L i (VString p)) (\<lambda>_. ret True))
       | _ \<Rightarrow> ret False)"

definition tostring :: "env \<Rightarrow> ptr \<Rightarrow> nat \<Rightarrow> bool vm" where
  "tostring E L i = bnd (sget L i) (\<lambda>v. if ttype v = 4 then ret True else luaV_tostring E L i)"

section \<open>Tag methods\<close>

abbreviation (input) TM_ADD :: nat where "TM_ADD \<equiv> 5"
abbreviation (input) TM_SUB :: nat where "TM_SUB \<equiv> 6"
abbreviation (input) TM_MUL :: nat where "TM_MUL \<equiv> 7"
abbreviation (input) TM_DIV :: nat where "TM_DIV \<equiv> 8"
abbreviation (input) TM_MOD :: nat where "TM_MOD \<equiv> 9"
abbreviation (input) TM_POW :: nat where "TM_POW \<equiv> 10"
abbreviation (input) TM_UNM :: nat where "TM_UNM \<equiv> 11"
abbreviation (input) TM_LEN :: nat where "TM_LEN \<equiv> 12"
abbreviation (input) TM_LT :: nat where "TM_LT \<equiv> 13"
abbreviation (input) TM_LE :: nat where "TM_LE \<equiv> 14"
abbreviation (input) TM_CONCAT :: nat where "TM_CONCAT \<equiv> 15"
abbreviation (input) TM_BOR :: nat where "TM_BOR \<equiv> 17"
abbreviation (input) TM_BAND :: nat where "TM_BAND \<equiv> 18"
abbreviation (input) TM_BXOR :: nat where "TM_BXOR \<equiv> 19"
abbreviation (input) TM_BRSHFT :: nat where "TM_BRSHFT \<equiv> 20"
abbreviation (input) TM_BLSHFT :: nat where "TM_BLSHFT \<equiv> 21"
abbreviation (input) TM_BNOT :: nat where "TM_BNOT \<equiv> 22"

definition luaT_eventname :: "string list" where
  "luaT_eventname =
    [''__index'', ''__newindex'', ''__gc'', ''__mode'', ''__eq'', ''__add'', ''__sub'', ''__mul'', ''__div'',
     ''__mod'', ''__pow'', ''__unm'', ''__len'', ''__lt'', ''__le'', ''__concat'', ''__call'',
     ''__or'', ''__and'', ''__xor'', ''__shl'', ''__shr'', ''__not'']"

definition callTMres :: "env \<Rightarrow> ptr \<Rightarrow> nat \<Rightarrow> TValue \<Rightarrow> TValue \<Rightarrow> TValue \<Rightarrow> unit vm" where
  "callTMres E L res f p1 p2 =
     bnd (get_top L) (\<lambda>n.
     bnd (sset L n f) (\<lambda>_. bnd (sset L (n + 1) p1) (\<lambda>_. bnd (sset L (n + 2) p2) (\<lambda>_.
     bnd (luaD_checkstack L 3) (\<lambda>_.
     bnd (set_top L (n + 3)) (\<lambda>_.
     bnd (call E L n 1) (\<lambda>_.
     bnd (get_top L) (\<lambda>m.
     if m = 0 then wild
     else bnd (set_top L (m - 1)) (\<lambda>_. bnd (sget L (m - 1)) (\<lambda>v. sset L res v))))))))))"

definition callTM :: "env \<Rightarrow> ptr \<Rightarrow> TValue \<Rightarrow> TValue \<Rightarrow> TValue \<Rightarrow> TValue \<Rightarrow> unit vm" where
  "callTM E L f p1 p2 p3 =
     bnd (get_top L) (\<lambda>n.
     bnd (sset L n f) (\<lambda>_. bnd (sset L (n + 1) p1) (\<lambda>_. bnd (sset L (n + 2) p2) (\<lambda>_.
     bnd (sset L (n + 3) p3) (\<lambda>_.
     bnd (luaD_checkstack L 4) (\<lambda>_.
     bnd (set_top L (n + 4)) (\<lambda>_.
     call E L n 0)))))))"

definition call_binTM :: "env \<Rightarrow> ptr \<Rightarrow> TValue \<Rightarrow> TValue \<Rightarrow> nat \<Rightarrow> nat \<Rightarrow> bool vm" where
  "call_binTM E L p1 p2 res event =
     bnd (luaT_gettmbyobj p1 event) (\<lambda>tm1.
     bnd (if tm1 = VNil then luaT_gettmbyobj p2 event else ret tm1) (\<lambda>tm.
       if tm = VNil then ret False else bnd (callTMres E L res tm p1 p2) (\<lambda>_. ret True)))"

definition get_compTM :: "ptr option \<Rightarrow> ptr option \<Rightarrow> nat \<Rightarrow> TValue option vm" where
  "get_compTM mt1 mt2 event =
     bnd (lift0 (gfasttm mt1 event)) (\<lambda>tm1.
       case tm1 of
         None \<Rightarrow> ret None
       | Some f1 \<Rightarrow>
           if mt1 = mt2 then ret (Some f1)
           else bnd (lift0 (gfasttm mt2 event)) (\<lambda>tm2.
             case tm2 of
               None \<Rightarrow> ret None
             | Some f2 \<Rightarrow> ret (if luaO_rawequalObj f1 f2 then Some f1 else None)))"

text \<open>\<open>None\<close> is the result -1.\<close>

definition call_orderTM :: "env \<Rightarrow> ptr \<Rightarrow> TValue \<Rightarrow> TValue \<Rightarrow> nat \<Rightarrow> bool option vm" where
  "call_orderTM E L p1 p2 event =
     bnd (luaT_gettmbyobj p1 event) (\<lambda>tm1.
       if tm1 = VNil then ret None
       else bnd (luaT_gettmbyobj p2 event) (\<lambda>tm2.
         if \<not> luaO_rawequalObj tm1 tm2 then ret None
         else bnd (get_top L) (\<lambda>n.
              bnd (callTMres E L n tm1 p1 p2) (\<lambda>_.
              bnd (get_top L) (\<lambda>n. bnd (sget L n) (\<lambda>v. ret (Some (\<not> l_isfalse v)))))))) "

section \<open>Indexing\<close>

abbreviation MAXTAGLOOP :: nat where "MAXTAGLOOP \<equiv> 100"

primrec gettable_loop :: "nat \<Rightarrow> env \<Rightarrow> ptr \<Rightarrow> operand \<Rightarrow> TValue \<Rightarrow> nat \<Rightarrow> unit vm" where
  "gettable_loop 0 E L t key val = luaG_runerror E L ''loop in gettable''"
| "gettable_loop (Suc n) E L t key val =
     (let again = (\<lambda>tm. if ttype tm = 6 then callTMres E L val tm (fst t) key
                        else gettable_loop n E L (tm, None) key val)
      in case fst t of
           VTable h \<Rightarrow>
             bnd (lift0 (heap_get h key)) (\<lambda>res.
               if res \<noteq> VNil then sset L val res
               else bnd (lift0 (sbind (gco2h h) (\<lambda>tab. gfasttm (Table.metatable tab) TM_INDEX))) (\<lambda>tm.
                 case tm of None \<Rightarrow> sset L val res | Some tm \<Rightarrow> again tm))
         | _ \<Rightarrow>
             bnd (luaT_gettmbyobj (fst t) TM_INDEX) (\<lambda>tm.
               if tm = VNil then luaG_typeerror E L t ''index'' else again tm))"

definition luaV_gettable :: "env \<Rightarrow> ptr \<Rightarrow> operand \<Rightarrow> TValue \<Rightarrow> nat \<Rightarrow> unit vm" where
  "luaV_gettable = gettable_loop MAXTAGLOOP"

primrec settable_loop :: "nat \<Rightarrow> env \<Rightarrow> ptr \<Rightarrow> operand \<Rightarrow> TValue \<Rightarrow> TValue \<Rightarrow> unit vm" where
  "settable_loop 0 E L t key val = luaG_runerror E L ''loop in settable''"
| "settable_loop (Suc n) E L t key val =
     (let again = (\<lambda>tm. if ttype tm = 6 then callTM E L tm (fst t) key val
                        else settable_loop n E L (tm, None) key val)
      in case fst t of
           VTable h \<Rightarrow>
             bnd (lift E L (heap_set h key)) (\<lambda>s.
             bnd (lift0 (gco2h h)) (\<lambda>tab.
               let store = lift0 (sbind (store_slot h s val) (\<lambda>_. luaC_barriert h val))
               in if slot_val tab s \<noteq> VNil then store
                  else bnd (lift0 (gfasttm (Table.metatable tab) TM_NEWINDEX)) (\<lambda>tm.
                    case tm of None \<Rightarrow> store | Some tm \<Rightarrow> again tm)))
         | _ \<Rightarrow>
             bnd (luaT_gettmbyobj (fst t) TM_NEWINDEX) (\<lambda>tm.
               if tm = VNil then luaG_typeerror E L t ''index'' else again tm))"

definition luaV_settable :: "env \<Rightarrow> ptr \<Rightarrow> operand \<Rightarrow> TValue \<Rightarrow> TValue \<Rightarrow> unit vm" where
  "luaV_settable = settable_loop MAXTAGLOOP"

section \<open>Comparison\<close>

text \<open>
  \<open>sc\<close> is \<open>strcoll\<close>. If it finds two different pieces equal the code may step past the end of
  the right string.
\<close>

function l_strcmp :: "(string \<Rightarrow> string \<Rightarrow> int) \<Rightarrow> string \<Rightarrow> string \<Rightarrow> int result" where
  "l_strcmp sc l r =
     (let temp = sc (cstr l) (cstr r); len = length (cstr l)
      in if temp \<noteq> 0 then Ok temp
         else if len = length r then Ok (if len = length l then 0 else 1)
         else if len = length l then Ok (- 1)
         else if length r < len then Undef
         else l_strcmp sc (drop (len + 1) l) (drop (len + 1) r))"
  by pat_completeness auto
termination
proof (relation "measure (\<lambda>(sc, l, r). length l)", goal_cases)
  case (2 sc l r temp len)
  have "len \<le> length l" using 2 by (simp add: cstr_def length_takeWhile_le)
  with 2 show ?case by simp
qed simp

declare l_strcmp.simps [simp del]

definition strings_cmp :: "env \<Rightarrow> ptr \<Rightarrow> ptr \<Rightarrow> int vm" where
  "strings_cmp E p q =
     bnd (string_of p) (\<lambda>l. bnd (string_of q) (\<lambda>r.
     lift0 (\<lambda>g. rbind (l_strcmp (coll E) l r) (\<lambda>c. Ok (c, g)))))"

definition luaV_lessthan :: "env \<Rightarrow> ptr \<Rightarrow> TValue \<Rightarrow> TValue \<Rightarrow> bool vm" where
  "luaV_lessthan E L l r =
     (if ttype l \<noteq> ttype r then luaG_ordererror E L l r
      else case (l, r) of
        (VNumber a, VNumber b) \<Rightarrow> ret (num_lt a b)
      | (VString p, VString q) \<Rightarrow> bnd (strings_cmp E p q) (\<lambda>c. ret (c < 0))
      | _ \<Rightarrow> bnd (call_orderTM E L l r TM_LT) (\<lambda>res.
          case res of Some b \<Rightarrow> ret b | None \<Rightarrow> luaG_ordererror E L l r))"

definition lessequal :: "env \<Rightarrow> ptr \<Rightarrow> TValue \<Rightarrow> TValue \<Rightarrow> bool vm" where
  "lessequal E L l r =
     (if ttype l \<noteq> ttype r then luaG_ordererror E L l r
      else case (l, r) of
        (VNumber a, VNumber b) \<Rightarrow> ret (num_le a b)
      | (VString p, VString q) \<Rightarrow> bnd (strings_cmp E p q) (\<lambda>c. ret (c \<le> 0))
      | _ \<Rightarrow> bnd (call_orderTM E L l r TM_LE) (\<lambda>res.
          case res of
            Some b \<Rightarrow> ret b
          | None \<Rightarrow> bnd (call_orderTM E L r l TM_LT) (\<lambda>res.
              case res of Some b \<Rightarrow> ret (\<not> b) | None \<Rightarrow> luaG_ordererror E L l r)))"

definition luaV_equalval :: "env \<Rightarrow> ptr \<Rightarrow> TValue \<Rightarrow> TValue \<Rightarrow> bool vm" where
  "luaV_equalval E L t1 t2 =
     (let meta = (\<lambda>p q mt1 mt2.
        if p = q then ret True
        else bnd (lift0 mt1) (\<lambda>m1. bnd (lift0 mt2) (\<lambda>m2.
             bnd (get_compTM m1 m2 TM_EQ) (\<lambda>tm.
               case tm of
                 None \<Rightarrow> ret False
               | Some f \<Rightarrow> bnd (get_top L) (\<lambda>n. bnd (callTMres E L n f t1 t2) (\<lambda>_.
                   bnd (get_top L) (\<lambda>n. bnd (sget L n) (\<lambda>v. ret (\<not> l_isfalse v)))))))))
      in case (t1, t2) of
        (VNil, _) \<Rightarrow> ret True
      | (VNumber a, VNumber b) \<Rightarrow> ret (num_eq a b)
      | (VBoolean a, VBoolean b) \<Rightarrow> ret (a = b)
      | (VLightuserdata a, VLightuserdata b) \<Rightarrow> ret (a = b)
      | (VUserdata p, VUserdata q) \<Rightarrow> meta p q (metatable_of t1) (metatable_of t2)
      | (VTable p, VTable q) \<Rightarrow> meta p q (metatable_of t1) (metatable_of t2)
      | _ \<Rightarrow> ret (gcvalue t1 = gcvalue t2))"

definition equalobj :: "env \<Rightarrow> ptr \<Rightarrow> TValue \<Rightarrow> TValue \<Rightarrow> bool vm" where
  "equalobj E L a b = (if ttype a = ttype b then luaV_equalval E L a b else ret False)"

section \<open>Concatenation\<close>

definition string_at :: "ptr \<Rightarrow> nat \<Rightarrow> string vm" where
  "string_at L i = bnd (sget L i) (\<lambda>v. case v of VString p \<Rightarrow> string_of p | _ \<Rightarrow> wild)"

definition luaG_concaterror :: "env \<Rightarrow> ptr \<Rightarrow> operand \<Rightarrow> operand \<Rightarrow> 'a vm" where
  "luaG_concaterror E L p1 p2 = luaG_typeerror E L (if ttype (fst p1) = 4 then p2 else p1) ''concatenate''"

text \<open>
  The loop that collects operands: the values below \<open>top\<close> are converted while they can be;
  \<open>len\<close> is the length so far. \<open>f\<close> is the number of operands not yet looked at.
\<close>

primrec collect :: "env \<Rightarrow> ptr \<Rightarrow> nat \<Rightarrow> nat \<Rightarrow> nat \<Rightarrow> nat \<Rightarrow> (nat \<times> nat) vm" where
  "collect E L top' n len 0 = ret (n, len)"
| "collect E L top' n len (Suc f) =
     (if top' < n + 1 then wild
      else bnd (tostring E L (top' - n - 1)) (\<lambda>ok.
        if \<not> ok then ret (n, len)
        else bnd (string_at L (top' - n - 1)) (\<lambda>s.
          if MAX_SIZE_T - int len \<le> int (length s) then luaG_runerror E L ''string length overflow''
          else collect E L top' (n + 1) (len + length s) f)))"

text \<open>\<open>for (i=n; i>0; i--)\<close>: the pieces in the order of the stack.\<close>

primrec pieces :: "ptr \<Rightarrow> nat \<Rightarrow> nat \<Rightarrow> string vm" where
  "pieces L top' 0 = ret []"
| "pieces L top' (Suc i) =
     (if top' < Suc i then wild
      else bnd (string_at L (top' - Suc i)) (\<lambda>s. bnd (pieces L top' i) (\<lambda>r. ret (s @ r))))"

text \<open>One pass; the result is the number of operands it made one of.\<close>

definition concat_pass :: "env \<Rightarrow> ptr \<Rightarrow> nat \<Rightarrow> nat \<Rightarrow> nat vm" where
  "concat_pass E L num top' =
     (if top' < 2 then wild
      else
        bnd (sget L (top' - 2)) (\<lambda>v2.
        bnd (if ttype v2 = 4 \<or> ttype v2 = 3 then tostring E L (top' - 1) else ret False) (\<lambda>ok.
        bnd (sget L (top' - 1)) (\<lambda>v1.
        if \<not> ok then
          bnd (call_binTM E L v2 v1 (top' - 2) TM_CONCAT) (\<lambda>done'.
            if done' then ret 2 else luaG_concaterror E L (v2, Some (top' - 2)) (v1, Some (top' - 1)))
        else
          bnd (string_at L (top' - 1)) (\<lambda>s.
          if s = [] then bnd (tostring E L (top' - 2)) (\<lambda>_. ret 2)
          else
            bnd (collect E L top' 1 (length s) (num - 1)) (\<lambda>(n, len).
            bnd (pieces L top' n) (\<lambda>buffer.
            bnd (new_string E buffer) (\<lambda>p.
            bnd (sset L (top' - n) (VString p)) (\<lambda>_. ret n))))))))) "

text \<open>Each pass leaves fewer operands; \<open>f\<close> is at least their number.\<close>

primrec concat_passes :: "nat \<Rightarrow> env \<Rightarrow> ptr \<Rightarrow> nat \<Rightarrow> nat \<Rightarrow> unit vm" where
  "concat_passes 0 E L num e = (\<lambda>g. Loop)"
| "concat_passes (Suc f) E L num e =
     bnd (thread L) (\<lambda>t.
     bnd (concat_pass E L num (L_base t + e + 1)) (\<lambda>n.
       if n = 0 \<or> e < n - 1 then wild
       else if 1 < int num - (int n - 1) then concat_passes f E L (num - (n - 1)) (e - (n - 1))
       else ret ()))"

definition luaV_concat :: "env \<Rightarrow> ptr \<Rightarrow> nat \<Rightarrow> nat \<Rightarrow> unit vm" where
  "luaV_concat E L num e = concat_passes (max 1 num) E L num e"

section \<open>Arithmetic\<close>

definition luaG_aritherror :: "env \<Rightarrow> ptr \<Rightarrow> operand \<Rightarrow> operand \<Rightarrow> string \<Rightarrow> 'a vm" where
  "luaG_aritherror E L p1 p2 op =
     bnd (luaV_tonumber (fst p1)) (\<lambda>n. luaG_typeerror E L (if n = None then p1 else p2) op)"

definition arith_num :: "env \<Rightarrow> nat \<Rightarrow> lua_Number \<Rightarrow> lua_Number \<Rightarrow> lua_Number option" where
  "arith_num E op nb nc =
     (if op = TM_ADD then Some (num_add nb nc)
      else if op = TM_SUB then Some (num_sub nb nc)
      else if op = TM_MUL then Some (num_mul nb nc)
      else if op = TM_DIV then Some (num_div nb nc)
      else if op = TM_MOD then Some (num_mod nb nc)
      else if op = TM_POW then Some (num_pow E nb nc)
      else if op = TM_UNM then Some (num_unm nb)
      else None)"

definition Arith :: "env \<Rightarrow> ptr \<Rightarrow> nat \<Rightarrow> operand \<Rightarrow> operand \<Rightarrow> nat \<Rightarrow> unit vm" where
  "Arith E L ra rb rc op =
     bnd (luaV_tonumber (fst rb)) (\<lambda>b.
     bnd (if b = None then ret None else luaV_tonumber (fst rc)) (\<lambda>c.
       case (b, c) of
         (Some nb, Some nc) \<Rightarrow> (case arith_num E op nb nc of Some r \<Rightarrow> sset L ra (VNumber r) | None \<Rightarrow> ret ())
       | _ \<Rightarrow> bnd (call_binTM E L (fst rb) (fst rc) ra op) (\<lambda>ok.
           if ok then ret () else luaG_aritherror E L rb rc ''perform arithmetic on'')))"

definition logic_num :: "nat \<Rightarrow> lua_Number \<Rightarrow> lua_Number \<Rightarrow> int result" where
  "logic_num op nb nc =
     (if op = TM_BLSHFT then bin_lshft nb nc
      else if op = TM_BRSHFT then bin_rshft nb nc
      else if op = TM_BOR then bin_or nb nc
      else if op = TM_BAND then bin_and nb nc
      else if op = TM_BXOR then bin_xor nb nc
      else Ok 0)"

definition bool_value :: "bool \<Rightarrow> TValue" where
  "bool_value b = VBoolean (if b then 1 else 0)"

definition Logic :: "env \<Rightarrow> ptr \<Rightarrow> nat \<Rightarrow> operand \<Rightarrow> operand \<Rightarrow> nat \<Rightarrow> unit vm" where
  "Logic E L ra rb rc op =
     (if op = TM_BNOT then sset L ra (bool_value (l_isfalse (fst rb)))
      else
        bnd (luaV_tonumber (fst rb)) (\<lambda>b.
        bnd (if b = None then ret None else luaV_tonumber (fst rc)) (\<lambda>c.
          case (b, c) of
            (Some nb, Some nc) \<Rightarrow>
              bnd (lift0 (\<lambda>g. rbind (logic_num op nb nc) (\<lambda>r. Ok (r, g)))) (\<lambda>r. sset L ra (VNumber (cast_num r)))
          | _ \<Rightarrow> bnd (call_binTM E L (fst rb) (fst rc) ra op) (\<lambda>ok.
              if ok then ret () else luaG_aritherror E L rb rc ''perform bitwise operation on''))))"

end
