(* ===== verification/LuaExecute.thy ===== *)
theory LuaExecute
  imports LuaVM
begin

text \<open>
  The instructions of the machine and its loop (\<open>luaV_execute\<close> of \<^verbatim>\<open>lvm.c\<close>), and
  \<open>luaD_call\<close> of \<^verbatim>\<open>ldo.c\<close>, which calls it and is called by it.
\<close>

section \<open>The function that runs\<close>

text \<open>
  \<open>cl\<close> and \<open>cl->p\<close>, with the index of the first register. \<open>fr_code\<close> is what the positions of
  the function index.
\<close>

record frame =
  fr_base :: nat
  fr_env :: ptr
  fr_proto :: HProto
  fr_upvals :: "ptr option list"

definition current :: "ptr \<Rightarrow> frame vm" where
  "current L =
     bnd (thread L) (\<lambda>t. bnd (cur_ci L) (\<lambda>ci. bnd (sget L (ci_func ci)) (\<lambda>v.
       case v of
         VFunction p \<Rightarrow> bnd (lift0 (gco2cl p)) (\<lambda>c.
           case c of
             LClosure e f u \<Rightarrow> bnd (lift0 (gco2p f)) (\<lambda>p.
               ret \<lparr>fr_base = L_base t, fr_env = e, fr_proto = p, fr_upvals = u\<rparr>)
           | CClosure _ _ _ \<Rightarrow> wild)
       | _ \<Rightarrow> wild)))"

definition fetch_at :: "HProto \<Rightarrow> nat \<Rightarrow> Instruction vm" where
  "fetch_at p pc = (if pc < length (h_code p) then ret (h_code p ! pc) else wild)"

text \<open>How a turn ends: on to a position, over to the function on top of the calls, or out.\<close>

datatype turn = Continue nat | Reentry nat | Finished

section \<open>Operands\<close>

text \<open>A register with its number, a constant, and an operand that is one or the other.\<close>

definition reg :: "frame \<Rightarrow> int \<Rightarrow> nat" where
  "reg fr x = fr_base fr + nat x"

definition get_reg :: "ptr \<Rightarrow> frame \<Rightarrow> int \<Rightarrow> operand vm" where
  "get_reg L fr x = bnd (sget L (reg fr x)) (\<lambda>v. ret (v, Some (reg fr x)))"

definition get_k :: "frame \<Rightarrow> int \<Rightarrow> operand vm" where
  "get_k fr x =
     (if 0 \<le> x \<and> x < int (length (h_k (fr_proto fr))) then ret (h_k (fr_proto fr) ! nat x, None) else wild)"

definition get_rk :: "ptr \<Rightarrow> frame \<Rightarrow> int \<Rightarrow> operand vm" where
  "get_rk L fr x = (if ISK x then get_k fr (INDEXK x) else get_reg L fr x)"

text \<open>\<open>dojump\<close>, and the jump that follows a test.\<close>

definition jump_to :: "nat \<Rightarrow> int \<Rightarrow> turn vm" where
  "jump_to pc off = (if int pc + off < 0 then wild else ret (Continue (nat (int pc + off))))"

definition test_jump :: "frame \<Rightarrow> nat \<Rightarrow> bool \<Rightarrow> turn vm" where
  "test_jump fr pc c =
     (if c then bnd (fetch_at (fr_proto fr) pc) (\<lambda>i. jump_to (pc + 1) (GETARG_sBx i))
      else ret (Continue (pc + 1)))"

text \<open>\<open>Protect\<close>: the position is saved first.\<close>

definition protect :: "ptr \<Rightarrow> nat \<Rightarrow> 'a vm \<Rightarrow> 'a vm" where
  "protect L pc m = bnd (upd_thread L (\<lambda>t. t\<lparr>L_savedpc := pc\<rparr>)) (\<lambda>_. m)"

definition go_on :: "nat \<Rightarrow> unit vm \<Rightarrow> turn vm" where
  "go_on pc m = bnd m (\<lambda>_. ret (Continue pc))"

text \<open>\<open>nvalue\<close> of a value that is not a number is undefined.\<close>

definition number_at :: "ptr \<Rightarrow> nat \<Rightarrow> lua_Number vm" where
  "number_at L i = bnd (sget L i) (\<lambda>v. case v of VNumber n \<Rightarrow> ret n | _ \<Rightarrow> wild)"

section \<open>Upvalues\<close>

definition get_upval :: "frame \<Rightarrow> int \<Rightarrow> ptr vm" where
  "get_upval fr b =
     (if 0 \<le> b \<and> b < int (length (fr_upvals fr))
      then (case fr_upvals fr ! nat b of Some u \<Rightarrow> ret u | None \<Rightarrow> wild) else wild)"

definition read_upval :: "ptr \<Rightarrow> TValue vm" where
  "read_upval u = lift0 (sbind (gco2uv u) uv_value)"

definition write_upval :: "ptr \<Rightarrow> TValue \<Rightarrow> unit vm" where
  "write_upval u v =
     bnd (lift0 (gco2uv u)) (\<lambda>uv.
     bnd (case uv of
            UpVal.Closed _ \<Rightarrow> lift0 (set_body u (OUpVal (UpVal.Closed v)))
          | UpVal.Open q i \<Rightarrow> sset q i v) (\<lambda>_.
     lift0 (luaC_barrier u v)))"

section \<open>Instructions\<close>

definition op_loadnil :: "ptr \<Rightarrow> frame \<Rightarrow> int \<Rightarrow> int \<Rightarrow> unit vm" where
  "op_loadnil L fr a b =
     (if a \<le> b then fill_nil L (reg fr a) (nat (b - a) + 1) else sset L (reg fr b) VNil)"

text \<open>\<open>arith_op\<close> and \<open>logic_op\<close>\<close>

definition arith_op :: "env \<Rightarrow> ptr \<Rightarrow> frame \<Rightarrow> nat \<Rightarrow> Instruction \<Rightarrow> nat \<Rightarrow> unit vm" where
  "arith_op E L fr pc i op =
     (let ra = reg fr (GETARG_A i)
      in bnd (get_rk L fr (GETARG_B i)) (\<lambda>rb. bnd (get_rk L fr (GETARG_C i)) (\<lambda>rc.
           case (fst rb, fst rc) of
             (VNumber nb, VNumber nc) \<Rightarrow>
               (case arith_num E op nb nc of Some r \<Rightarrow> sset L ra (VNumber r) | None \<Rightarrow> wild)
           | _ \<Rightarrow> protect L pc (Arith E L ra rb rc op))))"

definition logic_op :: "env \<Rightarrow> ptr \<Rightarrow> frame \<Rightarrow> nat \<Rightarrow> Instruction \<Rightarrow> nat \<Rightarrow> unit vm" where
  "logic_op E L fr pc i op =
     (let ra = reg fr (GETARG_A i)
      in bnd (get_rk L fr (GETARG_B i)) (\<lambda>rb. bnd (get_rk L fr (GETARG_C i)) (\<lambda>rc.
           case (fst rb, fst rc) of
             (VNumber nb, VNumber nc) \<Rightarrow>
               bnd (lift0 (\<lambda>g. rbind (logic_num op nb nc) (\<lambda>r. Ok (r, g)))) (\<lambda>r. sset L ra (VNumber (cast_num r)))
           | _ \<Rightarrow> protect L pc (Logic E L ra rb rc op))))"

definition op_unm :: "env \<Rightarrow> ptr \<Rightarrow> frame \<Rightarrow> nat \<Rightarrow> Instruction \<Rightarrow> unit vm" where
  "op_unm E L fr pc i =
     (let ra = reg fr (GETARG_A i)
      in bnd (get_reg L fr (GETARG_B i)) (\<lambda>rb.
           case fst rb of
             VNumber nb \<Rightarrow> sset L ra (VNumber (num_unm nb))
           | _ \<Rightarrow> protect L pc (Arith E L ra rb rb TM_UNM)))"

definition op_bnot :: "env \<Rightarrow> ptr \<Rightarrow> frame \<Rightarrow> nat \<Rightarrow> Instruction \<Rightarrow> unit vm" where
  "op_bnot E L fr pc i =
     (let ra = reg fr (GETARG_A i)
      in bnd (get_reg L fr (GETARG_B i)) (\<lambda>rb.
           case fst rb of
             VBoolean _ \<Rightarrow> sset L ra (bool_value (l_isfalse (fst rb)))
           | _ \<Rightarrow> protect L pc (Logic E L ra rb rb TM_BNOT)))"

definition op_len :: "env \<Rightarrow> ptr \<Rightarrow> frame \<Rightarrow> nat \<Rightarrow> Instruction \<Rightarrow> unit vm" where
  "op_len E L fr pc i =
     (let ra = reg fr (GETARG_A i)
      in bnd (get_reg L fr (GETARG_B i)) (\<lambda>rb.
           case fst rb of
             VTable h \<Rightarrow>
               bnd (lift0 (sbind (gco2h h) (\<lambda>t g. rbind (luaH_getn t) (\<lambda>n. Ok (n, g))))) (\<lambda>n.
               sset L ra (VNumber (cast_num n)))
           | VString p \<Rightarrow> bnd (string_of p) (\<lambda>s. sset L ra (VNumber (cast_num (int (length s)))))
           | _ \<Rightarrow> protect L pc (bnd (call_binTM E L (fst rb) VNil ra TM_LEN) (\<lambda>ok.
               if ok then ret () else luaG_typeerror E L rb ''get length of''))))"

definition op_concat :: "env \<Rightarrow> ptr \<Rightarrow> frame \<Rightarrow> nat \<Rightarrow> Instruction \<Rightarrow> unit vm" where
  "op_concat E L fr pc i =
     (let b = GETARG_B i; c = GETARG_C i
      in bnd (protect L pc (bnd (luaV_concat E L (nat (c - b + 1)) (nat c)) (\<lambda>_. luaC_checkGC E L))) (\<lambda>_.
         bnd (thread L) (\<lambda>t.
         bnd (sget L (L_base t + nat b)) (\<lambda>v. sset L (L_base t + nat (GETARG_A i)) v))))"

section \<open>Calls\<close>

definition op_call :: "env \<Rightarrow> ptr \<Rightarrow> frame \<Rightarrow> nat \<Rightarrow> nat \<Rightarrow> Instruction \<Rightarrow> turn vm" where
  "op_call E L fr nexec pc i =
     (let ra = reg fr (GETARG_A i); b = GETARG_B i; nresults = GETARG_C i - 1
      in bnd (if b \<noteq> 0 then set_top L (ra + nat b) else ret ()) (\<lambda>_.
         bnd (upd_thread L (\<lambda>t. t\<lparr>L_savedpc := pc\<rparr>)) (\<lambda>_.
         bnd (luaD_precall E L ra nresults) (\<lambda>r.
           case r of
             PCRLUA \<Rightarrow> ret (Reentry (nexec + 1))
           | PCRC \<Rightarrow>
               bnd (if 0 \<le> nresults then bnd (cur_ci L) (\<lambda>ci. set_top L (ci_top ci)) else ret ()) (\<lambda>_.
               ret (Continue pc))
           | PCRYIELD \<Rightarrow> ret Finished))))"

text \<open>The frame of the called function moves down over the frame of the caller.\<close>

primrec move_frame :: "ptr \<Rightarrow> nat \<Rightarrow> nat \<Rightarrow> nat \<Rightarrow> unit vm" where
  "move_frame L func pfunc 0 = ret ()"
| "move_frame L func pfunc (Suc n) =
     bnd (sget L pfunc) (\<lambda>v. bnd (sset L func v) (\<lambda>_. move_frame L (Suc func) (Suc pfunc) n))"

definition close_upvals :: "ptr \<Rightarrow> nat \<Rightarrow> unit vm" where
  "close_upvals L lev = bnd (thread L) (\<lambda>t. if L_openupval t \<noteq> [] then lift0 (luaF_close L lev) else ret ())"

definition replace_frame :: "ptr \<Rightarrow> unit vm" where
  "replace_frame L =
     bnd (thread L) (\<lambda>t.
     if L_ci t = 0 then wild
     else
       bnd (get_ci L (L_ci t - 1)) (\<lambda>ci. bnd (get_ci L (L_ci t)) (\<lambda>new.
       let func = ci_func ci; pfunc = ci_func new; base = func + (ci_base new - pfunc); n = L_top t - pfunc
       in bnd (close_upvals L (ci_base ci)) (\<lambda>_.
          bnd (upd_thread L (\<lambda>t. t\<lparr>L_base := base\<rparr>)) (\<lambda>_.
          bnd (move_frame L func pfunc n) (\<lambda>_.
          bnd (upd_ci L (L_ci t - 1) (\<lambda>c. c\<lparr>ci_base := base, ci_top := func + n, ci_savedpc := L_savedpc t,
                 ci_tailcalls := ci_tailcalls c + 1\<rparr>)) (\<lambda>_.
          upd_thread L (\<lambda>t. t\<lparr>L_top := func + n, L_ci := L_ci t - 1\<rparr>)))))))) "

definition op_tailcall :: "env \<Rightarrow> ptr \<Rightarrow> frame \<Rightarrow> nat \<Rightarrow> nat \<Rightarrow> Instruction \<Rightarrow> turn vm" where
  "op_tailcall E L fr nexec pc i =
     (let ra = reg fr (GETARG_A i); b = GETARG_B i
      in bnd (if b \<noteq> 0 then set_top L (ra + nat b) else ret ()) (\<lambda>_.
         bnd (upd_thread L (\<lambda>t. t\<lparr>L_savedpc := pc\<rparr>)) (\<lambda>_.
         bnd (luaD_precall E L ra LUA_MULTRET) (\<lambda>r.
           case r of
             PCRLUA \<Rightarrow> bnd (replace_frame L) (\<lambda>_. ret (Reentry nexec))
           | PCRC \<Rightarrow> ret (Continue pc)
           | PCRYIELD \<Rightarrow> ret Finished))))"

definition op_return :: "env \<Rightarrow> ptr \<Rightarrow> frame \<Rightarrow> nat \<Rightarrow> nat \<Rightarrow> Instruction \<Rightarrow> turn vm" where
  "op_return E L fr nexec pc i =
     (let ra = reg fr (GETARG_A i); b = GETARG_B i
      in bnd (if b \<noteq> 0 then set_top L (ra + nat b - 1) else ret ()) (\<lambda>_.
         bnd (close_upvals L (fr_base fr)) (\<lambda>_.
         bnd (upd_thread L (\<lambda>t. t\<lparr>L_savedpc := pc\<rparr>)) (\<lambda>_.
         bnd (luaD_poscall E L ra) (\<lambda>b.
           if nexec = 1 then ret Finished
           else bnd (if b \<noteq> 0 then bnd (cur_ci L) (\<lambda>ci. set_top L (ci_top ci)) else ret ()) (\<lambda>_.
                ret (Reentry (nexec - 1))))))))"

section \<open>Loops\<close>

definition op_forloop :: "ptr \<Rightarrow> frame \<Rightarrow> nat \<Rightarrow> Instruction \<Rightarrow> turn vm" where
  "op_forloop L fr pc i =
     (let ra = reg fr (GETARG_A i)
      in bnd (number_at L (ra + 2)) (\<lambda>step.
         bnd (number_at L ra) (\<lambda>n.
         let idx = num_add n step
         in bnd (number_at L (ra + 1)) (\<lambda>limit.
            if (if num_lt (cast_num 0) step then num_le idx limit else num_le limit idx) then
              bnd (jump_to pc (GETARG_sBx i)) (\<lambda>r.
              bnd (sset L ra (VNumber idx)) (\<lambda>_. bnd (sset L (ra + 3) (VNumber idx)) (\<lambda>_. ret r)))
            else ret (Continue pc)))))"

text \<open>\<open>tonumber(o, o)\<close> in place\<close>

definition to_number_at :: "ptr \<Rightarrow> nat \<Rightarrow> lua_Number option vm" where
  "to_number_at L i =
     bnd (sget L i) (\<lambda>v. bnd (luaV_tonumber v) (\<lambda>n.
       case n of None \<Rightarrow> ret None | Some x \<Rightarrow> bnd (sset L i (VNumber x)) (\<lambda>_. ret (Some x))))"

definition op_forprep :: "env \<Rightarrow> ptr \<Rightarrow> frame \<Rightarrow> nat \<Rightarrow> Instruction \<Rightarrow> turn vm" where
  "op_forprep E L fr pc i =
     (let ra = reg fr (GETARG_A i)
      in bnd (upd_thread L (\<lambda>t. t\<lparr>L_savedpc := pc\<rparr>)) (\<lambda>_.
         bnd (to_number_at L ra) (\<lambda>init.
         case init of
           None \<Rightarrow> luaG_runerror E L (LUA_QL ''for'' @ '' initial value must be a number'')
         | Some a \<Rightarrow> bnd (to_number_at L (ra + 1)) (\<lambda>limit.
             case limit of
               None \<Rightarrow> luaG_runerror E L (LUA_QL ''for'' @ '' limit must be a number'')
             | Some _ \<Rightarrow> bnd (to_number_at L (ra + 2)) (\<lambda>step.
                 case step of
                   None \<Rightarrow> luaG_runerror E L (LUA_QL ''for'' @ '' step must be a number'')
                 | Some s \<Rightarrow> bnd (sset L ra (VNumber (num_sub a s))) (\<lambda>_. jump_to pc (GETARG_sBx i)))))))"

definition op_tforloop :: "env \<Rightarrow> ptr \<Rightarrow> frame \<Rightarrow> nat \<Rightarrow> Instruction \<Rightarrow> turn vm" where
  "op_tforloop E L fr pc i =
     (let ra = reg fr (GETARG_A i); cb = ra + 3
      in bnd (sget L (ra + 2)) (\<lambda>v. bnd (sset L (cb + 2) v) (\<lambda>_.
         bnd (sget L (ra + 1)) (\<lambda>v. bnd (sset L (cb + 1) v) (\<lambda>_.
         bnd (sget L ra) (\<lambda>v. bnd (sset L cb v) (\<lambda>_.
         bnd (set_top L (cb + 3)) (\<lambda>_.
         bnd (protect L pc (call E L cb (GETARG_C i))) (\<lambda>_.
         bnd (cur_ci L) (\<lambda>ci. bnd (set_top L (ci_top ci)) (\<lambda>_.
         bnd (thread L) (\<lambda>t.
         let cb = L_base t + nat (GETARG_A i) + 3
         in bnd (sget L cb) (\<lambda>v.
            bnd (if v \<noteq> VNil then sset L (cb - 1) v else ret ()) (\<lambda>_.
            test_jump fr pc (v \<noteq> VNil)))))))))))))))"

section \<open>Tables and closures\<close>

abbreviation LFIELDS_PER_FLUSH :: int where "LFIELDS_PER_FLUSH \<equiv> 50"

definition op_newtable :: "env \<Rightarrow> ptr \<Rightarrow> frame \<Rightarrow> nat \<Rightarrow> Instruction \<Rightarrow> unit vm" where
  "op_newtable E L fr pc i =
     bnd (lift0 (\<lambda>g. rbind (luaO_fb2int (GETARG_B i)) (\<lambda>b. rbind (luaO_fb2int (GETARG_C i)) (\<lambda>c. Ok ((b, c), g))))) (\<lambda>(b, c).
     bnd (new_table E L (nat b) (nat c)) (\<lambda>h.
     bnd (sset L (reg fr (GETARG_A i)) (VTable h)) (\<lambda>_. protect L pc (luaC_checkGC E L))))"

definition heap_resizearray :: "ptr \<Rightarrow> nat \<Rightarrow> unit gc" where
  "heap_resizearray p n =
     sbind (gco2h p) (\<lambda>h g. rbind (luaH_resizearray (str_hash g) h n) (\<lambda>h'.
       sbind (put_table p h h') (\<lambda>_. for_each (luaC_barriert p) (reinserted (node h))) g))"

text \<open>The values above \<open>ra\<close> are stored, the last first.\<close>

primrec setlist_loop :: "env \<Rightarrow> ptr \<Rightarrow> ptr \<Rightarrow> nat \<Rightarrow> int \<Rightarrow> nat \<Rightarrow> unit vm" where
  "setlist_loop E L h ra e 0 = ret ()"
| "setlist_loop E L h ra e (Suc n) =
     bnd (sget L (ra + Suc n)) (\<lambda>v.
     bnd (lift E L (heap_setnum h e)) (\<lambda>s.
     bnd (lift0 (sbind (store_slot h s v) (\<lambda>_. luaC_barriert h v))) (\<lambda>_.
     setlist_loop E L h ra (e - 1) n)))"

definition op_setlist :: "env \<Rightarrow> ptr \<Rightarrow> frame \<Rightarrow> nat \<Rightarrow> Instruction \<Rightarrow> turn vm" where
  "op_setlist E L fr pc i =
     (let ra = reg fr (GETARG_A i)
      in bnd (thread L) (\<lambda>t.
         bnd (if GETARG_B i = 0 then
                bnd (cur_ci L) (\<lambda>ci. bnd (set_top L (ci_top ci)) (\<lambda>_. ret (int (L_top t) - int ra - 1)))
              else ret (GETARG_B i)) (\<lambda>n.
         bnd (if GETARG_C i = 0 then bnd (fetch_at (fr_proto fr) pc) (\<lambda>c. ret (sint c, pc + 1))
              else ret (GETARG_C i, pc)) (\<lambda>(c, pc).
         bnd (sget L ra) (\<lambda>v.
         case v of
           VTable h \<Rightarrow>
             let e = (c - 1) * LFIELDS_PER_FLUSH + n
             in if \<not> in_int e \<or> \<not> in_int ((c - 1) * LFIELDS_PER_FLUSH) then wild
                else bnd (lift0 (gco2h h)) (\<lambda>tab.
                     bnd (if int (length (array tab)) < e then lift E L (heap_resizearray h (nat e)) else ret ()) (\<lambda>_.
                     bnd (setlist_loop E L h ra e (nat n)) (\<lambda>_. ret (Continue pc))))
         | _ \<Rightarrow> ret (Continue pc))))))"

text \<open>Each upvalue comes from the running function or is found on the stack.\<close>

primrec closure_upvals :: "env \<Rightarrow> ptr \<Rightarrow> frame \<Rightarrow> ptr \<Rightarrow> nat \<Rightarrow> nat \<Rightarrow> nat \<Rightarrow> unit vm" where
  "closure_upvals E L fr ncl pc j 0 = ret ()"
| "closure_upvals E L fr ncl pc j (Suc n) =
     bnd (fetch_at (fr_proto fr) pc) (\<lambda>i.
     bnd (if GET_OPCODE i = op_num OP_GETUPVAL then get_upval fr (GETARG_B i)
          else lift0 (\<lambda>g. luaF_findupval L (fr_base fr + nat (GETARG_B i)) (alloc E g) g)) (\<lambda>u.
     bnd (lift0 (gco2cl ncl)) (\<lambda>c.
     case c of
       LClosure e f us \<Rightarrow>
         bnd (lift0 (set_body ncl (OClosure (LClosure e f (us[j := Some u]))))) (\<lambda>_.
         closure_upvals E L fr ncl (pc + 1) (j + 1) n)
     | CClosure _ _ _ \<Rightarrow> wild)))"

definition op_closure :: "env \<Rightarrow> ptr \<Rightarrow> frame \<Rightarrow> nat \<Rightarrow> Instruction \<Rightarrow> turn vm" where
  "op_closure E L fr pc i =
     (let bx = nat (GETARG_Bx i)
      in if length (h_p (fr_proto fr)) \<le> bx then wild
         else case h_p (fr_proto fr) ! bx of
           None \<Rightarrow> wild
         | Some f \<Rightarrow>
             bnd (lift0 (gco2p f)) (\<lambda>p.
             let nup = unat (h_nups p)
             in bnd (lift0 (\<lambda>g. luaF_newLclosure f nup (fr_env fr) (alloc E g) g)) (\<lambda>ncl.
                bnd (closure_upvals E L fr ncl pc 0 nup) (\<lambda>_.
                bnd (sset L (reg fr (GETARG_A i)) (VFunction ncl)) (\<lambda>_.
                bnd (protect L (pc + nup) (luaC_checkGC E L)) (\<lambda>_.
                ret (Continue (pc + nup))))))))"

primrec vararg_loop :: "ptr \<Rightarrow> nat \<Rightarrow> nat \<Rightarrow> nat \<Rightarrow> nat \<Rightarrow> nat \<Rightarrow> unit vm" where
  "vararg_loop L ra first n j 0 = ret ()"
| "vararg_loop L ra first n j (Suc k) =
     bnd (if j < n then bnd (sget L (first + j)) (\<lambda>v. sset L (ra + j) v) else sset L (ra + j) VNil) (\<lambda>_.
     vararg_loop L ra first n (Suc j) k)"

definition op_vararg :: "env \<Rightarrow> ptr \<Rightarrow> frame \<Rightarrow> nat \<Rightarrow> Instruction \<Rightarrow> unit vm" where
  "op_vararg E L fr pc i =
     bnd (cur_ci L) (\<lambda>ci.
     let b = GETARG_B i - 1; n = int (ci_base ci) - int (ci_func ci) - uint (h_numparams (fr_proto fr)) - 1
     in if n < 0 then wild
        else
          bnd (if b = LUA_MULTRET then
                 bnd (protect L pc (luaD_checkstack L (nat n))) (\<lambda>_.
                 bnd (thread L) (\<lambda>t.
                 let ra = L_base t + nat (GETARG_A i)
                 in bnd (set_top L (ra + nat n)) (\<lambda>_. ret (ra, n))))
               else ret (reg fr (GETARG_A i), b)) (\<lambda>(ra, b).
          vararg_loop L ra (ci_base ci - nat n) (nat n) 0 (nat b)))"

section \<open>One turn\<close>

definition traceexec :: "env \<Rightarrow> ptr \<Rightarrow> nat \<Rightarrow> unit vm" where
  "traceexec E L pc =
     bnd (thread L) (\<lambda>t.
     let mask = L_hookmask t; oldpc = L_savedpc t
     in bnd (upd_thread L (\<lambda>t. t\<lparr>L_savedpc := pc\<rparr>)) (\<lambda>_.
        bnd (if 4 < mask \<and> L_hookcount t = 0 then
               bnd (upd_thread L (\<lambda>t. t\<lparr>L_hookcount := L_basehookcount t\<rparr>)) (\<lambda>_.
               luaD_callhook E L LUA_HOOKCOUNT (- 1))
             else ret ()) (\<lambda>_.
        if bit mask 2 then
          bnd (current L) (\<lambda>fr.
          bnd (getline (fr_proto fr) (int pc - 1)) (\<lambda>newline.
          bnd (if pc = 1 \<or> pc \<le> oldpc then ret True
               else bnd (getline (fr_proto fr) (int oldpc - 1)) (\<lambda>l. ret (newline \<noteq> l))) (\<lambda>c.
          if c then luaD_callhook E L LUA_HOOKLINE newline else ret ())))
        else ret ())))"

text \<open>The \<open>switch\<close>; \<open>pc\<close> is already past the instruction \<open>i\<close>.\<close>

definition vm_switch :: "env \<Rightarrow> ptr \<Rightarrow> frame \<Rightarrow> nat \<Rightarrow> nat \<Rightarrow> Instruction \<Rightarrow> OpCode \<Rightarrow> turn vm" where
  "vm_switch E L fr nexec pc i op =
     (let A = GETARG_A i; B = GETARG_B i; C = GETARG_C i; ra = reg fr A
      in case op of
        OP_MOVE \<Rightarrow> go_on pc (bnd (get_reg L fr B) (\<lambda>rb. sset L ra (fst rb)))
      | OP_LOADK \<Rightarrow> go_on pc (bnd (get_k fr (GETARG_Bx i)) (\<lambda>k. sset L ra (fst k)))
      | OP_LOADBOOL \<Rightarrow> go_on (if C \<noteq> 0 then pc + 1 else pc) (sset L ra (VBoolean (word_of_int B)))
      | OP_LOADNIL \<Rightarrow> go_on pc (op_loadnil L fr A B)
      | OP_GETUPVAL \<Rightarrow> go_on pc (bnd (get_upval fr B) (\<lambda>u. bnd (read_upval u) (\<lambda>v. sset L ra v)))
      | OP_GETGLOBAL \<Rightarrow> go_on pc (bnd (get_k fr (GETARG_Bx i)) (\<lambda>k.
          protect L pc (luaV_gettable E L (VTable (fr_env fr), None) (fst k) ra)))
      | OP_GETTABLE \<Rightarrow> go_on pc (bnd (get_reg L fr B) (\<lambda>t. bnd (get_rk L fr C) (\<lambda>key.
          protect L pc (luaV_gettable E L t (fst key) ra))))
      | OP_SETGLOBAL \<Rightarrow> go_on pc (bnd (get_k fr (GETARG_Bx i)) (\<lambda>k. bnd (sget L ra) (\<lambda>v.
          protect L pc (luaV_settable E L (VTable (fr_env fr), None) (fst k) v))))
      | OP_SETUPVAL \<Rightarrow> go_on pc (bnd (get_upval fr B) (\<lambda>u. bnd (sget L ra) (\<lambda>v. write_upval u v)))
      | OP_SETTABLE \<Rightarrow> go_on pc (bnd (get_reg L fr A) (\<lambda>t. bnd (get_rk L fr B) (\<lambda>key. bnd (get_rk L fr C) (\<lambda>v.
          protect L pc (luaV_settable E L t (fst key) (fst v))))))
      | OP_NEWTABLE \<Rightarrow> go_on pc (op_newtable E L fr pc i)
      | OP_SELF \<Rightarrow> go_on pc (bnd (get_reg L fr B) (\<lambda>rb. bnd (sset L (ra + 1) (fst rb)) (\<lambda>_.
          bnd (get_reg L fr B) (\<lambda>rb. bnd (get_rk L fr C) (\<lambda>key.
          protect L pc (luaV_gettable E L rb (fst key) ra))))))
      | OP_ADD \<Rightarrow> go_on pc (arith_op E L fr pc i TM_ADD)
      | OP_SUB \<Rightarrow> go_on pc (arith_op E L fr pc i TM_SUB)
      | OP_MUL \<Rightarrow> go_on pc (arith_op E L fr pc i TM_MUL)
      | OP_DIV \<Rightarrow> go_on pc (arith_op E L fr pc i TM_DIV)
      | OP_MOD \<Rightarrow> go_on pc (arith_op E L fr pc i TM_MOD)
      | OP_POW \<Rightarrow> go_on pc (arith_op E L fr pc i TM_POW)
      | OP_UNM \<Rightarrow> go_on pc (op_unm E L fr pc i)
      | OP_BOR \<Rightarrow> go_on pc (logic_op E L fr pc i TM_BOR)
      | OP_BAND \<Rightarrow> go_on pc (logic_op E L fr pc i TM_BAND)
      | OP_BXOR \<Rightarrow> go_on pc (logic_op E L fr pc i TM_BXOR)
      | OP_BLSHFT \<Rightarrow> go_on pc (logic_op E L fr pc i TM_BLSHFT)
      | OP_BRSHFT \<Rightarrow> go_on pc (logic_op E L fr pc i TM_BRSHFT)
      | OP_BNOT \<Rightarrow> go_on pc (op_bnot E L fr pc i)
      | OP_NOT \<Rightarrow> go_on pc (bnd (get_reg L fr B) (\<lambda>rb. sset L ra (bool_value (l_isfalse (fst rb)))))
      | OP_LEN \<Rightarrow> go_on pc (op_len E L fr pc i)
      | OP_CONCAT \<Rightarrow> go_on pc (op_concat E L fr pc i)
      | OP_JMP \<Rightarrow> jump_to pc (GETARG_sBx i)
      | OP_EQ \<Rightarrow> bnd (get_rk L fr B) (\<lambda>rb. bnd (get_rk L fr C) (\<lambda>rc.
          bnd (protect L pc (equalobj E L (fst rb) (fst rc))) (\<lambda>c. test_jump fr pc (of_bool c = A))))
      | OP_LT \<Rightarrow> bnd (get_rk L fr B) (\<lambda>rb. bnd (get_rk L fr C) (\<lambda>rc.
          bnd (protect L pc (luaV_lessthan E L (fst rb) (fst rc))) (\<lambda>c. test_jump fr pc (of_bool c = A))))
      | OP_LE \<Rightarrow> bnd (get_rk L fr B) (\<lambda>rb. bnd (get_rk L fr C) (\<lambda>rc.
          bnd (protect L pc (lessequal E L (fst rb) (fst rc))) (\<lambda>c. test_jump fr pc (of_bool c = A))))
      | OP_TEST \<Rightarrow> bnd (sget L ra) (\<lambda>v. test_jump fr pc (of_bool (l_isfalse v) \<noteq> C))
      | OP_TESTSET \<Rightarrow> bnd (get_reg L fr B) (\<lambda>rb.
          let c = (of_bool (l_isfalse (fst rb)) \<noteq> C)
          in bnd (if c then sset L ra (fst rb) else ret ()) (\<lambda>_. test_jump fr pc c))
      | OP_CALL \<Rightarrow> op_call E L fr nexec pc i
      | OP_TAILCALL \<Rightarrow> op_tailcall E L fr nexec pc i
      | OP_RETURN \<Rightarrow> op_return E L fr nexec pc i
      | OP_FORLOOP \<Rightarrow> op_forloop L fr pc i
      | OP_FORPREP \<Rightarrow> op_forprep E L fr pc i
      | OP_TFORLOOP \<Rightarrow> op_tforloop E L fr pc i
      | OP_SETLIST \<Rightarrow> op_setlist E L fr pc i
      | OP_CLOSE \<Rightarrow> go_on pc (lift0 (luaF_close L ra))
      | OP_CLOSURE \<Rightarrow> op_closure E L fr pc i
      | OP_VARARG \<Rightarrow> go_on pc (op_vararg E L fr pc i))"

text \<open>The hooks of the loop; the result tells whether the hook yielded.\<close>

definition vm_hooks :: "env \<Rightarrow> ptr \<Rightarrow> nat \<Rightarrow> bool vm" where
  "vm_hooks E L pc =
     bnd (thread L) (\<lambda>t.
     if L_hookmask t AND 12 = 0 then ret False
     else
       bnd (upd_thread L (\<lambda>t. t\<lparr>L_hookcount := L_hookcount t - 1\<rparr>)) (\<lambda>_.
       if L_hookcount t - 1 = 0 \<or> bit (L_hookmask t) 2 then
         bnd (traceexec E L pc) (\<lambda>_. bnd (thread L) (\<lambda>t.
           if L_status t = 1
           then bnd (upd_thread L (\<lambda>t. t\<lparr>L_savedpc := pc - 1\<rparr>)) (\<lambda>_. ret True)
           else ret False))
       else ret False))"

text \<open>A word that is no opcode has no case in the \<open>switch\<close>: the loop goes on after it.\<close>

definition vm_step :: "env \<Rightarrow> ptr \<Rightarrow> nat \<Rightarrow> nat \<Rightarrow> turn vm" where
  "vm_step E L nexec pc =
     bnd (current L) (\<lambda>fr.
     bnd (fetch_at (fr_proto fr) pc) (\<lambda>i.
     bnd (vm_hooks E L (pc + 1)) (\<lambda>stop.
     if stop then ret Finished
     else bnd (current L) (\<lambda>fr.
       case op_of (GET_OPCODE i) of
         None \<Rightarrow> ret (Continue (pc + 1))
       | Some op \<Rightarrow> vm_switch E L fr nexec (pc + 1) i op))))"

section \<open>The loop\<close>

abbreviation (input) LUAI_MAXCCALLS :: nat where "LUAI_MAXCCALLS \<equiv> 200"

text \<open>\<open>++L->nCcalls\<close> and its checks\<close>

definition enter_C_call :: "env \<Rightarrow> ptr \<Rightarrow> unit vm" where
  "enter_C_call E L =
     bnd (upd_thread L (\<lambda>t. t\<lparr>L_nCcalls := L_nCcalls t + 1\<rparr>)) (\<lambda>_.
     bnd (thread L) (\<lambda>t.
       if L_nCcalls t = LUAI_MAXCCALLS then luaG_runerror E L ''C stack overflow''
       else if LUAI_MAXCCALLS + LUAI_MAXCCALLS div 8 \<le> L_nCcalls t then luaD_throw LUA_ERRERR
       else ret ()))"

text \<open>
  \<open>execute f E L nexec pc\<close> is the loop from the position \<open>pc\<close> on. The fuel bounds the turns and
  the depth of calls.
\<close>

fun luaD_call :: "nat \<Rightarrow> env \<Rightarrow> ptr \<Rightarrow> nat \<Rightarrow> int \<Rightarrow> unit vm"
  and execute :: "nat \<Rightarrow> env \<Rightarrow> ptr \<Rightarrow> nat \<Rightarrow> nat \<Rightarrow> unit vm" where
  "luaD_call 0 E L func nResults = (\<lambda>g. Loop)"
| "luaD_call (Suc f) E L func nResults =
     bnd (enter_C_call (E\<lparr>call := luaD_call f E\<rparr>) L) (\<lambda>_.
     bnd (luaD_precall (E\<lparr>call := luaD_call f E\<rparr>) L func nResults) (\<lambda>r.
     bnd (if r = PCRLUA then bnd (thread L) (\<lambda>t. execute f E L 1 (L_savedpc t)) else ret ()) (\<lambda>_.
     bnd (upd_thread L (\<lambda>t. t\<lparr>L_nCcalls := L_nCcalls t - 1\<rparr>)) (\<lambda>_.
     luaC_checkGC (E\<lparr>call := luaD_call f E\<rparr>) L))))"
| "execute 0 E L nexec pc = (\<lambda>g. Loop)"
| "execute (Suc f) E L nexec pc =
     bnd (vm_step (E\<lparr>call := luaD_call f E\<rparr>) L nexec pc) (\<lambda>r.
       case r of
         Continue pc' \<Rightarrow> execute f E L nexec pc'
       | Reentry n \<Rightarrow> bnd (thread L) (\<lambda>t. execute f E L n (L_savedpc t))
       | Finished \<Rightarrow> ret ())"

definition luaV_execute :: "nat \<Rightarrow> env \<Rightarrow> ptr \<Rightarrow> nat \<Rightarrow> unit vm" where
  "luaV_execute f E L nexeccalls = bnd (thread L) (\<lambda>t. execute f E L nexeccalls (L_savedpc t))"

end
