(* ===== verification/LuaMarkSpec.thy ===== *)
theory LuaMarkSpec
  imports LuaSweep
begin

text \<open>
  The references between objects, the invariant of the mark phase and the steps that keep it.
\<close>

section \<open>References\<close>

text \<open>The tag of an object: a value that refers to it has the same.\<close>

fun kind :: "body \<Rightarrow> nat" where
  "kind (OString _) = 4"
| "kind (OTable _) = 5"
| "kind (OClosure _) = 6"
| "kind (OUdata _) = 7"
| "kind (OThread _) = 8"
| "kind (OProto _) = 9"
| "kind (OUpVal _) = 10"

definition vref :: "TValue \<Rightarrow> (nat \<times> ptr) set" where
  "vref v = (if iscollectable v \<and> ttype v \<noteq> 11 then {(ttype v, gcvalue v)} else {})"

definition oref :: "nat \<Rightarrow> ptr option \<Rightarrow> (nat \<times> ptr) set" where
  "oref k q = (case q of None \<Rightarrow> {} | Some p \<Rightarrow> {(k, p)})"

type_synonym objects = "ptr \<Rightarrow> body option"

definition slot_at :: "objects \<Rightarrow> ptr \<Rightarrow> nat \<Rightarrow> TValue" where
  "slot_at B th i =
     (case B th of Some (OThread t) \<Rightarrow> (if i < length (L_stack t) then L_stack t ! i else VNil) | _ \<Rightarrow> VNil)"

definition node_refs :: "Node \<Rightarrow> (nat \<times> ptr) set" where
  "node_refs n = (if i_val n = VNil then {} else vref (i_key n) \<union> vref (i_val n))"

text \<open>The references of a table through its metatable and its array\<close>

definition mrefs :: "body \<Rightarrow> (nat \<times> ptr) set" where
  "mrefs b = (case b of OTable h \<Rightarrow> oref 5 (metatable h) | _ \<Rightarrow> {})"

definition arefs :: "body \<Rightarrow> (nat \<times> ptr) set" where
  "arefs b = (case b of OTable h \<Rightarrow> \<Union> (vref ` set (array h)) | _ \<Rightarrow> {})"

fun refs :: "objects \<Rightarrow> body \<Rightarrow> (nat \<times> ptr) set" where
  "refs B (OString s) = {}"
| "refs B (OUdata u) = oref 5 (u_metatable u) \<union> {(5, u_env u)}"
| "refs B (OUpVal (Closed v)) = vref v"
| "refs B (OUpVal (Open th i)) = vref (slot_at B th i)"
| "refs B (OClosure (CClosure e f uvs)) = {(5, e)} \<union> \<Union> (vref ` set uvs)"
| "refs B (OClosure (LClosure e f uvs)) = {(5, e), (9, f)} \<union> \<Union> (oref 10 ` set uvs)"
| "refs B (OTable h) = oref 5 (metatable h) \<union> \<Union> (vref ` set (array h)) \<union> \<Union> (node_refs ` set (node h))"
| "refs B (OThread t) = vref (L_gt t) \<union> \<Union> (vref ` set (take (L_top t) (L_stack t)))"
| "refs B (OProto f) = oref 4 (h_source f) \<union> \<Union> (vref ` set (h_k f)) \<union> \<Union> (oref 4 ` set (h_upvalues f))
     \<union> \<Union> (oref 9 ` set (h_p f)) \<union> \<Union> ((\<lambda>(n, s, e). oref 4 n) ` set (h_locvars f))"

definition is_obj :: "objects \<Rightarrow> nat \<Rightarrow> ptr \<Rightarrow> bool" where
  "is_obj B k p \<longleftrightarrow> (\<exists>b. B p = Some b \<and> kind b = k)"

text \<open>An upvalue whose value is in a stack\<close>

fun open_body :: "body \<Rightarrow> bool" where
  "open_body (OUpVal (Open th i)) = True"
| "open_body b = False"

text \<open>What the code relies on inside an object\<close>

definition node_ok :: "Node \<Rightarrow> bool" where
  "node_ok n \<longleftrightarrow> (i_val n \<noteq> VNil \<longrightarrow> ttype (i_key n) \<noteq> 11)"

definition table_shape :: "Table \<Rightarrow> bool" where
  "table_shape h \<longleftrightarrow> links_ok (node h) \<and> length (node h) = 2 ^ lsizenode h \<and> (\<forall>n \<in> set (node h). node_ok n)
     \<and> (\<forall>v \<in> set (array h). ttype v \<noteq> 11) \<and> (\<forall>n \<in> set (node h). ttype (i_val n) \<noteq> 11)"

definition thread_shape :: "lua_State \<Rightarrow> bool" where
  "thread_shape t \<longleftrightarrow> stack_limit t < length (L_stack t) \<and> L_ci t < length (L_base_ci t)
     \<and> (\<forall>v \<in> set (L_stack t). ttype v \<noteq> 11) \<and> ttype (L_gt t) \<noteq> 11"

fun shape :: "objects \<Rightarrow> body \<Rightarrow> bool" where
  "shape B (OTable h) = table_shape h"
| "shape B (OThread t) = thread_shape t"
| "shape B (OUpVal (Open th i)) = (\<exists>t. B th = Some (OThread t) \<and> i \<le> stack_limit t)"
| "shape B (OUpVal (Closed v)) = (ttype v \<noteq> 11)"
| "shape B (OClosure (LClosure e f uvs)) = (None \<notin> set uvs)"
| "shape B (OClosure (CClosure e f uvs)) = (\<forall>v \<in> set uvs. ttype v \<noteq> 11)"
| "shape B (OProto f) = (\<forall>v \<in> set (h_k f). ttype v \<noteq> 11)"
| "shape B b = True"

text \<open>Every reference leads to an object of its kind.\<close>

definition wf_store :: "objects \<Rightarrow> bool" where
  "wf_store B \<longleftrightarrow> (\<forall>p b. B p = Some b \<longrightarrow> shape B b \<and> (\<forall>(k, q) \<in> refs B b. is_obj B k q))"

section \<open>The invariant\<close>

definition bodies :: "global_State \<Rightarrow> objects" where
  "bodies g p = map_option body (heap g p)"

definition nonwhite :: "global_State \<Rightarrow> ptr \<Rightarrow> bool" where
  "nonwhite g p \<longleftrightarrow> (\<exists>x. heap g p = Some x \<and> \<not> iswhite (marked x))"

abbreviation all_nonwhite :: "global_State \<Rightarrow> (nat \<times> ptr) set \<Rightarrow> bool" where
  "all_nonwhite g R \<equiv> (\<forall>(k, q) \<in> R. nonwhite g q)"

text \<open>
  An object whose references are all marked. Of a table in the list of weak tables the entries may
  not be marked, and the array part when its values are weak.
\<close>

definition traced :: "global_State \<Rightarrow> ptr \<Rightarrow> GCObject \<Rightarrow> bool" where
  "traced g p x \<longleftrightarrow> all_nonwhite g (mrefs (body x)) \<and>
     (all_nonwhite g (refs (bodies g) (body x))
      \<or> p \<in> set (weak g) \<and> (bit (marked x) VALUEWEAKBIT \<or> all_nonwhite g (arefs (body x))))"

text \<open>The tri-colour invariant: marked objects are in the gray list, in \<open>A\<close>, or traced.\<close>

definition tri :: "ptr set \<Rightarrow> global_State \<Rightarrow> bool" where
  "tri A g \<longleftrightarrow> (\<forall>p x. heap g p = Some x \<longrightarrow> \<not> iswhite (marked x) \<longrightarrow> p \<in> set (gray g) \<or> p \<in> A \<or> traced g p x)"

definition lists_ok :: "global_State \<Rightarrow> bool" where
  "lists_ok g \<longleftrightarrow>
     (\<forall>p \<in> set (gray g). nonwhite g p \<and> (is_obj (bodies g) 5 p \<or> is_obj (bodies g) 6 p \<or> is_obj (bodies g) 8 p \<or> is_obj (bodies g) 9 p))
   \<and> (\<forall>p \<in> set (grayagain g). nonwhite g p \<and> (is_obj (bodies g) 5 p \<or> is_obj (bodies g) 8 p))
   \<and> (\<forall>p \<in> set (weak g). nonwhite g p \<and> is_obj (bodies g) 5 p)"

definition good_value :: "global_State \<Rightarrow> TValue \<Rightarrow> bool" where
  "good_value g v \<longleftrightarrow> ttype v \<noteq> 11 \<and> (\<forall>(k, q) \<in> vref v. is_obj (bodies g) k q)"

text \<open>What the global state itself refers to; the userdata follow the main thread in the list of all objects.\<close>

definition globals_ok :: "global_State \<Rightarrow> bool" where
  "globals_ok g \<longleftrightarrow>
     TM_EQ < length (tmname g) \<and> (\<forall>s \<in> set (tmname g). is_obj (bodies g) 4 s)
   \<and> is_obj (bodies g) 8 (mainthread g) \<and> good_value g (l_registry g)
   \<and> (\<forall>q \<in> set (g_mt g). \<forall>(k, m) \<in> oref 5 q. is_obj (bodies g) k m)
   \<and> (\<forall>u \<in> set (snd (before_after (mainthread g) (rootgc g))). is_obj (bodies g) 7 u)
   \<and> (\<forall>u \<in> set (tmudata g). is_obj (bodies g) 7 u)
   \<and> (\<forall>u \<in> set (uvhead g). is_obj (bodies g) 10 u)"

text \<open>Open upvalues are all in their list and are never black.\<close>

definition open_uv :: "objects \<Rightarrow> ptr \<Rightarrow> bool" where
  "open_uv B p \<longleftrightarrow> (\<exists>b. B p = Some b \<and> open_body b)"

definition open_ok :: "global_State \<Rightarrow> bool" where
  "open_ok g \<longleftrightarrow> (\<forall>p x. heap g p = Some x \<longrightarrow> open_body (body x) \<longrightarrow> p \<in> set (uvhead g) \<and> \<not> isblack (marked x))"

lemma open_fields [simp]:
  "open_ok (gray_update f0 g) = open_ok g"
  "open_ok (grayagain_update f1 g) = open_ok g"
  "open_ok (weak_update f2 g) = open_ok g"
  "open_ok (tmudata_update f3 g) = open_ok g"
  "open_ok (rootgc_update f4 g) = open_ok g"
  "open_ok (totalbytes_update f5 g) = open_ok g"
  "open_ok (currentwhite_update f6 g) = open_ok g"
  "open_ok (gcstate_update f7 g) = open_ok g"
  "open_ok (sweepstrgc_update f8 g) = open_ok g"
  "open_ok (sweepgc_update f9 g) = open_ok g"
  "open_ok (estimate_update f10 g) = open_ok g"
  by (simp_all add: open_ok_def)

text \<open>
  An object is not both white and black. One that is neither is in a list; strings and open
  upvalues need not be.
\<close>

definition again :: "global_State \<Rightarrow> ptr set" where
  "again g = set (weak g) \<union> set (grayagain g)"

definition colours :: "ptr set \<Rightarrow> global_State \<Rightarrow> bool" where
  "colours A g \<longleftrightarrow> (\<forall>p x. heap g p = Some x \<longrightarrow> \<not> (iswhite (marked x) \<and> isblack (marked x)) \<and> (isgray (marked x) \<longrightarrow>
     p \<in> set (gray g) \<or> p \<in> again g \<or> p \<in> A \<or> kind (body x) = 4 \<or> open_body (body x)))"

definition inv :: "ptr set \<Rightarrow> global_State \<Rightarrow> bool" where
  "inv A g \<longleftrightarrow> wf_store (bodies g) \<and> globals_ok g \<and> lists_ok g \<and> tri A g \<and> open_ok g \<and> colours A g"

text \<open>
  How the mark phase changes the state: objects stay, keep their kinds, do not become white and do
  not gain references; lists grow.
\<close>

definition body_le :: "objects \<Rightarrow> body \<Rightarrow> objects \<Rightarrow> body \<Rightarrow> bool" where
  "body_le B' b' B b \<longleftrightarrow> kind b' = kind b \<and> refs B' b' \<subseteq> refs B b \<and> arefs b' \<subseteq> arefs b \<and> mrefs b' \<subseteq> mrefs b
     \<and> open_body b' = open_body b"

definition same_frame :: "global_State \<Rightarrow> global_State \<Rightarrow> bool" where
  "same_frame g g' \<longleftrightarrow> strt g' = strt g \<and> currentwhite g' = currentwhite g \<and> gcstate g' = gcstate g
     \<and> mainthread g' = mainthread g \<and> uvhead g' = uvhead g \<and> g_mt g' = g_mt g \<and> tmname g' = tmname g
     \<and> l_registry g' = l_registry g \<and> strt_nuse g' = strt_nuse g"

definition grows :: "global_State \<Rightarrow> global_State \<Rightarrow> bool" where
  "grows g g' \<longleftrightarrow> same_frame g g' \<and> set (weak g) \<subseteq> set (weak g') \<and> set (grayagain g) \<subseteq> set (grayagain g')
     \<and> (\<forall>p. heap g p = None \<longrightarrow> heap g' p = None)
     \<and> (\<forall>p x. heap g p = Some x \<longrightarrow> (\<exists>x'. heap g' p = Some x' \<and> (iswhite (marked x') \<longrightarrow> iswhite (marked x))
          \<and> (isblack (marked x) \<longrightarrow> isblack (marked x') \<or> p \<in> again g')
          \<and> body_le (bodies g') (body x') (bodies g) (body x)))"

lemma black_simps [simp]:
  "isblack (white2gray m) = isblack m" "\<not> isblack (black2gray m)" "isblack (gray2black m)"
  "isblack (set_weak_bits wk wv m) = isblack m" "isblack (markfinalized m) = isblack m" "\<not> isblack (makewhite cw m)"
  by (auto simp: isblack_def white2gray_def gray2black_def black2gray_def set_weak_bits_def Let_def markfinalized_def
      makewhite_def luaC_white_def bit_unset_bit_iff bit_set_bit_iff bit_or_iff bit_and_iff)

lemma body_le_refl [simp]: "body_le B b B b"
  by (simp add: body_le_def)

lemma body_le_trans: "body_le B2 b2 B1 b1 \<Longrightarrow> body_le B1 b1 B0 b0 \<Longrightarrow> body_le B2 b2 B0 b0"
  by (auto simp: body_le_def)

lemma same_frame_refl [simp]: "same_frame g g"
  by (simp add: same_frame_def)

lemma same_frame_trans: "same_frame a b \<Longrightarrow> same_frame b c \<Longrightarrow> same_frame a c"
  by (simp add: same_frame_def)

lemma grows_refl [simp]: "grows g g"
  by (simp add: grows_def)

lemma grows_trans:
  assumes "grows g0 g1" and "grows g1 g2"
  shows "grows g0 g2"
  unfolding grows_def
proof (intro conjI allI impI)
  fix p x
  assume "heap g0 p = Some x"
  then obtain x1 where 1: "heap g1 p = Some x1" "iswhite (marked x1) \<longrightarrow> iswhite (marked x)"
    "isblack (marked x) \<longrightarrow> isblack (marked x1) \<or> p \<in> again g1" "body_le (bodies g1) (body x1) (bodies g0) (body x)"
    using assms(1) unfolding grows_def by blast
  then obtain x2 where 2: "heap g2 p = Some x2" "iswhite (marked x2) \<longrightarrow> iswhite (marked x1)"
    "isblack (marked x1) \<longrightarrow> isblack (marked x2) \<or> p \<in> again g2" "body_le (bodies g2) (body x2) (bodies g1) (body x1)"
    using assms(2) unfolding grows_def by blast
  have "again g1 \<subseteq> again g2" using assms(2) by (auto simp: grows_def again_def)
  then show "\<exists>x'. heap g2 p = Some x' \<and> (iswhite (marked x') \<longrightarrow> iswhite (marked x))
      \<and> (isblack (marked x) \<longrightarrow> isblack (marked x') \<or> p \<in> again g2)
      \<and> body_le (bodies g2) (body x') (bodies g0) (body x)"
    using 1 2 body_le_trans [OF 2(4) 1(4)] by blast
qed (use assms same_frame_trans in \<open>auto simp: grows_def\<close>)

lemma grows_nonwhite: "grows g g' \<Longrightarrow> nonwhite g p \<Longrightarrow> nonwhite g' p"
  unfolding grows_def nonwhite_def by blast

lemma grows_kind: "grows g g' \<Longrightarrow> is_obj (bodies g) k p \<Longrightarrow> is_obj (bodies g') k p"
  unfolding grows_def is_obj_def bodies_def body_le_def by fastforce

text \<open>\<open>r\<close> returns, in a state with the invariant.\<close>

definition marks :: "ptr set \<Rightarrow> ('a \<Rightarrow> global_State \<Rightarrow> bool) \<Rightarrow> global_State \<Rightarrow> ('a \<times> global_State) result \<Rightarrow> bool" where
  "marks A Q g r \<longleftrightarrow> yields (\<lambda>(x, g'). grows g g' \<and> inv A g' \<and> Q x g') r"

lemma marks_Ok [simp]: "marks A Q g (Ok (x, g')) \<longleftrightarrow> grows g g' \<and> inv A g' \<and> Q x g'"
  by (simp add: marks_def)

lemma marksE:
  assumes "marks A Q g r"
  obtains x g' where "r = Ok (x, g')" and "grows g g'" and "inv A g'" and "Q x g'"
  using assms by (auto simp: marks_def yields_def)

lemma marks_bind:
  assumes "marks A P g (m g)"
    and "\<And>x g'. grows g g' \<Longrightarrow> inv A g' \<Longrightarrow> P x g' \<Longrightarrow> marks A' Q g' (f x g')"
  shows "marks A' Q g (sbind m f g)"
  using assms(1)
proof (rule marksE)
  fix x g'
  assume 1: "m g = Ok (x, g')" "grows g g'" "inv A g'" "P x g'"
  from assms(2) [OF 1(2-4)] show ?thesis
    by (rule marksE) (use 1 grows_trans in \<open>auto simp: sbind_def\<close>)
qed

lemma marks_after: "grows g g1 \<Longrightarrow> marks A Q g1 r \<Longrightarrow> marks A Q g r"
  using grows_trans by (fastforce simp: marks_def yields_def)

lemma marks_mono: "marks A P g r \<Longrightarrow> (\<And>x g'. grows g g' \<Longrightarrow> inv A g' \<Longrightarrow> P x g' \<Longrightarrow> Q x g') \<Longrightarrow> marks A Q g r"
  by (auto simp: marks_def yields_def)

lemma marks_ret: "inv A g \<Longrightarrow> Q x g \<Longrightarrow> marks A Q g (sret x g)"
  by (simp add: sret_def)

text \<open>A loop whose steps keep the invariant and what the steps before have reached.\<close>

lemma marks_for_each:
  assumes "inv A g" and "\<And>x g'. x \<in> set xs \<Longrightarrow> grows g g' \<Longrightarrow> inv A g' \<Longrightarrow> marks A (\<lambda>_. P x) g' (f x g')"
    and "\<And>x g1 g2. P x g1 \<Longrightarrow> grows g1 g2 \<Longrightarrow> P x g2"
  shows "marks A (\<lambda>_ g'. \<forall>x \<in> set xs. P x g') g (for_each f xs g)"
  using assms(1,2)
proof (induction xs arbitrary: g)
  case Nil
  then show ?case by (simp add: sret_def)
next
  case (Cons x xs)
  show ?case
    unfolding for_each.simps
  proof (rule marks_bind [where m = "f x" and P = "\<lambda>_. P x"])
    show "marks A (\<lambda>_. P x) g (f x g)" using Cons.prems by simp
    fix u g1
    assume 1: "grows g g1" "inv A g1" "P x g1"
    have "marks A (\<lambda>_ g'. \<forall>x \<in> set xs. P x g') g1 (for_each f xs g1)"
      by (rule Cons.IH [OF 1(2)]) (use Cons.prems(2) grows_trans [OF 1(1)] in auto)
    then show "marks A (\<lambda>_ g'. \<forall>x \<in> set (x # xs). P x g') g1 (for_each f xs g1)"
      by (rule marks_mono) (use assms(3) [OF 1(3)] in auto)
  qed
qed

end
