(* ===== verification/LuaMarkInv.thy ===== *)
theory LuaMarkInv
  imports LuaMarkSpec
begin

text \<open>The assignments of the mark phase keep the invariant.\<close>

section \<open>Assignments\<close>

definition put :: "global_State \<Rightarrow> ptr \<Rightarrow> GCObject \<Rightarrow> global_State" where
  "put g p x = g\<lparr>heap := (heap g)(p \<mapsto> x)\<rparr>"

lemma put_simps [simp]:
  "heap (put g p x) = (heap g)(p \<mapsto> x)" "gray (put g p x) = gray g" "grayagain (put g p x) = grayagain g"
  "weak (put g p x) = weak g" "tmname (put g p x) = tmname g" "mainthread (put g p x) = mainthread g"
  "l_registry (put g p x) = l_registry g" "g_mt (put g p x) = g_mt g" "rootgc (put g p x) = rootgc g"
  "tmudata (put g p x) = tmudata g" "uvhead (put g p x) = uvhead g" "currentwhite (put g p x) = currentwhite g"
  "nonwhite (put g p x) q = (if q = p then \<not> iswhite (marked x) else nonwhite g q)"
  "bodies (put g p x) = (bodies g)(p \<mapsto> body x)" "same_frame g (put g p x)"
  by (auto simp: put_def nonwhite_def bodies_def same_frame_def)

lemma bodies_same: "heap g p = Some x \<Longrightarrow> b = body x \<Longrightarrow> (bodies g)(p \<mapsto> b) = bodies g"
  by (auto simp: bodies_def)

lemma bodies_Some: "heap g p = Some x \<Longrightarrow> bodies g p = Some (body x)"
  by (simp add: bodies_def)

lemma get_obj_Ok: "heap g p = Some x \<Longrightarrow> get_obj p g = Ok (x, g)"
  by (simp add: get_obj_def)

lemma upd_mark_Ok: "heap g p = Some x \<Longrightarrow> upd_mark f p g = Ok ((), put g p (x\<lparr>marked := f (marked x)\<rparr>))"
  by (simp add: upd_mark_def sbind_def get_obj_def set_obj_def put_def)

lemma set_body_Ok: "heap g p = Some x \<Longrightarrow> set_body p b g = Ok ((), put g p (x\<lparr>body := b\<rparr>))"
  by (simp add: set_body_def sbind_def get_obj_def set_obj_def put_def)

lemma set_table_Ok: "heap g p = Some x \<Longrightarrow> set_table p h g = Ok ((), put g p (x\<lparr>body := OTable h\<rparr>))"
  by (simp add: set_table_def set_body_Ok)

lemma gco2h_Ok: "heap g p = Some x \<Longrightarrow> body x = OTable h \<Longrightarrow> gco2h p g = Ok (h, g)"
  by (simp add: gco2h_def sbind_def get_obj_def)

lemma gco2th_Ok: "heap g p = Some x \<Longrightarrow> body x = OThread t \<Longrightarrow> gco2th p g = Ok (t, g)"
  by (simp add: gco2th_def sbind_def get_obj_def)

lemma gco2ts_Ok: "heap g p = Some x \<Longrightarrow> body x = OString t \<Longrightarrow> gco2ts p g = Ok (t, g)"
  by (simp add: gco2ts_def sbind_def get_obj_def)

lemma gco2u_Ok: "heap g p = Some x \<Longrightarrow> body x = OUdata u \<Longrightarrow> gco2u p g = Ok (u, g)"
  by (simp add: gco2u_def sbind_def get_obj_def)

lemma gco2uv_Ok: "heap g p = Some x \<Longrightarrow> body x = OUpVal u \<Longrightarrow> gco2uv p g = Ok (u, g)"
  by (simp add: gco2uv_def sbind_def get_obj_def)

lemma marked_of_Ok: "heap g p = Some x \<Longrightarrow> marked_of p g = Ok (marked x, g)"
  by (simp add: marked_of_def sbind_def get_obj_def sret_def)

text \<open>The first step of a sequence, when it reads or writes an object that is there\<close>

lemma bind_get_obj: "heap g p = Some x \<Longrightarrow> sbind (get_obj p) f g = f x g"
  by (simp add: sbind_def get_obj_Ok)

lemma bind_upd_mark: "heap g p = Some x \<Longrightarrow> sbind (upd_mark m p) f g = f () (put g p (x\<lparr>marked := m (marked x)\<rparr>))"
  by (simp add: sbind_def upd_mark_Ok)

lemma bind_set_body: "heap g p = Some x \<Longrightarrow> sbind (set_body p b) f g = f () (put g p (x\<lparr>body := b\<rparr>))"
  by (simp add: sbind_def set_body_Ok)

lemma bind_set_table: "heap g p = Some x \<Longrightarrow> sbind (set_table p h) f g = f () (put g p (x\<lparr>body := OTable h\<rparr>))"
  by (simp add: sbind_def set_table_Ok)

lemma bind_marked_of: "heap g p = Some x \<Longrightarrow> sbind (marked_of p) f g = f (marked x) g"
  by (simp add: sbind_def marked_of_Ok)

lemma bind_gco:
  "heap g p = Some x \<Longrightarrow> body x = OTable h \<Longrightarrow> sbind (gco2h p) fh g = fh h g"
  "heap g p = Some x \<Longrightarrow> body x = OThread t \<Longrightarrow> sbind (gco2th p) ft g = ft t g"
  "heap g p = Some x \<Longrightarrow> body x = OString s \<Longrightarrow> sbind (gco2ts p) fs g = fs s g"
  "heap g p = Some x \<Longrightarrow> body x = OUdata u \<Longrightarrow> sbind (gco2u p) fu g = fu u g"
  "heap g p = Some x \<Longrightarrow> body x = OUpVal v \<Longrightarrow> sbind (gco2uv p) fv g = fv v g"
  by (simp_all add: sbind_def gco2h_Ok gco2th_Ok gco2ts_Ok gco2u_Ok gco2uv_Ok)

lemma is_objE:
  assumes "is_obj (bodies g) k p"
  obtains x where "heap g p = Some x" and "kind (body x) = k"
  using assms by (auto simp: is_obj_def bodies_def)

lemma kind_cases:
  "kind b = 4 \<Longrightarrow> \<exists>s. b = OString s" "kind b = 5 \<Longrightarrow> \<exists>h. b = OTable h" "kind b = 6 \<Longrightarrow> \<exists>c. b = OClosure c"
  "kind b = 7 \<Longrightarrow> \<exists>u. b = OUdata u" "kind b = 8 \<Longrightarrow> \<exists>t. b = OThread t" "kind b = 9 \<Longrightarrow> \<exists>f. b = OProto f"
  "kind b = 10 \<Longrightarrow> \<exists>u. b = OUpVal u"
  by (cases b; simp)+

lemma inv_parts:
  assumes "inv A g"
  shows "wf_store (bodies g)" and "globals_ok g" and "lists_ok g" and "tri A g" and "open_ok g" and "colours A g"
  using assms by (simp_all add: inv_def)

lemma wf_obj:
  assumes "inv A g" and "heap g p = Some x"
  shows "shape (bodies g) (body x)" and "(k, q) \<in> refs (bodies g) (body x) \<Longrightarrow> is_obj (bodies g) k q"
  using inv_parts(1) [OF assms(1)] bodies_Some [OF assms(2)] unfolding wf_store_def by blast+

lemma inv_mono: "inv A g \<Longrightarrow> A \<subseteq> A' \<Longrightarrow> inv A' g"
  unfolding inv_def tri_def colours_def by blast

section \<open>Marks\<close>

lemma tri_step:
  assumes "tri A g" and "\<And>q. nonwhite g q \<Longrightarrow> nonwhite g' q"
    and "\<And>q x'. heap g' q = Some x' \<Longrightarrow> \<not> iswhite (marked x') \<Longrightarrow> q \<notin> set (gray g') \<Longrightarrow> q \<notin> A' \<Longrightarrow>
      \<exists>x. heap g q = Some x \<and> \<not> iswhite (marked x) \<and> q \<notin> set (gray g) \<and> q \<notin> A
        \<and> body_le (bodies g') (body x') (bodies g) (body x)
        \<and> (q \<in> set (weak g) \<longrightarrow> q \<in> set (weak g')) \<and> bit (marked x') VALUEWEAKBIT = bit (marked x) VALUEWEAKBIT"
  shows "tri A' g'"
  unfolding tri_def
proof (intro allI impI)
  fix q x'
  assume 1: "heap g' q = Some x'" "\<not> iswhite (marked x')"
  show "q \<in> set (gray g') \<or> q \<in> A' \<or> traced g' q x'"
  proof (rule ccontr)
    assume n: "\<not> (q \<in> set (gray g') \<or> q \<in> A' \<or> traced g' q x')"
    then obtain x where x: "heap g q = Some x" "\<not> iswhite (marked x)" "q \<notin> set (gray g)" "q \<notin> A"
      "body_le (bodies g') (body x') (bodies g) (body x)"
      "q \<in> set (weak g) \<longrightarrow> q \<in> set (weak g')" "bit (marked x') VALUEWEAKBIT = bit (marked x) VALUEWEAKBIT"
      using assms(3) [OF 1] by blast
    then have t: "traced g q x" using assms(1) by (auto simp: tri_def)
    have up: "all_nonwhite g R \<Longrightarrow> R' \<subseteq> R \<Longrightarrow> all_nonwhite g' R'" for R R' :: "(nat \<times> ptr) set"
      using assms(2) by fastforce
    have sub: "mrefs (body x') \<subseteq> mrefs (body x)" "arefs (body x') \<subseteq> arefs (body x)"
      "refs (bodies g') (body x') \<subseteq> refs (bodies g) (body x)"
      using x(5) by (simp_all add: body_le_def)
    have m: "all_nonwhite g (mrefs (body x))"
      and o: "all_nonwhite g (refs (bodies g) (body x))
        \<or> q \<in> set (weak g) \<and> (bit (marked x) VALUEWEAKBIT \<or> all_nonwhite g (arefs (body x)))"
      using t by (simp_all add: traced_def)
    from up [OF m sub(1)] o up [OF _ sub(2)] up [OF _ sub(3)] x(6,7) have "traced g' q x'"
      unfolding traced_def by blast
    with n show False by simp
  qed
qed

lemma put_same_body:
  assumes "heap g p = Some x" and "body x' = body x"
  shows "bodies (put g p x') = bodies g"
  using assms by (simp add: bodies_same)

lemma grows_put:
  assumes "heap g p = Some x" and "iswhite (marked x') \<Longrightarrow> iswhite (marked x)"
    and "isblack (marked x) \<Longrightarrow> isblack (marked x') \<or> p \<in> again g"
    and "\<And>q y. heap g q = Some y \<Longrightarrow> q \<noteq> p \<Longrightarrow> body_le (bodies (put g p x')) (body y) (bodies g) (body y)"
    and "body_le (bodies (put g p x')) (body x') (bodies g) (body x)"
  shows "grows g (put g p x')"
  unfolding grows_def using assms by (auto simp: again_def)

lemma grows_put_mark:
  assumes "heap g p = Some x" and "body x' = body x" and "iswhite (marked x') \<Longrightarrow> iswhite (marked x)"
    and "isblack (marked x) \<Longrightarrow> isblack (marked x') \<or> p \<in> again g"
  shows "grows g (put g p x')"
  by (rule grows_put [OF assms(1)]) (use assms put_same_body [OF assms(1,2)] in auto)

lemma open_put:
  assumes "open_ok g" and "heap g p = Some x"
    and "open_body (body x') \<Longrightarrow> open_body (body x) \<and> (isblack (marked x') \<longrightarrow> isblack (marked x))"
  shows "open_ok (put g p x')"
  using assms by (auto simp: open_ok_def)

text \<open>An object that stops being white, until its references are marked\<close>

lemma inv_mark:
  assumes "inv A g" and p: "heap g p = Some x" and b: "body x' = body x" and w: "\<not> iswhite (marked x')"
    and bl: "isblack (marked x') \<Longrightarrow> isblack (marked x) \<or> \<not> open_body (body x)"
  shows "inv (insert p A) (put g p x')" and "(isblack (marked x) \<Longrightarrow> isblack (marked x')) \<Longrightarrow> grows g (put g p x')"
proof -
  note same = put_same_body [OF p b]
  have up: "nonwhite g q \<Longrightarrow> nonwhite (put g p x') q" for q using w by simp
  have op: "open_ok (put g p x')" by (rule open_put [OF inv_parts(5) [OF assms(1)] p]) (use b bl in auto)
  have li: "colours (insert p A) (put g p x')"
    using inv_parts(6) [OF assms(1)] w by (auto simp: colours_def again_def)
  have "tri (insert p A) (put g p x')"
    by (rule tri_step [OF inv_parts(4) [OF assms(1)]], rule up, assumption) (use same in \<open>auto split: if_splits\<close>)
  moreover have "lists_ok (put g p x')"
    using inv_parts(3) [OF assms(1)] same w by (auto simp: lists_ok_def)
  ultimately show "inv (insert p A) (put g p x')"
    using inv_parts(1,2) [OF assms(1)] same op li
    by (simp add: inv_def globals_ok_def good_value_def)
  show "(isblack (marked x) \<Longrightarrow> isblack (marked x')) \<Longrightarrow> grows g (put g p x')"
    by (rule grows_put_mark [OF p b]) (use w in simp_all)
qed

lemma inv_recolour:
  assumes "inv A g" and p: "heap g p = Some x" and b: "body x' = body x" and w: "iswhite (marked x') = iswhite (marked x)"
    and v: "bit (marked x') VALUEWEAKBIT = bit (marked x) VALUEWEAKBIT \<or> p \<in> A"
    and bl: "isblack (marked x') \<Longrightarrow> isblack (marked x) \<or> \<not> open_body (body x) \<and> \<not> iswhite (marked x)"
    and gb: "isblack (marked x) \<Longrightarrow> isblack (marked x') \<or> p \<in> again g"
  shows "inv A (put g p x')" and "grows g (put g p x')"
proof -
  note same = put_same_body [OF p b]
  have eq: "nonwhite (put g p x') q = nonwhite g q" for q using w p by (auto simp: nonwhite_def)
  have op: "open_ok (put g p x')" by (rule open_put [OF inv_parts(5) [OF assms(1)] p]) (use b bl in auto)
  have li: "colours A (put g p x')"
    using inv_parts(6) [OF assms(1)] p b w gb bl by (auto simp: colours_def again_def isgray_def)
  have "tri A (put g p x')"
    by (rule tri_step [OF inv_parts(4) [OF assms(1)]], simp only: eq)
       (use same p b w v in \<open>auto simp: split: if_splits\<close>)
  moreover have "lists_ok (put g p x')"
    using inv_parts(3) [OF assms(1)] unfolding lists_ok_def eq same by simp
  ultimately show "inv A (put g p x')"
    using inv_parts(1,2) [OF assms(1)] same op li
    by (simp add: inv_def globals_ok_def good_value_def)
  show "grows g (put g p x')" by (rule grows_put_mark [OF p b]) (use w gb in simp_all)
qed

text \<open>An object is done, or goes to the gray list.\<close>

definition settled :: "ptr \<Rightarrow> global_State \<Rightarrow> bool" where
  "settled p g \<longleftrightarrow> (\<forall>x. heap g p = Some x \<longrightarrow> isblack (marked x) \<or> p \<in> again g \<or> kind (body x) = 4 \<or> open_body (body x))"

lemma settled_grows:
  assumes "settled p g" and "heap g p = Some x" and "grows g g'"
  shows "settled p g'"
proof -
  have "again g \<subseteq> again g'" using assms(3) by (auto simp: grows_def again_def)
  with assms show ?thesis unfolding settled_def grows_def body_le_def by fastforce
qed

lemma inv_drop:
  assumes "inv (insert p A) g" and "\<And>x. heap g p = Some x \<Longrightarrow> \<not> iswhite (marked x) \<Longrightarrow> traced g p x"
    and "settled p g"
  shows "inv A g"
  using assms unfolding inv_def tri_def colours_def isgray_def settled_def by blast

lemma inv_push_gray:
  assumes "inv (insert p A) g" and "nonwhite g p"
    and "is_obj (bodies g) 5 p \<or> is_obj (bodies g) 6 p \<or> is_obj (bodies g) 8 p \<or> is_obj (bodies g) 9 p"
  shows "inv A (g\<lparr>gray := p # gray g\<rparr>)" and "grows g (g\<lparr>gray := p # gray g\<rparr>)"
proof -
  let ?g = "g\<lparr>gray := p # gray g\<rparr>"
  have same: "bodies ?g = bodies g" "nonwhite ?g = nonwhite g" by (auto simp: bodies_def nonwhite_def fun_eq_iff)
  have tr: "traced ?g q x = traced g q x" for q x by (simp add: traced_def same)
  have "tri A ?g" "colours A ?g"
    using inv_parts(4,6) [OF assms(1)] by (auto simp: tri_def tr colours_def again_def)
  then show "inv A ?g"
    using inv_parts(1-3,5) [OF assms(1)] assms(2,3) by (auto simp: inv_def lists_ok_def globals_ok_def good_value_def same)
  show "grows g ?g" by (auto simp: grows_def same_frame_def same)
qed

lemma state_same:
  "bodies (g\<lparr>totalbytes := n\<rparr>) = bodies g" "nonwhite (g\<lparr>totalbytes := n\<rparr>) = nonwhite g"
  "bodies (g\<lparr>gray := l\<rparr>) = bodies g" "nonwhite (g\<lparr>gray := l\<rparr>) = nonwhite g"
  "bodies (g\<lparr>grayagain := l\<rparr>) = bodies g" "nonwhite (g\<lparr>grayagain := l\<rparr>) = nonwhite g"
  "bodies (g\<lparr>weak := l\<rparr>) = bodies g" "nonwhite (g\<lparr>weak := l\<rparr>) = nonwhite g"
  by (auto simp: bodies_def nonwhite_def fun_eq_iff)

lemma inv_totalbytes:
  assumes "inv A g"
  shows "inv A (g\<lparr>totalbytes := n\<rparr>)" and "grows g (g\<lparr>totalbytes := n\<rparr>)"
  using assms by (auto simp: inv_def globals_ok_def good_value_def lists_ok_def tri_def traced_def grows_def same_frame_def colours_def again_def state_same)

lemma inv_push_weak:
  assumes "inv A g" and "nonwhite g p" and "is_obj (bodies g) 5 p"
  shows "inv A (g\<lparr>weak := p # weak g\<rparr>)" and "grows g (g\<lparr>weak := p # weak g\<rparr>)"
proof -
  have "colours A (g\<lparr>weak := p # weak g\<rparr>)"
    using inv_parts(6) [OF assms(1)] by (auto simp: colours_def again_def)
  moreover have "tri A (g\<lparr>weak := p # weak g\<rparr>)"
    by (rule tri_step [OF inv_parts(4) [OF assms(1)]]) (auto simp: state_same)
  ultimately show "inv A (g\<lparr>weak := p # weak g\<rparr>)"
    using assms inv_parts(1-3,5) [OF assms(1)] by (auto simp: inv_def lists_ok_def globals_ok_def good_value_def state_same)
  show "grows g (g\<lparr>weak := p # weak g\<rparr>)" by (auto simp: grows_def same_frame_def state_same)
qed

lemma inv_push_grayagain:
  assumes "inv A g" and "nonwhite g p" and "is_obj (bodies g) 5 p \<or> is_obj (bodies g) 8 p"
  shows "inv A (g\<lparr>grayagain := p # grayagain g\<rparr>)" and "grows g (g\<lparr>grayagain := p # grayagain g\<rparr>)"
  using assms by (auto simp: inv_def globals_ok_def good_value_def lists_ok_def tri_def traced_def grows_def same_frame_def colours_def again_def state_same)

section \<open>Bodies\<close>

text \<open>A body that changes without changing its kind and without new references.\<close>

lemma inv_body:
  assumes "inv A g" and p: "heap g p = Some x" and m: "marked x' = marked x" and k: "kind (body x') = kind (body x)"
    and sh: "shape (bodies (put g p x')) (body x')"
    and le: "body_le (bodies (put g p x')) (body x') (bodies g) (body x)"
    and others: "\<And>q y. heap g q = Some y \<Longrightarrow> q \<noteq> p \<Longrightarrow>
      shape (bodies (put g p x')) (body y) \<and> body_le (bodies (put g p x')) (body y) (bodies g) (body y)"
  shows "inv A (put g p x')" and "grows g (put g p x')"
proof -
  let ?g = "put g p x'"
  have obj: "is_obj (bodies ?g) j q = is_obj (bodies g) j q" for j q
    using k bodies_Some [OF p] by (auto simp: is_obj_def)
  have nw: "nonwhite ?g q = nonwhite g q" for q using m p by (auto simp: nonwhite_def)
  have "wf_store (bodies ?g)"
    unfolding wf_store_def
  proof (intro allI impI conjI ballI, clarify?)
    fix q b
    assume q: "bodies ?g q = Some b"
    have "\<exists>y. heap g q = Some y \<and> shape (bodies ?g) b \<and> body_le (bodies ?g) b (bodies g) (body y)"
    proof (cases "q = p")
      case True
      then have "b = body x'" using q by simp
      with True p sh le show ?thesis by blast
    next
      case False
      with q obtain y where "heap g q = Some y" "b = body y" by (auto simp: bodies_def)
      with others [OF this(1) False] show ?thesis by blast
    qed
    then obtain y where y: "heap g q = Some y" "shape (bodies ?g) b" "body_le (bodies ?g) b (bodies g) (body y)" by blast
    show "shape (bodies ?g) b" by (rule y)
    show "case kq of (k, r) \<Rightarrow> is_obj (bodies ?g) k r" if "kq \<in> refs (bodies ?g) b" for kq
      using that y(3) wf_obj(2) [OF assms(1) y(1)] obj by (cases kq) (auto simp: body_le_def)
  qed
  moreover have "tri A ?g"
  proof (rule tri_step [OF inv_parts(4) [OF assms(1)]])
    show "nonwhite ?g q" if "nonwhite g q" for q using that nw by simp
    fix q x'
    assume "heap ?g q = Some x'" "\<not> iswhite (marked x')" "q \<notin> set (gray ?g)" "q \<notin> A"
    then show "\<exists>x. heap g q = Some x \<and> \<not> iswhite (marked x) \<and> q \<notin> set (gray g) \<and> q \<notin> A
        \<and> body_le (bodies ?g) (body x') (bodies g) (body x)
        \<and> (q \<in> set (weak g) \<longrightarrow> q \<in> set (weak ?g)) \<and> bit (marked x') VALUEWEAKBIT = bit (marked x) VALUEWEAKBIT"
      using p m le others by (cases "q = p") auto
  qed
  moreover have "lists_ok ?g" "globals_ok ?g"
    using inv_parts(2,3) [OF assms(1)] unfolding lists_ok_def globals_ok_def good_value_def nw obj by simp_all
  moreover have op: "open_body (body x') = open_body (body x)" using le by (simp add: body_le_def)
  moreover have "open_ok ?g" by (rule open_put [OF inv_parts(5) [OF assms(1)] p]) (use op m in simp)
  moreover have "colours A ?g"
    using inv_parts(6) [OF assms(1)] p m k op by (auto simp: colours_def again_def)
  ultimately show "inv A ?g" by (simp add: inv_def)
  show "grows g ?g" by (rule grows_put [OF p]) (use m le others in auto)
qed

text \<open>The bodies of other objects do not depend on one that is not a thread.\<close>

lemma slot_at_other:
  assumes "heap g p = Some x" and "kind (body x) \<noteq> 8" and "kind (body x') \<noteq> 8"
  shows "slot_at (bodies (put g p x')) th i = slot_at (bodies g) th i"
proof -
  have n: "\<not> (\<exists>t. body x = OThread t)" "\<not> (\<exists>t. body x' = OThread t)" using assms(2,3) by auto
  show ?thesis
    using assms(1) n by (cases "th = p") (auto simp: slot_at_def bodies_def split: body.splits)
qed

lemma others_same:
  assumes "heap g p = Some x" and "kind (body x) \<noteq> 8" and "kind (body x') \<noteq> 8"
  shows "refs (bodies (put g p x')) b = refs (bodies g) b"
    and "shape (bodies g) b \<Longrightarrow> shape (bodies (put g p x')) b"
proof -
  show "refs (bodies (put g p x')) b = refs (bodies g) b"
    by (cases "(bodies g, b)" rule: refs.cases) (simp_all add: slot_at_other [OF assms, simplified])
  have no: "bodies g p \<noteq> Some (OThread t)" for t using assms(1,2) by (auto simp: bodies_def)
  show "shape (bodies g) b \<Longrightarrow> shape (bodies (put g p x')) b"
    by (cases "(bodies g, b)" rule: shape.cases) (auto simp: no)
qed

lemma inv_table:
  assumes "inv A g" and p: "heap g p = Some x" and b: "body x = OTable h" and sh: "table_shape h'"
    and m: "metatable h' = metatable h"
    and a: "\<Union> (vref ` set (array h')) \<subseteq> \<Union> (vref ` set (array h))"
    and n: "\<Union> (node_refs ` set (node h')) \<subseteq> \<Union> (node_refs ` set (node h))"
  shows "inv A (put g p (x\<lparr>body := OTable h'\<rparr>))" and "grows g (put g p (x\<lparr>body := OTable h'\<rparr>))"
proof -
  let ?x = "x\<lparr>body := OTable h'\<rparr>"
  have k: "kind (body x) \<noteq> 8" "kind (body ?x) \<noteq> 8" by (simp_all add: b)
  have le: "body_le (bodies (put g p ?x)) (body ?x) (bodies g) (body x)"
    using a n m by (auto simp: body_le_def b arefs_def mrefs_def)
  have others: "shape (bodies (put g p ?x)) (body y) \<and> body_le (bodies (put g p ?x)) (body y) (bodies g) (body y)"
    if "heap g q = Some y" for q y
    using others_same [OF p k] wf_obj(1) [OF assms(1) that] by (simp add: body_le_def)
  show "inv A (put g p ?x)" "grows g (put g p ?x)"
    by (rule inv_body [OF assms(1) p]; use sh le others b in simp)+
qed

text \<open>A stack whose places keep their values or are cleared\<close>

lemma inv_thread:
  assumes "inv A g" and p: "heap g p = Some x" and b: "body x = OThread t" and sh: "thread_shape t'"
    and eq: "L_gt t' = L_gt t" "L_top t' = L_top t" "stack_limit t' = stack_limit t"
    and slots: "\<And>i. i \<le> stack_limit t \<Longrightarrow> L_stack t' ! i = L_stack t ! i \<or> L_stack t' ! i = VNil"
  shows "inv A (put g p (x\<lparr>body := OThread t'\<rparr>))" and "grows g (put g p (x\<lparr>body := OThread t'\<rparr>))"
proof -
  let ?x = "x\<lparr>body := OThread t'\<rparr>" and ?g = "put g p (x\<lparr>body := OThread t'\<rparr>)"
  have sht: "thread_shape t" using wf_obj(1) [OF assms(1) p] b by simp
  have top: "L_top t \<le> stack_limit t"
    unfolding stack_limit_def by (induction "map ci_top (take (Suc (L_ci t)) (L_base_ci t))" arbitrary: t)
      (auto simp: List.Max.set_eq_fold [symmetric])
  have len: "stack_limit t < length (L_stack t)" "stack_limit t < length (L_stack t')"
    using sht sh eq by (simp_all add: thread_shape_def)
  have vn: "vref VNil = {}" by (simp add: vref_def iscollectable_def)
  have take: "\<Union> (vref ` set (take (L_top t) (L_stack t'))) \<subseteq> \<Union> (vref ` set (take (L_top t) (L_stack t)))"
  proof
    fix r
    assume "r \<in> \<Union> (vref ` set (take (L_top t) (L_stack t')))"
    then obtain i where i: "i < L_top t" "i < length (L_stack t')" "r \<in> vref (L_stack t' ! i)"
      by (auto simp: in_set_conv_nth)
    then have "r \<in> vref (L_stack t ! i)" using slots [of i] top vn by auto
    then show "r \<in> \<Union> (vref ` set (take (L_top t) (L_stack t)))"
      using i(1) top len by (auto simp: in_set_conv_nth intro!: bexI [of _ "L_stack t ! i"] exI [of _ i])
  qed
  have le: "body_le (bodies ?g) (body ?x) (bodies g) (body x)"
    using take eq by (auto simp: body_le_def b arefs_def mrefs_def)
  have others: "shape (bodies ?g) (body y) \<and> body_le (bodies ?g) (body y) (bodies g) (body y)"
    if q: "heap g q = Some y" "q \<noteq> p" for q y
  proof -
    note sy = wf_obj(1) [OF assms(1) q(1)]
    have sl: "vref (slot_at (bodies ?g) th i) \<subseteq> vref (slot_at (bodies g) th i)"
      if "\<exists>s. bodies g th = Some (OThread s) \<and> i \<le> stack_limit s" for th i
    proof (cases "th = p")
      case True
      then have "i \<le> stack_limit t" using that bodies_Some [OF p] b by auto
      with slots [OF this] len True bodies_Some [OF p] b vn show ?thesis by (auto simp: slot_at_def)
    qed (simp add: slot_at_def bodies_def)
    show ?thesis
    proof (cases "\<exists>th i. body y = OUpVal (Open th i)")
      case True
      then obtain th i where o: "body y = OUpVal (Open th i)" by blast
      then have ex: "\<exists>s. bodies g th = Some (OThread s) \<and> i \<le> stack_limit s" using sy by simp
      then have "shape (bodies ?g) (body y)" using o eq bodies_Some [OF p] b by (auto simp: bodies_def)
      with sl [OF ex] o show ?thesis by (simp add: body_le_def)
    next
      case False
      then have "refs (bodies ?g) (body y) = refs (bodies g) (body y)" "shape (bodies ?g) (body y)"
        using sy by (cases "(bodies g, body y)" rule: refs.cases; auto)+
      then show ?thesis by (simp add: body_le_def)
    qed
  qed
  show "inv A ?g" "grows g ?g"
    by (rule inv_body [OF assms(1) p]; use sh le others b in simp)+
qed

end
