(* ===== verification/LuaMarkFlow.thy ===== *)
theory LuaMarkFlow
  imports LuaMarkInv
begin

text \<open>The functions of the mark phase return and keep the invariant.\<close>

section \<open>Marking an object\<close>

lemma mrefs_sub: "mrefs b \<subseteq> refs B b" "arefs b \<subseteq> refs B b"
  by (cases b; auto simp: mrefs_def arefs_def)+

lemma grows_obj:
  assumes "grows g g'" and "heap g p = Some x"
  obtains x' where "heap g' p = Some x'" and "iswhite (marked x') \<Longrightarrow> iswhite (marked x)"
    and "kind (body x') = kind (body x)" and "refs (bodies g') (body x') \<subseteq> refs (bodies g) (body x)"
    and "mrefs (body x') \<subseteq> mrefs (body x)" and "arefs (body x') \<subseteq> arefs (body x)"
    and "open_body (body x') = open_body (body x)"
  using assms unfolding grows_def body_le_def by blast

text \<open>An object whose references were marked one after the other\<close>

lemma inv_finish:
  assumes "inv (insert p A) g'" and "grows g g'" and "heap g p = Some x"
    and "all_nonwhite g' (refs (bodies g) (body x))" and "settled p g'"
  shows "inv A g'"
proof (rule inv_drop [OF assms(1) _ assms(5)])
  fix x'
  assume x': "heap g' p = Some x'"
  obtain "refs (bodies g') (body x') \<subseteq> refs (bodies g) (body x)"
    by (rule grows_obj [OF assms(2,3)]) (use x' in auto)
  with assms(4) mrefs_sub [of "body x'" "bodies g'"] show "traced g' p x'" by (fastforce simp: traced_def)
qed

lemma nonwhite_grows: "all_nonwhite g R \<Longrightarrow> grows g g' \<Longrightarrow> all_nonwhite g' R"
  using grows_nonwhite by fastforce

lemma grows_refs_obj:
  "inv A g \<Longrightarrow> heap g p = Some x \<Longrightarrow> (k, q) \<in> refs (bodies g) (body x) \<Longrightarrow> grows g g' \<Longrightarrow> is_obj (bodies g') k q"
  using wf_obj(2) grows_kind by blast

definition need :: "nat \<Rightarrow> nat" where
  "need k = (if k = 10 then 3 else if k = 7 then 2 else 1)"

definition mark_works :: "nat \<Rightarrow> bool" where
  "mark_works n \<longleftrightarrow> (\<forall>A g p x. inv A g \<longrightarrow> heap g p = Some x \<longrightarrow> need (kind (body x)) \<le> n \<longrightarrow>
     marks A (\<lambda>_ g'. nonwhite g' p) g (reallymark n p g))"

lemma markobject_by_marks:
  assumes "mark_works n" and "inv A g" and "is_obj (bodies g) k p" and "need k \<le> n"
  shows "marks A (\<lambda>_ g'. nonwhite g' p) g (markobject_by (reallymark n) p g)"
proof -
  obtain x where x: "heap g p = Some x" "kind (body x) = k" using assms(3) by (rule is_objE)
  have "marks A (\<lambda>_ g'. nonwhite g' p) g ((if iswhite (marked x) then reallymark n p else sret ()) g)"
    using assms x by (auto simp: mark_works_def nonwhite_def intro!: marks_ret)
  then show ?thesis by (simp add: markobject_by_def bind_get_obj [OF x(1)])
qed

lemma vref_tag: "(k, q) \<in> vref v \<Longrightarrow> k = ttype v \<and> q = gcvalue v \<and> need k \<le> 2"
  by (cases v) (auto simp: vref_def need_def split: if_splits)

lemma vref_collectable: "iscollectable v \<Longrightarrow> ttype v \<noteq> 11 \<Longrightarrow> vref v = {(ttype v, gcvalue v)}"
  by (simp add: vref_def)

lemma markvalue_by_marks:
  assumes "mark_works n" and "2 \<le> n" and "inv A g" and "ttype v \<noteq> 11" and "\<forall>(k, q) \<in> vref v. is_obj (bodies g) k q"
  shows "marks A (\<lambda>_ g'. all_nonwhite g' (vref v)) g (markvalue_by (reallymark n) v g)"
proof (cases "iscollectable v")
  case True
  note v = vref_collectable [OF True assms(4)]
  have "need (ttype v) \<le> n" using vref_tag [of "ttype v" "gcvalue v" v] assms(2) v by simp
  then show ?thesis using markobject_by_marks [OF assms(1,3), of "ttype v" "gcvalue v"] assms(5) True v
    by (simp add: markvalue_by_def)
next
  case False
  then show ?thesis using assms(3) by (simp add: markvalue_by_def vref_def sret_def)
qed

lemma udata_marks:
  assumes works: "mark_works n" and n1: "1 \<le> n" and i: "inv (insert p A) g" and x: "heap g p = Some x" "body x = OUdata u"
    and bl: "isblack (marked x)"
  shows "marks A (\<lambda>_ _. True) g
         (sbind (case u_metatable u of None \<Rightarrow> sret () | Some m \<Rightarrow> markobject_by (reallymark n) m) (\<lambda>_.
         markobject_by (reallymark n) (u_env u)) g)"
    (is "marks A _ g (sbind ?m _ g)")
proof (rule marks_bind [where m = ?m and P = "\<lambda>_ g'. all_nonwhite g' (oref 5 (u_metatable u))"])
  have n: "need 5 \<le> n" using n1 by (simp add: need_def)
  show "marks (insert p A) (\<lambda>_ g'. all_nonwhite g' (oref 5 (u_metatable u))) g (?m g)"
  proof (cases "u_metatable u")
    case (Some m)
    then have "is_obj (bodies g) 5 m" using wf_obj(2) [OF i x(1), of 5 m] x(2) by (simp add: oref_def)
    from markobject_by_marks [OF works i this n] Some show ?thesis by (simp add: oref_def)
  qed (use i in \<open>simp add: oref_def sret_def\<close>)
  fix v g2
  assume 2: "grows g g2" "inv (insert p A) g2" "all_nonwhite g2 (oref 5 (u_metatable u))"
  have "is_obj (bodies g2) 5 (u_env u)"
    using grows_refs_obj [OF i x(1) _ 2(1), of 5 "u_env u"] x(2) by simp
  from markobject_by_marks [OF works 2(2) this n]
  show "marks A (\<lambda>_ _. True) g2 (markobject_by (reallymark n) (u_env u) g2)"
  proof (rule marksE)
    fix w g3
    assume 3: "markobject_by (reallymark n) (u_env u) g2 = Ok (w, g3)" "grows g2 g3" "inv (insert p A) g3" "nonwhite g3 (u_env u)"
    have g3: "grows g g3" by (rule grows_trans [OF 2(1) 3(2)])
    have "settled p g3" by (rule settled_grows [OF _ x(1) g3]) (use x(1) bl in \<open>simp add: settled_def\<close>)
    moreover have "all_nonwhite g3 (refs (bodies g) (body x))" using nonwhite_grows [OF 2(3) 3(2)] 3(4) x(2) by auto
    ultimately have "inv A g3" by (intro inv_finish [OF 3(3) g3 x(1)])
    with 3 show ?thesis by simp
  qed
qed

lemma udata_black_marks:
  assumes works: "mark_works n" and n1: "1 \<le> n" and i: "inv (insert p A) g" and x: "heap g p = Some x" "body x = OUdata u"
    and nw: "\<not> iswhite (marked x)"
  shows "marks A (\<lambda>_ _. True) g (sbind (upd_mark gray2black p) (\<lambda>_.
         sbind (case u_metatable u of None \<Rightarrow> sret () | Some m \<Rightarrow> markobject_by (reallymark n) m) (\<lambda>_.
         markobject_by (reallymark n) (u_env u))) g)"
proof -
  let ?x = "x\<lparr>marked := gray2black (marked x)\<rparr>"
  have bit: "bit (gray2black (marked x)) VALUEWEAKBIT = bit (marked x) VALUEWEAKBIT"
    by (simp add: gray2black_def bit_set_bit_iff)
  note b = inv_recolour [OF i x(1), of ?x] put_same_body [OF x(1), of ?x]
  have i1: "inv (insert p A) (put g p ?x)" and g1: "grows g (put g p ?x)" using b bit x(2) nw by simp_all
  have x1: "heap (put g p ?x) p = Some ?x" "body ?x = OUdata u" "isblack (marked ?x)" using x(2) by simp_all
  from marks_after [OF g1 udata_marks [OF works n1 i1 x1]] show ?thesis unfolding bind_upd_mark [OF x(1)] .
qed

lemma uv_value_Ok:
  assumes "inv A g" and "heap g p = Some x" and "body x = OUpVal u"
  obtains v where "uv_value u g = Ok (v, g)" and "refs (bodies g) (body x) = vref v" and "ttype v \<noteq> 11"
proof (cases u)
  case (Closed v)
  with assms that wf_obj(1) [OF assms(1,2)] show ?thesis by (simp add: uv_value_def sret_def)
next
  case (Open th i)
  then obtain t where t: "bodies g th = Some (OThread t)" "i \<le> stack_limit t" using wf_obj(1) [OF assms(1,2)] assms(3) by auto
  then obtain y where y: "heap g th = Some y" "body y = OThread t" by (auto simp: bodies_def)
  then have sh: "thread_shape t" using wf_obj(1) [OF assms(1) y(1)] by simp
  then have i: "i < length (L_stack t)" using t(2) by (simp add: thread_shape_def)
  with sh have "ttype (L_stack t ! i) \<noteq> 11" by (simp add: thread_shape_def)
  with that [of "L_stack t ! i"] show ?thesis
    using Open i t(1) assms(3) by (simp add: uv_value_def bind_gco(2) [OF y] slot_at_def)
qed

lemma upval_marks:
  assumes works: "mark_works n" and n: "2 \<le> n" and i: "inv (insert p A) g" and x: "heap g p = Some x" "body x = OUpVal u"
    and nw: "nonwhite g p"
  shows "marks A (\<lambda>_ _. True) g (sbind (uv_value u) (\<lambda>v. sbind (markvalue_by (reallymark n) v) (\<lambda>_.
           case u of Closed _ \<Rightarrow> upd_mark gray2black p | Open _ _ \<Rightarrow> sret ())) g)"
proof -
  let ?last = "case u of Closed _ \<Rightarrow> upd_mark gray2black p | Open _ _ \<Rightarrow> sret ()"
  obtain v where v: "uv_value u g = Ok (v, g)" "refs (bodies g) (body x) = vref v" "ttype v \<noteq> 11"
    using uv_value_Ok [OF i x] by blast
  have o: "\<forall>(k, q) \<in> vref v. is_obj (bodies g) k q" using wf_obj(2) [OF i x(1)] v(2) by auto
  have "marks A (\<lambda>_ _. True) g (sbind (markvalue_by (reallymark n) v) (\<lambda>_. ?last) g)"
  proof (rule marks_bind [where m = "markvalue_by (reallymark n) v", OF markvalue_by_marks [OF works n i v(3) o]])
    fix w g1
    assume 1: "grows g g1" "inv (insert p A) g1" "all_nonwhite g1 (vref v)"
    obtain x1 where x1: "heap g1 p = Some x1" "kind (body x1) = 10" "open_body (body x1) = open_body (body x)"
      by (rule grows_obj [OF 1(1) x(1)]) (simp add: x(2))
    show "marks A (\<lambda>_ _. True) g1 (?last g1)"
    proof (cases u)
      case (Open th j)
      then have "settled p g1" using x1 x(2) by (simp add: settled_def)
      then have "inv A g1" using inv_finish [OF 1(2,1) x(1)] 1(3) v(2) by simp
      with Open show ?thesis by (simp add: sret_def)
    next
      case (Closed w')
      let ?x = "x1\<lparr>marked := gray2black (marked x1)\<rparr>"
      have nw1: "\<not> iswhite (marked x1)" using grows_nonwhite [OF 1(1) nw] x1(1) by (simp add: nonwhite_def)
      have r: "inv (insert p A) (put g1 p ?x)" "grows g1 (put g1 p ?x)"
        by (rule inv_recolour [OF 1(2) x1(1)]; use x1(3) x(2) Closed nw1 in \<open>simp add: gray2black_def bit_set_bit_iff iswhite_def isblack_def\<close>)+
      have "all_nonwhite (put g1 p ?x) (refs (bodies g) (body x))" using nonwhite_grows [OF 1(3) r(2)] v(2) by simp
      moreover have "settled p (put g1 p ?x)" by (simp add: settled_def)
      ultimately have "inv A (put g1 p ?x)" by (intro inv_finish [OF r(1) grows_trans [OF 1(1) r(2)] x(1)])
      with Closed r(2) show ?thesis by (simp add: upd_mark_Ok [OF x1(1)])
    qed
  qed
  then show ?thesis by (simp add: sbind_Ok [where m = "uv_value u", OF v(1)])
qed

text \<open>An object that has just stopped being white\<close>

lemma scan_object_marks:
  assumes works: "mark_works n" and i: "inv (insert p A) g" and x: "heap g p = Some x" and nw: "nonwhite g p"
    and k: "need (kind (body x)) \<le> Suc n"
  shows "marks A (\<lambda>_ _. True) g (scan_object (reallymark n) p g)"
proof -
  have push: "marks A (\<lambda>_ _. True) g (push_gray p g)"
    if "kind (body x) = 5 \<or> kind (body x) = 6 \<or> kind (body x) = 8 \<or> kind (body x) = 9"
    using inv_push_gray [OF i nw] that bodies_Some [OF x] by (simp add: push_gray_def modify_def is_obj_def)
  show ?thesis
  proof (cases "body x")
    case (OString s)
    then have "inv A g" using inv_finish [OF i grows_refl x] x by (simp add: settled_def)
    with OString show ?thesis by (simp add: scan_object_def bind_get_obj [OF x] sret_def)
  next
    case (OUdata u)
    with k have "1 \<le> n" by (simp add: need_def)
    moreover have "\<not> iswhite (marked x)" using nw x by (simp add: nonwhite_def)
    ultimately show ?thesis using udata_black_marks [OF works _ i x] OUdata by (simp add: scan_object_def bind_get_obj [OF x])
  next
    case (OUpVal u)
    with k have "2 \<le> n" by (simp add: need_def)
    with upval_marks [OF works _ i x _ nw] OUpVal show ?thesis by (simp add: scan_object_def bind_get_obj [OF x])
  qed (use push in \<open>simp_all add: scan_object_def bind_get_obj [OF x]\<close>)
qed

lemma mark_works_step:
  assumes "mark_works n"
  shows "mark_works (Suc n)"
  unfolding mark_works_def
proof (intro allI impI)
  fix A g p x
  assume i: "inv A g" and x: "heap g p = Some x" and k: "need (kind (body x)) \<le> Suc n"
  let ?x = "x\<lparr>marked := white2gray (marked x)\<rparr>"
  let ?g = "put g p ?x"
  have i1: "inv (insert p A) ?g" and g1: "grows g ?g" using inv_mark [OF i x, of ?x] by simp_all
  have p1: "heap ?g p = Some ?x" "nonwhite ?g p" by simp_all
  have "marks A (\<lambda>_ _. True) ?g (scan_object (reallymark n) p ?g)"
    by (rule scan_object_marks [OF assms i1 p1]) (use k in simp)
  then obtain u g' where r: "scan_object (reallymark n) p ?g = Ok (u, g')" "grows ?g g'" "inv A g'" by (rule marksE)
  have "reallymark (Suc n) p g = Ok (u, g')"
    using r(1) by (simp only: reallymark.simps mark_body_def bind_upd_mark [OF x])
  then show "marks A (\<lambda>_ g'. nonwhite g' p) g (reallymark (Suc n) p g)"
    using r(2,3) grows_trans [OF g1 r(2)] grows_nonwhite [OF r(2) p1(2)] by simp
qed

lemma mark_works_all: "mark_works n"
proof (induction n)
  case 0
  then show ?case by (auto simp: mark_works_def need_def split: if_splits)
next
  case (Suc n)
  then show ?case by (rule mark_works_step)
qed

lemma reallymarkobject_marks:
  "inv A g \<Longrightarrow> heap g p = Some x \<Longrightarrow> marks A (\<lambda>_ g'. nonwhite g' p) g (reallymarkobject p g)"
  using mark_works_all [of "Suc (Suc (Suc 0))"]
  unfolding mark_works_def reallymarkobject_def by (auto simp: need_def simp del: reallymark.simps)

lemma markobject_marks:
  "inv A g \<Longrightarrow> is_obj (bodies g) k p \<Longrightarrow> marks A (\<lambda>_ g'. nonwhite g' p) g (markobject p g)"
  unfolding markobject_def reallymarkobject_def
  by (rule markobject_by_marks [OF mark_works_all]) (auto simp: need_def)

lemma markvalue_marks:
  "inv A g \<Longrightarrow> ttype v \<noteq> 11 \<Longrightarrow> \<forall>(k, q) \<in> vref v. is_obj (bodies g) k q \<Longrightarrow>
    marks A (\<lambda>_ g'. all_nonwhite g' (vref v)) g (markvalue v g)"
  unfolding markvalue_def reallymarkobject_def
  by (rule markvalue_by_marks [OF mark_works_all]) auto

lemma mark_some_marks:
  "inv A g \<Longrightarrow> \<forall>(k, q) \<in> oref j o'. is_obj (bodies g) k q \<Longrightarrow>
    marks A (\<lambda>_ g'. all_nonwhite g' (oref j o')) g (mark_some o' g)"
  by (auto simp: mark_some_def oref_def sret_def split: option.splits intro!: markobject_marks [of _ _ j])

lemma stringmark_marks:
  assumes "inv A g" and "is_obj (bodies g) 4 p"
  shows "marks A (\<lambda>_ g'. nonwhite g' p) g (stringmark p g)"
proof -
  obtain x where x: "heap g p = Some x" "kind (body x) = 4" using assms(2) by (rule is_objE)
  let ?x = "x\<lparr>marked := white2gray (marked x)\<rparr>"
  have i: "inv (insert p A) (put g p ?x)" "grows g (put g p ?x)" using inv_mark [OF assms(1) x(1), of ?x] by simp_all
  have "refs (bodies (put g p ?x)) (body ?x) = {}" using x(2) kind_cases(1) [of "body x"] by auto
  then have "inv A (put g p ?x)" by (intro inv_finish [OF i(1) grows_refl, of ?x]) (simp_all add: settled_def x(2))
  then show ?thesis using i(2) by (simp add: stringmark_def upd_mark_Ok [OF x(1)])
qed

lemma stringmark_some_marks:
  "inv A g \<Longrightarrow> \<forall>(k, q) \<in> oref 4 o'. is_obj (bodies g) k q \<Longrightarrow>
    marks A (\<lambda>_ g'. all_nonwhite g' (oref 4 o')) g (stringmark_some o' g)"
  by (auto simp: stringmark_some_def oref_def sret_def split: option.splits intro!: stringmark_marks)

end
