(* ===== verification/LuaMarkTraverse.thy ===== *)
theory LuaMarkTraverse
  imports LuaMarkFlow
begin

text \<open>The traversal of each kind of object marks what it refers to.\<close>

section \<open>Closures and prototypes\<close>

lemma values_marks:
  assumes "inv A g" and "\<forall>v \<in> set vs. ttype v \<noteq> 11" and "\<forall>(k, q) \<in> \<Union> (vref ` set vs). is_obj (bodies g) k q"
  shows "marks A (\<lambda>_ g'. all_nonwhite g' (\<Union> (vref ` set vs))) g (for_each markvalue vs g)"
proof (rule marks_mono)
  show "marks A (\<lambda>_ g'. \<forall>v \<in> set vs. all_nonwhite g' (vref v)) g (for_each markvalue vs g)"
  proof (rule marks_for_each [OF assms(1)])
    fix v g'
    assume "v \<in> set vs" "grows g g'" "inv A g'"
    moreover from this have "\<forall>(k, q) \<in> vref v. is_obj (bodies g') k q"
      using assms(3) grows_kind by fastforce
    ultimately show "marks A (\<lambda>_ g'. all_nonwhite g' (vref v)) g' (markvalue v g')"
      using assms(2) by (intro markvalue_marks) auto
  qed (rule nonwhite_grows)
qed auto

text \<open>Loops over pointers that may be null; \<open>f\<close> marks one.\<close>

lemma pointers_marks:
  assumes "inv A g" and "\<forall>(k, q) \<in> \<Union> (oref j ` r ` set xs). is_obj (bodies g) k q"
    and "\<And>x g'. inv A g' \<Longrightarrow> \<forall>(k, q) \<in> oref j (r x). is_obj (bodies g') k q \<Longrightarrow> x \<in> set xs \<Longrightarrow>
      marks A (\<lambda>_ g''. all_nonwhite g'' (oref j (r x))) g' (f x g')"
  shows "marks A (\<lambda>_ g'. all_nonwhite g' (\<Union> (oref j ` r ` set xs))) g (for_each f xs g)"
proof (rule marks_mono)
  show "marks A (\<lambda>_ g'. \<forall>x \<in> set xs. all_nonwhite g' (oref j (r x))) g (for_each f xs g)"
  proof (rule marks_for_each [OF assms(1)])
    fix x g'
    assume x: "x \<in> set xs" "grows g g'" "inv A g'"
    then have "\<forall>(k, q) \<in> oref j (r x). is_obj (bodies g') k q" using assms(2) grows_kind by fastforce
    from assms(3) [OF x(3) this x(1)]
    show "marks A (\<lambda>_ g''. all_nonwhite g'' (oref j (r x))) g' (f x g')" .
  qed (rule nonwhite_grows)
qed auto

lemma traverseclosure_marks:
  assumes "inv A g" and "shape (bodies g) (OClosure c)" and "\<forall>(k, q) \<in> refs (bodies g) (OClosure c). is_obj (bodies g) k q"
  shows "marks A (\<lambda>_ g'. all_nonwhite g' (refs (bodies g) (OClosure c))) g (traverseclosure c g)"
proof -
  have env: "is_obj (bodies g) 5 (c_env c)" using assms(3) by (cases c) auto
  show ?thesis
    unfolding traverseclosure_def
  proof (rule marks_bind [where m = "markobject (c_env c)", OF markobject_marks [OF assms(1) env]])
    fix u g1
    assume 1: "grows g g1" "inv A g1" "nonwhite g1 (c_env c)"
    have o1: "is_obj (bodies g1) k q" if "(k, q) \<in> refs (bodies g) (OClosure c)" for k q
      using bspec [OF assms(3) that] grows_kind [OF 1(1)] by simp
    show "marks A (\<lambda>_ g'. all_nonwhite g' (refs (bodies g) (OClosure c))) g1 ((case c of
       CClosure _ _ uvs \<Rightarrow> for_each markvalue uvs
     | LClosure _ p uvs \<Rightarrow> sbind (markobject p) (\<lambda>_.
         for_each (\<lambda>q. case q of None \<Rightarrow> undef | Some u \<Rightarrow> markobject u) uvs)) g1)"
    proof (cases c)
      case (CClosure e f uvs)
      have "marks A (\<lambda>_ g'. all_nonwhite g' (\<Union> (vref ` set uvs))) g1 (for_each markvalue uvs g1)"
        by (rule values_marks [OF 1(2)]) (use assms(2) o1 CClosure in auto)
      then show ?thesis using 1(3) grows_nonwhite CClosure by (auto elim!: marks_mono)
    next
      case (LClosure e p uvs)
      let ?f = "\<lambda>q. case q of None \<Rightarrow> undef | Some u \<Rightarrow> markobject u"
      have "is_obj (bodies g1) 9 p" using o1 LClosure by simp
      from markobject_marks [OF 1(2) this]
      have "marks A (\<lambda>_ g'. all_nonwhite g' (refs (bodies g) (OClosure c))) g1
          (sbind (markobject p) (\<lambda>_. for_each ?f uvs) g1)"
      proof (rule marks_bind [where m = "markobject p"])
        fix u g2
        assume 2: "grows g1 g2" "inv A g2" "nonwhite g2 p"
        have ids: "(\<lambda>x. x) ` set uvs = set uvs" by simp
        have "marks A (\<lambda>_ g'. all_nonwhite g' (\<Union> (oref 10 ` (\<lambda>x. x) ` set uvs))) g2 (for_each ?f uvs g2)"
        proof (rule pointers_marks [OF 2(2)])
          show "\<forall>(k, q) \<in> \<Union> (oref 10 ` (\<lambda>x. x) ` set uvs). is_obj (bodies g2) k q"
            using o1 LClosure grows_kind [OF 2(1)] by auto
          fix x g'
          assume "inv A g'" "\<forall>(k, q) \<in> oref 10 x. is_obj (bodies g') k q" "x \<in> set uvs"
          then show "marks A (\<lambda>_ g''. all_nonwhite g'' (oref 10 x)) g' (?f x g')"
            using assms(2) LClosure by (cases x) (auto simp: oref_def intro!: markobject_marks [of _ _ 10])
        qed
        then show "marks A (\<lambda>_ g'. all_nonwhite g' (refs (bodies g) (OClosure c))) g2 (for_each ?f uvs g2)"
          unfolding ids using 1(3) 2(1,3) grows_nonwhite LClosure by (auto elim!: marks_mono)
      qed
      with LClosure show ?thesis by simp
    qed
  qed
qed

text \<open>A sequence of loops, each of which marks its part.\<close>

lemma marks_seq:
  assumes "inv A g" and "marks A (\<lambda>_ g'. all_nonwhite g' R) g (m g)"
    and "\<And>g'. grows g g' \<Longrightarrow> inv A g' \<Longrightarrow> marks A (\<lambda>_ g''. all_nonwhite g'' S) g' (k g')"
  shows "marks A (\<lambda>_ g'. all_nonwhite g' (R \<union> S)) g (sbind m (\<lambda>_. k) g)"
proof (rule marks_bind [where m = m, OF assms(2)])
  fix x g'
  assume 1: "grows g g'" "inv A g'" "all_nonwhite g' R"
  from assms(3) [OF 1(1,2)]
  show "marks A (\<lambda>_ g'. all_nonwhite g' (R \<union> S)) g' (k g')"
    by (rule marks_mono) (use nonwhite_grows [OF 1(3)] in blast)
qed

lemma traverseproto_marks:
  assumes "inv A g" and "shape (bodies g) (OProto f)" and "\<forall>(k, q) \<in> refs (bodies g) (OProto f). is_obj (bodies g) k q"
  shows "marks A (\<lambda>_ g'. all_nonwhite g' (refs (bodies g) (OProto f))) g (traverseproto f g)"
proof -
  have o1: "\<forall>(k, q) \<in> R. is_obj (bodies g') k q" if "grows g g'" "R \<subseteq> refs (bodies g) (OProto f)" for R g'
    using that assms(3) grows_kind [OF that(1)] by blast
  have names: "(\<lambda>(n, s, e). oref 4 n) ` S = oref 4 ` fst ` S" for S :: "(ptr option \<times> int \<times> int) set"
    by (simp add: image_image case_prod_unfold)
  have "marks A (\<lambda>_ g'. all_nonwhite g' (oref 4 (h_source f) \<union> (\<Union> (vref ` set (h_k f))
      \<union> (\<Union> (oref 4 ` (\<lambda>x. x) ` set (h_upvalues f)) \<union> (\<Union> (oref 9 ` (\<lambda>x. x) ` set (h_p f))
      \<union> \<Union> (oref 4 ` fst ` set (h_locvars f))))))) g (traverseproto f g)"
    unfolding traverseproto_def
  proof (rule marks_seq [OF assms(1)], goal_cases)
    case 1
    show ?case by (rule stringmark_some_marks [OF assms(1) o1 [OF grows_refl]]) auto
  next
    case (2 g1)
    show ?case
    proof (rule marks_seq [OF 2(2)], goal_cases)
      case 1
      show ?case by (rule values_marks [OF 2(2) _ o1 [OF 2(1)]]) (use assms(2) in auto)
    next
      case (2 g2)
      then have g2: "grows g g2" using \<open>grows g g1\<close> grows_trans by blast
      show ?case
      proof (rule marks_seq [OF 2(2)], goal_cases)
        case 1
        show ?case by (rule pointers_marks [OF 2(2) o1 [OF g2]]) (auto intro: stringmark_some_marks)
      next
        case (2 g3)
        then have g3: "grows g g3" using g2 grows_trans by blast
        show ?case
        proof (rule marks_seq [OF 2(2)], goal_cases)
          case 1
          show ?case by (rule pointers_marks [OF 2(2) o1 [OF g3]]) (auto intro: mark_some_marks)
        next
          case (2 g4)
          then have g4: "grows g g4" using g3 grows_trans by blast
          show ?case
          proof (rule pointers_marks [OF 2(2) o1 [OF g4]], goal_cases)
            case 1
            show ?case by (auto simp: names)
          next
            case (2 x g')
            then show ?case using stringmark_some_marks [of A g' "fst x"] by (cases x) auto
          qed
        qed
      qed
    qed
  qed
  then show ?thesis by (rule marks_mono) (simp add: names Un_assoc image_image)
qed

end
