(* ===== verification/LuaPropagate.thy ===== *)
theory LuaPropagate
  imports LuaMarkTraverse
begin

text \<open>
  The traversal of stacks and tables, and the propagation of marks until no gray object is left.
\<close>

section \<open>Stacks\<close>

lemma length_resize [simp]: "length (resize_list d n xs) = n"
  by (simp add: resize_list_def)

lemma nth_resize: "i < n \<Longrightarrow> i < length xs \<Longrightarrow> resize_list d n xs ! i = xs ! i"
  by (simp add: resize_list_def nth_append)

lemma set_resize: "set (resize_list d n xs) \<subseteq> insert d (set xs)"
  by (auto simp: resize_list_def dest: in_set_takeD)

lemma stack_limit_cong:
  "L_top t' = L_top t \<Longrightarrow> take (Suc (L_ci t')) (L_base_ci t') = take (Suc (L_ci t)) (L_base_ci t) \<Longrightarrow>
    stack_limit t' = stack_limit t"
  by (simp add: stack_limit_def)

lemma top_le_limit: "L_top t \<le> stack_limit t"
  unfolding stack_limit_def
  by (simp add: List.Max.set_eq_fold [symmetric])

lemma malloc_marks: "inv A g \<Longrightarrow> marks A (\<lambda>_ g'. heap g' = heap g) g (luaM_malloc n g)"
  using inv_totalbytes [of A g] by (simp add: luaM_malloc_def modify_def)

lemma reallocCI_marks:
  assumes i: "inv A g" and x: "heap g p = Some x" "body x = OThread t" and n: "L_ci t < n" "n \<le> length (L_base_ci t)"
  shows "marks A (\<lambda>_ g'. \<exists>x' t'. heap g' p = Some x' \<and> body x' = OThread t' \<and> stack_limit t' = stack_limit t) g (luaD_reallocCI p n g)"
proof -
  let ?t = "t\<lparr>L_base_ci := resize_list blank_ci n (L_base_ci t)\<rparr>"
  have lim: "stack_limit ?t = stack_limit t"
    using n by (intro stack_limit_cong) (simp_all add: resize_list_def)
  have sh: "thread_shape ?t" using wf_obj(1) [OF i x(1)] x(2) n lim by (simp add: thread_shape_def)
  have "marks A (\<lambda>_ g'. \<exists>x' t'. heap g' p = Some x' \<and> body x' = OThread t' \<and> stack_limit t' = stack_limit t) g
      (sbind (luaM_malloc (of_nat (sizeof_CallInfo * n) - of_nat (sizeof_CallInfo * length (L_base_ci t))))
        (\<lambda>_. set_body p (OThread ?t)) g)"
  proof (rule marks_bind [where m = "luaM_malloc _", OF malloc_marks [OF i]])
    fix u g1
    assume 1: "inv A g1" "heap g1 = heap g"
    then have x1: "heap g1 p = Some x" using x by simp
    show "marks A (\<lambda>_ g'. \<exists>x' t'. heap g' p = Some x' \<and> body x' = OThread t' \<and> stack_limit t' = stack_limit t) g1
        (set_body p (OThread ?t) g1)"
      using inv_thread [OF 1(1) x1 x(2) sh] lim by (simp add: set_body_Ok [OF x1])
  qed
  then show ?thesis by (simp add: luaD_reallocCI_def bind_gco(2) [OF x])
qed

lemma reallocstack_marks:
  assumes i: "inv A g" and x: "heap g p = Some x" "body x = OThread t" and n: "stack_limit t < n + 1 + EXTRA_STACK"
  shows "marks A (\<lambda>_ _. True) g (luaD_reallocstack p n g)"
proof -
  let ?t = "t\<lparr>L_stack := resize_list VNil (n + 1 + EXTRA_STACK) (L_stack t), L_stack_last := n\<rparr>"
  have lim: "stack_limit ?t = stack_limit t" by (rule stack_limit_cong) simp_all
  have sht: "thread_shape t" using wf_obj(1) [OF i x(1)] x(2) by simp
  have "thread_shape ?t"
    using sht n lim set_resize [of VNil "n + 1 + EXTRA_STACK" "L_stack t"] by (auto simp: thread_shape_def)
  note sh = this
  have slots: "L_stack ?t ! j = L_stack t ! j \<or> L_stack ?t ! j = VNil" if "j \<le> stack_limit t" for j
    using that n sht by (simp add: nth_resize thread_shape_def)
  have "marks A (\<lambda>_ _. True) g
      (sbind (luaM_malloc (of_nat (sizeof_TValue * (n + 1 + EXTRA_STACK)) - of_nat (sizeof_TValue * length (L_stack t))))
        (\<lambda>_. set_body p (OThread ?t)) g)"
  proof (rule marks_bind [where m = "luaM_malloc _", OF malloc_marks [OF i]])
    fix u g1
    assume 1: "inv A g1" "heap g1 = heap g"
    then have x1: "heap g1 p = Some x" using x by simp
    show "marks A (\<lambda>_ _. True) g1 (set_body p (OThread ?t) g1)"
      using inv_thread [OF 1(1) x1 x(2) sh _ _ lim slots] by (simp add: set_body_Ok [OF x1])
  qed
  then show ?thesis by (simp add: luaD_reallocstack_def Let_def bind_gco(2) [OF x])
qed

lemma checkstacksizes_marks:
  assumes i: "inv A g" and x: "heap g p = Some x" "body x = OThread t"
  shows "marks A (\<lambda>_ _. True) g (checkstacksizes p (stack_limit t) g)"
proof -
  let ?n = "length (L_base_ci t)"
  let ?m = "if 4 * L_ci t < ?n \<and> 2 * BASIC_CI_SIZE < ?n then luaD_reallocCI p (?n div 2) else sret ()"
  let ?Q = "\<lambda>g'. \<exists>x' t'. heap g' p = Some x' \<and> body x' = OThread t' \<and> stack_limit t' = stack_limit t"
  let ?rest = "\<lambda>t'. if 4 * stack_limit t < length (L_stack t') \<and> 2 * (BASIC_STACK_SIZE + EXTRA_STACK) < length (L_stack t')
      then luaD_reallocstack p (length (L_stack t') div 2) else sret ()"
  have m: "marks A (\<lambda>_. ?Q) g (?m g)"
    using reallocCI_marks [OF i x, of "?n div 2"] i x by (auto simp: sret_def)
  have "marks A (\<lambda>_ _. True) g (sbind ?m (\<lambda>_. sbind (gco2th p) ?rest) g)"
  proof (rule marks_bind [where m = ?m, OF m])
    fix u g1
    assume 1: "inv A g1" "?Q g1"
    then obtain x' t' where x': "heap g1 p = Some x'" "body x' = OThread t'" "stack_limit t' = stack_limit t" by blast
    have "marks A (\<lambda>_ _. True) g1 (?rest t' g1)"
      using reallocstack_marks [OF 1(1) x'(1,2), of "length (L_stack t') div 2"] x'(3) 1(1) by (auto simp: sret_def)
    then show "marks A (\<lambda>_ _. True) g1 (sbind (gco2th p) ?rest g1)" by (simp add: bind_gco(2) [OF x'(1,2)])
  qed
  then show ?thesis using i by (simp add: checkstacksizes_def Let_def bind_gco(2) [OF x] sret_def)
qed

lemma F_for_each: "steps keep_body.same_F (for_each markvalue vs)"
  by (rule state_frame.steps_for_each [OF keep_body.F_frame]) (rule keep_body.F_mark)

lemma keep_object:
  assumes "steps keep_body.same_F m" and "m g = Ok (u, g')" and "heap g p = Some x"
  obtains x' where "heap g' p = Some x'" and "body x' = body x"
proof -
  have "map_option body (heap g' p) = map_option body (heap g p)"
    using fun_cong [OF stepsD [OF assms(1,2)], of p] by simp
  with assms(3) that show ?thesis by (cases "heap g' p") auto
qed

text \<open>Clearing the part of the stack that is not in use\<close>

lemma clear_marks:
  assumes i: "inv A g" and x: "heap g p = Some x" "body x = OThread t"
  shows "marks A (\<lambda>_ _. True) g (sbind (set_body p (OThread (t\<lparr>L_stack := clear_above (L_top t) (stack_limit t) (L_stack t)\<rparr>)))
      (\<lambda>_. checkstacksizes p (stack_limit t)) g)"
proof -
  let ?l = "stack_limit t"
  let ?t = "t\<lparr>L_stack := clear_above (L_top t) ?l (L_stack t)\<rparr>"
  let ?x = "x\<lparr>body := OThread ?t\<rparr>"
  have lim: "stack_limit ?t = ?l" by (rule stack_limit_cong) simp_all
  have sht: "thread_shape t" using wf_obj(1) [OF i x(1)] x(2) by simp
  then have l: "?l < length (L_stack t)" "L_top t \<le> ?l" using top_le_limit by (simp_all add: thread_shape_def)
  then have "set (L_stack ?t) \<subseteq> insert VNil (set (L_stack t))"
    by (auto simp: clear_above_def dest: in_set_takeD in_set_dropD)
  then have sh: "thread_shape ?t" using sht l lim by (auto simp: thread_shape_def clear_above_def)
  have slots: "L_stack ?t ! j = L_stack t ! j \<or> L_stack ?t ! j = VNil" if "j \<le> ?l" for j
    using that l by (auto simp: clear_above_def nth_append)
  have 1: "inv A (put g p ?x)" "grows g (put g p ?x)" using inv_thread [OF i x sh _ _ lim slots] by simp_all
  have "marks A (\<lambda>_ _. True) (put g p ?x) (checkstacksizes p (stack_limit ?t) (put g p ?x))"
    by (rule checkstacksizes_marks [OF 1(1), of p ?x ?t]) simp_all
  then show ?thesis using 1(2) grows_trans lim by (auto simp: bind_set_body [OF x(1)] elim!: marksE)
qed

lemma traversestack_marks:
  assumes i: "inv (insert p A) g" and x: "heap g p = Some x" "body x = OThread t" and s: "settled p g"
  shows "marks A (\<lambda>_ _. True) g (traversestack p g)"
proof -
  let ?vs = "take (L_top t) (L_stack t)"
  let ?clear = "\<lambda>_. sbind (set_body p (OThread (t\<lparr>L_stack := clear_above (L_top t) (stack_limit t) (L_stack t)\<rparr>)))
      (\<lambda>_. checkstacksizes p (stack_limit t))"
  have sh: "thread_shape t" using wf_obj(1) [OF i x(1)] x(2) by simp
  have ok: "\<forall>(k, q) \<in> refs (bodies g) (OThread t). is_obj (bodies g) k q" using wf_obj(2) [OF i x(1)] x(2) by auto
  have gt: "marks (insert p A) (\<lambda>_ g'. all_nonwhite g' (vref (L_gt t))) g (markvalue (L_gt t) g)"
    by (rule markvalue_marks [OF i]) (use sh ok in \<open>auto simp: thread_shape_def\<close>)
  then obtain u1 g1 where 1: "markvalue (L_gt t) g = Ok (u1, g1)" "grows g g1" "inv (insert p A) g1"
    "all_nonwhite g1 (vref (L_gt t))" by (rule marksE)
  obtain x1 where x1: "heap g1 p = Some x1" "body x1 = OThread t"
    using keep_object [OF keep_body.F_mark(2) 1(1) x(1)] x(2) by metis
  have "\<forall>(k, q) \<in> \<Union> (vref ` set ?vs). is_obj (bodies g1) k q"
    using ok grows_kind [OF 1(2)] unfolding refs.simps by blast
  then have "marks (insert p A) (\<lambda>_ g'. all_nonwhite g' (\<Union> (vref ` set ?vs))) g1 (for_each markvalue ?vs g1)"
    by (intro values_marks [OF 1(3)]) (use sh in \<open>auto simp: thread_shape_def dest: in_set_takeD\<close>)
  then obtain u2 g2 where 2: "for_each markvalue ?vs g1 = Ok (u2, g2)" "grows g1 g2" "inv (insert p A) g2"
    "all_nonwhite g2 (\<Union> (vref ` set ?vs))" by (rule marksE)
  obtain x2 where x2: "heap g2 p = Some x2" "body x2 = OThread t"
    using keep_object [OF F_for_each 2(1) x1(1)] x1(2) by metis
  have g2: "grows g g2" by (rule grows_trans [OF 1(2) 2(2)])
  have "all_nonwhite g2 (refs (bodies g) (body x))"
    using nonwhite_grows [OF 1(4) 2(2)] 2(4) x(2) by auto
  from inv_finish [OF 2(3) g2 x(1) this settled_grows [OF s x(1) g2]] have i2: "inv A g2" .
  have "traversestack p g = ?clear () g2"
    using sh 1(1) 2(1)
    by (simp add: traversestack_def bind_gco(2) [OF x] Let_def sbind_Ok [where m = "markvalue (L_gt t)", OF 1(1)]
        sbind_Ok [where m = "for_each markvalue ?vs", OF 2(1)] thread_shape_def)
  moreover have "marks A (\<lambda>_ _. True) g2 (?clear () g2)" by (rule clear_marks [OF i2 x2])
  ultimately show ?thesis using grows_trans [OF g2] by (auto elim!: marksE)
qed

section \<open>Tables\<close>

text \<open>The value of a tag method, when there is one, is one of the values of the table.\<close>

lemma getstr_returns:
  assumes "table_shape h"
  shows "\<exists>r. luaH_getstr H h s = Ok r \<and> (deref h r = VNil \<or> (\<exists>n \<in> set (node h). deref h r = i_val n))"
proof -
  let ?i = "lmod (H s) (2 ^ lsizenode h)"
  have l: "links_ok (node h)" "?i < length (node h)" using assms lmod_less by (simp_all add: table_shape_def)
  let ?P = "\<lambda>n. case i_key n of VString p \<Rightarrow> p = s | _ \<Rightarrow> False"
  obtain r where r: "chain_walk ?P (node h) (length (node h)) ?i = Ok r"
    and c: "case r of None \<Rightarrow> \<forall>j \<in> chain_of (node h) ?i. \<not> ?P (node h ! j) | Some j \<Rightarrow> j \<in> chain_of (node h) ?i \<and> ?P (node h ! j)"
    using chain_walk_returns [OF l card_chain_of [OF l], of ?P] by blast
  have get: "luaH_getstr H h s = Ok (map_option NodeSlot r)"
    by (simp add: luaH_getstr_def search_chain_def r)
  show ?thesis
  proof (cases r)
    case None
    then show ?thesis using get by (simp add: deref_def)
  next
    case (Some j)
    then have "j < length (node h)" using c chain_of_bounded [OF l] by auto
    then have "node h ! j \<in> set (node h)" by simp
    then show ?thesis using get Some by (auto simp: deref_def slot_val_def)
  qed
qed

lemma gettm_marks:
  assumes i: "inv A g" and "is_obj (bodies g) 5 t" and "is_obj (bodies g) 4 name"
  shows "marks A (\<lambda>r g'. \<forall>v. r = Some v \<longrightarrow> good_value g' v) g (luaT_gettm t e name g)"
proof -
  obtain x where x: "heap g t = Some x" "kind (body x) = 5" using assms(2) by (rule is_objE)
  then obtain h where h: "body x = OTable h" using kind_cases(2) by blast
  obtain y s where y: "heap g name = Some y" "body y = OString s"
    using is_objE [OF assms(3)] kind_cases(1) by metis
  have sh: "table_shape h" using wf_obj(1) [OF i x(1)] h by simp
  obtain r where r: "luaH_getstr (str_hash g) h name = Ok r"
    and v: "deref h r = VNil \<or> (\<exists>n \<in> set (node h). deref h r = i_val n)" using getstr_returns [OF sh] by blast
  let ?h = "h\<lparr>flags := set_bit e (flags h)\<rparr>"
  have sh': "table_shape ?h" using sh by (simp add: table_shape_def)
  have "marks A (\<lambda>r g'. \<forall>v. r = Some v \<longrightarrow> good_value g' v) g
     (if ttisnil (deref h r) then sbind (set_table t ?h) (\<lambda>_. sret None) g else Ok (Some (deref h r), g))"
  proof (cases "deref h r = VNil")
    case True
    then show ?thesis using inv_table [OF i x(1) h sh'] by (simp add: bind_set_table [OF x(1)] sret_def)
  next
    case False
    then obtain n where n: "n \<in> set (node h)" "deref h r = i_val n" using v by blast
    then have "vref (deref h r) \<subseteq> refs (bodies g) (body x)" using False by (auto simp: h node_refs_def)
    then have "\<forall>(k, q) \<in> vref (deref h r). is_obj (bodies g) k q" using wf_obj(2) [OF i x(1)] by blast
    moreover have "ttype (deref h r) \<noteq> 11" using sh n by (simp add: table_shape_def)
    ultimately show ?thesis using False i by (simp add: good_value_def)
  qed
  then show ?thesis by (simp add: luaT_gettm_def bind_gco(1) [OF x(1) h] bind_gco(3) [OF y] r)
qed

lemma gfasttm_marks:
  assumes i: "inv A g" and "\<forall>(k, q) \<in> oref 5 mt. is_obj (bodies g) k q" and e: "e \<le> TM_EQ"
  shows "marks A (\<lambda>r g'. \<forall>v. r = Some v \<longrightarrow> good_value g' v) g (gfasttm mt e g)"
proof (cases mt)
  case None
  then show ?thesis using i by (simp add: gfasttm_def sret_def)
next
  case (Some t)
  then have t: "is_obj (bodies g) 5 t" using assms(2) by (simp add: oref_def)
  then obtain x h where x: "heap g t = Some x" "body x = OTable h" using is_objE kind_cases(2) by metis
  have n: "e < length (tmname g)" "is_obj (bodies g) 4 (tmname g ! e)"
    using inv_parts(2) [OF i] e by (simp_all add: globals_ok_def good_value_def)
  show ?thesis
    using Some gettm_marks [OF i t n(2), of e] n(1) i by (simp add: gfasttm_def bind_gco(1) [OF x])
qed

lemma weak_mode_Ok:
  assumes "\<forall>v. mode = Some v \<longrightarrow> good_value g v"
  shows "\<exists>wk wv. weak_mode mode g = Ok ((wk, wv), g)"
proof (cases "\<exists>s. mode = Some (VString s)")
  case True
  then obtain s where s: "mode = Some (VString s)" by blast
  then have "is_obj (bodies g) 4 s" using assms by (simp add: good_value_def vref_def iscollectable_def)
  then obtain x ts where "heap g s = Some x" "body x = OString ts" using is_objE kind_cases(1) by metis
  with s show ?thesis by (simp add: weak_mode_def bind_gco(3) Let_def sret_def)
next
  case False
  then have "weak_mode mode = sret (False, False)"
    by (auto simp: weak_mode_def split: option.splits TValue.splits)
  then have "weak_mode mode g = Ok ((False, False), g)" by (simp add: sret_def)
  then show ?thesis by blast
qed

lemma clear_shape: "table_shape h \<Longrightarrow> table_shape (clear_entry h i)"
proof -
  assume sh: "table_shape h"
  have nodes: "set (node (clear_entry h i)) \<subseteq> insert (removeentry ((node h ! i)\<lparr>i_val := VNil\<rparr>)) (set (node h))"
    unfolding clear_entry_def by (simp add: set_update_subset_insert)
  have v: "i_val (removeentry ((node h ! i)\<lparr>i_val := VNil\<rparr>)) = VNil" by (simp add: removeentry_def)
  then show ?thesis
    using sh nodes clear_links [of h i] by (auto simp: table_shape_def node_ok_def)
qed

lemma clear_refs:
  "\<Union> (node_refs ` set (node (clear_entry h i))) \<subseteq> \<Union> (node_refs ` set (node h))"
proof -
  have nodes: "set (node (clear_entry h i)) \<subseteq> insert (removeentry ((node h ! i)\<lparr>i_val := VNil\<rparr>)) (set (node h))"
    unfolding clear_entry_def by (simp add: set_update_subset_insert)
  have "node_refs (removeentry ((node h ! i)\<lparr>i_val := VNil\<rparr>)) = {}" by (simp add: removeentry_def node_refs_def)
  with nodes show ?thesis by fastforce
qed

lemma clear_entry_marks:
  assumes i: "inv A g" and x: "heap g p = Some x" "body x = OTable h"
  shows "inv A (put g p (x\<lparr>body := OTable (clear_entry h j)\<rparr>))" and "grows g (put g p (x\<lparr>body := OTable (clear_entry h j)\<rparr>))"
  using inv_table [OF i x(1,2) clear_shape _ _ clear_refs] wf_obj(1) [OF i x(1)] x(2) by simp_all

lemma set_table_weak: "steps keep_weak.same_F (set_table p h)"
  by (auto simp: steps_def set_table_def set_body_def get_obj_def set_obj_def fun_eq_iff elim!: sbind_OkE split: option.splits)

lemma traverse_nodes_weak: "steps keep_weak.same_F (traverse_nodes wk wv p i)"
  by (induction i) (auto intro!: keep_weak.F_rules keep_weak.F_mark set_table_weak simp: Let_def)

lemma traverse_nodes_marks:
  "inv A g \<Longrightarrow> heap g p = Some x \<Longrightarrow> body x = OTable h \<Longrightarrow> i \<le> length (node h) \<Longrightarrow>
    marks A (\<lambda>_ g'. \<not> wk \<longrightarrow> \<not> wv \<longrightarrow> all_nonwhite g' (\<Union> (node_refs ` set (take i (node h))))) g (traverse_nodes wk wv p i g)"
proof (induction i arbitrary: g x h)
  case 0
  then show ?case by (simp add: sret_def)
next
  case (Suc i)
  note inv = Suc.prems(1) and x = Suc.prems(2,3)
  let ?n = "node h ! i"
  let ?mk = "if \<not> wk then markvalue (i_key ?n) else sret ()" and ?mv = "if \<not> wv then markvalue (i_val ?n) else sret ()"
  let ?m = "if ttisnil (i_val ?n) then set_table p (h\<lparr>node := (node h)[i := removeentry ?n]\<rparr>) else sbind ?mk (\<lambda>_. ?mv)"
  let ?P = "\<lambda>g'. (\<exists>x' h'. heap g' p = Some x' \<and> body x' = OTable h' \<and> length (node h') = length (node h) \<and> take i (node h') = take i (node h))
      \<and> (\<not> wk \<longrightarrow> \<not> wv \<longrightarrow> all_nonwhite g' (node_refs ?n))"
  have n: "?n \<in> set (node h)" using Suc.prems(4) by simp
  have sh: "table_shape h" using wf_obj(1) [OF inv x(1)] x(2) by simp
  have m: "marks A (\<lambda>_. ?P) g (?m g)"
  proof (cases "i_val ?n = VNil")
    case True
    then have "?n\<lparr>i_val := VNil\<rparr> = ?n" by (cases ?n) simp
    then have "removeentry ?n = removeentry (?n\<lparr>i_val := VNil\<rparr>)" by simp
    then have e: "h\<lparr>node := (node h)[i := removeentry ?n]\<rparr> = clear_entry h i" by (simp add: clear_entry_def)
    have "node_refs ?n = {}" using True by (simp add: node_refs_def)
    then show ?thesis
      using True clear_entry_marks [OF inv x, of i] by (simp add: e set_table_Ok [OF x(1)]) (simp add: clear_entry_def)
  next
    case False
    have v: "\<forall>(k, q) \<in> vref w. is_obj (bodies g) k q" "ttype w \<noteq> 11" if "w = i_key ?n \<or> w = i_val ?n" for w
    proof -
      have "vref w \<subseteq> refs (bodies g) (body x)" using that n False by (auto simp: x(2) node_refs_def)
      then show "\<forall>(k, q) \<in> vref w. is_obj (bodies g) k q" using wf_obj(2) [OF inv x(1)] by blast
      show "ttype w \<noteq> 11" using that n False sh by (auto simp: table_shape_def node_ok_def)
    qed
    have one: "marks A (\<lambda>_ g'. (\<exists>x'. heap g' p = Some x' \<and> body x' = OTable h) \<and> (c \<longrightarrow> all_nonwhite g' (vref w))) g1
        ((if c then markvalue w else sret ()) g1)"
      if h: "inv A g1" "grows g g1" "w = i_key ?n \<or> w = i_val ?n" "heap g1 p = Some x1" "body x1 = OTable h" for c w g1 x1
    proof (cases c)
      case True
      have "\<forall>(k, q) \<in> vref w. is_obj (bodies g1) k q" using v(1) [OF h(3)] grows_kind [OF h(2)] by blast
      from markvalue_marks [OF h(1) v(2) [OF h(3)] this] obtain u g2 where
        2: "markvalue w g1 = Ok (u, g2)" "grows g1 g2" "inv A g2" "all_nonwhite g2 (vref w)" by (rule marksE)
      moreover obtain x2 where "heap g2 p = Some x2" "body x2 = body x1"
        using keep_object [OF keep_body.F_mark(2) 2(1) h(4)] by blast
      ultimately show ?thesis using True h(5) by simp
    qed (use h in \<open>simp add: sret_def\<close>)
    have "marks A (\<lambda>_ g'. (\<exists>x'. heap g' p = Some x' \<and> body x' = OTable h)
        \<and> (\<not> wk \<longrightarrow> \<not> wv \<longrightarrow> all_nonwhite g' (node_refs ?n))) g (sbind ?mk (\<lambda>_. ?mv) g)"
    proof (rule marks_bind [where m = ?mk, OF one [OF inv grows_refl _ x]])
      fix u g1
      assume 1: "grows g g1" "inv A g1"
        "(\<exists>x'. heap g1 p = Some x' \<and> body x' = OTable h) \<and> (\<not> wk \<longrightarrow> all_nonwhite g1 (vref (i_key ?n)))"
      then obtain x1 where x1: "heap g1 p = Some x1" "body x1 = OTable h" by blast
      from one [OF 1(2,1) _ x1, of "i_val ?n" "\<not> wv"]
      show "marks A (\<lambda>_ g'. (\<exists>x'. heap g' p = Some x' \<and> body x' = OTable h)
        \<and> (\<not> wk \<longrightarrow> \<not> wv \<longrightarrow> all_nonwhite g' (node_refs ?n))) g1 (?mv g1)"
      proof (rule marks_mono, goal_cases)
        case (2 v g2)
        have "\<not> wk \<longrightarrow> all_nonwhite g2 (vref (i_key ?n))" using 1(3) nonwhite_grows [OF _ 2(1)] by blast
        with 2(3) False show ?case by (auto simp: node_refs_def)
      qed simp
    qed simp
    then have "marks A (\<lambda>_. ?P) g (sbind ?mk (\<lambda>_. ?mv) g)" by (rule marks_mono) blast
    moreover have "?m = sbind ?mk (\<lambda>_. ?mv)" using False by simp
    ultimately show ?thesis by simp
  qed
  have "marks A (\<lambda>_ g'. \<not> wk \<longrightarrow> \<not> wv \<longrightarrow> all_nonwhite g' (\<Union> (node_refs ` set (take (Suc i) (node h))))) g
     (sbind ?m (\<lambda>_. traverse_nodes wk wv p i) g)"
  proof (rule marks_bind [where m = ?m, OF m])
    fix u g1
    assume 1: "grows g g1" "inv A g1" "?P g1"
    then obtain x1 h1 where x1: "heap g1 p = Some x1" "body x1 = OTable h1" "length (node h1) = length (node h)"
      "take i (node h1) = take i (node h)" by blast
    have "i \<le> length (node h1)" using Suc.prems(4) x1(3) by simp
    from Suc.IH [OF 1(2) x1(1,2) this]
    show "marks A (\<lambda>_ g'. \<not> wk \<longrightarrow> \<not> wv \<longrightarrow> all_nonwhite g' (\<Union> (node_refs ` set (take (Suc i) (node h))))) g1
       (traverse_nodes wk wv p i g1)"
    proof (rule marks_mono)
      fix v g2
      assume 2: "grows g1 g2" "\<not> wk \<longrightarrow> \<not> wv \<longrightarrow> all_nonwhite g2 (\<Union> (node_refs ` set (take i (node h1))))"
      have "\<not> wk \<longrightarrow> \<not> wv \<longrightarrow> all_nonwhite g2 (node_refs ?n)" using 1(3) nonwhite_grows [OF _ 2(1)] by blast
      with 2(2) Suc.prems(4) x1(4)
      show "\<not> wk \<longrightarrow> \<not> wv \<longrightarrow> all_nonwhite g2 (\<Union> (node_refs ` set (take (Suc i) (node h))))"
        by (auto simp: take_Suc_conv_app_nth)
    qed
  qed
  then show ?case by (simp add: bind_gco(1) [OF x] Let_def)
qed

section \<open>A table\<close>

text \<open>Marking the parts of a table that are not weak, once it is in the list of weak tables if it has any.\<close>

lemma table_parts_marks:
  assumes i: "inv (insert p A) g" and x: "heap g p = Some x" "body x = OTable h"
    and m: "all_nonwhite g (mrefs (body x))" and s: "settled p g"
    and w: "wk \<or> wv \<Longrightarrow> p \<in> set (weak g)" and v: "wv \<Longrightarrow> bit (marked x) VALUEWEAKBIT"
  shows "marks A (\<lambda>_ _. True) g (sbind (if \<not> wv then for_each markvalue (rev (array h)) else sret ()) (\<lambda>_.
      traverse_nodes wk wv p (sizenode h)) g)"
proof -
  let ?ma = "if \<not> wv then for_each markvalue (rev (array h)) else sret ()"
  have sh: "table_shape h" using wf_obj(1) [OF i x(1)] x(2) by simp
  have ar: "arefs (body x) = \<Union> (vref ` set (array h))" by (simp add: x(2) arefs_def)
  have ok: "\<forall>(k, q) \<in> \<Union> (vref ` set (rev (array h))). is_obj (bodies g) k q"
    using wf_obj(2) [OF i x(1)] unfolding x(2) refs.simps set_rev by blast
  have "marks (insert p A) (\<lambda>_ g'. \<not> wv \<longrightarrow> all_nonwhite g' (arefs (body x))) g (?ma g)"
  proof (cases wv)
    case False
    have "marks (insert p A) (\<lambda>_ g'. all_nonwhite g' (\<Union> (vref ` set (rev (array h))))) g (for_each markvalue (rev (array h)) g)"
      by (rule values_marks [OF i _ ok]) (use sh in \<open>simp add: table_shape_def\<close>)
    then show ?thesis using False by (simp add: ar)
  qed (use i in \<open>simp add: sret_def\<close>)
  then obtain u1 g1 where 1: "?ma g = Ok (u1, g1)" "grows g g1" "inv (insert p A) g1" "\<not> wv \<longrightarrow> all_nonwhite g1 (arefs (body x))"
    by (rule marksE)
  have "steps keep_body.same_F ?ma" "steps keep_weak.same_F ?ma"
    by (auto intro!: F_for_each keep_body.F_rules state_frame.steps_for_each [OF keep_weak.F_frame] keep_weak.F_rules keep_weak.F_mark)
  from fun_cong [OF stepsD [OF this(1) 1(1)], of p] fun_cong [OF stepsD [OF this(2) 1(1)], of p] x(1)
  obtain x1 where x1: "heap g1 p = Some x1" "body x1 = body x" "bit (marked x1) VALUEWEAKBIT = bit (marked x) VALUEWEAKBIT"
    by (cases "heap g1 p") auto
  have b1: "body x1 = OTable h" using x1(2) x(2) by simp
  have len: "sizenode h = length (node h)" using sh by (simp add: sizenode_def table_shape_def)
  from traverse_nodes_marks [OF 1(3) x1(1) b1, of "length (node h)" wk wv]
  obtain u2 g2 where 2: "traverse_nodes wk wv p (sizenode h) g1 = Ok (u2, g2)" "grows g1 g2" "inv (insert p A) g2"
    "\<not> wk \<longrightarrow> \<not> wv \<longrightarrow> all_nonwhite g2 (\<Union> (node_refs ` set (node h)))"
    unfolding len by (auto elim!: marksE)
  from fun_cong [OF stepsD [OF traverse_nodes_weak 2(1)], of p] x1
  obtain x2 where x2: "heap g2 p = Some x2" "bit (marked x2) VALUEWEAKBIT = bit (marked x) VALUEWEAKBIT"
    by (cases "heap g2 p") auto
  have g2: "grows g g2" by (rule grows_trans [OF 1(2) 2(2)])
  obtain le: "refs (bodies g2) (body x2) \<subseteq> refs (bodies g) (body x)" "mrefs (body x2) \<subseteq> mrefs (body x)" "arefs (body x2) \<subseteq> arefs (body x)"
    by (rule grows_obj [OF g2 x(1)]) (use x2(1) in auto)
  have m2: "all_nonwhite g2 (mrefs (body x))" by (rule nonwhite_grows [OF m g2])
  have a2: "\<not> wv \<longrightarrow> all_nonwhite g2 (arefs (body x))" using 1(4) nonwhite_grows [OF _ 2(2)] by blast
  have "inv A g2"
  proof (rule inv_drop [OF 2(3) _ settled_grows [OF s x(1) g2]])
    fix y
    assume "heap g2 p = Some y"
    then have y: "y = x2" using x2(1) by simp
    show "traced g2 p y"
    proof (cases "wk \<or> wv")
      case True
      then have "p \<in> set (weak g2)" using w g2 by (auto simp: grows_def)
      moreover have "bit (marked x2) VALUEWEAKBIT \<or> all_nonwhite g2 (arefs (body x2))"
        using x2(2) v a2 le(3) by blast
      ultimately show ?thesis using m2 le(2) unfolding traced_def y by blast
    next
      case False
      then have "all_nonwhite g2 (refs (bodies g) (body x))"
        using m2 a2 2(4) unfolding x(2) by (auto simp: mrefs_def arefs_def)
      then show ?thesis using m2 le unfolding traced_def y by blast
    qed
  qed
  then show ?thesis
    using 2(1) g2 by (simp add: sbind_Ok [where m = ?ma, OF 1(1)])
qed

lemma marks_then_ret:
  assumes "marks A P g (sbind m n g)"
  shows "marks A (\<lambda>c' _. c' = c) g (sbind m (\<lambda>u. sbind (n u) (\<lambda>_. sret c)) g)"
  using assms
  by (rule marksE) (auto simp: sbind_def sret_def rbind_Ok_iff split: prod.splits elim!: rbind_OkE)

lemma same_body_steps:
  assumes "steps keep_body.same_F m" and "m g = Ok (u, g')"
  shows "bodies g' = bodies g"
  using stepsD [OF assms] by (simp add: bodies_def fun_eq_iff)

lemma traversetable_marks:
  assumes i: "inv (insert p A) g" and o: "is_obj (bodies g) 5 p" and nw: "nonwhite g p" and s: "settled p g"
  shows "marks A (\<lambda>w g'. w \<longrightarrow> p \<in> set (weak g')) g (traversetable p g)"
proof -
  obtain x h0 where x: "heap g p = Some x" "body x = OTable h0" using is_objE [OF o] kind_cases(2) by metis
  let ?m = "metatable h0"
  have mo: "\<forall>(k, q) \<in> oref 5 ?m. is_obj (bodies g) k q" using wf_obj(2) [OF i x(1)] unfolding x(2) refs.simps by blast
  from mark_some_marks [OF i mo] obtain u1 g1 where
    1: "mark_some ?m g = Ok (u1, g1)" "grows g g1" "inv (insert p A) g1" "all_nonwhite g1 (oref 5 ?m)" by (rule marksE)
  have b1: "bodies g1 = bodies g" by (rule same_body_steps [OF keep_body.F_mark(3) 1(1)])
  have mo1: "\<forall>(k, q) \<in> oref 5 ?m. is_obj (bodies g1) k q" using mo b1 by simp
  from gfasttm_marks [OF 1(3) mo1, of TM_MODE] obtain mode g2 where
    2: "gfasttm ?m TM_MODE g1 = Ok (mode, g2)" "grows g1 g2" "inv (insert p A) g2" "\<forall>v. mode = Some v \<longrightarrow> good_value g2 v"
    by (auto elim!: marksE)
  obtain wk wv where wm: "weak_mode mode g2 = Ok ((wk, wv), g2)" using weak_mode_Ok [OF 2(4)] by blast
  have g2: "grows g g2" by (rule grows_trans [OF 1(2) 2(2)])
  obtain x2 where x2: "heap g2 p = Some x2" "kind (body x2) = 5" "mrefs (body x2) \<subseteq> oref 5 ?m"
    by (rule grows_obj [OF g2 x(1)]) (simp add: x(2) mrefs_def)
  have nw2: "nonwhite g2 p" by (rule grows_nonwhite [OF g2 nw])
  have m2: "all_nonwhite g2 (mrefs (body x2))" using nonwhite_grows [OF 1(4) 2(2)] x2(3) by blast
  let ?mw = "if wk \<or> wv then sbind (upd_mark (set_weak_bits wk wv) p) (\<lambda>_. modify (\<lambda>g. g\<lparr>weak := p # weak g\<rparr>)) else sret ()"
  let ?P = "\<lambda>g'. (wk \<or> wv \<longrightarrow> p \<in> set (weak g')) \<and> bodies g' = bodies g2
      \<and> (\<forall>y. heap g' p = Some y \<longrightarrow> wv \<longrightarrow> bit (marked y) VALUEWEAKBIT)"
  have mw: "marks (insert p A) (\<lambda>_. ?P) g2 (?mw g2)"
  proof (cases "wk \<or> wv")
    case True
    let ?x = "x2\<lparr>marked := set_weak_bits wk wv (marked x2)\<rparr>"
    have r: "inv (insert p A) (put g2 p ?x)" "grows g2 (put g2 p ?x)" by (rule inv_recolour [OF 2(3) x2(1)]; simp)+
    have b: "bodies (put g2 p ?x) = bodies g2" by (rule put_same_body [OF x2(1)]) simp
    have "nonwhite (put g2 p ?x) p" "is_obj (bodies (put g2 p ?x)) 5 p"
      using nw2 x2(1,2) b by (simp_all add: nonwhite_def is_obj_def bodies_def)
    note pw = inv_push_weak [OF r(1) this]
    have bw: "bit (set_weak_bits wk wv (marked x2)) VALUEWEAKBIT" if wv
      using that by (simp add: set_weak_bits_def Let_def bit_set_bit_iff)
    show ?thesis
      using True pw grows_trans [OF r(2) pw(2)] b bw
      by (simp add: bind_upd_mark [OF x2(1)] modify_def state_same)
  qed (use 2(3) in \<open>simp add: sret_def\<close>)
  have "marks A (\<lambda>w g'. w \<longrightarrow> p \<in> set (weak g')) g2 (sbind ?mw (\<lambda>_. if wk \<and> wv then sret True else sbind (gco2h p) (\<lambda>h.
          sbind (if \<not> wv then for_each markvalue (rev (array h)) else sret ()) (\<lambda>_.
          sbind (traverse_nodes wk wv p (sizenode h)) (\<lambda>_. sret (wk \<or> wv))))) g2)"
  proof (rule marks_bind [where m = ?mw, OF mw])
    fix u g3
    assume 3: "grows g2 g3" "inv (insert p A) g3" "?P g3"
    obtain x3 where x3: "heap g3 p = Some x3" "kind (body x3) = 5" "mrefs (body x3) \<subseteq> mrefs (body x2)"
      by (rule grows_obj [OF 3(1) x2(1)]) (use x2(2) in auto)
    then obtain h where h: "body x3 = OTable h" using kind_cases(2) by blast
    have m3: "all_nonwhite g3 (mrefs (body x3))" using nonwhite_grows [OF m2 3(1)] x3(3) by blast
    have v: "wv \<Longrightarrow> bit (marked x3) VALUEWEAKBIT" and w: "wk \<or> wv \<Longrightarrow> p \<in> set (weak g3)" using 3(3) x3(1) by auto
    have s3: "settled p g3" by (rule settled_grows [OF s x(1) grows_trans [OF g2 3(1)]])
    show "marks A (\<lambda>w g'. w \<longrightarrow> p \<in> set (weak g')) g3 ((if wk \<and> wv then sret True else sbind (gco2h p) (\<lambda>h.
          sbind (if \<not> wv then for_each markvalue (rev (array h)) else sret ()) (\<lambda>_.
          sbind (traverse_nodes wk wv p (sizenode h)) (\<lambda>_. sret (wk \<or> wv))))) g3)"
    proof (cases "wk \<and> wv")
      case True
      have "inv A g3" by (rule inv_drop [OF 3(2) _ s3]) (use True v w m3 x3(1) in \<open>auto simp: traced_def\<close>)
      with True w show ?thesis by (simp add: sret_def)
    next
      case False
      show ?thesis
        unfolding if_not_P [OF False] bind_gco(1) [OF x3(1) h]
        by (rule marks_mono [OF marks_then_ret [OF table_parts_marks [OF 3(2) x3(1) h m3 s3 w v]]])
           (use w in \<open>auto simp: grows_def\<close>)
    qed
  qed
  then show ?thesis
    using grows_trans [OF g2]
    by (auto simp: traversetable_def bind_gco(1) [OF x] sbind_Ok [where m = "mark_some ?m", OF 1(1)]
        sbind_Ok [where m = "gfasttm ?m TM_MODE", OF 2(1)] sbind_Ok [where m = "weak_mode mode", OF wm] elim!: marksE)
qed

section \<open>Propagation\<close>

lemma inv_pop:
  assumes "inv A g" and "gray g = p # rest"
  shows "inv (insert p A) (g\<lparr>gray := rest\<rparr>)" and "grows g (g\<lparr>gray := rest\<rparr>)"
proof -
  let ?g = "g\<lparr>gray := rest\<rparr>"
  have "tri (insert p A) ?g"
    by (rule tri_step [OF inv_parts(4) [OF assms(1)]]) (use assms(2) in \<open>auto simp: state_same\<close>)
  moreover have "colours (insert p A) ?g"
    using inv_parts(6) [OF assms(1)] assms(2) by (auto simp: colours_def again_def)
  ultimately show "inv (insert p A) ?g"
    using inv_parts(1-3,5) [OF assms(1)] assms(2) by (auto simp: inv_def lists_ok_def globals_ok_def good_value_def state_same)
  show "grows g ?g" by (auto simp: grows_def same_frame_def state_same)
qed

text \<open>An assignment to the colour that does not make white\<close>

lemma recolour_marks:
  assumes "inv A g" and "heap g p = Some x" and "f = gray2black \<and> \<not> open_body (body x) \<and> \<not> iswhite (marked x) \<or> f = black2gray \<and> p \<in> again g"
  shows "marks A (\<lambda>_ g'. g' = put g p (x\<lparr>marked := f (marked x)\<rparr>)) g (upd_mark f p g)"
proof -
  let ?x = "x\<lparr>marked := f (marked x)\<rparr>"
  have "bit (f (marked x)) VALUEWEAKBIT = bit (marked x) VALUEWEAKBIT" "iswhite (f (marked x)) = iswhite (marked x)"
    using assms(3) by (auto simp: gray2black_def black2gray_def iswhite_def bit_set_bit_iff bit_unset_bit_iff)
  moreover have "isblack (f (marked x)) \<Longrightarrow> isblack (marked x) \<or> \<not> open_body (body x) \<and> \<not> iswhite (marked x)"
    and "isblack (marked x) \<Longrightarrow> isblack (f (marked x)) \<or> p \<in> again g" using assms(3) by auto
  ultimately show ?thesis
    using inv_recolour [OF assms(1,2), of ?x] by (simp add: upd_mark_Ok [OF assms(2)])
qed

lemma read_marks:
  assumes "inv A g" and "is_obj (bodies g) k p"
  shows "k = 5 \<Longrightarrow> marks A (\<lambda>_ _. True) g (sbind (gco2h p) (\<lambda>h. sret (f h)) g)"
    and "k = 8 \<Longrightarrow> marks A (\<lambda>_ _. True) g (sbind (gco2th p) (\<lambda>t. sret (f' t)) g)"
proof -
  obtain x where x: "heap g p = Some x" "kind (body x) = k" using assms(2) by (rule is_objE)
  show "k = 5 \<Longrightarrow> marks A (\<lambda>_ _. True) g (sbind (gco2h p) (\<lambda>h. sret (f h)) g)"
    using kind_cases(2) [of "body x"] x assms(1) by (auto simp: bind_gco(1) sret_def)
  show "k = 8 \<Longrightarrow> marks A (\<lambda>_ _. True) g (sbind (gco2th p) (\<lambda>t. sret (f' t)) g)"
    using kind_cases(5) [of "body x"] x assms(1) by (auto simp: bind_gco(2) sret_def)
qed

lemma gray_table_marks:
  assumes i: "inv (insert p A) g" and o: "is_obj (bodies g) 5 p" and nw: "nonwhite g p" and s: "settled p g"
  shows "marks A (\<lambda>_ _. True) g (sbind (traversetable p) (\<lambda>w.
      sbind (if w then upd_mark black2gray p else sret ()) (\<lambda>_. sbind (gco2h p) (\<lambda>h. sret (size_table h)))) g)"
proof (rule marks_bind [where m = "traversetable p", OF traversetable_marks [OF i o nw s]])
  fix w g1
  assume 1: "grows g g1" "inv A g1" "w \<longrightarrow> p \<in> set (weak g1)"
  have o1: "is_obj (bodies g1) 5 p" by (rule grows_kind [OF 1(1) o])
  obtain x where x: "heap g1 p = Some x" using is_objE [OF o1] by blast
  let ?m = "if w then upd_mark black2gray p else sret ()"
  have "marks A (\<lambda>_ _. True) g1 (?m g1)"
    using recolour_marks [OF 1(2) x, of black2gray] 1(2,3) by (auto simp: sret_def again_def elim!: marks_mono)
  then show "marks A (\<lambda>_ _. True) g1 (sbind ?m (\<lambda>_. sbind (gco2h p) (\<lambda>h. sret (size_table h))) g1)"
    by (rule marks_bind [where m = ?m]) (use read_marks(1) grows_kind [OF _ o1] in blast)
qed

lemma gray_thread_marks:
  assumes i: "inv (insert p A) g" and x: "heap g p = Some x" "body x = OThread t" and nw: "nonwhite g p"
  shows "marks A (\<lambda>_ _. True) g (sbind (modify (\<lambda>g. g\<lparr>grayagain := p # grayagain g\<rparr>)) (\<lambda>_.
      sbind (upd_mark black2gray p) (\<lambda>_. sbind (traversestack p) (\<lambda>_. sbind (gco2th p) (\<lambda>t. sret (size_thread t))))) g)"
proof -
  let ?g = "g\<lparr>grayagain := p # grayagain g\<rparr>" and ?x = "x\<lparr>marked := black2gray (marked x)\<rparr>"
  have o: "is_obj (bodies g) 8 p" using x by (simp add: is_obj_def bodies_def)
  have 1: "inv (insert p A) ?g" "grows g ?g" using inv_push_grayagain [OF i nw] o by blast+
  have x1: "heap ?g p = Some x" using x by simp
  have 2: "inv (insert p A) (put ?g p ?x)" "grows ?g (put ?g p ?x)"
    using recolour_marks [OF 1(1) x1, of black2gray] by (simp_all add: upd_mark_Ok [OF x1] again_def)
  have x2: "heap (put ?g p ?x) p = Some ?x" "body ?x = OThread t" using x by simp_all
  have s2: "settled p (put ?g p ?x)" by (simp add: settled_def again_def)
  have o2: "is_obj (bodies (put ?g p ?x)) 8 p" using x by (simp add: is_obj_def)
  have "marks A (\<lambda>_ _. True) (put ?g p ?x) (sbind (traversestack p) (\<lambda>_. sbind (gco2th p) (\<lambda>t. sret (size_thread t))) (put ?g p ?x))"
    by (rule marks_bind [where m = "traversestack p", OF traversestack_marks [OF 2(1) x2 s2]])
       (use read_marks(2) grows_kind [OF _ o2] in blast)
  then show ?thesis
    using grows_trans [OF grows_trans [OF 1(2) 2(2)]]
    by (auto simp: sbind_Ok [where m = "modify _"] modify_def bind_upd_mark [OF x1] elim!: marksE)
qed

lemma propagatemark_marks:
  assumes i: "inv A g" and gr: "gray g = p # rest"
  shows "marks A (\<lambda>_ _. True) g (propagatemark g)"
proof -
  have p: "nonwhite g p" and kinds: "is_obj (bodies g) 5 p \<or> is_obj (bodies g) 6 p \<or> is_obj (bodies g) 8 p \<or> is_obj (bodies g) 9 p"
    using inv_parts(3) [OF i] gr by (auto simp: lists_ok_def)
  obtain x where x: "heap g p = Some x" and nw: "\<not> iswhite (marked x)" using p by (auto simp: nonwhite_def)
  let ?x = "x\<lparr>marked := gray2black (marked x)\<rparr>"
  let ?g1 = "put g p ?x" and ?g = "(put g p ?x)\<lparr>gray := rest\<rparr>"
  have k: "kind (body x) = 5 \<or> kind (body x) = 6 \<or> kind (body x) = 8 \<or> kind (body x) = 9"
    using kinds bodies_Some [OF x] by (auto simp: is_obj_def)
  then have no: "\<not> open_body (body x)" by (cases "body x" rule: open_body.cases) auto
  have 1: "inv A ?g1" "grows g ?g1" using recolour_marks [OF i x, of gray2black] no nw by (simp_all add: upd_mark_Ok [OF x])
  have 2: "inv (insert p A) ?g" and g2: "grows ?g1 ?g" by (rule inv_pop [OF 1(1)]; simp add: gr)+
  have x2: "heap ?g p = Some ?x" by simp
  have s2: "settled p ?g" by (simp add: settled_def)
  have p2: "nonwhite ?g p" using p x by (simp add: state_same nonwhite_def)
  have o2: "is_obj (bodies ?g) (kind (body x)) p" by (simp add: is_obj_def state_same)
  have ok: "\<forall>(k, q) \<in> refs (bodies ?g) b. is_obj (bodies ?g) k q" if "body x = b" for b
    using wf_obj(2) [OF 2 x2] that by auto
  have sh: "shape (bodies ?g) b" if "body x = b" for b using wf_obj(1) [OF 2 x2] that by simp
  have fin: "marks A (\<lambda>_ _. True) ?g (sbind m (\<lambda>_. sret c) ?g)"
    if "marks (insert p A) (\<lambda>_ g'. all_nonwhite g' (refs (bodies ?g) b)) ?g (m ?g)" "body x = b" for m :: "unit gc" and c :: int and b
    by (rule marks_bind [where m = m, OF that(1)]) (use inv_finish [OF _ _ x2] settled_grows [OF s2 x2] that(2) in \<open>simp add: sret_def\<close>)
  let ?c = "case body x of
              OTable h \<Rightarrow>
                sbind (traversetable p) (\<lambda>w.
                sbind (if w then upd_mark black2gray p else sret ()) (\<lambda>_.
                sbind (gco2h p) (\<lambda>h. sret (size_table h))))
            | OClosure c \<Rightarrow> sbind (traverseclosure c) (\<lambda>_. sret (size_closure c))
            | OThread t \<Rightarrow>
                sbind (modify (\<lambda>g. g\<lparr>grayagain := p # grayagain g\<rparr>)) (\<lambda>_.
                sbind (upd_mark black2gray p) (\<lambda>_.
                sbind (traversestack p) (\<lambda>_.
                sbind (gco2th p) (\<lambda>t. sret (size_thread t)))))
            | OProto f \<Rightarrow> sbind (traverseproto f) (\<lambda>_. sret (size_proto f))
            | _ \<Rightarrow> undef"
  have "marks A (\<lambda>_ _. True) ?g (?c ?g)"
  proof (cases "body x")
    case (OClosure c)
    with fin [where m = "traverseclosure c", OF traverseclosure_marks [OF 2 sh ok]] show ?thesis by simp
  next
    case (OProto f)
    with fin [where m = "traverseproto f", OF traverseproto_marks [OF 2 sh ok]] show ?thesis by simp
  next
    case (OTable h)
    with gray_table_marks [OF 2 _ p2 s2] o2 show ?thesis by simp
  next
    case (OThread t)
    with gray_thread_marks [OF 2 x2 _ p2] show ?thesis by simp
  qed (use k in simp_all)
  moreover have "propagatemark g = ?c ?g"
    using gr by (simp add: propagatemark_def bind_upd_mark [OF x] bind_get_obj) (simp add: sbind_def modify_def)
  ultimately show ?thesis using grows_trans [OF grows_trans [OF 1(2) g2]] by (auto elim!: marksE)
qed

lemma propagateall_marks: "inv A g \<Longrightarrow> marks A (\<lambda>_ g'. gray g' = []) g (propagateall g)"
proof (induction g rule: propagateall.induct)
  case (1 g)
  show ?case
  proof (cases "gray g")
    case Nil
    with "1.prems" show ?thesis by (simp add: propagateall.simps [of g])
  next
    case (Cons p rest)
    from propagatemark_marks [OF "1.prems" Cons] obtain c g1 where
      g1: "propagatemark g = Ok (c, g1)" "grows g g1" "inv A g1" by (rule marksE)
    have ne: "gray g \<noteq> []" using Cons by simp
    from "1.IH" [OF ne g1(1) g1(3)] show ?thesis
      by (rule marksE) (use ne g1 grows_trans in \<open>auto simp: propagateall.simps [of g] sbind_Ok [where m = propagatemark, OF g1(1)]\<close>)
  qed
qed

end
