(* ===== verification/LuaAtomic.thy ===== *)
theory LuaAtomic
  imports LuaPropagate
begin

text \<open>
  The atomic end of the mark phase: when it is over, whatever a marked object refers to is marked.
\<close>

section \<open>Open upvalues\<close>

text \<open>What marking does not touch: the objects that have been marked before.\<close>

definition keep_marked :: "ptr set \<Rightarrow> global_State \<Rightarrow> global_State \<Rightarrow> bool" where
  "keep_marked E g g' \<longleftrightarrow> (\<forall>q x. heap g q = Some x \<longrightarrow> \<not> iswhite (marked x) \<longrightarrow> q \<notin> E \<longrightarrow> heap g' q = Some x)"

interpretation keep: state_frame "keep_marked E" for E
  by unfold_locales (auto simp: keep_marked_def)

lemma keep_get: "steps (keep_marked E) (get_obj p)"
  by (rule steps_get) (rule keep.same)

lemma keep_upd: "p \<in> E \<Longrightarrow> steps (keep_marked E) (upd_mark f p)"
  by (auto simp: steps_def keep_marked_def upd_mark_def get_obj_def set_obj_def elim!: sbind_OkE split: option.splits)

lemma keep_push: "steps (keep_marked E) (push_gray p)"
  by (simp add: steps_def push_gray_def modify_def keep_marked_def)

text \<open>\<open>rec p\<close> changes no marked object but \<open>p\<close>.\<close>

definition keeps_others :: "(ptr \<Rightarrow> unit gc) \<Rightarrow> bool" where
  "keeps_others rec \<longleftrightarrow> (\<forall>p. steps (keep_marked {p}) (rec p))"

lemma keep_mono: "keep_marked E g g' \<Longrightarrow> E \<subseteq> E' \<Longrightarrow> keep_marked E' g g'"
  unfolding keep_marked_def by blast

lemma keep_markobject_by: "keeps_others rec \<Longrightarrow> steps (keep_marked E) (markobject_by rec p)"
  unfolding steps_def
proof (intro allI impI)
  fix g u g'
  assume r: "keeps_others rec" and m: "markobject_by rec p g = Ok (u, g')"
  then obtain x where x: "heap g p = Some x" "(if iswhite (marked x) then rec p else sret ()) g = Ok (u, g')"
    by (auto simp: markobject_by_def get_obj_def elim!: sbind_OkE split: option.splits)
  show "keep_marked E g g'"
  proof (cases "iswhite (marked x)")
    case True
    with x r have "keep_marked {p} g g'" by (auto simp: keeps_others_def dest: stepsD)
    with True x(1) show ?thesis unfolding keep_marked_def by (metis option.inject singletonD)
  qed (use x(2) keep.same in simp)
qed

lemma keep_markvalue_by: "keeps_others rec \<Longrightarrow> steps (keep_marked E) (markvalue_by rec v)"
  by (simp add: markvalue_by_def keep_markobject_by keep.steps_ret)

lemma keep_reallymark: "keeps_others (reallymark n)"
proof (induction n)
  case 0
  then show ?case by (simp add: keeps_others_def steps_def)
next
  case (Suc n)
  note mo = keep_markobject_by [OF Suc] and mv = keep_markvalue_by [OF Suc]
  have "steps (keep_marked {p}) (mark_body (reallymark n) p)" for p
    unfolding mark_body_def scan_object_def
    by (intro keep.steps_bind keep_get keep_upd)
       (auto split: body.splits option.splits UpVal.splits
         intro!: keep.steps_bind keep.steps_ret keep.steps_uv_value keep_push keep_upd mo mv)
  then show ?case by (simp add: keeps_others_def)
qed

lemma keep_markvalue: "steps (keep_marked E) (markvalue v)"
  unfolding markvalue_def reallymarkobject_def by (rule keep_markvalue_by [OF keep_reallymark])

lemma uv_refs:
  assumes "inv A g" and "heap g u = Some x" and "body x = OUpVal uv"
  shows "marks A (\<lambda>_ g'. all_nonwhite g' (refs (bodies g) (body x))) g (sbind (uv_value uv) markvalue g)"
proof -
  obtain v where v: "uv_value uv g = Ok (v, g)" "refs (bodies g) (body x) = vref v" "ttype v \<noteq> 11"
    using uv_value_Ok [OF assms] by blast
  have "\<forall>(k, q) \<in> vref v. is_obj (bodies g) k q" using wf_obj(2) [OF assms(1,2)] v(2) by auto
  from markvalue_marks [OF assms(1) v(3) this] v(1,2) show ?thesis
    by (simp add: sbind_Ok [where m = "uv_value uv", OF v(1)])
qed

lemma remark_loop:
  assumes "inv A g" and "\<forall>u \<in> set us. is_obj (bodies g) 10 u"
  shows "marks A (\<lambda>_ g'. \<forall>u x. u \<in> set us \<longrightarrow> heap g u = Some x \<longrightarrow> isgray (marked x)
      \<longrightarrow> all_nonwhite g' (refs (bodies g) (body x))) g
    (for_each (\<lambda>u. sbind (marked_of u) (\<lambda>m.
       if isgray m then sbind (gco2uv u) (\<lambda>uv. sbind (uv_value uv) markvalue) else sret ())) us g)"
    (is "marks A _ g (for_each ?f us g)")
  using assms
proof (induction us arbitrary: g)
  case Nil
  then show ?case by (simp add: sret_def)
next
  case (Cons u us)
  obtain x uv where x: "heap g u = Some x" "body x = OUpVal uv"
    using is_objE [of g 10 u] kind_cases(7) Cons.prems(2) by (metis list.set_intros(1))
  have m: "marks A (\<lambda>_ g'. isgray (marked x) \<longrightarrow> all_nonwhite g' (refs (bodies g) (body x))) g (?f u g)"
    using uv_refs [OF Cons.prems(1) x] Cons.prems(1)
    by (auto simp: bind_marked_of [OF x(1)] bind_gco(5) [OF x] sret_def elim!: marks_mono)
  obtain v g1 where 1: "?f u g = Ok (v, g1)" "grows g g1" "inv A g1"
    "isgray (marked x) \<longrightarrow> all_nonwhite g1 (refs (bodies g) (body x))" using m by (rule marksE)
  have "steps (keep_marked {}) (?f u)" "steps keep_body.same_F (?f u)"
    unfolding marked_of_def
    by (auto intro!: keep.steps_bind keep_get keep.steps_ret keep.steps_access keep.steps_uv_value keep_markvalue
        keep_body.F_rules keep_body.F_mark)
  from stepsD [OF this(1) 1(1)] same_body_steps [OF this(2) 1(1)]
  have k: "keep_marked {} g g1" and b: "bodies g1 = bodies g" by simp_all
  have "\<forall>u \<in> set us. is_obj (bodies g1) 10 u" using Cons.prems(2) b by simp
  from Cons.IH [OF 1(3) this] show ?case
  proof (rule marksE)
    fix w g2
    assume 2: "for_each ?f us g1 = Ok (w, g2)" "grows g1 g2" "inv A g2"
      "\<forall>u x. u \<in> set us \<longrightarrow> heap g1 u = Some x \<longrightarrow> isgray (marked x) \<longrightarrow> all_nonwhite g2 (refs (bodies g1) (body x))"
    have "all_nonwhite g2 (refs (bodies g) (body y))" if h: "q \<in> set (u # us)" "heap g q = Some y" "isgray (marked y)" for q y
    proof (cases "q = u")
      case True
      with h x(1) 1(4) show ?thesis using nonwhite_grows [OF _ 2(2)] by simp
    next
      case False
      have "heap g1 q = Some y" using k h by (auto simp: keep_marked_def isgray_def)
      with False h 2(4) b show ?thesis by auto
    qed
    then have all: "\<forall>q y. q \<in> set (u # us) \<longrightarrow> heap g q = Some y \<longrightarrow> isgray (marked y)
        \<longrightarrow> all_nonwhite g2 (refs (bodies g) (body y))" by blast
    show ?thesis
      unfolding for_each.simps sbind_Ok [where m = "?f u", OF 1(1)] 2(1) marks_Ok
      using grows_trans [OF 1(2) 2(2)] 2(3) all by blast
  qed
qed

text \<open>Several objects that are traced\<close>

lemma inv_drop_set:
  assumes "inv (A \<union> U) g" and "\<And>p x. p \<in> U \<Longrightarrow> heap g p = Some x \<Longrightarrow> \<not> iswhite (marked x) \<Longrightarrow> traced g p x"
    and "\<And>p. p \<in> U \<Longrightarrow> settled p g"
  shows "inv A g"
proof -
  have "tri A g" using assms(2) inv_parts(4) [OF assms(1)] unfolding tri_def by blast
  moreover have "colours A g"
    using assms(3) inv_parts(6) [OF assms(1)] unfolding colours_def settled_def isgray_def by blast
  ultimately show ?thesis using inv_parts(1-3,5) [OF assms(1)] by (simp add: inv_def)
qed

lemma remarkupvals_marks:
  assumes i: "inv (A \<union> {p. open_uv (bodies g) p}) g"
  shows "marks A (\<lambda>_ _. True) g (remarkupvals g)"
proof -
  let ?U = "{p. open_uv (bodies g) p \<and> nonwhite g p}"
  have i0: "inv (A \<union> ?U) g"
    using i by (auto simp: inv_def tri_def colours_def isgray_def nonwhite_def)
  have us: "\<forall>u \<in> set (uvhead g). is_obj (bodies g) 10 u" using inv_parts(2) [OF i] by (simp add: globals_ok_def)
  from remark_loop [OF i0 us] obtain u g1 where
    1: "remarkupvals g = Ok (u, g1)" "grows g g1" "inv (A \<union> ?U) g1"
    "\<forall>u x. u \<in> set (uvhead g) \<longrightarrow> heap g u = Some x \<longrightarrow> isgray (marked x) \<longrightarrow> all_nonwhite g1 (refs (bodies g) (body x))"
    unfolding remarkupvals_def by (rule marksE)
  have "inv A g1"
  proof (rule inv_drop_set [OF 1(3)])
    fix p y
    assume p: "p \<in> ?U" and y: "heap g1 p = Some y"
    then obtain x where x: "heap g p = Some x" "\<not> iswhite (marked x)" "open_body (body x)"
      by (auto simp: nonwhite_def open_uv_def bodies_def)
    then have "p \<in> set (uvhead g)" "isgray (marked x)" using inv_parts(5) [OF i] by (auto simp: open_ok_def isgray_def)
    then have "all_nonwhite g1 (refs (bodies g) (body x))" using 1(4) x(1) by blast
    moreover obtain "refs (bodies g1) (body y) \<subseteq> refs (bodies g) (body x)"
      by (rule grows_obj [OF 1(2) x(1)]) (use y in auto)
    ultimately show "traced g1 p y" using mrefs_sub(1) [of "body y" "bodies g1"] unfolding traced_def by blast
  next
    fix p
    assume "p \<in> ?U"
    then obtain x where x: "heap g p = Some x" "open_body (body x)" by (auto simp: nonwhite_def open_uv_def bodies_def)
    then show "settled p g1" using settled_grows [OF _ x(1) 1(2)] by (simp add: settled_def)
  qed
  with 1(1,2) show ?thesis by simp
qed

section \<open>Weak tables\<close>

lemma iscleared_bodies: "steps keep_body.same_F (iscleared v k)"
  unfolding iscleared_def stringmark_def marked_of_def
  by (auto split: TValue.splits intro!: keep_body.F_rules keep_body.F_upd_mark)

lemma iscleared_marks:
  assumes i: "inv A g" and v: "good_value g v"
  shows "marks A (\<lambda>c g'. \<not> c \<longrightarrow> all_nonwhite g' (vref v)) g (iscleared v k g)"
proof (cases "iscollectable v")
  case False
  then show ?thesis using i by (simp add: iscleared_def vref_def sret_def)
next
  case True
  note r = vref_collectable [OF True]
  have o: "is_obj (bodies g) (ttype v) (gcvalue v)" and t: "ttype v \<noteq> 11" using v r by (auto simp: good_value_def)
  show ?thesis
  proof (cases "\<exists>s. v = VString s")
    case True
    then obtain s where s: "v = VString s" by blast
    then have os: "is_obj (bodies g) 4 s" using o by simp
    have r: "vref v = {(4, s)}" using s by (simp add: vref_def iscollectable_def)
    have "marks A (\<lambda>c g'. \<not> c \<longrightarrow> all_nonwhite g' (vref v)) g (sbind (stringmark s) (\<lambda>_. sret False) g)"
      unfolding r by (rule marks_bind [where m = "stringmark s", OF stringmark_marks [OF i os]]) (simp add: sret_def)
    moreover have "iscleared v k = sbind (stringmark s) (\<lambda>_. sret False)"
      using s by (simp add: iscleared_def iscollectable_def)
    ultimately show ?thesis by simp
  next
    case False
    obtain x where x: "heap g (gcvalue v) = Some x" using o by (rule is_objE)
    have "iscleared v k g = Ok (iswhite (marked x) \<or> (case v of VUserdata _ \<Rightarrow> \<not> k \<and> isfinalized (marked x) | _ \<Rightarrow> False), g)"
      using False True x by (cases v) (simp_all add: iscleared_def bind_marked_of sret_def)
    then show ?thesis using i x r t by (auto simp: nonwhite_def)
  qed
qed

lemma table_values:
  assumes "inv A g" and "heap g p = Some x" and "body x = OTable h"
  shows "v \<in> set (array h) \<Longrightarrow> good_value g v"
    and "n \<in> set (node h) \<Longrightarrow> i_val n \<noteq> VNil \<Longrightarrow> good_value g (i_key n) \<and> good_value g (i_val n)"
proof -
  have sh: "table_shape h" using wf_obj(1) [OF assms(1,2)] assms(3) by simp
  have ok: "\<forall>(k, q) \<in> refs (bodies g) (OTable h). is_obj (bodies g) k q" using wf_obj(2) [OF assms(1,2)] assms(3) by auto
  show "v \<in> set (array h) \<Longrightarrow> good_value g v"
    using ok sh unfolding refs.simps good_value_def table_shape_def by blast
  assume n: "n \<in> set (node h)" "i_val n \<noteq> VNil"
  then have "vref (i_key n) \<union> vref (i_val n) \<subseteq> refs (bodies g) (OTable h)" by (auto simp: node_refs_def)
  moreover have "ttype (i_key n) \<noteq> 11" "ttype (i_val n) \<noteq> 11" using sh n by (auto simp: table_shape_def node_ok_def)
  ultimately show "good_value g (i_key n) \<and> good_value g (i_val n)"
    using ok unfolding good_value_def by blast
qed

lemma good_grows: "good_value g v \<Longrightarrow> grows g g' \<Longrightarrow> good_value g' v"
  using grows_kind unfolding good_value_def by blast

lemma vref_nil [simp]: "vref VNil = {}"
  by (simp add: vref_def iscollectable_def)

text \<open>An array place that is cleared\<close>

lemma clear_place:
  assumes i: "inv A g" and x: "heap g p = Some x" "body x = OTable h"
  shows "inv A (put g p (x\<lparr>body := OTable (h\<lparr>array := (array h)[j := VNil]\<rparr>)\<rparr>))"
    and "grows g (put g p (x\<lparr>body := OTable (h\<lparr>array := (array h)[j := VNil]\<rparr>)\<rparr>))"
proof -
  let ?h = "h\<lparr>array := (array h)[j := VNil]\<rparr>"
  have s: "set (array ?h) \<subseteq> insert VNil (set (array h))" by (simp add: set_update_subset_insert)
  have "table_shape h" using wf_obj(1) [OF i x(1)] x(2) by simp
  then have sh: "table_shape ?h" using s by (auto simp: table_shape_def)
  have "\<Union> (vref ` set (array ?h)) \<subseteq> \<Union> (vref ` set (array h))" using s by fastforce
  then show "inv A (put g p (x\<lparr>body := OTable ?h\<rparr>))" "grows g (put g p (x\<lparr>body := OTable ?h\<rparr>))"
    using inv_table [OF i x sh] by simp_all
qed

lemma clear_array_marks:
  "inv A g \<Longrightarrow> heap g p = Some x \<Longrightarrow> body x = OTable h \<Longrightarrow> i \<le> length (array h) \<Longrightarrow>
    marks A (\<lambda>_ g'. \<exists>x' h'. heap g' p = Some x' \<and> body x' = OTable h' \<and> node h' = node h \<and> lsizenode h' = lsizenode h
      \<and> length (array h') = length (array h) \<and> drop i (array h') = drop i (array h)
      \<and> all_nonwhite g' (\<Union> (vref ` set (take i (array h'))))) g (clear_array p i g)"
proof (induction i arbitrary: g x h)
  case 0
  then show ?case by (simp add: sret_def)
next
  case (Suc i)
  note inv = Suc.prems(1) and x = Suc.prems(2,3)
  let ?v = "array h ! i"
  have v: "good_value g ?v" using table_values(1) [OF inv x] Suc.prems(4) by simp
  from iscleared_marks [OF inv v, of False] obtain c g1 where
    1: "iscleared ?v False g = Ok (c, g1)" "grows g g1" "inv A g1" "\<not> c \<longrightarrow> all_nonwhite g1 (vref ?v)" by (rule marksE)
  obtain x1 where x1: "heap g1 p = Some x1" "body x1 = OTable h"
    using keep_object [OF iscleared_bodies 1(1) x(1)] x(2) by metis
  let ?m = "if c then set_table p (h\<lparr>array := (array h)[i := VNil]\<rparr>) else sret ()"
  let ?P = "\<lambda>g'. \<exists>x' h'. heap g' p = Some x' \<and> body x' = OTable h' \<and> node h' = node h \<and> lsizenode h' = lsizenode h
      \<and> length (array h') = length (array h) \<and> drop (Suc i) (array h') = drop (Suc i) (array h) \<and> all_nonwhite g' (vref (array h' ! i))"
  have m: "marks A (\<lambda>_. ?P) g1 (?m g1)"
    using clear_place [OF 1(3) x1, of i] 1(3,4) x1 Suc.prems(4) by (auto simp: set_table_Ok [OF x1(1)] sret_def)
  then have "marks A (\<lambda>_ g'. \<exists>x' h'. heap g' p = Some x' \<and> body x' = OTable h' \<and> node h' = node h \<and> lsizenode h' = lsizenode h
      \<and> length (array h') = length (array h) \<and> drop (Suc i) (array h') = drop (Suc i) (array h)
      \<and> all_nonwhite g' (\<Union> (vref ` set (take (Suc i) (array h'))))) g1 (sbind ?m (\<lambda>_. clear_array p i) g1)"
  proof (rule marks_bind [where m = ?m])
    fix u g2
    assume 2: "grows g1 g2" "inv A g2" "?P g2"
    then obtain x2 h2 where h2: "heap g2 p = Some x2" "body x2 = OTable h2" "node h2 = node h" "lsizenode h2 = lsizenode h"
      "length (array h2) = length (array h)" "drop (Suc i) (array h2) = drop (Suc i) (array h)" "all_nonwhite g2 (vref (array h2 ! i))"
      by blast
    have le: "i \<le> length (array h2)" "i < length (array h2)" using Suc.prems(4) h2(5) by simp_all
    from Suc.IH [OF 2(2) h2(1,2) le(1)]
    show "marks A (\<lambda>_ g'. \<exists>x' h'. heap g' p = Some x' \<and> body x' = OTable h' \<and> node h' = node h \<and> lsizenode h' = lsizenode h
      \<and> length (array h') = length (array h) \<and> drop (Suc i) (array h') = drop (Suc i) (array h)
      \<and> all_nonwhite g' (\<Union> (vref ` set (take (Suc i) (array h'))))) g2 (clear_array p i g2)"
    proof (rule marks_mono, elim exE conjE)
      fix u g3 x3 h3
      assume 3: "grows g2 g3" "heap g3 p = Some x3" "body x3 = OTable h3" "node h3 = node h2" "lsizenode h3 = lsizenode h2"
        "length (array h3) = length (array h2)" "drop i (array h3) = drop i (array h2)"
        "all_nonwhite g3 (\<Union> (vref ` set (take i (array h3))))"
      have "array h3 ! i = array h2 ! i" using 3(6,7) le(2) by (metis hd_drop_conv_nth)
      then have "all_nonwhite g3 (vref (array h3 ! i))" using nonwhite_grows [OF h2(7) 3(1)] by simp
      then have "all_nonwhite g3 (\<Union> (vref ` set (take (Suc i) (array h3))))"
        using 3(6,8) le(2) by (auto simp: take_Suc_conv_app_nth)
      moreover have "drop (Suc i) (array h3) = drop (Suc i) (array h2)"
        using 3(6,7) le(2) by (metis Cons_nth_drop_Suc list.inject)
      ultimately show "\<exists>x' h'. heap g3 p = Some x' \<and> body x' = OTable h' \<and> node h' = node h \<and> lsizenode h' = lsizenode h
        \<and> length (array h') = length (array h) \<and> drop (Suc i) (array h') = drop (Suc i) (array h)
        \<and> all_nonwhite g3 (\<Union> (vref ` set (take (Suc i) (array h'))))"
        using 3 h2 by auto
    qed
  qed
  then show ?case
    using grows_trans [OF 1(2)]
    by (auto simp: bind_gco(1) [OF x] sbind_Ok [where m = "iscleared ?v False", OF 1(1)] elim!: marksE)
qed

lemma clear_test_marks:
  assumes i: "inv A g" and x: "heap g p = Some x" "body x = OTable h" and n: "n \<in> set (node h)"
  shows "marks A (\<lambda>c g'. \<not> c \<longrightarrow> all_nonwhite g' (node_refs n)) g
    ((if ttisnil (i_val n) then sret False
      else sbind (iscleared (i_key n) True) (\<lambda>ck. if ck then sret True else iscleared (i_val n) False)) g)"
proof (cases "i_val n = VNil")
  case True
  then show ?thesis using i by (simp add: sret_def node_refs_def)
next
  case False
  note v = table_values(2) [OF i x n False]
  have "marks A (\<lambda>c g'. \<not> c \<longrightarrow> all_nonwhite g' (node_refs n)) g
      (sbind (iscleared (i_key n) True) (\<lambda>ck. if ck then sret True else iscleared (i_val n) False) g)"
  proof (rule marks_bind [where m = "iscleared (i_key n) True", OF iscleared_marks [OF i conjunct1 [OF v]]])
    fix ck g1
    assume 1: "grows g g1" "inv A g1" "\<not> ck \<longrightarrow> all_nonwhite g1 (vref (i_key n))"
    show "marks A (\<lambda>c g'. \<not> c \<longrightarrow> all_nonwhite g' (node_refs n)) g1 ((if ck then sret True else iscleared (i_val n) False) g1)"
    proof (cases ck)
      case True
      then show ?thesis using 1(2) by (simp add: sret_def)
    next
      case False
      from iscleared_marks [OF 1(2) good_grows [OF conjunct2 [OF v] 1(1)], of False]
      have "marks A (\<lambda>c g'. \<not> c \<longrightarrow> all_nonwhite g' (node_refs n)) g1 (iscleared (i_val n) False g1)"
      proof (rule marks_mono)
        fix c g2
        assume 2: "grows g1 g2" "\<not> c \<longrightarrow> all_nonwhite g2 (vref (i_val n))"
        have "all_nonwhite g2 (vref (i_key n))" using 1(3) False nonwhite_grows [OF _ 2(1)] by blast
        with 2(2) show "\<not> c \<longrightarrow> all_nonwhite g2 (node_refs n)" by (auto simp: node_refs_def)
      qed
      with False show ?thesis by simp
    qed
  qed
  with False show ?thesis by simp
qed

lemma clear_test_bodies:
  "steps keep_body.same_F (if ttisnil (i_val n) then sret False
      else sbind (iscleared (i_key n) True) (\<lambda>ck. if ck then sret True else iscleared (i_val n) False))"
  by (auto intro!: keep_body.F_rules iscleared_bodies)

lemma clear_nodes_marks:
  "inv A g \<Longrightarrow> heap g p = Some x \<Longrightarrow> body x = OTable h \<Longrightarrow> i \<le> length (node h) \<Longrightarrow>
    marks A (\<lambda>_ g'. \<exists>x' h'. heap g' p = Some x' \<and> body x' = OTable h' \<and> array h' = array h
      \<and> length (node h') = length (node h) \<and> drop i (node h') = drop i (node h)
      \<and> all_nonwhite g' (\<Union> (node_refs ` set (take i (node h'))))) g (clear_nodes p i g)"
proof (induction i arbitrary: g x h)
  case 0
  then show ?case by (simp add: sret_def)
next
  case (Suc i)
  note inv = Suc.prems(1) and x = Suc.prems(2,3)
  let ?n = "node h ! i"
  let ?t = "if ttisnil (i_val ?n) then sret False
      else sbind (iscleared (i_key ?n) True) (\<lambda>ck. if ck then sret True else iscleared (i_val ?n) False)"
  have n: "?n \<in> set (node h)" using Suc.prems(4) by simp
  from clear_test_marks [OF inv x n] obtain c g1 where
    1: "?t g = Ok (c, g1)" "grows g g1" "inv A g1" "\<not> c \<longrightarrow> all_nonwhite g1 (node_refs ?n)" by (rule marksE)
  obtain x1 where x1: "heap g1 p = Some x1" "body x1 = OTable h"
    using keep_object [OF clear_test_bodies 1(1) x(1)] x(2) by metis
  let ?m = "if c then set_table p (clear_entry h i) else sret ()"
  let ?P = "\<lambda>g'. \<exists>x' h'. heap g' p = Some x' \<and> body x' = OTable h' \<and> array h' = array h
      \<and> length (node h') = length (node h) \<and> drop (Suc i) (node h') = drop (Suc i) (node h) \<and> all_nonwhite g' (node_refs (node h' ! i))"
  have gone: "node_refs (node (clear_entry h i) ! i) = {}"
    using Suc.prems(4) by (simp add: clear_entry_def removeentry_def node_refs_def)
  have m: "marks A (\<lambda>_. ?P) g1 (?m g1)"
    using clear_entry_marks [OF 1(3) x1, of i] 1(3,4) x1 gone
    by (cases c) (simp_all add: set_table_Ok [OF x1(1)] sret_def, simp add: clear_entry_def)
  then have "marks A (\<lambda>_ g'. \<exists>x' h'. heap g' p = Some x' \<and> body x' = OTable h' \<and> array h' = array h
      \<and> length (node h') = length (node h) \<and> drop (Suc i) (node h') = drop (Suc i) (node h)
      \<and> all_nonwhite g' (\<Union> (node_refs ` set (take (Suc i) (node h'))))) g1 (sbind ?m (\<lambda>_. clear_nodes p i) g1)"
  proof (rule marks_bind [where m = ?m])
    fix u g2
    assume 2: "grows g1 g2" "inv A g2" "?P g2"
    then obtain x2 h2 where h2: "heap g2 p = Some x2" "body x2 = OTable h2" "array h2 = array h"
      "length (node h2) = length (node h)" "drop (Suc i) (node h2) = drop (Suc i) (node h)" "all_nonwhite g2 (node_refs (node h2 ! i))"
      by blast
    have le: "i \<le> length (node h2)" "i < length (node h2)" using Suc.prems(4) h2(4) by simp_all
    from Suc.IH [OF 2(2) h2(1,2) le(1)]
    show "marks A (\<lambda>_ g'. \<exists>x' h'. heap g' p = Some x' \<and> body x' = OTable h' \<and> array h' = array h
      \<and> length (node h') = length (node h) \<and> drop (Suc i) (node h') = drop (Suc i) (node h)
      \<and> all_nonwhite g' (\<Union> (node_refs ` set (take (Suc i) (node h'))))) g2 (clear_nodes p i g2)"
    proof (rule marks_mono, elim exE conjE)
      fix u g3 x3 h3
      assume 3: "grows g2 g3" "heap g3 p = Some x3" "body x3 = OTable h3" "array h3 = array h2"
        "length (node h3) = length (node h2)" "drop i (node h3) = drop i (node h2)"
        "all_nonwhite g3 (\<Union> (node_refs ` set (take i (node h3))))"
      have "node h3 ! i = node h2 ! i" using 3(5,6) le(2) by (metis hd_drop_conv_nth)
      then have "all_nonwhite g3 (node_refs (node h3 ! i))" using nonwhite_grows [OF h2(6) 3(1)] by simp
      then have "all_nonwhite g3 (\<Union> (node_refs ` set (take (Suc i) (node h3))))"
        using 3(5,7) le(2) by (auto simp: take_Suc_conv_app_nth)
      moreover have "drop (Suc i) (node h3) = drop (Suc i) (node h2)"
        using 3(5,6) le(2) by (metis Cons_nth_drop_Suc list.inject)
      ultimately show "\<exists>x' h'. heap g3 p = Some x' \<and> body x' = OTable h' \<and> array h' = array h
        \<and> length (node h') = length (node h) \<and> drop (Suc i) (node h') = drop (Suc i) (node h)
        \<and> all_nonwhite g3 (\<Union> (node_refs ` set (take (Suc i) (node h'))))"
        using 3 h2 by auto
    qed
  qed
  from marks_after [OF 1(2) this] show ?case
    unfolding clear_nodes.simps bind_gco(1) [OF x] Let_def sbind_Ok [where m = ?t, OF 1(1)] .
qed

text \<open>All references of an object are marked.\<close>

definition all_marked :: "ptr \<Rightarrow> global_State \<Rightarrow> bool" where
  "all_marked p g \<longleftrightarrow> (\<forall>x. heap g p = Some x \<longrightarrow> all_nonwhite g (refs (bodies g) (body x)))"

lemma all_marked_grows:
  assumes "all_marked p g" and "grows g g'" and "heap g p \<noteq> None"
  shows "all_marked p g'"
  unfolding all_marked_def
proof (intro allI impI)
  fix x'
  assume x': "heap g' p = Some x'"
  obtain x where x: "heap g p = Some x" using assms(3) by blast
  obtain "refs (bodies g') (body x') \<subseteq> refs (bodies g) (body x)"
    by (rule grows_obj [OF assms(2) x]) (use x' in auto)
  moreover have "all_nonwhite g (refs (bodies g) (body x))" using assms(1) x unfolding all_marked_def by blast
  ultimately show "all_nonwhite g' (refs (bodies g') (body x'))" using nonwhite_grows [OF _ assms(2)] by blast
qed

lemma clear_one_marks:
  assumes i: "inv {} g" and gr: "gray g = []" and p: "p \<in> set (weak g)"
  shows "marks {} (\<lambda>_ g'. heap g' p \<noteq> None \<and> all_marked p g') g
    (sbind (gco2h p) (\<lambda>h. sbind (marked_of p) (\<lambda>m.
       sbind (if bit m VALUEWEAKBIT then clear_array p (length (array h)) else sret ()) (\<lambda>_.
       clear_nodes p (sizenode h)))) g)"
proof -
  have o: "nonwhite g p" "is_obj (bodies g) 5 p" using inv_parts(3) [OF i] p by (auto simp: lists_ok_def)
  obtain x h where x: "heap g p = Some x" "body x = OTable h" using is_objE [OF o(2)] kind_cases(2) by metis
  have t: "traced g p x" using inv_parts(4) [OF i] o(1) x(1) gr by (auto simp: tri_def nonwhite_def)
  have m: "all_nonwhite g (mrefs (body x))" using t by (simp add: traced_def)
  have a: "bit (marked x) VALUEWEAKBIT \<or> all_nonwhite g (arefs (body x))"
    using t mrefs_sub(2) [of "body x" "bodies g"] unfolding traced_def by blast
  let ?ma = "if bit (marked x) VALUEWEAKBIT then clear_array p (length (array h)) else sret ()"
  let ?P = "\<lambda>g'. \<exists>x' h'. heap g' p = Some x' \<and> body x' = OTable h' \<and> node h' = node h \<and> lsizenode h' = lsizenode h
      \<and> all_nonwhite g' (\<Union> (vref ` set (array h')))"
  have "marks {} (\<lambda>_. ?P) g (?ma g)"
  proof (cases "bit (marked x) VALUEWEAKBIT")
    case True
    from clear_array_marks [OF i x order.refl] have "marks {} (\<lambda>_. ?P) g (clear_array p (length (array h)) g)"
      by (rule marks_mono) auto
    with True show ?thesis by simp
  next
    case False
    then have "all_nonwhite g (\<Union> (vref ` set (array h)))" using a by (simp add: x(2) arefs_def)
    then show ?thesis using False i x by (simp add: sret_def)
  qed
  then obtain u g1 where 1: "?ma g = Ok (u, g1)" "grows g g1" "inv {} g1" "?P g1" by (rule marksE)
  from 1(4) obtain x1 h1 where x1: "heap g1 p = Some x1" "body x1 = OTable h1" "node h1 = node h" "lsizenode h1 = lsizenode h"
    "all_nonwhite g1 (\<Union> (vref ` set (array h1)))" by blast
  have "table_shape h1" using wf_obj(1) [OF 1(3) x1(1)] x1(2) by simp
  then have len: "sizenode h = length (node h1)" using x1(4) by (simp add: sizenode_def table_shape_def)
  have "marks {} (\<lambda>_ g'. heap g' p \<noteq> None \<and> all_marked p g') g1 (clear_nodes p (sizenode h) g1)"
    unfolding len
  proof (rule marks_mono [OF clear_nodes_marks [OF 1(3) x1(1,2) order.refl]], elim exE conjE)
    fix u g2 x2 h2
    assume 2: "grows g1 g2" "heap g2 p = Some x2" "body x2 = OTable h2" "array h2 = array h1"
      "all_nonwhite g2 (\<Union> (node_refs ` set (take (length (node h1)) (node h2))))" "length (node h2) = length (node h1)"
    have g2: "grows g g2" by (rule grows_trans [OF 1(2) 2(1)])
    obtain "mrefs (body x2) \<subseteq> mrefs (body x)" by (rule grows_obj [OF g2 x(1)]) (use 2(2) in auto)
    then have "all_nonwhite g2 (oref 5 (metatable h2))"
      using nonwhite_grows [OF m g2] by (auto simp: 2(3) mrefs_def)
    moreover have "all_nonwhite g2 (\<Union> (vref ` set (array h2)))" using nonwhite_grows [OF x1(5) 2(1)] 2(4) by simp
    moreover have "all_nonwhite g2 (\<Union> (node_refs ` set (node h2)))" using 2(5,6) by simp
    ultimately show "heap g2 p \<noteq> None \<and> all_marked p g2"
      using 2(2,3) by (auto simp: all_marked_def)
  qed
  then show ?thesis
    using grows_trans [OF 1(2)]
    by (auto simp: bind_gco(1) [OF x] bind_marked_of [OF x(1)] sbind_Ok [where m = ?ma, OF 1(1)] elim!: marksE)
qed

text \<open>No step of the clearing puts an object in the gray list, or in the list of weak tables.\<close>

definition same_gray :: "global_State \<Rightarrow> global_State \<Rightarrow> bool" where
  "same_gray g g' \<longleftrightarrow> gray g' = gray g \<and> weak g' = weak g"

interpretation gray: state_frame same_gray
  by unfold_locales (auto simp: same_gray_def)

lemma gray_upd: "steps same_gray (upd_mark f p)" "steps same_gray (set_table p h)"
  by (auto simp: steps_def same_gray_def upd_mark_def set_table_def set_body_def get_obj_def set_obj_def
      elim!: sbind_OkE split: option.splits)

lemma gray_marked_of: "steps same_gray (marked_of p)"
  unfolding marked_of_def by (intro gray.steps_bind steps_get gray.steps_ret gray.same)

lemma gray_iscleared: "steps same_gray (iscleared v k)"
  unfolding iscleared_def stringmark_def
  by (auto split: TValue.splits intro!: gray.steps_bind gray.steps_ret gray_upd gray_marked_of)

lemma gray_clear: "steps same_gray (clear_array p n)" "steps same_gray (clear_nodes p n)"
  by (induction n; auto intro!: gray.steps_bind gray.steps_ret gray.steps_access gray_upd gray_iscleared simp: Let_def)+

lemma cleartable_marks:
  assumes "inv {} g" and "gray g = []" and "set ps \<subseteq> set (weak g)"
  shows "marks {} (\<lambda>_ g'. (\<forall>p \<in> set ps. all_marked p g') \<and> same_gray g g') g (cleartable ps g)"
  using assms
proof (induction ps arbitrary: g)
  case Nil
  then show ?case by (simp add: cleartable_def sret_def gray.same)
next
  case (Cons p ps)
  let ?f = "\<lambda>p. sbind (gco2h p) (\<lambda>h. sbind (marked_of p) (\<lambda>m.
       sbind (if bit m VALUEWEAKBIT then clear_array p (length (array h)) else sret ()) (\<lambda>_.
       clear_nodes p (sizenode h))))"
  have "p \<in> set (weak g)" using Cons.prems(3) by simp
  from clear_one_marks [OF Cons.prems(1,2) this] obtain u g1 where
    1: "?f p g = Ok (u, g1)" "grows g g1" "inv {} g1" "heap g1 p \<noteq> None" "all_marked p g1"
    by (rule marksE) blast
  have "steps same_gray (?f p)"
    by (auto intro!: gray.steps_bind gray.steps_ret gray.steps_access gray_clear gray_marked_of)
  note sg = stepsD [OF this 1(1)]
  have gr: "gray g1 = []" using sg Cons.prems(2) by (simp add: same_gray_def)
  have "set ps \<subseteq> set (weak g1)" using Cons.prems(3) 1(2) by (auto simp: grows_def)
  from Cons.IH [OF 1(3) gr this] show ?case
  proof (rule marksE)
    fix v g2
    assume 2: "cleartable ps g1 = Ok (v, g2)" "grows g1 g2" "inv {} g2" "(\<forall>p \<in> set ps. all_marked p g2) \<and> same_gray g1 g2"
    have "all_marked p g2" by (rule all_marked_grows [OF 1(5) 2(2) 1(4)])
    moreover have "cleartable (p # ps) g = Ok (v, g2)"
      using 2(1) by (simp add: cleartable_def sbind_Ok [where m = "?f p", OF 1(1)])
    ultimately show ?thesis using 2 grows_trans [OF 1(2) 2(2)] gray.sequence [OF sg conjunct2 [OF 2(4)]] by simp
  qed
qed

end
