(* ===== verification/LuaCollect.thy ===== *)
theory LuaCollect
  imports LuaAtomic
begin

text \<open>
  The end of the mark phase as a whole, the write barriers, and what the sweep may free.
\<close>

text \<open>Fields that have no objects in them\<close>

lemma store_fields [simp]:
  "bodies (currentwhite_update f0 g) = bodies g" "nonwhite (currentwhite_update f0 g) = nonwhite g"
  "bodies (gcstate_update f1 g) = bodies g" "nonwhite (gcstate_update f1 g) = nonwhite g"
  "bodies (sweepstrgc_update f2 g) = bodies g" "nonwhite (sweepstrgc_update f2 g) = nonwhite g"
  "bodies (sweepgc_update f3 g) = bodies g" "nonwhite (sweepgc_update f3 g) = nonwhite g"
  "bodies (estimate_update f4 g) = bodies g" "nonwhite (estimate_update f4 g) = nonwhite g"
  "bodies (gray_update f5 g) = bodies g" "nonwhite (gray_update f5 g) = nonwhite g"
  "bodies (grayagain_update f6 g) = bodies g" "nonwhite (grayagain_update f6 g) = nonwhite g"
  "bodies (weak_update f7 g) = bodies g" "nonwhite (weak_update f7 g) = nonwhite g"
  "bodies (tmudata_update f8 g) = bodies g" "nonwhite (tmudata_update f8 g) = nonwhite g"
  "bodies (rootgc_update f9 g) = bodies g" "nonwhite (rootgc_update f9 g) = nonwhite g"
  "bodies (totalbytes_update f10 g) = bodies g" "nonwhite (totalbytes_update f10 g) = nonwhite g"
  "bodies (GCthreshold_update f11 g) = bodies g" "nonwhite (GCthreshold_update f11 g) = nonwhite g"
  "bodies (gcdept_update f12 g) = bodies g" "nonwhite (gcdept_update f12 g) = nonwhite g"
  "bodies (uvhead_update f13 g) = bodies g" "nonwhite (uvhead_update f13 g) = nonwhite g"
  "bodies (strt_nuse_update f14 g) = bodies g" "nonwhite (strt_nuse_update f14 g) = nonwhite g"
  "bodies (strt_update f15 g) = bodies g" "nonwhite (strt_update f15 g) = nonwhite g"
  by (auto simp: bodies_def nonwhite_def fun_eq_iff)

section \<open>Userdata with finalizers\<close>

lemma inv_tmudata:
  assumes "inv A g" and "is_obj (bodies g) 7 u"
  shows "inv A (g\<lparr>tmudata := tmudata g @ [u]\<rparr>)" and "grows g (g\<lparr>tmudata := tmudata g @ [u]\<rparr>)"
proof -
  have same: "bodies (g\<lparr>tmudata := t\<rparr>) = bodies g" "nonwhite (g\<lparr>tmudata := t\<rparr>) = nonwhite g" for t
    by (auto simp: bodies_def nonwhite_def fun_eq_iff)
  show "inv A (g\<lparr>tmudata := tmudata g @ [u]\<rparr>)" "grows g (g\<lparr>tmudata := tmudata g @ [u]\<rparr>)"
    using assms by (auto simp: inv_def globals_ok_def good_value_def lists_ok_def tri_def traced_def grows_def same_frame_def colours_def again_def same)
qed

lemma finalized_marks:
  assumes "inv A g" and "is_obj (bodies g) 7 u"
  shows "marks A (\<lambda>_ _. True) g (upd_mark markfinalized u g)"
proof -
  obtain x where x: "heap g u = Some x" using assms(2) by (rule is_objE)
  show ?thesis
    using inv_recolour [OF assms(1) x, of "x\<lparr>marked := markfinalized (marked x)\<rparr>"]
    by (simp add: upd_mark_Ok [OF x]) (simp add: markfinalized_def bit_set_bit_iff)
qed

lemma separate_keep:
  fixes r :: "(ptr list \<times> u64) gc"
  assumes "marks A (\<lambda>(ks, m) _. set ks \<subseteq> set us) g (r g)" and f: "\<And>ks. set (f ks) \<subseteq> insert u (set ks)"
  shows "marks A (\<lambda>(ks, m) _. set ks \<subseteq> insert u (set us)) g (sbind r (\<lambda>(ks, m). sret (f ks, m + d)) g)"
  using assms(1)
proof (rule marks_bind [where m = r])
  fix x :: "ptr list \<times> u64" and g'
  assume 1: "inv A g'" "(case x of (ks, m) \<Rightarrow> \<lambda>_. set ks \<subseteq> set us) g'"
  obtain ks m where x: "x = (ks, m)" by fastforce
  show "marks A (\<lambda>(ks, m) _. set ks \<subseteq> insert u (set us)) g' ((case x of (ks, m) \<Rightarrow> sret (f ks, m + d)) g')"
    using 1 f [of ks] by (auto simp: x sret_def)
qed

lemma separate_marks:
  "inv A g \<Longrightarrow> \<forall>u \<in> set us. is_obj (bodies g) 7 u \<Longrightarrow>
    marks A (\<lambda>(ks, m) _. set ks \<subseteq> set us) g (separate_loop every us g)"
proof (induction us arbitrary: g)
  case Nil
  then show ?case by (simp add: sret_def)
next
  case (Cons u us)
  note i = Cons.prems(1)
  have o: "is_obj (bodies g) 7 u" using Cons.prems(2) by simp
  obtain x ud where x: "heap g u = Some x" "body x = OUdata ud" using is_objE [OF o] kind_cases(4) by metis
  have IH: "marks A (\<lambda>(ks, m) _. set ks \<subseteq> set us) g' (separate_loop every us g')" if "grows g g'" "inv A g'" for g'
    using Cons.IH [OF that(2)] Cons.prems(2) grows_kind [OF that(1)] by simp
  let ?keep = "sbind (separate_loop every us) (\<lambda>(ks, m). sret (u # ks, m))"
  have keep: "marks A (\<lambda>(ks, m) _. set ks \<subseteq> set (u # us)) g' (?keep g')" if "grows g g'" "inv A g'" for g'
    using separate_keep [where r = "separate_loop every us" and f = "\<lambda>ks. u # ks" and u = u and d = 0, OF IH [OF that]] by auto
  let ?go = "\<lambda>tm. case tm of
             None \<Rightarrow> sbind (upd_mark markfinalized u) (\<lambda>_. ?keep)
           | Some _ \<Rightarrow>
               sbind (upd_mark markfinalized u) (\<lambda>_.
               sbind (modify (\<lambda>g. g\<lparr>tmudata := tmudata g @ [u]\<rparr>)) (\<lambda>_.
               sbind (separate_loop every us) (\<lambda>(ks, m). sret (ks, sizeudata ud + m))))"
  have mo: "\<forall>(k, q) \<in> oref 5 (u_metatable ud). is_obj (bodies g) k q"
    using wf_obj(2) [OF i x(1)] unfolding x(2) refs.simps by blast
  have "marks A (\<lambda>(ks, m) _. set ks \<subseteq> set (u # us)) g (sbind (gfasttm (u_metatable ud) TM_GC) ?go g)"
  proof (rule marks_bind [where m = "gfasttm (u_metatable ud) TM_GC", OF gfasttm_marks [OF i mo]])
    fix tm g1
    assume 1: "grows g g1" "inv A g1"
    note f = finalized_marks [OF 1(2) grows_kind [OF 1(1) o]]
    show "marks A (\<lambda>(ks, m) _. set ks \<subseteq> set (u # us)) g1 (?go tm g1)"
    proof (cases tm)
      case None
      have "marks A (\<lambda>(ks, m) _. set ks \<subseteq> set (u # us)) g1 (sbind (upd_mark markfinalized u) (\<lambda>_. ?keep) g1)"
        by (rule marks_bind [where m = "upd_mark markfinalized u", OF f]) (use keep grows_trans [OF 1(1)] in blast)
      with None show ?thesis by simp
    next
      case (Some v)
      let ?last = "sbind (separate_loop every us) (\<lambda>(ks, m). sret (ks, sizeudata ud + m))"
      have "marks A (\<lambda>(ks, m) _. set ks \<subseteq> set (u # us)) g1 (sbind (upd_mark markfinalized u) (\<lambda>_.
               sbind (modify (\<lambda>g. g\<lparr>tmudata := tmudata g @ [u]\<rparr>)) (\<lambda>_. ?last)) g1)"
      proof (rule marks_bind [where m = "upd_mark markfinalized u", OF f])
        fix w g2
        assume 2: "grows g1 g2" "inv A g2"
        have g2: "grows g g2" by (rule grows_trans [OF 1(1) 2(1)])
        let ?g = "g2\<lparr>tmudata := tmudata g2 @ [u]\<rparr>"
        note t = inv_tmudata [OF 2(2) grows_kind [OF g2 o]]
        have "marks A (\<lambda>(ks, m) _. set ks \<subseteq> insert u (set us)) ?g (?last ?g)"
          using separate_keep [where r = "separate_loop every us" and f = "\<lambda>ks. ks" and u = u and d = "sizeudata ud",
              OF IH [OF grows_trans [OF g2 t(2)] t(1)]]
          by (auto simp: add.commute)
        from marks_after [OF t(2) this]
        show "marks A (\<lambda>(ks, m) _. set ks \<subseteq> set (u # us)) g2
            (sbind (modify (\<lambda>g. g\<lparr>tmudata := tmudata g @ [u]\<rparr>)) (\<lambda>_. ?last) g2)"
          by (simp add: sbind_Ok [where m = "modify _"] modify_def)
      qed
      with Some show ?thesis by simp
    qed
  qed simp
  then have "marks A (\<lambda>(ks, m) _. set ks \<subseteq> set (u # us)) g
      (if \<not> (iswhite (marked x) \<or> every) \<or> isfinalized (marked x) then ?keep g else sbind (gfasttm (u_metatable ud) TM_GC) ?go g)"
    using keep [OF grows_refl i] by simp
  then show ?case
    by (simp only: separate_loop.simps Let_def bind_marked_of [OF x(1)] bind_gco(4) [OF x] if_distrib [of "\<lambda>m. m g"])
qed

lemma after_mainthread:
  "snd (before_after q (fst (before_after q xs) @ ks)) = ks"
proof -
  have "takeWhile (\<lambda>x. x \<noteq> q) xs @ [q] @ ks = (takeWhile (\<lambda>x. x \<noteq> q) xs @ [q]) @ ks" by simp
  moreover have "dropWhile (\<lambda>x. x \<noteq> q) (takeWhile (\<lambda>x. x \<noteq> q) xs @ q # ks) = q # ks"
    by (subst dropWhile_append2) (auto dest: set_takeWhileD)
  ultimately show ?thesis by (simp add: before_after_def)
qed

lemma separateudata_marks:
  assumes i: "inv A g"
  shows "marks A (\<lambda>_ _. True) g (luaC_separateudata every g)"
proof -
  obtain pre us where pu: "before_after (mainthread g) (rootgc g) = (pre, us)" by fastforce
  have us: "\<forall>u \<in> set us. is_obj (bodies g) 7 u" using inv_parts(2) [OF i] pu by (simp add: globals_ok_def)
  have "marks A (\<lambda>_ _. True) g (sbind (separate_loop every us) (\<lambda>(ks, m).
      sbind (modify (\<lambda>g. g\<lparr>rootgc := pre @ ks\<rparr>)) (\<lambda>_. sret m)) g)"
  proof (rule marks_bind [where m = "separate_loop every us", OF separate_marks [OF i us]])
    fix r g1
    assume 1: "grows g g1" "inv A g1" "(case r of (ks, m) \<Rightarrow> \<lambda>_. set ks \<subseteq> set us) g1"
    obtain ks m where r: "r = (ks, m)" by fastforce
    let ?g = "g1\<lparr>rootgc := pre @ ks\<rparr>"
    have same: "bodies ?g = bodies g1" "nonwhite ?g = nonwhite g1" by (auto simp: bodies_def nonwhite_def fun_eq_iff)
    have mt: "mainthread g1 = mainthread g" using 1(1) by (simp add: grows_def same_frame_def)
    have "snd (before_after (mainthread g1) (pre @ ks)) = ks"
      using after_mainthread [of "mainthread g" "rootgc g" ks] pu mt by simp
    moreover have "\<forall>u \<in> set ks. is_obj (bodies g1) 7 u" using 1(3) us grows_kind [OF 1(1)] r by auto
    ultimately have "inv A ?g" "grows g1 ?g"
      using 1(2) by (auto simp: inv_def globals_ok_def good_value_def lists_ok_def tri_def traced_def grows_def same_frame_def colours_def again_def same)
    then show "marks A (\<lambda>_ _. True) g1 ((case r of (ks, m) \<Rightarrow> sbind (modify (\<lambda>g. g\<lparr>rootgc := pre @ ks\<rparr>)) (\<lambda>_. sret m)) g1)"
      by (simp add: r sbind_Ok [where m = "modify _"] modify_def sret_def)
  qed
  then show ?thesis by (simp add: luaC_separateudata_def pu)
qed

lemma marktmu_one:
  assumes i: "inv A g" and o: "is_obj (bodies g) 7 u"
  shows "marks A (\<lambda>_ _. True) g (sbind (upd_mark (makewhite cw) u) (\<lambda>_. reallymarkobject u) g)"
proof -
  obtain x ud where x: "heap g u = Some x" "body x = OUdata ud" using is_objE [OF o] kind_cases(4) by metis
  let ?x1 = "x\<lparr>marked := makewhite cw (marked x)\<rparr>"
  let ?x2 = "?x1\<lparr>marked := white2gray (marked ?x1)\<rparr>"
  let ?x3 = "?x2\<lparr>marked := gray2black (marked ?x2)\<rparr>"
  have 3: "inv (insert u A) (put g u ?x3)" "grows g (put g u ?x3)" using inv_mark [OF i x(1), of ?x3] x(2) by simp_all
  have x3: "heap (put g u ?x3) u = Some ?x3" "body ?x3 = OUdata ud" "isblack (marked ?x3)" using x(2) by simp_all
  have x2: "heap (put g u ?x2) u = Some ?x2" "body ?x2 = OUdata ud" using x(2) by simp_all
  have "put (put g u ?x1) u ?x2 = put g u ?x2" "put (put g u ?x2) u ?x3 = put g u ?x3" by (simp_all add: put_def)
  then have "sbind (upd_mark (makewhite cw) u) (\<lambda>_. reallymarkobject u) g
      = sbind (case u_metatable ud of None \<Rightarrow> sret () | Some m \<Rightarrow> markobject_by (reallymark (Suc (Suc 0))) m) (\<lambda>_.
         markobject_by (reallymark (Suc (Suc 0))) (u_env ud)) (put g u ?x3)"
    unfolding reallymarkobject_def reallymark.simps(2) [of "Suc (Suc 0)"] mark_body_def scan_object_def
    by (simp add: bind_upd_mark [OF x(1)] bind_upd_mark [of "put g u ?x1" u ?x1] del: reallymark.simps)
      (simp add: bind_get_obj [of "put g u ?x2" u ?x2, simplified] bind_upd_mark [of "put g u ?x2" u ?x2, simplified] x(2)
        del: reallymark.simps)
  with marks_after [OF 3(2) udata_marks [OF mark_works_all _ 3(1) x3, of "Suc (Suc 0)"]] show ?thesis
    by (simp del: reallymark.simps)
qed

lemma marktmu_marks:
  assumes i: "inv A g"
  shows "marks A (\<lambda>_ _. True) g (marktmu g)"
proof -
  have "\<forall>u \<in> set (tmudata g). is_obj (bodies g) 7 u" using inv_parts(2) [OF i] by (simp add: globals_ok_def)
  then have "marks A (\<lambda>_ g'. \<forall>u \<in> set (tmudata g). True) g
      (for_each (\<lambda>u. sbind (upd_mark (makewhite (currentwhite g)) u) (\<lambda>_. reallymarkobject u)) (tmudata g) g)"
    by (intro marks_for_each [OF i]) (use marktmu_one grows_kind in blast)+
  then show ?thesis by (simp add: marktmu_def)
qed

section \<open>The whole of it\<close>

text \<open>What stays the same while the lists are emptied.\<close>

definition evolves :: "global_State \<Rightarrow> global_State \<Rightarrow> bool" where
  "evolves g g' \<longleftrightarrow> same_frame g g'
     \<and> (\<forall>p. heap g p = None \<longrightarrow> heap g' p = None)
     \<and> (\<forall>p x. heap g p = Some x \<longrightarrow> (\<exists>x'. heap g' p = Some x' \<and> (iswhite (marked x') \<longrightarrow> iswhite (marked x))
          \<and> body_le (bodies g') (body x') (bodies g) (body x)))"

lemma grows_evolves: "grows g g' \<Longrightarrow> evolves g g'"
  unfolding grows_def evolves_def by blast

lemma evolves_trans:
  assumes "evolves g0 g1" and "evolves g1 g2"
  shows "evolves g0 g2"
  unfolding evolves_def
proof (intro conjI allI impI)
  fix p x
  assume "heap g0 p = Some x"
  then obtain x1 where 1: "heap g1 p = Some x1" "iswhite (marked x1) \<longrightarrow> iswhite (marked x)"
    "body_le (bodies g1) (body x1) (bodies g0) (body x)"
    using assms(1) unfolding evolves_def by blast
  then obtain x2 where 2: "heap g2 p = Some x2" "iswhite (marked x2) \<longrightarrow> iswhite (marked x1)"
    "body_le (bodies g2) (body x2) (bodies g1) (body x1)"
    using assms(2) unfolding evolves_def by blast
  show "\<exists>x'. heap g2 p = Some x' \<and> (iswhite (marked x') \<longrightarrow> iswhite (marked x))
      \<and> body_le (bodies g2) (body x') (bodies g0) (body x)"
    using 1 2 body_le_trans [OF 2(3) 1(3)] by blast
qed (use assms same_frame_trans in \<open>auto simp: evolves_def\<close>)

lemma evolves_kind: "evolves g g' \<Longrightarrow> is_obj (bodies g) k p \<Longrightarrow> is_obj (bodies g') k p"
  unfolding evolves_def is_obj_def bodies_def body_le_def by fastforce

lemma evolves_nonwhite: "evolves g g' \<Longrightarrow> nonwhite g p \<Longrightarrow> nonwhite g' p"
  unfolding evolves_def nonwhite_def by blast

text \<open>The lists that are traversed again\<close>

lemma inv_weak_again:
  assumes i: "inv (G \<union> W) g" and gr: "gray g = []" and w: "W \<subseteq> set (weak g)"
  shows "inv G (g\<lparr>gray := weak g, weak := []\<rparr>)" and "evolves g (g\<lparr>gray := weak g, weak := []\<rparr>)"
proof -
  let ?g = "g\<lparr>gray := weak g, weak := []\<rparr>"
  have same: "bodies ?g = bodies g" "nonwhite ?g = nonwhite g" by (auto simp: bodies_def nonwhite_def fun_eq_iff)
  have t: "traced ?g p x" if "traced g p x" "p \<notin> set (weak g)" for p x
    using that unfolding traced_def same by auto
  have "tri G ?g"
    unfolding tri_def
  proof (intro allI impI)
    fix p x
    assume "heap ?g p = Some x" "\<not> iswhite (marked x)"
    then have "p \<in> G \<or> p \<in> W \<or> traced g p x" using inv_parts(4) [OF i] gr by (auto simp: tri_def)
    with t w show "p \<in> set (gray ?g) \<or> p \<in> G \<or> traced ?g p x" by auto
  qed
  moreover have "colours G ?g"
    using inv_parts(6) [OF i] gr w by (auto simp: colours_def again_def)
  ultimately show "inv G ?g"
    using inv_parts(1-3,5) [OF i] by (auto simp: inv_def globals_ok_def good_value_def lists_ok_def same)
  show "evolves g ?g" by (auto simp: evolves_def same_frame_def same)
qed

lemma inv_gray_again:
  assumes i: "inv G g" and gr: "gray g = []" and w: "G \<subseteq> set (grayagain g)"
  shows "inv {} (g\<lparr>gray := grayagain g, grayagain := []\<rparr>)" and "evolves g (g\<lparr>gray := grayagain g, grayagain := []\<rparr>)"
proof -
  let ?g = "g\<lparr>gray := grayagain g, grayagain := []\<rparr>"
  have same: "bodies ?g = bodies g" "nonwhite ?g = nonwhite g" by (auto simp: bodies_def nonwhite_def fun_eq_iff)
  have tr: "traced ?g p x = traced g p x" for p x by (simp add: traced_def same)
  have "tri {} ?g"
    using inv_parts(4) [OF i] gr w by (auto simp: tri_def tr)
  moreover have "colours {} ?g"
    using inv_parts(6) [OF i] gr w by (auto simp: colours_def again_def)
  ultimately show "inv {} ?g"
    using inv_parts(1-3,5) [OF i] by (auto simp: inv_def globals_ok_def good_value_def lists_ok_def same)
  show "evolves g ?g" by (auto simp: evolves_def same_frame_def same)
qed

section \<open>The atomic step\<close>

text \<open>
  The invariant of the mark phase between two steps of the collector. What has been changed behind
  the collector, threads and weak tables are in the lists that are traversed again.
\<close>

definition pending :: "global_State \<Rightarrow> ptr set" where
  "pending g = set (grayagain g) \<union> set (weak g) \<union> {p. open_uv (bodies g) p}"

definition mark_inv :: "global_State \<Rightarrow> bool" where
  "mark_inv g \<longleftrightarrow> inv (pending g) g \<and> nonwhite g (mainthread g) \<and> all_nonwhite g (vref (l_registry g))"

text \<open>What a cycle keeps: the main thread, the registry, metatables of the basic types, and userdata to be finalized.\<close>

definition roots :: "ptr \<Rightarrow> global_State \<Rightarrow> (nat \<times> ptr) set" where
  "roots L g = {(8, mainthread g), (8, L)} \<union> vref (l_registry g) \<union> \<Union> (oref 5 ` set (g_mt g))"

definition marked_closed :: "global_State \<Rightarrow> bool" where
  "marked_closed g \<longleftrightarrow> (\<forall>p. nonwhite g p \<longrightarrow> all_marked p g)"

lemma markmt_marks:
  assumes i: "inv A g"
  shows "marks A (\<lambda>_ g'. all_nonwhite g' (\<Union> (oref 5 ` set (g_mt g)))) g (markmt g)"
proof -
  have ok: "\<forall>q \<in> set (g_mt g). \<forall>(k, m) \<in> oref 5 q. is_obj (bodies g) k m"
    using inv_parts(2) [OF i] by (simp add: globals_ok_def)
  have "marks A (\<lambda>_ g'. \<forall>q \<in> set (g_mt g). all_nonwhite g' (oref 5 q)) g (for_each mark_some (g_mt g) g)"
  proof (rule marks_for_each [OF i])
    fix q g1
    assume "q \<in> set (g_mt g)" "grows g g1" "inv A g1"
    then show "marks A (\<lambda>_ g'. all_nonwhite g' (oref 5 q)) g1 (mark_some q g1)"
      using ok grows_kind by (blast intro: mark_some_marks)
  qed (rule nonwhite_grows)
  then show ?thesis unfolding markmt_def by (rule marks_mono) blast
qed

text \<open>Two rounds over the lists: of what was changed behind the collector nothing is left.\<close>

lemma retraverse:
  assumes m: "mark_inv g" and L: "is_obj (bodies g) 8 L"
  obtains u1 g1 c2 g2 u3 g3 u4 g4 c5 g5 c6 g6 where "remarkupvals g = Ok (u1, g1)" "propagateall g1 = Ok (c2, g2)"
    "markobject L (g2\<lparr>gray := weak g2, weak := []\<rparr>) = Ok (u3, g3)" "markmt g3 = Ok (u4, g4)" "propagateall g4 = Ok (c5, g5)"
    "propagateall (g5\<lparr>gray := grayagain g5, grayagain := []\<rparr>) = Ok (c6, g6)"
    "inv {} g6" "gray g6 = []" "evolves g g6" "nonwhite g6 L" "all_nonwhite g6 (\<Union> (oref 5 ` set (g_mt g6)))"
proof -
  let ?G = "set (grayagain g)" and ?W = "set (weak g)"
  have i: "inv ((?G \<union> ?W) \<union> {p. open_uv (bodies g) p}) g"
    using m by (simp add: mark_inv_def pending_def)
  from remarkupvals_marks [OF i] obtain u1 g1 where 1: "remarkupvals g = Ok (u1, g1)" "grows g g1" "inv (?G \<union> ?W) g1"
    by (rule marksE)
  from propagateall_marks [OF 1(3)] obtain c2 g2 where
    2: "propagateall g1 = Ok (c2, g2)" "grows g1 g2" "inv (?G \<union> ?W) g2" "gray g2 = []" by (rule marksE)
  have g2: "grows g g2" by (rule grows_trans [OF 1(2) 2(2)])
  let ?g3 = "g2\<lparr>gray := weak g2, weak := []\<rparr>"
  have w: "?W \<subseteq> set (weak g2)" using g2 by (simp add: grows_def)
  note a = inv_weak_again [OF 2(3,4) w]
  have e2: "evolves g ?g3" by (rule evolves_trans [OF grows_evolves [OF g2] a(2)])
  from markobject_marks [OF a(1) evolves_kind [OF e2 L]] obtain u3 g3 where
    3: "markobject L ?g3 = Ok (u3, g3)" "grows ?g3 g3" "inv ?G g3" "nonwhite g3 L" by (rule marksE)
  from markmt_marks [OF 3(3)] obtain u4 g4 where
    4: "markmt g3 = Ok (u4, g4)" "grows g3 g4" "inv ?G g4" "all_nonwhite g4 (\<Union> (oref 5 ` set (g_mt g3)))" by (rule marksE)
  from propagateall_marks [OF 4(3)] obtain c5 g5 where
    5: "propagateall g4 = Ok (c5, g5)" "grows g4 g5" "inv ?G g5" "gray g5 = []" by (rule marksE)
  let ?g6 = "g5\<lparr>gray := grayagain g5, grayagain := []\<rparr>"
  have g35: "grows ?g3 g5" by (rule grows_trans [OF 3(2) grows_trans [OF 4(2) 5(2)]])
  have "set (grayagain g) \<subseteq> set (grayagain g5)" using g2 g35 by (auto simp: grows_def)
  note b = inv_gray_again [OF 5(3,4) this]
  from propagateall_marks [OF b(1)] obtain c6 g6 where
    6: "propagateall ?g6 = Ok (c6, g6)" "grows ?g6 g6" "inv {} g6" "gray g6 = []" by (rule marksE)
  have e46: "evolves g4 g6" by (rule evolves_trans [OF evolves_trans [OF grows_evolves [OF 5(2)] b(2)] grows_evolves [OF 6(2)]])
  have e36: "evolves g3 g6" by (rule evolves_trans [OF grows_evolves [OF 4(2)] e46])
  have "evolves g g6" by (rule evolves_trans [OF evolves_trans [OF e2 grows_evolves [OF 3(2)]] e36])
  moreover have "nonwhite g6 L" by (rule evolves_nonwhite [OF e36 3(4)])
  moreover have "g_mt g6 = g_mt g3" using e36 by (simp add: evolves_def same_frame_def)
  then have "all_nonwhite g6 (\<Union> (oref 5 ` set (g_mt g6)))" using 4(4) evolves_nonwhite [OF e46] by fastforce
  ultimately show thesis using that 1(1) 2(1) 3(1) 4(1) 5(1) 6(1,3,4) by metis
qed

text \<open>Then the userdata with finalizers and the weak tables: what a marked object refers to is marked.\<close>

lemma finish_marks:
  assumes i: "inv {} g" and gr: "gray g = []"
  obtains d1 g1 u2 g2 c3 g3 u4 g4 where "luaC_separateudata False g = Ok (d1, g1)" "marktmu g1 = Ok (u2, g2)"
    "propagateall g2 = Ok (c3, g3)" "cleartable (weak g3) g3 = Ok (u4, g4)" "grows g g4" "inv {} g4" "marked_closed g4"
proof -
  from separateudata_marks [OF i, of False] obtain d1 g1 where
    1: "luaC_separateudata False g = Ok (d1, g1)" "grows g g1" "inv {} g1" by (rule marksE)
  from marktmu_marks [OF 1(3)] obtain u2 g2 where 2: "marktmu g1 = Ok (u2, g2)" "grows g1 g2" "inv {} g2" by (rule marksE)
  from propagateall_marks [OF 2(3)] obtain c3 g3 where
    3: "propagateall g2 = Ok (c3, g3)" "grows g2 g3" "inv {} g3" "gray g3 = []" by (rule marksE)
  from cleartable_marks [OF 3(3,4) order.refl] obtain u4 g4 where
    4: "cleartable (weak g3) g3 = Ok (u4, g4)" "grows g3 g4" "inv {} g4" "\<forall>p \<in> set (weak g3). all_marked p g4" "same_gray g3 g4"
    by (rule marksE) blast
  have "all_marked p g4" if p: "nonwhite g4 p" for p
  proof (cases "p \<in> set (weak g3)")
    case False
    obtain x where x: "heap g4 p = Some x" "\<not> iswhite (marked x)" using p by (auto simp: nonwhite_def)
    then have "traced g4 p x" using inv_parts(4) [OF 4(3)] 4(5) 3(4) by (auto simp: tri_def same_gray_def)
    then show ?thesis using False 4(5) x(1) by (simp add: traced_def same_gray_def all_marked_def)
  qed (use 4(4) in blast)
  then have "marked_closed g4" by (simp add: marked_closed_def)
  moreover have "grows g g4" by (rule grows_trans [OF grows_trans [OF 1(2) 2(2)] grows_trans [OF 3(2) 4(2)]])
  ultimately show thesis using that 1(1) 2(1) 3(1) 4(1,3) by blast
qed

lemma atomic_steps:
  assumes m: "mark_inv g" and L: "is_obj (bodies g) 8 L"
  obtains g' where "atomic L g = Ok ((), g')" "evolves (g\<lparr>currentwhite := otherwhite (currentwhite g), gcstate := GCSsweepstring\<rparr>) g'"
    "wf_store (bodies g')" "globals_ok g'" "marked_closed g'" "all_nonwhite g' (roots L g')"
proof -
  from retraverse [OF m L] obtain u1 g1 c2 g2 u3 g3 u4 g4 c5 g5 c6 g6 where
    a: "remarkupvals g = Ok (u1, g1)" "propagateall g1 = Ok (c2, g2)"
    "markobject L (g2\<lparr>gray := weak g2, weak := []\<rparr>) = Ok (u3, g3)" "markmt g3 = Ok (u4, g4)" "propagateall g4 = Ok (c5, g5)"
    "propagateall (g5\<lparr>gray := grayagain g5, grayagain := []\<rparr>) = Ok (c6, g6)"
    and 6: "inv {} g6" "gray g6 = []" "evolves g g6" "nonwhite g6 L" "all_nonwhite g6 (\<Union> (oref 5 ` set (g_mt g6)))" .
  from finish_marks [OF 6(1,2)] obtain d7 g7 u8 g8 c9 g9 u10 g10 where
    b: "luaC_separateudata False g6 = Ok (d7, g7)" "marktmu g7 = Ok (u8, g8)"
    "propagateall g8 = Ok (c9, g9)" "cleartable (weak g9) g9 = Ok (u10, g10)"
    and 10: "grows g6 g10" "inv {} g10" "marked_closed g10" .
  let ?g = "g10\<lparr>currentwhite := otherwhite (currentwhite g10), sweepstrgc := 0, sweepgc := Head,
       gcstate := GCSsweepstring, estimate := totalbytes g10 - (d7 + word_of_int c9)\<rparr>"
  have same: "bodies ?g = bodies g10" "nonwhite ?g = nonwhite g10" by (auto simp: bodies_def nonwhite_def fun_eq_iff)
  have e: "evolves g g10" by (rule evolves_trans [OF 6(3) grows_evolves [OF 10(1)]])
  have r: "atomic L g = Ok ((), ?g)"
    by (simp add: atomic_def sbind_def modify_def a b)
  have "all_nonwhite g10 (vref (l_registry g))" "nonwhite g10 (mainthread g)"
    using m evolves_nonwhite [OF e] unfolding mark_inv_def by blast+
  moreover have "nonwhite g10 L" by (rule grows_nonwhite [OF 10(1) 6(4)])
  moreover have "all_nonwhite g10 (\<Union> (oref 5 ` set (g_mt g6)))" by (rule nonwhite_grows [OF 6(5) 10(1)])
  moreover have "mainthread g10 = mainthread g" "l_registry g10 = l_registry g" "g_mt g10 = g_mt g6"
    using e 10(1) by (simp_all add: evolves_def grows_def same_frame_def)
  ultimately have "all_nonwhite ?g (roots L ?g)" by (auto simp: roots_def same)
  moreover have "wf_store (bodies ?g)" "globals_ok ?g"
    using inv_parts(1,2) [OF 10(2)] by (auto simp: globals_ok_def good_value_def same)
  moreover have "marked_closed ?g" using 10(3) by (simp add: marked_closed_def all_marked_def same)
  moreover have "evolves (g\<lparr>currentwhite := otherwhite (currentwhite g), gcstate := GCSsweepstring\<rparr>) ?g"
    using e by (simp add: evolves_def same_frame_def)
  ultimately show thesis using that [OF r] by blast
qed

end
