(* ===== verification/LuaIncremental.thy ===== *)
theory LuaIncremental
  imports LuaCollect
begin

text \<open>
  The mark phase as a state machine: the steps of the collector and the writes of the program keep
  the invariant, and what the program can reach at the end of the phase survives the sweep.
\<close>

section \<open>The start of a cycle\<close>

text \<open>Between two cycles every object is white.\<close>

definition fresh :: "global_State \<Rightarrow> bool" where
  "fresh g \<longleftrightarrow> wf_store (bodies g) \<and> globals_ok g \<and> open_ok g
     \<and> (\<forall>p x. heap g p = Some x \<longrightarrow> iswhite (marked x) \<and> \<not> isblack (marked x))"

lemma fresh_inv:
  assumes "fresh g"
  shows "inv {} (g\<lparr>gray := [], grayagain := [], weak := []\<rparr>)"
  using assms
  by (auto simp: fresh_def inv_def globals_ok_def good_value_def lists_ok_def tri_def colours_def isgray_def)

lemma pending_fields [simp]:
  "pending (gcstate_update f g) = pending g"
  by (simp add: pending_def)

lemma inv_gcstate: "inv A g \<Longrightarrow> inv A (g\<lparr>gcstate := s\<rparr>)"
  by (auto simp: inv_def globals_ok_def good_value_def lists_ok_def tri_def traced_def colours_def again_def)

lemma pending_grows: "grows g g' \<Longrightarrow> pending g \<subseteq> pending g'"
proof
  fix p
  assume g: "grows g g'" and "p \<in> pending g"
  then consider "p \<in> again g" | "open_uv (bodies g) p" by (auto simp: pending_def again_def)
  then show "p \<in> pending g'"
  proof cases
    case 1
    with g show ?thesis by (auto simp: pending_def again_def grows_def)
  next
    case 2
    then obtain x where x: "heap g p = Some x" "open_body (body x)" by (auto simp: open_uv_def bodies_def)
    obtain x' where "heap g' p = Some x'" "open_body (body x') = open_body (body x)" by (rule grows_obj [OF g x(1)])
    with x(2) show ?thesis by (auto simp: pending_def open_uv_def bodies_def)
  qed
qed

text \<open>A step of the mark phase keeps its invariant.\<close>

lemma mark_inv_step:
  assumes "mark_inv g" and "marks (pending g) Q g r"
  obtains x g' where "r = Ok (x, g')" and "mark_inv g'" and "grows g g'" and "Q x g'"
  using assms(2)
proof (rule marksE)
  fix x g'
  assume 1: "r = Ok (x, g')" "grows g g'" "inv (pending g) g'" "Q x g'"
  have "inv (pending g') g'" by (rule inv_mono [OF 1(3) pending_grows [OF 1(2)]])
  moreover have "mainthread g' = mainthread g" "l_registry g' = l_registry g"
    using 1(2) by (simp_all add: grows_def same_frame_def)
  moreover have "nonwhite g' (mainthread g)" "all_nonwhite g' (vref (l_registry g))"
    using assms(1) grows_nonwhite [OF 1(2)] unfolding mark_inv_def by blast+
  ultimately have "mark_inv g'" by (simp add: mark_inv_def)
  with 1 that show thesis by blast
qed

lemma markroot_marks:
  assumes f: "fresh g"
  obtains g' where "markroot g = Ok ((), g')" and "mark_inv g'" and "gcstate g' = GCSpropagate" and "currentwhite g' = currentwhite g"
    and "bodies g' = bodies g" and "mainthread g' = mainthread g"
proof -
  let ?g = "g\<lparr>gray := [], grayagain := [], weak := []\<rparr>"
  let ?m = "mainthread g"
  note i = fresh_inv [OF f]
  have ok: "is_obj (bodies ?g) 8 ?m" "good_value ?g (l_registry g)"
    using inv_parts(2) [OF i] by (simp_all add: globals_ok_def)
  from markobject_marks [OF i ok(1)] obtain u1 g1 where
    1: "markobject ?m ?g = Ok (u1, g1)" "grows ?g g1" "inv {} g1" "nonwhite g1 ?m" by (rule marksE)
  have b1: "bodies g1 = bodies ?g" by (rule same_body_steps [OF keep_body.F_mark(1) 1(1)])
  obtain x t where x: "heap g1 ?m = Some x" "body x = OThread t"
    using is_objE [OF grows_kind [OF 1(2) ok(1)]] kind_cases(5) by metis
  have sh: "thread_shape t" using wf_obj(1) [OF 1(3) x(1)] x(2) by simp
  have "\<forall>(k, q) \<in> vref (L_gt t). is_obj (bodies g1) k q" using wf_obj(2) [OF 1(3) x(1)] x(2) by auto
  from markvalue_marks [OF 1(3) _ this] sh obtain u2 g2 where
    2: "markvalue (L_gt t) g1 = Ok (u2, g2)" "grows g1 g2" "inv {} g2"
    by (auto simp: thread_shape_def elim!: marksE)
  have r2: "good_value g2 (l_registry g)"
    using good_grows [OF good_grows [OF ok(2) 1(2)] 2(2)] .
  from markvalue_marks [OF 2(3), of "l_registry g"] r2 obtain u3 g3 where
    3: "markvalue (l_registry g) g2 = Ok (u3, g3)" "grows g2 g3" "inv {} g3" "all_nonwhite g3 (vref (l_registry g))"
    by (auto simp: good_value_def elim!: marksE)
  from markmt_marks [OF 3(3)] obtain u4 g4 where 4: "markmt g3 = Ok (u4, g4)" "grows g3 g4" "inv {} g4" by (rule marksE)
  have "steps keep_body.same_F (for_each mark_some (g_mt g3))"
    by (rule state_frame.steps_for_each [OF keep_body.F_frame keep_body.F_mark(3)])
  from same_body_steps [OF this 4(1) [unfolded markmt_def]] have b: "bodies g4 = bodies g"
    using same_body_steps [OF keep_body.F_mark(2) 2(1)] same_body_steps [OF keep_body.F_mark(2) 3(1)] b1 by simp
  have g14: "grows g1 g4" by (rule grows_trans [OF 2(2) grows_trans [OF 3(2) 4(2)]])
  have fr: "same_frame ?g g4" using same_frame_trans 1(2) g14 unfolding grows_def by blast
  have "markroot g = Ok ((), g4\<lparr>gcstate := GCSpropagate\<rparr>)"
    using 1(1) 2(1) 3(1) 4(1) by (simp add: markroot_def sbind_def modify_def gco2th_Ok [OF x])
  moreover have "mark_inv (g4\<lparr>gcstate := GCSpropagate\<rparr>)"
  proof -
    have "inv (pending g4) g4" by (rule inv_mono [OF 4(3)]) simp
    moreover have "nonwhite g4 ?m" by (rule grows_nonwhite [OF g14 1(4)])
    moreover have "all_nonwhite g4 (vref (l_registry g))" by (rule nonwhite_grows [OF 3(4) 4(2)])
    ultimately show ?thesis using fr by (simp add: mark_inv_def inv_gcstate same_frame_def)
  qed
  ultimately show thesis using that fr b by (simp add: same_frame_def)
qed

section \<open>Writes of the program\<close>

lemma put_gcstate [simp]: "gcstate (put g p x) = gcstate g"
  by (simp add: put_def)

text \<open>A new body for an object that is no thread: its references must be marked if it is done.\<close>

lemma inv_write:
  assumes i: "inv A g" and p: "heap g p = Some x" and m: "marked x' = marked x"
    and k: "kind (body x') = kind (body x)" "kind (body x) \<noteq> 8" "open_body (body x') = open_body (body x)"
    and sh: "shape (bodies (put g p x')) (body x')"
    and rf: "\<forall>(k, q) \<in> refs (bodies g) (body x'). is_obj (bodies g) k q"
    and t: "iswhite (marked x) \<or> p \<in> set (gray g) \<union> A \<or> all_nonwhite g (refs (bodies g) (body x'))"
  shows "inv A (put g p x')"
proof -
  let ?g = "put g p x'"
  have k8: "kind (body x) \<noteq> 8" "kind (body x') \<noteq> 8" using k by simp_all
  have obj: "is_obj (bodies ?g) j q = is_obj (bodies g) j q" for j q
    using k bodies_Some [OF p] by (auto simp: is_obj_def)
  have nw: "nonwhite ?g = nonwhite g" using m p by (auto simp: nonwhite_def fun_eq_iff)
  note rs = others_same(1) [OF p k8] and shs = others_same(2) [OF p k8]
  have "wf_store (bodies ?g)"
    unfolding wf_store_def
  proof (intro allI impI conjI)
    fix q b
    assume q: "bodies ?g q = Some b"
    have c: "q = p \<and> b = body x' \<or> (\<exists>y. heap g q = Some y \<and> b = body y)"
      using q by (auto simp: bodies_def split: if_splits)
    then show "shape (bodies ?g) b" using sh shs wf_obj(1) [OF i] by blast
    have "\<forall>(k, r) \<in> refs (bodies g) b. is_obj (bodies g) k r" using c rf wf_obj(2) [OF i] by blast
    then show "\<forall>(k, r) \<in> refs (bodies ?g) b. is_obj (bodies ?g) k r" by (simp only: rs obj)
  qed
  moreover have "tri A ?g"
    unfolding tri_def
  proof (intro allI impI)
    fix q y
    assume y: "heap ?g q = Some y" "\<not> iswhite (marked y)"
    show "q \<in> set (gray ?g) \<or> q \<in> A \<or> traced ?g q y"
    proof (cases "q = p")
      case True
      then have "y = x'" using y(1) by simp
      with t True y(2) m mrefs_sub(1) [of "body x'" "bodies g"] show ?thesis
        unfolding traced_def nw rs by auto
    next
      case False
      then have "heap g q = Some y" using y(1) by simp
      with inv_parts(4) [OF i] y(2) show ?thesis unfolding tri_def traced_def nw rs by simp
    qed
  qed
  moreover have "lists_ok ?g" "globals_ok ?g"
    using inv_parts(2,3) [OF i] unfolding lists_ok_def globals_ok_def good_value_def nw obj by simp_all
  moreover have "open_ok ?g" by (rule open_put [OF inv_parts(5) [OF i] p]) (use k m in simp)
  moreover have "colours A ?g" using inv_parts(6) [OF i] p m k by (auto simp: colours_def again_def)
  ultimately show ?thesis by (simp add: inv_def)
qed

text \<open>An object whose references are not all marked is still to be traversed, or it is not black.\<close>

lemma black_traced:
  assumes "mark_inv g" and "heap g p = Some x" and "\<not> isblack (marked x) \<or> iswhite (marked x)"
    and "kind (body x) \<noteq> 4"
  shows "iswhite (marked x) \<or> p \<in> set (gray g) \<union> pending g"
  using assms inv_parts(6) [of "pending g" g]
  by (auto simp: mark_inv_def colours_def isgray_def pending_def again_def open_uv_def bodies_def)

lemma black_refs:
  assumes "mark_inv g" and "heap g p = Some x" and "isblack (marked x)"
  shows "p \<in> set (gray g) \<union> pending g \<or> all_nonwhite g (refs (bodies g) (body x))"
proof -
  have i: "inv (pending g) g" using assms(1) by (simp add: mark_inv_def)
  have "\<not> iswhite (marked x)" using inv_parts(6) [OF i] assms(2,3) by (auto simp: colours_def)
  then have "p \<in> set (gray g) \<or> p \<in> pending g \<or> traced g p x"
    using inv_parts(4) [OF i] assms(2) unfolding tri_def by blast
  then show ?thesis unfolding traced_def pending_def by blast
qed

lemma pending_put:
  assumes "heap g p = Some x" and "open_body (body x') = open_body (body x)"
  shows "pending (put g p x') = pending g"
  using assms by (auto simp: pending_def open_uv_def bodies_def)

lemma mark_inv_put:
  assumes "mark_inv g" and "heap g p = Some x" and "open_body (body x') = open_body (body x)"
    and "marked x' = marked x" and "inv (pending g) (put g p x')"
  shows "mark_inv (put g p x')"
proof -
  have "nonwhite (put g p x') = nonwhite g" using assms(2,4) by (auto simp: nonwhite_def fun_eq_iff)
  with assms pending_put [OF assms(2,3)] show ?thesis by (simp add: mark_inv_def)
qed

text \<open>A write and the object it makes a reference to, before the barrier\<close>

definition write_ok :: "global_State \<Rightarrow> ptr \<Rightarrow> GCObject \<Rightarrow> body \<Rightarrow> (nat \<times> ptr) set \<Rightarrow> bool" where
  "write_ok g p x b R \<longleftrightarrow> heap g p = Some x \<and> kind b = kind (body x) \<and> kind b \<noteq> 8 \<and> kind b \<noteq> 4
     \<and> \<not> open_body b \<and> \<not> open_body (body x) \<and> shape (bodies g) b
     \<and> refs (bodies g) b \<subseteq> refs (bodies g) (body x) \<union> R \<and> (\<forall>(k, q) \<in> R. is_obj (bodies g) k q)"

lemma write_inv:
  assumes m: "mark_inv g" and w: "write_ok g p x b R" and A: "pending g \<subseteq> A"
    and t: "p \<in> A \<or> \<not> isblack (marked x) \<or> all_nonwhite g R"
  shows "inv A (put g p (x\<lparr>body := b\<rparr>))"
proof (rule inv_write)
  show i: "inv A g" using m inv_mono [OF _ A] by (simp add: mark_inv_def)
  show p: "heap g p = Some x" using w by (simp add: write_ok_def)
  show "shape (bodies (put g p (x\<lparr>body := b\<rparr>))) (body (x\<lparr>body := b\<rparr>))"
    using w others_same(2) [OF p, of "x\<lparr>body := b\<rparr>" b] by (simp add: write_ok_def)
  show "\<forall>(k, q) \<in> refs (bodies g) (body (x\<lparr>body := b\<rparr>)). is_obj (bodies g) k q"
    using w wf_obj(2) [OF i p] unfolding write_ok_def by auto
  have sub: "refs (bodies g) b \<subseteq> refs (bodies g) (body x) \<union> R" and k: "kind (body x) \<noteq> 4" using w by (auto simp: write_ok_def)
  consider "p \<in> A" | "\<not> isblack (marked x)" | "isblack (marked x)" "all_nonwhite g R" using t by blast
  then show "iswhite (marked x) \<or> p \<in> set (gray g) \<union> A \<or> all_nonwhite g (refs (bodies g) (body (x\<lparr>body := b\<rparr>)))"
  proof cases
    case 2
    with black_traced [OF m p _ k] A show ?thesis by blast
  next
    case 3
    then have "p \<in> set (gray g) \<union> A \<or> all_nonwhite g (refs (bodies g) b)"
      using black_refs [OF m p 3(1)] A sub by blast
    then show ?thesis by simp
  qed blast
qed (use w in \<open>simp_all add: write_ok_def\<close>)

text \<open>The store in a table, with the barrier that puts the table back\<close>

lemma vref_barrier: "iscollectable v \<Longrightarrow> ttype v \<noteq> 11 \<Longrightarrow> vref v = {(ttype v, gcvalue v)}"
  by (simp add: vref_def)

lemma barrierback_inv:
  assumes i: "inv (insert p A) g" and p: "heap g p = Some x" and nw: "\<not> iswhite (marked x)" and o: "kind (body x) = 5"
  shows "inv (insert p A) (put g p (x\<lparr>marked := black2gray (marked x)\<rparr>)\<lparr>grayagain := p # grayagain g\<rparr>)"
    and "luaC_barrierback p g = Ok ((), put g p (x\<lparr>marked := black2gray (marked x)\<rparr>)\<lparr>grayagain := p # grayagain g\<rparr>)"
proof -
  let ?g = "g\<lparr>grayagain := p # grayagain g\<rparr>" and ?x = "x\<lparr>marked := black2gray (marked x)\<rparr>"
  have "nonwhite g p" "is_obj (bodies g) 5 p" using p nw o by (simp_all add: nonwhite_def is_obj_def bodies_def)
  then have 1: "inv (insert p A) ?g" by (intro inv_push_grayagain(1) [OF i]) simp_all
  have b: "bit (black2gray (marked x)) VALUEWEAKBIT = bit (marked x) VALUEWEAKBIT"
    by (simp add: black2gray_def bit_unset_bit_iff)
  have "inv (insert p A) (put ?g p ?x)"
    by (rule inv_recolour(1) [OF 1, of p x]) (use p b in \<open>simp_all add: again_def\<close>)
  moreover have "put ?g p ?x = put g p ?x\<lparr>grayagain := p # grayagain g\<rparr>" by (simp add: put_def)
  ultimately show "inv (insert p A) (put g p ?x\<lparr>grayagain := p # grayagain g\<rparr>)" by simp
  show "luaC_barrierback p g = Ok ((), put g p ?x\<lparr>grayagain := p # grayagain g\<rparr>)"
    by (simp add: luaC_barrierback_def bind_upd_mark [OF p] modify_def)
qed

lemma mark_inv_back:
  assumes m: "mark_inv g" and w: "write_ok g p x b R" and b: "kind b = 5" and bl: "isblack (marked x)"
  obtains g' where "luaC_barrierback p (put g p (x\<lparr>body := b\<rparr>)) = Ok ((), g')" and "mark_inv g'" and "gcstate g' = gcstate g" and "currentwhite g' = currentwhite g"
    and "heap g' p = Some \<lparr>marked = black2gray (marked x), body = b\<rparr>" and "bodies g' = bodies (put g p (x\<lparr>body := b\<rparr>))"
proof -
  let ?x = "x\<lparr>body := b\<rparr>" and ?g = "put g p (x\<lparr>body := b\<rparr>)"
  let ?y = "?x\<lparr>marked := black2gray (marked ?x)\<rparr>"
  let ?g2 = "put ?g p ?y\<lparr>grayagain := p # grayagain ?g\<rparr>"
  have p: "heap g p = Some x" and op: "\<not> open_body b" "\<not> open_body (body x)" using w by (simp_all add: write_ok_def)
  have i: "inv (insert p (pending g)) ?g" by (rule write_inv [OF m w]) auto
  have "colours (pending g) g" using m by (simp add: mark_inv_def inv_def)
  then have nw: "\<not> iswhite (marked ?x)" using p bl by (auto simp: colours_def)
  have "heap ?g p = Some ?x" "kind (body ?x) = 5" using b by simp_all
  note bk = barrierback_inv [OF i this(1) nw this(2)]
  have "nonwhite ?g2 = nonwhite g" using p nw by (auto simp: nonwhite_def fun_eq_iff)
  moreover have "insert p (pending g) = pending ?g2" using p op by (auto simp: pending_def open_uv_def bodies_def)
  ultimately have "mark_inv ?g2" using m bk(1) by (simp add: mark_inv_def)
  moreover have "bodies ?g2 = bodies ?g" by (auto simp: bodies_def fun_eq_iff)
  ultimately show thesis using bk(2) that [of ?g2] by simp
qed

text \<open>\<open>luaC_barriert\<close> and \<open>luaC_objbarriert\<close>\<close>

lemma table_writes:
  assumes m: "mark_inv g" and w: "write_ok g p x b (R \<union> vref v)" and R: "\<not> isblack (marked x) \<or> all_nonwhite g R"
    and b: "kind b = 5" and v: "ttype v \<noteq> 11"
  obtains g' x' where "sbind (set_body p b) (\<lambda>_. luaC_barriert p v) g = Ok ((), g')" and "mark_inv g'" and "gcstate g' = gcstate g"
    and "currentwhite g' = currentwhite g" and "bodies g' = bodies (put g p (x\<lparr>body := b\<rparr>))"
    and "heap g' p = Some x'" and "body x' = b" and "\<not> isblack (marked x') \<or> all_nonwhite g' (vref v)"
proof -
  let ?x = "x\<lparr>body := b\<rparr>" and ?g = "put g p (x\<lparr>body := b\<rparr>)"
  have p: "heap g p = Some x" and op: "open_body b = open_body (body x)" using w by (simp_all add: write_ok_def)
  have nw: "nonwhite ?g = nonwhite g" using p by (auto simp: nonwhite_def fun_eq_iff)
  have plain: "mark_inv ?g" if "\<not> isblack (marked x) \<or> all_nonwhite g (vref v)"
    by (rule mark_inv_put [OF m p]) (use op write_inv [OF m w order.refl] that R in auto)
  note res = that
  have keep: thesis if "sbind (set_body p b) (\<lambda>_. luaC_barriert p v) g = Ok ((), ?g)" and n: "\<not> isblack (marked x) \<or> all_nonwhite g (vref v)"
    by (rule res [OF that(1) plain [OF n], where x' = ?x]) (use n nw in simp_all)
  show thesis
  proof (cases "iscollectable v")
    case False
    then have "vref v = {}" by (simp add: vref_def)
    with False show thesis by (intro keep) (simp_all add: bind_set_body [OF p] luaC_barriert_def sret_def)
  next
    case True
    note r = vref_barrier [OF True v]
    have "is_obj (bodies g) (ttype v) (gcvalue v)" using w r by (auto simp: write_ok_def)
    then obtain y where y: "heap g (gcvalue v) = Some y" by (rule is_objE)
    then obtain z where z: "heap ?g (gcvalue v) = Some z" "marked z = marked y" using p by (cases "gcvalue v = p") auto
    have run: "sbind (set_body p b) (\<lambda>_. luaC_barriert p v) g
        = (if iswhite (marked y) \<and> isblack (marked x) then luaC_barrierback p ?g else Ok ((), ?g))"
      using True by (simp add: bind_set_body [OF p] luaC_barriert_def bind_marked_of [OF z(1)] z(2) bind_marked_of [of ?g p ?x] sret_def)
    show thesis
    proof (cases "iswhite (marked y) \<and> isblack (marked x)")
      case True
      then obtain g' where "luaC_barrierback p ?g = Ok ((), g')" "mark_inv g'" "gcstate g' = gcstate g" "currentwhite g' = currentwhite g"
        and g': "heap g' p = Some \<lparr>marked = black2gray (marked x), body = b\<rparr>" "bodies g' = bodies ?g"
        using mark_inv_back [OF m w b] by metis
      then show thesis using True run by (intro res [where x' = "\<lparr>marked = black2gray (marked x), body = b\<rparr>"]) simp_all
    next
      case False
      then have "\<not> isblack (marked x) \<or> all_nonwhite g (vref v)" using r y by (auto simp: nonwhite_def)
      with False run show thesis by (intro keep) auto
    qed
  qed
qed

text \<open>
  The insertion of a key and then of its value: while the value is nil the new entry refers to nothing.
\<close>

lemma entry_write:
  assumes m: "mark_inv g" and w: "write_ok g p x b {}" and b: "kind b = 5" "kind b' = 5" and k: "ttype k \<noteq> 11" and v: "ttype v \<noteq> 11"
    and sh: "shape (bodies g) b'" and rb: "refs (bodies g) b' \<subseteq> refs (bodies g) b \<union> (vref k \<union> vref v)"
    and ob: "\<forall>(j, q) \<in> vref k \<union> vref v. is_obj (bodies g) j q"
  obtains g' where "sbind (set_body p b) (\<lambda>_. sbind (luaC_barriert p k) (\<lambda>_. sbind (set_body p b') (\<lambda>_. luaC_barriert p v))) g = Ok ((), g')"
    and "mark_inv g'" and "gcstate g' = gcstate g" and "currentwhite g' = currentwhite g"
proof -
  let ?g = "put g p (x\<lparr>body := b\<rparr>)"
  have p: "heap g p = Some x" and kb: "kind (body x) = 5" using w b(1) by (simp_all add: write_ok_def)
  have "write_ok g p x b (vref k)" using w ob by (auto simp: write_ok_def)
  with table_writes [of g p x b "{}" k] m b(1) k obtain g1 x1 where
    1: "sbind (set_body p b) (\<lambda>_. luaC_barriert p k) g = Ok ((), g1)" "mark_inv g1" "gcstate g1 = gcstate g" "currentwhite g1 = currentwhite g"
    "bodies g1 = bodies ?g" "heap g1 p = Some x1" "body x1 = b" "\<not> isblack (marked x1) \<or> all_nonwhite g1 (vref k)" by auto
  note o = others_same [OF p, of "x\<lparr>body := b\<rparr>"]
  have obj: "is_obj (bodies ?g) j q = is_obj (bodies g) j q" for j q using p kb b(1) by (auto simp: is_obj_def bodies_def)
  have op: "\<not> open_body c" if "kind c = 5" for c using that by (cases c) auto
  have "shape (bodies ?g) b'" by (rule o(2)) (use sh kb b(1) in simp_all)
  moreover have "refs (bodies ?g) c = refs (bodies g) c" for c by (rule o(1)) (use kb b(1) in simp_all)
  ultimately have "write_ok g1 p x1 b' (vref k \<union> vref v)" unfolding write_ok_def 1(5,7) obj
    using 1(6) rb ob b op by simp
  from table_writes [OF 1(2) this 1(8) b(2) v] obtain g' where
    2: "sbind (set_body p b') (\<lambda>_. luaC_barriert p v) g1 = Ok ((), g')" "mark_inv g'" "gcstate g' = gcstate g1" "currentwhite g' = currentwhite g1" by metis
  have "sbind (set_body p b) (\<lambda>_. sbind (luaC_barriert p k) (\<lambda>_. sbind (set_body p b') (\<lambda>_. luaC_barriert p v))) g = Ok ((), g')"
    using 1(1) 2(1) unfolding bind_set_body [OF p] by (simp add: sbind_def [of "luaC_barriert p k"])
  with 1 2 that show thesis by simp
qed

lemma table_write:
  assumes "mark_inv g" and "write_ok g p x b (vref v)" and "kind b = 5" and "ttype v \<noteq> 11"
  obtains g' where "sbind (set_body p b) (\<lambda>_. luaC_barriert p v) g = Ok ((), g')" and "mark_inv g'" and "gcstate g' = gcstate g" and "currentwhite g' = currentwhite g"
  using table_writes [of g p x b "{}" v] assms by auto

lemma inv_gray_free: "inv (set (gray g) \<union> A) g \<Longrightarrow> inv A g"
  unfolding inv_def tri_def colours_def by blast

lemma reallymark_write:
  assumes m: "mark_inv g" and w: "write_ok g p x b (vref v)" and r: "vref v = {(k, q)}"
    and z: "heap (put g p (x\<lparr>body := b\<rparr>)) q = Some z" and bl: "isblack (marked x)"
  obtains g' where "reallymarkobject q (put g p (x\<lparr>body := b\<rparr>)) = Ok ((), g')" and "mark_inv g'" and "gcstate g' = gcstate g" and "currentwhite g' = currentwhite g"
proof -
  let ?x = "x\<lparr>body := b\<rparr>" and ?g = "put g p (x\<lparr>body := b\<rparr>)"
  have p: "heap g p = Some x" and op: "open_body b = open_body (body x)" using w by (simp_all add: write_ok_def)
  have i: "inv (insert p (pending g)) ?g" by (rule write_inv [OF m w]) auto
  from reallymarkobject_marks [OF i z] obtain u g1 where
    1: "reallymarkobject q ?g = Ok (u, g1)" "grows ?g g1" "inv (insert p (pending g)) g1" "nonwhite g1 q" by (rule marksE)
  have px: "heap ?g p = Some ?x" by simp
  have nw: "nonwhite ?g = nonwhite g" using p by (auto simp: nonwhite_def fun_eq_iff)
  have k8: "kind (body x) \<noteq> 8" "kind (body ?x) \<noteq> 8" using w by (simp_all add: write_ok_def)
  note rs = others_same(1) [OF p k8]
  have pg: "pending ?g = pending g" by (rule pending_put [OF p]) (use op in simp)
  then have up: "pending g \<subseteq> pending g1" using pending_grows [OF 1(2)] by simp
  have "inv (pending g1) g1"
  proof (cases "p \<in> set (gray g) \<union> pending g")
    case True
    have "inv (set (gray ?g) \<union> pending g) ?g" by (rule write_inv [OF m w]) (use True in auto)
    then have "inv (pending g) ?g" by (rule inv_gray_free)
    from reallymarkobject_marks [OF this z] 1(1) have "inv (pending g) g1" by (auto elim: marksE)
    then show ?thesis by (rule inv_mono) (rule up)
  next
    case False
    then have "all_nonwhite g (refs (bodies g) (body x))" using black_refs [OF m p bl] by blast
    then have "all_nonwhite g1 (refs (bodies g) (body x))" using nonwhite_grows [OF _ 1(2)] nw by simp
    moreover have "refs (bodies g) b \<subseteq> refs (bodies g) (body x) \<union> {(k, q)}" using w r by (simp add: write_ok_def)
    ultimately have "all_nonwhite g1 (refs (bodies ?g) (body ?x))" using 1(4) rs by auto
    moreover have "settled p g1" by (rule settled_grows [OF _ px 1(2)]) (use bl in \<open>simp add: settled_def\<close>)
    ultimately have "inv (pending g) g1" by (intro inv_finish [OF 1(3,2) px])
    then show ?thesis by (rule inv_mono) (rule up)
  qed
  moreover have "same_frame g g1" using same_frame_trans [of g ?g g1] 1(2) by (simp add: grows_def)
  moreover have "nonwhite g1 (mainthread g)" "all_nonwhite g1 (vref (l_registry g))"
    using m nonwhite_grows [OF _ 1(2)] grows_nonwhite [OF 1(2)] unfolding mark_inv_def nw by blast+
  ultimately have "mark_inv g1" "gcstate g1 = gcstate g" "currentwhite g1 = currentwhite g" by (simp_all add: mark_inv_def same_frame_def)
  with 1(1) that show thesis by simp
qed

text \<open>\<open>luaC_barrier\<close> marks what is written to an object that is done.\<close>

lemma object_write:
  assumes m: "mark_inv g" and s: "gcstate g = GCSpropagate" and w: "write_ok g p x b (vref v)" and v: "ttype v \<noteq> 11"
  obtains g' where "sbind (set_body p b) (\<lambda>_. luaC_barrier p v) g = Ok ((), g')" and "mark_inv g'" and "gcstate g' = gcstate g" and "currentwhite g' = currentwhite g"
proof -
  let ?x = "x\<lparr>body := b\<rparr>" and ?g = "put g p (x\<lparr>body := b\<rparr>)"
  have p: "heap g p = Some x" and op: "open_body b = open_body (body x)" using w by (simp_all add: write_ok_def)
  have plain: "mark_inv ?g" if "\<not> isblack (marked x) \<or> all_nonwhite g (vref v)"
    by (rule mark_inv_put [OF m p]) (use op write_inv [OF m w order.refl] that in auto)
  show thesis
  proof (cases "iscollectable v")
    case False
    then have "vref v = {}" by (simp add: vref_def)
    with False plain show thesis by (intro that [of ?g]) (simp_all add: bind_set_body [OF p] luaC_barrier_def sret_def)
  next
    case True
    note r = vref_barrier [OF True v]
    have "is_obj (bodies g) (ttype v) (gcvalue v)" using w r by (auto simp: write_ok_def)
    then obtain y where y: "heap g (gcvalue v) = Some y" by (rule is_objE)
    then obtain z where z: "heap ?g (gcvalue v) = Some z" "marked z = marked y" using p by (cases "gcvalue v = p") auto
    have run: "sbind (set_body p b) (\<lambda>_. luaC_barrier p v) g
        = (if iswhite (marked y) \<and> isblack (marked x) then reallymarkobject (gcvalue v) ?g else Ok ((), ?g))"
      using True s by (simp add: bind_set_body [OF p] luaC_barrier_def luaC_barrierf_def bind_marked_of [OF z(1)] z(2)
          bind_marked_of [of ?g p ?x] sret_def)
    show thesis
    proof (cases "iswhite (marked y) \<and> isblack (marked x)")
      case True
      with reallymark_write [OF m w r z(1)] run that show thesis by auto
    next
      case False
      then have "\<not> isblack (marked x) \<or> all_nonwhite g (vref v)" using r y by (auto simp: nonwhite_def)
      with False run plain that [of ?g] show thesis by auto
    qed
  qed
qed

section \<open>New objects\<close>

text \<open>
  \<open>luaC_link\<close>: a new object has the current white and refers to objects that exist. A new open
  upvalue is not linked this way.
\<close>

definition white_ok :: "byte \<Rightarrow> bool" where
  "white_ok cw \<longleftrightarrow> bit cw WHITE0BIT \<noteq> bit cw WHITE1BIT"

lemma white_current: "white_ok cw \<Longrightarrow> iswhite (luaC_white cw) \<and> \<not> isblack (luaC_white cw)"
  by (auto simp: white_ok_def iswhite_def isblack_def luaC_white_def bit_and_iff)

lemma slot_at_new:
  "heap g p = None \<Longrightarrow> kind b \<noteq> 8 \<Longrightarrow> slot_at ((bodies g)(p \<mapsto> b)) th i = slot_at (bodies g) th i"
  by (cases b) (auto simp: slot_at_def bodies_def)

lemma refs_new: "heap g p = None \<Longrightarrow> kind b \<noteq> 8 \<Longrightarrow> refs ((bodies g)(p \<mapsto> b)) c = refs (bodies g) c"
  by (cases "(bodies g, c)" rule: refs.cases) (simp_all add: slot_at_new)

lemma shape_new: "heap g p = None \<Longrightarrow> shape (bodies g) c \<Longrightarrow> shape ((bodies g)(p \<mapsto> b)) c"
  by (cases "(bodies g, c)" rule: shape.cases) (auto simp: bodies_def)

lemma link_inv:
  assumes m: "mark_inv g" and n: "heap g p = None" and w: "white_ok (currentwhite g)"
    and b: "kind b \<noteq> 8" "\<not> open_body b" "shape (bodies g) b" "\<forall>(k, q) \<in> refs (bodies g) b. is_obj (bodies g) k q"
  obtains g' where "luaC_link p b g = Ok ((), g')" and "mark_inv g'" and "gcstate g' = gcstate g" and "currentwhite g' = currentwhite g"
proof -
  let ?x = "\<lparr>marked = luaC_white (currentwhite g), body = b\<rparr>"
  let ?g = "put (g\<lparr>rootgc := p # rootgc g\<rparr>) p ?x"
  have i: "inv (pending g) g" using m by (simp add: mark_inv_def)
  note col = white_current [OF w]
  have nw: "nonwhite ?g = nonwhite g" using n col by (auto simp: nonwhite_def fun_eq_iff)
  have obj: "is_obj (bodies g) k q \<Longrightarrow> is_obj (bodies ?g) k q" for k q using n by (auto simp: is_obj_def bodies_def)
  have rs: "refs (bodies ?g) c = refs (bodies g) c" for c using refs_new [OF n b(1)] by simp
  have pe: "pending ?g = pending g" using n b(2) by (auto simp: pending_def open_uv_def bodies_def)
  have "wf_store (bodies ?g)"
    unfolding wf_store_def
  proof (intro allI impI conjI)
    fix q c
    assume q: "bodies ?g q = Some c"
    have c: "c = b \<or> (\<exists>y. heap g q = Some y \<and> c = body y)" using q by (auto simp: bodies_def split: if_splits)
    then show "shape (bodies ?g) c" using b(3) shape_new [OF n] wf_obj(1) [OF i] by auto
    have "\<forall>(k, r) \<in> refs (bodies g) c. is_obj (bodies g) k r" using c b(4) wf_obj(2) [OF i] by blast
    then show "\<forall>(k, r) \<in> refs (bodies ?g) c. is_obj (bodies ?g) k r" unfolding rs using obj by blast
  qed
  moreover have "tri (pending g) ?g"
    using inv_parts(4) [OF i] col unfolding tri_def traced_def nw rs by simp
  moreover have "lists_ok ?g" using inv_parts(3) [OF i] obj unfolding lists_ok_def nw by simp blast
  moreover have ne: "mainthread g \<noteq> p" using inv_parts(2) [OF i] n by (auto simp: globals_ok_def is_obj_def bodies_def)
  then have "globals_ok ?g"
    using inv_parts(2) [OF i] obj unfolding globals_ok_def good_value_def by (simp add: before_after_def) blast
  moreover have "open_ok ?g" using inv_parts(5) [OF i] b(2) by (simp add: open_ok_def)
  moreover have "colours (pending g) ?g" using inv_parts(6) [OF i] col by (auto simp: colours_def again_def isgray_def)
  ultimately have "mark_inv ?g" using m nw pe by (simp add: mark_inv_def inv_def)
  moreover have "luaC_link p b g = Ok ((), ?g)" by (simp add: luaC_link_def set_obj_def put_def)
  ultimately show thesis using that by simp
qed

section \<open>Stacks\<close>

text \<open>
  Writes to a stack need no barrier: threads and open upvalues are traversed again. The values above
  what the calls use may be anything.
\<close>

definition stack_ok :: "global_State \<Rightarrow> ptr \<Rightarrow> lua_State \<Rightarrow> bool" where
  "stack_ok g p t \<longleftrightarrow> thread_shape t \<and> (\<forall>i \<le> stack_limit t. good_value g (L_stack t ! i)) \<and> good_value g (L_gt t)
     \<and> (\<forall>q i. bodies g q = Some (OUpVal (Open p i)) \<longrightarrow> i \<le> stack_limit t)"

lemma good_refs: "good_value g v \<Longrightarrow> \<forall>(k, q) \<in> vref v. is_obj (bodies g) k q"
  by (simp add: good_value_def)

lemma le_fold_max: "(n :: nat) \<le> fold max xs n"
  by (induction xs arbitrary: n) (simp, metis fold_simps(2) le_trans max.cobounded2)

text \<open>The heap stays well-formed.\<close>

lemma stack_wf:
  assumes wf: "wf_store (bodies g)" and p: "heap g p = Some x" "body x = OThread t" and ok: "stack_ok g p t'"
  shows "wf_store (bodies (put g p (x\<lparr>body := OThread t'\<rparr>)))"
proof -
  let ?g = "put g p (x\<lparr>body := OThread t'\<rparr>)"
  have obj: "is_obj (bodies ?g) k q = is_obj (bodies g) k q" for k q using p by (auto simp: is_obj_def bodies_def)
  have stack: "\<forall>i \<le> stack_limit t'. \<forall>(k, q) \<in> vref (L_stack t' ! i). is_obj (bodies g) k q" and gt: "\<forall>(k, q) \<in> vref (L_gt t'). is_obj (bodies g) k q"
    using ok good_refs unfolding stack_ok_def by blast+
  have lim: "L_top t' \<le> stack_limit t'" "stack_limit t' < length (L_stack t')"
    using ok le_fold_max by (auto simp: stack_limit_def stack_ok_def thread_shape_def)
  have slot: "\<forall>(k, q) \<in> vref (slot_at (bodies ?g) p j). is_obj (bodies g) k q" if "j \<le> stack_limit t'" for j
    using stack that lim by (simp add: slot_at_def)
  have other: "slot_at (bodies ?g) th j = slot_at (bodies g) th j" if "th \<noteq> p" for th j using that by (simp add: slot_at_def)
  have same: "refs (bodies ?g) b = refs (bodies g) b" if "\<not> open_body b" for b
    using that by (cases "(bodies g, b)" rule: refs.cases) simp_all
  have body: "shape (bodies ?g) b \<and> (\<forall>(k, q) \<in> refs (bodies ?g) b. is_obj (bodies g) k q)" if q: "bodies ?g q = Some b" for q b
  proof (cases "q = p")
    case True
    then have b: "b = OThread t'" using q by simp
    have "\<forall>v \<in> set (take (L_top t') (L_stack t')). \<forall>(k, q) \<in> vref v. is_obj (bodies g) k q"
    proof
      fix v
      assume "v \<in> set (take (L_top t') (L_stack t'))"
      then obtain i where i: "i < L_top t'" "v = L_stack t' ! i" by (auto simp: in_set_conv_nth)
      with lim have "i \<le> stack_limit t'" by simp
      with stack i show "\<forall>(k, q) \<in> vref v. is_obj (bodies g) k q" by blast
    qed
    then have "\<forall>(k, q) \<in> \<Union> (vref ` set (take (L_top t') (L_stack t'))). is_obj (bodies g) k q" by blast
    with gt ok b show ?thesis by (auto simp: stack_ok_def)
  next
    case False
    then obtain y where y: "heap g q = Some y" "b = body y" using q by (auto simp: bodies_def)
    have w: "shape (bodies g) (body y)" "\<forall>(k, q) \<in> refs (bodies g) (body y). is_obj (bodies g) k q"
      using wf bodies_Some [OF y(1)] unfolding wf_store_def by blast+
    show ?thesis
    proof (cases "\<exists>j. b = OUpVal (Open p j)")
      case True
      then obtain j where j: "b = OUpVal (Open p j)" by blast
      then have "j \<le> stack_limit t'" using ok bodies_Some [OF y(1)] y(2) by (auto simp: stack_ok_def)
      with j slot show ?thesis by simp
    next
      case False
      have "refs (bodies ?g) b = refs (bodies g) b"
        using same [of b] other False by (cases b rule: open_body.cases) auto
      moreover have "shape (bodies ?g) b"
        using w(1) False y(2) by (cases "(bodies g, b)" rule: shape.cases) auto
      ultimately show ?thesis using w(2) y(2) by auto
    qed
  qed
  show ?thesis unfolding wf_store_def obj using body by blast
qed

lemma stack_write:
  assumes m: "mark_inv g" and p: "heap g p = Some x" "body x = OThread t" and nb: "\<not> isblack (marked x)"
    and ok: "stack_ok g p t'"
  shows "mark_inv (put g p (x\<lparr>body := OThread t'\<rparr>))"
proof -
  let ?x = "x\<lparr>body := OThread t'\<rparr>" and ?g = "put g p (x\<lparr>body := OThread t'\<rparr>)"
  have i: "inv (pending g) g" using m by (simp add: mark_inv_def)
  have nw: "nonwhite ?g = nonwhite g" using p by (auto simp: nonwhite_def fun_eq_iff)
  have obj: "is_obj (bodies ?g) k q = is_obj (bodies g) k q" for k q using p by (auto simp: is_obj_def bodies_def)
  have pe: "pending ?g = pending g" by (rule pending_put [OF p(1)]) (simp add: p(2))
  have same: "refs (bodies ?g) b = refs (bodies g) b" if "\<not> open_body b" for b
    using that by (cases "(bodies g, b)" rule: refs.cases) simp_all
  have "wf_store (bodies ?g)" by (rule stack_wf [OF inv_parts(1) [OF i] p ok])
  moreover have "tri (pending g) ?g"
    unfolding tri_def
  proof (intro allI impI)
    fix q y
    assume y: "heap ?g q = Some y" "\<not> iswhite (marked y)"
    show "q \<in> set (gray ?g) \<or> q \<in> pending g \<or> traced ?g q y"
    proof (cases "q = p \<or> open_body (body y)")
      case True
      then show ?thesis
      proof
        assume "q = p"
        then show ?thesis using black_traced [OF m p(1)] nb y p(2) by auto
      next
        assume "open_body (body y)"
        then have "q \<noteq> p" using y(1) by auto
        with y(1) \<open>open_body (body y)\<close> show ?thesis by (auto simp: pending_def open_uv_def bodies_def)
      qed
    next
      case False
      then have y': "heap g q = Some y" "\<not> open_body (body y)" using y(1) by auto
      have "q \<in> set (gray g) \<or> q \<in> pending g \<or> traced g q y" using inv_parts(4) [OF i] y'(1) y(2) unfolding tri_def by blast
      then show ?thesis unfolding traced_def nw same [OF y'(2)] by simp
    qed
  qed
  moreover have "lists_ok ?g" "globals_ok ?g"
    using inv_parts(2,3) [OF i] unfolding lists_ok_def globals_ok_def good_value_def nw obj by simp_all
  moreover have "open_ok ?g" by (rule open_put [OF inv_parts(5) [OF i] p(1)]) simp
  moreover have "colours (pending g) ?g"
    using inv_parts(6) [OF i] inv_parts(6) [OF i, unfolded colours_def, rule_format, OF p(1)] p(2)
    by (auto simp: colours_def again_def)
  ultimately show ?thesis using m nw pe by (simp add: mark_inv_def inv_def)
qed

section \<open>The phase\<close>

text \<open>
  The steps while the collector marks: its own, and what the program does in between: a store in a
  table, the insertion of a key with its value, a store in another object, writes to a stack, and new
  objects. Threads are never black between two steps. New threads and the opening and closing
  of upvalues are not among the steps.
\<close>

inductive gc_step :: "caller \<Rightarrow> ptr \<Rightarrow> global_State \<Rightarrow> global_State \<Rightarrow> bool" for call L where
  mark: "gray g \<noteq> [] \<Longrightarrow> singlestep call L g = Ok (c, g') \<Longrightarrow> gc_step call L g g'"
| table: "write_ok g p x b (vref v) \<Longrightarrow> kind b = 5 \<Longrightarrow> ttype v \<noteq> 11 \<Longrightarrow>
    sbind (set_body p b) (\<lambda>_. luaC_barriert p v) g = Ok ((), g') \<Longrightarrow> gc_step call L g g'"
| entry: "write_ok g p x b {} \<Longrightarrow> kind b = 5 \<Longrightarrow> kind b' = 5 \<Longrightarrow> ttype k \<noteq> 11 \<Longrightarrow> ttype v \<noteq> 11 \<Longrightarrow> shape (bodies g) b' \<Longrightarrow>
    refs (bodies g) b' \<subseteq> refs (bodies g) b \<union> (vref k \<union> vref v) \<Longrightarrow> \<forall>(j, q) \<in> vref k \<union> vref v. is_obj (bodies g) j q \<Longrightarrow>
    sbind (set_body p b) (\<lambda>_. sbind (luaC_barriert p k) (\<lambda>_. sbind (set_body p b') (\<lambda>_. luaC_barriert p v))) g = Ok ((), g') \<Longrightarrow>
    gc_step call L g g'"
| object: "write_ok g p x b (vref v) \<Longrightarrow> ttype v \<noteq> 11 \<Longrightarrow>
    sbind (set_body p b) (\<lambda>_. luaC_barrier p v) g = Ok ((), g') \<Longrightarrow> gc_step call L g g'"
| stack: "heap g p = Some x \<Longrightarrow> body x = OThread t \<Longrightarrow> \<not> isblack (marked x) \<Longrightarrow> stack_ok g p t' \<Longrightarrow>
    set_body p (OThread t') g = Ok ((), g') \<Longrightarrow> gc_step call L g g'"
| create: "heap g p = None \<Longrightarrow> kind b \<noteq> 8 \<Longrightarrow> \<not> open_body b \<Longrightarrow> shape (bodies g) b \<Longrightarrow>
    \<forall>(k, q) \<in> refs (bodies g) b. is_obj (bodies g) k q \<Longrightarrow> luaC_link p b g = Ok ((), g') \<Longrightarrow> gc_step call L g g'"

text \<open>The steps of the collector alone.\<close>

inductive mark_step :: "caller \<Rightarrow> ptr \<Rightarrow> global_State \<Rightarrow> global_State \<Rightarrow> bool" for call L where
  alone: "gray g \<noteq> [] \<Longrightarrow> singlestep call L g = Ok (c, g') \<Longrightarrow> mark_step call L g g'"

lemma mark_step_gc: "mark_step call L g g' \<Longrightarrow> gc_step call L g g'"
  by (auto elim!: mark_step.cases intro: gc_step.mark)

lemma mark_steps_gc: "(mark_step call L)\<^sup>*\<^sup>* g g' \<Longrightarrow> (gc_step call L)\<^sup>*\<^sup>* g g'"
  by (rule rtranclp_mono [THEN predicate2D]) (auto intro: mark_step_gc)

definition phase_inv :: "global_State \<Rightarrow> bool" where
  "phase_inv g \<longleftrightarrow> mark_inv g \<and> gcstate g = GCSpropagate \<and> white_ok (currentwhite g)"

lemma step_phase:
  assumes "gc_step call L g g'" and "phase_inv g"
  shows "phase_inv g'"
  using assms
proof (induction rule: gc_step.induct)
  case (mark g c g')
  then have m: "mark_inv g" and s: "gcstate g = GCSpropagate" and w: "white_ok (currentwhite g)" by (simp_all add: phase_inv_def)
  obtain p rest where gr: "gray g = p # rest" using mark(1) by (cases "gray g") auto
  have "inv (pending g) g" using m by (simp add: mark_inv_def)
  note p = propagatemark_marks [OF this gr]
  have "propagatemark g = Ok (c, g')" using mark(1,2) s by (simp add: singlestep_def)
  with mark_inv_step [OF m p] have "mark_inv g'" "grows g g'" by auto
  with s w show ?case by (simp add: phase_inv_def grows_def same_frame_def)
next
  case (table g p x b v g')
  with table_write [OF _ table(1-3)] show ?case by (force simp: phase_inv_def)
next
  case (entry g p x b b' k v g')
  with entry_write [OF _ entry(1-8)] show ?case by (force simp: phase_inv_def)
next
  case (object g p x b v g')
  with object_write [OF _ _ object(1,2)] show ?case by (force simp: phase_inv_def)
next
  case (stack g p x t t' g')
  with stack_write [OF _ stack(1-4)] show ?case by (auto simp: phase_inv_def set_body_Ok [OF stack(1)])
next
  case (create g p b g')
  with link_inv [OF _ create(1) _ create(2-5)] show ?case by (force simp: phase_inv_def)
qed

lemma steps_phase: "(gc_step call L)\<^sup>*\<^sup>* g g' \<Longrightarrow> phase_inv g \<Longrightarrow> phase_inv g'"
  by (induction rule: rtranclp_induct) (auto intro: step_phase)

section \<open>The end of the phase\<close>

text \<open>What the program can reach, and what the sweep lets live\<close>

inductive reachable :: "ptr \<Rightarrow> global_State \<Rightarrow> ptr \<Rightarrow> bool" for L g where
  root: "(k, p) \<in> roots L g \<Longrightarrow> reachable L g p"
| refs: "reachable L g p \<Longrightarrow> heap g p = Some x \<Longrightarrow> (k, q) \<in> refs (bodies g) (body x) \<Longrightarrow> reachable L g q"

definition live :: "global_State \<Rightarrow> ptr \<Rightarrow> bool" where
  "live g p \<longleftrightarrow> (\<exists>x. heap g p = Some x \<and> survives (otherwhite (currentwhite g)) (marked x) \<and> \<not> isdead (currentwhite g) (marked x))"

lemma reachable_nonwhite:
  assumes "reachable L g p" and "marked_closed g" and "all_nonwhite g (roots L g)"
  shows "nonwhite g p"
  using assms
proof (induction rule: reachable.induct)
  case (refs p x k q)
  then have "all_marked p g" by (simp add: marked_closed_def)
  with refs(2,3) show ?case by (auto simp: all_marked_def)
qed auto

lemma nonwhite_live:
  assumes "nonwhite g p" and "white_ok (otherwhite (currentwhite g))"
  shows "live g p"
proof -
  let ?cw = "otherwhite (currentwhite g)"
  obtain x where x: "heap g p = Some x" "\<not> bit (marked x) 0" "\<not> bit (marked x) 1"
    using assms(1) by (auto simp: nonwhite_def iswhite_def)
  obtain i :: nat where i: "bit ?cw i" "i = 0 \<or> i = 1" using assms(2) by (auto simp: white_ok_def)
  have w: "bit (WHITEBITS) n \<longleftrightarrow> n = 0 \<or> n = 1" for n
  proof -
    have "(WHITEBITS) = mask 2" by (simp add: mask_eq_decr_exp)
    then have "bit (WHITEBITS) n = bit (mask 2 :: byte) n" by (rule arg_cong)
    then show ?thesis unfolding bit_mask_iff by auto
  qed
  have "bit ((marked x XOR WHITEBITS) AND ?cw) i" using x(2,3) i by (auto simp: bit_and_iff bit_xor_iff w)
  then have "survives ?cw (marked x)" by (auto simp: survives_def)
  moreover have "marked x AND ?cw AND WHITEBITS = 0"
  proof (rule bit_word_eqI)
    fix n
    have "\<not> (bit (marked x) n \<and> bit (WHITEBITS) n)" using x(2,3) w [of n] by auto
    then show "bit (marked x AND ?cw AND WHITEBITS) n = bit 0 n" unfolding bit_and_iff by simp
  qed
  ultimately show ?thesis using x(1) by (auto simp: live_def isdead_def)
qed

lemma phase_end:
  assumes "phase_inv g" and "gray g = []" and "is_obj (bodies g) 8 L"
  obtains g' where "singlestep call L g = Ok (0, g')" and "gcstate g' = GCSsweepstring" and "\<And>p. reachable L g' p \<Longrightarrow> live g' p"
proof -
  have m: "mark_inv g" and s: "gcstate g = GCSpropagate" and w: "white_ok (currentwhite g)" using assms(1) by (simp_all add: phase_inv_def)
  from atomic_steps [OF m assms(3)] obtain g' where
    g': "atomic L g = Ok ((), g')" "evolves (g\<lparr>currentwhite := otherwhite (currentwhite g), gcstate := GCSsweepstring\<rparr>) g'"
    "marked_closed g'" "all_nonwhite g' (roots L g')" by metis
  have cw: "currentwhite g' = otherwhite (currentwhite g)" "gcstate g' = GCSsweepstring"
    using g'(2) by (simp_all add: evolves_def same_frame_def)
  have "otherwhite (otherwhite c) = c" for c by (simp add: otherwhite_def xor.assoc)
  then have "white_ok (otherwhite (currentwhite g'))" using w cw(1) by simp
  with reachable_nonwhite [OF _ g'(3,4)] nonwhite_live have "\<And>p. reachable L g' p \<Longrightarrow> live g' p" by blast
  moreover have "singlestep call L g = Ok (0, g')"
    using g'(1) s assms(2) by (simp add: singlestep_def sbind_def sret_def)
  ultimately show thesis using that cw(2) by blast
qed

end
