(* ===== verification/LuaSweepSafe.thy ===== *)
theory LuaSweepSafe
  imports LuaIncremental
begin

text \<open>The sweep frees no object that is alive, and makes the others white again.\<close>

section \<open>What lives stays alive\<close>

definition keeps_live :: "ptr set \<Rightarrow> global_State \<Rightarrow> global_State \<Rightarrow> bool" where
  "keeps_live E g g' \<longleftrightarrow> (gcstate g \<noteq> GCSpropagate \<longrightarrow> white_ok (currentwhite g) \<longrightarrow>
     gcstate g' = gcstate g \<and> currentwhite g' = currentwhite g \<and> (\<forall>q. q \<notin> E \<longrightarrow> live g q \<longrightarrow> live g' q))"

lemma live_cong: "heap g' = heap g \<Longrightarrow> currentwhite g' = currentwhite g \<Longrightarrow> live g' = live g"
  by (simp add: live_def fun_eq_iff)

lemma live_fields [simp]:
  "live (rootgc_update f1 g) = live g" "live (sweepgc_update f2 g) = live g" "live (gcstate_update f3 g) = live g"
  by (rule live_cong; simp)+

interpretation live: state_frame "keeps_live E" for E
  by unfold_locales (auto simp: keeps_live_def)

lemma keeps_live_mono: "keeps_live E g g' \<Longrightarrow> E \<subseteq> E' \<Longrightarrow> keeps_live E' g g'"
  unfolding keeps_live_def by blast

text \<open>Only a step that frees an object that is not alive leaves something out.\<close>

lemma keeps_live_dead: "keeps_live {p} g g' \<Longrightarrow> \<not> live g p \<Longrightarrow> keeps_live {} g g'"
  unfolding keeps_live_def by (metis empty_iff singletonD)

lemma bit_WHITEBITS: "bit (WHITEBITS) n \<longleftrightarrow> n = 0 \<or> n = 1"
proof -
  have "(WHITEBITS) = mask 2" by (simp add: mask_eq_decr_exp)
  then have "bit (WHITEBITS) n = bit (mask 2 :: byte) n" by (rule arg_cong)
  then show ?thesis unfolding bit_mask_iff by auto
qed

lemma makewhite_live:
  assumes "white_ok cw"
  shows "survives (otherwhite cw) (makewhite cw m)" and "\<not> isdead cw (makewhite cw m)"
proof -
  have m: "bit (makewhite cw m) i = bit cw i" if "i = 0 \<or> i = 1" for i
    using that bit_WHITEBITS [of i]
    by (auto simp: makewhite_def luaC_white_def bit_or_iff bit_and_iff bit_unset_bit_iff)
  have o: "bit (otherwhite cw) i = (\<not> bit cw i)" if "i = 0 \<or> i = 1" for i
    using that bit_WHITEBITS [of i] by (auto simp: otherwhite_def bit_xor_iff)
  obtain i :: nat where i: "\<not> bit cw i" "i = 0 \<or> i = 1" using assms by (auto simp: white_ok_def)
  have "bit ((makewhite cw m XOR WHITEBITS) AND otherwhite cw) i"
    using i m [OF i(2)] o [OF i(2)] bit_WHITEBITS [of i] unfolding bit_and_iff bit_xor_iff by blast
  then show "survives (otherwhite cw) (makewhite cw m)" by (auto simp: survives_def)
  have "makewhite cw m AND otherwhite cw AND WHITEBITS = 0"
  proof (rule bit_word_eqI)
    fix n
    have "\<not> (bit (makewhite cw m) n \<and> bit (otherwhite cw) n \<and> bit (WHITEBITS) n)"
      using m [of n] o [of n] bit_WHITEBITS [of n] by blast
    then show "bit (makewhite cw m AND otherwhite cw AND WHITEBITS) n = bit 0 n" unfolding bit_and_iff by simp
  qed
  then show "\<not> isdead cw (makewhite cw m)" by (simp add: isdead_def)
qed

lemma live_get: "steps (keeps_live E) (get_obj p)"
  by (rule steps_get) (rule live.same)

lemma live_put:
  assumes "heap g p = Some x" and "live g p \<Longrightarrow> white_ok (currentwhite g) \<Longrightarrow> survives (otherwhite (currentwhite g)) (marked x')
      \<and> \<not> isdead (currentwhite g) (marked x')"
  shows "keeps_live E g (put g p x')"
  using assms by (auto simp: keeps_live_def live_def)

lemma live_set_body: "steps (keeps_live E) (set_body p b)"
  unfolding steps_def
proof (intro allI impI)
  fix g u g'
  assume s: "set_body p b g = Ok (u, g')"
  then obtain x where x: "heap g p = Some x" by (auto simp: set_body_def get_obj_def elim!: sbind_OkE split: option.splits)
  with s have "g' = put g p (x\<lparr>body := b\<rparr>)" by (simp add: set_body_Ok)
  then show "keeps_live E g g'" using live_put [OF x, of "x\<lparr>body := b\<rparr>" E] x by (auto simp: live_def)
qed

lemma live_makewhite:
  assumes "upd_mark (makewhite (currentwhite g)) p g = Ok (u, g')"
  shows "keeps_live E g g'"
proof -
  obtain x where x: "heap g p = Some x"
    using assms by (auto simp: upd_mark_def get_obj_def elim!: sbind_OkE split: option.splits)
  let ?x = "x\<lparr>marked := makewhite (currentwhite g) (marked x)\<rparr>"
  have "g' = put g p ?x" using assms by (simp add: upd_mark_Ok [OF x])
  then show ?thesis using live_put [OF x, of ?x E] makewhite_live by simp
qed

lemma live_modify:
  "(\<And>g. heap (f g) = heap g) \<Longrightarrow> (\<And>g. currentwhite (f g) = currentwhite g) \<Longrightarrow> (\<And>g. gcstate (f g) = gcstate g) \<Longrightarrow>
    steps (keeps_live E) (modify f)"
  by (auto simp: steps_def modify_def keeps_live_def live_def)

lemma live_release: "steps (keeps_live {p}) (release p n)"
  by (auto simp: steps_def release_def luaM_freemem_def modify_def keeps_live_def live_def elim!: sbind_OkE)

section \<open>The functions of the sweep\<close>

lemma live_marked_of: "steps (keeps_live E) (marked_of p)"
  unfolding marked_of_def by (intro live.steps_bind live_get live.steps_ret)

lemma live_freemem: "steps (keeps_live E) (luaM_freemem n)" "steps (keeps_live E) (luaM_malloc n)"
  unfolding luaM_freemem_def luaM_malloc_def by (rule live_modify; simp)+

lemmas live_rules = live.steps_bind live.steps_ret live.steps_undef live.steps_for_each live.steps_access live.steps_uv_value
  live_get live_set_body live_marked_of live_freemem

lemma live_unlink: "steps (keeps_live E) (unlinkupval p)"
  unfolding unlinkupval_def by (rule live_modify) simp_all

lemma live_freeupval: "steps (keeps_live {p}) (luaF_freeupval p)"
  unfolding luaF_freeupval_def
  by (auto split: UpVal.splits intro!: live_rules live_unlink live_release)

text \<open>While the collector sweeps, a closed upvalue becomes white.\<close>

lemma live_linkupval: "steps (keeps_live E) (luaC_linkupval p)"
proof -
  have "keeps_live E g g'"
    if "(if isgray m then
           if gcstate g = GCSpropagate then
             sbind (upd_mark gray2black p) (\<lambda>_. sbind (gco2uv p) (\<lambda>uv. sbind (uv_value uv) (\<lambda>v. luaC_barrier p v))) g
           else upd_mark (makewhite (currentwhite g)) p g
         else Ok ((), g)) = Ok (u, g')" for m g u g'
  proof (cases "gcstate g = GCSpropagate")
    case True
    then show ?thesis by (simp add: keeps_live_def)
  next
    case False
    with that show ?thesis using live_makewhite live.same by (auto split: if_splits)
  qed
  then show ?thesis
    unfolding luaC_linkupval_def
    by (intro live_rules live_modify) (auto simp: steps_def)
qed

lemma live_close_loop: "steps (keeps_live E) (close_loop L level us)"
proof (induction us)
  case (Cons u us)
  have step: "keeps_live E g g'"
    if m: "marked_of u g0 = Ok (m, g)"
      and f: "(if isdead (currentwhite g) m then luaF_freeupval u g
           else sbind (unlinkupval u) (\<lambda>_. sbind (uv_value uv) (\<lambda>v.
                sbind (set_body u (OUpVal (Closed v))) (\<lambda>_. luaC_linkupval u))) g) = Ok (x, g')" for m g0 g g' x uv
  proof (cases "isdead (currentwhite g) m")
    case True
    have "\<not> live g u" using m True by (auto simp: marked_of_def get_obj_def live_def sret_def elim!: sbind_OkE split: option.splits)
    moreover have "keeps_live {u} g g'" using stepsD [OF live_freeupval] f True by simp
    ultimately show ?thesis using keeps_live_mono [OF keeps_live_dead] by blast
  next
    case False
    have "steps (keeps_live E) (sbind (unlinkupval u) (\<lambda>_. sbind (uv_value uv) (\<lambda>v.
        sbind (set_body u (OUpVal (Closed v))) (\<lambda>_. luaC_linkupval u))))"
      by (intro live_rules live_unlink live_linkupval)
    with False f show ?thesis by (simp add: stepsD)
  qed
  have mid: "steps (keeps_live E) (sbind (marked_of u) (\<lambda>m.
      sbind (\<lambda>g. if isdead (currentwhite g) m then luaF_freeupval u g
           else sbind (unlinkupval u) (\<lambda>_. sbind (uv_value uv) (\<lambda>v.
                sbind (set_body u (OUpVal (Closed v))) (\<lambda>_. luaC_linkupval u))) g) (\<lambda>_. close_loop L level us)))" for uv
    unfolding steps_def
  proof (intro allI impI)
    fix g0 x g'
    assume "sbind (marked_of u) (\<lambda>m.
      sbind (\<lambda>g. if isdead (currentwhite g) m then luaF_freeupval u g
           else sbind (unlinkupval u) (\<lambda>_. sbind (uv_value uv) (\<lambda>v.
                sbind (set_body u (OUpVal (Closed v))) (\<lambda>_. luaC_linkupval u))) g) (\<lambda>_. close_loop L level us)) g0 = Ok (x, g')"
    then obtain m g1 y g2 where 1: "marked_of u g0 = Ok (m, g1)" and
      2: "(if isdead (currentwhite g1) m then luaF_freeupval u g1
           else sbind (unlinkupval u) (\<lambda>_. sbind (uv_value uv) (\<lambda>v.
                sbind (set_body u (OUpVal (Closed v))) (\<lambda>_. luaC_linkupval u))) g1) = Ok (y, g2)" and
      3: "close_loop L level us g2 = Ok (x, g')" by (auto elim!: sbind_OkE)
    show "keeps_live E g0 g'"
      by (rule live.sequence [OF live.sequence [OF stepsD [OF live_marked_of 1] step [OF 1 2]] stepsD [OF Cons 3]])
  qed
  show ?case
    unfolding close_loop.simps
    by (intro live_rules) (auto split: UpVal.splits intro!: live_rules mid)
qed (simp add: live_rules)

lemma live_freeobj: "steps (keeps_live {p}) (freeobj p)"
  unfolding freeobj_def luaF_freeproto_def luaF_freeclosure_def luaH_free_def luaE_freethread_def luaF_close_def
  by (auto split: body.splits intro!: live_rules live_release live_freeupval live_close_loop live_modify)

lemma live_free_dead:
  assumes "marked_of p g0 = Ok (m, g)" and "\<not> survives (otherwhite (currentwhite g)) m" and "freeobj p g = Ok (u, g')"
  shows "keeps_live E g g'"
proof -
  have "\<not> live g p" using assms(1,2) by (auto simp: marked_of_def get_obj_def live_def sret_def elim!: sbind_OkE split: option.splits)
  then show ?thesis using keeps_live_mono [OF keeps_live_dead [OF stepsD [OF live_freeobj assms(3)]]] by blast
qed

lemma live_sweep_chain: "steps (keeps_live E) (sweep_chain ps)"
proof (induction ps)
  case (Cons p ps)
  show ?case
    unfolding steps_def
  proof (intro allI impI)
    fix g0 qs g'
    assume "sweep_chain (p # ps) g0 = Ok (qs, g')"
    then obtain m g where m: "marked_of p g0 = Ok (m, g)" and
      r: "(if survives (otherwhite (currentwhite g)) m
       then sbind (upd_mark (makewhite (currentwhite g)) p) (\<lambda>_. sbind (sweep_chain ps) (\<lambda>qs. sret (p # qs))) g
       else sbind (freeobj p) (\<lambda>_. sweep_chain ps) g) = Ok (qs, g')"
      unfolding sweep_chain.simps by (auto elim!: sbind_OkE)
    have rest: "steps (keeps_live E) (sbind (sweep_chain ps) (\<lambda>qs. sret (p # qs)))" by (intro live_rules Cons)
    have "keeps_live E g g'"
    proof (cases "survives (otherwhite (currentwhite g)) m")
      case True
      with r obtain u g1 where 1: "upd_mark (makewhite (currentwhite g)) p g = Ok (u, g1)"
        "sbind (sweep_chain ps) (\<lambda>qs. sret (p # qs)) g1 = Ok (qs, g')" by (auto elim!: sbind_OkE [where m = "upd_mark _ _"])
      show ?thesis by (rule live.sequence [OF live_makewhite [OF 1(1)] stepsD [OF rest 1(2)]])
    next
      case False
      with r obtain u g1 where 1: "freeobj p g = Ok (u, g1)" "sweep_chain ps g1 = Ok (qs, g')" by (auto elim!: sbind_OkE)
      show ?thesis by (rule live.sequence [OF live_free_dead [OF m False 1(1)] stepsD [OF Cons 1(2)]])
    qed
    with stepsD [OF live_marked_of m] show "keeps_live E g0 g'" by (rule live.sequence)
  qed
qed (simp add: live_rules)

lemma live_sweep_openupval: "steps (keeps_live E) (sweep_openupval p)"
  unfolding sweep_openupval_def by (auto split: body.splits intro!: live_rules live_sweep_chain)

lemma live_sweeplist: "steps (keeps_live E) (sweeplist n l)"
proof (induction n arbitrary: l)
  case (Suc n)
  show ?case
    unfolding steps_def
  proof (intro allI impI)
    fix g0 q g'
    assume s: "sweeplist (Suc n) l g0 = Ok (q, g')"
    show "keeps_live E g0 g'"
    proof (cases "list_at l (rootgc g0)")
      case (Cons p rest)
      let ?keep = "\<lambda>g. sbind (upd_mark (makewhite (currentwhite g)) p) (\<lambda>_. sweeplist n (Next p)) g"
      let ?free = "sbind (modify (\<lambda>g. g\<lparr>rootgc := remove1 p (rootgc g)\<rparr>)) (\<lambda>_. sbind (freeobj p) (\<lambda>_. sweeplist n l))"
      from s Cons obtain u g1 m g where 1: "sweep_openupval p g0 = Ok (u, g1)" "marked_of p g1 = Ok (m, g)"
        "(if survives (otherwhite (currentwhite g)) m then ?keep g else ?free g) = Ok (q, g')"
        by (auto elim!: sbind_OkE [where m = "sweep_openupval _"] sbind_OkE [where m = "marked_of _"])
      have "keeps_live E g g'"
      proof (cases "survives (otherwhite (currentwhite g)) m")
        case True
        with 1(3) obtain v g2 where 2: "upd_mark (makewhite (currentwhite g)) p g = Ok (v, g2)" "sweeplist n (Next p) g2 = Ok (q, g')"
          by (auto elim!: sbind_OkE)
        show ?thesis by (rule live.sequence [OF live_makewhite [OF 2(1)] stepsD [OF Suc 2(2)]])
      next
        case False
        let ?g = "g\<lparr>rootgc := remove1 p (rootgc g)\<rparr>"
        from False 1(3) obtain v g2 where 2: "freeobj p ?g = Ok (v, g2)" "sweeplist n l g2 = Ok (q, g')"
          by (auto simp: sbind_Ok [where m = "modify _"] modify_def elim!: sbind_OkE)
        have "heap g p = Some x \<Longrightarrow> marked x = m" for x
          using 1(2) by (auto simp: marked_of_def get_obj_def sret_def elim!: sbind_OkE split: option.splits)
        then have "\<not> live ?g p" using False by (auto simp: live_def)
        then have "keeps_live {} ?g g2" by (rule keeps_live_dead [OF stepsD [OF live_freeobj 2(1)]])
        then have "keeps_live {} g g2" by (simp add: keeps_live_def)
        then have "keeps_live E g g2" by (rule keeps_live_mono) simp
        with stepsD [OF Suc 2(2)] show ?thesis by (rule live.sequence [rotated])
      qed
      with live.sequence [OF stepsD [OF live_sweep_openupval 1(1)] stepsD [OF live_marked_of 1(2)]]
      show ?thesis by (rule live.sequence)
    qed (use s live.same in simp)
  qed
qed (simp add: live_rules)

lemma live_rehash: "steps (keeps_live E) (rehash_chain n ps new)"
  by (induction ps arbitrary: new) (auto simp: Let_def intro!: live_rules)

lemma live_checkSizes: "steps (keeps_live E) checkSizes"
proof -
  have r: "steps (keeps_live E) (luaS_resize n)" for n
    unfolding steps_def
  proof (intro allI impI)
    fix g u g'
    assume s: "luaS_resize n g = Ok (u, g')"
    have "steps (keeps_live E) (sbind (luaM_malloc (of_nat (8 * n))) (\<lambda>_.
           sbind (rehash_chain n (concat (strt g)) (replicate n [])) (\<lambda>new.
           sbind (luaM_freemem (of_nat (8 * length (strt g)))) (\<lambda>_. modify (\<lambda>g. g\<lparr>strt := new\<rparr>)))))"
      by (intro live_rules live_rehash live_modify) simp_all
    with s show "keeps_live E g g'" by (auto simp: luaS_resize_def live.same split: if_splits dest: stepsD)
  qed
  show ?thesis
    unfolding steps_def
  proof (intro allI impI)
    fix g u g'
    assume s: "checkSizes g = Ok (u, g')"
    have "steps (keeps_live E) (sbind (if c then luaS_resize k else sret ()) (\<lambda>_.
     modify (\<lambda>g. if 64 < g_buffsize g
                 then g\<lparr>g_buffsize := g_buffsize g div 2, totalbytes := totalbytes g - (g_buffsize g - g_buffsize g div 2)\<rparr>
                 else g)))" for c k
      by (intro live.steps_bind live_modify) (auto intro: r live.steps_ret)
    with s show "keeps_live E g g'" by (auto simp: checkSizes_def dest: stepsD)
  qed
qed

text \<open>A step of the collector between the end of the mark phase and the finalizers\<close>

lemma sweep_step_live:
  assumes st: "gcstate g = GCSsweepstring \<or> gcstate g = GCSsweep" and w: "white_ok (currentwhite g)"
    and s: "singlestep call L g = Ok (c, g')"
  shows "currentwhite g' = currentwhite g" and "live g p \<Longrightarrow> live g' p"
proof -
  have "currentwhite g' = currentwhite g \<and> (live g p \<longrightarrow> live g' p)"
  proof (cases "gcstate g = GCSsweepstring")
    case True
    with s obtain qs g1 where 1: "sweep_chain (strt g ! sweepstrgc g) g = Ok (qs, g1)"
      and g': "currentwhite g' = currentwhite g1" "heap g' = heap g1"
      by (auto simp: singlestep_def Let_def modify_def sret_def elim!: sbind_OkE split: if_splits)
    have "keeps_live {} g g1" by (rule stepsD [OF live_sweep_chain 1])
    then have "currentwhite g1 = currentwhite g" "live g p \<longrightarrow> live g1 p" using True w by (simp_all add: keeps_live_def)
    with g' show ?thesis by (simp add: live_cong [of g' g1])
  next
    case False
    with st have st: "gcstate g = GCSsweep" by simp
    with s obtain q g1 u2 g2 where 1: "sweeplist GCSWEEPMAX (sweepgc g) g = Ok (q, g1)"
      and 2: "(if list_at q (rootgc (g1\<lparr>sweepgc := q\<rparr>)) = []
          then sbind checkSizes (\<lambda>_. modify (\<lambda>g. g\<lparr>gcstate := GCSfinalize\<rparr>)) (g1\<lparr>sweepgc := q\<rparr>)
          else Ok ((), g1\<lparr>sweepgc := q\<rparr>)) = Ok (u2, g2)"
      and g': "currentwhite g' = currentwhite g2" "heap g' = heap g2"
      by (auto simp: singlestep_def Let_def modify_def sret_def elim!: sbind_OkE)
    from stepsD [OF live_sweeplist 1, of "{}"] st w
    have k1: "currentwhite g1 = currentwhite g" "gcstate g1 = GCSsweep" "live g p \<longrightarrow> live g1 p" by (simp_all add: keeps_live_def)
    let ?g1 = "g1\<lparr>sweepgc := q\<rparr>"
    have "currentwhite g2 = currentwhite g1 \<and> (live g1 p \<longrightarrow> live g2 p)"
    proof (cases "list_at q (rootgc g1) = []")
      case True
      with 2 obtain u3 g3 where 3: "checkSizes ?g1 = Ok (u3, g3)" "g2 = g3\<lparr>gcstate := GCSfinalize\<rparr>"
        by (auto simp: modify_def elim!: sbind_OkE)
      from stepsD [OF live_checkSizes 3(1), of "{}"] k1 w 3(2) show ?thesis by (simp add: keeps_live_def)
    next
      case False
      with 2 have "g2 = ?g1" by simp
      then show ?thesis by simp
    qed
    with k1 g' show ?thesis by (simp add: live_cong [of g' g2])
  qed
  then show "currentwhite g' = currentwhite g" "live g p \<Longrightarrow> live g' p" by simp_all
qed

inductive sweep_step :: "caller \<Rightarrow> ptr \<Rightarrow> global_State \<Rightarrow> global_State \<Rightarrow> bool" for call L where
  "gcstate g = GCSsweepstring \<or> gcstate g = GCSsweep \<Longrightarrow> singlestep call L g = Ok (c, g') \<Longrightarrow> sweep_step call L g g'"

lemma sweep_steps_live:
  assumes "(sweep_step call L)\<^sup>*\<^sup>* g g'" and "white_ok (currentwhite g)"
  shows "currentwhite g' = currentwhite g \<and> (live g p \<longrightarrow> live g' p)"
  using assms
proof (induction rule: rtranclp_induct)
  case (step g1 g2)
  then have g1: "currentwhite g1 = currentwhite g" "live g p \<longrightarrow> live g1 p" "white_ok (currentwhite g1)" by simp_all
  from step(2) show ?case
  proof cases
    case (1 c)
    from sweep_step_live [OF 1(1) g1(3) 1(2)] g1 show ?thesis by auto
  qed
qed simp

section \<open>What is freed\<close>

definition alive :: "global_State \<Rightarrow> ptr \<Rightarrow> bool" where
  "alive g p \<longleftrightarrow> (\<exists>x. heap g p = Some x \<and> survives (otherwhite (currentwhite g)) (marked x))"

text \<open>The heap after the sweep of a bucket: dead strings are gone, the others have the current white.\<close>

definition swept :: "global_State \<Rightarrow> ptr list \<Rightarrow> ptr \<Rightarrow> GCObject option" where
  "swept g ps p =
     (if p \<notin> set ps then heap g p
      else if alive g p then map_option (\<lambda>x. x\<lparr>marked := makewhite (currentwhite g) (marked x)\<rparr>) (heap g p)
      else None)"

lemma sweep_strings_returns:
  "distinct ps \<Longrightarrow> \<forall>p \<in> set ps. \<exists>x ts. heap g p = Some x \<and> body x = OString ts \<Longrightarrow>
    \<exists>g'. sweep_chain ps g = Ok (filter (alive g) ps, g') \<and> heap g' = swept g ps
      \<and> strt_nuse g' = strt_nuse g - of_nat (length (filter (\<lambda>p. \<not> alive g p) ps))"
proof (induction ps arbitrary: g)
  case Nil
  then show ?case by (simp add: sret_def swept_def fun_eq_iff)
next
  case (Cons p ps)
  then obtain x ts where x: "heap g p = Some x" "body x = OString ts" by auto
  let ?x = "x\<lparr>marked := makewhite (currentwhite g) (marked x)\<rparr>"
  define g1 where "g1 = (if alive g p then put g p ?x
    else g\<lparr>strt_nuse := strt_nuse g - 1, heap := (heap g)(p := None), totalbytes := totalbytes g - sizestring ts\<rparr>)"
  have cw: "currentwhite g1 = currentwhite g" by (simp add: g1_def)
  have other: "heap g1 q = heap g q" if "q \<noteq> p" for q using that by (simp add: g1_def)
  then have al: "alive g1 q = alive g q" if "q \<noteq> p" for q using that cw by (simp add: alive_def)
  have np: "p \<notin> set ps" using Cons.prems(1) by simp
  have "\<forall>q \<in> set ps. \<exists>x ts. heap g1 q = Some x \<and> body x = OString ts" using Cons.prems other np by (metis distinct.simps(2) list.set_intros(2))
  with Cons.IH [of g1] Cons.prems(1) obtain g' where
    r: "sweep_chain ps g1 = Ok (filter (alive g1) ps, g')" "heap g' = swept g1 ps"
    "strt_nuse g' = strt_nuse g1 - of_nat (length (filter (\<lambda>p. \<not> alive g1 p) ps))" by auto
  have eq: "filter (alive g1) ps = filter (alive g) ps" "filter (\<lambda>p. \<not> alive g1 p) ps = filter (\<lambda>p. \<not> alive g p) ps"
  proof -
    have "\<forall>q \<in> set ps. alive g1 q = alive g q" using al np by metis
    then show "filter (alive g1) ps = filter (alive g) ps" "filter (\<lambda>p. \<not> alive g1 p) ps = filter (\<lambda>p. \<not> alive g p) ps"
      by (simp_all cong: filter_cong)
  qed
  have a: "alive g p = survives (otherwhite (currentwhite g)) (marked x)" using x by (simp add: alive_def)
  have f: "freeobj p g = Ok ((), g1)" if "\<not> alive g p"
    using that x(2) unfolding freeobj_def bind_get_obj [OF x(1)]
    by (simp add: sbind_def modify_def release_def luaM_freemem_def g1_def)
  have "sweep_chain (p # ps) g = Ok (filter (alive g) (p # ps), g')"
  proof (cases "alive g p")
    case True
    with r(1) a show ?thesis
      unfolding sweep_chain.simps bind_marked_of [OF x(1)] eq
      by (simp add: bind_upd_mark [OF x(1)] g1_def sbind_Ok [where m = "sweep_chain ps"] sret_def)
  next
    case False
    with r(1) a show ?thesis
      unfolding sweep_chain.simps bind_marked_of [OF x(1)] eq
      by (simp add: sbind_Ok [where m = "freeobj p", OF f])
  qed
  moreover have "heap g' = swept g (p # ps)"
    using np al other x unfolding r(2) swept_def cw
    by (auto simp: fun_eq_iff g1_def)
  moreover have "strt_nuse g' = strt_nuse g - of_nat (length (filter (\<lambda>p. \<not> alive g p) (p # ps)))"
    unfolding r(3) eq by (simp add: g1_def put_def algebra_simps)
  ultimately show ?case by blast
qed

end
