(* ===== verification/LuaGCProps.thy ===== *)
theory LuaGCProps
  imports LuaSweepSafe
begin

text \<open>The properties of the collector, and a small heap they are applied to.\<close>

section \<open>A heap\<close>

definition tiny_table :: "TValue list \<Rightarrow> Table" where
  "tiny_table vs = \<lparr>flags = 0, lsizenode = 0, metatable = None, array = vs, node = [empty_node], isdummy = True, lastfree = 0\<rparr>"

definition tiny_thread :: lua_State where
  "tiny_thread =
     \<lparr>L_status = 0, L_top = 1, L_base = 1, L_ci = 0, L_savedpc = 0, L_stack_last = 2, L_stack = [VTable 4, VNil, VNil],
      L_base_ci = [blank_ci\<lparr>ci_top := 2\<rparr>], L_nCcalls = 0, L_hookmask = 0, L_allowhook = 1, L_basehookcount = 0,
      L_hookcount = 0, L_hook = 0, L_gt = VTable 2, L_env = VNil, L_openupval = [], L_errfunc = 0\<rparr>"

text \<open>The main thread, its globals, a string, a table on the stack, and a table nothing refers to.\<close>

definition tiny_heap :: "ptr \<Rightarrow> GCObject option" where
  "tiny_heap = [1 \<mapsto> \<lparr>marked = 1, body = OThread tiny_thread\<rparr>, 2 \<mapsto> \<lparr>marked = 1, body = OTable (tiny_table [])\<rparr>,
     3 \<mapsto> \<lparr>marked = 1, body = OString \<lparr>reserved = 0, hash = 0, bytes = ''x''\<rparr>\<rparr>,
     4 \<mapsto> \<lparr>marked = 1, body = OTable (tiny_table [VString 3])\<rparr>, 5 \<mapsto> \<lparr>marked = 1, body = OTable (tiny_table [])\<rparr>]"

definition tiny :: global_State where
  "tiny =
     \<lparr>heap = tiny_heap, strt = [[3]], strt_nuse = 1, currentwhite = 33, gcstate = GCSpause, sweepstrgc = 0, rootgc = [5, 4, 2, 1],
      sweepgc = Head, gray = [], grayagain = [], weak = [], tmudata = [], g_buffsize = 0, GCthreshold = 0, totalbytes = 0,
      estimate = 0, gcdept = 0, gcpause = 200, gcstepmul = 200, l_registry = VTable 2, mainthread = 1, uvhead = [],
      g_mt = replicate 9 None, tmname = replicate 17 3\<rparr>"

lemma tiny_bodies: "bodies tiny p = Some b \<longleftrightarrow>
    p = 1 \<and> b = OThread tiny_thread \<or> p = 2 \<and> b = OTable (tiny_table []) \<or> p = 3 \<and> b = OString \<lparr>reserved = 0, hash = 0, bytes = ''x''\<rparr>
    \<or> p = 4 \<and> b = OTable (tiny_table [VString 3]) \<or> p = 5 \<and> b = OTable (tiny_table [])"
  by (auto simp: bodies_def tiny_def tiny_heap_def)

lemma tiny_shapes: "table_shape (tiny_table [])" "table_shape (tiny_table [VString 3])" "thread_shape tiny_thread"
proof -
  have "nedges [empty_node] = {}" by (auto simp: nedges_def empty_node_def intro!: gr0I)
  then have "links_ok [empty_node]" by (simp add: links_ok_def)
  then show "table_shape (tiny_table [])" "table_shape (tiny_table [VString 3])"
    by (simp_all add: table_shape_def tiny_table_def node_ok_def, simp_all add: empty_node_def)
  show "thread_shape tiny_thread" by (auto simp: thread_shape_def tiny_thread_def stack_limit_def blank_ci_def)
qed

lemma tiny_objects: "is_obj (bodies tiny) k p \<longleftrightarrow> k = 8 \<and> p = 1 \<or> k = 5 \<and> (p = 2 \<or> p = 4 \<or> p = 5) \<or> k = 4 \<and> p = 3"
  by (auto simp: is_obj_def tiny_bodies)

lemma tiny_refs:
  "refs B (OTable (tiny_table [])) = {}" "refs B (OTable (tiny_table [VString 3])) = {(4, 3)}"
  "refs B (OThread tiny_thread) = {(5, 2), (5, 4)}"
  by (auto simp: tiny_table_def tiny_thread_def empty_node_def node_refs_def oref_def vref_def iscollectable_def)

lemma tiny_wf: "wf_store (bodies tiny)"
  unfolding wf_store_def
proof (intro allI impI conjI)
  fix p b
  assume b: "bodies tiny p = Some b"
  then show "shape (bodies tiny) b" using tiny_shapes by (auto simp: tiny_bodies)
  show "\<forall>(k, q) \<in> refs (bodies tiny) b. is_obj (bodies tiny) k q"
    using b unfolding tiny_bodies by (elim disjE) (simp_all add: tiny_refs tiny_objects del: refs.simps, simp)
qed

lemma tiny_fresh: "fresh tiny"
proof -
  have "globals_ok tiny"
    unfolding globals_ok_def good_value_def tiny_objects
    by (simp add: tiny_def before_after_def oref_def vref_def iscollectable_def)
  moreover have "open_ok tiny" by (auto simp: open_ok_def tiny_def tiny_heap_def split: if_splits)
  moreover have "\<forall>p x. heap tiny p = Some x \<longrightarrow> iswhite (marked x) \<and> \<not> isblack (marked x)"
    by (auto simp: tiny_def tiny_heap_def iswhite_def isblack_def bit_1_iff split: if_splits)
  ultimately show ?thesis using tiny_wf by (simp add: fresh_def)
qed

section \<open>The collector makes progress\<close>

text \<open>Without the program, the marks run out of gray objects.\<close>

lemma mark_step_fun: "mark_step call L g g1 \<Longrightarrow> mark_step call L g g2 \<Longrightarrow> g1 = g2"
  by (auto elim!: mark_step.cases)

lemma mark_step_join:
  assumes "(mark_step call L)\<^sup>*\<^sup>* g g1" and "(mark_step call L)\<^sup>*\<^sup>* g g2" and "gray g1 = []"
  shows "(mark_step call L)\<^sup>*\<^sup>* g2 g1"
  using assms(2,1)
proof (induction rule: rtranclp_induct)
  case (step g2 g3)
  from step.IH [OF step.prems] show ?case
  proof (cases rule: converse_rtranclpE)
    case base
    with step.hyps(2) assms(3) show ?thesis by (auto elim: mark_step.cases)
  next
    case (step g4)
    with \<open>mark_step call L g2 g3\<close> show ?thesis by (metis mark_step_fun)
  qed
qed

lemma mark_progress:
  "phase_inv g \<Longrightarrow> \<exists>k g'. k \<le> pot g \<and> (mark_step call L ^^ k) g g' \<and> gray g' = [] \<and> grows g g'"
proof (induction "pot g" arbitrary: g rule: less_induct)
  case less
  show ?case
  proof (cases "gray g")
    case (Cons p rest)
    have m: "mark_inv g" and s: "gcstate g = GCSpropagate" using less.prems by (simp_all add: phase_inv_def)
    have "inv (pending g) g" using m by (simp add: mark_inv_def)
    from propagatemark_marks [OF this Cons] obtain c g1 where c: "propagatemark g = Ok (c, g1)" "grows g g1"
      by (auto elim: marksE)
    from c(1) have "singlestep call L g = Ok (c, g1)" using s Cons by (simp add: singlestep_def)
    then have st: "mark_step call L g g1" by (rule mark_step.alone [rotated]) (simp add: Cons)
    note le = propagatemark_less [OF c(1)]
    from less.hyps [OF le step_phase [OF mark_step_gc [OF st] less.prems]] obtain k g2 where
      k: "k \<le> pot g1" "(mark_step call L ^^ k) g1 g2" "gray g2 = []" "grows g1 g2" by blast
    have "(mark_step call L ^^ Suc k) g g2" by (rule relpowp_Suc_I2 [OF st k(2)])
    moreover have "Suc k \<le> pot g" using k(1) le by simp
    ultimately show ?thesis using k(3) grows_trans [OF c(2) k(4)] by blast
  next
    case Nil
    have "(mark_step call L ^^ 0) g g" by simp
    with Nil grows_refl show ?thesis by blast
  qed
qed

lemma phase_progress:
  "phase_inv g \<Longrightarrow> \<exists>g'. (gc_step call L)\<^sup>*\<^sup>* g g' \<and> gray g' = [] \<and> grows g g'"
  using mark_progress [of g call L] by (metis mark_steps_gc relpowp_imp_rtranclp)

lemma phase_start:
  assumes "fresh g" and "gcstate g = GCSpause" and "white_ok (currentwhite g)"
  obtains g0 where "singlestep call L g = Ok (0, g0)" and "phase_inv g0" and "bodies g0 = bodies g" and "mainthread g0 = mainthread g"
proof -
  from markroot_marks [OF assms(1)] obtain g0 where g0: "markroot g = Ok ((), g0)" "mark_inv g0" "gcstate g0 = GCSpropagate"
    "currentwhite g0 = currentwhite g" "bodies g0 = bodies g" "mainthread g0 = mainthread g" by blast
  then have "singlestep call L g = Ok (0, g0)" using assms(2) by (simp add: singlestep_def sbind_def sret_def)
  with g0 assms(3) that show thesis by (simp add: phase_inv_def)
qed

lemma tiny_run:
  obtains g0 g1 where "singlestep call 1 tiny = Ok (0, g0)" and "(gc_step call 1)\<^sup>*\<^sup>* g0 g1" and "gray g1 = []"
    and "is_obj (bodies g1) 8 1" and "phase_inv g0" and "bodies g0 = bodies tiny"
proof -
  have t: "gcstate tiny = GCSpause" "white_ok (currentwhite tiny)" by (simp_all add: tiny_def white_ok_def bit_numeral_rec)
  from phase_start [OF tiny_fresh t, of call 1] obtain g0 where
    0: "singlestep call 1 tiny = Ok (0, g0)" "phase_inv g0" "bodies g0 = bodies tiny" by blast
  from phase_progress [OF 0(2), of call 1] obtain g1 where
    1: "(gc_step call 1)\<^sup>*\<^sup>* g0 g1" "gray g1 = []" "grows g0 g1" by blast
  have "is_obj (bodies g1) 8 1" by (rule grows_kind [OF 1(3)]) (simp add: 0(3) tiny_objects)
  with 0 1 that show thesis by blast
qed

section \<open>Properties\<close>

text \<open>
  C5: whatever the program writes between the steps of the mark phase, if it calls the barriers,
  what it can reach when the phase ends is neither dead nor freed by the sweep. New threads and the opening
  and closing of upvalues are not among the steps (\<open>gc_step\<close>).
\<close>

theorem gc_safe:
  assumes "fresh g" and "gcstate g = GCSpause" and "white_ok (currentwhite g)"
    and "singlestep call L g = Ok (c, g0)" and "(gc_step call L)\<^sup>*\<^sup>* g0 g1" and "gray g1 = []" and "is_obj (bodies g1) 8 L"
  shows "\<exists>g2. singlestep call L g1 = Ok (0, g2) \<and> gcstate g2 = GCSsweepstring \<and> Collect (reachable L g2) \<subseteq> Collect (live g2)"
proof -
  from phase_start [OF assms(1-3), of call L] assms(4) have "phase_inv g0" by force
  then have "phase_inv g1" by (rule steps_phase [OF assms(5)])
  from phase_end [OF this assms(6,7), of call] show ?thesis by (metis mem_Collect_eq subsetI)
qed

theorem gc_safe_witness:
  "\<exists>g0 g1 g2. singlestep (\<lambda>_ _ _. undef) 1 tiny = Ok (0, g0) \<and> (gc_step (\<lambda>_ _ _. undef) 1)\<^sup>*\<^sup>* g0 g1
     \<and> singlestep (\<lambda>_ _ _. undef) 1 g1 = Ok (0, g2) \<and> Collect (reachable 1 g2) \<subseteq> Collect (live g2)"
proof -
  have t: "gcstate tiny = GCSpause" "white_ok (currentwhite tiny)" by (simp_all add: tiny_def white_ok_def bit_numeral_rec)
  from tiny_run [of "\<lambda>_ _ _. undef"] obtain g0 g1 where
    r: "singlestep (\<lambda>_ _ _. undef) 1 tiny = Ok (0, g0)" "(gc_step (\<lambda>_ _ _. undef) 1)\<^sup>*\<^sup>* g0 g1" "gray g1 = []"
    "is_obj (bodies g1) 8 1" by metis
  from gc_safe [OF tiny_fresh t r] r(1,2) show ?thesis by blast
qed

text \<open>
  C6: the tri-colour invariant of the mark phase is kept by the steps of the collector, by writes
  and new entries of tables with their barriers, by writes to stacks and by new objects that are no
  threads and no open upvalues.
\<close>

theorem phase_invariant: "gc_step call L g g' \<Longrightarrow> phase_inv g \<Longrightarrow> phase_inv g'"
  by (rule step_phase)

theorem phase_invariant_witness:
  "\<exists>g0 g1. singlestep (\<lambda>_ _ _. undef) 1 tiny = Ok (0, g0) \<and> gc_step (\<lambda>_ _ _. undef) 1 g0 g1 \<and> phase_inv g1"
proof -
  from tiny_run [of "\<lambda>_ _ _. undef"] obtain g0 g1 where
    r: "singlestep (\<lambda>_ _ _. undef) 1 tiny = Ok (0, g0)" "phase_inv g0" "bodies g0 = bodies tiny" by metis
  let ?b = "OTable (tiny_table [VString 3])"
  have "bodies g0 6 = None" using r(3) by (simp add: bodies_def tiny_def tiny_heap_def)
  then have n: "heap g0 6 = None" by (simp add: bodies_def)
  obtain g1 where l: "luaC_link 6 ?b g0 = Ok ((), g1)" by (simp add: luaC_link_def set_obj_def)
  have "gc_step (\<lambda>_ _ _. undef) 1 g0 g1"
    by (rule gc_step.create [OF n _ _ _ _ l]) (simp_all add: tiny_shapes tiny_refs r(3) tiny_objects del: refs.simps)
  from this phase_invariant [OF this r(2)] r(1) show ?thesis by blast
qed

text \<open>
  C7: the mark phase ends: from the start of a cycle the steps of the collector alone, at most as many
  as twice the white objects and the gray ones together, lead to a state without gray objects, still in
  the mark phase with its invariant; no step fails, and whatever steps of the collector are
  made first, the same end is reached.
\<close>

theorem phase_ends:
  assumes "fresh g" and "gcstate g = GCSpause" and "white_ok (currentwhite g)"
  shows "\<exists>g0 g1 k. singlestep call L g = Ok (0, g0) \<and> k \<le> pot g0 \<and> (mark_step call L ^^ k) g0 g1 \<and> gray g1 = []
    \<and> phase_inv g1 \<and> (\<forall>g2. (mark_step call L)\<^sup>*\<^sup>* g0 g2 \<longrightarrow> (mark_step call L)\<^sup>*\<^sup>* g2 g1)"
proof -
  from phase_start [OF assms, of call L] obtain g0 where g0: "singlestep call L g = Ok (0, g0)" "phase_inv g0" by blast
  from mark_progress [OF g0(2), of call L] obtain k g1 where
    k: "k \<le> pot g0" "(mark_step call L ^^ k) g0 g1" "gray g1 = []" by blast
  note run = relpowp_imp_rtranclp [OF k(2)]
  have "phase_inv g1" by (rule steps_phase [OF mark_steps_gc [OF run] g0(2)])
  moreover have "\<forall>g2. (mark_step call L)\<^sup>*\<^sup>* g0 g2 \<longrightarrow> (mark_step call L)\<^sup>*\<^sup>* g2 g1" using mark_step_join [OF run _ k(3)] by blast
  ultimately show ?thesis using g0(1) k by blast
qed

theorem phase_ends_witness:
  "\<exists>g0 g1 k. singlestep (\<lambda>_ _ _. undef) 1 tiny = Ok (0, g0) \<and> k \<le> pot g0 \<and> (mark_step (\<lambda>_ _ _. undef) 1 ^^ k) g0 g1
     \<and> gray g1 = [] \<and> phase_inv g1"
proof -
  have t: "gcstate tiny = GCSpause" "white_ok (currentwhite tiny)" by (simp_all add: tiny_def white_ok_def bit_numeral_rec)
  show ?thesis using phase_ends [OF tiny_fresh t, of "\<lambda>_ _ _. undef" 1] by blast
qed

text \<open>
  C8: through the whole sweep, of the string table and of the list of all objects, what was alive
  when it began stays alive: with C1, what the program could reach.
\<close>

theorem sweep_safe:
  assumes "white_ok (currentwhite g)" and "(sweep_step call L)\<^sup>*\<^sup>* g g'"
  shows "Collect (live g) \<subseteq> Collect (live g')"
  using sweep_steps_live [OF assms(2,1)] by blast

lemma tiny_sweep:
  obtains g' where "sweep_step call L (tiny\<lparr>gcstate := GCSsweepstring\<rparr>) g'"
proof -
  let ?g = "tiny\<lparr>gcstate := GCSsweepstring\<rparr>"
  have "distinct [3 :: ptr]" "\<forall>p \<in> set [3 :: ptr]. \<exists>x ts. heap ?g p = Some x \<and> body x = OString ts"
    by (auto simp: tiny_def tiny_heap_def)
  from sweep_strings_returns [OF this] obtain g1 where "sweep_chain [3] ?g = Ok (filter (alive ?g) [3], g1)" by blast
  moreover have "strt ?g ! sweepstrgc ?g = [3]" "sweepstrgc ?g < length (strt ?g)" "gcstate ?g = GCSsweepstring"
    by (simp_all add: tiny_def)
  ultimately obtain c g' where r: "singlestep call L ?g = Ok (c, g')"
    by (simp add: singlestep_def sbind_def modify_def sret_def Let_def)
  show thesis by (rule that, rule sweep_step.intros [OF _ r]) (simp add: tiny_def)
qed

theorem sweep_safe_witness:
  "\<exists>g'. sweep_step (\<lambda>_ _ _. undef) 1 (tiny\<lparr>gcstate := GCSsweepstring\<rparr>) g'
     \<and> Collect (live (tiny\<lparr>gcstate := GCSsweepstring\<rparr>)) \<subseteq> Collect (live g')"
proof -
  let ?g = "tiny\<lparr>gcstate := GCSsweepstring\<rparr>"
  obtain g' where s: "sweep_step (\<lambda>_ _ _. undef) 1 ?g g'" by (rule tiny_sweep)
  have "white_ok (currentwhite ?g)" by (simp add: tiny_def white_ok_def bit_numeral_rec)
  from s sweep_safe [OF this r_into_rtranclp [of "sweep_step (\<lambda>_ _ _. undef) 1", OF s]] show ?thesis by blast
qed

text \<open>
  C9: the sweep of a bucket of the string table frees exactly its dead strings, counts them off,
  makes the others white for the next cycle and touches nothing else in the heap.
\<close>

theorem sweep_strings:
  assumes "distinct ps" and "\<forall>p \<in> set ps. \<exists>x ts. heap g p = Some x \<and> body x = OString ts"
  shows "\<exists>g'. sweep_chain ps g = Ok (filter (alive g) ps, g') \<and> heap g' = swept g ps
      \<and> strt_nuse g' = strt_nuse g - of_nat (length (filter (\<lambda>p. \<not> alive g p) ps))"
  by (rule sweep_strings_returns [OF assms])

theorem sweep_strings_witness:
  "\<exists>g'. sweep_chain [3] (tiny\<lparr>currentwhite := 34\<rparr>) = Ok ([], g') \<and> heap g' 3 = None \<and> strt_nuse g' = 0"
proof -
  let ?g = "tiny\<lparr>currentwhite := 34\<rparr>"
  have h: "heap ?g 3 = Some \<lparr>marked = 1, body = OString \<lparr>reserved = 0, hash = 0, bytes = ''x''\<rparr>\<rparr>"
    by (simp add: tiny_def tiny_heap_def)
  have d: "\<not> alive ?g 3" using h by (simp add: alive_def survives_def otherwhite_def)
  from h have "\<forall>p \<in> set [3 :: ptr]. \<exists>x ts. heap ?g p = Some x \<and> body x = OString ts" by auto
  from sweep_strings [OF _ this] d show ?thesis by (auto simp: swept_def tiny_def)
qed

end
