(* ===== verification/LuaVMSpec.thy ===== *)
theory LuaVMSpec
  imports LuaExecute LuaGCProps
begin

text \<open>
  Lemmas on the steps of the machine: what they read and write in the thread that runs.
\<close>

section \<open>The thread that runs\<close>

text \<open>\<open>thr g L\<close> is the thread at \<open>L\<close>, when there is one; \<open>set_thr\<close> puts another state there.\<close>

definition is_thr :: "global_State \<Rightarrow> ptr \<Rightarrow> bool" where
  "is_thr g L \<longleftrightarrow> (\<exists>x t. heap g L = Some x \<and> body x = OThread t)"

definition thr :: "global_State \<Rightarrow> ptr \<Rightarrow> lua_State" where
  "thr g L = (case body (the (heap g L)) of OThread t \<Rightarrow> t | _ \<Rightarrow> tiny_thread)"

definition set_thr :: "global_State \<Rightarrow> ptr \<Rightarrow> lua_State \<Rightarrow> global_State" where
  "set_thr g L t = put g L ((the (heap g L))\<lparr>body := OThread t\<rparr>)"

lemma is_thrE:
  assumes "is_thr g L"
  obtains x where "heap g L = Some x" and "body x = OThread (thr g L)"
  using assms by (auto simp: is_thr_def thr_def)

lemma is_thrI: "heap g L = Some x \<Longrightarrow> body x = OThread t \<Longrightarrow> is_thr g L"
  by (auto simp: is_thr_def)

lemma thr_eqI: "heap g L = Some x \<Longrightarrow> body x = OThread t \<Longrightarrow> thr g L = t"
  by (simp add: thr_def)

lemma is_thr_set [simp]: "is_thr (set_thr g L t) q \<longleftrightarrow> q = L \<or> is_thr g q"
  by (auto simp: is_thr_def set_thr_def)

lemma thr_set [simp]: "thr (set_thr g L t) q = (if q = L then t else thr g q)"
  by (auto simp: thr_def set_thr_def)

lemma set_thr_set_thr [simp]: "set_thr (set_thr g L t) L u = set_thr g L u"
  by (simp add: set_thr_def put_def)

lemma set_thr_same [simp]:
  assumes "is_thr g L"
  shows "set_thr g L (thr g L) = g"
proof -
  from is_thrE [OF assms] obtain x where "heap g L = Some x" "body x = OThread (thr g L)" .
  then show ?thesis by (simp add: set_thr_def put_def fun_upd_idem)
qed

lemma heap_set_thr: "q \<noteq> L \<Longrightarrow> heap (set_thr g L t) q = heap g q"
  by (simp add: set_thr_def)

lemma set_thr_Ok: "is_thr g L \<Longrightarrow> set_body L (OThread t) g = Ok ((), set_thr g L t)"
  by (auto simp: is_thr_def set_thr_def set_body_Ok)

lemma thread_Return [simp]: "is_thr g L \<Longrightarrow> thread L g = Return (thr g L) g"
  by (auto simp: thread_def lift0_def gco2th_Ok elim: is_thrE)

lemma bnd_thread [simp]: "is_thr g L \<Longrightarrow> bnd (thread L) f g = f (thr g L) g"
  by (simp add: bnd_def)

lemma upd_thread_Return [simp]: "is_thr g L \<Longrightarrow> upd_thread L f g = Return () (set_thr g L (f (thr g L)))"
  by (simp add: upd_thread_def lift0_def set_thr_Ok)

lemma bnd_upd_thread [simp]: "is_thr g L \<Longrightarrow> bnd (upd_thread L f) k g = k () (set_thr g L (f (thr g L)))"
  by (simp add: bnd_def)

lemma sget_Return [simp]:
  "is_thr g L \<Longrightarrow> sget L i g = (if i < length (L_stack (thr g L)) then Return (L_stack (thr g L) ! i) g else Wild)"
  by (simp add: sget_def ret_def wild_def)

lemma bnd_sget [simp]:
  "is_thr g L \<Longrightarrow> i < length (L_stack (thr g L)) \<Longrightarrow> bnd (sget L i) f g = f (L_stack (thr g L) ! i) g"
  by (simp add: bnd_def)

lemma sset_Return [simp]:
  "is_thr g L \<Longrightarrow> i < length (L_stack (thr g L)) \<Longrightarrow>
     sset L i v g = Return () (set_thr g L ((thr g L)\<lparr>L_stack := (L_stack (thr g L))[i := v]\<rparr>))"
  by (simp add: sset_def)

lemma bnd_sset [simp]:
  "is_thr g L \<Longrightarrow> i < length (L_stack (thr g L)) \<Longrightarrow>
     bnd (sset L i v) f g = f () (set_thr g L ((thr g L)\<lparr>L_stack := (L_stack (thr g L))[i := v]\<rparr>))"
  by (simp add: bnd_def)

lemma set_top_Return [simp]:
  "is_thr g L \<Longrightarrow> set_top L n g = Return () (set_thr g L ((thr g L)\<lparr>L_top := n\<rparr>))"
  by (simp add: set_top_def)

lemma bnd_set_top [simp]:
  "is_thr g L \<Longrightarrow> bnd (set_top L n) f g = f () (set_thr g L ((thr g L)\<lparr>L_top := n\<rparr>))"
  by (simp add: bnd_def)

lemma bnd_get_top [simp]: "is_thr g L \<Longrightarrow> bnd (get_top L) f g = f (L_top (thr g L)) g"
  by (simp add: get_top_def bnd_def ret_def)

lemma bnd_get_ci [simp]:
  "is_thr g L \<Longrightarrow> i < length (L_base_ci (thr g L)) \<Longrightarrow> bnd (get_ci L i) f g = f (L_base_ci (thr g L) ! i) g"
  by (simp add: get_ci_def bnd_def ret_def)

lemma bnd_cur_ci [simp]:
  "is_thr g L \<Longrightarrow> L_ci (thr g L) < length (L_base_ci (thr g L)) \<Longrightarrow>
     bnd (cur_ci L) f g = f (L_base_ci (thr g L) ! L_ci (thr g L)) g"
  by (simp add: cur_ci_def get_ci_def bnd_def ret_def)

lemma upd_ci_Return [simp]:
  "is_thr g L \<Longrightarrow> i < length (L_base_ci (thr g L)) \<Longrightarrow>
     upd_ci L i f g = Return () (set_thr g L ((thr g L)\<lparr>L_base_ci := (L_base_ci (thr g L))[i := f (L_base_ci (thr g L) ! i)]\<rparr>))"
  by (simp add: upd_ci_def)

lemma bnd_upd_ci [simp]:
  "is_thr g L \<Longrightarrow> i < length (L_base_ci (thr g L)) \<Longrightarrow>
     bnd (upd_ci L i f) k g = k () (set_thr g L ((thr g L)\<lparr>L_base_ci := (L_base_ci (thr g L))[i := f (L_base_ci (thr g L) ! i)]\<rparr>))"
  by (simp add: bnd_def)

text \<open>Steps are read from the left.\<close>

lemma bnd_assoc: "bnd (bnd m f) h = bnd m (\<lambda>x. bnd (f x) h)"
  by (auto simp: bnd_def fun_eq_iff split: outcome.splits)

lemma bnd_ret_state [simp]: "bnd (ret x) f g = f x g"
  by simp

lemma bnd_if: "bnd (if b then m else n) f = (if b then bnd m f else bnd n f)"
  by simp

lemma ret_same [simp]: "ret x g = Return x g"
  by (simp add: ret_def)

declare ret_Return [simp del]

section \<open>Runs over the stack\<close>

text \<open>The list \<open>vs\<close> is written from \<open>i\<close> on.\<close>

definition blit :: "nat \<Rightarrow> 'a list \<Rightarrow> 'a list \<Rightarrow> 'a list" where
  "blit i vs xs = take i xs @ vs @ drop (i + length vs) xs"

lemma length_blit [simp]: "i + length vs \<le> length xs \<Longrightarrow> length (blit i vs xs) = length xs"
  by (simp add: blit_def)

lemma blit_Nil [simp]: "blit i [] xs = xs"
  by (simp add: blit_def)

lemma nth_blit:
  "j < length xs \<Longrightarrow> i + length vs \<le> length xs \<Longrightarrow>
     blit i vs xs ! j = (if i \<le> j \<and> j < i + length vs then vs ! (j - i) else xs ! j)"
  by (auto simp: blit_def nth_append min_def)

lemma blit_Cons:
  assumes "i < length xs"
  shows "blit (Suc i) vs (xs[i := v]) = blit i (v # vs) xs"
  using assms by (simp add: blit_def take_Suc_conv_app_nth drop_update_cancel)

lemma blit_blit:
  assumes "i + length vs \<le> length xs"
  shows "blit (i + length vs) ws (blit i vs xs) = blit i (vs @ ws) xs"
proof -
  have "length (take i xs @ vs) = i + length vs" using assms by simp
  then show ?thesis by (simp add: blit_def add.assoc add.commute add.left_commute)
qed

definition slice :: "nat \<Rightarrow> nat \<Rightarrow> 'a list \<Rightarrow> 'a list" where
  "slice i n xs = take n (drop i xs)"

lemma length_slice [simp]: "i + n \<le> length xs \<Longrightarrow> length (slice i n xs) = n"
  by (simp add: slice_def)

lemma slice_Suc: "i < length xs \<Longrightarrow> slice i (Suc n) xs = xs ! i # slice (Suc i) n xs"
  by (simp add: slice_def Cons_nth_drop_Suc [symmetric])

lemma slice_update: "j < i \<Longrightarrow> slice i n (xs[j := v]) = slice i n xs"
  by (simp add: slice_def)

text \<open>Values move down, or to their own place.\<close>

lemma move_results_Return:
  "is_thr g L \<Longrightarrow> res \<le> first \<Longrightarrow> first + n \<le> length (L_stack (thr g L)) \<Longrightarrow>
     move_results L res first n g =
       Return () (set_thr g L ((thr g L)\<lparr>L_stack := blit res (slice first n (L_stack (thr g L))) (L_stack (thr g L))\<rparr>))"
proof (induction n arbitrary: res first g)
  case 0
  then show ?case by (simp add: slice_def)
next
  case (Suc n)
  let ?xs = "L_stack (thr g L)"
  have b: "res < length ?xs" "first < length ?xs" using Suc.prems by simp_all
  have s: "slice (Suc first) n (?xs[res := ?xs ! first]) = slice (Suc first) n ?xs"
    using Suc.prems by (simp add: slice_update)
  show ?case
    using Suc b by (simp add: s blit_Cons slice_Suc)
qed

lemma fill_nil_Return:
  "is_thr g L \<Longrightarrow> i + n \<le> length (L_stack (thr g L)) \<Longrightarrow>
     fill_nil L i n g = Return () (set_thr g L ((thr g L)\<lparr>L_stack := blit i (replicate n VNil) (L_stack (thr g L))\<rparr>))"
proof (induction n arbitrary: i g)
  case (Suc n)
  then show ?case by (simp add: blit_Cons)
qed simp

lemmas bnd_move_results = bnd_Return [OF move_results_Return]
lemmas bnd_fill_nil = bnd_Return [OF fill_nil_Return]

section \<open>Leaving a function\<close>

text \<open>The results as the caller wants them: cut off, or filled up with nil; all of them if \<open>wanted\<close> is negative.\<close>

definition adjusted :: "int \<Rightarrow> TValue list \<Rightarrow> TValue list" where
  "adjusted wanted vs = (if wanted < 0 then vs else take (nat wanted) vs @ replicate (nat wanted - length vs) VNil)"

lemma poscall_Return:
  assumes t: "is_thr g L" "t = thr g L" "\<not> bit (L_hookmask t) 1" "L_ci t = Suc i" "Suc i < length (L_base_ci t)"
    and ci: "ci = L_base_ci t ! Suc i" "prev = L_base_ci t ! i" "ci_func ci \<le> first" "- 1 \<le> ci_nresults ci"
    and st: "first \<le> L_top t" "L_top t \<le> length (L_stack t)" "ci_func ci + nat (ci_nresults ci) \<le> length (L_stack t)"
    and vs: "vs = adjusted (ci_nresults ci) (slice first (L_top t - first) (L_stack t))"
  shows "luaD_poscall E L first g = Return (ci_nresults ci + 1)
    (set_thr g L (t\<lparr>L_ci := i, L_base := ci_base prev, L_savedpc := ci_savedpc prev,
       L_stack := blit (ci_func ci) vs (L_stack t), L_top := ci_func ci + length vs\<rparr>))"
proof -
  define wanted where "wanted = ci_nresults ci"
  define avail where "avail = L_top t - first"
  define n where "n = (if wanted < 0 then avail else min (nat wanted) avail)"
  have n: "n \<le> avail" by (simp add: n_def)
  then have fn: "first + n \<le> length (L_stack t)" using st by (simp add: avail_def)
  have len: "length (slice first n (L_stack t)) = n" using fn by simp
  have sl: "take (nat wanted) (slice first avail (L_stack t)) = slice first n (L_stack t)" if "0 \<le> wanted"
    using that by (simp add: slice_def n_def)
  have vs': "vs = slice first n (L_stack t) @ replicate (nat wanted - n) VNil"
  proof (cases "wanted < 0")
    case True
    then show ?thesis using vs by (simp add: adjusted_def n_def wanted_def avail_def)
  next
    case False
    then have "length (slice first avail (L_stack t)) = avail" using st by (simp add: avail_def)
    moreover have "nat wanted - n = nat wanted - avail" by (simp add: n_def min_def)
    ultimately show ?thesis using vs False sl by (simp add: adjusted_def wanted_def [symmetric] avail_def [symmetric])
  qed
  have room: "ci_func ci + n + (nat wanted - n) \<le> length (L_stack t)"
    using fn ci(3) st(3) by (auto simp: wanted_def)
  have bl: "blit (ci_func ci + n) (replicate (nat wanted - n) VNil) (blit (ci_func ci) (slice first n (L_stack t)) (L_stack t))
      = blit (ci_func ci) vs (L_stack t)"
    using blit_blit [of "ci_func ci" "slice first n (L_stack t)" "L_stack t"] fn ci(3) by (simp add: vs' len)
  have lb: "length (blit (ci_func ci) (slice first n (L_stack t)) (L_stack t)) = length (L_stack t)"
    using fn ci(3) by simp
  have c: "L_base_ci (thr g L) ! Suc i = ci" "L_base_ci (thr g L) ! i = prev" "ci_nresults ci = wanted"
    using ci(1,2) t(2) by (simp_all add: wanted_def)
  have a: "(if wanted < 0 then L_top (thr g L) - first
      else min (nat (ci_nresults (L_base_ci (thr g L) ! Suc i))) (L_top (thr g L) - first)) = n"
    using t(2) by (cases "wanted < 0") (simp_all add: avail_def n_def c)
  show ?thesis
    using t ci(3) fn room unfolding luaD_poscall_def Let_def
    by (simp add: c a bnd_move_results bnd_fill_nil lb bl [unfolded t(2) vs'] len vs' add.assoc split del: if_split)
qed

end
