(* ===== verification/LuaCheckSpec.thy ===== *)
theory LuaCheckSpec
  imports LuaCheck
begin

text \<open>
  What accepted code guarantees to the machine that runs it: the instructions it can reach, the
  registers, constants and upvalues they name, and where control goes next.
\<close>

lemmas modes = getOpMode_simps getBMode_iff getCMode_iff testTMode_iff testAMode_iff

section \<open>What an instruction names\<close>

text \<open>The registers an RK operand names, and the constants.\<close>

definition rk_reg :: "int \<Rightarrow> int list" where
  "rk_reg x = (if ISK x then [] else [x])"

definition rk_const :: "int \<Rightarrow> int list" where
  "rk_const x = (if ISK x then [INDEXK x] else [])"

text \<open>The registers the machine reads or writes, by the table of \<^verbatim>\<open>lopcodes.h\<close>.\<close>

definition registers :: "OpCode \<Rightarrow> int \<Rightarrow> int \<Rightarrow> int \<Rightarrow> int list" where
  "registers op a b c =
     (case op of
        OP_MOVE \<Rightarrow> [a, b] | OP_LOADNIL \<Rightarrow> b # [a..b] | OP_GETTABLE \<Rightarrow> [a, b] @ rk_reg c
      | OP_SETTABLE \<Rightarrow> [a] @ rk_reg b @ rk_reg c | OP_SELF \<Rightarrow> [a, a + 1, b] @ rk_reg c
      | OP_BNOT \<Rightarrow> [a, b] | OP_UNM \<Rightarrow> [a, b] | OP_NOT \<Rightarrow> [a, b] | OP_LEN \<Rightarrow> [a, b]
      | OP_CONCAT \<Rightarrow> a # [b..c] | OP_JMP \<Rightarrow> [] | OP_CLOSE \<Rightarrow> []
      | OP_EQ \<Rightarrow> rk_reg b @ rk_reg c | OP_LT \<Rightarrow> rk_reg b @ rk_reg c | OP_LE \<Rightarrow> rk_reg b @ rk_reg c
      | OP_TEST \<Rightarrow> [a] | OP_TESTSET \<Rightarrow> [a, b]
      | OP_CALL \<Rightarrow> a # [a..a + b - 1] @ [a..a + c - 2] | OP_TAILCALL \<Rightarrow> a # [a..a + b - 1]
      | OP_RETURN \<Rightarrow> [a..a + b - 2] | OP_FORLOOP \<Rightarrow> [a..a + 3] | OP_FORPREP \<Rightarrow> [a..a + 3]
      | OP_TFORLOOP \<Rightarrow> [a..a + 2 + c] | OP_SETLIST \<Rightarrow> a # [a..a + b] | OP_VARARG \<Rightarrow> [a..a + b - 2]
      | OP_LOADK \<Rightarrow> [a] | OP_LOADBOOL \<Rightarrow> [a] | OP_GETUPVAL \<Rightarrow> [a] | OP_GETGLOBAL \<Rightarrow> [a]
      | OP_SETGLOBAL \<Rightarrow> [a] | OP_SETUPVAL \<Rightarrow> [a] | OP_NEWTABLE \<Rightarrow> [a] | OP_CLOSURE \<Rightarrow> [a]
      | _ \<Rightarrow> a # rk_reg b @ rk_reg c)"

definition constants :: "OpCode \<Rightarrow> int \<Rightarrow> int \<Rightarrow> int list" where
  "constants op b c =
     (case op of
        OP_LOADK \<Rightarrow> [b] | OP_GETGLOBAL \<Rightarrow> [b] | OP_SETGLOBAL \<Rightarrow> [b]
      | OP_GETTABLE \<Rightarrow> rk_const c | OP_SELF \<Rightarrow> rk_const c
      | _ \<Rightarrow> if op \<in> {OP_SETTABLE, OP_EQ, OP_LT, OP_LE, OP_ADD, OP_SUB, OP_MUL, OP_DIV, OP_MOD, OP_POW,
                     OP_BOR, OP_BAND, OP_BXOR, OP_BLSHFT, OP_BRSHFT}
            then rk_const b @ rk_const c else [])"

text \<open>The second operand, by the format of the instruction.\<close>

definition arg_b :: "OpCode \<Rightarrow> Instruction \<Rightarrow> int" where
  "arg_b op i = (case getOpMode op of iABC \<Rightarrow> GETARG_B i | iABx \<Rightarrow> GETARG_Bx i | iAsBx \<Rightarrow> GETARG_sBx i)"

definition arg_c :: "OpCode \<Rightarrow> Instruction \<Rightarrow> int" where
  "arg_c op i = (case getOpMode op of iABC \<Rightarrow> GETARG_C i | _ \<Rightarrow> 0)"

definition instr_at :: "Proto \<Rightarrow> int \<Rightarrow> Instruction" where
  "instr_at pt pc = proto_code pt ! nat pc"

text \<open>The instruction at \<open>pc\<close> has an opcode and names only what the function has.\<close>

definition operands_ok :: "Proto \<Rightarrow> int \<Rightarrow> bool" where
  "operands_ok pt pc \<longleftrightarrow>
     (\<exists>op. op_of (GET_OPCODE (instr_at pt pc)) = Some op \<and>
       (let i = instr_at pt pc; a = GETARG_A i; b = arg_b op i; c = arg_c op i
        in (\<forall>r \<in> set (registers op a b c). 0 \<le> r \<and> r < uint (maxstacksize pt))
         \<and> (\<forall>k \<in> set (constants op b c). 0 \<le> k \<and> k < sizek pt)
         \<and> (op \<in> {OP_GETUPVAL, OP_SETUPVAL} \<longrightarrow> b < uint (nups pt))
         \<and> (op \<in> {OP_GETGLOBAL, OP_SETGLOBAL} \<longrightarrow> is_string (proto_k pt ! nat b))
         \<and> (op = OP_CLOSURE \<longrightarrow> b < int (length (proto_p pt)))))"

section \<open>Where control goes\<close>

definition op_at :: "Proto \<Rightarrow> int \<Rightarrow> OpCode option" where
  "op_at pt pc = op_of (GET_OPCODE (instr_at pt pc))"

text \<open>A list with more items than its instruction can count: the next word is the count.\<close>

definition is_long :: "Proto \<Rightarrow> int \<Rightarrow> bool" where
  "is_long pt pc \<longleftrightarrow> op_at pt pc = Some OP_SETLIST \<and> GETARG_C (instr_at pt pc) = 0"

definition closure_ups :: "Proto \<Rightarrow> int \<Rightarrow> int" where
  "closure_ups pt pc = uint (nups (proto_p pt ! nat (GETARG_Bx (instr_at pt pc))))"

text \<open>The positions the machine may execute after \<open>pc\<close> (\<^verbatim>\<open>lvm.c\<close>).\<close>

definition succs :: "Proto \<Rightarrow> int \<Rightarrow> int list" where
  "succs pt pc =
     (let i = instr_at pt pc; jump = pc + 1 + GETARG_sBx i
      in case op_at pt pc of
        None \<Rightarrow> []
      | Some OP_RETURN \<Rightarrow> []
      | Some OP_JMP \<Rightarrow> [jump]
      | Some OP_FORPREP \<Rightarrow> [jump]
      | Some OP_FORLOOP \<Rightarrow> [jump, pc + 1]
      | Some OP_LOADBOOL \<Rightarrow> [if GETARG_C i \<noteq> 0 then pc + 2 else pc + 1]
      | Some OP_SETLIST \<Rightarrow> [if GETARG_C i = 0 then pc + 2 else pc + 1]
      | Some OP_CLOSURE \<Rightarrow> [pc + 1 + closure_ups pt pc]
      | Some op \<Rightarrow> if testTMode op then [pc + 2, pc + 2 + GETARG_sBx (instr_at pt (pc + 1))] else [pc + 1])"

inductive reachable :: "Proto \<Rightarrow> int \<Rightarrow> bool" for pt where
  reach_start: "reachable pt 0"
| reach_step: "reachable pt pc \<Longrightarrow> q \<in> set (succs pt pc) \<Longrightarrow> reachable pt q"

text \<open>The positions the checker looks at: all but the count words.\<close>

definition next_pos :: "Proto \<Rightarrow> int \<Rightarrow> int" where
  "next_pos pt pc = (if is_long pt pc then pc + 2 else pc + 1)"

inductive scanned :: "Proto \<Rightarrow> int \<Rightarrow> bool" for pt where
  scan_start: "scanned pt 0"
| scan_step: "scanned pt pc \<Longrightarrow> pc < sizecode pt \<Longrightarrow> scanned pt (next_pos pt pc)"

text \<open>
  The two shapes of code that the checker accepts although control leaves the scanned
  positions: a count word that is the last instruction, and a skip over a list instruction to its
  count word.
\<close>

definition no_gap :: "Proto \<Rightarrow> bool" where
  "no_gap pt \<longleftrightarrow> (\<forall>pc. 0 \<le> pc \<longrightarrow> pc < sizecode pt \<longrightarrow>
     (is_long pt pc \<longrightarrow> pc + 2 < sizecode pt)
   \<and> (op_at pt pc = Some OP_LOADBOOL \<longrightarrow> GETARG_C (instr_at pt pc) \<noteq> 0 \<longrightarrow> \<not> is_long pt (pc + 1)))"

section \<open>One instruction\<close>

lemma INDEXK_nonneg: "0 \<le> x \<Longrightarrow> 0 \<le> INDEXK x"
  by (simp add: INDEXK_def)

lemma rk_ok:
  assumes "checkArgMode pt x OpArgK" and "0 \<le> x"
  shows "\<forall>r \<in> set (rk_reg x). 0 \<le> r \<and> r < uint (maxstacksize pt)"
    and "\<forall>k \<in> set (rk_const x). 0 \<le> k \<and> k < sizek pt"
proof -
  show "\<forall>r \<in> set (rk_reg x). 0 \<le> r \<and> r < uint (maxstacksize pt)"
    using assms by (simp add: checkArgMode_def rk_reg_def)
  show "\<forall>k \<in> set (rk_const x). 0 \<le> k \<and> k < sizek pt"
    using assms INDEXK_nonneg [OF assms(2)] by (cases "ISK x") (auto simp: checkArgMode_def rk_const_def)
qed

lemma arg_reg: "checkArgMode pt x OpArgR \<longleftrightarrow> checkreg pt x"
  by (simp add: checkArgMode_def)

text \<open>The registers that the \<open>switch\<close> checks.\<close>

lemma switch_regs:
  assumes sw: "symb_switch pt lastpc reg pc op a b c l = Ok (Some r)"
    and op: "op \<in> {OP_CALL, OP_TAILCALL, OP_RETURN, OP_FORLOOP, OP_FORPREP, OP_TFORLOOP, OP_SETLIST, OP_VARARG}"
    and a: "a < uint (maxstacksize pt)" "0 \<le> a" and c: "0 \<le> c"
  shows "\<forall>r \<in> set (registers op a b c). 0 \<le> r \<and> r < uint (maxstacksize pt)"
proof -
  let ?max = "uint (maxstacksize pt)"
  note s = symb_switch_def guard_Ok_Some Let_def checkreg_def
  have 1: "(b \<noteq> 0 \<longrightarrow> a + b - 1 < ?max)" if "op = OP_CALL \<or> op = OP_TAILCALL"
    using sw that by (auto simp: s)
  have 2: "c \<noteq> 0 \<longrightarrow> c \<noteq> 1 \<longrightarrow> a + c - 2 < ?max" if "op = OP_CALL"
    using sw that by (simp add: s split: if_splits)
  have 3: "b > 1 \<longrightarrow> a + b - 2 < ?max" if "op = OP_RETURN" using sw that by (simp add: s)
  have 4: "a + 3 < ?max" if "op = OP_FORLOOP \<or> op = OP_FORPREP" using sw that by (auto simp: s)
  have 5: "a + 2 + c < ?max" if "op = OP_TFORLOOP" using sw that by (simp add: s)
  have 6: "b > 0 \<longrightarrow> a + b < ?max" if "op = OP_SETLIST" using sw that by (simp add: s)
  have 7: "a + b - 2 < ?max" if "op = OP_VARARG" using sw that by (simp add: s)
  consider "op = OP_CALL" | "op = OP_TAILCALL" | "op = OP_RETURN" | "op = OP_FORLOOP" | "op = OP_FORPREP"
    | "op = OP_TFORLOOP" | "op = OP_SETLIST" | "op = OP_VARARG" using op by blast
  then show ?thesis
  proof cases
    case c1: 1
    with 1 2 a c show ?thesis by (auto simp: registers_def)
  next
    case 2
    with 1 a show ?thesis by (auto simp: registers_def)
  next
    case c3: 3
    with 3 a show ?thesis by (auto simp: registers_def)
  next
    case c4: 4
    with 4 a show ?thesis by (auto simp: registers_def)
  next
    case c5: 5
    with 4 a show ?thesis by (auto simp: registers_def)
  next
    case c6: 6
    with 5 a show ?thesis by (auto simp: registers_def)
  next
    case c7: 7
    with 6 a show ?thesis by (auto simp: registers_def)
  next
    case 8
    with 7 a show ?thesis by (auto simp: registers_def)
  qed
qed

text \<open>The checks on one instruction cover what it names.\<close>

lemma step_operands:
  assumes "0 \<le> pc" and "symb_step pt lastpc reg pc l = Ok (Some r)"
  shows "operands_ok pt pc"
proof -
  let ?i = "instr_at pt pc"
  from assms(2) obtain i op b c l' where
    f: "fetch (proto_code pt) pc = Ok i" and op: "op_of (GET_OPCODE i) = Some op"
    and a: "checkreg pt (GETARG_A i)" and bc: "symb_operands pt pc i op = Ok (Some (b, c))"
    and sw: "symb_switch pt lastpc reg pc op (GETARG_A i) b c l' = Ok (Some r)"
    unfolding symb_step_switch by blast
  have i: "i = ?i" using f by (auto simp: fetch_def instr_at_def split: if_splits)
  let ?a = "GETARG_A ?i"
  have abc: "b = arg_b op ?i" "c = arg_c op ?i"
    using bc unfolding i symb_operands_def arg_b_def arg_c_def
    by (auto split: OpMode.splits if_splits elim!: rbind_OkE simp: Let_def)
  have nn: "0 \<le> ?a" "0 \<le> c" "op \<notin> {OP_JMP, OP_FORLOOP, OP_FORPREP} \<Longrightarrow> 0 \<le> b"
    unfolding abc arg_b_def arg_c_def by (auto simp: field_bounds modes split: OpMode.splits)
  have B: "checkArgMode pt b (getBMode op) \<and> checkArgMode pt c (getCMode op)" if "getOpMode op = iABC"
    using bc that by (auto simp: symb_operands_def Let_def split: if_splits)
  have K: "b < sizek pt" if "op \<in> {OP_LOADK, OP_GETGLOBAL, OP_SETGLOBAL}"
    using bc that by (auto simp: symb_operands_def Let_def modes split: if_splits)
  let ?max = "uint (maxstacksize pt)"
  have b_reg: "b < ?max" if "op \<in> {OP_MOVE, OP_LOADNIL, OP_GETTABLE, OP_SELF, OP_BNOT, OP_UNM, OP_NOT,
      OP_LEN, OP_CONCAT, OP_TEST, OP_TESTSET}"
    using B that by (auto simp: modes checkArgMode_def checkreg_def)
  have c_reg: "c < ?max" if "op = OP_CONCAT"
    using B that by (auto simp: modes checkArgMode_def checkreg_def)
  have b_rk: "checkArgMode pt b OpArgK \<and> 0 \<le> b"
    if "op \<in> {OP_SETTABLE, OP_EQ, OP_LT, OP_LE, OP_ADD, OP_SUB, OP_MUL, OP_DIV, OP_MOD, OP_POW, OP_BOR,
      OP_BAND, OP_BXOR, OP_BLSHFT, OP_BRSHFT}"
    using B nn that by (auto simp: modes)
  have c_rk: "checkArgMode pt c OpArgK"
    if "op \<in> {OP_GETTABLE, OP_SELF, OP_SETTABLE, OP_EQ, OP_LT, OP_LE, OP_ADD, OP_SUB, OP_MUL, OP_DIV, OP_MOD,
      OP_POW, OP_BOR, OP_BAND, OP_BXOR, OP_BLSHFT, OP_BRSHFT}"
    using B that by (auto simp: modes)
  note rk = rk_ok(1) [of pt b] rk_ok(1) [of pt c]
  have wide: "\<forall>r \<in> set (registers op ?a b c). 0 \<le> r \<and> r < ?max"
    if "op \<in> {OP_CALL, OP_TAILCALL, OP_RETURN, OP_FORLOOP, OP_FORPREP, OP_TFORLOOP, OP_SETLIST, OP_VARARG}"
    by (rule switch_regs [OF sw [unfolded i] that _ nn(1)]) (use a i nn(2) in \<open>simp_all add: checkreg_def\<close>)
  have self: "?a + 1 < ?max" if "op = OP_SELF"
    using sw that unfolding i by (simp add: symb_switch_def guard_Ok_Some checkreg_def)
  have regs: "\<forall>r \<in> set (registers op ?a b c). 0 \<le> r \<and> r < ?max"
  proof (cases "op \<in> {OP_CALL, OP_TAILCALL, OP_RETURN, OP_FORLOOP, OP_FORPREP, OP_TFORLOOP, OP_SETLIST, OP_VARARG}")
    case True
    then show ?thesis by (rule wide)
  next
    case False
    have a': "?a < ?max" using a i by (simp add: checkreg_def)
    consider (one) "op \<in> {OP_LOADK, OP_LOADBOOL, OP_GETUPVAL, OP_GETGLOBAL, OP_SETGLOBAL, OP_SETUPVAL, OP_NEWTABLE, OP_CLOSURE, OP_TEST}"
      | (none) "op \<in> {OP_JMP, OP_CLOSE}"
      | (two) "op \<in> {OP_MOVE, OP_BNOT, OP_UNM, OP_NOT, OP_LEN, OP_TESTSET}"
      | (arith) "op \<in> {OP_ADD, OP_SUB, OP_MUL, OP_DIV, OP_MOD, OP_POW, OP_BOR, OP_BAND, OP_BXOR, OP_BLSHFT, OP_BRSHFT}"
      | (test) "op \<in> {OP_EQ, OP_LT, OP_LE}" | (lnil) "op = OP_LOADNIL" | (gett) "op = OP_GETTABLE"
      | (sett) "op = OP_SETTABLE" | (slf) "op = OP_SELF" | (conc) "op = OP_CONCAT"
      using False by (cases op) simp_all
    then show ?thesis
    proof cases
      case one
      then have "registers op ?a b c = [?a]" by (auto simp: registers_def)
      with a' nn(1) show ?thesis by simp
    next
      case none
      then show ?thesis by (auto simp: registers_def)
    next
      case two
      then have "registers op ?a b c = [?a, b]" by (auto simp: registers_def)
      moreover have "b < ?max" "0 \<le> b" using b_reg nn(3) two by auto
      ultimately show ?thesis using a' nn(1) by simp
    next
      case arith
      then have "registers op ?a b c = ?a # rk_reg b @ rk_reg c" by (auto simp: registers_def)
      moreover have "checkArgMode pt b OpArgK" "0 \<le> b" "checkArgMode pt c OpArgK" using b_rk c_rk arith by auto
      ultimately show ?thesis using a' nn(1,2) rk by (simp add: ball_Un)
    next
      case test
      then have "registers op ?a b c = rk_reg b @ rk_reg c" by (auto simp: registers_def)
      moreover have "checkArgMode pt b OpArgK" "0 \<le> b" "checkArgMode pt c OpArgK" using b_rk c_rk test by auto
      ultimately show ?thesis using nn(2) rk by (simp add: ball_Un)
    next
      case lnil
      then have "registers op ?a b c = b # [?a..b]" "b < ?max" "0 \<le> b" using b_reg nn(3) by (auto simp: registers_def)
      then show ?thesis using nn(1) by simp
    next
      case gett
      then have "registers op ?a b c = [?a, b] @ rk_reg c" by (simp add: registers_def)
      moreover have "b < ?max" "0 \<le> b" "checkArgMode pt c OpArgK" using b_reg nn(3) c_rk gett by auto
      ultimately show ?thesis using a' nn(1,2) rk by (simp add: ball_Un)
    next
      case sett
      then have "registers op ?a b c = [?a] @ rk_reg b @ rk_reg c" by (simp add: registers_def)
      moreover have "checkArgMode pt b OpArgK" "0 \<le> b" "checkArgMode pt c OpArgK" using b_rk c_rk sett by auto
      ultimately show ?thesis using a' nn(1,2) rk by (simp add: ball_Un)
    next
      case slf
      then have "registers op ?a b c = [?a, ?a + 1, b] @ rk_reg c" by (simp add: registers_def)
      moreover have "b < ?max" "0 \<le> b" "checkArgMode pt c OpArgK" using b_reg nn(3) c_rk slf by auto
      moreover have "0 \<le> ?a + 1" using nn(1) by simp
      moreover have "\<forall>r \<in> set (rk_reg c). 0 \<le> r \<and> r < ?max"
        by (rule rk_ok(1) [OF c_rk nn(2)]) (use slf in simp)
      ultimately show ?thesis using a' nn(1,2) self [OF slf]
        by (simp only: append_Cons append_Nil list.set ball_simps simp_thms)
    next
      case conc
      then have "registers op ?a b c = ?a # [b..c]" "c < ?max" "0 \<le> b" using c_reg nn(3) by (auto simp: registers_def)
      then show ?thesis using a' nn(1) by simp
    qed
  qed
  have rkc: "\<forall>k \<in> set (rk_const b). 0 \<le> k \<and> k < sizek pt"
    if "op \<in> {OP_SETTABLE, OP_EQ, OP_LT, OP_LE, OP_ADD, OP_SUB, OP_MUL, OP_DIV, OP_MOD, OP_POW, OP_BOR,
      OP_BAND, OP_BXOR, OP_BLSHFT, OP_BRSHFT}"
    using rk_ok(2) [of pt b] b_rk [OF that] by simp
  have ckc: "\<forall>k \<in> set (rk_const c). 0 \<le> k \<and> k < sizek pt"
    if "op \<in> {OP_GETTABLE, OP_SELF, OP_SETTABLE, OP_EQ, OP_LT, OP_LE, OP_ADD, OP_SUB, OP_MUL, OP_DIV, OP_MOD,
      OP_POW, OP_BOR, OP_BAND, OP_BXOR, OP_BLSHFT, OP_BRSHFT}"
    using rk_ok(2) [OF c_rk [OF that]] nn(2) by simp
  have kons: "\<forall>k \<in> set (constants op b c). 0 \<le> k \<and> k < sizek pt"
  proof (cases "op \<in> {OP_LOADK, OP_GETGLOBAL, OP_SETGLOBAL}")
    case True
    then have "constants op b c = [b]" by (auto simp: constants_def)
    with True K nn(3) show ?thesis by auto
  next
    case False
    consider (c) "op \<in> {OP_GETTABLE, OP_SELF}"
      | (bc) "op \<in> {OP_SETTABLE, OP_EQ, OP_LT, OP_LE, OP_ADD, OP_SUB, OP_MUL, OP_DIV, OP_MOD, OP_POW,
                     OP_BOR, OP_BAND, OP_BXOR, OP_BLSHFT, OP_BRSHFT}"
      | (no) "constants op b c = []"
      using False by (cases op) (simp_all add: constants_def)
    then show ?thesis
    proof cases
      case c
      then have "constants op b c = rk_const c" by (auto simp: constants_def)
      with c ckc show ?thesis by auto
    next
      case bc
      then have "constants op b c = rk_const b @ rk_const c" by (auto simp: constants_def)
      moreover have "\<forall>k \<in> set (rk_const c). 0 \<le> k \<and> k < sizek pt" by (rule ckc) (use bc in blast)
      ultimately show ?thesis using rkc [OF bc] by auto
    qed simp
  qed
  have ups: "op \<in> {OP_GETUPVAL, OP_SETUPVAL} \<longrightarrow> b < uint (nups pt)"
    using sw by (auto simp: symb_switch_def guard_Ok_Some)
  have str: "is_string (proto_k pt ! nat b)" if "check_kstring pt b = Ok True"
    using that by (auto simp: check_kstring_def fetch_def split: if_splits konstant.splits)
  have glob: "op \<in> {OP_GETGLOBAL, OP_SETGLOBAL} \<longrightarrow> is_string (proto_k pt ! nat b)"
    by (intro impI str) (use sw in \<open>auto simp: symb_switch_def guard_Ok_Some\<close>)
  have clos: "op = OP_CLOSURE \<longrightarrow> b < int (length (proto_p pt))"
    using sw by (auto simp: symb_switch_def guard_Ok_Some)
  have op': "op_of (GET_OPCODE ?i) = Some op" using op i by simp
  show ?thesis unfolding operands_ok_def Let_def
    by (intro exI [of _ op] conjI, rule op', unfold abc [symmetric]) (rule regs kons ups glob clos)+
qed

end
