(* ===== verification/LuaCheckFlow.thy ===== *)
theory LuaCheckFlow
  imports LuaCheckSpec
begin

text \<open>Control stays on the positions the checker has looked at.\<close>

section \<open>Scanning\<close>

lemma op_at_eq: "0 \<le> pc \<Longrightarrow> fetch (proto_code pt) pc = Ok i \<Longrightarrow> i = instr_at pt pc \<and> pc < sizecode pt"
  by (auto simp: fetch_def instr_at_def split: if_splits)

lemma op_at_num: "op_at pt pc = Some op \<longleftrightarrow> GET_OPCODE (instr_at pt pc) = op_num op"
  by (simp add: op_at_def op_of_Some)

lemma step_cases:
  assumes "0 \<le> pc" and "symb_step pt lastpc reg pc l = Ok (Some r)"
  obtains op l' where "op_at pt pc = Some op" and "pc < sizecode pt"
    and "symb_operands pt pc (instr_at pt pc) op = Ok (Some (arg_b op (instr_at pt pc), arg_c op (instr_at pt pc)))"
    and "symb_test pt pc op = Ok True"
    and "symb_switch pt lastpc reg pc op (GETARG_A (instr_at pt pc)) (arg_b op (instr_at pt pc))
          (arg_c op (instr_at pt pc)) l' = Ok (Some r)"
proof -
  from assms(2) obtain i op b c l' where
    f: "fetch (proto_code pt) pc = Ok i" and op: "op_of (GET_OPCODE i) = Some op"
    and bc: "symb_operands pt pc i op = Ok (Some (b, c))" and t: "symb_test pt pc op = Ok True"
    and sw: "symb_switch pt lastpc reg pc op (GETARG_A i) b c l' = Ok (Some r)"
    unfolding symb_step_switch by blast
  have i: "i = instr_at pt pc" "pc < sizecode pt" using op_at_eq [OF assms(1) f] by simp_all
  have "b = arg_b op i" "c = arg_c op i"
    using bc unfolding symb_operands_def arg_b_def arg_c_def
    by (auto split: OpMode.splits if_splits elim!: rbind_OkE simp: Let_def)
  with op bc t sw i show ?thesis using that by (simp add: op_at_def)
qed

lemma switch_next:
  "symb_switch pt lastpc NO_REG pc op a b c l = Ok (Some (pc', l')) \<Longrightarrow>
    pc' = (if op = OP_SETLIST \<and> c = 0 then pc + 1 else pc)"
  by (cases op) (auto simp: symb_switch_def guard_Ok_Some Let_def elim!: rbind_OkE split: if_splits)

lemma step_next:
  assumes "0 \<le> pc" and "symb_step pt lastpc NO_REG pc l = Ok (Some (pc', l'))"
  shows "pc' + 1 = next_pos pt pc"
proof (rule step_cases [OF assms])
  fix op m
  assume op: "op_at pt pc = Some op"
    and sw: "symb_switch pt lastpc NO_REG pc op (GETARG_A (instr_at pt pc)) (arg_b op (instr_at pt pc))
          (arg_c op (instr_at pt pc)) m = Ok (Some (pc', l'))"
  have "op = OP_SETLIST \<Longrightarrow> arg_c op (instr_at pt pc) = GETARG_C (instr_at pt pc)"
    by (simp add: arg_c_def modes)
  with op switch_next [OF sw] show ?thesis by (auto simp: next_pos_def is_long_def)
qed

lemma next_pos_gt: "pc < next_pos pt pc"
  by (simp add: next_pos_def)

text \<open>The loop of the checker runs through the scanned positions.\<close>

lemma scanned_loop:
  assumes "symb_loop pt (sizecode pt) NO_REG 0 l0 = Ok (Some lf)" and "scanned pt q"
  shows "0 \<le> q \<and> (\<exists>l. symb_loop pt (sizecode pt) NO_REG q l = Ok (Some lf))"
  using assms(2)
proof (induction rule: scanned.induct)
  case scan_start
  with assms(1) show ?case by blast
next
  case (scan_step pc)
  then obtain l where pc: "0 \<le> pc" and l: "symb_loop pt (sizecode pt) NO_REG pc l = Ok (Some lf)" by blast
  from l scan_step.hyps(2) obtain pc' l' where
    st: "symb_step pt (sizecode pt) NO_REG pc l = Ok (Some (pc', l'))"
    and go: "symb_loop pt (sizecode pt) NO_REG (pc' + 1) l' = Ok (Some lf)"
    by (subst (asm) symb_loop.simps) (auto elim!: rbind_OkE split: option.splits prod.splits)
  from go step_next [OF pc st] next_pos_gt [of pc pt] pc show ?case by auto
qed

lemma scanned_step:
  assumes "symb_loop pt (sizecode pt) NO_REG 0 l0 = Ok (Some lf)" and "scanned pt q" and "q < sizecode pt"
  shows "0 \<le> q \<and> (\<exists>l r. symb_step pt (sizecode pt) NO_REG q l = Ok (Some r))"
proof -
  from scanned_loop [OF assms(1,2)] obtain l where
    "0 \<le> q" "symb_loop pt (sizecode pt) NO_REG q l = Ok (Some lf)" by blast
  with assms(3) show ?thesis
    by (subst (asm) symb_loop.simps) (auto elim!: rbind_OkE split: option.splits prod.splits, blast)
qed

text \<open>Every position is scanned or holds a count.\<close>

lemma scanned_or_count:
  "int n < sizecode pt \<Longrightarrow> scanned pt (int n) \<or> (0 < n \<and> is_long pt (int n - 1))"
proof -
  have "int n < sizecode pt \<Longrightarrow> scanned pt (int n) \<or> (0 < n \<and> scanned pt (int n - 1) \<and> is_long pt (int n - 1))"
  proof (induction n)
    case 0
    then show ?case using scan_start by simp
  next
    case (Suc n)
    then consider "scanned pt (int n)" | "0 < n" "scanned pt (int n - 1)" "is_long pt (int n - 1)" by auto
    then show ?case
    proof cases
      case 1
      from scan_step [OF this] Suc.prems 1 show ?thesis by (auto simp: next_pos_def add.commute split: if_splits)
    next
      case 2
      from scan_step [OF 2(2)] Suc.prems 2(3) show ?thesis by (simp add: next_pos_def add.commute)
    qed
  qed
  then show "int n < sizecode pt \<Longrightarrow> scanned pt (int n) \<or> (0 < n \<and> is_long pt (int n - 1))" by blast
qed

section \<open>Successors\<close>

text \<open>Code whose loop ends normally and whose last instruction is a return.\<close>

definition accepted :: "Proto \<Rightarrow> bool" where
  "accepted pt \<longleftrightarrow> (\<exists>l0 lf. symb_loop pt (sizecode pt) NO_REG 0 l0 = Ok (Some lf))
     \<and> 0 < sizecode pt \<and> op_at pt (sizecode pt - 1) = Some OP_RETURN"

lemma accepted_step:
  assumes "accepted pt" and "scanned pt q" and "q < sizecode pt"
  obtains l r where "0 \<le> q" and "symb_step pt (sizecode pt) NO_REG q l = Ok (Some r)"
  using assms scanned_step unfolding accepted_def by blast

lemma not_last: "accepted pt \<Longrightarrow> op_at pt q = Some op \<Longrightarrow> op \<noteq> OP_RETURN \<Longrightarrow> q < sizecode pt \<Longrightarrow> q + 1 < sizecode pt"
  unfolding accepted_def by (cases "q = sizecode pt - 1") auto

lemma next_scanned:
  "scanned pt pc \<Longrightarrow> pc < sizecode pt \<Longrightarrow> \<not> is_long pt pc \<Longrightarrow> scanned pt (pc + 1)"
  using scan_step [of pt pc] by (simp add: next_pos_def)

text \<open>A checked jump lands on a scanned position.\<close>

lemma jump_target:
  assumes "symb_operands pt pc (instr_at pt pc) op = Ok (Some bc)" and "op \<in> {OP_JMP, OP_FORLOOP, OP_FORPREP}"
  shows "scanned pt (pc + 1 + GETARG_sBx (instr_at pt pc))
    \<and> 0 \<le> pc + 1 + GETARG_sBx (instr_at pt pc) \<and> pc + 1 + GETARG_sBx (instr_at pt pc) < sizecode pt"
proof -
  let ?d = "pc + 1 + GETARG_sBx (instr_at pt pc)"
  have m: "getOpMode op = iAsBx" "getBMode op = OpArgR" using assms(2) by (auto simp: modes)
  have r: "0 \<le> ?d" "?d < sizecode pt"
    using assms(1) by (auto simp: symb_operands_def m Let_def split: if_splits)
  have "scanned pt ?d"
  proof (cases "?d = 0")
    case True
    then show ?thesis using scan_start by simp
  next
    case False
    have "\<not> is_long pt (?d - 1)"
      using assms(1) r False
      by (auto simp: symb_operands_def m Let_def fetch_def is_long_def op_at_num instr_at_def split: if_splits)
    with scanned_or_count [of "nat ?d" pt] r show ?thesis by simp
  qed
  with r show ?thesis by blast
qed

lemma closure_words:
  "check_closure_loop pt pc n = Ok True \<Longrightarrow> 0 \<le> pc \<Longrightarrow> j < n \<Longrightarrow>
    pc + 1 + int j < sizecode pt
    \<and> (op_at pt (pc + 1 + int j) = Some OP_GETUPVAL \<or> op_at pt (pc + 1 + int j) = Some OP_MOVE)"
proof (induction n arbitrary: pc j)
  case (Suc n)
  from Suc.prems(1) obtain d where d: "fetch (proto_code pt) (pc + 1) = Ok d"
    "GET_OPCODE d = op_num OP_GETUPVAL \<or> GET_OPCODE d = op_num OP_MOVE"
    "check_closure_loop pt (pc + 1) n = Ok True"
    by (auto elim!: rbind_OkE split: if_splits)
  show ?case
  proof (cases j)
    case 0
    with d(1,2) op_at_eq [of "pc + 1" pt d] Suc.prems(2) show ?thesis by (auto simp: op_at_num)
  next
    case (Suc k)
    with Suc.IH [OF d(3), of k] Suc.prems show ?thesis by (simp add: algebra_simps)
  qed
qed simp

lemma closure_next:
  assumes acc: "accepted pt" and sc: "scanned pt pc" and pc: "0 \<le> pc" "pc < sizecode pt"
    and op: "op_at pt pc = Some OP_CLOSURE" and words: "check_closure_loop pt pc n = Ok True"
  shows "scanned pt (pc + 1 + int n) \<and> pc + 1 + int n < sizecode pt"
proof -
  have "j \<le> n \<Longrightarrow> scanned pt (pc + 1 + int j) \<and> pc + 1 + int j < sizecode pt" for j
  proof (induction j)
    case 0
    have "\<not> is_long pt pc" using op by (simp add: is_long_def)
    with next_scanned [OF sc pc(2)] not_last [OF acc op _ pc(2)] show ?case by simp
  next
    case (Suc j)
    let ?q = "pc + 1 + int j"
    have q: "scanned pt ?q" "?q < sizecode pt" using Suc by simp_all
    from closure_words [OF words pc(1), of j] Suc.prems
    obtain o' where o': "op_at pt ?q = Some o'" "o' \<in> {OP_GETUPVAL, OP_MOVE}" by auto
    then have "\<not> is_long pt ?q" by (auto simp: is_long_def)
    with next_scanned [OF q] not_last [OF acc o'(1) _ q(2)] o'(2) show ?case by (auto simp: algebra_simps)
  qed
  then show ?thesis by simp
qed

text \<open>The jump after a test.\<close>

lemma test_next:
  assumes acc: "accepted pt" and sc: "scanned pt pc" and pc: "0 \<le> pc" "pc < sizecode pt"
    and op: "op_at pt pc = Some op" "testTMode op" and t: "symb_test pt pc op = Ok True"
    and q: "q = pc + 2 \<or> q = pc + 2 + GETARG_sBx (instr_at pt (pc + 1))"
  shows "scanned pt q \<and> 0 \<le> q \<and> q < sizecode pt"
proof -
  have len: "pc + 2 < sizecode pt" and jmp: "op_at pt (pc + 1) = Some OP_JMP"
    using t op(2) pc by (auto simp: symb_test_def fetch_def op_at_num instr_at_def split: if_splits)
  have "\<not> is_long pt pc" using op by (auto simp: is_long_def modes)
  from next_scanned [OF sc pc(2) this] have s1: "scanned pt (pc + 1)" .
  have "\<not> is_long pt (pc + 1)" using jmp by (simp add: is_long_def)
  from next_scanned [OF s1 _ this] len have s2: "scanned pt (pc + 2)" by (simp add: add.commute)
  have len1: "pc + 1 < sizecode pt" using len by simp
  obtain l r where st: "0 \<le> pc + 1" "symb_step pt (sizecode pt) NO_REG (pc + 1) l = Ok (Some r)"
    by (rule accepted_step [OF acc s1 len1])
  from step_cases [OF st] jmp obtain bc where
    "symb_operands pt (pc + 1) (instr_at pt (pc + 1)) OP_JMP = Ok (Some bc)" by (metis option.inject)
  from jump_target [OF this]
  have "scanned pt (pc + 1 + 1 + GETARG_sBx (instr_at pt (pc + 1)))
    \<and> 0 \<le> pc + 1 + 1 + GETARG_sBx (instr_at pt (pc + 1)) \<and> pc + 1 + 1 + GETARG_sBx (instr_at pt (pc + 1)) < sizecode pt"
    by blast
  moreover have "pc + 1 + 1 = pc + 2" by simp
  ultimately have "scanned pt (pc + 2 + GETARG_sBx (instr_at pt (pc + 1)))
    \<and> 0 \<le> pc + 2 + GETARG_sBx (instr_at pt (pc + 1)) \<and> pc + 2 + GETARG_sBx (instr_at pt (pc + 1)) < sizecode pt"
    by (simp only:)
  then show ?thesis using q s2 len pc by auto
qed

lemma succs_scanned:
  assumes acc: "accepted pt" and gap: "no_gap pt" and sc: "scanned pt pc" and pc: "pc < sizecode pt"
    and q: "q \<in> set (succs pt pc)"
  shows "scanned pt q \<and> 0 \<le> q \<and> q < sizecode pt"
proof -
  obtain l r where pc0: "0 \<le> pc" and st: "symb_step pt (sizecode pt) NO_REG pc l = Ok (Some r)"
    using accepted_step [OF acc sc pc] .
  from step_cases [OF pc0 st] obtain op l' where op: "op_at pt pc = Some op"
    and bc: "symb_operands pt pc (instr_at pt pc) op = Ok (Some (arg_b op (instr_at pt pc), arg_c op (instr_at pt pc)))"
    and t: "symb_test pt pc op = Ok True"
    and sw: "symb_switch pt (sizecode pt) NO_REG pc op (GETARG_A (instr_at pt pc)) (arg_b op (instr_at pt pc))
          (arg_c op (instr_at pt pc)) l' = Ok (Some r)" by metis
  let ?i = "instr_at pt pc"
  have plain: "scanned pt (pc + 1) \<and> 0 \<le> pc + 1 \<and> pc + 1 < sizecode pt" if "\<not> is_long pt pc" "op \<noteq> OP_RETURN"
    using next_scanned [OF sc pc that(1)] not_last [OF acc op that(2) pc] pc0 by simp
  have gap': "is_long pt pc \<Longrightarrow> pc + 2 < sizecode pt"
    "op = OP_LOADBOOL \<Longrightarrow> GETARG_C ?i \<noteq> 0 \<Longrightarrow> \<not> is_long pt (pc + 1)"
    using gap pc0 pc op unfolding no_gap_def by auto
  consider (ret) "op = OP_RETURN" | (jump) "op \<in> {OP_JMP, OP_FORPREP, OP_FORLOOP}" | (bool) "op = OP_LOADBOOL"
    | (setl) "op = OP_SETLIST" | (clos) "op = OP_CLOSURE" | (test) "testTMode op"
    | (other) "op \<notin> {OP_RETURN, OP_JMP, OP_FORPREP, OP_FORLOOP, OP_LOADBOOL, OP_SETLIST, OP_CLOSURE}" "\<not> testTMode op"
    by auto
  then show ?thesis
  proof cases
    case ret
    with q op show ?thesis by (simp add: succs_def Let_def)
  next
    case jump
    from jump_target [OF bc] jump have j: "scanned pt (pc + 1 + GETARG_sBx ?i)
      \<and> 0 \<le> pc + 1 + GETARG_sBx ?i \<and> pc + 1 + GETARG_sBx ?i < sizecode pt" by blast
    have "\<not> is_long pt pc" "op \<noteq> OP_RETURN" using jump op by (auto simp: is_long_def)
    from plain [OF this] j q op jump show ?thesis by (auto simp: succs_def Let_def)
  next
    case bool
    have c: "arg_c op ?i = GETARG_C ?i" using bool by (simp add: arg_c_def modes)
    have nl: "\<not> is_long pt pc" using bool op by (simp add: is_long_def)
    with plain bool have p1: "scanned pt (pc + 1)" "pc + 1 < sizecode pt" "0 \<le> pc + 1" by auto
    have "scanned pt (pc + 2) \<and> pc + 2 < sizecode pt" if "GETARG_C ?i \<noteq> 0"
      using next_scanned [OF p1(1,2) gap'(2) [OF bool that]] sw that bool c
      by (simp add: symb_switch_def guard_Ok_Some add.commute)
    with p1 pc0 q op bool show ?thesis by (auto simp: succs_def Let_def split: if_splits)
  next
    case setl
    have "is_long pt pc \<longleftrightarrow> GETARG_C ?i = 0" using setl op by (simp add: is_long_def)
    moreover have "is_long pt pc \<Longrightarrow> scanned pt (pc + 2)" using scan_step [OF sc pc] by (simp add: next_pos_def)
    ultimately show ?thesis using q op setl gap'(1) plain pc0 by (auto simp: succs_def Let_def split: if_splits)
  next
    case clos
    have b: "arg_b OP_CLOSURE ?i = GETARG_Bx ?i" by (simp add: arg_b_def modes)
    from sw clos have "check_closure_loop pt pc (unat (nups (proto_p pt ! nat (GETARG_Bx ?i)))) = Ok True"
      by (auto simp: symb_switch_def guard_Ok_Some Let_def b fetch_def elim!: rbind_OkE split: if_splits)
    from closure_next [OF acc sc pc0 pc _ this] op clos q pc0 show ?thesis
      by (simp add: succs_def Let_def closure_ups_def)
  next
    case test
    have "succs pt pc = [pc + 2, pc + 2 + GETARG_sBx (instr_at pt (pc + 1))]"
      using test op by (auto simp: succs_def Let_def modes)
    with q have "q = pc + 2 \<or> q = pc + 2 + GETARG_sBx (instr_at pt (pc + 1))" by simp
    then show ?thesis by (rule test_next [OF acc sc pc0 pc op test t])
  next
    case other
    then have "succs pt pc = [pc + 1]" using op by (cases op) (simp_all add: succs_def Let_def)
    moreover have "\<not> is_long pt pc" using other op by (auto simp: is_long_def)
    ultimately show ?thesis using plain other q by simp
  qed
qed

lemma reachable_scanned:
  assumes "accepted pt" and "no_gap pt" and "reachable pt pc"
  shows "scanned pt pc \<and> 0 \<le> pc \<and> pc < sizecode pt"
  using assms(3)
proof (induction rule: reachable.induct)
  case reach_start
  with assms(1) show ?case by (auto simp: accepted_def intro: scan_start)
next
  case (reach_step pc q)
  with succs_scanned [OF assms(1,2)] show ?case by blast
qed

end
