(* ===== verification/LuaCheckProps.thy ===== *)
theory LuaCheckProps
  imports LuaCheckFlow LuaDebugNames
begin

text \<open>The properties of the code checker and their witnesses.\<close>

section \<open>The checker stays inside the prototype\<close>

lemma safe_guard:
  "yields (\<lambda>_. True) c \<Longrightarrow> (c = Ok True \<Longrightarrow> yields (\<lambda>_. True) r) \<Longrightarrow> yields (\<lambda>_. True) (guard c r)"
  by (cases c) (auto simp: guard_def)

lemma closure_loop_safe: "0 \<le> pc \<Longrightarrow> pc + int n < sizecode pt \<Longrightarrow> yields (\<lambda>_. True) (check_closure_loop pt pc n)"
proof (induction n arbitrary: pc)
  case (Suc n)
  have "fetch (proto_code pt) (pc + 1) = Ok (proto_code pt ! nat (pc + 1))"
    using Suc.prems by (intro fetch_Ok) simp_all
  with Suc.IH [of "pc + 1"] Suc.prems show ?case by (auto simp: algebra_simps)
qed simp

text \<open>An instruction before the last one.\<close>

lemma symb_switch_safe:
  assumes "0 \<le> pc" and "pc + 1 < sizecode pt \<or> op = OP_RETURN" and "0 \<le> b \<or> op \<notin> {OP_GETGLOBAL, OP_SETGLOBAL, OP_CLOSURE}"
    and "op \<in> {OP_GETGLOBAL, OP_SETGLOBAL} \<Longrightarrow> b < sizek pt"
  shows "yields (\<lambda>_. True) (symb_switch pt lastpc reg pc op a b c l)"
proof -
  have o: "yields (\<lambda>_. True) (checkopenop pt pc)" if "op \<noteq> OP_RETURN"
    using assms(1,2) that by (simp add: checkopenop_def fetch_def)
  have k: "yields (\<lambda>_. True) (check_kstring pt b)" if "op \<in> {OP_GETGLOBAL, OP_SETGLOBAL}"
    using assms(3,4) that by (auto simp: check_kstring_def fetch_def)
  have clos: "yields (\<lambda>_. True) (guard (Ok (b < int (length (proto_p pt))))
            (rbind (fetch (proto_p pt) b) (\<lambda>q.
              let nup = unat (nups q)
              in guard (Ok (pc + int nup < sizecode pt))
                (guard (check_closure_loop pt pc nup)
                  (Ok (Some (if reg \<noteq> NO_REG then pc + int nup else pc, l)))))))"
    if "op = OP_CLOSURE"
    using assms(1,3) that closure_loop_safe [OF assms(1)]
    by (auto simp: fetch_def Let_def intro!: safe_guard)
  show ?thesis
    using clos by (cases op) (auto simp: symb_switch_def Let_def intro!: safe_guard o k)
qed

lemma symb_operands_safe: "yields (\<lambda>_. True) (symb_operands pt pc i op)"
  by (auto simp: symb_operands_def Let_def fetch_def split: OpMode.splits)

lemma symb_test_safe: "0 \<le> pc \<Longrightarrow> yields (\<lambda>_. True) (symb_test pt pc op)"
  by (simp add: symb_test_def fetch_def)

text \<open>\<open>last\<close> stays a position of the code.\<close>

definition last_ok :: "Proto \<Rightarrow> int \<Rightarrow> bool" where
  "last_ok pt l \<longleftrightarrow> 0 \<le> l \<and> l < sizecode pt"

lemma symb_switch_last:
  "symb_switch pt lastpc reg pc op a b c l = Ok (Some (pc', l')) \<Longrightarrow> l' = l \<or> l' = pc"
  by (cases op) (auto simp: symb_switch_def guard_Ok_Some Let_def elim!: rbind_OkE split: if_splits)

lemma symb_step_last:
  "symb_step pt lastpc reg pc l = Ok (Some (pc', l')) \<Longrightarrow> last_ok pt l \<Longrightarrow> last_ok pt pc \<Longrightarrow> last_ok pt l'"
  unfolding symb_step_switch by (auto dest!: symb_switch_last split: if_splits)

lemma symb_step_safe:
  assumes pc: "last_ok pt pc" and ret: "op_at pt (sizecode pt - 1) = Some OP_RETURN"
  shows "yields (\<lambda>_. True) (symb_step pt lastpc reg pc l)"
proof -
  let ?i = "instr_at pt pc"
  have f: "fetch (proto_code pt) pc = Ok ?i" using pc by (simp add: fetch_def last_ok_def instr_at_def)
  have pc0: "0 \<le> pc" "pc < sizecode pt" using pc by (simp_all add: last_ok_def)
  have sw: "yields (\<lambda>_. True) (symb_switch pt lastpc reg pc op (GETARG_A ?i) b c l')"
    if op: "op_of (GET_OPCODE ?i) = Some op" and bc: "symb_operands pt pc ?i op = Ok (Some (b, c))" for reg op b c l'
  proof (rule symb_switch_safe [OF pc0(1)])
    show "pc + 1 < sizecode pt \<or> op = OP_RETURN"
      using op ret pc0 by (cases "pc = sizecode pt - 1") (auto simp: op_at_def)
    have "b = arg_b op ?i"
      using bc unfolding symb_operands_def arg_b_def
      by (auto split: OpMode.splits if_splits elim!: rbind_OkE simp: Let_def)
    then show "0 \<le> b \<or> op \<notin> {OP_GETGLOBAL, OP_SETGLOBAL, OP_CLOSURE}"
      by (auto simp: arg_b_def modes field_bounds)
    show "op \<in> {OP_GETGLOBAL, OP_SETGLOBAL} \<Longrightarrow> b < sizek pt"
      using bc by (auto simp: symb_operands_def Let_def modes split: if_splits)
  qed
  show ?thesis
  proof (cases "op_of (GET_OPCODE ?i)")
    case (Some op)
    show ?thesis
    proof (cases "checkreg pt (GETARG_A ?i)")
      case True
      have "yields (\<lambda>_. True) (rbind (symb_operands pt pc ?i op) (\<lambda>bc.
          case bc of
            None \<Rightarrow> Ok None
          | Some (b, c) \<Rightarrow>
              let lastc = (if testAMode op \<and> GETARG_A ?i = reg then pc else l)
              in guard (symb_test pt pc op) (symb_switch pt lastpc reg pc op (GETARG_A ?i) b c lastc)))"
        by (rule yields_bind [OF symb_operands_safe])
           (auto simp: Let_def split: option.splits intro!: safe_guard symb_test_safe pc0 sw [OF Some])
      then show ?thesis
        unfolding symb_step_def f rbind.simps Let_def Some option.case using True by (simp only: simp_thms if_False)
    qed (simp add: symb_step_def f Some)
  qed (simp add: symb_step_def f)
qed

lemma symb_loop_safe:
  "lastpc \<le> sizecode pt \<Longrightarrow> op_at pt (sizecode pt - 1) = Some OP_RETURN \<Longrightarrow> 0 \<le> pc \<Longrightarrow> last_ok pt l \<Longrightarrow>
    yields (\<lambda>r. \<forall>l'. r = Some l' \<longrightarrow> last_ok pt l') (symb_loop pt lastpc reg pc l)"
proof (induction pt lastpc reg pc l rule: symb_loop.induct)
  case (1 pt lastpc reg pc l)
  show ?case
  proof (cases "pc < lastpc")
    case True
    have pc: "last_ok pt pc" using True "1.prems" by (simp add: last_ok_def)
    have "yields (\<lambda>r. \<forall>l'. r = Some l' \<longrightarrow> last_ok pt l') (rbind (symb_step pt lastpc reg pc l) (\<lambda>r.
          case r of
            None \<Rightarrow> Ok None
          | Some (pc', last') \<Rightarrow> symb_loop pt lastpc reg (pc' + 1) last'))"
    proof (rule yields_bind [OF symb_step_safe [OF pc "1.prems"(2)]])
      fix x
      assume x: "symb_step pt lastpc reg pc l = Ok x"
      show "yields (\<lambda>r. \<forall>l'. r = Some l' \<longrightarrow> last_ok pt l') (case x of
            None \<Rightarrow> Ok None
          | Some (pc', last') \<Rightarrow> symb_loop pt lastpc reg (pc' + 1) last')"
      proof (cases x)
        case (Some y)
        obtain pc' l' where y: "y = (pc', l')" by (cases y)
        from x Some y have st: "symb_step pt lastpc reg pc l = Ok (Some (pc', l'))" by simp
        have "yields (\<lambda>r. \<forall>l'. r = Some l' \<longrightarrow> last_ok pt l') (symb_loop pt lastpc reg (pc' + 1) l')"
          by (rule "1.IH" [OF True x Some y [symmetric] "1.prems"(1,2)])
             (use symb_step_mono [OF st] symb_step_last [OF st "1.prems"(4) pc] "1.prems"(3) in simp_all)
        with Some y show ?thesis by simp
      qed simp
    qed
    with True show ?thesis by (simp add: symb_loop.simps [of pt lastpc])
  next
    case False
    with "1.prems" show ?thesis by (simp add: symb_loop.simps [of pt lastpc])
  qed
qed

lemma precheck_safe:
  assumes "0 < sizecode pt"
  shows "yields (\<lambda>ok. ok \<longrightarrow> op_at pt (sizecode pt - 1) = Some OP_RETURN \<and> uint (maxstacksize pt) \<le> MAXSTACK)
    (precheck pt)"
  using assms by (simp add: precheck_def fetch_def op_at_num instr_at_def)

lemma symbexec_safe:
  assumes "0 < sizecode pt" and "lastpc \<le> sizecode pt"
  shows "yields (\<lambda>_. True) (symbexec pt lastpc reg)"
  unfolding symbexec_def
proof (rule yields_bind [OF precheck_safe [OF assms(1)]], goal_cases)
  case (1 ok)
  show ?case
  proof (cases ok)
    case True
    with 1 have ret: "op_at pt (sizecode pt - 1) = Some OP_RETURN" by simp
    have "last_ok pt (sizecode pt - 1)" using assms(1) by (simp add: last_ok_def)
    from symb_loop_safe [OF assms(2) ret _ this, of 0 reg] True show ?thesis
      by (auto elim!: yields_bind split: option.splits simp: fetch_def last_ok_def)
  qed simp
qed

lemma checkcode_returns: "proto_code pt \<noteq> [] \<Longrightarrow> yields (\<lambda>_. True) (luaG_checkcode pt)"
  unfolding luaG_checkcode_def by (rule yields_bind [OF symbexec_safe]) simp_all

text \<open>
  C29: On a function with at least one instruction the checker always returns, and reads no
  instruction, constant or nested function outside the arrays of the prototype. Without any instruction
  it reads before the code (\<open>empty_code_undefined\<close>).
\<close>

theorem checkcode_safe:
  assumes "proto_code pt \<noteq> []"
  shows "\<exists>ok. luaG_checkcode pt = Ok ok"
  using checkcode_returns [OF assms] by (auto simp: yields_def)

section \<open>Accepted code\<close>

lemma checkcode_accepted:
  assumes "luaG_checkcode pt = Ok True" and "proto_code pt \<noteq> []"
  shows "accepted pt"
proof -
  from assms(1) obtain i where i: "symbexec pt (sizecode pt) NO_REG = Ok i" "i \<noteq> 0"
    by (auto simp: luaG_checkcode_def elim!: rbind_OkE)
  then have "precheck pt = Ok True"
    "\<exists>l. symb_loop pt (sizecode pt) NO_REG 0 (sizecode pt - 1) = Ok (Some l)"
    by (auto simp: symbexec_def elim!: rbind_OkE split: if_splits option.splits)
  with precheck_safe [of pt] assms(2) show ?thesis by (auto simp: accepted_def)
qed

text \<open>
  C28: Code the checker accepts, without the two shapes it misses, never runs outside the code of
  its function: every instruction the machine can reach has an opcode, and the registers,
  constants, upvalues and nested functions it names exist.
\<close>

theorem checkcode_sound:
  assumes "luaG_checkcode pt = Ok True" and "proto_code pt \<noteq> []" and "no_gap pt" and "reachable pt pc"
  shows "0 \<le> pc \<and> pc < sizecode pt \<and> operands_ok pt pc"
proof -
  have acc: "accepted pt" by (rule checkcode_accepted [OF assms(1,2)])
  from reachable_scanned [OF acc assms(3,4)] have sc: "scanned pt pc" and pc: "0 \<le> pc" "pc < sizecode pt" by auto
  from accepted_step [OF acc sc pc(2)] obtain l r where
    "symb_step pt (sizecode pt) NO_REG pc l = Ok (Some r)" by blast
  from step_operands [OF pc(1) this] pc show ?thesis by blast
qed

text \<open>A function that stores a constant in a global, and the nested one of the examples.\<close>

definition proto_of :: "konstant list \<Rightarrow> string option list \<Rightarrow> byte \<Rightarrow> Instruction list \<Rightarrow> Proto" where
  "proto_of ks ups n instrs = Proto ks instrs [] [] [] ups None 0 0 n 0 0 3"

definition example_proto :: Proto where
  "example_proto = proto_of [KString ''x'', KNumber 0] [] 0
     [CREATE_ABx OP_LOADK 0 1, CREATE_ABx OP_SETGLOBAL 0 0, CREATE_ABC OP_RETURN 0 1 0]"

theorem checkcode_safe_witness: "\<exists>ok. luaG_checkcode example_proto = Ok ok"
  by (rule checkcode_safe) (simp add: example_proto_def proto_of_def)

lemma example_accepted: "luaG_checkcode example_proto = Ok True"
  by code_simp

lemma example_no_gap: "no_gap example_proto"
proof -
  have "\<forall>k \<in> {0, 1, 2}. (is_long example_proto k \<longrightarrow> k + 2 < sizecode example_proto)
      \<and> (op_at example_proto k = Some OP_LOADBOOL \<longrightarrow> GETARG_C (instr_at example_proto k) \<noteq> 0
        \<longrightarrow> \<not> is_long example_proto (k + 1))"
    by code_simp
  moreover have "sizecode example_proto = 3" by (simp add: example_proto_def proto_of_def)
  then have "pc \<in> {0, 1, 2}" if "0 \<le> pc" "pc < sizecode example_proto" for pc using that by auto
  ultimately show ?thesis unfolding no_gap_def by blast
qed

theorem checkcode_sound_witness: "operands_ok example_proto 2"
proof -
  have "succs example_proto 0 = [1]" "succs example_proto 1 = [2]" by code_simp+
  then have "reachable example_proto 2"
    using reach_start [of example_proto] reach_step [of example_proto] by (metis list.set_intros(1))
  moreover have "proto_code example_proto \<noteq> []" by (simp add: example_proto_def proto_of_def)
  ultimately show ?thesis using checkcode_sound [OF example_accepted _ example_no_gap, of 2] by blast
qed

section \<open>What the checker misses\<close>

text \<open>A list instruction with its count in the next word may be the last one before the return.\<close>

definition gap_count :: Proto where
  "gap_count = proto_of [] [] 0 [CREATE_ABC OP_SETLIST 0 1 0, CREATE_ABC OP_RETURN 0 1 0]"

lemma count_takes_return: "luaG_checkcode gap_count = Ok True \<and> reachable gap_count (sizecode gap_count)"
proof
  show "luaG_checkcode gap_count = Ok True" by code_simp
  have "succs gap_count 0 = [2]" by code_simp
  then have "reachable gap_count 2" using reach_start [of gap_count] reach_step [of gap_count 0 2] by simp
  then show "reachable gap_count (sizecode gap_count)" by (simp add: gap_count_def proto_of_def)
qed

text \<open>A skip may land on a count, which then runs as an instruction.\<close>

definition gap_skip :: Proto where
  "gap_skip = proto_of [] [] 0
     [CREATE_ABC OP_LOADBOOL 0 0 1, CREATE_ABC OP_SETLIST 0 1 0, 0xFFFFFFFF, CREATE_ABC OP_RETURN 0 1 0]"

lemma skip_runs_count: "luaG_checkcode gap_skip = Ok True \<and> reachable gap_skip 2 \<and> op_at gap_skip 2 = None"
proof (intro conjI)
  show "luaG_checkcode gap_skip = Ok True" by code_simp
  show "op_at gap_skip 2 = None" by code_simp
  have "succs gap_skip 0 = [2]" by code_simp
  then show "reachable gap_skip 2" using reach_start [of gap_skip] reach_step [of gap_skip 0 2] by simp
qed

text \<open>A function without instructions makes the checker read before its code.\<close>

lemma empty_code_undefined: "luaG_checkcode (proto_of [] [] 0 []) = Undef"
  by (simp add: luaG_checkcode_def symbexec_def precheck_def proto_of_def fetch_def)

section \<open>Names for error messages\<close>

text \<open>Debug information whose names are all there.\<close>

definition names_ok :: "Proto \<Rightarrow> bool" where
  "names_ok p \<longleftrightarrow> (\<forall>v \<in> set (locvars p). varname v \<noteq> None) \<and> (\<forall>u \<in> set (upvalues p). u \<noteq> None)
     \<and> KNullString \<notin> set (proto_k p)
     \<and> (upvalues p = [] \<or> int (length (upvalues p)) = uint (nups p))"

lemma getlocal_safe: "\<forall>v \<in> set vs. varname v \<noteq> None \<Longrightarrow> yields (\<lambda>_. True) (getlocal_loop vs n pc)"
  by (induction vs arbitrary: n) (auto split: option.splits)

lemma upname_safe:
  assumes "names_ok p" and "0 \<le> u" and "u < uint (nups p)"
  shows "yields (\<lambda>_. True) (upname p u)"
proof (cases "upvalues p = []")
  case False
  with assms have u: "u < int (length (upvalues p))" by (simp add: names_ok_def)
  then have "upvalues p ! nat u \<in> set (upvalues p)" using assms(2) by simp
  then have "upvalues p ! nat u \<noteq> None" using assms(1) by (auto simp: names_ok_def)
  with u assms(2) show ?thesis by (auto simp: upname_def fetch_def)
qed (simp add: upname_def)

lemma kname_safe:
  assumes "names_ok p" and "\<forall>k \<in> set (rk_const c). 0 \<le> k \<and> k < sizek p"
  shows "yields (\<lambda>_. True) (kname p c)"
proof (cases "ISK c")
  case True
  with assms(2) have "0 \<le> INDEXK c" "INDEXK c < sizek p" by (auto simp: rk_const_def)
  moreover from this have "proto_k p ! nat (INDEXK c) \<in> set (proto_k p)" by simp
  then have "proto_k p ! nat (INDEXK c) \<noteq> KNullString" using assms(1) by (auto simp: names_ok_def)
  ultimately show ?thesis by (auto simp: kname_def fetch_def split: konstant.splits)
qed (simp add: kname_def)

lemma traced_operands:
  assumes "symbexec p pc reg = Ok i" and "op_of (GET_OPCODE i) = Some op" and "op \<noteq> OP_RETURN" and "op \<noteq> OP_MOVE"
  shows "\<exists>l. instr_at p l = i \<and> operands_ok p l"
proof -
  have "op_of (GET_OPCODE 0) = Some OP_MOVE" by code_simp
  then have "i \<noteq> 0" using assms(2,4) by auto
  moreover have "op_of (op_num OP_RETURN) = Some OP_RETURN" by code_simp
  then have "GET_OPCODE i \<noteq> op_num OP_RETURN" using assms(2,3) by auto
  ultimately obtain l m r where l: "0 \<le> l" "fetch (proto_code p) l = Ok i" "symb_step p pc reg l m = Ok (Some r)"
    using symbexec_changes [OF assms(1)] by blast
  from step_operands [OF l(1,3)] op_at_eq [OF l(1,2)] show ?thesis by blast
qed

text \<open>The name read for the instruction that was traced, when it is not a move.\<close>

definition traced_name :: "Proto \<Rightarrow> Instruction \<Rightarrow> (string \<times> string) option result" where
  "traced_name p i =
     (case op_of (GET_OPCODE i) of
        Some OP_GETGLOBAL \<Rightarrow>
          rbind (fetch (proto_k p) (GETARG_Bx i)) (\<lambda>k.
            case k of KString s \<Rightarrow> Ok (Some (''global'', s)) | _ \<Rightarrow> Undef)
      | Some OP_GETTABLE \<Rightarrow> rbind (kname p (GETARG_C i)) (\<lambda>s. Ok (Some (''field'', s)))
      | Some OP_GETUPVAL \<Rightarrow> rbind (upname p (GETARG_B i)) (\<lambda>s. Ok (Some (''upvalue'', s)))
      | Some OP_SELF \<Rightarrow> rbind (kname p (GETARG_C i)) (\<lambda>s. Ok (Some (''method'', s)))
      | _ \<Rightarrow> Ok None)"

lemma getobjname_traced:
  "getobjname p pc stackpos =
     rbind (luaF_getlocalname p (stackpos + 1) pc) (\<lambda>name.
       case name of
         Some s \<Rightarrow> Ok (Some (''local'', s))
       | None \<Rightarrow> rbind (symbexec p pc stackpos) (\<lambda>i.
           if op_of (GET_OPCODE i) = Some OP_MOVE then
             if GETARG_B i < GETARG_A i then getobjname p pc (GETARG_B i) else Ok None
           else traced_name p i))"
  by (subst getobjname.simps)
     (auto intro!: rbind_cong simp: traced_name_def split: option.splits OpCode.splits)

lemma traced_safe:
  assumes "names_ok p" and "symbexec p pc reg = Ok i"
  shows "yields (\<lambda>_. True) (traced_name p i)"
proof (cases "\<exists>op. op_of (GET_OPCODE i) = Some op \<and> op \<in> {OP_GETGLOBAL, OP_GETTABLE, OP_GETUPVAL, OP_SELF}")
  case True
  then obtain op where op: "op_of (GET_OPCODE i) = Some op"
    and cs: "op \<in> {OP_GETGLOBAL, OP_GETTABLE, OP_GETUPVAL, OP_SELF}" by blast
  from traced_operands [OF assms(2) op] cs obtain l where l: "instr_at p l = i" "operands_ok p l" by auto
  from l op have k: "\<forall>k \<in> set (constants op (arg_b op i) (arg_c op i)). 0 \<le> k \<and> k < sizek p"
    and u: "op = OP_GETUPVAL \<Longrightarrow> arg_b op i < uint (nups p)"
    and g: "op = OP_GETGLOBAL \<Longrightarrow> is_string (proto_k p ! nat (arg_b op i))"
    by (auto simp: operands_ok_def Let_def)
  from cs consider "op = OP_GETGLOBAL" | "op \<in> {OP_GETTABLE, OP_SELF}" | "op = OP_GETUPVAL" by blast
  then show ?thesis
  proof cases
    case 1
    then have b: "arg_b op i = GETARG_Bx i" by (simp add: arg_b_def modes)
    with 1 k have "0 \<le> GETARG_Bx i" "GETARG_Bx i < sizek p" by (auto simp: constants_def)
    moreover from this have "proto_k p ! nat (GETARG_Bx i) \<in> set (proto_k p)" by simp
    then have "proto_k p ! nat (GETARG_Bx i) \<noteq> KNullString" using assms(1) by (auto simp: names_ok_def)
    ultimately show ?thesis
      using 1 g b op by (auto simp: traced_name_def fetch_def is_string_def split: konstant.splits)
  next
    case 2
    then have "set (constants op (arg_b op i) (arg_c op i)) = set (rk_const (GETARG_C i))"
      by (auto simp: constants_def arg_c_def modes)
    with k have "yields (\<lambda>_. True) (kname p (GETARG_C i))" by (intro kname_safe [OF assms(1)]) simp
    with 2 op show ?thesis by (auto simp: traced_name_def yields_def)
  next
    case 3
    with u have "yields (\<lambda>_. True) (upname p (GETARG_B i))"
      by (intro upname_safe [OF assms(1)]) (auto simp: arg_b_def modes field_bounds)
    with 3 op show ?thesis by (auto simp: traced_name_def yields_def)
  qed
qed (auto simp: traced_name_def split: option.splits OpCode.splits)

lemma getobjname_yields:
  "proto_code p \<noteq> [] \<Longrightarrow> names_ok p \<Longrightarrow> pc \<le> sizecode p \<Longrightarrow> yields (\<lambda>_. True) (getobjname p pc stackpos)"
proof (induction p pc stackpos rule: getobjname.induct)
  case (1 p pc stackpos)
  have loc: "yields (\<lambda>_. True) (luaF_getlocalname p (stackpos + 1) pc)"
    using "1.prems" by (simp add: luaF_getlocalname_def names_ok_def getlocal_safe)
  have sym: "yields (\<lambda>_. True) (symbexec p pc stackpos)"
    by (rule symbexec_safe) (use "1.prems" in simp_all)
  show ?case
  proof (subst getobjname_traced, rule yields_bind [OF loc], goal_cases)
    case (1 name)
    show ?case
    proof (cases name)
      case None
      have "yields (\<lambda>_. True) (if op_of (GET_OPCODE i) = Some OP_MOVE then
             if GETARG_B i < GETARG_A i then getobjname p pc (GETARG_B i) else Ok None
           else traced_name p i)" if i: "symbexec p pc stackpos = Ok i" for i
        using traced_safe [OF "1.prems"(2) i] "1.IH" [OF 1(1)[unfolded None] refl i] "1.prems" by simp
      with None sym show ?thesis by (auto intro: yields_bind)
    qed simp
  qed
qed

text \<open>
  C30: With complete debug information the name of any register can be asked for at any position of
  a function that has code, accepted by the checker or not: the search ends, whatever chain of moves
  it follows, and reads only names and constants the function has. Without complete names it may
  read past them (\<open>short_upvalue_names\<close>).
\<close>

theorem getobjname_safe:
  assumes "proto_code p \<noteq> []" and "names_ok p" and "pc \<le> sizecode p"
  shows "\<exists>r. getobjname p pc stackpos = Ok r"
  using getobjname_yields [OF assms] by (auto simp: yields_def)

text \<open>A register loaded from a global and moved to the one that is asked for.\<close>

definition moved_global :: Proto where
  "moved_global = proto_of [KString ''x''] [] 0
     [CREATE_ABx OP_GETGLOBAL 0 0, CREATE_ABC OP_MOVE 1 0 0, CREATE_ABC OP_RETURN 0 1 0]"

theorem getobjname_safe_witness: "\<exists>r. getobjname moved_global 2 1 = Ok r"
  by (rule getobjname_safe) (simp_all add: moved_global_def proto_of_def names_ok_def)

lemma moved_name: "getobjname moved_global 2 1 = Ok (Some (''global'', ''x''))"
  by code_simp

text \<open>
  The checker accepts debug information with fewer upvalue names than upvalues; asking for the
  name of the others reads past the array.
\<close>

definition short_names :: Proto where
  "short_names = proto_of [] [Some ''u''] 2 [CREATE_ABC OP_GETUPVAL 0 1 0, CREATE_ABC OP_RETURN 0 1 0]"

lemma short_upvalue_names: "luaG_checkcode short_names = Ok True \<and> getobjname short_names 1 0 = Undef"
  by (intro conjI) code_simp+

end
