(* ===== verification/LuaMachine.thy ===== *)
theory LuaMachine
  imports LuaVMSpec LuaCheckProps
begin

text \<open>
  The machine runs the code the checker accepts: where control goes after an instruction, and that
  the instructions on registers return and write only what the collector allows.
\<close>

section \<open>Where control goes\<close>

text \<open>The prototype on the heap that the checker saw as \<open>pt\<close>\<close>

definition describes :: "global_State \<Rightarrow> HProto \<Rightarrow> Proto \<Rightarrow> bool" where
  "describes g p pt \<longleftrightarrow> proto_code pt = h_code p \<and> length (proto_k pt) = length (h_k p)
     \<and> nups pt = h_nups p \<and> maxstacksize pt = h_maxstacksize p \<and> length (proto_p pt) = length (h_p p)
     \<and> (\<forall>i < length (h_p p). \<forall>q f. h_p p ! i = Some q \<longrightarrow> bodies g q = Some (OProto f) \<longrightarrow> nups (proto_p pt ! i) = h_nups f)"

lemma describes_named: "describes g p (named_proto g p)"
  by (auto simp: describes_def named_proto_def inner_proto_def bodies_def)

lemma jump_toE: "jump_to pc d g = Return r g' \<Longrightarrow> r = Continue (nat (int pc + d)) \<and> 0 \<le> int pc + d"
  by (auto simp: jump_to_def wild_def split: if_splits)

lemma go_onE: "go_on pc m g = Return r g' \<Longrightarrow> r = Continue pc"
  by (auto simp: go_on_def elim!: bnd_ReturnE)

lemma fetch_atE: "fetch_at p pc g = Return i g' \<Longrightarrow> pc < length (h_code p) \<and> i = h_code p ! pc"
  by (auto simp: fetch_at_def wild_def split: if_splits)

lemma test_jumpE:
  assumes "test_jump fr pc c g = Return r g'"
  shows "r = Continue (pc + 1) \<or> (\<exists>q. r = Continue q \<and> pc < length (h_code (fr_proto fr))
    \<and> int q = int pc + 1 + GETARG_sBx (h_code (fr_proto fr) ! pc))"
  using assms
  by (auto simp: test_jump_def split: if_splits elim!: bnd_ReturnE dest!: fetch_atE jump_toE)

text \<open>The instructions with an end of their own\<close>

lemma turn_call: "op_call E L fr n pc i g = Return (Continue q) g' \<Longrightarrow> q = pc"
  by (auto simp: op_call_def Let_def split: pcr.splits elim!: bnd_ReturnE)

lemma turn_tailcall: "op_tailcall E L fr n pc i g = Return (Continue q) g' \<Longrightarrow> q = pc"
  by (auto simp: op_tailcall_def Let_def split: pcr.splits elim!: bnd_ReturnE)

lemma turn_return: "op_return E L fr n pc i g \<noteq> Return (Continue q) g'"
  by (auto simp: op_return_def Let_def split: if_splits elim!: bnd_ReturnE)

lemma turn_forloop:
  assumes "op_forloop L fr pc i g = Return (Continue q) g'"
  shows "q = pc \<or> int q = int pc + GETARG_sBx i"
  using assms by (auto simp: op_forloop_def Let_def split: if_splits elim!: bnd_ReturnE dest!: jump_toE)

lemma turn_forprep:
  assumes "op_forprep E L fr pc i g = Return (Continue q) g'"
  shows "int q = int pc + GETARG_sBx i"
  using assms
  by (auto simp: op_forprep_def Let_def luaG_runerror_def luaG_errormsg_def luaD_throw_def split: option.splits
      elim!: bnd_ReturnE dest!: jump_toE)

lemma turn_tforloop:
  assumes "op_tforloop E L fr pc i g = Return (Continue q) g'"
  shows "q = pc + 1 \<or> pc < length (h_code (fr_proto fr)) \<and> int q = int pc + 1 + GETARG_sBx (h_code (fr_proto fr) ! pc)"
  using assms by (auto simp: op_tforloop_def Let_def elim!: bnd_ReturnE dest!: test_jumpE)

lemma turn_setlist:
  assumes "op_setlist E L fr pc i g = Return (Continue q) g'"
  shows "q = (if GETARG_C i = 0 then pc + 1 else pc)"
  using assms
  by (auto simp: op_setlist_def Let_def wild_def split: if_splits TValue.splits elim!: bnd_ReturnE)

lemma turn_closure:
  assumes "op_closure E L fr pc i g = Return (Continue q) g'"
  shows "\<exists>p f. nat (GETARG_Bx i) < length (h_p (fr_proto fr)) \<and> h_p (fr_proto fr) ! nat (GETARG_Bx i) = Some p
    \<and> bodies g p = Some (OProto f) \<and> q = pc + unat (h_nups f)"
  using assms
  by (auto simp: op_closure_def Let_def wild_def lift0_def gco2p_def sbind_def get_obj_def bodies_def
      split: if_splits option.splits body.splits result.splits elim!: bnd_ReturnE)

lemma instr_described:
  assumes "describes g p pt"
  shows "instr_at pt (int pc) = h_code p ! pc" and "instr_at pt (1 + int pc) = h_code p ! Suc pc"
  using assms by (simp_all add: describes_def instr_at_def nat_add_distrib)

lemma switch_succs:
  assumes d: "describes g (fr_proto fr) pt" and op: "op_at pt (int pc) = Some op"
    and i: "i = instr_at pt (int pc)"
    and r: "vm_switch E L fr n (pc + 1) i op g = Return (Continue q) g'"
  shows "int q \<in> set (succs pt (int pc))"
proof (cases "op \<in> {OP_CLOSURE, OP_FORPREP, OP_FORLOOP, OP_TFORLOOP, OP_SETLIST, OP_JMP, OP_EQ, OP_LT, OP_LE, OP_TEST, OP_TESTSET}")
  case False
  then show ?thesis
    using r op i
    by (cases op)
      (auto simp: vm_switch_def Let_def succs_def testTMode_iff turn_return dest!: go_onE turn_call turn_tailcall split: if_splits)
next
  case True
  have c: "closure_ups pt (int pc) = int (unat (h_nups f))"
    if "nat (GETARG_Bx i) < length (h_p (fr_proto fr))" "h_p (fr_proto fr) ! nat (GETARG_Bx i) = Some p" "bodies g p = Some (OProto f)" for p f
    using d that i by (simp add: closure_ups_def describes_def)
  have nx: "instr_at pt (int pc + 1) = h_code (fr_proto fr) ! (pc + 1)"
    using instr_described(2) [OF d, of pc] by (simp add: add.commute)
  have tj: "int q \<in> {int pc + 2, int pc + 2 + GETARG_sBx (instr_at pt (int pc + 1))}"
    if "test_jump fr (Suc pc) b g1 = Return (Continue q) g'" for b g1
    using test_jumpE [OF that] nx by auto
  from True consider (closure) "op = OP_CLOSURE" | (loop) "op \<in> {OP_FORPREP, OP_FORLOOP, OP_TFORLOOP, OP_SETLIST, OP_JMP}"
    | (test) "op \<in> {OP_EQ, OP_LT, OP_LE, OP_TEST, OP_TESTSET}" by blast
  then show ?thesis
  proof cases
    case closure
    with r have "op_closure E L fr (pc + 1) i g = Return (Continue q) g'" by (simp add: vm_switch_def)
    from turn_closure [OF this] c closure op i show ?thesis by (auto simp: succs_def)
  next
    case loop
    then show ?thesis
      using r op i nx
      by (auto simp: vm_switch_def Let_def succs_def testTMode_iff dest!: turn_forprep turn_forloop turn_tforloop turn_setlist jump_toE
          split: if_splits)
  next
    case test
    then show ?thesis
      using r op i
      by (auto simp: vm_switch_def Let_def succs_def testTMode_iff elim!: bnd_ReturnE dest!: tj)
  qed
qed

section \<open>A turn\<close>

lemma thread_ReturnE: "thread L g = Return t g' \<Longrightarrow> is_thr g L \<and> t = thr g L \<and> g' = g"
  by (auto simp: thread_def lift0_def gco2th_def sbind_def get_obj_def is_thr_def thr_def
      split: option.splits body.splits result.splits)

lemma sget_ReturnE: "sget L i g = Return v g' \<Longrightarrow> g' = g"
  by (auto simp: sget_def wild_def split: if_splits elim!: bnd_ReturnE dest!: thread_ReturnE)

lemma cur_ci_ReturnE: "cur_ci L g = Return c g' \<Longrightarrow> g' = g"
  by (auto simp: cur_ci_def get_ci_def wild_def split: if_splits elim!: bnd_ReturnE dest!: thread_ReturnE)

lemma read_ReturnE: "lift0 (gco2cl p) g = Return c g' \<Longrightarrow> g' = g" "lift0 (gco2p p) g = Return f g' \<Longrightarrow> g' = g"
  by (auto simp: lift0_def gco2cl_def gco2p_def sbind_def get_obj_def split: option.splits body.splits result.splits)

lemma current_ReturnE:
  assumes "current L g = Return fr g'"
  shows "g' = g \<and> is_thr g L"
  using assms
  by (auto simp: current_def wild_def split: TValue.splits Closure.splits elim!: bnd_ReturnE
      dest!: thread_ReturnE cur_ci_ReturnE sget_ReturnE read_ReturnE)

text \<open>No line and no count hook\<close>

definition quiet :: "global_State \<Rightarrow> ptr \<Rightarrow> bool" where
  "quiet g L \<longleftrightarrow> L_hookmask (thr g L) AND 12 = 0"

lemma vm_step_quiet:
  assumes "current L g = Return fr g" and "quiet g L" and "pc < length (h_code (fr_proto fr))"
    and "op_of (GET_OPCODE (h_code (fr_proto fr) ! pc)) = Some op"
  shows "vm_step E L n pc g = vm_switch E L fr n (pc + 1) (h_code (fr_proto fr) ! pc) op g"
proof -
  have h: "vm_hooks E L (Suc pc) g = Return False g"
    using current_ReturnE [OF assms(1)] assms(2) by (simp add: vm_hooks_def quiet_def)
  show ?thesis using assms by (simp add: vm_step_def bnd_Return [where m = "current L", OF assms(1)] bnd_Return [where m = "vm_hooks E L (Suc pc)", OF h] fetch_at_def)
qed

lemma turn_reachable:
  assumes "luaG_checkcode pt = Ok True" and "proto_code pt \<noteq> []" and "no_gap pt" and "LuaCheckSpec.reachable pt (int pc)"
    and "current L g = Return fr g" and "describes g (fr_proto fr) pt" and "quiet g L"
    and "vm_step E L n pc g = Return (Continue q) g'"
  shows "LuaCheckSpec.reachable pt (int q)"
proof -
  have ok: "int pc < sizecode pt" "operands_ok pt (int pc)" using checkcode_sound [OF assms(1-4)] by auto
  then obtain op where op: "op_at pt (int pc) = Some op" by (auto simp: operands_ok_def op_at_def)
  have b: "pc < length (h_code (fr_proto fr))" using ok(1) assms(6) by (simp add: describes_def)
  have "vm_switch E L fr n (pc + 1) (instr_at pt (int pc)) op g = Return (Continue q) g'"
    using vm_step_quiet [OF assms(5,7) b] op assms(8) by (simp add: op_at_def instr_described(1) [OF assms(6)])
  from switch_succs [OF assms(6) op refl this] show ?thesis by (rule reach_step [OF assms(4)])
qed

end
