(* ===== verification/LuaUpval.thy ===== *)
theory LuaUpval
  imports LuaVMSpec
begin

text \<open>
  Closing upvalues (\<open>luaF_close\<close> of \<^verbatim>\<open>lfunc.c\<close>): it returns, the upvalues get the values they
  pointed to, and no other object changes. A step may mark objects when the collector is marking.
\<close>

section \<open>Marking leaves the contents of objects\<close>

definition dead :: "global_State \<Rightarrow> ptr \<Rightarrow> bool" where
  "dead g p \<longleftrightarrow> (\<exists>x. heap g p = Some x \<and> isdead (currentwhite g) (marked x))"

text \<open>A black thread or open upvalue: there are none, as both are traversed again.\<close>

definition black_late :: "global_State \<Rightarrow> ptr \<Rightarrow> bool" where
  "black_late g p \<longleftrightarrow> (\<exists>x. heap g p = Some x \<and> (kind (body x) = 8 \<or> open_body (body x)) \<and> isblack (marked x))"

text \<open>Marking kills no object and makes no thread or open upvalue black.\<close>

definition only_marks :: "global_State \<Rightarrow> global_State \<Rightarrow> bool" where
  "only_marks g g' \<longleftrightarrow> bodies g' = bodies g \<and> same_frame g g'
     \<and> (\<forall>p. dead g' p \<longrightarrow> dead g p) \<and> (\<forall>p. black_late g' p \<longrightarrow> black_late g p)"

lemma only_marks_refl [simp]: "only_marks g g"
  by (simp add: only_marks_def same_frame_def)

lemma only_marks_trans: "only_marks g g1 \<Longrightarrow> only_marks g1 g2 \<Longrightarrow> only_marks g g2"
  by (auto simp: only_marks_def same_frame_def)

definition marks_only :: "unit gc \<Rightarrow> global_State \<Rightarrow> bool" where
  "marks_only m g \<longleftrightarrow> (\<exists>g'. m g = Ok ((), g') \<and> only_marks g g')"

lemma marks_onlyE:
  assumes "marks_only m g"
  obtains g' where "m g = Ok ((), g')" and "only_marks g g'"
  using assms by (auto simp: marks_only_def)

lemma marks_only_bind:
  assumes "marks_only m g" and "\<And>g'. only_marks g g' \<Longrightarrow> marks_only k g'"
  shows "marks_only (sbind m (\<lambda>_. k)) g"
  using assms unfolding marks_only_def by (metis only_marks_trans sbind_Ok)

lemma marks_only_sret [simp]: "marks_only (sret ()) g"
  by (simp add: marks_only_def)

lemma isdead_colour:
  "isdead cw (white2gray m) \<Longrightarrow> isdead cw m" "isdead cw (gray2black m) \<longleftrightarrow> isdead cw m"
proof -
  have w: "isdead cw m \<longleftrightarrow> bit m 0 \<and> \<not> bit cw 0 \<or> bit m 1 \<and> \<not> bit cw 1" for m
  proof -
    have t: "(WHITEBITS) = mask 2" by (simp add: mask_eq_decr_exp)
    have b: "bit (m AND otherwhite cw AND WHITEBITS) n \<longleftrightarrow> n < 2 \<and> bit m n \<and> \<not> bit cw n" for n
      by (auto simp: otherwhite_def t bit_simps)
    have "isdead cw m \<longleftrightarrow> (\<exists>n. bit (m AND otherwhite cw AND WHITEBITS) n)"
      unfolding isdead_def using bit_imp_le_length [of "m AND otherwhite cw AND WHITEBITS"] by (auto simp: bit_eq_iff)
    then show ?thesis unfolding b by (auto simp: numeral_2_eq_2 less_Suc_eq)
  qed
  show "isdead cw (white2gray m) \<Longrightarrow> isdead cw m" by (simp add: w white2gray_def bit_unset_bit_iff)
  show "isdead cw (gray2black m) \<longleftrightarrow> isdead cw m" by (simp add: w gray2black_def bit_set_bit_iff)
qed

lemma marks_only_upd:
  assumes "bodies g p = Some b" and "\<And>m. isdead (currentwhite g) (f m) \<Longrightarrow> isdead (currentwhite g) m"
    and "\<And>m. kind b = 8 \<or> open_body b \<Longrightarrow> isblack (f m) \<Longrightarrow> isblack m"
  shows "marks_only (upd_mark f p) g"
  using assms
  by (auto simp: marks_only_def upd_mark_Ok only_marks_def bodies_def fun_eq_iff same_frame_def put_def dead_def
      black_late_def split: if_splits)

lemma wf_obj_at: "wf_store (bodies g) \<Longrightarrow> bodies g p = Some b \<Longrightarrow> (k, q) \<in> refs (bodies g) b \<Longrightarrow> is_obj (bodies g) k q"
  by (fastforce simp: wf_store_def)

lemma wf_value:
  assumes "wf_store (bodies g)" and "bodies g p = Some (OUpVal u)"
  obtains v where "uv_value u g = Ok (v, g)" and "ttype v \<noteq> 11" and "\<forall>(k, q) \<in> vref v. is_obj (bodies g) k q"
proof (cases u)
  case (Closed v)
  with assms have "ttype v \<noteq> 11" "\<forall>(k, q) \<in> vref v. is_obj (bodies g) k q" by (fastforce simp: wf_store_def)+
  with Closed that show ?thesis by (simp add: uv_value_def sret_def)
next
  case (Open th i)
  with assms obtain t where t: "bodies g th = Some (OThread t)" "i \<le> stack_limit t" by (fastforce simp: wf_store_def)
  then obtain y where y: "heap g th = Some y" "body y = OThread t" by (auto simp: bodies_def)
  have sh: "thread_shape t" using assms(1) t(1) by (fastforce simp: wf_store_def)
  then have i: "i < length (L_stack t)" "ttype (L_stack t ! i) \<noteq> 11" using t(2) by (auto simp: thread_shape_def)
  have "\<forall>(k, q) \<in> vref (L_stack t ! i). is_obj (bodies g) k q"
    using wf_obj_at [OF assms] Open t(1) i(1) by (auto simp: slot_at_def)
  with that [of "L_stack t ! i"] i show ?thesis using Open by (simp add: uv_value_def bind_gco(2) [OF y])
qed

lemma marks_only_value:
  assumes rec: "\<And>q. is_obj (bodies g) (ttype v) q \<Longrightarrow> q = gcvalue v \<Longrightarrow> marks_only (rec q) g"
    and v: "ttype v \<noteq> 11" "\<forall>(k, q) \<in> vref v. is_obj (bodies g) k q"
  shows "marks_only (markvalue_by rec v) g"
proof (cases "iscollectable v")
  case True
  with v have o: "is_obj (bodies g) (ttype v) (gcvalue v)" by (simp add: vref_def)
  then obtain x where "heap g (gcvalue v) = Some x" by (auto simp: is_obj_def bodies_def)
  with rec [OF o refl] True show ?thesis
    by (auto simp: markvalue_by_def markobject_by_def bind_get_obj marks_only_def)
qed (simp add: markvalue_by_def)

lemma marks_only_object:
  assumes "is_obj (bodies g) k q" and "marks_only (rec q) g"
  shows "marks_only (markobject_by rec q) g"
proof -
  from assms(1) obtain x where "heap g q = Some x" by (auto simp: is_obj_def bodies_def)
  with assms(2) show ?thesis by (auto simp: markobject_by_def bind_get_obj marks_only_def)
qed

lemma reallymark_only:
  "wf_store (bodies g) \<Longrightarrow> bodies g p = Some b \<Longrightarrow> need (kind b) \<le> n \<Longrightarrow> marks_only (reallymark n p) g"
proof (induction n arbitrary: g p b)
  case 0
  then show ?case by (auto simp: need_def split: if_splits)
next
  case (Suc n)
  have scan: "marks_only (scan_object (reallymark n) p) g1" if g1: "only_marks g g1" for g1
  proof -
    have wf: "wf_store (bodies g1)" and b: "bodies g1 p = Some b" using Suc.prems g1 by (simp_all add: only_marks_def)
    have rec: "marks_only (reallymark n q) g2" if "only_marks g1 g2" "is_obj (bodies g1) k q" "need k \<le> n" for g2 k q
      using that wf by (auto intro!: Suc.IH simp: only_marks_def is_obj_def)
    have gray: "marks_only (upd_mark gray2black p) g2" if "only_marks g1 g2" "kind b \<noteq> 8" "\<not> open_body b" for g2
      using b that by (intro marks_only_upd [where b = b]) (auto simp: only_marks_def isdead_colour)
    obtain x where x: "heap g1 p = Some x" "body x = b" using b by (auto simp: bodies_def)
    have push: "marks_only (push_gray p) g1" by (simp add: push_gray_def modify_def marks_only_def only_marks_def same_frame_def bodies_def dead_def
        black_late_def)
    show ?thesis
    proof (cases b)
      case (OUdata u)
      then have n: "need 5 \<le> n" using Suc.prems(3) by (simp add: need_def)
      have o: "is_obj (bodies g1) 5 (u_env u)" "\<And>m. u_metatable u = Some m \<Longrightarrow> is_obj (bodies g1) 5 m"
        using wf_obj_at [OF wf b] OUdata by (auto simp: oref_def)
      have "marks_only (case u_metatable u of None \<Rightarrow> sret () | Some m \<Rightarrow> markobject_by (reallymark n) m) g2"
        if g2: "only_marks g1 g2" for g2
        using o(2) g2 by (cases "u_metatable u")
          (auto intro!: marks_only_object [where k = 5] rec [OF _ _ n] simp: only_marks_def)
      moreover have "marks_only (markobject_by (reallymark n) (u_env u)) g2" if g2: "only_marks g1 g2" for g2
        using o(1) g2 by (auto intro!: marks_only_object [where k = 5] rec [OF _ _ n] simp: only_marks_def)
      ultimately have "marks_only (sbind (upd_mark gray2black p) (\<lambda>_.
         sbind (case u_metatable u of None \<Rightarrow> sret () | Some m \<Rightarrow> markobject_by (reallymark n) m) (\<lambda>_.
         markobject_by (reallymark n) (u_env u)))) g1"
        by (intro marks_only_bind gray) (auto simp: OUdata intro: only_marks_trans)
      with OUdata x show ?thesis by (simp add: scan_object_def bind_get_obj marks_only_def)
    next
      case (OUpVal u)
      obtain v where v: "uv_value u g1 = Ok (v, g1)" "ttype v \<noteq> 11" "\<forall>(k, q) \<in> vref v. is_obj (bodies g1) k q"
        by (rule wf_value [OF wf]) (use b OUpVal in simp)
      have "need (ttype v) \<le> n" if "is_obj (bodies g1) (ttype v) q" for q
        using Suc.prems(3) OUpVal v(2) that by (auto simp: need_def is_obj_def split: if_splits) (cases v; simp)
      then have "marks_only (markvalue_by (reallymark n) v) g1"
        by (intro marks_only_value v(2,3) rec [OF only_marks_refl]) auto
      then have "marks_only (sbind (markvalue_by (reallymark n) v) (\<lambda>_.
           case u of Closed _ \<Rightarrow> upd_mark gray2black p | UpVal.Open _ _ \<Rightarrow> sret ())) g1"
        by (rule marks_only_bind) (auto simp: OUpVal intro: gray split: UpVal.split)
      with OUpVal x v(1) show ?thesis by (simp add: scan_object_def bind_get_obj sbind_Ok [where m = "uv_value u"] marks_only_def)
    qed (use push x in \<open>simp_all add: scan_object_def bind_get_obj marks_only_def\<close>)
  qed
  have "marks_only (upd_mark white2gray p) g" by (rule marks_only_upd [OF Suc.prems(2) isdead_colour(1)]) simp_all
  from marks_only_bind [OF this scan] show ?case by (simp add: mark_body_def)
qed

lemma reallymarkobject_only: "wf_store (bodies g) \<Longrightarrow> bodies g p = Some b \<Longrightarrow> marks_only (reallymarkobject p) g"
  unfolding reallymarkobject_def by (rule reallymark_only) (auto simp: need_def)

section \<open>Closing\<close>

lemma wf_put_openupval:
  assumes "wf_store B" and "B L = Some (OThread t)"
  shows "wf_store (B(L \<mapsto> OThread (t\<lparr>L_openupval := us\<rparr>)))"
proof -
  let ?t = "t\<lparr>L_openupval := us\<rparr>" and ?B = "B(L \<mapsto> OThread (t\<lparr>L_openupval := us\<rparr>))"
  have lim: "stack_limit ?t = stack_limit t" by (simp add: stack_limit_def)
  have obj: "is_obj ?B k q = is_obj B k q" for k q using assms(2) by (auto simp: is_obj_def)
  have slot: "slot_at ?B th i = slot_at B th i" for th i using assms(2) by (simp add: slot_at_def)
  have refs: "refs ?B b = refs B b" for b by (cases "(B, b)" rule: refs.cases) (simp_all add: slot)
  have shape: "shape ?B b" if "shape B b" for b
    using that assms(2) lim by (cases "(B, b)" rule: shape.cases) auto
  have "shape ?B b \<and> (\<forall>(k, q) \<in> refs B b. is_obj B k q)" if b: "?B p = Some b" for p b
  proof (cases "p = L")
    case True
    then have "b = OThread ?t" using b by simp
    with assms show ?thesis by (fastforce simp: wf_store_def thread_shape_def lim)
  next
    case False
    with b assms(1) shape show ?thesis by (fastforce simp: wf_store_def)
  qed
  then show ?thesis unfolding wf_store_def obj refs by blast
qed

lemma wf_put_closed:
  assumes "wf_store B" and "B u = Some (OUpVal w)" and "ttype v \<noteq> 11" and "\<forall>(k, q) \<in> vref v. is_obj B k q"
  shows "wf_store (B(u \<mapsto> OUpVal (UpVal.Closed v)))"
proof -
  let ?B = "B(u \<mapsto> OUpVal (UpVal.Closed v))"
  have obj: "is_obj ?B k q = is_obj B k q" for k q using assms(2) by (auto simp: is_obj_def)
  have slot: "slot_at ?B th i = slot_at B th i" for th i using assms(2) by (simp add: slot_at_def)
  have refs: "refs ?B b = refs B b" for b by (cases "(B, b)" rule: refs.cases) (simp_all add: slot)
  have shape: "shape ?B b" if "shape B b" for b
    using that assms(2) by (cases "(B, b)" rule: shape.cases) auto
  have "shape ?B b \<and> (\<forall>(k, q) \<in> refs B b. is_obj B k q)" if b: "?B p = Some b" for p b
  proof (cases "p = u")
    case True
    then have "b = OUpVal (UpVal.Closed v)" using b by simp
    with assms(3,4) show ?thesis by simp
  next
    case False
    with b assms(1) shape show ?thesis by (fastforce simp: wf_store_def)
  qed
  then show ?thesis unfolding wf_store_def obj refs by blast
qed

lemmas bind_marked_of = sbind_Ok [where m = "marked_of p" for p, OF marked_of_Ok]

text \<open>The barrier for a closed upvalue, and its link into the list of all objects\<close>

lemma barrier_only:
  assumes "wf_store (bodies g)" and "gcstate g = GCSpropagate" and "bodies g p = Some (OUpVal (UpVal.Closed v))"
  shows "marks_only (luaC_barrier p v) g"
proof (cases "iscollectable v")
  case True
  have "ttype v \<noteq> 11" "\<forall>(k, q) \<in> vref v. is_obj (bodies g) k q" using assms(1,3) by (fastforce simp: wf_store_def)+
  then have o: "is_obj (bodies g) (ttype v) (gcvalue v)" using True by (simp add: vref_def)
  then obtain y where y: "heap g (gcvalue v) = Some y" by (auto simp: is_obj_def bodies_def)
  obtain x where x: "heap g p = Some x" using assms(3) by (auto simp: bodies_def)
  have "marks_only (luaC_barrierf p (gcvalue v)) g"
    using reallymarkobject_only [OF assms(1) bodies_Some [OF y]] assms(2) by (simp add: luaC_barrierf_def marks_only_def)
  then show ?thesis
    by (simp add: luaC_barrier_def bind_marked_of [OF x] bind_marked_of [OF y] marks_only_def)
qed (simp add: luaC_barrier_def)

text \<open>
  A step that gives the object at \<open>p\<close> the contents \<open>b\<close> and the state the bodies \<open>B\<close>; whether the
  others are dead stays, unless they are marked.
\<close>

definition closes :: "ptr \<Rightarrow> objects \<Rightarrow> global_State \<Rightarrow> global_State \<Rightarrow> bool" where
  "closes p B g g' \<longleftrightarrow> bodies g' = B \<and> gcstate g' = gcstate g \<and> currentwhite g' = currentwhite g
     \<and> (\<forall>q. q \<noteq> p \<longrightarrow> dead g' q \<longrightarrow> dead g q)
     \<and> (gcstate g \<noteq> GCSpropagate \<longrightarrow> (\<forall>q. q \<noteq> p \<longrightarrow> dead g q \<longrightarrow> dead g' q))"

lemma dead_fields [simp]: "dead (g\<lparr>rootgc := r\<rparr>) q = dead g q" "dead (g\<lparr>uvhead := r\<rparr>) q = dead g q"
    "dead (g\<lparr>totalbytes := n\<rparr>) q = dead g q" "bodies (g\<lparr>uvhead := r\<rparr>) = bodies g" "bodies (g\<lparr>rootgc := r\<rparr>) = bodies g"
    "bodies (g\<lparr>totalbytes := n\<rparr>) = bodies g"
  by (auto simp: dead_def bodies_def fun_eq_iff)

lemma dead_put [simp]: "dead (put g p x) q = (if q = p then isdead (currentwhite g) (marked x) else dead g q)"
  by (simp add: dead_def)

lemma link_closes:
  assumes p: "bodies g p = Some (OUpVal (UpVal.Closed v))" and wf: "gcstate g = GCSpropagate \<Longrightarrow> wf_store (bodies g)"
  obtains g' where "luaC_linkupval p g = Ok ((), g')" and "closes p (bodies g) g g'"
proof -
  let ?g = "g\<lparr>rootgc := p # rootgc g\<rparr>"
  obtain x where x: "heap ?g p = Some x" "body x = OUpVal (UpVal.Closed v)" using p by (auto simp: bodies_def)
  have b: "bodies ?g p = Some (OUpVal (UpVal.Closed v))" using p by simp
  have l: "luaC_linkupval p g =
      (if isgray (marked x) then
         if gcstate g = GCSpropagate then sbind (upd_mark gray2black p) (\<lambda>_. luaC_barrier p v) ?g
         else upd_mark (makewhite (currentwhite g)) p ?g
       else Ok ((), ?g))"
  proof -
    let ?x = "x\<lparr>marked := gray2black (marked x)\<rparr>"
    have "sbind (gco2uv p) (\<lambda>uv. sbind (uv_value uv) (\<lambda>v. luaC_barrier p v)) (put ?g p ?x) = luaC_barrier p v (put ?g p ?x)"
      by (simp add: bind_gco(5) [where x = ?x and v = "UpVal.Closed v"] x(2) uv_value_def)
    then show ?thesis
      by (simp add: luaC_linkupval_def modify_def sbind_Ok [where m = "modify _"] bind_marked_of [OF x(1)] bind_upd_mark [OF x(1)])
  qed
  consider "\<not> isgray (marked x)" | "isgray (marked x)" "gcstate g = GCSpropagate" | "isgray (marked x)" "gcstate g \<noteq> GCSpropagate" by blast
  then show thesis
  proof cases
    case 1
    with l show ?thesis by (intro that [of ?g]) (simp_all add: closes_def)
  next
    case 2
    have "marks_only (upd_mark gray2black p) ?g" by (rule marks_only_upd [OF b]) (simp_all add: isdead_colour)
    moreover have "marks_only (luaC_barrier p v) g1" if "only_marks ?g g1" for g1
      by (rule barrier_only) (use that 2 wf b in \<open>simp_all add: only_marks_def same_frame_def\<close>)
    ultimately have "marks_only (sbind (upd_mark gray2black p) (\<lambda>_. luaC_barrier p v)) ?g" by (rule marks_only_bind)
    then obtain g' where g': "sbind (upd_mark gray2black p) (\<lambda>_. luaC_barrier p v) ?g = Ok ((), g')" "only_marks ?g g'"
      by (rule marks_onlyE)
    show ?thesis
      by (rule that [of g']) (use 2 l g' in \<open>auto simp: closes_def only_marks_def same_frame_def\<close>)
  next
    case 3
    let ?x = "x\<lparr>marked := makewhite (currentwhite g) (marked x)\<rparr>"
    have "(bodies g)(p \<mapsto> body x) = bodies g" using x by (auto simp: bodies_def)
    with 3 l x show ?thesis
      by (intro that [of "put ?g p ?x"]) (simp_all add: upd_mark_Ok [OF x(1)] closes_def put_def [symmetric])
  qed
qed

text \<open>The object an open upvalue of the thread becomes\<close>

definition closed_body :: "global_State \<Rightarrow> ptr \<Rightarrow> ptr \<Rightarrow> body option" where
  "closed_body g L u =
     (case bodies g u of
        Some (OUpVal (UpVal.Open _ i)) \<Rightarrow> if dead g u then None else Some (OUpVal (UpVal.Closed (L_stack (thr g L) ! i)))
      | b \<Rightarrow> b)"

text \<open>The list of open upvalues: each points into the stack of the thread.\<close>

definition open_list :: "global_State \<Rightarrow> ptr \<Rightarrow> ptr list \<Rightarrow> bool" where
  "open_list g L us \<longleftrightarrow> distinct us
     \<and> (\<forall>u \<in> set us. \<exists>i. bodies g u = Some (OUpVal (UpVal.Open L i)) \<and> i < length (L_stack (thr g L)))"

text \<open>While the collector marks, the heap is well-formed and no open upvalue is dead.\<close>

definition closable :: "global_State \<Rightarrow> ptr list \<Rightarrow> bool" where
  "closable g us \<longleftrightarrow> (gcstate g = GCSpropagate \<longrightarrow> wf_store (bodies g) \<and> (\<forall>u \<in> set us. \<not> dead g u))"

lemma bodies_thr: "is_thr g L \<Longrightarrow> bodies g L = Some (OThread (thr g L))"
  by (auto simp: bodies_def elim: is_thrE)

lemma thr_bodies: "bodies g L = Some (OThread t) \<Longrightarrow> is_thr g L \<and> thr g L = t"
  by (auto simp: bodies_def is_thr_def thr_def)

text \<open>One turn of the loop\<close>

definition close_one :: "ptr \<Rightarrow> ptr \<Rightarrow> ptr list \<Rightarrow> UpVal \<Rightarrow> unit gc" where
  "close_one L u us uv =
     sbind (gco2th L) (\<lambda>t. sbind (set_body L (OThread (t\<lparr>L_openupval := us\<rparr>))) (\<lambda>_.
     sbind (marked_of u) (\<lambda>m.
     \<lambda>g. if isdead (currentwhite g) m then luaF_freeupval u g
         else sbind (unlinkupval u) (\<lambda>_. sbind (uv_value uv) (\<lambda>v.
              sbind (set_body u (OUpVal (UpVal.Closed v))) (\<lambda>_. luaC_linkupval u))) g)))"

lemma close_one_closes:
  assumes L: "is_thr g L" and u: "bodies g u = Some (OUpVal (UpVal.Open L i))" "i < length (L_stack (thr g L))"
    and c: "closable g (u # us)"
  obtains g' where "close_one L u us (UpVal.Open L i) g = Ok ((), g')"
    and "closes u ((bodies g)(L \<mapsto> OThread ((thr g L)\<lparr>L_openupval := us\<rparr>), u := closed_body g L u)) g g'"
    and "gcstate g = GCSpropagate \<Longrightarrow> wf_store (bodies g')"
proof -
  let ?t = "(thr g L)\<lparr>L_openupval := us\<rparr>"
  define g1 where "g1 = set_thr g L ?t"
  obtain y where y: "heap g L = Some y" "body y = OThread (thr g L)" by (rule is_thrE [OF L])
  have ne: "u \<noteq> L" using u(1) bodies_thr [OF L] by auto
  obtain x where x: "heap g u = Some x" "body x = OUpVal (UpVal.Open L i)" using u(1) by (auto simp: bodies_def)
  have x1: "heap g1 u = Some x" using x(1) ne by (simp add: g1_def heap_set_thr)
  have b1: "bodies g1 = (bodies g)(L \<mapsto> OThread ?t)" by (simp add: g1_def set_thr_def)
  have d1: "dead g1 q = dead g q" for q using y by (auto simp: g1_def set_thr_def dead_def)
  have s1: "gcstate g1 = gcstate g" "currentwhite g1 = currentwhite g" by (simp_all add: g1_def set_thr_def put_def)
  have run: "close_one L u us (UpVal.Open L i) g =
      (if dead g u then luaF_freeupval u g1
       else sbind (unlinkupval u) (\<lambda>_. sbind (uv_value (UpVal.Open L i)) (\<lambda>v.
              sbind (set_body u (OUpVal (UpVal.Closed v))) (\<lambda>_. luaC_linkupval u))) g1)"
    using x1 s1 x(1)
    by (simp add: close_one_def bind_gco(2) [OF y] sbind_Ok [where m = "set_body L _", OF set_thr_Ok [OF L]]
      g1_def [symmetric] bind_marked_of [OF x1] dead_def)
  show thesis
  proof (cases "dead g u")
    case True
    let ?g = "g1\<lparr>uvhead := remove1 u (uvhead g1), heap := (heap g1)(u := None)\<rparr>"
    have "luaF_freeupval u g1 = luaM_freemem (of_nat sizeof_UpVal) ?g"
      using x(2) by (simp add: luaF_freeupval_def bind_gco(5) [OF x1 x(2)] unlinkupval_def sbind_Ok [where m = "modify _"]
        modify_def release_def)
    moreover obtain n where "luaM_freemem (of_nat sizeof_UpVal) ?g = Ok ((), ?g\<lparr>totalbytes := n\<rparr>)"
      by (simp add: luaM_freemem_def modify_def)
    moreover have "bodies ?g = (bodies g)(L \<mapsto> OThread ?t, u := closed_body g L u)"
      using b1 True u(1) by (auto simp: closed_body_def bodies_def fun_eq_iff)
    moreover have "dead ?g q = dead g q" if "q \<noteq> u" for q using d1 [of q] that by (simp add: dead_def)
    ultimately show ?thesis using run True s1 by (intro that [of "?g\<lparr>totalbytes := n\<rparr>"]) (use c in \<open>simp_all add: closes_def closable_def\<close>)
  next
    case False
    let ?v = "L_stack (thr g L) ! i" and ?g = "g1\<lparr>uvhead := remove1 u (uvhead g1)\<rparr>"
    let ?x = "x\<lparr>body := OUpVal (UpVal.Closed (L_stack (thr g L) ! i))\<rparr>"
    have t1: "heap ?g L = Some (y\<lparr>body := OThread ?t\<rparr>)" using y by (simp add: g1_def set_thr_def)
    have v: "uv_value (UpVal.Open L i) ?g = Ok (?v, ?g)" using u(2) by (simp add: uv_value_def bind_gco(2) [OF t1])
    have x2: "heap ?g u = Some x" using x1 by simp
    define g2 where "g2 = put ?g u ?x"
    have b2: "bodies g2 = (bodies g)(L \<mapsto> OThread ?t, u \<mapsto> OUpVal (UpVal.Closed ?v))" by (simp add: g2_def b1)
    have s2: "gcstate g2 = gcstate g" "currentwhite g2 = currentwhite g" by (simp_all add: g2_def put_def s1)
    have wf2: "wf_store (bodies g2)" if "gcstate g2 = GCSpropagate"
    proof -
      have wf: "wf_store (bodies g)" using c that s2 by (simp add: closable_def)
      have w: "wf_store (bodies g1)" unfolding b1 by (rule wf_put_openupval [OF wf bodies_thr [OF L]])
      have u1: "bodies g1 u = Some (OUpVal (UpVal.Open L i))" using u(1) ne by (simp add: b1)
      obtain w' where w': "uv_value (UpVal.Open L i) g1 = Ok (w', g1)" "ttype w' \<noteq> 11" "\<forall>(k, q) \<in> vref w'. is_obj (bodies g1) k q"
        by (rule wf_value [OF w u1])
      have t2: "heap g1 L = Some (y\<lparr>body := OThread ?t\<rparr>)" using t1 by simp
      have "w' = ?v" using w'(1) u(2) by (simp add: uv_value_def bind_gco(2) [OF t2])
      with wf_put_closed [OF w u1 w'(2,3)] show ?thesis unfolding b2 b1 by simp
    qed
    have u2: "bodies g2 u = Some (OUpVal (UpVal.Closed ?v))" by (simp add: b2)
    obtain g' where g': "luaC_linkupval u g2 = Ok ((), g')" "closes u (bodies g2) g2 g'"
      using link_closes [OF u2 wf2] by blast
    have "close_one L u us (UpVal.Open L i) g = Ok ((), g')"
      unfolding run using False g'(1)
      by (simp add: unlinkupval_def sbind_Ok [where m = "modify _"] modify_def sbind_Ok [where m = "uv_value _", OF v]
        sbind_Ok [where m = "set_body u _", OF set_body_Ok [OF x2]] g2_def)
    moreover have cb: "closed_body g L u = Some (OUpVal (UpVal.Closed ?v))" using False u(1) by (simp add: closed_body_def)
    have d2: "dead g2 q = dead g q" if "q \<noteq> u" for q using d1 that by (simp add: g2_def)
    have b': "bodies g' = bodies g2" using g'(2) by (simp only: closes_def)
    have B: "(bodies g)(L \<mapsto> OThread ?t, u := closed_body g L u) = bodies g2" by (simp only: cb b2)
    have "closes u (bodies g2) g g'" using g'(2) d2 s2 by (simp add: closes_def)
    moreover have "wf_store (bodies g')" if "gcstate g = GCSpropagate" using wf2 that s2(1) b' by simp
    ultimately show ?thesis by (intro that [of g']) (simp_all only: B)
  qed
qed

text \<open>The upvalues the loop closes: those at or above \<open>level\<close> that come first in the list.\<close>

definition at_least :: "global_State \<Rightarrow> nat \<Rightarrow> ptr \<Rightarrow> bool" where
  "at_least g n u = (case bodies g u of Some (OUpVal (UpVal.Open _ i)) \<Rightarrow> n \<le> i | _ \<Rightarrow> False)"

definition closed_all :: "global_State \<Rightarrow> ptr \<Rightarrow> nat \<Rightarrow> ptr list \<Rightarrow> objects" where
  "closed_all g L n us q =
     (if q \<in> set (takeWhile (at_least g n) us) then closed_body g L q
      else if q = L then Some (OThread ((thr g L)\<lparr>L_openupval := dropWhile (at_least g n) us\<rparr>)) else bodies g q)"

lemma close_loop_Cons:
  assumes u: "heap g u = Some x" "body x = OUpVal (UpVal.Open L i)"
  shows "close_loop L n (u # us) g =
    (if i < n then Ok ((), g) else sbind (close_one L u us (UpVal.Open L i)) (\<lambda>_. close_loop L n us) g)"
proof -
  have assoc: "sbind (sbind m f) h = sbind m (\<lambda>x. sbind (f x) h)" for m :: "'a gc" and f :: "'a \<Rightarrow> 'b gc" and h :: "'b \<Rightarrow> 'c gc"
    by (rule ext, rename_tac g, case_tac "m g") (auto simp: sbind_def)
  show ?thesis
    unfolding close_loop.simps close_one_def assoc bind_gco(5) [OF u] by (simp add: sret_def)
qed

lemma close_loop_closes:
  "is_thr g L \<Longrightarrow> L_openupval (thr g L) = us \<Longrightarrow> open_list g L us \<Longrightarrow> closable g us \<Longrightarrow>
     \<exists>g'. close_loop L n us g = Ok ((), g') \<and> bodies g' = closed_all g L n us
       \<and> gcstate g' = gcstate g \<and> currentwhite g' = currentwhite g"
proof (induction us arbitrary: g)
  case Nil
  have "bodies g = closed_all g L n []" using Nil bodies_thr [OF Nil(1)] by (auto simp: closed_all_def)
  then show ?case by (simp add: sret_def)
next
  case (Cons u us)
  let ?t = "(thr g L)\<lparr>L_openupval := us\<rparr>"
  obtain i where u: "bodies g u = Some (OUpVal (UpVal.Open L i))" "i < length (L_stack (thr g L))"
    using Cons.prems(3) by (auto simp: open_list_def)
  then obtain x where x: "heap g u = Some x" "body x = OUpVal (UpVal.Open L i)" by (auto simp: bodies_def)
  have ne: "u \<noteq> L" using u(1) bodies_thr [OF Cons.prems(1)] by auto
  show ?case
  proof (cases "i < n")
    case True
    then have "\<not> at_least g n u" using u by (simp add: at_least_def)
    then have "bodies g = closed_all g L n (u # us)"
      using bodies_thr [OF Cons.prems(1)] Cons.prems(2) by (auto simp: closed_all_def)
    with True show ?thesis by (simp add: close_loop_Cons [OF x] del: close_loop.simps)
  next
    case False
    obtain g1 where g1: "close_one L u us (UpVal.Open L i) g = Ok ((), g1)"
      and cl: "closes u ((bodies g)(L \<mapsto> OThread ?t, u := closed_body g L u)) g g1"
      and wf1: "gcstate g = GCSpropagate \<Longrightarrow> wf_store (bodies g1)"
      using close_one_closes [OF Cons.prems(1) u Cons.prems(4)] by blast
    have b1: "bodies g1 = (bodies g)(L \<mapsto> OThread ?t, u := closed_body g L u)" using cl by (simp add: closes_def)
    have L1: "is_thr g1 L" "thr g1 L = ?t" using thr_bodies [of g1 L ?t] b1 ne by auto
    have other: "bodies g1 v = bodies g v" "v \<noteq> u" "v \<noteq> L" if "v \<in> set us" for v
      using that Cons.prems(3) b1 bodies_thr [OF Cons.prems(1)] by (auto simp: open_list_def)
    have d1: "dead g1 v = dead g v" if "v \<in> set us" for v
      using cl other(2) [OF that] that Cons.prems(4) by (auto simp: closes_def closable_def)
    have "open_list g1 L us" using Cons.prems(3) L1 other by (auto simp: open_list_def)
    moreover have "closable g1 us"
      using Cons.prems(4) cl d1 wf1 by (auto simp: closable_def closes_def)
    ultimately obtain g' where g': "close_loop L n us g1 = Ok ((), g')" "bodies g' = closed_all g1 L n us"
      "gcstate g' = gcstate g1" "currentwhite g' = currentwhite g1"
      using Cons.IH [OF L1(1)] L1(2) by auto
    have al: "at_least g1 n v = at_least g n v" "closed_body g1 L v = closed_body g L v" if "v \<in> set us" for v
      using other [OF that] d1 [OF that] L1 Cons.prems(3) that by (auto simp: at_least_def closed_body_def open_list_def)
    then have tw: "takeWhile (at_least g1 n) us = takeWhile (at_least g n) us" "dropWhile (at_least g1 n) us = dropWhile (at_least g n) us"
      by (auto intro: takeWhile_cong dropWhile_cong)
    have "at_least g n u" using False u by (simp add: at_least_def)
    then have "closed_all g1 L n us = closed_all g L n (u # us)"
      using al(2) set_takeWhileD [of _ "at_least g n" us] other(2) ne
      by (auto simp: closed_all_def tw L1 b1 fun_eq_iff)
    with g' cl g1 False show ?thesis by (auto simp: close_loop_Cons [OF x] sbind_Ok closes_def simp del: close_loop.simps)
  qed
qed

end
