(* ===== verification/LuaRegisters.thy ===== *)
theory LuaRegisters
  imports LuaMachine LuaUpval
begin

text \<open>
  The instructions that read and write only registers, constants and upvalues return, keep the
  frame, and are steps the collector allows between its own.
\<close>

section \<open>The frame\<close>

text \<open>\<open>running B L fr\<close>: the current call of the thread is of a Lua function, and \<open>fr\<close> is its frame.\<close>

definition running :: "objects \<Rightarrow> ptr \<Rightarrow> frame \<Rightarrow> bool" where
  "running B L fr \<longleftrightarrow>
     (\<exists>t p e f u h. B L = Some (OThread t) \<and> L_ci t < length (L_base_ci t)
        \<and> ci_func (L_base_ci t ! L_ci t) < length (L_stack t) \<and> L_stack t ! ci_func (L_base_ci t ! L_ci t) = VFunction p
        \<and> B p = Some (OClosure (LClosure e f u)) \<and> B f = Some (OProto h)
        \<and> fr = \<lparr>fr_base = L_base t, fr_env = e, fr_proto = h, fr_upvals = u\<rparr>)"

lemma gco2cl_iff: "gco2cl p g = Ok (c, g') \<longleftrightarrow> g' = g \<and> bodies g p = Some (OClosure c)"
  by (auto simp: gco2cl_def sbind_def get_obj_def bodies_def split: option.splits body.splits)

lemma gco2p_iff: "gco2p p g = Ok (f, g') \<longleftrightarrow> g' = g \<and> bodies g p = Some (OProto f)"
  by (auto simp: gco2p_def sbind_def get_obj_def bodies_def split: option.splits body.splits)

lemma current_running:
  assumes "running (bodies g) L fr"
  shows "current L g = Return fr g"
proof -
  obtain t p e f u h where r: "bodies g L = Some (OThread t)" "L_ci t < length (L_base_ci t)"
    "ci_func (L_base_ci t ! L_ci t) < length (L_stack t)" "L_stack t ! ci_func (L_base_ci t ! L_ci t) = VFunction p"
    "bodies g p = Some (OClosure (LClosure e f u))" "bodies g f = Some (OProto h)"
    "fr = \<lparr>fr_base = L_base t, fr_env = e, fr_proto = h, fr_upvals = u\<rparr>"
    using assms unfolding running_def by blast
  have t: "is_thr g L" "thr g L = t" using thr_bodies r(1) by auto
  have "lift0 (gco2cl p) g = Return (LClosure e f u) g" "lift0 (gco2p f) g = Return h g"
    using gco2cl_iff [of p g "LClosure e f u" g] gco2p_iff [of f g h g] r(5,6) by (simp_all add: lift0_def)
  then show ?thesis
    using r t by (simp add: current_def bnd_Return [where m = "lift0 (gco2cl p)"] bnd_Return [where m = "lift0 (gco2p f)"])
qed

text \<open>The slot of the function that runs\<close>

definition func_slot :: "lua_State \<Rightarrow> nat" where
  "func_slot t = ci_func (L_base_ci t ! L_ci t)"

text \<open>
  The frame fits: the registers are within what the calls use, the closure has its upvalues, the
  heap is well-formed, the stacks hold good values, no upvalue points to the slot of the function,
  and no thread or open upvalue is black.
\<close>

definition fits_objects :: "objects \<Rightarrow> ptr \<Rightarrow> frame \<Rightarrow> Proto \<Rightarrow> bool" where
  "fits_objects B L fr pt \<longleftrightarrow> running B L fr \<and> wf_store B
     \<and> (\<exists>t. B L = Some (OThread t) \<and> L_hookmask t AND 12 = 0 \<and> fr_base fr + unat (maxstacksize pt) \<le> stack_limit t
          \<and> func_slot t < fr_base fr \<and> (\<forall>u. B u \<noteq> Some (OUpVal (UpVal.Open L (func_slot t)))))
     \<and> length (fr_upvals fr) = unat (nups pt)"

definition fits :: "global_State \<Rightarrow> ptr \<Rightarrow> frame \<Rightarrow> Proto \<Rightarrow> bool" where
  "fits g L fr pt \<longleftrightarrow> fits_objects (bodies g) L fr pt \<and> describes g (fr_proto fr) pt
     \<and> (\<forall>p t. bodies g p = Some (OThread t) \<longrightarrow> stack_ok g p t) \<and> (\<forall>p. \<not> black_late g p)"

lemma fits_thr:
  assumes "fits g L fr pt"
  shows "is_thr g L" and "current L g = Return fr g" and "quiet g L" and "wf_store (bodies g)"
    and "describes g (fr_proto fr) pt" and "stack_ok g L (thr g L)"
    and "fr_base fr + unat (maxstacksize pt) \<le> stack_limit (thr g L)" and "func_slot (thr g L) < fr_base fr"
    and "length (fr_upvals fr) = unat (nups pt)"
  using assms thr_bodies [of g L]
  by (auto simp: fits_def fits_objects_def quiet_def dest: current_running)

lemma fits_late:
  "fits g L fr pt \<Longrightarrow> heap g p = Some x \<Longrightarrow> kind (body x) = 8 \<or> open_body (body x) \<Longrightarrow> \<not> isblack (marked x)"
  unfolding fits_def black_late_def by blast

section \<open>Writes\<close>

lemma limit_length: "stack_ok g p t \<Longrightarrow> i \<le> stack_limit t \<Longrightarrow> i < length (L_stack t)"
  by (simp add: stack_ok_def thread_shape_def)

lemma limit_update [simp]: "stack_limit (t\<lparr>L_stack := xs\<rparr>) = stack_limit t"
  by (simp add: stack_limit_def)

lemma stack_ok_update:
  assumes "stack_ok g p t" and "i \<le> stack_limit t" and "good_value g v"
  shows "stack_ok g p (t\<lparr>L_stack := (L_stack t)[i := v]\<rparr>)"
proof -
  have "thread_shape (t\<lparr>L_stack := (L_stack t)[i := v]\<rparr>)"
    using assms set_update_subset_insert [of "L_stack t" i v] by (auto simp: stack_ok_def thread_shape_def good_value_def)
  then show ?thesis using assms by (auto simp: stack_ok_def nth_list_update thread_shape_def)
qed

lemma is_obj_update: "B p = Some b \<Longrightarrow> kind b' = kind b \<Longrightarrow> is_obj (B(p \<mapsto> b')) k q = is_obj B k q"
  by (auto simp: is_obj_def)

text \<open>A write to a slot of a stack\<close>

lemma write_slot:
  assumes f: "fits g L fr pt" and q: "is_thr g q" "i \<le> stack_limit (thr g q)" "q = L \<Longrightarrow> i \<noteq> func_slot (thr g L)"
    and v: "good_value g v"
  obtains g' where "sset q i v g = Return () g'" and "gc_step c M g g'" and "fits g' L fr pt"
    and "g' = set_thr g q ((thr g q)\<lparr>L_stack := (L_stack (thr g q))[i := v]\<rparr>)"
proof -
  let ?t = "(thr g q)\<lparr>L_stack := (L_stack (thr g q))[i := v]\<rparr>"
  obtain x where x: "heap g q = Some x" "body x = OThread (thr g q)" by (rule is_thrE [OF q(1)])
  have ok: "stack_ok g q (thr g q)" using f bodies_thr [OF q(1)] by (auto simp: fits_def)
  have ok': "stack_ok g q ?t" by (rule stack_ok_update [OF ok q(2) v])
  have len: "i < length (L_stack (thr g q))" by (rule limit_length [OF ok q(2)])
  define g' where "g' = set_thr g q ?t"
  have nb: "\<not> isblack (marked x)" using fits_late [OF f x(1)] x(2) by simp
  have g': "g' = put g q (x\<lparr>body := OThread ?t\<rparr>)" using x by (simp add: g'_def set_thr_def)
  have B: "bodies g' = (bodies g)(q \<mapsto> OThread ?t)" by (simp add: g')
  have step: "gc_step c M g g'"
    by (rule gc_step.stack [OF x nb ok']) (simp add: g' set_body_Ok [OF x(1)])
  have wf: "wf_store (bodies g')" unfolding g' by (rule stack_wf [OF _ x ok']) (rule fits_thr(4) [OF f])
  have bq: "bodies g q = Some (OThread (thr g q))" by (rule bodies_thr [OF q(1)])
  have obj: "is_obj (bodies g') k p = is_obj (bodies g) k p" for k p unfolding B by (rule is_obj_update [where B = "bodies g", OF bq]) simp
  have good: "good_value g' w = good_value g w" for w by (simp add: good_value_def obj)
  have stacks: "stack_ok g' p t" if "bodies g' p = Some (OThread t)" for p t
  proof (cases "p = q")
    case True
    then have "t = ?t" using that by (simp add: B)
    with ok' True bq show ?thesis by (auto simp: stack_ok_def good B)
  next
    case False
    then have "stack_ok g p t" using that f by (simp add: B fits_def)
    with bq show ?thesis by (auto simp: stack_ok_def good B)
  qed
  have run: "running (bodies g') L fr"
  proof -
    obtain t p e h u k where r: "bodies g L = Some (OThread t)" "L_ci t < length (L_base_ci t)"
      "func_slot t < length (L_stack t)" "L_stack t ! func_slot t = VFunction p"
      "bodies g p = Some (OClosure (LClosure e h u))" "bodies g h = Some (OProto k)"
      "fr = \<lparr>fr_base = L_base t, fr_env = e, fr_proto = k, fr_upvals = u\<rparr>"
      using f unfolding fits_def fits_objects_def running_def func_slot_def by blast
    have "p \<noteq> q" "h \<noteq> q" using r(5,6) bq by auto
    moreover have "q = L \<Longrightarrow> t = thr g L" using r(1) bq by simp
    ultimately show ?thesis using r q(3) bq unfolding running_def B func_slot_def by (cases "q = L") auto
  qed
  have "\<exists>t. bodies g' L = Some (OThread t) \<and> L_hookmask t AND 12 = 0 \<and> fr_base fr + unat (maxstacksize pt) \<le> stack_limit t
          \<and> func_slot t < fr_base fr \<and> (\<forall>u. bodies g' u \<noteq> Some (OUpVal (UpVal.Open L (func_slot t))))"
    using f bq by (auto simp: fits_def fits_objects_def B func_slot_def)
  then have "fits_objects (bodies g') L fr pt" using run wf f by (simp add: fits_def fits_objects_def)
  moreover have "describes g' (fr_proto fr) pt" using fits_thr(5) [OF f] by (auto simp: describes_def B)
  moreover have "\<not> black_late g' p" for p
    using f nb by (auto simp: fits_def black_late_def g')
  ultimately have "fits g' L fr pt" using stacks by (simp add: fits_def)
  moreover have "sset q i v g = Return () g'" using q(1) len by (simp add: g'_def)
  ultimately show thesis using that step by (simp add: g'_def)
qed

text \<open>The barrier marks at most, or makes the upvalue white when the collector sweeps.\<close>

lemma barrier_keeps:
  assumes wf: "wf_store (bodies g)" and p: "bodies g p = Some (OUpVal (UpVal.Closed v))"
  obtains g' where "luaC_barrier p v g = Ok ((), g')" and "bodies g' = bodies g" and "\<And>q. black_late g' q \<Longrightarrow> black_late g q"
proof (cases "gcstate g = GCSpropagate")
  case True
  obtain g' where "luaC_barrier p v g = Ok ((), g')" "only_marks g g'" by (rule marks_onlyE [OF barrier_only [OF wf True p]])
  then show thesis by (intro that [of g']) (simp_all add: only_marks_def)
next
  case False
  obtain x where x: "heap g p = Some x" "body x = OUpVal (UpVal.Closed v)" using p by (auto simp: bodies_def)
  let ?g = "put g p (x\<lparr>marked := makewhite (currentwhite g) (marked x)\<rparr>)"
  have b: "bodies ?g = bodies g" using bodies_same [OF x(1) refl] by simp
  have k: "black_late ?g q \<Longrightarrow> black_late g q" for q using x by (auto simp: black_late_def split: if_splits)
  show thesis
  proof (cases "iscollectable v")
    case True
    have "ttype v \<noteq> 11" "\<forall>(k, q) \<in> vref v. is_obj (bodies g) k q" using wf p by (fastforce simp: wf_store_def)+
    then have "is_obj (bodies g) (ttype v) (gcvalue v)" using True by (simp add: vref_def)
    then obtain y where y: "heap g (gcvalue v) = Some y" by (auto simp: is_obj_def bodies_def)
    show thesis
    proof (cases "iswhite (marked y) \<and> isblack (marked x)")
      case True
      then have "luaC_barrier p v g = Ok ((), ?g)"
        using \<open>iscollectable v\<close> False
        by (simp add: luaC_barrier_def bind_marked_of [OF x(1)] bind_marked_of [OF y] luaC_barrierf_def upd_mark_Ok [OF x(1)])
      then show thesis using that b k by blast
    next
      case False
      then have "luaC_barrier p v g = Ok ((), g)"
        using \<open>iscollectable v\<close>
        by (auto simp: luaC_barrier_def bind_marked_of [OF x(1)] bind_marked_of [OF y] sret_def)
      then show thesis using that by blast
    qed
  qed (use that in \<open>simp add: luaC_barrier_def sret_def\<close>)
qed

text \<open>A write to a closed upvalue\<close>

lemma write_closed:
  assumes f: "fits g L fr pt" and u: "bodies g u = Some (OUpVal (UpVal.Closed w))" and v: "good_value g v"
  obtains g' where "write_upval u v g = Return () g'" and "gc_step c M g g'" and "fits g' L fr pt"
proof -
  obtain x where x: "heap g u = Some x" "body x = OUpVal (UpVal.Closed w)" using u by (auto simp: bodies_def)
  let ?b = "OUpVal (UpVal.Closed v)"
  define g1 where "g1 = put g u (x\<lparr>body := ?b\<rparr>)"
  have s: "set_body u ?b g = Ok ((), g1)" by (simp add: g1_def set_body_Ok [OF x(1)])
  have B: "bodies g1 = (bodies g)(u \<mapsto> ?b)" by (simp add: g1_def)
  have "ttype v \<noteq> 11" and vo: "\<forall>(k, q) \<in> vref v. is_obj (bodies g) k q" using v by (auto simp: good_value_def)
  then have wf1: "wf_store (bodies g1)" unfolding B by (rule wf_put_closed [OF fits_thr(4) [OF f] u])
  obtain g' where g': "luaC_barrier u v g1 = Ok ((), g')" "bodies g' = bodies g1" "\<And>q. black_late g' q \<Longrightarrow> black_late g1 q"
    using barrier_keeps [OF wf1, of u v] by (auto simp: B)
  have "write_ok g u x ?b (vref v)" using x v vo by (auto simp: write_ok_def good_value_def)
  moreover have "sbind (set_body u ?b) (\<lambda>_. luaC_barrier u v) g = Ok ((), g')" by (simp add: sbind_Ok [where m = "set_body u ?b", OF s] g'(1))
  ultimately have step: "gc_step c M g g'" using v by (intro gc_step.object) (auto simp: good_value_def)
  have obj: "is_obj (bodies g') k q = is_obj (bodies g) k q" for k q
    unfolding g'(2) B by (rule is_obj_update [where B = "bodies g", OF u]) simp
  have good: "good_value g' v = good_value g v" for v by (simp add: good_value_def obj)
  have th: "bodies g' p = Some (OThread t) \<longleftrightarrow> bodies g p = Some (OThread t)" for p t using u by (auto simp: g'(2) B)
  have same: "bodies g' p = Some b \<longleftrightarrow> bodies g p = Some b" if "kind b \<noteq> 10" for p b using u that by (auto simp: g'(2) B)
  have op: "bodies g' p = Some (OUpVal (UpVal.Open q i)) \<Longrightarrow> bodies g p = Some (OUpVal (UpVal.Open q i))" for p q i
    by (auto simp: g'(2) B split: if_splits)
  have "running (bodies g') L fr" using f by (simp add: fits_def fits_objects_def running_def same)
  moreover have "\<exists>t. bodies g' L = Some (OThread t) \<and> L_hookmask t AND 12 = 0 \<and> fr_base fr + unat (maxstacksize pt) \<le> stack_limit t
          \<and> func_slot t < fr_base fr \<and> (\<forall>u. bodies g' u \<noteq> Some (OUpVal (UpVal.Open L (func_slot t))))"
    using f op unfolding fits_def fits_objects_def th by blast
  ultimately have "fits_objects (bodies g') L fr pt"
    using f wf1 by (simp add: fits_def fits_objects_def g'(2) [symmetric])
  moreover have "describes g' (fr_proto fr) pt" using fits_thr(5) [OF f] by (simp add: describes_def same)
  moreover have "stack_ok g' p t" if "bodies g' p = Some (OThread t)" for p t
  proof -
    have "stack_ok g p t" using that f by (simp add: th fits_def)
    then show ?thesis using op unfolding stack_ok_def good by blast
  qed
  moreover have "black_late g1 p \<Longrightarrow> black_late g p" for p by (auto simp: black_late_def g1_def split: if_splits)
  then have "\<not> black_late g' p" for p using f g'(3) unfolding fits_def by blast
  ultimately have "fits g' L fr pt" by (simp add: fits_def)
  moreover have "write_upval u v g = Return () g'"
    using x g'(1)
    by (simp add: write_upval_def lift0_def bnd_def gco2uv_Ok [OF x] s)
  ultimately show thesis using that step by blast
qed

text \<open>A write to an upvalue\<close>

lemma barrier_open:
  assumes "heap g u = Some x" and "\<not> isblack (marked x)" and "good_value g v"
  shows "luaC_barrier u v g = Ok ((), g)"
proof (cases "iscollectable v")
  case True
  with assms(3) have "is_obj (bodies g) (ttype v) (gcvalue v)" by (auto simp: good_value_def vref_def)
  then obtain y where y: "heap g (gcvalue v) = Some y" by (auto simp: is_obj_def bodies_def)
  then show ?thesis using assms(2) by (simp add: luaC_barrier_def bind_marked_of [OF assms(1)] bind_marked_of [OF y] sret_def)
qed (simp add: luaC_barrier_def sret_def)

lemma write_upval_keeps:
  assumes f: "fits g L fr pt" and u: "bodies g u = Some (OUpVal uv)" and v: "good_value g v"
  obtains g' where "write_upval u v g = Return () g'" and "gc_step c M g g'" and "fits g' L fr pt"
proof (cases uv)
  case (Closed w)
  with write_closed [OF f _ v] u that show thesis by metis
next
  case (Open q i)
  have wf: "wf_store (bodies g)" by (rule fits_thr(4) [OF f])
  have "shape (bodies g) (OUpVal uv)" using wf u unfolding wf_store_def by blast
  then obtain t where t: "bodies g q = Some (OThread t)" "i \<le> stack_limit t" using Open by auto
  then have q: "is_thr g q" "thr g q = t" using thr_bodies by auto
  have nf: "q = L \<Longrightarrow> i \<noteq> func_slot (thr g L)"
    using f u Open q t(1) by (auto simp: fits_def fits_objects_def)
  obtain g' where g': "sset q i v g = Return () g'" "gc_step c M g g'" "fits g' L fr pt"
    and e: "g' = set_thr g q ((thr g q)\<lparr>L_stack := (L_stack (thr g q))[i := v]\<rparr>)"
    using write_slot [OF f q(1) _ nf v] t(2) q(2) by metis
  obtain x where x: "heap g u = Some x" "body x = OUpVal uv" using u by (auto simp: bodies_def)
  have ne: "u \<noteq> q" using u t(1) by auto
  then have x': "heap g' u = Some x" using x(1) by (simp add: e heap_set_thr)
  have nb: "\<not> isblack (marked x)" using fits_late [OF f x(1)] x(2) Open by simp
  have "is_obj (bodies g') k p = is_obj (bodies g) k p" for k p
    using is_obj_update [where B = "bodies g", OF bodies_thr [OF q(1)]] by (simp add: e set_thr_def)
  then have "good_value g' v" using v by (simp add: good_value_def)
  from barrier_open [OF x' nb this] have "write_upval u v g = Return () g'"
    using Open g'(1) by (simp add: write_upval_def lift0_def bnd_def gco2uv_Ok [OF x])
  with g' that show thesis by blast
qed

section \<open>Reads\<close>

text \<open>A register that the frame has\<close>

lemma register_slot:
  assumes f: "fits g L fr pt" and r: "0 \<le> r" "r < uint (maxstacksize pt)"
  shows "reg fr r \<le> stack_limit (thr g L)" and "reg fr r \<noteq> func_slot (thr g L)" and "reg fr r < length (L_stack (thr g L))"
    and "good_value g (L_stack (thr g L) ! reg fr r)"
proof -
  have n: "nat r < unat (maxstacksize pt)" using r by (simp add: nat_less_iff)
  show l: "reg fr r \<le> stack_limit (thr g L)" using fits_thr(7) [OF f] n by (simp add: reg_def)
  show "reg fr r \<noteq> func_slot (thr g L)" using fits_thr(8) [OF f] by (simp add: reg_def)
  show "reg fr r < length (L_stack (thr g L))" by (rule limit_length [OF fits_thr(6) [OF f] l])
  show "good_value g (L_stack (thr g L) ! reg fr r)" using fits_thr(6) [OF f] l by (simp add: stack_ok_def)
qed

lemma write_register:
  assumes f: "fits g L fr pt" and r: "0 \<le> r" "r < uint (maxstacksize pt)" and v: "good_value g v"
  obtains g' where "sset L (reg fr r) v g = Return () g'" and "gc_step c M g g'" and "fits g' L fr pt"
    and "g' = set_thr g L ((thr g L)\<lparr>L_stack := (L_stack (thr g L))[reg fr r := v]\<rparr>)"
  using write_slot [OF f fits_thr(1) [OF f] register_slot(1) [OF f r] _ v] register_slot(2) [OF f r] by metis

lemma get_reg_Return:
  assumes f: "fits g L fr pt" and r: "0 \<le> r" "r < uint (maxstacksize pt)"
  shows "get_reg L fr r g = Return (L_stack (thr g L) ! reg fr r, Some (reg fr r)) g"
  using fits_thr(1) [OF f] register_slot(3) [OF f r] by (simp add: get_reg_def)

text \<open>What the closure and its prototype hold\<close>

lemma frame_objects:
  assumes f: "fits g L fr pt"
  obtains p h where "bodies g p = Some (OClosure (LClosure (fr_env fr) h (fr_upvals fr)))" and "bodies g h = Some (OProto (fr_proto fr))"
  using f unfolding fits_def fits_objects_def running_def by force

lemma constant_good:
  assumes f: "fits g L fr pt" and k: "0 \<le> k" "k < sizek pt"
  shows "get_k fr k g = Return (h_k (fr_proto fr) ! nat k, None) g" and "good_value g (h_k (fr_proto fr) ! nat k)"
proof -
  have len: "k < int (length (h_k (fr_proto fr)))" using fits_thr(5) [OF f] k by (simp add: describes_def)
  then show "get_k fr k g = Return (h_k (fr_proto fr) ! nat k, None) g" using k by (simp add: get_k_def)
  obtain p h where h: "bodies g h = Some (OProto (fr_proto fr))" by (rule frame_objects [OF f])
  let ?v = "h_k (fr_proto fr) ! nat k"
  have m: "?v \<in> set (h_k (fr_proto fr))" using len k by simp
  have "shape (bodies g) (OProto (fr_proto fr))" using fits_thr(4) [OF f] h unfolding wf_store_def by blast
  with m have "ttype ?v \<noteq> 11" by simp
  moreover have "vref ?v \<subseteq> refs (bodies g) (OProto (fr_proto fr))" using m by auto
  then have "\<forall>(k, q) \<in> vref ?v. is_obj (bodies g) k q" using wf_obj_at [OF fits_thr(4) [OF f] h] by blast
  ultimately show "good_value g ?v" by (simp add: good_value_def)
qed

lemma get_upval_Return:
  assumes f: "fits g L fr pt" and b: "0 \<le> b" "b < uint (nups pt)"
  obtains u uv where "get_upval fr b g = Return u g" and "bodies g u = Some (OUpVal uv)"
proof -
  have len: "nat b < length (fr_upvals fr)" using fits_thr(9) [OF f] b by (simp add: nat_less_iff)
  obtain p h where p: "bodies g p = Some (OClosure (LClosure (fr_env fr) h (fr_upvals fr)))" by (rule frame_objects [OF f])
  have "shape (bodies g) (OClosure (LClosure (fr_env fr) h (fr_upvals fr)))" using fits_thr(4) [OF f] p unfolding wf_store_def by blast
  then obtain u where u: "fr_upvals fr ! nat b = Some u" using len nth_mem by fastforce
  have "Some u \<in> set (fr_upvals fr)" using u nth_mem [OF len] by simp
  then have "(10, u) \<in> refs (bodies g) (OClosure (LClosure (fr_env fr) h (fr_upvals fr)))"
    by (auto simp: oref_def intro!: bexI [where x = "Some u"])
  from wf_obj_at [OF fits_thr(4) [OF f] p this] obtain w where w: "bodies g u = Some w" "kind w = 10" by (auto simp: is_obj_def)
  then obtain uv where "w = OUpVal uv" using kind_cases(7) by blast
  moreover have "b < int (length (fr_upvals fr))" using len b by linarith
  ultimately show thesis using w that [of u uv] u b by (simp add: get_upval_def)
qed

lemma read_upval_Return:
  assumes f: "fits g L fr pt" and u: "bodies g u = Some (OUpVal uv)"
  obtains v where "read_upval u g = Return v g" and "good_value g v"
proof -
  obtain x where x: "heap g u = Some x" "body x = OUpVal uv" using u by (auto simp: bodies_def)
  obtain v where "uv_value uv g = Ok (v, g)" "ttype v \<noteq> 11" "\<forall>(k, q) \<in> vref v. is_obj (bodies g) k q"
    by (rule wf_value [OF fits_thr(4) [OF f] u])
  then show thesis using that by (simp add: read_upval_def lift0_def bind_gco(5) [OF x] good_value_def)
qed

section \<open>Instructions\<close>

text \<open>\<open>OP_LOADNIL\<close>\<close>

lemma fill_registers:
  "fits g L fr pt \<Longrightarrow> 0 \<le> r \<Longrightarrow> r + int n \<le> uint (maxstacksize pt) \<Longrightarrow>
     \<exists>g'. fill_nil L (reg fr r) n g = Return () g' \<and> (gc_step c M)\<^sup>*\<^sup>* g g' \<and> fits g' L fr pt"
proof (induction n arbitrary: r g)
  case (Suc n)
  have "good_value g VNil" by (simp add: good_value_def vref_def iscollectable_def)
  with Suc.prems obtain g1 where g1: "sset L (reg fr r) VNil g = Return () g1" "gc_step c M g g1" "fits g1 L fr pt"
    using write_register [of g L fr pt r VNil] by (metis add_increasing2 int_Suc less_le_trans of_nat_0_le_iff of_nat_Suc zless_iff_Suc_zadd)
  have "reg fr (r + 1) = Suc (reg fr r)" using Suc.prems(2) by (simp add: reg_def nat_add_distrib)
  moreover obtain g' where "fill_nil L (reg fr (r + 1)) n g1 = Return () g'" "(gc_step c M)\<^sup>*\<^sup>* g1 g'" "fits g' L fr pt"
    using Suc.IH [OF g1(3), of "r + 1"] Suc.prems by auto
  ultimately show ?case
    using g1 by (auto simp: bnd_Return [where m = "sset L (reg fr r) VNil"] intro: converse_rtranclp_into_rtranclp)
qed auto

definition register_ops :: "OpCode list" where
  "register_ops = [OP_MOVE, OP_LOADK, OP_LOADBOOL, OP_LOADNIL, OP_GETUPVAL, OP_SETUPVAL, OP_NOT, OP_JMP, OP_TEST, OP_TESTSET]"

text \<open>A turn returns, and the frame and the collector allow what it wrote.\<close>

definition runs_on :: "caller \<Rightarrow> ptr \<Rightarrow> ptr \<Rightarrow> frame \<Rightarrow> Proto \<Rightarrow> turn vm \<Rightarrow> global_State \<Rightarrow> bool" where
  "runs_on c M L fr pt m g \<longleftrightarrow> (\<exists>q g'. m g = Return (Continue q) g' \<and> (gc_step c M)\<^sup>*\<^sup>* g g' \<and> fits g' L fr pt)"

lemma runs_on_write:
  assumes f: "fits g L fr pt" and r: "0 \<le> r" "r < uint (maxstacksize pt)" and v: "good_value g v"
    and k: "\<And>g'. fits g' L fr pt \<Longrightarrow> runs_on c M L fr pt k g'"
  shows "runs_on c M L fr pt (bnd (sset L (reg fr r) v) (\<lambda>_. k)) g"
proof -
  obtain g1 where g1: "sset L (reg fr r) v g = Return () g1" "gc_step c M g g1" "fits g1 L fr pt"
    by (rule write_register [OF f r v])
  from k [OF g1(3)] g1(1,2) show ?thesis
    unfolding runs_on_def bnd_Return [where m = "sset L (reg fr r) v", OF g1(1)] by (meson converse_rtranclp_into_rtranclp)
qed

lemma runs_on_continue: "fits g L fr pt \<Longrightarrow> runs_on c M L fr pt (ret (Continue q)) g"
  by (auto simp: runs_on_def)

lemma runs_on_read: "m g = Return x g \<Longrightarrow> runs_on c M L fr pt (f x) g \<Longrightarrow> runs_on c M L fr pt (bnd m f) g"
  by (simp add: runs_on_def bnd_def)

lemma runs_on_jump: "fits g L fr pt \<Longrightarrow> 0 \<le> int pc + d \<Longrightarrow> runs_on c M L fr pt (jump_to pc d) g"
  by (auto simp: runs_on_def jump_to_def)

lemma good_boolean: "good_value g (VBoolean b)"
  by (simp add: good_value_def vref_def iscollectable_def)

text \<open>The jump after a test, both of whose ends the function has\<close>

lemma runs_on_test:
  assumes "fits g L fr pt" and "Suc pc < length (h_code (fr_proto fr))"
    and "0 \<le> int pc + 2 + GETARG_sBx (h_code (fr_proto fr) ! Suc pc)"
  shows "runs_on c M L fr pt (test_jump fr (Suc pc) b) g"
proof (cases b)
  case True
  have "fetch_at (fr_proto fr) (Suc pc) g = Return (h_code (fr_proto fr) ! Suc pc) g" using assms(2) by (simp add: fetch_at_def)
  with assms True show ?thesis by (auto simp: test_jump_def intro!: runs_on_read runs_on_jump)
qed (use assms in \<open>simp add: test_jump_def runs_on_continue\<close>)

lemma register_switch:
  assumes f: "fits g L fr pt" and op: "op_at pt (int pc) = Some op" "op \<in> set register_ops" and i: "i = instr_at pt (int pc)"
    and ok: "operands_ok pt (int pc)" and nx: "\<And>q. q \<in> set (succs pt (int pc)) \<Longrightarrow> 0 \<le> q \<and> q < sizecode pt"
  shows "runs_on c M L fr pt (vm_switch E L fr n (Suc pc) i op) g"
proof -
  let ?a = "GETARG_A i" and ?b = "arg_b op i" and ?c = "arg_c op i"
  have regs: "\<And>r. r \<in> set (registers op ?a ?b ?c) \<Longrightarrow> 0 \<le> r \<and> r < uint (maxstacksize pt)"
    and ks: "\<And>k. k \<in> set (constants op ?b ?c) \<Longrightarrow> 0 \<le> k \<and> k < sizek pt"
    and up: "op \<in> {OP_GETUPVAL, OP_SETUPVAL} \<Longrightarrow> ?b < uint (nups pt)"
    using ok op(1) i by (auto simp: operands_ok_def op_at_def Let_def)
  have rd: "runs_on c M L fr pt (bnd (get_reg L fr r) k) g"
    if "0 \<le> r" "r < uint (maxstacksize pt)" "runs_on c M L fr pt (k (L_stack (thr g L) ! reg fr r, Some (reg fr r))) g" for r k
    using get_reg_Return [OF f that(1,2)] that(3) by (simp add: runs_on_def bnd_def)
  have sg: "runs_on c M L fr pt (bnd (sget L (reg fr r)) k) g"
    if "0 \<le> r" "r < uint (maxstacksize pt)" "runs_on c M L fr pt (k (L_stack (thr g L) ! reg fr r)) g" for r k
    using fits_thr(1) [OF f] register_slot(3) [OF f that(1,2)] that(3) by (simp add: runs_on_def)
  note go = go_on_def bnd_assoc
  have tj: "runs_on c M L fr pt (test_jump fr (Suc pc) b) g'" if "op \<in> {OP_TEST, OP_TESTSET}" "fits g' L fr pt" for b g'
  proof -
    have "int pc + 2 \<in> set (succs pt (int pc))" "int pc + 2 + GETARG_sBx (instr_at pt (int pc + 1)) \<in> set (succs pt (int pc))"
      using that(1) op(1) by (auto simp: succs_def testTMode_iff)
    with nx have "int pc + 2 < sizecode pt" "0 \<le> int pc + 2 + GETARG_sBx (instr_at pt (int pc + 1))" by auto
    with fits_thr(5) [OF f] instr_described(2) [OF fits_thr(5) [OF f], of pc] show ?thesis
      by (intro runs_on_test [OF that(2)]) (simp_all add: describes_def add.commute)
  qed
  from op(2) consider (move) "op = OP_MOVE" | (loadk) "op = OP_LOADK" | (loadbool) "op = OP_LOADBOOL" | (loadnil) "op = OP_LOADNIL"
    | (getup) "op = OP_GETUPVAL" | (sup) "op = OP_SETUPVAL" | (lnot) "op = OP_NOT" | (jmp) "op = OP_JMP"
    | (test) "op = OP_TEST" | (testset) "op = OP_TESTSET" by (auto simp: register_ops_def)
  then show ?thesis
  proof cases
    case move
    then have r: "0 \<le> ?a" "?a < uint (maxstacksize pt)" "0 \<le> GETARG_B i" "GETARG_B i < uint (maxstacksize pt)"
      using regs by (auto simp: registers_def arg_b_def modes)
    show ?thesis
      using move by (auto simp: vm_switch_def Let_def go intro!: rd runs_on_write [OF f] register_slot(4) [OF f] runs_on_continue r)
  next
    case loadk
    then have r: "0 \<le> ?a" "?a < uint (maxstacksize pt)" "0 \<le> GETARG_Bx i" "GETARG_Bx i < sizek pt"
      using regs ks by (auto simp: registers_def constants_def arg_b_def modes)
    note k = constant_good [OF f r(3,4)]
    show ?thesis
      using loadk
      by (auto simp: vm_switch_def Let_def go intro!: runs_on_read [where m = "get_k fr (GETARG_Bx i)", OF k(1)] runs_on_write [OF f]
          k(2) runs_on_continue r(1,2))
  next
    case loadbool
    then have r: "0 \<le> ?a" "?a < uint (maxstacksize pt)" using regs by (auto simp: registers_def)
    show ?thesis
      using loadbool by (auto simp: vm_switch_def Let_def go intro!: runs_on_write [OF f] good_boolean runs_on_continue r)
  next
    case lnot
    then have r: "0 \<le> ?a" "?a < uint (maxstacksize pt)" "0 \<le> GETARG_B i" "GETARG_B i < uint (maxstacksize pt)"
      using regs by (auto simp: registers_def arg_b_def modes)
    show ?thesis
      using lnot by (auto simp: vm_switch_def Let_def go bool_value_def intro!: rd runs_on_write [OF f] good_boolean runs_on_continue r)
  next
    case jmp
    then have "int pc + 1 + GETARG_sBx i \<in> set (succs pt (int pc))" using op(1) i by (auto simp: succs_def)
    with nx have "0 \<le> int (Suc pc) + GETARG_sBx i" by fastforce
    with jmp f show ?thesis by (auto simp: vm_switch_def Let_def intro!: runs_on_jump)
  next
    case test
    then have r: "0 \<le> ?a" "?a < uint (maxstacksize pt)" using regs by (auto simp: registers_def)
    show ?thesis using test by (auto simp: vm_switch_def Let_def intro!: sg tj f r)
  next
    case testset
    then have r: "0 \<le> ?a" "?a < uint (maxstacksize pt)" "0 \<le> GETARG_B i" "GETARG_B i < uint (maxstacksize pt)"
      using regs by (auto simp: registers_def arg_b_def modes)
    show ?thesis
      using testset
      by (auto simp: vm_switch_def Let_def intro!: rd runs_on_write [OF f] register_slot(4) [OF f] tj f r)
  next
    case getup
    then have r: "0 \<le> ?a" "?a < uint (maxstacksize pt)" "0 \<le> GETARG_B i" "GETARG_B i < uint (nups pt)"
      using regs up by (auto simp: registers_def arg_b_def modes field_bounds)
    obtain u uv where u: "get_upval fr (GETARG_B i) g = Return u g" "bodies g u = Some (OUpVal uv)"
      by (rule get_upval_Return [OF f r(3,4)])
    obtain v where v: "read_upval u g = Return v g" "good_value g v" by (rule read_upval_Return [OF f u(2)])
    show ?thesis
      using getup
      by (auto simp: vm_switch_def Let_def go intro!: runs_on_read [where m = "get_upval fr (GETARG_B i)", OF u(1)]
          runs_on_read [where m = "read_upval u", OF v(1)] runs_on_write [OF f] v(2) runs_on_continue r(1,2))
  next
    case sup
    then have r: "0 \<le> ?a" "?a < uint (maxstacksize pt)" "0 \<le> GETARG_B i" "GETARG_B i < uint (nups pt)"
      using regs up by (auto simp: registers_def arg_b_def modes field_bounds)
    obtain u uv where u: "get_upval fr (GETARG_B i) g = Return u g" "bodies g u = Some (OUpVal uv)"
      by (rule get_upval_Return [OF f r(3,4)])
    obtain g' where w: "write_upval u (L_stack (thr g L) ! reg fr ?a) g = Return () g'" "gc_step c M g g'" "fits g' L fr pt"
      by (rule write_upval_keeps [OF f u(2) register_slot(4) [OF f r(1,2)]])
    have "runs_on c M L fr pt (bnd (write_upval u (L_stack (thr g L) ! reg fr ?a)) (\<lambda>_. ret (Continue (Suc pc)))) g"
      using w by (auto simp: runs_on_def bnd_Return [where m = "write_upval u _", OF w(1)])
    with sup show ?thesis
      by (auto simp: vm_switch_def Let_def go intro!: runs_on_read [where m = "get_upval fr (GETARG_B i)", OF u(1)] sg r(1,2))
  next
    case loadnil
    then have r: "0 \<le> ?a" "0 \<le> GETARG_B i" "GETARG_B i < uint (maxstacksize pt)"
      using regs [of ?b] by (auto simp: registers_def arg_b_def modes field_bounds)
    show ?thesis
    proof (cases "?a \<le> GETARG_B i")
      case True
      then obtain g' where "fill_nil L (reg fr ?a) (nat (GETARG_B i - ?a) + 1) g = Return () g'" "(gc_step c M)\<^sup>*\<^sup>* g g'" "fits g' L fr pt"
        using fill_registers [OF f r(1), of "nat (GETARG_B i - ?a) + 1" c M] r(3) by auto
      with True loadnil show ?thesis
        by (auto simp: vm_switch_def Let_def op_loadnil_def go_on_def runs_on_def bnd_def)
    next
      case False
      then show ?thesis
        using loadnil by (auto simp: vm_switch_def Let_def op_loadnil_def go_on_def good_value_def vref_def iscollectable_def
            intro!: runs_on_write [OF f r(2,3)] runs_on_continue)
    qed
  qed
qed

lemma register_turn:
  assumes ok: "luaG_checkcode pt = Ok True" "proto_code pt \<noteq> []" "no_gap pt" "LuaCheckSpec.reachable pt (int pc)"
    and f: "fits g L fr pt" and op: "op_at pt (int pc) = Some op" "op \<in> set register_ops"
  shows "\<exists>q g'. vm_step E L n pc g = Return (Continue q) g' \<and> LuaCheckSpec.reachable pt (int q) \<and> fits g' L fr pt
     \<and> (gc_step c M)\<^sup>*\<^sup>* g g'"
proof -
  note s = checkcode_sound [OF ok]
  have nx: "0 \<le> q \<and> q < sizecode pt" if "q \<in> set (succs pt (int pc))" for q
    using checkcode_sound [OF ok(1-3) reach_step [OF ok(4) that]] by simp
  have len: "pc < length (h_code (fr_proto fr))" using s fits_thr(5) [OF f] by (simp add: describes_def)
  have at: "instr_at pt (int pc) = h_code (fr_proto fr) ! pc" by (rule instr_described(1) [OF fits_thr(5) [OF f]])
  from register_switch [OF f op refl _ nx] s obtain q g' where
    r: "vm_switch E L fr n (Suc pc) (instr_at pt (int pc)) op g = Return (Continue q) g'" "(gc_step c M)\<^sup>*\<^sup>* g g'" "fits g' L fr pt"
    unfolding runs_on_def by blast
  have step: "vm_step E L n pc g = Return (Continue q) g'"
    using vm_step_quiet [OF fits_thr(2,3) [OF f] len] op(1) r(1) by (simp add: op_at_def at)
  with turn_reachable [OF ok fits_thr(2) [OF f] fits_thr(5) [OF f] fits_thr(3) [OF f] step] r show ?thesis by blast
qed

end
