(* ===== verification/LuaCallProps.thy ===== *)
theory LuaCallProps
  imports LuaUpval
begin

text \<open>The properties of calls: results, upvalues and error recovery, and a state they are applied to.\<close>

section \<open>A state with two calls\<close>

text \<open>
  The thread of \<open>tiny\<close> in its second call, of a function at 1 with the first register at 2, which
  wants two results, and an open upvalue at 6 for that register.
\<close>

definition called_thread :: lua_State where
  "called_thread = tiny_thread\<lparr>L_top := 4, L_base := 2, L_ci := 1,
     L_stack := [VNil, VTable 4, VNumber 1, VNumber 2] @ replicate 4 VNil, L_stack_last := 7,
     L_base_ci := [blank_ci\<lparr>ci_base := 1, ci_top := 5, ci_savedpc := 7\<rparr>,
       blank_ci\<lparr>ci_base := 2, ci_func := 1, ci_top := 6, ci_nresults := 2\<rparr>],
     L_openupval := [6]\<rparr>"

definition called :: global_State where
  "called = tiny\<lparr>heap := tiny_heap(1 \<mapsto> \<lparr>marked = 1, body = OThread called_thread\<rparr>,
     6 \<mapsto> \<lparr>marked = 1, body = OUpVal (UpVal.Open 1 2)\<rparr>), uvhead := [6]\<rparr>"

lemma called_thr [simp]: "is_thr called 1" "thr called 1 = called_thread"
  by (simp_all add: is_thr_def thr_def called_def)

lemma called_upval: "bodies called 6 = Some (OUpVal (UpVal.Open 1 2))"
  by (simp add: called_def bodies_def)

section \<open>Error recovery\<close>

lemma bnd_lift0 [simp]: "m g = Ok (x, g') \<Longrightarrow> bnd (lift0 m) f g = f x g'"
  by (simp add: bnd_def lift0_def)

lemma rawrunprotected_Throw: "f g = Throw s g' \<Longrightarrow> luaD_rawrunprotected f g = Return s g'"
  by (simp add: luaD_rawrunprotected_def)

lemma rawrunprotected_Return: "f g = Return x g' \<Longrightarrow> luaD_rawrunprotected f g = Return 0 g'"
  by (simp add: luaD_rawrunprotected_def)

text \<open>The array of calls, cut back to its limit when it has outgrown it and fits again\<close>

definition cut_calls :: "nat \<Rightarrow> CallInfo list \<Rightarrow> CallInfo list" where
  "cut_calls ci cs =
     (if LUAI_MAXCALLS < length cs \<and> ci + 1 < LUAI_MAXCALLS then take LUAI_MAXCALLS cs else cs)"

text \<open>
  The thread after a failed call: \<open>t\<close> is the thread before the call, \<open>t1\<close> where the error was
  raised.
\<close>

definition recovered :: "lua_State \<Rightarrow> lua_State \<Rightarrow> nat \<Rightarrow> ptr list \<Rightarrow> lua_State" where
  "recovered t t1 old_top us = t1\<lparr>L_openupval := us,
     L_stack := (L_stack t1)[old_top := L_stack t1 ! (L_top t1 - 1)], L_top := old_top + 1,
     L_nCcalls := L_nCcalls t, L_ci := L_ci t,
     L_base := ci_base (L_base_ci t1 ! L_ci t), L_savedpc := ci_savedpc (L_base_ci t1 ! L_ci t), L_allowhook := L_allowhook t,
     L_base_ci := cut_calls (L_ci t) (L_base_ci t1), L_errfunc := L_errfunc t\<rparr>"

lemma restore_limit_Return:
  assumes "is_thr g L" and "t = thr g L"
  obtains g' where "restore_stack_limit L g = Return () g'" and "is_thr g' L"
    and "thr g' L = t\<lparr>L_base_ci := cut_calls (L_ci t) (L_base_ci t)\<rparr>" and "\<And>p. p \<noteq> L \<Longrightarrow> bodies g' p = bodies g p"
proof (cases "LUAI_MAXCALLS < length (L_base_ci t) \<and> L_ci t + 1 < LUAI_MAXCALLS")
  case True
  obtain x where x: "heap g L = Some x" "body x = OThread t" using is_thrE assms by metis
  obtain n where n: "luaD_reallocCI L LUAI_MAXCALLS g = set_body L (OThread (t\<lparr>L_base_ci := take LUAI_MAXCALLS (L_base_ci t)\<rparr>)) (g\<lparr>totalbytes := n\<rparr>)"
    using True by (simp add: luaD_reallocCI_def bind_gco(2) [OF x] luaM_malloc_def sbind_Ok [where m = "modify _"] modify_def resize_list_def)
  have "heap (g\<lparr>totalbytes := n\<rparr>) L = Some x" using x by simp
  from n set_body_Ok [OF this]
  have r: "luaD_reallocCI L LUAI_MAXCALLS g = Ok ((), put (g\<lparr>totalbytes := n\<rparr>) L (x\<lparr>body := OThread (t\<lparr>L_base_ci := take LUAI_MAXCALLS (L_base_ci t)\<rparr>)\<rparr>))"
    by simp
  show ?thesis
    by (rule that [of "put (g\<lparr>totalbytes := n\<rparr>) L (x\<lparr>body := OThread (t\<lparr>L_base_ci := take LUAI_MAXCALLS (L_base_ci t)\<rparr>)\<rparr>)"])
      (use True assms r in \<open>simp_all add: restore_stack_limit_def lift0_def is_thr_def thr_def cut_calls_def\<close>)
next
  case False
  then show ?thesis
    by (intro that [of g]) (use assms in \<open>auto simp: restore_stack_limit_def cut_calls_def\<close>)
qed

lemma pcall_Throw:
  assumes t: "is_thr g L" "t = thr g L"
    and f: "func (set_thr g L (t\<lparr>L_errfunc := ef\<rparr>)) = Throw s g1" "s = LUA_ERRRUN \<or> s = LUA_ERRSYNTAX"
    and t1: "is_thr g1 L" "t1 = thr g1 L" "0 < L_top t1" "L_top t1 \<le> length (L_stack t1)" "old_top < length (L_stack t1)"
      "L_ci t < length (L_base_ci t1)"
    and us: "open_list g1 L (L_openupval t1)" "closable g1 (L_openupval t1)"
  obtains g' where "luaD_pcall E L func old_top ef g = Return s g'" and "is_thr g' L"
    and "thr g' L = recovered t t1 old_top (dropWhile (at_least g1 old_top) (L_openupval t1))"
    and "\<And>p. p \<noteq> L \<Longrightarrow> bodies g' p = closed_all g1 L old_top (L_openupval t1) p"
proof -
  let ?us = "dropWhile (at_least g1 old_top) (L_openupval t1)"
  obtain g2 where g2: "luaF_close L old_top g1 = Ok ((), g2)" "bodies g2 = closed_all g1 L old_top (L_openupval t1)"
  proof -
    obtain x where "heap g1 L = Some x" "body x = OThread t1" using is_thrE t1(1,2) by metis
    then have "luaF_close L old_top g1 = close_loop L old_top (L_openupval t1) g1"
      by (simp add: luaF_close_def bind_gco(2))
    with close_loop_closes [OF t1(1) _ us, of old_top] t1(2) that show thesis by metis
  qed
  have "bodies g1 L \<noteq> Some (OUpVal (UpVal.Open L i))" for i using bodies_thr [OF t1(1)] by simp
  then have "L \<notin> set (L_openupval t1)" using us(1) by (auto simp: open_list_def)
  then have "L \<notin> set (takeWhile (at_least g1 old_top) (L_openupval t1))" by (meson set_takeWhileD)
  then have "bodies g2 L = Some (OThread (t1\<lparr>L_openupval := ?us\<rparr>))" using g2(2) t1(2) by (simp add: closed_all_def)
  then have t2: "is_thr g2 L" "thr g2 L = t1\<lparr>L_openupval := ?us\<rparr>" using thr_bodies by auto
  let ?ci = "L_base_ci t1 ! L_ci t" and ?e = "L_stack t1 ! (L_top t1 - 1)"
  let ?t3 = "t1\<lparr>L_openupval := ?us, L_stack := (L_stack t1)[old_top := ?e], L_top := old_top + 1, L_nCcalls := L_nCcalls t,
      L_ci := L_ci t, L_base := ci_base ?ci, L_savedpc := ci_savedpc ?ci, L_allowhook := L_allowhook t\<rparr>"
  obtain g4 where g4: "restore_stack_limit L (set_thr g2 L ?t3) = Return () g4" "is_thr g4 L"
      "thr g4 L = ?t3\<lparr>L_base_ci := cut_calls (L_ci t) (L_base_ci t1)\<rparr>" "\<And>p. p \<noteq> L \<Longrightarrow> bodies g4 p = bodies (set_thr g2 L ?t3) p"
    using restore_limit_Return [of "set_thr g2 L ?t3" L ?t3] by auto
  have "luaD_pcall E L func old_top ef g = Return s (set_thr g4 L (recovered t t1 old_top ?us))"
    using t f t1 t2 g4(1-3)
    by (elim disjE) (simp_all add: luaD_pcall_def bnd_Return [OF rawrunprotected_Throw] g2(1) luaD_seterrorobj_def recovered_def bnd_Return)
  moreover have "bodies (set_thr g4 L (recovered t t1 old_top ?us)) p = closed_all g1 L old_top (L_openupval t1) p"
    if "p \<noteq> L" for p using that g4(4) g2(2) by (simp add: set_thr_def)
  ultimately show thesis by (intro that [of "set_thr g4 L (recovered t t1 old_top ?us)"]) simp_all
qed

text \<open>An environment whose functions do anything: the properties applied below do not depend on it.\<close>

definition bare_env :: env where
  "bare_env = \<lparr>alloc = (\<lambda>_. 9), cfun = (\<lambda>_ _ _. wild), hook_fun = (\<lambda>_ _ _ _ _. wild), call = (\<lambda>_ _ _. wild),
     number2str = (\<lambda>_. []), coll = (\<lambda>_ _. 0), num_pow = (\<lambda>a _. a), gc_bound = 0\<rparr>"

section \<open>Properties\<close>

text \<open>
  C14: closing upvalues returns; each open upvalue at or above the level becomes closed with the
  value its place in the stack had, or is freed when the collector has found it dead, and no other
  object changes, while the collector marks or not.
\<close>

theorem close_upvalues:
  assumes "is_thr g L" and "open_list g L (L_openupval (thr g L))" and "closable g (L_openupval (thr g L))"
  shows "\<exists>g'. luaF_close L n g = Ok ((), g') \<and> bodies g' = closed_all g L n (L_openupval (thr g L))"
proof -
  obtain x where "heap g L = Some x" "body x = OThread (thr g L)" by (rule is_thrE [OF assms(1)])
  then have "luaF_close L n g = close_loop L n (L_openupval (thr g L)) g" by (simp add: luaF_close_def bind_gco(2))
  with close_loop_closes [OF assms(1) refl assms(2,3)] show ?thesis by metis
qed

lemma called_open: "open_list called 1 [6]" "closable called [6]"
  by (simp_all add: open_list_def called_upval called_thread_def closable_def) (simp_all add: called_def tiny_def)

lemma called_closed: "closed_body called 1 6 = Some (OUpVal (UpVal.Closed (VNumber 1)))"
  by (simp add: closed_body_def called_upval called_thread_def)
    (simp add: dead_def called_def tiny_def isdead_def otherwhite_def)

theorem close_upvalues_witness:
  "\<exists>g'. luaF_close 1 2 called = Ok ((), g') \<and> bodies g' 6 = Some (OUpVal (UpVal.Closed (VNumber 1)))"
  using close_upvalues [of called 1 2] called_open called_closed
  by (auto simp: called_thread_def closed_all_def at_least_def called_upval)

text \<open>
  C13: a call that raises a run-time or a syntax error, the two that carry a value,
  under \<open>luaD_pcall\<close> returns its status: the error value is at
  \<open>old_top\<close> with the top just above it, the current call, the position, the count of C calls, the
  hooks and the error handler are those from before, the upvalues above are closed, and nothing else
  in the heap changes.
\<close>

theorem pcall_recovers:
  assumes "is_thr g L" and "t = thr g L"
    and "func (set_thr g L (t\<lparr>L_errfunc := ef\<rparr>)) = Throw s g1" and "s = LUA_ERRRUN \<or> s = LUA_ERRSYNTAX"
    and "is_thr g1 L" and "t1 = thr g1 L" and "0 < L_top t1" and "L_top t1 \<le> length (L_stack t1)"
    and "old_top < length (L_stack t1)" and "L_ci t < length (L_base_ci t1)"
    and "open_list g1 L (L_openupval t1)" and "closable g1 (L_openupval t1)"
  shows "\<exists>g'. luaD_pcall E L func old_top ef g = Return s g'
      \<and> thr g' L = recovered t t1 old_top (dropWhile (at_least g1 old_top) (L_openupval t1))
      \<and> (\<forall>p. p \<noteq> L \<longrightarrow> bodies g' p = closed_all g1 L old_top (L_openupval t1) p)"
  using pcall_Throw [where func = func and ef = ef and s = s, OF assms] by metis

theorem pcall_recovers_witness:
  "\<exists>g'. luaD_pcall bare_env 1 (luaD_throw LUA_ERRRUN) 2 0 called = Return LUA_ERRRUN g'
      \<and> L_stack (thr g' 1) ! 2 = VNumber 2 \<and> L_top (thr g' 1) = 3
      \<and> bodies g' 6 = Some (OUpVal (UpVal.Closed (VNumber 1)))"
proof -
  have e: "called_thread\<lparr>L_errfunc := 0\<rparr> = called_thread" by (simp add: called_thread_def tiny_thread_def)
  then have f: "luaD_throw LUA_ERRRUN (set_thr called 1 (called_thread\<lparr>L_errfunc := 0\<rparr>)) = Throw LUA_ERRRUN called"
    using set_thr_same [of called 1] by (simp add: luaD_throw_def)
  have "\<exists>g'. luaD_pcall bare_env 1 (luaD_throw LUA_ERRRUN) 2 0 called = Return LUA_ERRRUN g'
      \<and> thr g' 1 = recovered called_thread called_thread 2 (dropWhile (at_least called 2) (L_openupval called_thread))
      \<and> (\<forall>p. p \<noteq> 1 \<longrightarrow> bodies g' p = closed_all called 1 2 (L_openupval called_thread) p)"
    by (rule pcall_recovers [where func = "luaD_throw LUA_ERRRUN" and t = called_thread and ef = 0, OF _ _ f]) (use called_open in \<open>simp_all, simp_all add: called_thread_def\<close>)
  then show ?thesis
    using called_closed by (auto simp: recovered_def called_thread_def closed_all_def at_least_def called_upval)
qed

text \<open>
  C15: leaving a function returns to the caller's frame with exactly the results the caller wants,
  cut off or filled up with nil, in the place of the function, and changes no other slot.
\<close>

theorem poscall_results:
  assumes "is_thr g L" and "t = thr g L" and "\<not> bit (L_hookmask t) 1" and "L_ci t = Suc i" and "Suc i < length (L_base_ci t)"
    and "ci = L_base_ci t ! Suc i" and "prev = L_base_ci t ! i" and "ci_func ci \<le> first" and "- 1 \<le> ci_nresults ci"
    and "first \<le> L_top t" and "L_top t \<le> length (L_stack t)" and "ci_func ci + nat (ci_nresults ci) \<le> length (L_stack t)"
    and "vs = adjusted (ci_nresults ci) (slice first (L_top t - first) (L_stack t))"
  shows "luaD_poscall E L first g = Return (ci_nresults ci + 1)
    (set_thr g L (t\<lparr>L_ci := i, L_base := ci_base prev, L_savedpc := ci_savedpc prev,
       L_stack := blit (ci_func ci) vs (L_stack t), L_top := ci_func ci + length vs\<rparr>))"
  by (rule poscall_Return [OF assms])

theorem poscall_results_witness:
  "\<exists>g'. luaD_poscall bare_env 1 3 called = Return 3 g' \<and> L_top (thr g' 1) = 3 \<and> L_savedpc (thr g' 1) = 7
     \<and> take 3 (L_stack (thr g' 1)) = [VNil, VNumber 2, VNil]"
proof -
  note r = poscall_results [of called 1 called_thread 0 "L_base_ci called_thread ! Suc 0" "L_base_ci called_thread ! 0" 3
    "adjusted 2 (slice 3 (L_top called_thread - 3) (L_stack called_thread))" bare_env]
  show ?thesis
    by (subst r) (simp_all, simp_all add: called_thread_def tiny_thread_def adjusted_def slice_def blit_def eval_nat_numeral)
qed

end
