(* ===== verification/LuaStrlib.thy ===== *)
theory LuaStrlib
  imports LuaPattern
begin

text \<open>
  The functions of the string library (\<^verbatim>\<open>lstrlib.c\<close>) on arguments that have passed
  \<open>luaL_checklstring\<close> and \<open>luaL_checkinteger\<close>; an optional argument is an \<open>option\<close>.
  A function returns the values it pushes. \<open>used\<close> is the number of stack slots in use
  (\<open>L->top - L->base\<close>).
\<close>

section \<open>Values and the stack\<close>

datatype lval =
    PNil
  | PBool bool
  | PInt int
  | PStr string
  | POther string

abbreviation LUAI_MAXCSTACK :: int where
  "LUAI_MAXCSTACK \<equiv> 2048"

definition luaL_argerror :: "nat \<Rightarrow> string \<Rightarrow> 'a result" where
  "luaL_argerror narg msg = Err (ArgError narg msg)"

definition lua_checkstack :: "nat \<Rightarrow> int \<Rightarrow> bool" where
  "lua_checkstack used n \<longleftrightarrow> \<not> (LUAI_MAXCSTACK < int used + n)"

definition luaL_checkstack :: "nat \<Rightarrow> int \<Rightarrow> string \<Rightarrow> unit result" where
  "luaL_checkstack used space mes =
     (if lua_checkstack used space then Ok () else lerror (''stack overflow ('' @ mes @ '')''))"

text \<open>A conversion to \<open>int\<close>; the 64-bit value keeps its low half.\<close>

definition cast_int :: "int \<Rightarrow> int" where
  "cast_int k = (k + 2 ^ 31) mod 2 ^ 32 - 2 ^ 31"

definition cast_size :: "int \<Rightarrow> int" where
  "cast_size k = k mod 2 ^ 64"

text \<open>\<open>lua_pushlstring(L, s + from, len)\<close>: the bytes must lie in the string.\<close>

definition lstring_at :: "string \<Rightarrow> int \<Rightarrow> int \<Rightarrow> string result" where
  "lstring_at s start len =
     (if 0 \<le> start \<and> 0 \<le> len \<and> start + len \<le> int (length s)
      then Ok (take (nat len) (drop (nat start) s)) else Undef)"

section \<open>Simple functions\<close>

definition str_len :: "string \<Rightarrow> lval" where
  "str_len s = PInt (int (length s))"

definition posrelat :: "int \<Rightarrow> nat \<Rightarrow> int" where
  "posrelat pos len = (if 0 \<le> pos then pos else int len + pos + 1)"

definition str_sub :: "string \<Rightarrow> int \<Rightarrow> int option \<Rightarrow> string result" where
  "str_sub s i j =
     (let l = length s;
          start = posrelat i l;
          end = posrelat (case j of Some j \<Rightarrow> j | None \<Rightarrow> - 1) l;
          start = (if start < 1 then 1 else start);
          end = (if int l < end then int l else end)
      in if start \<le> end then lstring_at s (start - 1) (end - start + 1) else Ok [])"

text \<open>\<open>while (l--) luaL_addchar(&b, s[l])\<close>\<close>

fun reverse_loop :: "string \<Rightarrow> nat \<Rightarrow> string result" where
  "reverse_loop s 0 = Ok []"
| "reverse_loop s (Suc l) = rbind (getc s l) (\<lambda>c. rbind (reverse_loop s l) (\<lambda>r. Ok (c # r)))"

definition str_reverse :: "string \<Rightarrow> string result" where
  "str_reverse s = reverse_loop s (length s)"

definition str_lower :: "string \<Rightarrow> string" where
  "str_lower s = map (\<lambda>c. chr (tolower (code c))) s"

definition str_upper :: "string \<Rightarrow> string" where
  "str_upper s = map (\<lambda>c. chr (toupper (code c))) s"

text \<open>\<open>while (n-- > 0) luaL_addlstring(&b, s, l)\<close>\<close>

definition str_rep :: "string \<Rightarrow> int \<Rightarrow> string" where
  "str_rep s n = concat (replicate (nat n) s)"

text \<open>The bytes \<open>s[posi - 1 + i]\<close> for \<open>i < n\<close>, from index \<open>k\<close> on.\<close>

fun push_bytes :: "string \<Rightarrow> nat \<Rightarrow> nat \<Rightarrow> int list result" where
  "push_bytes s k 0 = Ok []"
| "push_bytes s k (Suc n) =
     rbind (getc s k) (\<lambda>c. rbind (push_bytes s (Suc k) n) (\<lambda>r. Ok (code c # r)))"

text \<open>\<open>(size_t)pose > l\<close> reads a negative position as a large one.\<close>

definition str_byte :: "nat \<Rightarrow> string \<Rightarrow> int option \<Rightarrow> int option \<Rightarrow> int list result" where
  "str_byte used s i j =
     (let l = length s;
          posi = posrelat (case i of Some i \<Rightarrow> i | None \<Rightarrow> 1) l;
          pose = posrelat (case j of Some j \<Rightarrow> j | None \<Rightarrow> posi) l;
          posi = (if posi \<le> 0 then 1 else posi);
          pose = (if int l < cast_size pose then int l else pose)
      in if pose < posi then Ok []
         else let n = cast_int (pose - posi + 1)
           in if posi + n \<le> pose then lerror ''string slice too long''
              else rbind (luaL_checkstack used n ''string slice too long'') (\<lambda>_.
                push_bytes s (nat (posi - 1)) (nat n)))"

text \<open>\<open>uchar(c) == c\<close>; the arguments are numbered from 1.\<close>

fun char_loop :: "nat \<Rightarrow> int list \<Rightarrow> string result" where
  "char_loop i [] = Ok []"
| "char_loop i (c # cs) =
     (if c mod 256 \<noteq> c then luaL_argerror i ''invalid value''
      else rbind (char_loop (Suc i) cs) (\<lambda>r. Ok (chr c # r)))"

definition str_char :: "int list \<Rightarrow> string result" where
  "str_char args = char_loop 1 args"

section \<open>Plain search\<close>

text \<open>\<open>memchr(s1, c, l1)\<close>: the index of the first \<open>c\<close>.\<close>

fun memchr :: "string \<Rightarrow> char \<Rightarrow> nat option" where
  "memchr [] c = None"
| "memchr (x # xs) c = (if x = c then Some 0 else map_option Suc (memchr xs c))"

lemma memchr_Some: "memchr s c = Some i \<Longrightarrow> i < length s \<and> s ! i = c \<and> (\<forall>j < i. s ! j \<noteq> c)"
proof (induction s arbitrary: i)
  case (Cons x s)
  show ?case
  proof (cases "x = c")
    case False
    with Cons.prems obtain k where "memchr s c = Some k" "i = Suc k" by auto
    with Cons.IH [of k] False show ?thesis by (auto simp: less_Suc_eq_0_disj)
  qed (use Cons.prems in simp)
qed simp

lemma memchr_None: "memchr s c = None \<longleftrightarrow> c \<notin> set s"
  by (induction s) auto

text \<open>
  The loop; \<open>pos\<close> is \<open>s1\<close> as an index of \<open>s\<close>, and the string \<open>memchr\<close> and
  \<open>memcmp\<close> read is bounded by \<open>l1\<close>.
\<close>

function lmemfind_loop :: "string \<Rightarrow> char \<Rightarrow> string \<Rightarrow> nat \<Rightarrow> nat \<Rightarrow> nat option" where
  "lmemfind_loop s c rest pos l1 =
     (if l1 = 0 then None
      else case memchr (take l1 (drop pos s)) c of
        None \<Rightarrow> None
      | Some k \<Rightarrow>
          if take (length rest) (drop (pos + k + 1) s) = rest then Some (pos + k)
          else lmemfind_loop s c rest (pos + k + 1) (l1 - (k + 1)))"
  by pat_completeness auto
termination
  by (relation "measure (\<lambda>(s, c, rest, pos, l1). l1)") auto

declare lmemfind_loop.simps [simp del]

text \<open>The position of \<open>s2\<close> in \<open>s\<close> at or after \<open>pos\<close>.\<close>

fun lmemfind :: "string \<Rightarrow> nat \<Rightarrow> string \<Rightarrow> nat option" where
  "lmemfind s pos [] = Some pos"
| "lmemfind s pos (c # rest) =
     (let l1 = length s - pos
      in if l1 < length (c # rest) then None
         else lmemfind_loop s c rest pos (l1 - length rest))"

section \<open>Results of a match\<close>

text \<open>
  The captures are on the C stack and not initialised: what a fresh array holds is never read.
\<close>

definition new_state :: "string \<Rightarrow> MatchState" where
  "new_state s = \<lparr>src = s, level = 0,
     captures = replicate LUA_MAXCAPTURES \<lparr>cap_init = 0, cap_len = 0\<rparr>\<rparr>"

definition push_onecapture :: "MatchState \<Rightarrow> nat \<Rightarrow> (nat \<times> nat) option \<Rightarrow> lval result" where
  "push_onecapture ms i whole =
     (if level ms \<le> i then
        if i = 0 then
          case whole of
            None \<Rightarrow> Undef
          | Some (s, e) \<Rightarrow> rbind (lstring_at (src ms) (int s) (int e - int s)) (\<lambda>w. Ok (PStr w))
        else lerror ''invalid capture index''
      else
        let cap = captures ms ! i; l = cap_len cap
        in if l = CAP_UNFINISHED then lerror ''unfinished capture''
           else if l = CAP_POSITION then Ok (PInt (int (cap_init cap) + 1))
           else rbind (lstring_at (src ms) (int (cap_init cap)) l) (\<lambda>w. Ok (PStr w)))"

fun push_list :: "MatchState \<Rightarrow> (nat \<times> nat) option \<Rightarrow> nat list \<Rightarrow> lval list result" where
  "push_list ms whole [] = Ok []"
| "push_list ms whole (i # is) =
     rbind (push_onecapture ms i whole) (\<lambda>v. rbind (push_list ms whole is) (\<lambda>vs. Ok (v # vs)))"

text \<open>\<open>whole\<close> is the pair \<open>s\<close>, \<open>e\<close>, or \<open>None\<close> when \<open>s\<close> is null.\<close>

definition push_captures :: "nat \<Rightarrow> MatchState \<Rightarrow> (nat \<times> nat) option \<Rightarrow> lval list result" where
  "push_captures used ms whole =
     (let nlevels = (if level ms = 0 \<and> whole \<noteq> None then 1 else level ms)
      in rbind (luaL_checkstack used (int nlevels) ''too many captures'') (\<lambda>_.
           push_list ms whole [0..<nlevels]))"

section \<open>find and match\<close>

definition SPECIALS :: string where
  "SPECIALS = ''^$*+?.([%-''"

text \<open>\<open>strpbrk(p, SPECIALS)\<close> stops at the first terminator.\<close>

definition no_specials :: "string \<Rightarrow> bool" where
  "no_specials p \<longleftrightarrow> (\<forall>c \<in> set (takeWhile (\<lambda>c. c \<noteq> NUL) p). c \<notin> set SPECIALS)"

text \<open>
  The \<open>do ... while\<close> loop of \<open>str_find_aux\<close>: the start and the end of the first match
  with the captures, at or after \<open>s1\<close>. \<open>p\<close> is the position in the pattern. The
  matcher does not assign \<open>src_init\<close>.
\<close>

function find_loop :: "string \<Rightarrow> nat \<Rightarrow> bool \<Rightarrow> MatchState \<Rightarrow> nat \<Rightarrow> (nat \<times> nat \<times> MatchState) option result" where
  "find_loop pat p anchor ms s1 =
     rbind (match pat (ms\<lparr>level := 0\<rparr>) s1 p) (\<lambda>(res, ms').
       case res of
         Some e \<Rightarrow> Ok (Some (s1, e, ms'))
       | None \<Rightarrow>
           if s1 < src_end ms \<and> \<not> anchor then find_loop pat p anchor (ms'\<lparr>src := src ms\<rparr>) (Suc s1)
           else Ok None)"
  by pat_completeness auto
termination
  by (relation "measure (\<lambda>(pat, p, anchor, ms, s1). src_end ms - s1)") auto

declare find_loop.simps [simp del]

text \<open>The start of the search: \<open>init\<close>.\<close>

definition find_init :: "int \<Rightarrow> nat \<Rightarrow> nat" where
  "find_init i l1 =
     (let init = posrelat i l1 - 1
      in if init < 0 then 0 else if int l1 < init then l1 else nat init)"

definition str_find_aux :: "nat \<Rightarrow> bool \<Rightarrow> string \<Rightarrow> string \<Rightarrow> int option \<Rightarrow> bool \<Rightarrow> lval list result" where
  "str_find_aux used is_find s p i plain =
     (let init = find_init (case i of Some i \<Rightarrow> i | None \<Rightarrow> 1) (length s)
      in if is_find \<and> (plain \<or> no_specials p) then
           case lmemfind s init p of
             Some s2 \<Rightarrow> Ok [PInt (int s2 + 1), PInt (int s2 + int (length p))]
           | None \<Rightarrow> Ok [PNil]
         else rbind (getc p 0) (\<lambda>c.
           let anchor = (c = CHR 0x5E)
           in rbind (find_loop p (if anchor then 1 else 0) anchor (new_state s) init) (\<lambda>r.
             case r of
               None \<Rightarrow> Ok [PNil]
             | Some (s1, e, ms) \<Rightarrow>
                 if is_find then rbind (push_captures (used + 2) ms None) (\<lambda>vs.
                   Ok (PInt (int s1 + 1) # PInt (int e) # vs))
                 else push_captures used ms (Some (s1, e)))))"

definition str_find :: "nat \<Rightarrow> string \<Rightarrow> string \<Rightarrow> int option \<Rightarrow> bool \<Rightarrow> lval list result" where
  "str_find used s p i plain = str_find_aux used True s p i plain"

definition str_match :: "nat \<Rightarrow> string \<Rightarrow> string \<Rightarrow> int option \<Rightarrow> lval list result" where
  "str_match used s p i = str_find_aux used False s p i False"

section \<open>gmatch\<close>

text \<open>
  One call of the iterator: the subject and the pattern are its first two upvalues, \<open>start\<close>
  the third. It returns the captures and the new third upvalue, or nothing at the end.
\<close>

function gmatch_loop :: "string \<Rightarrow> MatchState \<Rightarrow> nat \<Rightarrow> (nat \<times> nat \<times> MatchState) option result" where
  "gmatch_loop pat ms s1 =
     (if s1 \<le> src_end ms then
        rbind (match pat (ms\<lparr>level := 0\<rparr>) s1 0) (\<lambda>(res, ms').
          case res of
            Some e \<Rightarrow> Ok (Some (s1, e, ms'))
          | None \<Rightarrow> gmatch_loop pat (ms'\<lparr>src := src ms\<rparr>) (Suc s1))
      else Ok None)"
  by pat_completeness auto
termination
  by (relation "measure (\<lambda>(pat, ms, s1). Suc (src_end ms) - s1)") auto

declare gmatch_loop.simps [simp del]

definition gmatch_aux :: "nat \<Rightarrow> string \<Rightarrow> string \<Rightarrow> nat \<Rightarrow> (lval list \<times> nat) option result" where
  "gmatch_aux used s p start =
     rbind (gmatch_loop p (new_state s) start) (\<lambda>r.
       case r of
         None \<Rightarrow> Ok None
       | Some (s1, e, ms) \<Rightarrow>
           let newstart = (if e = s1 then Suc e else e)
           in rbind (push_captures used ms (Some (s1, e))) (\<lambda>vs. Ok (Some (vs, newstart))))"

end
