(* ===== verification/LuaTabLib.thy ===== *)
theory LuaTabLib
  imports LuaTableNext LuaStrlib
begin

text \<open>
  The functions of the table library (\<^verbatim>\<open>ltablib.c\<close>) on the table that is their first
  argument. A function is a step on that table; the values it keeps on the stack are bound
  variables, and its arguments have passed \<open>luaL_checktype\<close> and \<open>luaL_checkint\<close>. A call of
  a Lua function is a step too, as it may change the table or raise an error.
\<close>

section \<open>Access\<close>

text \<open>\<open>lua_rawgeti\<close> and \<open>lua_rawseti\<close> on the table; the barrier is with the collector.\<close>

definition lua_rawgeti :: "int \<Rightarrow> (Table, TValue) step" where
  "lua_rawgeti n t = rbind (luaH_getnum t n) (\<lambda>p. Ok (deref t p, t))"

definition lua_rawseti :: "strhash \<Rightarrow> int \<Rightarrow> TValue \<Rightarrow> (Table, unit) step" where
  "lua_rawseti H n v t = rbind (luaH_setnum H t n) (\<lambda>(s, t'). Ok ((), set_slot t' s v))"

definition lua_next :: "strhash \<Rightarrow> TValue \<Rightarrow> (Table, (TValue \<times> TValue) option) step" where
  "lua_next H k t = rbind (luaH_next H t k) (\<lambda>r. Ok (r, t))"

definition aux_getn :: "(Table, int) step" where
  "aux_getn t = rbind (luaH_getn t) (\<lambda>n. Ok (n, t))"

definition serror :: "lua_error \<Rightarrow> ('s, 'a) step" where
  "serror e s = Err e"

definition sundef :: "('s, 'a) step" where
  "sundef s = Undef"

definition sdiverge :: "('s, 'a) step" where
  "sdiverge s = Diverge"

type_synonym lua_function = "TValue list \<Rightarrow> (Table, TValue) step"

section \<open>Iteration\<close>

text \<open>\<open>Some\<close> is the value the callback returned, \<open>None\<close> no result.\<close>

function foreachi_loop :: "lua_function \<Rightarrow> int \<Rightarrow> int \<Rightarrow> (Table, TValue option) step" where
  "foreachi_loop call n i =
     (if i \<le> n
      then sbind (lua_rawgeti i) (\<lambda>v.
           sbind (call [VNumber (cast_num i), v]) (\<lambda>r.
           if r \<noteq> VNil then sret (Some r) else foreachi_loop call n (i + 1)))
      else sret None)"
  by pat_completeness auto
termination
  by (relation "measure (\<lambda>(call, n, i). nat (n + 1 - i))") auto

declare foreachi_loop.simps [simp del]

definition foreachi :: "lua_function \<Rightarrow> (Table, TValue option) step" where
  "foreachi call = sbind aux_getn (\<lambda>n. foreachi_loop call n 1)"

text \<open>The number of calls is bounded by the fuel: a callback that adds keys can keep it going.\<close>

fun foreach_loop :: "strhash \<Rightarrow> lua_function \<Rightarrow> nat \<Rightarrow> TValue \<Rightarrow> (Table, TValue option) step" where
  "foreach_loop H call 0 k = sdiverge"
| "foreach_loop H call (Suc f) k =
     sbind (lua_next H k) (\<lambda>kv.
       case kv of
         None \<Rightarrow> sret None
       | Some (k', v) \<Rightarrow>
           sbind (call [k', v]) (\<lambda>r. if r \<noteq> VNil then sret (Some r) else foreach_loop H call f k'))"

definition foreach :: "strhash \<Rightarrow> lua_function \<Rightarrow> nat \<Rightarrow> (Table, TValue option) step" where
  "foreach H call f = foreach_loop H call f VNil"

fun maxn_loop :: "strhash \<Rightarrow> nat \<Rightarrow> TValue \<Rightarrow> lua_Number \<Rightarrow> (Table, lua_Number) step" where
  "maxn_loop H 0 k m = sdiverge"
| "maxn_loop H (Suc f) k m =
     sbind (lua_next H k) (\<lambda>kv.
       case kv of
         None \<Rightarrow> sret m
       | Some (k', v) \<Rightarrow>
           maxn_loop H f k'
             (case k' of VNumber n \<Rightarrow> (if num_lt m n then n else m) | _ \<Rightarrow> m))"

definition maxn :: "strhash \<Rightarrow> nat \<Rightarrow> (Table, lua_Number) step" where
  "maxn H f = maxn_loop H f VNil (cast_num 0)"

definition getn :: "(Table, TValue) step" where
  "getn = sbind aux_getn (\<lambda>n. sret (VNumber (cast_num n)))"

text \<open>\<open>luaL_setn\<close> is a macro, so the call only raises the error.\<close>

definition setn :: "(Table, TValue) step" where
  "setn = serror (RunError (LUA_QL ''setn'' @ '' is obsolete''))"

section \<open>Insertion and removal\<close>

function insert_loop :: "strhash \<Rightarrow> int \<Rightarrow> int \<Rightarrow> (Table, unit) step" where
  "insert_loop H pos i =
     (if pos < i
      then sbind (lua_rawgeti (i - 1)) (\<lambda>v. sbind (lua_rawseti H i v) (\<lambda>_. insert_loop H pos (i - 1)))
      else sret ())"
  by pat_completeness auto
termination
  by (relation "measure (\<lambda>(H, pos, i). nat (i - pos))") auto

declare insert_loop.simps [simp del]

text \<open>\<open>nargs\<close> is the number of arguments, \<open>p\<close> the second of three and \<open>v\<close> the last.\<close>

definition tinsert :: "strhash \<Rightarrow> nat \<Rightarrow> int \<Rightarrow> TValue \<Rightarrow> (Table, unit) step" where
  "tinsert H nargs p v =
     sbind aux_getn (\<lambda>n.
       let e = n + 1
       in if nargs = 2 then lua_rawseti H e v
          else if nargs = 3 then
            let e = (if e < p then p else e)
            in sbind (insert_loop H p e) (\<lambda>_. lua_rawseti H p v)
          else serror (RunError (''wrong number of arguments to '' @ LUA_QL ''insert'')))"

function remove_loop :: "strhash \<Rightarrow> int \<Rightarrow> int \<Rightarrow> (Table, unit) step" where
  "remove_loop H e pos =
     (if pos < e
      then sbind (lua_rawgeti (pos + 1)) (\<lambda>v. sbind (lua_rawseti H pos v) (\<lambda>_. remove_loop H e (pos + 1)))
      else sret ())"
  by pat_completeness auto
termination
  by (relation "measure (\<lambda>(H, e, pos). nat (e - pos))") auto

declare remove_loop.simps [simp del]

definition tremove :: "strhash \<Rightarrow> int option \<Rightarrow> (Table, TValue option) step" where
  "tremove H p =
     sbind aux_getn (\<lambda>e.
       let pos = (case p of None \<Rightarrow> e | Some p \<Rightarrow> p)
       in if e = 0 then sret None
          else sbind (lua_rawgeti pos) (\<lambda>v.
               sbind (remove_loop H e pos) (\<lambda>_.
               sbind (lua_rawseti H e VNil) (\<lambda>_. sret (Some v)))))"

section \<open>Concatenation\<close>

text \<open>
  \<open>tostr\<close> is \<open>lua_tolstring\<close>, which has no result for a value that is neither a string nor
  a number. The increment of \<open>i\<close> overflows after an element at \<open>INT_MAX\<close>.
\<close>

function concat_loop :: "(TValue \<Rightarrow> string option) \<Rightarrow> string \<Rightarrow> int \<Rightarrow> int \<Rightarrow> (Table, string) step" where
  "concat_loop tostr sep e i =
     (if i \<le> e
      then sbind (lua_rawgeti i) (\<lambda>v.
           case tostr v of
             None \<Rightarrow> serror (ArgError 1 ''table contains non-strings'')
           | Some s \<Rightarrow>
               if i = INT_MAX then sundef
               else sbind (concat_loop tostr sep e (i + 1)) (\<lambda>r.
                      sret (s @ (if i \<noteq> e then sep else []) @ r)))
      else sret [])"
  by pat_completeness auto
termination
  by (relation "measure (\<lambda>(tostr, sep, e, i). nat (e + 1 - i))") auto

declare concat_loop.simps [simp del]

definition tconcat ::
  "(TValue \<Rightarrow> string option) \<Rightarrow> string option \<Rightarrow> int option \<Rightarrow> int option \<Rightarrow> (Table, string) step" where
  "tconcat tostr sep i e =
     sbind (case e of Some j \<Rightarrow> sret j | None \<Rightarrow> aux_getn) (\<lambda>e.
       concat_loop tostr (case sep of None \<Rightarrow> [] | Some s \<Rightarrow> s) e
         (case i of None \<Rightarrow> 1 | Some i \<Rightarrow> i))"

section \<open>Quicksort\<close>

text \<open>\<open>set2\<close> stores the value on the top of the stack first.\<close>

definition set2 :: "strhash \<Rightarrow> int \<Rightarrow> int \<Rightarrow> TValue \<Rightarrow> TValue \<Rightarrow> (Table, unit) step" where
  "set2 H i j below v = sbind (lua_rawseti H i v) (\<lambda>_. lua_rawseti H j below)"

type_synonym comparison = "TValue \<Rightarrow> TValue \<Rightarrow> (Table, bool) step"

text \<open>
  \<open>func\<close> is the second argument of \<open>sort\<close>; \<open>lessthan\<close> is \<open>lua_lessthan\<close>.
\<close>

definition sort_comp :: "(TValue \<Rightarrow> lua_function) \<Rightarrow> comparison \<Rightarrow> TValue \<Rightarrow> comparison" where
  "sort_comp call lessthan func a b =
     (if func \<noteq> VNil then sbind (call func [a, b]) (\<lambda>res. sret (\<not> l_isfalse res))
      else lessthan a b)"

abbreviation invalid_order :: "('s, 'a) step" where
  "invalid_order \<equiv> serror (RunError ''invalid order function for sorting'')"

text \<open>The inner loops; they return the index and the value they stopped at.\<close>

function scan_up :: "comparison \<Rightarrow> TValue \<Rightarrow> int \<Rightarrow> int \<Rightarrow> (Table, int \<times> TValue) step" where
  "scan_up lt P u i =
     sbind (lua_rawgeti (i + 1)) (\<lambda>v.
     sbind (lt v P) (\<lambda>c.
       if \<not> c then sret (i + 1, v)
       else if u < i + 1 then invalid_order
       else scan_up lt P u (i + 1)))"
  by pat_completeness auto
termination
  by (relation "measure (\<lambda>(lt, P, u, i). nat (u - i))") auto

function scan_down :: "comparison \<Rightarrow> TValue \<Rightarrow> int \<Rightarrow> int \<Rightarrow> (Table, int \<times> TValue) step" where
  "scan_down lt P l j =
     sbind (lua_rawgeti (j - 1)) (\<lambda>v.
     sbind (lt P v) (\<lambda>c.
       if \<not> c then sret (j - 1, v)
       else if j - 1 < l then invalid_order
       else scan_down lt P l (j - 1)))"
  by pat_completeness auto
termination
  by (relation "measure (\<lambda>(lt, P, l, j). nat (j - l))") auto

declare scan_up.simps [simp del] scan_down.simps [simp del]

lemma scan_up_above: "scan_up lt P u i s = Ok ((i', v), s') \<Longrightarrow> i < i'"
proof (induction "nat (u - i)" arbitrary: i s rule: less_induct)
  case less
  show ?case
  proof (cases "u < i + 1")
    case True
    with less.prems show ?thesis
      by (subst (asm) scan_up.simps) (auto elim!: sbind_OkE split: if_splits simp: serror_def)
  next
    case False
    have "i + 1 < i'" if "scan_up lt P u (i + 1) t = Ok ((i', v), s')" for t
      by (rule less.hyps [OF _ that]) (use False in simp)
    with less.prems False show ?thesis
      by (subst (asm) scan_up.simps) (fastforce elim!: sbind_OkE split: if_splits)
  qed
qed

lemma scan_down_below: "scan_down lt P l j s = Ok ((j', v), s') \<Longrightarrow> j' < j"
proof (induction "nat (j - l)" arbitrary: j s rule: less_induct)
  case less
  show ?case
  proof (cases "j - 1 < l")
    case True
    with less.prems show ?thesis
      by (subst (asm) scan_down.simps) (auto elim!: sbind_OkE split: if_splits simp: serror_def)
  next
    case False
    have "j' < j - 1" if "scan_down lt P l (j - 1) t = Ok ((j', v), s')" for t
      by (rule less.hyps [OF _ that]) (use False in simp)
    with less.prems False show ?thesis
      by (subst (asm) scan_down.simps) (fastforce elim!: sbind_OkE split: if_splits)
  qed
qed

text \<open>The partition loop of \<open>auxsort\<close> around the pivot \<open>P\<close>; it returns \<open>i\<close>.\<close>

function partition_loop ::
  "strhash \<Rightarrow> comparison \<Rightarrow> TValue \<Rightarrow> int \<Rightarrow> int \<Rightarrow> int \<Rightarrow> int \<Rightarrow> (Table, int) step" where
  "partition_loop H lt P l u i j s =
     sbind (scan_up lt P u i) (\<lambda>a.
     sbind (scan_down lt P l j) (\<lambda>b.
       if fst b < fst a then sret (fst a)
       else sbind (set2 H (fst a) (fst b) (snd a) (snd b)) (\<lambda>_.
              partition_loop H lt P l u (fst a) (fst b)))) s"
  by pat_completeness auto
termination
  apply (relation "measure (\<lambda>(H, lt, P, l, u, i, j, s). nat (j - i))")
   apply simp
  subgoal for H lt P l u i j s x t y t'
    using scan_up_above [of lt P u i s "fst x" "snd x" t] scan_down_below [of lt P l j t "fst y" "snd y" t']
    by auto
  done

declare partition_loop.simps [simp del]

text \<open>
  The stretches of the loop body of \<open>auxsort\<close>: \<open>a[l]\<close> and \<open>a[u]\<close> are put in order, then
  \<open>a[i]\<close> between them, then the range is split around \<open>a[i]\<close>.
\<close>

definition sort_ends :: "strhash \<Rightarrow> comparison \<Rightarrow> int \<Rightarrow> int \<Rightarrow> (Table, unit) step" where
  "sort_ends H lt l u =
     sbind (lua_rawgeti l) (\<lambda>al.
     sbind (lua_rawgeti u) (\<lambda>au.
     sbind (lt au al) (\<lambda>c. if c then set2 H l u al au else sret ())))"

definition sort_middle :: "strhash \<Rightarrow> comparison \<Rightarrow> int \<Rightarrow> int \<Rightarrow> int \<Rightarrow> (Table, unit) step" where
  "sort_middle H lt l u i =
     sbind (lua_rawgeti i) (\<lambda>ai.
     sbind (lua_rawgeti l) (\<lambda>al.
     sbind (lt ai al) (\<lambda>c.
       if c then set2 H i l ai al
       else sbind (lua_rawgeti u) (\<lambda>au.
            sbind (lt au ai) (\<lambda>c. if c then set2 H i u ai au else sret ())))))"

definition split_range :: "strhash \<Rightarrow> comparison \<Rightarrow> int \<Rightarrow> int \<Rightarrow> int \<Rightarrow> (Table, int) step" where
  "split_range H lt l u i =
     sbind (lua_rawgeti i) (\<lambda>P.
     sbind (lua_rawgeti (u - 1)) (\<lambda>v.
     sbind (set2 H i (u - 1) P v) (\<lambda>_.
     sbind (partition_loop H lt P l u l (u - 1)) (\<lambda>i.
     sbind (lua_rawgeti (u - 1)) (\<lambda>v.
     sbind (lua_rawgeti i) (\<lambda>w.
     sbind (set2 H (u - 1) i v w) (\<lambda>_. sret i)))))))"

text \<open>
  \<open>auxsort\<close>; the fuel counts the turns of its loop and its recursive calls. The sum of the
  bounds overflows past \<open>2 ^ 30\<close> elements.
\<close>

fun auxsort :: "strhash \<Rightarrow> comparison \<Rightarrow> nat \<Rightarrow> int \<Rightarrow> int \<Rightarrow> (Table, unit) step" where
  "auxsort H lt 0 l u = (if l < u then sdiverge else sret ())"
| "auxsort H lt (Suc f) l u =
     (if \<not> l < u then sret ()
      else
        sbind (sort_ends H lt l u) (\<lambda>_.
        if u - l = 1 then sret ()
        else if \<not> in_int (l + u) then sundef
        else let i = (l + u) div 2 in
          sbind (sort_middle H lt l u i) (\<lambda>_.
          if u - l = 2 then sret ()
          else
            sbind (split_range H lt l u i) (\<lambda>i.
            if i - l < u - i
            then sbind (auxsort H lt f l (i - 1)) (\<lambda>_. auxsort H lt f (i + 1) u)
            else sbind (auxsort H lt f (i + 1) u) (\<lambda>_. auxsort H lt f l (i - 1))))))"

text \<open>\<open>slots\<close> is the number of stack slots in use.\<close>

definition tab_sort ::
  "strhash \<Rightarrow> (TValue \<Rightarrow> lua_function) \<Rightarrow> comparison \<Rightarrow> nat \<Rightarrow> TValue \<Rightarrow> nat \<Rightarrow> (Table, unit) step" where
  "tab_sort H call lessthan slots func f =
     sbind aux_getn (\<lambda>n.
     sbind (\<lambda>t. rbind (luaL_checkstack slots 40 []) (\<lambda>x. Ok (x, t))) (\<lambda>_.
       auxsort H (sort_comp call lessthan func) f 1 n))"

end
