(* ===== verification/LuaTableProps.thy ===== *)
theory LuaTableProps
  imports LuaTableNext
begin

text \<open>
  What a client of \<^verbatim>\<open>ltable.c\<close> may rely on. \<open>lookup\<close> is the specification of the
  contents of a table: the array slot of an index of the array part, else the value of the only
  node with an equal key.
\<close>

section \<open>A table to evaluate on\<close>

definition ex_hash :: strhash where
  "ex_hash p = 3"

definition ex_table0 :: Table where
  "ex_table0 = \<lparr>flags = 255, lsizenode = 1, metatable = None, array = [VNil],
     node = [empty_node, empty_node], isdummy = False, lastfree = 2\<rparr>"

text \<open>Two strings with the same hash: the second key went to the free node.\<close>

definition ex_table :: Table where
  "ex_table = \<lparr>flags = 0, lsizenode = 1, metatable = None, array = [VNil],
     node = [\<lparr>i_val = VNumber 7, i_key = VString 32, i_next = None\<rparr>,
             \<lparr>i_val = VBoolean 1, i_key = VString 16, i_next = Some 0\<rparr>],
     isdummy = False, lastfree = 0\<rparr>"

text \<open>\<open>lua_rawset\<close>: \<open>setobj2t(L, luaH_set(L, hvalue(t), key), val)\<close>.\<close>

definition store :: "strhash \<Rightarrow> Table \<Rightarrow> TValue \<Rightarrow> TValue \<Rightarrow> Table result" where
  "store H t k v = rbind (luaH_set H t k) (\<lambda>(s, t'). Ok (set_slot t' s v))"

lemma kept_set_slot:
  assumes "kept H t k s t'" and k: "valid_key k"
  shows "table_inv H (set_slot t' s v)"
    and "valid_key k' \<Longrightarrow> lookup (set_slot t' s v) k' = (if luaO_rawequalObj k k' then v else lookup t k')"
  using assms set_slot_inv(1) [of H t' k s v] lookup_set_slot [of H t' k s k' v]
  by (simp_all add: kept_def)

lemma store_inv:
  assumes inv: "table_inv H t" and k: "valid_key k" and t': "store H t k v = Ok t'"
  shows "table_inv H t'"
  using luaH_set_total [OF inv k] t' kept_set_slot(1) [OF _ k, of H t _ _ v]
  by (auto simp: store_def)

lemma ex_table0_inv: "table_inv H ex_table0"
proof -
  have "luaH_new 1 2 = Ok ex_table0" by code_simp
  with luaH_new_inv [of 1 2 H] show ?thesis by simp
qed

lemma valid_VString [simp]: "valid_key (VString p)"
  by (simp add: valid_key_def is_NaN_def)

lemma ex_table_inv: "table_inv ex_hash ex_table"
proof -
  define t1 where "t1 = (case store ex_hash ex_table0 (VString 16) (VBoolean 1) of Ok t \<Rightarrow> t)"
  have "store ex_hash ex_table0 (VString 16) (VBoolean 1) = Ok t1"
    unfolding t1_def by code_simp
  from store_inv [OF ex_table0_inv _ this] have "table_inv ex_hash t1" by simp
  moreover have "store ex_hash t1 (VString 32) (VNumber 7) = Ok ex_table"
    unfolding t1_def by code_simp
  ultimately show ?thesis by (rule store_inv [OF _ valid_VString])
qed

lemma ex_entries: "entries ex_table = 2"
  by code_simp

section \<open>Lookup\<close>

text \<open>
  C2: \<open>luaH_get\<close> returns on every well-formed table, whatever the key (a walk along a chain
  never goes round in circles), and the pointer it returns points to the value the reference
  lookup gives; for an absent key it is the address of nil.
\<close>

theorem luaH_get_correct:
  assumes "table_inv H t" and "valid_key k"
  shows "\<exists>p. luaH_get H t k = Ok p \<and> deref t p = lookup t k
    \<and> (\<forall>s. p = Some s \<longleftrightarrow> slot_of t k s)"
  using foundD [OF get_found [OF assms(1) valid_keyD(1,2) [OF assms(2)]] assms] .

theorem luaH_get_correct_witness:
  "\<exists>p. luaH_get ex_hash ex_table (VString 32) = Ok p \<and> deref ex_table p = VNumber 7"
proof -
  have "lookup ex_table (VString 32) = VNumber 7" by code_simp
  with luaH_get_correct [OF ex_table_inv, of "VString 32"] show ?thesis by auto
qed

section \<open>Insertion\<close>

text \<open>
  C1: storing a value under a key other than nil and NaN returns: at most one rehash happens,
  the insertions of the rehash never rehash again, and every chain walk ends. The only failure
  is the error \<open>table overflow\<close>, which needs at least \<open>2 ^ 26\<close> entries. The new table is
  well-formed, the key has the value and every other key keeps its own.
\<close>

theorem store_correct:
  assumes "table_inv H t" and "valid_key k"
  shows "store H t k v = overflow \<and> 2 ^ MAXBITS \<le> entries t
    \<or> (\<exists>t'. store H t k v = Ok t' \<and> table_inv H t'
        \<and> (\<forall>k'. valid_key k' \<longrightarrow> lookup t' k' = (if luaO_rawequalObj k k' then v else lookup t k')))"
  using luaH_set_total [OF assms]
proof (elim disjE exE conjE)
  fix s t'
  assume s: "luaH_set H t k = Ok (s, t')" and kept: "kept H t k s t'"
  have "store H t k v = Ok (set_slot t' s v)" by (simp add: store_def s)
  with kept_set_slot [OF kept assms(2)] show ?thesis by blast
qed (simp add: store_def)

theorem store_correct_witness:
  "\<exists>t'. store ex_hash ex_table (VString 48) VNil = Ok t' \<and> table_inv ex_hash t'
    \<and> lookup t' (VString 16) = VBoolean 1"
proof -
  have "lookup ex_table (VString 16) = VBoolean 1" by code_simp
  with store_correct [OF ex_table_inv, of "VString 48" VNil] ex_entries show ?thesis by auto
qed

text \<open>
  C36: \<open>luaH_set\<close> rejects the two keys that no table can hold, nil and NaN, and leaves the
  table alone.
\<close>

theorem luaH_set_bad_key:
  assumes "table_inv H t" and "\<not> valid_key k" and "ttype k \<noteq> 11"
  shows "luaH_set H t k = Err (RunError (if k = VNil then ''table index is nil'' else ''table index is NaN''))"
proof (cases "k = VNil")
  case True
  then show ?thesis by (simp add: luaH_set_def luaH_set_by_def luaH_get_def)
next
  case False
  then have nan: "is_NaN k" using assms(2,3) by (simp add: valid_key_def)
  obtain p where p: "luaH_get H t k = Ok p" "\<forall>s. p = Some s \<longleftrightarrow> slot_of t k s"
    using get_found [OF assms(1) False assms(3)] by (auto simp: found_def)
  have no: "\<not> luaO_rawequalObj a k" for a
    using nan rawequal_refl rawequal_sym rawequal_trans by blast
  have "\<not> in_array t k"
    using nan no [of "VNumber (cast_num (arrayindex k))"] arrayindex_number [of k "arrayindex k"]
    by auto
  then have "\<not> slot_of t k s" for s using no by (cases s) (auto simp: slot_of_def)
  then have "p = None" using p(2) by (cases p) auto
  with p(1) False nan show ?thesis by (simp add: luaH_set_def luaH_set_by_def)
qed

theorem luaH_set_bad_key_witness:
  "luaH_set ex_hash ex_table (VNumber 0x7FF8000000000000) = Err (RunError ''table index is NaN'')"
proof -
  have "is_NaN (VNumber 0x7FF8000000000000)" by code_simp
  then have "\<not> valid_key (VNumber 0x7FF8000000000000)" by (simp add: valid_key_def)
  from luaH_set_bad_key [OF ex_table_inv this] show ?thesis by simp
qed


section \<open>Rehash\<close>

lemma keys_upto_bound:
  assumes "\<And>b. b \<le> MAXBITS \<Longrightarrow> nums ! b \<le> (if b = 0 then 1 else 2 ^ (b - 1))"
  shows "j \<le> MAXBITS \<Longrightarrow> keys_upto nums j \<le> 2 ^ j"
proof (induction j)
  case 0
  then show ?case using assms [of 0] by simp
next
  case (Suc j)
  then have "nums ! Suc j \<le> 2 ^ j" using assms [of "Suc j"] by simp
  with Suc show ?case by simp
qed

lemma sum_prefix_mono: "i \<le> j \<Longrightarrow> (\<Sum>b < i. nums ! b) \<le> (\<Sum>b < j. nums ! b :: nat)"
  by (intro sum_mono2) auto

lemma computesizes_loop_max:
  assumes "narray = (\<Sum>b < Suc MAXBITS. nums ! b)" and "i \<le> Suc MAXBITS"
    and "a = (\<Sum>b < i. nums ! b)" and "a \<noteq> narray \<or> i = 0"
    and bound: "\<And>j. j \<le> MAXBITS \<Longrightarrow> keys_upto nums j \<le> 2 ^ j"
    and "\<And>j. j < i \<Longrightarrow> 2 ^ j < 2 * keys_upto nums j \<Longrightarrow> 2 ^ j \<le> n"
    and "computesizes_loop nums narray i a na n = (n1, na1)"
    and "j \<le> MAXBITS" and "2 ^ j < 2 * keys_upto nums j"
  shows "2 ^ j \<le> n1"
  using assms
proof (induction nums narray i a na n rule: computesizes_loop.induct)
  case (1 nums narray i a na n)
  note simps = computesizes_loop.simps [of nums narray i a na n]
  note bound = "1.prems"(5) and j = "1.prems"(8,9)
  have all: "keys_upto nums j \<le> narray"
    unfolding "1.prems"(1) using j(1) by (intro sum_prefix_mono) simp
  have pow: "(2::nat) ^ i \<le> 2 ^ j" if "i \<le> j" for i using that by (intro power_increasing) simp_all
  show ?case
  proof (cases "2 ^ i div 2 < narray")
    case False
    then have n1: "n1 = n" using "1.prems"(7) by (subst (asm) simps) simp
    have "j < i"
    proof (rule ccontr)
      assume "\<not> j < i"
      then have "(2::nat) ^ i \<le> 2 ^ j" by (intro pow) simp
      with False all j(2) show False by linarith
    qed
    with "1.prems"(6) j(2) show ?thesis by (simp only: n1)
  next
    case True
    have i: "i \<le> MAXBITS"
    proof (rule ccontr)
      assume "\<not> i \<le> MAXBITS"
      then have "i = Suc MAXBITS" using "1.prems"(2) by simp
      with "1.prems"(1,3,4) show False by simp
    qed
    define a' where "a' = (if 0 < nums ! i then a + nums ! i else a)"
    define hit where "hit \<longleftrightarrow> 0 < nums ! i \<and> 2 ^ i div 2 < a'"
    define n' where "n' = (if hit then 2 ^ i else n)"
    define na' where "na' = (if hit then a' else na)"
    have a': "a' = keys_upto nums i" using "1.prems"(3) by (simp add: a'_def)
    have low: "2 ^ m \<le> n'" if m: "m < Suc i" "2 ^ m < 2 * keys_upto nums m" for m
    proof (cases hit)
      case True
      with m(1) show ?thesis by (simp add: n'_def)
    next
      case False
      have "m \<noteq> i"
      proof
        assume "m = i"
        with m(2) a' have q: "2 ^ i < 2 * a'" by simp
        then have "2 ^ i div 2 < a'" by linarith
        then have "nums ! i = 0" using False by (simp add: hit_def)
        then have "a' = (\<Sum>b < i. nums ! b)" using a' by simp
        with q bound [of "i - 1"] i show False by (cases i) simp_all
      qed
      with m "1.prems"(6) False show ?thesis by (simp add: n'_def)
    qed
    have step: "computesizes_loop nums narray i a na n =
        (if a' = narray then (n', na') else computesizes_loop nums narray (Suc i) a' na' n')"
      using True unfolding a'_def hit_def n'_def na'_def by (subst simps) (simp only: if_True Let_def)
    show ?thesis
    proof (cases "a' = narray")
      case full: True
      then have n1: "n1 = n'" using step "1.prems"(7) by simp
      have "j < Suc i"
      proof (rule ccontr)
        assume "\<not> j < Suc i"
        then have "(2::nat) ^ Suc i \<le> 2 ^ j" by (intro pow) simp
        with all full a' bound [OF i] j(2) show False by simp
      qed
      with low j(2) show ?thesis by (simp only: n1)
    next
      case go: False
      show ?thesis
        by (rule "1.IH" [OF True a'_def hit_def n'_def na'_def go "1.prems"(1) _ a' _ bound low])
           (use i go step "1.prems"(7) j in simp_all)
    qed
  qed
qed

text \<open>
  C34: what \<open>computesizes\<close> chooses is the largest power of two such that more than half of the
  array slots up to it are used (0 when there is none), together with the number of keys that
  go there, for any counts that fit their slices.
\<close>

theorem computesizes_optimal:
  assumes "\<And>b. b \<le> MAXBITS \<Longrightarrow> nums ! b \<le> (if b = 0 then 1 else 2 ^ (b - 1))"
    and "computesizes nums (\<Sum>b < Suc MAXBITS. nums ! b) = (n, na)"
  shows "good_size nums n na \<and> (\<forall>j \<le> MAXBITS. 2 ^ j < 2 * keys_upto nums j \<longrightarrow> 2 ^ j \<le> n)"
proof (intro conjI allI impI)
  show "good_size nums n na" using computesizes_good [OF refl, of nums] assms(2) by simp
  fix j
  assume j: "j \<le> MAXBITS" "2 ^ j < 2 * keys_upto nums j"
  show "2 ^ j \<le> n"
    by (rule computesizes_loop_max [OF refl _ _ _ keys_upto_bound [OF assms(1)] _
          assms(2) [unfolded computesizes_def] j]) simp_all
qed

theorem computesizes_optimal_witness:
  "computesizes ([1, 1, 1, 0, 3] @ replicate 22 0) 6 = (4, 3)
    \<and> good_size ([1, 1, 1, 0, 3] @ replicate 22 0) 4 3"
proof -
  let ?nums = "[1, 1, 1, 0, 3] @ replicate 22 0 :: nat list"
  have sum: "(\<Sum>b < Suc MAXBITS. ?nums ! b) = 6" by (simp add: sum.lessThan_Suc eval_nat_numeral)
  have c: "computesizes ?nums 6 = (4, 3)" by code_simp
  have "?nums ! b \<le> (if b = 0 then 1 else 2 ^ (b - 1))" if "b \<le> MAXBITS" for b
  proof (cases "b < 5")
    case True
    then have "b = 0 \<or> b = 1 \<or> b = 2 \<or> b = 3 \<or> b = 4" by linarith
    then show ?thesis by auto
  next
    case False
    with that have "?nums ! b = replicate 22 0 ! (b - 5)" by (subst nth_append) simp
    also have "\<dots> = 0" using that False by (intro nth_replicate) simp
    finally show ?thesis by simp
  qed
  from computesizes_optimal [OF this, of 4 3] sum c show ?thesis by simp
qed

section \<open>Length\<close>

text \<open>An array slot and the key 2 in the node vector.\<close>

definition ex_seq :: Table where
  "ex_seq = \<lparr>flags = 0, lsizenode = 1, metatable = None, array = [VBoolean 1],
     node = [\<lparr>i_val = VBoolean 0, i_key = VNumber 0x4000000000000000, i_next = None\<rparr>, empty_node],
     isdummy = False, lastfree = 2\<rparr>"

lemma valid_VNumber_2: "valid_key (VNumber (cast_num 1))" "valid_key (VNumber 0x4000000000000000)"
proof -
  have "\<not> is_NaN (VNumber (cast_num 1))" "\<not> is_NaN (VNumber 0x4000000000000000)" by code_simp+
  then show "valid_key (VNumber (cast_num 1))" "valid_key (VNumber 0x4000000000000000)"
    by (simp_all add: valid_key_def)
qed

lemma ex_seq_inv: "table_inv ex_hash ex_seq"
proof -
  define t1 where "t1 = (case store ex_hash ex_table0 (VNumber (cast_num 1)) (VBoolean 1) of Ok t \<Rightarrow> t)"
  have "store ex_hash ex_table0 (VNumber (cast_num 1)) (VBoolean 1) = Ok t1"
    unfolding t1_def by code_simp
  from store_inv [OF ex_table0_inv _ this] have "table_inv ex_hash t1"
    using valid_VNumber_2(1) by blast
  moreover have "store ex_hash t1 (VNumber 0x4000000000000000) (VBoolean 0) = Ok ex_seq"
    unfolding t1_def by code_simp
  ultimately show ?thesis by (rule store_inv [OF _ valid_VNumber_2(2)])
qed

text \<open>
  C3: the length operator returns on every well-formed table, and the result is a border: zero
  or an index with a value, followed by an index without one. Neither the doubling search nor
  the linear search it falls back to can run past the integers.
\<close>

theorem luaH_getn_border:
  assumes "table_inv H t"
  shows "\<exists>k. luaH_getn t = Ok k \<and> border (\<lambda>i. at t i = VNil) k"
  by (rule luaH_getn_border_lemma [OF assms])

theorem luaH_getn_border_witness:
  "luaH_getn ex_seq = Ok 2 \<and> border (\<lambda>i. at ex_seq i = VNil) 2"
proof -
  have "luaH_getn ex_seq = Ok 2" by code_simp
  with luaH_getn_border [OF ex_seq_inv] show ?thesis by simp
qed

section \<open>Traversal and collection\<close>

text \<open>
  C4: a traversal with \<open>luaH_next\<close> that starts at nil ends after as many steps as there are
  entries, and yields every pair with a value exactly once, the array part first. Collectable and
  dead keys of the table have different addresses (\<open>addr_ok\<close>), as the allocator gives them.
\<close>

theorem traverse_complete:
  assumes "table_inv H t" and "addr_ok (node t)" and "length (live_places t 0) < f"
  shows "traverse H t f VNil = Ok (map (item t) (filter (\<lambda>j. snd (item t j) \<noteq> VNil) [0..<places t]))"
  using traverse_from [OF assms(1,2), of VNil "- 1" f] assms(3)
  by (simp add: findindex_def live_places_def)

lemma ex_addr_ok: "addr_ok (node ex_table)"
proof -
  have "length (node ex_table) = 2" by code_simp
  moreover have "gcvalue (i_key (node ex_table ! 0)) \<noteq> gcvalue (i_key (node ex_table ! 1))" by code_simp
  ultimately show ?thesis unfolding addr_ok_def by (metis One_nat_def less_2_cases)
qed

theorem traverse_complete_witness:
  "traverse ex_hash ex_table 3 VNil = Ok [(VString 32, VNumber 7), (VString 16, VBoolean 1)]"
proof -
  have "live_places ex_table 0 = [1, 2]" by code_simp
  moreover have "map (item ex_table) (filter (\<lambda>j. snd (item ex_table j) \<noteq> VNil) [0..<places ex_table])
      = [(VString 32, VNumber 7), (VString 16, VBoolean 1)]" by code_simp
  ultimately show ?thesis using traverse_complete [OF ex_table_inv ex_addr_ok, of 3] by simp
qed

text \<open>
  C35: when the collector clears an entry whose key is an object, the table stays well-formed,
  only that key loses its value, and a traversal that stands on the dead key still finds its
  place.
\<close>

theorem clear_entry_safe:
  assumes "table_inv H t" and "addr_ok (node t)" and "i < length (node t)"
    and "present (node t ! i)" and "iscollectable (i_key (node t ! i))"
  shows "table_inv H (clear_entry t i)
    \<and> (\<forall>k. valid_key k \<longrightarrow> lookup (clear_entry t i) k =
          (if luaO_rawequalObj (i_key (node t ! i)) k then VNil else lookup t k))
    \<and> findindex H (clear_entry t i) (i_key (node t ! i)) = findindex H t (i_key (node t ! i))"
proof -
  have nd: "\<not> isdummy t"
  proof
    assume "isdummy t"
    from table_invD(5) [OF assms(1) this] assms(3,4) show False by (simp add: present_def empty_node_def)
  qed
  show ?thesis
    using clear_inv [OF assms(1) nd] clear_lookup [OF assms(1) nd assms(3) _ assms(4)]
      findindex_node [OF assms(1-4)] assms(5) by simp
qed

theorem clear_entry_safe_witness:
  "lookup (clear_entry ex_table 1) (VString 16) = VNil
    \<and> lookup (clear_entry ex_table 1) (VString 32) = VNumber 7
    \<and> findindex ex_hash (clear_entry ex_table 1) (VString 16) = Ok 2"
proof -
  have i: "1 < length (node ex_table)" "present (node ex_table ! 1)"
    "iscollectable (i_key (node ex_table ! 1))" "i_key (node ex_table ! 1) = VString 16"
    by (simp_all add: ex_table_def present_def iscollectable_def)
  have "lookup ex_table (VString 32) = VNumber 7" "findindex ex_hash ex_table (VString 16) = Ok 2"
    by code_simp+
  with clear_entry_safe [OF ex_table_inv ex_addr_ok i(1-3)] show ?thesis unfolding i(4) by simp
qed

end
