(* ===== verification/LuaTabLibSpec.thy ===== *)
theory LuaTabLibSpec
  imports LuaTabLib LuaTableProps "HOL-Library.Multiset"
begin

text \<open>
  What the table library does to a sequence. \<open>sequence\<close> describes the part \<open>1..n\<close> of a
  table as a function; the locale \<open>sorting\<close> proves quicksort correct for any comparison that
  leaves the table alone and decides a strict weak order.
\<close>

section \<open>A sequence in a table\<close>

definition outside :: "int \<Rightarrow> TValue \<Rightarrow> bool" where
  "outside n k \<longleftrightarrow> valid_key k \<and> (\<forall>i. 1 \<le> i \<and> i \<le> n \<longrightarrow> \<not> luaO_rawequalObj (VNumber (cast_num i)) k)"

text \<open>The elements are \<open>a 1 .. a n\<close>, and the other keys have the values they have in \<open>t0\<close>.\<close>

definition sequence :: "strhash \<Rightarrow> Table \<Rightarrow> int \<Rightarrow> (int \<Rightarrow> TValue) \<Rightarrow> Table \<Rightarrow> bool" where
  "sequence H t0 n a t \<longleftrightarrow>
     table_inv H t \<and> (\<forall>i. 1 \<le> i \<and> i \<le> n \<longrightarrow> at t i = a i \<and> a i \<noteq> VNil)
   \<and> (\<forall>k. outside n k \<longrightarrow> lookup t k = lookup t0 k)"

lemma sequence_start:
  "table_inv H t \<Longrightarrow> (\<And>i. 1 \<le> i \<Longrightarrow> i \<le> n \<Longrightarrow> at t i \<noteq> VNil) \<Longrightarrow> sequence H t n (at t) t"
  by (simp add: sequence_def)

lemma sequence_get:
  assumes "sequence H t0 n a t" and "1 \<le> i" "i \<le> n" "n \<le> MAX_INT"
  shows "lua_rawgeti i t = Ok (a i, t)"
proof -
  have inv: "table_inv H t" and i: "in_int i" using assms by (simp_all add: sequence_def in_int_def)
  from foundD [OF getnum_found [OF inv i] inv valid_cast_num [OF i]] obtain p where
    "luaH_getnum t i = Ok p" "deref t p = at t i" by (auto simp: at_def)
  with assms show ?thesis by (simp add: lua_rawgeti_def sequence_def)
qed

lemma sequence_put:
  assumes s: "sequence H t0 n a t" and i: "1 \<le> i" "i \<le> n" "n \<le> MAX_INT" and v: "v \<noteq> VNil"
  shows "\<exists>t'. lua_rawseti H i v t = Ok ((), t') \<and> sequence H t0 n (a(i := v)) t'"
proof -
  let ?k = "VNumber (cast_num i)"
  have inv: "table_inv H t" and ii: "in_int i" using assms by (simp_all add: sequence_def in_int_def)
  note k = valid_cast_num [OF ii]
  from foundD [OF getnum_found [OF inv ii] inv k] obtain p where
    p: "luaH_getnum t i = Ok p" "deref t p = at t i" "\<forall>s. p = Some s \<longleftrightarrow> slot_of t ?k s"
    by (auto simp: at_def)
  have "at t i \<noteq> VNil" using s i by (simp add: sequence_def)
  then obtain sl where sl: "p = Some sl" using p(2) by (cases p) (simp_all add: deref_def)
  with p(3) have of: "slot_of t ?k sl" by blast
  let ?t = "set_slot t sl v"
  note L = lookup_set_slot [OF inv k of, of _ v]
  have el: "at ?t j = (a(i := v)) j" if "1 \<le> j" "j \<le> n" for j
  proof -
    have "in_int j" using that i by (simp add: in_int_def)
    then show ?thesis
      using L [OF valid_cast_num] cast_num_eq_iff [OF ii] s that by (simp add: at_def sequence_def)
  qed
  have "lookup ?t x = lookup t0 x" if "outside n x" for x
  proof -
    have "valid_key x" "\<not> luaO_rawequalObj ?k x" using that i by (auto simp: outside_def simp del: rawequal_simps)
    then have "lookup ?t x = lookup t x" using L [of x] by (simp del: rawequal_simps)
    then show ?thesis using s that by (simp add: sequence_def)
  qed
  then have "sequence H t0 n (a(i := v)) ?t"
    using set_slot_inv(1) [OF inv k of] el v s by (auto simp: sequence_def)
  moreover have "lua_rawseti H i v t = Ok ((), ?t)"
    using p(1) sl by (simp add: lua_rawseti_def luaH_setnum_def luaH_setnum_by_def)
  ultimately show ?thesis by blast
qed

section \<open>Steps that return\<close>

text \<open>The step returns, and its value and the sequence it leaves satisfy \<open>Q\<close>.\<close>

definition leaves ::
  "strhash \<Rightarrow> Table \<Rightarrow> int \<Rightarrow> ('a \<Rightarrow> (int \<Rightarrow> TValue) \<Rightarrow> bool) \<Rightarrow> ('a \<times> Table) result \<Rightarrow> bool" where
  "leaves H t0 n Q r \<longleftrightarrow> (\<exists>x t a. r = Ok (x, t) \<and> sequence H t0 n a t \<and> Q x a)"

lemma leaves_bind:
  "leaves H t0 n P (m t) \<Longrightarrow> (\<And>x t' b. sequence H t0 n b t' \<Longrightarrow> P x b \<Longrightarrow> leaves H t0 n Q (f x t'))
    \<Longrightarrow> leaves H t0 n Q (sbind m f t)"
  by (auto simp: leaves_def sbind_def)

lemma leaves_ret: "sequence H t0 n a t \<Longrightarrow> Q x a \<Longrightarrow> leaves H t0 n Q (sret x t)"
  by (auto simp: leaves_def)

lemma leaves_mono: "leaves H t0 n P r \<Longrightarrow> (\<And>x b. P x b \<Longrightarrow> Q x b) \<Longrightarrow> leaves H t0 n Q r"
  unfolding leaves_def by blast

definition swap :: "int \<Rightarrow> int \<Rightarrow> (int \<Rightarrow> 'a) \<Rightarrow> (int \<Rightarrow> 'a)" where
  "swap i j a = a(i := a j, j := a i)"

lemma set2_swap:
  assumes s: "sequence H t0 n a t" and ij: "1 \<le> i" "i \<le> n" "1 \<le> j" "j \<le> n" "n \<le> MAX_INT"
  shows "leaves H t0 n (\<lambda>_ b. b = swap i j a) (set2 H i j (a i) (a j) t)"
proof -
  have v: "a i \<noteq> VNil" "a j \<noteq> VNil" using s ij by (simp_all add: sequence_def)
  from sequence_put [OF s ij(1,2,5) v(2)] obtain t1 where
    t1: "lua_rawseti H i (a j) t = Ok ((), t1)" "sequence H t0 n (a(i := a j)) t1" by blast
  from sequence_put [OF t1(2) ij(3,4,5) v(1)] obtain t2 where
    "lua_rawseti H j (a i) t1 = Ok ((), t2)" "sequence H t0 n (swap i j a) t2" by (auto simp: swap_def)
  with t1 show ?thesis by (auto simp: leaves_def set2_def sbind_def)
qed

section \<open>Rearrangement\<close>

text \<open>\<open>b\<close> is \<open>a\<close> with the elements of \<open>l..u\<close> in another order.\<close>

definition perm :: "int \<Rightarrow> int \<Rightarrow> (int \<Rightarrow> 'a) \<Rightarrow> (int \<Rightarrow> 'a) \<Rightarrow> bool" where
  "perm l u a b \<longleftrightarrow> (\<forall>i. i \<notin> {l..u} \<longrightarrow> b i = a i)
     \<and> image_mset b (mset_set {l..u}) = image_mset a (mset_set {l..u})"

lemma perm_refl [simp]: "perm l u a a"
  by (simp add: perm_def)

lemma perm_trans: "perm l u a b \<Longrightarrow> perm l u b c \<Longrightarrow> perm l u a c"
  by (simp add: perm_def)

lemma perm_image: "perm l u a b \<Longrightarrow> b ` {l..u} = a ` {l..u}"
proof -
  assume "perm l u a b"
  then have "set_mset (image_mset b (mset_set {l..u})) = set_mset (image_mset a (mset_set {l..u}))"
    by (simp add: perm_def)
  then show ?thesis by simp
qed

lemma perm_outside: "perm l u a b \<Longrightarrow> i < l \<or> u < i \<Longrightarrow> b i = a i"
  by (auto simp: perm_def)

lemma perm_widen:
  assumes p: "perm l u a b" and sub: "l' \<le> l" "u \<le> u'"
  shows "perm l' u' a b"
proof -
  have split: "mset_set {l'..u'} = mset_set {l..u} + mset_set ({l'..u'} - {l..u})"
    using sub by (subst mset_set_Union [symmetric]) (auto intro: arg_cong [of _ _ mset_set])
  have "image_mset b (mset_set ({l'..u'} - {l..u})) = image_mset a (mset_set ({l'..u'} - {l..u}))"
    using p by (intro image_mset_cong) (auto simp: perm_def)
  with p sub show ?thesis by (auto simp: perm_def split)
qed

lemma perm_swap:
  assumes "l \<le> i" "i \<le> u" "l \<le> j" "j \<le> u"
  shows "perm l u a (swap i j a)"
proof (cases "i = j")
  case True
  then have "swap i j a = a" by (auto simp: swap_def)
  then show ?thesis by simp
next
  case False
  let ?R = "{l..u} - {i} - {j}"
  have "{l..u} = insert i (insert j ?R)" using assms by auto
  then have ms: "mset_set {l..u} = add_mset i (add_mset j (mset_set ?R))"
    using False by (metis finite_atLeastAtMost_int finite_Diff finite_insert Diff_iff insert_iff mset_set.insert)
  have "image_mset (swap i j a) (mset_set ?R) = image_mset a (mset_set ?R)"
    by (intro image_mset_cong) (simp add: swap_def)
  with False assms show ?thesis by (auto simp: perm_def ms swap_def)
qed

lemma perm_all:
  assumes "perm l u a b" and "\<And>i. l \<le> i \<Longrightarrow> i \<le> u \<Longrightarrow> Q (a i)" and "l \<le> i" "i \<le> u"
  shows "Q (b i)"
proof -
  have "b i \<in> a ` {l..u}" using perm_image [OF assms(1)] assms(3,4) by auto
  with assms(2) show ?thesis by auto
qed

section \<open>Quicksort\<close>

text \<open>A strict weak order on a set of values.\<close>

locale sort_order =
  fixes less :: "TValue \<Rightarrow> TValue \<Rightarrow> bool" and S :: "TValue set"
  assumes asym: "x \<in> S \<Longrightarrow> y \<in> S \<Longrightarrow> less x y \<Longrightarrow> \<not> less y x"
    and ntrans: "x \<in> S \<Longrightarrow> y \<in> S \<Longrightarrow> z \<in> S \<Longrightarrow> \<not> less y x \<Longrightarrow> \<not> less z y \<Longrightarrow> \<not> less z x"
begin

lemma irrefl: "x \<in> S \<Longrightarrow> \<not> less x x"
  using asym by blast

text \<open>No element of \<open>l..u\<close> is smaller than one before it.\<close>

definition ordered :: "int \<Rightarrow> int \<Rightarrow> (int \<Rightarrow> TValue) \<Rightarrow> bool" where
  "ordered l u a \<longleftrightarrow> (\<forall>i j. l \<le> i \<longrightarrow> i < j \<longrightarrow> j \<le> u \<longrightarrow> \<not> less (a j) (a i))"

lemma ordered_join:
  assumes "ordered l (m - 1) a" and "ordered (m + 1) u a"
    and "\<And>i. l \<le> i \<Longrightarrow> i < m \<Longrightarrow> \<not> less (a m) (a i)" and "\<And>i. m < i \<Longrightarrow> i \<le> u \<Longrightarrow> \<not> less (a i) (a m)"
    and S: "\<And>i. l \<le> i \<Longrightarrow> i \<le> u \<Longrightarrow> a i \<in> S" and m: "l \<le> m" "m \<le> u"
  shows "ordered l u a"
  unfolding ordered_def
proof (intro allI impI)
  fix i j
  assume ij: "l \<le> i" "i < j" "j \<le> u"
  consider "j < m" | "j = m" | "i = m" | "i < m" "m < j" | "m < i" using ij by linarith
  then show "\<not> less (a j) (a i)"
  proof cases
    case 4
    then show ?thesis using assms(3,4) ij m by (intro ntrans [of "a i" "a m" "a j"] S) auto
  qed (use assms(1-4) ij in \<open>auto simp: ordered_def\<close>)
qed

end

locale sorting = sort_order +
  fixes lt :: comparison and H :: strhash and t0 :: Table and n :: int
  assumes pure: "x \<in> S \<Longrightarrow> y \<in> S \<Longrightarrow> lt x y t = Ok (less x y, t)"
    and small: "n \<le> 2 ^ 30"
begin

text \<open>The comparison reads elements of the sequence only.\<close>

abbreviation elems :: "(int \<Rightarrow> TValue) \<Rightarrow> bool" where
  "elems a \<equiv> \<forall>i. 1 \<le> i \<and> i \<le> n \<longrightarrow> a i \<in> S"

lemma get:
  assumes "sequence H t0 n a t" and "1 \<le> i" "i \<le> n"
    and "leaves H t0 n Q (f (a i) t)"
  shows "leaves H t0 n Q (sbind (lua_rawgeti i) f t)"
  using sequence_get [OF assms(1-3)] small assms(4) by (simp add: sbind_def)

lemma compare:
  "x \<in> S \<Longrightarrow> y \<in> S \<Longrightarrow> leaves H t0 n Q (f (less x y) t) \<Longrightarrow> leaves H t0 n Q (sbind (lt x y) f t)"
  by (simp add: sbind_def pure)

lemma swapped:
  assumes "sequence H t0 n a t" and "1 \<le> i" "i \<le> n" "1 \<le> j" "j \<le> n" and "Q () (swap i j a)"
  shows "leaves H t0 n Q (set2 H i j (a i) (a j) t)"
  using set2_swap [OF assms(1-5)] small assms(6) by (auto elim: leaves_mono)

lemma sort_ends_ok:
  assumes s: "sequence H t0 n a t" "elems a" and r: "1 \<le> l" "l < u" "u \<le> n"
  shows "leaves H t0 n (\<lambda>_ b. perm l u a b \<and> \<not> less (b u) (b l)) (sort_ends H lt l u t)"
  unfolding sort_ends_def
proof (intro get [OF s(1)] compare)
  let ?Q = "\<lambda>_ b. perm l u a b \<and> \<not> less (b u) (b l)"
  show "leaves H t0 n ?Q ((if less (a u) (a l) then set2 H l u (a l) (a u) else sret ()) t)"
  proof (cases "less (a u) (a l)")
    case True
    then have "?Q () (swap l u a)"
      using asym [of "a u" "a l"] s r by (simp add: perm_swap) (simp add: swap_def)
    then show ?thesis using True swapped [OF s(1), of l u ?Q] r by simp
  next
    case False
    then show ?thesis using leaves_ret [of H t0 n a t ?Q] s by simp
  qed
qed (use s r in auto)

lemma sort_middle_ok:
  assumes s: "sequence H t0 n a t" "elems a" and r: "1 \<le> l" "l < i" "i < u" "u \<le> n"
    and o': "\<not> less (a u) (a l)"
  shows "leaves H t0 n (\<lambda>_ b. perm l u a b \<and> \<not> less (b i) (b l) \<and> \<not> less (b u) (b i)) (sort_middle H lt l u i t)"
  unfolding sort_middle_def
proof (intro get [OF s(1)] compare)
  let ?Q = "\<lambda>_ b. perm l u a b \<and> \<not> less (b i) (b l) \<and> \<not> less (b u) (b i)"
  have S: "a l \<in> S" "a i \<in> S" "a u \<in> S" using s r by auto
  let ?last = "sbind (lua_rawgeti u) (\<lambda>au. sbind (lt au (a i)) (\<lambda>c. if c then set2 H i u (a i) au else sret ()))"
  have up: "leaves H t0 n ?Q (?last t)" if "\<not> less (a i) (a l)"
  proof (intro get [OF s(1)] compare)
    show "leaves H t0 n ?Q ((if less (a u) (a i) then set2 H i u (a i) (a u) else sret ()) t)"
    proof (cases "less (a u) (a i)")
      case True
      then have "?Q () (swap i u a)"
        using asym [OF S(3,2)] o' r by (simp add: perm_swap) (simp add: swap_def)
      then show ?thesis using True swapped [OF s(1), of i u ?Q] r by simp
    next
      case False
      then show ?thesis using leaves_ret [of H t0 n a t ?Q] s that by simp
    qed
  qed (use S r in auto)
  show "leaves H t0 n ?Q ((if less (a i) (a l) then set2 H i l (a i) (a l) else ?last) t)"
  proof (cases "less (a i) (a l)")
    case True
    then have "?Q () (swap i l a)"
      using asym [OF S(2,1)] o' r by (simp add: perm_swap) (simp add: swap_def)
    then show ?thesis using True swapped [OF s(1), of i l ?Q] r by simp
  qed (use up in simp)
qed (use s r in auto)

lemma scan_up_ok:
  assumes s: "sequence H t0 n a t" "elems a" and P: "P \<in> S"
    and r: "1 \<le> i + 1" "i < m" "m \<le> u" "u \<le> n" and stop: "\<not> less (a m) P"
  shows "leaves H t0 n (\<lambda>x b. b = a \<and> snd x = a (fst x) \<and> i < fst x \<and> fst x \<le> m \<and> \<not> less (a (fst x)) P
           \<and> (\<forall>k. i < k \<and> k < fst x \<longrightarrow> less (a k) P)) (scan_up lt P u i t)"
  using r
proof (induction "nat (m - i)" arbitrary: i rule: less_induct)
  case less
  let ?Q = "\<lambda>i x b. b = a \<and> snd x = a (fst x) \<and> i < fst x \<and> fst x \<le> m \<and> \<not> less (a (fst x)) P
           \<and> (\<forall>k. i < k \<and> k < fst x \<longrightarrow> less (a k) P)"
  have S: "a (i + 1) \<in> S" using s less.prems by simp
  show ?case
  proof (cases "less (a (i + 1)) P")
    case False
    have "leaves H t0 n (?Q i) (sret (i + 1, a (i + 1)) t)"
      by (rule leaves_ret [OF s(1)]) (use False less.prems in auto)
    then show ?thesis
      by (subst scan_up.simps) (intro get [OF s(1)] compare; use False S P less.prems in simp)
  next
    case True
    then have ne: "i + 1 \<noteq> m" using stop by auto
    have "leaves H t0 n (?Q (i + 1)) (scan_up lt P u (i + 1) t)"
      by (rule less.hyps) (use ne less.prems in auto)
    then have "leaves H t0 n (?Q i) (scan_up lt P u (i + 1) t)"
    proof (rule leaves_mono)
      have "k = i + 1 \<or> i + 1 < k" if "i < k" for k using that by auto
      with True show "?Q i x b" if "?Q (i + 1) x b" for x b using that by fastforce
    qed
    then show ?thesis
      by (subst scan_up.simps) (intro get [OF s(1)] compare; use True S P less.prems in simp)
  qed
qed

lemma scan_down_ok:
  assumes s: "sequence H t0 n a t" "elems a" and P: "P \<in> S"
    and r: "1 \<le> l" "l \<le> m" "m < j" "j \<le> n + 1" and stop: "\<not> less P (a m)"
  shows "leaves H t0 n (\<lambda>x b. b = a \<and> snd x = a (fst x) \<and> fst x < j \<and> m \<le> fst x \<and> \<not> less P (a (fst x))
           \<and> (\<forall>k. fst x < k \<and> k < j \<longrightarrow> less P (a k))) (scan_down lt P l j t)"
  using r
proof (induction "nat (j - m)" arbitrary: j rule: less_induct)
  case less
  let ?Q = "\<lambda>j x b. b = a \<and> snd x = a (fst x) \<and> fst x < j \<and> m \<le> fst x \<and> \<not> less P (a (fst x))
           \<and> (\<forall>k. fst x < k \<and> k < j \<longrightarrow> less P (a k))"
  have S: "a (j - 1) \<in> S" using s less.prems by simp
  show ?case
  proof (cases "less P (a (j - 1))")
    case False
    have "leaves H t0 n (?Q j) (sret (j - 1, a (j - 1)) t)"
      by (rule leaves_ret [OF s(1)]) (use False less.prems in auto)
    then show ?thesis
      by (subst scan_down.simps) (intro get [OF s(1)] compare; use False S P less.prems in simp)
  next
    case True
    then have ne: "j - 1 \<noteq> m" using stop by auto
    have "leaves H t0 n (?Q (j - 1)) (scan_down lt P l (j - 1) t)"
      by (rule less.hyps) (use ne less.prems in auto)
    then have "leaves H t0 n (?Q j) (scan_down lt P l (j - 1) t)"
    proof (rule leaves_mono)
      have "k = j - 1 \<or> k < j - 1" if "k < j" for k using that by auto
      with True show "?Q j x b" if "?Q (j - 1) x b" for x b using that by fastforce
    qed
    then show ?thesis
      by (subst scan_down.simps) (intro get [OF s(1)] compare; use True S P less.prems in simp)
  qed
qed

text \<open>What the partition loop keeps: the pivot is at \<open>u - 1\<close>, nothing up to \<open>i\<close> is larger and
  nothing from \<open>j\<close> on is smaller.\<close>

definition split_at :: "TValue \<Rightarrow> int \<Rightarrow> int \<Rightarrow> int \<Rightarrow> int \<Rightarrow> (int \<Rightarrow> TValue) \<Rightarrow> bool" where
  "split_at P l u i j a \<longleftrightarrow> (\<forall>k. l \<le> k \<and> k \<le> i \<longrightarrow> \<not> less P (a k)) \<and> (\<forall>k. j \<le> k \<and> k \<le> u \<longrightarrow> \<not> less (a k) P)"

lemma split_meet:
  assumes sp: "split_at P l u i j a" and P: "P \<in> S" and S: "\<And>k. l \<le> k \<Longrightarrow> k \<le> u \<Longrightarrow> a k \<in> S"
    and up: "\<not> less (a i') P" "\<forall>k. i < k \<and> k < i' \<longrightarrow> less (a k) P"
    and down: "\<not> less P (a j')" "\<forall>k. j' < k \<and> k < j \<longrightarrow> less P (a k)"
    and r: "l \<le> i'" "j' < i'" "i' \<le> u"
  shows "split_at P l u (i' - 1) i' a"
  unfolding split_at_def
proof (intro conjI allI impI; elim conjE)
  fix k
  assume k: "l \<le> k" "k \<le> i' - 1"
  consider "k \<le> i" | "i < k" by linarith
  then show "\<not> less P (a k)"
    by cases (use sp up asym [OF S P, of k] k r in \<open>auto simp: split_at_def\<close>)
next
  fix k
  assume k: "i' \<le> k" "k \<le> u"
  consider "j \<le> k" | "k < j" by linarith
  then show "\<not> less (a k) P"
    by cases (use sp down asym [OF P S, of k] k r in \<open>auto simp: split_at_def\<close>)
qed

lemma split_swap:
  assumes sp: "split_at P l u i j a" and P: "P \<in> S" and S: "\<And>k. l \<le> k \<Longrightarrow> k \<le> u \<Longrightarrow> a k \<in> S"
    and up: "\<not> less (a i') P" "\<forall>k. i < k \<and> k < i' \<longrightarrow> less (a k) P"
    and down: "\<not> less P (a j')" "\<forall>k. j' < k \<and> k < j \<longrightarrow> less P (a k)"
    and r: "l \<le> i'" "i' \<le> j'" "j' \<le> u"
  shows "split_at P l u i' j' (swap i' j' a)"
  unfolding split_at_def
proof (intro conjI allI impI; elim conjE)
  fix k
  assume k: "l \<le> k" "k \<le> i'"
  consider "k = i'" | "k \<noteq> i'" "k \<le> i" | "k \<noteq> i'" "i < k" by linarith
  then show "\<not> less P (swap i' j' a k)"
    by cases (use sp up down asym [OF S P, of k] k r in \<open>auto simp: split_at_def swap_def\<close>)
next
  fix k
  assume k: "j' \<le> k" "k \<le> u"
  consider "k = j'" | "k \<noteq> j'" "j \<le> k" | "k \<noteq> j'" "k < j" by linarith
  then show "\<not> less (swap i' j' a k) P"
    by cases (use sp up down asym [OF P S, of k] k r in \<open>auto simp: split_at_def swap_def\<close>)
qed

definition split_result :: "TValue \<Rightarrow> int \<Rightarrow> int \<Rightarrow> (int \<Rightarrow> TValue) \<Rightarrow> int \<Rightarrow> (int \<Rightarrow> TValue) \<Rightarrow> bool" where
  "split_result P l u a i b \<longleftrightarrow>
     perm l u a b \<and> l < i \<and> i < u \<and> b (u - 1) = P \<and> split_at P l u (i - 1) i b"

lemma partition_loop_ok:
  assumes "sequence H t0 n a t" "elems a" and P: "P \<in> S" and r: "1 \<le> l" "u \<le> n"
    and "l \<le> i" "i \<le> j" "l < j" "i < u - 1" "j \<le> u - 1" and "split_at P l u i j a" and "a (u - 1) = P"
  shows "leaves H t0 n (split_result P l u a) (partition_loop H lt P l u i j t)"
  using assms(1,2,6-)
proof (induction "nat (j - i)" arbitrary: i j a t rule: less_induct)
  case less
  note s = less.prems(1,2) and b = less.prems(3-7) and sp = less.prems(8) and piv = less.prems(9)
  have S: "a k \<in> S" if "l \<le> k" "k \<le> u" for k using s(2) that r by simp
  define m1 where "m1 = max (i + 1) j"
  define m2 where "m2 = min (j - 1) i"
  have up: "\<not> less (a m1) P" "i < m1" "m1 \<le> u - 1" using sp b by (auto simp: split_at_def m1_def)
  have down: "\<not> less P (a m2)" "l \<le> m2" "m2 < j" using sp b by (auto simp: split_at_def m2_def)
  have r1: "1 \<le> i + 1" "m1 \<le> u" using b up r by auto
  note su = scan_up_ok [OF s P r1(1) up(2) r1(2) r(2) up(1)]
  show ?case
  proof (subst partition_loop.simps, rule leaves_bind, rule su, goal_cases)
    case (1 x t1 a1)
    then have 1: "sequence H t0 n a t1" and i': "i < fst x" "fst x \<le> m1" "snd x = a (fst x)"
      and u: "\<not> less (a (fst x)) P" "\<forall>k. i < k \<and> k < fst x \<longrightarrow> less (a k) P" by auto
    have j0: "j \<le> n + 1" using b r by simp
    show ?case
    proof (rule leaves_bind, rule scan_down_ok [OF 1 s(2) P r(1) down(2,3) j0 down(1)], goal_cases)
      case (1 y t2 a2)
      then have 2: "sequence H t0 n a t2" and j': "fst y < j" "m2 \<le> fst y" "snd y = a (fst y)"
        and d: "\<not> less P (a (fst y))" "\<forall>k. fst y < k \<and> k < j \<longrightarrow> less P (a k)" by auto
      have bounds: "l < fst x" "fst x \<le> u - 1" "l \<le> fst y" "fst y < u - 1" using i' j' b up down by auto
      show ?case
      proof (cases "fst y < fst x")
        case True
        have "split_at P l u (fst x - 1) (fst x) a"
          by (rule split_meet [OF sp P S u d]) (use bounds True in auto)
        then have "split_result P l u a (fst x) a" using bounds piv by (simp add: split_result_def)
        with True 2 show ?thesis by (auto intro: leaves_ret)
      next
        case False
        let ?c = "swap (fst x) (fst y) a"
        have sp': "split_at P l u (fst x) (fst y) ?c"
          by (rule split_swap [OF sp P S u d]) (use bounds False in auto)
        have pm: "perm l u a ?c" using bounds False by (intro perm_swap) auto
        have el: "elems ?c" using s(2) bounds r False by (auto simp: swap_def)
        have pv: "?c (u - 1) = P" using piv bounds False by (simp add: swap_def)
        have "leaves H t0 n (\<lambda>_ c. c = ?c) (set2 H (fst x) (fst y) (snd x) (snd y) t2)"
          unfolding i'(3) j'(3) by (rule swapped [OF 2]) (use bounds False r in auto)
        moreover have "leaves H t0 n (split_result P l u a) (partition_loop H lt P l u (fst x) (fst y) t3)"
          if "sequence H t0 n c t3" "c = ?c" for t3 c
        proof (rule leaves_mono)
          show "leaves H t0 n (split_result P l u ?c) (partition_loop H lt P l u (fst x) (fst y) t3)"
            by (rule less.hyps [OF _ _ el _ _ _ _ _ sp' pv]) (use that bounds False i' j' b in auto)
          show "split_result P l u a k c'" if "split_result P l u ?c k c'" for k c'
            using that perm_trans [OF pm] by (auto simp: split_result_def)
        qed
        ultimately show ?thesis using False by (auto intro: leaves_bind)
      qed
    qed
  qed
qed

definition around :: "int \<Rightarrow> int \<Rightarrow> int \<Rightarrow> (int \<Rightarrow> TValue) \<Rightarrow> bool" where
  "around l u k b \<longleftrightarrow> l < k \<and> k < u \<and> (\<forall>m. l \<le> m \<and> m < k \<longrightarrow> \<not> less (b k) (b m))
     \<and> (\<forall>m. k < m \<and> m \<le> u \<longrightarrow> \<not> less (b m) (b k))"

lemma split_range_ok:
  assumes s: "sequence H t0 n a t" "elems a" and r: "1 \<le> l" "l < i" "i < u" "u \<le> n" "3 \<le> u - l"
    and mid: "\<not> less (a i) (a l)" "\<not> less (a u) (a i)"
  shows "leaves H t0 n (\<lambda>k b. perm l u a b \<and> around l u k b) (split_range H lt l u i t)"
  unfolding split_range_def
proof (intro get [OF s(1)], goal_cases)
  case 5
  define a1 where "a1 = swap i (u - 1) a"
  have P: "a i \<in> S" using s r by simp
  have p1: "perm l u a a1" using r unfolding a1_def by (intro perm_swap) auto
  have el: "elems a1" using s r by (auto simp: a1_def swap_def)
  have pv: "a1 (u - 1) = a i" by (simp add: a1_def swap_def)
  have "k = u - 1 \<or> k = u" if "u - 1 \<le> k" "k \<le> u" for k using that by auto
  then have sp: "split_at (a i) l u l (u - 1) a1"
    using mid irrefl [OF P] r by (fastforce simp: split_at_def a1_def swap_def)
  have sw: "leaves H t0 n (\<lambda>_ b. b = a1) (set2 H i (u - 1) (a i) (a (u - 1)) t)"
    unfolding a1_def by (rule swapped [OF s(1)]) (use r in auto)
  show ?case
  proof (rule leaves_bind, rule sw, goal_cases)
    case (1 x t1 b1)
    then have s1: "sequence H t0 n a1 t1" by simp
    have ploop: "leaves H t0 n (split_result (a i) l u a1) (partition_loop H lt (a i) l u l (u - 1) t1)"
      by (rule partition_loop_ok [OF s1 el P _ _ _ _ _ _ _ sp pv]) (use r in auto)
    show ?case
    proof (rule leaves_bind, rule ploop, goal_cases)
      case (1 k t2 b)
      then have s2: "sequence H t0 n b t2" and k: "l < k" "k < u" and pb: "perm l u a1 b" "b (u - 1) = a i"
        and spb: "split_at (a i) l u (k - 1) k b" by (auto simp: split_result_def)
      let ?c = "swap (u - 1) k b"
      have "perm l u b ?c" using k r by (intro perm_swap) auto
      then have pc: "perm l u a ?c" using perm_trans perm_trans [OF p1] pb(1) by blast
      have "around l u k ?c"
        unfolding around_def
      proof (intro conjI allI impI k)
        fix m assume "l \<le> m \<and> m < k"
        then show "\<not> less (?c k) (?c m)" using spb pb(2) k by (simp add: swap_def split_at_def)
      next
        fix m assume "k < m \<and> m \<le> u"
        then show "\<not> less (?c m) (?c k)" using spb pb(2) k by (simp add: swap_def split_at_def)
      qed
      then have fin: "leaves H t0 n (\<lambda>_ c. perm l u a c \<and> around l u k c) (set2 H (u - 1) k (b (u - 1)) (b k) t2)"
        using k r pc by (intro swapped [OF s2]) auto
      show ?case
      proof (intro get [OF s2], goal_cases)
        case 5
        show ?case by (rule leaves_bind, rule fin) (auto intro: leaves_ret)
      qed (use k r in auto)
    qed
  qed
qed (use r in auto)

lemma around_join:
  assumes ar: "around l u k b" and S: "\<And>i. l \<le> i \<Longrightarrow> i \<le> u \<Longrightarrow> d i \<in> S"
    and left: "ordered l (k - 1) d" "d ` {l..k - 1} = b ` {l..k - 1}"
    and right: "ordered (k + 1) u d" "d ` {k + 1..u} = b ` {k + 1..u}" and same: "d k = b k"
  shows "ordered l u d"
proof (rule ordered_join [OF left(1) right(1)])
  fix i assume "l \<le> i" "i < k"
  then have "d i \<in> b ` {l..k - 1}" using left(2) by auto
  then show "\<not> less (d k) (d i)" using ar same by (auto simp: around_def)
next
  fix i assume "k < i" "i \<le> u"
  then have "d i \<in> b ` {k + 1..u}" using right(2) by auto
  then show "\<not> less (d i) (d k)" using ar same by (auto simp: around_def)
qed (use S ar in \<open>auto simp: around_def\<close>)

lemma elems_perm: "elems a \<Longrightarrow> perm l u a b \<Longrightarrow> 1 \<le> l \<Longrightarrow> u \<le> n \<Longrightarrow> elems b"
proof (intro allI impI)
  fix i
  assume a: "elems a" "perm l u a b" "1 \<le> l" "u \<le> n" and i: "1 \<le> i \<and> i \<le> n"
  have "perm 1 n a b" by (rule perm_widen [OF a(2-4)])
  then show "b i \<in> S" by (rule perm_all) (use a(1) i in auto)
qed

text \<open>The two sides may be sorted in either order.\<close>

lemma sides_ok:
  assumes s: "sequence H t0 n b t" "elems b" and ar: "around l u k b" and r: "1 \<le> l" "u \<le> n"
    and IH: "\<And>l' u' a t. sequence H t0 n a t \<Longrightarrow> elems a \<Longrightarrow> l \<le> l' \<Longrightarrow> u' \<le> u \<Longrightarrow> u' - l' < u - l - 1
      \<Longrightarrow> leaves H t0 n (\<lambda>_ d. perm l' u' a d \<and> ordered l' u' d) (auxsort H lt f l' u' t)"
    and two: "(l1, u1, l2, u2) = (l, k - 1, k + 1, u) \<or> (l1, u1, l2, u2) = (k + 1, u, l, k - 1)"
  shows "leaves H t0 n (\<lambda>_ d. perm l u b d \<and> ordered l u d)
    (sbind (auxsort H lt f l1 u1) (\<lambda>_. auxsort H lt f l2 u2) t)"
proof -
  have k: "l < k" "k < u" using ar by (simp_all add: around_def)
  have bounds: "l \<le> l1" "u1 \<le> u" "u1 - l1 < u - l - 1" "l \<le> l2" "u2 \<le> u" "u2 - l2 < u - l - 1"
    "u1 < l2 \<or> u2 < l1" "k < l1 \<or> u1 < k" "k < l2 \<or> u2 < k" using two k by auto
  show ?thesis
  proof (rule leaves_bind, rule IH [OF s bounds(1-3)], goal_cases)
    case (1 x t1 c)
    then have c: "perm l1 u1 b c" "ordered l1 u1 c" "sequence H t0 n c t1" by auto
    have elc: "elems c" using elems_perm [OF s(2) c(1)] bounds r by auto
    show ?case
    proof (rule leaves_mono, rule IH [OF c(3) elc bounds(4-6)], elim conjE)
      fix d
      assume d: "perm l2 u2 c d" "ordered l2 u2 d"
      have pd: "perm l u b d"
        using perm_trans [OF perm_widen [OF c(1) bounds(1,2)] perm_widen [OF d(1) bounds(4,5)]] .
      have same: "d i = c i" if "l1 \<le> i" "i \<le> u1" for i
        using perm_outside [OF d(1)] that bounds(7) by auto
      have first: "ordered l1 u1 d" "d ` {l1..u1} = b ` {l1..u1}"
        using c(2) perm_image [OF c(1)] same by (auto simp: ordered_def image_def)
      have "c ` {l2..u2} = b ` {l2..u2}"
        using perm_outside [OF c(1)] bounds(7) by (intro image_cong) auto
      then have second: "ordered l2 u2 d" "d ` {l2..u2} = b ` {l2..u2}"
        using d perm_image [OF d(1)] by auto
      have "d k = b k" using perm_outside [OF d(1)] perm_outside [OF c(1)] bounds(8,9) by auto
      moreover have "d i \<in> S" if "l \<le> i" "i \<le> u" for i
        using elems_perm [OF s(2) pd r] that r by auto
      ultimately have "ordered l u d"
        using around_join [OF ar, of d] first second two by auto
      with pd show "perm l u b d \<and> ordered l u d" ..
    qed
  qed
qed

lemma auxsort_ok:
  assumes "sequence H t0 n a t" "elems a" and "1 \<le> l" "u \<le> n" "u - l \<le> int f"
  shows "leaves H t0 n (\<lambda>_ b. perm l u a b \<and> ordered l u b) (auxsort H lt f l u t)"
  using assms
proof (induction f arbitrary: l u a t)
  case 0
  then show ?case by (auto intro!: leaves_ret simp: ordered_def)
next
  case (Suc f)
  note s = Suc.prems(1,2) and r = Suc.prems(3,4)
  let ?Q = "\<lambda>a (_::unit) b. perm l u a b \<and> ordered l u b"
  show ?case
  proof (cases "l < u")
    case False
    then show ?thesis using leaves_ret [OF s(1), of "?Q a"] by (simp add: ordered_def)
  next
    case True
    have int: "in_int (l + u)" using True r small by (simp add: in_int_def)
    define i where "i = (l + u) div 2"
    let ?rest = "sbind (split_range H lt l u i) (\<lambda>i.
            if i - l < u - i
            then sbind (auxsort H lt f l (i - 1)) (\<lambda>_. auxsort H lt f (i + 1) u)
            else sbind (auxsort H lt f (i + 1) u) (\<lambda>_. auxsort H lt f l (i - 1)))"
    have rest: "leaves H t0 n (?Q a) (?rest t2)"
      if "sequence H t0 n b t2" "perm l u a b" "\<not> less (b i) (b l)" "\<not> less (b u) (b i)" "3 \<le> u - l" for b t2
    proof -
      have el: "elems b" by (rule elems_perm [OF s(2) that(2) r])
      have i: "l < i" "i < u" using that(5) by (simp_all add: i_def)
      show ?thesis
      proof (rule leaves_bind, rule split_range_ok [OF that(1) el r(1) i r(2) that(5,3,4)], goal_cases)
        case (1 k t3 c)
        then have c: "sequence H t0 n c t3" "perm l u b c" "around l u k c" by auto
        have elc: "elems c" by (rule elems_perm [OF el c(2) r])
        have IH: "leaves H t0 n (\<lambda>_ d. perm l' u' a d \<and> ordered l' u' d) (auxsort H lt f l' u' t)"
          if "sequence H t0 n a t" "elems a" "l \<le> l'" "u' \<le> u" "u' - l' < u - l - 1" for l' u' a t
          by (rule Suc.IH) (use that Suc.prems(3-5) in auto)
        have "leaves H t0 n (?Q c) (sbind (auxsort H lt f l (k - 1)) (\<lambda>_. auxsort H lt f (k + 1) u) t3)"
          "leaves H t0 n (?Q c) (sbind (auxsort H lt f (k + 1) u) (\<lambda>_. auxsort H lt f l (k - 1)) t3)"
          by (rule sides_ok [OF c(1) elc c(3) r IH]; simp)+
        then show ?case
          using perm_trans [OF perm_trans [OF that(2) c(2)]] by (auto elim!: leaves_mono)
      qed
    qed
    have tail2: "leaves H t0 n (?Q a) ((if u - l = 2 then sret () else ?rest) t2)"
      if b: "sequence H t0 n b t2" "perm l u a b" "\<not> less (b i) (b l)" "\<not> less (b u) (b i)" and ne: "u - l \<noteq> 1" for b t2
    proof (cases "u - l = 2")
      case two: True
      then have i: "i = l + 1" "u = l + 2" by (simp_all add: i_def)
      have "b l \<in> S" "b i \<in> S" "b u \<in> S" using elems_perm [OF s(2) b(2) r] r True i by auto
      then have "\<not> less (b u) (b l)" using b ntrans by blast
      moreover have "j = l + 1 \<or> j = l + 2" if "l < j" "j \<le> l + 2" for j using that by auto
      moreover have "j = l \<or> j = l + 1" if "l \<le> j" "j < l + 2" for j using that by auto
      ultimately have "ordered l u b" using b(3,4) i unfolding ordered_def by (smt (verit, best))
      with two b show ?thesis by (auto intro: leaves_ret)
    next
      case False
      with rest [OF b] ne True show ?thesis by simp
    qed
    let ?tail1 = "if u - l = 1 then sret ()
        else if \<not> in_int (l + u) then sundef
        else let i = (l + u) div 2 in
          sbind (sort_middle H lt l u i) (\<lambda>_.
          if u - l = 2 then sret ()
          else
            sbind (split_range H lt l u i) (\<lambda>i.
            if i - l < u - i
            then sbind (auxsort H lt f l (i - 1)) (\<lambda>_. auxsort H lt f (i + 1) u)
            else sbind (auxsort H lt f (i + 1) u) (\<lambda>_. auxsort H lt f l (i - 1))))"
    have tail1: "leaves H t0 n (?Q a) (?tail1 t1)"
      if b: "sequence H t0 n b t1" "perm l u a b" "\<not> less (b u) (b l)" for b t1
    proof (cases "u - l = 1")
      case one: True
      then have "j = l + 1" if "l < j" "j \<le> u" for j using that by auto
      moreover have "j = l" if "l \<le> j" "j < u" for j using that one by auto
      ultimately have "ordered l u b" using b(3) one unfolding ordered_def by (smt (verit, best))
      with one b show ?thesis by (auto intro: leaves_ret)
    next
      case False
      then have i: "l < i" "i < u" using True by (simp_all add: i_def)
      have el: "elems b" by (rule elems_perm [OF s(2) b(2) r])
      have "leaves H t0 n (?Q a) (sbind (sort_middle H lt l u i) (\<lambda>_. if u - l = 2 then sret () else ?rest) t1)"
        by (rule leaves_bind, rule sort_middle_ok [OF b(1) el r(1) i r(2) b(3)], rule tail2)
          (use perm_trans [OF b(2)] False in auto)
      with False int show ?thesis by (simp add: Let_def flip: i_def)
    qed
    have "leaves H t0 n (?Q a) (sbind (sort_ends H lt l u) (\<lambda>_. ?tail1) t)"
      by (rule leaves_bind, rule sort_ends_ok [OF s r(1) True r(2)], rule tail1) auto
    with True show ?thesis by simp
  qed
qed

end

end
