(* ===== verification/LuaCompare.thy ===== *)
theory LuaCompare
  imports LuaVMSpec LuaTabLibSpec
begin

text \<open>The order of strings (\<open>l_strcmp\<close>) and indexing through metatables (\<open>luaV_gettable\<close>) of \<^verbatim>\<open>lvm.c\<close>.\<close>

section \<open>The order of byte strings\<close>

text \<open>The lexicographic order of two strings of bytes, as -1, 0 or 1\<close>

fun byte_cmp :: "string \<Rightarrow> string \<Rightarrow> int" where
  "byte_cmp [] [] = 0"
| "byte_cmp [] (b # r) = - 1"
| "byte_cmp (a # l) [] = 1"
| "byte_cmp (a # l) (b # r) = (if a = b then byte_cmp l r else if (of_char a :: nat) < of_char b then - 1 else 1)"

lemma byte_cmp_zero: "byte_cmp l r = 0 \<longleftrightarrow> l = r"
  by (induction l r rule: byte_cmp.induct) auto

lemma byte_cmp_prefix: "byte_cmp (c @ l) (c @ r) = byte_cmp l r"
  by (induction c) auto

lemma byte_cmp_Nil: "byte_cmp l [] = (if l = [] then 0 else 1)" "byte_cmp [] r = (if r = [] then 0 else - 1)"
  by (cases l; simp) (cases r; simp)

lemma byte_cmp_flip: "byte_cmp l r = - byte_cmp r l"
proof (induction l r rule: byte_cmp.induct)
  case (4 a l b r)
  have "of_char a = (of_char b :: nat) \<longleftrightarrow> a = b" by simp
  with 4 show ?case by fastforce
qed auto

lemma byte_cmp_trans: "byte_cmp x y < 0 \<Longrightarrow> byte_cmp y z < 0 \<Longrightarrow> byte_cmp x z < 0"
proof (induction x y arbitrary: z rule: byte_cmp.induct)
  case (4 a l b r)
  then show ?case by (cases z) (auto split: if_splits)
next
  case (2 b r)
  then show ?case by (cases z) auto
qed auto

text \<open>The pieces before the first zero decide when they differ.\<close>

lemma byte_cmp_cstr: "byte_cmp (cstr l) (cstr r) \<noteq> 0 \<Longrightarrow> byte_cmp l r = byte_cmp (cstr l) (cstr r)"
proof (induction l r rule: byte_cmp.induct)
  case (4 a l b r)
  have z: "(of_char c :: nat) = 0 \<longleftrightarrow> c = CHR 0x00" for c
  proof -
    have "(of_char (CHR 0x00) :: nat) = 0" by simp
    then show ?thesis by (metis of_char_eq_iff)
  qed
  show ?case
    using 4 z [of a] z [of b] by (auto simp: cstr_def split: if_splits)
qed (auto simp: cstr_def split: if_splits)

lemma cstr_split: "cstr s = s \<or> (\<exists>u. s = cstr s @ CHR 0x00 # u)"
  by (induction s) (auto simp: cstr_def)

lemma strcmp_bytes:
  assumes "\<And>x y. sgn (sc x y) = byte_cmp x y"
  shows "\<exists>c. l_strcmp sc l r = Ok c \<and> sgn c = byte_cmp l r"
proof (induction "length l" arbitrary: l r rule: less_induct)
  case less
  let ?n = "length (cstr l)"
  show ?case
  proof (cases "sc (cstr l) (cstr r) = 0")
    case False
    then have "byte_cmp (cstr l) (cstr r) \<noteq> 0" using assms [of "cstr l" "cstr r"] by (metis sgn_0_0)
    with False show ?thesis using byte_cmp_cstr [of l r] assms by (subst l_strcmp.simps) (simp add: Let_def)
  next
    case True
    then have "byte_cmp (cstr l) (cstr r) = 0" using assms [of "cstr l" "cstr r"] by simp
    then have c: "cstr r = cstr l" by (simp add: byte_cmp_zero)
    have l: "?n = length l \<longleftrightarrow> l = cstr l" "?n = length r \<longleftrightarrow> r = cstr l"
      using cstr_split [of l] cstr_split [of r] c by (metis append_Nil2 append_eq_append_conv list.distinct(1))+
    consider (r) "r = cstr l" | (l) "r \<noteq> cstr l" "l = cstr l" | (both) u v where "l = cstr l @ CHR 0x00 # u" "r = cstr l @ CHR 0x00 # v"
      using cstr_split [of l] cstr_split [of r] c by metis
    then show ?thesis
    proof cases
      case r
      have "byte_cmp l r = (if l = cstr l then 0 else 1)"
        using cstr_split [of l] r byte_cmp_prefix [of "cstr l" _ "[]"] byte_cmp_zero [of l l] by (metis append_Nil2 byte_cmp.simps(3) list.distinct(1))
      with True r l show ?thesis by (subst l_strcmp.simps) (simp add: Let_def)
    next
      case l': l
      have "byte_cmp l r = - 1"
        using cstr_split [of r] l' c byte_cmp_prefix [of "cstr l" "[]"] by (metis append_Nil2 byte_cmp.simps(2))
      with True l' l show ?thesis by (subst l_strcmp.simps) (auto simp: Let_def)
    next
      case both
      have d: "drop (?n + 1) l = u" "drop (?n + 1) r = v" using both by (metis append_Cons append_Nil append_assoc append_eq_conv_conj length_append_singleton Suc_eq_plus1)+
      have n: "?n < length l" "?n < length r" using both by (metis length_append length_Cons less_add_Suc1 add_Suc_right)+
      have "length u < length l" using d(1) n(1) by auto
      from less [OF this, of v] obtain e where "l_strcmp sc u v = Ok e" "sgn e = byte_cmp u v" by blast
      moreover have "byte_cmp l r = byte_cmp u v" using both byte_cmp_prefix [of "cstr l @ [CHR 0x00]" u v] by (metis append_Cons append_Nil append_assoc)
      ultimately show ?thesis using True n d by (subst l_strcmp.simps) (simp add: Let_def)
    qed
  qed
qed

text \<open>The characters of a string value; strings are ordered by them as \<open>sort\<close> asks for.\<close>

definition text_at :: "objects \<Rightarrow> TValue \<Rightarrow> string" where
  "text_at B v = (case v of VString p \<Rightarrow> (case B p of Some (OString s) \<Rightarrow> bytes s | _ \<Rightarrow> []) | _ \<Rightarrow> [])"

definition string_less :: "objects \<Rightarrow> TValue \<Rightarrow> TValue \<Rightarrow> bool" where
  "string_less B x y \<longleftrightarrow> byte_cmp (text_at B x) (text_at B y) < 0"

lemma byte_cmp_le_trans:
  assumes "byte_cmp x y \<le> 0" and "byte_cmp y z \<le> 0"
  shows "byte_cmp x z \<le> 0"
proof -
  have "byte_cmp x y < 0 \<or> x = y" "byte_cmp y z < 0 \<or> y = z" using assms byte_cmp_zero [of x y] byte_cmp_zero [of y z] by linarith+
  then show ?thesis using byte_cmp_trans [of x y z] assms by auto
qed

interpretation strings: sort_order "string_less B" UNIV for B
proof
  fix x y z
  show "string_less B x y \<Longrightarrow> \<not> string_less B y x"
    using byte_cmp_flip [of "text_at B x" "text_at B y"] by (simp add: string_less_def)
  assume "\<not> string_less B y x" and "\<not> string_less B z y"
  then have "byte_cmp (text_at B x) (text_at B y) \<le> 0" "byte_cmp (text_at B y) (text_at B z) \<le> 0"
    using byte_cmp_flip [of "text_at B x" "text_at B y"] byte_cmp_flip [of "text_at B y" "text_at B z"] by (simp_all add: string_less_def)
  then have "byte_cmp (text_at B x) (text_at B z) \<le> 0" by (rule byte_cmp_le_trans)
  then show "\<not> string_less B z x"
    using byte_cmp_flip [of "text_at B x" "text_at B z"] by (simp add: string_less_def)
qed

lemma string_of_Return: "bodies g p = Some (OString s) \<Longrightarrow> string_of p g = Return (bytes s) g"
  by (auto simp: bodies_def string_of_def lift0_def gco2ts_Ok bnd_def)

lemma strings_cmp_Return:
  assumes "\<And>x y. sgn (coll E x y) = byte_cmp x y" and "bodies g p = Some (OString s)" and "bodies g q = Some (OString t)"
  obtains c where "strings_cmp E p q g = Return c g" and "sgn c = byte_cmp (bytes s) (bytes t)"
proof -
  obtain c where "l_strcmp (coll E) (bytes s) (bytes t) = Ok c" "sgn c = byte_cmp (bytes s) (bytes t)"
    using strcmp_bytes [OF assms(1)] by blast
  with that string_of_Return [OF assms(2)] string_of_Return [OF assms(3)] show thesis
    by (simp add: strings_cmp_def bnd_def lift0_def)
qed

section \<open>Indexing through metatables\<close>

text \<open>
  \<open>inherits g key h n v\<close>: the table at \<open>h\<close> has \<open>v\<close> under the key after \<open>n\<close> steps to the next
  table, the \<open>__index\<close> of its metatable; a table without a metatable gives nil.
\<close>

inductive inherits :: "global_State \<Rightarrow> TValue \<Rightarrow> ptr \<Rightarrow> nat \<Rightarrow> TValue \<Rightarrow> bool" for g key where
  own: "heap_get h key g = Ok (v, g) \<Longrightarrow> v \<noteq> VNil \<Longrightarrow> inherits g key h 0 v"
| bare: "heap_get h key g = Ok (VNil, g) \<Longrightarrow> gco2h h g = Ok (t, g) \<Longrightarrow> metatable t = None \<Longrightarrow> inherits g key h 0 VNil"
| up: "heap_get h key g = Ok (VNil, g) \<Longrightarrow> gco2h h g = Ok (t, g) \<Longrightarrow>
    gfasttm (metatable t) TM_INDEX g = Ok (Some (VTable h'), g) \<Longrightarrow> inherits g key h' n v \<Longrightarrow> inherits g key h (Suc n) v"

lemma gettable_up:
  assumes "heap_get h key g = Ok (VNil, g)" and "gco2h h g = Ok (t, g)" and "gfasttm (metatable t) TM_INDEX g = Ok (Some (VTable h'), g)"
  shows "gettable_loop (Suc m) E L (VTable h, o') key val g = gettable_loop m E L (VTable h', None) key val g"
  using assms by (simp add: bnd_def lift0_def sbind_Ok [where m = "gco2h h"])

lemma gettable_inherits_loop:
  "inherits g key h n v \<Longrightarrow> n < m \<Longrightarrow> gettable_loop m E L (VTable h, o') key val g = sset L val v g"
proof (induction arbitrary: m o' rule: inherits.induct)
  case (own h v)
  then show ?case by (cases m) (auto simp: bnd_def lift0_def)
next
  case (bare h t)
  then show ?case by (cases m) (auto simp: bnd_def lift0_def sbind_Ok [where m = "gco2h h"] gfasttm_def sret_def)
next
  case (up h t h' n v)
  then obtain k where "m = Suc k" "n < k" by (cases m) auto
  with up show ?case using gettable_up [OF up(1-3)] by simp
qed

text \<open>\<open>n\<close> steps up, none of which finds the key\<close>

inductive climbs :: "global_State \<Rightarrow> TValue \<Rightarrow> ptr \<Rightarrow> nat \<Rightarrow> bool" for g key where
  "climbs g key h 0"
| "heap_get h key g = Ok (VNil, g) \<Longrightarrow> gco2h h g = Ok (t, g) \<Longrightarrow>
    gfasttm (metatable t) TM_INDEX g = Ok (Some (VTable h'), g) \<Longrightarrow> climbs g key h' n \<Longrightarrow> climbs g key h (Suc n)"

lemma gettable_climbs:
  "climbs g key h n \<Longrightarrow> gettable_loop n E L (VTable h, o') key val g = luaG_runerror E L ''loop in gettable'' g"
proof (induction arbitrary: o' rule: climbs.induct)
  case (2 h t h' n)
  with gettable_up [OF 2(1-3)] show ?case by simp
qed simp

end
