(* ===== verification/LuaTabLibProps.thy ===== *)
theory LuaTabLibProps
  imports LuaTabLibSpec
begin

text \<open>
  The properties of the table library: \<open>sort\<close> sorts, and \<open>remove\<close> undoes \<open>insert\<close>. The second
  needs the length of a table with no holes.
\<close>

section \<open>Length of a proper sequence\<close>

lemma binary_search_range: "binary_search f i j = Ok k \<Longrightarrow> i \<le> k \<and> (k < j \<or> k = i)"
proof (induction f i j rule: binary_search.induct)
  case (1 f i j)
  show ?case
  proof (cases "1 < j - i")
    case False
    with "1.prems" show ?thesis by (subst (asm) binary_search.simps) simp
  next
    case True
    define m where "m = (i + j) div 2"
    have m: "i < m" "m < j" using True by (simp_all add: m_def)
    have "rbind (f m) (\<lambda>z. if z then binary_search f i m else binary_search f m j) = Ok k"
      using "1.prems" True unfolding binary_search.simps [of f i j] Let_def m_def by (simp only: if_True)
    then obtain z where "f m = Ok z"
      and "(if z then binary_search f i m else binary_search f m j) = Ok k" by (rule rbind_OkE)
    then show ?thesis
    proof (cases z)
      case True
      then have "binary_search f i m = Ok k"
        using \<open>(if z then binary_search f i m else binary_search f m j) = Ok k\<close> by (simp only: if_True)
      with "1.IH"(1) [OF \<open>1 < j - i\<close> m_def \<open>f m = Ok z\<close> True] m show ?thesis by linarith
    next
      case False
      then have "binary_search f m j = Ok k"
        using \<open>(if z then binary_search f i m else binary_search f m j) = Ok k\<close> by (simp only: if_False)
      with "1.IH"(2) [OF \<open>1 < j - i\<close> m_def \<open>f m = Ok z\<close> False] m show ?thesis by linarith
    qed
  qed
qed

lemma linear_search_range: "linear_search t f i = Ok k \<Longrightarrow> k < i + int f"
  by (induction f arbitrary: i) (force elim!: rbind_OkE split: if_splits)+

lemma unbound_loop_range: "unbound_loop t i j = Ok k \<Longrightarrow> i < j \<Longrightarrow> j \<le> MAX_INT \<Longrightarrow> k \<le> MAX_INT"
proof (induction t i j rule: unbound_loop.induct)
  case (1 t i j)
  from "1.prems"(1) obtain z where z: "getnum_nil t j = Ok z"
    and r: "(if z then binary_search (getnum_nil t) i j
      else if MAX_INT < j * 2 \<or> j \<le> 0 then linear_search t (nat MAX_INT) 1 else unbound_loop t j (j * 2)) = Ok k"
    by (subst (asm) unbound_loop.simps) (auto elim!: rbind_OkE)
  show ?case
  proof (cases z)
    case True
    with r binary_search_range [of "getnum_nil t" i j k] "1.prems" show ?thesis by auto
  next
    case False
    show ?thesis
    proof (cases "MAX_INT < j * 2 \<or> j \<le> 0")
      case True
      then have "linear_search t (nat MAX_INT) 1 = Ok k" using r False by (simp only: if_True if_False)
      from linear_search_range [OF this] show ?thesis by simp
    next
      case go: False
      then show ?thesis using "1.IH" [OF z False go] r False by (simp only: if_False) simp
    qed
  qed
qed

lemma luaH_getn_range:
  assumes "table_inv H t" and "luaH_getn t = Ok k"
  shows "k \<le> MAX_INT"
proof -
  note arr = table_invD(4) [OF assms(1)]
  have "k \<le> MAX_INT" if "binary_search f 0 (int (length (array t))) = Ok k" for f
    using binary_search_range [OF that] arr by auto
  then show ?thesis
    using assms(2) arr unbound_loop_range [of t "int (length (array t))" "int (length (array t)) + 1" k]
    by (auto simp: luaH_getn_def unbound_search_def Let_def split: if_splits)
qed

text \<open>The elements are \<open>a 1 .. a n\<close> and no other integer has a value.\<close>

definition proper :: "strhash \<Rightarrow> int \<Rightarrow> (int \<Rightarrow> TValue) \<Rightarrow> Table \<Rightarrow> bool" where
  "proper H n a t \<longleftrightarrow>
     table_inv H t \<and> (\<forall>i. in_int i \<longrightarrow> at t i = a i) \<and> 0 \<le> n \<and> n \<le> MAX_INT
   \<and> (\<forall>i. 1 \<le> i \<and> i \<le> n \<longrightarrow> a i \<noteq> VNil) \<and> (\<forall>i. n < i \<and> i \<le> INT_MAX \<longrightarrow> a i = VNil)"

lemma proper_getn:
  assumes p: "proper H n a t"
  shows "aux_getn t = Ok (n, t)"
proof -
  have inv: "table_inv H t" using p by (simp add: proper_def)
  obtain k where k: "luaH_getn t = Ok k" and b: "border (\<lambda>m. at t m = VNil) k"
    using luaH_getn_border_lemma [OF inv] by blast
  have r: "0 \<le> k" "k \<le> MAX_INT" using b luaH_getn_range [OF inv k] by (auto simp: border_def)
  then have i: "in_int k" "in_int (k + 1)" by (simp_all add: in_int_def)
  then have "\<not> n < k" and "\<not> k < n" using b p r by (auto simp: border_def proper_def)
  then show ?thesis using k by (simp add: aux_getn_def)
qed

section \<open>Access to any index\<close>

definition contents :: "strhash \<Rightarrow> (int \<Rightarrow> TValue) \<Rightarrow> Table \<Rightarrow> bool" where
  "contents H a t \<longleftrightarrow> table_inv H t \<and> (\<forall>i. in_int i \<longrightarrow> at t i = a i)"

lemma contents_get:
  assumes "contents H a t" and i: "in_int i"
  shows "lua_rawgeti i t = Ok (a i, t)"
proof -
  have inv: "table_inv H t" using assms by (simp add: contents_def)
  from foundD [OF getnum_found [OF inv i] inv valid_cast_num [OF i]] assms show ?thesis
    by (auto simp: lua_rawgeti_def contents_def at_def)
qed

lemma contents_put:
  assumes c: "contents H a t" and i: "in_int i"
  shows "lua_rawseti H i v t = overflow \<and> 2 ^ MAXBITS \<le> entries t \<and> a i = VNil
    \<or> (\<exists>t'. lua_rawseti H i v t = Ok ((), t') \<and> contents H (a(i := v)) t')"
proof -
  let ?k = "VNumber (cast_num i)"
  have inv: "table_inv H t" using c by (simp add: contents_def)
  note k = valid_cast_num [OF i]
  from foundD [OF getnum_found [OF inv i] inv k] obtain p where
    p: "luaH_getnum t i = Ok p" "deref t p = a i" "\<forall>s. p = Some s \<longleftrightarrow> slot_of t ?k s"
    using c i by (auto simp: contents_def at_def)
  have result: "\<exists>t'. lua_rawseti H i v t = Ok ((), t') \<and> contents H (a(i := v)) t'"
    if "luaH_setnum H t i = Ok (s, t1)" and kept: "kept H t ?k s t1" for s t1
  proof -
    have "at (set_slot t1 s v) j = (a(i := v)) j" if j: "in_int j" for j
      using kept_set_slot(2) [OF kept k valid_cast_num [OF j]] cast_num_eq_iff [OF i j] c j
      by (simp add: at_def contents_def)
    then show ?thesis
      using that kept_set_slot(1) [OF kept k] by (simp add: lua_rawseti_def contents_def)
  qed
  show ?thesis
  proof (cases p)
    case (Some s)
    then have "luaH_setnum H t i = Ok (s, t)" "kept H t ?k s t"
      using p inv by (auto simp: luaH_setnum_def luaH_setnum_by_def kept_def)
    then show ?thesis using result by blast
  next
    case None
    then have no: "\<forall>s. \<not> slot_of t ?k s" and nil: "a i = VNil"
      and eq: "luaH_setnum H t i = newkey H 2 t ?k"
      using p by (auto simp: luaH_setnum_def luaH_setnum_by_def deref_def)
    from newkey_total [OF inv k no, of 0] show ?thesis
      using result nil by (auto simp: eq lua_rawseti_def numeral_2_eq_2)
  qed
qed

lemma contents_update:
  assumes "contents H a t" and "in_int i" and "a i \<noteq> VNil"
  obtains t' where "lua_rawseti H i v t = Ok ((), t')" and "contents H (a(i := v)) t'"
  using contents_put [OF assms(1,2), of v] assms(3) by blast

section \<open>Shifting\<close>

lemma insert_loop_ok:
  assumes "contents H a t" and "1 \<le> pos" "pos \<le> i" "i \<le> INT_MAX" and "\<And>k. pos \<le> k \<Longrightarrow> k \<le> i \<Longrightarrow> a k \<noteq> VNil"
  shows "\<exists>t'. insert_loop H pos i t = Ok ((), t')
    \<and> contents H (\<lambda>k. if pos < k \<and> k \<le> i then a (k - 1) else a k) t'"
  using assms
proof (induction "nat (i - pos)" arbitrary: i a t rule: less_induct)
  case less
  show ?case
  proof (cases "pos < i")
    case False
    then have "(\<lambda>k. if pos < k \<and> k \<le> i then a (k - 1) else a k) = a" by (auto simp: fun_eq_iff)
    with False less.prems(1) show ?thesis by (subst insert_loop.simps) simp
  next
    case True
    have int: "in_int i" "in_int (i - 1)" using less.prems True by (simp_all add: in_int_def)
    obtain t1 where t1: "lua_rawseti H i (a (i - 1)) t = Ok ((), t1)" "contents H (a(i := a (i - 1))) t1"
      using contents_update [OF less.prems(1) int(1)] less.prems by auto
    have "\<exists>t'. insert_loop H pos (i - 1) t1 = Ok ((), t') \<and>
        contents H (\<lambda>k. if pos < k \<and> k \<le> i - 1 then (a(i := a (i - 1))) (k - 1) else (a(i := a (i - 1))) k) t'"
      by (rule less.hyps [OF _ t1(2)]) (use less.prems True in auto)
    moreover have "(\<lambda>k. if pos < k \<and> k \<le> i - 1 then (a(i := a (i - 1))) (k - 1) else (a(i := a (i - 1))) k)
      = (\<lambda>k. if pos < k \<and> k \<le> i then a (k - 1) else a k)"
      using True by (auto simp: fun_eq_iff)
    ultimately show ?thesis
      using True t1(1) contents_get [OF less.prems(1) int(2)]
      by (subst insert_loop.simps) (auto simp: sbind_def)
  qed
qed

lemma remove_loop_ok:
  assumes "contents H a t" and "1 \<le> pos" "pos \<le> e" "e \<le> INT_MAX" and "\<And>k. pos \<le> k \<Longrightarrow> k \<le> e \<Longrightarrow> a k \<noteq> VNil"
  shows "\<exists>t'. remove_loop H e pos t = Ok ((), t')
    \<and> contents H (\<lambda>k. if pos \<le> k \<and> k < e then a (k + 1) else a k) t'"
  using assms
proof (induction "nat (e - pos)" arbitrary: pos a t rule: less_induct)
  case less
  show ?case
  proof (cases "pos < e")
    case False
    then have "(\<lambda>k. if pos \<le> k \<and> k < e then a (k + 1) else a k) = a" by (auto simp: fun_eq_iff)
    with False less.prems(1) show ?thesis by (subst remove_loop.simps) simp
  next
    case True
    have int: "in_int pos" "in_int (pos + 1)" using less.prems True by (simp_all add: in_int_def)
    obtain t1 where t1: "lua_rawseti H pos (a (pos + 1)) t = Ok ((), t1)" "contents H (a(pos := a (pos + 1))) t1"
      using contents_update [OF less.prems(1) int(1)] less.prems by auto
    have "\<exists>t'. remove_loop H e (pos + 1) t1 = Ok ((), t') \<and>
        contents H (\<lambda>k. if pos + 1 \<le> k \<and> k < e then (a(pos := a (pos + 1))) (k + 1) else (a(pos := a (pos + 1))) k) t'"
      by (rule less.hyps [OF _ t1(2)]) (use less.prems True in auto)
    moreover have "(\<lambda>k. if pos + 1 \<le> k \<and> k < e then (a(pos := a (pos + 1))) (k + 1) else (a(pos := a (pos + 1))) k)
      = (\<lambda>k. if pos \<le> k \<and> k < e then a (k + 1) else a k)"
      using True by (auto simp: fun_eq_iff)
    ultimately show ?thesis
      using True t1(1) contents_get [OF less.prems(1) int(2)]
      by (subst remove_loop.simps) (auto simp: sbind_def)
  qed
qed

lemma tinsert_ok:
  assumes p: "proper H n a t" and r: "1 \<le> pos" "pos \<le> n + 1" "n < MAX_INT" and v: "v \<noteq> VNil"
  shows "tinsert H 3 pos v t = overflow \<and> 2 ^ MAXBITS \<le> entries t
    \<or> (\<exists>t'. tinsert H 3 pos v t = Ok ((), t')
        \<and> proper H (n + 1) (\<lambda>k. if k < pos then a k else if k = pos then v else if k \<le> n + 1 then a (k - 1) else a k) t')"
proof -
  let ?b = "\<lambda>k. if k < pos then a k else if k = pos then v else if k \<le> n + 1 then a (k - 1) else a k"
  have c: "contents H a t" and el: "\<And>i. 1 \<le> i \<Longrightarrow> i \<le> n \<Longrightarrow> a i \<noteq> VNil" using p by (simp_all add: proper_def contents_def)
  have "\<not> n + 1 < pos" using r by simp
  then have eq: "tinsert H 3 pos v t = sbind (insert_loop H pos (n + 1)) (\<lambda>_. lua_rawseti H pos v) t"
    by (simp add: tinsert_def sbind_Ok [where m = aux_getn, OF proper_getn [OF p]] Let_def)
  have ip: "in_int pos" "in_int n" "in_int (n + 1)" using r by (simp_all add: in_int_def)
  have fin: "proper H (n + 1) ?b t'" if "contents H ?b t'" for t'
    using that p r v by (auto simp: proper_def contents_def)
  show ?thesis
  proof (cases "pos = n + 1")
    case True
    then have "insert_loop H pos (n + 1) = sret ()" by (subst insert_loop.simps) simp
    moreover have "a(pos := v) = ?b" using True by (auto simp: fun_eq_iff)
    ultimately show ?thesis using contents_put [OF c ip(1), of v] fin unfolding eq by auto
  next
    case False
    then have lt: "pos < n + 1" using r by simp
    have step: "insert_loop H pos (n + 1) t
        = sbind (lua_rawseti H (n + 1) (a n)) (\<lambda>_. insert_loop H pos n) t"
      using lt sbind_Ok [where m = "lua_rawgeti n", OF contents_get [OF c ip(2)]]
      by (subst insert_loop.simps) simp
    let ?a1 = "a(n + 1 := a n)"
    have inner: "\<exists>t'. insert_loop H pos n t1 = Ok ((), t') \<and> contents H (\<lambda>k. if pos < k \<and> k \<le> n then ?a1 (k - 1) else ?a1 k) t'"
      if "contents H ?a1 t1" for t1
      by (rule insert_loop_ok [OF that]) (use el r lt in auto)
    let ?a2 = "\<lambda>k. if pos < k \<and> k \<le> n then ?a1 (k - 1) else ?a1 k"
    have last: "\<exists>t'. lua_rawseti H pos v t2 = Ok ((), t') \<and> contents H (?a2(pos := v)) t'"
      if "contents H ?a2 t2" for t2
      using contents_update [OF that ip(1), of v] el [of pos] lt r by auto
    have "?a2(pos := v) = ?b" using lt by (auto simp: fun_eq_iff intro!: arg_cong [of _ _ a])
    with contents_put [OF c ip(3), of "a n"] inner last fin show ?thesis
      unfolding eq by (fastforce simp: sbind_def step)
  qed
qed

lemma tremove_ok:
  assumes p: "proper H n a t" and r: "1 \<le> pos" "pos \<le> n"
  shows "\<exists>t'. tremove H (Some pos) t = Ok (Some (a pos), t')
    \<and> proper H (n - 1) (\<lambda>k. if k < pos then a k else if k < n then a (k + 1) else if k = n then VNil else a k) t'"
proof -
  let ?b = "\<lambda>k. if k < pos then a k else if k < n then a (k + 1) else if k = n then VNil else a k"
  have c: "contents H a t" and el: "\<And>i. 1 \<le> i \<Longrightarrow> i \<le> n \<Longrightarrow> a i \<noteq> VNil" and n: "n \<le> MAX_INT"
    using p by (simp_all add: proper_def contents_def)
  have ip: "in_int pos" "in_int n" using r n by (simp_all add: in_int_def)
  have eq: "tremove H (Some pos) t =
    sbind (remove_loop H n pos) (\<lambda>_. sbind (lua_rawseti H n VNil) (\<lambda>_. sret (Some (a pos)))) t"
    using r by (simp add: tremove_def sbind_Ok [where m = aux_getn, OF proper_getn [OF p]]
      sbind_Ok [where m = "lua_rawgeti pos", OF contents_get [OF c ip(1)]])
  obtain t1 where t1: "remove_loop H n pos t = Ok ((), t1)"
    "contents H (\<lambda>k. if pos \<le> k \<and> k < n then a (k + 1) else a k) t1"
    using remove_loop_ok [OF c r] el r n by auto
  let ?a1 = "\<lambda>k. if pos \<le> k \<and> k < n then a (k + 1) else a k"
  obtain t2 where t2: "lua_rawseti H n VNil t1 = Ok ((), t2)" "contents H (?a1(n := VNil)) t2"
    using contents_update [OF t1(2) ip(2)] el [of n] r by auto
  have "?a1(n := VNil) = ?b" using r by (auto simp: fun_eq_iff)
  then have "contents H ?b t2" using t2(2) by simp
  then have "proper H (n - 1) ?b t2"
    using p r by (auto simp: proper_def contents_def)
  then show ?thesis using t1(1) t2(1) unfolding eq by (auto simp: sbind_def)
qed

section \<open>The order of numbers\<close>

text \<open>The branch of \<open>luaV_lessthan\<close> for two numbers; other operands are an error here.\<close>

definition number_lessthan :: comparison where
  "number_lessthan l r =
     (case (l, r) of
        (VNumber a, VNumber b) \<Rightarrow> sret (num_lt a b)
      | _ \<Rightarrow> serror (RunError ''attempt to compare''))"

definition num_less :: "TValue \<Rightarrow> TValue \<Rightarrow> bool" where
  "num_less l r = (case (l, r) of (VNumber a, VNumber b) \<Rightarrow> num_lt a b | _ \<Rightarrow> False)"

definition ordinary :: "TValue set" where
  "ordinary = {VNumber n | n. \<not> num_isnan n}"

text \<open>Numbers that are not NaN are in a strict weak order; with NaN they are not.\<close>

interpretation numbers: sort_order num_less ordinary
  by unfold_locales (auto simp: num_less_def ordinary_def num_lt_def)

interpretation number_sorting: sorting num_less ordinary number_lessthan ex_hash ex_seq 2
  by unfold_locales (auto simp: number_lessthan_def num_less_def ordinary_def)

section \<open>The properties\<close>

text \<open>
  C10: \<open>sort\<close> on a table with the elements \<open>1..n\<close>, with a comparison that leaves the table
  alone and decides a strict weak order of them: it returns (every recursive call is on a shorter
  range, so \<open>n\<close> levels are enough, and the two inner loops stop inside the range), the elements
  are rearranged, no element is smaller than one before it, and the other keys keep their values.
\<close>

theorem sort_correct:
  assumes inv: "table_inv H t" and len: "luaH_getn t = Ok n" "n \<le> 2 ^ 30" "n \<le> int f"
    and stack: "lua_checkstack slots 40"
    and el: "\<And>i. 1 \<le> i \<Longrightarrow> i \<le> n \<Longrightarrow> at t i \<noteq> VNil" and S: "S = at t ` {1..n}"
    and pure: "\<And>x y t. x \<in> S \<Longrightarrow> y \<in> S \<Longrightarrow> sort_comp call belowthan func x y t = Ok (below x y, t)"
    and order: "sort_order below S"
  shows "\<exists>t'. tab_sort H call belowthan slots func f t = Ok ((), t') \<and> table_inv H t'
    \<and> image_mset (at t') (mset_set {1..n}) = image_mset (at t) (mset_set {1..n})
    \<and> (\<forall>i j. 1 \<le> i \<longrightarrow> i < j \<longrightarrow> j \<le> n \<longrightarrow> \<not> below (at t' j) (at t' i))
    \<and> (\<forall>k. outside n k \<longrightarrow> lookup t' k = lookup t k)"
proof -
  let ?lt = "sort_comp call belowthan func"
  have sorting: "sorting below S ?lt n" using order pure len(2) by (intro sorting.intro sorting_axioms.intro) auto
  have s: "sequence H t n (at t) t" by (rule sequence_start [OF inv el])
  have "leaves H t n (\<lambda>_ b. perm 1 n (at t) b \<and> sort_order.ordered below 1 n b) (auxsort H ?lt f 1 n t)"
    by (rule sorting.auxsort_ok [OF sorting s]) (use S len(3) in auto)
  then obtain t' b where t': "auxsort H ?lt f 1 n t = Ok ((), t')" "sequence H t n b t'"
    and b: "perm 1 n (at t) b" "sort_order.ordered below 1 n b" by (auto simp: leaves_def)
  have same: "at t' i = b i" if "1 \<le> i" "i \<le> n" for i using t'(2) that by (simp add: sequence_def)
  have "image_mset (at t') (mset_set {1..n}) = image_mset b (mset_set {1..n})"
    using same by (intro image_mset_cong) auto
  moreover have "\<not> below (at t' j) (at t' i)" if "1 \<le> i" "i < j" "j \<le> n" for i j
    using b(2) that same by (simp add: sort_order.ordered_def [OF order])
  moreover have "tab_sort H call belowthan slots func f t = Ok ((), t')"
    using len(1) stack t'(1) by (simp add: tab_sort_def aux_getn_def luaL_checkstack_def sbind_def)
  ultimately show ?thesis using t'(2) b(1) by (auto simp: sequence_def perm_def)
qed

text \<open>A table with the elements 3, 1, 2.\<close>

definition ex_list :: Table where
  "ex_list = \<lparr>flags = 255, lsizenode = 0, metatable = None,
     array = [VNumber (cast_num 3), VNumber (cast_num 1), VNumber (cast_num 2)],
     node = [empty_node], isdummy = True, lastfree = 0\<rparr>"

lemma table_inv_array: "table_inv H t \<Longrightarrow> length xs = length (array t) \<Longrightarrow> table_inv H (t\<lparr>array := xs\<rparr>)"
  by (simp add: table_inv_def)

lemma ex_list_inv: "table_inv H ex_list"
proof -
  have "luaH_new 3 0 = Ok (ex_list\<lparr>array := [VNil, VNil, VNil]\<rparr>)" by code_simp
  with luaH_new_inv [of 3 0 H] have "table_inv H (ex_list\<lparr>array := [VNil, VNil, VNil]\<rparr>)" by simp
  from table_inv_array [OF this, of "array ex_list"] show ?thesis by (simp add: ex_list_def)
qed

lemma ex_list_at: "at ex_list 1 = VNumber (cast_num 3)" "at ex_list 2 = VNumber (cast_num 1)"
  "at ex_list 3 = VNumber (cast_num 2)"
  by code_simp+

lemma three: "1 \<le> i \<Longrightarrow> i \<le> 3 \<Longrightarrow> i = 1 \<or> i = 2 \<or> i = (3::int)"
  by auto

lemma ordinary_cast: "\<bar>k\<bar> < 2 ^ 53 \<Longrightarrow> VNumber (cast_num k) \<in> ordinary"
  using cast_num_not_nan by (auto simp: ordinary_def)

theorem sort_correct_witness:
  "\<exists>t'. tab_sort ex_hash (\<lambda>f args. sret VNil) number_lessthan 3 VNil 3 ex_list = Ok ((), t')
    \<and> \<not> num_less (at t' 2) (at t' 1) \<and> \<not> num_less (at t' 3) (at t' 2)
    \<and> image_mset (at t') (mset_set {1..3}) = image_mset (at ex_list) (mset_set {1..3})"
proof -
  have len: "luaH_getn ex_list = Ok 3" by code_simp
  have el: "at ex_list i \<in> ordinary" if "1 \<le> i" "i \<le> 3" for i
    using three [OF that] by (elim disjE) (simp_all add: ex_list_at ordinary_cast)
  then have sub: "at ex_list ` {1..3} \<subseteq> ordinary" by auto
  then have "sort_order num_less (at ex_list ` {1..3})"
    by unfold_locales (meson numbers.asym numbers.ntrans subsetD)+
  from sort_correct [OF ex_list_inv len _ _ _ _ refl _ this, of 3 3 "\<lambda>f args. sret VNil" number_lessthan VNil ex_hash] sub
  show ?thesis
    using el number_sorting.pure by (fastforce simp: ordinary_def lua_checkstack_def sort_comp_def)
qed

text \<open>
  C33: \<open>insert\<close> at a position and then \<open>remove\<close> at the same one give back the value and the
  elements with integer keys, for a table with no holes. The only failure is the error \<open>table overflow\<close>.
\<close>

theorem insert_remove:
  assumes "proper H n (at t) t" and "1 \<le> pos" "pos \<le> n + 1" "n < MAX_INT" and "v \<noteq> VNil"
  shows "tinsert H 3 pos v t = overflow \<and> 2 ^ MAXBITS \<le> entries t
    \<or> (\<exists>t1 t2. tinsert H 3 pos v t = Ok ((), t1) \<and> tremove H (Some pos) t1 = Ok (Some v, t2)
        \<and> proper H n (at t) t2)"
  using tinsert_ok [OF assms]
proof (elim disjE exE conjE)
  fix t1
  let ?b = "\<lambda>k. if k < pos then at t k else if k = pos then v else if k \<le> n + 1 then at t (k - 1) else at t k"
  assume t1: "tinsert H 3 pos v t = Ok ((), t1)" and p: "proper H (n + 1) ?b t1"
  obtain t2 where t2: "tremove H (Some pos) t1 = Ok (Some (?b pos), t2)" and c: "proper H (n + 1 - 1)
    (\<lambda>k. if k < pos then ?b k else if k < n + 1 then ?b (k + 1) else if k = n + 1 then VNil else ?b k) t2"
    using tremove_ok [OF p assms(2)] assms(3) by blast
  have "in_int (n + 1)" "at t (n + 1) = VNil" using assms(1,4) by (auto simp: proper_def in_int_def)
  then have "proper H n (at t) t2"
    using c assms(1-4) by (auto simp: proper_def)
  with t1 t2 show ?thesis by simp
qed simp

lemma ex_list_proper: "proper H 3 (at ex_list) ex_list"
proof -
  have "at ex_list i \<noteq> VNil" if "1 \<le> i" "i \<le> 3" for i
    using three [OF that] by (elim disjE) (simp_all add: ex_list_at)
  moreover have "at ex_list i = VNil" if "3 < i" "i \<le> INT_MAX" for i
  proof -
    have "arrayindex (VNumber (cast_num i)) = i"
      by (rule arrayindex_cast_num) (use that in \<open>simp add: in_int_def\<close>)
    with that show ?thesis by (simp add: at_def lookup_def ex_list_def empty_node_def)
  qed
  ultimately show ?thesis by (simp add: proper_def ex_list_inv)
qed

theorem insert_remove_witness:
  "\<exists>t1 t2. tinsert ex_hash 3 1 (VBoolean 1) ex_list = Ok ((), t1)
     \<and> tremove ex_hash (Some 1) t1 = Ok (Some (VBoolean 1), t2) \<and> at t2 1 = VNumber (cast_num 3)"
proof -
  have "entries ex_list = 3" by code_simp
  then show ?thesis
    using insert_remove [OF ex_list_proper, of 1 "VBoolean 1" ex_hash] ex_list_at
    by (auto simp: proper_def in_int_def)
qed

end
