(* ===== verification/LuaVMProps.thy ===== *)
theory LuaVMProps
  imports LuaRegisters LuaCallProps LuaCompare LuaTabLibProps
begin

text \<open>The properties of the machine, and a state they are applied to.\<close>

section \<open>A function that runs\<close>

text \<open>The code of \<open>example_proto\<close> on the heap, in the second call of the thread.\<close>

definition leaf_proto :: HProto where
  "leaf_proto = empty_proto\<lparr>h_k := [VString 3, VNumber 0], h_code := proto_code example_proto, h_maxstacksize := 3\<rparr>"

definition leaf_thread :: lua_State where
  "leaf_thread = tiny_thread\<lparr>L_top := 5, L_base := 2, L_ci := 1, L_stack_last := 7,
     L_stack := [VTable 4, VFunction 6] @ replicate 6 VNil,
     L_base_ci := [blank_ci\<lparr>ci_top := 2\<rparr>, blank_ci\<lparr>ci_base := 2, ci_func := 1, ci_top := 5\<rparr>]\<rparr>"

definition leaf :: global_State where
  "leaf = tiny\<lparr>heap := tiny_heap(1 \<mapsto> \<lparr>marked = 1, body = OThread leaf_thread\<rparr>,
     6 \<mapsto> \<lparr>marked = 1, body = OClosure (LClosure 2 7 [])\<rparr>, 7 \<mapsto> \<lparr>marked = 1, body = OProto leaf_proto\<rparr>)\<rparr>"

definition leaf_frame :: frame where
  "leaf_frame = \<lparr>fr_base = 2, fr_env = 2, fr_proto = leaf_proto, fr_upvals = []\<rparr>"

lemma leaf_bodies: "bodies leaf p = Some b \<longleftrightarrow>
    p = 1 \<and> b = OThread leaf_thread \<or> p = 2 \<and> b = OTable (tiny_table []) \<or> p = 3 \<and> b = OString \<lparr>reserved = 0, hash = 0, bytes = ''x''\<rparr>
    \<or> p = 4 \<and> b = OTable (tiny_table [VString 3]) \<or> p = 5 \<and> b = OTable (tiny_table [])
    \<or> p = 6 \<and> b = OClosure (LClosure 2 7 []) \<or> p = 7 \<and> b = OProto leaf_proto"
  by (auto simp: bodies_def leaf_def tiny_heap_def)

lemma leaf_limit: "stack_limit leaf_thread = 5"
  by (simp add: leaf_thread_def stack_limit_def)

lemma leaf_refs:
  "refs B (OThread leaf_thread) = {(5, 2), (5, 4), (6, 6)}" "refs B (OProto leaf_proto) = {(4, 3)}"
  by (auto simp: leaf_thread_def tiny_thread_def leaf_proto_def empty_proto_def oref_def vref_def iscollectable_def)

lemma leaf_objects: "is_obj (bodies leaf) k p \<longleftrightarrow> k = 8 \<and> p = 1 \<or> k = 5 \<and> (p = 2 \<or> p = 4 \<or> p = 5) \<or> k = 4 \<and> p = 3
    \<or> k = 6 \<and> p = 6 \<or> k = 9 \<and> p = 7"
  unfolding is_obj_def leaf_bodies conj_disj_distribR ex_disj_distrib by (simp, blast)

lemma leaf_shape: "thread_shape leaf_thread"
  unfolding thread_shape_def leaf_limit by (simp add: leaf_thread_def tiny_thread_def)

lemma leaf_k: "\<forall>v \<in> set (h_k leaf_proto). ttype v \<noteq> 11"
  by (simp add: leaf_proto_def)

lemma leaf_wf: "wf_store (bodies leaf)"
  unfolding wf_store_def
proof (intro allI impI conjI)
  fix p b
  assume b: "bodies leaf p = Some b"
  then show "shape (bodies leaf) b"
    using tiny_shapes leaf_shape leaf_k by (auto simp: leaf_bodies)
  show "\<forall>(k, q) \<in> refs (bodies leaf) b. is_obj (bodies leaf) k q"
    using b unfolding leaf_bodies by (elim disjE) (simp_all add: tiny_refs leaf_refs leaf_objects del: refs.simps, simp_all)
qed

lemma leaf_stack: "stack_ok leaf 1 leaf_thread"
proof -
  have "good_value leaf (L_stack leaf_thread ! i)" if "i \<le> 5" for i
  proof -
    have "L_stack leaf_thread ! i \<in> {VTable 4, VFunction 6, VNil}"
      using that by (auto simp: leaf_thread_def nth_append nth_Cons' split: if_splits)
    then show ?thesis by (auto simp: good_value_def leaf_objects vref_def iscollectable_def)
  qed
  moreover have "good_value leaf (L_gt leaf_thread)"
    by (simp add: leaf_thread_def tiny_thread_def good_value_def leaf_objects vref_def iscollectable_def)
  ultimately show ?thesis using leaf_shape by (auto simp: stack_ok_def leaf_limit leaf_bodies)
qed

lemma leaf_fits: "fits leaf 1 leaf_frame example_proto"
proof -
  have B: "bodies leaf 1 = Some (OThread leaf_thread)" by (simp add: leaf_bodies)
  have "running (bodies leaf) 1 leaf_frame"
    unfolding running_def B by (simp add: leaf_bodies leaf_thread_def leaf_frame_def)
  moreover have "func_slot leaf_thread = 1" "L_hookmask leaf_thread = 0"
    by (simp_all add: func_slot_def leaf_thread_def tiny_thread_def)
  moreover have "maxstacksize example_proto = 3" "nups example_proto = 0"
    by (simp_all add: example_proto_def proto_of_def)
  ultimately have "fits_objects (bodies leaf) 1 leaf_frame example_proto"
    by (simp add: fits_objects_def leaf_wf B leaf_limit leaf_bodies) (simp add: leaf_frame_def)
  moreover have "describes leaf leaf_proto example_proto"
    by (simp add: describes_def leaf_proto_def empty_proto_def) (simp add: example_proto_def proto_of_def)
  moreover have "\<not> black_late leaf p" for p
    by (auto simp: black_late_def leaf_def tiny_heap_def isblack_def bit_1_iff split: if_splits)
  ultimately show ?thesis using leaf_stack by (auto simp: fits_def leaf_bodies leaf_frame_def)
qed

text \<open>The environment the machine runs in, with the comparison of the C locale.\<close>

definition byte_env :: env where
  "byte_env = bare_env\<lparr>coll := byte_cmp\<rparr>"

section \<open>Properties\<close>

text \<open>
  C12: while a function the checker accepts runs, without line or count hooks, a turn of the machine
  leads to a position that the checker's successors reach, so the machine does not leave the code and
  does not read an operand the function lacks, provided that the code is not empty and has neither
  of the two shapes that the checker accepts by mistake (\<open>no_gap\<close>; \<open>count_takes_return\<close> is accepted code of
  such a shape that runs past its end).
\<close>

theorem machine_stays_in_code:
  assumes "luaG_checkcode pt = Ok True" and "proto_code pt \<noteq> []" and "no_gap pt" and "LuaCheckSpec.reachable pt (int pc)"
    and "current L g = Return fr g" and "describes g (fr_proto fr) pt" and "quiet g L"
    and "vm_step E L n pc g = Return (Continue q) g'"
  shows "LuaCheckSpec.reachable pt (int q) \<and> q < length (h_code (fr_proto fr)) \<and> operands_ok pt (int q)"
proof -
  have r: "LuaCheckSpec.reachable pt (int q)" by (rule turn_reachable [OF assms])
  from checkcode_sound [OF assms(1-3) this] assms(6) r show ?thesis by (simp add: describes_def)
qed

lemma example_code: "proto_code example_proto \<noteq> []" "op_at example_proto (int 0) = Some OP_LOADK"
  by (simp add: example_proto_def proto_of_def) code_simp

lemma leaf_turn:
  obtains q g' where "vm_step E 1 1 0 leaf = Return (Continue q) g'" and "fits g' 1 leaf_frame example_proto"
    and "(gc_step c M)\<^sup>*\<^sup>* leaf g'"
proof -
  have r: "LuaCheckSpec.reachable example_proto (int 0)" using reach_start by simp
  have "OP_LOADK \<in> set register_ops" by (simp add: register_ops_def)
  from register_turn [OF example_accepted example_code(1) example_no_gap r leaf_fits example_code(2) this] that
  show thesis by blast
qed

theorem machine_stays_in_code_witness:
  "\<exists>q g'. vm_step byte_env 1 1 0 leaf = Return (Continue q) g' \<and> q < 3 \<and> operands_ok example_proto (int q)"
proof -
  obtain q g' where s: "vm_step byte_env 1 1 0 leaf = Return (Continue q) g'"
    using leaf_turn by blast
  have r: "LuaCheckSpec.reachable example_proto (int 0)" using reach_start by simp
  have "current 1 leaf = Return leaf_frame leaf" "describes leaf (fr_proto leaf_frame) example_proto" "quiet leaf 1"
    by (rule fits_thr [OF leaf_fits])+
  from machine_stays_in_code [OF example_accepted example_code(1) example_no_gap r this s] s show ?thesis
    by (auto simp: leaf_frame_def leaf_proto_def example_proto_def proto_of_def)
qed

text \<open>
  C11: type safety of the instructions on registers, constants and upvalues: in a frame that fits
  accepted code such an instruction returns, control stays in the code, the frame still fits, and
  what it wrote is a sequence of the writes the collector allows between its own steps. The code
  is not empty and has neither of the two shapes that the checker accepts by mistake (\<open>no_gap\<close>): a
  list instruction whose count word is the last instruction, and a skip onto a count word. With
  these the claim is false (\<open>count_takes_return\<close>, \<open>skip_runs_count\<close>).
\<close>

theorem register_instructions_safe:
  assumes "luaG_checkcode pt = Ok True" and "proto_code pt \<noteq> []" and "no_gap pt" and "LuaCheckSpec.reachable pt (int pc)"
    and "fits g L fr pt" and "op_at pt (int pc) = Some op" and "op \<in> set register_ops"
  shows "\<exists>q g'. vm_step E L n pc g = Return (Continue q) g' \<and> LuaCheckSpec.reachable pt (int q) \<and> fits g' L fr pt
     \<and> (gc_step c M)\<^sup>*\<^sup>* g g'"
  by (rule register_turn [OF assms])

theorem register_instructions_safe_witness:
  "\<exists>q g'. vm_step byte_env 1 1 0 leaf = Return (Continue q) g' \<and> fits g' 1 leaf_frame example_proto"
proof -
  have r: "LuaCheckSpec.reachable example_proto (int 0)" using reach_start by simp
  have "OP_LOADK \<in> set register_ops" by (simp add: register_ops_def)
  from register_instructions_safe [OF example_accepted example_code(1) example_no_gap r leaf_fits example_code(2) this]
  show ?thesis by blast
qed

text \<open>
  C16: with a \<open>strcoll\<close> that compares bytes, as in the C locale, \<open><\<close> and \<open><=\<close> on strings
  are the lexicographic order of all their bytes, zeros included, although \<open>l_strcmp\<close> compares
  the pieces between zeros one by one.
\<close>

theorem string_order:
  assumes "\<And>x y. sgn (coll E x y) = byte_cmp x y"
    and "bodies g p = Some (OString s)" and "bodies g q = Some (OString t)"
  shows "luaV_lessthan E L (VString p) (VString q) g = Return (byte_cmp (bytes s) (bytes t) < 0) g
    \<and> lessequal E L (VString p) (VString q) g = Return (byte_cmp (bytes s) (bytes t) \<le> 0) g"
proof -
  obtain c where c: "strings_cmp E p q g = Return c g" "sgn c = byte_cmp (bytes s) (bytes t)"
    by (rule strings_cmp_Return [OF assms])
  then have "c < 0 \<longleftrightarrow> byte_cmp (bytes s) (bytes t) < 0" "c \<le> 0 \<longleftrightarrow> byte_cmp (bytes s) (bytes t) \<le> 0"
    by (auto simp: sgn_if split: if_splits)
  with c(1) show ?thesis by (simp add: luaV_lessthan_def lessequal_def bnd_def)
qed

lemma sgn_byte_cmp: "sgn (byte_cmp x y) = byte_cmp x y"
  by (induction x y rule: byte_cmp.induct) auto

theorem string_order_witness: "luaV_lessthan byte_env 1 (VString 3) (VString 3) leaf = Return False leaf"
proof -
  have s: "bodies leaf 3 = Some (OString \<lparr>reserved = 0, hash = 0, bytes = ''x''\<rparr>)" by (simp add: leaf_bodies)
  have "sgn (coll byte_env x y) = byte_cmp x y" for x y by (simp add: byte_env_def sgn_byte_cmp)
  from string_order [where E = byte_env, OF this s s, of 1] show ?thesis by simp
qed

text \<open>
  C17: indexing follows the \<open>__index\<close> tables: a key found after fewer than 100 steps, or missing
  from a table without a metatable, gives its value, and a longer chain raises the error of a loop.
\<close>

theorem gettable_inherits:
  "(inherits g key h n v \<and> n < MAXTAGLOOP \<longrightarrow> luaV_gettable E L (VTable h, o') key val g = sset L val v g)
   \<and> (climbs g key h MAXTAGLOOP \<longrightarrow>
        luaV_gettable E L (VTable h, o') key val g = luaG_runerror E L ''loop in gettable'' g)"
  unfolding luaV_gettable_def by (intro conjI impI) (auto intro: gettable_inherits_loop gettable_climbs simp del: gettable_loop.simps)

lemma leaf_get: "luaH_get f (tiny_table [VString 3]) (VNumber (cast_num 1)) = Ok (Some (ArraySlot 0))"
proof -
  have "lua_number2int (cast_num 1) = 1" "num_eq (cast_num 1) (cast_num 1)" by code_simp+
  then show ?thesis by (simp add: luaH_get_def luaH_getnum_def tiny_table_def)
qed

text \<open>An empty table whose \<open>__index\<close> is the table on the stack\<close>

definition index_table :: Table where
  "index_table = \<lparr>flags = 0, lsizenode = 0, metatable = None, array = [],
     node = [\<lparr>i_val = VTable 4, i_key = VString 3, i_next = None\<rparr>], isdummy = False, lastfree = 0\<rparr>"

definition heir :: global_State where
  "heir = leaf\<lparr>heap := (heap leaf)(8 \<mapsto> \<lparr>marked = 1, body = OTable ((tiny_table [])\<lparr>metatable := Some 9\<rparr>)\<rparr>,
     9 \<mapsto> \<lparr>marked = 1, body = OTable index_table\<rparr>)\<rparr>"

lemma heir_up:
  "heap_get 8 (VNumber (cast_num 1)) heir = Ok (VNil, heir)"
  "gfasttm (Some 9) TM_INDEX heir = Ok (Some (VTable 4), heir)"
proof -
  have t: "heap heir 8 = Some \<lparr>marked = 1, body = OTable ((tiny_table [])\<lparr>metatable := Some 9\<rparr>)\<rparr>"
    "heap heir 9 = Some \<lparr>marked = 1, body = OTable index_table\<rparr>"
    "heap heir 3 = Some \<lparr>marked = 1, body = OString \<lparr>reserved = 0, hash = 0, bytes = ''x''\<rparr>\<rparr>"
    by (simp_all add: heir_def leaf_def tiny_heap_def)
  have "lua_number2int (cast_num 1) = 1" "num_eq (cast_num 1) (cast_num 1)"
    "luaH_getnum ((tiny_table [])\<lparr>metatable := Some 9\<rparr>) 1 = Ok None" by code_simp+
  then have "luaH_get H ((tiny_table [])\<lparr>metatable := Some 9\<rparr>) (VNumber (cast_num 1)) = Ok None" for H
    by (simp add: luaH_get_def)
  with t(1) show "heap_get 8 (VNumber (cast_num 1)) heir = Ok (VNil, heir)"
    by (simp add: heap_get_def bind_gco(1) deref_def)
  have "luaH_getstr (\<lambda>_. 0) index_table 3 = Ok (Some (NodeSlot 0))" by code_simp
  moreover have "str_hash heir 3 = 0" using t(3) by (simp add: str_hash_def)
  then have "luaH_getstr (str_hash heir) index_table 3 = luaH_getstr (\<lambda>_. 0) index_table 3"
    by (simp add: luaH_getstr_def)
  moreover have "tmname heir ! TM_INDEX = 3" "TM_INDEX < length (tmname heir)" by (simp_all add: heir_def leaf_def tiny_def)
  ultimately show "gfasttm (Some 9) TM_INDEX heir = Ok (Some (VTable 4), heir)"
    using t(2,3) by (simp add: gfasttm_def luaT_gettm_def bind_gco(1,3) deref_def) (simp add: index_table_def slot_val_def)
qed

theorem gettable_inherits_witness:
  "luaV_gettable byte_env 1 (VTable 8, None) (VNumber (cast_num 1)) 2 heir = sset 1 2 (VString 3) heir"
proof -
  have "heap heir 4 = Some \<lparr>marked = 1, body = OTable (tiny_table [VString 3])\<rparr>" by (simp add: heir_def leaf_def tiny_heap_def)
  then have "heap_get 4 (VNumber (cast_num 1)) heir = Ok (VString 3, heir)"
    by (simp add: heap_get_def bind_gco(1) leaf_get deref_def) (simp add: tiny_table_def slot_val_def)
  then have own: "inherits heir (VNumber (cast_num 1)) 4 0 (VString 3)" by (rule inherits.own) simp
  have "gco2h 8 heir = Ok ((tiny_table [])\<lparr>metatable := Some 9\<rparr>, heir)"
    by (rule gco2h_Ok [where x = "\<lparr>marked = 1, body = OTable ((tiny_table [])\<lparr>metatable := Some 9\<rparr>)\<rparr>"])
      (simp_all add: heir_def leaf_def tiny_heap_def)
  from inherits.up [OF heir_up(1) this _ own] heir_up(2) have "inherits heir (VNumber (cast_num 1)) 8 1 (VString 3)"
    by simp
  with gettable_inherits [of heir "VNumber (cast_num 1)" 8 1 "VString 3" byte_env 1 None 2] show ?thesis by simp
qed

text \<open>
  The names of the events are not in the order of their enumeration: the left shift calls
  \<open>__shr\<close> and the right shift \<open>__shl\<close>.
\<close>

lemma shift_events_swapped: "luaT_eventname ! TM_BLSHFT = ''__shr''" "luaT_eventname ! TM_BRSHFT = ''__shl''"
  by (simp_all add: luaT_eventname_def)

end
