(* ===== verification/LuaCompileProps.thy ===== *)
theory LuaCompileProps
  imports LuaParser LuaJumps LuaVMProps LuaCheckProps
begin

text \<open>The properties of the compiler, and what it does with some programs.\<close>

section \<open>Programs\<close>

text \<open>The square of the base stands for \<open>pow\<close>.\<close>

definition test_env :: cenv where
  "test_env = \<lparr>str_at = (\<lambda>s. of_nat (length s)), table_at = of_nat, str_hash = (\<lambda>_. 0), c_pow = (\<lambda>a _. num_mul a a)\<rparr>"

definition compile :: "string \<Rightarrow> Proto result" where
  "compile s = luaY_parser test_env 0 (luaZ_init [s]) ''@t''"

text \<open>
  The rows for the bit operators stand before the row of the power operator, which comes first in
  the enumeration: power has the priority of addition and \<open>>>\<close> that of power.
\<close>

lemma priorities_shifted:
  "left_priority OPR_POW = left_priority OPR_ADD" "left_priority OPR_POW < left_priority OPR_MUL"
  "left_priority OPR_BRSHFT = 10" "right_priority OPR_BRSHFT = 9"
  by code_simp+

lemma power_binds_weakly: "case compile ''return 2*3^2 '' of Ok p \<Rightarrow> proto_k p = [KNumber (cast_num 36)] | _ \<Rightarrow> False"
  by code_simp

text \<open>
  The operand of \<open>!\<close> and of a unary minus may be the constant true, false or nil, and is then
  coded as a constant, although the instruction has a register: the code reads outside of the frame,
  and the checker rejects it.
\<close>

lemma not_true_rejected: "case compile ''return !true '' of Ok p \<Rightarrow> luaG_checkcode p = Ok False | _ \<Rightarrow> False"
  by code_simp

lemma minus_nil_rejected: "case compile ''return -nil '' of Ok p \<Rightarrow> luaG_checkcode p = Ok False | _ \<Rightarrow> False"
  by code_simp

text \<open>
  A fourth expression in the head of a generic \<open>for\<close> leaves its register reserved: the first local
  variable of the body gets its value in register 5, and is read from register 4.
\<close>

lemma forlist_extra: "case compile ''for a in b,c,d,e do local f=5 return f end '' of
    Ok p \<Rightarrow> GET_OPCODE (proto_code p ! 5) = op_num OP_LOADK \<and> GETARG_A (proto_code p ! 5) = 5
      \<and> GET_OPCODE (proto_code p ! 6) = op_num OP_RETURN \<and> GETARG_A (proto_code p ! 6) = 4
  | _ \<Rightarrow> False"
  by code_simp

text \<open>\<open>!\<close> of a number is folded to the number 0, which is true; the machine gives the boolean false.\<close>

lemma not_number_folded:
  assumes "isnumeral e"
  shows "luaK_prefix E OPR_BNOT e s = Ok (e\<lparr>nval := cast_num 0\<rparr>, s)"
proof -
  have "\<not> num_isnan (cast_num 0)" by code_simp
  with assms show ?thesis
    by (simp add: luaK_prefix_def isnumeral_def codearith_def constfolding_def fold_value_def zero_exp_def
        lifted_def sbind_def sret_def)
qed

lemma not_number_machine: "Logic E L ra (VNumber x, a) (VNumber x, a) TM_BNOT = sset L ra (VBoolean 0)"
  by (simp add: Logic_def l_isfalse_def bool_value_def)

section \<open>Constant folding\<close>

text \<open>The event of an operator that is folded.\<close>

definition fold_event :: "OpCode \<Rightarrow> nat option" where
  "fold_event op = map_of
     [(OP_ADD, TM_ADD), (OP_SUB, TM_SUB), (OP_MUL, TM_MUL), (OP_DIV, TM_DIV), (OP_MOD, TM_MOD), (OP_POW, TM_POW),
      (OP_BOR, TM_BOR), (OP_BAND, TM_BAND), (OP_BXOR, TM_BXOR), (OP_BLSHFT, TM_BLSHFT), (OP_BRSHFT, TM_BRSHFT)] op"

lemma constfolding_Some:
  "constfolding E op e1 e2 = Ok (Some e) \<longleftrightarrow>
     isnumeral e1 \<and> isnumeral e2 \<and> (\<exists>x. fold_value E op (nval e1) (nval e2) = Ok (Some x) \<and> \<not> num_isnan x \<and> e = e1\<lparr>nval := x\<rparr>)"
  by (auto simp: constfolding_def rbind_Ok_iff split: option.splits)

section \<open>Properties\<close>

text \<open>
  C31: the lists of pending jumps. \<open>luaK_concat\<close> makes one list of two that share no jump and changes the
  offset of the last jump of the first only; \<open>luaK_patchlist\<close> to a place in the code sends exactly the
  jumps of the list there and makes each \<open>TESTSET\<close> that controls one a \<open>TEST\<close> of the same register and
  condition; \<open>luaK_code\<close> sends the jumps that wait for the next instruction to the one it appends.
  None of them fails, except with the message for an offset that does not fit, or a code that is full.
  The lists are those of the code before (\<open>chain\<close>), and the word before each jump is an instruction
  (\<open>controlled\<close>), not the count of a list instruction, which the code would take for one.
\<close>

theorem jump_lists:
  assumes "chain (f_code (fs s)) l ps" and "chain (f_code (fs s)) m qs" and "distinct (ps @ qs)" and "controlled (f_code (fs s)) ps"
  shows "(case luaK_concat l m s of
       Ok (r, s') \<Rightarrow> \<exists>cs. s' = coded s cs \<and> joined (f_code (fs s)) ps qs cs r
     | Err _ \<Rightarrow> ps \<noteq> [] \<and> qs \<noteq> [] \<and> MAXARG_sBx < \<bar>m - (last ps + 1)\<bar> | _ \<Rightarrow> False)
   \<and> (t \<noteq> pc (fs s) \<longrightarrow> (case luaK_patchlist l t s of
       Ok (_, s') \<Rightarrow> s' = coded s (patch_list (f_code (fs s)) (set ps) t)
         \<and> (\<forall>p \<in> set ps. p + 1 + GETARG_sBx (f_code (fs s') ! nat p) = t)
     | Err _ \<Rightarrow> \<exists>p \<in> set ps. MAXARG_sBx < \<bar>t - (p + 1)\<bar> | _ \<Rightarrow> False))
   \<and> (jpc (fs s) = l \<longrightarrow> (case luaK_code i line s of
       Ok (r, s') \<Rightarrow> r = pc (fs s) \<and> (\<forall>p \<in> set ps. p + 1 + GETARG_sBx (f_code (fs s') ! nat p) = r)
         \<and> s' = s\<lparr>fs := (fs s)\<lparr>f_code := patch_list (f_code (fs s)) (set ps) r @ [i], jpc := NO_JUMP,
              f_lineinfo := f_lineinfo (fs s) @ [line]\<rparr>\<rparr>
     | Err _ \<Rightarrow> MAX_INT \<le> pc (fs s) \<or> (\<exists>p \<in> set ps. MAXARG_sBx < \<bar>pc (fs s) - (p + 1)\<bar>) | _ \<Rightarrow> False))"
proof (intro conjI impI)
  have d: "distinct ps" using assms(3) by simp
  have lands: "p + 1 + GETARG_sBx ((patch_list (f_code (fs s)) (set ps) u @ cs) ! nat p) = u"
    if "p \<in> set ps" "\<bar>u - (p + 1)\<bar> \<le> MAXARG_sBx" for p u cs
    using patch_lands [OF chain_nodes [OF assms(1) that(1)] that] chain_nodes [OF assms(1) that(1)]
    by (simp add: nth_append is_node_def nat_less_iff)
  show "case luaK_concat l m s of
       Ok (r, s') \<Rightarrow> \<exists>cs. s' = coded s cs \<and> joined (f_code (fs s)) ps qs cs r
     | Err _ \<Rightarrow> ps \<noteq> [] \<and> qs \<noteq> [] \<and> MAXARG_sBx < \<bar>m - (last ps + 1)\<bar> | _ \<Rightarrow> False"
    using runs_concat [OF assms(1-3)] by (simp add: runs_def)
  show "case luaK_patchlist l t s of
       Ok (_, s') \<Rightarrow> s' = coded s (patch_list (f_code (fs s)) (set ps) t)
         \<and> (\<forall>p \<in> set ps. p + 1 + GETARG_sBx (f_code (fs s') ! nat p) = t)
     | Err _ \<Rightarrow> \<exists>p \<in> set ps. MAXARG_sBx < \<bar>t - (p + 1)\<bar> | _ \<Rightarrow> False" if "t \<noteq> pc (fs s)"
    using runs_patchlistaux [OF assms(1) d assms(4), of t] that lands [of _ t "[]"]
    by (auto simp: runs_def luaK_patchlist_def with_fs_def split: result.splits)
  show "case luaK_code i line s of
       Ok (r, s') \<Rightarrow> r = pc (fs s) \<and> (\<forall>p \<in> set ps. p + 1 + GETARG_sBx (f_code (fs s') ! nat p) = r)
         \<and> s' = s\<lparr>fs := (fs s)\<lparr>f_code := patch_list (f_code (fs s)) (set ps) r @ [i], jpc := NO_JUMP,
              f_lineinfo := f_lineinfo (fs s) @ [line]\<rparr>\<rparr>
     | Err _ \<Rightarrow> MAX_INT \<le> pc (fs s) \<or> (\<exists>p \<in> set ps. MAXARG_sBx < \<bar>pc (fs s) - (p + 1)\<bar>) | _ \<Rightarrow> False" if "jpc (fs s) = l"
    using runs_luaK_code [of s ps i line] assms(1,4) d that lands [of _ "pc (fs s)" "[i]"]
    by (auto simp: runs_def split: result.splits)
qed

text \<open>Two jumps in a list, the first of them after a \<open>TESTSET\<close>, and a third one\<close>

definition jump_code :: "Instruction list" where
  "jump_code = [CREATE_ABC OP_TESTSET 0 1 1, CREATE_ABx OP_JMP 0 (NO_JUMP + MAXARG_sBx), CREATE_ABC OP_RETURN 0 1 0,
     CREATE_ABx OP_JMP 0 (- 3 + MAXARG_sBx), CREATE_ABx OP_JMP 0 (NO_JUMP + MAXARG_sBx)]"

definition jump_state :: PState where
  "jump_state = \<lparr>lex = \<lparr>LexState.current = EOZ, linenumber = 1, lastline = 1, tk = \<lparr>token = 0, seminfo = SemNone\<rparr>,
       ahead = \<lparr>token = TK_EOS, seminfo = SemNone\<rparr>, zin = luaZ_init [], buff = [], buffsize = LUA_MINBUFFER,
       fs_h = [], lex_source = [], decpoint = CHR ''.''\<rparr>,
     fs = (new_func (tiny_table []) 0)\<lparr>f_code := jump_code, f_lineinfo := [1, 1, 1, 1, 1], jpc := 3\<rparr>, outer = [], nCcalls = 0\<rparr>"

theorem jump_lists_witness:
  "\<exists>s'. luaK_patchlist 3 2 jump_state = Ok ((), s') \<and> 2 + GETARG_sBx (f_code (fs s') ! 1) = 2 \<and> 4 + GETARG_sBx (f_code (fs s') ! 3) = 2"
proof -
  have w: "is_node jump_code 3" "jump_next jump_code 3 = Ok 1" "is_node jump_code 1" "jump_next jump_code 1 = Ok NO_JUMP"
    "is_node jump_code 4" "jump_next jump_code 4 = Ok NO_JUMP" "controlled jump_code [3, 1]"
    unfolding is_node_def node_op_def controlled_def jump_code_def by code_simp+
  have fs: "f_code (fs jump_state) = jump_code" "pc (fs jump_state) = 5" by (simp_all add: jump_state_def jump_code_def)
  have c: "chain jump_code 3 [3, 1]" "chain jump_code 4 [4]" using w by simp_all
  have "\<not> (\<exists>p \<in> set [3, 1]. MAXARG_sBx < \<bar>2 - (p + 1)\<bar>)" by simp
  with jump_lists [of jump_state 3 "[3, 1]" 4 "[4]" 2 0 0] c w(7) fs show ?thesis
    by (auto split: result.splits)
qed

text \<open>
  C32: a binary operation that the compiler folds has the value that the machine computes when it
  runs the instruction on the same two numbers.
\<close>

theorem constfolding_agrees:
  assumes "constfolding Ec op e1 e2 = Ok (Some e)" and "fold_event op \<noteq> None" and "c_pow Ec = num_pow E"
    and "get_rk L fr (GETARG_B i) g = Return (VNumber (nval e1), x) g"
    and "get_rk L fr (GETARG_C i) g = Return (VNumber (nval e2), y) g"
  shows "vm_switch E L fr n q i op g = go_on q (sset L (reg fr (GETARG_A i)) (VNumber (nval e))) g"
proof -
  obtain r where r: "fold_value Ec op (nval e1) (nval e2) = Ok (Some r)" "nval e = r"
    using assms(1) by (auto simp: constfolding_Some)
  have "op \<in> {OP_ADD, OP_SUB, OP_MUL, OP_DIV, OP_MOD, OP_POW, OP_BOR, OP_BAND, OP_BXOR, OP_BLSHFT, OP_BRSHFT}"
    using assms(2) by (auto simp: fold_event_def split: if_splits)
  with r assms(3-5) show ?thesis
    by (auto simp: vm_switch_def fold_value_def go_on_def arith_op_def logic_op_def arith_num_def logic_num_def
        bnd_def lift0_def Let_def rbind_Ok_iff split: if_splits)
qed

text \<open>Two numbers among the constants of the running function\<close>

definition number_frame :: frame where
  "number_frame = leaf_frame\<lparr>fr_proto := leaf_proto\<lparr>h_k := [VNumber (cast_num 2), VNumber (cast_num 3)]\<rparr>\<rparr>"

definition numeral :: "lua_Number \<Rightarrow> expdesc" where
  "numeral x = \<lparr>ek = VKNUM, info = 0, aux = 0, nval = x, et = NO_JUMP, ef = NO_JUMP\<rparr>"

theorem constfolding_agrees_witness:
  "vm_switch byte_env 1 number_frame 1 1 (CREATE_ABC OP_ADD 0 (RKASK 0) (RKASK 1)) OP_ADD leaf
     = go_on 1 (sset 1 2 (VNumber (cast_num 5))) leaf"
proof -
  let ?i = "CREATE_ABC OP_ADD 0 (RKASK 0) (RKASK 1)"
  have n: "num_add (cast_num 2) (cast_num 3) = cast_num 5" "\<not> num_isnan (cast_num 5)" by code_simp+
  have f: "constfolding (test_env\<lparr>c_pow := num_pow byte_env\<rparr>) OP_ADD (numeral (cast_num 2)) (numeral (cast_num 3)) = Ok (Some (numeral (cast_num 5)))"
    using n by (simp add: constfolding_def fold_value_def isnumeral_def numeral_def)
  have a: "GETARG_A ?i = 0" "ISK (GETARG_B ?i)" "INDEXK (GETARG_B ?i) = 0" "ISK (GETARG_C ?i)" "INDEXK (GETARG_C ?i) = 1"
    by code_simp+
  have "get_rk 1 number_frame (GETARG_B ?i) leaf = Return (VNumber (nval (numeral (cast_num 2))), None) leaf"
    "get_rk 1 number_frame (GETARG_C ?i) leaf = Return (VNumber (nval (numeral (cast_num 3))), None) leaf"
    using a by (simp_all add: get_rk_def get_k_def number_frame_def numeral_def ret_def)
  from constfolding_agrees [OF f _ _ this, where n = 1 and q = 1] a(1) show ?thesis
    by (simp add: fold_event_def numeral_def number_frame_def leaf_frame_def reg_def)
qed

end
