(* ===== verification/LuaObjectProps.thy ===== *)
theory LuaObjectProps
  imports LuaOpcodes
begin

text \<open>
  Properties of numbers, of the generic functions of \<^verbatim>\<open>lobject.c\<close> and of the
  instruction format of \<^verbatim>\<open>lopcodes.h\<close>.
\<close>

section \<open>Numbers\<close>

text \<open>
  Every C \<open>int\<close> survives the conversion to a Lua number and back, and different
  integers give different numbers; so integer indices of a table never collide.
\<close>

theorem cast_num_roundtrip:
  assumes "in_int i" and "in_int j"
  shows "lua_number2int (cast_num i) = i \<and> (num_eq (cast_num i) (cast_num j) \<longleftrightarrow> i = j)"
  using assms by (simp add: number2int_cast_num cast_num_eq_iff)

theorem cast_num_roundtrip_witness:
  "lua_number2int (cast_num (- 5)) = - 5 \<and> \<not> num_eq (cast_num (- 5)) (cast_num 7)"
  using cast_num_roundtrip [of "- 5" 7] by (simp add: in_int_def)

section \<open>Raw equality\<close>

text \<open>
  Raw equality is symmetric and transitive, and reflexive except on NaN; equal values have
  the same type, and equal numbers behave the same when converted to an index.
\<close>

theorem rawequal_equivalence:
  "(luaO_rawequalObj a b \<longleftrightarrow> luaO_rawequalObj b a)
   \<and> (luaO_rawequalObj a b \<longrightarrow> luaO_rawequalObj b c \<longrightarrow> luaO_rawequalObj a c)
   \<and> (luaO_rawequalObj a a \<longleftrightarrow> \<not> is_NaN a)
   \<and> (luaO_rawequalObj a b \<longrightarrow> ttype a = ttype b)"
proof (intro conjI impI)
  show "luaO_rawequalObj a b \<longleftrightarrow> luaO_rawequalObj b a" by (rule rawequal_sym)
  show "luaO_rawequalObj a c" if "luaO_rawequalObj a b" "luaO_rawequalObj b c"
    using that by (rule rawequal_trans)
  show "luaO_rawequalObj a a \<longleftrightarrow> \<not> is_NaN a" by (rule rawequal_refl)
  show "ttype a = ttype b" if "luaO_rawequalObj a b"
    using that by (simp add: luaO_rawequalObj_def split: if_splits)
qed

theorem rawequal_equivalence_witness:
  "luaO_rawequalObj (VNumber 0) (VNumber 0x8000000000000000)
    \<and> luaO_rawequalObj (VNumber 0x8000000000000000) (VNumber 0)"
proof -
  have "luaO_rawequalObj (VNumber 0) (VNumber 0x8000000000000000)" by code_simp
  with rawequal_equivalence [of "VNumber 0" "VNumber 0x8000000000000000"] show ?thesis by blast
qed

section \<open>Floating point bytes\<close>

text \<open>
  C37: the size hints of \<open>OP_NEWTABLE\<close>: a size encoded as a floating point byte is decoded
  to a size that is not smaller and at most an eighth larger, for every size that the decoding
  can represent.
\<close>

theorem int2fb_roundtrip:
  assumes "uint x \<le> 7 * 2 ^ 28"
  shows "\<exists>v. luaO_fb2int (luaO_int2fb x) = Ok v \<and> uint x \<le> v \<and> 8 * (v - uint x) \<le> v"
proof -
  obtain x' e' where l: "int2fb_loop x 0 = (x', e')" by (cases "int2fb_loop x 0") auto
  have S: "0 \<le> e'" "uint x' < 16" "8 \<le> uint x' \<or> e' = 0"
    "uint x \<le> uint x' * 2 ^ nat e'" "uint x' * 2 ^ nat e' < uint x + 2 ^ nat e'"
    using int2fb_loop_spec [OF l] assms by simp_all
  define P where "P = (2::int) ^ nat e'"
  have P: "0 < P" by (simp add: P_def)
  show ?thesis
  proof (cases "x' < 8")
    case True
    then have "uint x' < 8" by (simp add: word_less_def)
    with S have e: "e' = 0" by linarith
    then have "uint x' = uint x" using S(4,5) by simp
    with True l \<open>uint x' < 8\<close> show ?thesis
      by (simp add: luaO_int2fb_def luaO_fb2int_def)
  next
    case False
    then have big: "8 \<le> uint x'" by (simp add: word_less_def not_less)
    then have "8 * P \<le> uint x' * P" using P by (simp add: mult_right_mono)
    moreover have "uint x' * P < uint x + P" using S(5) by (simp only: P_def)
    ultimately have "7 * P < 7 * 2 ^ 28" using assms by linarith
    then have "(2::int) ^ nat e' < 2 ^ 28" by (simp add: P_def)
    then have e: "nat e' < 28" by (rule power_less_imp_less_exp [rotated]) simp
    let ?y = "(e' + 1) * 8 + (uint x' - 8)"
    have "(e * 8 + (u - 8)) div 8 = e \<and> (e * 8 + (u - 8)) mod 8 = u - 8"
      if "8 \<le> u" "u < 16" for e u :: int using that by presburger
    then have y: "?y div 8 = e' + 1" "?y mod 8 = uint x' - 8" using big S(2) by blast+
    have r: "(e' + 1) mod 32 = e' + 1" using S(1) e by (intro mod_pos_pos_trivial) simp_all
    have "(2::int) ^ nat e' \<le> 2 ^ 27" using e by (intro power_increasing) simp_all
    then have v: "uint x' * P \<le> 15 * 2 ^ 27"
      using S(2) P by (intro mult_mono) (simp_all add: P_def)
    have "luaO_int2fb x = ?y" using False by (simp add: luaO_int2fb_def l)
    then have "luaO_fb2int (luaO_int2fb x) =
        (if e' + 1 = 0 then Ok ?y
         else if (uint x' - 8 + 8) * 2 ^ nat (e' + 1 - 1) \<le> INT_MAX
           then Ok ((uint x' - 8 + 8) * 2 ^ nat (e' + 1 - 1)) else Undef)"
      by (simp only: luaO_fb2int_def y r Let_def)
    then have "luaO_fb2int (luaO_int2fb x) = Ok (uint x' * P)"
      using v S(1) by (simp add: P_def)
    moreover have "8 * (v - y) \<le> v" if "v < y + q" "8 * q \<le> v" for v y q :: int
      using that by presburger
    then have "8 * (uint x' * P - uint x) \<le> uint x' * P"
      using S(5) \<open>8 * P \<le> uint x' * P\<close> unfolding P_def by blast
    ultimately show ?thesis using S(4) by (simp add: P_def)
  qed
qed

theorem int2fb_roundtrip_witness:
  "luaO_fb2int (luaO_int2fb 1000) = Ok 1024 \<and> (1000::int) \<le> 1024"
proof -
  have "luaO_fb2int (luaO_int2fb 1000) = Ok 1024" by code_simp
  with int2fb_roundtrip [of 1000] show ?thesis by simp
qed

section \<open>Logarithms\<close>

text \<open>
  \<open>luaO_log2\<close> with its table of 256 entries is the floor of the binary logarithm, and
  \<open>ceillog2\<close> the ceiling, for every positive argument.
\<close>

theorem log2_correct:
  assumes "0 < x"
  shows "0 \<le> luaO_log2 x \<and> 2 ^ nat (luaO_log2 x) \<le> uint x \<and> uint x < 2 ^ nat (luaO_log2 x + 1)
    \<and> 0 \<le> ceillog2 x \<and> uint x \<le> 2 ^ nat (ceillog2 x)
    \<and> (0 < ceillog2 x \<longrightarrow> 2 ^ nat (ceillog2 x - 1) < uint x)"
proof -
  have u: "0 < uint x" using assms by (simp add: word_less_def)
  have "nat (luaO_log2 x) = nbits (uint x) - 1" "nat (luaO_log2 x + 1) = nbits (uint x)" "0 \<le> luaO_log2 x"
    using nbits_pos [OF u] by (simp_all add: luaO_log2_nbits)
  then show ?thesis
    using nbits_lower [OF u] nbits_upper [of "uint x"] ceillog2_bounds [OF assms] by simp
qed

theorem log2_correct_witness: "luaO_log2 1000 = 9 \<and> ceillog2 1000 = 10 \<and> (2::int) ^ 9 \<le> 1000"
proof -
  have "luaO_log2 1000 = 9" "ceillog2 1000 = 10" by code_simp+
  with log2_correct [of 1000] show ?thesis by simp
qed

section \<open>Chunk names\<close>

text \<open>
  The name of a chunk always fits the buffer of \<open>LUA_IDSIZE\<close> bytes with its
  terminator, for a source of any length.
\<close>

theorem chunkid_fits: "length (luaO_chunkid source 60) < 60"
proof -
  have sub: "size_sub 60 8 = 52" "size_sub 60 17 = 43" by (simp_all add: size_sub_def)
  show ?thesis
    using length_takeWhile_le [of _ source]
    by (auto simp: luaO_chunkid_def sub Let_def)
qed

section \<open>Instructions\<close>

text \<open>
  An instruction made by \<open>CREATE_ABC\<close> gives back its opcode and its three arguments, for
  every opcode and every argument in the range of its field.
\<close>

theorem instruction_roundtrip:
  assumes "0 \<le> a" "a \<le> MAXARG_A" "0 \<le> b" "b \<le> MAXARG_B" "0 \<le> c" "c \<le> MAXARG_C"
  shows "op_of (GET_OPCODE (CREATE_ABC op a b c)) = Some op
    \<and> GETARG_A (CREATE_ABC op a b c) = a
    \<and> GETARG_B (CREATE_ABC op a b c) = b
    \<and> GETARG_C (CREATE_ABC op a b c) = c"
  by (simp only: CREATE_ABC_fields [OF assms] op_of_num simp_thms)

theorem instruction_roundtrip_witness:
  "GETARG_B (CREATE_ABC OP_ADD 255 511 256) = 511"
  using instruction_roundtrip [of 255 511 256 OP_ADD] by simp

text \<open>
  \<open>SETARG_sBx\<close> stores a signed jump so that \<open>GETARG_sBx\<close> reads it back, and leaves the
  opcode and argument A as they were.
\<close>

theorem jump_roundtrip:
  assumes "- MAXARG_sBx \<le> b" and "b \<le> MAXARG_sBx + 1"
  shows "GETARG_sBx (SETARG_sBx i b) = b \<and> GET_OPCODE (SETARG_sBx i b) = GET_OPCODE i
    \<and> GETARG_A (SETARG_sBx i b) = GETARG_A i"
  using assms
  by (simp add: GETARG_sBx_def SETARG_sBx_def GETARG_Bx_def SETARG_Bx_def GET_OPCODE_def GETARG_A_def
      get_set_field_same get_set_field_other)

theorem jump_roundtrip_witness: "GETARG_sBx (SETARG_sBx 0 (- 131071)) = - 131071"
  using jump_roundtrip [of "- 131071" 0] by simp

end
