(* ===== verification/LuaGsub.thy ===== *)
theory LuaGsub
  imports LuaStrlib LuaNumber
begin

text \<open>
  Substitution and formatting (\<^verbatim>\<open>lstrlib.c\<close>). A replacement function or table runs Lua
  code: it is an argument, with the state of the machine passed through it. How a number is
  written (\<open>lua_number2str\<close>, a \<open>sprintf\<close>) is an argument too.
\<close>

section \<open>gsub\<close>

datatype 'st repl =
    RStr string
  | RFun "'st \<Rightarrow> lval list \<Rightarrow> (lval \<times> 'st) result"
  | RTab "'st \<Rightarrow> lval \<Rightarrow> (lval \<times> 'st) result"
  | ROther

fun lua_toboolean :: "lval \<Rightarrow> bool" where
  "lua_toboolean PNil = False"
| "lua_toboolean (PBool b) = b"
| "lua_toboolean _ = True"

text \<open>The bytes of a string or a number, if the value is one.\<close>

fun lua_tolstring :: "(int \<Rightarrow> string) \<Rightarrow> lval \<Rightarrow> string option" where
  "lua_tolstring fmt (PStr s) = Some s"
| "lua_tolstring fmt (PInt n) = Some (fmt n)"
| "lua_tolstring fmt _ = None"

fun luaL_typename :: "lval \<Rightarrow> string" where
  "luaL_typename PNil = ''nil''"
| "luaL_typename (PBool _) = ''boolean''"
| "luaL_typename (PInt _) = ''number''"
| "luaL_typename (PStr _) = ''string''"
| "luaL_typename (POther n) = n"

text \<open>The loop over the replacement string from \<open>i\<close>; \<open>news[l]\<close> is the terminator.\<close>

function add_s :: "(int \<Rightarrow> string) \<Rightarrow> MatchState \<Rightarrow> string \<Rightarrow> nat \<Rightarrow> nat \<Rightarrow> nat \<Rightarrow> string result" where
  "add_s fmt ms news i s e =
     (if i < length news then
        rbind (getc news i) (\<lambda>c.
          if c \<noteq> L_ESC then rbind (add_s fmt ms news (Suc i) s e) (\<lambda>r. Ok (c # r))
          else rbind (getc news (Suc i)) (\<lambda>d.
            rbind (if \<not> isdigit (code d) then Ok [d]
                   else if d = CHR ''0'' then lstring_at (src ms) (int s) (int e - int s)
                   else rbind (push_onecapture ms (nat (code d - code (CHR ''1''))) (Some (s, e))) (\<lambda>v.
                     case lua_tolstring fmt v of Some w \<Rightarrow> Ok w | None \<Rightarrow> Undef))
              (\<lambda>w. rbind (add_s fmt ms news (i + 2) s e) (\<lambda>r. Ok (w @ r)))))
      else Ok [])"
  by pat_completeness auto
termination
  by (relation "measure (\<lambda>(fmt, ms, news, i, s, e). length news - i)") auto

declare add_s.simps [simp del]

definition add_result :: "(int \<Rightarrow> string) \<Rightarrow> MatchState \<Rightarrow> nat \<Rightarrow> nat \<Rightarrow> lval \<Rightarrow> string result" where
  "add_result fmt ms s e v =
     (if \<not> lua_toboolean v then lstring_at (src ms) (int s) (int e - int s)
      else case lua_tolstring fmt v of
        Some w \<Rightarrow> Ok w
      | None \<Rightarrow> lerror (''invalid replacement value (a '' @ luaL_typename v @ '')''))"

definition add_value :: "(int \<Rightarrow> string) \<Rightarrow> nat \<Rightarrow> 'st repl \<Rightarrow> MatchState \<Rightarrow> 'st \<Rightarrow> nat \<Rightarrow> nat \<Rightarrow>
    (string \<times> 'st) result" where
  "add_value fmt used repl ms st s e =
     (case repl of
        RStr news \<Rightarrow> rbind (add_s fmt ms news 0 s e) (\<lambda>w. Ok (w, st))
      | RFun f \<Rightarrow>
          rbind (push_captures (Suc used) ms (Some (s, e))) (\<lambda>vs. rbind (f st vs) (\<lambda>(v, st').
            rbind (add_result fmt ms s e v) (\<lambda>w. Ok (w, st'))))
      | RTab g \<Rightarrow>
          rbind (push_onecapture ms 0 (Some (s, e))) (\<lambda>v. rbind (g st v) (\<lambda>(v', st').
            rbind (add_result fmt ms s e v') (\<lambda>w. Ok (w, st'))))
      | ROther \<Rightarrow> luaL_argerror 3 ''string/function/table expected'')"

text \<open>
  The loop \<open>while (n < max_s)\<close>: the number of substitutions, the rest of the subject, the
  text so far and the state of the machine. Every iteration moves forward, so \<open>srcl + 1\<close>
  iterations are enough (\<^verbatim>\<open>LuaGsubSpec\<close>).
\<close>

fun gsub_loop :: "nat \<Rightarrow> (int \<Rightarrow> string) \<Rightarrow> nat \<Rightarrow> 'st repl \<Rightarrow> string \<Rightarrow> nat \<Rightarrow> bool \<Rightarrow> int \<Rightarrow>
    int \<Rightarrow> MatchState \<Rightarrow> 'st \<Rightarrow> nat \<Rightarrow> string \<Rightarrow> (int \<times> nat \<times> string \<times> 'st) result" where
  "gsub_loop 0 fmt used repl pat p anchor max_s n ms st s b = Diverge"
| "gsub_loop (Suc f) fmt used repl pat p anchor max_s n ms st s b =
     (if \<not> n < max_s then Ok (n, s, b, st)
      else rbind (match pat (ms\<lparr>level := 0\<rparr>) s p) (\<lambda>(res, ms').
        rbind (case res of
                 None \<Rightarrow> Ok (n, b, st)
               | Some e \<Rightarrow> rbind (add_value fmt used repl ms' st s e) (\<lambda>(w, st'). Ok (n + 1, b @ w, st')))
          (\<lambda>(n', b', st').
             case res of
               Some e \<Rightarrow>
                 if s < e then
                   if anchor then Ok (n', e, b', st')
                   else gsub_loop f fmt used repl pat p anchor max_s n' ms' st' e b'
                 else if s < src_end ms' then
                   rbind (getc (src ms') s) (\<lambda>c.
                     if anchor then Ok (n', Suc s, b' @ [c], st')
                     else gsub_loop f fmt used repl pat p anchor max_s n' ms' st' (Suc s) (b' @ [c]))
                 else Ok (n', s, b', st')
             | None \<Rightarrow>
                 if s < src_end ms' then
                   rbind (getc (src ms') s) (\<lambda>c.
                     if anchor then Ok (n', Suc s, b' @ [c], st')
                     else gsub_loop f fmt used repl pat p anchor max_s n' ms' st' (Suc s) (b' @ [c]))
                 else Ok (n', s, b', st'))))"

definition str_gsub :: "(int \<Rightarrow> string) \<Rightarrow> nat \<Rightarrow> string \<Rightarrow> string \<Rightarrow> 'st repl \<Rightarrow> int option \<Rightarrow> 'st \<Rightarrow>
    ((string \<times> int) \<times> 'st) result" where
  "str_gsub fmt used s p repl maxs st =
     (let srcl = length s;
          max_s = (case maxs of Some m \<Rightarrow> m | None \<Rightarrow> cast_int (int srcl + 1))
      in rbind (getc p 0) (\<lambda>c.
        let anchor = (c = CHR 0x5E)
        in rbind (gsub_loop (Suc (Suc srcl)) fmt used repl p (if anchor then 1 else 0) anchor max_s 0
             (new_state s) st 0 []) (\<lambda>(n, rest, b, st').
               rbind (lstring_at s (int rest) (int srcl - int rest)) (\<lambda>w. Ok ((b @ w, n), st')))))"

section \<open>Quoted strings\<close>

text \<open>The \<open>switch\<close> of \<open>addquoted\<close>.\<close>

definition quote_char :: "char \<Rightarrow> string" where
  "quote_char c =
     (if c = CHR 0x22 \<or> c = CHR 0x5C \<or> c = CHR 0x0A then [CHR 0x5C, c]
      else if c = CHR 0x0D then [CHR 0x5C, CHR ''r'']
      else if c = NUL then [CHR 0x5C, CHR ''0'', CHR ''0'', CHR ''0'']
      else [c])"

definition addquoted :: "string \<Rightarrow> string" where
  "addquoted s = CHR 0x22 # concat (map quote_char s) @ [CHR 0x22]"

section \<open>Formats\<close>

definition FLAGS :: string where
  "FLAGS = ''-+ #0''"

definition LUA_INTFRMLEN :: string where
  "LUA_INTFRMLEN = ''l''"

abbreviation sizeof_lit :: "string \<Rightarrow> nat" where
  "sizeof_lit s \<equiv> Suc (length s)"

definition MAX_FORMAT :: nat where
  "MAX_FORMAT = sizeof_lit FLAGS + sizeof_lit LUA_INTFRMLEN + 10"

abbreviation MAX_ITEM :: nat where
  "MAX_ITEM \<equiv> 512"

text \<open>Writing a C string to a buffer of a given length.\<close>

definition fits :: "nat \<Rightarrow> string \<Rightarrow> string result" where
  "fits len s = (if length s < len then Ok s else Undef)"

text \<open>\<open>while ( *p != '\0' && strchr(FLAGS, *p) != NULL) p++\<close>\<close>

function skip_flags :: "string \<Rightarrow> nat \<Rightarrow> nat result" where
  "skip_flags s p =
     rbind (getc s p) (\<lambda>c. if c \<noteq> NUL \<and> c \<in> set FLAGS then skip_flags s (Suc p) else Ok p)"
  by pat_completeness auto
termination
  by (relation "measure (\<lambda>(s, p). Suc (length s) - p)") (auto simp: getc_def split: if_splits)

declare skip_flags.simps [simp del]

text \<open>\<open>if (isdigit(uchar( *p))) p++\<close>\<close>

definition skip_digit :: "string \<Rightarrow> nat \<Rightarrow> nat result" where
  "skip_digit s p = rbind (getc s p) (\<lambda>c. Ok (if isdigit (code c) then Suc p else p))"

text \<open>The position of the conversion and the form, a C string in a buffer of \<open>MAX_FORMAT\<close> bytes.\<close>

definition scanformat :: "string \<Rightarrow> nat \<Rightarrow> (nat \<times> string) result" where
  "scanformat s p0 =
     rbind (skip_flags s p0) (\<lambda>p.
       if sizeof_lit FLAGS \<le> p - p0 then lerror ''invalid format (repeated flags)''
       else rbind (skip_digit s p) (\<lambda>p. rbind (skip_digit s p) (\<lambda>p.
         rbind (getc s p) (\<lambda>c.
         rbind (if c = CHR ''.'' then rbind (skip_digit s (Suc p)) (skip_digit s) else Ok p) (\<lambda>p.
           rbind (getc s p) (\<lambda>d.
             if isdigit (code d) then lerror ''invalid format (width or precision too long)''
             else rbind (fits MAX_FORMAT (CHR ''%'' # takeWhile (\<lambda>c. c \<noteq> NUL) (take (p - p0 + 1) (drop p0 s))))
               (\<lambda>form. Ok (p, form))))))))"

definition addintlen :: "string \<Rightarrow> string result" where
  "addintlen form =
     (if form = [] then Undef
      else fits MAX_FORMAT (butlast form @ LUA_INTFRMLEN @ [last form]))"

text \<open>An argument of \<open>sprintf\<close>; how it is written is an argument of \<open>str_format\<close>.\<close>

datatype sprintf_arg =
    SChar int
  | SInt int
  | SUnsigned int
  | SDouble lua_Number
  | SString string

text \<open>An argument of \<open>string.format\<close>: a number or a string.\<close>

datatype format_arg =
    FNumber lua_Number
  | FString string

definition checknumber :: "(string \<Rightarrow> lua_Number option) \<Rightarrow> format_arg list \<Rightarrow> nat \<Rightarrow> lua_Number result" where
  "checknumber str2d args arg =
     (if arg < 2 \<or> length args < arg - 1 then luaL_argerror arg ''number expected, got no value''
      else case args ! (arg - 2) of
        FNumber n \<Rightarrow> Ok n
      | FString s \<Rightarrow> (case str2d s of
            Some n \<Rightarrow> Ok n | None \<Rightarrow> luaL_argerror arg ''number expected, got string''))"

definition checkstring :: "(lua_Number \<Rightarrow> string) \<Rightarrow> format_arg list \<Rightarrow> nat \<Rightarrow> string result" where
  "checkstring number2str args arg =
     (if arg < 2 \<or> length args < arg - 1 then luaL_argerror arg ''string expected, got no value''
      else case args ! (arg - 2) of
        FNumber n \<Rightarrow> Ok (number2str n)
      | FString s \<Rightarrow> Ok s)"

text \<open>A conversion of a double to an integer type is undefined outside its range.\<close>

definition num_to_range :: "int \<Rightarrow> int \<Rightarrow> lua_Number \<Rightarrow> int result" where
  "num_to_range lo hi x =
     (if num_isnan x \<or> num_isinf x then Undef
      else if lo \<le> dbl_trunc x \<and> dbl_trunc x \<le> hi then Ok (dbl_trunc x) else Undef)"

text \<open>\<open>sprintf(buff, form, a)\<close>, and the bytes of \<open>buff\<close> that \<open>strlen\<close> counts.\<close>

definition sprintf_item :: "(string \<Rightarrow> sprintf_arg \<Rightarrow> string) \<Rightarrow> string \<Rightarrow> sprintf_arg \<Rightarrow> string result" where
  "sprintf_item spf form a =
     rbind (fits MAX_ITEM (spf form a)) (\<lambda>w. Ok (takeWhile (\<lambda>c. c \<noteq> NUL) w))"

text \<open>
  The \<open>switch\<close> on the conversion \<open>c\<close>. \<open>str2d\<close> and \<open>number2str\<close> are the conversions
  between strings and numbers.
\<close>

definition format_item :: "(string \<Rightarrow> sprintf_arg \<Rightarrow> string) \<Rightarrow> (string \<Rightarrow> lua_Number option) \<Rightarrow>
    (lua_Number \<Rightarrow> string) \<Rightarrow> format_arg list \<Rightarrow> nat \<Rightarrow> char \<Rightarrow> string \<Rightarrow> string result" where
  "format_item spf str2d number2str args arg c form =
     (if c = CHR ''c'' then
        rbind (checknumber str2d args arg) (\<lambda>x. rbind (num_to_range INT_MIN INT_MAX x) (\<lambda>n.
          sprintf_item spf form (SChar n)))
      else if c \<in> set ''di'' then
        rbind (addintlen form) (\<lambda>form. rbind (checknumber str2d args arg) (\<lambda>x.
          rbind (num_to_range (- (2 ^ 63)) (2 ^ 63 - 1) x) (\<lambda>n. sprintf_item spf form (SInt n))))
      else if c \<in> set ''ouxX'' then
        rbind (addintlen form) (\<lambda>form. rbind (checknumber str2d args arg) (\<lambda>x.
          rbind (num_to_range 0 (2 ^ 64 - 1) x) (\<lambda>n. sprintf_item spf form (SUnsigned n))))
      else if c \<in> set ''eEfgG'' then
        rbind (checknumber str2d args arg) (\<lambda>x. sprintf_item spf form (SDouble x))
      else if c = CHR ''q'' then
        rbind (checkstring number2str args arg) (\<lambda>s. Ok (addquoted s))
      else if c = CHR ''s'' then
        rbind (checkstring number2str args arg) (\<lambda>s.
          if CHR ''.'' \<notin> set form \<and> 100 \<le> length s then Ok s
          else sprintf_item spf form (SString (takeWhile (\<lambda>c. c \<noteq> NUL) s)))
      else lerror (''invalid option '' @ LUA_QL (CHR ''%'' # (if c = NUL then [] else [c]))
                     @ '' to '' @ LUA_QL ''format''))"

lemma skip_flags_le: "skip_flags s p = Ok q \<Longrightarrow> p \<le> q \<and> q \<le> length s"
proof (induction s p rule: skip_flags.induct)
  case (1 s p)
  from "1.prems" obtain c where c: "getc s p = Ok c"
    and q: "(if c \<noteq> NUL \<and> c \<in> set FLAGS then skip_flags s (Suc p) else Ok p) = Ok q"
    by (subst (asm) skip_flags.simps) (auto elim: rbind_OkE)
  show ?case
  proof (cases "c \<noteq> NUL \<and> c \<in> set FLAGS")
    case True
    with "1.IH" [OF c] q show ?thesis by auto
  next
    case False
    with q have "q = p" by (simp split: if_splits)
    with getc_Ok [OF c] show ?thesis by simp
  qed
qed

lemma skip_digit_le: "skip_digit s p = Ok q \<Longrightarrow> p \<le> q \<and> q \<le> Suc p \<and> q \<le> length s"
  by (auto simp: skip_digit_def isdigit_def getc_def code_def split: if_splits elim!: rbind_OkE)

lemma scanformat_le: "scanformat s p0 = Ok (p, form) \<Longrightarrow> p0 \<le> p \<and> p \<le> length s"
  unfolding scanformat_def
  by (auto elim!: rbind_OkE split: if_splits dest!: skip_flags_le skip_digit_le getc_Ok)

text \<open>The loop of \<open>str_format\<close> from \<open>i\<close>; \<open>arg\<close> is the last argument used.\<close>

function format_loop :: "(string \<Rightarrow> sprintf_arg \<Rightarrow> string) \<Rightarrow> (string \<Rightarrow> lua_Number option) \<Rightarrow>
    (lua_Number \<Rightarrow> string) \<Rightarrow> format_arg list \<Rightarrow> string \<Rightarrow> nat \<Rightarrow> nat \<Rightarrow> string result" where
  "format_loop spf str2d number2str args s i arg =
     (if i < length s then
        rbind (getc s i) (\<lambda>c.
          if c \<noteq> L_ESC then
            rbind (format_loop spf str2d number2str args s (Suc i) arg) (\<lambda>r. Ok (c # r))
          else rbind (getc s (Suc i)) (\<lambda>d.
            if d = L_ESC then
              rbind (format_loop spf str2d number2str args s (i + 2) arg) (\<lambda>r. Ok (d # r))
            else rbind (scanformat s (Suc i)) (\<lambda>(p, form). rbind (getc s p) (\<lambda>conv.
              rbind (format_item spf str2d number2str args (Suc arg) conv form) (\<lambda>w.
              rbind (format_loop spf str2d number2str args s (Suc p) (Suc arg)) (\<lambda>r. Ok (w @ r)))))))
      else Ok [])"
  by pat_completeness auto
termination
  by (relation "measure (\<lambda>(spf, str2d, number2str, args, s, i, arg). length s - i)")
     (auto dest: scanformat_le)

declare format_loop.simps [simp del]

definition str_format :: "(string \<Rightarrow> sprintf_arg \<Rightarrow> string) \<Rightarrow> (string \<Rightarrow> lua_Number option) \<Rightarrow>
    (lua_Number \<Rightarrow> string) \<Rightarrow> string \<Rightarrow> format_arg list \<Rightarrow> string result" where
  "str_format spf str2d number2str s args = format_loop spf str2d number2str args s 0 1"

end
