(* ===== verification/LuaPatternCorrect.thy ===== *)
theory LuaPatternCorrect
  imports LuaPatternSpec
begin

text \<open>
  The induction over the calls of the matcher. The locale \<open>matcher_step\<close> states what a step may
  assume of its recursive calls; \<open>match_depth\<close> is an instance at every depth.
\<close>

section \<open>Well-formed states\<close>

definition caps :: "MatchState \<Rightarrow> capture list" where
  "caps ms = take (level ms) (captures ms)"

definition cap_ok :: "nat \<Rightarrow> nat \<Rightarrow> capture \<Rightarrow> bool" where
  "cap_ok n s c \<longleftrightarrow>
     (cap_len c = CAP_UNFINISHED \<and> cap_init c \<le> s) \<or> (cap_len c = CAP_POSITION \<and> cap_init c \<le> n)
   \<or> (0 \<le> cap_len c \<and> int (cap_init c) + cap_len c \<le> int n)"

definition wf_ms :: "MatchState \<Rightarrow> nat \<Rightarrow> bool" where
  "wf_ms ms s \<longleftrightarrow>
     length (captures ms) = LUA_MAXCAPTURES \<and> level ms \<le> LUA_MAXCAPTURES
   \<and> s \<le> src_end ms \<and> int (src_end ms) < 2 ^ 63 \<and> (\<forall>c \<in> set (caps ms). cap_ok (src_end ms) s c)"

definition same :: "MatchState \<Rightarrow> MatchState \<Rightarrow> bool" where
  "same ms ms' \<longleftrightarrow>
     src ms' = src ms \<and> level ms' = level ms \<and> length (captures ms') = length (captures ms)
   \<and> caps ms' = caps ms"

lemma same_refl [simp]: "same ms ms" by (simp add: same_def)
lemma same_trans: "same a b \<Longrightarrow> same b c \<Longrightarrow> same a c" by (simp add: same_def)
lemma same_wf: "same ms ms' \<Longrightarrow> wf_ms ms s \<Longrightarrow> wf_ms ms' s" by (simp add: same_def wf_ms_def)

lemma wf_mono: "wf_ms ms s \<Longrightarrow> s \<le> s' \<Longrightarrow> s' \<le> src_end ms \<Longrightarrow> wf_ms ms s'"
  by (auto simp: wf_ms_def cap_ok_def)

lemma length_caps: "wf_ms ms s \<Longrightarrow> length (caps ms) = level ms"
  by (simp add: wf_ms_def caps_def)

lemma nth_caps: "wf_ms ms s \<Longrightarrow> l < level ms \<Longrightarrow> caps ms ! l = captures ms ! l"
  by (simp add: wf_ms_def caps_def)

text \<open>
  What a call from \<open>s\<close> promises of its result when the matches it looks for are those in
  \<open>M\<close>, a set of ends with captures.
\<close>

definition decides :: "MatchState \<Rightarrow> nat \<Rightarrow> (nat \<Rightarrow> capture list \<Rightarrow> bool) \<Rightarrow> (nat option \<times> MatchState) result \<Rightarrow> bool" where
  "decides ms s M r \<longleftrightarrow> safe (\<lambda>(res, ms').
     case res of
       None \<Rightarrow> same ms ms' \<and> (\<forall>e cs. \<not> M e cs)
     | Some e \<Rightarrow> src ms' = src ms \<and> s \<le> e \<and> wf_ms ms' e \<and> M e (caps ms')) r"

lemma decides_cong: "decides ms s M r \<Longrightarrow> (\<And>e cs. M e cs \<longleftrightarrow> M' e cs) \<Longrightarrow> decides ms s M' r"
  by (auto simp: decides_def elim!: safe_mono split: option.splits)

lemma decides_lower: "decides ms s' M r \<Longrightarrow> s \<le> s' \<Longrightarrow> decides ms s M r"
  by (auto simp: decides_def elim!: safe_mono split: option.splits)

lemma decides_same: "same ms ms' \<Longrightarrow> decides ms' s M r \<Longrightarrow> decides ms s M r"
  unfolding decides_def
  by (erule safe_mono) (auto simp: same_def split: option.splits)

lemma decides_None [simp]: "decides ms s M (Ok (None, ms)) \<longleftrightarrow> (\<forall>e cs. \<not> M e cs)"
  by (simp add: decides_def)

lemma decides_error [simp]: "decides ms s M (Err x)" "decides ms s M (lerror m)"
  by (simp_all add: decides_def)

text \<open>Trying one call, then another.\<close>

lemma decides_or:
  assumes "decides ms s M1 r" and "\<And>ms'. same ms ms' \<Longrightarrow> decides ms' s M2 (f ms')"
  shows "decides ms s (\<lambda>e cs. M1 e cs \<or> M2 e cs)
    (rbind r (\<lambda>(res, ms'). case res of Some e \<Rightarrow> Ok (Some e, ms') | None \<Rightarrow> f ms'))"
proof (cases r)
  case (Ok x)
  obtain res ms' where x: "x = (res, ms')" by (cases x) auto
  show ?thesis
  proof (cases res)
    case None
    with assms(1) Ok x have s: "same ms ms'" and no: "\<forall>e cs. \<not> M1 e cs" by (simp_all add: decides_def)
    have "decides ms s M2 (f ms')" using assms(2) [OF s] decides_same [OF s] by blast
    then have "decides ms s (\<lambda>e cs. M1 e cs \<or> M2 e cs) (f ms')"
      by (rule decides_cong) (use no in blast)
    with Ok x None show ?thesis by simp
  next
    case (Some e)
    with assms(1) Ok x show ?thesis by (simp add: decides_def)
  qed
qed (use assms(1) in \<open>simp_all add: decides_def\<close>)

section \<open>The relation, item by item\<close>

lemma pmatch_End: "item_at pat p = Ok End \<Longrightarrow> pmatch subj pat cs s p e cs' \<longleftrightarrow> e = s \<and> cs' = cs"
  by (subst pmatch.simps) auto

lemma pmatch_AnchorEnd: "item_at pat p = Ok AnchorEnd \<Longrightarrow>
    pmatch subj pat cs s p e cs' \<longleftrightarrow> s = length subj \<and> e = s \<and> cs' = cs"
  by (subst pmatch.simps) auto

lemma pmatch_Open: "item_at pat p = Ok (Open what p') \<Longrightarrow>
    pmatch subj pat cs s p e cs' \<longleftrightarrow> length cs < LUA_MAXCAPTURES
      \<and> pmatch subj pat (cs @ [\<lparr>cap_init = s, cap_len = what\<rparr>]) s p' e cs'"
  by (subst pmatch.simps) auto

lemma pmatch_Close: "item_at pat p = Ok (Close p') \<Longrightarrow>
    pmatch subj pat cs s p e cs' \<longleftrightarrow> (\<exists>l. last_open cs l \<and>
      pmatch subj pat (cs[l := (cs ! l)\<lparr>cap_len := int s - int (cap_init (cs ! l))\<rparr>]) s p' e cs')"
  by (subst pmatch.simps) auto

lemma pmatch_Balance: "item_at pat p = Ok (Balance p') \<Longrightarrow>
    pmatch subj pat cs s p e cs' \<longleftrightarrow>
      (\<exists>s'. balance_at subj pat p' s s' \<and> pmatch subj pat cs s' (p' + 2) e cs')"
  by (subst pmatch.simps) auto

lemma pmatch_Frontier: "item_at pat p = Ok (Frontier p') \<Longrightarrow>
    pmatch subj pat cs s p e cs' \<longleftrightarrow>
      (\<exists>ep. frontier_at subj pat p' s ep \<and> pmatch subj pat cs s ep e cs')"
  by (subst pmatch.simps) auto

lemma pmatch_BackRef: "item_at pat p = Ok (BackRef c p') \<Longrightarrow>
    pmatch subj pat cs s p e cs' \<longleftrightarrow>
      (\<exists>w. captured subj cs c w \<and> take (length w) (drop s subj) = w
        \<and> pmatch subj pat cs (s + length w) p' e cs')"
  by (subst pmatch.simps) auto

lemma pmatch_Single: "item_at pat p = Ok (Item p ep c) \<Longrightarrow> c \<notin> set ''?*+-'' \<Longrightarrow>
    pmatch subj pat cs s p e cs' \<longleftrightarrow> hit subj pat p ep s \<and> pmatch subj pat cs (Suc s) ep e cs'"
  by (subst pmatch.simps) auto

lemma pmatch_Repeat: "item_at pat p = Ok (Item p ep c) \<Longrightarrow> c \<in> set ''?*+-'' \<Longrightarrow>
    pmatch subj pat cs s p e cs' \<longleftrightarrow>
      (\<exists>n. ((c = CHR ''?'' \<and> n \<le> 1) \<or> c = CHR ''*'' \<or> (c = CHR ''+'' \<and> 1 \<le> n) \<or> c = CHR ''-'')
        \<and> (\<forall>i < n. hit subj pat p ep (s + i)) \<and> pmatch subj pat cs (s + n) (Suc ep) e cs')"
  by (subst pmatch.simps) auto

section \<open>Captures\<close>

lemma capture_to_close_spec:
  assumes wf: "wf_ms ms s"
  shows "safe (last_open (caps ms)) (capture_to_close ms)"
proof -
  have "n \<le> level ms \<Longrightarrow> (\<forall>j. n \<le> j \<longrightarrow> j < level ms \<longrightarrow> cap_len (caps ms ! j) \<noteq> CAP_UNFINISHED) \<Longrightarrow>
      safe (last_open (caps ms)) (capture_to_close_loop ms n)" for n
  proof (induction n)
    case (Suc n)
    have n: "captures ms ! n = caps ms ! n" using nth_caps [OF wf] Suc.prems(1) by simp
    show ?case
    proof (cases "cap_len (caps ms ! n) = CAP_UNFINISHED")
      case True
      with Suc.prems n length_caps [OF wf] show ?thesis by (simp add: last_open_def)
    next
      case False
      have "cap_len (caps ms ! j) \<noteq> CAP_UNFINISHED" if "n \<le> j" "j < level ms" for j
        using Suc.prems(2) that False by (cases "j = n") auto
      with Suc.IH Suc.prems(1) False n show ?thesis by simp
    qed
  qed simp
  from this [of "level ms"] show ?thesis by (simp add: capture_to_close_def)
qed

lemma last_open_unique: "last_open cs a \<Longrightarrow> last_open cs b \<Longrightarrow> a = b"
  unfolding last_open_def by (metis linorder_neqE_nat)

lemma set_cap_len_caps:
  assumes "wf_ms ms s" and "l < level ms"
  shows "caps (set_cap_len ms l n) = (caps ms)[l := (caps ms ! l)\<lparr>cap_len := n\<rparr>]"
  using assms by (simp add: set_cap_len_def caps_def wf_ms_def take_update_swap)

lemma set_cap_len_fields [simp]:
  "src (set_cap_len ms l n) = src ms" "level (set_cap_len ms l n) = level ms"
  "length (captures (set_cap_len ms l n)) = length (captures ms)"
  by (simp_all add: set_cap_len_def)

lemma match_capture_spec:
  assumes wf: "wf_ms ms s"
  shows "safe (\<lambda>r. (\<forall>w. captured (src ms) (caps ms) c w \<longrightarrow> take (length w) (drop s (src ms)) = w
        \<longrightarrow> r = Some (s + length w))
    \<and> (\<forall>e. r = Some e \<longrightarrow> e \<le> src_end ms \<and>
        (\<exists>w. captured (src ms) (caps ms) c w \<and> take (length w) (drop s (src ms)) = w \<and> e = s + length w)))
    (match_capture ms s c)"
proof -
  let ?l = "code c - code (CHR ''1'')"
  have len: "length (caps ms) = level ms" by (rule length_caps [OF wf])
  show ?thesis
  proof (cases "?l < 0 \<or> int (level ms) \<le> ?l \<or> cap_len (captures ms ! nat ?l) = CAP_UNFINISHED")
    case True
    then have "check_capture ms c = lerror ''invalid capture index''" by (simp add: check_capture_def Let_def)
    then show ?thesis by (simp add: match_capture_def lerror_def)
  next
    case False
    let ?cap = "caps ms ! nat ?l"
    have l: "0 \<le> ?l" "nat ?l < level ms" using False by auto
    have cap: "captures ms ! nat ?l = ?cap" using nth_caps [OF wf l(2)] by simp
    have ck: "check_capture ms c = Ok (nat ?l)" using False by (simp add: check_capture_def Let_def)
    have "?cap \<in> set (caps ms)" using l len by simp
    then have ok: "cap_ok (src_end ms) s ?cap" and b: "int (src_end ms) < 2 ^ 63" "s \<le> src_end ms"
      using wf by (auto simp: wf_ms_def)
    have C: "captured (src ms) (caps ms) c w \<longleftrightarrow> 0 \<le> cap_len ?cap
        \<and> w = take (nat (cap_len ?cap)) (drop (cap_init ?cap) (src ms))" for w
      using l len by (auto simp: captured_def Let_def)
    show ?thesis
    proof (cases "0 \<le> cap_len ?cap")
      case True
      then have n: "int (cap_init ?cap) + cap_len ?cap \<le> int (src_end ms)"
        using ok False cap by (auto simp: cap_ok_def)
      then have m: "cap_len ?cap mod 2 ^ 64 = cap_len ?cap"
        using True b by (intro mod_pos_pos_trivial) simp_all
      let ?n = "nat (cap_len ?cap)"
      let ?w = "take ?n (drop (cap_init ?cap) (src ms))"
      have lw: "length ?w = ?n" using n True by simp
      have R: "match_capture ms s c =
          Ok (if ?n \<le> src_end ms - s \<and> ?w = take ?n (drop s (src ms)) then Some (s + ?n) else None)"
        by (simp add: match_capture_def ck cap m [simplified] Let_def)
      have T: "?n \<le> src_end ms - s" if "take ?n (drop s (src ms)) = ?w"
      proof -
        have "length (take ?n (drop s (src ms))) = ?n" using that lw by simp
        then show ?thesis by simp
      qed
      show ?thesis unfolding R C using True lw T b(2) by (auto simp: le_diff_conv2 simp del: length_take)
    next
      case neg: False
      then have "cap_len ?cap = CAP_POSITION" using ok False cap by (auto simp: cap_ok_def)
      then have "nat (cap_len ?cap mod 2 ^ 64) = 2 ^ 64 - 2" by simp
      moreover have "\<not> (2::nat) ^ 64 - 2 \<le> src_end ms - s" using b by simp
      ultimately have "match_capture ms s c = Ok None"
        by (simp add: match_capture_def ck cap Let_def)
      with neg show ?thesis by (simp add: C)
    qed
  qed
qed

section \<open>Balanced strings\<close>

lemma balance_loop_sound:
  "balance_loop b e cs s (int n) = Some s' \<Longrightarrow> 0 < n \<Longrightarrow>
    \<exists>w. balanced b e n w \<and> take (length w) cs = w \<and> s' = s + length w"
proof (induction cs arbitrary: s n)
  case (Cons c cs)
  obtain m where n: "n = Suc m" using Cons.prems(2) by (cases n) auto
  show ?case
  proof (cases "c = e")
    case True
    show ?thesis
    proof (cases m)
      case 0
      with True Cons.prems(1) n have "s' = Suc s" by simp
      with True n 0 show ?thesis
        by (intro exI [of _ "[e]"]) (auto intro: balanced.intros)
    next
      case (Suc k)
      then have "balance_loop b e cs (Suc s) (int m) = Some s'" using Cons.prems(1) True n by simp
      from Cons.IH [OF this] Suc obtain w where
        "balanced b e m w" "take (length w) cs = w" "s' = Suc s + length w" by auto
      with True n show ?thesis by (intro exI [of _ "e # w"]) (auto intro: bal_shut)
    qed
  next
    case False
    define k where "k = (if c = b then Suc n else n)"
    have "balance_loop b e cs (Suc s) (int k) = Some s'" 
      using Cons.prems(1) False by (cases "c = b") (simp_all add: k_def add.commute)
    moreover have "0 < k" using Cons.prems(2) by (simp add: k_def)
    ultimately obtain w where w:
      "balanced b e k w" "take (length w) cs = w" "s' = Suc s + length w" using Cons.IH by blast
    then have "balanced b e n (c # w)"
      using False n by (auto simp: k_def intro: bal_nest bal_other split: if_splits)
    with w show ?thesis by (intro exI [of _ "c # w"]) simp
  qed
qed simp

lemma balance_loop_complete:
  "balanced b e n w \<Longrightarrow> 0 < n \<Longrightarrow> take (length w) cs = w \<Longrightarrow> balance_loop b e cs s (int n) = Some (s + length w)"
proof (induction b e n w arbitrary: s cs rule: balanced.induct)
  case (bal_shut b e n w)
  then obtain cs' where cs: "cs = e # cs'" "take (length w) cs' = w" by (cases cs) auto
  show ?case
  proof (cases n)
    case 0
    with bal_shut.hyps have "w = []" by (auto elim: balanced.cases)
    with cs 0 show ?thesis by simp
  next
    case (Suc k)
    with bal_shut.IH [of cs' "Suc s"] cs show ?thesis by simp
  qed
next
  case (bal_nest c e b n w)
  then obtain cs' where cs: "cs = c # cs'" "take (length w) cs' = w" by (cases cs) auto
  with bal_nest.IH [of cs' "Suc s"] bal_nest.hyps show ?case by (simp add: add.commute)
next
  case (bal_other c e b n w)
  then obtain cs' where cs: "cs = c # cs'" "take (length w) cs' = w" by (cases cs) auto
  with bal_other.IH [of cs' "Suc s"] bal_other.hyps show ?case by simp
qed simp

lemma matchbalance_spec:
  assumes "p \<le> length pat" and "s \<le> src_end ms"
  shows "safe (\<lambda>r. p + 2 \<le> length pat \<and> (\<forall>s'. r = Some s' \<longleftrightarrow> balance_at (src ms) pat p s s'))
    (matchbalance ms pat s p)"
proof -
  let ?b = "at_or_nul pat p" and ?e = "at_or_nul pat (Suc p)" and ?c = "at_or_nul (src ms) s"
  let ?rest = "drop (Suc s) (src ms)"
  have b: "getc pat p = Ok ?b" and c: "getc (src ms) s = Ok ?c" using assms by (simp_all add: getc_at)
  show ?thesis
  proof (cases "?b = NUL")
    case True
    with b show ?thesis by (simp add: matchbalance_def)
  next
    case nb: False
    then have "p < length pat" by (rule at_or_nul_pos)
    then have e: "getc pat (Suc p) = Ok ?e" by (simp add: getc_at)
    show ?thesis
    proof (cases "?e = NUL")
      case True
      with b e nb show ?thesis by (simp add: matchbalance_def)
    next
      case ne: False
      then have l: "p + 2 \<le> length pat" using at_or_nul_pos [of pat "Suc p"] by simp
      show ?thesis
      proof (cases "?c = ?b")
        case False
        have "\<not> balance_at (src ms) pat p s s'" for s'
        proof
          assume "balance_at (src ms) pat p s s'"
          then have "s < src_end ms" "src ms ! s = ?b" using b by (auto simp: balance_at_def)
          with False show False by (simp add: at_or_nul_def)
        qed
        with b e c nb ne False l show ?thesis by (simp add: matchbalance_def)
      next
        case True
        then have s: "s < src_end ms" using nb at_or_nul_pos [of "src ms" s] by simp
        then have hd: "src ms ! s = ?b" using True by (simp add: at_or_nul_def)
        have "balance_loop ?b ?e ?rest (Suc s) 1 = Some s' \<longleftrightarrow> balance_at (src ms) pat p s s'" for s'
        proof
          assume "balance_loop ?b ?e ?rest (Suc s) 1 = Some s'"
          then obtain w where "balanced ?b ?e 1 w" "take (length w) ?rest = w" "s' = Suc s + length w"
            using balance_loop_sound [of ?b ?e ?rest "Suc s" 1] by auto
          with b e nb ne s hd show "balance_at (src ms) pat p s s'" unfolding balance_at_def by blast
        next
          assume "balance_at (src ms) pat p s s'"
          then obtain w where "balanced ?b ?e 1 w" "take (length w) ?rest = w" "s' = Suc s + length w"
            using b e by (auto simp: balance_at_def)
          with balance_loop_complete [of ?b ?e 1 w ?rest "Suc s"]
          show "balance_loop ?b ?e ?rest (Suc s) 1 = Some s'" by simp
        qed
        with b e c nb ne True l show ?thesis by (simp add: matchbalance_def)
      qed
    qed
  qed
qed

lemma balance_at_range: "balance_at subj pat p s s' \<Longrightarrow> s \<le> s' \<and> s' \<le> length subj"
proof -
  assume "balance_at subj pat p s s'"
  then obtain w where w: "take (length w) (drop (Suc s) subj) = w" "s < length subj" "s' = Suc s + length w"
    by (auto simp: balance_at_def)
  have "length (take (length w) (drop (Suc s) subj)) = length w" using w(1) by simp
  with w(2,3) show ?thesis by simp
qed

section \<open>A step of the matcher\<close>

locale matcher_step =
  fixes rec :: matcher and pat :: string and p0 :: nat
  assumes rec_decides: "wf_ms ms s \<Longrightarrow> p0 \<le> p \<Longrightarrow> p \<le> length pat \<Longrightarrow>
    decides ms s (pmatch (src ms) pat (caps ms) s p) (rec ms s p)"
begin

text \<open>A call further on in the subject.\<close>

lemma rec_at:
  assumes "wf_ms ms s" and "p0 \<le> p" and "p \<le> length pat" and "s \<le> s'" and "s' \<le> src_end ms"
  shows "decides ms s (pmatch (src ms) pat (caps ms) s' p) (rec ms s' p)"
  using decides_lower [OF rec_decides [OF wf_mono [OF assms(1,4,5)] assms(2,3)] assms(4)] .

lemma start_capture_decides:
  assumes wf: "wf_ms ms s" and item: "item_at pat p = Ok (Open what p')"
    and p': "p0 \<le> p'" "p' \<le> length pat" and what: "what = CAP_UNFINISHED \<or> what = CAP_POSITION"
  shows "decides ms s (pmatch (src ms) pat (caps ms) s p) (start_capture rec ms s p' what)"
proof (cases "LUA_MAXCAPTURES \<le> level ms")
  case True
  then show ?thesis by (simp add: start_capture_def)
next
  case False
  define ms1 where "ms1 = ms\<lparr>captures := (captures ms)[level ms := \<lparr>cap_init = s, cap_len = what\<rparr>],
                        level := Suc (level ms)\<rparr>"
  have len: "length (captures ms) = LUA_MAXCAPTURES" using wf by (simp add: wf_ms_def)
  have caps1: "caps ms1 = caps ms @ [\<lparr>cap_init = s, cap_len = what\<rparr>]"
    using False len by (simp add: caps_def ms1_def take_Suc_conv_app_nth)
  have src1: "src ms1 = src ms" by (simp add: ms1_def)
  have wf1: "wf_ms ms1 s"
    using wf False what unfolding wf_ms_def caps1 src1 by (auto simp: ms1_def cap_ok_def)
  have M: "pmatch (src ms) pat (caps ms) s p e cs \<longleftrightarrow> pmatch (src ms1) pat (caps ms1) s p' e cs" for e cs
    using pmatch_Open [OF item] length_caps [OF wf] False by (simp add: caps1 src1)
  have D: "decides ms1 s (pmatch (src ms1) pat (caps ms1) s p') (rec ms1 s p')"
    by (rule rec_decides [OF wf1 p'])
  have undone: "same ms (ms2\<lparr>level := level ms2 - 1\<rparr>)" if "same ms1 ms2" for ms2
  proof -
    have f: "level ms2 = Suc (level ms)" "length (captures ms2) = length (captures ms)" "src ms2 = src ms"
      using that by (simp_all add: same_def ms1_def)
    have "caps ms2 = caps ms1" using that by (simp add: same_def)
    then have "take (Suc (level ms)) (captures ms2) = caps ms @ [\<lparr>cap_init = s, cap_len = what\<rparr>]"
      unfolding caps1 by (simp add: caps_def [of ms2] f)
    moreover note f
    moreover have "take (level ms) (take (Suc (level ms)) (captures ms2)) = take (level ms) (captures ms2)"
      by (simp add: min_def)
    ultimately show ?thesis using length_caps [OF wf] by (simp add: same_def caps_def)
  qed
  have S: "start_capture rec ms s p' what = rbind (rec ms1 s p') (\<lambda>(res, ms2).
             case res of
               None \<Rightarrow> Ok (None, ms2\<lparr>level := level ms2 - 1\<rparr>)
             | Some e \<Rightarrow> Ok (Some e, ms2))"
    using False by (simp add: start_capture_def Let_def flip: ms1_def)
  show ?thesis
    using D unfolding decides_def S
    by (rule safe_bind) (auto simp: M src1 undone simp del: One_nat_def split: option.splits)
qed

lemma end_capture_decides:
  assumes wf: "wf_ms ms s" and item: "item_at pat p = Ok (Close p')"
    and p': "p0 \<le> p'" "p' \<le> length pat"
  shows "decides ms s (pmatch (src ms) pat (caps ms) s p) (end_capture rec ms s p')"
  unfolding end_capture_def decides_def
proof (rule safe_bind [OF capture_to_close_spec [OF wf]])
  fix l
  assume l: "last_open (caps ms) l"
  then have ll: "l < level ms" and open': "cap_len (caps ms ! l) = CAP_UNFINISHED"
    using length_caps [OF wf] by (simp_all add: last_open_def)
  have nth: "captures ms ! l = caps ms ! l" using nth_caps [OF wf ll] by simp
  define n where "n = int s - int (cap_init (captures ms ! l))"
  define ms1 where "ms1 = set_cap_len ms l n"
  have caps1: "caps ms1 = (caps ms)[l := (caps ms ! l)\<lparr>cap_len := n\<rparr>]"
    unfolding ms1_def by (rule set_cap_len_caps [OF wf ll])
  have "caps ms ! l \<in> set (caps ms)" using ll length_caps [OF wf] by simp
  then have "cap_ok (src_end ms) s (caps ms ! l)" using wf by (simp add: wf_ms_def)
  then have init: "cap_init (caps ms ! l) \<le> s" using open' by (simp add: cap_ok_def)
  have wf1: "wf_ms ms1 s"
  proof -
    have "cap_ok (src_end ms) s ((caps ms ! l)\<lparr>cap_len := n\<rparr>)"
      using init wf by (simp add: cap_ok_def n_def nth wf_ms_def)
    moreover have "set (caps ms1) \<subseteq> insert ((caps ms ! l)\<lparr>cap_len := n\<rparr>) (set (caps ms))"
      unfolding caps1 by (rule set_update_subset_insert)
    ultimately show ?thesis using wf by (auto simp: wf_ms_def ms1_def)
  qed
  have U: "last_open (caps ms) l' \<longleftrightarrow> l' = l" for l' using l last_open_unique by blast
  have src1: "src ms1 = src ms" by (simp add: ms1_def)
  have M: "pmatch (src ms) pat (caps ms) s p e cs \<longleftrightarrow> pmatch (src ms1) pat (caps ms1) s p' e cs" for e cs
    unfolding pmatch_Close [OF item] U caps1 src1 n_def nth by simp
  have undone: "same ms (set_cap_len ms2 l CAP_UNFINISHED)" if "same ms1 ms2" for ms2
  proof -
    have wf2: "wf_ms ms2 s" and lv: "level ms2 = level ms" and c2: "caps ms2 = caps ms1"
      and f: "src ms2 = src ms" "length (captures ms2) = length (captures ms)"
      using that same_wf [OF that wf1] by (simp_all add: same_def ms1_def)
    have "caps (set_cap_len ms2 l CAP_UNFINISHED) = (caps ms2)[l := (caps ms2 ! l)\<lparr>cap_len := CAP_UNFINISHED\<rparr>]"
      by (rule set_cap_len_caps [OF wf2]) (use ll lv in simp)
    also have "\<dots> = (caps ms)[l := (caps ms ! l)\<lparr>cap_len := CAP_UNFINISHED\<rparr>]"
      using ll length_caps [OF wf] by (simp add: c2 caps1)
    also have "(caps ms ! l)\<lparr>cap_len := CAP_UNFINISHED\<rparr> = caps ms ! l"
      using open' by (cases "caps ms ! l") simp
    finally show ?thesis using lv f by (simp add: same_def)
  qed
  have D: "decides ms1 s (pmatch (src ms1) pat (caps ms1) s p') (rec ms1 s p')"
    by (rule rec_decides [OF wf1 p'])
  show "safe (\<lambda>(res, ms'). case res of
       None \<Rightarrow> same ms ms' \<and> (\<forall>e cs. \<not> pmatch (src ms) pat (caps ms) s p e cs)
     | Some e \<Rightarrow> src ms' = src ms \<and> s \<le> e \<and> wf_ms ms' e \<and> pmatch (src ms) pat (caps ms) s p e (caps ms'))
    (rbind (rec (set_cap_len ms l (int s - int (cap_init (captures ms ! l)))) s p') (\<lambda>(res, ms2).
         case res of
           None \<Rightarrow> Ok (None, set_cap_len ms2 l CAP_UNFINISHED)
         | Some e \<Rightarrow> Ok (Some e, ms2)))"
    using D unfolding decides_def n_def [symmetric] ms1_def [symmetric]
    by (rule safe_bind) (auto simp: M undone src1 split: option.splits)
qed

end

end
