(* ===== verification/LuaPatternMatch.thy ===== *)
theory LuaPatternMatch
  imports LuaPatternCorrect
begin

text \<open>
  The repetitions and the remaining items of the matcher, the step as a whole, and the instance
  of \<open>matcher_step\<close> at every depth: \<open>match\<close> decides \<open>pmatch\<close>.
\<close>

section \<open>Repetition\<close>

lemma hit_range: "hit subj pat p ep i \<Longrightarrow> i < length subj"
  by (simp add: hit_def)

lemma count_run_spec:
  assumes "p < length pat" and "ep \<le> length pat"
  shows "\<exists>n. count_run ms pat s p ep i = Ok n \<and> i \<le> n
    \<and> (\<forall>j. i \<le> j \<longrightarrow> j < n \<longrightarrow> hit (src ms) pat p ep (s + j)) \<and> \<not> hit (src ms) pat p ep (s + n)"
  using assms
proof (induction ms pat s p ep i rule: count_run.induct)
  case (1 ms pat s p ep i)
  note here = match_here_hit [OF "1.prems", of ms "s + i"]
  note step = count_run.simps [of ms pat s p ep i]
  show ?case
  proof (cases "hit (src ms) pat p ep (s + i)")
    case True
    with "1.IH" [OF here] "1.prems" obtain n where
      n: "count_run ms pat s p ep (Suc i) = Ok n" "Suc i \<le> n" "\<not> hit (src ms) pat p ep (s + n)"
      and all: "\<forall>j. Suc i \<le> j \<longrightarrow> j < n \<longrightarrow> hit (src ms) pat p ep (s + j)" by blast
    have "hit (src ms) pat p ep (s + j)" if "i \<le> j" "j < n" for j
      using that all True by (cases "j = i") auto
    with n True here show ?thesis unfolding step by auto
  next
    case False
    with here show ?thesis unfolding step by auto
  qed
qed

text \<open>How far a repetition may go: from no occurrence to the longest run.\<close>

definition reps :: "string \<Rightarrow> string \<Rightarrow> nat \<Rightarrow> nat \<Rightarrow> nat \<Rightarrow> nat \<Rightarrow> bool" where
  "reps subj pat p ep s n \<longleftrightarrow> (\<forall>i < n. hit subj pat p ep (s + i))"

lemma reps_0 [simp]: "reps subj pat p ep s 0"
  by (simp add: reps_def)

lemma reps_Suc: "reps subj pat p ep s (Suc n) \<longleftrightarrow> hit subj pat p ep s \<and> reps subj pat p ep (Suc s) n"
  by (auto simp: reps_def less_Suc_eq_0_disj)

lemma reps_range: "reps subj pat p ep s n \<Longrightarrow> s \<le> length subj \<Longrightarrow> s + n \<le> length subj"
  using hit_range [of subj pat p ep "s + (n - 1)"] by (cases n) (auto simp: reps_def)

context matcher_step
begin

lemma try_down_decides:
  "wf_ms ms s \<Longrightarrow> s + i \<le> src_end ms \<Longrightarrow> p0 \<le> q \<Longrightarrow> q \<le> length pat \<Longrightarrow>
    decides ms s (\<lambda>e cs. \<exists>n \<le> i. pmatch (src ms) pat (caps ms) (s + n) q e cs) (try_down rec ms s q i)"
proof (induction i arbitrary: ms)
  case 0
  then show ?case using rec_decides [of ms s q] by simp
next
  case (Suc i)
  let ?M = "\<lambda>n. pmatch (src ms) pat (caps ms) (s + n) q"
  have first: "decides ms s (?M (Suc i)) (rec ms (s + Suc i) q)"
    by (rule rec_at) (use Suc.prems in simp_all)
  have rest: "decides ms' s (\<lambda>e cs. \<exists>n \<le> i. ?M n e cs) (try_down rec ms' s q i)" if "same ms ms'" for ms'
    using Suc.IH [OF same_wf [OF that Suc.prems(1)]] that Suc.prems by (simp add: same_def)
  have "decides ms s (\<lambda>e cs. ?M (Suc i) e cs \<or> (\<exists>n \<le> i. ?M n e cs)) (try_down rec ms s q (Suc i))"
    unfolding try_down.simps by (rule decides_or [OF first rest])
  then show ?case by (rule decides_cong) (auto simp: le_Suc_eq)
qed

lemma max_expand_decides:
  assumes wf: "wf_ms ms s" and p: "p < length pat" "p0 \<le> Suc ep" "Suc ep \<le> length pat"
  shows "decides ms s (\<lambda>e cs. \<exists>n. reps (src ms) pat p ep s n \<and>
      pmatch (src ms) pat (caps ms) (s + n) (Suc ep) e cs) (max_expand rec pat ms s p ep)"
proof -
  have s: "s \<le> src_end ms" using wf by (simp add: wf_ms_def)
  have ep: "ep \<le> length pat" using p(3) by simp
  obtain m where m: "count_run ms pat s p ep 0 = Ok m" "\<forall>j < m. hit (src ms) pat p ep (s + j)"
    "\<not> hit (src ms) pat p ep (s + m)"
    using count_run_spec [OF p(1) ep, of ms s 0] by auto
  then have R: "reps (src ms) pat p ep s n \<longleftrightarrow> n \<le> m" for n
    unfolding reps_def by (meson leI less_le_trans not_le)
  then have "s + m \<le> src_end ms" using reps_range s by blast
  from try_down_decides [OF wf this p(2,3)]
  show ?thesis unfolding R by (simp add: max_expand_def m)
qed

lemma min_loop_decides:
  "wf_ms ms s \<Longrightarrow> k = src_end ms - s \<Longrightarrow> p < length pat \<Longrightarrow> p0 \<le> Suc ep \<Longrightarrow> Suc ep \<le> length pat \<Longrightarrow>
    decides ms s (\<lambda>e cs. \<exists>n. reps (src ms) pat p ep s n \<and>
      pmatch (src ms) pat (caps ms) (s + n) (Suc ep) e cs) (min_loop rec pat p ep k ms s)"
proof (induction k arbitrary: ms s)
  case 0
  then have "s = src_end ms" by (simp add: wf_ms_def)
  then have "\<not> hit (src ms) pat p ep s" by (simp add: hit_def)
  then have R: "reps (src ms) pat p ep s n \<longleftrightarrow> n = 0" for n by (cases n) (simp_all add: reps_Suc)
  show ?case unfolding R using rec_decides [of ms s "Suc ep"] 0 by simp
next
  case (Suc k)
  let ?M = "\<lambda>s e cs. \<exists>n. reps (src ms) pat p ep s n \<and> pmatch (src ms) pat (caps ms) (s + n) (Suc ep) e cs"
  let ?h = "hit (src ms) pat p ep s"
  have first: "decides ms s (pmatch (src ms) pat (caps ms) s (Suc ep)) (rec ms s (Suc ep))"
    by (rule rec_decides) (use Suc.prems in simp_all)
  have rest: "decides ms' s (\<lambda>e cs. ?h \<and> ?M (Suc s) e cs)
      (rbind (match_here ms' pat s p ep) (\<lambda>m. if m then min_loop rec pat p ep k ms' (Suc s) else Ok (None, ms')))"
    if "same ms ms'" for ms'
  proof -
    have src: "src ms' = src ms" "caps ms' = caps ms" using that by (simp_all add: same_def)
    have wf': "wf_ms ms' s" by (rule same_wf [OF that Suc.prems(1)])
    have here: "match_here ms' pat s p ep = Ok ?h"
      using match_here_hit [of p pat ep ms' s] Suc.prems src by simp
    show ?thesis
    proof (cases ?h)
      case True
      then have "wf_ms ms' (Suc s)"
        using hit_range [OF True] wf' wf_mono [of ms' s "Suc s"] src by simp
      moreover have "k = src_end ms' - Suc s" using Suc.prems(2) src by simp
      ultimately have "decides ms' (Suc s) (?M (Suc s)) (min_loop rec pat p ep k ms' (Suc s))"
        using Suc.IH [of ms' "Suc s"] Suc.prems src by simp
      then have "decides ms' s (?M (Suc s)) (min_loop rec pat p ep k ms' (Suc s))"
        by (rule decides_lower) simp
      with True here show ?thesis by simp
    qed (simp add: here)
  qed
  have split: "?M s e cs \<longleftrightarrow> pmatch (src ms) pat (caps ms) s (Suc ep) e cs \<or> (?h \<and> ?M (Suc s) e cs)" for e cs
  proof
    assume "?M s e cs"
    then obtain n where n: "reps (src ms) pat p ep s n" "pmatch (src ms) pat (caps ms) (s + n) (Suc ep) e cs" by auto
    then show "pmatch (src ms) pat (caps ms) s (Suc ep) e cs \<or> (?h \<and> ?M (Suc s) e cs)"
      by (cases n) (auto simp: reps_Suc)
  next
    assume "pmatch (src ms) pat (caps ms) s (Suc ep) e cs \<or> (?h \<and> ?M (Suc s) e cs)"
    then show "?M s e cs"
    proof
      assume "?h \<and> ?M (Suc s) e cs"
      then obtain n where "reps (src ms) pat p ep s (Suc n)"
        "pmatch (src ms) pat (caps ms) (s + Suc n) (Suc ep) e cs" by (auto simp: reps_Suc)
      then show ?thesis by blast
    qed (intro exI [of _ 0]; simp)
  qed
  show ?case unfolding split min_loop.simps by (rule decides_or [OF first rest])
qed


section \<open>Single characters\<close>

lemma match_default_decides:
  assumes wf: "wf_ms ms s" and item: "item_at pat p = item_default pat p"
    and p: "p < length pat" "p0 \<le> Suc p"
  shows "decides ms s (pmatch (src ms) pat (caps ms) s p) (match_default rec pat ms s p)"
  unfolding match_default_def decides_def
proof (rule safe_bind [OF classend_safe [OF p(1)]], fold decides_def)
  fix ep
  assume ce: "classend pat p = Ok ep" and "p < ep \<and> ep \<le> length pat"
  then have ep: "p < ep" "ep \<le> length pat" "p0 \<le> ep" using p(2) by simp_all
  let ?c = "at_or_nul pat ep" and ?h = "hit (src ms) pat p ep s" and ?M = "pmatch (src ms) pat (caps ms)"
  have c: "getc pat ep = Ok ?c" using ep by (simp add: getc_at)
  have it: "item_at pat p = Ok (Item p ep ?c)" by (simp add: item item_default_def ce c)
  have here: "match_here ms pat s p ep = Ok ?h" by (rule match_here_hit [OF p(1) ep(2)])
  have more: "Suc ep \<le> length pat" if "?c \<noteq> NUL" using at_or_nul_pos [OF that] by simp
  have S: "s \<le> src_end ms" using wf by (simp add: wf_ms_def)
  have next_s: "decides ms s (?M (Suc s) q) (rec ms (Suc s) q)" if "?h" "p0 \<le> q" "q \<le> length pat" for q
    by (rule rec_at [OF wf that(2,3)]) (use hit_range [OF that(1)] in simp_all)
  note pm = pmatch_Repeat [OF it, folded reps_def]
  note here [simp] c [simp]
  consider (opt) "?c = CHR ''?''" | (star) "?c = CHR ''*''" | (plus) "?c = CHR ''+''"
    | (minus) "?c = CHR ''-''" | (one) "?c \<notin> set ''?*+-''" by auto
  then show "decides ms s (?M s p) (rbind (match_here ms pat s p ep) (\<lambda>m. rbind (getc pat ep) (\<lambda>c.
           if c = CHR ''?'' then
             if m then
               rbind (rec ms (Suc s) (Suc ep)) (\<lambda>(res, ms').
                 case res of Some e \<Rightarrow> Ok (Some e, ms') | None \<Rightarrow> rec ms' s (Suc ep))
             else rec ms s (Suc ep)
           else if c = CHR ''*'' then max_expand rec pat ms s p ep
           else if c = CHR ''+'' then
             if m then max_expand rec pat ms (Suc s) p ep else Ok (None, ms)
           else if c = CHR ''-'' then min_expand rec pat ms s p ep
           else if m then rec ms (Suc s) ep else Ok (None, ms))))"
  proof cases
    case opt
    have q: "p0 \<le> Suc ep" "Suc ep \<le> length pat" using more opt ep by simp_all
    have R: "?M s p e cs \<longleftrightarrow> (?h \<and> ?M (Suc s) (Suc ep) e cs) \<or> ?M s (Suc ep) e cs" for e cs
    proof -
      have "(n \<le> 1) \<longleftrightarrow> n = 0 \<or> n = Suc 0" for n :: nat by auto
      then have "?M s p e cs \<longleftrightarrow> (\<exists>n. (n = 0 \<or> n = Suc 0) \<and> reps (src ms) pat p ep s n \<and> ?M (s + n) (Suc ep) e cs)"
        using pm opt by (simp add: reps_def)
      also have "\<dots> \<longleftrightarrow> (?h \<and> ?M (Suc s) (Suc ep) e cs) \<or> ?M s (Suc ep) e cs"
        by (auto simp: reps_Suc)
      finally show ?thesis .
    qed
    have last: "decides ms' s (?M s (Suc ep)) (rec ms' s (Suc ep))" if "same ms ms'" for ms'
      using rec_decides [OF same_wf [OF that wf] q] that by (simp add: same_def)
    show ?thesis
    proof (cases ?h)
      case True
      from decides_or [OF next_s [OF True q] last] True show ?thesis unfolding R by (simp add: opt)
    next
      case False
      with last [of ms] show ?thesis unfolding R by (simp add: opt)
    qed
  next
    case star
    have q: "p0 \<le> Suc ep" "Suc ep \<le> length pat" using more star ep by simp_all
    have R: "?M s p = (\<lambda>e cs. \<exists>n. reps (src ms) pat p ep s n \<and> ?M (s + n) (Suc ep) e cs)"
      by (intro ext) (use pm star in simp)
    from max_expand_decides [OF wf p(1) q] show ?thesis unfolding R by (simp add: star)
  next
    case plus
    have q: "p0 \<le> Suc ep" "Suc ep \<le> length pat" using more plus ep by simp_all
    have R: "?M s p e cs \<longleftrightarrow> ?h \<and> (\<exists>n. reps (src ms) pat p ep (Suc s) n \<and> ?M (Suc s + n) (Suc ep) e cs)" for e cs
    proof -
      have "?M s p e cs \<longleftrightarrow> (\<exists>n \<ge> 1. reps (src ms) pat p ep s n \<and> ?M (s + n) (Suc ep) e cs)"
        using pm plus by (simp add: reps_def)
      also have "\<dots> \<longleftrightarrow> (\<exists>n. reps (src ms) pat p ep s (Suc n) \<and> ?M (s + Suc n) (Suc ep) e cs)"
        by (metis One_nat_def Suc_le_D le_add1 plus_1_eq_Suc)
      finally show ?thesis by (auto simp: reps_Suc)
    qed
    show ?thesis
    proof (cases ?h)
      case True
      have "decides ms (Suc s) (\<lambda>e cs. \<exists>n. reps (src ms) pat p ep (Suc s) n \<and> ?M (Suc s + n) (Suc ep) e cs)
          (max_expand rec pat ms (Suc s) p ep)"
        by (rule max_expand_decides [OF wf_mono [OF wf] p(1) q]) (use hit_range [OF True] in simp_all)
      then have "decides ms s (\<lambda>e cs. \<exists>n. reps (src ms) pat p ep (Suc s) n \<and> ?M (Suc s + n) (Suc ep) e cs)
          (max_expand rec pat ms (Suc s) p ep)"
        by (rule decides_lower) simp
      with True show ?thesis unfolding R by (simp add: plus)
    next
      case False
      then show ?thesis unfolding R by (simp add: plus)
    qed
  next
    case minus
    have q: "p0 \<le> Suc ep" "Suc ep \<le> length pat" using more minus ep by simp_all
    have R: "?M s p = (\<lambda>e cs. \<exists>n. reps (src ms) pat p ep s n \<and> ?M (s + n) (Suc ep) e cs)"
      by (intro ext) (use pm minus in simp)
    from min_loop_decides [OF wf refl p(1) q] show ?thesis
      unfolding R by (simp add: minus min_expand_def)
  next
    case one
    note R = pmatch_Single [OF it one]
    show ?thesis
    proof (cases ?h)
      case True
      with next_s [OF True ep(3,2)] one show ?thesis unfolding R by simp
    next
      case False
      with one show ?thesis unfolding R by simp
    qed
  qed
qed

section \<open>The other items\<close>

lemma match_frontier_decides:
  assumes wf: "wf_ms ms s" and item: "item_at pat p = Ok (Frontier q)"
    and q: "p0 \<le> Suc q" "q \<le> length pat"
  shows "decides ms s (pmatch (src ms) pat (caps ms) s p) (match_frontier rec pat ms s q)"
proof (cases "at_or_nul pat q = CHR ''[''")
  case False
  then show ?thesis using q by (simp add: match_frontier_def getc_at)
next
  case True
  then have lt: "q < length pat" using at_or_nul_pos [of pat q] by simp
  have c: "getc pat q = Ok (CHR ''['')" using True q by (simp add: getc_at)
  have s: "s \<le> src_end ms" using wf by (simp add: wf_ms_def)
  let ?prev = "if s = 0 then NUL else at_or_nul (src ms) (s - 1)" and ?cur = "at_or_nul (src ms) s"
  have prev: "(if s = 0 then Ok NUL else getc (src ms) (s - 1)) = Ok ?prev" using s by (simp add: getc_at)
  have cur: "getc (src ms) s = Ok ?cur" using s by (simp add: getc_at)
  show ?thesis unfolding match_frontier_def decides_def c rbind.simps prev cur
  proof (simp only: simp_thms if_False, rule safe_bind [OF classend_safe [OF lt]], fold decides_def)
    fix ep
    assume ce: "classend pat q = Ok ep" and "q < ep \<and> ep \<le> length pat"
    then have ep: "p0 \<le> ep" "ep \<le> length pat" using q by simp_all
    have pos: "Suc q \<le> length pat" "ep - 1 \<le> length pat" using lt ep by simp_all
    obtain m1 where m1: "matchbracketclass (code ?prev) pat q (ep - 1) = Ok m1"
      using matchbracketclass_safe [OF pos] by blast
    obtain m2 where m2: "matchbracketclass (code ?cur) pat q (ep - 1) = Ok m2"
      using matchbracketclass_safe [OF pos] by blast
    have F: "frontier_at (src ms) pat q s ep' \<longleftrightarrow> \<not> m1 \<and> m2 \<and> ep' = ep" for ep'
      using c ce m1 m2 by (auto simp: frontier_at_def)
    have R: "pmatch (src ms) pat (caps ms) s p e cs \<longleftrightarrow> \<not> m1 \<and> m2 \<and> pmatch (src ms) pat (caps ms) s ep e cs" for e cs
      unfolding pmatch_Frontier [OF item] F by blast
    show "decides ms s (pmatch (src ms) pat (caps ms) s p)
        (rbind (matchbracketclass (code ?prev) pat q (ep - 1)) (\<lambda>m1.
             if m1 then Ok (None, ms)
             else rbind (matchbracketclass (code ?cur) pat q (ep - 1)) (\<lambda>m2.
                 if \<not> m2 then Ok (None, ms) else rec ms s ep)))"
      using rec_decides [OF wf ep] m1 m2 unfolding R by (cases m1; cases m2) simp_all
  qed
qed

lemma balance_decides:
  assumes wf: "wf_ms ms s" and item: "item_at pat p = Ok (Balance q)"
    and q: "p0 \<le> q + 2" "q \<le> length pat"
  shows "decides ms s (pmatch (src ms) pat (caps ms) s p)
    (rbind (matchbalance ms pat s q) (\<lambda>r. case r of None \<Rightarrow> Ok (None, ms) | Some s' \<Rightarrow> rec ms s' (q + 2)))"
proof -
  have s: "s \<le> src_end ms" using wf by (simp add: wf_ms_def)
  show ?thesis unfolding decides_def
  proof (rule safe_bind [OF matchbalance_spec [OF q(2) s]], fold decides_def)
    fix r
    assume r: "q + 2 \<le> length pat \<and> (\<forall>s'. r = Some s' \<longleftrightarrow> balance_at (src ms) pat q s s')"
    have R: "pmatch (src ms) pat (caps ms) s p e cs \<longleftrightarrow>
        (\<exists>s'. r = Some s' \<and> pmatch (src ms) pat (caps ms) s' (q + 2) e cs)" for e cs
      unfolding pmatch_Balance [OF item] using r by simp
    show "decides ms s (pmatch (src ms) pat (caps ms) s p)
        (case r of None \<Rightarrow> Ok (None, ms) | Some s' \<Rightarrow> rec ms s' (q + 2))"
    proof (cases r)
      case (Some s')
      then have "s \<le> s'" "s' \<le> src_end ms" using r balance_at_range [of "src ms" pat q s s'] by auto
      then have "decides ms s (pmatch (src ms) pat (caps ms) s' (q + 2)) (rec ms s' (q + 2))"
        using rec_at [OF wf q(1), of s'] r by simp
      then show ?thesis unfolding R Some by simp
    qed (simp add: R)
  qed
qed

lemma back_ref_decides:
  assumes wf: "wf_ms ms s" and item: "item_at pat p = Ok (BackRef c q)"
    and q: "p0 \<le> q" "q \<le> length pat"
  shows "decides ms s (pmatch (src ms) pat (caps ms) s p)
    (rbind (match_capture ms s c) (\<lambda>r. case r of None \<Rightarrow> Ok (None, ms) | Some s' \<Rightarrow> rec ms s' q))"
  unfolding decides_def
proof (rule safe_bind [OF match_capture_spec [OF wf, of c]], fold decides_def)
  fix r
  let ?fits = "\<lambda>w. captured (src ms) (caps ms) c w \<and> take (length w) (drop s (src ms)) = w"
  assume R0: "(\<forall>w. captured (src ms) (caps ms) c w \<longrightarrow> take (length w) (drop s (src ms)) = w
        \<longrightarrow> r = Some (s + length w))
    \<and> (\<forall>e. r = Some e \<longrightarrow> e \<le> src_end ms \<and> (\<exists>w. captured (src ms) (caps ms) c w
        \<and> take (length w) (drop s (src ms)) = w \<and> e = s + length w))"
  have r: "?fits w \<Longrightarrow> r = Some (s + length w)"
    "r = Some e \<Longrightarrow> e \<le> src_end ms \<and> (\<exists>w. ?fits w \<and> e = s + length w)" for w e
    using R0 by simp_all
  have R: "pmatch (src ms) pat (caps ms) s p e cs \<longleftrightarrow>
      (\<exists>s'. r = Some s' \<and> pmatch (src ms) pat (caps ms) s' q e cs)" for e cs
  proof
    assume "pmatch (src ms) pat (caps ms) s p e cs"
    then obtain w where "?fits w" "pmatch (src ms) pat (caps ms) (s + length w) q e cs"
      unfolding pmatch_BackRef [OF item] by blast
    with r(1) show "\<exists>s'. r = Some s' \<and> pmatch (src ms) pat (caps ms) s' q e cs" by blast
  next
    assume "\<exists>s'. r = Some s' \<and> pmatch (src ms) pat (caps ms) s' q e cs"
    then obtain s' where s': "r = Some s'" "pmatch (src ms) pat (caps ms) s' q e cs" by blast
    from r(2) [OF s'(1)] obtain w where "?fits w" "s' = s + length w" by blast
    with s'(2) have "?fits w" "pmatch (src ms) pat (caps ms) (s + length w) q e cs" by simp_all
    then show "pmatch (src ms) pat (caps ms) s p e cs" unfolding pmatch_BackRef [OF item] by blast
  qed
  show "decides ms s (pmatch (src ms) pat (caps ms) s p)
      (case r of None \<Rightarrow> Ok (None, ms) | Some s' \<Rightarrow> rec ms s' q)"
  proof (cases r)
    case (Some s')
    then have "s' \<le> src_end ms" and "s \<le> s'" using r(2) [of s'] by auto
    from rec_at [OF wf q this(2,1)] Some show ?thesis unfolding R by simp
  qed (simp add: R)
qed

lemma match_body_decides:
  assumes wf: "wf_ms ms s" and p: "p0 \<le> Suc p" "p \<le> length pat"
  shows "decides ms s (pmatch (src ms) pat (caps ms) s p) (match_body rec pat ms s p)"
proof -
  let ?c = "at_or_nul pat p" and ?d = "at_or_nul pat (Suc p)"
  have c: "getc pat p = Ok ?c" using p by (simp add: getc_at)
  have lt: "Suc p \<le> length pat" if "?c \<noteq> NUL" using at_or_nul_pos [OF that] by simp
  have d: "getc pat (Suc p) = Ok ?d" if "?c \<noteq> NUL" using lt [OF that] by (rule getc_at)
  have lt2: "p + 2 \<le> length pat" if "?d \<noteq> NUL" using at_or_nul_pos [OF that] by simp
  have next_pos: "p0 \<le> p + 2" using p by simp
  show ?thesis
  proof (cases "?c = NUL")
    case True
    then have "item_at pat p = Ok End" "match_body rec pat ms s p = Ok (Some s, ms)"
      using c by (simp_all add: item_at_def match_body_def)
    then show ?thesis using wf by (simp add: decides_def pmatch_End)
  next
    case False
    note g = c d [OF False] and lt1 = lt [OF False]
    have plain: "decides ms s (pmatch (src ms) pat (caps ms) s p) (match_default rec pat ms s p)"
      if "item_at pat p = item_default pat p"
      by (rule match_default_decides [OF wf that]) (use lt1 p in simp_all)
    consider (op) "?c = CHR ''(''" | (cl) "?c = CHR '')''" | (esc) "?c = L_ESC" | (dollar) "?c = CHR ''$''"
      | (other) "?c \<notin> {CHR ''('', CHR '')'', L_ESC, CHR ''$'', NUL}" using False by auto
    then show ?thesis
    proof cases
      case op
      show ?thesis
      proof (cases "?d = CHR '')''")
        case True
        have "item_at pat p = Ok (Open CAP_POSITION (p + 2))" using g op True by (simp add: item_at_def)
        from start_capture_decides [OF wf this next_pos lt2] True op g show ?thesis
          by (simp add: match_body_def)
      next
        case no: False
        have "item_at pat p = Ok (Open CAP_UNFINISHED (Suc p))" using g op no by (simp add: item_at_def)
        from start_capture_decides [OF wf this p(1) lt1] no op g show ?thesis
          by (simp add: match_body_def)
      qed
    next
      case cl
      have "item_at pat p = Ok (Close (Suc p))" using g cl by (simp add: item_at_def)
      from end_capture_decides [OF wf this p(1) lt1] cl g show ?thesis by (simp add: match_body_def)
    next
      case esc
      consider (b) "?d = CHR ''b''" | (f) "?d = CHR ''f''" | (digit) "isdigit (code ?d)"
          "?d \<noteq> CHR ''b''" "?d \<noteq> CHR ''f''"
        | (no) "?d \<noteq> CHR ''b''" "?d \<noteq> CHR ''f''" "\<not> isdigit (code ?d)" by blast
      then show ?thesis
      proof cases
        case b
        have it: "item_at pat p = Ok (Balance (p + 2))" using g esc b by (simp add: item_at_def)
        have l: "p + 2 \<le> length pat" using lt2 b by simp
        have "p + 2 + 2 = p + 4" by simp
        with balance_decides [OF wf it _ l] p esc b g show ?thesis
          by (simp only: match_body_def rbind.simps) simp
      next
        case f
        have it: "item_at pat p = Ok (Frontier (p + 2))" using g esc f by (simp add: item_at_def)
        have l: "p + 2 \<le> length pat" using lt2 f by simp
        from match_frontier_decides [OF wf it _ l] p esc f g show ?thesis by (simp add: match_body_def)
      next
        case digit
        have it: "item_at pat p = Ok (BackRef ?d (p + 2))" using g esc digit by (simp add: item_at_def)
        have "?d \<noteq> NUL" using digit by (auto simp: isdigit_def code_def)
        note D = back_ref_decides [OF wf it next_pos lt2 [OF this]]
        have "match_body rec pat ms s p = rbind (match_capture ms s ?d)
            (\<lambda>r. case r of None \<Rightarrow> Ok (None, ms) | Some s' \<Rightarrow> rec ms s' (p + 2))"
          using esc digit g by (simp add: match_body_def cong: option.case_cong)
        with D show ?thesis by (simp only:)
      next
        case no
        then have "item_at pat p = item_default pat p" using g esc by (simp add: item_at_def)
        from plain [OF this] no esc g show ?thesis by (simp add: match_body_def)
      qed
    next
      case dollar
      show ?thesis
      proof (cases "?d = NUL")
        case True
        then have "item_at pat p = Ok AnchorEnd" using g dollar by (simp add: item_at_def)
        moreover have "match_body rec pat ms s p = Ok (if s = src_end ms then Some s else None, ms)"
          using True dollar g by (simp add: match_body_def)
        ultimately show ?thesis using wf by (cases "s = src_end ms") (simp_all add: decides_def pmatch_AnchorEnd)
      next
        case no: False
        then have "item_at pat p = item_default pat p" using g dollar by (simp add: item_at_def)
        from plain [OF this] no dollar g show ?thesis by (simp add: match_body_def)
      qed
    next
      case other
      then have "item_at pat p = item_default pat p" using g by (simp add: item_at_def)
      from plain [OF this] other g show ?thesis by (simp add: match_body_def)
    qed
  qed
qed

end

section \<open>Every depth\<close>

lemma match_depth_decides:
  "wf_ms ms s \<Longrightarrow> Suc (length pat) - f \<le> p \<Longrightarrow> p \<le> length pat \<Longrightarrow>
    decides ms s (pmatch (src ms) pat (caps ms) s p) (match_depth f pat ms s p)"
proof (induction f arbitrary: ms s p)
  case (Suc f)
  have step: "matcher_step (match_depth f pat) pat (Suc (length pat) - f)"
    by unfold_locales (rule Suc.IH)
  show ?case
    using matcher_step.match_body_decides [OF step Suc.prems(1) _ Suc.prems(3)] Suc.prems(2) by simp
qed simp

interpretation md: matcher_step "match_depth f pat" pat "Suc (length pat) - f" for f pat
  by unfold_locales (rule match_depth_decides)

lemma match_decides:
  assumes "wf_ms ms s" and "p \<le> length pat"
  shows "decides ms s (pmatch (src ms) pat (caps ms) s p) (match pat ms s p)"
  using md.match_body_decides [OF assms(1) _ assms(2), of "length pat"] by (simp add: match_def)

end
