(* ===== verification/LuaStrlibSpec.thy ===== *)
theory LuaStrlibSpec
  imports LuaStrlib LuaPatternMatch
begin

text \<open>
  The searches of the string library against their specifications: the first occurrence of a
  string, and the leftmost match of a pattern.
\<close>

section \<open>The first position\<close>

text \<open>\<open>r\<close> is the first position from \<open>pos\<close> on where \<open>P\<close> holds.\<close>

definition first_at :: "(nat \<Rightarrow> bool) \<Rightarrow> nat \<Rightarrow> nat option \<Rightarrow> bool" where
  "first_at P pos r \<longleftrightarrow> (case r of
       None \<Rightarrow> \<forall>j. pos \<le> j \<longrightarrow> \<not> P j
     | Some i \<Rightarrow> pos \<le> i \<and> P i \<and> (\<forall>j. pos \<le> j \<longrightarrow> j < i \<longrightarrow> \<not> P j))"

lemma first_at_None: "(\<And>j. pos \<le> j \<Longrightarrow> \<not> P j) \<Longrightarrow> first_at P pos None"
  by (simp add: first_at_def)

lemma first_at_Some:
  "pos \<le> i \<Longrightarrow> P i \<Longrightarrow> (\<And>j. pos \<le> j \<Longrightarrow> j < i \<Longrightarrow> \<not> P j) \<Longrightarrow> first_at P pos (Some i)"
  by (simp add: first_at_def)

lemma first_at_skip:
  assumes "first_at P q r" and "pos \<le> q" and "\<And>j. pos \<le> j \<Longrightarrow> j < q \<Longrightarrow> \<not> P j"
  shows "first_at P pos r"
  using assms unfolding first_at_def by (auto split: option.splits) (metis leI)+

lemma first_at_unique: "first_at P pos r \<Longrightarrow> first_at P pos r' \<Longrightarrow> r = r'"
  by (auto simp: first_at_def split: option.splits) (metis linorder_neqE_nat)

section \<open>Plain search\<close>

definition occurs_at :: "string \<Rightarrow> string \<Rightarrow> nat \<Rightarrow> bool" where
  "occurs_at w s i \<longleftrightarrow> i + length w \<le> length s \<and> take (length w) (drop i s) = w"

lemma occurs_at_Cons:
  "occurs_at (c # w) s i \<longleftrightarrow>
    i + length w < length s \<and> s ! i = c \<and> take (length w) (drop (Suc i) s) = w"
proof (cases "i < length s")
  case True
  then have "drop i s = s ! i # drop (Suc i) s" by (simp add: Cons_nth_drop_Suc)
  then show ?thesis by (auto simp: occurs_at_def)
qed (auto simp: occurs_at_def)

lemma lmemfind_loop_spec:
  assumes "pos + l1 + length rest = length s"
  shows "first_at (occurs_at (c # rest) s) pos (lmemfind_loop s c rest pos l1)"
  using assms
proof (induction s c rest pos l1 rule: lmemfind_loop.induct)
  case (1 s c rest pos l1)
  note step = lmemfind_loop.simps [of s c rest pos l1]
  let ?w = "take l1 (drop pos s)"
  have w: "?w ! k = s ! (pos + k)" "pos + k < length s" if "k < l1" for k
    using that "1.prems" by simp_all
  show ?case
  proof (cases "memchr ?w c")
    case None
    then have none: "s ! (pos + k) \<noteq> c" if "k < l1" for k
    proof -
      have "?w ! k \<in> set ?w" using that "1.prems" by (intro nth_mem) simp
      with None w that show ?thesis by (metis memchr_None)
    qed
    have "\<not> occurs_at (c # rest) s j" if "pos \<le> j" for j
    proof
      assume o: "occurs_at (c # rest) s j"
      then have "j + length rest < length s" by (simp add: occurs_at_Cons)
      then have "j - pos < l1" using that "1.prems" by arith
      from none [OF this] o that show False by (simp add: occurs_at_Cons)
    qed
    then show ?thesis unfolding step by (simp add: None first_at_None)
  next
    case (Some k)
    from memchr_Some [OF Some] have k: "k < l1" "s ! (pos + k) = c" "\<forall>j < k. s ! (pos + j) \<noteq> c"
      using w by auto
    have early: "\<not> occurs_at (c # rest) s j" if "pos \<le> j" "j < pos + k" for j
      using k(3) that by (auto simp: occurs_at_Cons dest!: spec [of _ "j - pos"])
    have here: "occurs_at (c # rest) s (pos + k) \<longleftrightarrow> take (length rest) (drop (pos + k + 1) s) = rest"
      using k "1.prems" by (simp add: occurs_at_Cons)
    show ?thesis
    proof (cases "take (length rest) (drop (pos + k + 1) s) = rest")
      case True
      then have "lmemfind_loop s c rest pos l1 = Some (pos + k)" unfolding step using Some k(1) by simp
      with True early here show ?thesis by (auto intro: first_at_Some)
    next
      case False
      have "l1 \<noteq> 0" using k(1) by simp
      moreover have "pos + k + 1 + (l1 - (k + 1)) + length rest = length s" using k "1.prems" by simp
      ultimately have IH: "first_at (occurs_at (c # rest) s) (pos + k + 1)
          (lmemfind_loop s c rest (pos + k + 1) (l1 - (k + 1)))"
        by (rule "1.IH" [OF _ Some False])
      have skip: "\<not> occurs_at (c # rest) s j" if "pos \<le> j" "j < pos + k + 1" for j
        using that early here False by (cases "j = pos + k") auto
      have "lmemfind_loop s c rest pos l1 = lmemfind_loop s c rest (pos + k + 1) (l1 - (k + 1))"
        unfolding step using Some False k(1) by simp
      with first_at_skip [OF IH _ skip] show ?thesis by simp
    qed
  qed
qed

lemma lmemfind_spec:
  assumes "pos \<le> length s"
  shows "first_at (occurs_at w s) pos (lmemfind s pos w)"
proof (cases w)
  case Nil
  with assms show ?thesis by (simp add: occurs_at_def first_at_def)
next
  case w: (Cons c rest)
  show ?thesis
  proof (cases "length s - pos < length w")
    case True
    then have "lmemfind s pos w = None" using w by simp
    moreover have "\<not> occurs_at w s j" if "pos \<le> j" for j
      using True that by (auto simp: occurs_at_def)
    ultimately show ?thesis by (simp add: first_at_None)
  next
    case False
    then have "pos + (length s - pos - length rest) + length rest = length s" using w assms by simp
    from lmemfind_loop_spec [OF this, of c] False w show ?thesis by (simp add: Let_def)
  qed
qed

section \<open>Searching with the matcher\<close>

text \<open>The state a search hands to the matcher.\<close>

definition base_ok :: "MatchState \<Rightarrow> bool" where
  "base_ok ms \<longleftrightarrow> length (captures ms) = LUA_MAXCAPTURES \<and> int (src_end ms) < 2 ^ 63"

lemma base_wf: "base_ok ms \<Longrightarrow> s \<le> src_end ms \<Longrightarrow> wf_ms (ms\<lparr>level := 0\<rparr>) s"
  by (simp add: base_ok_def wf_ms_def caps_def)

lemma wf_base: "wf_ms ms s \<Longrightarrow> base_ok ms"
  by (simp add: base_ok_def wf_ms_def)

lemma base_new: "int (length s) < 2 ^ 63 \<Longrightarrow> base_ok (new_state s)"
  by (simp add: base_ok_def new_state_def)

lemma new_state_src [simp]: "src (new_state s) = s"
  by (simp add: new_state_def)

text \<open>A match of the pattern from \<open>p\<close> on, at \<open>i\<close>.\<close>

abbreviation pat_matches :: "string \<Rightarrow> string \<Rightarrow> nat \<Rightarrow> nat \<Rightarrow> nat \<Rightarrow> capture list \<Rightarrow> bool" where
  "pat_matches s pat p i e cs \<equiv> pmatch s pat [] i p e cs"

lemma match_level0:
  assumes "base_ok ms" and "s \<le> src_end ms" and "p \<le> length pat"
  shows "safe (\<lambda>(res, ms').
     case res of
       None \<Rightarrow> base_ok ms' \<and> src ms' = src ms \<and> (\<forall>e cs. \<not> pat_matches (src ms) pat p s e cs)
     | Some e \<Rightarrow> base_ok ms' \<and> src ms' = src ms \<and> s \<le> e \<and> e \<le> src_end ms \<and> wf_ms ms' e
         \<and> pat_matches (src ms) pat p s e (caps ms')) (match pat (ms\<lparr>level := 0\<rparr>) s p)"
proof -
  have wf: "wf_ms (ms\<lparr>level := 0\<rparr>) s" by (rule base_wf [OF assms(1,2)])
  have "caps (ms\<lparr>level := 0\<rparr>) = []" by (simp add: caps_def)
  with match_decides [OF wf assms(3)] same_wf [OF _ wf] show ?thesis
    unfolding decides_def
    by (auto elim!: safe_mono split: option.splits simp: same_def wf_ms_def base_ok_def)
qed

text \<open>
  What a search returns: the leftmost start at or after \<open>s1\<close> where the pattern matches (only
  \<open>s1\<close> when it is anchored), with an end and captures the pattern allows there.
\<close>

definition starts_at :: "string \<Rightarrow> string \<Rightarrow> nat \<Rightarrow> nat \<Rightarrow> bool" where
  "starts_at s pat p i \<longleftrightarrow> i \<le> length s \<and> (\<exists>e cs. pat_matches s pat p i e cs)"

definition search_result :: "string \<Rightarrow> string \<Rightarrow> nat \<Rightarrow> bool \<Rightarrow> nat \<Rightarrow> (nat \<times> nat \<times> MatchState) option \<Rightarrow> bool" where
  "search_result s pat p anchor s1 r \<longleftrightarrow>
     first_at (\<lambda>i. starts_at s pat p i \<and> (anchor \<longrightarrow> i = s1)) s1 (map_option fst r)
   \<and> (\<forall>i e ms. r = Some (i, e, ms) \<longrightarrow> i \<le> e \<and> e \<le> length s \<and> src ms = s \<and> wf_ms ms e
        \<and> pat_matches s pat p i e (caps ms))"

lemma search_here:
  assumes "pat_matches s pat p s1 e (caps ms)" and "s1 \<le> e" and "e \<le> length s" and "src ms = s" and "wf_ms ms e"
  shows "search_result s pat p anchor s1 (Some (s1, e, ms))"
  using assms by (auto simp: search_result_def first_at_def starts_at_def)

lemma search_skip:
  assumes "search_result s pat p False (Suc s1) r" and "\<And>e cs. \<not> pat_matches s pat p s1 e cs"
  shows "search_result s pat p False s1 r"
  using assms first_at_skip [of _ "Suc s1" "map_option fst r" s1]
  by (auto simp: search_result_def starts_at_def le_less_Suc_eq)

lemma search_none:
  assumes "\<And>e cs. \<not> pat_matches s pat p s1 e cs" and "length s \<le> s1 \<or> anchor"
  shows "search_result s pat p anchor s1 None"
proof -
  have "\<not> (starts_at s pat p j \<and> (anchor \<longrightarrow> j = s1))" if "s1 \<le> j" for j
    using that assms by (cases "j = s1") (auto simp: starts_at_def)
  then show ?thesis by (simp add: search_result_def first_at_None)
qed

lemma find_loop_spec:
  "base_ok ms \<Longrightarrow> s1 \<le> src_end ms \<Longrightarrow> p \<le> length pat \<Longrightarrow>
    safe (search_result (src ms) pat p anchor s1) (find_loop pat p anchor ms s1)"
proof (induction "src_end ms - s1" arbitrary: ms s1)
  case (0 ms s1)
  show ?case
  proof (subst find_loop.simps, rule safe_bind [OF match_level0 [OF "0.prems"]], clarify)
    fix res ms'
    assume A: "case res of
         None \<Rightarrow> base_ok ms' \<and> src ms' = src ms \<and> (\<forall>e cs. \<not> pat_matches (src ms) pat p s1 e cs)
       | Some e \<Rightarrow> base_ok ms' \<and> src ms' = src ms \<and> s1 \<le> e \<and> e \<le> src_end ms \<and> wf_ms ms' e
         \<and> pat_matches (src ms) pat p s1 e (caps ms')"
    show "safe (search_result (src ms) pat p anchor s1) (case res of
         Some e \<Rightarrow> Ok (Some (s1, e, ms'))
       | None \<Rightarrow> if s1 < src_end ms \<and> \<not> anchor then find_loop pat p anchor (ms'\<lparr>src := src ms\<rparr>) (Suc s1)
           else Ok None)"
      using A 0 by (auto split: option.splits intro!: search_here search_none)
  qed
next
  case (Suc k ms s1)
  show ?case
  proof (subst find_loop.simps, rule safe_bind [OF match_level0 [OF Suc.prems]], clarify)
    fix res ms'
    assume A: "case res of
         None \<Rightarrow> base_ok ms' \<and> src ms' = src ms \<and> (\<forall>e cs. \<not> pat_matches (src ms) pat p s1 e cs)
       | Some e \<Rightarrow> base_ok ms' \<and> src ms' = src ms \<and> s1 \<le> e \<and> e \<le> src_end ms \<and> wf_ms ms' e
         \<and> pat_matches (src ms) pat p s1 e (caps ms')"
    let ?ms = "ms'\<lparr>src := src ms\<rparr>"
    have next_s: "safe (search_result (src ms) pat p False s1) (find_loop pat p False ?ms (Suc s1))"
      if "base_ok ms'" "src ms' = src ms" "\<forall>e cs. \<not> pat_matches (src ms) pat p s1 e cs" "\<not> anchor"
    proof -
      have "base_ok ?ms" using that by (simp add: base_ok_def)
      moreover have "k = src_end ?ms - Suc s1" "Suc s1 \<le> src_end ?ms" using Suc by simp_all
      ultimately have "safe (search_result (src ms) pat p False (Suc s1)) (find_loop pat p False ?ms (Suc s1))"
        using Suc.hyps(1) [of ?ms "Suc s1"] Suc.prems(3) that(4) by simp
      then show ?thesis by (rule safe_mono) (rule search_skip, use that(3) in auto)
    qed
    show "safe (search_result (src ms) pat p anchor s1) (case res of
         Some e \<Rightarrow> Ok (Some (s1, e, ms'))
       | None \<Rightarrow> if s1 < src_end ms \<and> \<not> anchor then find_loop pat p anchor (ms'\<lparr>src := src ms\<rparr>) (Suc s1)
           else Ok None)"
      using A next_s by (auto split: option.splits intro!: search_here search_none)
  qed
qed

lemma gmatch_loop_spec:
  "base_ok ms \<Longrightarrow> safe (search_result (src ms) pat 0 False s1) (gmatch_loop pat ms s1)"
proof (induction "Suc (src_end ms) - s1" arbitrary: ms s1)
  case 0
  then show ?case
    by (subst gmatch_loop.simps) (auto simp: search_result_def starts_at_def intro: first_at_None)
next
  case (Suc k ms s1)
  then have s1: "s1 \<le> src_end ms" by simp
  then have step: "gmatch_loop pat ms s1 = rbind (match pat (ms\<lparr>level := 0\<rparr>) s1 0) (\<lambda>(res, ms').
          case res of
            Some e \<Rightarrow> Ok (Some (s1, e, ms'))
          | None \<Rightarrow> gmatch_loop pat (ms'\<lparr>src := src ms\<rparr>) (Suc s1))"
    by (subst gmatch_loop.simps) simp
  show ?case unfolding step
  proof (rule safe_bind [OF match_level0 [OF Suc.prems s1]], simp, clarify)
    fix res ms'
    assume A: "case res of
         None \<Rightarrow> base_ok ms' \<and> src ms' = src ms \<and> (\<forall>e cs. \<not> pat_matches (src ms) pat 0 s1 e cs)
       | Some e \<Rightarrow> base_ok ms' \<and> src ms' = src ms \<and> s1 \<le> e \<and> e \<le> src_end ms \<and> wf_ms ms' e
         \<and> pat_matches (src ms) pat 0 s1 e (caps ms')"
    let ?ms = "ms'\<lparr>src := src ms\<rparr>"
    have next_s: "safe (search_result (src ms) pat 0 False s1) (gmatch_loop pat ?ms (Suc s1))"
      if "base_ok ms'" "src ms' = src ms" "\<forall>e cs. \<not> pat_matches (src ms) pat 0 s1 e cs"
    proof -
      have "base_ok ?ms" using that by (simp add: base_ok_def)
      moreover have "k = Suc (src_end ?ms) - Suc s1" using Suc by simp
      ultimately have "safe (search_result (src ms) pat 0 False (Suc s1)) (gmatch_loop pat ?ms (Suc s1))"
        using Suc.hyps(1) [of ?ms "Suc s1"] by simp
      then show ?thesis by (rule safe_mono) (rule search_skip, use that(3) in auto)
    qed
    show "safe (search_result (src ms) pat 0 False s1) (case res of
            Some e \<Rightarrow> Ok (Some (s1, e, ms'))
          | None \<Rightarrow> gmatch_loop pat (ms'\<lparr>src := src ms\<rparr>) (Suc s1))"
      using A next_s by (auto split: option.splits intro!: search_here)
  qed
qed

section \<open>Captures\<close>

text \<open>What Lua gets for a capture.\<close>

definition capture_value :: "string \<Rightarrow> capture \<Rightarrow> lval" where
  "capture_value s c =
     (if cap_len c = CAP_POSITION then PInt (int (cap_init c) + 1)
      else PStr (take (nat (cap_len c)) (drop (cap_init c) s)))"

lemma lstring_at_ok: "s \<le> e \<Longrightarrow> e \<le> length str \<Longrightarrow>
    lstring_at str (int s) (int e - int s) = Ok (take (e - s) (drop s str))"
  by (simp add: lstring_at_def nat_diff_distrib)

lemma push_onecapture_spec:
  assumes wf: "wf_ms ms e" and i: "i < level ms"
  shows "safe (\<lambda>v. v = capture_value (src ms) (caps ms ! i)) (push_onecapture ms i whole)"
proof -
  have nth: "captures ms ! i = caps ms ! i" using nth_caps [OF wf i] by simp
  have "caps ms ! i \<in> set (caps ms)" using i length_caps [OF wf] by simp
  then have "cap_ok (src_end ms) e (caps ms ! i)" using wf by (simp add: wf_ms_def)
  with i show ?thesis
    by (auto simp: push_onecapture_def nth Let_def lstring_at_def capture_value_def cap_ok_def)
qed

lemma push_list_spec:
  assumes wf: "wf_ms ms e"
  shows "set is \<subseteq> {..<level ms} \<Longrightarrow>
    safe (\<lambda>vs. vs = map (\<lambda>i. capture_value (src ms) (caps ms ! i)) is) (push_list ms whole is)"
proof (induction "is")
  case (Cons i "is")
  then have "i < level ms" by simp
  show ?case unfolding push_list.simps
    by (rule safe_bind [OF push_onecapture_spec [OF wf \<open>i < level ms\<close>]], rule safe_bind [OF Cons.IH])
       (use Cons.prems in simp_all)
qed simp

text \<open>The captures, or the whole match when there are none.\<close>

definition match_values :: "string \<Rightarrow> (nat \<times> nat) option \<Rightarrow> capture list \<Rightarrow> lval list" where
  "match_values s whole cs =
     (case (cs, whole) of
        ([], Some (i, e)) \<Rightarrow> [PStr (take (e - i) (drop i s))]
      | _ \<Rightarrow> map (capture_value s) cs)"

lemma push_captures_spec:
  assumes wf: "wf_ms ms e" and whole: "\<And>i j. whole = Some (i, j) \<Longrightarrow> i \<le> j \<and> j \<le> src_end ms"
  shows "safe (\<lambda>vs. vs = match_values (src ms) whole (caps ms)) (push_captures used ms whole)"
proof -
  have len: "length (caps ms) = level ms" by (rule length_caps [OF wf])
  show ?thesis
  proof (cases "level ms = 0 \<and> whole \<noteq> None")
    case True
    then obtain i j where w: "whole = Some (i, j)" by auto
    with True whole [OF w] len show ?thesis
      by (simp add: push_captures_def luaL_checkstack_def push_onecapture_def lstring_at_ok match_values_def)
  next
    case False
    then have "push_captures used ms whole =
        rbind (luaL_checkstack used (int (level ms)) ''too many captures'') (\<lambda>_. push_list ms whole [0..<level ms])"
      by (auto simp: push_captures_def Let_def)
    moreover have "map (\<lambda>i. capture_value (src ms) (caps ms ! i)) [0..<level ms] = match_values (src ms) whole (caps ms)"
    proof -
      have "map (\<lambda>i. capture_value (src ms) (caps ms ! i)) [0..<level ms] = map (capture_value (src ms)) (caps ms)"
        by (rule nth_equalityI) (simp_all add: len)
      with False len show ?thesis by (auto simp: match_values_def split: option.splits list.splits)
    qed
    moreover have "set [0..<level ms] \<subseteq> {..<level ms}" by auto
    note push_list_spec [OF wf this, of whole]
    ultimately show ?thesis by (simp add: luaL_checkstack_def)
  qed
qed

end
