(* ===== verification/LuaGsubSpec.thy ===== *)
theory LuaGsubSpec
  imports LuaGsub LuaStrlibSpec
begin

text \<open>
  \<open>string.gsub\<close> moves forward in every iteration and copies what it does not replace; the
  forms of \<open>string.format\<close> fit their buffers.
\<close>

section \<open>gsub\<close>

text \<open>A replacement whose Lua code returns or raises an error.\<close>

definition repl_safe :: "'st repl \<Rightarrow> bool" where
  "repl_safe repl \<longleftrightarrow>
     (case repl of
        RFun f \<Rightarrow> \<forall>st vs. safe (\<lambda>_. True) (f st vs)
      | RTab g \<Rightarrow> \<forall>st v. safe (\<lambda>_. True) (g st v)
      | _ \<Rightarrow> True)"

section \<open>What gsub promises\<close>

text \<open>
  The replacement string with the captures put in: \<open>whole\<close> is the match and \<open>vs\<close> are its values.
\<close>

fun expand :: "(int \<Rightarrow> string) \<Rightarrow> string \<Rightarrow> lval list \<Rightarrow> string \<Rightarrow> string" where
  "expand fmt whole vs [] = []"
| "expand fmt whole vs [c] = (if c = L_ESC then [NUL] else [c])"
| "expand fmt whole vs (c # d # r) =
     (if c \<noteq> L_ESC then c # expand fmt whole vs (d # r)
      else (if \<not> isdigit (code d) then [d]
            else if d = CHR ''0'' then whole
            else the (lua_tolstring fmt (vs ! nat (code d - code (CHR ''1''))))) @ expand fmt whole vs r)"

text \<open>What a call of a function or a look-up in a table gives: the match stays when it is nil or false.\<close>

definition kept_or :: "(int \<Rightarrow> string) \<Rightarrow> string \<Rightarrow> lval \<Rightarrow> string \<Rightarrow> bool" where
  "kept_or fmt whole v w \<longleftrightarrow> (if v = PNil \<or> v = PBool False then w = whole else lua_tolstring fmt v = Some w)"

text \<open>\<open>w\<close> replaces the match from \<open>a\<close> to \<open>e\<close> with the captures \<open>cs\<close>.\<close>

fun replaces :: "(int \<Rightarrow> string) \<Rightarrow> 'st repl \<Rightarrow> string \<Rightarrow> nat \<Rightarrow> nat \<Rightarrow> capture list \<Rightarrow> 'st \<Rightarrow> string \<Rightarrow> 'st \<Rightarrow> bool" where
  "replaces fmt (RStr news) subj a e cs st w st' =
     (st' = st \<and> w = expand fmt (take (e - a) (drop a subj)) (match_values subj (Some (a, e)) cs) news)"
| "replaces fmt (RFun f) subj a e cs st w st' =
     (\<exists>v. f st (match_values subj (Some (a, e)) cs) = Ok (v, st') \<and> kept_or fmt (take (e - a) (drop a subj)) v w)"
| "replaces fmt (RTab g) subj a e cs st w st' =
     (\<exists>v. g st (hd (match_values subj (Some (a, e)) cs)) = Ok (v, st') \<and> kept_or fmt (take (e - a) (drop a subj)) v w)"
| "replaces fmt ROther subj a e cs st w st' = False"

text \<open>
  A substitution is a match, where it begins and ends, and its replacement. \<open>weave\<close> is the
  subject from \<open>i\<close> on with the substitutions made and all other bytes kept.
\<close>

type_synonym subst = "nat \<times> nat \<times> string"

fun weave :: "string \<Rightarrow> nat \<Rightarrow> subst list \<Rightarrow> string" where
  "weave subj i [] = drop i subj"
| "weave subj i ((a, e, w) # xs) = take (a - i) (drop i subj) @ w @ weave subj e xs"

text \<open>
  The substitutions from \<open>lo\<close> on, when at most \<open>k\<close> are made: each at the leftmost place where the pattern
  matches, the next after its end, or one further when it was empty; they end when there are \<open>k\<close>
  or no match is left. An anchored pattern is tried once.
\<close>

inductive substs :: "(int \<Rightarrow> string) \<Rightarrow> 'st repl \<Rightarrow> string \<Rightarrow> string \<Rightarrow> nat \<Rightarrow> bool \<Rightarrow> int \<Rightarrow> nat \<Rightarrow> 'st \<Rightarrow> subst list \<Rightarrow> 'st \<Rightarrow> bool"
  for fmt repl subj pat p anchor where
  enough: "k \<le> 0 \<Longrightarrow> substs fmt repl subj pat p anchor k lo st [] st"
| no_more: "(\<And>j e cs. lo \<le> j \<Longrightarrow> j \<le> length subj \<Longrightarrow> (anchor \<Longrightarrow> j = lo) \<Longrightarrow> \<not> pat_matches subj pat p j e cs) \<Longrightarrow>
    substs fmt repl subj pat p anchor k lo st [] st"
| replace: "0 < k \<Longrightarrow> lo \<le> a \<Longrightarrow> (anchor \<Longrightarrow> a = lo) \<Longrightarrow> (\<And>j e cs. lo \<le> j \<Longrightarrow> j < a \<Longrightarrow> \<not> pat_matches subj pat p j e cs) \<Longrightarrow>
    a \<le> e \<Longrightarrow> e \<le> length subj \<Longrightarrow> pat_matches subj pat p a e cs \<Longrightarrow> replaces fmt repl subj a e cs st w st1 \<Longrightarrow>
    substs fmt repl subj pat p anchor (if anchor then 0 else k - 1) (if a < e then e else Suc a) st1 xs st' \<Longrightarrow>
    substs fmt repl subj pat p anchor k lo st ((a, e, w) # xs) st'"

lemma substs_count: "substs fmt repl subj pat p anchor k lo st xs st' \<Longrightarrow> int (length xs) \<le> max 0 k"
  by (induction rule: substs.induct) (auto split: if_splits)

lemma substs_length: "substs fmt repl subj pat p anchor k lo st xs st' \<Longrightarrow> length xs \<le> Suc (length subj) - lo"
  by (induction rule: substs.induct) (auto split: if_splits)

lemma substs_first: "substs fmt repl subj pat p anchor k lo st ((a, e, w) # xs) st' \<Longrightarrow> lo \<le> a"
  by (auto elim: substs.cases)

lemma weave_skip:
  assumes "substs fmt repl subj pat p anchor k (Suc s) st xs st'" and "s < length subj"
  shows "weave subj s xs = subj ! s # weave subj (Suc s) xs"
proof (cases xs)
  case Nil
  with assms(2) show ?thesis by (simp add: Cons_nth_drop_Suc)
next
  case (Cons x ys)
  obtain a e w where x: "x = (a, e, w)" by (cases x)
  with Cons assms(1) have "Suc s \<le> a" by (auto dest: substs_first)
  then have "a - s = Suc (a - Suc s)" by simp
  with Cons x assms(2) show ?thesis by (simp add: take_Suc_conv_app_nth flip: Cons_nth_drop_Suc)
qed

lemma substs_skip:
  assumes "substs fmt repl subj pat p False k (Suc s) st xs st'" and no: "\<And>e cs. \<not> pat_matches subj pat p s e cs"
  shows "substs fmt repl subj pat p False k s st xs st'"
  using assms(1)
proof cases
  case no_more
  show ?thesis unfolding no_more(1,2)
  proof (rule substs.no_more)
    show "\<not> pat_matches subj pat p j e cs" if "s \<le> j" "j \<le> length subj" for j e cs
      using that no no_more(3) [of j] by (cases "j = s") auto
  qed
next
  case (replace a e cs w st1 xs')
  from replace(2) show ?thesis unfolding replace(1)
  proof (rule substs.replace)
    show "\<not> pat_matches subj pat p j e' cs'" if "s \<le> j" "j < a" for j e' cs'
      using that no replace(5) by (cases "j = s") auto
  qed (use replace in auto)
qed (simp add: substs.enough)

text \<open>Replacing each match by itself leaves the subject as it was.\<close>

lemma take_drop_split:
  "s \<le> e \<Longrightarrow> e \<le> s' \<Longrightarrow> take (e - s) (drop s xs) @ take (s' - e) (drop e xs) = take (s' - s) (drop s xs)"
  using take_add [of "e - s" "s' - e" "drop s xs"] by simp

lemma take_drop_rest: "s \<le> e \<Longrightarrow> take (e - s) (drop s xs) @ drop e xs = drop s xs"
  using append_take_drop_id [of "e - s" "drop s xs"] by simp

lemma weave_same:
  assumes "substs fmt repl subj pat p anchor k lo st xs st'" and "repl = RStr ''%0''" and "lo \<le> length subj"
  shows "weave subj lo xs = drop lo subj"
  using assms
proof (induction rule: substs.induct)
  case (replace k lo a e cs st w st1 xs st')
  have w: "w = take (e - a) (drop a subj)" using replace.hyps(8) replace.prems(1) by (simp add: isdigit_def code_def)
  have "weave subj e xs = drop e subj"
  proof (cases "a < e")
    case True
    with replace show ?thesis by simp
  next
    case False
    with replace.hyps(5) have ea: "e = a" by simp
    show ?thesis
    proof (cases "a < length subj")
      case True
      with replace.IH replace.prems(1) False have "weave subj (Suc a) xs = drop (Suc a) subj" by simp
      moreover have "substs fmt repl subj pat p anchor (if anchor then 0 else k - 1) (Suc a) st1 xs st'"
        using replace.hyps(9) False by simp
      ultimately show ?thesis using weave_skip [of fmt repl subj pat p anchor _ a st1 xs st'] True ea
        by (simp add: Cons_nth_drop_Suc)
    next
      case a: False
      with substs_length [OF replace.hyps(9)] False have "xs = []" by simp
      then show ?thesis by simp
    qed
  qed
  then show ?case using w replace.hyps(2,5) take_drop_rest [of a e subj] take_drop_rest [of lo a subj] by simp
qed simp_all

section \<open>The loop of gsub\<close>

lemma match_values_level:
  assumes "wf_ms ms e'" and "s \<le> e" and "e \<le> src_end ms"
  shows "safe (\<lambda>v. v = match_values (src ms) (Some (s, e)) (caps ms) ! i \<and> (\<exists>w. lua_tolstring fmt v = Some w)) (push_onecapture ms i (Some (s, e)))"
proof (cases "i < level ms")
  case True
  have len: "length (caps ms) = level ms" by (rule length_caps [OF assms(1)])
  then have "match_values (src ms) (Some (s, e)) (caps ms) = map (capture_value (src ms)) (caps ms)"
    using True by (cases "caps ms") (simp_all add: match_values_def)
  then have "match_values (src ms) (Some (s, e)) (caps ms) ! i = capture_value (src ms) (caps ms ! i)"
    using True len by simp
  then show ?thesis by (intro safe_mono [OF push_onecapture_spec [OF assms(1) True]]) (simp add: capture_value_def)
next
  case False
  have "length (caps ms) = level ms" by (rule length_caps [OF assms(1)])
  with False assms(2,3) show ?thesis by (auto simp: push_onecapture_def lstring_at_ok match_values_def)
qed

lemma add_s_spec:
  assumes wf: "wf_ms ms e'" and r: "s \<le> e" "e \<le> src_end ms"
  shows "safe (\<lambda>w. w = expand fmt (take (e - s) (drop s (src ms))) (match_values (src ms) (Some (s, e)) (caps ms)) (drop i news))
    (add_s fmt ms news i s e)"
proof (induction "length news - i" arbitrary: i rule: less_induct)
  case less
  let ?x = "expand fmt (take (e - s) (drop s (src ms))) (match_values (src ms) (Some (s, e)) (caps ms))"
  show ?case
  proof (cases "i < length news")
    case True
    let ?c = "at_or_nul news i" and ?d = "at_or_nul news (Suc i)"
    have g: "getc news i = Ok ?c" "getc news (Suc i) = Ok ?d" using True by (simp_all add: getc_at)
    have c: "drop i news = ?c # drop (Suc i) news" using True by (simp add: at_or_nul_def Cons_nth_drop_Suc)
    have d: "drop (Suc i) news = (if Suc i < length news then ?d # drop (i + 2) news else [])"
      by (simp add: at_or_nul_def Cons_nth_drop_Suc)
    have IH: "safe (\<lambda>w. w = ?x (drop j news)) (add_s fmt ms news j s e)" if "i < j" for j
      by (rule less) (use that True in simp)
    let ?w = "if \<not> isdigit (code ?d) then [?d] else if ?d = CHR ''0'' then take (e - s) (drop s (src ms))
      else the (lua_tolstring fmt (match_values (src ms) (Some (s, e)) (caps ms) ! nat (code ?d - code (CHR ''1''))))"
    have item: "safe (\<lambda>w. w = ?w) (if \<not> isdigit (code ?d) then Ok [?d]
                   else if ?d = CHR ''0'' then lstring_at (src ms) (int s) (int e - int s)
                   else rbind (push_onecapture ms (nat (code ?d - code (CHR ''1''))) (Some (s, e))) (\<lambda>v.
                     case lua_tolstring fmt v of Some w \<Rightarrow> Ok w | None \<Rightarrow> Undef))"
      by (simp add: lstring_at_ok [OF r])
         (auto intro!: safe_bind [OF match_values_level [OF wf r, where fmt = fmt]])
    show ?thesis
    proof (cases "?c = L_ESC")
      case esc: True
      have "?x (drop i news) = ?w @ ?x (drop (i + 2) news)"
      proof (cases "Suc i < length news")
        case True
        with c d esc show ?thesis by simp
      next
        case False
        then have "?d = NUL" "drop (i + 2) news = []" by (simp_all add: at_or_nul_def)
        moreover have "\<not> isdigit (code NUL)" by code_simp
        ultimately show ?thesis using c d esc False by simp
      qed
      then show ?thesis
        by (subst add_s.simps, simp only: True g esc rbind.simps simp_thms if_True if_False,
            intro safe_bind [OF item] safe_bind [OF IH]) simp_all
    next
      case False
      have "?x (drop i news) = ?c # ?x (drop (Suc i) news)"
        unfolding c using False by (cases "drop (Suc i) news") simp_all
      then show ?thesis using False
        by (subst add_s.simps, simp only: True g rbind.simps simp_thms if_True if_False,
            intro safe_bind [OF IH]) simp_all
    qed
  qed (simp add: add_s.simps [of fmt ms news i])
qed

lemma add_result_spec:
  assumes "s \<le> e" and "e \<le> src_end ms"
  shows "safe (kept_or fmt (take (e - s) (drop s (src ms))) v) (add_result fmt ms s e v)"
  by (cases v rule: lua_toboolean.cases)
     (auto simp: add_result_def kept_or_def lstring_at_ok [OF assms])

lemma add_value_spec:
  assumes wf: "wf_ms ms e'" and r: "s \<le> e" "e \<le> src_end ms" and ok: "repl_safe repl"
  shows "safe (\<lambda>(w, st'). replaces fmt repl (src ms) s e (caps ms) st w st') (add_value fmt used repl ms st s e)"
proof (cases repl)
  case (RStr news)
  show ?thesis unfolding RStr add_value_def repl.case
    by (rule safe_bind [OF add_s_spec [OF wf r]]) simp
next
  case (RFun f)
  have whole: "Some (s, e) = Some (i, j) \<Longrightarrow> i \<le> j \<and> j \<le> src_end ms" for i j using r by simp
  have "safe (\<lambda>_. True) (f st vs)" for vs using ok RFun by (simp add: repl_safe_def)
  note f = this
  show ?thesis unfolding RFun add_value_def repl.case
    by (rule safe_bind [OF push_captures_spec [OF wf whole]], assumption,
        rule safe_bind [OF f], clarify, rule safe_bind [OF add_result_spec [OF r]]) auto
next
  case (RTab g)
  have "safe (\<lambda>_. True) (g st v)" for v using ok RTab by (simp add: repl_safe_def)
  note g = this
  have "match_values (src ms) (Some (s, e)) (caps ms) ! 0 = hd (match_values (src ms) (Some (s, e)) (caps ms))"
    by (simp add: match_values_def hd_conv_nth split: list.splits)
  note first = this
  show ?thesis unfolding RTab add_value_def repl.case
    by (rule safe_bind [OF match_values_level [OF wf r, where fmt = fmt]], clarify,
        rule safe_bind [OF g], clarify, rule safe_bind [OF add_result_spec [OF r]]) (auto simp: first)
qed (simp add: add_value_def luaL_argerror_def)

text \<open>
  What the loop promises when it starts at \<open>s\<close> with the text \<open>b\<close> and \<open>n\<close> substitutions.
\<close>

definition gsub_step :: "(int \<Rightarrow> string) \<Rightarrow> string \<Rightarrow> 'st repl \<Rightarrow> string \<Rightarrow> nat \<Rightarrow> bool \<Rightarrow> int \<Rightarrow> int \<Rightarrow> 'st \<Rightarrow> nat \<Rightarrow> string \<Rightarrow> (int \<times> nat \<times> string \<times> 'st) \<Rightarrow> bool" where
  "gsub_step fmt subj repl pat p anchor max_s n st s b = (\<lambda>(n', s', b', st').
     s' \<le> length subj \<and> (\<exists>xs. substs fmt repl subj pat p anchor (max_s - n) s st xs st'
       \<and> n' = n + int (length xs) \<and> b' @ drop s' subj = b @ weave subj s xs))"

lemma gsub_step_end:
  assumes "substs fmt repl subj pat p anchor (max_s - n) s st xs st'" and "s' \<le> length subj"
    and "w @ drop s' subj = weave subj s xs"
  shows "gsub_step fmt subj repl pat p anchor max_s n st s b (n + int (length xs), s', b @ w, st')"
  using assms by (auto simp: gsub_step_def)

text \<open>A step past the character at \<open>s\<close>, and one past a match\<close>

lemma gsub_step_skip:
  assumes "gsub_step fmt subj repl pat p False max_s n st (Suc s) (b @ [subj ! s]) r" and "s < length subj"
    and "\<And>e cs. \<not> pat_matches subj pat p s e cs"
  shows "gsub_step fmt subj repl pat p False max_s n st s b r"
  using assms substs_skip [OF _ assms(3)] weave_skip [OF _ assms(2)] by (fastforce simp: gsub_step_def)

lemma gsub_step_replace:
  assumes "gsub_step fmt subj repl pat p False max_s (n + 1) st1 (if s < e then e else Suc s) (b @ w @ c) r"
    and "n < max_s" and "s \<le> e" and "e \<le> length subj" and "pat_matches subj pat p s e cs" and "replaces fmt repl subj s e cs st w st1"
    and "c = (if s < e then [] else [subj ! s])" and "s < length subj"
  shows "gsub_step fmt subj repl pat p False max_s n st s b r"
proof -
  obtain n' s' b' st' where r: "r = (n', s', b', st')" by (cases r)
  from assms(1) obtain xs where
    xs: "substs fmt repl subj pat p False (max_s - n - 1) (if s < e then e else Suc s) st1 xs st'"
    "n' = n + 1 + int (length xs)" "b' @ drop s' subj = b @ w @ c @ weave subj (if s < e then e else Suc s) xs" "s' \<le> length subj"
    unfolding r by (auto simp: gsub_step_def algebra_simps split: if_splits)
  have "c @ weave subj (if s < e then e else Suc s) xs = weave subj e xs"
    using weave_skip [of fmt repl subj pat p False _ s st1 xs st'] xs(1) assms(3,7,8) by (cases "s < e") auto
  with xs(3) have "b' @ drop s' subj = b @ weave subj s ((s, e, w) # xs)" by simp
  moreover have "substs fmt repl subj pat p False (max_s - n) s st ((s, e, w) # xs) st'"
    by (rule substs.replace [OF _ _ _ _ assms(3-6)]) (use assms(2) xs(1) in auto)
  moreover have "n' = n + int (length ((s, e, w) # xs))" using xs(2) by simp
  ultimately show ?thesis using xs(4) unfolding r gsub_step_def by auto
qed

lemma gsub_loop_spec:
  fixes repl :: "'st repl"
  assumes "repl_safe repl" and "p \<le> length pat"
  shows "base_ok ms \<Longrightarrow> s \<le> src_end ms \<Longrightarrow> src_end ms - s < f \<Longrightarrow>
    safe (gsub_step fmt (src ms) repl pat p anchor max_s n st s b) (gsub_loop f fmt used repl pat p anchor max_s n ms st s b)"
proof (induction f arbitrary: n ms st s b)
  case (Suc f)
  let ?L = "gsub_loop f fmt used repl pat p anchor max_s" and ?S = "gsub_step fmt (src ms) repl pat p anchor max_s"
  show ?case
  proof (cases "n < max_s")
    case False
    then have "substs fmt repl (src ms) pat p anchor (max_s - n) s st [] st" by (simp add: substs.enough)
    from gsub_step_end [OF this Suc.prems(2), of "[]" b] False show ?thesis by simp
  next
    case lt: True
    show ?thesis
    proof (simp only: gsub_loop.simps lt simp_thms if_False,
        rule safe_bind [OF match_level0 [OF Suc.prems(1,2) assms(2)]], clarify)
      fix res ms'
      assume A: "case res of
           None \<Rightarrow> base_ok ms' \<and> src ms' = src ms \<and> (\<forall>e cs. \<not> pat_matches (src ms) pat p s e cs)
         | Some e \<Rightarrow> base_ok ms' \<and> src ms' = src ms \<and> s \<le> e \<and> e \<le> src_end ms \<and> wf_ms ms' e
           \<and> pat_matches (src ms) pat p s e (caps ms')"
      then have ms': "base_ok ms'" "src ms' = src ms" by (auto split: option.splits)
      have go: "safe (?S n' st' q b') (?L n' ms' st' q b')" if "s < q" "q \<le> src_end ms" for n' st' q b'
        using Suc.IH [of ms' q n' st' b'] ms' that Suc.prems(3) by simp
      have c: "getc (src ms') s = Ok (src ms ! s)" if "s < src_end ms" using ms' that by (simp add: getc_def)
      show "safe (?S n st s b) (rbind (case res of
                 None \<Rightarrow> Ok (n, b, st)
               | Some e \<Rightarrow> rbind (add_value fmt used repl ms' st s e) (\<lambda>(w, st'). Ok (n + 1, b @ w, st')))
          (\<lambda>(n', b', st').
             case res of
               Some e \<Rightarrow>
                 if s < e then
                   if anchor then Ok (n', e, b', st')
                   else ?L n' ms' st' e b'
                 else if s < src_end ms' then
                   rbind (getc (src ms') s) (\<lambda>c.
                     if anchor then Ok (n', Suc s, b' @ [c], st')
                     else ?L n' ms' st' (Suc s) (b' @ [c]))
                 else Ok (n', s, b', st')
             | None \<Rightarrow>
                 if s < src_end ms' then
                   rbind (getc (src ms') s) (\<lambda>c.
                     if anchor then Ok (n', Suc s, b' @ [c], st')
                     else ?L n' ms' st' (Suc s) (b' @ [c]))
                 else Ok (n', s, b', st')))"
      proof (cases res)
        case None
        then have no: "\<not> pat_matches (src ms) pat p s e cs" for e cs using A by auto
        have stop: "substs fmt repl (src ms) pat p anchor (max_s - n) s st [] st" if "anchor \<or> s = length (src ms)"
          by (rule substs.no_more) (use no that in \<open>metis le_antisym\<close>)
        show ?thesis
        proof (cases "s < src_end ms")
          case s: True
          show ?thesis
          proof (cases anchor)
            case True
            from gsub_step_end [OF stop, of "Suc s" "[src ms ! s]" b] s c ms' True None show ?thesis
              by (simp add: Cons_nth_drop_Suc)
          next
            case False
            have "safe (?S n st (Suc s) (b @ [src ms ! s])) (?L n ms' st (Suc s) (b @ [src ms ! s]))"
              by (rule go) (use s in simp_all)
            then have "safe (?S n st s b) (?L n ms' st (Suc s) (b @ [src ms ! s]))"
              by (rule safe_mono) (use gsub_step_skip [OF _ s no] False in simp)
            with False None s c ms' show ?thesis by simp
          qed
        next
          case False
          with gsub_step_end [OF stop, of s "[]" b] Suc.prems(2) None ms' show ?thesis by simp
        qed
      next
        case (Some e)
        then have e: "s \<le> e" "e \<le> src_end ms" "wf_ms ms' e" and m: "pat_matches (src ms) pat p s e (caps ms')" using A by auto
        show ?thesis
        proof (simp only: Some option.case rbind_assoc,
            rule safe_bind [OF add_value_spec [OF e(3) e(1) _ assms(1)]], simp add: ms' e, goal_cases)
          case (1 x)
          obtain w st1 where x: "x = (w, st1)" by (cases x)
          from 1 x have w: "replaces fmt repl (src ms) s e (caps ms') st w st1" using ms' by simp
          have one: "substs fmt repl (src ms) pat p anchor (max_s - n) s st [(s, e, w)] st1" if "anchor \<or> s = length (src ms)"
          proof (rule substs.replace [OF _ _ _ _ e(1,2) m w])
            show "substs fmt repl (src ms) pat p anchor (if anchor then 0 else max_s - n - 1) (if s < e then e else Suc s) st1 [] st1"
              using that e by (cases anchor) (auto intro: substs.enough substs.no_more)
          qed (use lt in auto)
          have "safe (?S n st s b)
              (if s < e then
                   if anchor then Ok (n + 1, e, b @ w, st1)
                   else ?L (n + 1) ms' st1 e (b @ w)
                 else if s < src_end ms' then
                   rbind (getc (src ms') s) (\<lambda>c.
                     if anchor then Ok (n + 1, Suc s, (b @ w) @ [c], st1)
                     else ?L (n + 1) ms' st1 (Suc s) ((b @ w) @ [c]))
                 else Ok (n + 1, s, b @ w, st1))"
          proof (cases "anchor \<or> \<not> s < src_end ms")
            case True
            then have "anchor \<or> s = length (src ms)" using Suc.prems(2) by auto
            note end_ = gsub_step_end [OF one [OF this], of _ _ b]
            show ?thesis
            proof (cases "s < e")
              case se: True
              with True e have anchor by simp
              with end_ [of e w] se e show ?thesis by simp
            next
              case False
              with e(1) have "e = s" by simp
              with end_ [of s w] end_ [of "Suc s" "w @ [src ms ! s]"] True False c ms' Suc.prems(2) show ?thesis
                by (cases "s < src_end ms") (auto simp: Cons_nth_drop_Suc)
            qed
          next
            case False
            then have a: "\<not> anchor" and s: "s < src_end ms" by simp_all
            let ?q = "if s < e then e else Suc s" and ?c = "if s < e then [] else [src ms ! s]"
            have "safe (?S (n + 1) st1 ?q (b @ w @ ?c)) (?L (n + 1) ms' st1 ?q (b @ w @ ?c))"
              by (rule go) (use s e in auto)
            then have "safe (?S n st s b) (?L (n + 1) ms' st1 ?q (b @ w @ ?c))"
              by (rule safe_mono) (use gsub_step_replace [OF _ lt e(1,2) m w refl s] a in simp)
            with a s c ms' show ?thesis by (cases "s < e") simp_all
          qed
          then show ?case by (simp only: x rbind.simps prod.case)
        qed
      qed
    qed
  qed
qed simp

section \<open>Formats\<close>

lemma skip_flags_spec:
  "p \<le> length s \<Longrightarrow> safe (\<lambda>q. p \<le> q \<and> q \<le> length s) (skip_flags s p)"
proof (induction s p rule: skip_flags.induct)
  case (1 s p)
  let ?c = "at_or_nul s p"
  have c: "getc s p = Ok ?c" using "1.prems" by (rule getc_at)
  show ?case
  proof (cases "?c \<noteq> NUL \<and> ?c \<in> set FLAGS")
    case True
    then have "Suc p \<le> length s" using at_or_nul_pos [of s p] by simp
    from "1.IH" [OF c True this] True c show ?thesis
      by (subst skip_flags.simps) (auto elim!: safe_mono)
  next
    case False
    with c "1.prems" show ?thesis by (subst skip_flags.simps) (simp split: if_splits, blast?)
  qed
qed

lemma skip_digit_spec:
  assumes "p \<le> length s"
  shows "safe (\<lambda>q. p \<le> q \<and> q \<le> p + 1 \<and> q \<le> length s) (skip_digit s p)"
proof -
  have "isdigit (code (at_or_nul s p)) \<Longrightarrow> p < length s"
    by (rule at_or_nul_pos) (auto simp: isdigit_def code_def)
  with assms show ?thesis by (simp add: skip_digit_def getc_at Suc_le_eq)
qed

text \<open>
  A form has at most five flags, two digits, a point, two digits and the conversion: with the
  leading percent sign it leaves room for \<open>LUA_INTFRMLEN\<close> and the terminator.
\<close>

lemma scanformat_spec:
  assumes "p0 \<le> length s"
  shows "safe (\<lambda>(p, form). p0 \<le> p \<and> p \<le> length s \<and> form \<noteq> [] \<and> length form + length LUA_INTFRMLEN < MAX_FORMAT)
    (scanformat s p0)"
proof (unfold scanformat_def, rule safe_bind [OF skip_flags_spec [OF assms]], goal_cases)
  case (1 p1)
  show ?case
  proof (cases "sizeof_lit FLAGS \<le> p1 - p0")
    case False
    have b: "p1 \<le> p0 + 5" using False by (simp add: FLAGS_def)
    have p1: "p0 \<le> p1" "p1 \<le> length s" using 1 by simp_all
    have dot: "safe (\<lambda>q. p \<le> q \<and> q \<le> p + 3 \<and> q \<le> length s)
        (if c = CHR ''.'' then rbind (skip_digit s (Suc p)) (skip_digit s) else Ok p)"
      if "p \<le> length s" "c = at_or_nul s p" for p c
    proof (cases "c = CHR ''.''")
      case True
      then have "Suc p \<le> length s" using that at_or_nul_pos [of s p] by simp
      from skip_digit_spec [OF this] have "safe (\<lambda>q. p \<le> q \<and> q \<le> p + 3 \<and> q \<le> length s)
          (rbind (skip_digit s (Suc p)) (skip_digit s))"
        by (rule safe_bind) (rule safe_mono [OF skip_digit_spec], auto)
      with True show ?thesis by simp
    qed (use that in simp)
    show ?thesis
    proof (simp only: False if_False, rule safe_bind [OF skip_digit_spec [OF p1(2)]], goal_cases)
      case (1 p2)
      then have p2: "p1 \<le> p2" "p2 \<le> p1 + 1" "p2 \<le> length s" by auto
      show ?case
      proof (rule safe_bind [OF skip_digit_spec [OF p2(3)]], goal_cases)
        case (1 p3)
        then have p3: "p2 \<le> p3" "p3 \<le> p2 + 1" "p3 \<le> length s" by auto
        show ?case
        proof (simp only: getc_at [OF p3(3)] rbind.simps, rule safe_bind [OF dot [OF p3(3) refl]], goal_cases)
          case (1 p4)
          then have p4: "p0 \<le> p4" "p4 \<le> p0 + 10" "p4 \<le> length s" using p1 p2 p3 b by auto
          let ?w = "takeWhile (\<lambda>c. c \<noteq> NUL) (take (p4 - p0 + 1) (drop p0 s))"
          have "length ?w \<le> p4 - p0 + 1"
            by (rule le_trans [OF length_takeWhile_le]) simp
          with p4 have "length ?w < 16" by linarith
          with p4 show ?case
            by (simp add: getc_at fits_def MAX_FORMAT_def FLAGS_def LUA_INTFRMLEN_def)
        qed
      qed
    qed
  qed simp
qed

lemma addintlen_spec:
  "form \<noteq> [] \<Longrightarrow> length form + length LUA_INTFRMLEN < MAX_FORMAT \<Longrightarrow>
    addintlen form = Ok (butlast form @ LUA_INTFRMLEN @ [last form])"
  by (cases form rule: rev_cases) (simp_all add: addintlen_def fits_def)

end
