(* ===== verification/LuaPatternTotal.thy ===== *)
theory LuaPatternTotal
  imports LuaPatternMatch
begin

text \<open>
  Patterns the matcher accepts: on a well-formed pattern it raises no error, whatever the
  subject is. The shape of a pattern fixes which captures are open at each position.
\<close>

section \<open>Well-formed patterns\<close>

text \<open>\<open>st\<close> says of every capture opened so far whether it is still open.\<close>

inductive well_formed :: "string \<Rightarrow> nat \<Rightarrow> bool list \<Rightarrow> bool" for pat where
  wf_finish: "item_at pat p = Ok End \<Longrightarrow> well_formed pat p st"
| wf_anchor: "item_at pat p = Ok AnchorEnd \<Longrightarrow> well_formed pat p st"
| wf_opening: "item_at pat p = Ok (Open what q) \<Longrightarrow> length st < LUA_MAXCAPTURES \<Longrightarrow>
    well_formed pat q (st @ [what = CAP_UNFINISHED]) \<Longrightarrow> well_formed pat p st"
| wf_closing: "item_at pat p = Ok (Close q) \<Longrightarrow> l < length st \<Longrightarrow> st ! l \<Longrightarrow>
    (\<And>j. l < j \<Longrightarrow> j < length st \<Longrightarrow> \<not> st ! j) \<Longrightarrow> well_formed pat q (st[l := False]) \<Longrightarrow>
    well_formed pat p st"
| wf_balance: "item_at pat p = Ok (Balance q) \<Longrightarrow> getc pat q = Ok b \<Longrightarrow> b \<noteq> NUL \<Longrightarrow>
    getc pat (Suc q) = Ok x \<Longrightarrow> x \<noteq> NUL \<Longrightarrow> well_formed pat (q + 2) st \<Longrightarrow> well_formed pat p st"
| wf_frontier: "item_at pat p = Ok (Frontier q) \<Longrightarrow> getc pat q = Ok (CHR ''['') \<Longrightarrow>
    classend pat q = Ok ep \<Longrightarrow> well_formed pat ep st \<Longrightarrow> well_formed pat p st"
| wf_back_ref: "item_at pat p = Ok (BackRef c q) \<Longrightarrow> l = code c - code (CHR ''1'') \<Longrightarrow> 0 \<le> l \<Longrightarrow>
    l < int (length st) \<Longrightarrow> \<not> st ! nat l \<Longrightarrow> well_formed pat q st \<Longrightarrow> well_formed pat p st"
| wf_single: "item_at pat p = Ok (Item p ep c) \<Longrightarrow> c \<notin> set ''?*+-'' \<Longrightarrow> well_formed pat ep st \<Longrightarrow>
    well_formed pat p st"
| wf_repeat: "item_at pat p = Ok (Item p ep c) \<Longrightarrow> c \<in> set ''?*+-'' \<Longrightarrow> well_formed pat (Suc ep) st \<Longrightarrow>
    well_formed pat p st"

definition opens :: "MatchState \<Rightarrow> bool list" where
  "opens ms = map (\<lambda>c. cap_len c = CAP_UNFINISHED) (caps ms)"

lemma opens_same: "same ms ms' \<Longrightarrow> opens ms' = opens ms"
  by (simp add: same_def opens_def)

lemma is_Ok_bind: "is_Ok r \<Longrightarrow> (\<And>x. r = Ok x \<Longrightarrow> is_Ok (f x)) \<Longrightarrow> is_Ok (rbind r f)"
  by (cases r) simp_all

lemma is_Ok_or:
  assumes "decides ms s M r" and "is_Ok r" and "\<And>ms'. same ms ms' \<Longrightarrow> is_Ok (f ms')"
  shows "is_Ok (rbind r (\<lambda>(res, ms'). case res of Some e \<Rightarrow> Ok (Some e, ms') | None \<Rightarrow> f ms'))"
  using assms by (cases r) (auto simp: decides_def split: option.splits prod.splits)

lemma well_formed_Open: "well_formed pat p st \<Longrightarrow> item_at pat p = Ok (Open what q) \<Longrightarrow>
    length st < LUA_MAXCAPTURES \<and> well_formed pat q (st @ [what = CAP_UNFINISHED])"
  by (erule well_formed.cases) auto

lemma well_formed_Close: "well_formed pat p st \<Longrightarrow> item_at pat p = Ok (Close q) \<Longrightarrow>
    \<exists>l. l < length st \<and> st ! l \<and> (\<forall>j. l < j \<longrightarrow> j < length st \<longrightarrow> \<not> st ! j) \<and> well_formed pat q (st[l := False])"
  by (erule well_formed.cases) auto

lemma well_formed_Balance: "well_formed pat p st \<Longrightarrow> item_at pat p = Ok (Balance q) \<Longrightarrow>
    (\<exists>b x. getc pat q = Ok b \<and> b \<noteq> NUL \<and> getc pat (Suc q) = Ok x \<and> x \<noteq> NUL) \<and> well_formed pat (q + 2) st"
  by (erule well_formed.cases) auto

lemma well_formed_Frontier: "well_formed pat p st \<Longrightarrow> item_at pat p = Ok (Frontier q) \<Longrightarrow>
    getc pat q = Ok (CHR ''['') \<and> (\<exists>ep. classend pat q = Ok ep \<and> well_formed pat ep st)"
  by (erule well_formed.cases) auto

lemma well_formed_BackRef: "well_formed pat p st \<Longrightarrow> item_at pat p = Ok (BackRef c q) \<Longrightarrow>
    0 \<le> code c - code (CHR ''1'') \<and> code c - code (CHR ''1'') < int (length st)
    \<and> \<not> st ! nat (code c - code (CHR ''1'')) \<and> well_formed pat q st"
  by (erule well_formed.cases) auto

lemma well_formed_Item: "well_formed pat p st \<Longrightarrow> item_at pat p = Ok (Item r ep c) \<Longrightarrow>
    r = p \<and> well_formed pat (if c \<in> set ''?*+-'' then Suc ep else ep) st"
  by (erule well_formed.cases) (auto split: if_splits)

text \<open>A position whose item cannot be read is not well-formed.\<close>

lemma well_formed_item: "well_formed pat p st \<Longrightarrow> is_Ok (item_at pat p)"
  by (erule well_formed.cases) auto

section \<open>The matcher raises no error\<close>

locale matcher_total = matcher_step +
  assumes rec_total: "wf_ms ms s \<Longrightarrow> p0 \<le> p \<Longrightarrow> p \<le> length pat \<Longrightarrow> well_formed pat p (opens ms) \<Longrightarrow>
    is_Ok (rec ms s p)"
begin

lemma rec_total_at:
  assumes "wf_ms ms s" and "p0 \<le> p" and "p \<le> length pat" and "well_formed pat p (opens ms)"
    and "s \<le> s'" and "s' \<le> src_end ms"
  shows "is_Ok (rec ms s' p)"
  by (rule rec_total [OF wf_mono [OF assms(1,5,6)] assms(2,3,4)])

lemma try_down_total:
  "wf_ms ms s \<Longrightarrow> s + i \<le> src_end ms \<Longrightarrow> p0 \<le> q \<Longrightarrow> q \<le> length pat \<Longrightarrow> well_formed pat q (opens ms) \<Longrightarrow>
    is_Ok (try_down rec ms s q i)"
proof (induction i arbitrary: ms)
  case 0
  then show ?case using rec_total [of ms s q] by simp
next
  case (Suc i)
  have "decides ms s (pmatch (src ms) pat (caps ms) (s + Suc i) q) (rec ms (s + Suc i) q)"
    by (rule rec_at) (use Suc.prems in simp_all)
  moreover have "is_Ok (rec ms (s + Suc i) q)"
    by (rule rec_total_at [OF Suc.prems(1)]) (use Suc.prems in simp_all)
  moreover have "is_Ok (try_down rec ms' s q i)" if "same ms ms'" for ms'
  proof -
    have "src ms' = src ms" "opens ms' = opens ms" using that opens_same [OF that] by (simp_all add: same_def)
    then show ?thesis by (intro Suc.IH [OF same_wf [OF that Suc.prems(1)]]) (use Suc.prems in simp_all)
  qed
  ultimately show ?case unfolding try_down.simps by (rule is_Ok_or)
qed

lemma max_expand_total:
  assumes wf: "wf_ms ms s" and p: "p < length pat" "p0 \<le> Suc ep" "Suc ep \<le> length pat"
    and ok: "well_formed pat (Suc ep) (opens ms)"
  shows "is_Ok (max_expand rec pat ms s p ep)"
proof -
  have s: "s \<le> src_end ms" using wf by (simp add: wf_ms_def)
  have ep: "ep \<le> length pat" using p(3) by simp
  obtain m where m: "count_run ms pat s p ep 0 = Ok m" "\<forall>j < m. hit (src ms) pat p ep (s + j)"
    using count_run_spec [OF p(1) ep, of ms s 0] by auto
  then have "s + m \<le> src_end ms" using reps_range [of "src ms" pat p ep s m] s by (simp add: reps_def)
  from try_down_total [OF wf this p(2,3) ok] show ?thesis by (simp add: max_expand_def m)
qed

lemma min_loop_total:
  "wf_ms ms s \<Longrightarrow> k = src_end ms - s \<Longrightarrow> p < length pat \<Longrightarrow> p0 \<le> Suc ep \<Longrightarrow> Suc ep \<le> length pat \<Longrightarrow>
    well_formed pat (Suc ep) (opens ms) \<Longrightarrow> is_Ok (min_loop rec pat p ep k ms s)"
proof (induction k arbitrary: ms s)
  case 0
  then show ?case using rec_total [of ms s "Suc ep"] by simp
next
  case (Suc k)
  have D: "decides ms s (pmatch (src ms) pat (caps ms) s (Suc ep)) (rec ms s (Suc ep))"
    by (rule rec_decides) (use Suc.prems in simp_all)
  have T: "is_Ok (rec ms s (Suc ep))"
    by (rule rec_total) (use Suc.prems in simp_all)
  have "is_Ok (rbind (match_here ms' pat s p ep) (\<lambda>m. if m then min_loop rec pat p ep k ms' (Suc s) else Ok (None, ms')))"
    if "same ms ms'" for ms'
  proof -
    have src: "src ms' = src ms" "opens ms' = opens ms" using that opens_same [OF that] by (simp_all add: same_def)
    have wf': "wf_ms ms' s" by (rule same_wf [OF that Suc.prems(1)])
    have here: "match_here ms' pat s p ep = Ok (hit (src ms) pat p ep s)"
      using match_here_hit [of p pat ep ms' s] Suc.prems src by simp
    have "is_Ok (min_loop rec pat p ep k ms' (Suc s))" if h: "hit (src ms) pat p ep s"
    proof (rule Suc.IH [OF wf_mono [OF wf']])
      show "Suc s \<le> src_end ms'" using hit_range [OF h] src by simp
      then show "k = src_end ms' - Suc s" using Suc.prems(2) src by simp
    qed (use Suc.prems src in simp_all)
    with here show ?thesis by simp
  qed
  then show ?case unfolding min_loop.simps by (rule is_Ok_or [OF D T])
qed

lemma match_default_total:
  assumes wf: "wf_ms ms s" and item: "item_at pat p = item_default pat p"
    and p: "p < length pat" "p0 \<le> Suc p" and ok: "well_formed pat p (opens ms)"
  shows "is_Ok (match_default rec pat ms s p)"
proof -
  obtain ep where ce: "classend pat p = Ok ep"
    using well_formed_item [OF ok] unfolding item item_default_def
    by (cases "classend pat p") auto
  with classend_safe [OF p(1)] have ep: "p < ep" "ep \<le> length pat" "p0 \<le> ep" "p0 \<le> Suc ep" using p(2) by auto
  let ?c = "at_or_nul pat ep" and ?h = "hit (src ms) pat p ep s"
  have c: "getc pat ep = Ok ?c" using ep by (simp add: getc_at)
  have it: "item_at pat p = Ok (Item p ep ?c)" by (simp add: item item_default_def ce c)
  have here: "match_here ms pat s p ep = Ok ?h" by (rule match_here_hit [OF p(1) ep(2)])
  have nx: "well_formed pat (if ?c \<in> set ''?*+-'' then Suc ep else ep) (opens ms)"
    using well_formed_Item [OF ok it] by simp
  have more: "Suc ep \<le> length pat" if "?c \<in> set ''?*+-''" using at_or_nul_pos [of pat ep] that by auto
  have S: "Suc s \<le> src_end ms" if ?h using hit_range [OF that] by simp
  have D: "decides ms s (pmatch (src ms) pat (caps ms) (Suc s) (Suc ep)) (rec ms (Suc s) (Suc ep))"
    if ?h "?c \<in> set ''?*+-''"
    by (rule rec_at [OF wf ep(4) more [OF that(2)] _ S [OF that(1)]]) simp
  have M: "is_Ok (max_expand rec pat ms s p ep)" if "?c \<in> set ''?*+-''"
    by (rule max_expand_total [OF wf p(1) ep(4) more [OF that]]) (use nx that in simp)
  have M1: "is_Ok (max_expand rec pat ms (Suc s) p ep)" if "?c \<in> set ''?*+-''" ?h
    by (rule max_expand_total [OF wf_mono [OF wf _ S [OF that(2)]] p(1) ep(4) more [OF that(1)]]) (use nx that in simp_all)
  have L: "is_Ok (min_expand rec pat ms s p ep)" if "?c \<in> set ''?*+-''" unfolding min_expand_def
    by (rule min_loop_total [OF wf refl p(1) ep(4) more [OF that]]) (use nx that in simp)
  have R: "is_Ok (rec ms' s (Suc ep))" if "same ms ms'" "?c \<in> set ''?*+-''" for ms'
    by (rule rec_total [OF same_wf [OF that(1) wf] ep(4) more [OF that(2)]])
       (use nx that opens_same [OF that(1)] in simp)
  have R1: "is_Ok (rec ms (Suc s) (Suc ep))" if ?h "?c \<in> set ''?*+-''"
    by (rule rec_total_at [OF wf ep(4) more [OF that(2)] _ _ S [OF that(1)]]) (use nx that in simp_all)
  have R2: "is_Ok (rec ms (Suc s) ep)" if ?h "?c \<notin> set ''?*+-''"
    by (rule rec_total_at [OF wf ep(3,2) _ _ S [OF that(1)]]) (use nx that in simp_all)
  show ?thesis unfolding match_default_def ce rbind.simps here c
    using M M1 L R [OF same_refl] R2 is_Ok_or [OF D R1 R] by auto
qed

lemma start_capture_total:
  assumes wf: "wf_ms ms s" and p': "p0 \<le> p'" "p' \<le> length pat" and lt: "level ms < LUA_MAXCAPTURES"
    and what: "what = CAP_UNFINISHED \<or> what = CAP_POSITION"
    and ok: "well_formed pat p' (opens ms @ [what = CAP_UNFINISHED])"
  shows "is_Ok (start_capture rec ms s p' what)"
proof -
  define ms1 where "ms1 = ms\<lparr>captures := (captures ms)[level ms := \<lparr>cap_init = s, cap_len = what\<rparr>],
                        level := Suc (level ms)\<rparr>"
  have len: "length (captures ms) = LUA_MAXCAPTURES" using wf by (simp add: wf_ms_def)
  have caps1: "caps ms1 = caps ms @ [\<lparr>cap_init = s, cap_len = what\<rparr>]"
    using lt len by (simp add: caps_def ms1_def take_Suc_conv_app_nth)
  have wf1: "wf_ms ms1 s"
    using wf lt what unfolding wf_ms_def caps1 by (auto simp: ms1_def cap_ok_def)
  have "is_Ok (rec ms1 s p')"
    by (rule rec_total [OF wf1 p']) (use ok in \<open>simp add: opens_def caps1\<close>)
  then show ?thesis using lt
    by (auto simp: start_capture_def Let_def simp flip: ms1_def intro!: is_Ok_bind split: option.splits)
qed

lemma end_capture_total:
  assumes wf: "wf_ms ms s" and p': "p0 \<le> p'" "p' \<le> length pat"
    and l: "l < level ms" "opens ms ! l" "\<forall>j. l < j \<longrightarrow> j < level ms \<longrightarrow> \<not> opens ms ! j"
    and ok: "well_formed pat p' ((opens ms)[l := False])"
  shows "is_Ok (end_capture rec ms s p')"
proof -
  have len: "length (caps ms) = level ms" by (rule length_caps [OF wf])
  have op: "opens ms ! j \<longleftrightarrow> cap_len (caps ms ! j) = CAP_UNFINISHED" if "j < level ms" for j
    using that len by (simp add: opens_def)
  have "last_open (caps ms) l" using l op len by (simp add: last_open_def)
  moreover have "is_Ok (capture_to_close ms)"
  proof -
    have "l < n \<Longrightarrow> n \<le> level ms \<Longrightarrow> is_Ok (capture_to_close_loop ms n)" for n
    proof (induction n)
      case (Suc n)
      show ?case
      proof (cases "n = l")
        case True
        then show ?thesis using l op nth_caps [OF wf l(1)] by simp
      qed (use Suc in auto)
    qed simp
    from this [OF l(1) order_refl] show ?thesis by (simp add: capture_to_close_def)
  qed
  ultimately have cl: "capture_to_close ms = Ok l"
    using capture_to_close_spec [OF wf] last_open_unique by (cases "capture_to_close ms") auto
  define n where "n = int s - int (cap_init (captures ms ! l))"
  have caps1: "caps (set_cap_len ms l n) = (caps ms)[l := (caps ms ! l)\<lparr>cap_len := n\<rparr>]"
    by (rule set_cap_len_caps [OF wf l(1)])
  have "caps ms ! l \<in> set (caps ms)" using l len by simp
  then have "cap_ok (src_end ms) s (caps ms ! l)" using wf by (simp add: wf_ms_def)
  then have init: "cap_init (caps ms ! l) \<le> s" using op [OF l(1)] l(2) by (simp add: cap_ok_def)
  have n: "0 \<le> n" using init nth_caps [OF wf l(1)] by (simp add: n_def)
  have "cap_ok (src_end ms) s ((caps ms ! l)\<lparr>cap_len := n\<rparr>)"
    using init wf nth_caps [OF wf l(1)] by (simp add: cap_ok_def n_def wf_ms_def)
  moreover have "set (caps (set_cap_len ms l n)) \<subseteq> insert ((caps ms ! l)\<lparr>cap_len := n\<rparr>) (set (caps ms))"
    unfolding caps1 by (rule set_update_subset_insert)
  ultimately have wf1: "wf_ms (set_cap_len ms l n) s" using wf by (auto simp: wf_ms_def)
  have "opens (set_cap_len ms l n) = (opens ms)[l := False]"
    using n by (simp add: opens_def caps1 map_update)
  with rec_total [OF wf1 p'] ok have "is_Ok (rec (set_cap_len ms l n) s p')" by simp
  then show ?thesis
    by (auto simp: end_capture_def cl n_def intro!: is_Ok_bind split: option.splits)
qed

lemma balance_total:
  assumes wf: "wf_ms ms s" and q: "p0 \<le> q + 2" "q \<le> length pat"
    and c: "getc pat q = Ok b" "b \<noteq> NUL" "getc pat (Suc q) = Ok x" "x \<noteq> NUL"
    and ok: "well_formed pat (q + 2) (opens ms)"
  shows "is_Ok (rbind (matchbalance ms pat s q) (\<lambda>r. case r of None \<Rightarrow> Ok (None, ms) | Some s' \<Rightarrow> rec ms s' (q + 2)))"
proof (rule is_Ok_bind)
  have s: "s \<le> src_end ms" using wf by (simp add: wf_ms_def)
  show "is_Ok (matchbalance ms pat s q)" by (simp add: matchbalance_def c getc_at [OF s])
  fix r
  assume "matchbalance ms pat s q = Ok r"
  with matchbalance_spec [OF q(2) s] have r: "q + 2 \<le> length pat"
    "\<And>s'. r = Some s' \<Longrightarrow> balance_at (src ms) pat q s s'" by auto
  show "is_Ok (case r of None \<Rightarrow> Ok (None, ms) | Some s' \<Rightarrow> rec ms s' (q + 2))"
  proof (cases r)
    case (Some s')
    from balance_at_range [OF r(2) [OF this]] have "s \<le> s'" "s' \<le> src_end ms" by auto
    from rec_total_at [OF wf q(1) r(1) ok this] Some show ?thesis by simp
  qed simp
qed

lemma back_ref_total:
  assumes wf: "wf_ms ms s" and q: "p0 \<le> q" "q \<le> length pat"
    and l: "0 \<le> code c - code (CHR ''1'')" "code c - code (CHR ''1'') < int (length (opens ms))"
      "\<not> opens ms ! nat (code c - code (CHR ''1''))"
    and ok: "well_formed pat q (opens ms)"
  shows "is_Ok (rbind (match_capture ms s c) (\<lambda>r. case r of None \<Rightarrow> Ok (None, ms) | Some s' \<Rightarrow> rec ms s' q))"
proof (rule is_Ok_bind)
  let ?l = "code c - code (CHR ''1'')"
  have len: "length (caps ms) = level ms" by (rule length_caps [OF wf])
  have lt: "nat ?l < level ms" using l len by (simp add: opens_def)
  then have "cap_len (captures ms ! nat ?l) \<noteq> CAP_UNFINISHED"
    using l(3) nth_caps [OF wf lt] len by (simp add: opens_def)
  then have "check_capture ms c = Ok (nat ?l)" using l lt by (simp add: check_capture_def Let_def)
  then show "is_Ok (match_capture ms s c)" by (simp add: match_capture_def Let_def)
  fix r
  assume "match_capture ms s c = Ok r"
  with match_capture_spec [OF wf, of c]
  have "\<forall>e. r = Some e \<longrightarrow> e \<le> src_end ms \<and> (\<exists>w. captured (src ms) (caps ms) c w
      \<and> take (length w) (drop s (src ms)) = w \<and> e = s + length w)"
    by (simp only: safe_simps) (elim conjE)
  then have "\<And>e. r = Some e \<Longrightarrow> s \<le> e \<and> e \<le> src_end ms" by (metis le_add1)
  then show "is_Ok (case r of None \<Rightarrow> Ok (None, ms) | Some s' \<Rightarrow> rec ms s' q)"
    using rec_total_at [OF wf q ok] by (cases r) auto
qed

lemma frontier_total:
  assumes wf: "wf_ms ms s" and q: "p0 \<le> Suc q" and c: "getc pat q = Ok (CHR ''['')"
    and ce: "classend pat q = Ok ep" and ok: "well_formed pat ep (opens ms)"
  shows "is_Ok (match_frontier rec pat ms s q)"
proof -
  have lt: "q < length pat" using getc_nonzero [OF c] by simp
  with classend_safe [OF lt] ce have ep: "q < ep" "ep \<le> length pat" by auto
  then have pos: "Suc q \<le> length pat" "ep - 1 \<le> length pat" "p0 \<le> ep" using lt q by simp_all
  have s: "s \<le> src_end ms" using wf by (simp add: wf_ms_def)
  let ?prev = "if s = 0 then NUL else at_or_nul (src ms) (s - 1)"
  have prev: "(if s = 0 then Ok NUL else getc (src ms) (s - 1)) = Ok ?prev" using s by (simp add: getc_at)
  obtain m1 where m1: "matchbracketclass (code ?prev) pat q (ep - 1) = Ok m1"
    using matchbracketclass_safe [OF pos(1,2)] by blast
  obtain m2 where m2: "matchbracketclass (code (at_or_nul (src ms) s)) pat q (ep - 1) = Ok m2"
    using matchbracketclass_safe [OF pos(1,2)] by blast
  show ?thesis
    using rec_total [OF wf pos(3) ep(2) ok]
    unfolding match_frontier_def c ce prev rbind.simps m1 getc_at [OF s] m2 by simp
qed

lemma match_body_total:
  assumes wf: "wf_ms ms s" and p: "p0 \<le> Suc p" "p \<le> length pat" and ok: "well_formed pat p (opens ms)"
  shows "is_Ok (match_body rec pat ms s p)"
proof -
  let ?c = "at_or_nul pat p" and ?d = "at_or_nul pat (Suc p)"
  have c: "getc pat p = Ok ?c" using p by (simp add: getc_at)
  have len: "length (opens ms) = level ms" using length_caps [OF wf] by (simp add: opens_def)
  show ?thesis
  proof (cases "?c = NUL")
    case True
    then show ?thesis using c by (simp add: match_body_def)
  next
    case False
    then have lt: "Suc p \<le> length pat" using at_or_nul_pos [of pat p] by simp
    then have d: "getc pat (Suc p) = Ok ?d" by (rule getc_at)
    have lt2: "p + 2 \<le> length pat" if "?d \<noteq> NUL" using at_or_nul_pos [OF that] by simp
    have p2: "p0 \<le> p + 2" using p by simp
    have plain: "is_Ok (match_default rec pat ms s p)" if "item_at pat p = item_default pat p"
      by (rule match_default_total [OF wf that _ p(1) ok]) (use lt in simp)
    have simple: "is_Ok (match_body rec pat ms s p)"
      if "item_at pat p = item_default pat p" "match_body rec pat ms s p = match_default rec pat ms s p"
      using plain that by simp
    note B = match_body_def c d rbind.simps and I = item_at_def c d
    consider (op) "?c = CHR ''(''" | (cl) "?c = CHR '')''" | (esc) "?c = L_ESC" | (dollar) "?c = CHR ''$''"
      | (other) "?c \<notin> {CHR ''('', CHR '')'', L_ESC, CHR ''$'', NUL}" using False by auto
    then show ?thesis
    proof cases
      case op
      show ?thesis
      proof (cases "?d = CHR '')''")
        case True
        have it: "item_at pat p = Ok (Open CAP_POSITION (p + 2))" using op True by (simp add: I)
        from well_formed_Open [OF ok it] len lt2 True have "is_Ok (start_capture rec ms s (p + 2) CAP_POSITION)"
          by (intro start_capture_total [OF wf p2]) auto
        then show ?thesis using op True by (simp add: B)
      next
        case no: False
        have it: "item_at pat p = Ok (Open CAP_UNFINISHED (Suc p))" using op no by (simp add: I)
        from well_formed_Open [OF ok it] len lt have "is_Ok (start_capture rec ms s (Suc p) CAP_UNFINISHED)"
          by (intro start_capture_total [OF wf p(1)]) auto
        then show ?thesis using op no by (simp add: B)
      qed
    next
      case cl
      have it: "item_at pat p = Ok (Close (Suc p))" using cl by (simp add: I)
      from well_formed_Close [OF ok it] len end_capture_total [OF wf p(1) lt] show ?thesis
        using cl by (auto simp: B)
    next
      case esc
      consider (b) "?d = CHR ''b''" | (f) "?d = CHR ''f''" | (digit) "isdigit (code ?d)"
          "?d \<noteq> CHR ''b''" "?d \<noteq> CHR ''f''"
        | (no) "?d \<noteq> CHR ''b''" "?d \<noteq> CHR ''f''" "\<not> isdigit (code ?d)" by blast
      then show ?thesis
      proof cases
        case b
        have it: "item_at pat p = Ok (Balance (p + 2))" using esc b by (simp add: I)
        have l: "p + 2 \<le> length pat" "p0 \<le> p + 2 + 2" "p + 2 + 2 = p + 4" using lt2 b p by simp_all
        from well_formed_Balance [OF ok it] obtain u x where "getc pat (p + 2) = Ok u" "u \<noteq> NUL"
          "getc pat (Suc (p + 2)) = Ok x" "x \<noteq> NUL" "well_formed pat (p + 2 + 2) (opens ms)" by blast
        note T = balance_total [OF wf l(2,1) this]
        have "match_body rec pat ms s p = rbind (matchbalance ms pat s (p + 2))
            (\<lambda>r. case r of None \<Rightarrow> Ok (None, ms) | Some s' \<Rightarrow> rec ms s' (p + 2 + 2))"
          unfolding l(3) using esc b by (simp add: B cong: option.case_cong)
        with T show ?thesis by (simp only:)
      next
        case f
        have it: "item_at pat p = Ok (Frontier (p + 2))" using esc f by (simp add: I)
        have q: "p0 \<le> Suc (p + 2)" using p by simp
        from well_formed_Frontier [OF ok it] frontier_total [OF wf q]
        have "is_Ok (match_frontier rec pat ms s (p + 2))" by blast
        then show ?thesis using esc f by (simp add: B)
      next
        case digit
        have it: "item_at pat p = Ok (BackRef ?d (p + 2))" using esc digit by (simp add: I)
        have nz: "?d \<noteq> NUL" using digit by (auto simp: isdigit_def code_def)
        note T = back_ref_total [OF wf p2 lt2 [OF nz], of ?d]
        have "match_body rec pat ms s p = rbind (match_capture ms s ?d)
            (\<lambda>r. case r of None \<Rightarrow> Ok (None, ms) | Some s' \<Rightarrow> rec ms s' (p + 2))"
          using esc digit by (simp add: B cong: option.case_cong)
        with T well_formed_BackRef [OF ok it] show ?thesis by presburger
      next
        case no
        then show ?thesis using esc by (intro simple) (simp_all add: I B)
      qed
    next
      case dollar
      then show ?thesis
      proof (cases "?d = NUL")
        case no: False
        then show ?thesis using dollar by (intro simple) (simp_all add: I B)
      qed (simp add: B)
    next
      case other
      then show ?thesis by (intro simple) (simp_all add: I B)
    qed
  qed
qed

end

section \<open>Every depth\<close>

lemma match_depth_total:
  "wf_ms ms s \<Longrightarrow> Suc (length pat) - f \<le> p \<Longrightarrow> p \<le> length pat \<Longrightarrow> well_formed pat p (opens ms) \<Longrightarrow>
    is_Ok (match_depth f pat ms s p)"
proof (induction f arbitrary: ms s p)
  case (Suc f)
  have step: "matcher_total (match_depth f pat) pat (Suc (length pat) - f)"
    by unfold_locales (rule Suc.IH)
  show ?case
    using matcher_total.match_body_total [OF step Suc.prems(1) _ Suc.prems(3,4)] Suc.prems(2) by simp
qed simp

interpretation mt: matcher_total "match_depth f pat" pat "Suc (length pat) - f" for f pat
  by unfold_locales (rule match_depth_total)

lemma match_total:
  assumes "wf_ms ms s" and "p \<le> length pat" and "well_formed pat p (opens ms)"
  shows "is_Ok (match pat ms s p)"
  using mt.match_body_total [OF assms(1) _ assms(2,3), of "length pat"] by (simp add: match_def)

end
