(* ===== verification/LuaStrlibProps.thy ===== *)
theory LuaStrlibProps
  imports LuaGsubSpec LuaPatternTotal
begin

text \<open>The properties of the string library and their witnesses.\<close>

section \<open>The matcher\<close>

lemma new_wf: "int (length s) < 2 ^ 63 \<Longrightarrow> i \<le> length s \<Longrightarrow> wf_ms (new_state s) i"
  using base_wf [of "new_state s" i] base_new [of s] by (simp add: new_state_def)

lemma new_caps [simp]: "caps (new_state s) = []" "opens (new_state s) = []"
  by (simp_all add: caps_def new_state_def opens_def)

text \<open>
  C18: The matcher always returns, reads only inside its two strings, and decides whether the
  pattern matches at a position: what it returns is a match the pattern allows, when it returns no
  match there is none, and it raises an error only for a malformed pattern. That one character is in a
  class is decided by \<open>singlematch\<close> itself in the relation.
\<close>

theorem match_correct:
  assumes "int (length s) < 2 ^ 63" and "i \<le> length s" and "p \<le> length pat"
  shows "case match pat (new_state s) i p of
      Ok (Some e, ms) \<Rightarrow> i \<le> e \<and> e \<le> length s \<and> pmatch s pat [] i p e (caps ms)
    | Ok (None, ms) \<Rightarrow> \<forall>e cs. \<not> pmatch s pat [] i p e cs
    | Err x \<Rightarrow> \<not> well_formed pat p []
    | Diverge \<Rightarrow> False
    | Undef \<Rightarrow> False"
  using match_decides [OF new_wf [OF assms(1,2)] assms(3)]
    match_total [OF new_wf [OF assms(1,2)] assms(3)]
  by (auto simp: decides_def wf_ms_def split: result.splits option.splits)

theorem match_correct_witness: "\<exists>cs. pmatch ''xaab'' ''a*(b)'' [] 1 0 4 cs"
proof -
  have "case match ''a*(b)'' (new_state ''xaab'') 1 0 of Ok (Some e, ms) \<Rightarrow> e = 4 | _ \<Rightarrow> False" by code_simp
  with match_correct [of "''xaab''" 1 0 "''a*(b)''"] show ?thesis
    by (auto split: result.splits option.splits)
qed

section \<open>find, match and gmatch\<close>

text \<open>The values \<open>find\<close> and \<open>match\<close> give for a match.\<close>

definition find_values :: "bool \<Rightarrow> string \<Rightarrow> nat \<Rightarrow> nat \<Rightarrow> capture list \<Rightarrow> lval list" where
  "find_values is_find s i e cs =
     (if is_find then PInt (int i + 1) # PInt (int e) # map (capture_value s) cs
      else match_values s (Some (i, e)) cs)"

lemma find_init_le: "find_init i l \<le> l"
  by (auto simp: find_init_def Let_def)

lemma find_values_pushed:
  assumes "wf_ms ms e" and "src ms = s" and "j \<le> e" and "e \<le> length s"
  shows "safe (\<lambda>vs. vs = find_values is_find s j e (caps ms))
    (if is_find then rbind (push_captures (used + 2) ms None) (\<lambda>vs. Ok (PInt (int j + 1) # PInt (int e) # vs))
     else push_captures used ms (Some (j, e)))"
proof -
  have "safe (\<lambda>vs. vs = match_values s None (caps ms)) (push_captures (used + 2) ms None)"
    using push_captures_spec [OF assms(1), of None "used + 2"] assms(2) by simp
  moreover have "safe (\<lambda>vs. vs = match_values s (Some (j, e)) (caps ms)) (push_captures used ms (Some (j, e)))"
    using push_captures_spec [OF assms(1), of "Some (j, e)" used] assms(2-4) by simp
  ultimately show ?thesis
    by (auto simp: find_values_def match_values_def split: list.splits elim!: safe_bind)
qed

text \<open>
  C19: A search with \<open>find\<close> or \<open>match\<close> that uses the matcher (\<open>find\<close> searches a
  pattern without special characters as plain text, which is \<open>find_plain\<close>) returns the leftmost match at or after the starting
  position (only that position when the pattern begins with a caret), as positions or captures,
  and nil only when there is none.
\<close>

theorem find_leftmost:
  fixes s p :: string
  defines "anchor \<equiv> at_or_nul p 0 = CHR 0x5E"
  defines "p0 \<equiv> if anchor then 1 else 0"
  assumes "int (length s) < 2 ^ 63" and "\<not> (is_find \<and> (plain \<or> no_specials p))"
    and init: "init0 = find_init i (length s)"
  shows "safe (\<lambda>vs.
      (vs = [PNil] \<and> (\<forall>j e cs. init0 \<le> j \<longrightarrow> j \<le> length s \<longrightarrow> (anchor \<longrightarrow> j = init0) \<longrightarrow> \<not> pmatch s p [] j p0 e cs))
    \<or> (\<exists>j e cs. init0 \<le> j \<and> (anchor \<longrightarrow> j = init0) \<and> pmatch s p [] j p0 e cs \<and> vs = find_values is_find s j e cs
         \<and> (\<forall>k e cs. init0 \<le> k \<longrightarrow> k < j \<longrightarrow> \<not> pmatch s p [] k p0 e cs)))
    (str_find_aux used is_find s p (Some i) plain)"
proof -
  have b: "base_ok (new_state s)" by (rule base_new [OF assms(3)])
  have p0: "p0 \<le> length p" using at_or_nul_pos [of p 0] by (simp add: p0_def anchor_def Suc_le_eq)
  have c: "getc p 0 = Ok (at_or_nul p 0)" by (simp add: getc_at)
  have init_le: "init0 \<le> src_end (new_state s)" using find_init_le init by simp
  have step: "str_find_aux used is_find s p (Some i) plain = rbind (find_loop p p0 anchor (new_state s) init0) (\<lambda>r.
             case r of
               None \<Rightarrow> Ok [PNil]
             | Some (s1, e, ms) \<Rightarrow>
                 if is_find then rbind (push_captures (used + 2) ms None) (\<lambda>vs.
                   Ok (PInt (int s1 + 1) # PInt (int e) # vs))
                 else push_captures used ms (Some (s1, e)))"
    using assms(4) by (auto simp: str_find_aux_def Let_def c init p0_def anchor_def)
  show ?thesis unfolding step
  proof (rule safe_bind [OF find_loop_spec [OF b init_le p0]], goal_cases)
    case (1 r)
    then have R: "search_result s p p0 anchor init0 r" by simp
    show ?case
    proof (cases r)
      case None
      with R show ?thesis by (auto simp: search_result_def first_at_def starts_at_def)
    next
      case (Some x)
      obtain j e ms where x: "x = (j, e, ms)" by (cases x) auto
      from R Some x have j: "init0 \<le> j" "anchor \<longrightarrow> j = init0" "j \<le> e" "e \<le> length s" "src ms = s" "wf_ms ms e"
        and m: "pmatch s p [] j p0 e (caps ms)"
        and left: "\<And>k. init0 \<le> k \<Longrightarrow> k < j \<Longrightarrow> \<not> (starts_at s p p0 k \<and> (anchor \<longrightarrow> k = init0))"
        by (auto simp: search_result_def first_at_def)
      have left': "\<not> pmatch s p [] k p0 e cs" if "init0 \<le> k" "k < j" for k e cs
        using left [OF that] that j by (auto simp: starts_at_def)
      from find_values_pushed [OF j(6,5,3,4), of is_find used]
      show ?thesis unfolding Some x option.case prod.case
        by (rule safe_mono) (use j(1,2) m left' in blast)
    qed
  qed
qed

theorem find_leftmost_witness:
  "(\<exists>cs. pmatch ''hello world'' ''o(%w)'' [] 7 0 9 cs)
   \<and> (\<nexists>k e cs. k < 7 \<and> pmatch ''hello world'' ''o(%w)'' [] k 0 e cs)"
proof -
  have v: "str_find_aux 3 True ''hello world'' ''o(%w)'' (Some 1) False = Ok [PInt 8, PInt 9, PStr ''r'']"
    by code_simp
  have "\<not> no_specials ''o(%w)''" by code_simp
  moreover have "0 = find_init 1 (length ''hello world'')" by code_simp
  moreover have "at_or_nul ''o(%w)'' 0 \<noteq> CHR 0x5E" by code_simp
  ultimately show ?thesis
    using find_leftmost [of "''hello world''" True False "''o(%w)''" 0 1 3]
    unfolding v by (auto simp: find_values_def)
qed

text \<open>
  Searching for a string literally with \<open>find\<close> gives its first occurrence at or after
  the starting position.
\<close>

theorem find_plain:
  assumes "plain \<or> no_specials p"
  shows "\<exists>r. first_at (occurs_at p s) (find_init i (length s)) r
    \<and> str_find used s p (Some i) plain =
        Ok (case r of None \<Rightarrow> [PNil] | Some j \<Rightarrow> [PInt (int j + 1), PInt (int j + int (length p))])"
  using lmemfind_spec [OF find_init_le, of p s i] assms
  by (intro exI [of _ "lmemfind s (find_init i (length s)) p"])
     (auto simp: str_find_def str_find_aux_def Let_def split: option.splits)

theorem find_plain_witness:
  "first_at (occurs_at ''a.a'' ''a.xa.a'') 0 (Some 3)
   \<and> str_find 4 ''a.xa.a'' ''a.a'' (Some 1) True = Ok [PInt 4, PInt 6]"
proof -
  have v: "str_find 4 ''a.xa.a'' ''a.a'' (Some 1) True = Ok [PInt 4, PInt 6]" by code_simp
  have "find_init 1 (length ''a.xa.a'') = 0" by code_simp
  with find_plain [of True "''a.a''" "''a.xa.a''" 1 4] v show ?thesis
    by (auto split: option.splits)
qed

text \<open>A pattern without special characters is matched character by character.\<close>

definition literal :: "string \<Rightarrow> bool" where
  "literal p \<longleftrightarrow> (\<forall>c \<in> set p. c \<notin> set SPECIALS \<and> c \<noteq> CHR '')'' \<and> c \<noteq> NUL)"

lemma literal_item:
  assumes "literal p" and "k < length p"
  shows "\<exists>c. item_at p k = Ok (Item k (Suc k) c) \<and> c \<notin> set ''?*+-''"
proof -
  have ch: "p ! k \<in> set p" using assms(2) by simp
  have nx: "at_or_nul p (Suc k) \<notin> set ''?*+-''"
    using assms(1) nth_mem [of "Suc k" p] by (auto simp: literal_def at_or_nul_def SPECIALS_def)
  from ch assms(1) have c: "p ! k \<notin> set SPECIALS" "p ! k \<noteq> CHR '')''" "p ! k \<noteq> NUL"
    by (auto simp: literal_def)
  have g: "getc p k = Ok (p ! k)" "getc p (Suc k) = Ok (at_or_nul p (Suc k))"
    using assms(2) by (simp_all add: getc_at at_or_nul_def)
  have "item_at p k = Ok (Item k (Suc k) (at_or_nul p (Suc k)))"
    using c by (simp add: item_at_def item_default_def classend_def g SPECIALS_def)
  with nx show ?thesis by blast
qed

lemma literal_hit:
  assumes "literal p" and "k < length p"
  shows "hit s p k (Suc k) i \<longleftrightarrow> i < length s \<and> s ! i = p ! k"
proof -
  have "p ! k \<in> set p" using assms(2) by simp
  with assms(1) have c: "p ! k \<notin> set SPECIALS" by (simp add: literal_def)
  have g: "getc p k = Ok (p ! k)" using assms(2) by (simp add: getc_at at_or_nul_def)
  show ?thesis using c by (auto simp: hit_def singlematch_def g SPECIALS_def)
qed

lemma literal_pmatch:
  assumes "literal p"
  shows "k \<le> length p \<Longrightarrow> i \<le> length s \<Longrightarrow>
    pmatch s p cs i k e cs' \<longleftrightarrow> occurs_at (drop k p) s i \<and> e = i + (length p - k) \<and> cs' = cs"
proof (induction "length p - k" arbitrary: i k)
  case 0
  then have "k = length p" by simp
  then have "item_at p k = Ok End" by (simp add: item_at_def getc_def)
  from pmatch_End [OF this] 0 show ?case by (simp add: occurs_at_def)
next
  case (Suc n)
  then have k: "k < length p" by simp
  obtain c where it: "item_at p k = Ok (Item k (Suc k) c)" "c \<notin> set ''?*+-''"
    using literal_item [OF assms k] by blast
  have "pmatch s p cs i k e cs' \<longleftrightarrow> hit s p k (Suc k) i \<and> pmatch s p cs (Suc i) (Suc k) e cs'"
    by (rule pmatch_Single [OF it])
  also have "\<dots> \<longleftrightarrow> (i < length s \<and> s ! i = p ! k) \<and>
      (occurs_at (drop (Suc k) p) s (Suc i) \<and> e = Suc i + (length p - Suc k) \<and> cs' = cs)"
    unfolding literal_hit [OF assms k] using Suc.hyps(1) [of "Suc k" "Suc i"] Suc.hyps(2) k by auto
  also have "\<dots> \<longleftrightarrow> occurs_at (drop k p) s i \<and> e = i + (length p - k) \<and> cs' = cs"
    unfolding Cons_nth_drop_Suc [OF k, symmetric] occurs_at_Cons using k
    by (auto simp: occurs_at_def)
  finally show ?case .
qed

lemma literal_well_formed: "literal p \<Longrightarrow> k \<le> length p \<Longrightarrow> well_formed p k []"
proof (induction "length p - k" arbitrary: k)
  case 0
  then have "item_at p k = Ok End" by (simp add: item_at_def getc_def)
  then show ?case by (rule wf_finish)
next
  case (Suc n)
  then have k: "k < length p" by simp
  from literal_item [OF Suc.prems(1) k] Suc k show ?case
    by (auto intro!: wf_single [of p k "Suc k"])
qed

lemma literal_loop:
  assumes "literal p" and "base_ok ms" and "s1 \<le> src_end ms"
  shows "is_Ok (find_loop p 0 False ms s1)"
  using assms(2,3)
proof (induction "src_end ms - s1" arbitrary: ms s1 rule: less_induct)
  case less
  have wf: "wf_ms (ms\<lparr>level := 0\<rparr>) s1" by (rule base_wf [OF less.prems])
  have "is_Ok (match p (ms\<lparr>level := 0\<rparr>) s1 0)"
    using match_total [OF wf, of 0 p] literal_well_formed [OF assms(1), of 0] by (simp add: opens_def caps_def)
  then obtain res ms' where m: "match p (ms\<lparr>level := 0\<rparr>) s1 0 = Ok (res, ms')"
    by (auto simp: is_Ok_iff)
  with match_level0 [OF less.prems, of 0 p] have "base_ok (ms'\<lparr>src := src ms\<rparr>)"
    by (auto simp: base_ok_def split: option.splits)
  with less.hyps [of "ms'\<lparr>src := src ms\<rparr>" "Suc s1"] m show ?case
    by (subst find_loop.simps) (auto split: option.splits)
qed

text \<open>Without captures the whole match is pushed.\<close>

lemma push_whole:
  assumes "wf_ms ms e" and "src ms = s" and "caps ms = []" and "j \<le> e" and "e \<le> length s" and "used < 2048"
  shows "push_captures used ms (Some (j, e)) = Ok [PStr (take (e - j) (drop j s))]"
proof -
  have "level ms = 0" using length_caps [OF assms(1)] assms(3) by simp
  with assms(2,6) lstring_at_ok [OF assms(4,5)] show ?thesis
    by (simp add: push_captures_def luaL_checkstack_def lua_checkstack_def push_onecapture_def)
qed

text \<open>
  C20: The matcher and the plain search agree on a pattern without special characters: \<open>match\<close>
  returns the pattern itself when it occurs at or after the starting position, and nil otherwise.
\<close>

theorem match_literal:
  assumes "int (length s) < 2 ^ 63" and "literal p" and "used < 2048"
  shows "str_match used s p (Some i) =
    Ok (case lmemfind s (find_init i (length s)) p of None \<Rightarrow> [PNil] | Some j \<Rightarrow> [PStr p])"
proof -
  let ?i = "find_init i (length s)"
  have b: "base_ok (new_state s)" by (rule base_new [OF assms(1)])
  have "at_or_nul p 0 \<noteq> CHR 0x5E"
    using assms(2) nth_mem [of 0 p] by (auto simp: literal_def at_or_nul_def SPECIALS_def)
  then have step: "str_match used s p (Some i) = rbind (find_loop p 0 False (new_state s) ?i) (\<lambda>r.
             case r of None \<Rightarrow> Ok [PNil] | Some (s1, e, ms) \<Rightarrow> push_captures used ms (Some (s1, e)))"
    by (simp add: str_match_def str_find_aux_def getc_at Let_def)
  have i: "?i \<le> src_end (new_state s)" using find_init_le by simp
  obtain r where r: "find_loop p 0 False (new_state s) ?i = Ok r" using literal_loop [OF assms(2) b i] by (auto simp: is_Ok_iff)
  with find_loop_spec [OF b i, of 0 p False] have R: "search_result s p 0 False ?i r" by simp
  have "starts_at s p 0 j \<longleftrightarrow> occurs_at p s j" for j
    using literal_pmatch [OF assms(2), of 0 j s "[]"] by (auto simp: starts_at_def occurs_at_def)
  with R have "first_at (occurs_at p s) ?i (map_option fst r)" by (simp add: search_result_def)
  then have F: "map_option fst r = lmemfind s ?i p"
    by (rule first_at_unique) (rule lmemfind_spec [OF find_init_le])
  show ?thesis
  proof (cases r)
    case None
    with F step r show ?thesis by (simp add: option.map_sel flip: F)
  next
    case (Some x)
    obtain j e ms where x: "x = (j, e, ms)" by (cases x) auto
    from R Some x have m: "pmatch s p [] j 0 e (caps ms)" "src ms = s" "wf_ms ms e" "e \<le> length s" "j \<le> e"
      by (auto simp: search_result_def)
    then have l: "occurs_at p s j" "e = j + length p" "caps ms = []"
      using literal_pmatch [OF assms(2), of 0 j s "[]" e "caps ms"] by auto
    from push_whole [OF m(3,2) l(3) m(5,4) assms(3)] l have "push_captures used ms (Some (j, e)) = Ok [PStr p]"
      by (simp add: occurs_at_def)
    with F step r Some x show ?thesis by (simp flip: F)
  qed
qed

theorem match_literal_witness: "str_match 3 ''one two'' ''two'' (Some 2) = Ok [PStr ''two'']"
proof -
  have "literal ''two''" by code_simp
  moreover have "lmemfind ''one two'' (find_init 2 (length ''one two'')) ''two'' = Some 4" by code_simp
  ultimately show ?thesis using match_literal [of "''one two''" "''two''" 3 2] by simp
qed

text \<open>\<open>)\<close> is missing from \<open>SPECIALS\<close>: \<open>find\<close> accepts a pattern that \<open>match\<close> rejects.\<close>

lemma find_close_paren:
  "str_find 2 ''f(x)'' '')'' None False = Ok [PInt 4, PInt 4]"
  "str_match 2 ''f(x)'' '')'' None = lerror ''invalid pattern capture''"
  by code_simp+

text \<open>
  C22: A call of the iterator of \<open>gmatch\<close> gives the leftmost match at or after the position it
  keeps and moves that position forward, at most one past the end of the subject, so the iteration
  ends.
\<close>

theorem gmatch_progress:
  assumes "int (length s) < 2 ^ 63"
  shows "safe (\<lambda>r. case r of
      None \<Rightarrow> \<forall>j e cs. start \<le> j \<longrightarrow> j \<le> length s \<longrightarrow> \<not> pmatch s p [] j 0 e cs
    | Some (vs, start') \<Rightarrow> start < start' \<and> start' \<le> length s + 1
        \<and> (\<exists>j e cs. start \<le> j \<and> pmatch s p [] j 0 e cs \<and> vs = match_values s (Some (j, e)) cs
            \<and> start' = (if e = j then j + 1 else e)
            \<and> (\<forall>k e cs. start \<le> k \<longrightarrow> k < j \<longrightarrow> \<not> pmatch s p [] k 0 e cs)))
    (gmatch_aux used s p start)"
  unfolding gmatch_aux_def
proof (rule safe_bind [OF gmatch_loop_spec [OF base_new [OF assms]]], goal_cases)
  case (1 r)
  then have R: "search_result s p 0 False start r" by simp
  show ?case
  proof (cases r)
    case None
    with R show ?thesis by (auto simp: search_result_def first_at_def starts_at_def)
  next
    case (Some x)
    obtain j e ms where x: "x = (j, e, ms)" by (cases x) auto
    from R Some x have j: "start \<le> j" "j \<le> e" "e \<le> length s" "src ms = s" "wf_ms ms e"
      and m: "pmatch s p [] j 0 e (caps ms)"
      and left: "\<And>k. start \<le> k \<Longrightarrow> k < j \<Longrightarrow> \<not> starts_at s p 0 k"
      by (auto simp: search_result_def first_at_def)
    have left': "\<not> pmatch s p [] k 0 e cs" if "start \<le> k" "k < j" for k e cs
      using left [OF that] that j by (auto simp: starts_at_def)
    have A: "safe (\<lambda>vs. vs = match_values s (Some (j, e)) (caps ms)) (push_captures used ms (Some (j, e)))"
      using push_captures_spec [OF j(5), of "Some (j, e)" used] j by simp
    have B: "\<exists>j' e' cs. start \<le> j' \<and> pmatch s p [] j' 0 e' cs
        \<and> match_values s (Some (j, e)) (caps ms) = match_values s (Some (j', e')) cs
        \<and> (if e = j then Suc e else e) = (if e' = j' then j' + 1 else e')
        \<and> (\<forall>k e cs. start \<le> k \<longrightarrow> k < j' \<longrightarrow> \<not> pmatch s p [] k 0 e cs)"
      by (intro exI [of _ j] exI [of _ e] exI [of _ "caps ms"]) (use j m left' in simp)
    have C: "start < (if e = j then Suc e else e)" "(if e = j then Suc e else e) \<le> length s + 1"
      using j by auto
    show ?thesis unfolding Some x option.case prod.case Let_def
    proof (rule safe_bind [OF A], goal_cases)
      case (1 vs)
      show ?case unfolding 1(2) safe_simps option.case prod.case using B C by blast
    qed
  qed
qed

theorem gmatch_progress_witness:
  "\<exists>j e cs. 2 \<le> j \<and> pmatch ''k1  k2'' ''%a%d'' [] j 0 e cs \<and> 6 = (if e = j then j + 1 else e)"
proof -
  have v: "gmatch_aux 0 ''k1  k2'' ''%a%d'' 2 = Ok (Some ([PStr ''k2''], 6))" by code_simp
  have "int (length ''k1  k2'') < 2 ^ 63" by simp
  from gmatch_progress [OF this, of 2 "''%a%d''" 0] show ?thesis
    unfolding v safe_simps option.case prod.case by blast
qed

section \<open>gsub\<close>

text \<open>
  C21: \<open>gsub\<close> ends when the Lua code of the replacement does. Unless it raises an error, its result is the subject with
  the substitutions made and every other byte kept: each match is the leftmost from the end of
  the one before, its replacement is the string with the captures put in or what the function or table
  gives, the match itself when that is nil or false, and the substitutions go on until no match is left
  or as many are made as asked, at most one per position. Replacing each match by itself leaves the
  subject as it was.
\<close>

theorem gsub_correct:
  fixes repl :: "'st repl" and s p :: string
  defines "anchor \<equiv> at_or_nul p 0 = CHR 0x5E"
  defines "p0 \<equiv> if anchor then 1 else 0"
  assumes "int (length s) < 2 ^ 63" and "repl_safe repl"
  shows "safe (\<lambda>((r, n), st').
      (\<exists>xs. substs fmt repl s p p0 anchor (case maxs of Some m \<Rightarrow> m | None \<Rightarrow> cast_int (int (length s) + 1)) 0 st xs st'
         \<and> r = weave s 0 xs \<and> n = int (length xs))
      \<and> 0 \<le> n \<and> n \<le> int (length s) + 1 \<and> (\<forall>m. maxs = Some m \<longrightarrow> n \<le> max 0 m) \<and> (repl = RStr ''%0'' \<longrightarrow> r = s))
    (str_gsub fmt used s p repl maxs st)"
proof -
  define max_s where "max_s = (case maxs of Some m \<Rightarrow> m | None \<Rightarrow> cast_int (int (length s) + 1))"
  let ?Q = "\<lambda>((r, n), st'). (\<exists>xs. substs fmt repl s p p0 anchor max_s 0 st xs st' \<and> r = weave s 0 xs \<and> n = int (length xs))
      \<and> 0 \<le> n \<and> n \<le> int (length s) + 1 \<and> (\<forall>m. maxs = Some m \<longrightarrow> n \<le> max 0 m) \<and> (repl = RStr ''%0'' \<longrightarrow> r = s)"
  have p0: "p0 \<le> length p" using at_or_nul_pos [of p 0] by (simp add: p0_def anchor_def Suc_le_eq)
  have c: "getc p 0 = Ok (at_or_nul p 0)" by (simp add: getc_at)
  note L = gsub_loop_spec [OF assms(4) p0 base_new [OF assms(3)], of 0 "Suc (Suc (length s))" fmt anchor max_s 0 st "[]" used]
  have K: "safe ?Q ((\<lambda>(n, rest, b, st'). rbind (lstring_at s (int rest) (int (length s) - int rest)) (\<lambda>w. Ok ((b @ w, n), st'))) x)"
    if "gsub_step fmt s repl p p0 anchor max_s 0 st 0 [] x" for x
  proof -
    obtain n rest b st' where x: "x = (n, rest, b, st')" by (cases x)
    from that obtain xs where xs: "substs fmt repl s p p0 anchor max_s 0 st xs st'" "n = int (length xs)"
      "b @ drop rest s = weave s 0 xs" "rest \<le> length s" by (auto simp: x gsub_step_def)
    have "\<forall>m. maxs = Some m \<longrightarrow> n \<le> max 0 m" using substs_count [OF xs(1)] xs(2) by (auto simp: max_s_def)
    moreover have "n \<le> int (length s) + 1" using substs_length [OF xs(1)] xs(2) by simp
    moreover have "repl = RStr ''%0'' \<longrightarrow> weave s 0 xs = s" using weave_same [OF xs(1)] by simp
    ultimately show ?thesis using xs by (auto simp: x lstring_at_ok)
  qed
  have "str_gsub fmt used s p repl maxs st =
      rbind (gsub_loop (Suc (Suc (length s))) fmt used repl p p0 anchor max_s 0 (new_state s) st 0 [])
        (\<lambda>(n, rest, b, st'). rbind (lstring_at s (int rest) (int (length s) - int rest)) (\<lambda>w. Ok ((b @ w, n), st')))"
    by (simp add: str_gsub_def Let_def c anchor_def p0_def max_s_def del: gsub_loop.simps)
  then show ?thesis using safe_bind [OF L K] by (simp add: max_s_def del: gsub_loop.simps)
qed

text \<open>A table that has a replacement for one of the two words\<close>

definition one_word :: "unit repl" where
  "one_word = RTab (\<lambda>st v. Ok (if v = PStr ''hello'' then PStr ''bye'' else PNil, st))"

theorem gsub_correct_witness:
  "str_gsub (\<lambda>n. []) 3 ''hello world'' ''%w+'' one_word None () = Ok ((''bye world'', 2), ())
   \<and> (\<exists>xs. substs (\<lambda>n. []) one_word ''hello world'' ''%w+'' 0 False 12 0 () xs () \<and> weave ''hello world'' 0 xs = ''bye world''
        \<and> length xs = 2)"
proof -
  have run: "str_gsub (\<lambda>n. []) 3 ''hello world'' ''%w+'' one_word None () = Ok ((''bye world'', 2), ())" by code_simp
  have c: "cast_int (int (length ''hello world'') + 1) = 12" "at_or_nul ''%w+'' 0 \<noteq> CHR 0x5E" by code_simp+
  from gsub_correct [of "''hello world''" one_word "\<lambda>n. []" "''%w+''" None "()" 3] run c
  show ?thesis by (auto simp: repl_safe_def one_word_def)
qed

text \<open>A replacement that ends in the escape character appends a null character.\<close>

lemma gsub_trailing_escape:
  "str_gsub (\<lambda>n. []) 3 ''abc'' ''b'' (RStr ''%'') None () = Ok ((''a'' @ [NUL] @ ''c'', 1), ())"
  by code_simp

section \<open>Substrings and bytes\<close>

lemma upto_filter: "filter (\<lambda>k. a \<le> k \<and> k \<le> b) [1..int n] = [max 1 a..min b (int n)]"
  by (rule sorted_distinct_set_unique) (auto intro: sorted_wrt_filter)

lemma upto_shift: "map (\<lambda>k. k + 1) [a..b] = [a + 1..b + (1::int)]"
  by (induction a b rule: upto.induct) (simp add: upto.simps)

lemma map_nth_upto: "0 \<le> a \<Longrightarrow> b < int (length s) \<Longrightarrow> a \<le> b \<Longrightarrow>
    map (\<lambda>k. s ! nat k) [a..b] = take (nat (b - a + 1)) (drop (nat a) s)"
proof (rule nth_equalityI)
  assume a: "0 \<le> a" "b < int (length s)" "a \<le> b"
  show "length (map (\<lambda>k. s ! nat k) [a..b]) = length (take (nat (b - a + 1)) (drop (nat a) s))"
    using a by simp
  fix i
  assume "i < length (map (\<lambda>k. s ! nat k) [a..b])"
  then show "map (\<lambda>k. s ! nat k) [a..b] ! i = take (nat (b - a + 1)) (drop (nat a) s) ! i"
    using a by (simp add: nth_upto nat_add_distrib)
qed

text \<open>
  C40: \<open>sub\<close> reads only bytes of the string and returns those at the positions between its two
  arguments, a negative position counting from the end.
\<close>

theorem str_sub_correct:
  "str_sub s i (Some j) =
    Ok (map (\<lambda>k. s ! nat (k - 1)) (filter (\<lambda>k. posrelat i (length s) \<le> k \<and> k \<le> posrelat j (length s)) [1..int (length s)]))"
proof -
  let ?a = "max 1 (posrelat i (length s))" and ?b = "min (posrelat j (length s)) (int (length s))"
  have M: "map (\<lambda>k. s ! nat (k - 1)) [?a..?b] = take (nat (?b - ?a + 1)) (drop (nat (?a - 1)) s)" if "?a \<le> ?b"
  proof -
    have "[?a..?b] = map (\<lambda>k. k + 1) [?a - 1..?b - 1]"
      by (simp add: upto_shift)
    then have "map (\<lambda>k. s ! nat (k - 1)) [?a..?b] = map (\<lambda>k. s ! nat k) [?a - 1..?b - 1]" by simp
    also have "\<dots> = take (nat (?b - 1 - (?a - 1) + 1)) (drop (nat (?a - 1)) s)"
      by (rule map_nth_upto) (use that in auto)
    finally show ?thesis by simp
  qed
  have "str_sub s i (Some j) = (if ?a \<le> ?b then lstring_at s (?a - 1) (?b - ?a + 1) else Ok [])"
    by (auto simp: str_sub_def Let_def max_def min_def)
  also have "\<dots> = Ok (map (\<lambda>k. s ! nat (k - 1)) [?a..?b])"
    using M by (auto simp: lstring_at_def)
  finally show ?thesis unfolding upto_filter .
qed

lemma push_bytes_ok: "k + n \<le> length s \<Longrightarrow> push_bytes s k n = Ok (map code (take n (drop k s)))"
proof (induction n arbitrary: k)
  case (Suc n)
  then have "getc s k = Ok (s ! k)" "drop k s = s ! k # drop (Suc k) s"
    by (simp_all add: getc_def Cons_nth_drop_Suc)
  with Suc show ?case by simp
qed simp

lemma char_loop_ok: "char_loop i (map code s) = Ok s"
  using code_bounds by (induction s arbitrary: i) simp_all

text \<open>
  \<open>byte\<close> over a whole string followed by \<open>char\<close> gives the string back, whenever its
  bytes fit on the stack.
\<close>

theorem byte_char_roundtrip:
  assumes "int used + int (length s) \<le> 2048"
  shows "rbind (str_byte used s (Some 1) (Some (- 1))) str_char = Ok s"
proof (cases "s = []")
  case True
  then show ?thesis by (simp add: str_byte_def posrelat_def cast_size_def str_char_def)
next
  case False
  let ?l = "int (length s)"
  have l: "0 < ?l" "?l \<le> 2048" using False assms by simp_all
  have "cast_size ?l = ?l" using l by (simp add: cast_size_def)
  moreover have "cast_int ?l = ?l" using l by (simp add: cast_int_def)
  ultimately have "str_byte used s (Some 1) (Some (- 1)) = Ok (map code s)"
    using l assms push_bytes_ok [of 0 "length s" s]
    by (simp add: str_byte_def posrelat_def Let_def luaL_checkstack_def lua_checkstack_def)
  then show ?thesis by (simp add: str_char_def char_loop_ok)
qed

theorem byte_char_roundtrip_witness: "rbind (str_byte 3 ''Lua'' (Some 1) (Some (- 1))) str_char = Ok ''Lua''"
  using byte_char_roundtrip [of 3 "''Lua''"] by simp

text \<open>An end far before the start of the string is taken for one after its end.\<close>

lemma str_byte_negative_end: "str_byte 3 ''Lua'' (Some 1) (Some (- 5)) = Ok [76, 117, 97]"
  by code_simp

lemma str_reverse_rev: "str_reverse s = Ok (rev s)"
proof -
  have "n \<le> length s \<Longrightarrow> reverse_loop s n = Ok (rev (take n s))" for n
    by (induction n) (simp_all add: getc_def take_Suc_conv_app_nth)
  from this [of "length s"] show ?thesis by (simp add: str_reverse_def)
qed

section \<open>Formats\<close>

text \<open>
  The form that \<open>format\<close> builds for a conversion fits its buffer of \<open>MAX_FORMAT\<close> bytes,
  also after the length modifier is inserted, and the scan stays inside the format string.
\<close>

theorem form_fits:
  assumes "i \<le> length s"
  shows "safe (\<lambda>(form, long). length form < MAX_FORMAT \<and> length long < MAX_FORMAT)
    (rbind (scanformat s i) (\<lambda>(p, form). rbind (addintlen form) (\<lambda>long. Ok (form, long))))"
proof (rule safe_bind [OF scanformat_spec [OF assms]], clarify)
  fix p and form :: string
  assume "form \<noteq> []" "length form + length LUA_INTFRMLEN < MAX_FORMAT"
  then show "safe (\<lambda>(form, long). length form < MAX_FORMAT \<and> length long < MAX_FORMAT)
      (rbind (addintlen form) (\<lambda>long. Ok (form, long)))"
    by (cases form rule: rev_cases) (simp_all add: addintlen_spec)
qed

theorem form_fits_witness:
  "rbind (scanformat ''-+ #099.99d'' 0) (\<lambda>(p, form). rbind (addintlen form) (\<lambda>long. Ok (length form, length long)))
     = Ok (12, 13) \<and> 13 < MAX_FORMAT"
proof -
  have v: "rbind (scanformat ''-+ #099.99d'' 0) (\<lambda>(p, form). rbind (addintlen form) (\<lambda>long. Ok (form, long)))
      = Ok (''%-+ #099.99d'', ''%-+ #099.99ld'')" by code_simp
  have "rbind (scanformat ''-+ #099.99d'' 0) (\<lambda>(p, form). rbind (addintlen form) (\<lambda>long. Ok (length form, length long)))
      = Ok (12, 13)" by code_simp
  with form_fits [of 0 "''-+ #099.99d''"] v show ?thesis by simp
qed

end
