(* ===== verification/LuaDump.thy ===== *)
theory LuaDump
  imports LuaProto LuaZio LuaNumber LuaObject
begin

text \<open>
  Writing a function as a precompiled chunk (\<^verbatim>\<open>ldump.c\<close>). The writer is a parameter of the
  program: it gets its data and a block, and returns a status and its new data.
\<close>

section \<open>Bytes of C values\<close>

text \<open>The \<open>n\<close> bytes of an unsigned value, least significant first, and the value of bytes.\<close>

fun le_bytes :: "nat \<Rightarrow> int \<Rightarrow> string" where
  "le_bytes 0 x = []"
| "le_bytes (Suc n) x = chr (x mod 256) # le_bytes n (x div 256)"

fun le_value :: "string \<Rightarrow> int" where
  "le_value [] = 0"
| "le_value (c # cs) = code c + 256 * le_value cs"

section \<open>The writer\<close>

type_synonym 'd writer = "'d \<Rightarrow> string \<Rightarrow> int \<times> 'd"

record 'd DumpState =
  wdata :: 'd
  strip :: bool
  status :: int

definition DumpBlock :: "'d writer \<Rightarrow> string \<Rightarrow> 'd DumpState \<Rightarrow> 'd DumpState" where
  "DumpBlock w b D =
     (if status D = 0 then (case w (wdata D) b of (s, d) \<Rightarrow> D\<lparr>wdata := d, status := s\<rparr>) else D)"

definition DumpChar :: "'d writer \<Rightarrow> int \<Rightarrow> 'd DumpState \<Rightarrow> 'd DumpState" where
  "DumpChar w y D = DumpBlock w (le_bytes 1 y) D"

definition DumpInt :: "'d writer \<Rightarrow> int \<Rightarrow> 'd DumpState \<Rightarrow> 'd DumpState" where
  "DumpInt w x D = DumpBlock w (le_bytes 4 x) D"

definition DumpNumber :: "'d writer \<Rightarrow> lua_Number \<Rightarrow> 'd DumpState \<Rightarrow> 'd DumpState" where
  "DumpNumber w x D = DumpBlock w (le_bytes 8 (uint x)) D"

text \<open>The elements of the vector are 4 bytes wide in both uses.\<close>

definition DumpVector :: "'d writer \<Rightarrow> int list \<Rightarrow> 'd DumpState \<Rightarrow> 'd DumpState" where
  "DumpVector w xs D = DumpBlock w (concat (map (le_bytes 4) xs)) (DumpInt w (int (length xs)) D)"

definition DumpString :: "'d writer \<Rightarrow> string option \<Rightarrow> 'd DumpState \<Rightarrow> 'd DumpState" where
  "DumpString w s D =
     (case s of
        None \<Rightarrow> DumpBlock w (le_bytes 8 0) D
      | Some s \<Rightarrow> DumpBlock w (s @ [CHR 0x00]) (DumpBlock w (le_bytes 8 (int (length s) + 1)) D))"

definition DumpCode :: "'d writer \<Rightarrow> Proto \<Rightarrow> 'd DumpState \<Rightarrow> 'd DumpState" where
  "DumpCode w f D = DumpVector w (map uint (proto_code f)) D"

definition ktag :: "konstant \<Rightarrow> int" where
  "ktag k = (case k of KNil \<Rightarrow> 0 | KBoolean _ \<Rightarrow> 1 | KNumber _ \<Rightarrow> 3 | KString _ \<Rightarrow> 4 | KNullString \<Rightarrow> 4)"

text \<open>One constant: its tag and its value.\<close>

definition DumpConstant :: "'d writer \<Rightarrow> konstant \<Rightarrow> 'd DumpState \<Rightarrow> 'd DumpState" where
  "DumpConstant w k D =
     (let D = DumpChar w (ktag k) D
      in case k of
           KNil \<Rightarrow> D
         | KBoolean b \<Rightarrow> DumpChar w (uint b) D
         | KNumber x \<Rightarrow> DumpNumber w x D
         | KString s \<Rightarrow> DumpString w (Some s) D
         | KNullString \<Rightarrow> DumpString w None D)"

definition DumpDebug :: "'d writer \<Rightarrow> Proto \<Rightarrow> 'd DumpState \<Rightarrow> 'd DumpState" where
  "DumpDebug w f D =
     (let D = DumpVector w (if strip D then [] else lineinfo f) D;
          vs = (if strip D then [] else locvars f);
          D = DumpInt w (int (length vs)) D;
          D = fold (\<lambda>v D. DumpInt w (endpc v) (DumpInt w (startpc v) (DumpString w (varname v) D))) vs D;
          us = (if strip D then [] else upvalues f);
          D = DumpInt w (int (length us)) D
      in fold (DumpString w) us D)"

text \<open>
  A function and its constants, its nested functions last. Strings are interned: the source is
  that of the enclosing function when its bytes are.
\<close>

fun DumpFunction :: "'d writer \<Rightarrow> string option \<Rightarrow> Proto \<Rightarrow> 'd DumpState \<Rightarrow> 'd DumpState" where
  "DumpFunction w p (Proto ks cs ps li lv uv so ld lld nu np va mx) D =
     (let f = Proto ks cs ps li lv uv so ld lld nu np va mx;
          D = DumpString w (if so = p \<or> strip D then None else so) D;
          D = DumpInt w ld D;
          D = DumpInt w lld D;
          D = DumpChar w (uint nu) D;
          D = DumpChar w (uint np) D;
          D = DumpChar w (uint va) D;
          D = DumpChar w (uint mx) D;
          D = DumpCode w f D;
          D = DumpInt w (int (length ks)) D;
          D = fold (DumpConstant w) ks D;
          D = DumpInt w (int (length ps)) D;
          D = fold (\<lambda>g. DumpFunction w so g) ps D
      in DumpDebug w f D)"

section \<open>Chunks\<close>

abbreviation LUAC_VERSION :: int where "LUAC_VERSION \<equiv> 0x51"
definition LUAC_FORMAT :: int where "LUAC_FORMAT = 0"
abbreviation LUAC_HEADERSIZE :: nat where "LUAC_HEADERSIZE \<equiv> 12"

definition LUA_SIGNATURE :: string where
  "LUA_SIGNATURE = CHR 0x1B # ''Lua''"

text \<open>The bytes after the signature: version, format, byte order, four sizes, integral numbers.\<close>

definition luaU_header :: string where
  "luaU_header = LUA_SIGNATURE @
     map chr [LUAC_VERSION, LUAC_FORMAT, 1, 4, 8, 4, 8,
       if num_eq 0x3FE0000000000000 0 then 1 else 0]"

definition DumpHeader :: "'d writer \<Rightarrow> 'd DumpState \<Rightarrow> 'd DumpState" where
  "DumpHeader w D = DumpBlock w luaU_header D"

definition luaU_dump :: "'d writer \<Rightarrow> Proto \<Rightarrow> 'd \<Rightarrow> bool \<Rightarrow> int \<times> 'd" where
  "luaU_dump w f data st =
     (let D = DumpFunction w None f (DumpHeader w \<lparr>wdata = data, strip = st, status = 0\<rparr>)
      in (status D, wdata D))"

end
