(* ===== verification/LuaUndump.thy ===== *)
theory LuaUndump
  imports LuaDump LuaCheck
begin

text \<open>
  Loading a precompiled chunk (\<^verbatim>\<open>lundump.c\<close>). A loader is a step on the stream; \<open>nm\<close> is the
  name of the chunk for the messages. Allocation succeeds.
\<close>

type_synonym 'a loader = "(ZIO, 'a) step"

text \<open>\<open>error\<close>, by the macro \<open>IF\<close>\<close>

definition load_error :: "string \<Rightarrow> string \<Rightarrow> 'a loader" where
  "load_error nm why z = Err (SyntaxError (nm @ '': '' @ why @ '' in precompiled chunk''))"

definition LoadBlock :: "string \<Rightarrow> nat \<Rightarrow> string loader" where
  "LoadBlock nm n = sbind (luaZ_read n) (\<lambda>(r, bs).
     if r \<noteq> 0 then load_error nm ''unexpected end'' else sret bs)"

text \<open>A signed value of \<open>n\<close> bytes.\<close>

definition signed_value :: "string \<Rightarrow> int" where
  "signed_value bs =
     (let x = le_value bs; m = 256 ^ length bs
      in if 2 * x < m then x else x - m)"

text \<open>\<open>char\<close> is signed.\<close>

definition LoadChar :: "string \<Rightarrow> int loader" where
  "LoadChar nm = sbind (LoadBlock nm 1) (\<lambda>bs. sret (signed_value bs))"

definition LoadByte :: "string \<Rightarrow> byte loader" where
  "LoadByte nm = sbind (LoadChar nm) (\<lambda>x. sret (word_of_int x))"

definition LoadInt :: "string \<Rightarrow> int loader" where
  "LoadInt nm = sbind (LoadBlock nm 4) (\<lambda>bs.
     let x = signed_value bs in if x < 0 then load_error nm ''bad integer'' else sret x)"

definition LoadNumber :: "string \<Rightarrow> lua_Number loader" where
  "LoadNumber nm = sbind (LoadBlock nm 8) (\<lambda>bs. sret (word_of_int (le_value bs)))"

text \<open>
  The last byte is not part of the string. The code gets room for \<open>size\<close> bytes before it reads them, and
  would raise a memory error for a size that is too large, where here the stream ends first.
\<close>

definition LoadString :: "string \<Rightarrow> string option loader" where
  "LoadString nm = sbind (LoadBlock nm 8) (\<lambda>bs.
     let size = le_value bs
     in if size = 0 then sret None
        else sbind (LoadBlock nm (nat size)) (\<lambda>s. sret (Some (take (nat (size - 1)) s))))"

text \<open>The values of a block of 4-byte elements.\<close>

fun words4 :: "string \<Rightarrow> string list" where
  "words4 (a # b # c # d # s) = [a, b, c, d] # words4 s"
| "words4 _ = []"

definition LoadCode :: "string \<Rightarrow> Instruction list loader" where
  "LoadCode nm = sbind (LoadInt nm) (\<lambda>n. sbind (LoadBlock nm (nat n * 4)) (\<lambda>bs.
     sret (map (\<lambda>w. word_of_int (le_value w)) (words4 bs))))"

text \<open>\<open>for (i = 0; i < n; i++)\<close>\<close>

fun load_n :: "nat \<Rightarrow> 'a loader \<Rightarrow> 'a list loader" where
  "load_n 0 m = sret []"
| "load_n (Suc n) m = sbind m (\<lambda>x. sbind (load_n n m) (\<lambda>xs. sret (x # xs)))"

text \<open>A boolean constant keeps the byte it is loaded from, sign-extended.\<close>

definition LoadConstant :: "string \<Rightarrow> konstant loader" where
  "LoadConstant nm = sbind (LoadChar nm) (\<lambda>t.
     if t = 0 then sret KNil
     else if t = 1 then sbind (LoadChar nm) (\<lambda>b. sret (KBoolean (word_of_int b)))
     else if t = 3 then sbind (LoadNumber nm) (\<lambda>x. sret (KNumber x))
     else if t = 4 then sbind (LoadString nm) (\<lambda>s.
       sret (case s of None \<Rightarrow> KNullString | Some s \<Rightarrow> KString s))
     else load_error nm ''bad constant'')"

text \<open>The constants, then the nested functions.\<close>

definition LoadConstants :: "Proto loader \<Rightarrow> string \<Rightarrow> (konstant list \<times> Proto list) loader" where
  "LoadConstants func nm =
     sbind (LoadInt nm) (\<lambda>n. sbind (load_n (nat n) (LoadConstant nm)) (\<lambda>ks.
     sbind (LoadInt nm) (\<lambda>n. sbind (load_n (nat n) func) (\<lambda>ps. sret (ks, ps)))))"

definition LoadLocVar :: "string \<Rightarrow> LocVar loader" where
  "LoadLocVar nm = sbind (LoadString nm) (\<lambda>s. sbind (LoadInt nm) (\<lambda>a. sbind (LoadInt nm) (\<lambda>b.
     sret \<lparr>varname = s, startpc = a, endpc = b\<rparr>)))"

definition LoadDebug :: "string \<Rightarrow> (int list \<times> LocVar list \<times> string option list) loader" where
  "LoadDebug nm =
     sbind (LoadInt nm) (\<lambda>n. sbind (LoadBlock nm (nat n * 4)) (\<lambda>li.
     sbind (LoadInt nm) (\<lambda>n. sbind (load_n (nat n) (LoadLocVar nm)) (\<lambda>lv.
     sbind (LoadInt nm) (\<lambda>n. sbind (load_n (nat n) (LoadString nm)) (\<lambda>uv.
     sret (map signed_value (words4 li), lv, uv)))))))"

text \<open>The checks at the end of a function.\<close>

definition load_checked :: "string \<Rightarrow> Proto \<Rightarrow> Proto loader" where
  "load_checked nm f z = rbind (luaG_checkcode f) (\<lambda>ok.
     if \<not> ok then load_error nm ''bad code'' z else Ok (f, z))"

text \<open>The fuel bounds the nesting of functions.\<close>

fun LoadFunction :: "nat \<Rightarrow> string \<Rightarrow> string option \<Rightarrow> Proto loader" where
  "LoadFunction 0 nm p z = Diverge"
| "LoadFunction (Suc d) nm p z =
     sbind (LoadString nm) (\<lambda>s.
     let so = (case s of None \<Rightarrow> p | Some _ \<Rightarrow> s) in
     sbind (LoadInt nm) (\<lambda>ld. sbind (LoadInt nm) (\<lambda>lld.
     sbind (LoadByte nm) (\<lambda>nu. sbind (LoadByte nm) (\<lambda>np. sbind (LoadByte nm) (\<lambda>va. sbind (LoadByte nm) (\<lambda>mx.
     sbind (LoadCode nm) (\<lambda>cs.
     sbind (LoadConstants (LoadFunction d nm so) nm) (\<lambda>(ks, ps).
     sbind (LoadDebug nm) (\<lambda>(li, lv, uv).
     load_checked nm (Proto ks cs ps li lv uv so ld lld nu np va mx))))))))))) z"

lemmas LoadFunction_Suc = ext [OF LoadFunction.simps(2)]

definition LoadHeader :: "string \<Rightarrow> unit loader" where
  "LoadHeader nm = sbind (LoadBlock nm LUAC_HEADERSIZE) (\<lambda>s.
     if s \<noteq> luaU_header then load_error nm ''bad header'' else sret ())"

definition chunk_name :: "string \<Rightarrow> string" where
  "chunk_name name =
     (case name of
        [] \<Rightarrow> name
      | c # cs \<Rightarrow> if c = CHR ''@'' \<or> c = CHR ''='' then cs
                 else if c = hd LUA_SIGNATURE then ''binary string'' else name)"

text \<open>A function takes at least one byte of the stream, so its length is enough fuel.\<close>

definition luaU_undump :: "string \<Rightarrow> Proto loader" where
  "luaU_undump name z =
     sbind (LoadHeader (chunk_name name)) (\<lambda>_.
       LoadFunction (length (contents z)) (chunk_name name) (Some ''=?'')) z"

end
