(* ===== verification/LuaDumpSpec.thy ===== *)
theory LuaDumpSpec
  imports LuaUndump
begin

text \<open>
  The format of precompiled chunks: the blocks that \<open>luaU_dump\<close> writes, and that the loaders of
  \<^verbatim>\<open>lundump.c\<close> read them back.
\<close>

section \<open>Blocks\<close>

text \<open>What a writer gets: the blocks in order, up to the first status that is not 0.\<close>

fun send :: "'d writer \<Rightarrow> string list \<Rightarrow> 'd \<Rightarrow> int \<times> 'd" where
  "send w [] d = (0, d)"
| "send w (b # bs) d = (case w d b of (s, d') \<Rightarrow> if s = 0 then send w bs d' else (s, d'))"

definition vector_blocks :: "int list \<Rightarrow> string list" where
  "vector_blocks xs = [le_bytes 4 (int (length xs)), concat (map (le_bytes 4) xs)]"

definition string_blocks :: "string option \<Rightarrow> string list" where
  "string_blocks s =
     (case s of None \<Rightarrow> [le_bytes 8 0] | Some s \<Rightarrow> [le_bytes 8 (int (length s) + 1), s @ [CHR 0x00]])"

definition konstant_blocks :: "konstant \<Rightarrow> string list" where
  "konstant_blocks k = le_bytes 1 (ktag k) #
     (case k of
        KNil \<Rightarrow> [] | KBoolean b \<Rightarrow> [le_bytes 1 (uint b)] | KNumber x \<Rightarrow> [le_bytes 8 (uint x)]
      | KString s \<Rightarrow> string_blocks (Some s) | KNullString \<Rightarrow> string_blocks None)"

definition locvar_blocks :: "LocVar \<Rightarrow> string list" where
  "locvar_blocks v = string_blocks (varname v) @ [le_bytes 4 (startpc v), le_bytes 4 (endpc v)]"

definition list_blocks :: "('a \<Rightarrow> string list) \<Rightarrow> 'a list \<Rightarrow> string list" where
  "list_blocks enc xs = le_bytes 4 (int (length xs)) # concat (map enc xs)"

lemma list_blocks_cong [fundef_cong]:
  "xs = ys \<Longrightarrow> (\<And>x. x \<in> set ys \<Longrightarrow> f x = g x) \<Longrightarrow> list_blocks f xs = list_blocks g ys"
  unfolding list_blocks_def by (metis map_cong)

definition debug_blocks :: "int list \<Rightarrow> LocVar list \<Rightarrow> string option list \<Rightarrow> string list" where
  "debug_blocks li lv uv = vector_blocks li @ list_blocks locvar_blocks lv @ list_blocks string_blocks uv"

fun function_blocks :: "bool \<Rightarrow> string option \<Rightarrow> Proto \<Rightarrow> string list" where
  "function_blocks st p (Proto ks cs ps li lv uv so ld lld nu np va mx) =
     string_blocks (if so = p \<or> st then None else so) @ [le_bytes 4 ld, le_bytes 4 lld]
     @ map (\<lambda>x. le_bytes 1 (uint x)) [nu, np, va, mx] @ vector_blocks (map uint cs)
     @ list_blocks konstant_blocks ks @ list_blocks (\<lambda>g. function_blocks st so g) ps
     @ debug_blocks (if st then [] else li) (if st then [] else lv) (if st then [] else uv)"

definition chunk_blocks :: "bool \<Rightarrow> Proto \<Rightarrow> string list" where
  "chunk_blocks st f = luaU_header # function_blocks st None f"

section \<open>Dumping writes the blocks\<close>

lemma strip_DumpBlock [simp]: "strip (DumpBlock w b D) = strip D"
  by (simp add: DumpBlock_def split: prod.splits)

abbreviation emit :: "'d writer \<Rightarrow> string list \<Rightarrow> 'd DumpState \<Rightarrow> 'd DumpState" where
  "emit w bs D \<equiv> fold (DumpBlock w) bs D"

lemma strip_emit [simp]: "strip (emit w bs D) = strip D"
  by (induction bs arbitrary: D) simp_all

lemma fold_emit:
  "(\<And>x D. x \<in> set xs \<Longrightarrow> strip D = st \<Longrightarrow> f x D = emit w (enc x) D) \<Longrightarrow> strip D = st \<Longrightarrow>
    fold f xs D = emit w (concat (map enc xs)) D"
  by (induction xs arbitrary: D) simp_all

lemma DumpString_blocks: "DumpString w s D = emit w (string_blocks s) D"
  by (cases s) (simp_all add: DumpString_def string_blocks_def)

lemma DumpConstant_blocks: "DumpConstant w k D = emit w (konstant_blocks k) D"
  by (cases k) (simp_all add: DumpConstant_def konstant_blocks_def DumpChar_def DumpNumber_def
      DumpString_blocks)

lemma DumpVector_blocks: "DumpVector w xs D = emit w (vector_blocks xs) D"
  by (simp add: DumpVector_def vector_blocks_def DumpInt_def)

lemma DumpList_blocks:
  "(\<And>x D. x \<in> set xs \<Longrightarrow> strip D = st \<Longrightarrow> f x D = emit w (enc x) D) \<Longrightarrow> strip D = st \<Longrightarrow>
    fold f xs (DumpInt w (int (length xs)) D) = emit w (list_blocks enc xs) D"
  by (subst fold_emit [of xs st f w enc]) (simp_all add: list_blocks_def DumpInt_def)

lemma DumpDebug_blocks:
  "DumpDebug w f D = emit w (debug_blocks (if strip D then [] else lineinfo f)
     (if strip D then [] else locvars f) (if strip D then [] else upvalues f)) D"
proof -
  have v: "fold (\<lambda>v D. DumpInt w (endpc v) (DumpInt w (startpc v) (DumpString w (varname v) D))) vs
      (DumpInt w (int (length vs)) D) = emit w (list_blocks locvar_blocks vs) D" for vs and D :: "'a DumpState"
    by (rule DumpList_blocks [OF _ refl]) (simp add: locvar_blocks_def DumpInt_def DumpString_blocks)
  have u: "fold (DumpString w) us (DumpInt w (int (length us)) D) = emit w (list_blocks string_blocks us) D"
    for us and D :: "'a DumpState"
    by (rule DumpList_blocks [OF _ refl]) (simp add: DumpString_blocks)
  show ?thesis
    by (simp add: DumpDebug_def Let_def DumpVector_blocks v u debug_blocks_def)
qed

lemma DumpFunction_blocks:
  "strip D = st \<Longrightarrow> DumpFunction w p f D = emit w (function_blocks st p f) D"
proof (induction w p f D rule: DumpFunction.induct)
  case (1 w p ks cs ps li lv uv so ld lld nu np va mx D)
  have ks: "fold (DumpConstant w) ks (DumpInt w (int (length ks)) D) = emit w (list_blocks konstant_blocks ks) D"
    for D :: "'a DumpState"
    by (rule DumpList_blocks [OF _ refl]) (rule DumpConstant_blocks)
  have ps: "fold (\<lambda>g. DumpFunction w so g) ps (DumpInt w (int (length ps)) D)
      = emit w (list_blocks (\<lambda>g. function_blocks st so g) ps) D" if "strip D = st" for D :: "'a DumpState"
    by (rule DumpList_blocks [OF _ that]) (rule "1.IH", simp_all)
  have eq: "DumpFunction w p (Proto ks cs ps li lv uv so ld lld nu np va mx) D =
     DumpDebug w (Proto ks cs ps li lv uv so ld lld nu np va mx)
       (fold (\<lambda>g. DumpFunction w so g) ps (DumpInt w (int (length ps))
         (fold (DumpConstant w) ks (DumpInt w (int (length ks))
           (DumpVector w (map uint cs) (emit w (string_blocks (if so = p \<or> st then None else so)
              @ [le_bytes 4 ld, le_bytes 4 lld] @ map (\<lambda>x. le_bytes 1 (uint x)) [nu, np, va, mx]) D))))))"
    using "1.prems" by (simp add: Let_def DumpInt_def DumpChar_def DumpString_blocks DumpCode_def)
  show ?case
    unfolding eq ks DumpVector_blocks
    using "1.prems" by (subst ps) (simp_all add: DumpDebug_blocks)
qed

lemma emit_stopped: "status D \<noteq> 0 \<Longrightarrow> emit w bs D = D"
  by (induction bs) (simp_all add: DumpBlock_def)

lemma emit_send:
  "status D = 0 \<Longrightarrow> (let E = emit w bs D in (status E, wdata E)) = send w bs (wdata D)"
proof (induction bs arbitrary: D)
  case (Cons b bs)
  obtain s d where w: "w (wdata D) b = (s, d)" by (cases "w (wdata D) b")
  show ?case
  proof (cases "s = 0")
    case True
    with Cons.IH [of "D\<lparr>wdata := d, status := s\<rparr>"] Cons.prems w show ?thesis by (simp add: DumpBlock_def)
  next
    case False
    then have "emit w bs (D\<lparr>wdata := d, status := s\<rparr>) = D\<lparr>wdata := d, status := s\<rparr>"
      by (simp add: emit_stopped)
    moreover have "DumpBlock w b D = D\<lparr>wdata := d, status := s\<rparr>" using Cons.prems w by (simp add: DumpBlock_def)
    ultimately show ?thesis using w False by (simp add: Let_def)
  qed
qed simp

lemma dump_send: "luaU_dump w f d st = send w (chunk_blocks st f) d"
proof -
  let ?D = "\<lparr>wdata = d, strip = st, status = 0\<rparr>"
  have "DumpFunction w None f (DumpHeader w ?D) = emit w (chunk_blocks st f) ?D"
    unfolding chunk_blocks_def by (subst DumpFunction_blocks [of _ st]) (simp_all add: DumpHeader_def)
  with emit_send [of ?D w "chunk_blocks st f"] show ?thesis by (simp add: luaU_dump_def Let_def)
qed

end
