(* ===== verification/LuaUndumpSpec.thy ===== *)
theory LuaUndumpSpec
  imports LuaDumpSpec "HOL-Library.Sublist"
begin

text \<open>
  The loaders read back the blocks, one law for each kind of item, and return on every stream.
\<close>

section \<open>Values of bytes\<close>

lemma length_le_bytes [simp]: "length (le_bytes n x) = n"
  by (induction n arbitrary: x) simp_all

lemma le_value_bytes: "le_value (le_bytes n x) = x mod 256 ^ n"
proof (induction n arbitrary: x)
  case (Suc n)
  have "x mod 256 + 256 * (x div 256 mod 256 ^ n) = x mod (256 * 256 ^ n)"
    by (simp add: zmod_zmult2_eq)
  with Suc show ?case by (simp add: code_chr)
qed simp

lemma le_value_small: "0 \<le> x \<Longrightarrow> x < 256 ^ n \<Longrightarrow> le_value (le_bytes n x) = x"
  by (simp add: le_value_bytes)

lemma signed_value_bytes:
  assumes "- (256 ^ n) \<le> 2 * x" and "2 * x < 256 ^ n"
  shows "signed_value (le_bytes n x) = x"
proof (cases "0 \<le> x")
  case True
  with assms have "x mod 256 ^ n = x" by simp
  with assms show ?thesis by (simp add: signed_value_def le_value_bytes)
next
  case False
  then have "(x + 256 ^ n) mod 256 ^ n = x + 256 ^ n" using assms by (intro mod_pos_pos_trivial) simp_all
  then have "x mod 256 ^ n = x + 256 ^ n" by simp
  with False assms show ?thesis by (simp add: signed_value_def le_value_bytes)
qed

lemma signed_int4: "0 \<le> x \<Longrightarrow> x \<le> INT_MAX \<Longrightarrow> signed_value (le_bytes 4 x) = x"
  by (rule signed_value_bytes) simp_all

lemma byte_value: "word_of_int (signed_value (le_bytes (Suc 0) (uint b))) = (b :: byte)"
proof -
  have "uint b < 256" using uint_bounded [of b] by simp
  then have v: "le_value (le_bytes (Suc 0) (uint b)) = uint b" using le_value_small [of "uint b" "Suc 0"] by simp
  have "word_of_int (uint b - 256) = (word_of_int (uint b) - word_of_int 256 :: byte)" by (rule wi_hom_sub [symmetric])
  then have "word_of_int (uint b - 256) = (b :: byte)" by simp
  then show ?thesis by (simp add: signed_value_def Let_def v del: le_bytes.simps)
qed

lemma words4_concat: "(\<And>x. x \<in> set xs \<Longrightarrow> length (f x) = 4) \<Longrightarrow> words4 (concat (map f xs)) = map f xs"
proof (induction xs)
  case (Cons x xs)
  then have "length (f x) = 4" by simp
  then obtain a b c d where "f x = [a, b, c, d]" by (auto simp: numeral_eq_Suc length_Suc_conv)
  with Cons show ?case by simp
qed simp

section \<open>Loading what was dumped\<close>

text \<open>The loader \<open>m\<close> takes the bytes \<open>bs\<close> from any stream that begins with them and returns \<open>x\<close>.\<close>

definition loads :: "'a loader \<Rightarrow> string \<Rightarrow> 'a \<Rightarrow> bool" where
  "loads m bs x \<longleftrightarrow> (\<forall>z rest. zio_ok z \<longrightarrow> contents z = bs @ rest \<longrightarrow>
     (\<exists>z'. m z = Ok (x, z') \<and> zio_ok z' \<and> contents z' = rest))"

lemma loadsD:
  assumes "loads m bs x" and "zio_ok z" and "contents z = bs @ rest"
  obtains z' where "m z = Ok (x, z')" and "zio_ok z'" and "contents z' = rest"
  using assms unfolding loads_def by blast

lemma loads_ret [simp]: "loads (sret x) [] y \<longleftrightarrow> x = y"
proof
  assume "loads (sret x) [] y"
  from loadsD [OF this init_ok [of "[]"], of "[]"] show "x = y" by (auto simp: contents_init)
qed (auto simp: loads_def)

lemma loads_bind:
  assumes "loads m bs x" and "loads (f x) cs y"
  shows "loads (sbind m f) (bs @ cs) y"
  unfolding loads_def
proof (intro allI impI)
  fix z rest
  assume z: "zio_ok z" "contents z = (bs @ cs) @ rest"
  then obtain z1 where 1: "m z = Ok (x, z1)" "zio_ok z1" "contents z1 = cs @ rest"
    by (auto elim: loadsD [OF assms(1)])
  then obtain z2 where "f x z1 = Ok (y, z2)" "zio_ok z2" "contents z2 = rest"
    by (auto elim: loadsD [OF assms(2)])
  with 1 show "\<exists>z'. sbind m f z = Ok (y, z') \<and> zio_ok z' \<and> contents z' = rest" by (simp add: sbind_Ok)
qed

lemma loads_then: "loads m bs x \<Longrightarrow> f x = sret y \<Longrightarrow> loads (sbind m f) bs y"
  using loads_bind [of m bs x f "[]" y] by simp

lemma loads_Block: "length bs = n \<Longrightarrow> loads (LoadBlock nm n) bs bs"
  unfolding loads_def
proof (intro allI impI)
  fix z rest
  assume a: "length bs = n" "zio_ok z" "contents z = bs @ rest"
  from read_spec [OF a(2), of n] a show "\<exists>z'. LoadBlock nm n z = Ok (bs, z') \<and> zio_ok z' \<and> contents z' = rest"
    by (auto simp: LoadBlock_def sbind_def)
qed

lemma loads_Char: "length bs = 1 \<Longrightarrow> loads (LoadChar nm) bs (signed_value bs)"
  unfolding LoadChar_def by (rule loads_then [OF loads_Block]) simp_all

lemma loads_Byte: "loads (LoadByte nm) (le_bytes 1 (uint b)) b"
  unfolding LoadByte_def by (rule loads_then [OF loads_Char]) (simp_all add: byte_value del: le_bytes.simps)

lemma loads_Int: "0 \<le> x \<Longrightarrow> x \<le> INT_MAX \<Longrightarrow> loads (LoadInt nm) (le_bytes 4 x) x"
  unfolding LoadInt_def by (rule loads_then [OF loads_Block]) (simp_all add: signed_int4 Let_def)

lemma loads_Number: "loads (LoadNumber nm) (le_bytes 8 (uint x)) x"
  unfolding LoadNumber_def
proof (rule loads_then [OF loads_Block])
  have "le_value (le_bytes 8 (uint x)) = uint x" using uint_bounded [of x] by (intro le_value_small) simp_all
  then show "sret (word_of_int (le_value (le_bytes 8 (uint x)))) = sret x" by simp
qed simp

definition small_string :: "string option \<Rightarrow> bool" where
  "small_string s \<longleftrightarrow> (case s of None \<Rightarrow> True | Some s \<Rightarrow> int (length s) + 1 < 2 ^ 64)"

lemma loads_String: "small_string s \<Longrightarrow> loads (LoadString nm) (concat (string_blocks s)) s"
proof (cases s)
  case None
  have "le_value (le_bytes 8 0) = 0" by (rule le_value_small) simp_all
  with None show ?thesis
    unfolding LoadString_def by (auto simp: string_blocks_def Let_def intro!: loads_then [OF loads_Block])
next
  case (Some t)
  assume "small_string s"
  with Some have v: "le_value (le_bytes 8 (int (length t) + 1)) = int (length t) + 1"
    by (intro le_value_small) (simp_all add: small_string_def)
  have "loads (LoadString nm) (le_bytes 8 (int (length t) + 1) @ (t @ [CHR 0x00])) (Some t)"
    unfolding LoadString_def
    by (rule loads_bind [OF loads_Block]) (simp_all add: Let_def v nat_add_distrib loads_then [OF loads_Block])
  with Some show ?thesis by (simp add: string_blocks_def)
qed

section \<open>Lists of items\<close>

text \<open>Items that are loaded from their blocks, under a condition on the item.\<close>

locale item_codec =
  fixes good :: "'a \<Rightarrow> bool" and enc :: "'a \<Rightarrow> string list" and dec :: "'a loader" and val :: "'a \<Rightarrow> 'a"
  assumes loads_item: "good x \<Longrightarrow> loads dec (concat (enc x)) (val x)"
begin

lemma loads_items: "\<forall>x \<in> set xs. good x \<Longrightarrow> loads (load_n (length xs) dec) (concat (concat (map enc xs))) (map val xs)"
proof (induction xs)
  case (Cons x xs)
  have "loads (load_n (length (x # xs)) dec) (concat (enc x) @ concat (concat (map enc xs))) (map val (x # xs))"
    unfolding list.size(4) Nat.add_0_right add_Suc_right load_n.simps
    by (rule loads_bind [OF loads_item], use Cons.prems in simp, rule loads_then [OF Cons.IH])
       (use Cons.prems in simp_all)
  then show ?case by simp
qed simp

lemma loads_list:
  assumes "\<forall>x \<in> set xs. good x" and "int (length xs) \<le> INT_MAX"
    and "loads (f (map val xs)) bs y"
  shows "loads (sbind (LoadInt nm) (\<lambda>n. sbind (load_n (nat n) dec) f)) (concat (list_blocks enc xs) @ bs) y"
proof -
  have "loads (sbind (load_n (nat (int (length xs))) dec) f) (concat (concat (map enc xs)) @ bs) y"
    using loads_bind [OF loads_items [OF assms(1)], of f, OF assms(3)] by simp
  then have "loads (sbind (LoadInt nm) (\<lambda>n. sbind (load_n (nat n) dec) f))
      (le_bytes 4 (int (length xs)) @ (concat (concat (map enc xs)) @ bs)) y"
    by (intro loads_bind [OF loads_Int]) (use assms(2) in simp_all)
  then show ?thesis by (simp add: list_blocks_def)
qed

end

definition good_constant :: "konstant \<Rightarrow> bool" where
  "good_constant k \<longleftrightarrow>
     (case k of KBoolean b \<Rightarrow> b = 0 \<or> b = 1 | KString s \<Rightarrow> small_string (Some s) | _ \<Rightarrow> True)"

definition good_locvar :: "LocVar \<Rightarrow> bool" where
  "good_locvar v \<longleftrightarrow> small_string (varname v) \<and> 0 \<le> startpc v \<and> startpc v \<le> INT_MAX
     \<and> 0 \<le> endpc v \<and> endpc v \<le> INT_MAX"

text \<open>The tag decides what follows it.\<close>

lemma loads_tagged:
  assumes "0 \<le> t" and "t < 128"
    and "loads (if t = 0 then sret KNil
     else if t = 1 then sbind (LoadChar nm) (\<lambda>b. sret (KBoolean (word_of_int b)))
     else if t = 3 then sbind (LoadNumber nm) (\<lambda>x. sret (KNumber x))
     else if t = 4 then sbind (LoadString nm) (\<lambda>s.
       sret (case s of None \<Rightarrow> KNullString | Some s \<Rightarrow> KString s))
     else load_error nm ''bad constant'') bs k"
  shows "loads (LoadConstant nm) (le_bytes 1 t @ bs) k"
proof -
  have "signed_value (le_bytes 1 t) = t" using assms(1,2) by (intro signed_value_bytes) simp_all
  with loads_Char [of "le_bytes 1 t" nm] have "loads (LoadChar nm) (le_bytes 1 t) t" by (simp del: le_bytes.simps)
  then show ?thesis unfolding LoadConstant_def by (rule loads_bind) (rule assms(3))
qed

lemma loads_Constant:
  assumes "good_constant k"
  shows "loads (LoadConstant nm) (concat (konstant_blocks k)) k"
proof -
  have s: "loads (sbind (LoadString nm) (\<lambda>s. sret (case s of None \<Rightarrow> KNullString | Some s \<Rightarrow> KString s)))
      (concat (string_blocks t)) (case t of None \<Rightarrow> KNullString | Some s \<Rightarrow> KString s)" if "small_string t" for t
    by (rule loads_then [OF loads_String [OF that]]) simp
  show ?thesis
  proof (cases k)
    case KNil
    then show ?thesis using loads_tagged [of 0 nm "[]" k] by (simp add: konstant_blocks_def ktag_def)
  next
    case (KBoolean b)
    then have "signed_value (le_bytes 1 (uint b)) = uint b"
      using assms by (intro signed_value_bytes) (auto simp: good_constant_def)
    then have "loads (sbind (LoadChar nm) (\<lambda>b. sret (KBoolean (word_of_int b)))) (le_bytes 1 (uint b)) k"
      by (intro loads_then [OF loads_Char]) (simp_all add: KBoolean del: le_bytes.simps)
    then show ?thesis using KBoolean loads_tagged [of 1 nm "le_bytes 1 (uint b)" k]
      by (simp add: konstant_blocks_def ktag_def del: le_bytes.simps)
  next
    case (KNumber x)
    then have "loads (sbind (LoadNumber nm) (\<lambda>x. sret (KNumber x))) (le_bytes 8 (uint x)) k"
      by (intro loads_then [OF loads_Number]) simp
    then show ?thesis using KNumber loads_tagged [of 3 nm "le_bytes 8 (uint x)" k]
      by (simp add: konstant_blocks_def ktag_def del: le_bytes.simps)
  next
    case (KString t)
    then have "small_string (Some t)" using assms by (simp add: good_constant_def)
    from s [OF this] show ?thesis using KString loads_tagged [of 4 nm "concat (string_blocks (Some t))" k]
      by (simp add: konstant_blocks_def ktag_def del: le_bytes.simps)
  next
    case KNullString
    from s [of None] show ?thesis using KNullString loads_tagged [of 4 nm "concat (string_blocks None)" k]
      by (simp add: konstant_blocks_def ktag_def small_string_def del: le_bytes.simps)
  qed
qed

interpretation constants: item_codec good_constant konstant_blocks "LoadConstant nm" id for nm
  by unfold_locales (simp add: loads_Constant)

interpretation names: item_codec small_string string_blocks "LoadString nm" id for nm
  by unfold_locales (simp add: loads_String)

interpretation variables: item_codec good_locvar locvar_blocks "LoadLocVar nm" id for nm
proof
  fix v
  assume v: "good_locvar v"
  have "loads (LoadLocVar nm) (concat (string_blocks (varname v)) @ le_bytes 4 (startpc v) @ le_bytes 4 (endpc v)) v"
    unfolding LoadLocVar_def
    by (rule loads_bind [OF loads_String loads_bind [OF loads_Int loads_then [OF loads_Int]]])
       (use v in \<open>cases v; simp add: good_locvar_def\<close>)+
  then show "loads (LoadLocVar nm) (concat (locvar_blocks v)) (id v)" by (simp add: locvar_blocks_def)
qed

end
