(* ===== verification/LuaUndumpTotal.thy ===== *)
theory LuaUndumpTotal
  imports LuaUndumpSpec LuaCheckProps
begin

text \<open>The loader on arbitrary bytes: what it returns, raises and leaves undefined.\<close>

section \<open>Loaders that always return\<close>

definition load_reasons :: "string set" where
  "load_reasons = {''unexpected end'', ''bad integer'', ''bad constant'', ''bad code'', ''bad header''}"

definition load_failure :: "string \<Rightarrow> lua_error \<Rightarrow> bool" where
  "load_failure nm e \<longleftrightarrow> (\<exists>why \<in> load_reasons. e = SyntaxError (nm @ '': '' @ why @ '' in precompiled chunk''))"

text \<open>
  A value with \<open>P\<close>, taken from the front of the stream, or one of the errors of the loader. The
  flag says that it may be undefined.
\<close>

definition fine :: "bool \<Rightarrow> string \<Rightarrow> ('a \<Rightarrow> bool) \<Rightarrow> ZIO \<Rightarrow> ('a \<times> ZIO) result \<Rightarrow> bool" where
  "fine u nm P z r \<longleftrightarrow>
     (case r of
        Ok (x, z') \<Rightarrow> P x \<and> zio_ok z' \<and> suffix (contents z') (contents z)
      | Err e \<Rightarrow> load_failure nm e
      | Diverge \<Rightarrow> False
      | Undef \<Rightarrow> u)"

lemma fine_simps [simp]:
  "fine u nm P z (Ok (x, z')) \<longleftrightarrow> P x \<and> zio_ok z' \<and> suffix (contents z') (contents z)"
  "fine u nm P z (Err e) \<longleftrightarrow> load_failure nm e" "\<not> fine u nm P z Diverge"
  "fine u nm P z Undef \<longleftrightarrow> u"
  by (simp_all add: fine_def)

lemma fine_bind:
  assumes "fine u nm P z (m z)"
    and "\<And>x z'. m z = Ok (x, z') \<Longrightarrow> P x \<Longrightarrow> zio_ok z' \<Longrightarrow> suffix (contents z') (contents z) \<Longrightarrow> fine u nm Q z' (f x z')"
  shows "fine u nm Q z (sbind m f z)"
proof (cases "m z")
  case (Ok r)
  obtain x z' where r: "r = (x, z')" by (cases r)
  with Ok assms(1) have m: "P x" "zio_ok z'" "suffix (contents z') (contents z)" by simp_all
  from assms(2) [OF Ok [unfolded r] m] have f: "fine u nm Q z' (f x z')" .
  show ?thesis
  proof (cases "f x z'")
    case (Ok q)
    obtain y z'' where q: "q = (y, z'')" by (cases q)
    from f Ok q suffix_order.trans [of "contents z''" "contents z'" "contents z"] m(3) \<open>m z = Ok r\<close> r
    show ?thesis by (simp add: sbind_def)
  qed (use f \<open>m z = Ok r\<close> r in \<open>simp_all add: sbind_def\<close>)
qed (use assms(1) in \<open>simp_all add: sbind_def\<close>)

text \<open>On streams of less than \<open>N\<close> bytes \<open>m\<close> is fine.\<close>

definition tame :: "bool \<Rightarrow> string \<Rightarrow> nat \<Rightarrow> ('a \<Rightarrow> bool) \<Rightarrow> 'a loader \<Rightarrow> bool" where
  "tame u nm N P m \<longleftrightarrow> (\<forall>z. zio_ok z \<longrightarrow> length (contents z) < N \<longrightarrow> fine u nm P z (m z))"

lemma tameD: "tame u nm N P m \<Longrightarrow> zio_ok z \<Longrightarrow> length (contents z) < N \<Longrightarrow> fine u nm P z (m z)"
  by (simp add: tame_def)

lemma tame_ret: "P x \<Longrightarrow> tame u nm N P (sret x)"
  by (simp add: tame_def sret_def)

lemma tame_error: "why \<in> load_reasons \<Longrightarrow> tame u nm N P (load_error nm why)"
  by (auto simp: tame_def load_error_def load_failure_def)

lemma tame_bind:
  assumes "tame u nm N P m" and "\<And>x. P x \<Longrightarrow> tame u nm N Q (f x)"
  shows "tame u nm N Q (sbind m f)"
  unfolding tame_def
proof (intro allI impI)
  fix z
  assume z: "zio_ok z" "length (contents z) < N"
  show "fine u nm Q z (sbind m f z)"
  proof (rule fine_bind [where m = m, OF tameD [OF assms(1) z]])
    fix x z'
    assume a: "P x" "zio_ok z'" "suffix (contents z') (contents z)"
    show "fine u nm Q z' (f x z')"
      by (rule tameD [OF assms(2) [OF a(1)] a(2)]) (use z(2) suffix_length_le [OF a(3)] in simp)
  qed
qed

text \<open>A loader that takes at least one byte.\<close>

definition takes :: "'a loader \<Rightarrow> bool" where
  "takes m \<longleftrightarrow> (\<forall>z x z'. zio_ok z \<longrightarrow> m z = Ok (x, z') \<longrightarrow> length (contents z') < length (contents z))"

lemma tame_bind_less:
  assumes "tame u nm (Suc N) P m" and "takes m" and "\<And>x. P x \<Longrightarrow> tame u nm N Q (f x)"
  shows "tame u nm (Suc N) Q (sbind m f)"
  unfolding tame_def
proof (intro allI impI)
  fix z
  assume z: "zio_ok z" "length (contents z) < Suc N"
  show "fine u nm Q z (sbind m f z)"
  proof (rule fine_bind [where m = m, OF tameD [OF assms(1) z]])
    fix x z'
    assume m: "m z = Ok (x, z')" and a: "P x" "zio_ok z'"
    have "length (contents z') < length (contents z)" using assms(2) z(1) m unfolding takes_def by blast
    with z(2) show "fine u nm Q z' (f x z')" by (intro tameD [OF assms(3) [OF a(1)] a(2)]) simp
  qed
qed

lemma tame_n: "tame u nm N P m \<Longrightarrow> tame u nm N (\<lambda>xs. \<forall>x \<in> set xs. P x) (load_n n m)"
proof (induction n)
  case 0
  show ?case by (simp add: tame_ret)
next
  case (Suc n)
  show ?case unfolding load_n.simps
    by (rule tame_bind [OF Suc.prems], rule tame_bind [OF Suc.IH [OF Suc.prems]], rule tame_ret) simp
qed

section \<open>The loaders\<close>

lemma block_take:
  assumes "zio_ok z"
  shows "LoadBlock nm n z = Err (SyntaxError (nm @ '': '' @ ''unexpected end'' @ '' in precompiled chunk''))
    \<or> (\<exists>z'. LoadBlock nm n z = Ok (take n (contents z), z') \<and> zio_ok z' \<and> n \<le> length (contents z)
         \<and> contents z' = drop n (contents z))"
proof -
  obtain z' where "luaZ_read n z = Ok ((n - length (contents z), take n (contents z)), z')" "zio_ok z'"
    "n \<le> length (contents z) \<longrightarrow> contents z' = drop n (contents z)"
    using read_spec [OF assms, of n] by blast
  then show ?thesis by (cases "n \<le> length (contents z)") (simp_all add: LoadBlock_def sbind_def load_error_def)
qed

lemma tame_Block: "tame u nm N (\<lambda>_. True) (LoadBlock nm n)"
  unfolding tame_def
proof (intro allI impI)
  fix z
  assume "zio_ok z"
  from block_take [OF this, of nm n] show "fine u nm (\<lambda>_. True) z (LoadBlock nm n z)"
    by (auto simp: suffix_drop load_failure_def load_reasons_def)
qed

lemma tame_Char: "tame u nm N (\<lambda>_. True) (LoadChar nm)"
  unfolding LoadChar_def by (rule tame_bind [OF tame_Block tame_ret]) simp

lemma tame_Byte: "tame u nm N (\<lambda>_. True) (LoadByte nm)"
  unfolding LoadByte_def by (rule tame_bind [OF tame_Char tame_ret]) simp

lemma tame_Int: "tame u nm N (\<lambda>_. True) (LoadInt nm)"
  unfolding LoadInt_def
  by (rule tame_bind [OF tame_Block]) (simp add: Let_def tame_ret tame_error load_reasons_def)

lemma tame_Number: "tame u nm N (\<lambda>_. True) (LoadNumber nm)"
  unfolding LoadNumber_def by (rule tame_bind [OF tame_Block tame_ret]) simp

lemma tame_String: "tame u nm N (\<lambda>_. True) (LoadString nm)"
  unfolding LoadString_def
  by (rule tame_bind [OF tame_Block]) (auto simp: Let_def intro!: tame_ret tame_bind [OF tame_Block])

lemma tame_Constant: "tame u nm N (\<lambda>_. True) (LoadConstant nm)"
proof -
  have "tame u nm N (\<lambda>_. True) (sret KNil)" by (simp add: tame_ret)
  moreover have "tame u nm N (\<lambda>_. True) (sbind (LoadChar nm) (\<lambda>b. sret (KBoolean (word_of_int b))))"
    by (rule tame_bind [OF tame_Char tame_ret]) simp
  moreover have "tame u nm N (\<lambda>_. True) (sbind (LoadNumber nm) (\<lambda>x. sret (KNumber x)))"
    by (rule tame_bind [OF tame_Number tame_ret]) simp
  moreover have "tame u nm N (\<lambda>_. True) (sbind (LoadString nm) (\<lambda>s.
      sret (case s of None \<Rightarrow> KNullString | Some s \<Rightarrow> KString s)))"
    by (rule tame_bind [OF tame_String tame_ret]) simp
  moreover have "tame u nm N (\<lambda>_. True) (load_error nm ''bad constant'' :: konstant loader)"
    by (rule tame_error) (simp add: load_reasons_def)
  ultimately show ?thesis unfolding LoadConstant_def
    by (intro tame_bind [OF tame_Char]) (simp split: if_splits)
qed

lemma tame_LocVar: "tame u nm N (\<lambda>_. True) (LoadLocVar nm)"
  unfolding LoadLocVar_def
  by (intro tame_bind [OF tame_String] tame_bind [OF tame_Int] tame_ret) simp

lemma tame_Debug: "tame u nm N (\<lambda>_. True) (LoadDebug nm)"
  unfolding LoadDebug_def
  by (intro tame_bind [OF tame_Int] tame_bind [OF tame_Block] tame_bind [OF tame_n [OF tame_LocVar]]
      tame_bind [OF tame_n [OF tame_String]] tame_ret) simp

lemma tame_Code: "tame u nm N (\<lambda>_. True) (LoadCode nm)"
  unfolding LoadCode_def by (intro tame_bind [OF tame_Int] tame_bind [OF tame_Block] tame_ret) simp

lemma takes_String: "takes (LoadString nm)"
  unfolding takes_def
proof (intro allI impI)
  fix z x z'
  assume z: "zio_ok z" and l: "LoadString nm z = Ok (x, z')"
  from l obtain bs z1 where b: "LoadBlock nm 8 z = Ok (bs, z1)"
    and r: "(let size = le_value bs in if size = 0 then sret None
        else sbind (LoadBlock nm (nat size)) (\<lambda>s. sret (Some (take (nat (size - 1)) s)))) z1 = Ok (x, z')"
    unfolding LoadString_def by (elim sbind_OkE)
  from block_take [OF z, of nm 8] b have z1: "zio_ok z1" "length (contents z1) < length (contents z)" by auto
  have "length (contents z') \<le> length (contents z1)"
  proof (cases "le_value bs = 0")
    case False
    with r obtain s where "LoadBlock nm (nat (le_value bs)) z1 = Ok (s, z')"
      by (auto simp: Let_def elim!: sbind_OkE)
    with block_take [OF z1(1), of nm "nat (le_value bs)"] show ?thesis by auto
  qed (use r in simp)
  with z1(2) show "length (contents z') < length (contents z)" by simp
qed

section \<open>Functions\<close>

fun all_checked :: "Proto \<Rightarrow> bool" where
  "all_checked (Proto ks cs ps li lv uv so ld lld nu np va mx) \<longleftrightarrow>
     luaG_checkcode (Proto ks cs ps li lv uv so ld lld nu np va mx) = Ok True \<and> (\<forall>g \<in> set ps. all_checked g)"

text \<open>The reads of a function before its nested functions, and all of them before the check\<close>

definition LoadHead :: "string \<Rightarrow> string option \<Rightarrow> (string option \<times> int \<times> int \<times> byte \<times> byte \<times> byte \<times> byte \<times> Instruction list \<times> konstant list \<times> int) loader" where
  "LoadHead nm p =
     sbind (LoadString nm) (\<lambda>s. sbind (LoadInt nm) (\<lambda>ld. sbind (LoadInt nm) (\<lambda>lld.
     sbind (LoadByte nm) (\<lambda>nu. sbind (LoadByte nm) (\<lambda>np. sbind (LoadByte nm) (\<lambda>va. sbind (LoadByte nm) (\<lambda>mx.
     sbind (LoadCode nm) (\<lambda>cs.
     sbind (LoadInt nm) (\<lambda>n. sbind (load_n (nat n) (LoadConstant nm)) (\<lambda>ks.
     sbind (LoadInt nm) (\<lambda>n.
     sret (case s of None \<Rightarrow> p | Some _ \<Rightarrow> s, ld, lld, nu, np, va, mx, cs, ks, n))))))))))))"

definition LoadBody :: "nat \<Rightarrow> string \<Rightarrow> string option \<Rightarrow> Proto loader" where
  "LoadBody d nm p =
     sbind (LoadHead nm p) (\<lambda>(so, ld, lld, nu, np, va, mx, cs, ks, n).
     sbind (load_n (nat n) (LoadFunction d nm so)) (\<lambda>ps.
     sbind (LoadDebug nm) (\<lambda>(li, lv, uv).
     sret (Proto ks cs ps li lv uv so ld lld nu np va mx))))"

lemma sbind_sbind: "sbind (sbind m f) h = sbind m (\<lambda>x. sbind (f x) h)"
  by (simp add: sbind_def fun_eq_iff rbind_assoc split_def)

lemma LoadFunction_body: "LoadFunction (Suc d) nm p = sbind (LoadBody d nm p) (load_checked nm)"
  unfolding LoadFunction_Suc LoadBody_def LoadHead_def LoadConstants_def
  by (simp add: sbind_sbind Let_def split_def)

text \<open>
  The function that begins at a place of the stream, or one nested in it that the loader comes to, has no
  instructions, and the checker reads before its code.
\<close>

inductive empty_function :: "string \<Rightarrow> nat \<Rightarrow> string option \<Rightarrow> ZIO \<Rightarrow> bool" for nm where
  here: "LoadBody d nm p z = Ok (f, z') \<Longrightarrow> proto_code f = [] \<Longrightarrow> luaG_checkcode f = Undef \<Longrightarrow> empty_function nm d p z"
| nested: "LoadHead nm p z = Ok ((so, ld, lld, nu, np, va, mx, cs, ks, n), z1) \<Longrightarrow> i < nat n \<Longrightarrow>
    load_n i (LoadFunction (Suc d) nm so) z1 = Ok (ps, z2) \<Longrightarrow> empty_function nm d so z2 \<Longrightarrow> empty_function nm (Suc d) p z"

inductive_simps empty_function_Suc: "empty_function nm (Suc d) p z"

lemma tame_Head: "tame u nm N (\<lambda>_. True) (LoadHead nm p)"
  unfolding LoadHead_def
  by (intro tame_bind [OF tame_String] tame_bind [OF tame_Int] tame_bind [OF tame_Byte] tame_bind [OF tame_Code]
      tame_bind [OF tame_n [OF tame_Constant]] tame_ret) simp

lemma tame_checked:
  assumes "\<forall>g \<in> set (proto_p f). all_checked g"
  shows "tame True nm N all_checked (load_checked nm f)"
proof (cases "proto_code f = []")
  case True
  then have "precheck f \<in> {Ok False, Undef}" by (simp add: precheck_def fetch_def)
  then have "luaG_checkcode f \<in> {Ok False, Undef}" by (auto simp: luaG_checkcode_def symbexec_def)
  then show ?thesis by (auto simp: tame_def load_checked_def load_error_def load_failure_def load_reasons_def)
next
  case False
  from checkcode_returns [OF this] obtain ok where "luaG_checkcode f = Ok ok" by (auto simp: yields_def)
  with assms show ?thesis
    by (cases f; cases ok) (auto simp: tame_def load_checked_def load_error_def load_failure_def load_reasons_def)
qed

lemma takes_bind:
  assumes "takes m" and "\<And>N. tame False nm N (\<lambda>_. True) m" and "\<And>x N. tame False nm N (\<lambda>_. True) (f x)"
  shows "takes (sbind m f)"
  unfolding takes_def
proof (intro allI impI)
  fix z x z'
  assume z: "zio_ok z" and l: "sbind m f z = Ok (x, z')"
  from l obtain y z1 where 1: "m z = Ok (y, z1)" "f y z1 = Ok (x, z')" by (elim sbind_OkE)
  have "length (contents z1) < length (contents z)" using assms(1) z 1(1) unfolding takes_def by blast
  moreover have "zio_ok z1" using tameD [OF assms(2) z lessI] 1(1) by simp
  with tameD [OF assms(3) this lessI, of y] 1(2) have "suffix (contents z') (contents z1)" by simp
  then have "length (contents z') \<le> length (contents z1)" by (rule suffix_length_le)
  ultimately show "length (contents z') < length (contents z)" by simp
qed

lemma takes_Head: "takes (LoadHead nm p)"
  unfolding LoadHead_def
  by (rule takes_bind [OF takes_String tame_String])
     (intro tame_bind [OF tame_Int] tame_bind [OF tame_Byte] tame_bind [OF tame_Code] tame_bind [OF tame_n [OF tame_Constant]]
        tame_ret, simp)

lemma tame_Body:
  assumes "\<And>so. tame u nm d P (LoadFunction d nm so)"
  shows "tame u nm (Suc d) (\<lambda>f. \<forall>g \<in> set (proto_p f). P g) (LoadBody d nm p)"
  unfolding LoadBody_def
proof (rule tame_bind_less [OF tame_Head takes_Head], clarify)
  fix so ld lld nu np va mx cs ks n
  show "tame u nm d (\<lambda>f. \<forall>g \<in> set (proto_p f). P g) (sbind (load_n (nat n) (LoadFunction d nm so)) (\<lambda>ps.
     sbind (LoadDebug nm) (\<lambda>(li, lv, uv). sret (Proto ks cs ps li lv uv so ld lld nu np va mx))))"
    by (rule tame_bind [OF tame_n [OF assms]], rule tame_bind [OF tame_Debug], clarify, rule tame_ret, simp)
qed

lemma tame_Function: "tame True nm d all_checked (LoadFunction d nm p)"
proof (induction d arbitrary: p)
  case (Suc d)
  show ?case unfolding LoadFunction_body by (rule tame_bind [OF tame_Body [OF Suc.IH] tame_checked])
qed (simp add: tame_def)

section \<open>The undefined step\<close>

lemma sbind_Undef: "sbind m f z = Undef \<longleftrightarrow> m z = Undef \<or> (\<exists>x z'. m z = Ok (x, z') \<and> f x z' = Undef)"
  by (cases "m z") (auto simp: sbind_def)

lemma load_n_Undef: "load_n n m z = Undef \<longleftrightarrow> (\<exists>i < n. \<exists>xs z'. load_n i m z = Ok (xs, z') \<and> m z' = Undef)"
proof (induction n arbitrary: z)
  case (Suc n)
  have "load_n (Suc n) m z = Undef \<longleftrightarrow> m z = Undef \<or> (\<exists>x z1. m z = Ok (x, z1) \<and> load_n n m z1 = Undef)"
    by (auto simp: sbind_Undef sret_def)
  also have "\<dots> \<longleftrightarrow> m z = Undef \<or> (\<exists>i < n. \<exists>x z1 xs z'. m z = Ok (x, z1) \<and> load_n i m z1 = Ok (xs, z') \<and> m z' = Undef)"
    unfolding Suc.IH by blast
  also have "\<dots> \<longleftrightarrow> (\<exists>i < Suc n. \<exists>xs z'. load_n i m z = Ok (xs, z') \<and> m z' = Undef)"
    unfolding Ex_less_Suc2 by (auto simp: sbind_def sret_def split: result.splits elim!: rbind_OkE)
  finally show ?case .
qed (simp add: sret_def)

lemma tame_defined: "tame False nm N P m \<Longrightarrow> zio_ok z \<Longrightarrow> length (contents z) < N \<Longrightarrow> m z \<noteq> Undef"
  using tameD [of False nm N P m z] by auto

lemma checked_Undef: "load_checked nm f z = Undef \<longleftrightarrow> proto_code f = [] \<and> luaG_checkcode f = Undef"
  using checkcode_returns [of f] by (cases "luaG_checkcode f") (auto simp: load_checked_def load_error_def yields_def)

lemma nested_place:
  assumes z: "zio_ok z" "length (contents z) < Suc d" and h: "LoadHead nm p z = Ok (x, z1)"
    and l: "load_n i (LoadFunction d nm so) z1 = Ok (ps, z2)"
  shows "zio_ok z1 \<and> length (contents z1) < d \<and> zio_ok z2 \<and> length (contents z2) < d"
proof -
  have z1: "zio_ok z1" using tameD [OF tame_Head [of False] z(1) lessI, of nm p] h by simp
  have "length (contents z1) < length (contents z)" using takes_Head z(1) h unfolding takes_def by blast
  with z(2) have l1: "length (contents z1) < d" by simp
  from tameD [OF tame_n [OF tame_Function] z1 l1, of nm i so] l have "zio_ok z2" "suffix (contents z2) (contents z1)" by simp_all
  with z1 l1 suffix_length_le [OF this(2)] show ?thesis by simp
qed

lemma body_Undef:
  assumes z: "zio_ok z" "length (contents z) < Suc d"
  shows "LoadBody d nm p z = Undef \<longleftrightarrow> (\<exists>so ld lld nu np va mx cs ks n z1 i ps z2.
     LoadHead nm p z = Ok ((so, ld, lld, nu, np, va, mx, cs, ks, n), z1) \<and> i < nat n
   \<and> load_n i (LoadFunction d nm so) z1 = Ok (ps, z2) \<and> LoadFunction d nm so z2 = Undef)"
proof -
  let ?r = "\<lambda>(so, ld, lld, nu, np, va, mx, cs, ks, n). sbind (load_n (nat n) (LoadFunction d nm so)) (\<lambda>ps.
     sbind (LoadDebug nm) (\<lambda>(li, lv, uv). sret (Proto ks cs ps li lv uv so ld lld nu np va mx)))"
  have rest: "?r (so, ld, lld, nu, np, va, mx, cs, ks, n) z1 = Undef \<longleftrightarrow> load_n (nat n) (LoadFunction d nm so) z1 = Undef"
    if h: "LoadHead nm p z = Ok ((so, ld, lld, nu, np, va, mx, cs, ks, n), z1)" for so ld lld nu np va mx cs ks n z1
  proof -
    have "LoadDebug nm z2 \<noteq> Undef" if "load_n (nat n) (LoadFunction d nm so) z1 = Ok (ps, z2)" for ps z2
      using tame_defined [OF tame_Debug _ lessI] nested_place [OF z h that] by blast
    then show ?thesis by (auto simp: sbind_Undef sret_def split: prod.splits)
  qed
  have "LoadHead nm p z \<noteq> Undef" by (rule tame_defined [OF tame_Head z(1) lessI])
  then have "LoadBody d nm p z = Undef \<longleftrightarrow> (\<exists>x z1. LoadHead nm p z = Ok (x, z1) \<and> ?r x z1 = Undef)"
    unfolding LoadBody_def sbind_Undef [of "LoadHead nm p"] by simp
  also have "\<dots> \<longleftrightarrow> (\<exists>so ld lld nu np va mx cs ks n z1. LoadHead nm p z = Ok ((so, ld, lld, nu, np, va, mx, cs, ks, n), z1)
      \<and> load_n (nat n) (LoadFunction d nm so) z1 = Undef)"
    unfolding split_paired_Ex by (intro ex_cong1 conj_cong refl rest)
  finally show ?thesis unfolding load_n_Undef by blast
qed

lemma function_Undef:
  "zio_ok z \<Longrightarrow> length (contents z) < Suc d \<Longrightarrow> LoadFunction (Suc d) nm p z = Undef \<longleftrightarrow> empty_function nm d p z"
proof (induction d arbitrary: p z)
  case 0
  have "LoadBody 0 nm p z \<noteq> Undef" unfolding body_Undef [OF 0] by simp
  then show ?case unfolding LoadFunction_body sbind_Undef checked_Undef
    by (auto intro: empty_function.here elim: empty_function.cases)
next
  case (Suc d)
  have place: "LoadFunction (Suc d) nm so z2 = Undef \<longleftrightarrow> empty_function nm d so z2"
    if "LoadHead nm p z = Ok ((so, ld, lld, nu, np, va, mx, cs, ks, n), z1)" "load_n i (LoadFunction (Suc d) nm so) z1 = Ok (ps, z2)"
    for so ld lld nu np va mx cs ks n z1 i ps z2
    using nested_place [OF Suc.prems that] Suc.IH by blast
  have nested: "LoadBody (Suc d) nm p z = Undef \<longleftrightarrow> (\<exists>so ld lld nu np va mx cs ks n z1 i ps z2.
     LoadHead nm p z = Ok ((so, ld, lld, nu, np, va, mx, cs, ks, n), z1) \<and> i < nat n
   \<and> load_n i (LoadFunction (Suc d) nm so) z1 = Ok (ps, z2) \<and> empty_function nm d so z2)"
    unfolding body_Undef [OF Suc.prems]
    by (intro ex_cong1 conj_cong refl place)
  show ?case unfolding LoadFunction_body sbind_Undef checked_Undef nested empty_function_Suc
    by (subst disj_commute) (simp only: ex_simps)
qed

lemma header_place:
  assumes z: "zio_ok z" and h: "LoadHeader nm z = Ok (x, z1)"
  shows "zio_ok z1 \<and> length (contents z1) < length (contents z)"
  using h block_take [OF z, of nm LUAC_HEADERSIZE]
  by (auto simp: LoadHeader_def load_error_def sret_def elim!: sbind_OkE split: if_splits)

lemma tame_Header: "tame u nm N (\<lambda>_. True) (LoadHeader nm)"
  unfolding LoadHeader_def
  by (rule tame_bind [OF tame_Block]) (simp add: tame_ret tame_error load_reasons_def)

text \<open>The stream has a function without instructions where the loader reads a function.\<close>

definition empty_chunk :: "string \<Rightarrow> ZIO \<Rightarrow> bool" where
  "empty_chunk name z \<longleftrightarrow>
     (\<exists>z1. LoadHeader (chunk_name name) z = Ok ((), z1)
        \<and> empty_function (chunk_name name) (length (contents z) - 1) (Some ''=?'') z1)"

lemma undump_Undef:
  assumes "zio_ok z"
  shows "luaU_undump name z = Undef \<longleftrightarrow> empty_chunk name z"
proof -
  have "LoadHeader (chunk_name name) z \<noteq> Undef" by (rule tame_defined [OF tame_Header assms lessI])
  moreover have "LoadFunction (length (contents z)) nm p z1 = Undef \<longleftrightarrow> empty_function nm (length (contents z) - 1) p z1"
    if "LoadHeader (chunk_name name) z = Ok (x, z1)" for x z1 nm p
  proof -
    from header_place [OF assms that] have "zio_ok z1" "length (contents z1) < Suc (length (contents z) - 1)"
      "Suc (length (contents z) - 1) = length (contents z)" by arith+
    with function_Undef [of z1 "length (contents z) - 1" nm p] show ?thesis by (simp only:)
  qed
  ultimately show ?thesis by (auto simp: luaU_undump_def sbind_Undef empty_chunk_def)
qed

lemma tame_undump:
  assumes "zio_ok z"
  shows "fine True (chunk_name name) all_checked z (luaU_undump name z)"
proof -
  let ?nm = "chunk_name name" and ?N = "length (contents z)"
  have t: "takes (LoadHeader ?nm)" unfolding takes_def using header_place by blast
  have "tame True ?nm (Suc ?N) all_checked (sbind (LoadHeader ?nm) (\<lambda>_. LoadFunction ?N ?nm (Some ''=?'')))"
    by (rule tame_bind_less [OF tame_Header t tame_Function])
  from tameD [OF this assms] show ?thesis by (simp add: luaU_undump_def)
qed

end
