(* ===== verification/LuaDumpProps.thy ===== *)
theory LuaDumpProps
  imports LuaUndumpTotal
begin

text \<open>
  The properties of precompiled chunks: what is written, the round trip, and what the loader
  guarantees for arbitrary bytes.
\<close>

section \<open>Functions that can be dumped\<close>

text \<open>Functions within the limits of the format whose code the checker accepts.\<close>

fun dumpable :: "Proto \<Rightarrow> bool" where
  "dumpable (Proto ks cs ps li lv uv so ld lld nu np va mx) \<longleftrightarrow>
     small_string so \<and> 0 \<le> ld \<and> ld \<le> INT_MAX \<and> 0 \<le> lld \<and> lld \<le> INT_MAX
     \<and> int (length cs) \<le> INT_MAX \<and> int (length ks) \<le> INT_MAX \<and> int (length ps) \<le> INT_MAX
     \<and> int (length li) \<le> INT_MAX \<and> int (length lv) \<le> INT_MAX \<and> int (length uv) \<le> INT_MAX
     \<and> (\<forall>k \<in> set ks. good_constant k) \<and> (\<forall>x \<in> set li. in_int x)
     \<and> (\<forall>v \<in> set lv. good_locvar v) \<and> (\<forall>u \<in> set uv. small_string u)
     \<and> (\<forall>g \<in> set ps. dumpable g)
     \<and> luaG_checkcode (Proto ks cs ps li lv uv so ld lld nu np va mx) = Ok True"

text \<open>
  The function that is loaded: \<open>inh\<close> is the source that the loader hands down, \<open>p\<close> the one
  the dumper compares with.
\<close>

fun loaded :: "bool \<Rightarrow> string option \<Rightarrow> string option \<Rightarrow> Proto \<Rightarrow> Proto" where
  "loaded st inh p (Proto ks cs ps li lv uv so ld lld nu np va mx) =
     (let so' = (if so = p \<or> st \<or> so = None then inh else so)
      in Proto ks cs (map (loaded st so' so) ps) (if st then [] else li) (if st then [] else lv)
           (if st then [] else uv) so' ld lld nu np va mx)"

section \<open>The checker looks at the code only\<close>

lemma fetch_map: "rbind (fetch xs i) (\<lambda>q. F (h q)) = rbind (fetch (map h xs) i) F"
  by (auto simp: fetch_def nat_less_iff)

lemma guard_cong: "c = c' \<Longrightarrow> r = r' \<Longrightarrow> guard c r = guard c' r'"
  by simp

text \<open>Prototypes that differ in debug information only.\<close>

definition same_code :: "Proto \<Rightarrow> Proto \<Rightarrow> bool" where
  "same_code f g \<longleftrightarrow> proto_code f = proto_code g \<and> proto_k f = proto_k g
     \<and> map nups (proto_p f) = map nups (proto_p g) \<and> nups f = nups g
     \<and> is_vararg f = is_vararg g \<and> maxstacksize f = maxstacksize g"

lemma same_code_loop: "same_code f g \<Longrightarrow> check_closure_loop f pc n = check_closure_loop g pc n"
  by (induction n arbitrary: pc) (auto simp: same_code_def intro!: rbind_cong)

lemma same_code_switch:
  assumes "same_code f g"
  shows "symb_switch f lastpc reg pc op a b c l = symb_switch g lastpc reg pc op a b c l"
proof -
  have s: "proto_code f = proto_code g" "proto_k f = proto_k g" "nups f = nups g"
    "is_vararg f = is_vararg g" "maxstacksize f = maxstacksize g" using assms by (simp_all add: same_code_def)
  have n: "map nups (proto_p f) = map nups (proto_p g)" using assms by (simp add: same_code_def)
  then have len: "length (proto_p f) = length (proto_p g)" by (metis length_map)
  have clos: "rbind (fetch (proto_p f) b) (\<lambda>q. F (nups q)) = rbind (fetch (proto_p g) b) (\<lambda>q. F (nups q))" for F
    unfolding fetch_map n ..
  have aux: "checkreg f = checkreg g" "check_kstring f = check_kstring g" "checkopenop f = checkopenop g"
    "check_closure_loop f pc = check_closure_loop g pc"
    by (simp_all add: fun_eq_iff checkreg_def check_kstring_def checkopenop_def s same_code_loop [OF assms])
  show ?thesis
    using clos [of "\<lambda>k. guard (Ok (pc + int (unat k) < sizecode g))
                (guard (check_closure_loop g pc (unat k))
                  (Ok (Some (if reg \<noteq> NO_REG then pc + int (unat k) else pc, l))))"]
    unfolding symb_switch_def aux s len Let_def by (cases op) simp_all
qed

lemma same_code_step:
  assumes "same_code f g"
  shows "symb_step f lastpc reg pc l = symb_step g lastpc reg pc l"
proof -
  have s: "proto_code f = proto_code g" "proto_k f = proto_k g" "nups f = nups g"
    "maxstacksize f = maxstacksize g" using assms by (simp_all add: same_code_def)
  have r: "checkreg f = checkreg g" by (simp add: fun_eq_iff checkreg_def s)
  have m: "checkArgMode f = checkArgMode g" by (simp only: fun_eq_iff checkArgMode_def r s simp_thms)
  have aux: "symb_operands f = symb_operands g" "symb_test f = symb_test g"
    by (simp_all only: fun_eq_iff symb_operands_def symb_test_def m s simp_thms)
  show ?thesis unfolding symb_step_def aux r s same_code_switch [OF assms] ..
qed

lemma same_code_symb_loop:
  "same_code f g \<Longrightarrow> symb_loop f lastpc reg pc l = symb_loop g lastpc reg pc l"
proof (induction f lastpc reg pc l rule: symb_loop.induct)
  case (1 f lastpc reg pc l)
  have "rbind (symb_step f lastpc reg pc l) (\<lambda>r. case r of None \<Rightarrow> Ok None
          | Some (pc', last') \<Rightarrow> symb_loop f lastpc reg (pc' + 1) last')
      = rbind (symb_step g lastpc reg pc l) (\<lambda>r. case r of None \<Rightarrow> Ok None
          | Some (pc', last') \<Rightarrow> symb_loop g lastpc reg (pc' + 1) last')" if "pc < lastpc"
    using "1.IH" [OF that _ _ _ "1.prems"] same_code_step [OF "1.prems", of lastpc reg pc l]
    by (intro rbind_cong) (auto split: option.splits)
  then show ?case by (simp add: symb_loop.simps [of f lastpc] symb_loop.simps [of g lastpc])
qed

lemma checkcode_same_code:
  assumes "luaG_checkcode f = Ok True" and "same_code f g"
    and "upvalues g = [] \<or> upvalues g = upvalues f" and "lineinfo g = [] \<or> lineinfo g = lineinfo f"
  shows "luaG_checkcode g = Ok True"
proof -
  from assms(1) obtain i where "symbexec f (sizecode f) NO_REG = Ok i" "i \<noteq> 0"
    by (auto simp: luaG_checkcode_def elim!: rbind_OkE)
  then have p: "precheck f = Ok True" by (auto simp: symbexec_def elim!: rbind_OkE split: if_splits)
  then have "uint (maxstacksize f) \<le> MAXSTACK \<and> int (length (upvalues f)) \<le> uint (nups f)
    \<and> (length (lineinfo f) = length (proto_code f) \<or> lineinfo f = [])"
    by (auto simp: precheck_def split: if_splits)
  with p assms(2-4) have "precheck g = Ok True" by (auto simp: precheck_def same_code_def)
  with p assms(1,2) show ?thesis
    by (simp add: luaG_checkcode_def symbexec_def same_code_symb_loop [OF assms(2)])
      (simp add: same_code_def)
qed

lemma nups_loaded [simp]: "nups (loaded st inh p f) = nups f"
  by (cases f) (simp add: Let_def)

lemma checkcode_loaded:
  assumes "luaG_checkcode f = Ok True"
  shows "luaG_checkcode (loaded st inh p f) = Ok True"
  by (rule checkcode_same_code [OF assms])
     (cases f; simp add: same_code_def Let_def comp_def)+

section \<open>The round trip\<close>

lemma loads_Code:
  assumes "int (length cs) \<le> INT_MAX"
  shows "loads (LoadCode nm) (concat (vector_blocks (map uint cs))) cs"
proof -
  have v: "word_of_int (le_value (le_bytes 4 (uint i))) = i" for i :: Instruction
    using uint_bounded [of i] by (subst le_value_small) simp_all
  have "loads (sbind (LoadBlock nm (nat (int (length cs)) * 4)) (\<lambda>bs. sret (map (\<lambda>w. word_of_int (le_value w)) (words4 bs))))
    (concat (map (le_bytes 4) (map uint cs))) cs"
  proof (rule loads_then [OF loads_Block])
    show "length (concat (map (le_bytes 4) (map uint cs))) = nat (int (length cs)) * 4"
      by (simp add: length_concat comp_def sum_list_triv)
    show "sret (map (\<lambda>w. word_of_int (le_value w)) (words4 (concat (map (le_bytes 4) (map uint cs))))) = sret cs"
      by (subst words4_concat) (simp_all add: comp_def v)
  qed
  then have "loads (LoadCode nm) (le_bytes 4 (int (length cs)) @ concat (map (le_bytes 4) (map uint cs))) cs"
    unfolding LoadCode_def by (intro loads_bind [OF loads_Int]) (use assms in simp_all)
  then show ?thesis by (simp add: vector_blocks_def)
qed

lemma loads_lines:
  assumes "int (length li) \<le> INT_MAX" and "\<forall>x \<in> set li. in_int x" and "loads (f (map signed_value (map (le_bytes 4) li))) bs y"
  shows "loads (sbind (LoadInt nm) (\<lambda>n. sbind (LoadBlock nm (nat n * 4)) (\<lambda>b. f (map signed_value (words4 b)))))
    (concat (vector_blocks li) @ bs) y"
proof -
  have "loads (sbind (LoadBlock nm (nat (int (length li)) * 4)) (\<lambda>b. f (map signed_value (words4 b))))
    (concat (map (le_bytes 4) li) @ bs) y"
    by (rule loads_bind [OF loads_Block])
       (simp_all only: words4_concat length_le_bytes assms(3), simp add: length_concat comp_def sum_list_triv)
  then have "loads (sbind (LoadInt nm) (\<lambda>n. sbind (LoadBlock nm (nat n * 4)) (\<lambda>b. f (map signed_value (words4 b)))))
    (le_bytes 4 (int (length li)) @ (concat (map (le_bytes 4) li) @ bs)) y"
    by (intro loads_bind [OF loads_Int]) (use assms in simp_all)
  then show ?thesis by (simp add: vector_blocks_def)
qed

lemma lines_value: "\<forall>x \<in> set li. in_int x \<Longrightarrow> map signed_value (map (le_bytes 4) li) = li"
  by (induction li) (simp_all add: in_int_def signed_value_bytes)

lemma loads_Debug:
  assumes "int (length li) \<le> INT_MAX" and "int (length lv) \<le> INT_MAX" and "int (length uv) \<le> INT_MAX"
    and "\<forall>x \<in> set li. in_int x" and "\<forall>v \<in> set lv. good_locvar v" and "\<forall>u \<in> set uv. small_string u"
  shows "loads (LoadDebug nm) (concat (debug_blocks li lv uv)) (li, lv, uv)"
proof -
  have u: "loads (sbind (LoadInt nm) (\<lambda>n. sbind (load_n (nat n) (LoadString nm)) (\<lambda>uv. sret (li, lv, uv))))
      (concat (list_blocks string_blocks uv) @ []) (li, lv, uv)"
    by (rule names.loads_list [OF assms(6,3)]) simp
  have v: "loads (sbind (LoadInt nm) (\<lambda>n. sbind (load_n (nat n) (LoadLocVar nm)) (\<lambda>lv.
      sbind (LoadInt nm) (\<lambda>n. sbind (load_n (nat n) (LoadString nm)) (\<lambda>uv. sret (li, lv, uv))))))
      (concat (list_blocks locvar_blocks lv) @ (concat (list_blocks string_blocks uv) @ [])) (li, lv, uv)"
    by (rule variables.loads_list [OF assms(5,2)]) (use u in simp)
  have "loads (LoadDebug nm) (concat (vector_blocks li) @ (concat (list_blocks locvar_blocks lv)
      @ (concat (list_blocks string_blocks uv) @ []))) (li, lv, uv)"
    unfolding LoadDebug_def
    by (rule loads_lines [OF assms(1,4), where f = "\<lambda>li. sbind (LoadInt nm) (\<lambda>n. sbind (load_n (nat n) (LoadLocVar nm)) (\<lambda>lv.
      sbind (LoadInt nm) (\<lambda>n. sbind (load_n (nat n) (LoadString nm)) (\<lambda>uv. sret (li, lv, uv)))))"])
       (use v lines_value [OF assms(4)] in simp)
  then show ?thesis by (simp add: debug_blocks_def)
qed

lemma loads_Constants:
  fixes ps :: "Proto list"
  assumes "int (length ks) \<le> INT_MAX" and "\<forall>k \<in> set ks. good_constant k" and "int (length ps) \<le> INT_MAX"
    and "\<forall>g \<in> set ps. loads func (concat (enc g)) (val g :: Proto)"
  shows "loads (LoadConstants func nm) (concat (list_blocks konstant_blocks ks) @ concat (list_blocks enc ps))
    (ks, map val ps)"
proof -
  have ic: "item_codec (\<lambda>g. g \<in> set ps) enc func val"
    by unfold_locales (use assms(4) in blast)
  have "loads (sbind (LoadInt nm) (\<lambda>n. sbind (load_n (nat n) func) (\<lambda>ps. sret (ks, ps))))
    (concat (list_blocks enc ps) @ []) (ks, map val ps)"
    by (rule item_codec.loads_list [OF ic]) (use assms(3) in simp_all)
  then show ?thesis
    unfolding LoadConstants_def by (intro constants.loads_list [OF assms(2,1)]) simp
qed

lemma inner_length: "x \<in> set xs \<Longrightarrow> length (concat (enc x)) \<le> length (concat (list_blocks enc xs))"
  by (induction xs) (auto simp: list_blocks_def)

lemma loads_source:
  assumes "small_string so"
  shows "loads (LoadString nm) (concat (string_blocks (if so = p \<or> st then None else so))) (if so = p \<or> st then None else so)"
  by (rule loads_String) (use assms in \<open>simp add: small_string_def\<close>)

lemma loads_Function:
  "dumpable f \<Longrightarrow> length (concat (function_blocks st p f)) \<le> d \<Longrightarrow>
    loads (LoadFunction d nm inh) (concat (function_blocks st p f)) (loaded st inh p f)"
proof (induction st p f arbitrary: d inh rule: function_blocks.induct)
  case (1 st p ks cs ps li lv uv so ld lld nu np va mx)
  note dump = "1.prems"(1) [simplified]
  have lim: "small_string so" "0 \<le> ld" "ld \<le> INT_MAX" "0 \<le> lld" "lld \<le> INT_MAX" "int (length cs) \<le> INT_MAX"
    using dump by simp_all
  let ?f = "Proto ks cs ps li lv uv so ld lld nu np va mx"
  let ?s = "if so = p \<or> st then None else so"
  let ?so = "if so = p \<or> st \<or> so = None then inh else so"
  have so: "(case ?s of None \<Rightarrow> inh | Some _ \<Rightarrow> ?s) = ?so" by (auto split: option.splits)
  have pos: "0 < length (concat (string_blocks s))" for s
    by (cases s) (simp_all add: string_blocks_def)
  then obtain d' where d: "d = Suc d'" using "1.prems"(2) pos [of ?s] by (cases d) simp_all
  have nested: "loads (LoadFunction d' nm ?so) (concat (function_blocks st so g)) (loaded st ?so so g)"
    if g: "g \<in> set ps" for g
  proof (rule "1.IH" [OF g])
    show "dumpable g" using dump g by blast
    show "length (concat (function_blocks st so g)) \<le> d'"
      using inner_length [OF g, of "function_blocks st so"] "1.prems"(2) pos [of ?s]
      unfolding d by simp
  qed
  let ?dbg = "(if st then [] else li, if st then [] else lv, if st then [] else uv)"
  let ?g = "loaded st inh p ?f"
  have chk: "loads (load_checked nm ?g) [] ?g"
    using checkcode_loaded [of ?f st inh p] dump by (auto simp: loads_def load_checked_def)
  have deb: "loads (sbind (LoadDebug nm) (\<lambda>(li, lv, uv). load_checked nm
        (Proto ks cs (map (loaded st ?so so) ps) li lv uv ?so ld lld nu np va mx)))
      (concat (debug_blocks (if st then [] else li) (if st then [] else lv) (if st then [] else uv)) @ []) ?g"
    by (rule loads_bind [OF loads_Debug]) (use dump chk in \<open>simp_all add: Let_def\<close>)
  have kons: "loads (sbind (LoadConstants (LoadFunction d' nm ?so) nm) (\<lambda>(ks, ps). sbind (LoadDebug nm) (\<lambda>(li, lv, uv).
      load_checked nm (Proto ks cs ps li lv uv ?so ld lld nu np va mx))))
      ((concat (list_blocks konstant_blocks ks) @ concat (list_blocks (function_blocks st so) ps)) @
       (concat (debug_blocks (if st then [] else li) (if st then [] else lv) (if st then [] else uv)) @ [])) ?g"
    by (rule loads_bind [OF loads_Constants]) (use dump nested deb in auto)
  have "loads (LoadFunction d nm inh)
      (concat (string_blocks ?s) @ le_bytes 4 ld @ le_bytes 4 lld @ le_bytes 1 (uint nu) @ le_bytes 1 (uint np)
       @ le_bytes 1 (uint va) @ le_bytes 1 (uint mx) @ concat (vector_blocks (map uint cs)) @
      ((concat (list_blocks konstant_blocks ks) @ concat (list_blocks (function_blocks st so) ps)) @
       (concat (debug_blocks (if st then [] else li) (if st then [] else lv) (if st then [] else uv)) @ []))) ?g"
    unfolding d LoadFunction_Suc
    by (rule loads_bind, rule loads_source [OF lim(1)], unfold Let_def so,
        rule loads_bind, rule loads_Int [OF lim(2,3)], rule loads_bind, rule loads_Int [OF lim(4,5)],
        rule loads_bind, rule loads_Byte, rule loads_bind, rule loads_Byte,
        rule loads_bind, rule loads_Byte, rule loads_bind, rule loads_Byte,
        rule loads_bind, rule loads_Code [OF lim(6)], rule kons)
  then show ?case by simp
qed

section \<open>Properties\<close>

text \<open>
  C38: Dumping hands the writer the blocks of the format in their order, stops at the first status
  that is not zero, and returns it.
\<close>

theorem dump_sends_blocks: "luaU_dump w f d st = send w (chunk_blocks st f) d"
  by (rule dump_send)

text \<open>A writer that keeps the bytes, as that of \<open>string.dump\<close>.\<close>

definition append_writer :: "string writer" where
  "append_writer d b = (0, d @ b)"

lemma send_append: "send append_writer bs d = (0, d @ concat bs)"
  by (induction bs arbitrary: d) (simp_all add: append_writer_def)

text \<open>Every function has a source, as after parsing.\<close>

fun all_sources :: "Proto \<Rightarrow> bool" where
  "all_sources (Proto ks cs ps li lv uv so ld lld nu np va mx) \<longleftrightarrow> so \<noteq> None \<and> (\<forall>g \<in> set ps. all_sources g)"

lemma loaded_same: "all_sources f \<Longrightarrow> p = None \<or> p = inh \<Longrightarrow> loaded False inh p f = f"
proof (induction False inh p f rule: loaded.induct)
  case (1 inh p ks cs ps li lv uv so ld lld nu np va mx)
  have so: "(if so = p \<or> False \<or> so = None then inh else so) = so" using "1.prems" by auto
  have "map (loaded False so so) ps = ps"
    using "1.hyps" [of so] "1.prems" so by (intro map_idI) auto
  with so show ?case by (simp add: Let_def)
qed

text \<open>
  C23: What \<open>luaU_dump\<close> writes is read back by \<open>luaU_undump\<close>, from any division of the stream
  into blocks, and nothing after it is read. The function loaded is the one dumped, except that
  stripping removes the debug information and that a missing source is that of the enclosing
  function or of the loader; it is exactly the one dumped when nothing is stripped and every
  function has a source.
\<close>

theorem dump_undump_roundtrip:
  assumes "dumpable f" and "luaU_dump append_writer f [] st = (0, bytes)"
    and "zio_ok z" and "contents z = bytes @ rest"
  shows "(\<exists>z'. luaU_undump name z = Ok (loaded st (Some ''=?'') None f, z') \<and> zio_ok z' \<and> contents z' = rest)
    \<and> (\<not> st \<and> all_sources f \<longrightarrow> loaded st (Some ''=?'') None f = f)"
proof
  let ?nm = "chunk_name name"
  have b: "bytes = luaU_header @ concat (function_blocks st None f)"
    using assms(2) unfolding dump_send send_append by (simp add: chunk_blocks_def)
  have h: "loads (LoadHeader ?nm) luaU_header ()"
    unfolding LoadHeader_def by (rule loads_then [OF loads_Block]) (simp_all add: luaU_header_def LUA_SIGNATURE_def)
  have "length (concat (function_blocks st None f)) \<le> length (contents z)" by (simp add: assms(4) b)
  from loads_bind [OF h, of "\<lambda>_. LoadFunction (length (contents z)) ?nm (Some ''=?'')",
      OF loads_Function [OF assms(1) this]]
  have "loads (sbind (LoadHeader ?nm) (\<lambda>_. LoadFunction (length (contents z)) ?nm (Some ''=?''))) bytes
      (loaded st (Some ''=?'') None f)"
    by (simp only: b)
  from loadsD [OF this assms(3,4)]
  show "\<exists>z'. luaU_undump name z = Ok (loaded st (Some ''=?'') None f, z') \<and> zio_ok z' \<and> contents z' = rest"
    unfolding luaU_undump_def by blast
  show "\<not> st \<and> all_sources f \<longrightarrow> loaded st (Some ''=?'') None f = f" by (simp add: loaded_same)
qed


section \<open>Examples\<close>

text \<open>A chunk with a nested function, both with debug information.\<close>

definition nested_proto :: Proto where
  "nested_proto = Proto [] [CREATE_ABC OP_RETURN 0 1 0] [] [7] [] [] (Some ''@f.lua'') 3 4 0 0 0 2"

definition chunk_proto :: Proto where
  "chunk_proto = Proto [KString ''x'', KBoolean 1, KNil]
     [CREATE_ABx OP_CLOSURE 0 0, CREATE_ABx OP_SETGLOBAL 0 0, CREATE_ABC OP_RETURN 0 1 0] [nested_proto]
     [1, 2, 3] [\<lparr>varname = Some ''a'', startpc = 0, endpc = 2\<rparr>] [] (Some ''@f.lua'') 0 9 0 0 2 2"

lemma chunk_dumpable: "dumpable chunk_proto"
proof -
  have k: "luaG_checkcode nested_proto = Ok True" "luaG_checkcode chunk_proto = Ok True" by code_simp+
  have "good_constant (KString ''x'')" "good_constant (KBoolean 1)" "good_constant KNil"
    "good_locvar \<lparr>varname = Some ''a'', startpc = 0, endpc = 2\<rparr>" "small_string (Some ''@f.lua'')"
    by (simp_all add: small_string_def good_constant_def good_locvar_def)
  then show ?thesis
    using k unfolding chunk_proto_def nested_proto_def dumpable.simps by (simp add: in_int_def)
qed

theorem dump_undump_roundtrip_witness:
  "\<exists>z'. luaU_undump ''@f.lua'' (luaZ_init [snd (luaU_dump append_writer chunk_proto [] False)]) = Ok (chunk_proto, z')"
proof -
  let ?b = "snd (luaU_dump append_writer chunk_proto [] False)"
  have d: "luaU_dump append_writer chunk_proto [] False = (0, ?b)" by (simp add: dump_send send_append)
  have "0 < length ?b \<and> length ?b < 1000" by code_simp
  then have "zio_ok (luaZ_init [?b])" "contents (luaZ_init [?b]) = ?b @ []"
    by (auto simp: init_ok fits_def contents_init)
  from dump_undump_roundtrip [OF chunk_dumpable d this, of "''@f.lua''"]
  have "loaded False (Some ''=?'') None chunk_proto = chunk_proto"
    "\<exists>z'. luaU_undump ''@f.lua'' (luaZ_init [?b]) = Ok (loaded False (Some ''=?'') None chunk_proto, z')"
    by (auto simp: chunk_proto_def nested_proto_def)
  then show ?thesis by simp
qed


text \<open>A function without instructions, and a string constant of size zero that names a global.\<close>

definition no_code_proto :: Proto where
  "no_code_proto = Proto [] [] [] [] [] [] None 0 0 0 0 0 2"

lemma no_code_chunk: "luaU_undump ''x'' (luaZ_init [concat (chunk_blocks False no_code_proto)]) = Undef"
  by code_simp

definition null_name :: Proto where
  "null_name = Proto [KNullString] [CREATE_ABx OP_GETGLOBAL 0 0, CREATE_ABC OP_RETURN 0 1 0] [] [] [] []
     (Some ''=?'') 0 0 0 0 0 2"

lemma null_name_loaded:
  "luaU_undump ''x'' (luaZ_init [concat (chunk_blocks False null_name)]) = Ok (null_name, \<lparr>zn = 0, zp = [], zblocks = []\<rparr>)
   \<and> getobjname null_name 1 0 = Undef"
  by (intro conjI) code_simp+

end
