(* ===== verification/LuaLexSpec.thy ===== *)
theory LuaLexSpec
  imports LuaLex "HOL-Library.Sublist"
begin

text \<open>
  The input that the lexer still has, and that every step of it stays inside its buffer and the
  stream.
\<close>

section \<open>States\<close>

definition input :: "LexState \<Rightarrow> string" where
  "input ls = (if current ls = EOZ then [] else chr (current ls) # contents (zin ls))"

text \<open>The stream is not read any more once its end was seen.\<close>

definition lex_ok :: "LexState \<Rightarrow> bool" where
  "lex_ok ls \<longleftrightarrow> - 1 \<le> current ls \<and> current ls < 256 \<and> (current ls \<noteq> EOZ \<longrightarrow> zio_ok (zin ls))
     \<and> length (buff ls) \<le> buffsize ls \<and> 0 < buffsize ls"

text \<open>A step that returns with \<open>P\<close>, having taken a prefix of the input, or raises a syntax error.\<close>

definition lex_fine :: "('a \<Rightarrow> LexState \<Rightarrow> bool) \<Rightarrow> LexState \<Rightarrow> ('a \<times> LexState) result \<Rightarrow> bool" where
  "lex_fine P ls r \<longleftrightarrow>
     (case r of
        Ok (x, ls') \<Rightarrow> P x ls' \<and> lex_ok ls' \<and> suffix (input ls') (input ls)
      | Err (SyntaxError _) \<Rightarrow> True
      | _ \<Rightarrow> False)"

lemma lex_fine_simps [simp]:
  "lex_fine P ls (Ok (x, ls')) \<longleftrightarrow> P x ls' \<and> lex_ok ls' \<and> suffix (input ls') (input ls)"
  "lex_fine P ls (Err (SyntaxError m))" "\<not> lex_fine P ls Undef" "\<not> lex_fine P ls Diverge"
  by (simp_all add: lex_fine_def)

lemma lex_fine_OkD: "lex_fine P ls r \<Longrightarrow> r = Ok (x, ls') \<Longrightarrow> P x ls' \<and> lex_ok ls' \<and> suffix (input ls') (input ls)"
  by simp

lemma lex_fine_cases:
  assumes "lex_fine P ls r"
  obtains (ok) x ls' where "r = Ok (x, ls')" and "P x ls'" and "lex_ok ls'" and "suffix (input ls') (input ls)"
    | (err) m where "r = Err (SyntaxError m)"
  using assms by (auto simp: lex_fine_def split: result.splits lua_error.splits)

lemma lex_fine_bind:
  assumes "lex_fine P ls (m ls)"
    and "\<And>x ls'. m ls = Ok (x, ls') \<Longrightarrow> P x ls' \<Longrightarrow> lex_ok ls' \<Longrightarrow> suffix (input ls') (input ls) \<Longrightarrow> lex_fine Q ls' (f x ls')"
  shows "lex_fine Q ls (sbind m f ls)"
  using assms(1)
proof (cases rule: lex_fine_cases)
  case (ok x ls')
  from assms(2) [OF ok] show ?thesis
    by (cases rule: lex_fine_cases) (use ok suffix_order.trans in \<open>auto simp: sbind_def\<close>)
qed (simp add: sbind_def)

lemma lex_fine_mono: "lex_fine P ls r \<Longrightarrow> (\<And>x ls'. P x ls' \<Longrightarrow> Q x ls') \<Longrightarrow> lex_fine Q ls r"
  by (auto simp: lex_fine_def split: result.splits lua_error.splits)

lemma if_fine:
  "(c \<Longrightarrow> lex_fine P ls a) \<Longrightarrow> (\<not> c \<Longrightarrow> lex_fine P ls b) \<Longrightarrow> lex_fine P ls (if c then a else b)"
  by simp

lemma lex_fine_input: "input ls = input ls' \<Longrightarrow> lex_fine P ls r = lex_fine P ls' r"
  by (simp only: lex_fine_def)

lemma lex_fine_ret: "P x ls \<Longrightarrow> lex_ok ls \<Longrightarrow> lex_fine P ls (Ok (x, ls))"
  by simp

text \<open>Fields that do not matter for the input.\<close>

lemma input_update [simp]:
  "input (ls\<lparr>linenumber := n\<rparr>) = input ls" "input (ls\<lparr>buff := b\<rparr>) = input ls" "input (ls\<lparr>decpoint := d\<rparr>) = input ls"
  "input (ls\<lparr>fs_h := h\<rparr>) = input ls" "input (ls\<lparr>buffsize := k\<rparr>) = input ls" "input (ls\<lparr>lastline := n\<rparr>) = input ls"
  "input (ls\<lparr>tk := t\<rparr>) = input ls" "input (ls\<lparr>ahead := t\<rparr>) = input ls"
  by (simp_all add: input_def)

lemma lex_ok_update [simp]:
  "lex_ok (ls\<lparr>linenumber := n\<rparr>) = lex_ok ls" "lex_ok (ls\<lparr>decpoint := d\<rparr>) = lex_ok ls"
  "lex_ok (ls\<lparr>fs_h := h\<rparr>) = lex_ok ls" "lex_ok (ls\<lparr>lastline := n\<rparr>) = lex_ok ls"
  "lex_ok (ls\<lparr>tk := t\<rparr>) = lex_ok ls" "lex_ok (ls\<lparr>ahead := t\<rparr>) = lex_ok ls"
  by (simp_all add: lex_ok_def)

lemma lex_ok_buff: "lex_ok ls \<Longrightarrow> length b \<le> buffsize ls \<Longrightarrow> lex_ok (ls\<lparr>buff := b\<rparr>)"
  by (simp add: lex_ok_def)

section \<open>Characters\<close>

lemma zgetc_end:
  assumes "zio_ok z" and "contents z = []"
  shows "\<exists>z'. zgetc z = Ok (EOZ, z')"
proof -
  have p: "zp z = []" using assms(2) by (simp add: contents_def)
  with assms(1) have n: "zn z = 0" by (simp add: zio_ok_def unat_eq_zero)
  have "\<exists>z'. luaZ_fill (z\<lparr>zn := zn z - 1\<rparr>) = Ok (EOZ, z')"
  proof (cases "zblocks z")
    case (Cons b bs)
    then have "b = []" using assms(2) by (cases "b = []") (simp_all add: contents_def)
    with Cons show ?thesis by (simp add: luaZ_fill_def)
  qed (simp add: luaZ_fill_def)
  with n show ?thesis by (simp add: zgetc_def)
qed

lemma lnext_input:
  assumes "lex_ok ls" and "input ls = c # s"
  shows "\<exists>ls'. lnext ls = Ok ((), ls') \<and> lex_ok ls' \<and> input ls' = s
    \<and> (\<exists>c z. ls' = ls\<lparr>current := c, zin := z\<rparr>)"
proof -
  have ne: "current ls \<noteq> EOZ" and s: "contents (zin ls) = s" using assms(2) by (auto simp: input_def split: if_splits)
  with assms(1) have z: "zio_ok (zin ls)" by (simp add: lex_ok_def)
  show ?thesis
  proof (cases s)
    case Nil
    with zgetc_end [OF z] s obtain z' where "zgetc (zin ls) = Ok (EOZ, z')" by blast
    with assms(1) Nil show ?thesis by (auto simp: lnext_def lex_ok_def input_def)
  next
    case (Cons d t)
    with zgetc_spec [OF z] s obtain z' where "zgetc (zin ls) = Ok (code d, z')" "zio_ok z'" "contents z' = t" by auto
    with assms(1) Cons code_bounds [of d] show ?thesis by (auto simp: lnext_def lex_ok_def input_def)
  qed
qed

lemma input_current: "current ls \<noteq> EOZ \<Longrightarrow> input ls = chr (current ls) # contents (zin ls)"
  by (simp add: input_def)

lemma lnext_fine: "lex_ok ls \<Longrightarrow> current ls \<noteq> EOZ \<Longrightarrow> lex_fine (\<lambda>_ ls'. buff ls' = buff ls) ls (lnext ls)"
  using lnext_input [of ls "chr (current ls)" "contents (zin ls)"]
  by (auto simp: input_current suffix_def)

lemma save_fine: "lex_ok ls \<Longrightarrow> lex_fine (\<lambda>_ ls'. current ls' = current ls) ls (save c ls)"
  by (auto simp: save_def lex_ok_def input_def)

lemma save_and_next_fine: "lex_ok ls \<Longrightarrow> current ls \<noteq> EOZ \<Longrightarrow> lex_fine (\<lambda>_ _. True) ls (save_and_next ls)"
  unfolding save_and_next_def
  by (rule lex_fine_bind [where m = "save (current ls)", OF save_fine])
     (auto intro!: lex_fine_mono [OF lnext_fine])

lemma lexerror_fine [simp]: "lex_ok ls \<Longrightarrow> lex_fine P ls (luaX_lexerror msg t ls)"
  unfolding luaX_lexerror_def
  by (auto simp: txtToken_def sbind_def save_def)

lemma syntaxerror_fine [simp]: "lex_ok ls \<Longrightarrow> lex_fine P ls (luaX_syntaxerror msg ls)"
  by (simp add: luaX_syntaxerror_def)

lemma newline_fine: "newline ls \<Longrightarrow> current ls \<noteq> EOZ"
  by (auto simp: newline_def)

lemma inclinenumber_fine:
  assumes "lex_ok ls" and "newline ls"
  shows "lex_fine (\<lambda>_ ls'. buff ls' = buff ls) ls (inclinenumber ls)"
  unfolding inclinenumber_def
proof (rule lex_fine_bind [where m = lnext, OF lnext_fine])
  show "lex_ok ls" "current ls \<noteq> EOZ" using assms newline_fine by auto
  fix u ls1
  assume 1: "buff ls1 = buff ls" "lex_ok ls1"
  let ?m = "if newline ls1 \<and> current ls1 \<noteq> current ls then lnext else sret ()"
  have m: "lex_fine (\<lambda>_ ls'. buff ls' = buff ls1) ls1 (?m ls1)"
    using lnext_fine [OF 1(2)] newline_fine [of ls1] 1(2) by (auto simp: sret_def)
  show "lex_fine (\<lambda>_ ls'. buff ls' = buff ls) ls1
     (sbind ?m (\<lambda>_ ls''. let ls3 = ls''\<lparr>linenumber := linenumber ls'' + 1\<rparr>
         in if MAX_INT \<le> linenumber ls3 then luaX_syntaxerror ''chunk has too many lines'' ls3
            else Ok ((), ls3)) ls1)"
    by (rule lex_fine_bind [where m = ?m, OF m]) (auto simp: Let_def 1(1) syntaxerror_fine lex_fine_def
          luaX_syntaxerror_def luaX_lexerror_def txtToken_def sbind_def save_def)
qed

lemma check_next_fine:
  assumes "lex_ok ls" and "chr 255 \<notin> set cs"
  shows "lex_fine (\<lambda>_ _. True) ls (check_next cs ls)"
proof (cases "current ls mod 256 \<noteq> 0 \<and> chr (current ls mod 256) \<notin> set cs")
  case True
  with assms(1) show ?thesis by (simp add: check_next_def)
next
  case False
  then have ne: "current ls \<noteq> EOZ" using assms(2) by auto
  show ?thesis unfolding check_next_def using False assms(1)
    by (auto simp: sret_def intro!: lex_fine_bind [where m = save_and_next, OF save_and_next_fine [OF assms(1) ne]])
qed

section \<open>Numerals and names\<close>

lemma digit_loop_fine: "lex_ok ls \<Longrightarrow> lex_fine (\<lambda>_ _. True) ls (digit_loop ls)"
proof (induction ls rule: digit_loop.induct)
  case (1 ls)
  show ?case
  proof (cases "isdigit (current ls) \<or> current ls = code (CHR ''.'')")
    case True
    then have "current ls \<noteq> EOZ" using isdigit_current [of ls] by (auto simp: code_def)
    with True "1.IH" "1.prems" show ?thesis
      by (subst digit_loop.simps) (auto intro!: lex_fine_bind [where m = save_and_next, OF save_and_next_fine])
  qed (use "1.prems" in \<open>simp add: digit_loop.simps [of ls]\<close>)
qed

lemma alnum_loop_fine: "lex_ok ls \<Longrightarrow> lex_fine (\<lambda>_ _. True) ls (alnum_loop ls)"
proof (induction ls rule: alnum_loop.induct)
  case (1 ls)
  show ?case
  proof (cases "isalnum (current ls) \<or> current ls = code (CHR ''_'')")
    case True
    then have "current ls \<noteq> EOZ" using isalnum_current [of ls] by (auto simp: code_def)
    with True "1.IH" "1.prems" show ?thesis
      by (subst alnum_loop.simps) (auto intro!: lex_fine_bind [where m = save_and_next, OF save_and_next_fine])
  qed (use "1.prems" in \<open>simp add: alnum_loop.simps [of ls]\<close>)
qed

lemma buffreplace_fine: "lex_ok ls \<Longrightarrow> lex_fine (\<lambda>_ _. True) ls (buffreplace a b ls)"
  by (simp add: buffreplace_def lex_ok_def)

lemma trydecpoint_fine: "lex_ok ls \<Longrightarrow> lex_fine (\<lambda>_ _. True) ls (trydecpoint ls)"
proof -
  assume "lex_ok ls"
  then have "lex_ok (ls\<lparr>decpoint := CHR ''.''\<rparr>)" by simp
  then have "lex_fine (\<lambda>_ _. True) (ls\<lparr>decpoint := CHR ''.''\<rparr>) (trydecpoint ls)"
    unfolding trydecpoint_def Let_def
    by (intro lex_fine_bind [where m = "buffreplace a b" for a b, OF buffreplace_fine])
       (auto split: option.splits intro!: lex_fine_bind [where m = "buffreplace a b" for a b, OF buffreplace_fine])
  then show ?thesis by (simp add: lex_fine_input [of "ls\<lparr>decpoint := CHR ''.''\<rparr>" ls])
qed

lemma read_numeral_fine:
  assumes "lex_ok ls" and "current ls \<noteq> EOZ"
  shows "lex_fine (\<lambda>_ _. True) ls (read_numeral ls)"
proof -
  have E: "chr 255 \<notin> set ''Ee''" "chr 255 \<notin> set ''+-''" by code_simp+
  have e: "lex_fine (\<lambda>_ _. True) ls1 ((if b then check_next ''+-'' else sret False) ls1)" if "lex_ok ls1" for ls1 b
    using check_next_fine [OF that E(2)] that by (simp add: sret_def)
  show ?thesis
    unfolding read_numeral_def
    apply (rule lex_fine_bind [where m = save_and_next, OF save_and_next_fine [OF assms]])
    apply (rule lex_fine_bind [where m = digit_loop, OF digit_loop_fine], assumption)
    apply (rule lex_fine_bind [where m = "check_next ''Ee''", OF check_next_fine [OF _ E(1)]], assumption)
    apply (rule lex_fine_bind, rule e, assumption)
    apply (rule lex_fine_bind [where m = alnum_loop, OF alnum_loop_fine], assumption)
    apply (rule lex_fine_bind [where m = "save 0", OF save_fine], assumption)
    apply (rule lex_fine_bind [where m = "buffreplace a b" for a b, OF buffreplace_fine], assumption)
    apply (auto split: option.splits intro: trydecpoint_fine)
    done
qed

section \<open>Strings and comments\<close>

lemma sep_loop_fine: "lex_ok ls \<Longrightarrow> lex_fine (\<lambda>_ _. True) ls (sep_loop c ls)"
proof (induction c ls rule: sep_loop.induct)
  case (1 c ls)
  show ?case
  proof (cases "current ls = code (CHR ''='')")
    case True
    then have "current ls \<noteq> EOZ" by (simp add: code_def)
    with True "1.IH" "1.prems" show ?thesis
      by (subst sep_loop.simps) (auto intro!: lex_fine_bind [where m = save_and_next, OF save_and_next_fine])
  qed (use "1.prems" in \<open>simp add: sep_loop.simps [of c]\<close>)
qed

lemma skip_sep_fine:
  assumes "lex_ok ls" and "current ls \<noteq> EOZ"
  shows "lex_fine (\<lambda>k ls'. 0 \<le> k \<longrightarrow> current ls' \<noteq> EOZ) ls (skip_sep ls)"
proof -
  have "lex_fine (\<lambda>_ _. True) ls (skip_sep ls)"
    unfolding skip_sep_def
    by (rule lex_fine_bind [where m = save_and_next, OF save_and_next_fine [OF assms]])
       (auto intro!: lex_fine_bind [where m = "sep_loop 0", OF sep_loop_fine])
  then show ?thesis
    using skip_sep_less(2) [OF _ assms(2)] by (cases rule: lex_fine_cases) auto
qed

lemma resetbuffer_fine: "lex_ok ls \<Longrightarrow> lex_fine (\<lambda>_ ls'. current ls' = current ls) ls (resetbuffer ls)"
  by (simp add: resetbuffer_def lex_ok_buff)

lemma long_loop_fine: "lex_ok ls \<Longrightarrow> lex_fine (\<lambda>_ _. True) ls (long_loop sem sep ls)"
proof (induction sem sep ls rule: long_loop.induct)
  case (1 sem sep ls)
  note ok = "1.prems"
  show ?case
  proof (cases "current ls = EOZ")
    case ne: False
    note skip = lex_fine_bind [where m = skip_sep, OF skip_sep_fine [OF ok ne]]
    consider (opn) "current ls = code (CHR ''['')" | (cls) "current ls \<noteq> code (CHR ''['')" "current ls = code (CHR '']'')"
      | (line) "current ls \<noteq> code (CHR ''['')" "current ls \<noteq> code (CHR '']'')" "newline ls"
      | (other) "current ls \<noteq> code (CHR ''['')" "current ls \<noteq> code (CHR '']'')" "\<not> newline ls" by blast
    then show ?thesis
    proof cases
      case opn
      have "lex_fine (\<lambda>_ _. True) ls (sbind skip_sep (\<lambda>k ls1.
          if k = int sep then sbind save_and_next (\<lambda>_ ls2.
            if sep = 0 then luaX_lexerror ''nesting of [[...]] is deprecated'' (code (CHR ''['')) ls2
            else long_loop sem sep ls2) ls1
          else long_loop sem sep ls1) ls)"
      proof (rule skip)
        fix k ls1
        assume k: "skip_sep ls = Ok (k, ls1)" "0 \<le> k \<longrightarrow> current ls1 \<noteq> EOZ" "lex_ok ls1"
        show "lex_fine (\<lambda>_ _. True) ls1 (if k = int sep then sbind save_and_next (\<lambda>_ ls2.
            if sep = 0 then luaX_lexerror ''nesting of [[...]] is deprecated'' (code (CHR ''['')) ls2
            else long_loop sem sep ls2) ls1
          else long_loop sem sep ls1)"
        proof (cases "k = int sep")
          case True
          with k(2) have ne1: "current ls1 \<noteq> EOZ" by simp
          have "lex_fine (\<lambda>_ _. True) ls1 (sbind save_and_next (\<lambda>_ ls2.
            if sep = 0 then luaX_lexerror ''nesting of [[...]] is deprecated'' (code (CHR ''['')) ls2
            else long_loop sem sep ls2) ls1)"
            by (rule lex_fine_bind [where m = save_and_next, OF save_and_next_fine [OF k(3) ne1]])
               (use "1.IH"(1) [OF ne opn k(1) True] in auto)
          with True show ?thesis by simp
        qed (use "1.IH"(2) [OF ne opn k(1)] k(3) in simp)
      qed
      with opn ne show ?thesis by (simp add: long_loop.simps [of sem])
    next
      case cls
      have "lex_fine (\<lambda>_ _. True) ls (sbind skip_sep (\<lambda>k ls1. if k = int sep then save_and_next ls1 else long_loop sem sep ls1) ls)"
      proof (rule skip)
        fix k ls1
        assume k: "skip_sep ls = Ok (k, ls1)" "0 \<le> k \<longrightarrow> current ls1 \<noteq> EOZ" "lex_ok ls1"
        show "lex_fine (\<lambda>_ _. True) ls1 (if k = int sep then save_and_next ls1 else long_loop sem sep ls1)"
          using "1.IH"(3) [OF ne cls k(1) _ k(3)] save_and_next_fine [OF k(3)] k(2) by auto
      qed
      with cls ne show ?thesis by (simp add: long_loop.simps [of sem])
    next
      case line
      have b: "lex_fine (\<lambda>_ _. True) ls1 ((if sem then sret () else resetbuffer) ls1)" if "lex_ok ls1" for ls1
        using resetbuffer_fine [OF that] that by (auto simp: sret_def intro: lex_fine_mono)
      have "lex_fine (\<lambda>_ _. True) ls (sbind (save 10) (\<lambda>_. sbind inclinenumber (\<lambda>_.
          sbind (if sem then sret () else resetbuffer) (\<lambda>_. long_loop sem sep))) ls)"
      proof (rule lex_fine_bind [where m = "save 10", OF save_fine [OF ok]])
        fix u ls1
        assume 1: "save 10 ls = Ok (u, ls1)" "current ls1 = current ls" "lex_ok ls1"
        then have "newline ls1" using line by (simp add: newline_def)
        show "lex_fine (\<lambda>_ _. True) ls1 (sbind inclinenumber (\<lambda>_.
          sbind (if sem then sret () else resetbuffer) (\<lambda>_. long_loop sem sep)) ls1)"
          by (rule lex_fine_bind [where m = inclinenumber, OF inclinenumber_fine [OF 1(3) \<open>newline ls1\<close>]],
              rule lex_fine_bind, rule b, assumption)
             (rule "1.IH"(4) [OF ne line 1(1)], assumption+)
      qed
      with line ne show ?thesis by (simp add: long_loop.simps [of sem])
    next
      case other
      have n: "lex_fine (\<lambda>_ _. True) ls ((if sem then save_and_next else lnext) ls)"
        using save_and_next_fine [OF ok ne] lnext_fine [OF ok ne] by (auto intro: lex_fine_mono)
      have "lex_fine (\<lambda>_ _. True) ls (sbind (if sem then save_and_next else lnext) (\<lambda>_. long_loop sem sep) ls)"
        by (rule lex_fine_bind [where m = "if sem then save_and_next else lnext", OF n]) (rule "1.IH"(5) [OF ne other])
      with other ne show ?thesis by (simp add: long_loop.simps [of sem])
    qed
  qed (use ok in \<open>simp add: long_loop.simps [of sem]\<close>)
qed

lemma skip_newline_fine: "lex_ok ls \<Longrightarrow> lex_fine (\<lambda>_ _. True) ls (if newline ls then inclinenumber ls else Ok ((), ls))"
  using inclinenumber_fine [of ls] by (auto intro: lex_fine_mono)

lemma read_long_string_fine:
  assumes "lex_ok ls" and "current ls \<noteq> EOZ"
  shows "lex_fine (\<lambda>_ _. True) ls (read_long_string sem sep ls)"
  unfolding read_long_string_def
  by (rule lex_fine_bind [where m = save_and_next, OF save_and_next_fine [OF assms]],
      rule lex_fine_bind, rule skip_newline_fine, assumption,
      rule lex_fine_bind [where m = "long_loop sem sep", OF long_loop_fine], assumption)
     (auto simp: luaX_newstring_def sbind_def sret_def)

lemma esc_digits_fine: "lex_ok ls \<Longrightarrow> isdigit (current ls) \<Longrightarrow> lex_fine (\<lambda>_ _. True) ls (esc_digits k c ls)"
proof (induction k c ls rule: esc_digits.induct)
  case (2 k c ls)
  show ?case unfolding esc_digits.simps Let_def
  proof (rule lex_fine_bind [where m = lnext, OF lnext_fine [OF "2.prems"(1) isdigit_current [OF "2.prems"(2)]]])
    fix u ls1
    assume "lnext ls = Ok (u, ls1)" "lex_ok ls1"
    with "2.IH" [OF refl] show "lex_fine (\<lambda>_ _. True) ls1
      (if 0 < k \<and> isdigit (current ls1) then esc_digits k (10 * c + (current ls - 48)) ls1
       else Ok (10 * c + (current ls - 48), ls1))" by auto
  qed
qed simp

lemma read_escape_fine:
  assumes "lex_ok ls"
  shows "lex_fine (\<lambda>_ _. True) ls (read_escape ls)"
proof (cases "map_of (zip (map code ''abfnrtv'') [7, 8, 12, 10, 13, 9, 11]) (current ls) :: int option")
  case (Some k)
  then have ne: "current ls \<noteq> EOZ" by (auto simp: code_def split: if_splits)
  have "lex_fine (\<lambda>_ _. True) ls (sbind (save k) (\<lambda>_. lnext) ls)"
    by (rule lex_fine_bind [where m = "save k", OF save_fine [OF assms]])
       (use ne in \<open>auto intro: lex_fine_mono [OF lnext_fine]\<close>)
  with Some show ?thesis by (simp add: read_escape_def Let_def)
next
  case None
  have nl: "lex_fine (\<lambda>_ _. True) ls (sbind (save 10) (\<lambda>_. inclinenumber) ls)" if "newline ls"
    by (rule lex_fine_bind [where m = "save 10", OF save_fine [OF assms]])
       (use that in \<open>auto simp: newline_def intro: lex_fine_mono [OF inclinenumber_fine]\<close>)
  have dig: "lex_fine (\<lambda>_ _. True) ls (sbind (esc_digits 3 0) (\<lambda>n ls1.
     if UCHAR_MAX < n then luaX_lexerror ''escape sequence too large'' TK_STRING ls1 else save n ls1) ls)"
    if "isdigit (current ls)"
    by (rule lex_fine_bind [where m = "esc_digits 3 0", OF esc_digits_fine [OF assms that]])
       (auto intro: lex_fine_mono [OF save_fine])
  show ?thesis
    using nl dig save_and_next_fine [OF assms] assms
    unfolding read_escape_def Let_def None option.case by (simp only: lex_fine_simps suffix_order.refl split: if_split) simp
qed

lemma string_loop_fine: "lex_ok ls \<Longrightarrow> lex_fine (\<lambda>_ ls'. current ls' = del) ls (string_loop del ls)"
proof (induction del ls rule: string_loop.induct)
  case (1 del ls)
  note ok = "1.prems"
  show ?case
  proof (cases "current ls = del \<or> current ls = EOZ \<or> newline ls")
    case True
    with ok show ?thesis by (subst string_loop.simps) auto
  next
    case False
    then have ne: "current ls \<noteq> EOZ" by simp
    show ?thesis
    proof (cases "current ls = code (CHR 0x5C)")
      case True
      have "lex_fine (\<lambda>_ ls'. current ls' = del) ls (sbind lnext (\<lambda>_. sbind read_escape (\<lambda>_. string_loop del)) ls)"
        by (rule lex_fine_bind [where m = lnext, OF lnext_fine [OF ok ne]],
            rule lex_fine_bind [where m = read_escape, OF read_escape_fine], assumption)
           (rule "1.IH"(1), use False True in auto)
      with False True show ?thesis by (subst string_loop.simps) simp
    next
      case no: False
      have "lex_fine (\<lambda>_ ls'. current ls' = del) ls (sbind save_and_next (\<lambda>_. string_loop del) ls)"
        by (rule lex_fine_bind [where m = save_and_next, OF save_and_next_fine [OF ok ne]])
           (rule "1.IH"(2), use False no in auto)
      with False no show ?thesis by (subst string_loop.simps) simp
    qed
  qed
qed

lemma read_string_fine:
  assumes "lex_ok ls" and "current ls \<noteq> EOZ" and "del \<noteq> EOZ"
  shows "lex_fine (\<lambda>_ _. True) ls (read_string del ls)"
  unfolding read_string_def
  by (rule lex_fine_bind [where m = save_and_next, OF save_and_next_fine [OF assms(1,2)]],
      rule lex_fine_bind [where m = "string_loop del", OF string_loop_fine], assumption,
      rule lex_fine_bind [where m = save_and_next, OF save_and_next_fine], assumption)
     (use assms(3) in \<open>auto simp: luaX_newstring_def sbind_def sret_def\<close>)

lemma skip_line_fine: "lex_ok ls \<Longrightarrow> lex_fine (\<lambda>_ _. True) ls (skip_line ls)"
proof (induction ls rule: skip_line.induct)
  case (1 ls)
  show ?case
  proof (cases "\<not> newline ls \<and> current ls \<noteq> EOZ")
    case True
    with "1" show ?thesis
      by (subst skip_line.simps) (auto intro!: lex_fine_bind [where m = lnext, OF lnext_fine])
  qed (use "1.prems" in \<open>subst skip_line.simps; auto\<close>)
qed

lemma c_comment_loop_fine: "lex_ok ls \<Longrightarrow> lex_fine (\<lambda>_ _. True) ls (c_comment_loop ls)"
proof (induction ls rule: c_comment_loop.induct)
  case (1 ls)
  note ok = "1.prems"
  show ?case
  proof (cases "current ls = EOZ")
    case ne: False
    note nxt = lex_fine_bind [where m = lnext, OF lnext_fine [OF ok ne]]
    consider (star) "current ls = code (CHR ''*'')" | (line) "current ls \<noteq> code (CHR ''*'')" "newline ls"
      | (other) "current ls \<noteq> code (CHR ''*'')" "\<not> newline ls" by blast
    then show ?thesis
    proof cases
      case star
      have "lex_fine (\<lambda>_ _. True) ls (sbind lnext (\<lambda>_ ls1. if current ls1 = code (CHR ''/'') then lnext ls1
          else c_comment_loop ls1) ls)"
        by (rule nxt) (use "1.IH"(1) [OF ne star] in \<open>auto simp: code_def intro: lex_fine_mono [OF lnext_fine]\<close>)
      with ne star show ?thesis by (subst c_comment_loop.simps) simp
    next
      case line
      have "lex_fine (\<lambda>_ _. True) ls (sbind (save 10) (\<lambda>_. sbind inclinenumber (\<lambda>_.
          sbind resetbuffer (\<lambda>_. c_comment_loop))) ls)"
        by (rule lex_fine_bind [where m = "save 10", OF save_fine [OF ok]],
            rule lex_fine_bind [where m = inclinenumber, OF inclinenumber_fine], assumption,
            use line in \<open>simp add: newline_def\<close>,
            rule lex_fine_bind [where m = resetbuffer, OF resetbuffer_fine], assumption)
           (rule "1.IH"(2) [OF ne line], assumption+)
      with ne line show ?thesis by (subst c_comment_loop.simps) simp
    next
      case other
      have "lex_fine (\<lambda>_ _. True) ls (sbind lnext (\<lambda>_. c_comment_loop) ls)"
        by (rule nxt) (rule "1.IH"(3) [OF ne other])
      with ne other show ?thesis by (subst c_comment_loop.simps) simp
    qed
  qed (use ok in \<open>subst c_comment_loop.simps; simp\<close>)
qed

lemma skip_c_comment_fine: "lex_ok ls \<Longrightarrow> lex_fine (\<lambda>_ _. True) ls (skip_c_comment ls)"
  unfolding skip_c_comment_def
  by (rule lex_fine_bind, rule skip_newline_fine, assumption) (rule c_comment_loop_fine)

section \<open>Tokens\<close>

lemma read_comment_fine: "lex_ok ls \<Longrightarrow> lex_fine (\<lambda>_ _. True) ls (read_comment ls)"
proof (cases "current ls = code (CHR ''['')")
  case True
  assume ok: "lex_ok ls"
  have ne: "current ls \<noteq> EOZ" using True by (simp add: code_def)
  note skip = lex_fine_bind [where m = skip_sep, OF skip_sep_fine [OF ok ne]]
  have "lex_fine (\<lambda>_ _. True) ls (sbind skip_sep (\<lambda>sep. sbind resetbuffer (\<lambda>_.
          if 0 \<le> sep then sbind (read_long_string False (nat sep)) (\<lambda>_. resetbuffer) else skip_line)) ls)"
  proof (rule skip, rule lex_fine_bind [where m = resetbuffer, OF resetbuffer_fine], assumption)
    fix sep :: int and ls1 u ls2
    assume a: "0 \<le> sep \<longrightarrow> current ls1 \<noteq> EOZ" "current ls2 = current ls1" "lex_ok ls2"
    have "lex_fine (\<lambda>_ _. True) ls2 (sbind (read_long_string False (nat sep)) (\<lambda>_. resetbuffer) ls2)" if "0 \<le> sep"
      by (rule lex_fine_bind [where m = "read_long_string False (nat sep)", OF read_long_string_fine])
         (use a that in \<open>auto intro: lex_fine_mono [OF resetbuffer_fine]\<close>)
    with skip_line_fine [OF a(3)] show "lex_fine (\<lambda>_ _. True) ls2
      ((if 0 \<le> sep then sbind (read_long_string False (nat sep)) (\<lambda>_. resetbuffer) else skip_line) ls2)" by simp
  qed
  with True show ?thesis by (simp add: read_comment_def)
qed (simp add: read_comment_def skip_line_fine)

lemma two_chars_fine: "lex_ok ls \<Longrightarrow> lex_fine (\<lambda>_ _. True) ls (two_chars c t2 t1 si ls)"
  using lnext_fine [of ls] code_bounds(1) [of c]
  by (auto simp: two_chars_def sret_def intro!: lex_fine_bind [where m = lnext])

lemma read_lt_fine: "lex_ok ls \<Longrightarrow> lex_fine (\<lambda>_ _. True) ls (read_lt si ls)"
  using lnext_fine [of ls] by (auto simp: read_lt_def sret_def code_def intro!: lex_fine_bind [where m = lnext])

lemma read_gt_fine: "lex_ok ls \<Longrightarrow> current ls \<noteq> EOZ \<Longrightarrow> lex_fine (\<lambda>_ _. True) ls (read_gt si ls)"
  using lnext_fine [of ls] by (auto simp: read_gt_def sret_def intro!: lex_fine_bind [where m = lnext])

lemma read_name_fine: "lex_ok ls \<Longrightarrow> lex_fine (\<lambda>_ _. True) ls (read_name si ls)"
  unfolding read_name_def
  by (rule lex_fine_bind [where m = alnum_loop, OF alnum_loop_fine]) (auto simp: luaX_newstring_def sbind_def sret_def)

lemma read_dots_fine:
  assumes "lex_ok ls" and "current ls \<noteq> EOZ"
  shows "lex_fine (\<lambda>_ _. True) ls (read_dots si ls)"
proof -
  have E: "chr 255 \<notin> set ''.''" by code_simp
  have d: "lex_fine (\<lambda>_ _. True) ls1 (sbind (check_next ''.'') (\<lambda>three. sret (if three then TK_DOTS else TK_CONCAT, si)) ls1)"
    if "lex_ok ls1" for ls1
    by (rule lex_fine_bind [where m = "check_next ''.''", OF check_next_fine [OF that E]]) (simp add: sret_def)
  have n: "lex_fine (\<lambda>_ _. True) ls1 (if \<not> isdigit (current ls1) then Ok ((code (CHR ''.''), si), ls1)
     else sbind read_numeral (\<lambda>x. sret (TK_NUMBER, x)) ls1)" if "lex_ok ls1" for ls1
    using that isdigit_current [of ls1]
    by (auto simp: sret_def intro!: lex_fine_bind [where m = read_numeral, OF read_numeral_fine])
  show ?thesis
    unfolding read_dots_def
    by (rule lex_fine_bind [where m = save_and_next, OF save_and_next_fine [OF assms]],
        rule lex_fine_bind [where m = "check_next ''.''", OF check_next_fine [OF _ E]], assumption)
       (use d n in \<open>auto simp del: if_not_P\<close>)
qed

text \<open>Steps wrapped into the result of a turn.\<close>

lemma go_fine: "lex_fine (\<lambda>_ _. True) ls (m ls) \<Longrightarrow> lex_fine (\<lambda>_ _. True) ls (sbind m (\<lambda>x. sret (f x)) ls)"
  by (rule lex_fine_bind [where m = m]) (simp_all add: sret_def)

lemma next_go_fine:
  assumes "lex_ok ls" and "current ls \<noteq> EOZ" and "\<And>ls1. lex_ok ls1 \<Longrightarrow> lex_fine (\<lambda>_ _. True) ls1 (m ls1)"
  shows "lex_fine (\<lambda>_ _. True) ls (sbind lnext (\<lambda>_. m) ls)"
  by (rule lex_fine_bind [where m = lnext, OF lnext_fine [OF assms(1,2)]]) (rule assms(3))

lemma lex_turn_fine:
  assumes ok: "lex_ok ls" and gt: "input ls \<noteq> ''>''"
  shows "lex_fine (\<lambda>_ _. True) ls (lex_turn si ls)"
proof (cases "current ls = EOZ")
  case True
  with ok show ?thesis by (simp add: lex_turn_def newline_def Let_def code_def)
next
  case ne: False
  note nxt = next_go_fine [OF ok ne]
  have dash: "lex_fine (\<lambda>_ _. True) ls (sbind lnext (\<lambda>_ ls1.
             if current ls1 \<noteq> code (CHR ''-'') then Ok (Some (code (CHR ''-''), si), ls1)
             else sbind lnext (\<lambda>_. sbind read_comment (\<lambda>_. sret None)) ls1) ls)"
    by (rule nxt) (auto intro!: next_go_fine go_fine read_comment_fine simp: code_def)
  have slash: "lex_fine (\<lambda>_ _. True) ls (sbind lnext (\<lambda>_ ls1.
             if current ls1 = code (CHR ''/'') then sbind skip_line (\<lambda>_. sret None) ls1
             else if current ls1 = code (CHR ''*'') then sbind skip_c_comment (\<lambda>_. sret None) ls1
             else Ok (Some (code (CHR ''/''), si), ls1)) ls)"
    by (rule nxt) (auto intro!: go_fine skip_line_fine skip_c_comment_fine)
  have brack: "lex_fine (\<lambda>_ _. True) ls (sbind skip_sep (\<lambda>sep.
             if 0 \<le> sep then sbind (read_long_string True (nat sep)) (\<lambda>x. sret (Some (TK_STRING, x)))
             else if sep = - 1 then sret (Some (code (CHR ''[''), si))
             else luaX_lexerror ''invalid long string delimiter'' TK_STRING) ls)"
  proof (rule lex_fine_bind [where m = skip_sep, OF skip_sep_fine [OF ok ne]])
    fix sep :: int and ls1
    assume a: "0 \<le> sep \<longrightarrow> current ls1 \<noteq> EOZ" "lex_ok ls1"
    have "lex_fine (\<lambda>_ _. True) ls1 (sbind (read_long_string True (nat sep)) (\<lambda>x. sret (Some (TK_STRING, x))) ls1)"
      if "0 \<le> sep" by (rule go_fine, rule read_long_string_fine) (use a that in auto)
    with a(2) show "lex_fine (\<lambda>_ _. True) ls1
      ((if 0 \<le> sep then sbind (read_long_string True (nat sep)) (\<lambda>x. sret (Some (TK_STRING, x)))
        else if sep = - 1 then sret (Some (code (CHR ''[''), si))
        else luaX_lexerror ''invalid long string delimiter'' TK_STRING) ls1)"
      by (simp add: sret_def)
  qed
  have gtf: "lex_fine (\<lambda>_ _. True) ls (sbind lnext (\<lambda>_. sbind (read_gt si) (\<lambda>t. sret (Some t))) ls)"
    if "current ls = code (CHR ''>'')"
  proof -
    have i: "input ls = CHR ''>'' # contents (zin ls)" using that ne by (simp add: input_def)
    then have "contents (zin ls) \<noteq> []" using gt by auto
    with lnext_input [OF ok i] obtain ls1 where l: "lnext ls = Ok ((), ls1)" "lex_ok ls1" "input ls1 \<noteq> []" by auto
    then have "current ls1 \<noteq> EOZ" by (auto simp: input_def)
    with l show ?thesis
      by (intro lex_fine_bind [where m = lnext, OF lnext_fine [OF ok ne]]) (auto intro!: go_fine read_gt_fine)
  qed
  have two: "lex_fine (\<lambda>_ _. True) ls (sbind lnext (\<lambda>_. sbind (two_chars c2 t2 t1 si) (\<lambda>t. sret (Some t))) ls)"
    for c2 t2 t1 by (rule nxt) (intro go_fine two_chars_fine)
  have lt: "lex_fine (\<lambda>_ _. True) ls (sbind lnext (\<lambda>_. sbind (read_lt si) (\<lambda>t. sret (Some t))) ls)"
    by (rule nxt) (intro go_fine read_lt_fine)
  have one: "lex_fine (\<lambda>_ _. True) ls (sbind lnext (\<lambda>_. sret x) ls)" for x :: "(int \<times> SemInfo) option"
    by (rule nxt) (simp add: sret_def)
  have inc: "newline ls \<Longrightarrow> lex_fine (\<lambda>_ _. True) ls (sbind inclinenumber (\<lambda>_. sret None) ls)"
    by (rule go_fine [where m = inclinenumber], rule lex_fine_mono [OF inclinenumber_fine [OF ok]]) simp_all
  have str: "lex_fine (\<lambda>_ _. True) ls (sbind (read_string (current ls)) (\<lambda>x. sret (Some (TK_STRING, x))) ls)"
    by (rule go_fine [where m = "read_string (current ls)"]) (rule read_string_fine [OF ok ne ne])
  have dots: "lex_fine (\<lambda>_ _. True) ls (sbind (read_dots si) (\<lambda>t. sret (Some t)) ls)"
    by (rule go_fine [where m = "read_dots si"]) (rule read_dots_fine [OF ok ne])
  have num: "lex_fine (\<lambda>_ _. True) ls (sbind read_numeral (\<lambda>x. sret (Some (TK_NUMBER, x))) ls)"
    by (rule go_fine [where m = read_numeral]) (rule read_numeral_fine [OF ok ne])
  have nam: "lex_fine (\<lambda>_ _. True) ls (sbind (read_name si) (\<lambda>t. sret (Some t)) ls)"
    by (rule go_fine [where m = "read_name si"]) (rule read_name_fine [OF ok])
  show ?thesis
    unfolding lex_turn_def Let_def
    by (intro if_fine) (simp_all only: dash slash brack gtf two lt one inc str dots num nam ne)
qed

text \<open>The one input on which the lexer reads past the end.\<close>

lemma llex_loop_fine:
  "lex_ok ls \<Longrightarrow> \<not> suffix ''>'' (input ls) \<Longrightarrow> lex_fine (\<lambda>_ _. True) ls (llex_loop si ls)"
proof (induction si ls rule: llex_loop.induct)
  case (1 si ls)
  have "input ls \<noteq> ''>''" using "1.prems"(2) by auto
  note turn = lex_turn_fine [OF "1.prems"(1) this, of si]
  have "lex_fine (\<lambda>_ _. True) ls (sbind (lex_turn si) (\<lambda>r ls1.
      case r of None \<Rightarrow> llex_loop si ls1 | Some t \<Rightarrow> Ok (t, ls1)) ls)"
  proof (rule lex_fine_bind [where m = "lex_turn si", OF turn])
    fix r ls1
    assume r: "lex_turn si ls = Ok (r, ls1)" and 1: "lex_ok ls1" "suffix (input ls1) (input ls)"
    have "\<not> suffix ''>'' (input ls1)" using "1.prems"(2) suffix_order.trans [OF _ 1(2)] by blast
    with "1.IH" [OF r] 1 show "lex_fine (\<lambda>_ _. True) ls1 (case r of None \<Rightarrow> llex_loop si ls1 | Some t \<Rightarrow> Ok (t, ls1))"
      by (auto split: option.splits)
  qed
  then show ?case by (simp add: llex_loop.simps [of si ls])
qed

lemma llex_fine: "lex_ok ls \<Longrightarrow> \<not> suffix ''>'' (input ls) \<Longrightarrow> lex_fine (\<lambda>_ _. True) ls (llex si ls)"
  unfolding llex_def
  by (rule lex_fine_bind [where m = resetbuffer, OF resetbuffer_fine], assumption, rule llex_loop_fine, assumption)
     (auto dest: suffix_order.trans)

lemma next_fine:
  assumes "lex_ok ls" and "\<not> suffix ''>'' (input ls)"
  shows "lex_fine (\<lambda>_ _. True) ls (luaX_next ls)"
proof (cases "token (ahead ls) = TK_EOS")
  case True
  let ?ls = "ls\<lparr>lastline := linenumber ls\<rparr>"
  have "lex_fine (\<lambda>_ _. True) ?ls (sbind (llex (seminfo (tk ?ls)))
      (\<lambda>(t, si) ls1. Ok ((), ls1\<lparr>tk := \<lparr>token = t, seminfo = si\<rparr>\<rparr>)) ?ls)"
    by (rule lex_fine_bind [where m = "llex (seminfo (tk ?ls))", OF llex_fine])
       (use assms in \<open>auto split: prod.splits\<close>)
  with True show ?thesis
    by (simp add: luaX_next_def Let_def lex_fine_input [of ?ls ls])
qed (use assms in \<open>simp add: luaX_next_def Let_def\<close>)

lemma lookahead_fine:
  assumes "lex_ok ls" and "\<not> suffix ''>'' (input ls)"
  shows "lex_fine (\<lambda>_ _. True) ls (luaX_lookahead ls)"
  unfolding luaX_lookahead_def
  by (rule lex_fine_bind [where m = "llex (seminfo (ahead ls))", OF llex_fine])
     (use assms in \<open>auto split: prod.splits\<close>)

end
