(* ===== verification/LuaLexProps.thy ===== *)
theory LuaLexProps
  imports LuaLexSpec LuaGsub
begin

text \<open>The properties of the lexical analyser and their witnesses.\<close>

section \<open>Reading known input\<close>

text \<open>The state has the input \<open>s\<close>, the buffer \<open>b\<close> and the line \<open>n\<close>.\<close>

definition lex_at :: "LexState \<Rightarrow> string \<Rightarrow> string \<Rightarrow> int \<Rightarrow> bool" where
  "lex_at ls s b n \<longleftrightarrow> lex_ok ls \<and> input ls = s \<and> buff ls = b \<and> linenumber ls = n"

text \<open>The step returns \<open>x\<close> and leads there.\<close>

definition goes :: "'a lexer \<Rightarrow> LexState \<Rightarrow> 'a \<Rightarrow> string \<Rightarrow> string \<Rightarrow> int \<Rightarrow> bool" where
  "goes m ls x s b n \<longleftrightarrow> (\<exists>ls'. m ls = Ok (x, ls') \<and> lex_at ls' s b n)"

lemma goes_bind:
  assumes "goes m ls x s b n" and "\<And>ls'. lex_at ls' s b n \<Longrightarrow> goes (f x) ls' y s' b' n'"
  shows "goes (sbind m f) ls y s' b' n'"
proof -
  from assms(1) obtain ls1 where 1: "m ls = Ok (x, ls1)" "lex_at ls1 s b n" by (auto simp: goes_def)
  from assms(2) [OF 1(2)] 1(1) show ?thesis by (simp add: goes_def sbind_Ok)
qed

lemma goes_ret [simp]: "goes (sret x) ls y s b n \<longleftrightarrow> x = y \<and> lex_at ls s b n"
  by (auto simp: goes_def sret_def)

lemma at_current: "lex_at ls (c # s) b n \<Longrightarrow> current ls = code c"
  by (auto simp: lex_at_def input_def lex_ok_def code_chr split: if_splits)

lemma lnext_goes: "lex_at ls (c # s) b n \<Longrightarrow> goes lnext ls () s b n"
  using lnext_input [of ls c s] by (auto simp: goes_def lex_at_def)

abbreviation buffer_limit :: nat where "buffer_limit \<equiv> MAX_SIZET div 2"

lemma save_goes: "lex_at ls s b n \<Longrightarrow> length b < buffer_limit \<Longrightarrow> goes (save c) ls () s (b @ [chr (c mod 256)]) n"
  by (auto simp: goes_def lex_at_def save_def lex_ok_def input_def)

lemma save_next_goes:
  assumes "lex_at ls (c # s) b n" and "length b < buffer_limit"
  shows "goes save_and_next ls () s (b @ [c]) n"
proof -
  have "current ls mod 256 = code c" using at_current [OF assms(1)] code_bounds [of c] by simp
  then have "goes (save (current ls)) ls () (c # s) (b @ [c]) n" using save_goes [OF assms, of "current ls"] by simp
  then have "goes (sbind (save (current ls)) (\<lambda>_. lnext)) ls () s (b @ [c]) n"
    by (rule goes_bind) (rule lnext_goes)
  then show ?thesis by (simp add: goes_def save_and_next_def)
qed

definition is_newline :: "char \<Rightarrow> bool" where
  "is_newline c \<longleftrightarrow> c = CHR 0x0A \<or> c = CHR 0x0D"

lemma newline_code: "code c = 10 \<longleftrightarrow> c = CHR 0x0A" "code c = 13 \<longleftrightarrow> c = CHR 0x0D"
  using code_eq_iff [of c "CHR 0x0A"] code_eq_iff [of c "CHR 0x0D"] by (simp_all add: code_def)

lemma at_newline: "lex_at ls (c # s) b n \<Longrightarrow> newline ls \<longleftrightarrow> is_newline c"
  by (simp add: newline_def is_newline_def at_current newline_code)

lemma at_line: "lex_at ls s b n \<Longrightarrow> lex_at (ls\<lparr>linenumber := k\<rparr>) s b k"
  by (simp add: lex_at_def)

text \<open>A newline character that no other one follows.\<close>

lemma inclinenumber_goes:
  assumes "lex_at ls (c # d # s) b n" and "\<not> is_newline d" and "n + 1 < MAX_INT"
  shows "goes inclinenumber ls () (d # s) b (n + 1)"
proof -
  obtain ls1 where 1: "lnext ls = Ok ((), ls1)" "lex_at ls1 (d # s) b n"
    using lnext_goes [OF assms(1)] by (auto simp: goes_def)
  then have "\<not> newline ls1" using at_newline assms(2) by simp
  moreover have "linenumber ls1 = n" using 1(2) by (simp add: lex_at_def)
  ultimately have "inclinenumber ls = Ok ((), ls1\<lparr>linenumber := n + 1\<rparr>)"
    using 1(1) assms(3) by (simp add: inclinenumber_def sbind_def sret_def Let_def)
  with at_line [OF 1(2)] show ?thesis by (auto simp: goes_def)
qed

section \<open>Quoted strings\<close>

lemma no_simple: "code c \<notin> set (map code ''abfnrtv'') \<Longrightarrow>
    map_of (zip (map code ''abfnrtv'') [7, 8, 12, 10, 13, 9, 11]) (code c) = (None :: int option)"
  by (auto simp: map_of_eq_None_iff)

lemma escape_plain:
  assumes at: "lex_at ls (c # s) b n" and c: "c = CHR 0x22 \<or> c = CHR 0x5C" and "length b < buffer_limit"
  shows "goes read_escape ls () s (b @ [c]) n"
proof -
  have cur: "current ls = code c" by (rule at_current [OF at])
  have "read_escape ls = save_and_next ls"
    using c cur by (auto simp: read_escape_def Let_def code_def newline_def isdigit_def)
  with save_next_goes [OF at assms(3)] show ?thesis by (simp add: goes_def)
qed

lemma escape_newline:
  assumes at: "lex_at ls (CHR 0x0A # d # s) b n" and "\<not> is_newline d" and "length b < buffer_limit" and "n + 1 < MAX_INT"
  shows "goes read_escape ls () (d # s) (b @ [CHR 0x0A]) (n + 1)"
proof -
  have "goes (sbind (save 10) (\<lambda>_. inclinenumber)) ls () (d # s) (b @ [chr 10]) (n + 1)"
    by (rule goes_bind [OF save_goes [OF at assms(3)]]) (use inclinenumber_goes [OF _ assms(2,4)] in simp)
  moreover have "read_escape ls = sbind (save 10) (\<lambda>_. inclinenumber) ls"
    using at_current [OF at] by (simp add: read_escape_def Let_def code_def newline_def)
  moreover have "chr 10 = CHR 0x0A" by code_simp
  ultimately show ?thesis by (simp add: goes_def)
qed

lemma escape_return:
  assumes at: "lex_at ls (CHR ''r'' # s) b n" and "length b < buffer_limit"
  shows "goes read_escape ls () s (b @ [CHR 0x0D]) n"
proof -
  have "goes (sbind (save 13) (\<lambda>_. lnext)) ls () s (b @ [chr 13]) n"
    by (rule goes_bind [OF save_goes [OF assms]]) (use lnext_goes in simp)
  moreover have "read_escape ls = sbind (save 13) (\<lambda>_. lnext) ls"
    using at_current [OF at] by (simp add: read_escape_def Let_def code_def)
  moreover have "chr 13 = CHR 0x0D" by code_simp
  ultimately show ?thesis by (simp add: goes_def)
qed

lemma escape_nul:
  assumes at: "lex_at ls (CHR ''0'' # CHR ''0'' # CHR ''0'' # s) b n" and "length b < buffer_limit"
  shows "goes read_escape ls () s (b @ [NUL]) n"
proof -
  obtain ls1 where 1: "lnext ls = Ok ((), ls1)" "lex_at ls1 (CHR ''0'' # CHR ''0'' # s) b n"
    using lnext_goes [OF at] by (auto simp: goes_def)
  obtain ls2 where 2: "lnext ls1 = Ok ((), ls2)" "lex_at ls2 (CHR ''0'' # s) b n"
    using lnext_goes [OF 1(2)] by (auto simp: goes_def)
  obtain ls3 where 3: "lnext ls2 = Ok ((), ls3)" "lex_at ls3 s b n"
    using lnext_goes [OF 2(2)] by (auto simp: goes_def)
  have z: "code (CHR ''0'') = 48" by (simp add: code_def)
  have "esc_digits 3 0 ls = Ok (0, ls3)"
    using 1(1) 2(1) 3(1) at_current [OF at] at_current [OF 1(2)] at_current [OF 2(2)] z
    by (simp add: numeral_3_eq_3 sbind_def Let_def isdigit_def)
  then have "read_escape ls = save 0 ls3"
    using at_current [OF at] z by (simp add: read_escape_def Let_def newline_def isdigit_def sbind_def code_def)
  moreover have "chr 0 = NUL" by code_simp
  ultimately show ?thesis using save_goes [OF 3(2) assms(2), of 0] by (simp add: goes_def)
qed

lemma string_loop_plain:
  assumes at: "lex_at ls (c # s) b n" and c: "c \<noteq> CHR 0x22" "c \<noteq> CHR 0x5C" "\<not> is_newline c"
    and "length b < buffer_limit"
    and go: "\<And>ls'. lex_at ls' s (b @ [c]) n \<Longrightarrow> goes (string_loop 34) ls' () s' b' n'"
  shows "goes (string_loop 34) ls () s' b' n'"
proof -
  have cur: "current ls = code c" by (rule at_current [OF at])
  have "code c \<noteq> 34" "code c \<noteq> 92" "code c \<noteq> EOZ"
    using c code_eq_iff [of c "CHR 0x22"] code_eq_iff [of c "CHR 0x5C"] code_bounds(1) [of c] by (auto simp: code_def)
  then have "string_loop 34 ls = sbind save_and_next (\<lambda>_. string_loop 34) ls"
    using cur at_newline [OF at] c(3) by (subst string_loop.simps) (simp add: code_def)
  with goes_bind [OF save_next_goes [OF at assms(5)] go] show ?thesis by (simp add: goes_def)
qed

lemma string_loop_escape:
  assumes at: "lex_at ls (CHR 0x5C # s) b n"
    and esc: "\<And>ls'. lex_at ls' s b n \<Longrightarrow> goes read_escape ls' () s1 b1 n1"
    and go: "\<And>ls'. lex_at ls' s1 b1 n1 \<Longrightarrow> goes (string_loop 34) ls' () s' b' n'"
  shows "goes (string_loop 34) ls () s' b' n'"
proof -
  have "string_loop 34 ls = sbind lnext (\<lambda>_. sbind read_escape (\<lambda>_. string_loop 34)) ls"
    using at_current [OF at] at_newline [OF at] by (subst string_loop.simps) (simp add: code_def is_newline_def)
  moreover have "goes (sbind lnext (\<lambda>_. sbind read_escape (\<lambda>_. string_loop 34))) ls () s' b' n'"
    by (rule goes_bind [OF lnext_goes [OF at]], rule goes_bind [OF esc], assumption, rule go)
  ultimately show ?thesis by (simp add: goes_def)
qed

definition lines_in :: "string \<Rightarrow> int" where
  "lines_in s = int (count_list s (CHR 0x0A))"

lemma lines_in_Cons: "lines_in (c # s) = lines_in [c] + lines_in s"
  by (simp add: lines_in_def)

lemma lines_in_one: "lines_in [c] \<le> 1"
  by (simp add: lines_in_def)

lemma quote_head: "\<exists>c t. concat (map quote_char s) @ CHR 0x22 # rest = c # t \<and> \<not> is_newline c"
  by (cases s) (auto simp: quote_char_def is_newline_def)

lemma string_loop_quoted:
  "lex_at ls (concat (map quote_char s) @ CHR 0x22 # rest) b n \<Longrightarrow> length b + length s < buffer_limit \<Longrightarrow>
    n + int (length s) < MAX_INT \<Longrightarrow> goes (string_loop 34) ls () (CHR 0x22 # rest) (b @ s) (n + lines_in s)"
proof (induction s arbitrary: ls b n)
  case Nil
  then have "current ls = 34" using at_current [of ls "CHR 0x22"] by (simp add: code_def)
  with Nil show ?case by (subst string_loop.simps) (simp add: goes_def lines_in_def)
next
  case (Cons c s)
  let ?t = "concat (map quote_char s) @ CHR 0x22 # rest"
  have at: "lex_at ls (quote_char c @ ?t) b n" using Cons.prems(1) by simp
  have b: "length b < buffer_limit" using Cons.prems(2) by simp
  have go: "goes (string_loop 34) ls' () (CHR 0x22 # rest) (b @ c # s) (n + lines_in (c # s))"
    if "lex_at ls' ?t (b @ [c]) (n + lines_in [c])" for ls'
  proof -
    have "n + lines_in [c] + int (length s) < MAX_INT" using lines_in_one [of c] Cons.prems(3) by simp
    from Cons.IH [OF that _ this] Cons.prems(2) show ?thesis
      by (simp add: lines_in_Cons [of c s] add.assoc)
  qed
  consider (esc) "c = CHR 0x22 \<or> c = CHR 0x5C" | (nl) "c = CHR 0x0A" | (ret) "c = CHR 0x0D" | (nul) "c = NUL"
    | (other) "c \<noteq> CHR 0x22" "c \<noteq> CHR 0x5C" "c \<noteq> CHR 0x0A" "c \<noteq> CHR 0x0D" "c \<noteq> NUL" by blast
  then show ?case
  proof cases
    case esc
    then have q: "quote_char c = [CHR 0x5C, c]" and l: "lines_in [c] = 0"
      by (auto simp: quote_char_def lines_in_def)
    from at q have "lex_at ls (CHR 0x5C # c # ?t) b n" by simp
    then show ?thesis
      by (rule string_loop_escape) (rule escape_plain, assumption, rule esc, rule b, rule go, simp add: l)
  next
    case nl
    then have q: "quote_char c = [CHR 0x5C, CHR 0x0A]" and l: "lines_in [c] = 1"
      by (simp_all add: quote_char_def lines_in_def)
    obtain d t where d: "?t = d # t" "\<not> is_newline d" using quote_head by blast
    from at q d(1) have "lex_at ls (CHR 0x5C # CHR 0x0A # d # t) b n" by simp
    then show ?thesis
      by (rule string_loop_escape) (rule escape_newline [OF _ d(2) b], assumption, use Cons.prems(3) in simp,
          rule go, simp add: l [unfolded nl] nl d(1))
  next
    case ret
    then have q: "quote_char c = [CHR 0x5C, CHR ''r'']" and l: "lines_in [c] = 0"
      by (simp_all add: quote_char_def lines_in_def)
    from at q have "lex_at ls (CHR 0x5C # CHR ''r'' # ?t) b n" by simp
    then show ?thesis
      by (rule string_loop_escape) (rule escape_return [OF _ b], assumption, rule go, simp add: l [unfolded ret] ret)
  next
    case nul
    then have q: "quote_char c = [CHR 0x5C, CHR ''0'', CHR ''0'', CHR ''0'']" and l: "lines_in [c] = 0"
      by (simp_all add: quote_char_def lines_in_def)
    from at q have "lex_at ls (CHR 0x5C # CHR ''0'' # CHR ''0'' # CHR ''0'' # ?t) b n" by simp
    then show ?thesis
      by (rule string_loop_escape) (rule escape_nul [OF _ b], assumption, rule go, simp add: l [unfolded nul] nul)
  next
    case other
    then have q: "quote_char c = [c]" and l: "lines_in [c] = 0" and nn: "\<not> is_newline c"
      by (simp_all add: quote_char_def lines_in_def is_newline_def)
    from at q have "lex_at ls (c # ?t) b n" by simp
    then show ?thesis
      by (rule string_loop_plain [OF _ other(1,2) nn b]) (rule go, simp add: l)
  qed
qed

lemma read_string_quoted:
  assumes at: "lex_at ls (addquoted s @ rest) [] n" and len: "length s + 2 < buffer_limit"
    and lines: "n + int (length s) < MAX_INT"
  shows "goes (read_string 34) ls (SemStr s) rest (CHR 0x22 # s @ [CHR 0x22]) (n + lines_in s)"
proof -
  have a: "lex_at ls (CHR 0x22 # concat (map quote_char s) @ CHR 0x22 # rest) [] n"
    using at by (simp add: addquoted_def)
  show ?thesis
    unfolding read_string_def
  proof (rule goes_bind [OF save_next_goes [OF a]], goal_cases)
    case (2 ls1)
    show ?case
    proof (rule goes_bind [OF string_loop_quoted [OF 2]], goal_cases)
      case (3 ls2)
      show ?case
      proof (rule goes_bind [OF save_next_goes [OF 3]], goal_cases)
        case (2 ls3)
        then show ?case
          by (auto simp: goes_def luaX_newstring_def sbind_def sret_def lex_at_def)
      qed (use len in simp)
    qed (use len lines in simp_all)
  qed simp
qed

text \<open>
  C26: Reading what the format \<open>%q\<close> writes: for every string the quoted form is one token, a
  string with the same bytes, and the rest of the input is left; only the limits on the size of the
  buffer and on the number of lines are assumed.
\<close>

theorem lex_quoted_roundtrip:
  assumes "lex_ok ls" and "input ls = addquoted s @ rest" and "length s + 2 < buffer_limit"
    and "linenumber ls + int (length s) < MAX_INT"
  shows "\<exists>ls'. llex si ls = Ok ((TK_STRING, SemStr s), ls') \<and> input ls' = rest
    \<and> linenumber ls' = linenumber ls + lines_in s"
proof -
  let ?ls = "ls\<lparr>buff := []\<rparr>"
  have at: "lex_at ?ls (addquoted s @ rest) [] (linenumber ls)"
    using assms(1,2) by (simp add: lex_at_def lex_ok_buff)
  then have cur: "current ls = 34" using at_current [of ?ls "CHR 0x22"] by (simp add: addquoted_def code_def)
  obtain ls' where r: "read_string 34 ?ls = Ok (SemStr s, ls')"
    and at': "lex_at ls' rest (CHR 0x22 # s @ [CHR 0x22]) (linenumber ls + lines_in s)"
    using read_string_quoted [OF at assms(3,4)] by (auto simp: goes_def)
  have "lex_turn si ?ls = Ok (Some (TK_STRING, SemStr s), ls')"
    using cur r by (simp add: lex_turn_def Let_def newline_def code_def sbind_def sret_def)
  then have "llex si ls = Ok ((TK_STRING, SemStr s), ls')"
    by (simp add: llex_def resetbuffer_def sbind_def llex_loop.simps [of si ?ls])
  with at' show ?thesis by (auto simp: lex_at_def)
qed

text \<open>The start of a chunk\<close>

lemma setinput_fine:
  assumes "zio_ok z"
  shows "\<exists>ls. luaX_setinput z name = Ok ((), ls) \<and> lex_ok ls \<and> input ls = contents z
    \<and> linenumber ls = 1 \<and> token (ahead ls) = TK_EOS"
proof -
  let ?ls = "\<lparr>current = 0, linenumber = 1, lastline = 1, tk = \<lparr>token = 0, seminfo = SemNone\<rparr>,
       ahead = \<lparr>token = TK_EOS, seminfo = SemNone\<rparr>, zin = z, buff = [], buffsize = LUA_MINBUFFER,
       fs_h = [], lex_source = name, decpoint = CHR ''.''\<rparr>"
  have "luaX_setinput z name = lnext ?ls" by (simp add: luaX_setinput_def lnext_def)
  moreover have "lex_ok ?ls" "input ?ls = chr 0 # contents z"
    using assms by (simp_all add: lex_ok_def input_def LUA_MINBUFFER_def)
  ultimately show ?thesis using lnext_input [of ?ls "chr 0" "contents z"] by auto
qed

lemma one_block: "s \<noteq> [] \<Longrightarrow> LuaZio.fits s \<Longrightarrow> zio_ok (luaZ_init [s]) \<and> contents (luaZ_init [s]) = s"
  by (simp add: init_ok contents_def luaZ_init_def zio_ok_def)

theorem lex_quoted_roundtrip_witness:
  "\<exists>ls ls'. luaX_setinput (luaZ_init [addquoted [CHR ''a'', CHR 0x0A, CHR 0x22] @ '';'']) ''=chunk'' = Ok ((), ls)
    \<and> llex SemNone ls = Ok ((TK_STRING, SemStr [CHR ''a'', CHR 0x0A, CHR 0x22]), ls')
    \<and> input ls' = '';'' \<and> linenumber ls' = 2"
proof -
  let ?s = "[CHR ''a'', CHR 0x0A, CHR 0x22]"
  have "zio_ok (luaZ_init [addquoted ?s @ '';''])" "contents (luaZ_init [addquoted ?s @ '';'']) = addquoted ?s @ '';''"
    using one_block [of "addquoted ?s @ '';''"] by (simp_all add: addquoted_def quote_char_def LuaZio.fits_def)
  then obtain ls where 1: "luaX_setinput (luaZ_init [addquoted ?s @ '';'']) ''=chunk'' = Ok ((), ls)"
    "lex_ok ls" "input ls = addquoted ?s @ '';''" "linenumber ls = 1" using setinput_fine by metis
  have "length ?s + 2 < buffer_limit" "linenumber ls + int (length ?s) < MAX_INT" using 1(4) by simp_all
  from lex_quoted_roundtrip [OF 1(2,3) this, of SemNone] show ?thesis
    using 1(1,4) by (auto simp: lines_in_def)
qed

section \<open>Every input\<close>

text \<open>
  C25: The analyser is total and stays inside the stream: from any state in which the stream is
  consistent, the next token and the token after it are found, or a syntax error is raised; what is
  left of the input is an end of what there was. The one exception is a chunk that ends in
  \<open>>\<close>.
\<close>

theorem lex_total:
  assumes "lex_ok ls" and "\<not> suffix ''>'' (input ls)"
  shows "((\<exists>ls'. luaX_next ls = Ok ((), ls') \<and> lex_ok ls' \<and> suffix (input ls') (input ls))
      \<or> (\<exists>m. luaX_next ls = Err (SyntaxError m)))
    \<and> ((\<exists>ls'. luaX_lookahead ls = Ok ((), ls') \<and> lex_ok ls' \<and> suffix (input ls') (input ls))
      \<or> (\<exists>m. luaX_lookahead ls = Err (SyntaxError m)))"
  using next_fine [OF assms] lookahead_fine [OF assms] by (auto elim!: lex_fine_cases)

theorem lex_total_witness:
  "\<exists>ls. luaX_setinput (luaZ_init [''x = '', [CHR 0x22]]) ''=chunk'' = Ok ((), ls)
    \<and> input ls = ''x = '' @ [CHR 0x22]
    \<and> ((\<exists>ls'. luaX_next ls = Ok ((), ls') \<and> lex_ok ls' \<and> suffix (input ls') (input ls))
      \<or> (\<exists>m. luaX_next ls = Err (SyntaxError m)))"
proof -
  let ?z = "luaZ_init [''x = '', [CHR 0x22]]"
  have "zio_ok ?z" "contents ?z = ''x = '' @ [CHR 0x22]"
    by (simp_all add: init_ok LuaZio.fits_def contents_def luaZ_init_def zio_ok_def)
  then obtain ls where 1: "luaX_setinput ?z ''=chunk'' = Ok ((), ls)" "lex_ok ls" "input ls = ''x = '' @ [CHR 0x22]"
    using setinput_fine by metis
  have "\<not> suffix ''>'' (input ls)" using 1(3) by (simp add: suffix_def)
  from lex_total [OF 1(2) this] 1(1,3) show ?thesis by blast
qed

section \<open>Names and reserved words\<close>

definition name_char :: "char \<Rightarrow> bool" where
  "name_char c \<longleftrightarrow> isalnum (code c) \<or> c = CHR ''_''"

lemma name_char_code: "isalnum (code c) \<or> code c = code (CHR ''_'') \<longleftrightarrow> name_char c"
  by (simp add: name_char_def)

lemma not_name_EOZ: "\<not> (isalnum EOZ \<or> EOZ = code (CHR ''_''))"
  by (simp add: isalnum_def isalpha_def islower_def isupper_def isdigit_def code_def)

lemma alnum_loop_goes:
  assumes "\<forall>c \<in> set w. name_char c" and "rest = [] \<or> \<not> name_char (hd rest)"
  shows "lex_at ls (w @ rest) b n \<Longrightarrow> length b + length w < buffer_limit \<Longrightarrow>
    goes alnum_loop ls () rest (b @ w) n"
  using assms(1)
proof (induction w arbitrary: ls b)
  case Nil
  have "\<not> (isalnum (current ls) \<or> current ls = code (CHR ''_''))"
  proof (cases rest)
    case Nil
    then have "current ls = EOZ" using Nil.prems(1) by (simp add: lex_at_def input_def split: if_splits)
    then show ?thesis using not_name_EOZ by simp
  next
    case (Cons c s)
    then show ?thesis using at_current [of ls c s] Nil.prems(1) assms(2) by (simp add: name_char_code del: code_eq_iff)
  qed
  then show ?case using Nil by (subst alnum_loop.simps) (simp add: goes_def)
next
  case (Cons c w)
  have at: "lex_at ls (c # w @ rest) b n" using Cons.prems(1) by simp
  have "isalnum (current ls) \<or> current ls = code (CHR ''_'')"
    using Cons.prems(3) at_current [OF at] by (simp add: name_char_code del: code_eq_iff)
  then have "alnum_loop ls = sbind save_and_next (\<lambda>_. alnum_loop) ls" by (subst alnum_loop.simps) simp
  moreover have "goes (sbind save_and_next (\<lambda>_. alnum_loop)) ls () rest (b @ c # w) n"
    by (rule goes_bind [OF save_next_goes [OF at]]) (use Cons.IH [of _ "b @ [c]"] Cons.prems(2,3) in simp_all)
  ultimately show ?case by (simp add: goes_def)
qed

text \<open>
  C27: The longest match: a word of letters, digits and underscores that does not start with a digit
  and that no such character follows is one token, whatever the stream is divided into: the reserved
  word it spells, or a name with these characters.
\<close>

theorem lex_name:
  assumes "lex_ok ls" and "input ls = w @ rest" and "w \<noteq> []" and "\<forall>c \<in> set w. name_char c"
    and "\<not> isdigit (code (hd w))" and "rest = [] \<or> \<not> name_char (hd rest)" and "length w < buffer_limit"
  shows "\<exists>ls'. llex si ls =
      Ok (if 0 < luaX_init w then (luaX_init w - 1 + FIRST_RESERVED, si) else (TK_NAME, SemStr w), ls')
    \<and> lex_ok ls' \<and> input ls' = rest \<and> linenumber ls' = linenumber ls \<and> w \<in> set (fs_h ls')"
proof -
  let ?ls = "ls\<lparr>buff := []\<rparr>"
  let ?t = "if 0 < luaX_init w then (luaX_init w - 1 + FIRST_RESERVED, si) else (TK_NAME, SemStr w)"
  have at: "lex_at ?ls (w @ rest) [] (linenumber ls)"
    using assms(1,2) by (simp add: lex_at_def lex_ok_buff)
  obtain c t where w: "w = c # t" using assms(3) by (cases w) auto
  then have cur: "current ls = code c" using at_current [of ?ls c "t @ rest"] at by simp
  obtain ls1 where r: "alnum_loop ?ls = Ok ((), ls1)" and 1: "lex_at ls1 rest w (linenumber ls)"
    using alnum_loop_goes [OF assms(4,6) at] assms(7) by (auto simp: goes_def)
  obtain ls2 where 2: "luaX_newstring w ls1 = Ok (w, ls2)" "lex_at ls2 rest w (linenumber ls)" "w \<in> set (fs_h ls2)"
    using 1 by (auto simp: luaX_newstring_def lex_at_def)
  have b: "buff ls1 = w" using 1 by (simp add: lex_at_def)
  have c: "name_char c" "\<not> isdigit (code c)" using assms(4,5) w by simp_all
  then have a: "isalpha (current ls) \<or> current ls = code (CHR ''_'')"
    using cur by (auto simp: name_char_def isalnum_def)
  have no: "\<not> newline ls" "\<not> isspace (current ls)" "\<not> isdigit (current ls)" "current ls \<noteq> EOZ"
    "current ls \<notin> set (map code ''-/[=<>^!~.'')" "current ls \<noteq> 34" "current ls \<noteq> 39"
    using a c(2) cur by (auto simp: newline_def isspace_def isalpha_def islower_def isupper_def isdigit_def code_def)
  have "read_name si ?ls = Ok (?t, ls2)"
    using r b 2(1) by (simp add: read_name_def sbind_def sret_def)
  then have "lex_turn si ?ls = Ok (Some ?t, ls2)"
    using no a by (simp add: lex_turn_def Let_def newline_def code_def sbind_def sret_def)
  then have "llex si ls = Ok (?t, ls2)"
    by (simp add: llex_def resetbuffer_def sbind_def llex_loop.simps [of si ?ls])
  with 2 show ?thesis by (auto simp: lex_at_def)
qed

theorem lex_name_witness:
  "\<exists>ls ls'. luaX_setinput (luaZ_init [''endx'', ''1 end'']) ''=chunk'' = Ok ((), ls)
    \<and> llex SemNone ls = Ok ((TK_NAME, SemStr ''endx1''), ls') \<and> input ls' = '' end''"
proof -
  let ?z = "luaZ_init [''endx'', ''1 end'']"
  have "zio_ok ?z" "contents ?z = ''endx1 end''"
    by (simp_all add: init_ok LuaZio.fits_def contents_def luaZ_init_def zio_ok_def)
  then obtain ls where 1: "luaX_setinput ?z ''=chunk'' = Ok ((), ls)" "lex_ok ls" "input ls = ''endx1'' @ '' end''"
    using setinput_fine [of ?z "''=chunk''"] by auto
  have "\<forall>c \<in> set ''endx1''. name_char c" "\<not> isdigit (code (hd ''endx1''))" "\<not> name_char (hd '' end'')"
    "\<not> 0 < luaX_init ''endx1''" by code_simp+
  with lex_name [OF 1(2,3), of SemNone] 1(1) show ?thesis by auto
qed

section \<open>What the analyser does not do\<close>

definition lex_start :: "string \<Rightarrow> LexState result" where
  "lex_start s = rbind (luaX_setinput (luaZ_init [s]) ''=chunk'') (\<lambda>(u, ls). Ok ls)"

text \<open>The first \<open>n\<close> tokens.\<close>

fun lex_tokens :: "nat \<Rightarrow> LexState \<Rightarrow> (int list) result" where
  "lex_tokens 0 ls = Ok []"
| "lex_tokens (Suc n) ls = rbind (luaX_next ls) (\<lambda>(u, ls').
     rbind (lex_tokens n ls') (\<lambda>ts. Ok (token (tk ls') # ts)))"

text \<open>The character after \<open>>\<close> is lost.\<close>

lemma greater_drops_operand:
  "rbind (lex_start ''a>b'') (lex_tokens 3) = Ok [TK_NAME, code (CHR ''>''), TK_EOS]"
  "rbind (lex_start ''a> b'') (lex_tokens 3) = Ok [TK_NAME, code (CHR ''>''), TK_NAME]"
  by code_simp+

text \<open>A chunk that ends in \<open>>\<close> is read past its end.\<close>

lemma greater_at_end: "rbind (lex_start ''a>'') (lex_tokens 3) = Undef"
  by code_simp

text \<open>\<open>luaX_tokens\<close> is not in the order of the enumeration.\<close>

lemma token_names_shifted:
  "luaX_token2str TK_EOS = ''<string>''" "luaX_token2str TK_NAME = ''<number>''" "luaX_token2str TK_NUMBER = ''!=''"
  "luaX_token2str TK_LSHFT = ''>>''"
  by code_simp+

text \<open>The star that opens a comment also closes it; a name runs into a null character.\<close>

lemma short_comment: "rbind (lex_start ''/*/ x'') (lex_tokens 2) = Ok [TK_NAME, TK_EOS]"
  by code_simp

lemma numeral_takes_nul: "rbind (lex_start (''1'' @ [NUL] @ ''x'')) (lex_tokens 1) = Ok [TK_NUMBER]"
  by code_simp

end
