(* ===== verification/Spec2Isabelle.thy ===== *)
theory Spec2Isabelle
  imports LuaCompileProps LuaVMProps LuaGCProps LuaTabLibProps LuaObjectProps LuaTableProps LuaStrlibProps LuaCheckProps LuaDumpProps LuaLexProps
begin

text \<open>
  A verification development for the Lua 5.1 interpreter under \<^verbatim>\<open>src/lua_source\<close>, built with
  the extensions of \<^verbatim>\<open>LUA_UGMEE\<close> (\<^verbatim>\<open>luaconf.h\<close>): the operators written as in C,
  C comments, bit operations, \<open>!=\<close> and \<open>!\<close>.

  The program is a library of components around a state \<open>lua_State\<close>. The lexer
  (\<^verbatim>\<open>llex.c\<close>) and the parser (\<^verbatim>\<open>lparser.c\<close>, \<^verbatim>\<open>lcode.c\<close>) turn a chunk into
  function prototypes, the loader (\<^verbatim>\<open>lundump.c\<close>) reads precompiled ones, \<^verbatim>\<open>ldebug.c\<close>
  checks the bytecode, the machine (\<^verbatim>\<open>lvm.c\<close>, \<^verbatim>\<open>ldo.c\<close>) runs it over values
  (\<^verbatim>\<open>lobject.c\<close>), tables (\<^verbatim>\<open>ltable.c\<close>), strings (\<^verbatim>\<open>lstring.c\<close>) and closures
  (\<^verbatim>\<open>lfunc.c\<close>) that the collector (\<^verbatim>\<open>lgc.c\<close>) reclaims, and the library files give
  the functions that Lua programs call.

  Theories:

  \<^item> \<open>LuaPrelude\<close>: machine types, the result type of operations that raise errors, shared lemmas.
  \<^item> \<open>LuaNumber\<close>: \<open>lua_Number\<close>, an IEEE double as its 64-bit pattern, with the macros of
    \<^verbatim>\<open>luaconf.h\<close> that the modelled code uses.
  \<^item> \<open>LuaObject\<close>: tagged values and \<^verbatim>\<open>lobject.c\<close>. \<open>LuaOpcodes\<close>: the instruction
    format and the opcode tables of \<^verbatim>\<open>lopcodes.h\<close> and \<^verbatim>\<open>lopcodes.c\<close>.
    \<open>LuaObjectProps\<close> states their properties.
  \<^item> \<open>LuaTable\<close>: the operations of \<^verbatim>\<open>ltable.c\<close> on the record \<open>Table\<close>.
    \<open>LuaTableInv\<close> has the invariant of the node vector and the three ways a key enters it, proved
    in the locale \<open>node_hash\<close> for any hash function that respects raw equality;
    \<open>LuaTableOps\<close> interprets it on \<open>mainposition\<close>, states the invariant \<open>table_inv\<close> of a
    table and the reference \<open>lookup\<close>; \<open>LuaTableRehash\<close>, \<open>LuaTableSet\<close>,
    \<open>LuaTableResize\<close> and \<open>LuaTableCount\<close> prove that insertion and rehash keep both and
    return; \<open>LuaTableGetn\<close> and \<open>LuaTableNext\<close> treat the length, the traversal and the
    clearing of entries; \<open>LuaTableProps\<close> states the properties.
  \<^item> \<open>LuaCtype\<close>, \<open>LuaPattern\<close>: the pattern matcher of \<^verbatim>\<open>lstrlib.c\<close> over its \<open>MatchState\<close>.
    \<open>LuaPatternSpec\<close> is the declarative meaning of patterns, \<open>LuaPatternCorrect\<close> and
    \<open>LuaPatternMatch\<close> prove that the matcher decides it, once in the locale \<open>matcher_step\<close>
    for any call of itself that does, and \<open>LuaPatternTotal\<close> that it returns.
  \<^item> \<open>LuaStrlib\<close> and \<open>LuaGsub\<close>: the functions of \<^verbatim>\<open>lstrlib.c\<close>; \<open>LuaStrlibSpec\<close>,
    \<open>LuaGsubSpec\<close> and \<open>LuaStrlibProps\<close> have what they compute.
  \<^item> \<open>LuaProto\<close> and \<open>LuaCheck\<close>: prototypes and the checker of \<^verbatim>\<open>ldebug.c\<close>;
    \<open>LuaCheckSpec\<close> says where control goes and what an instruction names, \<open>LuaCheckFlow\<close>
    that accepted code keeps control inside; \<open>LuaDebugNames\<close> models the search for the names of
    values and \<open>LuaCheckProps\<close> states the properties.
  \<^item> \<open>LuaZio\<close>: buffered input. \<open>LuaDump\<close> and \<open>LuaUndump\<close>: \<^verbatim>\<open>ldump.c\<close> and
    \<^verbatim>\<open>lundump.c\<close>; \<open>LuaDumpSpec\<close> is the format as a list of blocks, \<open>LuaUndumpSpec\<close> has the
    law that each kind of item is read back (locale \<open>item_codec\<close> for lists of items),
    \<open>LuaUndumpTotal\<close> what the loader does on arbitrary bytes, \<open>LuaDumpProps\<close> the properties.

  \<^item> \<open>LuaFormat\<close>: messages and numerals (\<open>luaO_pushvfstring\<close>, \<open>luaO_str2d\<close>).
    \<open>LuaLex\<close>: \<^verbatim>\<open>llex.c\<close> over the record \<open>LexState\<close>, its loops terminating by the bytes
    left in the stream. \<open>LuaLexSpec\<close> proves of each function that it takes a prefix of the input or
    raises a syntax error, \<open>LuaLexProps\<close> has the properties.

  \<^item> \<open>LuaState\<close>: the objects of the collector and the records \<open>lua_State\<close> and
    \<open>global_State\<close>; the heap maps addresses to objects with their mark, and the lists linked through
    objects are lists of addresses. \<open>LuaMark\<close>, \<open>LuaString\<close> and \<open>LuaSweep\<close>: \<^verbatim>\<open>lgc.c\<close>,
    \<^verbatim>\<open>lstring.c\<close>, \<^verbatim>\<open>lfunc.c\<close> and the threads of \<^verbatim>\<open>lstate.c\<close>. \<open>LuaMarkSpec\<close> has
    the references between objects and the invariant of marking, \<open>LuaMarkInv\<close> the assignments that
    keep it, \<open>LuaMarkFlow\<close>, \<open>LuaMarkTraverse\<close>, \<open>LuaPropagate\<close>, \<open>LuaAtomic\<close> and
    \<open>LuaCollect\<close> follow the mark phase to its end, \<open>LuaIncremental\<close> adds the writes of the
    program in between as a step relation, \<open>LuaSweepSafe\<close> that the sweep frees nothing alive,
    and \<open>LuaGCProps\<close> has the properties. The barrier of a new key is made where a table of the heap
    is changed (\<open>finish_set\<close> in \<open>LuaDo\<close>), since it changes marks and not the table. What steps leave
    alone is stated in the locales \<open>state_frame\<close> and \<open>mark_frame\<close>.

  \<^item> \<open>LuaTabLib\<close>: the table library (\<^verbatim>\<open>ltablib.c\<close>) as steps on the table it works on.
    \<open>LuaTabLibSpec\<close> proves quicksort correct in the locale \<open>sorting\<close>, for any comparison that
    decides a strict weak order, and \<open>LuaTabLibProps\<close> has the properties.

  \<^item> \<open>LuaArith\<close>: the rest of the arithmetic of \<^verbatim>\<open>luaconf.h\<close>. \<open>LuaDo\<close> and
    \<open>LuaCall\<close>: errors, calls, protected calls and coroutines of \<^verbatim>\<open>ldo.c\<close> and
    \<^verbatim>\<open>ldebug.c\<close>, as steps on the heap of the collector that return, throw a status with the
    state at that point, exceed their fuel, or are undefined. \<open>LuaVM\<close> and \<open>LuaExecute\<close>:
    \<^verbatim>\<open>lvm.c\<close>; \<open>vm_step\<close> is one turn of the loop of \<open>luaV_execute\<close>, and \<open>luaD_call\<close>
    and the loop call each other under a fuel that bounds turns and depth. \<open>LuaVMSpec\<close> says what
    the basic steps read and write, \<open>LuaUpval\<close> that closing upvalues keeps their values,
    \<open>LuaCallProps\<close> has the properties of calls. \<open>LuaMachine\<close> ties the turns of the machine to
    the successors of the checker, \<open>LuaRegisters\<close> proves the instructions on registers and upvalues
    type safe and allowed by the collector, \<open>LuaCompare\<close> treats the order of strings (an
    interpretation of \<open>sort_order\<close>) and indexing through metatables, and \<open>LuaVMProps\<close> has the
    properties.

  \<^item> \<open>LuaCode\<close>: the code generator (\<^verbatim>\<open>lcode.c\<close>) as steps on \<open>PState\<close>, the lexer with the
    function that is compiled (\<open>FuncState\<close>) and those around it. \<open>LuaParser\<close>: \<^verbatim>\<open>lparser.c\<close>; a
    statement and an expression call each other to the depth of C calls that the code allows, which
    is the fuel. \<open>LuaJumps\<close> has what lists of pending jumps are and what joining and patching
    them does, \<open>LuaCompileProps\<close> the properties and programs that show errors of the compiler.

  Conventions. \<open>int\<close> of C is \<open>int\<close> with its range written out where the code relies on
  it, \<open>unsigned int\<close> and pointers are words. An operation that can raise a Lua error returns
  \<open>result\<close>: \<open>Err\<close> is the error with its message, \<open>Diverge\<close> a loop of the code that
  does not end, \<open>Undef\<close> a step the C standard leaves undefined. Allocation succeeds.
  A walk along a hash chain has as fuel the number of nodes, since a longer one repeats a node;
  \<open>newkey\<close> has depth 2, an insertion and the insertions of the rehash it makes; the linear
  search of \<open>unbound_search\<close> has \<open>MAX_INT\<close> steps; \<open>reallymarkobject\<close> calls itself to
  depth 3, an upvalue, the userdata in it and the metatable of that. The properties prove that each of
  these is enough. \<open>luaC_step\<close>, \<open>luaC_fullgc\<close> and \<open>luaC_callGCTM\<close> have a bound on their
  steps as an argument, as a finalizer may make work for another.

  The platform is the one the makefile builds for: \<open>int\<close> has 32 bits, pointers and
  \<open>size_t\<close> have 64, bytes are stored least significant first, and the conversion of a double
  to \<open>int\<close> gives \<open>INT_MIN\<close> out of range.

  The machine is given what is not Lua's own code: the C functions and hooks by address, the
  address the allocator returns, \<open>strcoll\<close>, \<open>pow\<close> and the conversion of numbers to text
  (record \<open>env\<close>).

  Not modelled: the protected parser, the functions of the debug
  interface, the C API apart from what the modelled libraries use of it, the base, mathematics, I/O,
  operating system, package and debug libraries, which wrap the C API and the C library, the
  programs \<^verbatim>\<open>lua.c\<close>, \<^verbatim>\<open>luac.c\<close> and \<^verbatim>\<open>print.c\<close>, and the Lua scripts under \<^verbatim>\<open>src/lua\<close>. Of the parser and
  code generator only the lists of jumps and constant folding have properties; that the
  code they give is accepted by the checker is not stated, and false (\<open>minus_nil_rejected\<close>).
\<close>

end
